(* ===== verification/Prelude.thy ===== *)
theory Prelude
  imports Main "HOL-Library.Word"
begin

text \<open>
  Shared vocabulary of the development.  It holds the machine types of the C code
  (\<open>u8\<close> to \<open>u64\<close>, sizes as \<open>nat\<close> with the wrap-around of \<open>size_t\<close> written out by
  \<open>wrap64\<close>), the result type of C functions that return 0 on failure and update the
  object they are called on (\<open>op\<close>, with its combinators), big- and little-endian
  byte strings of natural numbers, blocks of memory as byte lists, and the
  allocator, which is a parameter of every operation that allocates.
\<close>

unbundle bit_operations_syntax

section \<open>Machine types\<close>

type_synonym u8 = "8 word"
type_synonym u16 = "16 word"
type_synonym u32 = "32 word"
type_synonym u64 = "64 word"

named_theorems op_simps \<open>evaluation of the combinators of stateful operations\<close>
named_theorems byte_simps \<open>byte strings of numbers\<close>
named_theorems mem_simps \<open>writes to blocks of memory\<close>

definition wrap64 :: "nat \<Rightarrow> nat" where
  "wrap64 n = n mod 2 ^ 64"

lemma wrap64_less [simp]: "n < 2 ^ 64 \<Longrightarrow> wrap64 n = n"
  by (simp add: wrap64_def)

lemma wrap64_bound: "wrap64 n < 2 ^ 64"
  by (simp add: wrap64_def)

lemma wrap64_le: "wrap64 n \<le> n"
  by (simp add: wrap64_def)

lemma wrap64_add_overflow:
  assumes "a < 2 ^ 64" and "b < 2 ^ 64"
  shows "wrap64 (a + b) < a \<longleftrightarrow> 2 ^ 64 \<le> a + b"
proof (cases "a + b < 2 ^ 64")
  case True
  then show ?thesis by simp
next
  case False
  then have "wrap64 (a + b) = a + b - 2 ^ 64"
    using assms by (simp add: wrap64_def mod_if)
  with False assms show ?thesis by linarith
qed

section \<open>Operations that may fail and update their object\<close>

text \<open>
  A C function \<open>int f(T *s, ..., A *out)\<close> that returns one and sets \<open>*out\<close>, or returns
  zero, is a function from the state of \<open>s\<close> to the result and the new state: \<open>Some a\<close>
  for a return of one with \<open>*out = a\<close>, \<open>None\<close> for a return of zero.  The state is
  also returned on failure, since the code may have advanced it before it failed.
\<close>

type_synonym ('s, 'a) op = "'s \<Rightarrow> 'a option \<times> 's"

definition op_ret :: "'a \<Rightarrow> ('s, 'a) op" where
  "op_ret x s = (Some x, s)"

definition op_fail :: "('s, 'a) op" where
  "op_fail s = (None, s)"

definition op_bind :: "('s, 'a) op \<Rightarrow> ('a \<Rightarrow> ('s, 'b) op) \<Rightarrow> ('s, 'b) op" where
  "op_bind m f s = (case m s of (None, s') \<Rightarrow> (None, s') | (Some x, s') \<Rightarrow> f x s')"

definition op_check :: "bool \<Rightarrow> ('s, unit) op" where
  "op_check p = (if p then op_ret () else op_fail)"

lemma op_ret_iff [op_simps]: "op_ret x s = (r, t) \<longleftrightarrow> r = Some x \<and> t = s"
  by (auto simp: op_ret_def)

lemma op_fail_iff [op_simps]: "op_fail s = (r, t) \<longleftrightarrow> r = None \<and> t = s"
  by (auto simp: op_fail_def)

lemma op_bind_Some_iff [op_simps]:
  "op_bind m f s = (Some y, t) \<longleftrightarrow> (\<exists>x s'. m s = (Some x, s') \<and> f x s' = (Some y, t))"
  by (auto simp: op_bind_def split: prod.splits option.splits)

lemma op_bind_Some [op_simps]: "m s = (Some x, s') \<Longrightarrow> op_bind m f s = f x s'"
  by (simp add: op_bind_def)

lemma op_bind_None [op_simps]: "m s = (None, s') \<Longrightarrow> op_bind m f s = (None, s')"
  by (simp add: op_bind_def)

lemma op_check_iff [op_simps]:
  "op_check p s = (Some u, t) \<longleftrightarrow> p \<and> t = s"
  by (auto simp: op_check_def op_simps)

lemma op_check_simps [op_simps]: "op_check True = op_ret ()" "op_check False = op_fail"
  by (simp_all add: op_check_def)

lemma op_bind_ret_left [simp]: "op_bind (op_ret x) f = f x"
  by (rule ext) (simp add: op_bind_def op_ret_def)

lemma op_bind_assoc: "op_bind (op_bind m f) g = op_bind m (\<lambda>x. op_bind (f x) g)"
  by (rule ext) (auto simp: op_bind_def split: prod.splits option.splits)

section \<open>Byte strings of numbers\<close>

definition be_nat :: "u8 list \<Rightarrow> nat" where
  "be_nat bs = foldl (\<lambda>n b. n * 256 + unat b) 0 bs"

fun be_bytes :: "nat \<Rightarrow> nat \<Rightarrow> u8 list" where
  "be_bytes 0 v = []"
| "be_bytes (Suc n) v = be_bytes n (v div 256) @ [of_nat v]"

definition le_nat :: "u8 list \<Rightarrow> nat" where
  "le_nat bs = be_nat (rev bs)"

lemma be_nat_Nil [byte_simps]: "be_nat [] = 0"
  by (simp add: be_nat_def)

lemma be_nat_snoc [byte_simps]: "be_nat (bs @ [b]) = be_nat bs * 256 + unat b"
  by (simp add: be_nat_def)

lemma le_nat_Nil [byte_simps]: "le_nat [] = 0"
  by (simp add: le_nat_def byte_simps)

lemma le_nat_Cons [byte_simps]: "le_nat (b # bs) = le_nat bs * 256 + unat b"
  by (simp add: le_nat_def byte_simps)

lemma unat_u8_less [simp]: "unat (b :: u8) < 256"
  using unsigned_less [of b] by simp

lemma unat_u64_less: "unat (v :: u64) < 2 ^ 64"
  using unsigned_less [of v, where 'a = nat] by simp

lemma be_nat_bound: "be_nat bs < 256 ^ length bs"
proof (induction bs rule: rev_induct)
  case Nil
  show ?case by (simp add: byte_simps)
next
  case (snoc b bs)
  have "be_nat bs * 256 + unat b < (be_nat bs + 1) * 256"
    using unat_u8_less [of b] by simp
  also have "\<dots> \<le> 256 ^ length bs * 256"
    using snoc by (intro mult_right_mono) simp_all
  finally show ?case by (simp add: byte_simps mult.commute)
qed

lemma pow256: "(256 :: nat) ^ n = 2 ^ (n * 8)"
  using power_mult [of "2 :: nat" 8 n] by (simp add: mult.commute)

lemma length_be_bytes [simp]: "length (be_bytes n v) = n"
  by (induction n v rule: be_bytes.induct) simp_all

lemma unat_of_nat_u8: "unat (of_nat v :: u8) = v mod 256"
  by (simp add: unat_of_nat)

lemma be_nat_be_bytes: "be_nat (be_bytes n v) = v mod 256 ^ n"
proof (induction n v rule: be_bytes.induct)
  case (1 v)
  show ?case by (simp add: byte_simps)
next
  case (2 n v)
  then show ?case
    by (simp add: byte_simps unat_of_nat_u8 mod_mult2_eq)
qed

lemma be_nat_be_bytes_id [simp]: "v < 256 ^ n \<Longrightarrow> be_nat (be_bytes n v) = v"
  by (simp add: be_nat_be_bytes)

lemma be_bytes_be_nat [simp]: "be_bytes (length bs) (be_nat bs) = bs"
proof (induction bs rule: rev_induct)
  case Nil
  show ?case by simp
next
  case (snoc b bs)
  have "(be_nat bs * 256 + unat b) div 256 = be_nat bs"
    using unat_u8_less [of b] by simp
  moreover have "(of_nat (be_nat bs * 256 + unat b) :: u8) = b"
  proof -
    have "unat (of_nat (be_nat bs * 256 + unat b) :: u8) = unat b"
      unfolding unat_of_nat_u8 using unat_u8_less [of b] by simp
    then show ?thesis by (rule word_unat_eq_iff [THEN iffD2])
  qed
  ultimately show ?case
    using snoc by (simp add: byte_simps)
qed

lemma be_nat_inject: "length xs = length ys \<Longrightarrow> be_nat xs = be_nat ys \<Longrightarrow> xs = ys"
  by (metis be_bytes_be_nat)

lemma be_nat_append: "be_nat (xs @ ys) = be_nat xs * 256 ^ length ys + be_nat ys"
proof (induction ys rule: rev_induct)
  case Nil
  show ?case by (simp add: byte_simps)
next
  case (snoc y ys)
  then show ?case
    using be_nat_snoc [of "xs @ ys" y] by (simp add: byte_simps algebra_simps)
qed

lemma be_nat_Cons: "be_nat (x # xs) = unat x * 256 ^ length xs + be_nat xs"
  using be_nat_append [of "[x]" xs] by (simp add: be_nat_def)

section \<open>Shifts and disjunctions that are sums\<close>

lemma push_bit_or_nat: "(y :: nat) < 2 ^ n \<Longrightarrow> push_bit n x OR y = x * 2 ^ n + y"
proof -
  assume y: "y < 2 ^ n"
  then have "take_bit n y = y" by (simp add: take_bit_nat_eq_self)
  then have "push_bit n x AND take_bit n y = push_bit n x AND y" by simp
  moreover have "push_bit n x AND take_bit n y = 0"
    by (rule bit_eqI) (auto simp: bit_simps)
  ultimately show ?thesis
    by (simp add: disjunctive_add_eq_or [symmetric] push_bit_eq_mult)
qed

lemma unat_push_or:
  fixes r c :: "'a::len word"
  assumes "unat c < 2 ^ n" and "unat r * 2 ^ n + unat c < 2 ^ LENGTH('a)"
  shows "unat (push_bit n r OR c) = unat r * 2 ^ n + unat c"
proof -
  have "unat (push_bit n r) = push_bit n (unat r)"
    using assms(2)
    by (simp only: unsigned_push_bit_eq push_bit_eq_mult [where 'a = nat] take_bit_nat_eq_self)
  then show ?thesis
    using assms(1) by (simp add: unsigned_or_eq push_bit_or_nat)
qed

lemma unat_ucast_up [simp]:
  "LENGTH('a) \<le> LENGTH('b) \<Longrightarrow> unat (ucast (w :: 'a::len word) :: 'b::len word) = unat w"
proof -
  assume le: "LENGTH('a) \<le> LENGTH('b)"
  have "unat w < 2 ^ LENGTH('a)" by (rule unsigned_less)
  also have "\<dots> \<le> 2 ^ LENGTH('b)" using le by (rule power_increasing) simp
  finally show ?thesis by (simp add: unsigned_ucast_eq take_bit_nat_eq_self)
qed

lemma unat_ucast_small:
  "unat (w :: 'a::len word) < 2 ^ LENGTH('b) \<Longrightarrow> unat (ucast w :: 'b::len word) = unat w"
  by (simp add: unsigned_ucast_eq unsigned_take_bit_eq take_bit_nat_eq_self)

section \<open>Bits of words\<close>

lemma top_bit_u8: "(b :: u8) AND 0x80 = 0 \<longleftrightarrow> unat b < 128"
proof -
  have "b AND 0x80 = 0 \<longleftrightarrow> \<not> bit b 7"
    using and_exp_eq_0_iff_not_bit [of b 7] by simp
  also have "bit b 7 \<longleftrightarrow> bit (unat b) 7"
    by (simp add: bit_unsigned_iff)
  also have "\<dots> \<longleftrightarrow> odd (unat b div 2 ^ 7)"
    by (rule bit_iff_odd)
  also have "(\<not> odd (unat b div 2 ^ 7)) \<longleftrightarrow> unat b < 128"
  proof -
    have "unat b div 128 = 0 \<or> unat b div 128 = 1"
      using unat_u8_less [of b] by linarith
    then show ?thesis by auto
  qed
  finally show ?thesis .
qed

lemma unat_and_mask: "unat ((w :: 'a::len word) AND mask n) = unat w mod 2 ^ n"
  by (metis take_bit_eq_mask unsigned_take_bit_eq take_bit_eq_mod)

lemma mask_7_u8: "unat ((b :: u8) AND 0x7f) = unat b mod 128"
  using unat_and_mask [of b 7] by (simp add: mask_eq_exp_minus_1)

lemma mask_5_u8: "unat ((b :: u8) AND 0x1f) = unat b mod 32"
  using unat_and_mask [of b 5] by (simp add: mask_eq_exp_minus_1)

lemma unat_drop_bit: "unat (drop_bit n (w :: 'a::len word)) = unat w div 2 ^ n"
  by (rule trans [OF unat_drop_bit_eq drop_bit_eq_div])

lemma drop_bit_eq_0_iff: "drop_bit n (w :: 'a::len word) = 0 \<longleftrightarrow> unat w < 2 ^ n"
proof -
  have "drop_bit n w = 0 \<longleftrightarrow> unat w div 2 ^ n = 0"
    by (simp add: word_unat_eq_iff unat_drop_bit)
  also have "\<dots> \<longleftrightarrow> unat w < 2 ^ n"
    by (simp add: div_eq_0_iff)
  finally show ?thesis .
qed

lemma u8_of_unat: "unat (b :: u8) = n \<Longrightarrow> b = of_nat n"
  by (metis of_nat_unat ucast_id)

section \<open>Blocks of memory\<close>

text \<open>
  A block of memory is the list of its bytes.  \<open>mem_write m off bs\<close> is a copy of \<open>bs\<close>
  to offset \<open>off\<close>; every use is inside the block.
\<close>

definition mem_write :: "'a list \<Rightarrow> nat \<Rightarrow> 'a list \<Rightarrow> 'a list" where
  "mem_write m off bs = take off m @ bs @ drop (off + length bs) m"

lemma length_mem_write [simp]:
  "off + length bs \<le> length m \<Longrightarrow> length (mem_write m off bs) = length m"
  by (simp add: mem_write_def)

lemma mem_write_Nil [simp]: "off \<le> length m \<Longrightarrow> mem_write m off [] = m"
  by (simp add: mem_write_def)

lemma take_mem_write_before [mem_simps]:
  "n \<le> off \<Longrightarrow> off \<le> length m \<Longrightarrow> take n (mem_write m off bs) = take n m"
  by (simp add: mem_write_def)

lemma take_mem_write_inside [mem_simps]:
  "off + length bs \<le> n \<Longrightarrow> n \<le> length m \<Longrightarrow>
     take n (mem_write m off bs) = take off m @ bs @ drop (off + length bs) (take n m)"
  by (simp add: mem_write_def drop_take)

lemma take_mem_write_end [mem_simps]:
  "off \<le> length m \<Longrightarrow> take (off + length bs) (mem_write m off bs) = take off m @ bs"
  by (simp add: mem_write_def)

section \<open>The allocator\<close>

text \<open>
  The C library's \<open>malloc\<close> is a parameter: \<open>ml n\<close> is \<open>None\<close> when the allocation of
  \<open>n\<close> bytes fails and otherwise the (arbitrary) initial contents of the block.
  \<open>malloc_ok\<close> is its documented behaviour: a block has the size asked for, and no
  object is larger than \<open>PTRDIFF_MAX\<close>.
\<close>

type_synonym allocator = "nat \<Rightarrow> u8 list option"

abbreviation ptrdiff_max :: nat where
  "ptrdiff_max \<equiv> 2 ^ 63 - 1"

definition malloc_ok :: "allocator \<Rightarrow> bool" where
  "malloc_ok ml \<longleftrightarrow> (\<forall>n m. ml n = Some m \<longrightarrow> length m = n \<and> n \<le> ptrdiff_max)"

definition zero_malloc :: allocator where
  "zero_malloc n = (if n \<le> ptrdiff_max then Some (replicate n 0) else None)"

lemma malloc_okD: "malloc_ok ml \<Longrightarrow> ml n = Some m \<Longrightarrow> length m = n \<and> n \<le> ptrdiff_max"
  by (simp add: malloc_ok_def)

lemma zero_malloc_ok [simp]: "malloc_ok zero_malloc"
  by (simp add: malloc_ok_def zero_malloc_def)

text \<open>
  An array of \<open>n\<close> pointers of 8 bytes each comes from the same allocator; its cells
  hold arbitrary pointers.  Sizes that wrap around are outside \<open>ptr_malloc_ok\<close>.
\<close>

type_synonym 'p ptr_malloc = "nat \<Rightarrow> 'p list option"

definition ptr_malloc_ok :: "'p ptr_malloc \<Rightarrow> bool" where
  "ptr_malloc_ok pm \<longleftrightarrow>
     (\<forall>n m. n + 1 < 2 ^ 61 \<longrightarrow> pm n = Some m \<longrightarrow> length m = n \<and> 8 * n + 8 \<le> ptrdiff_max)"

definition null_malloc :: "'p option ptr_malloc" where
  "null_malloc n = (if 8 * n + 8 \<le> ptrdiff_max then Some (replicate n None) else None)"

lemma ptr_malloc_okD:
  "ptr_malloc_ok pm \<Longrightarrow> n + 1 < 2 ^ 61 \<Longrightarrow> pm n = Some m \<Longrightarrow> length m = n \<and> 8 * n + 8 \<le> ptrdiff_max"
  by (simp add: ptr_malloc_ok_def)

lemma null_malloc_ok [simp]: "ptr_malloc_ok null_malloc"
  by (simp add: ptr_malloc_ok_def null_malloc_def)

end
