(* ===== verification/Mem.thy ===== *)
theory Mem
  imports Prelude
begin

text \<open>
  \<open>crypto/mem.c\<close>: the allocator wrapper, which hides the size of a block in an 8-byte
  prefix, the constant-time comparison, the FNV-1a hash and the string helpers that
  the rest of the library uses.

  A block handed out by \<open>OPENSSL_malloc\<close> is the list of the bytes its owner may use;
  the size the code keeps in the prefix is the length of that list.  A C string is a
  block in which a zero byte ends the string; a function that would read past the
  end of the block is undefined there, which is \<open>None\<close>.
\<close>

section \<open>Allocation\<close>

definition OPENSSL_malloc :: "allocator \<Rightarrow> nat \<Rightarrow> u8 list option" where
  "OPENSSL_malloc ml sz =
     (case ml (wrap64 (sz + 8)) of None \<Rightarrow> None | Some ptr \<Rightarrow> Some (drop 8 ptr))"

definition OPENSSL_realloc :: "allocator \<Rightarrow> u8 list option \<Rightarrow> nat \<Rightarrow> u8 list option" where
  "OPENSSL_realloc ml orig_ptr new_size =
     (case orig_ptr of
        None \<Rightarrow> OPENSSL_malloc ml new_size
      | Some p \<Rightarrow>
          (case OPENSSL_malloc ml new_size of
             None \<Rightarrow> None
           | Some ret \<Rightarrow>
               let old_size = length p;
                   to_copy = (if old_size < new_size then old_size else new_size)
               in Some (mem_write ret 0 (take to_copy p))))"

definition OPENSSL_memdup :: "allocator \<Rightarrow> u8 list \<Rightarrow> u8 list option" where
  "OPENSSL_memdup ml data =
     (if length data = 0 then None
      else (case OPENSSL_malloc ml (length data) of
              None \<Rightarrow> None
            | Some ret \<Rightarrow> Some (mem_write ret 0 data)))"

lemma OPENSSL_malloc_length:
  assumes "malloc_ok ml" and "OPENSSL_malloc ml n = Some m" and "n + 8 < 2 ^ 64"
  shows "length m = n \<and> n + 8 \<le> ptrdiff_max"
  using assms by (auto simp: OPENSSL_malloc_def dest: malloc_okD split: option.splits)

lemma OPENSSL_malloc_zero [simp]:
  "n + 8 \<le> ptrdiff_max \<Longrightarrow> OPENSSL_malloc zero_malloc n = Some (replicate n 0)"
  by (simp add: OPENSSL_malloc_def zero_malloc_def)

lemma OPENSSL_realloc_length:
  assumes "malloc_ok ml" and "OPENSSL_realloc ml (Some p) n = Some m" and "n + 8 < 2 ^ 64"
  shows "length m = n \<and> n + 8 \<le> ptrdiff_max"
  using assms
  by (auto simp: OPENSSL_realloc_def Let_def dest!: OPENSSL_malloc_length split: option.splits)

lemma OPENSSL_realloc_contents:
  assumes "malloc_ok ml" and "OPENSSL_realloc ml (Some p) n = Some m" and "n + 8 < 2 ^ 64"
    and "k \<le> length p" and "k \<le> n"
  shows "take k m = take k p"
proof -
  obtain ret where ret: "OPENSSL_malloc ml n = Some ret"
    and m: "m = mem_write ret 0 (take (min (length p) n) p)"
    using assms(2) by (auto simp: OPENSSL_realloc_def Let_def min_def split: option.splits if_splits)
  have "k \<le> min (length p) n" using assms(4,5) by simp
  then show ?thesis by (simp add: m mem_write_def)
qed

lemma OPENSSL_memdup_Some:
  assumes "malloc_ok ml" and "OPENSSL_memdup ml d = Some m" and "length d + 8 < 2 ^ 64"
  shows "m = d"
  using assms
  by (auto simp: OPENSSL_memdup_def mem_write_def dest!: OPENSSL_malloc_length
      split: option.splits if_splits)

text \<open>The size \<open>size + OPENSSL_MALLOC_PREFIX\<close> is not checked for overflow.\<close>

lemma OPENSSL_malloc_wraps:
  assumes "malloc_ok ml" and "2 ^ 64 \<le> n + 8" and "n < 2 ^ 64" and "OPENSSL_malloc ml n = Some m"
  shows "m = []"
proof -
  have "wrap64 (n + 8) = n + 8 - 2 ^ 64"
    using assms(2,3) by (simp add: wrap64_def mod_if)
  with assms(3) have "wrap64 (n + 8) < 8" by simp
  with assms(1,4) show ?thesis
    by (auto simp: OPENSSL_malloc_def dest!: malloc_okD split: option.splits)
qed

section \<open>Comparison and hashing\<close>

definition CRYPTO_memcmp :: "u8 list \<Rightarrow> u8 list \<Rightarrow> u8" where
  "CRYPTO_memcmp a b = foldl (\<lambda>x (p, q). x OR (p XOR q)) 0 (zip a b)"

definition OPENSSL_hash32 :: "u8 list \<Rightarrow> u32" where
  "OPENSSL_hash32 bs = foldl (\<lambda>h b. (h XOR ucast b) * 16777619) 2166136261 bs"

lemma or_eq_0_iff_word: "(x :: 'a::len word) OR y = 0 \<longleftrightarrow> x = 0 \<and> y = 0"
  by (auto simp: bit_eq_iff bit_simps)

lemma xor_eq_0_iff_word: "(x :: 'a::len word) XOR y = 0 \<longleftrightarrow> x = y"
  by (auto simp: bit_eq_iff bit_simps)

lemma CRYPTO_memcmp_loop:
  "length a = length b \<Longrightarrow>
     foldl (\<lambda>x (p, q). x OR (p XOR q)) x (zip a b) = (0 :: u8) \<longleftrightarrow> x = 0 \<and> a = b"
proof (induction a b arbitrary: x rule: list_induct2)
  case Nil
  show ?case by simp
next
  case (Cons p a q b)
  then show ?case by (auto simp: or_eq_0_iff_word xor_eq_0_iff_word)
qed

lemma CRYPTO_memcmp_eq_0: "length a = length b \<Longrightarrow> CRYPTO_memcmp a b = 0 \<longleftrightarrow> a = b"
  by (simp add: CRYPTO_memcmp_def CRYPTO_memcmp_loop)

text \<open>\<open>memcmp\<close> of the C library: the sign of the first difference, read as unsigned.\<close>

fun mem_cmp :: "u8 list \<Rightarrow> u8 list \<Rightarrow> int" where
  "mem_cmp (a # as) (b # bs) = (if a = b then mem_cmp as bs else if a < b then - 1 else 1)"
| "mem_cmp _ _ = 0"

section \<open>Strings\<close>

fun OPENSSL_strnlen :: "u8 list \<Rightarrow> nat \<Rightarrow> nat option" where
  "OPENSSL_strnlen s 0 = Some 0"
| "OPENSSL_strnlen [] (Suc n) = None"
| "OPENSSL_strnlen (c # s) (Suc n) =
     (if c = 0 then Some 0 else map_option Suc (OPENSSL_strnlen s n))"

definition OPENSSL_tolower :: "int \<Rightarrow> int" where
  "OPENSSL_tolower c = (if c \<ge> 65 \<and> c \<le> 90 then c + (97 - 65) else c)"

text \<open>\<open>char\<close> is signed on the targets of the app, so characters are read by \<open>sint\<close>.\<close>

fun OPENSSL_strcasecmp :: "u8 list \<Rightarrow> u8 list \<Rightarrow> int option" where
  "OPENSSL_strcasecmp (a # as) (b # bs) =
     (let aa = OPENSSL_tolower (sint a); bb = OPENSSL_tolower (sint b)
      in if aa < bb then Some (- 1) else if aa > bb then Some 1
         else if aa = 0 then Some 0 else OPENSSL_strcasecmp as bs)"
| "OPENSSL_strcasecmp _ _ = None"

fun OPENSSL_strncasecmp :: "u8 list \<Rightarrow> u8 list \<Rightarrow> nat \<Rightarrow> int option" where
  "OPENSSL_strncasecmp as bs 0 = Some 0"
| "OPENSSL_strncasecmp (a # as) (b # bs) (Suc n) =
     (let aa = OPENSSL_tolower (sint a); bb = OPENSSL_tolower (sint b)
      in if aa < bb then Some (- 1) else if aa > bb then Some 1
         else if aa = 0 then Some 0 else OPENSSL_strncasecmp as bs n)"
| "OPENSSL_strncasecmp _ _ (Suc n) = None"

definition OPENSSL_strndup :: "allocator \<Rightarrow> u8 list option \<Rightarrow> nat \<Rightarrow> u8 list option" where
  "OPENSSL_strndup ml str sz =
     (case str of None \<Rightarrow> None
      | Some s \<Rightarrow>
         (case OPENSSL_strnlen s sz of None \<Rightarrow> None
          | Some n \<Rightarrow>
             let alloc_size = wrap64 (n + 1)
             in if alloc_size < n then None
                else (case OPENSSL_malloc ml alloc_size of None \<Rightarrow> None
                      | Some ret \<Rightarrow> Some (mem_write (mem_write ret 0 (take n s)) n [0]))))"

text \<open>
  \<open>OPENSSL_strlcpy\<close> copies into the block \<open>dst\<close>, which has at least \<open>dst_size\<close>
  bytes; the result is the length of \<open>src\<close> and the bytes written.
\<close>

fun c_strlen :: "u8 list \<Rightarrow> nat option" where
  "c_strlen [] = None"
| "c_strlen (c # s) = (if c = 0 then Some 0 else map_option Suc (c_strlen s))"

text \<open>The outer \<open>None\<close> is for a string without its zero, the inner one for a null pointer.\<close>

definition OPENSSL_strdup :: "allocator \<Rightarrow> u8 list option \<Rightarrow> u8 list option option" where
  "OPENSSL_strdup ml s =
     (case s of
        None \<Rightarrow> Some None
      | Some c \<Rightarrow>
          map_option (\<lambda>n. map_option (\<lambda>ret. mem_write ret 0 (take (n + 1) c)) (OPENSSL_malloc ml (n + 1)))
            (c_strlen c))"

fun strlcpy_loop :: "u8 list \<Rightarrow> nat \<Rightarrow> nat \<Rightarrow> (u8 list \<times> nat \<times> u8 list \<times> nat) option" where
  "strlcpy_loop [] l dst_size = (if dst_size > 1 then None else Some ([], dst_size, [], l))"
| "strlcpy_loop (c # src) l dst_size =
     (if dst_size > 1 \<and> c \<noteq> 0 then
        map_option (\<lambda>(w, r). (c # w, r)) (strlcpy_loop src (l + 1) (dst_size - 1))
      else Some ([], dst_size, c # src, l))"

definition OPENSSL_strlcpy :: "u8 list \<Rightarrow> u8 list \<Rightarrow> nat \<Rightarrow> (nat \<times> u8 list) option" where
  "OPENSSL_strlcpy dst src dst_size =
     (case strlcpy_loop src 0 dst_size of None \<Rightarrow> None
      | Some (written, left, src', l) \<Rightarrow>
          map_option
            (\<lambda>n. (l + n, mem_write dst 0 (written @ (if left \<noteq> 0 then [0] else []))))
            (c_strlen src'))"

fun strlcat_skip :: "u8 list \<Rightarrow> nat \<Rightarrow> nat option" where
  "strlcat_skip dst 0 = Some 0"
| "strlcat_skip [] (Suc n) = None"
| "strlcat_skip (c # dst) (Suc n) = (if c = 0 then Some 0 else map_option Suc (strlcat_skip dst n))"

definition OPENSSL_strlcat :: "u8 list \<Rightarrow> u8 list \<Rightarrow> nat \<Rightarrow> (nat \<times> u8 list) option" where
  "OPENSSL_strlcat dst src dst_size =
     (case strlcat_skip dst dst_size of None \<Rightarrow> None
      | Some l \<Rightarrow> map_option (\<lambda>(n, d). (l + n, take l dst @ d))
                    (OPENSSL_strlcpy (drop l dst) src (dst_size - l)))"

end
