(* ===== verification/Cbs.thy ===== *)
theory Cbs
  imports Mem
begin

text \<open>
  \<open>crypto/bytestring/cbs.c\<close>: the byte-string reader.  A \<open>CBS\<close> is a pointer and a
  length into memory that it never writes, so it is the list of the bytes it still has
  to read.  Every reader is an \<open>op\<close> on that list; on failure the list that is
  returned is the one the code leaves in \<open>*cbs\<close>.
\<close>

type_synonym cbs = "u8 list"
type_synonym 'a cbs_op = "(cbs, 'a) op"

section \<open>Constants of \<open>bytestring.h\<close>\<close>

definition CBS_ASN1_TAG_SHIFT :: nat where "CBS_ASN1_TAG_SHIFT = 24"
definition CBS_ASN1_CONSTRUCTED :: u32 where "CBS_ASN1_CONSTRUCTED = 0x20000000"
definition CBS_ASN1_TAG_NUMBER_MASK :: u32 where "CBS_ASN1_TAG_NUMBER_MASK = 0x1fffffff"
definition CBS_ASN1_BOOLEAN :: u32 where "CBS_ASN1_BOOLEAN = 1"
definition CBS_ASN1_INTEGER :: u32 where "CBS_ASN1_INTEGER = 2"
definition CBS_ASN1_OCTETSTRING :: u32 where "CBS_ASN1_OCTETSTRING = 4"

section \<open>Plain bytes\<close>

definition CBS_init :: "u8 list \<Rightarrow> nat \<Rightarrow> cbs" where
  "CBS_init data len = take len data"

definition cbs_get :: "nat \<Rightarrow> u8 list cbs_op" where
  "cbs_get n cbs = (if length cbs < n then (None, cbs) else (Some (take n cbs), drop n cbs))"

definition CBS_skip :: "nat \<Rightarrow> unit cbs_op" where
  "CBS_skip len = op_bind (cbs_get len) (\<lambda>dummy. op_ret ())"

definition CBS_data :: "cbs \<Rightarrow> u8 list" where
  "CBS_data cbs = cbs"

definition CBS_len :: "cbs \<Rightarrow> nat" where
  "CBS_len cbs = length cbs"

definition CBS_stow :: "allocator \<Rightarrow> cbs \<Rightarrow> u8 list option" where
  "CBS_stow ml cbs = (if CBS_len cbs = 0 then Some [] else OPENSSL_memdup ml (CBS_data cbs))"

definition CBS_strdup :: "allocator \<Rightarrow> cbs \<Rightarrow> u8 list option" where
  "CBS_strdup ml cbs = OPENSSL_strndup ml (Some (CBS_data cbs)) (CBS_len cbs)"

definition CBS_contains_zero_byte :: "cbs \<Rightarrow> bool" where
  "CBS_contains_zero_byte cbs \<longleftrightarrow> list_ex (\<lambda>b. b = 0) cbs"

definition CBS_mem_equal :: "cbs \<Rightarrow> u8 list \<Rightarrow> bool" where
  "CBS_mem_equal cbs data =
     (if length data \<noteq> CBS_len cbs then False else CRYPTO_memcmp (CBS_data cbs) data = 0)"

definition cbs_get_u :: "nat \<Rightarrow> u64 cbs_op" where
  "cbs_get_u len =
     op_bind (cbs_get len)
       (\<lambda>data. op_ret (foldl (\<lambda>result b. push_bit 8 result OR ucast b) 0 data))"

definition CBS_get_u8 :: "u8 cbs_op" where
  "CBS_get_u8 = op_bind (cbs_get 1) (\<lambda>v. op_ret (hd v))"

definition CBS_get_u16 :: "u16 cbs_op" where
  "CBS_get_u16 = op_bind (cbs_get_u 2) (\<lambda>v. op_ret (ucast v))"

definition CRYPTO_bswap2 :: "u16 \<Rightarrow> u16" where
  "CRYPTO_bswap2 x = drop_bit 8 x OR push_bit 8 x"

definition CRYPTO_bswap4 :: "u32 \<Rightarrow> u32" where
  "CRYPTO_bswap4 x =
     (let x = drop_bit 16 x OR push_bit 16 x
      in drop_bit 8 (x AND 0xff00ff00) OR push_bit 8 (x AND 0x00ff00ff))"

definition CRYPTO_bswap8 :: "u64 \<Rightarrow> u64" where
  "CRYPTO_bswap8 x =
     ucast (CRYPTO_bswap4 (ucast (drop_bit 32 x))) OR
     push_bit 32 (ucast (CRYPTO_bswap4 (ucast x)))"

definition CBS_get_u16le :: "u16 cbs_op" where
  "CBS_get_u16le = op_bind CBS_get_u16 (\<lambda>v. op_ret (CRYPTO_bswap2 v))"

definition CBS_get_u24 :: "u32 cbs_op" where
  "CBS_get_u24 = op_bind (cbs_get_u 3) (\<lambda>v. op_ret (ucast v))"

definition CBS_get_u32 :: "u32 cbs_op" where
  "CBS_get_u32 = op_bind (cbs_get_u 4) (\<lambda>v. op_ret (ucast v))"

definition CBS_get_u32le :: "u32 cbs_op" where
  "CBS_get_u32le = op_bind CBS_get_u32 (\<lambda>v. op_ret (CRYPTO_bswap4 v))"

definition CBS_get_u64 :: "u64 cbs_op" where
  "CBS_get_u64 = cbs_get_u 8"

definition CBS_get_u64le :: "u64 cbs_op" where
  "CBS_get_u64le = op_bind (cbs_get_u 8) (\<lambda>v. op_ret (CRYPTO_bswap8 v))"

definition CBS_get_last_u8 :: "u8 cbs_op" where
  "CBS_get_last_u8 cbs =
     (if CBS_len cbs = 0 then (None, cbs) else (Some (cbs ! (CBS_len cbs - 1)), butlast cbs))"

definition CBS_get_bytes :: "nat \<Rightarrow> cbs cbs_op" where
  "CBS_get_bytes len = op_bind (cbs_get len) (\<lambda>v. op_ret (CBS_init v len))"

definition CBS_copy_bytes :: "nat \<Rightarrow> u8 list cbs_op" where
  "CBS_copy_bytes len = op_bind (cbs_get len) (\<lambda>v. op_ret v)"

definition cbs_get_length_prefixed :: "nat \<Rightarrow> cbs cbs_op" where
  "cbs_get_length_prefixed len_len =
     op_bind (cbs_get_u len_len) (\<lambda>len. CBS_get_bytes (unat len))"

definition CBS_get_u8_length_prefixed :: "cbs cbs_op" where
  "CBS_get_u8_length_prefixed = cbs_get_length_prefixed 1"

definition CBS_get_u16_length_prefixed :: "cbs cbs_op" where
  "CBS_get_u16_length_prefixed = cbs_get_length_prefixed 2"

definition CBS_get_u24_length_prefixed :: "cbs cbs_op" where
  "CBS_get_u24_length_prefixed = cbs_get_length_prefixed 3"

section \<open>Base-128 integers, tags and elements\<close>

text \<open>
  The \<open>do ... while\<close> loop of \<open>parse_base128_integer\<close>: each turn is one
  \<open>CBS_get_u8\<close>, so the recursion is on the bytes left.
\<close>

fun parse_base128_loop :: "u64 \<Rightarrow> u64 cbs_op" where
  "parse_base128_loop v [] = (None, [])"
| "parse_base128_loop v (b # cbs) =
     (if drop_bit (64 - 7) v \<noteq> 0 then (None, cbs)
      else if v = 0 \<and> b = 0x80 then (None, cbs)
      else let v' = push_bit 7 v OR ucast (b AND 0x7f)
           in if b AND 0x80 \<noteq> 0 then parse_base128_loop v' cbs else (Some v', cbs))"

definition parse_base128_integer :: "u64 cbs_op" where
  "parse_base128_integer = parse_base128_loop 0"

definition parse_asn1_tag :: "u32 cbs_op" where
  "parse_asn1_tag =
     op_bind CBS_get_u8 (\<lambda>tag_byte.
       let tag = push_bit CBS_ASN1_TAG_SHIFT (ucast tag_byte AND 0xe0 :: u32);
           tag_number = ucast (tag_byte AND 0x1f) :: u32
       in if tag_number = 0x1f then
            op_bind parse_base128_integer (\<lambda>v.
              if v > ucast CBS_ASN1_TAG_NUMBER_MASK \<or> v < 0x1f then op_fail
              else op_ret (tag OR ucast v))
          else op_ret (tag OR tag_number))"

text \<open>
  An element is returned with its tag and the length of its header.  The code parses
  the header in a copy, so \<open>*cbs\<close> moves only when the whole element was read.
\<close>

definition cbs_get_any_asn1_element :: "bool \<Rightarrow> (cbs \<times> u32 \<times> nat) cbs_op" where
  "cbs_get_any_asn1_element ber_ok cbs =
     (case parse_asn1_tag cbs of
        (None, _) \<Rightarrow> (None, cbs)
      | (Some tag, header) \<Rightarrow>
     (case CBS_get_u8 header of
        (None, _) \<Rightarrow> (None, cbs)
      | (Some length_byte, header) \<Rightarrow>
     (let header_len = CBS_len cbs - CBS_len header
      in if length_byte AND 0x80 = 0 then
           op_bind (CBS_get_bytes (unat length_byte + header_len))
             (\<lambda>out. op_ret (out, tag, header_len)) cbs
         else
           let num_bytes = unat (length_byte AND 0x7f)
           in if ber_ok \<and> tag AND CBS_ASN1_CONSTRUCTED \<noteq> 0 \<and> num_bytes = 0 then
                op_bind (CBS_get_bytes header_len) (\<lambda>out. op_ret (out, tag, header_len)) cbs
              else if num_bytes = 0 \<or> num_bytes > 4 then (None, cbs)
              else
                (case cbs_get_u num_bytes header of
                   (None, _) \<Rightarrow> (None, cbs)
                 | (Some len64, _) \<Rightarrow>
                     if len64 < 128 then (None, cbs)
                     else if drop_bit ((num_bytes - 1) * 8) len64 = 0 then (None, cbs)
                     else
                       let len = unat len64
                       in if wrap64 (len + header_len + num_bytes) < len then (None, cbs)
                          else op_bind (CBS_get_bytes (wrap64 (len + (header_len + num_bytes))))
                                 (\<lambda>out. op_ret (out, tag, header_len + num_bytes)) cbs))))"

definition CBS_get_any_asn1_element :: "(cbs \<times> u32 \<times> nat) cbs_op" where
  "CBS_get_any_asn1_element = cbs_get_any_asn1_element False"

definition CBS_get_any_ber_asn1_element :: "(cbs \<times> u32 \<times> nat) cbs_op" where
  "CBS_get_any_ber_asn1_element = cbs_get_any_asn1_element True"

definition CBS_get_any_asn1 :: "(cbs \<times> u32) cbs_op" where
  "CBS_get_any_asn1 =
     op_bind CBS_get_any_asn1_element (\<lambda>(out, tag, header_len).
       case CBS_skip header_len out of
         (None, _) \<Rightarrow> op_fail
       | (Some _, out') \<Rightarrow> op_ret (out', tag))"

definition cbs_get_asn1 :: "u32 \<Rightarrow> bool \<Rightarrow> cbs cbs_op" where
  "cbs_get_asn1 tag_value skip_header =
     op_bind CBS_get_any_asn1_element (\<lambda>(out, tag, header_len).
       if tag \<noteq> tag_value then op_fail
       else if skip_header then
         (case CBS_skip header_len out of
            (None, _) \<Rightarrow> op_fail
          | (Some _, out') \<Rightarrow> op_ret out')
       else op_ret out)"

definition CBS_get_asn1 :: "u32 \<Rightarrow> cbs cbs_op" where
  "CBS_get_asn1 tag_value = cbs_get_asn1 tag_value True"

definition CBS_get_asn1_element :: "u32 \<Rightarrow> cbs cbs_op" where
  "CBS_get_asn1_element tag_value = cbs_get_asn1 tag_value False"

definition CBS_peek_asn1_tag :: "cbs \<Rightarrow> u32 \<Rightarrow> bool" where
  "CBS_peek_asn1_tag cbs tag_value =
     (if CBS_len cbs < 1 then False
      else (case parse_asn1_tag cbs of
              (None, _) \<Rightarrow> False
            | (Some actual_tag, _) \<Rightarrow> tag_value = actual_tag))"

section \<open>Typed ASN.1 values\<close>

fun asn1_uint64_loop :: "u64 \<Rightarrow> u8 list \<Rightarrow> u64 option" where
  "asn1_uint64_loop out [] = Some out"
| "asn1_uint64_loop out (b # data) =
     (if drop_bit 56 out \<noteq> 0 then None
      else asn1_uint64_loop (push_bit 8 out OR ucast b) data)"

definition CBS_get_asn1_uint64 :: "u64 cbs_op" where
  "CBS_get_asn1_uint64 =
     op_bind (CBS_get_asn1 CBS_ASN1_INTEGER) (\<lambda>data.
       let len = CBS_len data
       in if len = 0 then op_fail
          else if data ! 0 AND 0x80 \<noteq> 0 then op_fail
          else if data ! 0 = 0 \<and> len > 1 \<and> data ! 1 AND 0x80 = 0 then op_fail
          else (case asn1_uint64_loop 0 data of None \<Rightarrow> op_fail | Some v \<Rightarrow> op_ret v))"

text \<open>
  The union of \<open>CBS_get_asn1_int64\<close> on a little-endian target: its eight bytes are
  the value, least significant first.  The result is a \<open>int64_t\<close>, read by \<open>sint\<close>.
\<close>

definition CBS_get_asn1_int64 :: "u64 cbs_op" where
  "CBS_get_asn1_int64 =
     op_bind (CBS_get_asn1 CBS_ASN1_INTEGER) (\<lambda>data.
       let len = CBS_len data
       in if len = 0 \<or> len > 8 then op_fail
          else if len > 1 \<and> data ! 0 = 0 \<and> data ! 1 AND 0x80 = 0 then op_fail
          else if len > 1 \<and> data ! 0 = 0xff \<and> data ! 1 AND 0x80 \<noteq> 0 then op_fail
          else
            let is_negative = data ! 0 AND 0x80 \<noteq> 0;
                bytes = replicate 8 (if is_negative then 0xff else 0);
                bytes = mem_write bytes 0 (map (\<lambda>i. data ! (len - i - 1)) [0..<len])
            in op_ret (of_nat (le_nat bytes)))"

definition CBS_get_asn1_bool :: "bool cbs_op" where
  "CBS_get_asn1_bool =
     op_bind (CBS_get_asn1 CBS_ASN1_BOOLEAN) (\<lambda>bytes.
       if CBS_len bytes \<noteq> 1 then op_fail
       else let value = CBS_data bytes ! 0
            in if value \<noteq> 0 \<and> value \<noteq> 0xff then op_fail else op_ret (value \<noteq> 0))"

text \<open>An optional element: \<open>Some None\<close> is success with \<open>*out_present = 0\<close>.\<close>

definition CBS_get_optional_asn1 :: "u32 \<Rightarrow> cbs option cbs_op" where
  "CBS_get_optional_asn1 tag cbs =
     (if CBS_peek_asn1_tag cbs tag then op_bind (CBS_get_asn1 tag) (\<lambda>out. op_ret (Some out)) cbs
      else op_ret None cbs)"

definition CBS_get_optional_asn1_octet_string :: "u32 \<Rightarrow> (cbs \<times> bool) cbs_op" where
  "CBS_get_optional_asn1_octet_string tag =
     op_bind (CBS_get_optional_asn1 tag) (\<lambda>r.
       case r of
         None \<Rightarrow> op_ret (CBS_init [] 0, False)
       | Some child \<Rightarrow>
           (case CBS_get_asn1 CBS_ASN1_OCTETSTRING child of
              (None, _) \<Rightarrow> op_fail
            | (Some out, child') \<Rightarrow>
                if CBS_len child' \<noteq> 0 then op_fail else op_ret (out, True)))"

definition CBS_get_optional_asn1_uint64 :: "u32 \<Rightarrow> u64 \<Rightarrow> u64 cbs_op" where
  "CBS_get_optional_asn1_uint64 tag default_value =
     op_bind (CBS_get_optional_asn1 tag) (\<lambda>r.
       case r of
         None \<Rightarrow> op_ret default_value
       | Some child \<Rightarrow>
           (case CBS_get_asn1_uint64 child of
              (None, _) \<Rightarrow> op_fail
            | (Some out, child') \<Rightarrow> if CBS_len child' \<noteq> 0 then op_fail else op_ret out))"

definition CBS_get_optional_asn1_bool :: "u32 \<Rightarrow> int \<Rightarrow> int cbs_op" where
  "CBS_get_optional_asn1_bool tag default_value =
     op_bind (CBS_get_optional_asn1 tag) (\<lambda>r.
       case r of
         None \<Rightarrow> op_ret default_value
       | Some child \<Rightarrow>
           (case CBS_get_asn1 CBS_ASN1_BOOLEAN child of
              (None, _) \<Rightarrow> op_fail
            | (Some child2, child') \<Rightarrow>
                if CBS_len child2 \<noteq> 1 \<or> CBS_len child' \<noteq> 0 then op_fail
                else let boolean = CBS_data child2 ! 0
                     in if boolean = 0 then op_ret 0
                        else if boolean = 0xff then op_ret 1
                        else op_fail))"

definition CBS_is_valid_asn1_bitstring :: "cbs \<Rightarrow> bool" where
  "CBS_is_valid_asn1_bitstring cbs =
     (case CBS_get_u8 cbs of
        (None, _) \<Rightarrow> False
      | (Some num_unused_bits, inp) \<Rightarrow>
          if num_unused_bits > 7 then False
          else if num_unused_bits = 0 then True
          else (case CBS_get_last_u8 inp of
                  (None, _) \<Rightarrow> False
                | (Some last_byte, _) \<Rightarrow> last_byte AND (push_bit (unat num_unused_bits) 1 - 1) = 0))"

definition CBS_asn1_bitstring_has_bit :: "cbs \<Rightarrow> u32 \<Rightarrow> bool" where
  "CBS_asn1_bitstring_has_bit cbs i =
     (if \<not> CBS_is_valid_asn1_bitstring cbs then False
      else let byte_num = drop_bit 3 i + 1; bit_num = 7 - (i AND 7)
           in unat byte_num < CBS_len cbs \<and>
              (CBS_data cbs ! unat byte_num) AND push_bit (unat bit_num) 1 \<noteq> 0)"

section \<open>What the readers return\<close>

lemma cbs_get_iff [op_simps]: "cbs_get n s = (Some v, t) \<longleftrightarrow> s = v @ t \<and> length v = n"
  by (auto simp: cbs_get_def min_def)

lemma cbs_get_None_iff [op_simps]: "cbs_get n s = (None, t) \<longleftrightarrow> length s < n \<and> t = s"
  by (auto simp: cbs_get_def)

lemma CBS_get_bytes_iff [op_simps]:
  "CBS_get_bytes n s = (Some v, t) \<longleftrightarrow> s = v @ t \<and> length v = n"
  by (auto simp: CBS_get_bytes_def CBS_init_def op_simps)

lemma CBS_get_bytes_None_iff [op_simps]:
  "CBS_get_bytes n s = (None, t) \<longleftrightarrow> length s < n \<and> t = s"
  by (auto simp: CBS_get_bytes_def op_bind_def cbs_get_def op_ret_def)

lemma CBS_skip_iff [op_simps]:
  "CBS_skip n s = (Some u, t) \<longleftrightarrow> n \<le> length s \<and> t = drop n s"
proof -
  have "(\<exists>v. s = v @ t \<and> length v = n) \<longleftrightarrow> n \<le> length s \<and> t = drop n s"
    by (metis append_eq_conv_conj append_take_drop_id length_take min.absorb2 le_add1 length_append)
  then show ?thesis by (simp add: CBS_skip_def op_simps)
qed

lemma CBS_get_u8_iff [op_simps]: "CBS_get_u8 s = (Some b, t) \<longleftrightarrow> s = b # t"
  by (auto simp: CBS_get_u8_def op_simps length_Suc_conv)

lemma CBS_get_u8_Cons [simp]: "CBS_get_u8 (b # s) = (Some b, s)"
  by (simp add: op_simps)

lemma CBS_get_u8_Nil [simp]: "CBS_get_u8 [] = (None, [])"
  by (simp add: CBS_get_u8_def op_bind_def cbs_get_def)

lemma CBS_get_u8_None_iff: "CBS_get_u8 s = (None, t) \<longleftrightarrow> s = [] \<and> t = []"
  by (cases s) auto

lemma shift_loop_value:
  "length d \<le> 8 \<Longrightarrow>
     unat (foldl (\<lambda>result b. push_bit 8 result OR ucast b) (0 :: u64) d) = be_nat d"
proof (induction d rule: rev_induct)
  case Nil
  show ?case by (simp add: byte_simps)
next
  case (snoc b d)
  let ?r = "foldl (\<lambda>result b. push_bit 8 result OR ucast b) (0 :: u64) d"
  have r: "unat ?r = be_nat d" using snoc by simp
  have "be_nat (d @ [b]) < 256 ^ 8"
    using be_nat_bound [of "d @ [b]"] snoc.prems
      power_increasing [of "length (d @ [b])" 8 "256 :: nat"] by simp
  then have "unat ?r * 2 ^ 8 + unat (ucast b :: u64) < 2 ^ LENGTH(64)"
    by (simp add: r byte_simps)
  then have "unat (push_bit 8 ?r OR ucast b) = unat ?r * 2 ^ 8 + unat (ucast b :: u64)"
    using unat_u8_less [of b] by (intro unat_push_or) simp_all
  then show ?case by (simp add: r byte_simps)
qed

lemma cbs_get_u_iff [op_simps]:
  assumes "n \<le> 8"
  shows "cbs_get_u n s = (Some v, t) \<longleftrightarrow>
    (\<exists>d. s = d @ t \<and> length d = n \<and> unat v = be_nat d)"
  using assms by (auto simp: cbs_get_u_def op_simps shift_loop_value word_unat_eq_iff)

lemma cbs_get_u_None_iff [op_simps]:
  "cbs_get_u n s = (None, t) \<longleftrightarrow> length s < n \<and> t = s"
  by (auto simp: cbs_get_u_def op_bind_def cbs_get_def op_ret_def)

text \<open>A fixed-width integer is read when that many bytes are there, and its value is big-endian.\<close>

lemma cbs_get_narrow_iff:
  fixes v :: "'a::len word"
  assumes "n * 8 \<le> LENGTH('a)" and "n \<le> 8"
  shows "op_bind (cbs_get_u n) (\<lambda>w. op_ret (ucast w)) s = (Some v, t) \<longleftrightarrow>
    (\<exists>d. s = d @ t \<and> length d = n \<and> unat v = be_nat d)"
proof -
  have narrow: "unat (ucast w :: 'a word) = be_nat d"
    if "unat w = be_nat d" and "length d = n" for w :: u64 and d
  proof -
    have "be_nat d < 2 ^ (n * 8)"
      using be_nat_bound [of d] that(2) by (simp add: pow256)
    also have "\<dots> \<le> 2 ^ LENGTH('a)" using assms(1) by (rule power_increasing) simp
    finally show ?thesis by (simp add: unsigned_ucast_eq that(1) take_bit_nat_eq_self)
  qed
  have wide: "\<exists>w :: u64. unat w = be_nat d" if "length d = n" for d
  proof -
    have "be_nat d < 2 ^ 64"
      using be_nat_bound [of d] that power_increasing [of n 8 "256 :: nat"] assms(2) by simp
    then have "unat (of_nat (be_nat d) :: u64) = be_nat d"
      by (simp add: unat_of_nat)
    then show ?thesis by blast
  qed
  show ?thesis
  proof
    assume "op_bind (cbs_get_u n) (\<lambda>w. op_ret (ucast w)) s = (Some v, t)"
    then show "\<exists>d. s = d @ t \<and> length d = n \<and> unat v = be_nat d"
      using assms(2) narrow by (auto simp: op_simps)
  next
    assume "\<exists>d. s = d @ t \<and> length d = n \<and> unat v = be_nat d"
    then obtain d where d: "s = d @ t" "length d = n" "unat v = be_nat d" by blast
    from wide [OF d(2)] obtain w :: u64 where w: "unat w = be_nat d" by blast
    have "ucast w = v" using narrow [OF w d(2)] d(3) by (simp add: word_unat_eq_iff)
    moreover have "cbs_get_u n s = (Some w, t)" using assms(2) d w by (auto simp: op_simps)
    ultimately show "op_bind (cbs_get_u n) (\<lambda>w. op_ret (ucast w)) s = (Some v, t)"
      by (simp add: op_bind_Some op_ret_def)
  qed
qed

lemma CBS_get_u16_iff [op_simps]:
  "CBS_get_u16 s = (Some v, t) \<longleftrightarrow> (\<exists>d. s = d @ t \<and> length d = 2 \<and> unat v = be_nat d)"
  unfolding CBS_get_u16_def by (rule cbs_get_narrow_iff) simp_all

lemma CBS_get_u24_iff [op_simps]:
  "CBS_get_u24 s = (Some v, t) \<longleftrightarrow> (\<exists>d. s = d @ t \<and> length d = 3 \<and> unat v = be_nat d)"
  unfolding CBS_get_u24_def by (rule cbs_get_narrow_iff) simp_all

lemma CBS_get_u32_iff [op_simps]:
  "CBS_get_u32 s = (Some v, t) \<longleftrightarrow> (\<exists>d. s = d @ t \<and> length d = 4 \<and> unat v = be_nat d)"
  unfolding CBS_get_u32_def by (rule cbs_get_narrow_iff) simp_all

lemma CBS_get_u64_iff [op_simps]:
  "CBS_get_u64 s = (Some v, t) \<longleftrightarrow> (\<exists>d. s = d @ t \<and> length d = 8 \<and> unat v = be_nat d)"
  unfolding CBS_get_u64_def by (rule cbs_get_u_iff) simp

lemma cbs_get_length_prefixed_iff [op_simps]:
  assumes "n \<le> 8"
  shows "cbs_get_length_prefixed n s = (Some v, t) \<longleftrightarrow>
    (\<exists>d. s = d @ v @ t \<and> length d = n \<and> be_nat d = length v)"
proof -
  have "\<exists>w :: u64. unat w = be_nat d" if "length d = n" for d
  proof -
    have "be_nat d < 2 ^ 64"
      using be_nat_bound [of d] that power_increasing [of n 8 "256 :: nat"] assms by simp
    then have "unat (of_nat (be_nat d) :: u64) = be_nat d" by (simp add: unat_of_nat)
    then show ?thesis by blast
  qed
  then show ?thesis
    using assms by (auto simp: cbs_get_length_prefixed_def op_simps) metis+
qed

lemma CBS_mem_equal_iff: "CBS_mem_equal cbs data \<longleftrightarrow> cbs = data"
  by (auto simp: CBS_mem_equal_def CBS_len_def CBS_data_def CRYPTO_memcmp_eq_0)

lemma CBS_get_last_u8_iff [op_simps]: "CBS_get_last_u8 s = (Some b, t) \<longleftrightarrow> s = t @ [b]"
  by (cases s rule: rev_cases) (auto simp: CBS_get_last_u8_def CBS_len_def nth_append)

end
