(* ===== verification/Cbb.thy ===== *)
theory Cbb
  imports Cbs
begin

text \<open>
  \<open>crypto/bytestring/cbb.c\<close>: the byte-string builder.  The \<open>CBB\<close>s that share one
  \<open>cbb_buffer_st\<close> form a chain: the top-level object, its open child, the child's open
  child, and so on.  The model keeps the buffer and the chain of open children,
  outermost first; a \<open>CBB *\<close> argument is its depth in that chain (0 is the top-level
  object).  A depth beyond the chain is a child that has been closed, whose \<open>base\<close> is
  \<open>NULL\<close>.  Every operation is an \<open>op\<close> on the builder.
\<close>

section \<open>State\<close>

record cbb_buffer_st =
  cbb_buf :: "u8 list"
  cbb_len :: nat
  cbb_cap :: nat
  cbb_can_resize :: bool
  cbb_error :: bool

record cbb_child_st =
  cbb_offset :: nat
  pending_len_len :: nat
  pending_is_asn1 :: bool

record cbb_st =
  cbb_base :: "cbb_buffer_st option"
  cbb_chain :: "cbb_child_st list"

type_synonym 'a cbb_op = "(cbb_st, 'a) op"

section \<open>Creation and disposal\<close>

definition CBB_zero :: cbb_st where
  "CBB_zero = \<lparr>cbb_base = None, cbb_chain = []\<rparr>"

text \<open>
  \<open>cbb_init\<close> allocates the buffer header; \<open>sizeof(struct cbb_buffer_st)\<close> is 32 on
  the 64-bit targets.
\<close>

definition cbb_init :: "allocator \<Rightarrow> u8 list \<Rightarrow> nat \<Rightarrow> unit cbb_op" where
  "cbb_init ml b c cbb =
     (case OPENSSL_malloc ml 32 of
        None \<Rightarrow> (None, cbb)
      | Some _ \<Rightarrow>
          (Some (), cbb\<lparr>cbb_base := Some \<lparr>cbb_buf = b, cbb_len = 0, cbb_cap = c,
                                           cbb_can_resize = True, cbb_error = False\<rparr>\<rparr>))"

definition CBB_init :: "allocator \<Rightarrow> nat \<Rightarrow> unit option \<times> cbb_st" where
  "CBB_init ml initial_capacity =
     (let cbb = CBB_zero; b = OPENSSL_malloc ml initial_capacity
      in if initial_capacity > 0 \<and> b = None then (None, cbb)
         else cbb_init ml (case b of None \<Rightarrow> [] | Some m \<Rightarrow> m) initial_capacity cbb)"

definition CBB_init_fixed :: "allocator \<Rightarrow> u8 list \<Rightarrow> nat \<Rightarrow> unit option \<times> cbb_st" where
  "CBB_init_fixed ml b n =
     (case cbb_init ml b n CBB_zero of
        (None, cbb) \<Rightarrow> (None, cbb)
      | (Some _, cbb) \<Rightarrow>
          (Some (), cbb\<lparr>cbb_base := map_option (cbb_can_resize_update (\<lambda>_. False)) (cbb_base cbb)\<rparr>))"

definition CBB_cleanup :: "cbb_st \<Rightarrow> cbb_st" where
  "CBB_cleanup cbb = cbb\<lparr>cbb_base := None\<rparr>"

section \<open>The buffer\<close>

definition cbb_buffer_reserve :: "allocator \<Rightarrow> nat \<Rightarrow> (cbb_buffer_st, nat) op" where
  "cbb_buffer_reserve ml n b =
     (let newlen = wrap64 (cbb_len b + n)
      in if newlen < cbb_len b then (None, b\<lparr>cbb_error := True\<rparr>)
         else if newlen > cbb_cap b then
           (let newcap = wrap64 (cbb_cap b * 2)
            in if \<not> cbb_can_resize b then (None, b\<lparr>cbb_error := True\<rparr>)
               else
                 let newcap = (if newcap < cbb_cap b \<or> newcap < newlen then newlen else newcap)
                 in (case OPENSSL_realloc ml (Some (cbb_buf b)) newcap of
                       None \<Rightarrow> (None, b\<lparr>cbb_error := True\<rparr>)
                     | Some newbuf \<Rightarrow>
                         (Some (cbb_len b), b\<lparr>cbb_buf := newbuf, cbb_cap := newcap\<rparr>)))
         else (Some (cbb_len b), b))"

text \<open>
  The result of \<open>cbb_buffer_reserve\<close> and \<open>cbb_buffer_add\<close> is the pointer \<open>*out\<close>, as
  its offset in the buffer.
\<close>

definition cbb_buffer_add :: "allocator \<Rightarrow> nat \<Rightarrow> (cbb_buffer_st, nat) op" where
  "cbb_buffer_add ml n =
     op_bind (cbb_buffer_reserve ml n)
       (\<lambda>out base. (Some out, base\<lparr>cbb_len := cbb_len base + n\<rparr>))"

text \<open>
  The loop \<open>for (i = n - 1; i < n; i--) { buf[off + i] = v; v >>= 8; }\<close>, with what is
  left of \<open>v\<close>.
\<close>

fun be_store :: "u8 list \<Rightarrow> nat \<Rightarrow> nat \<Rightarrow> u64 \<Rightarrow> u8 list \<times> u64" where
  "be_store m off 0 v = (m, v)"
| "be_store m off (Suc i) v = be_store (m[off + i := ucast v]) off i (drop_bit 8 v)"

text \<open>Stores of a number that must fit; the error flag is set when it does not.\<close>

definition cbb_store_u :: "nat \<Rightarrow> nat \<Rightarrow> u64 \<Rightarrow> (cbb_buffer_st, unit) op" where
  "cbb_store_u off len_len v base =
     (case be_store (cbb_buf base) off len_len v of
        (m, v') \<Rightarrow>
          if v' \<noteq> 0 then (None, base\<lparr>cbb_buf := m, cbb_error := True\<rparr>)
          else (Some (), base\<lparr>cbb_buf := m\<rparr>))"

definition cbb_buffer_add_u :: "allocator \<Rightarrow> u64 \<Rightarrow> nat \<Rightarrow> (cbb_buffer_st, unit) op" where
  "cbb_buffer_add_u ml v len_len =
     (if len_len = 0 then op_ret ()
      else op_bind (cbb_buffer_add ml len_len) (\<lambda>off. cbb_store_u off len_len v))"

section \<open>Flushing\<close>

text \<open>
  The tail of \<open>CBB_flush\<close> for the child \<open>c\<close>, after the grandchildren were flushed:
  the length prefix of \<open>c\<close> is written, for ASN.1 after the contents were moved along
  when one length byte is not enough.
\<close>

definition asn1_len_len :: "nat \<Rightarrow> nat \<times> u8 \<times> nat" where
  "asn1_len_len n =
     (if n > 0xffffff then (5, 0x80 OR 4, n)
      else if n > 0xffff then (4, 0x80 OR 3, n)
      else if n > 0xff then (3, 0x80 OR 2, n)
      else if n > 0x7f then (2, 0x80 OR 1, n)
      else (1, of_nat n, 0))"

definition cbb_move_contents :: "allocator \<Rightarrow> nat \<Rightarrow> nat \<Rightarrow> nat \<Rightarrow> (cbb_buffer_st, unit) op" where
  "cbb_move_contents ml child_start n len_len =
     (if len_len \<noteq> 1 then
        (let extra_bytes = len_len - 1
         in op_bind (cbb_buffer_add ml extra_bytes)
              (\<lambda>_ base. (Some (), base\<lparr>cbb_buf :=
                 mem_write (cbb_buf base) (child_start + extra_bytes)
                   (take n (drop child_start (cbb_buf base)))\<rparr>)))
      else op_ret ())"

definition cbb_close_child :: "allocator \<Rightarrow> cbb_child_st \<Rightarrow> (cbb_buffer_st, unit) op" where
  "cbb_close_child ml c base =
     (let child_start = wrap64 (cbb_offset c + pending_len_len c)
      in if child_start < cbb_offset c \<or> cbb_len base < child_start then
           (None, base\<lparr>cbb_error := True\<rparr>)
         else
           let n = cbb_len base - child_start
           in if pending_is_asn1 c then
                (if n > 0xfffffffe then (None, base\<lparr>cbb_error := True\<rparr>)
                 else
                   (case asn1_len_len n of
                      (len_len, initial_length_byte, n') \<Rightarrow>
                        op_bind (cbb_move_contents ml child_start n len_len)
                          (\<lambda>_ base.
                             cbb_store_u (cbb_offset c + 1) (len_len - 1) (of_nat n')
                               (base\<lparr>cbb_buf := (cbb_buf base)[cbb_offset c := initial_length_byte]\<rparr>))
                          base))
              else cbb_store_u (cbb_offset c) (pending_len_len c) (of_nat n) base)"

text \<open>
  \<open>CBB_flush\<close> on the object whose open descendants are the list: it returns the
  descendants that stay open.  Every path to \<open>err\<close> leaves the error flag set.
\<close>

fun cbb_flush_chain ::
    "allocator \<Rightarrow> cbb_child_st list \<Rightarrow> cbb_buffer_st \<Rightarrow>
       (unit option \<times> cbb_child_st list) \<times> cbb_buffer_st"
where
  "cbb_flush_chain ml [] b = ((if cbb_error b then None else Some (), []), b)"
| "cbb_flush_chain ml (c # cs) b =
     (if cbb_error b then ((None, c # cs), b)
      else if pending_len_len c = 0 then ((Some (), c # cs), b)
      else (case cbb_flush_chain ml cs b of
              ((None, cs'), b') \<Rightarrow> ((None, c # cs'), b'\<lparr>cbb_error := True\<rparr>)
            | ((Some _, cs'), b') \<Rightarrow>
                (case cbb_close_child ml c b' of
                   (None, b'') \<Rightarrow> ((None, c # cs'), b''\<lparr>cbb_error := True\<rparr>)
                 | (Some _, b'') \<Rightarrow> ((Some (), []), b''))))"

definition CBB_flush :: "allocator \<Rightarrow> nat \<Rightarrow> unit cbb_op" where
  "CBB_flush ml d cbb =
     (if d > length (cbb_chain cbb) then (None, cbb)
      else (case cbb_base cbb of
              None \<Rightarrow> (None, cbb)
            | Some b \<Rightarrow>
                (case cbb_flush_chain ml (drop d (cbb_chain cbb)) b of
                   ((r, cs), b') \<Rightarrow>
                     (r, \<lparr>cbb_base = Some b', cbb_chain = take d (cbb_chain cbb) @ cs\<rparr>))))"

text \<open>An operation on \<open>cbb->base\<close>; the buffer operations return 0 when it is \<open>NULL\<close>.\<close>

definition cbb_on_base :: "(cbb_buffer_st, 'a) op \<Rightarrow> 'a cbb_op" where
  "cbb_on_base f cbb =
     (case cbb_base cbb of
        None \<Rightarrow> (None, cbb)
      | Some b \<Rightarrow> (case f b of (r, b') \<Rightarrow> (r, cbb\<lparr>cbb_base := Some b'\<rparr>)))"

text \<open>Most operations first flush the object, which closes its children.\<close>

definition cbb_flushed :: "allocator \<Rightarrow> nat \<Rightarrow> (cbb_buffer_st, 'a) op \<Rightarrow> 'a cbb_op" where
  "cbb_flushed ml d f = op_bind (CBB_flush ml d) (\<lambda>_. cbb_on_base f)"

text \<open>
  \<open>has_out\<close> says that both out-pointers were given, which only a fixed builder may
  omit.  A \<open>CBB\<close> of positive depth is a child.
\<close>

definition CBB_finish :: "allocator \<Rightarrow> bool \<Rightarrow> nat \<Rightarrow> (u8 list \<times> nat) cbb_op" where
  "CBB_finish ml has_out d =
     (if d > 0 then op_fail
      else op_bind (CBB_flush ml d) (\<lambda>_ cbb.
        case cbb_base cbb of
          None \<Rightarrow> (None, cbb)
        | Some b \<Rightarrow>
            if cbb_can_resize b \<and> \<not> has_out then (None, cbb)
            else (Some (cbb_buf b, cbb_len b), CBB_cleanup cbb)))"

section \<open>Adding contents\<close>

definition CBB_add_bytes :: "allocator \<Rightarrow> nat \<Rightarrow> u8 list \<Rightarrow> unit cbb_op" where
  "CBB_add_bytes ml d data =
     cbb_flushed ml d
       (op_bind (cbb_buffer_add ml (length data)) (\<lambda>dest base.
          (Some (), base\<lparr>cbb_buf := mem_write (cbb_buf base) dest data\<rparr>)))"

definition CBB_add_space :: "allocator \<Rightarrow> nat \<Rightarrow> nat \<Rightarrow> nat cbb_op" where
  "CBB_add_space ml d n = cbb_flushed ml d (cbb_buffer_add ml n)"

definition CBB_reserve :: "allocator \<Rightarrow> nat \<Rightarrow> nat \<Rightarrow> nat cbb_op" where
  "CBB_reserve ml d n = cbb_flushed ml d (cbb_buffer_reserve ml n)"

text \<open>
  Unlike the others, \<open>CBB_did_write\<close>, \<open>CBB_len\<close> and \<open>CBB_data\<close> do not flush and read \<open>base\<close> at
  once: no result stands for a closed object, whose \<open>base\<close> is \<open>NULL\<close>, and for an assertion
  that fails.
\<close>

definition CBB_did_write :: "nat \<Rightarrow> nat \<Rightarrow> cbb_st \<Rightarrow> (unit option \<times> cbb_st) option" where
  "CBB_did_write d n cbb =
     (case cbb_base cbb of
        None \<Rightarrow> None
      | Some base \<Rightarrow>
          if d > length (cbb_chain cbb) then None
          else
            let newlen = wrap64 (cbb_len base + n)
            in if d < length (cbb_chain cbb) \<or> newlen < cbb_len base \<or> newlen > cbb_cap base
               then Some (None, cbb)
               else Some (Some (), cbb\<lparr>cbb_base := Some (base\<lparr>cbb_len := newlen\<rparr>)\<rparr>))"

definition CBB_add_u8 :: "allocator \<Rightarrow> nat \<Rightarrow> u8 \<Rightarrow> unit cbb_op" where
  "CBB_add_u8 ml d value = cbb_flushed ml d (cbb_buffer_add_u ml (ucast value) 1)"

definition CBB_add_u16 :: "allocator \<Rightarrow> nat \<Rightarrow> u16 \<Rightarrow> unit cbb_op" where
  "CBB_add_u16 ml d value = cbb_flushed ml d (cbb_buffer_add_u ml (ucast value) 2)"

definition CBB_add_u16le :: "allocator \<Rightarrow> nat \<Rightarrow> u16 \<Rightarrow> unit cbb_op" where
  "CBB_add_u16le ml d value = CBB_add_u16 ml d (CRYPTO_bswap2 value)"

definition CBB_add_u24 :: "allocator \<Rightarrow> nat \<Rightarrow> u32 \<Rightarrow> unit cbb_op" where
  "CBB_add_u24 ml d value = cbb_flushed ml d (cbb_buffer_add_u ml (ucast value) 3)"

definition CBB_add_u32 :: "allocator \<Rightarrow> nat \<Rightarrow> u32 \<Rightarrow> unit cbb_op" where
  "CBB_add_u32 ml d value = cbb_flushed ml d (cbb_buffer_add_u ml (ucast value) 4)"

definition CBB_add_u32le :: "allocator \<Rightarrow> nat \<Rightarrow> u32 \<Rightarrow> unit cbb_op" where
  "CBB_add_u32le ml d value = CBB_add_u32 ml d (CRYPTO_bswap4 value)"

definition CBB_add_u64 :: "allocator \<Rightarrow> nat \<Rightarrow> u64 \<Rightarrow> unit cbb_op" where
  "CBB_add_u64 ml d value = cbb_flushed ml d (cbb_buffer_add_u ml value 8)"

definition CBB_add_u64le :: "allocator \<Rightarrow> nat \<Rightarrow> u64 \<Rightarrow> unit cbb_op" where
  "CBB_add_u64le ml d value = CBB_add_u64 ml d (CRYPTO_bswap8 value)"

section \<open>Children\<close>

text \<open>
  The contents of an object begin behind its length prefix.  \<open>CBB_data\<close> is a pointer into
  the buffer: the bytes from there on.  Both assert that no child is open.
\<close>

definition cbb_content_start :: "nat \<Rightarrow> cbb_st \<Rightarrow> nat" where
  "cbb_content_start d cbb =
     (if d = 0 then 0
      else let c = cbb_chain cbb ! (d - 1) in cbb_offset c + pending_len_len c)"

definition CBB_data :: "nat \<Rightarrow> cbb_st \<Rightarrow> u8 list option" where
  "CBB_data d cbb =
     (case cbb_base cbb of
        None \<Rightarrow> None
      | Some b \<Rightarrow>
          if d \<noteq> length (cbb_chain cbb) then None
          else Some (drop (cbb_content_start d cbb) (cbb_buf b)))"

definition CBB_len :: "nat \<Rightarrow> cbb_st \<Rightarrow> nat option" where
  "CBB_len d cbb =
     (case cbb_base cbb of
        None \<Rightarrow> None
      | Some b \<Rightarrow>
          if d \<noteq> length (cbb_chain cbb) \<or> cbb_content_start d cbb > cbb_len b then None
          else Some (cbb_len b - cbb_content_start d cbb))"

definition cbb_add_length_prefixed :: "allocator \<Rightarrow> nat \<Rightarrow> nat \<Rightarrow> unit cbb_op" where
  "cbb_add_length_prefixed ml d len_len =
     op_bind
       (cbb_flushed ml d (op_bind (cbb_buffer_add ml len_len) (\<lambda>prefix base.
          (Some prefix, base\<lparr>cbb_buf := mem_write (cbb_buf base) prefix (replicate len_len 0)\<rparr>))))
       (\<lambda>offset cbb. (Some (), cbb\<lparr>cbb_chain := cbb_chain cbb @
          [\<lparr>cbb_offset = offset, pending_len_len = len_len, pending_is_asn1 = False\<rparr>]\<rparr>))"

definition CBB_add_u8_length_prefixed :: "allocator \<Rightarrow> nat \<Rightarrow> unit cbb_op" where
  "CBB_add_u8_length_prefixed ml d = cbb_add_length_prefixed ml d 1"

definition CBB_add_u16_length_prefixed :: "allocator \<Rightarrow> nat \<Rightarrow> unit cbb_op" where
  "CBB_add_u16_length_prefixed ml d = cbb_add_length_prefixed ml d 2"

definition CBB_add_u24_length_prefixed :: "allocator \<Rightarrow> nat \<Rightarrow> unit cbb_op" where
  "CBB_add_u24_length_prefixed ml d = cbb_add_length_prefixed ml d 3"

text \<open>A loop over a list of operations, which stops at the first failure.\<close>

fun op_each :: "('a \<Rightarrow> ('s, unit) op) \<Rightarrow> 'a list \<Rightarrow> ('s, unit) op" where
  "op_each f [] = op_ret ()"
| "op_each f (x # xs) = op_bind (f x) (\<lambda>_. op_each f xs)"

fun base128_len_len :: "nat \<Rightarrow> nat" where
  "base128_len_len copy = (if copy = 0 then 0 else Suc (base128_len_len (copy div 2 ^ 7)))"

declare base128_len_len.simps [simp del]

definition add_base128_integer :: "allocator \<Rightarrow> nat \<Rightarrow> u64 \<Rightarrow> unit cbb_op" where
  "add_base128_integer ml d v =
     (let len_len = base128_len_len (unat v);
          len_len = (if len_len = 0 then 1 else len_len)
      in op_each (\<lambda>i.
           let byte = ucast (drop_bit (7 * i) v) AND 0x7f;
               byte = (if i \<noteq> 0 then byte OR 0x80 else byte)
           in CBB_add_u8 ml d byte) (rev [0..<len_len]))"

definition CBB_add_asn1 :: "allocator \<Rightarrow> nat \<Rightarrow> u32 \<Rightarrow> unit cbb_op" where
  "CBB_add_asn1 ml d tag =
     op_bind (CBB_flush ml d) (\<lambda>_.
       let tag_bits = ucast (drop_bit CBS_ASN1_TAG_SHIFT tag) AND 0xe0 :: u8;
           tag_number = tag AND CBS_ASN1_TAG_NUMBER_MASK
       in op_bind
            (if tag_number \<ge> 0x1f then
               op_bind (CBB_add_u8 ml d (tag_bits OR 0x1f))
                 (\<lambda>_. add_base128_integer ml d (ucast tag_number))
             else CBB_add_u8 ml d (tag_bits OR ucast tag_number)) (\<lambda>_.
          op_bind (cbb_on_base (\<lambda>base. (Some (cbb_len base), base))) (\<lambda>offset.
          op_bind (CBB_add_u8 ml d 0) (\<lambda>_ cbb.
            (Some (), cbb\<lparr>cbb_chain := cbb_chain cbb @
               [\<lparr>cbb_offset = offset, pending_len_len = 1, pending_is_asn1 = True\<rparr>]\<rparr>)))))"

text \<open>
  Discarding drops the child and everything below it from the chain, and the bytes
  from the child's header on.
\<close>

definition CBB_discard_child :: "nat \<Rightarrow> cbb_st \<Rightarrow> cbb_st" where
  "CBB_discard_child d cbb =
     (if d < length (cbb_chain cbb) then
        cbb\<lparr>cbb_base := map_option (cbb_len_update (\<lambda>_. cbb_offset (cbb_chain cbb ! d))) (cbb_base cbb),
            cbb_chain := take d (cbb_chain cbb)\<rparr>
      else cbb)"

section \<open>Typed ASN.1 values\<close>

text \<open>The loop of \<open>CBB_add_asn1_uint64\<close> over the bytes of the value, with \<open>started\<close>.\<close>

fun asn1_uint64_bytes :: "allocator \<Rightarrow> nat \<Rightarrow> bool \<Rightarrow> u8 list \<Rightarrow> bool cbb_op" where
  "asn1_uint64_bytes ml d started [] = op_ret started"
| "asn1_uint64_bytes ml d started (byte # bytes) =
     (if \<not> started \<and> byte = 0 then asn1_uint64_bytes ml d started bytes
      else op_bind (if \<not> started \<and> byte AND 0x80 \<noteq> 0 then CBB_add_u8 ml d 0 else op_ret ()) (\<lambda>_.
           op_bind (CBB_add_u8 ml d byte) (\<lambda>_. asn1_uint64_bytes ml d True bytes)))"

definition CBB_add_asn1_uint64 :: "allocator \<Rightarrow> nat \<Rightarrow> u64 \<Rightarrow> unit cbb_op" where
  "CBB_add_asn1_uint64 ml d value =
     op_bind (CBB_add_asn1 ml d CBS_ASN1_INTEGER) (\<lambda>_.
     op_bind (asn1_uint64_bytes ml (d + 1) False
       (map (\<lambda>i. ucast (drop_bit (8 * (7 - i)) value AND 0xff)) [0..<8])) (\<lambda>started.
     op_bind (if \<not> started then CBB_add_u8 ml (d + 1) 0 else op_ret ()) (\<lambda>_.
     CBB_flush ml d)))"

text \<open>The bytes of the union in \<open>CBB_add_asn1_int64\<close>, on a little-endian target.\<close>

definition int64_byte :: "u64 \<Rightarrow> nat \<Rightarrow> u8" where
  "int64_byte value i = ucast (drop_bit (8 * i) value)"

fun int64_start :: "u64 \<Rightarrow> nat \<Rightarrow> nat" where
  "int64_start value 0 = 0"
| "int64_start value (Suc start) =
     (if int64_byte value (Suc start) = 0xff \<and> int64_byte value start AND 0x80 \<noteq> 0
      then int64_start value start else Suc start)"

definition CBB_add_asn1_int64 :: "allocator \<Rightarrow> nat \<Rightarrow> u64 \<Rightarrow> unit cbb_op" where
  "CBB_add_asn1_int64 ml d value =
     (if sint value \<ge> 0 then CBB_add_asn1_uint64 ml d value
      else
        let start = int64_start value 7
        in op_bind (CBB_add_asn1 ml d CBS_ASN1_INTEGER) (\<lambda>_.
           op_bind (op_each (\<lambda>i. CBB_add_u8 ml (d + 1) (int64_byte value i)) (rev [0..<Suc start])) (\<lambda>_.
           CBB_flush ml d)))"

definition CBB_add_asn1_octet_string :: "allocator \<Rightarrow> nat \<Rightarrow> u8 list \<Rightarrow> unit cbb_op" where
  "CBB_add_asn1_octet_string ml d data =
     op_bind (CBB_add_asn1 ml d CBS_ASN1_OCTETSTRING) (\<lambda>_.
     op_bind (CBB_add_bytes ml (d + 1) data) (\<lambda>_. CBB_flush ml d))"

definition CBB_add_asn1_bool :: "allocator \<Rightarrow> nat \<Rightarrow> int \<Rightarrow> unit cbb_op" where
  "CBB_add_asn1_bool ml d value =
     op_bind (CBB_add_asn1 ml d CBS_ASN1_BOOLEAN) (\<lambda>_.
     op_bind (CBB_add_u8 ml (d + 1) (if value \<noteq> 0 then 0xff else 0)) (\<lambda>_. CBB_flush ml d))"

section \<open>Object identifiers from text\<close>

fun parse_dotted_loop :: "bool \<Rightarrow> u64 \<Rightarrow> u64 cbs_op" where
  "parse_dotted_loop seen_digit v [] = (if seen_digit then Some v else None, [])"
| "parse_dotted_loop seen_digit v (u # cbs) =
     (if u = 46 \<and> CBS_len cbs > 0 then (if seen_digit then Some v else None, cbs)
      else if u < 48 \<or> u > 57 \<or> (seen_digit \<and> v = 0) \<or> v > (- 1) div 10 \<or>
              v * 10 > - 1 - (ucast u - 48) then (None, cbs)
      else parse_dotted_loop True (v * 10 + (ucast u - 48)) cbs)"

definition parse_dotted_decimal :: "u64 cbs_op" where
  "parse_dotted_decimal = parse_dotted_loop False 0"

lemma parse_dotted_loop_shorter:
  "parse_dotted_loop seen v s = (Some r, t) \<Longrightarrow> length t \<le> length s \<and> (seen \<or> length t < length s)"
  by (induction seen v s rule: parse_dotted_loop.induct) (auto split: if_splits)

lemma parse_dotted_decimal_shorter:
  "parse_dotted_decimal s = (Some r, t) \<Longrightarrow> length t < length s"
  using parse_dotted_loop_shorter [of False 0 s r t] by (simp add: parse_dotted_decimal_def)

function oid_components :: "allocator \<Rightarrow> nat \<Rightarrow> cbs \<Rightarrow> unit cbb_op" where
  "oid_components ml d cbs cbb =
     (if CBS_len cbs > 0 then
        (case parse_dotted_decimal cbs of
           (None, _) \<Rightarrow> (None, cbb)
         | (Some a, cbs') \<Rightarrow>
             (case add_base128_integer ml d a cbb of
                (None, cbb') \<Rightarrow> (None, cbb')
              | (Some _, cbb') \<Rightarrow> oid_components ml d cbs' cbb'))
      else (Some (), cbb))"
  by pat_completeness auto

termination oid_components
  by (relation "measure (\<lambda>(ml, d, cbs, cbb). length cbs)")
    (auto dest: parse_dotted_decimal_shorter [OF sym])

declare oid_components.simps [simp del]

definition CBB_add_asn1_oid_from_text :: "allocator \<Rightarrow> nat \<Rightarrow> u8 list \<Rightarrow> unit cbb_op" where
  "CBB_add_asn1_oid_from_text ml d text =
     op_bind (CBB_flush ml d) (\<lambda>_.
       let cbs = CBS_init text (length text)
       in case parse_dotted_decimal cbs of
            (None, _) \<Rightarrow> op_fail
          | (Some a, cbs) \<Rightarrow>
              (case parse_dotted_decimal cbs of
                 (None, _) \<Rightarrow> op_fail
               | (Some b, cbs) \<Rightarrow>
                   if a > 2 \<or> (a < 2 \<and> b > 39) \<or> b > - 1 - 80 then op_fail
                   else op_bind (add_base128_integer ml d (40 * a + b))
                          (\<lambda>_. oid_components ml d cbs)))"

section \<open>\<open>SET OF\<close>\<close>

text \<open>The rest of \<open>SET OF\<close>, \<open>CBB_flush_asn1_set_of\<close>, is in theory \<open>Asn1_Sets\<close>.\<close>

definition compare_set_of_element :: "u8 list \<Rightarrow> u8 list \<Rightarrow> int" where
  "compare_set_of_element a b =
     (let a_len = CBS_len a; b_len = CBS_len b;
          min_len = (if a_len < b_len then a_len else b_len);
          ret = mem_cmp (take min_len (CBS_data a)) (take min_len (CBS_data b))
      in if ret \<noteq> 0 then ret else if a_len = b_len then 0
         else if a_len < b_len then - 1 else 1)"

end
