(* ===== verification/Der.thy ===== *)
theory Der
  imports Cbs
begin

text \<open>
  The encodings of X.690 that the reader and the writer share, as plain functions:
  base-128 integers, identifier octets (tags) and definite lengths in their shortest
  form.  The lemmas show that the reader of \<open>cbs.c\<close> accepts exactly these encodings.
\<close>

section \<open>Base-128 integers\<close>

fun b128_high :: "nat \<Rightarrow> u8 list" where
  "b128_high v = (if v = 0 then [] else b128_high (v div 128) @ [of_nat (128 + v mod 128)])"

declare b128_high.simps [simp del]

definition b128_bytes :: "nat \<Rightarrow> u8 list" where
  "b128_bytes v = b128_high (v div 128) @ [of_nat (v mod 128)]"

lemma b128_high_0 [simp]: "b128_high 0 = []"
  by (simp add: b128_high.simps)

lemma b128_high_snoc:
  "d < 128 \<Longrightarrow> v * 128 + d \<noteq> 0 \<Longrightarrow> b128_high (v * 128 + d) = b128_high v @ [of_nat (128 + d)]"
  by (subst b128_high.simps) simp

lemma b128_bytes_digit: "d < 128 \<Longrightarrow> b128_bytes (v * 128 + d) = b128_high v @ [of_nat d]"
  by (simp add: b128_bytes_def)

lemma unat_b128_step:
  fixes v :: u64 and b :: u8
  assumes "drop_bit (64 - 7) v = 0"
  shows "unat (push_bit 7 v OR ucast (b AND 0x7f)) = unat v * 128 + unat b mod 128"
proof -
  have v: "unat v < 2 ^ 57" using assms by (simp add: drop_bit_eq_0_iff)
  have c: "unat (ucast (b AND 0x7f) :: u64) = unat b mod 128" by (simp add: mask_7_u8)
  have "unat b mod 128 < 128" by simp
  with v have "unat v * 2 ^ 7 + unat (ucast (b AND 0x7f) :: u64) < 2 ^ LENGTH(64)"
    by (simp add: c)
  then show ?thesis
    using unat_push_or [of "ucast (b AND 0x7f) :: u64" 7 v] by (simp add: c)
qed

lemma parse_base128_loop_more:
  assumes "drop_bit (64 - 7) v = 0" and "\<not> (v = 0 \<and> b = 0x80)" and "b AND 0x80 \<noteq> 0"
  shows "parse_base128_loop v (b # s) = parse_base128_loop (push_bit 7 v OR ucast (b AND 0x7f)) s"
  using assms by (cases "v = 0") (simp_all add: Let_def)

lemma parse_base128_loop_last:
  assumes "drop_bit (64 - 7) v = 0" and "b AND 0x80 = 0"
  shows "parse_base128_loop v (b # s) = (Some (push_bit 7 v OR ucast (b AND 0x7f)), s)"
  using assms by (auto simp: Let_def)

lemma parse_base128_loop_sound:
  "parse_base128_loop v s = (Some w, t) \<Longrightarrow> b128_high (unat v) @ s = b128_bytes (unat w) @ t"
proof (induction v s rule: parse_base128_loop.induct)
  case (1 v)
  then show ?case by simp
next
  case (2 v b s)
  define v' where "v' = push_bit 7 v OR ucast (b AND 0x7f)"
  from 2(2) have small: "drop_bit (64 - 7) v = 0" and min: "\<not> (v = 0 \<and> b = 0x80)"
    by (auto split: if_splits)
  have v': "unat v' = unat v * 128 + unat b mod 128"
    using small unfolding v'_def by (rule unat_b128_step)
  show ?case
  proof (cases "b AND 0x80 = 0")
    case True
    then have "unat b < 128" by (simp add: top_bit_u8)
    with v' have "b128_bytes (unat v') = b128_high (unat v) @ [of_nat (unat b)]"
      using b128_bytes_digit [of "unat b" "unat v"] by simp
    moreover have "w = v'" and "t = s"
      using 2(2) small min True by (auto simp: v'_def Let_def split: if_splits)
    ultimately show ?thesis by (simp add: u8_of_unat)
  next
    case False
    then have "128 \<le> unat b" and "unat b < 256" by (simp_all add: top_bit_u8)
    then obtain d where d: "unat b = 128 + d" "d < 128"
      by (metis add_less_cancel_left le_Suc_ex numeral_Bit0)
    then have mod: "unat b mod 128 = d" by simp
    have "unat v * 128 + d \<noteq> 0"
    proof
      assume "unat v * 128 + d = 0"
      then have "unat v = 0" and "unat b = unat (0x80 :: u8)" using d by simp_all
      then have "v = 0 \<and> b = 0x80" by (simp only: word_unat_eq_iff) simp
      with min show False by blast
    qed
    then have high: "b128_high (unat v') = b128_high (unat v) @ [b]"
      unfolding v' mod by (metis b128_high_snoc [OF d(2)] u8_of_unat [OF d(1)])
    have "parse_base128_loop v' s = (Some w, t)"
      using 2(2) small min False by (auto simp: v'_def Let_def split: if_splits)
    then have "b128_high (unat v') @ s = b128_bytes (unat w) @ t"
      using 2(1) small min False v'_def by blast
    then show ?thesis by (simp add: high)
  qed
qed

lemma parse_base128_loop_high:
  "x < 2 ^ 64 \<Longrightarrow> parse_base128_loop 0 (b128_high x @ s) = parse_base128_loop (of_nat x) s"
proof (induction x arbitrary: s rule: b128_high.induct)
  case (1 x)
  show ?case
  proof (cases "x = 0")
    case True
    then show ?thesis by simp
  next
    case False
    define b :: u8 where "b = of_nat (128 + x mod 128)"
    let ?v = "of_nat (x div 128) :: u64"
    have b: "unat b = 128 + x mod 128"
    proof -
      have "x mod 128 < 128" by simp
      then show ?thesis unfolding b_def unat_of_nat_u8 by simp
    qed
    have v: "unat ?v = x div 128" using 1(2) by (simp add: unat_of_nat)
    then have small: "drop_bit (64 - 7) ?v = 0" using 1(2) by (simp add: drop_bit_eq_0_iff)
    have min: "\<not> (?v = 0 \<and> b = 0x80)"
    proof
      assume "?v = 0 \<and> b = 0x80"
      then have "unat ?v = 0" and "unat b = 128" by simp_all
      with b v have "x div 128 = 0" and "x mod 128 = 0" by simp_all
      with False show False by (metis div_mult_mod_eq mult_zero_left add_0)
    qed
    have top: "b AND 0x80 \<noteq> 0" using b by (simp add: top_bit_u8)
    have "unat (push_bit 7 ?v OR ucast (b AND 0x7f)) = x"
      using unat_b128_step [OF small] by (simp add: v b)
    then have step: "push_bit 7 ?v OR ucast (b AND 0x7f) = of_nat x"
      by (metis of_nat_unat ucast_id)
    have "parse_base128_loop 0 (b128_high x @ s)
        = parse_base128_loop 0 (b128_high (x div 128) @ b # s)"
      using False by (subst b128_high.simps) (simp add: b_def)
    also have "\<dots> = parse_base128_loop ?v (b # s)"
      using 1(1) [OF False] 1(2) by simp
    also have "\<dots> = parse_base128_loop (of_nat x) s"
      using parse_base128_loop_more [OF small min top] step by simp
    finally show ?thesis .
  qed
qed

lemma parse_base128_complete:
  assumes "x < 2 ^ 64"
  shows "parse_base128_integer (b128_bytes x @ t) = (Some (of_nat x), t)"
proof -
  let ?b = "of_nat (x mod 128) :: u8" and ?v = "of_nat (x div 128) :: u64"
  have b: "unat ?b = x mod 128" unfolding unat_of_nat_u8 by simp
  have v: "unat ?v = x div 128" using assms by (simp add: unat_of_nat)
  then have small: "drop_bit (64 - 7) ?v = 0" using assms by (simp add: drop_bit_eq_0_iff)
  have top: "?b AND 0x80 = 0" using b by (simp add: top_bit_u8)
  then have min: "?b \<noteq> 0x80" by auto
  have "unat (push_bit 7 ?v OR ucast (?b AND 0x7f)) = x"
    using unat_b128_step [OF small] by (simp add: v b)
  then have step: "push_bit 7 ?v OR ucast (?b AND 0x7f) = of_nat x"
    by (metis of_nat_unat ucast_id)
  have "parse_base128_integer (b128_bytes x @ t) = parse_base128_loop ?v (?b # t)"
    using parse_base128_loop_high [of "x div 128" "?b # t"] assms
    by (simp add: parse_base128_integer_def b128_bytes_def)
  then show ?thesis using parse_base128_loop_last [OF small top] step by simp
qed

lemma parse_base128_integer_iff [op_simps]:
  "parse_base128_integer s = (Some v, t) \<longleftrightarrow> s = b128_bytes (unat v) @ t"
proof
  assume "parse_base128_integer s = (Some v, t)"
  then show "s = b128_bytes (unat v) @ t"
    using parse_base128_loop_sound [of 0 s v t] by (simp add: parse_base128_integer_def)
next
  assume "s = b128_bytes (unat v) @ t"
  then show "parse_base128_integer s = (Some v, t)"
    using parse_base128_complete [of "unat v" t] unsigned_less [of v] by simp
qed

lemma length_b128_high: "n < 128 ^ k \<Longrightarrow> length (b128_high n) \<le> k"
proof (induction k arbitrary: n)
  case 0
  then show ?case by simp
next
  case (Suc k)
  show ?case
  proof (cases "n = 0")
    case True
    then show ?thesis by simp
  next
    case False
    have "n div 128 < 128 ^ k" using Suc.prems by (simp add: div_less_iff_less_mult mult.commute)
    then have "length (b128_high (n div 128)) \<le> k" by (rule Suc.IH)
    with False show ?thesis by (subst b128_high.simps) simp
  qed
qed

lemma length_b128_bytes: "n < 2 ^ 64 \<Longrightarrow> length (b128_bytes n) \<le> 10"
  using length_b128_high [of "n div 128" 9] by (simp add: b128_bytes_def)

section \<open>Identifier octets\<close>

definition der_tag_bytes :: "u32 \<Rightarrow> u8 list" where
  "der_tag_bytes tag =
     (let c = ucast (drop_bit 24 tag) AND 0xe0 :: u8; n = unat (tag AND CBS_ASN1_TAG_NUMBER_MASK)
      in if n < 0x1f then [c OR of_nat n] else (c OR 0x1f) # b128_bytes n)"

lemma asn1_masks:
  "(0xe0 :: u8) = push_bit 5 (mask 3)" "(0xe0 :: u32) = push_bit 5 (mask 3)"
  "(0x1f :: u8) = mask 5" "CBS_ASN1_TAG_NUMBER_MASK = mask 29"
  by (simp_all add: mask_eq_exp_minus_1 CBS_ASN1_TAG_NUMBER_MASK_def)

lemma bit_small_word: "unat (w :: 'a::len word) < 2 ^ n \<Longrightarrow> bit w k \<Longrightarrow> k < n"
proof -
  assume "unat w < 2 ^ n" and k: "bit w k"
  then have "drop_bit n w = 0" by (simp add: drop_bit_eq_0_iff)
  then have "\<not> bit w (n + i)" for i by (metis bit_0_eq bit_drop_bit_eq bot_apply bot_bool_def comp_apply)
  with k show "k < n" by (metis le_Suc_ex not_le)
qed

text \<open>Splitting a tag into class bits and number, and putting it back together.\<close>

lemma tag_split:
  fixes b :: u8 and n :: u32
  assumes "unat n < 2 ^ 29"
  shows "ucast (drop_bit 24 (push_bit 24 (ucast b AND 0xe0) OR n)) AND (0xe0 :: u8) = b AND 0xe0"
    and "(push_bit 24 (ucast b AND 0xe0) OR n) AND CBS_ASN1_TAG_NUMBER_MASK = n"
  by (fastforce intro!: bit_eqI simp: asn1_masks bit_simps
      dest: bit_imp_le_length bit_small_word [OF assms])+

lemma tag_join:
  fixes tag :: u32 and x :: u8
  assumes "unat x < 2 ^ 5"
  shows "push_bit 24 (ucast ((ucast (drop_bit 24 tag) AND 0xe0) OR x) AND 0xe0) OR
           (tag AND CBS_ASN1_TAG_NUMBER_MASK) = tag"
    and "((ucast (drop_bit 24 tag) AND 0xe0) OR x) AND 0x1f = x"
  using bit_small_word [OF assms]
  by (fastforce intro!: bit_eqI simp: asn1_masks bit_simps dest: bit_imp_le_length)+

lemma unat_tag_number: "unat (tag AND CBS_ASN1_TAG_NUMBER_MASK) < 2 ^ 29"
  unfolding asn1_masks unat_and_mask by simp

lemma unat_ucast_small_u64_u32: "unat (v :: u64) < 2 ^ 32 \<Longrightarrow> unat (ucast v :: u32) = unat v"
  by (simp add: unsigned_ucast_eq take_bit_nat_eq_self)

lemma ucast_byte_and_mask_u32: "(ucast ((b :: u8) AND 0xe0) :: u32) = ucast b AND 0xe0"
  by (auto intro!: bit_eqI simp: asn1_masks bit_simps)

lemma byte_split: "((b :: u8) AND 0xe0) OR (b AND 0x1f) = b"
proof (rule bit_eqI)
  fix k
  assume "possible_bit TYPE(u8) k"
  then have "k < 8" by simp
  then show "bit ((b AND 0xe0) OR (b AND 0x1f)) k = bit b k"
    unfolding asn1_masks by (auto simp: bit_simps)
qed

lemma unat_low5: "unat (ucast ((b :: u8) AND 0x1f) :: u32) = unat b mod 32"
  by (simp add: mask_5_u8)

lemma parse_asn1_tag_low:
  assumes "unat b mod 32 \<noteq> 31"
  shows "parse_asn1_tag (b # s) = (Some (push_bit 24 (ucast b AND 0xe0) OR ucast (b AND 0x1f)), s)"
proof -
  have "(ucast (b AND 0x1f) :: u32) \<noteq> 0x1f"
    using assms unat_low5 [of b] by (auto simp: word_unat_eq_iff)
  then show ?thesis
    by (simp add: parse_asn1_tag_def op_bind_Some Let_def CBS_ASN1_TAG_SHIFT_def op_ret_def)
qed

lemma parse_asn1_tag_high:
  assumes "unat b mod 32 = 31"
  shows "parse_asn1_tag (b # s) =
    op_bind parse_base128_integer (\<lambda>v.
      if 2 ^ 29 \<le> unat v \<or> unat v < 31 then op_fail
      else op_ret (push_bit 24 (ucast b AND 0xe0) OR ucast v)) s"
proof -
  have eq: "(ucast (b AND 0x1f) :: u32) = 0x1f"
    using assms unat_low5 [of b] by (simp add: word_unat_eq_iff)
  have "unat (ucast CBS_ASN1_TAG_NUMBER_MASK :: u64) = 2 ^ 29 - 1"
    by (simp add: CBS_ASN1_TAG_NUMBER_MASK_def)
  then have "v > ucast CBS_ASN1_TAG_NUMBER_MASK \<or> v < 0x1f \<longleftrightarrow>
      2 ^ 29 \<le> unat v \<or> unat v < 31" for v :: u64
    by (auto simp: word_less_nat_alt)
  then show ?thesis
    using eq
    by (simp add: parse_asn1_tag_def op_bind_Some Let_def CBS_ASN1_TAG_SHIFT_def del: push_bit_and)
qed

lemma parse_asn1_tag_sound:
  assumes "parse_asn1_tag s = (Some tag, t)"
  shows "s = der_tag_bytes tag @ t"
proof (cases s)
  case Nil
  with assms show ?thesis by (simp add: parse_asn1_tag_def op_bind_def)
next
  case (Cons b s')
  show ?thesis
  proof (cases "unat b mod 32 = 31")
    case False
    let ?n = "ucast (b AND 0x1f) :: u32"
    have tag: "tag = push_bit 24 (ucast b AND 0xe0) OR ?n" and t: "t = s'"
      using assms parse_asn1_tag_low [OF False] by (simp_all add: Cons)
    have n: "unat ?n < 2 ^ 29" and small: "unat ?n < 31"
      using False mod_less_divisor [of 32 "unat b"] by (simp_all add: unat_low5)
    have "of_nat (unat ?n) = b AND 0x1f"
      using u8_of_unat [of "b AND 0x1f" "unat ?n"] by simp
    then have "der_tag_bytes tag = [(b AND 0xe0) OR (b AND 0x1f)]"
      using small unfolding der_tag_bytes_def tag tag_split [OF n] by simp
    then show ?thesis by (simp add: Cons t byte_split)
  next
    case True
    obtain v :: u64 where v: "s' = b128_bytes (unat v) @ t" "\<not> 2 ^ 29 \<le> unat v" "\<not> unat v < 31"
      and tag: "tag = push_bit 24 (ucast b AND 0xe0) OR ucast v"
      using assms parse_asn1_tag_high [OF True, of s']
      by (auto simp: Cons op_simps simp del: push_bit_and split: if_splits)
    let ?n = "ucast v :: u32"
    have n: "unat ?n = unat v" using v(2) by (simp add: unat_ucast_small_u64_u32)
    then have n29: "unat ?n < 2 ^ 29" using v(2) by simp
    have "b AND 0x1f = 0x1f"
      using True by (simp add: word_unat_eq_iff mask_5_u8)
    then have "der_tag_bytes tag = ((b AND 0xe0) OR (b AND 0x1f)) # b128_bytes (unat v)"
      using v(3) n unfolding der_tag_bytes_def tag tag_split [OF n29] by simp
    then show ?thesis by (simp add: Cons v(1) byte_split)
  qed
qed

lemma parse_asn1_tag_complete: "parse_asn1_tag (der_tag_bytes tag @ t) = (Some tag, t)"
proof -
  define n where "n = unat (tag AND CBS_ASN1_TAG_NUMBER_MASK)"
  have n29: "n < 2 ^ 29" unfolding n_def by (rule unat_tag_number)
  define x :: u8 where "x = (if n < 31 then of_nat n else 0x1f)"
  define b where "b = (ucast (drop_bit 24 tag) AND 0xe0) OR x"
  have x: "unat x = (if n < 31 then n else 31)" by (simp add: x_def unat_of_nat)
  then have x32: "unat x < 2 ^ 5" by simp
  have low: "b AND 0x1f = x" unfolding b_def by (rule tag_join(2) [OF x32])
  then have b32: "unat b mod 32 = unat x" using mask_5_u8 [of b] by simp
  have join: "push_bit 24 (ucast b AND 0xe0) OR (tag AND CBS_ASN1_TAG_NUMBER_MASK) = tag"
    unfolding b_def by (rule tag_join(1) [OF x32])
  show ?thesis
  proof (cases "n < 31")
    case True
    have "(ucast (b AND 0x1f) :: u32) = tag AND CBS_ASN1_TAG_NUMBER_MASK"
      using True by (simp add: word_unat_eq_iff low x n_def)
    moreover have "der_tag_bytes tag = [b]"
      using True by (simp add: der_tag_bytes_def b_def x_def n_def [symmetric])
    ultimately show ?thesis
      using parse_asn1_tag_low [of b t] b32 x True join by simp
  next
    case False
    have high: "unat b mod 32 = 31" using False b32 x by simp
    have bytes: "der_tag_bytes tag = b # b128_bytes n"
      using False by (simp add: der_tag_bytes_def b_def x_def n_def [symmetric])
    have v: "unat (of_nat n :: u64) = n" using n29 by (simp add: unat_of_nat)
    have "parse_base128_integer (b128_bytes n @ t) = (Some (of_nat n), t)"
      using n29 by (intro parse_base128_complete) simp
    moreover have "(ucast (of_nat n :: u64) :: u32) = tag AND CBS_ASN1_TAG_NUMBER_MASK"
      using n29 v by (simp add: word_unat_eq_iff unat_ucast_small_u64_u32 n_def)
    ultimately show ?thesis
      using parse_asn1_tag_high [OF high] False n29 v join
      by (simp add: bytes op_bind_Some op_ret_def)
  qed
qed

lemma parse_asn1_tag_iff [op_simps]:
  "parse_asn1_tag s = (Some tag, t) \<longleftrightarrow> s = der_tag_bytes tag @ t"
  using parse_asn1_tag_sound parse_asn1_tag_complete by blast

lemma length_der_tag_bytes: "0 < length (der_tag_bytes tag) \<and> length (der_tag_bytes tag) \<le> 11"
  using length_b128_bytes [of "unat (tag AND CBS_ASN1_TAG_NUMBER_MASK)"] unat_tag_number [of tag]
  by (auto simp: der_tag_bytes_def Let_def)

section \<open>Definite lengths and headers\<close>

fun byte_len :: "nat \<Rightarrow> nat" where
  "byte_len n = (if n = 0 then 0 else Suc (byte_len (n div 256)))"

declare byte_len.simps [simp del]

definition der_len_bytes :: "nat \<Rightarrow> u8 list" where
  "der_len_bytes n =
     (if n < 128 then [of_nat n] else of_nat (128 + byte_len n) # be_bytes (byte_len n) n)"

definition der_header :: "u32 \<Rightarrow> nat \<Rightarrow> u8 list" where
  "der_header tag n = der_tag_bytes tag @ der_len_bytes n"

definition der_element :: "u32 \<Rightarrow> u8 list \<Rightarrow> u8 list" where
  "der_element tag body = der_header tag (length body) @ body"

lemma byte_len_iff: "byte_len n \<le> k \<longleftrightarrow> n < 256 ^ k"
proof (induction k arbitrary: n)
  case 0
  show ?case by (subst byte_len.simps) simp
next
  case (Suc k)
  show ?case
    using Suc [of "n div 256"]
    by (subst byte_len.simps) (simp add: div_less_iff_less_mult mult.commute)
qed

lemma byte_len_eqI: "256 ^ k \<le> n \<Longrightarrow> n < 256 ^ Suc k \<Longrightarrow> byte_len n = Suc k"
  using byte_len_iff [of n k] byte_len_iff [of n "Suc k"] by linarith

lemma byte_len_le_4: "n < 2 ^ 32 \<Longrightarrow> byte_len n \<le> 4"
  by (simp add: byte_len_iff)

lemma byte_len_pos: "128 \<le> n \<Longrightarrow> 0 < byte_len n"
  by (subst byte_len.simps) simp

lemma byte_len_lower: "0 < n \<Longrightarrow> 256 ^ (byte_len n - 1) \<le> n"
proof (rule ccontr)
  assume n: "0 < n" and "\<not> 256 ^ (byte_len n - 1) \<le> n"
  then have "byte_len n \<le> byte_len n - 1" by (simp add: byte_len_iff)
  then have "byte_len n = 0" by simp
  with n show False using byte_len_iff [of n 0] by simp
qed

lemma byte_len_upper: "n < 256 ^ byte_len n"
  using byte_len_iff [of n "byte_len n"] by simp

lemma length_der_len_bytes: "n < 2 ^ 32 \<Longrightarrow> length (der_len_bytes n) \<le> 5"
  using byte_len_le_4 by (simp add: der_len_bytes_def)

text \<open>The code after the tag has been parsed, over the length octet and what follows it.\<close>

lemma unat_long_form: "\<not> unat (lb :: u8) < 128 \<Longrightarrow> unat (lb AND 0x7f) = unat lb - 128"
proof -
  assume "\<not> unat lb < 128"
  then obtain d where "unat lb = 128 + d" by (metis le_Suc_ex not_less)
  moreover have "d < 128" using unat_u8_less [of lb] calculation by simp
  ultimately show ?thesis by (simp add: mask_7_u8)
qed

lemma element_unfold:
  fixes tag :: u32
  assumes s: "s = der_tag_bytes tag @ lb # h" and hl: "hl = length (der_tag_bytes tag) + 1"
  shows "unat lb < 128 \<Longrightarrow> cbs_get_any_asn1_element ber s =
      op_bind (CBS_get_bytes (unat lb + hl)) (\<lambda>out. op_ret (out, tag, hl)) s"
    and "ber \<Longrightarrow> tag AND CBS_ASN1_CONSTRUCTED \<noteq> 0 \<Longrightarrow> unat lb = 128 \<Longrightarrow>
      cbs_get_any_asn1_element ber s =
        op_bind (CBS_get_bytes hl) (\<lambda>out. op_ret (out, tag, hl)) s"
    and "\<not> unat lb < 128 \<Longrightarrow> \<not> (ber \<and> tag AND CBS_ASN1_CONSTRUCTED \<noteq> 0 \<and> unat lb = 128) \<Longrightarrow>
      nb = unat lb - 128 \<Longrightarrow>
      cbs_get_any_asn1_element ber s =
        (if nb = 0 \<or> 4 < nb then (None, s)
         else (case cbs_get_u nb h of
             (None, _) \<Rightarrow> (None, s)
           | (Some len64, _) \<Rightarrow>
               if unat len64 < 128 then (None, s)
               else if unat len64 < 256 ^ (nb - 1) then (None, s)
               else if wrap64 (unat len64 + hl + nb) < unat len64 then (None, s)
               else op_bind (CBS_get_bytes (wrap64 (unat len64 + (hl + nb))))
                      (\<lambda>out. op_ret (out, tag, hl + nb)) s))"
proof -
  have hl': "CBS_len s - CBS_len h = hl" by (simp add: s hl CBS_len_def)
  have tag: "parse_asn1_tag s = (Some tag, lb # h)" by (simp add: s parse_asn1_tag_complete)
  show "unat lb < 128 \<Longrightarrow> cbs_get_any_asn1_element ber s =
      op_bind (CBS_get_bytes (unat lb + hl)) (\<lambda>out. op_ret (out, tag, hl)) s"
    by (simp add: cbs_get_any_asn1_element_def tag hl' top_bit_u8)
  show "ber \<Longrightarrow> tag AND CBS_ASN1_CONSTRUCTED \<noteq> 0 \<Longrightarrow> unat lb = 128 \<Longrightarrow>
      cbs_get_any_asn1_element ber s =
        op_bind (CBS_get_bytes hl) (\<lambda>out. op_ret (out, tag, hl)) s"
    by (simp add: cbs_get_any_asn1_element_def tag hl' top_bit_u8 unat_long_form)
  assume long: "\<not> unat lb < 128" and nb: "nb = unat lb - 128"
    and ind: "\<not> (ber \<and> tag AND CBS_ASN1_CONSTRUCTED \<noteq> 0 \<and> unat lb = 128)"
  have "\<not> (ber \<and> tag AND CBS_ASN1_CONSTRUCTED \<noteq> 0 \<and> nb = 0)"
    using long ind by (auto simp: nb)
  moreover have "unat (lb AND 0x7f) = nb" using long by (simp add: unat_long_form nb)
  moreover have "drop_bit ((nb - 1) * 8) v = 0 \<longleftrightarrow> unat v < 256 ^ (nb - 1)" for v :: u64
    by (simp add: drop_bit_eq_0_iff pow256)
  moreover have "v < 128 \<longleftrightarrow> unat v < 128" for v :: u64
    by (simp add: word_less_nat_alt)
  ultimately show "cbs_get_any_asn1_element ber s =
        (if nb = 0 \<or> 4 < nb then (None, s)
         else (case cbs_get_u nb h of
             (None, _) \<Rightarrow> (None, s)
           | (Some len64, _) \<Rightarrow>
               if unat len64 < 128 then (None, s)
               else if unat len64 < 256 ^ (nb - 1) then (None, s)
               else if wrap64 (unat len64 + hl + nb) < unat len64 then (None, s)
               else op_bind (CBS_get_bytes (wrap64 (unat len64 + (hl + nb))))
                      (\<lambda>out. op_ret (out, tag, hl + nb)) s))"
    using long
    by (simp only: cbs_get_any_asn1_element_def tag hl' top_bit_u8 Let_def CBS_get_u8_Cons
        prod.case option.case if_False simp_thms)
qed

lemma long_form_bytes:
  assumes "length d = nb" and "1 \<le> nb" and "nb \<le> 4"
    and "128 \<le> be_nat d" and "256 ^ (nb - 1) \<le> be_nat d"
    and "unat lb = 128 + nb"
  shows "der_len_bytes (be_nat d) = lb # d"
proof -
  have "be_nat d < 256 ^ nb" using be_nat_bound [of d] assms(1) by simp
  then have "byte_len (be_nat d) = nb"
    using byte_len_eqI [of "nb - 1" "be_nat d"] assms(2,5) by simp
  then show ?thesis
    using assms(1,4) u8_of_unat [OF assms(6)] be_bytes_be_nat [of d] by (auto simp: der_len_bytes_def)
qed

lemma prefix_body:
  assumes "p @ h = out @ t" and "length p \<le> length out"
  shows "\<exists>body. out = p @ body \<and> h = body @ t"
  using assms by (auto simp: append_eq_append_conv2)

lemma no_wrap_element:
  "n < 2 ^ 32 \<Longrightarrow> hl \<le> 12 \<Longrightarrow> nb \<le> 4 \<Longrightarrow> wrap64 (n + hl + nb) = n + hl + nb"
  by simp

lemma element_hl_le: "hl = length (der_tag_bytes tag) + 1 \<Longrightarrow> hl \<le> 12"
  using length_der_tag_bytes [of tag] by simp

lemma cbs_get_any_asn1_element_sound:
  assumes r: "cbs_get_any_asn1_element ber s = (Some (out, tag, hl), t)"
  shows "s = out @ t"
    and "(\<exists>body. out = der_element tag body \<and> length body < 2 ^ 32 \<and>
            hl = length (der_header tag (length body))) \<or>
         (ber \<and> tag AND CBS_ASN1_CONSTRUCTED \<noteq> 0 \<and> out = der_tag_bytes tag @ [0x80] \<and>
            hl = length out)"
proof -
  obtain tag' h0 where tag: "parse_asn1_tag s = (Some tag', h0)"
    using r by (auto simp: cbs_get_any_asn1_element_def split: prod.splits option.splits)
  moreover obtain lb h where "h0 = lb # h"
    using r tag by (cases h0) (auto simp: cbs_get_any_asn1_element_def)
  ultimately have s: "s = der_tag_bytes tag' @ lb # h" by (simp add: parse_asn1_tag_iff)
  define hl0 where "hl0 = length (der_tag_bytes tag') + 1"
  note unf = element_unfold [OF s hl0_def]
  have "s = out @ t \<and> ((\<exists>body. out = der_element tag body \<and> length body < 2 ^ 32 \<and>
            hl = length (der_header tag (length body))) \<or>
         (ber \<and> tag AND CBS_ASN1_CONSTRUCTED \<noteq> 0 \<and> out = der_tag_bytes tag @ [0x80] \<and>
            hl = length out))"
  proof (cases "unat lb < 128")
    case True
    then have out: "s = out @ t" "length out = unat lb + hl0" "tag = tag'" "hl = hl0"
      using r unf(1) by (auto simp: op_simps)
    then obtain body where body: "out = der_tag_bytes tag' @ lb # body"
      using prefix_body [of "der_tag_bytes tag' @ [lb]" h out t] s by (auto simp: hl0_def)
    then have "length body = unat lb" using out(2) by (simp add: hl0_def)
    then have "der_len_bytes (length body) = [lb]" using True by (simp add: der_len_bytes_def)
    then have "out = der_element tag body" and "hl = length (der_header tag (length body))"
      using out body by (simp_all add: der_element_def der_header_def hl0_def)
    with out(1) \<open>length body = unat lb\<close> True show ?thesis by auto
  next
    case False
    define nb where "nb = unat lb - 128"
    show ?thesis
    proof (cases "ber \<and> tag' AND CBS_ASN1_CONSTRUCTED \<noteq> 0 \<and> unat lb = 128")
      case True
      then have out: "s = out @ t" "length out = hl0" "tag = tag'" "hl = hl0"
        using r unf(2) by (auto simp: op_simps)
      have "lb = 0x80" using True by (simp add: word_unat_eq_iff)
      then have "out = der_tag_bytes tag' @ [0x80]"
        using prefix_body [of "der_tag_bytes tag' @ [lb]" h out t] s out by (auto simp: hl0_def)
      with True out show ?thesis by simp
    next
      case ind: False
      note eq = unf(3) [OF False ind nb_def]
      obtain len64 h' where nb: "nb \<noteq> 0" "nb \<le> 4" and u: "cbs_get_u nb h = (Some len64, h')"
        and ge: "128 \<le> unat len64" "256 ^ (nb - 1) \<le> unat len64"
        and get: "op_bind (CBS_get_bytes (wrap64 (unat len64 + (hl0 + nb))))
                      (\<lambda>out. op_ret (out, tag', hl0 + nb)) s = (Some (out, tag, hl), t)"
        using r unfolding eq by (auto split: if_splits prod.splits option.splits)
      obtain d where d: "h = d @ h'" "length d = nb" "unat len64 = be_nat d"
        using u nb by (auto simp: op_simps)
      have small: "be_nat d < 2 ^ 32"
        using be_nat_bound [of d] d(2) nb(2) power_increasing [of nb 4 "256 :: nat"] by simp
      then have "wrap64 (unat len64 + (hl0 + nb)) = be_nat d + hl0 + nb"
        using no_wrap_element [OF small element_hl_le [OF hl0_def] nb(2)] by (simp add: d(3) add.assoc)
      then have out: "s = out @ t" "length out = be_nat d + hl0 + nb" "tag = tag'" "hl = hl0 + nb"
        using get by (auto simp: op_simps)
      obtain body where body: "out = (der_tag_bytes tag' @ lb # d) @ body"
        using prefix_body [of "der_tag_bytes tag' @ lb # d" h' out t] s d out(1,2)
        by (auto simp: hl0_def)
      then have n: "length body = be_nat d" using out(2) d(2) by (simp add: hl0_def)
      have "unat lb = 128 + nb" using False nb_def by simp
      then have "der_len_bytes (length body) = lb # d"
        using long_form_bytes [OF d(2)] nb ge d(3) n by simp
      then have "out = der_element tag body" and "hl = length (der_header tag (length body))"
        using out body d(2) by (simp_all add: der_element_def der_header_def hl0_def)
      with out(1) n small show ?thesis by auto
    qed
  qed
  then show "s = out @ t"
    and "(\<exists>body. out = der_element tag body \<and> length body < 2 ^ 32 \<and>
            hl = length (der_header tag (length body))) \<or>
         (ber \<and> tag AND CBS_ASN1_CONSTRUCTED \<noteq> 0 \<and> out = der_tag_bytes tag @ [0x80] \<and>
            hl = length out)"
    by blast+
qed

lemma cbs_get_any_asn1_element_complete:
  assumes small: "length body < 2 ^ 32"
  shows "cbs_get_any_asn1_element ber (der_element tag body @ t) =
    (Some (der_element tag body, tag, length (der_header tag (length body))), t)"
proof (cases "length body < 128")
  case True
  define lb :: u8 where "lb = of_nat (length body)"
  have lb: "unat lb = length body" using True by (simp add: lb_def unat_of_nat)
  have el: "der_element tag body = der_tag_bytes tag @ lb # body"
    and hdr: "der_header tag (length body) = der_tag_bytes tag @ [lb]"
    using True by (simp_all add: der_element_def der_header_def der_len_bytes_def lb_def)
  have "cbs_get_any_asn1_element ber (der_element tag body @ t) =
      op_bind (CBS_get_bytes (unat lb + (length (der_tag_bytes tag) + 1)))
        (\<lambda>out. op_ret (out, tag, length (der_tag_bytes tag) + 1)) (der_element tag body @ t)"
    using True lb by (intro element_unfold(1) [where h = "body @ t"]) (simp_all add: el)
  also have "CBS_get_bytes (unat lb + (length (der_tag_bytes tag) + 1)) (der_element tag body @ t) =
      (Some (der_element tag body), t)"
    by (simp add: op_simps el lb)
  then have "op_bind (CBS_get_bytes (unat lb + (length (der_tag_bytes tag) + 1)))
        (\<lambda>out. op_ret (out, tag, length (der_tag_bytes tag) + 1)) (der_element tag body @ t) =
      (Some (der_element tag body, tag, length (der_header tag (length body))), t)"
    by (simp add: op_bind_Some op_ret_def hdr)
  finally show ?thesis .
next
  case False
  define n where "n = length body"
  define nb where "nb = byte_len n"
  define d where "d = be_bytes nb n"
  define hl where "hl = length (der_tag_bytes tag) + 1"
  define lb :: u8 where "lb = of_nat (128 + nb)"
  have n: "128 \<le> n" "n < 2 ^ 32" using False small by (simp_all add: n_def)
  have nb: "nb \<noteq> 0" "nb \<le> 4" using byte_len_pos [OF n(1)] byte_len_le_4 [OF n(2)]
    by (simp_all add: nb_def)
  have lb: "unat lb = 128 + nb" unfolding lb_def unat_of_nat_u8 using nb by simp
  have d: "length d = nb" "be_nat d = n" using byte_len_upper [of n] by (simp_all add: d_def nb_def)
  have lower: "256 ^ (nb - 1) \<le> n" using byte_len_lower [of n] n(1) by (simp add: nb_def)
  have el: "der_element tag body @ t = der_tag_bytes tag @ lb # (d @ body @ t)"
    and hdr: "der_header tag (length body) = der_tag_bytes tag @ lb # d"
    using n(1) by (simp_all add: der_element_def der_header_def der_len_bytes_def lb_def d_def nb_def
        n_def [symmetric])
  define len64 :: u64 where "len64 = of_nat n"
  have len64: "unat len64 = n" using n by (simp add: len64_def unat_of_nat)
  have u: "cbs_get_u nb (d @ body @ t) = (Some len64, body @ t)"
    using nb d len64 by (simp add: op_simps)
  have wrap: "wrap64 (n + hl + nb) = n + hl + nb" "wrap64 (n + (hl + nb)) = n + hl + nb"
    using no_wrap_element [OF n(2) element_hl_le [OF hl_def] nb(2)] by (simp_all add: add.assoc)
  have ind: "\<not> (ber \<and> tag AND CBS_ASN1_CONSTRUCTED \<noteq> 0 \<and> unat lb = 128)" using lb nb by simp
  have long: "\<not> unat lb < 128" and nb_eq: "nb = unat lb - 128" using lb by simp_all
  have guards: "\<not> (nb = 0 \<or> 4 < nb)" "\<not> n < 128" "\<not> n < 256 ^ (nb - 1)" "\<not> n + hl + nb < n"
    using nb n lower by simp_all
  have "cbs_get_any_asn1_element ber (der_element tag body @ t) =
      op_bind (CBS_get_bytes (n + hl + nb)) (\<lambda>out. op_ret (out, tag, hl + nb))
        (der_element tag body @ t)"
    by (simp only: element_unfold(3) [OF el hl_def long ind nb_eq] u prod.case option.case len64
        wrap guards if_False)
  also have "\<dots> = (Some (der_element tag body, tag, length (der_header tag (length body))), t)"
  proof -
    have "CBS_get_bytes (n + hl + nb) (der_element tag body @ t) = (Some (der_element tag body), t)"
      using d by (simp add: op_simps der_element_def hdr hl_def n_def)
    then show ?thesis using d by (simp add: op_bind_Some op_ret_def hdr hl_def)
  qed
  finally show ?thesis .
qed

lemma cbs_get_any_asn1_element_indefinite:
  assumes "tag AND CBS_ASN1_CONSTRUCTED \<noteq> 0"
  shows "cbs_get_any_asn1_element True (der_tag_bytes tag @ 0x80 # t) =
    (Some (der_tag_bytes tag @ [0x80], tag, length (der_tag_bytes tag) + 1), t)"
proof -
  have "cbs_get_any_asn1_element True (der_tag_bytes tag @ 0x80 # t) =
      op_bind (CBS_get_bytes (length (der_tag_bytes tag) + 1))
        (\<lambda>out. op_ret (out, tag, length (der_tag_bytes tag) + 1)) (der_tag_bytes tag @ 0x80 # t)"
    using assms by (intro element_unfold(2) [where lb = "0x80"]) simp_all
  also have "CBS_get_bytes (length (der_tag_bytes tag) + 1) (der_tag_bytes tag @ 0x80 # t) =
      (Some (der_tag_bytes tag @ [0x80]), t)"
    by (simp add: op_simps)
  then have "op_bind (CBS_get_bytes (length (der_tag_bytes tag) + 1))
        (\<lambda>out. op_ret (out, tag, length (der_tag_bytes tag) + 1)) (der_tag_bytes tag @ 0x80 # t) =
      (Some (der_tag_bytes tag @ [0x80], tag, length (der_tag_bytes tag) + 1), t)"
    by (simp add: op_bind_Some op_ret_def)
  finally show ?thesis .
qed

end
