(* ===== verification/Cbb_Refine.thy ===== *)
theory Cbb_Refine
  imports Cbb Der
begin

text \<open>
  What the builder of \<open>Cbb\<close> promises.  The abstract builder is a stack of byte
  strings: the contents of the innermost open object, and for every open child,
  innermost first, the kind of its length prefix with the contents of its parent up to
  the child's header.  Closing a child appends its length prefix and its contents to
  the parent.  The lemmas show that the buffer with its offsets implements this stack,
  the move of the contents for long DER lengths included, and that it stays inside its
  memory.
\<close>

declare split_paired_All [simp del] split_paired_Ex [simp del]

section \<open>The abstract builder\<close>

datatype cbb_frame = Fixed nat | Asn1

type_synonym cbb_stack = "u8 list \<times> (cbb_frame \<times> u8 list) list"

definition frame_prefix :: "cbb_frame \<Rightarrow> u8 list \<Rightarrow> u8 list option" where
  "frame_prefix k body =
     (case k of
        Fixed n \<Rightarrow> if length body < 256 ^ n then Some (be_bytes n (length body)) else None
      | Asn1 \<Rightarrow> if length body \<le> 0xfffffffe then Some (der_len_bytes (length body)) else None)"

fun stack_flush :: "nat \<Rightarrow> cbb_stack \<Rightarrow> cbb_stack option" where
  "stack_flush d (cur, []) = (if d = 0 then Some (cur, []) else None)"
| "stack_flush d (cur, (k, p) # ctx) =
     (if Suc (length ctx) < d then None
      else if Suc (length ctx) = d then Some (cur, (k, p) # ctx)
      else (case frame_prefix k cur of
              None \<Rightarrow> None
            | Some pfx \<Rightarrow> stack_flush d (p @ pfx @ cur, ctx)))"

text \<open>The bytes a stack takes in the buffer, with the space kept for length prefixes.\<close>

definition frame_space :: "cbb_frame \<Rightarrow> nat" where
  "frame_space k = (case k of Fixed n \<Rightarrow> n | Asn1 \<Rightarrow> 1)"

definition stack_size :: "cbb_stack \<Rightarrow> nat" where
  "stack_size = (\<lambda>(cur, ctx). length cur + sum_list (map (\<lambda>(k, p). frame_space k + length p) ctx))"

definition stack_append :: "u8 list \<Rightarrow> cbb_stack \<Rightarrow> cbb_stack" where
  "stack_append bs = (\<lambda>(cur, ctx). (cur @ bs, ctx))"

definition stack_open :: "cbb_frame \<Rightarrow> cbb_stack \<Rightarrow> cbb_stack" where
  "stack_open k = (\<lambda>(cur, ctx). ([], (k, cur) # ctx))"

definition stack_add :: "nat \<Rightarrow> u8 list \<Rightarrow> cbb_stack \<Rightarrow> cbb_stack option" where
  "stack_add d bs s = map_option (stack_append bs) (stack_flush d s)"

definition stack_child :: "nat \<Rightarrow> cbb_frame \<Rightarrow> u8 list \<Rightarrow> cbb_stack \<Rightarrow> cbb_stack option" where
  "stack_child d k hdr s = map_option (stack_open k) (stack_add d hdr s)"

lemma stack_flush_depth: "stack_flush d s = Some s' \<Longrightarrow> length (snd s') = d"
  by (induction d s rule: stack_flush.induct) (auto split: if_splits option.splits)

lemma stack_flush_id [simp]: "length ctx = d \<Longrightarrow> stack_flush d (cur, ctx) = Some (cur, ctx)"
  by (cases ctx) auto

lemma stack_flush_step:
  "d < length (snd s) \<Longrightarrow> stack_flush d s = Option.bind (stack_flush (Suc d) s) (stack_flush d)"
proof (induction d s rule: stack_flush.induct)
  case (1 d cur)
  then show ?case by simp
next
  case (2 d cur k p ctx)
  show ?case
  proof (cases "d < length ctx")
    case True
    then show ?thesis using 2 by (auto split: option.splits)
  next
    case False
    then have "length ctx = d" using 2(2) by simp
    then show ?thesis by (simp split: option.splits)
  qed
qed

lemma length_der_len_bytes_pos: "0 < length (der_len_bytes n)"
  by (simp add: der_len_bytes_def)

lemma frame_prefix_space: "frame_prefix k z = Some pfx \<Longrightarrow> frame_space k \<le> length pfx"
  using length_der_len_bytes_pos [of "length z"]
  by (cases k) (auto simp: frame_prefix_def frame_space_def Suc_le_eq simp del: length_greater_0_conv split: if_splits)

lemma stack_flush_size: "stack_flush d s = Some s' \<Longrightarrow> stack_size s \<le> stack_size s'"
proof (induction d s rule: stack_flush.induct)
  case (1 d cur)
  then show ?case by (simp split: if_splits)
next
  case (2 d cur k p ctx)
  consider "s' = (cur, (k, p) # ctx)"
    | pfx where "frame_prefix k cur = Some pfx" "stack_size (p @ pfx @ cur, ctx) \<le> stack_size s'"
    using 2 by (auto split: if_splits option.splits)
  then show ?case
  proof cases
    case 1
    then show ?thesis by simp
  next
    case 2
    then show ?thesis using frame_prefix_space [OF 2(1)] by (simp add: stack_size_def)
  qed
qed

section \<open>The abstraction\<close>

definition frame_of :: "cbb_child_st \<Rightarrow> cbb_frame" where
  "frame_of c = (if pending_is_asn1 c then Asn1 else Fixed (pending_len_len c))"

text \<open>The chain is read innermost first.\<close>

fun cbb_view :: "u8 list \<Rightarrow> cbb_child_st list \<Rightarrow> cbb_stack" where
  "cbb_view w [] = (w, [])"
| "cbb_view w (c # cs) =
     (case cbb_view (take (cbb_offset c) w) cs of
        (p, ctx) \<Rightarrow> (drop (cbb_offset c + pending_len_len c) w, (frame_of c, p) # ctx))"

fun chain_ok :: "nat \<Rightarrow> cbb_child_st list \<Rightarrow> bool" where
  "chain_ok n [] \<longleftrightarrow> True"
| "chain_ok n (c # cs) \<longleftrightarrow>
     0 < pending_len_len c \<and> cbb_offset c + pending_len_len c \<le> n \<and>
     (pending_is_asn1 c \<longrightarrow> pending_len_len c = 1) \<and> chain_ok (cbb_offset c) cs"

definition cbb_written :: "cbb_buffer_st \<Rightarrow> u8 list" where
  "cbb_written b = take (cbb_len b) (cbb_buf b)"

definition cbb_buffer_ok :: "cbb_buffer_st \<Rightarrow> bool" where
  "cbb_buffer_ok b \<longleftrightarrow>
     length (cbb_buf b) = cbb_cap b \<and> cbb_len b \<le> cbb_cap b \<and> cbb_cap b \<le> ptrdiff_max \<and>
     (cbb_can_resize b \<longrightarrow> cbb_cap b + 8 \<le> ptrdiff_max)"

definition cbb_ok :: "cbb_st \<Rightarrow> bool" where
  "cbb_ok cbb \<longleftrightarrow>
     (case cbb_base cbb of
        None \<Rightarrow> True
      | Some b \<Rightarrow> cbb_buffer_ok b \<and>
          (\<not> cbb_error b \<longrightarrow> chain_ok (cbb_len b) (rev (cbb_chain cbb))))"

text \<open>
  Room for \<open>n\<close> bytes: they fit into the capacity, or the buffer may grow, the size is
  moderate and the allocator does not fail.
\<close>

definition malloc_total :: "allocator \<Rightarrow> bool" where
  "malloc_total ml \<longleftrightarrow> (\<forall>n \<le> ptrdiff_max. ml n \<noteq> None)"

definition cbb_room :: "allocator \<Rightarrow> nat \<Rightarrow> cbb_buffer_st \<Rightarrow> bool" where
  "cbb_room ml n b \<longleftrightarrow>
     n \<le> cbb_cap b \<or> (cbb_can_resize b \<and> n \<le> 2 ^ 60 \<and> malloc_total ml)"

definition buffer_grows :: "cbb_buffer_st \<Rightarrow> cbb_buffer_st \<Rightarrow> bool" where
  "buffer_grows b b' \<longleftrightarrow> cbb_cap b \<le> cbb_cap b' \<and> cbb_can_resize b' = cbb_can_resize b"

lemma buffer_grows_refl [simp]: "buffer_grows b b"
  by (simp add: buffer_grows_def)

lemma buffer_grows_trans: "buffer_grows a b \<Longrightarrow> buffer_grows b c \<Longrightarrow> buffer_grows a c"
  by (auto simp: buffer_grows_def)

lemma buffer_grows_simps [simp]:
  "buffer_grows b (b'\<lparr>cbb_buf := m\<rparr>) = buffer_grows b b'"
  "buffer_grows b (b'\<lparr>cbb_len := n\<rparr>) = buffer_grows b b'"
  "buffer_grows b (b'\<lparr>cbb_error := e\<rparr>) = buffer_grows b b'"
  by (simp_all add: buffer_grows_def)

lemma cbb_room_grows: "cbb_room ml n b \<Longrightarrow> buffer_grows b b' \<Longrightarrow> cbb_room ml n b'"
  by (auto simp: cbb_room_def buffer_grows_def)

lemma cbb_room_le: "cbb_room ml n b \<Longrightarrow> m \<le> n \<Longrightarrow> cbb_room ml m b"
  by (auto simp: cbb_room_def)

text \<open>The stack a builder stands for; none after an error or the end.\<close>

definition cbb_stack_of :: "cbb_st \<Rightarrow> cbb_stack option" where
  "cbb_stack_of cbb =
     (case cbb_base cbb of
        None \<Rightarrow> None
      | Some b \<Rightarrow>
          if cbb_error b then None else Some (cbb_view (cbb_written b) (rev (cbb_chain cbb))))"

lemma chain_ok_mono: "chain_ok m cs \<Longrightarrow> m \<le> n \<Longrightarrow> chain_ok n cs"
  by (cases cs) auto

lemma cbb_view_append:
  "chain_ok (length w) cs \<Longrightarrow> cbb_view (w @ bs) cs = stack_append bs (cbb_view w cs)"
  by (cases cs) (auto simp: stack_append_def split: prod.splits)

lemma length_cbb_view [simp]: "length (snd (cbb_view w cs)) = length cs"
  by (induction w cs rule: cbb_view.induct) (auto split: prod.splits)

lemma length_cbb_written: "cbb_buffer_ok b \<Longrightarrow> length (cbb_written b) = cbb_len b"
  by (simp add: cbb_buffer_ok_def cbb_written_def)

section \<open>The buffer operations\<close>

lemma mem_write_snoc:
  "off + length bs < length m \<Longrightarrow>
     mem_write (m[off + length bs := x]) off bs = mem_write m off (bs @ [x])"
  by (simp add: mem_write_def drop_update_swap Cons_nth_drop_Suc [symmetric])

lemma be_store_eq:
  "off + n \<le> length m \<Longrightarrow>
     be_store m off n v = (mem_write m off (be_bytes n (unat v)), drop_bit (8 * n) v)"
proof (induction m off n v rule: be_store.induct)
  case (1 m off v)
  then show ?case by simp
next
  case (2 m off i v)
  have "be_bytes (Suc i) (unat v) = be_bytes i (unat (drop_bit 8 v)) @ [ucast v]"
    by (simp add: unat_drop_bit)
  then show ?case
    using 2 mem_write_snoc [of off "be_bytes i (unat (drop_bit 8 v))" m "ucast v"]
    by (simp add: drop_bit_drop_bit add.commute del: be_bytes.simps)
qed

lemma cbb_store_u_Some:
  assumes "off + n \<le> length (cbb_buf b)" and "unat v < 256 ^ n"
  shows "cbb_store_u off n v b =
    (Some (), b\<lparr>cbb_buf := mem_write (cbb_buf b) off (be_bytes n (unat v))\<rparr>)"
  using assms
  by (simp add: cbb_store_u_def be_store_eq drop_bit_eq_0_iff pow256 mult.commute)

lemma cbb_store_u_None:
  assumes "off + n \<le> length (cbb_buf b)" and "\<not> unat v < 256 ^ n"
  shows "cbb_store_u off n v b =
    (None, b\<lparr>cbb_buf := mem_write (cbb_buf b) off (be_bytes n (unat v)), cbb_error := True\<rparr>)"
  using assms
  by (simp add: cbb_store_u_def be_store_eq drop_bit_eq_0_iff pow256 mult.commute)

lemma cbb_written_simps [simp]:
  "cbb_written (b\<lparr>cbb_error := e\<rparr>) = cbb_written b"
  "cbb_buffer_ok (b\<lparr>cbb_error := e\<rparr>) = cbb_buffer_ok b"
  by (simp_all add: cbb_written_def cbb_buffer_ok_def)

lemma cbb_buffer_reserve_ok:
  assumes "cbb_buffer_reserve ml n b = (r, b')" and "malloc_ok ml"
    and "cbb_buffer_ok b" and "n \<le> ptrdiff_max"
  shows "cbb_buffer_ok b'" and "cbb_written b' = cbb_written b" and "cbb_len b' = cbb_len b"
    and "r = None \<Longrightarrow> cbb_error b' \<and> \<not> cbb_room ml (cbb_len b + n) b" and "buffer_grows b b'"
    and "r = Some off \<Longrightarrow> off = cbb_len b \<and> cbb_len b + n \<le> cbb_cap b' \<and> cbb_error b' = cbb_error b"
proof -
  have nowrap: "wrap64 (cbb_len b + n) = cbb_len b + n"
    using assms(3,4) by (simp add: cbb_buffer_ok_def)
  define newcap where "newcap = (let newcap = wrap64 (cbb_cap b * 2)
    in if newcap < cbb_cap b \<or> newcap < cbb_len b + n then cbb_len b + n else newcap)"
  have eq: "cbb_buffer_reserve ml n b =
      (if cbb_len b + n \<le> cbb_cap b then (Some (cbb_len b), b)
       else if \<not> cbb_can_resize b then (None, b\<lparr>cbb_error := True\<rparr>)
       else (case OPENSSL_realloc ml (Some (cbb_buf b)) newcap of
               None \<Rightarrow> (None, b\<lparr>cbb_error := True\<rparr>)
             | Some newbuf \<Rightarrow> (Some (cbb_len b), b\<lparr>cbb_buf := newbuf, cbb_cap := newcap\<rparr>)))"
    unfolding cbb_buffer_reserve_def nowrap newcap_def Let_def by (simp add: not_less)
  note res = assms(1) [unfolded eq]
  have "cbb_buffer_ok b' \<and> cbb_written b' = cbb_written b \<and> cbb_len b' = cbb_len b \<and>
      (r = None \<longrightarrow> cbb_error b' \<and> \<not> cbb_room ml (cbb_len b + n) b) \<and> buffer_grows b b' \<and>
      (r = Some off \<longrightarrow> off = cbb_len b \<and> cbb_len b + n \<le> cbb_cap b' \<and> cbb_error b' = cbb_error b)"
    for off
  proof (cases "cbb_len b + n \<le> cbb_cap b")
    case True
    then show ?thesis using res assms(3) by auto
  next
    case more: False
    show ?thesis
    proof (cases "\<not> cbb_can_resize b \<or> OPENSSL_realloc ml (Some (cbb_buf b)) newcap = None")
      case True
      then have "r = None" "b\<lparr>cbb_error := True\<rparr> = b'" using res more by (cases "cbb_can_resize b"; auto)+
      moreover have "\<not> cbb_room ml (cbb_len b + n) b"
      proof
        assume "cbb_room ml (cbb_len b + n) b"
        then have room: "cbb_can_resize b" "cbb_len b + n \<le> 2 ^ 60" "malloc_total ml"
          using more by (simp_all add: cbb_room_def)
        then have "newcap \<le> 2 ^ 61" using more by (auto simp: newcap_def Let_def)
        then have "OPENSSL_malloc ml newcap \<noteq> None"
          using room(3) by (auto simp: OPENSSL_malloc_def malloc_total_def split: option.splits)
        then show False
          using True room(1) by (auto simp: OPENSSL_realloc_def Let_def split: option.splits)
      qed
      ultimately show ?thesis using assms(3) by auto
    next
      case False
      then obtain newbuf where new: "OPENSSL_realloc ml (Some (cbb_buf b)) newcap = Some newbuf"
        by blast
      then have r: "r = Some (cbb_len b)" "b\<lparr>cbb_buf := newbuf, cbb_cap := newcap\<rparr> = b'"
        using res more False by simp_all
      have cap: "length (cbb_buf b) = cbb_cap b" "cbb_len b \<le> cbb_cap b" "cbb_cap b + 8 \<le> ptrdiff_max"
        using assms(3) False by (simp_all add: cbb_buffer_ok_def)
      have nc: "cbb_len b + n \<le> newcap" "cbb_cap b \<le> newcap" "newcap + 8 < 2 ^ 64"
        using cap assms(4) more by (auto simp: newcap_def Let_def)
      have "length newbuf = newcap \<and> newcap + 8 \<le> ptrdiff_max"
        by (rule OPENSSL_realloc_length [OF assms(2) new nc(3)])
      moreover have "take (cbb_len b) newbuf = take (cbb_len b) (cbb_buf b)"
        by (rule OPENSSL_realloc_contents [OF assms(2) new nc(3)]) (use cap nc in simp_all)
      ultimately show ?thesis
        using cap nc by (auto simp: r(1) r(2) [symmetric] cbb_buffer_ok_def cbb_written_def buffer_grows_def)
    qed
  qed
  then show "cbb_buffer_ok b'" and "cbb_written b' = cbb_written b" and "cbb_len b' = cbb_len b"
    and "r = None \<Longrightarrow> cbb_error b' \<and> \<not> cbb_room ml (cbb_len b + n) b" and "buffer_grows b b'"
    and "r = Some off \<Longrightarrow> off = cbb_len b \<and> cbb_len b + n \<le> cbb_cap b' \<and> cbb_error b' = cbb_error b"
    by blast+
qed

text \<open>
  Appending: a buffer operation appends \<open>bs\<close> when on success the written bytes are
  followed by \<open>bs\<close>, on failure the error flag is set and there was no room, and the
  memory stays in order.
\<close>

definition buffer_appends :: "allocator \<Rightarrow> (cbb_buffer_st, 'a) op \<Rightarrow> u8 list \<Rightarrow> bool" where
  "buffer_appends ml f bs \<longleftrightarrow>
     (\<forall>b r b'. cbb_buffer_ok b \<longrightarrow> \<not> cbb_error b \<longrightarrow> f b = (r, b') \<longrightarrow>
        cbb_buffer_ok b' \<and> buffer_grows b b' \<and>
        (if r = None then cbb_error b' \<and> \<not> cbb_room ml (cbb_len b + length bs) b
         else \<not> cbb_error b' \<and> cbb_written b' = cbb_written b @ bs))"

lemma cbb_buffer_add_cases:
  assumes "cbb_buffer_add ml n b = (r, b')" and "malloc_ok ml"
    and "cbb_buffer_ok b" and "n \<le> ptrdiff_max" and "\<not> cbb_error b"
  obtains (err) "r = None" "cbb_error b'" "cbb_buffer_ok b'" "buffer_grows b b'"
      "\<not> cbb_room ml (cbb_len b + n) b"
  | (ok) "r = Some (cbb_len b)" "\<not> cbb_error b'" "cbb_buffer_ok b'"
      "cbb_len b' = cbb_len b + n" "take (cbb_len b) (cbb_buf b') = cbb_written b"
      "buffer_grows b b'"
proof -
  obtain r1 b1 where res: "cbb_buffer_reserve ml n b = (r1, b1)" by fastforce
  note f = cbb_buffer_reserve_ok [OF res assms(2-4)]
  show ?thesis
  proof (cases r1)
    case None
    then have "r = None" "b' = b1" using assms(1) res by (simp_all add: cbb_buffer_add_def op_simps)
    then show ?thesis using f(1,4,5) None err by simp
  next
    case (Some off)
    then have r: "r = Some off" "b' = b1\<lparr>cbb_len := cbb_len b1 + n\<rparr>"
      using assms(1) res by (simp_all add: cbb_buffer_add_def op_simps)
    have off: "off = cbb_len b" "cbb_len b + n \<le> cbb_cap b1" "\<not> cbb_error b1"
      using f(6) [OF Some] assms(5) by simp_all
    show ?thesis
    proof (rule ok)
      show "cbb_buffer_ok b'"
        using f(1) off f(3) by (simp add: r cbb_buffer_ok_def)
      show "take (cbb_len b) (cbb_buf b') = cbb_written b"
        using f(2,3) by (simp add: r cbb_written_def)
    qed (use r off f(3,5) in simp_all)
  qed
qed

lemma cbb_write_last:
  assumes "cbb_buffer_ok b'" and "cbb_len b' = n + length bs"
    and "take n (cbb_buf b') = w"
  shows "cbb_buffer_ok (b'\<lparr>cbb_buf := mem_write (cbb_buf b') n bs\<rparr>)"
    and "cbb_written (b'\<lparr>cbb_buf := mem_write (cbb_buf b') n bs\<rparr>) = w @ bs"
  using assms by (simp_all add: cbb_buffer_ok_def cbb_written_def take_mem_write_end)

lemma cbb_add_bytes_appends:
  assumes "malloc_ok ml" and "length bs \<le> ptrdiff_max"
  shows "buffer_appends ml (op_bind (cbb_buffer_add ml (length bs)) (\<lambda>dest base.
     (Some (f dest), base\<lparr>cbb_buf := mem_write (cbb_buf base) dest bs\<rparr>))) bs"
  unfolding buffer_appends_def
proof (intro allI impI)
  fix b r b'
  assume b: "cbb_buffer_ok b" "\<not> cbb_error b"
    and eq: "op_bind (cbb_buffer_add ml (length bs)) (\<lambda>dest base.
     (Some (f dest), base\<lparr>cbb_buf := mem_write (cbb_buf base) dest bs\<rparr>)) b = (r, b')"
  obtain r1 b1 where add: "cbb_buffer_add ml (length bs) b = (r1, b1)" by fastforce
  from add assms(1) b(1) assms(2) b(2)
  show "cbb_buffer_ok b' \<and> buffer_grows b b' \<and>
      (if r = None then cbb_error b' \<and> \<not> cbb_room ml (cbb_len b + length bs) b else \<not> cbb_error b' \<and> cbb_written b' = cbb_written b @ bs)"
  proof (cases rule: cbb_buffer_add_cases)
    case err
    then show ?thesis using eq add by (simp add: op_simps)
  next
    case ok
    then have "r = Some (f (cbb_len b))"
      "b' = b1\<lparr>cbb_buf := mem_write (cbb_buf b1) (cbb_len b) bs\<rparr>"
      using eq add by (simp_all add: op_simps)
    then show ?thesis
      using cbb_write_last [OF ok(3-5)] ok(2,6) by simp
  qed
qed

lemma cbb_buffer_add_u_appends:
  assumes "malloc_ok ml" and "n \<le> ptrdiff_max"
    and "unat v < 256 ^ n"
  shows "buffer_appends ml (cbb_buffer_add_u ml v n) (be_bytes n (unat v))"
  unfolding buffer_appends_def
proof (intro allI impI)
  fix b r b'
  assume b: "cbb_buffer_ok b" "\<not> cbb_error b" and eq: "cbb_buffer_add_u ml v n b = (r, b')"
  show "cbb_buffer_ok b' \<and> buffer_grows b b' \<and>
      (if r = None then cbb_error b' \<and> \<not> cbb_room ml (cbb_len b + length (be_bytes n (unat v))) b
      else \<not> cbb_error b' \<and> cbb_written b' = cbb_written b @ be_bytes n (unat v))"
  proof (cases "n = 0")
    case True
    then show ?thesis using eq b by (simp add: cbb_buffer_add_u_def op_ret_def)
  next
    case False
    obtain r1 b1 where add: "cbb_buffer_add ml n b = (r1, b1)" by fastforce
    from add assms(1) b(1) assms(2) b(2) show ?thesis
    proof (cases rule: cbb_buffer_add_cases)
      case err
      then show ?thesis using eq add False by (simp add: cbb_buffer_add_u_def op_simps)
    next
      case ok
      then have "cbb_len b + n \<le> length (cbb_buf b1)" by (simp add: cbb_buffer_ok_def)
      then have "r = Some ()"
        "b' = b1\<lparr>cbb_buf := mem_write (cbb_buf b1) (cbb_len b) (be_bytes n (unat v))\<rparr>"
        using eq add False ok(1) assms(3) cbb_store_u_Some
        by (simp_all add: cbb_buffer_add_u_def op_simps)
      then show ?thesis
        using cbb_write_last [OF ok(3) _ ok(5), of "be_bytes n (unat v)"] ok(2,4,6) by simp
    qed
  qed
qed

section \<open>Closing a child\<close>

lemma asn1_len_len_bytes:
  assumes "n \<le> 0xfffffffe" and "asn1_len_len n = (len_len, ib, n')"
  shows "ib # be_bytes (len_len - 1) n' = der_len_bytes n"
    and "n' < 256 ^ (len_len - 1)" and "len_len \<noteq> 1 \<Longrightarrow> n' = n" and "len_len \<le> 5" "n' \<le> n"
proof -
  have "ib # be_bytes (len_len - 1) n' = der_len_bytes n \<and> n' < 256 ^ (len_len - 1) \<and>
      (len_len \<noteq> 1 \<longrightarrow> n' = n) \<and> len_len \<le> 5 \<and> n' \<le> n"
  proof (cases "n \<le> 0x7f")
    case True
    then show ?thesis using assms(2) by (auto simp: asn1_len_len_def der_len_bytes_def)
  next
    case False
    define k where "k = (if n > 0xffffff then 3 else if n > 0xffff then 2 else if n > 0xff then 1
      else (0 :: nat))"
    have k: "256 ^ k \<le> n \<and> n < 256 ^ Suc k \<and> k < 4"
      using False assms(1) by (auto simp: k_def split: if_splits)
    then have "byte_len n = Suc k" using byte_len_eqI by blast
    moreover have "len_len = Suc (Suc k) \<and> ib = of_nat (128 + Suc k) \<and> n' = n"
      using False assms(2) by (auto simp: asn1_len_len_def k_def split: if_splits)
    ultimately show ?thesis using False k by (auto simp: der_len_bytes_def)
  qed
  then show "ib # be_bytes (len_len - 1) n' = der_len_bytes n"
    and "n' < 256 ^ (len_len - 1)" and "len_len \<noteq> 1 \<Longrightarrow> n' = n" and "len_len \<le> 5" "n' \<le> n"
    by simp_all
qed

text \<open>The memory after the contents \<open>z\<close> were moved and the header bytes were stored.\<close>

lemma move_and_store:
  assumes "off + 1 + length ds + length z \<le> length m" and "m' = m \<or> ds \<noteq> []"
    and "m' = (if ds = [] then m else mem_write m (off + 1 + length ds) z)"
    and "ds = [] \<Longrightarrow> take (length z) (drop (off + 1) m) = z"
  shows "take (off + 1 + length ds + length z) (mem_write (m'[off := ib]) (off + 1) ds) =
    take off m @ ib # ds @ z"
proof -
  define a b c r where "a = take off m" and "b = take (length ds) (drop (off + 1) m)"
    and "c = take (length z) (drop (off + 1 + length ds) m)"
    and "r = drop (off + 1 + length ds + length z) m"
  have "drop (off + 1) m = b @ c @ r"
    using append_take_drop_id [of "length ds" "drop (off + 1) m"]
      append_take_drop_id [of "length z" "drop (off + 1 + length ds) m"]
    by (simp add: b_def c_def r_def add.commute add.left_commute)
  moreover have "m = a @ m ! off # drop (off + 1) m"
    using assms(1) id_take_nth_drop [of off m] by (simp add: a_def)
  ultimately have m: "m = a @ m ! off # b @ c @ r" by simp
  have len: "length a = off" "length b = length ds" "length c = length z"
    using assms(1) by (simp_all add: a_def b_def c_def)
  have "m' = a @ m ! off # b @ z @ r"
  proof (cases "ds = []")
    case True
    then show ?thesis using m len assms(3) assms(4) [OF True] by (simp add: c_def)
  next
    case False
    have "mem_write (a @ m ! off # b @ c @ r) (off + 1 + length ds) z = a @ m ! off # b @ z @ r"
      using len by (simp add: mem_write_def)
    then show ?thesis using assms(3) False m by simp
  qed
  then show ?thesis
    using len by (simp add: mem_write_def list_update_append a_def [symmetric])
qed

lemma cbb_store_fixed:
  assumes "cbb_buffer_ok b" and "off + n \<le> cbb_len b" and "length (drop (off + n) (cbb_written b)) = k"
  shows "cbb_buffer_ok (b\<lparr>cbb_buf := mem_write (cbb_buf b) off (be_bytes n k)\<rparr>)"
    and "cbb_written (b\<lparr>cbb_buf := mem_write (cbb_buf b) off (be_bytes n k)\<rparr>) =
      take off (cbb_written b) @ be_bytes n k @ drop (off + n) (cbb_written b)"
proof -
  have len: "off + n \<le> length (cbb_buf b)" "cbb_len b \<le> length (cbb_buf b)"
    using assms(1,2) by (simp_all add: cbb_buffer_ok_def)
  then show "cbb_buffer_ok (b\<lparr>cbb_buf := mem_write (cbb_buf b) off (be_bytes n k)\<rparr>)"
    using assms(1) by (simp add: cbb_buffer_ok_def)
  show "cbb_written (b\<lparr>cbb_buf := mem_write (cbb_buf b) off (be_bytes n k)\<rparr>) =
      take off (cbb_written b) @ be_bytes n k @ drop (off + n) (cbb_written b)"
    using len assms(2) by (simp add: cbb_written_def take_mem_write_inside min_def)
qed

definition child_closes ::
    "allocator \<Rightarrow> cbb_child_st \<Rightarrow> cbb_buffer_st \<Rightarrow> unit option \<Rightarrow> cbb_buffer_st \<Rightarrow> bool"
where
  "child_closes ml c b r b' \<longleftrightarrow>
     cbb_buffer_ok b' \<and> buffer_grows b b' \<and>
     (case r of
        None \<Rightarrow>
          (\<forall>pfx. frame_prefix (frame_of c) (drop (cbb_offset c + pending_len_len c) (cbb_written b)) = Some pfx \<longrightarrow>
             \<not> cbb_room ml (cbb_len b - pending_len_len c + length pfx) b)
      | Some _ \<Rightarrow> \<not> cbb_error b' \<and>
          (\<exists>pfx. frame_prefix (frame_of c) (drop (cbb_offset c + pending_len_len c) (cbb_written b)) = Some pfx \<and>
             cbb_written b' = take (cbb_offset c) (cbb_written b) @ pfx @
               drop (cbb_offset c + pending_len_len c) (cbb_written b)))"

lemma cbb_close_fixed:
  assumes "cbb_close_child ml c b = (r, b')" and "\<not> pending_is_asn1 c"
    and b: "cbb_buffer_ok b" "\<not> cbb_error b"
    and off: "cbb_offset c + pending_len_len c \<le> cbb_len b"
  shows "child_closes ml c b r b'"
proof -
  define n where "n = cbb_len b - (cbb_offset c + pending_len_len c)"
  have w: "wrap64 (cbb_offset c + pending_len_len c) = cbb_offset c + pending_len_len c"
    using off b(1) by (simp add: cbb_buffer_ok_def)
  have n: "length (drop (cbb_offset c + pending_len_len c) (cbb_written b)) = n"
    "unat (of_nat n :: u64) = n"
    using b(1) by (auto simp: n_def length_cbb_written cbb_buffer_ok_def unat_of_nat)
  have st: "cbb_offset c + pending_len_len c \<le> length (cbb_buf b)"
    using off b(1) by (simp add: cbb_buffer_ok_def)
  have eq: "cbb_store_u (cbb_offset c) (pending_len_len c) (of_nat n) b = (r, b')"
    using assms(1,2) off by (simp add: cbb_close_child_def w n_def)
  note fx = cbb_store_fixed [OF b(1) off n(1)]
  show ?thesis
  proof (cases "n < 256 ^ pending_len_len c")
    case True
    then show ?thesis
      using eq cbb_store_u_Some [OF st, of "of_nat n"] n fx b(2) assms(2)
      by (auto simp: child_closes_def frame_of_def frame_prefix_def)
  next
    case False
    then show ?thesis
      using eq cbb_store_u_None [OF st, of "of_nat n"] n fx(1) assms(2)
      by (auto simp: child_closes_def cbb_buffer_ok_def frame_of_def frame_prefix_def)
  qed
qed

lemma cbb_move_contents_cases:
  assumes "cbb_move_contents ml (off + 1) n len_len b = (r, b1)" and "malloc_ok ml"
    and b: "cbb_buffer_ok b" "\<not> cbb_error b" and len: "cbb_len b = off + 1 + n"
    and e: "len_len - 1 = e" "e \<le> 4" "0 < len_len"
  obtains (err) "r = None" "cbb_buffer_ok b1" "buffer_grows b b1" "\<not> cbb_room ml (cbb_len b + e) b"
  | (ok) m where "r = Some ()" "cbb_buffer_ok b1" "\<not> cbb_error b1" "cbb_len b1 = cbb_len b + e"
      "buffer_grows b b1"
      "take (cbb_len b) m = cbb_written b" "length m = length (cbb_buf b1)"
      "cbb_buf b1 = (if e = 0 then m else mem_write m (off + 1 + e) (drop (off + 1) (cbb_written b)))"
proof (cases "e = 0")
  case True
  then have "len_len = 1" using e by simp
  then have "b1 = b" "r = Some ()" using assms(1) by (simp_all add: cbb_move_contents_def op_simps)
  then show ?thesis using b True by (intro ok [of "cbb_buf b"]) (simp_all add: cbb_written_def)
next
  case False
  then have ne: "len_len \<noteq> 1" and ll: "len_len = Suc e" using e by simp_all
  obtain r2 b2 where add: "cbb_buffer_add ml e b = (r2, b2)" by fastforce
  have "e \<le> ptrdiff_max" using e(2) by simp
  from add assms(2) b(1) this b(2) show ?thesis
  proof (cases rule: cbb_buffer_add_cases)
    case err
    then show ?thesis
      using assms(1) ne e add by (intro that(1)) (simp_all add: cbb_move_contents_def op_simps)
  next
    case ok
    have "take n (drop (off + 1) (cbb_buf b2)) = drop (off + 1) (cbb_written b)"
      using ok(5) len by (simp add: take_drop add.commute)
    then have r: "r = Some ()"
      "b1 = b2\<lparr>cbb_buf := mem_write (cbb_buf b2) (off + 1 + e) (drop (off + 1) (cbb_written b))\<rparr>"
      using assms(1) ne add ok(1) by (auto simp: cbb_move_contents_def op_simps ll)
    have fits: "off + 1 + e + n \<le> length (cbb_buf b2)"
      using ok(3,4) len by (simp add: cbb_buffer_ok_def)
    have "length (drop (off + 1) (cbb_written b)) = n"
      using b(1) len by (simp add: length_cbb_written)
    then show ?thesis
      using ok fits False r
      by (intro that(2) [of "cbb_buf b2"]) (simp_all add: cbb_buffer_ok_def)
  qed
qed

lemma cbb_close_child_asn1:
  assumes "pending_is_asn1 c" and "pending_len_len c = 1" and "cbb_buffer_ok b"
    and "cbb_len b = cbb_offset c + 1 + n" and "asn1_len_len n = (len_len, ib, n')"
  shows "cbb_close_child ml c b =
    (if n > 0xfffffffe then (None, b\<lparr>cbb_error := True\<rparr>)
     else op_bind (cbb_move_contents ml (cbb_offset c + 1) n len_len) (\<lambda>_ base.
       cbb_store_u (cbb_offset c + 1) (len_len - 1) (of_nat n')
         (base\<lparr>cbb_buf := (cbb_buf base)[cbb_offset c := ib]\<rparr>)) b)"
proof -
  have w: "wrap64 (cbb_offset c + pending_len_len c) = cbb_offset c + 1"
    using assms(2-4) by (simp add: cbb_buffer_ok_def)
  show ?thesis
    using assms(1,4,5) by (simp add: cbb_close_child_def w)
qed

lemma cbb_close_asn1:
  assumes "cbb_close_child ml c b = (r, b')" and "pending_is_asn1 c" and "pending_len_len c = 1"
    and b: "cbb_buffer_ok b" "\<not> cbb_error b" and ml: "malloc_ok ml"
    and off: "cbb_offset c + pending_len_len c \<le> cbb_len b"
  shows "child_closes ml c b r b'"
proof -
  define n where "n = cbb_len b - (cbb_offset c + 1)"
  define z where "z = drop (cbb_offset c + 1) (cbb_written b)"
  have len: "cbb_len b = cbb_offset c + 1 + n" using off assms(3) by (simp add: n_def)
  have z: "length z = n" using b(1) len by (simp add: z_def length_cbb_written)
  obtain len_len ib n' where ll: "asn1_len_len n = (len_len, ib, n')"
    by (metis prod_cases3)
  note eq = assms(1) [unfolded cbb_close_child_asn1 [OF assms(2,3) b(1) len ll]]
  show ?thesis
  proof (cases "n > 0xfffffffe")
    case True
    then show ?thesis
      using eq b(1) assms(2,3) z
      by (auto simp: child_closes_def frame_of_def frame_prefix_def z_def)
  next
    case False
    then have "n \<le> 0xfffffffe" by simp
    note lb = asn1_len_len_bytes [OF this ll]
    define ds where "ds = be_bytes (len_len - 1) n'"
    have pos: "0 < len_len" using ll by (auto simp: asn1_len_len_def split: if_splits)
    have ds: "len_len - 1 = length ds" "length ds \<le> 4" using lb(4) by (simp_all add: ds_def)
    obtain r1 b1 where mv: "cbb_move_contents ml (cbb_offset c + 1) n len_len b = (r1, b1)"
      by fastforce
    from mv ml b len ds pos show ?thesis
    proof (cases rule: cbb_move_contents_cases)
      case err
      have "length (der_len_bytes n) = Suc (length ds)"
        using arg_cong [OF lb(1), of length] by (simp add: ds_def)
      then show ?thesis
        using err eq mv False assms(2,3) z len
        by (auto simp: op_simps child_closes_def frame_of_def frame_prefix_def z_def)
    next
      case (ok m)
      define m1 where "m1 = (cbb_buf b1)[cbb_offset c := ib]"
      have n': "unat (of_nat n' :: u64) = n'"
        using lb(5) \<open>n \<le> 0xfffffffe\<close> by (simp add: unat_of_nat)
      have fits: "cbb_offset c + 1 + length ds + length z \<le> length m"
        using ok(2,4,7) len z by (simp add: cbb_buffer_ok_def)
      have st: "cbb_offset c + 1 + (len_len - 1) \<le> length (cbb_buf (b1\<lparr>cbb_buf := m1\<rparr>))"
        using fits ok(7) ds by (simp add: m1_def)
      have r: "r = Some ()" "b' = b1\<lparr>cbb_buf := mem_write m1 (cbb_offset c + 1) ds\<rparr>"
        using eq False mv ok(1) cbb_store_u_Some [OF st, of "of_nat n'"] n' lb(2)
        by (simp_all add: op_simps m1_def ds_def)
      have lenb: "cbb_len b1 = cbb_offset c + 1 + length ds + length z"
        using ok(4) len z by simp
      have dz: "ds = [] \<Longrightarrow> take (length z) (drop (cbb_offset c + 1) m) = z"
        using ok(6) len z by (simp add: z_def take_drop add.commute)
      have "take (cbb_offset c + 1 + length ds + length z) (mem_write m1 (cbb_offset c + 1) ds) =
          take (cbb_offset c) m @ ib # ds @ z"
        unfolding m1_def
        by (rule move_and_store [OF fits]) (use ok(8) dz in \<open>auto simp: z_def\<close>)
      moreover have "take (cbb_offset c) m = take (cbb_offset c) (cbb_written b)"
        using ok(6) len by (metis le_add1 min.absorb1 take_take add.assoc)
      moreover have "ib # ds @ z = der_len_bytes n @ z" using lb(1) by (metis append_Cons ds_def)
      ultimately have "cbb_written b' = take (cbb_offset c) (cbb_written b) @ der_len_bytes n @ z"
        using lenb by (simp add: r(2) cbb_written_def)
      moreover have "cbb_buffer_ok b'"
        using ok(2,7) st [unfolded ds(1)] by (simp add: r cbb_buffer_ok_def m1_def)
      ultimately show ?thesis
        using r ok(3,5) assms(2,3) z \<open>n \<le> 0xfffffffe\<close>
        by (simp add: child_closes_def frame_of_def frame_prefix_def z_def)
    qed
  qed
qed

lemma cbb_close_child_ok:
  assumes "cbb_close_child ml c b = (r, b')" and "malloc_ok ml"
    and "cbb_buffer_ok b" and "\<not> cbb_error b" and "chain_ok (cbb_len b) (c # cs)"
  shows "child_closes ml c b r b'"
  using assms cbb_close_fixed [of ml c b r b'] cbb_close_asn1 [of ml c b r b'] by auto

section \<open>Flushing\<close>

definition chain_flushes ::
    "allocator \<Rightarrow> nat \<Rightarrow> cbb_child_st list \<Rightarrow> cbb_buffer_st \<Rightarrow>
       unit option \<Rightarrow> cbb_child_st list \<Rightarrow> cbb_buffer_st \<Rightarrow> bool"
where
  "chain_flushes ml d cs b r cs' b' \<longleftrightarrow>
     cbb_buffer_ok b' \<and> buffer_grows b b' \<and>
     (case r of
        None \<Rightarrow> cbb_error b' \<and>
          (\<forall>s. stack_flush d (cbb_view (cbb_written b) cs) = Some s \<longrightarrow>
             \<not> cbb_room ml (stack_size s) b)
      | Some _ \<Rightarrow> \<not> cbb_error b' \<and> cs' = [] \<and>
          stack_flush d (cbb_view (cbb_written b) cs) =
            Some (cbb_view (cbb_written b') (drop (length cs - d) cs)) \<and>
          chain_ok (cbb_len b') (drop (length cs - d) cs))"

lemma chain_ok_written:
  "cbb_buffer_ok b \<Longrightarrow> chain_ok (cbb_len b) cs = chain_ok (length (cbb_written b)) cs"
  by (simp add: length_cbb_written)

lemma frame_space_of [simp]:
  "(pending_is_asn1 c \<longrightarrow> pending_len_len c = 1) \<Longrightarrow> frame_space (frame_of c) = pending_len_len c"
  by (simp add: frame_space_def frame_of_def)

lemma stack_size_view: "chain_ok (length w) cs \<Longrightarrow> stack_size (cbb_view w cs) = length w"
proof (induction w cs rule: cbb_view.induct)
  case (1 w)
  then show ?case by (simp add: stack_size_def)
next
  case (2 w c cs)
  obtain p ctx where v: "cbb_view (take (cbb_offset c) w) cs = (p, ctx)" by fastforce
  have "length (take (cbb_offset c) w) = cbb_offset c" using 2(2) by simp
  with 2 v have "stack_size (p, ctx) = cbb_offset c" by simp
  then show ?case using 2(2) v by (simp add: stack_size_def)
qed

lemma child_closes_view:
  assumes cl: "child_closes ml c b r b'" and "cbb_buffer_ok b" and "chain_ok (cbb_len b) (c # cs)"
  shows "r = Some u \<Longrightarrow> stack_flush (length cs) (cbb_view (cbb_written b) (c # cs)) =
      Some (cbb_view (cbb_written b') cs)"
    and "r = Some u \<Longrightarrow> chain_ok (cbb_len b') cs"
    and "r = None \<Longrightarrow> stack_flush (length cs) (cbb_view (cbb_written b) (c # cs)) = Some s \<Longrightarrow>
      \<not> cbb_room ml (stack_size s) b"
proof -
  let ?w = "cbb_written b" and ?s = "cbb_offset c" and ?e = "cbb_offset c + pending_len_len c"
  have len: "length (take ?s ?w) = ?s"
    using assms(2,3) by (simp add: length_cbb_written)
  have ok: "chain_ok (length (take ?s ?w)) cs" using assms(3) len by simp
  obtain p ctx where v: "cbb_view (take ?s ?w) cs = (p, ctx)" by fastforce
  then have "length ctx = length cs" by (metis length_cbb_view snd_conv)
  then have fl: "stack_flush (length cs) (cbb_view ?w (c # cs)) =
      map_option (\<lambda>pfx. cbb_view (take ?s ?w @ pfx @ drop ?e ?w) cs)
        (frame_prefix (frame_of c) (drop ?e ?w))"
    using v by (simp add: cbb_view_append [OF ok] stack_append_def split: option.splits)
  show "r = Some u \<Longrightarrow> stack_flush (length cs) (cbb_view ?w (c # cs)) =
      Some (cbb_view (cbb_written b') cs)"
    using cl fl by (auto simp: child_closes_def)
  show "chain_ok (cbb_len b') cs" if r: "r = Some u"
  proof -
    have "chain_ok (length (cbb_written b')) cs"
      using ok len cl r by (auto simp: child_closes_def elim!: chain_ok_mono)
    then show ?thesis using cl by (simp add: child_closes_def chain_ok_written)
  qed
  assume r: "r = None" and s: "stack_flush (length cs) (cbb_view ?w (c # cs)) = Some s"
  then obtain pfx where pfx: "frame_prefix (frame_of c) (drop ?e ?w) = Some pfx"
    and s': "s = cbb_view (take ?s ?w @ pfx @ drop ?e ?w) cs"
    unfolding fl by auto
  have "chain_ok (length (take ?s ?w @ pfx @ drop ?e ?w)) cs"
    using ok by (rule chain_ok_mono) simp
  then have "stack_size s = cbb_len b - pending_len_len c + length pfx"
    using assms(2,3) by (simp add: s' stack_size_view length_cbb_written)
  then show "\<not> cbb_room ml (stack_size s) b" using cl r pfx by (auto simp: child_closes_def)
qed

lemma chain_ok_drop: "chain_ok n cs \<Longrightarrow> chain_ok n (drop k cs)"
proof (induction k arbitrary: n cs)
  case 0
  then show ?case by simp
next
  case (Suc k)
  then show ?case by (cases cs) (auto intro!: Suc.IH elim: chain_ok_mono)
qed

lemma cbb_flush_chain_ok:
  assumes "cbb_flush_chain ml cs b = ((r, cs'), b')" and "malloc_ok ml"
    and "cbb_buffer_ok b" and "\<not> cbb_error b" and "chain_ok (cbb_len b) (rev (ds @ cs))"
  shows "chain_flushes ml (length ds) (rev (ds @ cs)) b r cs' b'"
  using assms
proof (induction cs arbitrary: ds r cs' b')
  case Nil
  obtain cur ctx where v: "cbb_view (cbb_written b) (rev ds) = (cur, ctx)" by fastforce
  then have "length ctx = length ds" by (metis length_cbb_view length_rev snd_conv)
  then show ?case using Nil v by (auto simp: chain_flushes_def)
next
  case (Cons c cs)
  let ?V = "cbb_view (cbb_written b) (rev (ds @ c # cs))"
  have pl: "0 < pending_len_len c"
    using chain_ok_drop [OF Cons.prems(5), of "length cs"] by simp
  obtain r1 cs1 b1 where rest: "cbb_flush_chain ml cs b = ((r1, cs1), b1)"
    by (metis prod.exhaust)
  have inner: "chain_flushes ml (Suc (length ds)) (rev (ds @ c # cs)) b r1 cs1 b1"
    using Cons.IH [OF rest Cons.prems(2-4), of "ds @ [c]"] Cons.prems(5) by simp
  have step: "stack_flush (length ds) ?V =
      Option.bind (stack_flush (Suc (length ds)) ?V) (stack_flush (length ds))"
    by (rule stack_flush_step) simp
  show ?case
  proof (cases r1)
    case None
    then have r: "r = None" "b' = b1\<lparr>cbb_error := True\<rparr>" using Cons.prems(1,4) pl rest by auto
    have "\<not> cbb_room ml (stack_size s) b" if s: "stack_flush (length ds) ?V = Some s" for s
    proof -
      obtain s1 where s1: "stack_flush (Suc (length ds)) ?V = Some s1" "stack_flush (length ds) s1 = Some s"
        using s [unfolded step] by (auto simp: bind_eq_Some_conv)
      then have "\<not> cbb_room ml (stack_size s1) b" using inner None by (simp add: chain_flushes_def)
      then show ?thesis using stack_flush_size [OF s1(2)] cbb_room_le by blast
    qed
    then show ?thesis
      using inner None r by (simp add: chain_flushes_def)
  next
    case (Some u)
    have i: "cbb_buffer_ok b1" "\<not> cbb_error b1" "cs1 = []" "chain_ok (cbb_len b1) (c # rev ds)"
      "stack_flush (Suc (length ds)) ?V = Some (cbb_view (cbb_written b1) (c # rev ds))"
      "buffer_grows b b1"
      using inner Some by (auto simp: chain_flushes_def)
    obtain r2 b2 where close: "cbb_close_child ml c b1 = (r2, b2)" by fastforce
    note cl = cbb_close_child_ok [OF close Cons.prems(2) i(1,2,4)]
    note vw = child_closes_view [OF cl i(1,4)]
    have grows: "buffer_grows b b2"
      using i(6) cl by (auto simp: child_closes_def intro: buffer_grows_trans)
    show ?thesis
    proof (cases r2)
      case None
      then have r: "r = None" "b' = b2\<lparr>cbb_error := True\<rparr>"
        using Cons.prems(1,4) pl rest Some close by auto
      have "\<not> cbb_room ml (stack_size s) b" if "stack_flush (length ds) ?V = Some s" for s
        using that [unfolded step i(5)] vw(3) [OF None] cbb_room_grows [OF _ i(6)]
        by (auto simp del: cbb_view.simps)
      then show ?thesis using cl None r grows by (simp add: chain_flushes_def child_closes_def)
    next
      case s2: (Some u2)
      have r: "r = Some ()" "cs' = []" "b' = b2"
        using Cons.prems(1,4) pl rest Some close s2 by auto
      have "stack_flush (length ds) ?V = Some (cbb_view (cbb_written b2) (rev ds))"
        unfolding step i(5) using vw(1) [OF s2] by (simp del: cbb_view.simps)
      then show ?thesis
        using cl s2 r vw(2) [OF s2] grows by (simp add: chain_flushes_def child_closes_def)
    qed
  qed
qed

section \<open>The operations on the builder\<close>

definition cbb_has_room :: "allocator \<Rightarrow> nat \<Rightarrow> cbb_st \<Rightarrow> bool" where
  "cbb_has_room ml n cbb \<longleftrightarrow> (case cbb_base cbb of None \<Rightarrow> False | Some b \<Rightarrow> cbb_room ml n b)"

lemma cbb_has_room_le: "cbb_has_room ml n cbb \<Longrightarrow> m \<le> n \<Longrightarrow> cbb_has_room ml m cbb"
  by (auto simp: cbb_has_room_def dest: cbb_room_le split: option.splits)

text \<open>
  \<open>cbb_does\<close> relates one call to the function \<open>g\<close> on stacks: on success the stack is
  changed as \<open>g\<close> says, on failure \<open>g\<close> is undefined or there was no room for its
  result.
\<close>

definition cbb_does ::
    "allocator \<Rightarrow> (cbb_stack \<Rightarrow> cbb_stack option) \<Rightarrow> cbb_st \<Rightarrow> 'a option \<Rightarrow> cbb_st \<Rightarrow> bool"
where
  "cbb_does ml g cbb r cbb' \<longleftrightarrow>
     cbb_ok cbb' \<and> (\<forall>n. cbb_has_room ml n cbb \<longrightarrow> cbb_has_room ml n cbb') \<and>
     (if r = None then
        \<forall>s s'. cbb_stack_of cbb = Some s \<longrightarrow> g s = Some s' \<longrightarrow> \<not> cbb_has_room ml (stack_size s') cbb
      else \<exists>s s'. cbb_stack_of cbb = Some s \<and> g s = Some s' \<and> cbb_stack_of cbb' = Some s')"

definition size_mono :: "(cbb_stack \<Rightarrow> cbb_stack option) \<Rightarrow> bool" where
  "size_mono g \<longleftrightarrow> (\<forall>s s'. g s = Some s' \<longrightarrow> stack_size s \<le> stack_size s')"

definition cbb_refines :: "allocator \<Rightarrow> 'a cbb_op \<Rightarrow> (cbb_stack \<Rightarrow> cbb_stack option) \<Rightarrow> bool" where
  "cbb_refines ml f g \<longleftrightarrow>
     size_mono g \<and> (\<forall>cbb r cbb'. cbb_ok cbb \<longrightarrow> f cbb = (r, cbb') \<longrightarrow> cbb_does ml g cbb r cbb')"

lemma stack_size_append [simp]: "stack_size (stack_append bs s) = stack_size s + length bs"
  by (cases s) (simp add: stack_append_def stack_size_def)

lemma stack_size_open [simp]: "stack_size (stack_open k s) = stack_size s + frame_space k"
  by (cases s) (simp add: stack_open_def stack_size_def)

lemma size_monoI: "(\<And>s s'. g s = Some s' \<Longrightarrow> stack_size s \<le> stack_size s') \<Longrightarrow> size_mono g"
  unfolding size_mono_def by blast

lemma size_monoD: "size_mono g \<Longrightarrow> g s = Some s' \<Longrightarrow> stack_size s \<le> stack_size s'"
  unfolding size_mono_def by blast

lemma size_mono_flush [simp]: "size_mono (stack_flush d)"
  by (rule size_monoI) (rule stack_flush_size)

lemma size_mono_map:
  assumes "size_mono g" and "\<And>s. stack_size s \<le> stack_size (h s)"
  shows "size_mono (\<lambda>s. map_option h (g s))"
proof (rule size_monoI)
  fix s s'
  assume "map_option h (g s) = Some s'"
  then obtain s1 where "g s = Some s1" "s' = h s1" by blast
  then show "stack_size s \<le> stack_size s'"
    using size_monoD [OF assms(1), of s s1] assms(2) [of s1] by simp
qed

lemma size_mono_bind:
  assumes "size_mono g" and "size_mono k"
  shows "size_mono (\<lambda>s. Option.bind (g s) k)"
proof (rule size_monoI)
  fix s s'
  assume "Option.bind (g s) k = Some s'"
  then obtain s1 where "g s = Some s1" "k s1 = Some s'" by (cases "g s") auto
  then show "stack_size s \<le> stack_size s'"
    using size_monoD [OF assms(1), of s s1] size_monoD [OF assms(2), of s1 s'] by simp
qed

lemma size_mono_add [simp]: "size_mono (stack_add d bs)"
  unfolding stack_add_def [abs_def] by (rule size_mono_map) simp_all

lemma size_mono_child [simp]: "size_mono (stack_child d k hdr)"
  unfolding stack_child_def [abs_def] by (rule size_mono_map) simp_all

lemma cbb_refinesD: "cbb_refines ml f g \<Longrightarrow> cbb_ok cbb \<Longrightarrow> f cbb = (r, cbb') \<Longrightarrow> cbb_does ml g cbb r cbb'"
  by (simp add: cbb_refines_def)

lemma cbb_refines_bind:
  assumes f: "cbb_refines ml f g" and h: "\<And>x. cbb_refines ml (h x) k"
  shows "cbb_refines ml (op_bind f h) (\<lambda>s. Option.bind (g s) k)"
proof -
  have mono: "size_mono g" "size_mono k" using f h by (simp_all add: cbb_refines_def)
  have "cbb_does ml (\<lambda>s. Option.bind (g s) k) cbb r cbb'"
    if ok: "cbb_ok cbb" and eq: "op_bind f h cbb = (r, cbb')" for cbb r cbb'
  proof -
    obtain r1 c1 where f1: "f cbb = (r1, c1)" by fastforce
    note d1 = cbb_refinesD [OF f ok f1]
    show ?thesis
    proof (cases r1)
      case None
      then have r: "r = None" "cbb' = c1" using eq f1 by (simp_all add: op_simps)
      have "\<not> cbb_has_room ml (stack_size s') cbb"
        if s: "cbb_stack_of cbb = Some s" "Option.bind (g s) k = Some s'" for s s'
      proof -
        obtain s1 where "g s = Some s1" and "k s1 = Some s'" using s(2) by (auto simp: bind_eq_Some_conv)
        then have "\<not> cbb_has_room ml (stack_size s1) cbb" and "stack_size s1 \<le> stack_size s'"
          using d1 None s(1) mono(2) by (simp_all add: cbb_does_def size_mono_def)
        then show ?thesis by (auto simp: cbb_has_room_def dest: cbb_room_le split: option.splits)
      qed
      then show ?thesis using d1 r by (simp add: cbb_does_def)
    next
      case (Some x)
      have c1: "cbb_ok c1" using d1 by (simp add: cbb_does_def)
      have h1: "h x c1 = (r, cbb')" using eq f1 Some by (simp add: op_simps)
      note d2 = cbb_refinesD [OF h c1 h1]
      obtain s s1 where s: "cbb_stack_of cbb = Some s" "g s = Some s1" "cbb_stack_of c1 = Some s1"
        using d1 Some by (auto simp: cbb_does_def)
      show ?thesis
        using d1 d2 s Some by (cases r) (auto simp: cbb_does_def)
    qed
  qed
  moreover have "size_mono (\<lambda>s. Option.bind (g s) k)"
    by (rule size_mono_bind [OF mono])
  ultimately show ?thesis by (simp add: cbb_refines_def)
qed

lemma cbb_flush_does:
  assumes "CBB_flush ml d cbb = (r, cbb')" and "malloc_ok ml" and "cbb_ok cbb"
  shows "cbb_does ml (stack_flush d) cbb r cbb'"
    and "r = Some u \<Longrightarrow> length (cbb_chain cbb') = d"
    and "r = Some u \<Longrightarrow> length (cbb_chain cbb) = d \<Longrightarrow> cbb' = cbb"
proof -
  have "cbb_does ml (stack_flush d) cbb r cbb' \<and> (r = Some u \<longrightarrow> length (cbb_chain cbb') = d) \<and>
      (r = Some u \<longrightarrow> length (cbb_chain cbb) = d \<longrightarrow> cbb' = cbb)"
  proof (cases "cbb_base cbb")
    case None
    then show ?thesis
      using assms by (auto simp: CBB_flush_def cbb_does_def cbb_stack_of_def split: if_splits)
  next
    case (Some b)
    then have b: "cbb_buffer_ok b" using assms(3) by (simp add: cbb_ok_def)
    obtain cur ctx where v: "cbb_view (cbb_written b) (rev (cbb_chain cbb)) = (cur, ctx)" by fastforce
    then have ctx: "length ctx = length (cbb_chain cbb)" by (metis length_cbb_view length_rev snd_conv)
    show ?thesis
    proof (cases "length (cbb_chain cbb) < d")
      case True
      then have "stack_flush d (cur, ctx) = None" using ctx by (cases ctx) auto
      then show ?thesis
        using True assms Some v by (auto simp: CBB_flush_def cbb_does_def cbb_stack_of_def)
    next
      case deep: False
      let ?cs = "drop d (cbb_chain cbb)" and ?ds = "take d (cbb_chain cbb)"
      obtain r1 cs' b' where fl: "cbb_flush_chain ml ?cs b = ((r1, cs'), b')" by (metis prod.exhaust)
      then have r: "r = r1" "cbb' = \<lparr>cbb_base = Some b', cbb_chain = ?ds @ cs'\<rparr>"
        using assms(1) deep Some by (simp_all add: CBB_flush_def)
      show ?thesis
      proof (cases "cbb_error b")
        case True
        then have "r1 = None" "cs' = ?cs" "b' = b" using fl by (cases ?cs; simp)+
        then show ?thesis using r True b assms(3) Some
          by (auto simp: cbb_does_def cbb_stack_of_def cbb_ok_def cbb_has_room_def)
      next
        case False
        then have "chain_ok (cbb_len b) (rev (?ds @ ?cs))"
          using assms(3) Some by (simp add: cbb_ok_def)
        note fl_ok = cbb_flush_chain_ok [OF fl assms(2) b False this]
        have ds: "length ?ds = d" "rev (?ds @ ?cs) = rev (cbb_chain cbb)"
          "drop (length (rev (cbb_chain cbb)) - d) (rev (cbb_chain cbb)) = rev ?ds"
          using deep by (simp_all add: drop_rev min_def)
        have f: "chain_flushes ml d (rev (cbb_chain cbb)) b r1 cs' b'"
          using fl_ok unfolding ds .
        have same: "r = Some u \<longrightarrow> length (cbb_chain cbb) = d \<longrightarrow> cbb' = cbb"
          using fl False r Some by auto
        have "cbb_does ml (stack_flush d) cbb r cbb'"
          using f [unfolded chain_flushes_def ds(3)] Some False r b cbb_room_grows
          by (auto simp: cbb_does_def cbb_ok_def cbb_stack_of_def cbb_has_room_def
              split: option.splits)
        then show ?thesis using f r ds same by (auto simp: chain_flushes_def split: option.splits)
      qed
    qed
  qed
  then show "cbb_does ml (stack_flush d) cbb r cbb'"
    and "r = Some u \<Longrightarrow> length (cbb_chain cbb') = d"
    and "r = Some u \<Longrightarrow> length (cbb_chain cbb) = d \<Longrightarrow> cbb' = cbb" by auto
qed

lemma cbb_flush_refines: "malloc_ok ml \<Longrightarrow> cbb_refines ml (CBB_flush ml d) (stack_flush d)"
  using cbb_flush_does by (auto simp: cbb_refines_def)

lemma cbb_on_base_does:
  assumes f: "buffer_appends ml f bs" and eq: "cbb_on_base f cbb = (r, cbb')"
    and ok: "cbb_ok cbb" and open_: "cbb_stack_of cbb \<noteq> None"
  shows "cbb_does ml (\<lambda>s. Some (stack_append bs s)) cbb r cbb'"
    and "cbb_chain cbb' = cbb_chain cbb"
proof -
  obtain b where b: "cbb_base cbb = Some b" "\<not> cbb_error b"
    using open_ by (auto simp: cbb_stack_of_def split: option.splits if_splits)
  have bok: "cbb_buffer_ok b" "chain_ok (cbb_len b) (rev (cbb_chain cbb))"
    using ok b by (simp_all add: cbb_ok_def)
  obtain r1 b1 where f1: "f b = (r1, b1)" by fastforce
  then have r: "r = r1" "cbb' = cbb\<lparr>cbb_base := Some b1\<rparr>"
    using eq by (simp_all add: cbb_on_base_def b(1))
  then show "cbb_chain cbb' = cbb_chain cbb" by simp
  have ap: "cbb_buffer_ok b1" "buffer_grows b b1"
    "if r1 = None then cbb_error b1 \<and> \<not> cbb_room ml (cbb_len b + length bs) b
     else \<not> cbb_error b1 \<and> cbb_written b1 = cbb_written b @ bs"
    using f [unfolded buffer_appends_def, rule_format, OF bok(1) b(2) f1] by blast+
  have w: "chain_ok (length (cbb_written b)) (rev (cbb_chain cbb))"
    using bok by (simp add: chain_ok_written)
  show "cbb_does ml (\<lambda>s. Some (stack_append bs s)) cbb r cbb'"
  proof (cases r1)
    case None
    then show ?thesis
      using ap r b cbb_room_grows [OF _ ap(2)] stack_size_view [OF w] length_cbb_written [OF bok(1)]
      by (simp add: cbb_does_def cbb_ok_def cbb_stack_of_def cbb_has_room_def)
  next
    case (Some x)
    then have w1: "cbb_written b1 = cbb_written b @ bs" "\<not> cbb_error b1" using ap(3) by simp_all
    then have "chain_ok (length (cbb_written b1)) (rev (cbb_chain cbb))"
      using chain_ok_mono [OF w] by simp
    then have "chain_ok (cbb_len b1) (rev (cbb_chain cbb))" using ap(1) by (simp add: chain_ok_written)
    then show ?thesis
      using ap(1) r b w1 Some cbb_room_grows [OF _ ap(2)] cbb_view_append [OF w]
      by (simp add: cbb_does_def cbb_ok_def cbb_stack_of_def cbb_has_room_def)
  qed
qed

lemma cbb_flushed_refines:
  assumes ml: "malloc_ok ml" and f: "buffer_appends ml f bs"
  shows "cbb_refines ml (cbb_flushed ml d f) (stack_add d bs)"
proof -
  have "cbb_does ml (stack_add d bs) cbb r cbb'"
    if ok: "cbb_ok cbb" and eq: "cbb_flushed ml d f cbb = (r, cbb')" for cbb r cbb'
  proof -
    obtain r1 c1 where fl: "CBB_flush ml d cbb = (r1, c1)" by fastforce
    note d1 = cbb_flush_does(1) [OF fl ml ok]
    show ?thesis
    proof (cases r1)
      case None
      then have "r = None" "cbb' = c1" using eq fl by (simp_all add: cbb_flushed_def op_simps)
      moreover have "\<not> cbb_has_room ml (stack_size s') cbb"
        if s: "cbb_stack_of cbb = Some s" "stack_add d bs s = Some s'" for s s'
      proof -
        obtain s1 where s1: "stack_flush d s = Some s1" "s' = stack_append bs s1"
          using s(2) by (auto simp: stack_add_def)
        then have "\<not> cbb_has_room ml (stack_size s1) cbb" using d1 None s(1) by (simp add: cbb_does_def)
        then show ?thesis using cbb_has_room_le [of ml "stack_size s'" cbb "stack_size s1"] s1 by auto
      qed
      ultimately show ?thesis using d1 None by (simp add: cbb_does_def)
    next
      case (Some x)
      then have h: "cbb_on_base f c1 = (r, cbb')" using eq fl by (simp add: cbb_flushed_def op_simps)
      obtain s s1 where s: "cbb_stack_of cbb = Some s" "stack_flush d s = Some s1"
        "cbb_stack_of c1 = Some s1" "cbb_ok c1"
        using d1 Some by (auto simp: cbb_does_def)
      then have "cbb_does ml (\<lambda>s. Some (stack_append bs s)) c1 r cbb'"
        using cbb_on_base_does(1) [OF f h] by simp
      then show ?thesis using d1 s by (cases r) (auto simp: cbb_does_def stack_add_def)
    qed
  qed
  then show ?thesis by (simp add: cbb_refines_def)
qed

text \<open>
  Opening a child: the placeholder of its length prefix is appended, and the child
  starts there.
\<close>

lemma cbb_push_ok:
  assumes ok: "cbb_ok cbb" and s: "cbb_stack_of cbb = Some s" and b: "cbb_base cbb = Some b"
    and d: "cbb_does ml (\<lambda>s. Some (stack_append bs s)) cbb (Some x) cbb'"
    and b': "cbb_base cbb' = Some b'" "cbb_written b' = cbb_written b @ bs"
    and ch: "cbb_chain cbb' = cbb_chain cbb" and c: "cbb_offset c = cbb_len b"
      "pending_len_len c = length bs" "bs \<noteq> []" "pending_is_asn1 c \<longrightarrow> length bs = 1"
  shows "cbb_ok (cbb'\<lparr>cbb_chain := cbb_chain cbb' @ [c]\<rparr>)"
    and "cbb_stack_of (cbb'\<lparr>cbb_chain := cbb_chain cbb' @ [c]\<rparr>) = Some (stack_open (frame_of c) s)"
proof -
  have s': "s = cbb_view (cbb_written b) (rev (cbb_chain cbb))" "\<not> cbb_error b"
    using s b by (auto simp: cbb_stack_of_def split: if_splits)
  have bok: "cbb_buffer_ok b" "chain_ok (cbb_len b) (rev (cbb_chain cbb))"
    using ok b s' by (simp_all add: cbb_ok_def)
  have b1: "\<not> cbb_error b'" "cbb_buffer_ok b'"
    using d b' by (auto simp: cbb_does_def cbb_stack_of_def cbb_ok_def split: if_splits)
  have len: "cbb_len b' = cbb_len b + length bs"
    using length_cbb_written [OF b1(2)] length_cbb_written [OF bok(1)] b'(2) by simp
  show "cbb_ok (cbb'\<lparr>cbb_chain := cbb_chain cbb' @ [c]\<rparr>)"
    using b1 b' len c bok(2) ch by (simp add: cbb_ok_def)
  obtain cur ctx where v: "cbb_view (cbb_written b) (rev (cbb_chain cbb)) = (cur, ctx)" by fastforce
  show "cbb_stack_of (cbb'\<lparr>cbb_chain := cbb_chain cbb' @ [c]\<rparr>) = Some (stack_open (frame_of c) s)"
    using b1 b' c s' ch v length_cbb_written [OF bok(1)]
    by (simp add: cbb_stack_of_def stack_open_def)
qed

lemma cbb_flushed_base:
  assumes "cbb_flushed ml d f cbb = (Some x, cbb')" and "malloc_ok ml" and "cbb_ok cbb"
    and f: "buffer_appends ml f bs"
  obtains c1 b b' where "CBB_flush ml d cbb = (Some (), c1)" "length (cbb_chain c1) = d"
    "cbb_ok c1" "cbb_base c1 = Some b" "\<not> cbb_error b" "f b = (Some x, b')"
    "cbb' = c1\<lparr>cbb_base := Some b'\<rparr>" "cbb_written b' = cbb_written b @ bs"
    "cbb_does ml (\<lambda>s. Some (stack_append bs s)) c1 (Some x) cbb'"
proof -
  obtain u c1 where fl: "CBB_flush ml d cbb = (Some u, c1)" and h: "cbb_on_base f c1 = (Some x, cbb')"
    using assms(1) by (auto simp: cbb_flushed_def op_simps)
  note fd = cbb_flush_does [OF fl assms(2,3)]
  have c1: "cbb_ok c1" "cbb_stack_of c1 \<noteq> None" using fd(1) by (auto simp: cbb_does_def)
  obtain b where b: "cbb_base c1 = Some b" "\<not> cbb_error b"
    using c1(2) by (auto simp: cbb_stack_of_def split: option.splits if_splits)
  obtain b' where b': "f b = (Some x, b')" "cbb' = c1\<lparr>cbb_base := Some b'\<rparr>"
    using h b(1) by (auto simp: cbb_on_base_def split: prod.splits)
  have bok: "cbb_buffer_ok b" using c1(1) b by (simp add: cbb_ok_def)
  have w: "cbb_written b' = cbb_written b @ bs"
    using f [unfolded buffer_appends_def, rule_format, OF bok b(2) b'(1)] by simp
  show thesis
    using that [OF _ _ c1(1) b b' w cbb_on_base_does(1) [OF f h c1]] fl fd(2) by simp
qed

lemma cbb_buffer_add_offset: "cbb_buffer_add ml n b = (Some off, b') \<Longrightarrow> off = cbb_len b"
  by (auto simp: cbb_buffer_add_def cbb_buffer_reserve_def Let_def op_simps
      split: if_splits option.splits)

lemma cbb_has_room_chain [simp]: "cbb_has_room ml n (cbb\<lparr>cbb_chain := cs\<rparr>) = cbb_has_room ml n cbb"
  by (simp add: cbb_has_room_def)

lemma cbb_add_length_prefixed_refines:
  assumes ml: "malloc_ok ml" and n: "0 < n" "n \<le> ptrdiff_max"
  shows "cbb_refines ml (cbb_add_length_prefixed ml d n) (stack_child d (Fixed n) [])"
proof -
  let ?f = "op_bind (cbb_buffer_add ml n) (\<lambda>prefix base.
    (Some prefix, base\<lparr>cbb_buf := mem_write (cbb_buf base) prefix (replicate n 0)\<rparr>))"
  have ap: "buffer_appends ml ?f (replicate n 0)"
    using cbb_add_bytes_appends [OF ml, of "replicate n 0" "\<lambda>x. x"] n by simp
  have F: "cbb_refines ml (cbb_flushed ml d ?f) (stack_add d (replicate n 0))"
    by (rule cbb_flushed_refines [OF ml ap])
  have "cbb_does ml (stack_child d (Fixed n) []) cbb r cbb'"
    if ok: "cbb_ok cbb" and eq: "cbb_add_length_prefixed ml d n cbb = (r, cbb')" for cbb r cbb'
  proof -
    obtain r1 c2 where f1: "cbb_flushed ml d ?f cbb = (r1, c2)" by fastforce
    note d1 = cbb_refinesD [OF F ok f1]
    show ?thesis
    proof (cases r1)
      case None
      then have r: "r = None" "cbb' = c2"
        using eq f1 by (simp_all add: cbb_add_length_prefixed_def op_simps)
      have "\<not> cbb_has_room ml (stack_size s') cbb"
        if s: "cbb_stack_of cbb = Some s" "stack_child d (Fixed n) [] s = Some s'" for s s'
      proof -
        obtain s1 where s1: "stack_flush d s = Some s1" "s' = stack_open (Fixed n) (stack_append [] s1)"
          using s(2) by (auto simp: stack_child_def stack_add_def)
        then have "\<not> cbb_has_room ml (stack_size (stack_append (replicate n 0) s1)) cbb"
          using d1 None s(1) by (simp add: cbb_does_def stack_add_def)
        then show ?thesis using s1 by (simp add: frame_space_def)
      qed
      then show ?thesis using d1 r by (simp add: cbb_does_def)
    next
      case (Some off)
      define c where "c = \<lparr>cbb_offset = off, pending_len_len = n, pending_is_asn1 = False\<rparr>"
      have r: "r = Some ()" "cbb' = c2\<lparr>cbb_chain := cbb_chain c2 @ [c]\<rparr>"
        using eq f1 Some by (simp_all add: cbb_add_length_prefixed_def op_simps c_def)
      obtain c1 b b' where fl: "CBB_flush ml d cbb = (Some (), c1)" "cbb_ok c1"
        and b: "cbb_base c1 = Some b" "?f b = (Some off, b')" "c2 = c1\<lparr>cbb_base := Some b'\<rparr>"
          "cbb_written b' = cbb_written b @ replicate n 0"
        and does: "cbb_does ml (\<lambda>s. Some (stack_append (replicate n 0) s)) c1 (Some off) c2"
        using f1 Some by (auto elim: cbb_flushed_base [OF _ ml ok ap])
      have off: "off = cbb_len b"
        using b(2) by (auto simp: op_simps dest: cbb_buffer_add_offset)
      have d2: "cbb_does ml (stack_flush d) cbb (Some ()) c1" by (rule cbb_flush_does(1) [OF fl(1) ml ok])
      then obtain s s1 where s: "cbb_stack_of cbb = Some s" "stack_flush d s = Some s1"
        "cbb_stack_of c1 = Some s1" by (auto simp: cbb_does_def)
      have "cbb_ok cbb'" and "cbb_stack_of cbb' = Some (stack_open (frame_of c) s1)"
        unfolding r(2) by (rule cbb_push_ok [OF fl(2) s(3) b(1) does, of b'];
          use b n off in \<open>simp add: c_def\<close>)+
      moreover have "stack_child d (Fixed n) [] s = Some (stack_open (frame_of c) s1)"
        using s(2) by (simp add: stack_child_def stack_add_def frame_of_def c_def stack_append_def)
      ultimately show ?thesis
        using d1 s(1) r by (simp add: cbb_does_def)
    qed
  qed
  then show ?thesis by (simp add: cbb_refines_def)
qed

section \<open>Bytes, numbers and base-128 integers\<close>

lemma cbb_add_bytes_refines:
  "malloc_ok ml \<Longrightarrow> length bs \<le> ptrdiff_max \<Longrightarrow> cbb_refines ml (CBB_add_bytes ml d bs) (stack_add d bs)"
  unfolding CBB_add_bytes_def
  using cbb_flushed_refines [OF _ cbb_add_bytes_appends, of ml bs d "\<lambda>_. ()"] by simp

lemma cbb_add_u8_refines: "malloc_ok ml \<Longrightarrow> cbb_refines ml (CBB_add_u8 ml d v) (stack_add d [v])"
  unfolding CBB_add_u8_def
  using cbb_flushed_refines [OF _ cbb_buffer_add_u_appends, of ml 1 "ucast v" d] by simp

lemma cbb_add_u16_refines:
  "malloc_ok ml \<Longrightarrow> cbb_refines ml (CBB_add_u16 ml d v) (stack_add d (be_bytes 2 (unat v)))"
  unfolding CBB_add_u16_def
  using cbb_flushed_refines [OF _ cbb_buffer_add_u_appends, of ml 2 "ucast v" d] unsigned_less [of v]
  by simp

lemma cbb_add_u24_refines:
  "malloc_ok ml \<Longrightarrow> unat v < 2 ^ 24 \<Longrightarrow>
     cbb_refines ml (CBB_add_u24 ml d v) (stack_add d (be_bytes 3 (unat v)))"
  unfolding CBB_add_u24_def
  using cbb_flushed_refines [OF _ cbb_buffer_add_u_appends, of ml 3 "ucast v" d] by simp

lemma cbb_add_u32_refines:
  "malloc_ok ml \<Longrightarrow> cbb_refines ml (CBB_add_u32 ml d v) (stack_add d (be_bytes 4 (unat v)))"
  unfolding CBB_add_u32_def
  using cbb_flushed_refines [OF _ cbb_buffer_add_u_appends, of ml 4 "ucast v" d] unsigned_less [of v]
  by simp

lemma cbb_add_u64_refines:
  "malloc_ok ml \<Longrightarrow> cbb_refines ml (CBB_add_u64 ml d v) (stack_add d (be_bytes 8 (unat v)))"
  unfolding CBB_add_u64_def
  using cbb_flushed_refines [OF _ cbb_buffer_add_u_appends, of ml 8 v d] unsigned_less [of v]
  by simp

lemma stack_add_append:
  "Option.bind (stack_add d as s) (stack_add d bs) = stack_add d (as @ bs) s"
proof (cases "stack_flush d s")
  case None
  then show ?thesis by (simp add: stack_add_def)
next
  case (Some s1)
  obtain cur ctx where "s1 = (cur, ctx)" by fastforce
  with Some stack_flush_depth [OF Some] show ?thesis by (simp add: stack_add_def stack_append_def)
qed

lemma op_each_refines:
  assumes "\<And>x. x \<in> set xs \<Longrightarrow> cbb_refines ml (f x) (stack_add d (g x))" and "xs \<noteq> []"
  shows "cbb_refines ml (op_each f xs) (stack_add d (concat (map g xs)))"
  using assms
proof (induction xs)
  case Nil
  then show ?case by simp
next
  case (Cons x xs)
  show ?case
  proof (cases "xs = []")
    case True
    have "op_bind (f x) (\<lambda>_. op_ret ()) = f x"
      by (rule ext) (auto simp: op_bind_def op_ret_def split: prod.splits option.splits)
    then show ?thesis using True Cons.prems(1) [of x] by simp
  next
    case False
    have "cbb_refines ml (op_bind (f x) (\<lambda>_. op_each f xs))
        (\<lambda>s. Option.bind (stack_add d (g x) s) (stack_add d (concat (map g xs))))"
      using Cons.prems(1) False by (intro cbb_refines_bind Cons.IH) simp_all
    then show ?thesis by (simp add: stack_add_append [abs_def])
  qed
qed

lemma rev_upt_Suc: "rev [0..<Suc k] = map Suc (rev [0..<k]) @ [0]"
  using upt_conv_Cons [of 0 "Suc k"] map_Suc_upt [of 0 k, symmetric]
  by (simp add: rev_map del: upt_Suc)

lemma b128_high_eq:
  "b128_high u = map (\<lambda>i. of_nat (128 + u div 128 ^ i mod 128)) (rev [0..<base128_len_len u])"
proof (induction u rule: b128_high.induct)
  case (1 u)
  show ?case
  proof (cases "u = 0")
    case True
    then show ?thesis by (simp add: base128_len_len.simps)
  next
    case False
    note rev_upt_Suc
    moreover have "base128_len_len u = Suc (base128_len_len (u div 128))"
      using False by (simp add: base128_len_len.simps [of u])
    ultimately show ?thesis
      using 1 [OF False] False
      by (simp add: b128_high.simps [of u] div_mult2_eq del: upt_Suc)
  qed
qed

lemma base128_byte:
  fixes v :: u64
  defines "byte i \<equiv> (ucast (drop_bit (7 * i) v) AND 0x7f :: u8)"
  shows "byte i = of_nat (unat v div 128 ^ i mod 128)"
    and "byte i OR 0x80 = of_nat (128 + unat v div 128 ^ i mod 128)"
proof -
  have "(2 :: nat) ^ (7 * i) = 128 ^ i" by (simp add: power_mult)
  then have b: "unat (byte i) = unat v div 128 ^ i mod 128"
    by (simp add: byte_def mask_7_u8 unsigned_ucast_eq take_bit_eq_mod unat_drop_bit mod_mod_cancel)
  then show "byte i = of_nat (unat v div 128 ^ i mod 128)" by (rule u8_of_unat)
  have "byte i OR 0x80 = push_bit 7 1 OR byte i" by (simp add: or.commute)
  also have "unat \<dots> = 1 * 2 ^ 7 + unat (byte i)"
    using unat_push_or [of "byte i" 7 1] b by simp
  finally show "byte i OR 0x80 = of_nat (128 + unat v div 128 ^ i mod 128)"
    using b by (intro u8_of_unat) simp
qed

lemma add_base128_integer_refines:
  assumes ml: "malloc_ok ml"
  shows "cbb_refines ml (add_base128_integer ml d v) (stack_add d (b128_bytes (unat v)))"
proof -
  define byte where "byte i = (if i \<noteq> 0 then ucast (drop_bit (7 * i) v) AND 0x7f OR 0x80
    else ucast (drop_bit (7 * i) v) AND 0x7f :: u8)" for i
  define n where "n = base128_len_len (unat v div 128)"
  have n: "(if base128_len_len (unat v) = 0 then 1 else base128_len_len (unat v)) = Suc n"
    by (cases "unat v = 0") (simp_all add: n_def base128_len_len.simps [of "unat v"] base128_len_len.simps [of 0])
  have hi: "byte (Suc i) = of_nat (128 + unat v div 128 div 128 ^ i mod 128)" for i
    unfolding byte_def using base128_byte(2) [of "Suc i" v] by (simp add: div_mult2_eq)
  have "byte 0 = of_nat (unat v mod 128)"
    unfolding byte_def using base128_byte(1) [of 0 v] by simp
  then have "map byte (rev [0..<Suc n]) = b128_bytes (unat v)"
    by (simp add: rev_upt_Suc b128_bytes_def b128_high_eq n_def hi o_def del: upt_Suc)
  moreover have "cbb_refines ml (op_each (\<lambda>i. CBB_add_u8 ml d (byte i)) (rev [0..<Suc n]))
      (stack_add d (concat (map (\<lambda>i. [byte i]) (rev [0..<Suc n]))))"
    by (rule op_each_refines) (simp_all add: cbb_add_u8_refines [OF ml])
  ultimately show ?thesis
    by (simp only: add_base128_integer_def n Let_def byte_def [symmetric] concat_map_singleton)
qed

section \<open>ASN.1 elements\<close>

lemma cbb_read_len_does:
  assumes "cbb_on_base (\<lambda>base. (Some (cbb_len base), base)) cbb = (r, cbb')" and "cbb_base cbb = Some b"
  shows "r = Some (cbb_len b)" and "cbb' = cbb"
  using assms by (auto simp: cbb_on_base_def)

lemma cbb_add_asn1_tag_refines:
  assumes ml: "malloc_ok ml"
  shows "cbb_refines ml
    (if tag AND CBS_ASN1_TAG_NUMBER_MASK \<ge> 0x1f then
       op_bind (CBB_add_u8 ml d ((ucast (drop_bit CBS_ASN1_TAG_SHIFT tag) AND 0xe0) OR 0x1f))
         (\<lambda>_. add_base128_integer ml d (ucast (tag AND CBS_ASN1_TAG_NUMBER_MASK)))
     else CBB_add_u8 ml d ((ucast (drop_bit CBS_ASN1_TAG_SHIFT tag) AND 0xe0) OR
                            ucast (tag AND CBS_ASN1_TAG_NUMBER_MASK)))
    (stack_add d (der_tag_bytes tag))"
proof (cases "tag AND CBS_ASN1_TAG_NUMBER_MASK \<ge> 0x1f")
  case True
  then have n: "\<not> unat (tag AND CBS_ASN1_TAG_NUMBER_MASK) < 0x1f"
    by (simp add: word_le_nat_alt)
  have "cbb_refines ml
      (op_bind (CBB_add_u8 ml d ((ucast (drop_bit CBS_ASN1_TAG_SHIFT tag) AND 0xe0) OR 0x1f))
         (\<lambda>_. add_base128_integer ml d (ucast (tag AND CBS_ASN1_TAG_NUMBER_MASK))))
      (\<lambda>s. Option.bind (stack_add d [(ucast (drop_bit 24 tag) AND 0xe0) OR 0x1f] s)
         (stack_add d (b128_bytes (unat (tag AND CBS_ASN1_TAG_NUMBER_MASK)))))"
    using cbb_refines_bind [OF cbb_add_u8_refines [OF ml, of d "(ucast (drop_bit 24 tag) AND 0xe0) OR 0x1f"]
        add_base128_integer_refines [OF ml, of d "ucast (tag AND CBS_ASN1_TAG_NUMBER_MASK)"]]
    by (simp add: CBS_ASN1_TAG_SHIFT_def)
  then show ?thesis using True n
    by (simp add: stack_add_append [abs_def] der_tag_bytes_def Let_def)
next
  case False
  then have n: "unat (tag AND CBS_ASN1_TAG_NUMBER_MASK) < 0x1f"
    by (simp add: word_le_nat_alt)
  then have "(ucast (tag AND CBS_ASN1_TAG_NUMBER_MASK) :: u8) =
      of_nat (unat (tag AND CBS_ASN1_TAG_NUMBER_MASK))"
    by simp
  then show ?thesis
    using False n cbb_add_u8_refines [OF ml, of d "(ucast (drop_bit 24 tag) AND 0xe0) OR
        ucast (tag AND CBS_ASN1_TAG_NUMBER_MASK)"]
    by (simp add: der_tag_bytes_def Let_def CBS_ASN1_TAG_SHIFT_def)
qed

lemma stack_add_depth: "stack_add d bs s = Some s' \<Longrightarrow> length (snd s') = d"
  using stack_flush_depth [of d s] by (auto simp: stack_add_def stack_append_def split: prod.splits)

lemma stack_add_id: "length (snd s) = d \<Longrightarrow> stack_add d bs s = Some (stack_append bs s)"
  by (cases s) (simp add: stack_add_def)

lemma length_stack_of: "cbb_stack_of cbb = Some s \<Longrightarrow> length (snd s) = length (cbb_chain cbb)"
  by (auto simp: cbb_stack_of_def split: option.splits if_splits)

lemma cbb_refines_flush_first:
  assumes ml: "malloc_ok ml" and "cbb_refines ml f (stack_add d bs)"
  shows "cbb_refines ml (op_bind (CBB_flush ml d) (\<lambda>_. f)) (stack_add d bs)"
proof -
  have "Option.bind (stack_flush d s) (stack_add d bs) = stack_add d bs s" for s
    using stack_add_append [of d "[]" s bs]
    by (simp add: stack_add_def stack_append_def option.map_id id_def [symmetric])
  then show ?thesis
    using cbb_refines_bind [OF cbb_flush_refines [OF ml, of d] assms(2)] by simp
qed

lemma cbb_open_asn1:
  assumes ml: "malloc_ok ml" and ok: "cbb_ok c1" and s1: "cbb_stack_of c1 = Some s1"
    and d: "length (snd s1) = d" and b: "cbb_base c1 = Some b"
    and add: "CBB_add_u8 ml d 0 c1 = (r, c2)"
    and c: "c = \<lparr>cbb_offset = cbb_len b, pending_len_len = 1, pending_is_asn1 = True\<rparr>"
  shows "cbb_does ml (\<lambda>s. Some (stack_open Asn1 s)) c1 r
    (if r = None then c2 else c2\<lparr>cbb_chain := cbb_chain c2 @ [c]\<rparr>)"
proof -
  let ?f = "cbb_buffer_add_u ml (ucast (0 :: u8)) 1"
  have ap: "buffer_appends ml ?f [0]"
    using cbb_buffer_add_u_appends [OF ml, of 1 "ucast (0 :: u8)"] by simp
  have does: "cbb_does ml (stack_add d [0]) c1 r c2"
    using cbb_refinesD [OF cbb_add_u8_refines [OF ml] ok add] .
  show ?thesis
  proof (cases r)
    case None
    then show ?thesis
      using does s1 d by (simp add: cbb_does_def stack_add_id frame_space_def)
  next
    case (Some x)
    then have "cbb_flushed ml d ?f c1 = (Some x, c2)" using add by (simp add: CBB_add_u8_def)
    from this ml ok ap obtain c1' b1 b' where fl: "CBB_flush ml d c1 = (Some (), c1')"
      and b1: "cbb_base c1' = Some b1" "c2 = c1'\<lparr>cbb_base := Some b'\<rparr>"
        "cbb_written b' = cbb_written b1 @ [0]"
      and does2: "cbb_does ml (\<lambda>s. Some (stack_append [0] s)) c1' (Some x) c2"
      by (rule cbb_flushed_base)
    have "c1' = c1"
      using cbb_flush_does(3) [OF fl ml ok refl] length_stack_of [OF s1] d by simp
    with b b1 have "b1 = b" by simp
    have "cbb_ok (c2\<lparr>cbb_chain := cbb_chain c2 @ [c]\<rparr>)"
      and "cbb_stack_of (c2\<lparr>cbb_chain := cbb_chain c2 @ [c]\<rparr>) = Some (stack_open (frame_of c) s1)"
      by (rule cbb_push_ok [OF ok s1 b does2 [unfolded \<open>c1' = c1\<close>], of b'];
          use b1 \<open>c1' = c1\<close> \<open>b1 = b\<close> in \<open>simp add: c\<close>)+
    then show ?thesis
      using does Some s1 by (simp add: cbb_does_def frame_of_def c)
  qed
qed

lemma cbb_add_asn1_refines:
  assumes ml: "malloc_ok ml"
  shows "cbb_refines ml (CBB_add_asn1 ml d tag) (stack_child d Asn1 (der_tag_bytes tag))"
proof -
  define A where "A = op_bind (CBB_flush ml d) (\<lambda>_.
    if tag AND CBS_ASN1_TAG_NUMBER_MASK \<ge> 0x1f then
       op_bind (CBB_add_u8 ml d ((ucast (drop_bit CBS_ASN1_TAG_SHIFT tag) AND 0xe0) OR 0x1f))
         (\<lambda>_. add_base128_integer ml d (ucast (tag AND CBS_ASN1_TAG_NUMBER_MASK)))
     else CBB_add_u8 ml d ((ucast (drop_bit CBS_ASN1_TAG_SHIFT tag) AND 0xe0) OR
                            ucast (tag AND CBS_ASN1_TAG_NUMBER_MASK)))"
  define push where "push off = op_bind (CBB_add_u8 ml d 0) (\<lambda>_ cbb. (Some (), cbb\<lparr>cbb_chain :=
    cbb_chain cbb @ [\<lparr>cbb_offset = off, pending_len_len = 1, pending_is_asn1 = True\<rparr>]\<rparr>))" for off
  have eq: "CBB_add_asn1 ml d tag =
      op_bind A (\<lambda>_. op_bind (cbb_on_base (\<lambda>base. (Some (cbb_len base), base))) push)"
    unfolding CBB_add_asn1_def A_def push_def Let_def by (simp add: op_bind_assoc)
  have A: "cbb_refines ml A (stack_add d (der_tag_bytes tag))"
    unfolding A_def by (rule cbb_refines_flush_first [OF ml cbb_add_asn1_tag_refines [OF ml]])
  have "cbb_does ml (stack_child d Asn1 (der_tag_bytes tag)) cbb r cbb'"
    if ok: "cbb_ok cbb" and call: "CBB_add_asn1 ml d tag cbb = (r, cbb')" for cbb r cbb'
  proof -
    obtain r1 c1 where a: "A cbb = (r1, c1)" by fastforce
    note d1 = cbb_refinesD [OF A ok a]
    show ?thesis
    proof (cases r1)
      case None
      then have r: "r = None" "cbb' = c1" using call a by (simp_all add: eq op_simps)
      have "\<not> cbb_has_room ml (stack_size s') cbb"
        if s: "cbb_stack_of cbb = Some s" "stack_child d Asn1 (der_tag_bytes tag) s = Some s'" for s s'
      proof -
        obtain s1 where s1: "stack_add d (der_tag_bytes tag) s = Some s1" "s' = stack_open Asn1 s1"
          using s(2) by (auto simp: stack_child_def)
        then have "\<not> cbb_has_room ml (stack_size s1) cbb" using d1 None s(1) by (simp add: cbb_does_def)
        then show ?thesis using cbb_has_room_le [of ml "stack_size s'" cbb "stack_size s1"] s1 by auto
      qed
      then show ?thesis using d1 r by (simp add: cbb_does_def)
    next
      case (Some u)
      obtain s s1 where s: "cbb_stack_of cbb = Some s" "stack_add d (der_tag_bytes tag) s = Some s1"
        "cbb_stack_of c1 = Some s1" "cbb_ok c1" using d1 Some by (auto simp: cbb_does_def)
      obtain b where b: "cbb_base c1 = Some b"
        using s(3) by (auto simp: cbb_stack_of_def split: option.splits)
      obtain r2 c2 where add: "CBB_add_u8 ml d 0 c1 = (r2, c2)" by fastforce
      define c where "c = \<lparr>cbb_offset = cbb_len b, pending_len_len = 1, pending_is_asn1 = True\<rparr>"
      have rd: "cbb_on_base (\<lambda>base. (Some (cbb_len base), base)) c1 = (Some (cbb_len b), c1)"
        using b by (simp add: cbb_on_base_def)
      have "(r, cbb') = push (cbb_len b) c1"
        using call a Some rd
        by (simp only: eq op_bind_Some [of A cbb] op_bind_Some [of "cbb_on_base _" c1])
      also have "\<dots> = (r2, if r2 = None then c2 else c2\<lparr>cbb_chain := cbb_chain c2 @ [c]\<rparr>)"
        unfolding push_def op_bind_def add c_def by (simp split: option.splits)
      finally have res: "r = r2" "cbb' = (if r2 = None then c2 else c2\<lparr>cbb_chain := cbb_chain c2 @ [c]\<rparr>)"
        by (rule prod.inject [THEN iffD1, THEN conjunct1],
            rule prod.inject [THEN iffD1, THEN conjunct2])
      have "cbb_does ml (\<lambda>s. Some (stack_open Asn1 s)) c1 r cbb'"
        unfolding res
        by (rule cbb_open_asn1 [OF ml s(4,3) stack_add_depth [OF s(2)] b add c_def])
      then show ?thesis using d1 s by (cases r) (auto simp: cbb_does_def stack_child_def)
    qed
  qed
  then show ?thesis by (simp add: cbb_refines_def)
qed

section \<open>Properties\<close>

text \<open>
  C2: \<open>CBB_flush\<close> closes every open descendant of the object, innermost first: on
  success the builder stands for the stack in which each of them was appended to its
  parent behind its length prefix (for DER after a move of the contents), on failure a
  length did not fit its prefix or there was no room, and the memory stays in order.
\<close>

theorem CBB_flush_closes_children:
  assumes "malloc_ok ml" and "cbb_ok cbb" and "cbb_stack_of cbb = Some s"
    and "CBB_flush ml d cbb = (r, cbb')"
  shows "cbb_ok cbb' \<and>
    (case r of
       Some _ \<Rightarrow> stack_flush d s \<noteq> None \<and> cbb_stack_of cbb' = stack_flush d s
     | None \<Rightarrow> (\<forall>s'. stack_flush d s = Some s' \<longrightarrow> \<not> cbb_has_room ml (stack_size s') cbb))"
  using cbb_flush_does(1) [OF assms(4,1,2)] assms(3)
  by (auto simp: cbb_does_def split: option.splits)

definition example_cbb :: cbb_st where
  "example_cbb = \<lparr>cbb_base = Some \<lparr>cbb_buf = [0x30, 0, 0x41, 0], cbb_len = 3, cbb_cap = 4,
     cbb_can_resize = False, cbb_error = False\<rparr>,
     cbb_chain = [\<lparr>cbb_offset = 1, pending_len_len = 1, pending_is_asn1 = True\<rparr>]\<rparr>"

theorem CBB_flush_closes_children_witness:
  "cbb_ok (snd (CBB_flush zero_malloc 0 example_cbb)) \<and>
   (case fst (CBB_flush zero_malloc 0 example_cbb) of
      Some _ \<Rightarrow> stack_flush 0 ([0x41], [(Asn1, [0x30])]) \<noteq> None \<and>
        cbb_stack_of (snd (CBB_flush zero_malloc 0 example_cbb)) =
          stack_flush 0 ([0x41], [(Asn1, [0x30])])
    | None \<Rightarrow> (\<forall>s'. stack_flush 0 ([0x41], [(Asn1, [0x30])]) = Some s' \<longrightarrow>
        \<not> cbb_has_room zero_malloc (stack_size s') example_cbb))"
proof -
  have "cbb_ok example_cbb"
    by (simp add: example_cbb_def cbb_ok_def cbb_buffer_ok_def)
  moreover have "cbb_stack_of example_cbb = Some ([0x41], [(Asn1, [0x30])])"
    by (simp add: example_cbb_def cbb_stack_of_def cbb_written_def frame_of_def)
  ultimately show ?thesis
    by (rule CBB_flush_closes_children [OF zero_malloc_ok _ _ surjective_pairing])
qed

text \<open>
  C3: \<open>CBB_add_asn1\<close> closes the open children, appends the DER tag and opens a child
  whose length prefix is pending; it fails only if a child does not fit its prefix or
  there is no room.
\<close>

theorem CBB_add_asn1_opens_child:
  assumes "malloc_ok ml" and "cbb_ok cbb" and "cbb_stack_of cbb = Some s"
    and "CBB_add_asn1 ml d tag cbb = (r, cbb')"
  shows "cbb_ok cbb' \<and>
    (case r of
       Some _ \<Rightarrow> stack_child d Asn1 (der_tag_bytes tag) s \<noteq> None \<and>
         cbb_stack_of cbb' = stack_child d Asn1 (der_tag_bytes tag) s
     | None \<Rightarrow> (\<forall>s'. stack_child d Asn1 (der_tag_bytes tag) s = Some s' \<longrightarrow>
         \<not> cbb_has_room ml (stack_size s') cbb))"
  using cbb_refinesD [OF cbb_add_asn1_refines [OF assms(1)] assms(2,4)] assms(3)
  by (auto simp: cbb_does_def split: option.splits)

theorem CBB_add_asn1_opens_child_witness:
  "cbb_ok (snd (CBB_add_asn1 zero_malloc 1 2 example_cbb)) \<and>
   (case fst (CBB_add_asn1 zero_malloc 1 2 example_cbb) of
      Some _ \<Rightarrow> stack_child 1 Asn1 (der_tag_bytes 2) ([0x41], [(Asn1, [0x30])]) \<noteq> None \<and>
        cbb_stack_of (snd (CBB_add_asn1 zero_malloc 1 2 example_cbb)) =
          stack_child 1 Asn1 (der_tag_bytes 2) ([0x41], [(Asn1, [0x30])])
    | None \<Rightarrow> (\<forall>s'. stack_child 1 Asn1 (der_tag_bytes 2) ([0x41], [(Asn1, [0x30])]) = Some s' \<longrightarrow>
        \<not> cbb_has_room zero_malloc (stack_size s') example_cbb))"
proof -
  have "cbb_ok example_cbb"
    by (simp add: example_cbb_def cbb_ok_def cbb_buffer_ok_def)
  moreover have "cbb_stack_of example_cbb = Some ([0x41], [(Asn1, [0x30])])"
    by (simp add: example_cbb_def cbb_stack_of_def cbb_written_def frame_of_def)
  ultimately show ?thesis
    by (rule CBB_add_asn1_opens_child [OF zero_malloc_ok _ _ surjective_pairing])
qed

end
