(* ===== verification/Asn1_Values.thy ===== *)
theory Asn1_Values
  imports Cbb_Refine
begin

text \<open>
  Typed ASN.1 values, on both sides: what \<open>CBS_get_asn1_*\<close> of \<open>cbs.c\<close> accepts and
  what \<open>CBB_add_asn1_*\<close> of \<open>cbb.c\<close> writes, against the DER encodings of integers,
  booleans and octet strings.
\<close>

section \<open>The DER encoding of integers\<close>

text \<open>
  The contents of an INTEGER: two's complement, big-endian, in the fewest bytes that
  keep the sign bit.
\<close>

definition der_int_len :: "int \<Rightarrow> nat" where
  "der_int_len i = max 1 (byte_len (nat (2 * (if i < 0 then - i - 1 else i))))"

definition der_int :: "int \<Rightarrow> u8 list" where
  "der_int i = be_bytes (der_int_len i) (nat (i mod 256 ^ der_int_len i))"

lemma int_bound_iff: "int u < 128 * 256 ^ k \<longleftrightarrow> u < 128 * 256 ^ k"
  using of_nat_less_iff [where 'a = int, of u "128 * 256 ^ k"] by simp

text \<open>The numbers of \<open>k + 1\<close> bytes in two's complement.\<close>

definition int_fits :: "int \<Rightarrow> nat \<Rightarrow> bool" where
  "int_fits i k \<longleftrightarrow> - (128 * 256 ^ k) \<le> i \<and> i < 128 * 256 ^ k"

lemma int_fits_byte_len:
  "int_fits i k \<longleftrightarrow> byte_len (nat (2 * (if i < 0 then - i - 1 else i))) \<le> Suc k"
proof -
  define u where "u = nat (if i < 0 then - i - 1 else i)"
  have "byte_len (2 * u) \<le> Suc k \<longleftrightarrow> u < 128 * 256 ^ k" by (simp add: byte_len_iff)
  also have "\<dots> \<longleftrightarrow> int u < 128 * 256 ^ k"
    by (rule int_bound_iff [symmetric])
  also have "\<dots> \<longleftrightarrow> int_fits i k"
  proof (cases "i < 0")
    case True
    then have "int u = - i - 1" by (simp add: u_def)
    then show ?thesis using True by (auto simp: int_fits_def intro: order_less_trans)
  next
    case False
    then have "int u = i" by (simp add: u_def)
    moreover have "0 \<le> (256 :: int) ^ k" by simp
    ultimately show ?thesis using False by (auto simp: int_fits_def intro: order_trans [of _ 0])
  qed
  finally show ?thesis by (simp add: u_def nat_mult_distrib)
qed

lemma der_int_len_eq:
  "der_int_len i = Suc k \<longleftrightarrow> int_fits i k \<and> (k = 0 \<or> \<not> int_fits i (k - 1))"
  unfolding int_fits_byte_len der_int_len_def by (cases k) (auto simp: max_def)

lemma der_int_len_pos: "0 < der_int_len i"
  by (simp add: der_int_len_def)


text \<open>Reading two's complement back.\<close>

definition signed_be :: "u8 list \<Rightarrow> int" where
  "signed_be bs =
     int (be_nat bs) - (if bs \<noteq> [] \<and> 128 \<le> unat (hd bs) then 256 ^ length bs else 0)"

lemma hd_top_bit:
  assumes "length bs = Suc k"
  shows "128 \<le> unat (hd bs) \<longleftrightarrow> 128 * 256 ^ k \<le> be_nat bs"
proof -
  obtain b cs where bs: "bs = b # cs" "length cs = k" using assms by (cases bs) auto
  have lt: "be_nat cs < 256 ^ k" using be_nat_bound [of cs] bs by simp
  have "unat b * 256 ^ k + be_nat cs < 128 * 256 ^ k" if "unat b < 128"
  proof -
    have "unat b * 256 ^ k + be_nat cs < (unat b + 1) * 256 ^ k" using lt by simp
    also have "\<dots> \<le> 128 * 256 ^ k" using that by (intro mult_le_mono1) simp
    finally show ?thesis .
  qed
  moreover have "128 * 256 ^ k \<le> unat b * 256 ^ k + be_nat cs" if "128 \<le> unat b"
    using mult_le_mono1 [OF that, of "256 ^ k"] by linarith
  ultimately show ?thesis by (auto simp: bs be_nat_Cons not_less [symmetric])
qed

lemma of_nat_be_bound: "length bs = k \<Longrightarrow> int (be_nat bs) < 256 ^ k"
  using be_nat_bound [of bs] of_nat_less_iff [where 'a = int, of "be_nat bs" "256 ^ k"] by simp

lemma signed_be_eq:
  assumes "length bs = Suc k"
  shows "signed_be bs =
    (if int (be_nat bs) < 128 * 256 ^ k then int (be_nat bs) else int (be_nat bs) - 256 * 256 ^ k)"
proof -
  have "128 * 256 ^ k \<le> be_nat bs \<longleftrightarrow> \<not> int (be_nat bs) < 128 * 256 ^ k"
    by (simp add: int_bound_iff not_less)
  then show ?thesis
    using hd_top_bit [OF assms] assms by (auto simp: signed_be_def)
qed

lemma signed_be_fits: "length bs = Suc k \<Longrightarrow> int_fits (signed_be bs) k"
  using of_nat_be_bound [of bs "Suc k"] by (auto simp: signed_be_eq int_fits_def)

lemma signed_be_mod: "length bs = Suc k \<Longrightarrow> nat (signed_be bs mod 256 ^ Suc k) = be_nat bs"
  using of_nat_be_bound [of bs "Suc k"] by (auto simp: signed_be_eq minus_mod_self2)

lemma int_fits_mod:
  assumes "int_fits i k"
  shows "i mod 256 ^ Suc k = (if i < 0 then i + 256 * 256 ^ k else i)"
proof (cases "i < 0")
  case True
  then have "(i + 256 * 256 ^ k) mod (256 * 256 ^ k) = i + 256 * 256 ^ k"
    using assms by (intro mod_pos_pos_trivial) (auto simp: int_fits_def)
  then show ?thesis using True by simp
next
  case False
  then show ?thesis using assms by (auto simp: int_fits_def intro!: mod_pos_pos_trivial)
qed

lemma signed_be_der_int [simp]: "signed_be (der_int i) = i"
proof -
  obtain k where k: "der_int_len i = Suc k" using der_int_len_pos [of i] by (cases "der_int_len i") auto
  then have fits: "int_fits i k" by (simp add: der_int_len_eq)
  define m where "m = nat (i mod 256 ^ Suc k)"
  have im: "int m = (if i < 0 then i + 256 * 256 ^ k else i)"
    using int_fits_mod [OF fits] fits by (auto simp: m_def int_fits_def)
  have "0 \<le> i mod 256 ^ Suc k" "i mod 256 ^ Suc k < 256 ^ Suc k" by simp_all
  then have "m < 256 ^ Suc k"
    unfolding m_def by (simp only: nat_less_iff) simp
  then have "be_nat (der_int i) = m" "length (der_int i) = Suc k"
    using be_nat_be_bytes_id [of m "Suc k"]
    by (simp_all only: der_int_def k m_def [symmetric] length_be_bytes)
  then show ?thesis
    using fits im by (auto simp: signed_be_eq int_fits_def)
qed

lemma der_int_inject: "der_int i = der_int j \<Longrightarrow> i = j"
  by (metis signed_be_der_int)

lemma der_int_signed_be_iff:
  assumes "length bs = Suc k"
  shows "bs = der_int (signed_be bs) \<longleftrightarrow> k = 0 \<or> \<not> int_fits (signed_be bs) (k - 1)"
proof
  assume "bs = der_int (signed_be bs)"
  then have "der_int_len (signed_be bs) = Suc k"
    using assms by (metis der_int_def length_be_bytes)
  then show "k = 0 \<or> \<not> int_fits (signed_be bs) (k - 1)" by (simp add: der_int_len_eq)
next
  assume "k = 0 \<or> \<not> int_fits (signed_be bs) (k - 1)"
  then have "der_int_len (signed_be bs) = Suc k"
    using signed_be_fits [OF assms] by (simp add: der_int_len_eq)
  then show "bs = der_int (signed_be bs)"
    using signed_be_mod [OF assms] be_bytes_be_nat [of bs] assms by (simp add: der_int_def)
qed

lemma int_fits_second_byte:
  assumes "length cs = j"
  shows "int_fits (signed_be (b # c # cs)) j \<longleftrightarrow>
    (b = 0 \<and> unat c < 128) \<or> (b = 0xff \<and> 128 \<le> unat c)"
proof -
  define p :: int where "p = 256 ^ j"
  define x where "x = int (be_nat (c # cs))"
  have x: "0 \<le> x" "x < 256 * p" "0 < p"
    using of_nat_be_bound [of "c # cs" "Suc j"] assms by (simp_all add: x_def p_def)
  have c: "unat c < 128 \<longleftrightarrow> x < 128 * p"
  proof -
    have "unat c < 128 \<longleftrightarrow> be_nat (c # cs) < 128 * 256 ^ j"
      using hd_top_bit [of "c # cs" j] assms by (simp add: not_less [symmetric])
    also have "\<dots> \<longleftrightarrow> x < 128 * p"
      unfolding x_def p_def by (rule int_bound_iff [symmetric])
    finally show ?thesis .
  qed
  have be: "int (be_nat (b # c # cs)) = int (unat b) * (256 * p) + x"
    using assms by (simp add: be_nat_Cons [of b] x_def p_def)
  define y where "y = int (unat b) * (256 * p)"
  have s: "signed_be (b # c # cs) = (if y + x < 128 * (256 * p) then y + x
      else y + x - 256 * (256 * p))"
    using signed_be_eq [of "b # c # cs" "Suc j"] assms be by (simp add: p_def y_def)
  consider "unat b = 0" | "unat b = 255" | "1 \<le> int (unat b)" "int (unat b) \<le> 127"
    | "128 \<le> int (unat b)" "int (unat b) \<le> 254"
    using unat_u8_less [of b] by linarith
  then show ?thesis
  proof cases
    case 1
    then have "b = 0" by (simp add: word_unat_eq_iff)
    moreover have "y = 0" using 1 by (simp add: y_def)
    ultimately show ?thesis using s x c by (auto simp: int_fits_def p_def [symmetric])
  next
    case 2
    then have "b = 0xff" by (simp add: word_unat_eq_iff)
    moreover have "y = 255 * (256 * p)" unfolding y_def 2 by simp
    ultimately show ?thesis using s x c 2 by (auto simp: int_fits_def p_def [symmetric])
  next
    case 3
    then have "256 * p \<le> y" "y \<le> 127 * (256 * p)"
      using x mult_right_mono [OF 3(1), of "256 * p"] mult_right_mono [OF 3(2), of "256 * p"]
      by (simp_all add: y_def)
    moreover have "b \<noteq> 0" "b \<noteq> 0xff" using 3 by auto
    ultimately show ?thesis using s x by (auto simp: int_fits_def p_def [symmetric])
  next
    case 4
    then have "128 * (256 * p) \<le> y" "y \<le> 254 * (256 * p)"
      using x mult_right_mono [OF 4(1), of "256 * p"] mult_right_mono [OF 4(2), of "256 * p"]
      by (simp_all add: y_def)
    moreover have "b \<noteq> 0" "b \<noteq> 0xff" using 4 by auto
    ultimately show ?thesis using s x by (auto simp: int_fits_def p_def [symmetric])
  qed
qed

text \<open>The test both readers make: no first byte that only repeats the sign.\<close>

lemma der_int_minimal:
  "bs = der_int (signed_be bs) \<longleftrightarrow>
     bs \<noteq> [] \<and>
     \<not> (1 < length bs \<and> bs ! 0 = 0 \<and> bs ! 1 AND 0x80 = 0) \<and>
     \<not> (1 < length bs \<and> bs ! 0 = 0xff \<and> bs ! 1 AND 0x80 \<noteq> 0)"
proof (cases bs)
  case Nil
  have "0 < length (der_int i)" for i using der_int_len_pos [of i] by (simp add: der_int_def)
  then show ?thesis using Nil by (metis length_greater_0_conv)
next
  case (Cons b bs')
  show ?thesis
  proof (cases bs')
    case Nil
    then show ?thesis using Cons der_int_signed_be_iff [of bs 0] by simp
  next
    case c: (Cons c cs)
    then show ?thesis
      using Cons der_int_signed_be_iff [of bs "Suc (length cs)"]
        int_fits_second_byte [of cs "length cs" b c]
      by (auto simp: top_bit_u8)
  qed
qed

section \<open>Reading elements and integers\<close>

lemma CBS_get_any_asn1_element_iff:
  "CBS_get_any_asn1_element s = (Some (out, tag, hl), t) \<longleftrightarrow>
     (\<exists>body. length body < 2 ^ 32 \<and> s = der_element tag body @ t \<and>
        out = der_element tag body \<and> hl = length (der_header tag (length body)))"
proof
  assume "CBS_get_any_asn1_element s = (Some (out, tag, hl), t)"
  note snd = cbs_get_any_asn1_element_sound [OF this [unfolded CBS_get_any_asn1_element_def]]
  then show "\<exists>body. length body < 2 ^ 32 \<and> s = der_element tag body @ t \<and>
        out = der_element tag body \<and> hl = length (der_header tag (length body))"
    by auto
next
  assume "\<exists>body. length body < 2 ^ 32 \<and> s = der_element tag body @ t \<and>
        out = der_element tag body \<and> hl = length (der_header tag (length body))"
  then show "CBS_get_any_asn1_element s = (Some (out, tag, hl), t)"
    using cbs_get_any_asn1_element_complete
    by (auto simp: CBS_get_any_asn1_element_def simp del: power_numeral)
qed

lemma drop_der_header: "drop (length (der_header tag (length body))) (der_element tag body) = body"
  by (simp add: der_element_def)

lemma CBS_skip_header:
  "CBS_skip (length (der_header tag (length body))) (der_element tag body) = (Some (), body)"
  by (simp add: op_simps der_element_def)

lemma CBS_get_asn1_iff [op_simps]:
  "CBS_get_asn1 tag s = (Some body, t) \<longleftrightarrow> length body < 2 ^ 32 \<and> s = der_element tag body @ t"
proof
  assume "CBS_get_asn1 tag s = (Some body, t)"
  then obtain out hl s' where el: "CBS_get_any_asn1_element s = (Some (out, tag, hl), s')"
    and sk: "(case CBS_skip hl out of (None, _) \<Rightarrow> op_fail | (Some _, out') \<Rightarrow> op_ret out') s' = (Some body, t)"
    by (auto simp: CBS_get_asn1_def cbs_get_asn1_def op_simps split: if_splits)
  then obtain b where "length b < 2 ^ 32" "s = der_element tag b @ s'" "out = der_element tag b"
    "hl = length (der_header tag (length b))" by (auto simp: CBS_get_any_asn1_element_iff)
  with sk show "length body < 2 ^ 32 \<and> s = der_element tag body @ t"
    by (simp add: CBS_skip_header op_simps)
next
  assume b: "length body < 2 ^ 32 \<and> s = der_element tag body @ t"
  then have "CBS_get_any_asn1_element s =
      (Some (der_element tag body, tag, length (der_header tag (length body))), t)"
    by (auto simp: CBS_get_any_asn1_element_iff)
  then show "CBS_get_asn1 tag s = (Some body, t)"
    by (simp add: CBS_get_asn1_def cbs_get_asn1_def op_bind_Some CBS_skip_header op_ret_def)
qed

lemma CBS_get_any_asn1_iff [op_simps]:
  "CBS_get_any_asn1 s = (Some (body, tag), t) \<longleftrightarrow> length body < 2 ^ 32 \<and> s = der_element tag body @ t"
proof
  assume "CBS_get_any_asn1 s = (Some (body, tag), t)"
  then obtain out tag' hl s' where el: "CBS_get_any_asn1_element s = (Some (out, tag', hl), s')"
    and sk: "(case CBS_skip hl out of (None, _) \<Rightarrow> op_fail | (Some _, out') \<Rightarrow> op_ret (out', tag')) s' =
      (Some (body, tag), t)"
    by (auto simp: CBS_get_any_asn1_def op_simps)
  then obtain b where "length b < 2 ^ 32" "s = der_element tag' b @ s'" "out = der_element tag' b"
    "hl = length (der_header tag' (length b))" by (auto simp: CBS_get_any_asn1_element_iff)
  with sk show "length body < 2 ^ 32 \<and> s = der_element tag body @ t"
    by (simp add: CBS_skip_header op_simps)
next
  assume b: "length body < 2 ^ 32 \<and> s = der_element tag body @ t"
  then have "CBS_get_any_asn1_element s =
      (Some (der_element tag body, tag, length (der_header tag (length body))), t)"
    by (auto simp: CBS_get_any_asn1_element_iff)
  then show "CBS_get_any_asn1 s = (Some (body, tag), t)"
    by (simp add: CBS_get_any_asn1_def op_bind_Some CBS_skip_header op_ret_def)
qed

lemma asn1_uint64_loop_eq:
  "asn1_uint64_loop out data =
     (if unat out * 256 ^ length data + be_nat data < 2 ^ 64
      then Some (of_nat (unat out * 256 ^ length data + be_nat data)) else None)"
proof (induction out data rule: asn1_uint64_loop.induct)
  case (1 out)
  have "unat out < 2 ^ 64" using unsigned_less [of out] by simp
  then show ?case by (simp add: byte_simps)
next
  case (2 out b data)
  define n where "n = unat out * 256 + unat b"
  have split: "unat out * 256 ^ length (b # data) + be_nat (b # data) = n * 256 ^ length data + be_nat data"
    by (simp add: be_nat_Cons n_def algebra_simps)
  show ?case
  proof (cases "unat out < 2 ^ 56")
    case True
    then have "unat (push_bit 8 out OR ucast b) = n"
      using unat_push_or [of "ucast b :: u64" 8 out] unat_u8_less [of b] by (simp add: n_def)
    then show ?thesis
      using 2 True by (simp only: asn1_uint64_loop.simps split drop_bit_eq_0_iff) simp
  next
    case False
    then have "2 ^ 64 \<le> n * 1" by (simp add: n_def)
    also have "\<dots> \<le> n * 256 ^ length data" by (rule mult_le_mono2) simp
    finally have "\<not> n * 256 ^ length data + be_nat data < 2 ^ 64" by simp
    then show ?thesis
      using False by (simp only: asn1_uint64_loop.simps split drop_bit_eq_0_iff) simp
  qed
qed

lemma signed_be_nonneg:
  "bs \<noteq> [] \<Longrightarrow> bs ! 0 AND 0x80 = 0 \<longleftrightarrow> signed_be bs = int (be_nat bs)"
  by (simp add: top_bit_u8 signed_be_def hd_conv_nth not_less [symmetric])

lemma length_der_int_le_9:
  assumes "- (2 ^ 64) \<le> i" and "i < 2 ^ 64"
  shows "length (der_int i) \<le> 9"
proof -
  obtain k where k: "der_int_len i = Suc k" using der_int_len_pos [of i] by (cases "der_int_len i") auto
  have "int_fits i 8" using assms by (simp add: int_fits_def)
  then have "der_int_len i \<le> 9" by (simp add: der_int_len_def int_fits_byte_len)
  then show ?thesis by (simp add: der_int_def)
qed

lemma length_der_int_uint: "length (der_int (uint (v :: u64))) \<le> 9"
proof (rule length_der_int_le_9)
  show "- (2 ^ 64) \<le> uint v" by (rule order_trans [of _ 0]) simp_all
  show "uint v < 2 ^ 64" using uint_bounded [of v] by simp
qed

lemma CBS_get_asn1_uint64_iff [op_simps]:
  "CBS_get_asn1_uint64 s = (Some v, t) \<longleftrightarrow>
     s = der_element CBS_ASN1_INTEGER (der_int (uint v)) @ t"
proof
  assume "CBS_get_asn1_uint64 s = (Some v, t)"
  then obtain data where d: "s = der_element CBS_ASN1_INTEGER data @ t"
    and ne: "data \<noteq> []" and pos: "data ! 0 AND 0x80 = 0"
    and min: "\<not> (1 < length data \<and> data ! 0 = 0 \<and> data ! 1 AND 0x80 = 0)"
    and v: "asn1_uint64_loop 0 data = Some v"
    by (auto simp: CBS_get_asn1_uint64_def op_simps Let_def CBS_len_def split: if_splits option.splits)
  have "be_nat data < 2 ^ 64" "v = of_nat (be_nat data)"
    using v by (simp_all add: asn1_uint64_loop_eq split: if_splits)
  then have "uint v = int (be_nat data)" by (simp add: uint_nat unat_of_nat)
  also have "\<dots> = signed_be data" using signed_be_nonneg [OF ne] pos by simp
  finally have "der_int (uint v) = data"
    using der_int_minimal [of data] ne pos min by auto
  with d show "s = der_element CBS_ASN1_INTEGER (der_int (uint v)) @ t" by simp
next
  assume s: "s = der_element CBS_ASN1_INTEGER (der_int (uint v)) @ t"
  define data where "data = der_int (uint v)"
  have sg: "signed_be data = uint v" by (simp add: data_def)
  have min: "data \<noteq> []" "\<not> (1 < length data \<and> data ! 0 = 0 \<and> data ! 1 AND 0x80 = 0)"
    using der_int_minimal [of data] sg by (simp_all add: data_def)
  have pos: "data ! 0 AND 0x80 = 0"
  proof (rule ccontr)
    assume "data ! 0 AND 0x80 \<noteq> 0"
    then have "signed_be data = int (be_nat data) - 256 ^ length data"
      using min(1) by (simp add: top_bit_u8 signed_be_def hd_conv_nth)
    then have "signed_be data < 0" using of_nat_be_bound [of data] by simp
    then show False using sg by simp
  qed
  then have "int (be_nat data) = uint v" using signed_be_nonneg [OF min(1)] sg by simp
  then have "be_nat data = unat v" by (metis nat_int unat_eq_nat_uint)
  then have "asn1_uint64_loop 0 data = Some v"
    using unsigned_less [of v] by (simp add: asn1_uint64_loop_eq)
  moreover have "CBS_get_asn1 CBS_ASN1_INTEGER s = (Some data, t)"
    using length_der_int_uint [of v] s by (simp add: CBS_get_asn1_iff data_def)
  ultimately show "CBS_get_asn1_uint64 s = (Some v, t)"
    using min pos by (auto simp: CBS_get_asn1_uint64_def op_bind_Some Let_def CBS_len_def op_ret_def)
qed

text \<open>Sign extension, and the value of eight bytes.\<close>

lemma sint_u64: "sint (v :: u64) = (if uint v < 2 ^ 63 then uint v else uint v - 2 ^ 64)"
proof (cases "uint v < 2 ^ 63")
  case True
  then have "take_bit 64 (uint v + 2 ^ 63) = uint v + 2 ^ 63"
    by (simp add: take_bit_eq_mod)
  then show ?thesis using True by (simp add: sint_uint signed_take_bit_eq_take_bit_shift)
next
  case False
  have "uint v < 2 ^ 64" using uint_bounded [of v] by simp
  then have "(uint v + 2 ^ 63) mod 2 ^ 64 = uint v + 2 ^ 63 - 2 ^ 64"
    using False by (simp add: mod_if minus_mod_self2 int_mod_pos_eq)
  then show ?thesis using False
    by (simp add: sint_uint signed_take_bit_eq_take_bit_shift take_bit_eq_mod)
qed

lemma sint_signed_be:
  assumes "length bs = 8"
  shows "sint (of_nat (be_nat bs) :: u64) = signed_be bs"
proof -
  have lt: "be_nat bs < 2 ^ 64" using be_nat_bound [of bs] assms by simp
  then have "unat (of_nat (be_nat bs) :: u64) = be_nat bs" by (simp add: unat_of_nat)
  then have "uint (of_nat (be_nat bs) :: u64) = int (be_nat bs)" by (metis uint_nat)
  then show ?thesis using signed_be_eq [of bs 7] assms by (simp add: sint_u64)
qed

lemma signed_be_extend_1:
  assumes "bs \<noteq> []" and "b = (if 128 \<le> unat (hd bs) then 0xff else 0)"
  shows "signed_be (b # bs) = signed_be bs"
  using assms by (auto simp: signed_be_def be_nat_Cons)

lemma signed_be_extend:
  assumes "bs \<noteq> []" and "b = (if 128 \<le> unat (hd bs) then 0xff else 0)"
  shows "signed_be (replicate n b @ bs) = signed_be bs"
proof (induction n)
  case 0
  then show ?case by simp
next
  case (Suc n)
  have "128 \<le> unat (hd (replicate n b @ bs)) \<longleftrightarrow> 128 \<le> unat (hd bs)"
    using assms(2) by (cases n) auto
  then have "signed_be (b # (replicate n b @ bs)) = signed_be (replicate n b @ bs)"
    using assms by (intro signed_be_extend_1) auto
  then show ?case using Suc by simp
qed

lemma length_der_int_sint: "length (der_int (sint (v :: u64))) \<le> 8"
proof -
  have "int_fits (sint v) 7"
    using sint_greater_eq [of v] sint_less [of v] by (simp add: int_fits_def)
  then have "der_int_len (sint v) \<le> 8" by (simp add: der_int_len_def int_fits_byte_len)
  then show ?thesis by (simp add: der_int_def)
qed

lemma rev_bytes: "map (\<lambda>i. data ! (length data - i - 1)) [0..<length data] = rev data"
  by (rule nth_equalityI) (simp_all add: rev_nth)

lemma CBS_get_asn1_int64_iff [op_simps]:
  "CBS_get_asn1_int64 s = (Some v, t) \<longleftrightarrow>
     s = der_element CBS_ASN1_INTEGER (der_int (sint v)) @ t"
proof -
  define val :: "u8 list \<Rightarrow> u64" where "val data = of_nat (le_nat (mem_write
    (replicate 8 (if data ! 0 AND 0x80 \<noteq> 0 then 0xff else 0)) 0
    (map (\<lambda>i. data ! (length data - i - 1)) [0..<length data])))" for data
  have val: "sint (val data) = signed_be data" if "data \<noteq> []" "length data \<le> 8" for data
  proof -
    let ?b = "if data ! 0 AND 0x80 \<noteq> 0 then 0xff else 0 :: u8"
    have "val data = of_nat (be_nat (replicate (8 - length data) ?b @ data))"
      unfolding val_def rev_bytes by (simp add: mem_write_def le_nat_def)
    moreover have "?b = (if 128 \<le> unat (hd data) then 0xff else 0)"
      using that(1) by (simp add: top_bit_u8 hd_conv_nth not_less [symmetric])
    ultimately show ?thesis
      using sint_signed_be [of "replicate (8 - length data) ?b @ data"] signed_be_extend that by simp
  qed
  have body: "CBS_get_asn1_int64 = op_bind (CBS_get_asn1 CBS_ASN1_INTEGER)
      (\<lambda>data. if length data \<le> 8 \<and> data = der_int (signed_be data) then op_ret (val data) else op_fail)"
    unfolding CBS_get_asn1_int64_def der_int_minimal Let_def CBS_len_def val_def
    by (intro arg_cong [of _ _ "op_bind _"] ext) auto
  have eq: "CBS_get_asn1_int64 s = (Some v, t) \<longleftrightarrow>
      (\<exists>data. CBS_get_asn1 CBS_ASN1_INTEGER s = (Some data, t) \<and> length data \<le> 8 \<and>
         data = der_int (signed_be data) \<and> v = val data)"
    unfolding body op_bind_Some_iff by (auto simp: op_ret_def op_fail_def split: if_splits)
  show ?thesis
  proof
    assume "CBS_get_asn1_int64 s = (Some v, t)"
    then obtain data where d: "s = der_element CBS_ASN1_INTEGER data @ t" "length data \<le> 8"
      "data = der_int (signed_be data)" "v = val data" unfolding eq CBS_get_asn1_iff by blast
    have "data \<noteq> []" using der_int_minimal [of data] d(3) by blast
    then have "sint v = signed_be data" using val d(2,4) by blast
    then show "s = der_element CBS_ASN1_INTEGER (der_int (sint v)) @ t" using d(1,3) by metis
  next
    assume s: "s = der_element CBS_ASN1_INTEGER (der_int (sint v)) @ t"
    define data where "data = der_int (sint v)"
    have d: "length data \<le> 8" "data = der_int (signed_be data)"
      using length_der_int_sint [of v] by (simp_all add: data_def)
    then have "data \<noteq> []" using der_int_minimal [of data] by blast
    then have "sint (val data) = sint v" using val d(1) by (simp add: data_def)
    then have "v = val data" by (metis signed_word_eqI)
    then show "CBS_get_asn1_int64 s = (Some v, t)"
      using d s unfolding eq CBS_get_asn1_iff
      by (intro exI [of _ data] conjI) (simp_all add: data_def)
  qed
qed

lemma CBS_get_asn1_bool_iff [op_simps]:
  "CBS_get_asn1_bool s = (Some v, t) \<longleftrightarrow>
     s = der_element CBS_ASN1_BOOLEAN [if v then 0xff else 0] @ t"
proof
  assume "CBS_get_asn1_bool s = (Some v, t)"
  then obtain bytes where "s = der_element CBS_ASN1_BOOLEAN bytes @ t" "length bytes = 1"
    "bytes ! 0 = 0 \<or> bytes ! 0 = 0xff" "v = (bytes ! 0 \<noteq> 0)"
    by (auto simp: CBS_get_asn1_bool_def op_simps CBS_len_def CBS_data_def Let_def split: if_splits)
  moreover obtain b where "bytes = [b]" using calculation(2) by (cases bytes) auto
  ultimately show "s = der_element CBS_ASN1_BOOLEAN [if v then 0xff else 0] @ t" by auto
next
  assume "s = der_element CBS_ASN1_BOOLEAN [if v then 0xff else 0] @ t"
  then have "CBS_get_asn1 CBS_ASN1_BOOLEAN s = (Some [if v then 0xff else 0], t)"
    by (simp add: CBS_get_asn1_iff)
  then show "CBS_get_asn1_bool s = (Some v, t)"
    by (simp add: CBS_get_asn1_bool_def op_bind_Some CBS_len_def CBS_data_def Let_def op_ret_def)
qed

section \<open>Writing elements and integers\<close>

lemma stack_element:
  assumes "length bs \<le> 0xfffffffe"
  shows "Option.bind (stack_child d Asn1 (der_tag_bytes tag) s)
      (\<lambda>s. Option.bind (stack_add (Suc d) bs s) (stack_flush d)) =
    stack_add d (der_element tag bs) s"
proof (cases "stack_flush d s")
  case None
  then show ?thesis by (simp add: stack_child_def stack_add_def)
next
  case (Some s1)
  obtain cur ctx where s1: "s1 = (cur, ctx)" by fastforce
  then have "length ctx = d" using stack_flush_depth [OF Some] by simp
  then show ?thesis
    using Some s1 assms
    by (simp add: stack_child_def stack_add_def stack_open_def stack_append_def frame_prefix_def
        der_element_def der_header_def)
qed

lemma cbb_element_refines:
  assumes ml: "malloc_ok ml" and f: "cbb_refines ml f (stack_add (Suc d) bs)"
    and "length bs \<le> 0xfffffffe"
  shows "cbb_refines ml (op_bind (CBB_add_asn1 ml d tag) (\<lambda>_. op_bind f (\<lambda>_. CBB_flush ml d)))
    (stack_add d (der_element tag bs))"
  using cbb_refines_bind [OF cbb_add_asn1_refines [OF ml, of d tag]
      cbb_refines_bind [OF f cbb_flush_refines [OF ml, of d]]] stack_element [OF assms(3)]
  by simp

lemma cbb_add_asn1_octet_string_refines:
  "malloc_ok ml \<Longrightarrow> length data \<le> 0xfffffffe \<Longrightarrow>
     cbb_refines ml (CBB_add_asn1_octet_string ml d data)
       (stack_add d (der_element CBS_ASN1_OCTETSTRING data))"
  unfolding CBB_add_asn1_octet_string_def
  using cbb_element_refines [OF _ cbb_add_bytes_refines, of ml data d] by simp

lemma cbb_add_asn1_bool_refines:
  assumes ml: "malloc_ok ml"
  shows "cbb_refines ml (CBB_add_asn1_bool ml d v)
    (stack_add d (der_element CBS_ASN1_BOOLEAN [if v \<noteq> 0 then 0xff else 0]))"
  unfolding CBB_add_asn1_bool_def
  using cbb_element_refines [OF ml cbb_add_u8_refines [OF ml, of "Suc d" "if v \<noteq> 0 then 0xff else 0"]]
  by simp

text \<open>The loop of \<open>CBB_add_asn1_uint64\<close> drops leading zeros and pads the sign bit.\<close>

definition uint_out :: "bool \<Rightarrow> u8 list \<Rightarrow> u8 list" where
  "uint_out started bytes =
     (if started then bytes
      else case dropWhile (\<lambda>b. b = 0) bytes of
             [] \<Rightarrow> []
           | b # bs \<Rightarrow> (if b AND 0x80 \<noteq> 0 then [0, b] else [b]) @ bs)"

lemma op_each_append: "op_each f (xs @ ys) = op_bind (op_each f xs) (\<lambda>_. op_each f ys)"
  by (induction xs) (simp_all add: op_bind_assoc)

lemma asn1_uint64_bytes_eq:
  "asn1_uint64_bytes ml d started bytes =
     op_bind (op_each (CBB_add_u8 ml d) (uint_out started bytes))
       (\<lambda>_. op_ret (started \<or> uint_out started bytes \<noteq> []))"
proof (induction ml d started bytes rule: asn1_uint64_bytes.induct)
  case (1 ml d started)
  then show ?case by (simp add: uint_out_def)
next
  case (2 ml d started byte bytes)
  show ?case
  proof (cases "\<not> started \<and> byte = 0")
    case True
    then show ?thesis using 2(1) by (simp add: uint_out_def)
  next
    case False
    then show ?thesis using 2(2) by (cases started) (simp_all add: uint_out_def op_bind_assoc)
  qed
qed

lemma der_intI:
  assumes "bs \<noteq> []" and "signed_be bs = i"
    and "1 < length bs \<Longrightarrow> bs ! 0 = 0 \<Longrightarrow> 128 \<le> unat (bs ! 1)"
    and "1 < length bs \<Longrightarrow> bs ! 0 = 0xff \<Longrightarrow> unat (bs ! 1) < 128"
  shows "bs = der_int i"
proof -
  have "bs = der_int (signed_be bs)"
    unfolding der_int_minimal using assms(1,3,4) by (auto simp: top_bit_u8)
  then show ?thesis using assms(2) by metis
qed

lemma be_nat_dropWhile_zeros: "be_nat (dropWhile (\<lambda>b. b = 0) bs) = be_nat bs"
  by (induction bs) (simp_all add: be_nat_Cons)

lemma uint_out_der_int:
  "(if uint_out False bs = [] then [0] else uint_out False bs) = der_int (int (be_nat bs))"
proof (cases "dropWhile (\<lambda>b. b = 0) bs")
  case Nil
  then have "be_nat bs = 0" using be_nat_dropWhile_zeros [of bs] by (simp only: be_nat_Nil)
  moreover have "[0] = der_int 0" by (rule der_intI) (simp_all add: signed_be_def be_nat_Cons byte_simps)
  ultimately show ?thesis by (simp add: uint_out_def Nil)
next
  case (Cons b cs)
  then have b: "b \<noteq> 0" using hd_dropWhile [of "\<lambda>b. b = 0" bs] by simp
  have n: "be_nat (b # cs) = be_nat bs" using be_nat_dropWhile_zeros [of bs] Cons by simp
  define out where "out = (if unat b < 128 then [b] else [0, b]) @ cs"
  have "out = der_int (int (be_nat bs))"
    by (rule der_intI; cases "unat b < 128")
      (use b n in \<open>auto simp: out_def signed_be_def be_nat_Cons\<close>)
  moreover have "uint_out False bs = out" using Cons by (simp add: uint_out_def out_def top_bit_u8)
  moreover have "out \<noteq> []" by (simp add: out_def)
  ultimately show ?thesis by simp
qed

lemma be_bytes_div: "be_bytes n x = map (\<lambda>i. of_nat (x div 256 ^ i)) (rev [0..<n])"
proof (induction n arbitrary: x)
  case 0
  then show ?case by simp
next
  case (Suc n)
  then show ?case
    by (simp add: rev_upt_Suc div_mult2_eq del: upt_Suc)
qed

lemma int64_byte_eq: "int64_byte v i = of_nat (unat v div 256 ^ i)"
proof -
  have "(2 :: nat) ^ (8 * i) = 256 ^ i" by (simp add: power_mult)
  then show ?thesis
    by (intro u8_of_unat [of "int64_byte v i" "unat (of_nat (unat v div 256 ^ i) :: u8)", simplified])
      (simp add: int64_byte_def unsigned_ucast_eq take_bit_eq_mod unat_drop_bit unat_of_nat)
qed

lemma int64_bytes: "map (int64_byte v) (rev [0..<n]) = be_bytes n (unat v)"
  by (simp add: int64_byte_eq be_bytes_div)

lemma cbb_add_asn1_uint64_refines:
  assumes ml: "malloc_ok ml"
  shows "cbb_refines ml (CBB_add_asn1_uint64 ml d v)
    (stack_add d (der_element CBS_ASN1_INTEGER (der_int (uint v))))"
proof -
  define bytes where "bytes = be_bytes 8 (unat v)"
  define final where "final = (if uint_out False bytes = [] then [0] else uint_out False bytes)"
  have "[0..<8] = [0, 1, 2, 3, 4, 5, 6, 7 :: nat]" by (simp add: upt_conv_Cons)
  moreover have "ucast (w AND 0xff) = (ucast w :: u8)" for w :: u64
  proof -
    have "(0xff :: u64) = mask 8" by (simp add: mask_eq_exp_minus_1)
    then have "w AND 0xff = take_bit 8 w" by (metis take_bit_eq_mask)
    then show ?thesis by (intro bit_word_eqI) (simp add: bit_simps)
  qed
  ultimately have bytes: "map (\<lambda>i. ucast (drop_bit (8 * (7 - i)) v AND 0xff)) [0..<8] = bytes"
    using int64_bytes [of v 8] by (simp add: bytes_def int64_byte_def)
  have "int (unat v) = uint v" by simp
  moreover have "be_nat bytes = unat v" using unat_u64_less [of v] by (simp add: bytes_def del: be_bytes.simps)
  ultimately have final: "final = der_int (uint v)"
    using uint_out_der_int [of bytes] by (simp only: final_def)
  then have ne: "final \<noteq> []" "length final \<le> 0xfffffffe"
    using length_der_int_uint [of v] der_int_minimal [of final] by (simp_all add: final_def)
  have "op_bind (asn1_uint64_bytes ml (d + 1) False bytes) (\<lambda>started.
      op_bind (if \<not> started then CBB_add_u8 ml (d + 1) 0 else op_ret ()) h) =
    op_bind (op_each (CBB_add_u8 ml (Suc d)) final) h" for h :: "unit \<Rightarrow> unit cbb_op"
    by (simp add: asn1_uint64_bytes_eq op_bind_assoc final_def)
  then have eq: "CBB_add_asn1_uint64 ml d v =
      op_bind (CBB_add_asn1 ml d CBS_ASN1_INTEGER)
        (\<lambda>_. op_bind (op_each (CBB_add_u8 ml (Suc d)) final) (\<lambda>_. CBB_flush ml d))"
    unfolding CBB_add_asn1_uint64_def bytes by simp
  have "cbb_refines ml (op_each (CBB_add_u8 ml (Suc d)) final)
      (stack_add (Suc d) (concat (map (\<lambda>b. [b]) final)))"
    by (rule op_each_refines [OF cbb_add_u8_refines [OF ml] ne(1)])
  then show ?thesis
    using cbb_element_refines [OF ml _ ne(2), of _ d CBS_ASN1_INTEGER] final unfolding eq by simp
qed

text \<open>The bytes that \<open>CBB_add_asn1_int64\<close> skips repeat the sign.\<close>

lemma int64_start_signed:
  fixes v :: u64
  defines "L k \<equiv> map (int64_byte v) (rev [0..<Suc k])"
  shows "signed_be (L (int64_start v k)) = signed_be (L k) \<and>
    (int64_start v k = 0 \<or>
     \<not> (int64_byte v (int64_start v k) = 0xff \<and>
        int64_byte v (int64_start v k - 1) AND 0x80 \<noteq> 0))"
proof (induction k)
  case 0
  then show ?case by simp
next
  case (Suc k)
  show ?case
  proof (cases "int64_byte v (Suc k) = 0xff \<and> int64_byte v k AND 0x80 \<noteq> 0")
    case True
    have L: "L (Suc k) = int64_byte v (Suc k) # L k" "L k \<noteq> []" "hd (L k) = int64_byte v k"
      by (simp_all add: L_def)
    have "signed_be (L (Suc k)) = signed_be (L k)"
      unfolding L(1) by (rule signed_be_extend_1 [OF L(2)]) (use True L(3) in \<open>simp add: top_bit_u8\<close>)
    then show ?thesis using Suc True by simp
  next
    case False
    then show ?thesis by auto
  qed
qed

lemma int64_start_le: "int64_start v k \<le> k"
  by (induction k) auto

lemma int64_bytes_der_int:
  assumes "sint v < 0"
  shows "map (int64_byte v) (rev [0..<Suc (int64_start v 7)]) = der_int (sint v)"
proof -
  define s where "s = int64_start v 7"
  define L where "L = map (int64_byte v) (rev [0..<Suc s])"
  have "be_nat (be_bytes 8 (unat v)) = unat v"
    using unat_u64_less [of v] by (intro be_nat_be_bytes_id) simp
  then have "signed_be (be_bytes 8 (unat v)) = sint v"
    using sint_signed_be [of "be_bytes 8 (unat v)"] by (simp del: be_nat_be_bytes_id)
  then have L: "signed_be L = sint v"
    using int64_start_signed [of v 7] int64_bytes [of v 8] by (simp add: L_def s_def del: upt_Suc)
  have neg: "128 \<le> unat (L ! 0)"
  proof (rule ccontr)
    assume "\<not> 128 \<le> unat (L ! 0)"
    then have "0 \<le> signed_be L" by (simp add: signed_be_def hd_conv_nth L_def)
    then show False using L assms by simp
  qed
  have nth: "L ! 0 = int64_byte v s" "1 < length L \<Longrightarrow> L ! 1 = int64_byte v (s - 1)"
    by (simp_all add: L_def rev_nth)
  have "L = der_int (sint v)"
    using int64_start_signed [of v 7] neg nth L
    by (intro der_intI) (auto simp: L_def s_def top_bit_u8)
  then show ?thesis by (simp add: L_def s_def)
qed

lemma cbb_add_asn1_int64_refines:
  assumes ml: "malloc_ok ml"
  shows "cbb_refines ml (CBB_add_asn1_int64 ml d v)
    (stack_add d (der_element CBS_ASN1_INTEGER (der_int (sint v))))"
proof (cases "0 \<le> sint v")
  case True
  then have "sint v = uint v"
    using sint_u64 [of v] uint_bounded [of v] by (auto split: if_splits)
  then show ?thesis
    using True cbb_add_asn1_uint64_refines [OF ml, of d v] by (simp add: CBB_add_asn1_int64_def)
next
  case False
  define ixs where "ixs = rev [0..<Suc (int64_start v 7)]"
  have out: "map (int64_byte v) ixs = der_int (sint v)"
    using int64_bytes_der_int [of v] False by (simp add: ixs_def)
  have "cbb_refines ml (op_each (\<lambda>i. CBB_add_u8 ml (Suc d) (int64_byte v i)) ixs)
      (stack_add (Suc d) (concat (map (\<lambda>i. [int64_byte v i]) ixs)))"
    by (rule op_each_refines [OF cbb_add_u8_refines [OF ml]]) (simp add: ixs_def)
  moreover have "length (der_int (sint v)) \<le> 0xfffffffe"
    using length_der_int_sint [of v] by simp
  ultimately show ?thesis
    using cbb_element_refines [OF ml, of _ d "der_int (sint v)" CBS_ASN1_INTEGER] False out
    by (simp add: CBB_add_asn1_int64_def Let_def ixs_def)
qed

section \<open>Properties\<close>


text \<open>
  In BER mode the same reader accepts, beside the DER elements, exactly the
  headers of constructed elements of indefinite length, and then returns the header
  alone.
\<close>

theorem CBS_reads_BER_headers:
  "CBS_get_any_ber_asn1_element s = (Some (out, tag, hl), t) \<longleftrightarrow>
     s = out @ t \<and>
     ((\<exists>body. length body < 2 ^ 32 \<and> out = der_element tag body \<and>
         hl = length (der_header tag (length body))) \<or>
      (tag AND CBS_ASN1_CONSTRUCTED \<noteq> 0 \<and> out = der_tag_bytes tag @ [0x80] \<and> hl = length out))"
proof
  assume "CBS_get_any_ber_asn1_element s = (Some (out, tag, hl), t)"
  note snd = cbs_get_any_asn1_element_sound [OF this [unfolded CBS_get_any_ber_asn1_element_def]]
  then show "s = out @ t \<and>
     ((\<exists>body. length body < 2 ^ 32 \<and> out = der_element tag body \<and>
         hl = length (der_header tag (length body))) \<or>
      (tag AND CBS_ASN1_CONSTRUCTED \<noteq> 0 \<and> out = der_tag_bytes tag @ [0x80] \<and> hl = length out))"
    by blast
next
  assume "s = out @ t \<and>
     ((\<exists>body. length body < 2 ^ 32 \<and> out = der_element tag body \<and>
         hl = length (der_header tag (length body))) \<or>
      (tag AND CBS_ASN1_CONSTRUCTED \<noteq> 0 \<and> out = der_tag_bytes tag @ [0x80] \<and> hl = length out))"
  then show "CBS_get_any_ber_asn1_element s = (Some (out, tag, hl), t)"
    using cbs_get_any_asn1_element_complete [of _ True tag t] cbs_get_any_asn1_element_indefinite [of tag t]
    by (auto simp: CBS_get_any_ber_asn1_element_def simp del: power_numeral)
qed

text \<open>
  \<open>CBS_get_asn1_uint64\<close> accepts exactly the minimal two's complement encodings of
  the numbers below \<open>2^64\<close>, and returns the number encoded.
\<close>

theorem CBS_get_asn1_uint64_accepts:
  "CBS_get_asn1_uint64 s = (Some v, t) \<longleftrightarrow>
     s = der_element CBS_ASN1_INTEGER (der_int (uint v)) @ t"
  by (rule CBS_get_asn1_uint64_iff)

text \<open>
  \<open>CBS_get_asn1_int64\<close> accepts exactly the minimal two's complement encodings of
  the numbers of 64 bits with sign, and returns the number encoded.
\<close>

theorem CBS_get_asn1_int64_accepts:
  "CBS_get_asn1_int64 s = (Some v, t) \<longleftrightarrow>
     s = der_element CBS_ASN1_INTEGER (der_int (sint v)) @ t"
  by (rule CBS_get_asn1_int64_iff)

end
