(* ===== verification/Asn1_Header.thy ===== *)
theory Asn1_Header
  imports Asn1_Values
begin

text \<open>
  The reader and the writers of element headers in \<open>crypto/asn1/asn1_lib.c\<close>, which the older ASN.1 code
  uses: \<open>ASN1_get_object\<close>, \<open>ASN1_put_object\<close>, \<open>ASN1_put_eoc\<close> and \<open>ASN1_object_size\<close>.  A pointer to
  the input is the list of the bytes from there to the end of the memory; reading at its end is
  \<open>None\<close>.
\<close>

section \<open>Reading\<close>

definition int_max :: int where
  "int_max = 2 ^ 31 - 1"

definition next_byte :: "u8 list \<Rightarrow> (u8 \<times> u8 list) option" where
  "next_byte p = (case p of [] \<Rightarrow> None | b # p \<Rightarrow> Some (b, p))"

fun length_bytes :: "nat \<Rightarrow> u64 \<Rightarrow> u8 list \<Rightarrow> (u64 \<times> u8 list) option" where
  "length_bytes 0 ret p = Some (ret, p)"
| "length_bytes (Suc i) ret [] = None"
| "length_bytes (Suc i) ret (b # p) = length_bytes i (push_bit 8 ret OR ucast b) p"

text \<open>The inner result is \<open>None\<close> for a return of 0; else \<open>inf\<close>, the length and the pointer.\<close>

definition asn1_get_length :: "u8 list \<Rightarrow> int \<Rightarrow> (bool \<times> int \<times> u8 list) option option" where
  "asn1_get_length p mx =
     (if mx < 1 then Some None
      else
        (case p of
           [] \<Rightarrow> None
         | b # p \<Rightarrow>
             let mx = mx - 1 in
             if b = 0x80 then Some (Some (True, 0, p))
             else
               let i = unat (b AND 0x7f) in
               if b AND 0x80 \<noteq> 0 then
                 if i > 8 \<or> mx < int i then Some None
                 else
                   (case length_bytes i 0 p of
                      None \<Rightarrow> None
                    | Some (ret, p) \<Rightarrow>
                        if uint ret > int_max div 2 then Some None else Some (Some (False, uint ret, p)))
               else if int i > int_max div 2 then Some None else Some (Some (False, int i, p))))"

text \<open>The loop over the bytes of a high tag number.\<close>

fun high_tag :: "int \<Rightarrow> u8 list \<Rightarrow> int \<Rightarrow> (int \<times> u8 list \<times> int) option option" where
  "high_tag l [] mx = None"
| "high_tag l (b # p) mx =
     (let l' = l * 128 + int (unat (b AND 0x7f)); mx' = mx - 1 in
      if b AND 0x80 \<noteq> 0 then
        if mx' = 0 then Some None
        else if l' > int_max div 128 then Some None
        else high_tag l' p mx'
      else if mx' = 0 then Some None
      else Some (Some (l', p, mx')))"

record asn1_object =
  ao_ret :: u8
  ao_tag :: int
  ao_class :: u8
  ao_length :: int
  ao_pp :: "u8 list"

text \<open>The inner result is \<open>None\<close> for a return of 0x80 through the label \<open>err\<close>.\<close>

definition ASN1_get_object :: "u8 list \<Rightarrow> int \<Rightarrow> asn1_object option option" where
  "ASN1_get_object pp omax =
     (if omax = 0 then Some None
      else
        (case pp of
           [] \<Rightarrow> None
         | b # p \<Rightarrow>
             let ret = b AND 0x20; xclass = b AND 0xc0; i = b AND 0x1f; mx = omax - 1 in
             (case (if i = 0x1f then (if mx = 0 then Some None else high_tag 0 p mx)
                    else if mx = 0 then Some None else Some (Some (int (unat i), p, mx))) of
                None \<Rightarrow> None
              | Some None \<Rightarrow> Some None
              | Some (Some (tag, p, mx)) \<Rightarrow>
                  if xclass = 0 \<and> tag > 0xff then Some None
                  else
                    (case asn1_get_length p mx of
                       None \<Rightarrow> None
                     | Some None \<Rightarrow> Some None
                     | Some (Some (indef, plength, p)) \<Rightarrow>
                         if indef \<and> ret AND 0x20 = 0 then Some None
                         else
                           let ret = (if plength > omax - int (length pp - length p) then ret OR 0x80 else ret)
                           in Some (Some \<lparr>ao_ret = ret OR (if indef then 1 else 0), ao_tag = tag, ao_class = xclass,
                                ao_length = plength, ao_pp = p\<rparr>)))))"

section \<open>Writing\<close>

text \<open>The number of 7-bit and 8-bit digits, and the digits from the last one on.\<close>

function count_digits :: "nat \<Rightarrow> int \<Rightarrow> nat" where
  "count_digits k n = (if n > 0 \<and> 0 < k then Suc (count_digits k (n div 2 ^ k)) else 0)"
  by auto
termination
proof (relation "measure (\<lambda>(k, n). nat n)")
  fix k :: nat and n :: int
  assume "n > 0 \<and> 0 < k"
  moreover from this have "(2 :: int) ^ 1 \<le> 2 ^ k" by (intro power_increasing) simp_all
  ultimately have "n div 2 ^ k < n" by (intro int_div_less_self) simp_all
  then show "((k, n div 2 ^ k), (k, n)) \<in> measure (\<lambda>(k, n). nat n)" using \<open>n > 0 \<and> 0 < k\<close> by simp
qed simp

declare count_digits.simps [simp del]

fun tag_digits :: "nat \<Rightarrow> nat \<Rightarrow> int \<Rightarrow> u8 list" where
  "tag_digits ttag 0 tag = []"
| "tag_digits ttag (Suc i) tag =
     tag_digits ttag i (tag div 128) @ [(of_int tag AND 0x7f) OR (if i \<noteq> ttag - 1 then 0x80 else 0)]"

fun length_digits :: "nat \<Rightarrow> int \<Rightarrow> u8 list" where
  "length_digits 0 n = []"
| "length_digits (Suc i) n = length_digits i (n div 256) @ [of_int n AND 0xff]"

definition asn1_put_length :: "int \<Rightarrow> u8 list" where
  "asn1_put_length n =
     (if n \<le> 127 then [of_int n]
      else let l = count_digits 8 n in (of_nat l OR 0x80) # length_digits l n)"

definition ASN1_put_object :: "int \<Rightarrow> int \<Rightarrow> int \<Rightarrow> u8 \<Rightarrow> u8 list" where
  "ASN1_put_object constructed n tag xclass =
     (let i = (if constructed \<noteq> 0 then 0x20 else 0) OR (xclass AND 0xc0) in
      (if tag < 31 then [i OR (of_int tag AND 0x1f)]
       else let ttag = count_digits 7 tag in (i OR 0x1f) # tag_digits ttag ttag tag) @
      (if constructed = 2 then [0x80] else asn1_put_length n))"

definition ASN1_put_eoc :: "u8 list" where
  "ASN1_put_eoc = [0, 0]"

definition ASN1_object_size :: "int \<Rightarrow> int \<Rightarrow> int \<Rightarrow> int" where
  "ASN1_object_size constructed n tag =
     (if n < 0 then - 1
      else
        let ret = 1 + (if tag \<ge> 31 then int (count_digits 7 tag) else 0);
            ret = (if constructed = 2 then ret + 3
                   else ret + 1 + (if n > 127 then int (count_digits 8 n) else 0))
        in if ret \<ge> int_max - n then - 1 else ret + n)"

section \<open>Digits\<close>

lemma count_digits_pos: "0 < n \<Longrightarrow> 0 < k \<Longrightarrow> count_digits k n = Suc (count_digits k (n div 2 ^ k))"
  by (subst count_digits.simps) simp

lemma count_digits_0: "n \<le> 0 \<Longrightarrow> count_digits k n = 0"
  by (subst count_digits.simps) simp

lemma count_digits_byte_len: "count_digits 8 (int n) = byte_len n"
proof (induction n rule: less_induct)
  case (less n)
  show ?case
  proof (cases "n = 0")
    case True
    then show ?thesis by (simp add: count_digits_0 byte_len.simps)
  next
    case False
    then have "count_digits 8 (int n) = Suc (count_digits 8 (int (n div 256)))"
      by (subst count_digits_pos) (simp_all add: zdiv_int)
    then show ?thesis using less [of "n div 256"] False by (subst byte_len.simps) simp
  qed
qed

lemma length_digits_be: "length_digits k (int n) = be_bytes k n"
proof (induction k arbitrary: n)
  case 0
  show ?case by simp
next
  case (Suc k)
  have "(0xff :: u8) = - 1" by simp
  then have "(of_nat n :: u8) AND 0xff = of_nat n" by (simp only: and.right_neutral)
  then show ?case using Suc [of "n div 256"] by (simp add: zdiv_int)
qed

lemma asn1_put_length_der: "n < 2 ^ 32 \<Longrightarrow> asn1_put_length (int n) = der_len_bytes n"
proof -
  assume n: "n < 2 ^ 32"
  have "(of_nat k :: u8) OR 0x80 = of_nat (128 + k)" if "k \<le> 4" for k :: nat
  proof -
    have "k = 0 \<or> k = 1 \<or> k = 2 \<or> k = 3 \<or> k = 4" using that by linarith
    then show ?thesis by auto
  qed
  from this [OF byte_len_le_4 [OF n]] show ?thesis
    by (simp add: asn1_put_length_def der_len_bytes_def count_digits_byte_len length_digits_be Let_def)
qed

lemma low7: "(of_nat n :: u8) AND 0x7f = of_nat (n mod 128)"
  by (simp add: word_unat_eq_iff mask_7_u8 unat_of_nat_u8 mod_mod_cancel)

lemma high7: "((of_nat n :: u8) AND 0x7f) OR 0x80 = of_nat (128 + n mod 128)"
proof -
  have "unat ((of_nat (n mod 128) :: u8) OR 0x80) = 128 + n mod 128"
    using unat_push_or [of "of_nat (n mod 128) :: u8" 7 1]
    by (simp add: or.commute unat_of_nat_u8)
  then show ?thesis unfolding low7 word_unat_eq_iff unat_of_nat_u8 by simp
qed

lemma tag_digits_high: "k = count_digits 7 (int n) \<Longrightarrow> k < ttag \<Longrightarrow> tag_digits ttag k (int n) = b128_high n"
proof (induction k arbitrary: n)
  case 0
  then have "n = 0" using count_digits_pos [of "int n" 7] by (cases "n = 0") auto
  then show ?case by simp
next
  case (Suc k)
  have n: "0 < n" using Suc.prems(1) count_digits_0 [of "int n" 7] by (cases "n = 0") auto
  have "count_digits 7 (int n) = Suc (count_digits 7 (int (n div 128)))"
    using n by (subst count_digits_pos) (simp_all add: zdiv_int)
  then have "tag_digits ttag k (int (n div 128)) = b128_high (n div 128)" using Suc by simp
  moreover have "b128_high n = b128_high (n div 128) @ [of_nat (128 + n mod 128)]"
    using n by (subst b128_high.simps) simp
  moreover have "k \<noteq> ttag - 1" using Suc.prems(2) by linarith
  ultimately show ?case using high7 [of n] by (simp add: zdiv_int del: of_nat_add)
qed

lemma tag_digits_b128:
  "0 < n \<Longrightarrow> tag_digits (count_digits 7 (int n)) (count_digits 7 (int n)) (int n) = b128_bytes n"
proof -
  assume n: "0 < n"
  let ?k = "count_digits 7 (int (n div 128))"
  have c: "count_digits 7 (int n) = Suc ?k" using n by (subst count_digits_pos) (simp_all add: zdiv_int)
  have "tag_digits (Suc ?k) ?k (int (n div 128)) = b128_high (n div 128)" by (rule tag_digits_high) simp_all
  then show ?thesis using low7 [of n] by (simp add: c b128_bytes_def zdiv_int)
qed

text \<open>The identifier octets as those of the DER encoder.\<close>

lemma put_tag_der:
  fixes i :: u8
  assumes "n < 2 ^ 29" and "i AND 0xe0 = i"
  shows "(if int n < 31 then [i OR (of_int (int n) AND 0x1f)]
      else (i OR 0x1f) # tag_digits (count_digits 7 (int n)) (count_digits 7 (int n)) (int n)) =
    der_tag_bytes (push_bit 24 (ucast i) OR of_nat n)"
proof -
  have u: "unat (of_nat n :: u32) = n" using assms(1) by (simp add: unat_of_nat)
  have e: "(ucast i :: u32) = ucast i AND 0xe0"
    using assms(2) ucast_byte_and_mask_u32 [of i] by simp
  have "unat (of_nat n :: u32) < 2 ^ 29" using u assms(1) by simp
  from tag_split [OF this, of i] have
    s: "ucast (drop_bit 24 (push_bit 24 (ucast i) OR (of_nat n :: u32))) AND (0xe0 :: u8) = i"
      "(push_bit 24 (ucast i) OR of_nat n) AND CBS_ASN1_TAG_NUMBER_MASK = of_nat n"
    using e assms(2) by simp_all
  show ?thesis
  proof (cases "n < 31")
    case True
    have "(of_nat n :: u8) AND 0x1f = of_nat n"
      using True by (simp add: word_unat_eq_iff mask_5_u8 unat_of_nat_u8)
    then show ?thesis using True s u by (simp add: der_tag_bytes_def Let_def)
  next
    case False
    then show ?thesis using s u tag_digits_b128 [of n] by (simp add: der_tag_bytes_def Let_def)
  qed
qed

section \<open>Reading what has been written\<close>

lemma length_bytes_append: "length_bytes (length d) ret (d @ s) = Some (foldl (\<lambda>r b. push_bit 8 r OR ucast b) ret d, s)"
  by (induction d arbitrary: ret) simp_all

lemma asn1_get_length_der:
  assumes n: "n < 2 ^ 30" and mx: "int (length (der_len_bytes n)) \<le> mx"
  shows "asn1_get_length (der_len_bytes n @ s) mx = Some (Some (False, int n, s))"
proof (cases "n < 128")
  case True
  have "unat (of_nat n :: u8) = n" using True by (simp add: unat_of_nat_u8)
  then have low: "(of_nat n :: u8) AND 0x80 = 0" "unat ((of_nat n :: u8) AND 0x7f) = n" "(of_nat n :: u8) \<noteq> 0x80"
    using True top_bit_u8 [of "of_nat n"] by (auto simp: mask_7_u8)
  show ?thesis
    using True mx n by (simp add: asn1_get_length_def der_len_bytes_def low int_max_def Let_def)
next
  case False
  let ?k = "byte_len n"
  have k: "0 < ?k" "?k \<le> 4" using byte_len_pos [of n] byte_len_le_4 [of n] False n by simp_all
  define b :: u8 where "b = of_nat (128 + ?k)"
  have ub: "unat b = 128 + ?k" using k by (simp only: b_def unat_of_nat_u8) simp
  then have b: "b \<noteq> 0x80" "b AND 0x80 \<noteq> 0" "unat (b AND 0x7f) = ?k"
    using k top_bit_u8 [of b] unat_long_form [of b] by auto
  define v where "v = foldl (\<lambda>r b. push_bit 8 r OR ucast b) (0 :: u64) (be_bytes ?k n)"
  have v: "unat v = n"
    using shift_loop_value [of "be_bytes ?k n"] k byte_len_upper [of n] by (simp add: v_def)
  have r: "length_bytes ?k 0 (be_bytes ?k n @ s) = Some (v, s)"
    using length_bytes_append [of "be_bytes ?k n" 0 s] by (simp add: v_def)
  have uv: "uint v = int n" using v by (metis uint_nat)
  have "der_len_bytes n = b # be_bytes ?k n" using False by (simp add: der_len_bytes_def b_def)
  then show ?thesis using mx k n r by (simp add: asn1_get_length_def b uv int_max_def Let_def)
qed

lemma asn1_get_length_indefinite: "1 \<le> mx \<Longrightarrow> asn1_get_length (0x80 # s) mx = Some (Some (True, 0, s))"
  by (simp add: asn1_get_length_def Let_def)

lemma high_tag_high:
  "x \<le> nat (int_max div 128) \<Longrightarrow> int (length (b128_high x)) < mx \<Longrightarrow>
   high_tag 0 (b128_high x @ s) mx = high_tag (int x) s (mx - int (length (b128_high x)))"
proof (induction x arbitrary: s rule: b128_high.induct)
  case (1 x)
  show ?case
  proof (cases "x = 0")
    case True
    then show ?thesis by simp
  next
    case False
    define b :: u8 where "b = of_nat (128 + x mod 128)"
    have ub: "unat b = 128 + x mod 128" by (simp only: b_def unat_of_nat_u8) simp
    have b: "b AND 0x80 \<noteq> 0" "unat (b AND 0x7f) = x mod 128"
      using top_bit_u8 [of b] unat_long_form [of b] ub by auto
    have h: "b128_high x = b128_high (x div 128) @ [b]"
      using False by (subst b128_high.simps) (simp add: b_def)
    have "high_tag 0 (b128_high x @ s) mx =
        high_tag (int (x div 128)) (b # s) (mx - int (length (b128_high (x div 128))))"
      using False "1.prems" h by (simp del: of_nat_Suc) (subst "1.IH", simp_all)
    moreover have "int (x div 128) * 128 + int (x mod 128) = int x"
      by (metis div_mult_mod_eq of_nat_add of_nat_mult of_nat_numeral)
    moreover have "int x \<le> int_max div 128" using "1.prems"(1) by (simp add: le_nat_iff int_max_def)
    ultimately show ?thesis using "1.prems"(2) h b by (simp add: Let_def diff_diff_eq add.commute)
  qed
qed

lemma high_tag_b128:
  assumes n: "n < 2 ^ 31" and mx: "int (length (b128_bytes n)) < mx"
  shows "high_tag 0 (b128_bytes n @ s) mx = Some (Some (int n, s, mx - int (length (b128_bytes n))))"
proof -
  define b :: u8 where "b = of_nat (n mod 128)"
  have ub: "unat b = n mod 128" by (simp add: b_def unat_of_nat_u8 mod_mod_cancel)
  have b: "b AND 0x80 = 0" "unat (b AND 0x7f) = n mod 128"
    using top_bit_u8 [of b] ub by (auto simp: mask_7_u8)
  have h: "b128_bytes n = b128_high (n div 128) @ [b]" by (simp add: b128_bytes_def b_def)
  have "n div 128 \<le> nat (int_max div 128)" using n by (simp add: int_max_def)
  from high_tag_high [OF this, of mx "b # s"] mx h
  have "high_tag 0 (b128_bytes n @ s) mx = high_tag (int (n div 128)) (b # s) (mx - int (length (b128_high (n div 128))))"
    by simp
  moreover have "int (n div 128) * 128 + int (n mod 128) = int n"
    by (metis div_mult_mod_eq of_nat_add of_nat_mult of_nat_numeral)
  ultimately show ?thesis using mx h b by (simp add: Let_def)
qed

lemma and_disjoint: "(x :: u8) AND k = x \<Longrightarrow> k AND m = 0 \<Longrightarrow> x AND m = 0"
  by (metis and.assoc and_zero_eq)

lemma and_within: "(x :: u8) AND k = x \<Longrightarrow> k AND m = k \<Longrightarrow> x AND m = x"
  by (metis and.assoc)

lemma ident_split:
  assumes "(i :: u8) AND 0xe0 = i" and "l AND 0x1f = l"
  shows "(i OR l) AND 0x20 = i AND 0x20" and "(i OR l) AND 0xc0 = i AND 0xc0" and "(i OR l) AND 0x1f = l"
  using and_disjoint [OF assms(2), of "0x20"] and_disjoint [OF assms(2), of "0xc0"]
    and_disjoint [OF assms(1), of "0x1f"] assms(2)
  by (simp_all add: bit.conj_disj_distrib2)

text \<open>The identifier octets: the class and the constructed bit, and the tag number.\<close>

definition ident_bytes :: "u8 \<Rightarrow> nat \<Rightarrow> u8 list" where
  "ident_bytes i tag = (if tag < 31 then [i OR of_nat tag] else (i OR 0x1f) # b128_bytes tag)"

text \<open>The reader over identifier octets, at whatever length octets follow them.\<close>

lemma get_object_ident:
  assumes i: "i AND 0xe0 = i" and tag: "tag < 2 ^ 31" "i AND 0xc0 = 0 \<Longrightarrow> tag \<le> 0xff"
    and len: "asn1_get_length s (omax - int (length (ident_bytes i tag))) = Some (Some (indef, plength, p))"
    and indef: "indef \<Longrightarrow> i AND 0x20 \<noteq> 0"
    and omax: "int (length (ident_bytes i tag)) < omax" "plength \<le> omax - int (length (ident_bytes i tag @ s) - length p)"
  shows "ASN1_get_object (ident_bytes i tag @ s) omax =
    Some (Some \<lparr>ao_ret = (i AND 0x20) OR (if indef then 1 else 0), ao_tag = int tag, ao_class = i AND 0xc0,
      ao_length = plength, ao_pp = p\<rparr>)"
proof -
  have univ: "\<not> (i AND 0xc0 = 0 \<and> 0xff < int tag)" and cons: "\<not> (indef \<and> i AND 0x20 = 0)"
    using tag(2) indef by auto
  note checks = univ cons i tag(1) len omax
  show ?thesis
proof (cases "tag < 31")
  case True
  have l: "(of_nat tag :: u8) AND 0x1f = of_nat tag" "unat (of_nat tag :: u8) = tag"
    using True by (simp_all add: word_unat_eq_iff mask_5_u8 unat_of_nat_u8)
  have "(of_nat tag :: u8) \<noteq> 0x1f" using l(2) True by auto
  then show ?thesis using True checks l by (simp add: ASN1_get_object_def ident_bytes_def ident_split [OF i l(1)] Let_def)
next
  case False
  have l: "(0x1f :: u8) AND 0x1f = 0x1f" by simp
  have "high_tag 0 (b128_bytes tag @ s) (omax - 1) =
      Some (Some (int tag, s, omax - 1 - int (length (b128_bytes tag))))"
    using False omax tag(1) by (intro high_tag_b128) (simp_all add: ident_bytes_def)
  then show ?thesis using False checks
    by (simp add: ASN1_get_object_def ident_bytes_def ident_split [OF i l] Let_def diff_diff_eq add.commute)
qed
qed

lemma put_ident:
  assumes i: "i AND 0xe0 = (i :: u8)"
  shows "(if int n < 31 then [i OR (of_int (int n) AND 0x1f)]
      else (i OR 0x1f) # tag_digits (count_digits 7 (int n)) (count_digits 7 (int n)) (int n)) = ident_bytes i n"
proof (cases "n < 31")
  case True
  have "(of_nat n :: u8) AND 0x1f = of_nat n"
    using True by (simp add: word_unat_eq_iff mask_5_u8 unat_of_nat_u8)
  then show ?thesis using True by (simp add: ident_bytes_def)
next
  case False
  then show ?thesis using tag_digits_b128 [of n] by (simp add: ident_bytes_def)
qed

abbreviation ident_of :: "int \<Rightarrow> u8 \<Rightarrow> u8" where
  "ident_of constructed xclass \<equiv> (if constructed \<noteq> 0 then 0x20 else 0) OR (xclass AND 0xc0)"

lemma ident_of_masks:
  "ident_of c x AND 0xe0 = ident_of c x" "ident_of c x AND 0xc0 = x AND 0xc0"
  "ident_of c x AND 0x20 = (if c \<noteq> 0 then 0x20 else 0)"
  by (simp_all add: bit.conj_disj_distrib2 and.assoc)

lemma put_object_shape:
  assumes "n < 2 ^ 31"
  shows "ASN1_put_object constructed (int n) (int tag) xclass =
    ident_bytes (ident_of constructed xclass) tag @ (if constructed = 2 then [0x80] else der_len_bytes n)"
  using put_ident [OF ident_of_masks(1), of tag constructed xclass] asn1_put_length_der [of n] assms
  unfolding ASN1_put_object_def Let_def by simp

lemma get_put_object:
  assumes n: "n < 2 ^ 30" and tag: "tag < 2 ^ 31" "xclass AND 0xc0 = 0 \<Longrightarrow> tag \<le> 0xff"
    and omax: "int (length (ASN1_put_object constructed (int n) (int tag) xclass)) +
      (if constructed = 2 then 0 else int n) \<le> omax"
  shows "ASN1_get_object (ASN1_put_object constructed (int n) (int tag) xclass @ s) omax =
    Some (Some \<lparr>ao_ret = (if constructed = 0 then 0 else if constructed = 2 then 0x21 else 0x20), ao_tag = int tag,
      ao_class = xclass AND 0xc0, ao_length = (if constructed = 2 then 0 else int n), ao_pp = s\<rparr>)"
proof -
  define i :: u8 where "i = ident_of constructed xclass"
  have i: "i AND 0xe0 = i" "i AND 0xc0 = xclass AND 0xc0" "i AND 0x20 = (if constructed \<noteq> 0 then 0x20 else 0)"
    unfolding i_def by (fact ident_of_masks)+
  have shape: "ASN1_put_object constructed (int n) (int tag) xclass =
      ident_bytes i tag @ (if constructed = 2 then [0x80] else der_len_bytes n)"
    using put_object_shape [of n constructed tag xclass] n by (simp add: i_def)
  show ?thesis
  proof (cases "constructed = 2")
    case True
    then show ?thesis
      using shape omax tag i get_object_ident [OF i(1), of tag "0x80 # s" omax True 0 s]
      by (simp add: asn1_get_length_indefinite)
  next
    case False
    then have len: "int (length (ident_bytes i tag)) + int (length (der_len_bytes n)) + int n \<le> omax"
      using omax by (simp add: shape)
    have "0 < length (der_len_bytes n)" by (simp add: der_len_bytes_def)
    with len have ne: "int (length (ident_bytes i tag)) < omax" by linarith
    have "ASN1_get_object (ident_bytes i tag @ der_len_bytes n @ s) omax =
      Some (Some \<lparr>ao_ret = (i AND 0x20) OR (if False then 1 else 0), ao_tag = int tag, ao_class = i AND 0xc0,
        ao_length = int n, ao_pp = s\<rparr>)"
      using len ne tag n i by (intro get_object_ident asn1_get_length_der) (auto simp: algebra_simps)
    then show ?thesis using False shape i by (cases "constructed = 0") simp_all
  qed
qed

section \<open>Properties\<close>

text \<open>
  What \<open>ASN1_put_object\<close> writes, \<open>ASN1_get_object\<close> reads back: for every tag number that
  fits an \<open>int\<close> (at most 255 in the universal class) and every length below \<open>2 ^ 30\<close>, in
  definite and indefinite form, given that the input holds the announced contents.
\<close>
theorem asn1_object_roundtrip:
  assumes "n < 2 ^ 30" and "tag < 2 ^ 31" and "xclass AND 0xc0 \<noteq> 0 \<or> tag \<le> 0xff"
    and "int (length (ASN1_put_object constructed (int n) (int tag) xclass)) +
      (if constructed = 2 then 0 else int n) \<le> omax"
  shows "ASN1_get_object (ASN1_put_object constructed (int n) (int tag) xclass @ s) omax =
    Some (Some \<lparr>ao_ret = (if constructed = 0 then 0 else if constructed = 2 then 0x21 else 0x20), ao_tag = int tag,
      ao_class = xclass AND 0xc0, ao_length = (if constructed = 2 then 0 else int n), ao_pp = s\<rparr>)"
  using assms by (intro get_put_object) auto

theorem asn1_object_roundtrip_witness:
  "ASN1_get_object (ASN1_put_object 1 (int 300) (int 1000) 0x40 @ [1, 2]) 400 =
     Some (Some \<lparr>ao_ret = 0x20, ao_tag = 1000, ao_class = 0x40, ao_length = 300, ao_pp = [1, 2]\<rparr>)"
proof -
  have "ASN1_put_object 1 (int 300) (int 1000) 0x40 = [0x7f, 0x87, 0x68, 0x82, 1, 44]" by code_simp
  then show ?thesis using asn1_object_roundtrip [of 300 1000 "0x40" 1 400 "[1, 2]"] by simp
qed

lemma length_tag_digits: "length (tag_digits ttag k tag) = k"
  by (induction ttag k tag rule: tag_digits.induct) simp_all

lemma length_length_digits: "length (length_digits k n) = k"
  by (induction k n rule: length_digits.induct) simp_all

text \<open>
  \<open>ASN1_object_size\<close> is the number of bytes of the header \<open>ASN1_put_object\<close> writes, of the
  contents and, in indefinite form, of the end-of-contents octets, for every tag and class; it is
  -1 exactly for a negative length and where this sum does not stay below \<open>INT_MAX\<close>.
\<close>
theorem ASN1_object_size_exact:
  "ASN1_object_size constructed n tag =
     (let size = int (length (ASN1_put_object constructed n tag xclass)) +
            (if constructed = 2 then int (length ASN1_put_eoc) else 0) + n
      in if n < 0 \<or> int_max \<le> size then - 1 else size)"
  by (simp add: ASN1_object_size_def ASN1_put_object_def ASN1_put_eoc_def asn1_put_length_def Let_def
      length_tag_digits length_length_digits)

text \<open>
  On every element that the strict reader of \<open>cbs.c\<close> accepts, \<open>ASN1_get_object\<close> gives the same
  tag, class and form, the same length and the same start of the contents, unless the element uses
  a universal tag above 255 or contents of \<open>2 ^ 30\<close> bytes and more, which \<open>asn1_lib.c\<close> refuses.
\<close>
theorem ASN1_get_object_reads_der:
  assumes "CBS_get_any_asn1_element s = (Some (out, tag, hl), t)"
    and "length out < 2 ^ 30 + hl"
    and "ucast (drop_bit 24 tag) AND (0xc0 :: u8) \<noteq> 0 \<or> unat (tag AND CBS_ASN1_TAG_NUMBER_MASK) \<le> 0xff"
  shows "ASN1_get_object s (int (length s)) =
    Some (Some \<lparr>ao_ret = ucast (drop_bit 24 tag) AND 0x20, ao_tag = int (unat (tag AND CBS_ASN1_TAG_NUMBER_MASK)),
      ao_class = ucast (drop_bit 24 tag) AND 0xc0, ao_length = int (length out - hl), ao_pp = drop hl s\<rparr>)"
proof -
  obtain body where out: "out = der_element tag body" and hl: "hl = length (der_header tag (length body))"
      and s: "s = out @ t"
    using cbs_get_any_asn1_element_sound [of False s out tag hl t] assms(1)
    by (auto simp: CBS_get_any_asn1_element_def)
  define i :: u8 where "i = ucast (drop_bit 24 tag) AND 0xe0"
  define k where "k = unat (tag AND CBS_ASN1_TAG_NUMBER_MASK)"
  have i: "i AND 0xe0 = i" "i AND 0xc0 = ucast (drop_bit 24 tag) AND 0xc0" "i AND 0x20 = ucast (drop_bit 24 tag) AND 0x20"
    by (simp_all add: i_def and.assoc)
  have k: "k < 2 ^ 31" using unat_tag_number [of tag] by (simp add: k_def)
  have tagb: "der_tag_bytes tag = ident_bytes i k" by (simp add: der_tag_bytes_def ident_bytes_def i_def k_def Let_def)
  have n: "length body < 2 ^ 30" using assms(2) by (simp add: out hl der_element_def)
  have ne: "0 < int (length (der_len_bytes (length body))) + (int (length body) + int (length t))"
    by (simp add: der_len_bytes_def)
  have shape: "s = ident_bytes i k @ der_len_bytes (length body) @ body @ t"
    by (simp add: s out der_element_def der_header_def tagb)
  have len: "asn1_get_length (der_len_bytes (length body) @ body @ t)
      (int (length s) - int (length (ident_bytes i k))) = Some (Some (False, int (length body), body @ t))"
    using n by (intro asn1_get_length_der) (simp_all add: shape)
  have "ASN1_get_object (ident_bytes i k @ der_len_bytes (length body) @ body @ t) (int (length s)) =
    Some (Some \<lparr>ao_ret = (i AND 0x20) OR (if False then 1 else 0), ao_tag = int k, ao_class = i AND 0xc0,
      ao_length = int (length body), ao_pp = body @ t\<rparr>)"
    using assms(3) i k ne len by (intro get_object_ident) (auto simp: shape k_def)
  moreover have "drop hl s = body @ t" "length out - hl = length body"
    by (simp_all add: hl s out der_element_def)
  ultimately show ?thesis using i shape by (simp add: k_def)
qed

theorem ASN1_get_object_reads_der_witness:
  "ASN1_get_object [0x30, 2, 5, 0, 9] 5 =
     Some (Some \<lparr>ao_ret = 0x20, ao_tag = 0x10, ao_class = 0, ao_length = 2, ao_pp = [5, 0, 9]\<rparr>)"
proof -
  have "CBS_get_any_asn1_element [0x30, 2, 5, 0, 9] = (Some ([0x30, 2, 5, 0], 0x20000010, 2), [9])" by code_simp
  from ASN1_get_object_reads_der [OF this] show ?thesis by (simp add: CBS_ASN1_TAG_NUMBER_MASK_def)
qed

end
