(* ===== verification/Cbb_Build.thy ===== *)
theory Cbb_Build
  imports Asn1_Values
begin

text \<open>
  A whole builder session, \<open>CBB_init\<close>, some operations and \<open>CBB_finish\<close>, as its
  callers write it, and the laws that carry the refinement of the single operations to
  the bytes the session returns.
\<close>

definition cbb_session :: "allocator \<Rightarrow> nat \<Rightarrow> unit cbb_op \<Rightarrow> u8 list option" where
  "cbb_session ml n f =
     (case CBB_init ml n of
        (None, _) \<Rightarrow> None
      | (Some _, cbb) \<Rightarrow>
          (case op_bind f (\<lambda>_. CBB_finish ml True 0) cbb of
             (None, _) \<Rightarrow> None
           | (Some (out_data, out_len), _) \<Rightarrow> Some (take out_len out_data)))"

lemma CBB_init_ok:
  assumes "CBB_init ml n = (Some u, cbb)" and "malloc_ok ml" and "n \<le> 2 ^ 60"
  shows "cbb_ok cbb" and "cbb_stack_of cbb = Some ([], [])"
    and "malloc_total ml \<Longrightarrow> m \<le> 2 ^ 60 \<Longrightarrow> cbb_has_room ml m cbb"
proof -
  define b where "b = OPENSSL_malloc ml n"
  have b: "b \<noteq> None \<or> n = 0" and cbb: "cbb = \<lparr>cbb_base = Some \<lparr>cbb_buf = (case b of None \<Rightarrow> [] | Some m \<Rightarrow> m),
      cbb_len = 0, cbb_cap = n, cbb_can_resize = True, cbb_error = False\<rparr>, cbb_chain = []\<rparr>"
    using assms(1)
    by (auto simp: CBB_init_def cbb_init_def CBB_zero_def b_def [symmetric] Let_def
        split: if_splits option.splits)
  have "length (case b of None \<Rightarrow> [] | Some m \<Rightarrow> m) = n"
    using b OPENSSL_malloc_length [OF assms(2), of n] assms(3)
    by (cases b) (auto simp: b_def)
  then show "cbb_ok cbb" using assms(3) by (simp add: cbb cbb_ok_def cbb_buffer_ok_def)
  show "cbb_stack_of cbb = Some ([], [])" by (simp add: cbb cbb_stack_of_def cbb_written_def)
  show "malloc_total ml \<Longrightarrow> m \<le> 2 ^ 60 \<Longrightarrow> cbb_has_room ml m cbb"
    by (simp add: cbb cbb_has_room_def cbb_room_def)
qed

lemma CBB_init_total: "malloc_total ml \<Longrightarrow> n \<le> 2 ^ 60 \<Longrightarrow> \<exists>cbb. CBB_init ml n = (Some (), cbb)"
proof -
  assume ml: "malloc_total ml" and n: "n \<le> 2 ^ 60"
  have "OPENSSL_malloc ml k \<noteq> None" if "k \<le> 2 ^ 60" for k
    using ml that by (auto simp: OPENSSL_malloc_def malloc_total_def split: option.splits)
  from this [OF n] this [of 32] show ?thesis
    by (auto simp: CBB_init_def cbb_init_def Let_def split: option.splits)
qed

lemma CBB_finish_does:
  assumes "CBB_finish ml True 0 cbb = (r, cbb')" and "malloc_ok ml" and "cbb_ok cbb"
  shows "r = Some (out_data, out_len) \<Longrightarrow>
      \<exists>s. cbb_stack_of cbb = Some s \<and> stack_flush 0 s = Some (take out_len out_data, []) \<and>
        cbb_base cbb' = None"
    and "r = None \<Longrightarrow> cbb_stack_of cbb = Some s \<Longrightarrow> stack_flush 0 s = Some s' \<Longrightarrow>
      \<not> cbb_has_room ml (stack_size s') cbb"
proof -
  obtain r1 c1 where fl: "CBB_flush ml 0 cbb = (r1, c1)" by fastforce
  note d = cbb_flush_does [OF fl assms(2,3)]
  have "(r = Some (out_data, out_len) \<longrightarrow>
      (\<exists>s. cbb_stack_of cbb = Some s \<and> stack_flush 0 s = Some (take out_len out_data, []) \<and>
        cbb_base cbb' = None)) \<and>
    (r = None \<longrightarrow> cbb_stack_of cbb = Some s \<longrightarrow> stack_flush 0 s = Some s' \<longrightarrow>
      \<not> cbb_has_room ml (stack_size s') cbb)"
  proof (cases r1)
    case None
    then have "r = None" using assms(1) fl by (simp add: CBB_finish_def op_simps)
    then show ?thesis using d(1) None by (simp add: cbb_does_def)
  next
    case (Some u)
    then obtain s0 s1 where s: "cbb_stack_of cbb = Some s0" "stack_flush 0 s0 = Some s1"
      "cbb_stack_of c1 = Some s1" using d(1) by (auto simp: cbb_does_def)
    have "cbb_chain c1 = []" using d(2) [OF Some] by simp
    with s(3) obtain b where b: "cbb_base c1 = Some b" "s1 = (cbb_written b, [])"
      by (auto simp: cbb_stack_of_def split: option.splits if_splits)
    then have "r = Some (cbb_buf b, cbb_len b)" "cbb' = CBB_cleanup c1"
      using assms(1) fl Some by (simp_all add: CBB_finish_def op_simps)
    then show ?thesis using s b by (auto simp: cbb_written_def CBB_cleanup_def)
  qed
  then show "r = Some (out_data, out_len) \<Longrightarrow>
      \<exists>s. cbb_stack_of cbb = Some s \<and> stack_flush 0 s = Some (take out_len out_data, []) \<and>
        cbb_base cbb' = None"
    and "r = None \<Longrightarrow> cbb_stack_of cbb = Some s \<Longrightarrow> stack_flush 0 s = Some s' \<Longrightarrow>
      \<not> cbb_has_room ml (stack_size s') cbb" by blast+
qed

lemma CBB_finish_len:
  assumes "CBB_finish ml True 0 cbb = (Some (out_data, out_len), cbb')" and "malloc_ok ml" and "cbb_ok cbb"
  shows "out_len \<le> length out_data"
proof -
  obtain r1 c1 where fl: "CBB_flush ml 0 cbb = (r1, c1)" by fastforce
  then obtain u where u: "r1 = Some u"
    using assms(1) by (cases r1) (simp_all add: CBB_finish_def op_simps)
  note d = cbb_flush_does [OF fl assms(2,3)]
  have c1: "cbb_ok c1" "cbb_chain c1 = []" using d u by (simp_all add: cbb_does_def)
  obtain b where b: "cbb_base c1 = Some b"
    using assms(1) fl u by (auto simp: CBB_finish_def op_simps split: option.splits if_splits)
  then have "out_data = cbb_buf b" "out_len = cbb_len b"
    using assms(1) fl u c1(2) by (simp_all add: CBB_finish_def op_simps split: if_splits)
  then show ?thesis using c1(1) b by (simp add: cbb_ok_def cbb_buffer_ok_def)
qed

lemma cbb_session_inline:
  assumes "CBB_init ml n = (Some u, cbb)" and "malloc_ok ml" and "n \<le> 2 ^ 60" and f: "cbb_refines ml f g"
    and fin: "op_bind f (\<lambda>_. CBB_finish ml True 0) cbb = (r, cbb')"
  shows "cbb_session ml n f = map_option (\<lambda>(out_data, out_len). take out_len out_data) r"
    and "r = Some (out_data, out_len) \<Longrightarrow> out_len \<le> length out_data"
proof -
  show "cbb_session ml n f = map_option (\<lambda>(out_data, out_len). take out_len out_data) r"
    using assms(1) fin by (auto simp: cbb_session_def split: option.splits)
  assume r: "r = Some (out_data, out_len)"
  obtain x c1 where f1: "f cbb = (Some x, c1)" and fin1: "CBB_finish ml True 0 c1 = (r, cbb')"
    using fin r by (auto simp: op_simps)
  have "cbb_ok c1"
    using cbb_refinesD [OF f CBB_init_ok(1) [OF assms(1-3)] f1] by (simp add: cbb_does_def)
  then show "out_len \<le> length out_data" using CBB_finish_len [OF fin1 [unfolded r] assms(2)] by simp
qed

lemma cbb_session_partial:
  assumes "malloc_ok ml" and "n \<le> 2 ^ 60" and f: "cbb_refines ml f g"
    and "cbb_session ml n f = Some out"
  shows "Option.bind (g ([], [])) (stack_flush 0) = Some (out, [])"
proof -
  obtain cbb c1 c2 data k where i: "CBB_init ml n = (Some (), cbb)" and f1: "f cbb = (Some (), c1)"
    and fin: "CBB_finish ml True 0 c1 = (Some (data, k), c2)" and out: "out = take k data"
    using assms(4) by (auto simp: cbb_session_def op_simps split: prod.splits option.splits)
  note init = CBB_init_ok [OF i assms(1,2)]
  note d = cbb_refinesD [OF f init(1) f1]
  have c1: "cbb_ok c1" using d by (simp add: cbb_does_def)
  obtain s' where "g ([], []) = Some s'" "cbb_stack_of c1 = Some s'"
    using d init(2) by (auto simp: cbb_does_def)
  then show ?thesis using CBB_finish_does(1) [OF fin assms(1) c1 refl] out by auto
qed

lemma cbb_session_total:
  assumes ml: "malloc_ok ml" "malloc_total ml" and n: "n \<le> 2 ^ 60" and f: "cbb_refines ml f g"
    and g: "Option.bind (g ([], [])) (stack_flush 0) = Some (out, [])" and out: "length out \<le> 2 ^ 60"
  shows "cbb_session ml n f = Some out"
proof -
  obtain s where s: "g ([], []) = Some s" "stack_flush 0 s = Some (out, [])"
    using g by (cases "g ([], [])") auto
  have size: "stack_size (out, []) \<le> 2 ^ 60" "stack_size s \<le> 2 ^ 60"
    using out stack_flush_size [OF s(2)] by (simp_all add: stack_size_def)
  obtain cbb where i: "CBB_init ml n = (Some (), cbb)" using CBB_init_total [OF ml(2) n] by blast
  note init = CBB_init_ok [OF i ml(1) n]
  obtain r1 c1 where f1: "f cbb = (r1, c1)" by fastforce
  note d = cbb_refinesD [OF f init(1) f1]
  have "r1 \<noteq> None"
    using d init(2) s(1) init(3) [OF ml(2) size(2)] by (cases "r1 = None") (simp_all add: cbb_does_def)
  then have r1: "r1 = Some ()" by (cases r1) auto
  then have c1: "cbb_ok c1" "cbb_stack_of c1 = Some s" "cbb_has_room ml (stack_size (out, [])) c1"
    using d init(2) s(1) init(3) [OF ml(2) size(1)] by (auto simp: cbb_does_def)
  obtain r2 c2 where fin: "CBB_finish ml True 0 c1 = (r2, c2)" by fastforce
  have "r2 \<noteq> None" using CBB_finish_does(2) [OF fin ml(1) c1(1) _ c1(2) s(2)] c1(3) by auto
  then obtain data k where r2: "r2 = Some (data, k)" by fastforce
  then have "take k data = out" using CBB_finish_does(1) [OF fin ml(1) c1(1) r2] c1(2) s(2) by auto
  then show ?thesis using i f1 r1 fin r2 by (simp add: cbb_session_def op_simps)
qed

lemma cbb_session_add:
  assumes "malloc_ok ml" and "malloc_total ml" and "n \<le> 2 ^ 60"
    and "cbb_refines ml f (stack_add 0 bs)" and "length bs \<le> 2 ^ 60"
  shows "cbb_session ml n f = Some bs"
  by (rule cbb_session_total [OF assms(1-4) _ assms(5)]) (simp add: stack_add_def stack_append_def)

end
