(* ===== verification/Stack.thy ===== *)
theory Stack
  imports Cbb
begin

text \<open>
  \<open>crypto/stack/stack.c\<close>: the growing array of pointers.  A pointer is an \<open>option\<close>
  (\<open>None\<close> is \<open>NULL\<close>), the array \<open>data\<close> has all its allocated cells, of which the
  first \<open>num\<close> are in use, and a \<open>_STACK *\<close> argument is an \<open>option\<close> because most
  functions accept \<open>NULL\<close>.  The comparison function is called with the pointers
  themselves; \<open>qsort\<close> of the C library is the parameter \<open>qs\<close>.
\<close>

section \<open>State\<close>

type_synonym 'p ptr = "'p option"
type_synonym 'p cmp_func = "'p ptr \<Rightarrow> 'p ptr \<Rightarrow> int"

record 'p stack_st =
  stack_num :: nat
  stack_data :: "'p ptr list"
  stack_sorted :: bool
  stack_num_alloc :: nat
  stack_comp :: "'p cmp_func option"

definition kMinSize :: nat where "kMinSize = 4"

section \<open>Operations\<close>

definition sk_new :: "allocator \<Rightarrow> 'p ptr ptr_malloc \<Rightarrow> 'p cmp_func option \<Rightarrow> 'p stack_st option" where
  "sk_new ml pm cmp =
     (case OPENSSL_malloc ml 40 of
        None \<Rightarrow> None
      | Some _ \<Rightarrow>
          (case pm kMinSize of
             None \<Rightarrow> None
           | Some _ \<Rightarrow>
               Some \<lparr>stack_num = 0, stack_data = replicate kMinSize None, stack_sorted = False,
                     stack_num_alloc = kMinSize, stack_comp = cmp\<rparr>))"

definition sk_new_null :: "allocator \<Rightarrow> 'p ptr ptr_malloc \<Rightarrow> 'p stack_st option" where
  "sk_new_null ml pm = sk_new ml pm None"

definition sk_num :: "'p stack_st option \<Rightarrow> nat" where
  "sk_num sk = (case sk of None \<Rightarrow> 0 | Some s \<Rightarrow> stack_num s)"

definition sk_zero :: "'p stack_st option \<Rightarrow> 'p stack_st option" where
  "sk_zero sk =
     (case sk of
        None \<Rightarrow> None
      | Some s \<Rightarrow>
          if stack_num s = 0 then Some s
          else Some (s\<lparr>stack_data := mem_write (stack_data s) 0 (replicate (stack_num s) None),
                       stack_num := 0, stack_sorted := False\<rparr>))"

definition sk_value :: "'p stack_st option \<Rightarrow> nat \<Rightarrow> 'p ptr" where
  "sk_value sk i =
     (case sk of None \<Rightarrow> None
      | Some s \<Rightarrow> if i \<ge> stack_num s then None else stack_data s ! i)"

definition sk_set :: "'p stack_st option \<Rightarrow> nat \<Rightarrow> 'p ptr \<Rightarrow> 'p ptr \<times> 'p stack_st option" where
  "sk_set sk i v =
     (case sk of None \<Rightarrow> (None, None)
      | Some s \<Rightarrow>
          if i \<ge> stack_num s then (None, sk)
          else (v, Some (s\<lparr>stack_data := (stack_data s)[i := v]\<rparr>)))"

text \<open>
  \<open>realloc\<close> of the cells to \<open>n\<close> pointers: the old cells are kept.
\<close>

definition ptr_realloc :: "'p ptr ptr_malloc \<Rightarrow> 'p ptr list \<Rightarrow> nat \<Rightarrow> 'p ptr list option" where
  "ptr_realloc pm data n = map_option (\<lambda>m. mem_write m 0 (take n data)) (pm n)"

definition sk_grow :: "'p ptr ptr_malloc \<Rightarrow> 'p stack_st \<Rightarrow> 'p stack_st option" where
  "sk_grow pm s =
     (if stack_num_alloc s \<le> wrap64 (stack_num s + 1) then
        let new_alloc = wrap64 (stack_num_alloc s * 2);
            alloc_size = wrap64 (new_alloc * 8);
            new_alloc = (if new_alloc < stack_num_alloc s \<or> alloc_size div 8 \<noteq> new_alloc
                         then wrap64 (stack_num_alloc s + 1) else new_alloc);
            alloc_size = wrap64 (new_alloc * 8)
        in if new_alloc < stack_num_alloc s \<or> alloc_size div 8 \<noteq> new_alloc then None
           else (case ptr_realloc pm (stack_data s) new_alloc of
                   None \<Rightarrow> None
                 | Some data \<Rightarrow> Some (s\<lparr>stack_data := data, stack_num_alloc := new_alloc\<rparr>))
      else Some s)"

text \<open>The result is the new number of elements, 0 on failure.\<close>

definition sk_insert ::
    "'p ptr ptr_malloc \<Rightarrow> 'p stack_st option \<Rightarrow> 'p ptr \<Rightarrow> nat \<Rightarrow> nat \<times> 'p stack_st option"
where
  "sk_insert pm sk p w =
     (case sk of
        None \<Rightarrow> (0, None)
      | Some s \<Rightarrow>
          (case sk_grow pm s of
             None \<Rightarrow> (0, sk)
           | Some s \<Rightarrow>
               let data = (if w \<ge> stack_num s then (stack_data s)[stack_num s := p]
                           else (mem_write (stack_data s) (w + 1)
                                  (take (stack_num s - w) (drop w (stack_data s))))[w := p])
               in (stack_num s + 1,
                   Some (s\<lparr>stack_data := data, stack_num := stack_num s + 1, stack_sorted := False\<rparr>))))"

definition sk_delete :: "'p stack_st option \<Rightarrow> nat \<Rightarrow> 'p ptr \<times> 'p stack_st option" where
  "sk_delete sk w =
     (case sk of
        None \<Rightarrow> (None, None)
      | Some s \<Rightarrow>
          if w \<ge> stack_num s then (None, sk)
          else
            let ret = stack_data s ! w;
                data = (if w \<noteq> stack_num s - 1 then
                          mem_write (stack_data s) w
                            (take (stack_num s - w - 1) (drop (w + 1) (stack_data s)))
                        else stack_data s)
            in (ret, Some (s\<lparr>stack_data := data, stack_num := stack_num s - 1\<rparr>)))"

text \<open>The loops that look for the first cell with a property.\<close>

fun first_index :: "('a \<Rightarrow> bool) \<Rightarrow> 'a list \<Rightarrow> nat \<Rightarrow> nat option" where
  "first_index P [] i = None"
| "first_index P (x # xs) i = (if P x then Some i else first_index P xs (i + 1))"

definition sk_delete_ptr :: "'p stack_st option \<Rightarrow> 'p ptr \<Rightarrow> 'p ptr \<times> 'p stack_st option" where
  "sk_delete_ptr sk p =
     (case sk of
        None \<Rightarrow> (None, None)
      | Some s \<Rightarrow>
          (case first_index (\<lambda>q. q = p) (take (stack_num s) (stack_data s)) 0 of
             None \<Rightarrow> (None, sk)
           | Some i \<Rightarrow> sk_delete sk i))"

function sk_bsearch :: "('a \<Rightarrow> 'a \<Rightarrow> int) \<Rightarrow> 'a list \<Rightarrow> 'a \<Rightarrow> nat \<Rightarrow> nat \<Rightarrow> nat option" where
  "sk_bsearch cmp data p lo hi =
     (if lo < hi then
        let mid = lo + (hi - lo - 1) div 2; r = cmp p (data ! mid)
        in if r > 0 then sk_bsearch cmp data p (mid + 1) hi
           else if r < 0 then sk_bsearch cmp data p lo mid
           else if hi - lo = 1 then Some mid
           else sk_bsearch cmp data p lo (mid + 1)
      else None)"
  by pat_completeness auto

termination sk_bsearch
proof (relation "measure (\<lambda>(cmp, data, p, lo, hi). hi - lo)", goal_cases)
  case (4 cmp data p lo hi mid r)
  then have "(hi - lo - 1) div 2 + 1 < hi - lo" by linarith
  with 4 show ?case by simp
qed auto

declare sk_bsearch.simps [simp del]

definition sk_is_sorted :: "'p stack_st option \<Rightarrow> bool" where
  "sk_is_sorted sk = (case sk of None \<Rightarrow> True | Some s \<Rightarrow> stack_sorted s)"

definition sk_find :: "'p stack_st option \<Rightarrow> 'p ptr \<Rightarrow> nat option" where
  "sk_find sk p =
     (case sk of
        None \<Rightarrow> None
      | Some s \<Rightarrow>
          (case stack_comp s of
             None \<Rightarrow> first_index (\<lambda>q. q = p) (take (stack_num s) (stack_data s)) 0
           | Some cmp \<Rightarrow>
               if p = None then None
               else if \<not> sk_is_sorted sk then
                 first_index (\<lambda>elem. cmp p elem = 0) (take (stack_num s) (stack_data s)) 0
               else sk_bsearch cmp (stack_data s) p 0 (stack_num s)))"

definition sk_shift :: "'p stack_st option \<Rightarrow> 'p ptr \<times> 'p stack_st option" where
  "sk_shift sk =
     (case sk of None \<Rightarrow> (None, None)
      | Some s \<Rightarrow> if stack_num s = 0 then (None, sk) else sk_delete sk 0)"

definition sk_push :: "'p ptr ptr_malloc \<Rightarrow> 'p stack_st option \<Rightarrow> 'p ptr \<Rightarrow> nat \<times> 'p stack_st option" where
  "sk_push pm sk p = sk_insert pm sk p (sk_num sk)"

definition sk_pop :: "'p stack_st option \<Rightarrow> 'p ptr \<times> 'p stack_st option" where
  "sk_pop sk =
     (case sk of None \<Rightarrow> (None, None)
      | Some s \<Rightarrow> if stack_num s = 0 then (None, sk) else sk_delete sk (stack_num s - 1))"

definition sk_dup :: "allocator \<Rightarrow> 'p ptr ptr_malloc \<Rightarrow> 'p stack_st option \<Rightarrow> 'p stack_st option" where
  "sk_dup ml pm sk =
     (case sk of
        None \<Rightarrow> None
      | Some s \<Rightarrow>
          (case sk_new ml pm (stack_comp s) of
             None \<Rightarrow> None
           | Some ret \<Rightarrow>
               (case ptr_realloc pm (stack_data ret) (stack_num_alloc s) of
                  None \<Rightarrow> None
                | Some data \<Rightarrow>
                    Some \<lparr>stack_num = stack_num s,
                          stack_data = mem_write data 0 (take (stack_num s) (stack_data s)),
                          stack_sorted = stack_sorted s, stack_num_alloc = stack_num_alloc s,
                          stack_comp = stack_comp s\<rparr>)))"

type_synonym 'p qsort = "'p cmp_func \<Rightarrow> 'p ptr list \<Rightarrow> 'p ptr list"

definition sk_sort :: "'p qsort \<Rightarrow> 'p stack_st option \<Rightarrow> 'p stack_st option" where
  "sk_sort qs sk =
     (case sk of
        None \<Rightarrow> None
      | Some s \<Rightarrow>
          (case stack_comp s of
             None \<Rightarrow> sk
           | Some cmp \<Rightarrow>
               if stack_sorted s then sk
               else
                 let data = (if stack_num s \<ge> 2 then
                               mem_write (stack_data s) 0 (qs cmp (take (stack_num s) (stack_data s)))
                             else stack_data s)
                 in Some (s\<lparr>stack_data := data, stack_sorted := True\<rparr>)))"

text \<open>\<open>same\<close> is the comparison \<open>sk->comp == comp\<close> of the function pointers.\<close>

definition sk_set_cmp_func ::
    "'p stack_st \<Rightarrow> 'p cmp_func option \<Rightarrow> bool \<Rightarrow> 'p cmp_func option \<times> 'p stack_st"
where
  "sk_set_cmp_func s cmp same =
     (stack_comp s,
      s\<lparr>stack_sorted := (if same then stack_sorted s else False), stack_comp := cmp\<rparr>)"

text \<open>
  The copying loop of \<open>sk_deep_copy\<close>; the second result are the copies freed after a
  failed copy.
\<close>

fun deep_copy_cells :: "('p \<Rightarrow> 'p ptr) \<Rightarrow> 'p ptr list \<Rightarrow> 'p ptr list \<Rightarrow> 'p ptr list option \<times> 'p list" where
  "deep_copy_cells copy copied [] = (Some copied, [])"
| "deep_copy_cells copy copied (None # cells) = deep_copy_cells copy (copied @ [None]) cells"
| "deep_copy_cells copy copied (Some p # cells) =
     (case copy p of
        None \<Rightarrow> (None, List.map_filter (\<lambda>x. x) copied)
      | Some q \<Rightarrow> deep_copy_cells copy (copied @ [Some q]) cells)"

definition sk_deep_copy ::
    "allocator \<Rightarrow> 'p ptr ptr_malloc \<Rightarrow> ('p \<Rightarrow> 'p ptr) \<Rightarrow> 'p stack_st option \<Rightarrow> 'p stack_st option \<times> 'p list"
where
  "sk_deep_copy ml pm copy sk =
     (case sk_dup ml pm sk of
        None \<Rightarrow> (None, [])
      | Some ret \<Rightarrow>
          (case deep_copy_cells copy [] (take (stack_num ret) (stack_data ret)) of
             (None, freed) \<Rightarrow> (None, freed)
           | (Some cells, freed) \<Rightarrow>
               (Some (ret\<lparr>stack_data := mem_write (stack_data ret) 0 cells\<rparr>), freed)))"

text \<open>The pointers that \<open>sk_pop_free_ex\<close> passes to the free function.\<close>

definition sk_pop_free_ex :: "'p stack_st option \<Rightarrow> 'p list" where
  "sk_pop_free_ex sk =
     (case sk of None \<Rightarrow> []
      | Some s \<Rightarrow> List.map_filter (\<lambda>x. x) (take (stack_num s) (stack_data s)))"

section \<open>Comparison functions\<close>

text \<open>
  What \<open>qsort\<close> and the binary search need of a comparison function: its sign is
  antisymmetric and \<open>\<le>\<close> is transitive.
\<close>

lemma find_append:
  "find P (xs @ ys) = (case find P xs of None \<Rightarrow> find P ys | Some x \<Rightarrow> Some x)"
  by (induction xs) simp_all

lemma find_upt_drop:
  assumes "lo \<le> m" and "m \<le> hi" and "\<forall>i. lo \<le> i \<and> i < m \<longrightarrow> \<not> P i"
  shows "find P [lo..<hi] = find P [m..<hi]"
proof -
  have "[lo..<hi] = [lo..<m] @ [m..<hi]"
    using assms(1,2) upt_add_eq_append [of lo m "hi - m"] by simp
  moreover have "find P [lo..<m] = None" using assms(3) by (simp add: find_None_iff)
  ultimately show ?thesis by (simp add: find_append)
qed

lemma find_upt_take:
  assumes "lo \<le> m" and "m \<le> hi" and "\<forall>i. m \<le> i \<and> i < hi \<longrightarrow> \<not> P i"
  shows "find P [lo..<hi] = find P [lo..<m]"
proof -
  have "[lo..<hi] = [lo..<m] @ [m..<hi]"
    using assms(1,2) upt_add_eq_append [of lo m "hi - m"] by simp
  moreover have "find P [m..<hi] = None" using assms(3) by (simp add: find_None_iff)
  ultimately show ?thesis by (simp add: find_append split: option.splits)
qed

lemma find_upt_hit:
  assumes "lo \<le> m" and "m < hi" and "P m"
  shows "find P [lo..<hi] = find P [lo..<Suc m]"
proof -
  have "[lo..<hi] = [lo..<Suc m] @ [Suc m..<hi]"
    using assms(1,2) upt_add_eq_append [of lo "Suc m" "hi - Suc m"] by simp
  moreover have "find P [lo..<Suc m] \<noteq> None" using assms by (auto simp: find_None_iff)
  ultimately show ?thesis by (auto simp: find_append)
qed

lemma sk_bsearch_take: "hi \<le> n \<Longrightarrow> sk_bsearch c (take n xs) p lo hi = sk_bsearch c xs p lo hi"
proof (induction c xs p lo hi rule: sk_bsearch.induct)
  case (1 c xs p lo hi)
  show ?case
  proof (cases "lo < hi")
    case True
    define mid where "mid = lo + (hi - lo - 1) div 2"
    have mid: "mid < hi" using True by (simp add: mid_def)
    then have "take n xs ! mid = xs ! mid" using 1(4) by simp
    then show ?thesis
      using 1(1-3) [OF True mid_def refl] 1(4) mid
      by (subst (1 2) sk_bsearch.simps) (simp only: Let_def mid_def [symmetric] split: if_split, simp)
  next
    case False
    then show ?thesis by (simp add: sk_bsearch.simps)
  qed
qed

locale cmp_order =
  fixes c :: "'a \<Rightarrow> 'a \<Rightarrow> int"
  assumes flip: "c x y < 0 \<longleftrightarrow> 0 < c y x"
    and trans: "c x y \<le> 0 \<Longrightarrow> c y z \<le> 0 \<Longrightarrow> c x z \<le> 0"
begin

lemma flip_le: "c x y \<le> 0 \<longleftrightarrow> 0 \<le> c y x"
  using flip [of y x] by linarith

lemma refl_0: "c x x = 0"
  using flip [of x x] by linarith

lemma above:
  assumes "sorted_wrt (\<lambda>a b. c a b \<le> 0) xs" and "c p (xs ! i) < 0" and "i \<le> j" and "j < length xs"
  shows "c p (xs ! j) < 0"
proof (cases "i = j")
  case True
  then show ?thesis using assms(2) by simp
next
  case False
  then have "c (xs ! i) (xs ! j) \<le> 0" using assms(1,3,4) by (simp add: sorted_wrt_iff_nth_less)
  moreover have "c (xs ! j) p > 0" if "\<not> c p (xs ! j) < 0"
    using that trans [OF calculation, of p] flip_le [of p "xs ! j"] assms(2) flip [of p "xs ! i"] by linarith
  ultimately show ?thesis using flip [of p "xs ! j"] by linarith
qed

lemma below:
  assumes "sorted_wrt (\<lambda>a b. c a b \<le> 0) xs" and "0 < c p (xs ! j)" and "i \<le> j" and "j < length xs"
  shows "0 < c p (xs ! i)"
proof (cases "i = j")
  case True
  then show ?thesis using assms(2) by simp
next
  case False
  then have "c (xs ! i) (xs ! j) \<le> 0" using assms(1,3,4) by (simp add: sorted_wrt_iff_nth_less)
  then show ?thesis
    using trans [of p "xs ! i" "xs ! j"] assms(2) by linarith
qed

lemma bsearch_find:
  assumes sorted: "sorted_wrt (\<lambda>a b. c a b \<le> 0) xs" and "hi \<le> length xs"
  shows "sk_bsearch c xs p lo hi = find (\<lambda>i. c p (xs ! i) = 0) [lo..<hi]"
  using assms(2)
proof (induction "hi - lo" arbitrary: lo hi rule: less_induct)
  case less
  show ?case
  proof (cases "lo < hi")
    case False
    then show ?thesis by (simp add: sk_bsearch.simps)
  next
    case True
    define mid where "mid = lo + (hi - lo - 1) div 2"
    have mid: "lo \<le> mid" "mid < hi" using True by (simp_all add: mid_def)
    have unf: "sk_bsearch c xs p lo hi =
        (if c p (xs ! mid) > 0 then sk_bsearch c xs p (mid + 1) hi
         else if c p (xs ! mid) < 0 then sk_bsearch c xs p lo mid
         else if hi - lo = 1 then Some mid else sk_bsearch c xs p lo (mid + 1))"
      by (subst sk_bsearch.simps) (simp only: Let_def mid_def [symmetric] True if_True)
    consider (gt) "c p (xs ! mid) > 0" | (lt) "c p (xs ! mid) < 0"
      | (one) "c p (xs ! mid) = 0" "hi - lo = 1" | (eq) "c p (xs ! mid) = 0" "hi - lo \<noteq> 1"
      by linarith
    then show ?thesis
    proof cases
      case gt
      have "c p (xs ! i) \<noteq> 0" if "lo \<le> i \<and> i < mid + 1" for i
        using below [OF sorted gt, of i] mid less.prems that by simp
      then show ?thesis
        using gt mid less.hyps [of hi "mid + 1"] less.prems
          find_upt_drop [of lo "mid + 1" hi "\<lambda>i. c p (xs ! i) = 0"] by (simp add: unf)
    next
      case lt
      have "c p (xs ! i) \<noteq> 0" if "mid \<le> i \<and> i < hi" for i
        using above [OF sorted lt, of i] less.prems that by simp
      then show ?thesis
        using lt mid less.hyps [of mid lo] less.prems
          find_upt_take [of lo mid hi "\<lambda>i. c p (xs ! i) = 0"] by (simp add: unf)
    next
      case one
      then have "mid = lo" "hi = Suc lo" using mid by simp_all
      then show ?thesis using one unf by simp
    next
      case eq
      then have "mid + 1 < hi" using True by (simp add: mid_def)
      moreover have "find (\<lambda>i. c p (xs ! i) = 0) [lo..<hi] = find (\<lambda>i. c p (xs ! i) = 0) [lo..<mid + 1]"
        using find_upt_hit [of lo mid hi "\<lambda>i. c p (xs ! i) = 0"] eq(1) mid by simp
      ultimately show ?thesis
        using eq mid less.hyps [of "mid + 1" lo] less.prems by (simp add: unf)
    qed
  qed
qed

end

section \<open>The stack as a list\<close>

definition stack_ok :: "'p stack_st \<Rightarrow> bool" where
  "stack_ok s \<longleftrightarrow>
     length (stack_data s) = stack_num_alloc s \<and> stack_num s \<le> stack_num_alloc s \<and>
     0 < stack_num_alloc s \<and> 8 * stack_num_alloc s + 8 \<le> ptrdiff_max"

definition stack_elems :: "'p stack_st \<Rightarrow> 'p ptr list" where
  "stack_elems s = take (stack_num s) (stack_data s)"

text \<open>What \<open>sorted\<close> promises: the elements are ascending for \<open>cmp\<close>.\<close>

definition stack_sorted_ok :: "'p stack_st \<Rightarrow> bool" where
  "stack_sorted_ok s \<longleftrightarrow>
     (stack_sorted s \<longrightarrow>
        (case stack_comp s of None \<Rightarrow> True
         | Some cmp \<Rightarrow> sorted_wrt (\<lambda>a b. cmp a b \<le> 0) (stack_elems s)))"

lemma length_stack_elems [simp]: "stack_ok s \<Longrightarrow> length (stack_elems s) = stack_num s"
  by (simp add: stack_ok_def stack_elems_def)

lemma first_index_find: "first_index P xs i = map_option (\<lambda>j. i + j) (find (\<lambda>j. P (xs ! j)) [0..<length xs])"
proof (induction P xs i rule: first_index.induct)
  case (1 P i)
  then show ?case by simp
next
  case (2 P x xs i)
  have "[0..<length (x # xs)] = 0 # map Suc [0..<length xs]"
    by (simp add: map_Suc_upt upt_conv_Cons del: upt_Suc)
  moreover have "find Q (map Suc js) = map_option Suc (find (\<lambda>j. Q (Suc j)) js)" for Q js
    by (induction js) simp_all
  ultimately show ?case using 2 by (simp add: option.map_comp o_def)
qed

lemma first_index_0: "first_index P xs 0 = find (\<lambda>j. P (xs ! j)) [0..<length xs]"
  by (simp add: first_index_find option.map_id [unfolded id_def])

lemma first_index_Some:
  "first_index P xs 0 = Some i \<longleftrightarrow> i < length xs \<and> P (xs ! i) \<and> (\<forall>j<i. \<not> P (xs ! j))"
  by (auto simp: first_index_0 find_Some_iff)

lemma first_index_None: "first_index P xs 0 = None \<longleftrightarrow> (\<forall>j<length xs. \<not> P (xs ! j))"
  by (auto simp: first_index_0 find_None_iff)

lemma sk_find_sorted:
  assumes "cmp_order cmp" and "stack_ok s" and "stack_sorted_ok s" and "stack_comp s = Some cmp"
  shows "sk_find (Some s) (Some p) = first_index (\<lambda>elem. cmp (Some p) elem = 0) (stack_elems s) 0"
proof (cases "stack_sorted s")
  case True
  then have "sorted_wrt (\<lambda>a b. cmp a b \<le> 0) (stack_elems s)"
    using assms(3,4) by (simp add: stack_sorted_ok_def)
  then have "sk_bsearch cmp (stack_elems s) (Some p) 0 (stack_num s) =
      find (\<lambda>i. cmp (Some p) (stack_elems s ! i) = 0) [0..<stack_num s]"
    using cmp_order.bsearch_find [OF assms(1)] assms(2) by fastforce
  moreover have "sk_bsearch cmp (stack_elems s) (Some p) 0 (stack_num s) =
      sk_bsearch cmp (stack_data s) (Some p) 0 (stack_num s)"
    by (simp add: stack_elems_def sk_bsearch_take)
  ultimately show ?thesis
    using True assms(2,4) by (simp add: sk_find_def sk_is_sorted_def first_index_0)
next
  case False
  then show ?thesis using assms(4) by (simp add: sk_find_def sk_is_sorted_def stack_elems_def)
qed

section \<open>The operations on the list\<close>

lemma ptr_realloc_Some:
  assumes "ptr_realloc pm data n = Some m" and "ptr_malloc_ok pm" and "n + 1 < 2 ^ 61"
    and "length data \<le> n"
  shows "length m = n" and "take (length data) m = data" and "8 * n + 8 \<le> ptrdiff_max"
  using assms by (auto simp: ptr_realloc_def mem_write_def dest!: ptr_malloc_okD)

text \<open>
  After \<open>sk_grow\<close> there is a free cell, the elements are the old ones, and nothing else
  has changed.
\<close>

lemma sk_grow_Some:
  assumes "sk_grow pm s = Some s'" and "ptr_malloc_ok pm" and ok: "stack_ok s"
  shows "stack_ok s'" and "stack_num s < stack_num_alloc s'" and "stack_elems s' = stack_elems s"
    and "stack_num s' = stack_num s" and "stack_comp s' = stack_comp s" and "stack_sorted s' = stack_sorted s"
proof -
  have b: "8 * stack_num_alloc s + 8 \<le> ptrdiff_max" "stack_num s \<le> stack_num_alloc s"
    "length (stack_data s) = stack_num_alloc s" using ok by (simp_all add: stack_ok_def)
  have "stack_ok s' \<and> stack_num s < stack_num_alloc s' \<and> stack_elems s' = stack_elems s \<and>
    stack_num s' = stack_num s \<and> stack_comp s' = stack_comp s \<and> stack_sorted s' = stack_sorted s"
  proof (cases "stack_num_alloc s \<le> stack_num s + 1")
    case False
    then have "s' = s" using assms(1) b by (simp add: sk_grow_def)
    then show ?thesis using ok False by simp
  next
    case True
    define n where "n = stack_num_alloc s * 2"
    have n: "n + 1 < 2 ^ 61" "wrap64 n = n" "wrap64 (n * 8) = n * 8" "\<not> n < stack_num_alloc s"
      using b by (simp_all add: n_def)
    have "sk_grow pm s = map_option (\<lambda>data. s\<lparr>stack_data := data, stack_num_alloc := n\<rparr>)
        (ptr_realloc pm (stack_data s) n)"
      using True b n by (simp add: sk_grow_def Let_def n_def [symmetric] split: option.splits)
    then obtain m where m: "ptr_realloc pm (stack_data s) n = Some m"
      and s': "s' = s\<lparr>stack_data := m, stack_num_alloc := n\<rparr>"
      using assms(1) by (cases "ptr_realloc pm (stack_data s) n") auto
    have le: "length (stack_data s) \<le> n" using b by (simp add: n_def)
    note r = ptr_realloc_Some [OF m assms(2) n(1) le]
    have "take (stack_num s) m = take (stack_num s) (stack_data s)"
      using r(2) b by (metis min.absorb1 take_take)
    moreover have "stack_num s < n" using ok by (simp add: n_def stack_ok_def)
    ultimately show ?thesis
      using r b s' n(4) True by (auto simp: stack_ok_def stack_elems_def)
  qed
  then show "stack_ok s'" and "stack_num s < stack_num_alloc s'" and "stack_elems s' = stack_elems s"
    and "stack_num s' = stack_num s" and "stack_comp s' = stack_comp s" and "stack_sorted s' = stack_sorted s"
    by blast+
qed


lemma stack_elems_update:
  "stack_elems (s\<lparr>stack_data := data, stack_num := n, stack_sorted := b\<rparr>) = take n data"
  by (simp add: stack_elems_def)

lemma sk_insert_Some:
  assumes "sk_insert pm (Some s) p w = (n, sk')" and "ptr_malloc_ok pm" and ok: "stack_ok s"
  shows "n = 0 \<Longrightarrow> sk' = Some s \<and> sk_grow pm s = None"
    and "n \<noteq> 0 \<Longrightarrow> \<exists>s'. sk' = Some s' \<and> n = stack_num s + 1 \<and> stack_ok s' \<and> \<not> stack_sorted s' \<and>
      stack_comp s' = stack_comp s \<and>
      stack_elems s' = take w (stack_elems s) @ p # drop w (stack_elems s)"
proof -
  have "(n = 0 \<longrightarrow> sk' = Some s \<and> sk_grow pm s = None) \<and>
    (n \<noteq> 0 \<longrightarrow> (\<exists>s'. sk' = Some s' \<and> n = stack_num s + 1 \<and> stack_ok s' \<and> \<not> stack_sorted s' \<and>
      stack_comp s' = stack_comp s \<and>
      stack_elems s' = take w (stack_elems s) @ p # drop w (stack_elems s)))"
  proof (cases "sk_grow pm s")
    case None
    then show ?thesis using assms(1) by (simp add: sk_insert_def)
  next
    case (Some s1)
    note g = sk_grow_Some [OF Some assms(2) ok]
    define data where "data = (if w \<ge> stack_num s1 then (stack_data s1)[stack_num s1 := p]
      else (mem_write (stack_data s1) (w + 1)
             (take (stack_num s1 - w) (drop w (stack_data s1))))[w := p])"
    define k where "k = stack_num s"
    have r: "n = k + 1" "sk' = Some (s1\<lparr>stack_data := data, stack_num := k + 1, stack_sorted := False\<rparr>)"
      using assms(1) by (auto simp: sk_insert_def Let_def data_def k_def Some g(4))
    have k: "k < length (stack_data s1)" "stack_num s1 = k" "stack_elems s1 = take k (stack_data s1)"
      "length (stack_data s1) = stack_num_alloc s1"
      using g(1,2,4) by (simp_all add: k_def stack_ok_def stack_elems_def)
    have "length data = length (stack_data s1)" using k by (simp add: data_def)
    moreover have "take (k + 1) data = take w (stack_elems s1) @ p # drop w (stack_elems s1)"
    proof (cases "w < k")
      case False
      then show ?thesis using k by (simp add: data_def take_Suc_conv_app_nth)
    next
      case True
      define m where "m = stack_data s1"
      have "take (k + 1) (mem_write m (w + 1) (take (k - w) (drop w m))) =
          take w m @ m ! w # take (k - w) (drop w m)"
        using True k(1) by (simp add: mem_write_def m_def take_Suc_conv_app_nth Suc_diff_le)
      then have "take (k + 1) data = (take w m @ m ! w # take (k - w) (drop w m))[w := p]"
        using True k(2) by (simp add: data_def m_def take_update_swap)
      then show ?thesis
        using True k(1) by (simp add: list_update_append k(3) m_def take_drop min_def)
    qed
    ultimately have "stack_ok (s1\<lparr>stack_data := data, stack_num := k + 1, stack_sorted := False\<rparr>)"
      and "stack_elems (s1\<lparr>stack_data := data, stack_num := k + 1, stack_sorted := False\<rparr>) =
        take w (stack_elems s) @ p # drop w (stack_elems s)"
      using k g(1,3) by (simp_all add: stack_ok_def stack_elems_update)
    then show ?thesis using r g(5) by (simp add: k_def)
  qed
  then show "n = 0 \<Longrightarrow> sk' = Some s \<and> sk_grow pm s = None"
    and "n \<noteq> 0 \<Longrightarrow> \<exists>s'. sk' = Some s' \<and> n = stack_num s + 1 \<and> stack_ok s' \<and> \<not> stack_sorted s' \<and>
      stack_comp s' = stack_comp s \<and>
      stack_elems s' = take w (stack_elems s) @ p # drop w (stack_elems s)" by blast+
qed

lemma sk_delete_Some:
  assumes ok: "stack_ok s" and w: "w < stack_num s"
  shows "\<exists>s'. sk_delete (Some s) w = (stack_elems s ! w, Some s') \<and> stack_ok s' \<and>
    stack_elems s' = take w (stack_elems s) @ drop (w + 1) (stack_elems s) \<and>
    stack_sorted s' = stack_sorted s \<and> stack_comp s' = stack_comp s"
proof -
  define m where "m = stack_data s"
  define k where "k = stack_num s"
  define data where "data = (if w \<noteq> k - 1 then mem_write m w (take (k - w - 1) (drop (w + 1) m)) else m)"
  have k: "w < k" "k \<le> length m" "length m = stack_num_alloc s"
    using assms by (simp_all add: m_def k_def stack_ok_def)
  have "length data = length m" using k by (simp add: data_def)
  moreover have "take (k - 1) data = take w (take k m) @ drop (w + 1) (take k m)"
  proof (cases "w = k - 1")
    case True
    then show ?thesis using k by (simp add: data_def min_def)
  next
    case False
    then have "w < k - 1" using k by linarith
    then show ?thesis
      using k by (simp add: data_def mem_write_def min_def drop_take)
  qed
  moreover have "sk_delete (Some s) w = (m ! w, Some (s\<lparr>stack_data := data, stack_num := k - 1\<rparr>))"
    using w by (simp add: sk_delete_def Let_def data_def m_def k_def)
  ultimately show ?thesis
    using k assms by (auto simp: m_def [symmetric] k_def [symmetric] stack_ok_def stack_elems_def)
qed

lemma sorted_wrt_delete: "sorted_wrt P xs \<Longrightarrow> sorted_wrt P (take w xs @ drop (w + 1) xs)"
proof -
  assume s: "sorted_wrt P xs"
  have "\<forall>x\<in>set (take w xs). \<forall>y\<in>set (drop w xs). P x y"
    using s sorted_wrt_append [of P "take w xs" "drop w xs"] by simp
  moreover have "set (drop (w + 1) xs) \<subseteq> set (drop w xs)" by (rule set_drop_subset_set_drop) simp
  ultimately show ?thesis
    using sorted_wrt_take [OF s] sorted_wrt_drop [OF s] by (auto simp: sorted_wrt_append)
qed

text \<open>\<open>qsort\<close> sorts: its result is a permutation that ascends, for a usable comparison.\<close>

definition qsort_ok :: "'p qsort \<Rightarrow> bool" where
  "qsort_ok qs \<longleftrightarrow>
     (\<forall>cmp xs. cmp_order cmp \<longrightarrow>
        length (qs cmp xs) = length xs \<and> (\<forall>x. count_list (qs cmp xs) x = count_list xs x) \<and>
        sorted_wrt (\<lambda>a b. cmp a b \<le> 0) (qs cmp xs))"

lemma sk_sort_Some:
  assumes "qsort_ok qs" and ok: "stack_ok s" and cmp: "stack_comp s = Some cmp" "cmp_order cmp"
    and so: "stack_sorted_ok s"
  shows "\<exists>s'. sk_sort qs (Some s) = Some s' \<and> stack_ok s' \<and> stack_sorted s' \<and> stack_sorted_ok s' \<and>
    stack_comp s' = Some cmp \<and> (\<forall>x. count_list (stack_elems s') x = count_list (stack_elems s) x)"
proof (cases "stack_sorted s")
  case True
  then show ?thesis using assms by (simp add: sk_sort_def)
next
  case False
  define xs where "xs = stack_elems s"
  have q: "length (qs cmp xs) = length xs" "\<forall>x. count_list (qs cmp xs) x = count_list xs x"
    "sorted_wrt (\<lambda>a b. cmp a b \<le> 0) (qs cmp xs)"
    using assms(1) cmp(2) by (simp_all add: qsort_ok_def)
  define ys where "ys = (if stack_num s \<ge> 2 then qs cmp xs else xs)"
  have len: "length xs = stack_num s" using ok by (simp add: xs_def)
  have ys: "length ys = stack_num s" "\<forall>x. count_list ys x = count_list xs x"
    using q len by (simp_all add: ys_def)
  have "sorted_wrt (\<lambda>a b. cmp a b \<le> 0) ys"
  proof (cases "stack_num s \<ge> 2")
    case True
    then show ?thesis using q(3) by (simp add: ys_def)
  next
    case False
    then have "length ys \<le> 1" using ys by simp
    then show ?thesis by (cases ys) auto
  qed
  moreover have "sk_sort qs (Some s) = Some (s\<lparr>stack_data := mem_write (stack_data s) 0 ys, stack_sorted := True\<rparr>)"
  proof -
    have "mem_write (stack_data s) 0 xs = stack_data s"
      using ok by (simp add: xs_def stack_elems_def mem_write_def stack_ok_def min_def)
    then show ?thesis
      using False cmp(1) by (simp add: sk_sort_def Let_def ys_def xs_def stack_elems_def)
  qed
  ultimately show ?thesis
    using ok cmp(1) ys len
    by (auto simp: stack_ok_def stack_sorted_ok_def stack_elems_def mem_write_def xs_def)
qed

section \<open>The order of \<open>SET OF\<close> elements\<close>

text \<open>\<open>compare_set_of_element\<close> of \<open>cbb.c\<close> is a comparison function, and total on byte strings.\<close>

lemma mem_cmp_cases: "mem_cmp xs ys = 0 \<or> mem_cmp xs ys = 1 \<or> mem_cmp xs ys = - 1"
  by (induction xs ys rule: mem_cmp.induct) auto

lemma mem_cmp_flip: "mem_cmp ys xs = - mem_cmp xs ys"
  by (induction xs ys rule: mem_cmp.induct) auto

lemma mem_cmp_take:
  "mem_cmp (take (min (length xs) (length ys)) xs) (take (min (length xs) (length ys)) ys) = mem_cmp xs ys"
  by (induction xs ys rule: mem_cmp.induct) auto

lemma compare_set_of_element_eq:
  "compare_set_of_element a b =
     (if mem_cmp a b \<noteq> 0 then mem_cmp a b
      else if length a = length b then 0 else if length a < length b then - 1 else 1)"
proof -
  have "(if length a < length b then length a else length b) = min (length a) (length b)" by simp
  then show ?thesis
    by (simp only: compare_set_of_element_def CBS_len_def CBS_data_def Let_def mem_cmp_take)
qed

lemma compare_set_of_element_Nil:
  "compare_set_of_element [] ys = (if ys = [] then 0 else - 1)"
  "compare_set_of_element (x # xs) [] = 1"
  by (simp_all add: compare_set_of_element_eq)

lemma compare_set_of_element_Cons:
  "compare_set_of_element (x # xs) (y # ys) =
     (if x = y then compare_set_of_element xs ys else if x < y then - 1 else 1)"
  by (simp add: compare_set_of_element_eq)

lemma compare_set_of_element_0: "compare_set_of_element a b = 0 \<longleftrightarrow> a = b"
proof (induction a arbitrary: b)
  case Nil
  then show ?case by (cases b) (simp_all add: compare_set_of_element_Nil)
next
  case (Cons x a)
  then show ?case
    by (cases b) (simp_all add: compare_set_of_element_Nil compare_set_of_element_Cons)
qed

lemma compare_set_of_element_flip: "compare_set_of_element b a = - compare_set_of_element a b"
  using mem_cmp_flip [of b a] by (simp add: compare_set_of_element_eq)

lemma compare_set_of_element_trans:
  "compare_set_of_element a b \<le> 0 \<Longrightarrow> compare_set_of_element b c \<le> 0 \<Longrightarrow> compare_set_of_element a c \<le> 0"
proof (induction a arbitrary: b c)
  case Nil
  then show ?case by (simp add: compare_set_of_element_Nil)
next
  case (Cons x xs)
  obtain y ys where b: "b = y # ys" using Cons.prems(1) by (cases b) (simp_all add: compare_set_of_element_Nil)
  then obtain z zs where "c = z # zs" using Cons.prems(2) by (cases c) (simp_all add: compare_set_of_element_Nil)
  with b Cons show ?case
    by (auto simp: compare_set_of_element_Cons split: if_splits)
qed

interpretation set_of: cmp_order compare_set_of_element
proof unfold_locales
  show "compare_set_of_element x y < 0 \<longleftrightarrow> 0 < compare_set_of_element y x" for x y
    using compare_set_of_element_flip [of x y] by linarith
qed (rule compare_set_of_element_trans)

section \<open>Properties\<close>

text \<open>A comparison function and a sorted stack to apply the properties to.\<close>

definition nat_cmp :: "nat cmp_func" where
  "nat_cmp a b =
     (case a of
        None \<Rightarrow> (case b of None \<Rightarrow> 0 | Some _ \<Rightarrow> - 1)
      | Some x \<Rightarrow> (case b of None \<Rightarrow> 1 | Some y \<Rightarrow> int x - int y))"

lemma nat_cmp_order: "cmp_order nat_cmp"
  by unfold_locales (auto simp: nat_cmp_def split: option.splits)

definition example_stack :: "nat stack_st" where
  "example_stack = \<lparr>stack_num = 4, stack_data = [Some 1, Some 3, Some 3, Some 7, None, None, None, None],
     stack_sorted = True, stack_num_alloc = 8, stack_comp = Some nat_cmp\<rparr>"

lemma example_stack_ok: "stack_ok example_stack" "stack_sorted_ok example_stack"
  by (simp_all add: example_stack_def stack_ok_def stack_sorted_ok_def stack_elems_def nat_cmp_def)

text \<open>
  C5: \<open>sk_find\<close> returns the index of the first element that compares equal, and fails
  only if there is none, both by its linear search and, on a sorted stack, by its
  binary search.
\<close>

theorem sk_find_finds_first:
  assumes "cmp_order cmp" and "stack_ok s" and "stack_sorted_ok s" and "stack_comp s = Some cmp"
  shows "case sk_find (Some s) (Some p) of
      Some i \<Rightarrow> i < stack_num s \<and> cmp (Some p) (stack_elems s ! i) = 0 \<and>
        (\<forall>j<i. cmp (Some p) (stack_elems s ! j) \<noteq> 0)
    | None \<Rightarrow> (\<forall>j < stack_num s. cmp (Some p) (stack_elems s ! j) \<noteq> 0)"
  unfolding sk_find_sorted [OF assms]
  using first_index_Some [of "\<lambda>elem. cmp (Some p) elem = 0" "stack_elems s"]
    first_index_None [of "\<lambda>elem. cmp (Some p) elem = 0" "stack_elems s"] assms(2)
  by (auto split: option.splits)

theorem sk_find_finds_first_witness:
  "sk_find (Some example_stack) (Some 3) = Some 1 \<and>
   nat_cmp (Some 3) (stack_elems example_stack ! 1) = 0 \<and>
   nat_cmp (Some 3) (stack_elems example_stack ! 0) \<noteq> 0"
proof -
  have "sk_find (Some example_stack) (Some 3) = Some 1"
    by (simp add: sk_find_def example_stack_def sk_is_sorted_def sk_bsearch.simps nat_cmp_def Let_def)
  then show ?thesis
    using sk_find_finds_first [OF nat_cmp_order example_stack_ok, of 3]
    by (simp add: example_stack_def)
qed

text \<open>
  \<open>sk_insert\<close> puts the pointer at the given position, or at the end when the
  position is beyond it, keeps the order of the others, grows the array when it is full
  and clears the sorted flag; it fails only when the array cannot grow, and then leaves
  the stack as it is.
\<close>

theorem sk_insert_inserts:
  assumes "ptr_malloc_ok pm" and "stack_ok s" and "sk_insert pm (Some s) p w = (n, sk')"
  shows "case sk' of None \<Rightarrow> False
    | Some s' \<Rightarrow> stack_ok s' \<and>
        (if n = 0 then s' = s \<and> sk_grow pm s = None
         else n = stack_num s + 1 \<and> \<not> stack_sorted s' \<and> stack_comp s' = stack_comp s \<and>
           stack_elems s' = take w (stack_elems s) @ p # drop w (stack_elems s))"
  using sk_insert_Some [OF assms(3,1,2)] assms(2) by (cases "n = 0") auto

theorem sk_insert_inserts_witness:
  "case snd (sk_insert null_malloc (Some example_stack) (Some 2) 1) of None \<Rightarrow> False
    | Some s' \<Rightarrow> stack_ok s' \<and>
        (if fst (sk_insert null_malloc (Some example_stack) (Some 2) 1) = 0
         then s' = example_stack \<and> sk_grow null_malloc example_stack = None
         else fst (sk_insert null_malloc (Some example_stack) (Some 2) 1) = stack_num example_stack + 1 \<and>
           \<not> stack_sorted s' \<and> stack_comp s' = stack_comp example_stack \<and>
           stack_elems s' = take 1 (stack_elems example_stack) @ Some 2 # drop 1 (stack_elems example_stack))"
  by (rule sk_insert_inserts [OF null_malloc_ok example_stack_ok(1) surjective_pairing])

text \<open>
  \<open>sk_sort\<close> leaves the same elements, each as often as before, in ascending order,
  sets the sorted flag, and does nothing more on a stack that is sorted already.
\<close>

theorem sk_sort_sorts:
  assumes "qsort_ok qs" and "stack_ok s" and "stack_comp s = Some cmp" and "cmp_order cmp"
    and "stack_sorted_ok s"
  shows "case sk_sort qs (Some s) of None \<Rightarrow> False
    | Some s' \<Rightarrow> stack_ok s' \<and> stack_sorted s' \<and>
        sorted_wrt (\<lambda>a b. cmp a b \<le> 0) (stack_elems s') \<and>
        (\<forall>x. count_list (stack_elems s') x = count_list (stack_elems s) x) \<and>
        sk_sort qs (Some s') = Some s'"
  using sk_sort_Some [OF assms] by (auto simp: stack_sorted_ok_def sk_sort_def)

text \<open>Insertion sort is a \<open>qsort\<close>.\<close>

fun insert_cmp :: "'p cmp_func \<Rightarrow> 'p ptr \<Rightarrow> 'p ptr list \<Rightarrow> 'p ptr list" where
  "insert_cmp cmp x [] = [x]"
| "insert_cmp cmp x (y # ys) = (if cmp x y \<le> 0 then x # y # ys else y # insert_cmp cmp x ys)"

definition insertion_qsort :: "'p qsort" where
  "insertion_qsort cmp xs = foldr (insert_cmp cmp) xs []"

lemma insert_cmp_facts:
  "length (insert_cmp cmp x ys) = Suc (length ys)"
  "count_list (insert_cmp cmp x ys) z = count_list (x # ys) z"
  "set (insert_cmp cmp x ys) = insert x (set ys)"
  by (induction cmp x ys rule: insert_cmp.induct) auto

lemma insert_cmp_sorted:
  assumes "cmp_order cmp" and "sorted_wrt (\<lambda>a b. cmp a b \<le> 0) ys"
  shows "sorted_wrt (\<lambda>a b. cmp a b \<le> 0) (insert_cmp cmp x ys)"
  using assms(2)
proof (induction ys)
  case Nil
  then show ?case by simp
next
  case (Cons y ys)
  show ?case
  proof (cases "cmp x y \<le> 0")
    case True
    then show ?thesis using Cons.prems cmp_order.trans [OF assms(1) True] by auto
  next
    case False
    then have "cmp y x \<le> 0" using cmp_order.flip_le [OF assms(1), of y x] by linarith
    with False Cons show ?thesis by (auto simp: insert_cmp_facts)
  qed
qed

lemma insertion_qsort_ok: "qsort_ok (insertion_qsort :: 'p qsort)"
proof -
  have "length (insertion_qsort cmp xs) = length xs \<and>
      (\<forall>x. count_list (insertion_qsort cmp xs) x = count_list xs x) \<and>
      sorted_wrt (\<lambda>a b. cmp a b \<le> 0) (insertion_qsort cmp xs)" if "cmp_order cmp"
    for cmp :: "'p cmp_func" and xs
    by (induction xs) (simp_all add: insertion_qsort_def insert_cmp_facts insert_cmp_sorted [OF that])
  then show ?thesis unfolding qsort_ok_def by blast
qed

definition unsorted_stack :: "nat stack_st" where
  "unsorted_stack = example_stack\<lparr>stack_data := [Some 7, Some 3, Some 1, Some 3, None, None, None, None],
     stack_sorted := False\<rparr>"

theorem sk_sort_sorts_witness:
  "case sk_sort insertion_qsort (Some unsorted_stack) of None \<Rightarrow> False
    | Some s' \<Rightarrow> stack_ok s' \<and> stack_sorted s' \<and>
        sorted_wrt (\<lambda>a b. nat_cmp a b \<le> 0) (stack_elems s') \<and>
        (\<forall>x. count_list (stack_elems s') x = count_list (stack_elems unsorted_stack) x) \<and>
        sk_sort insertion_qsort (Some s') = Some s'"
  by (rule sk_sort_sorts [OF insertion_qsort_ok _ _ nat_cmp_order])
    (simp_all add: unsorted_stack_def example_stack_def stack_ok_def stack_sorted_ok_def)

text \<open>
  \<open>sk_set\<close> does not clear the sorted flag: when the stored pointer does not keep the order,
  the stack stays marked sorted with elements that do not ascend.  The
  binary search can then miss an element that is there.
\<close>

lemma sk_set_keeps_sorted_flag:
  assumes "stack_ok s" and "stack_sorted s" and "stack_comp s = Some cmp" and "i < stack_num s"
    and "\<not> sorted_wrt (\<lambda>a b. cmp a b \<le> 0) ((stack_elems s)[i := v])"
  shows "\<exists>s'. sk_set (Some s) i v = (v, Some s') \<and> stack_ok s' \<and> stack_sorted s' \<and> \<not> stack_sorted_ok s'"
  using assms by (auto simp: sk_set_def stack_ok_def stack_sorted_ok_def stack_elems_def take_update_swap)

lemma sk_set_then_find_misses:
  "case snd (sk_set (Some example_stack) 0 (Some 9)) of None \<Rightarrow> False
    | Some s' \<Rightarrow> stack_elems s' ! 0 = Some 9 \<and> sk_find (Some s') (Some 9) = None"
  by (simp add: sk_set_def example_stack_def stack_elems_def sk_find_def sk_is_sorted_def
      sk_bsearch.simps nat_cmp_def Let_def)

end
