(* ===== verification/Asn1_Sets.thy ===== *)
theory Asn1_Sets
  imports Cbb_Build Stack "HOL-Library.Multiset" "HOL-Library.List_Lexorder"
begin

text \<open>
  \<open>CBB_flush_asn1_set_of\<close> of \<open>crypto/bytestring/cbb.c\<close>: it closes the children of an object
  and brings the elements of its contents into the order that DER wants of a \<open>SET OF\<close>.
  \<open>qsort\<close> is a parameter.
\<close>

section \<open>The code\<close>

text \<open>The first loop counts the elements; it fails where the contents are not elements.\<close>

function set_of_count :: "nat \<Rightarrow> cbs \<Rightarrow> nat option" where
  "set_of_count num_children cbs =
     (if CBS_len cbs \<noteq> 0 then
        (case CBS_get_any_asn1_element cbs of
           (None, _) \<Rightarrow> None
         | (Some _, cbs) \<Rightarrow> set_of_count (num_children + 1) cbs)
      else Some num_children)"
  by pat_completeness auto

lemma CBS_get_any_asn1_element_shorter:
  "CBS_get_any_asn1_element cbs = (Some (out, tag, hl), rest) \<Longrightarrow> length rest < length cbs"
  using length_der_tag_bytes by (auto simp: CBS_get_any_asn1_element_iff der_element_def der_header_def)

termination set_of_count
  by (relation "measure (\<lambda>(n, cbs). length cbs)") (auto dest: CBS_get_any_asn1_element_shorter [OF sym])

declare set_of_count.simps [simp del]

text \<open>The second loop keeps them.\<close>

fun set_of_children :: "nat \<Rightarrow> cbs \<Rightarrow> cbs list option" where
  "set_of_children 0 cbs = Some []"
| "set_of_children (Suc n) cbs =
     (case CBS_get_any_asn1_element cbs of
        (None, _) \<Rightarrow> None
      | (Some (child, _, _), cbs) \<Rightarrow> map_option ((#) child) (set_of_children n cbs))"

type_synonym cbs_qsort = "(cbs \<Rightarrow> cbs \<Rightarrow> int) \<Rightarrow> cbs list \<Rightarrow> cbs list"

text \<open>No result stands for a failed assertion.  \<open>sizeof(CBS)\<close> is 16.\<close>

definition CBB_flush_asn1_set_of ::
    "allocator \<Rightarrow> cbs_qsort \<Rightarrow> nat \<Rightarrow> cbb_st \<Rightarrow> (unit option \<times> cbb_st) option"
where
  "CBB_flush_asn1_set_of ml qs d cbb =
     (case CBB_flush ml d cbb of
        (None, cbb) \<Rightarrow> Some (None, cbb)
      | (Some _, cbb) \<Rightarrow>
          (case (CBB_data d cbb, CBB_len d cbb) of
             (Some data, Some buf_len) \<Rightarrow>
               (case set_of_count 0 (CBS_init data buf_len) of
                  None \<Rightarrow> Some (None, cbb)
                | Some num_children \<Rightarrow>
                    if num_children < 2 then Some (Some (), cbb)
                    else if num_children > (2 ^ 64 - 1) div 16 then Some (None, cbb)
                    else
                      (case (OPENSSL_memdup ml (take buf_len data), OPENSSL_malloc ml (wrap64 (num_children * 16))) of
                         (Some buf, Some _) \<Rightarrow>
                           (case set_of_children num_children (CBS_init buf buf_len) of
                              None \<Rightarrow> Some (None, cbb)
                            | Some children \<Rightarrow>
                                let children = qs compare_set_of_element children;
                                    cbb = cbb\<lparr>cbb_base := map_option (cbb_len_update (\<lambda>_. cbb_content_start d cbb)) (cbb_base cbb)\<rparr>
                                in case op_each (CBB_add_bytes ml d) children cbb of
                                     (None, cbb) \<Rightarrow> Some (None, cbb)
                                   | (Some _, cbb) \<Rightarrow>
                                       if CBB_len d cbb = Some buf_len then Some (Some (), cbb) else None)
                       | _ \<Rightarrow> Some (None, cbb)))
           | _ \<Rightarrow> None))"

section \<open>The elements of a set\<close>

definition der_elements :: "cbs list \<Rightarrow> bool" where
  "der_elements els \<longleftrightarrow> list_all (\<lambda>el. \<exists>tag body. length body < 2 ^ 32 \<and> el = der_element tag body) els"

lemma set_of_count_eq:
  "set_of_count n cbs = Some k \<longleftrightarrow> (\<exists>els. der_elements els \<and> cbs = concat els \<and> k = n + length els)"
proof (induction n cbs arbitrary: k rule: set_of_count.induct)
  case (1 n cbs)
  show ?case
  proof (cases "cbs = []")
    case True
    have "der_elements els \<Longrightarrow> concat els = [] \<Longrightarrow> els = []" for els
      using length_der_tag_bytes by (cases els) (auto simp: der_elements_def der_element_def der_header_def)
    then show ?thesis using True by (auto simp: set_of_count.simps CBS_len_def der_elements_def intro: exI [of _ "[]"])
  next
    case False
    show ?thesis
    proof (cases "CBS_get_any_asn1_element cbs")
      case (Pair r rest)
      show ?thesis
      proof (cases r)
        case None
        have "\<not> (der_elements els \<and> cbs = concat els)" for els
        proof (cases els)
          case Nil
          then show ?thesis using False by simp
        next
          case (Cons el els')
          then show ?thesis
            using None Pair CBS_get_any_asn1_element_iff [of cbs el] by (fastforce simp: der_elements_def)
        qed
        then show ?thesis using None Pair False by (simp add: set_of_count.simps CBS_len_def) blast
      next
        case (Some p)
        then obtain out tag hl where p: "r = Some (out, tag, hl)" by (metis prod.exhaust)
        then obtain body where b: "length body < 2 ^ 32" "cbs = der_element tag body @ rest" "out = der_element tag body"
          using Pair CBS_get_any_asn1_element_iff by blast
        have IH: "set_of_count (n + 1) rest = Some k \<longleftrightarrow> (\<exists>els. der_elements els \<and> rest = concat els \<and> k = n + 1 + length els)"
          using 1 [of r rest] p Pair False by (auto simp: CBS_len_def)
        have "(\<exists>els. der_elements els \<and> rest = concat els \<and> k = n + 1 + length els) \<longleftrightarrow>
            (\<exists>els. der_elements els \<and> cbs = concat els \<and> k = n + length els)" (is "?l \<longleftrightarrow> ?r")
        proof
          assume ?l
          then obtain els where "der_elements els \<and> rest = concat els \<and> k = n + 1 + length els" by blast
          then show ?r using b by (intro exI [of _ "out # els"]) (auto simp: der_elements_def)
        next
          assume ?r
          then obtain els where els: "der_elements els" "cbs = concat els" "k = n + length els" by blast
          then obtain el els' where c: "els = el # els'" using False by (cases els) auto
          then obtain tag' body' where e: "length body' < 2 ^ 32" "el = der_element tag' body'"
            using els by (auto simp: der_elements_def)
          then have "CBS_get_any_asn1_element cbs = (Some (el, tag', length (der_header tag' (length body'))), concat els')"
            unfolding CBS_get_any_asn1_element_iff using els c by auto
          then have "rest = concat els'" using Pair by simp
          then show ?l using els c by (intro exI [of _ els']) (auto simp: der_elements_def)
        qed
        then show ?thesis using IH p Pair False by (simp add: set_of_count.simps [of n cbs] CBS_len_def)
      qed
    qed
  qed
qed

lemma set_of_children_eq:
  "der_elements els \<Longrightarrow> set_of_children (length els) (concat els) = Some els"
proof (induction els)
  case Nil
  then show ?case by simp
next
  case (Cons el els)
  then obtain tag body where e: "length body < 2 ^ 32" "el = der_element tag body" by (auto simp: der_elements_def)
  then have "CBS_get_any_asn1_element (el @ concat els) = (Some (el, tag, length (der_header tag (length body))), concat els)"
    unfolding CBS_get_any_asn1_element_iff by auto
  then show ?case using Cons by (simp add: der_elements_def)
qed

section \<open>The order\<close>

text \<open>The comparison of the code is the lexicographic order of byte strings.\<close>

lemma compare_set_of_element_le: "compare_set_of_element a b \<le> 0 \<longleftrightarrow> a \<le> b"
proof (induction a arbitrary: b)
  case Nil
  then show ?case by (simp add: compare_set_of_element_Nil)
next
  case (Cons x a)
  then show ?case
    by (cases b) (auto simp: compare_set_of_element_Nil compare_set_of_element_Cons)
qed

text \<open>What the code relies on of \<open>qsort\<close>: it sorts by a usable comparison.\<close>

definition qsort_sorts :: "cbs_qsort \<Rightarrow> bool" where
  "qsort_sorts qs \<longleftrightarrow>
     (\<forall>cmp xs. cmp_order cmp \<longrightarrow> mset (qs cmp xs) = mset xs \<and> sorted_wrt (\<lambda>a b. cmp a b \<le> 0) (qs cmp xs))"

lemma qsort_elements: "qsort_sorts qs \<Longrightarrow> qs compare_set_of_element els = sort els"
  unfolding qsort_sorts_def using set_of.cmp_order_axioms
  by (intro properties_for_sort [symmetric]) (auto simp: compare_set_of_element_le)

lemma length_concat_sort [simp]: "length (concat (sort els)) = length (concat els)"
proof -
  have "sum_list (map length xs) = sum_mset (image_mset length (mset xs))" for xs :: "'b list list"
    by (simp add: sum_mset_sum_list flip: mset_map)
  from this [of "sort els"] this [of els] show ?thesis by (simp add: length_concat)
qed

section \<open>Rewinding and writing\<close>

text \<open>The builder whose contents at depth \<open>d\<close> were dropped.\<close>

definition cbb_rewind :: "nat \<Rightarrow> cbb_st \<Rightarrow> cbb_st" where
  "cbb_rewind d cbb = cbb\<lparr>cbb_base := map_option (cbb_len_update (\<lambda>_. cbb_content_start d cbb)) (cbb_base cbb)\<rparr>"

lemma cbb_contents:
  assumes "cbb_ok cbb" and "cbb_stack_of cbb = Some (cur, ctx)" and "length (cbb_chain cbb) = d"
  shows "\<exists>data. CBB_data d cbb = Some data \<and> CBB_len d cbb = Some (length cur) \<and> take (length cur) data = cur"
    and "cbb_ok (cbb_rewind d cbb) \<and> cbb_stack_of (cbb_rewind d cbb) = Some ([], ctx)"
    and "cbb_has_room ml n (cbb_rewind d cbb) = cbb_has_room ml n cbb"
    and "cbb_has_room ml (stack_size (cur, ctx)) cbb"
    and "length cur \<le> ptrdiff_max"
proof -
  obtain b where b: "cbb_base cbb = Some b" "\<not> cbb_error b" "cbb_view (cbb_written b) (rev (cbb_chain cbb)) = (cur, ctx)"
    using assms(2) by (auto simp: cbb_stack_of_def split: option.splits if_splits)
  then have ok: "cbb_buffer_ok b" "chain_ok (cbb_len b) (rev (cbb_chain cbb))" using assms(1) by (simp_all add: cbb_ok_def)
  define st where "st = cbb_content_start d cbb"
  have v: "cur = drop st (cbb_written b) \<and> st \<le> cbb_len b \<and> chain_ok st (rev (cbb_chain cbb)) \<and>
      cbb_view (take st (cbb_buf b)) (rev (cbb_chain cbb)) = ([], ctx)"
  proof (cases "cbb_chain cbb" rule: rev_cases)
    case Nil
    then show ?thesis using b(3) assms(3) by (simp add: st_def cbb_content_start_def)
  next
    case (snoc cs c)
    then have "st = cbb_offset c + pending_len_len c"
      using assms(3) by (auto simp: st_def cbb_content_start_def nth_append)
    then show ?thesis using b(3) ok snoc
      by (auto simp: cbb_written_def min_def split: prod.splits)
  qed
  have len: "length cur = cbb_len b - st" using v length_cbb_written [OF ok(1)] by simp
  show "\<exists>data. CBB_data d cbb = Some data \<and> CBB_len d cbb = Some (length cur) \<and> take (length cur) data = cur"
    using v b(1) assms(3) len ok(1)
    by (simp add: CBB_data_def CBB_len_def st_def [symmetric] cbb_written_def drop_take)
  show "cbb_ok (cbb_rewind d cbb) \<and> cbb_stack_of (cbb_rewind d cbb) = Some ([], ctx)"
    using v b ok by (simp add: cbb_rewind_def cbb_ok_def cbb_stack_of_def st_def [symmetric] cbb_written_def cbb_buffer_ok_def)
  show "cbb_has_room ml n (cbb_rewind d cbb) = cbb_has_room ml n cbb"
    using b(1) by (simp add: cbb_rewind_def cbb_has_room_def cbb_room_def)
  have "stack_size (cur, ctx) = cbb_len b"
    using stack_size_view [of "cbb_written b" "rev (cbb_chain cbb)"] ok b(3) length_cbb_written [OF ok(1)] by simp
  then show "cbb_has_room ml (stack_size (cur, ctx)) cbb"
    using b(1) ok(1) by (simp add: cbb_has_room_def cbb_room_def cbb_buffer_ok_def)
  show "length cur \<le> ptrdiff_max" using len ok(1) unfolding cbb_buffer_ok_def by linarith
qed

lemma write_elements:
  assumes ml: "malloc_ok ml" and ok: "cbb_ok cbb" "cbb_stack_of cbb = Some ([], ctx)" "length ctx = d"
    and els: "els \<noteq> []" "length (concat els) \<le> ptrdiff_max"
    and room: "cbb_has_room ml (stack_size (concat els, ctx)) cbb"
    and run: "op_each (CBB_add_bytes ml d) els cbb = (r, cbb')"
  shows "r = Some () \<and> cbb_ok cbb' \<and> cbb_stack_of cbb' = Some (concat els, ctx) \<and> CBB_len d cbb' = Some (length (concat els))"
proof -
  have "length el \<le> ptrdiff_max" if "el \<in> set els" for el
    using els(2) that member_le_sum_list [of "length el" "map length els"] by (simp add: length_concat)
  then have "cbb_refines ml (op_each (CBB_add_bytes ml d) els) (stack_add d (concat (map (\<lambda>x. x) els)))"
    by (intro op_each_refines cbb_add_bytes_refines [OF ml] els(1)) simp
  from cbb_refinesD [OF this ok(1) run] have d: "cbb_does ml (stack_add d (concat els)) cbb r cbb'" by simp
  have a: "stack_add d (concat els) ([], ctx) = Some (concat els, ctx)"
    using ok(3) by (simp add: stack_add_def stack_append_def)
  have ne: "r \<noteq> None"
  proof
    assume "r = None"
    then show False using d a ok(2) room unfolding cbb_does_def by auto
  qed
  then have "r = Some ()" by (cases r) auto
  then have r: "r = Some ()" "cbb_ok cbb'" "cbb_stack_of cbb' = Some (concat els, ctx)"
    using d a ok(2) by (auto simp: cbb_does_def)
  then have "length (cbb_chain cbb') = d" using length_stack_of [OF r(3)] ok(3) by simp
  with cbb_contents(1) [OF r(2,3) this] r show ?thesis by blast
qed

lemma der_elements_length: "der_elements els \<Longrightarrow> length els \<le> length (concat els)"
proof (induction els)
  case Nil
  then show ?case by simp
next
  case (Cons el els)
  then obtain tag body where "el = der_element tag body" by (auto simp: der_elements_def)
  then have "0 < length el" using length_der_tag_bytes [of tag] by (simp add: der_element_def der_header_def)
  then have "1 \<le> length el" by linarith
  moreover have "length els \<le> length (concat els)" using Cons by (simp add: der_elements_def)
  ultimately have "1 + length els \<le> length el + length (concat els)" by (rule add_mono)
  then show ?case by simp
qed

text \<open>The part after the flush, on contents that are elements.\<close>

lemma set_of_flushed:
  assumes ml: "malloc_ok ml" and qs: "qsort_sorts qs" and ok: "cbb_ok cbb" "cbb_stack_of cbb = Some (concat els, ctx)"
    and flush: "CBB_flush ml d cbb0 = (Some u, cbb)" "length (cbb_chain cbb) = d" and els: "der_elements els"
  shows "\<exists>r cbb'. CBB_flush_asn1_set_of ml qs d cbb0 = Some (r, cbb') \<and> cbb_ok cbb' \<and>
    (r = Some () \<longrightarrow> cbb_stack_of cbb' = Some (concat (sort els), ctx)) \<and>
    (malloc_total ml \<and> length (concat els) \<le> 2 ^ 58 \<longrightarrow> r = Some ())"
proof -
  let ?cur = "concat els" and ?n = "length els"
  note c = cbb_contents [OF ok flush(2)]
  obtain data where data: "CBB_data d cbb = Some data" "CBB_len d cbb = Some (length ?cur)" "take (length ?cur) data = ?cur"
    using c(1) by blast
  have count: "set_of_count 0 ?cur = Some ?n" using els by (auto simp: set_of_count_eq)
  define buf where "buf = OPENSSL_memdup ml ?cur"
  define arr where "arr = OPENSSL_malloc ml (wrap64 (?n * 16))"
  obtain r1 c1 where run: "op_each (CBB_add_bytes ml d) (sort els) (cbb_rewind d cbb) = (r1, c1)" by fastforce
  have eq: "CBB_flush_asn1_set_of ml qs d cbb0 =
      (if ?n < 2 then Some (Some (), cbb)
       else if ?n > (2 ^ 64 - 1) div 16 then Some (None, cbb)
       else case (buf, arr) of
           (Some m, Some _) \<Rightarrow>
             (case set_of_children ?n (CBS_init m (length ?cur)) of
                None \<Rightarrow> Some (None, cbb)
              | Some children \<Rightarrow>
                  (case op_each (CBB_add_bytes ml d) (qs compare_set_of_element children) (cbb_rewind d cbb) of
                     (None, cbb) \<Rightarrow> Some (None, cbb)
                   | (Some _, cbb) \<Rightarrow> if CBB_len d cbb = Some (length ?cur) then Some (Some (), cbb) else None))
         | _ \<Rightarrow> Some (None, cbb))"
    unfolding CBB_flush_asn1_set_of_def flush(1) buf_def arr_def cbb_rewind_def Let_def
    using data count by (simp add: CBS_init_def)
  have small: "\<not> ?n > (2 ^ 64 - 1) div 16 \<and> buf \<noteq> None \<and> arr \<noteq> None"
    if t: "malloc_total ml" "length ?cur \<le> 2 ^ 58" "\<not> ?n < 2"
  proof -
    have n: "?n \<le> length ?cur" by (rule der_elements_length [OF els])
    then have "wrap64 (?n * 16) = ?n * 16" using t(2) by (simp add: wrap64_def)
    moreover have "OPENSSL_malloc ml k \<noteq> None" if "k \<le> 2 ^ 62" for k
      using t(1) that by (auto simp: OPENSSL_malloc_def malloc_total_def wrap64_def split: option.splits)
    from this [of "length ?cur"] this [of "?n * 16"]
    have "OPENSSL_malloc ml (length ?cur) \<noteq> None" "OPENSSL_malloc ml (?n * 16) \<noteq> None" using t(2) n by simp_all
    moreover have "length ?cur \<noteq> 0" using n t(3) by linarith
    ultimately show ?thesis using n t(2,3)
      by (auto simp: buf_def arr_def OPENSSL_memdup_def simp del: length_0_conv concat_eq_Nil_conv)
  qed
  show ?thesis
  proof (cases "?n < 2")
    case True
    then have "sort els = els" by (cases els) auto
    then show ?thesis using True eq ok by auto
  next
    case False
    show ?thesis
    proof (cases "?n > (2 ^ 64 - 1) div 16 \<or> buf = None \<or> arr = None")
      case True
      then have "CBB_flush_asn1_set_of ml qs d cbb0 = Some (None, cbb)"
        using eq False by (auto split: option.splits)
      then show ?thesis using ok small False True by auto
    next
      case go: False
      then obtain m a where ma: "buf = Some m" "arr = Some a" by auto
      have "length ?cur + 8 < 2 ^ 64" using c(5) by simp
      from OPENSSL_memdup_Some [OF ml ma(1) [unfolded buf_def] this] have m: "m = ?cur" .
      have "length ctx = d" using length_stack_of [OF ok(2)] flush(2) by simp
      moreover have "sort els \<noteq> []" using False by (metis length_sort list.size(3) zero_less_numeral)
      moreover note write_elements [OF ml _ _ _ _ _ _ run]
      ultimately
      have w: "r1 = Some () \<and> cbb_ok c1 \<and> cbb_stack_of c1 = Some (concat (sort els), ctx) \<and> CBB_len d c1 = Some (length ?cur)"
        using c(2-5) by (auto simp: stack_size_def)
      have "CBB_flush_asn1_set_of ml qs d cbb0 = Some (Some (), c1)"
        using eq False go ma m w run set_of_children_eq [OF els] by (simp add: CBS_init_def qsort_elements [OF qs])
      then show ?thesis using w by auto
    qed
  qed
qed

section \<open>Property\<close>

text \<open>
  C14: \<open>CBB_flush_asn1_set_of\<close> closes the children of the object and, when it succeeds, has sorted
  the DER elements of its contents by their encodings; the rest of the stack is as a flush leaves
  it.  It fails only if a child does not fit its prefix, the contents are not DER elements or
  are longer than \<open>2 ^ 58\<close> bytes, or there is no room or memory; its assertions hold.
\<close>

theorem CBB_flush_asn1_set_of_sorts:
  assumes "malloc_ok ml" and "qsort_sorts qs" and "cbb_ok cbb" and "cbb_stack_of cbb = Some s"
  shows "\<exists>r cbb'. CBB_flush_asn1_set_of ml qs d cbb = Some (r, cbb') \<and> cbb_ok cbb' \<and>
    (case r of
       Some _ \<Rightarrow> \<exists>els ctx. stack_flush d s = Some (concat els, ctx) \<and> der_elements els \<and>
         cbb_stack_of cbb' = Some (concat (sort els), ctx)
     | None \<Rightarrow> \<forall>els ctx. stack_flush d s = Some (concat els, ctx) \<and> der_elements els \<and>
         cbb_has_room ml (stack_size (concat els, ctx)) cbb \<and> malloc_total ml \<longrightarrow> 2 ^ 58 < length (concat els))"
proof -
  obtain r1 c1 where fl: "CBB_flush ml d cbb = (r1, c1)" by fastforce
  note f = cbb_flush_does [OF fl assms(1,3)]
  show ?thesis
  proof (cases r1)
    case None
    then show ?thesis using fl f(1) assms(4) by (auto simp: CBB_flush_asn1_set_of_def cbb_does_def)
  next
    case (Some u)
    then obtain cur ctx where c1: "cbb_ok c1" "stack_flush d s = Some (cur, ctx)" "cbb_stack_of c1 = Some (cur, ctx)"
      "length (cbb_chain c1) = d"
      using f assms(4) by (auto simp: cbb_does_def)
    show ?thesis
    proof (cases "\<exists>els. der_elements els \<and> cur = concat els")
      case True
      then obtain els where els: "der_elements els" "cur = concat els" by blast
      obtain r cbb' where r: "CBB_flush_asn1_set_of ml qs d cbb = Some (r, cbb')" "cbb_ok cbb'"
        "r = Some () \<longrightarrow> cbb_stack_of cbb' = Some (concat (sort els), ctx)"
        "malloc_total ml \<and> length (concat els) \<le> 2 ^ 58 \<longrightarrow> r = Some ()"
        using set_of_flushed [OF assms(1,2) c1(1) c1(3) [unfolded els(2)] fl [unfolded Some] c1(4) els(1)] by blast
      show ?thesis using r c1(2) els by (cases r) (auto simp: not_le)
    next
      case False
      obtain data where data: "CBB_data d c1 = Some data" "CBB_len d c1 = Some (length cur)" "take (length cur) data = cur"
        using cbb_contents(1) [OF c1(1,3,4)] by blast
      have "set_of_count 0 cur = None" using False set_of_count_eq [of 0 cur] by (cases "set_of_count 0 cur") auto
      then have "CBB_flush_asn1_set_of ml qs d cbb = Some (None, c1)"
        using fl Some data by (simp add: CBB_flush_asn1_set_of_def CBS_init_def)
      then show ?thesis using c1 False by auto
    qed
  qed
qed

text \<open>A \<open>SET OF\<close> that holds the integers 2 and 1, still open, and \<open>qsort\<close> by insertion.\<close>

definition example_set :: cbb_st where
  "example_set = \<lparr>cbb_base = Some \<lparr>cbb_buf = [0x31, 0, 2, 1, 2, 2, 1, 1], cbb_len = 8, cbb_cap = 8,
     cbb_can_resize = False, cbb_error = False\<rparr>,
     cbb_chain = [\<lparr>cbb_offset = 1, pending_len_len = 1, pending_is_asn1 = True\<rparr>]\<rparr>"

fun insert_cbs :: "(cbs \<Rightarrow> cbs \<Rightarrow> int) \<Rightarrow> cbs \<Rightarrow> cbs list \<Rightarrow> cbs list" where
  "insert_cbs cmp x [] = [x]"
| "insert_cbs cmp x (y # ys) = (if cmp x y \<le> 0 then x # y # ys else y # insert_cbs cmp x ys)"

definition insertion_cbs :: cbs_qsort where
  "insertion_cbs cmp xs = foldr (insert_cbs cmp) xs []"

lemma mset_insert_cbs [simp]: "mset (insert_cbs cmp x ys) = add_mset x (mset ys)"
  by (induction ys) auto

lemma insertion_cbs_sorts: "qsort_sorts insertion_cbs"
proof -
  have "sorted_wrt (\<lambda>a b. cmp a b \<le> 0) (insert_cbs cmp x ys)"
    if cmp: "cmp_order cmp" and ys: "sorted_wrt (\<lambda>a b. cmp a b \<le> 0) ys" for cmp x ys
    using ys
  proof (induction ys)
    case Nil
    then show ?case by simp
  next
    case (Cons y ys)
    have set: "set (insert_cbs cmp x ys) = insert x (set ys)"
      by (metis mset_insert_cbs set_mset_add_mset_insert set_mset_mset)
    have "cmp y x \<le> 0" if "\<not> cmp x y \<le> 0" using that cmp_order.flip [OF cmp, of y x] by linarith
    then show ?case using Cons cmp_order.trans [OF cmp, of x y] by (auto simp: set)
  qed
  then have "mset (insertion_cbs cmp xs) = mset xs \<and> sorted_wrt (\<lambda>a b. cmp a b \<le> 0) (insertion_cbs cmp xs)"
    if "cmp_order cmp" for cmp xs
    using that by (induction xs) (simp_all add: insertion_cbs_def)
  then show ?thesis by (simp add: qsort_sorts_def)
qed

lemma der_elements_unique:
  assumes "der_elements xs" and "der_elements ys" and "concat xs = concat ys"
  shows "xs = ys"
proof -
  have c: "set_of_count 0 (concat zs) = Some (length zs)" if "der_elements zs" for zs
    using that by (auto simp: set_of_count_eq)
  have "Some (length xs) = Some (length ys)"
    unfolding c [OF assms(1), symmetric] c [OF assms(2), symmetric] assms(3) ..
  then have n: "length xs = length ys" by (rule option.inject [THEN iffD1])
  have "Some xs = set_of_children (length xs) (concat xs)" by (rule set_of_children_eq [OF assms(1), symmetric])
  also have "\<dots> = set_of_children (length ys) (concat ys)" by (simp only: n assms(3))
  also have "\<dots> = Some ys" by (rule set_of_children_eq [OF assms(2)])
  finally show ?thesis by (rule option.inject [THEN iffD1])
qed

lemma example_set_elements: "der_elements [[2, 1, 2], [2, 1, 1]]"
proof -
  have "der_element 2 [2] = [2, 1, 2]" "der_element 2 [1] = [2, 1, 1]" by code_simp+
  then have "\<exists>tag body. length body < 2 ^ 32 \<and> [2, 1, b] = der_element tag body" if "b = 1 \<or> b = 2" for b
    using that by (intro exI [of _ 2] exI [of _ "[b]"]) auto
  then show ?thesis by (simp add: der_elements_def)
qed

theorem CBB_flush_asn1_set_of_sorts_witness:
  "\<exists>cbb'. CBB_flush_asn1_set_of zero_malloc insertion_cbs 1 example_set = Some (Some (), cbb') \<and>
    cbb_stack_of cbb' = Some ([2, 1, 1, 2, 1, 2], [(Asn1, [0x31])])"
proof -
  let ?s = "([2, 1, 2, 2, 1, 1], [(Asn1, [0x31])]) :: cbb_stack"
  have ok: "cbb_ok example_set" "cbb_stack_of example_set = Some ?s"
    by (simp_all add: example_set_def cbb_ok_def cbb_buffer_ok_def cbb_stack_of_def cbb_written_def frame_of_def)
  have flush: "stack_flush 1 ?s = Some ?s" by simp
  have room: "cbb_has_room zero_malloc (stack_size ?s) example_set" "malloc_total zero_malloc"
    by (simp_all add: example_set_def cbb_has_room_def cbb_room_def stack_size_def frame_space_def malloc_total_def zero_malloc_def)
  have els: "els = [[2, 1, 2], [2, 1, 1]]" if "der_elements els" "concat els = [2, 1, 2, 2, 1, 1]" for els
    by (rule der_elements_unique [OF that(1) example_set_elements]) (simp add: that(2))
  obtain r cbb' where r: "CBB_flush_asn1_set_of zero_malloc insertion_cbs 1 example_set = Some (r, cbb')"
    "case r of
       Some _ \<Rightarrow> \<exists>els ctx. stack_flush 1 ?s = Some (concat els, ctx) \<and> der_elements els \<and>
         cbb_stack_of cbb' = Some (concat (sort els), ctx)
     | None \<Rightarrow> \<forall>els ctx. stack_flush 1 ?s = Some (concat els, ctx) \<and> der_elements els \<and>
         cbb_has_room zero_malloc (stack_size (concat els, ctx)) example_set \<and> malloc_total zero_malloc \<longrightarrow>
         2 ^ 58 < length (concat els)"
    using CBB_flush_asn1_set_of_sorts [OF zero_malloc_ok insertion_cbs_sorts ok, of 1] by blast
  have "r \<noteq> None"
  proof
    assume "r = None"
    then have "\<forall>els ctx. stack_flush 1 ?s = Some (concat els, ctx) \<and> der_elements els \<and>
         cbb_has_room zero_malloc (stack_size (concat els, ctx)) example_set \<and> malloc_total zero_malloc \<longrightarrow>
         2 ^ 58 < length (concat els)" using r(2) by simp
    from this [rule_format, of "[[2, 1, 2], [2, 1, 1]]" "[(Asn1, [0x31])]"] show False
      using flush room example_set_elements by simp
  qed
  moreover have "sort [[2, 1, 2], [2, 1, 1 :: u8]] = [[2, 1, 1], [2, 1, 2]]" by simp
  ultimately show ?thesis using r flush by (auto dest!: els)
qed

end
