(* ===== verification/Constant_Time.thy ===== *)
theory Constant_Time
  imports Prelude
begin

text \<open>
  The constant-time helpers of \<open>crypto/internal.h\<close>: masks of all ones or all zeros that
  are computed without a branch.  The type \<open>crypto_word_t\<close> has 64 bits, and
  \<open>value_barrier_w\<close>, which keeps the compiler from recognising the pattern, is the
  identity.  Each helper is proved equal to the conditional it stands for; the components
  that use the helpers rest on these equations, collected in \<open>ct_simps\<close>.
\<close>

type_synonym crypto_word = u64

named_theorems ct_simps \<open>constant-time helpers as conditionals\<close>

section \<open>The helpers\<close>

definition value_barrier_w :: "crypto_word \<Rightarrow> crypto_word" where
  "value_barrier_w a = a"

definition constant_time_msb_w :: "crypto_word \<Rightarrow> crypto_word" where
  "constant_time_msb_w a = 0 - drop_bit (8 * 8 - 1) a"

definition constant_time_lt_w :: "crypto_word \<Rightarrow> crypto_word \<Rightarrow> crypto_word" where
  "constant_time_lt_w a b = constant_time_msb_w (a XOR ((a XOR b) OR ((a - b) XOR a)))"

definition constant_time_lt_8 :: "crypto_word \<Rightarrow> crypto_word \<Rightarrow> u8" where
  "constant_time_lt_8 a b = ucast (constant_time_lt_w a b)"

definition constant_time_ge_w :: "crypto_word \<Rightarrow> crypto_word \<Rightarrow> crypto_word" where
  "constant_time_ge_w a b = NOT (constant_time_lt_w a b)"

definition constant_time_ge_8 :: "crypto_word \<Rightarrow> crypto_word \<Rightarrow> u8" where
  "constant_time_ge_8 a b = ucast (constant_time_ge_w a b)"

definition constant_time_is_zero_w :: "crypto_word \<Rightarrow> crypto_word" where
  "constant_time_is_zero_w a = constant_time_msb_w (NOT a AND (a - 1))"

definition constant_time_is_zero_8 :: "crypto_word \<Rightarrow> u8" where
  "constant_time_is_zero_8 a = ucast (constant_time_is_zero_w a)"

definition constant_time_eq_w :: "crypto_word \<Rightarrow> crypto_word \<Rightarrow> crypto_word" where
  "constant_time_eq_w a b = constant_time_is_zero_w (a XOR b)"

definition constant_time_eq_8 :: "crypto_word \<Rightarrow> crypto_word \<Rightarrow> u8" where
  "constant_time_eq_8 a b = ucast (constant_time_eq_w a b)"

definition constant_time_eq_int :: "32 word \<Rightarrow> 32 word \<Rightarrow> crypto_word" where
  "constant_time_eq_int a b = constant_time_eq_w (scast a) (scast b)"

definition constant_time_eq_int_8 :: "32 word \<Rightarrow> 32 word \<Rightarrow> u8" where
  "constant_time_eq_int_8 a b = constant_time_eq_8 (scast a) (scast b)"

definition constant_time_select_w :: "crypto_word \<Rightarrow> crypto_word \<Rightarrow> crypto_word \<Rightarrow> crypto_word" where
  "constant_time_select_w mask' a b =
     (value_barrier_w mask' AND a) OR (value_barrier_w (NOT mask') AND b)"

definition constant_time_select_8 :: "u8 \<Rightarrow> u8 \<Rightarrow> u8 \<Rightarrow> u8" where
  "constant_time_select_8 mask' a b =
     ucast (constant_time_select_w (ucast mask') (ucast a) (ucast b))"

definition constant_time_select_int :: "crypto_word \<Rightarrow> 32 word \<Rightarrow> 32 word \<Rightarrow> 32 word" where
  "constant_time_select_int mask' a b = ucast (constant_time_select_w mask' (scast a) (scast b))"

section \<open>What they compute\<close>

abbreviation ct_bool :: "bool \<Rightarrow> crypto_word" where
  "ct_bool p \<equiv> (if p then - 1 else 0)"

abbreviation ct_bool_8 :: "bool \<Rightarrow> u8" where
  "ct_bool_8 p \<equiv> (if p then 0xff else 0)"

lemma bit_63_iff: "bit (a :: u64) 63 \<longleftrightarrow> 2 ^ 63 \<le> unat a"
proof -
  have "bit a 63 \<longleftrightarrow> bit (unat a) 63" by (simp add: bit_unsigned_iff)
  also have "\<dots> \<longleftrightarrow> odd (unat a div 2 ^ 63)" by (rule bit_iff_odd)
  also have "\<dots> \<longleftrightarrow> 2 ^ 63 \<le> unat a"
  proof -
    have "unat a div 2 ^ 63 < 2" using unat_u64_less [of a] by (intro less_mult_imp_div_less) simp
    then have "unat a div 2 ^ 63 = 0 \<or> unat a div 2 ^ 63 = 1" by (simp only: less_2_cases_iff One_nat_def)
    then show ?thesis by auto
  qed
  finally show ?thesis .
qed

lemma msb_w [ct_simps]: "constant_time_msb_w a = ct_bool (2 ^ 63 \<le> unat a)"
proof -
  have u: "unat (drop_bit 63 a) = unat a div 2 ^ 63" by (rule unat_drop_bit)
  have "unat a div 2 ^ 63 = (if 2 ^ 63 \<le> unat a then 1 else 0)"
    using unat_u64_less [of a] by (auto simp: div_eq_0_iff le_div_geq)
  then have "drop_bit 63 a = (if 2 ^ 63 \<le> unat a then 1 else 0)"
    using u by (auto simp: word_unat_eq_iff)
  then show ?thesis by (simp add: constant_time_msb_w_def)
qed

lemma msb_w_bit: "constant_time_msb_w a = ct_bool (bit a 63)"
  by (simp add: msb_w bit_63_iff)

lemma unat_sub_u64: "unat (a - b :: u64) = (if b \<le> a then unat a - unat b else 2 ^ 64 + unat a - unat b)"
proof -
  have "2 ^ size a = (2 ^ 64 :: nat)" by (simp add: word_size)
  then show ?thesis
    unfolding unat_sub_if_size word_le_nat_alt by (simp only: add.commute [of "unat a"])
qed

lemma lt_w [ct_simps]: "constant_time_lt_w a b = ct_bool (a < b)"
proof -
  have "bit (a XOR ((a XOR b) OR ((a - b) XOR a))) 63 \<longleftrightarrow>
      (if bit a 63 \<longleftrightarrow> bit b 63 then bit (a - b) 63 else bit b 63)"
    by (auto simp: bit_simps)
  also have "\<dots> \<longleftrightarrow> a < b"
    unfolding bit_63_iff unat_sub_u64 word_less_nat_alt word_le_nat_alt
    using unat_u64_less [of a] unat_u64_less [of b] by (simp split: if_split) linarith
  finally show ?thesis by (simp add: constant_time_lt_w_def msb_w_bit)
qed

lemma ge_w [ct_simps]: "constant_time_ge_w a b = ct_bool (b \<le> a)"
  by (auto simp: constant_time_ge_w_def lt_w)

lemma is_zero_w [ct_simps]: "constant_time_is_zero_w a = ct_bool (a = 0)"
proof -
  have "bit (NOT a AND (a - 1)) 63 \<longleftrightarrow> \<not> bit a 63 \<and> bit (a - 1) 63"
    by (simp add: bit_simps)
  also have "\<dots> \<longleftrightarrow> a = 0"
    unfolding bit_63_iff unat_sub_u64
    using unat_u64_less [of a] by (auto simp: word_le_nat_alt word_unat_eq_iff)
  finally show ?thesis by (simp add: constant_time_is_zero_w_def msb_w_bit)
qed

lemma eq_w [ct_simps]: "constant_time_eq_w a b = ct_bool (a = b)"
proof -
  have "a XOR b = 0 \<longleftrightarrow> a = b"
  proof
    assume "a XOR b = 0"
    then have "(a XOR b) XOR b = 0 XOR b" by (rule arg_cong)
    then show "a = b" by (simp only: xor.assoc xor_self_eq xor.right_neutral xor.left_neutral)
  qed simp
  then show ?thesis by (simp add: constant_time_eq_w_def is_zero_w)
qed

lemma byte_mask: "(0xff :: 'a::len word) = mask 8"
  by (simp add: mask_eq_exp_minus_1)

lemma ucast_ones [simp]: "(ucast (- 1 :: u64) :: u8) = 0xff"
  unfolding byte_mask by (rule bit_word_eqI) (simp add: bit_simps)

lemma ucast_scast [simp]: "(ucast (scast (a :: 32 word) :: u64) :: 32 word) = a"
  by (rule bit_word_eqI) (simp add: bit_simps)

lemma scast_inject: "(scast (a :: 32 word) :: u64) = scast b \<longleftrightarrow> a = b"
  by (metis ucast_scast)

lemma eq_8 [ct_simps]: "constant_time_eq_8 a b = ct_bool_8 (a = b)"
  by (simp add: constant_time_eq_8_def eq_w)

lemma lt_8 [ct_simps]: "constant_time_lt_8 a b = ct_bool_8 (a < b)"
  by (simp add: constant_time_lt_8_def lt_w)

lemma ge_8 [ct_simps]: "constant_time_ge_8 a b = ct_bool_8 (b \<le> a)"
  by (simp add: constant_time_ge_8_def ge_w)

lemma is_zero_8 [ct_simps]: "constant_time_is_zero_8 a = ct_bool_8 (a = 0)"
  by (simp add: constant_time_is_zero_8_def is_zero_w)

lemma eq_int [ct_simps]: "constant_time_eq_int a b = ct_bool (a = b)"
  by (simp add: constant_time_eq_int_def eq_w scast_inject)

lemma eq_int_8 [ct_simps]: "constant_time_eq_int_8 a b = ct_bool_8 (a = b)"
  by (simp add: constant_time_eq_int_8_def eq_8 scast_inject)

lemma select_w [ct_simps]: "constant_time_select_w (ct_bool p) a b = (if p then a else b)"
  by (simp add: constant_time_select_w_def value_barrier_w_def)

lemma select_8 [ct_simps]: "constant_time_select_8 (ct_bool_8 p) a b = (if p then a else b)"
proof -
  have "(ucast ((0xff AND ucast a) OR (NOT 0xff AND ucast b) :: u64) :: u8) = a"
    unfolding byte_mask by (rule bit_word_eqI) (simp add: bit_simps)
  moreover have "(ucast (ucast b :: u64) :: u8) = b"
    by (rule bit_word_eqI) (simp add: bit_simps)
  ultimately show ?thesis
    by (simp add: constant_time_select_8_def constant_time_select_w_def value_barrier_w_def)
qed

lemma select_int [ct_simps]: "constant_time_select_int (ct_bool p) a b = (if p then a else b)"
  by (simp add: constant_time_select_int_def select_w)

text \<open>
  C15: the branch-free comparisons give a mask of all ones or all zeros that agrees with the
  comparison of unsigned numbers, for all pairs of words.
\<close>

theorem constant_time_comparisons:
  "constant_time_lt_w a b = (if a < b then - 1 else 0) \<and>
   constant_time_ge_w a b = (if a < b then 0 else - 1) \<and>
   constant_time_eq_w a b = (if a = b then - 1 else 0) \<and>
   constant_time_select_w (constant_time_lt_w a b) c d = (if a < b then c else d)"
  by (simp add: lt_w ge_w eq_w select_w not_less)

end
