(* ===== verification/Base64.thy ===== *)
theory Base64
  imports Constant_Time
begin

text \<open>
  The base64 codec of \<open>crypto/base64/base64.c\<close>: the branch-free alphabet, the block and
  the streaming encoder, the block and the streaming decoder.  Output buffers are memory
  blocks that the functions write into, so the theorems say that nothing else is written.
  The reference is \<open>b64_text\<close>: digits, and up to two padding characters that complete the
  last group of four.
\<close>

section \<open>The alphabet\<close>

definition constant_time_lt_args_8 :: "u8 \<Rightarrow> u8 \<Rightarrow> u8" where
  "constant_time_lt_args_8 a b = ucast (constant_time_msb_w (ucast a - ucast b))"

definition constant_time_in_range_8 :: "u8 \<Rightarrow> u8 \<Rightarrow> u8 \<Rightarrow> u8" where
  "constant_time_in_range_8 a min' max' = constant_time_lt_args_8 (a - min') (max' - min' + 1)"

text \<open>The characters are \<open>+\<close> 0x2b, \<open>/\<close> 0x2f, \<open>0\<close> 0x30, \<open>=\<close> 0x3d, \<open>A\<close> 0x41 and \<open>a\<close> 0x61.\<close>

definition conv_bin2ascii :: "u8 \<Rightarrow> u8" where
  "conv_bin2ascii a =
     (let a = a AND 0x3f;
          ret = constant_time_select_8 (constant_time_eq_8 (ucast a) 62) 0x2b 0x2f;
          ret = constant_time_select_8 (constant_time_lt_args_8 a 62) (a - 52 + 0x30) ret;
          ret = constant_time_select_8 (constant_time_lt_args_8 a 52) (a - 26 + 0x61) ret
      in constant_time_select_8 (constant_time_lt_args_8 a 26) (a + 0x41) ret)"

definition base64_ascii_to_bin :: "u8 \<Rightarrow> u8" where
  "base64_ascii_to_bin a =
     (let is_upper = constant_time_in_range_8 a 0x41 0x5a;
          is_lower = constant_time_in_range_8 a 0x61 0x7a;
          is_digit = constant_time_in_range_8 a 0x30 0x39;
          is_plus = constant_time_eq_8 (ucast a) 0x2b;
          is_slash = constant_time_eq_8 (ucast a) 0x2f;
          is_equals = constant_time_eq_8 (ucast a) 0x3d;
          ret = 0xff;
          ret = constant_time_select_8 is_upper (a - 0x41) ret;
          ret = constant_time_select_8 is_lower (a - 0x61 + 26) ret;
          ret = constant_time_select_8 is_digit (a - 0x30 + 52) ret;
          ret = constant_time_select_8 is_plus 62 ret;
          ret = constant_time_select_8 is_slash 63 ret
      in constant_time_select_8 is_equals 0 ret)"

section \<open>Encoding\<close>

definition EVP_EncodedLength :: "nat \<Rightarrow> nat option" where
  "EVP_EncodedLength len =
     (if wrap64 (len + 2) < len then None
      else
        let len = wrap64 (len + 2) div 3 in
        if wrap64 (4 * len) div 4 \<noteq> len then None
        else
          let len = wrap64 (4 * len) in
          if wrap64 (len + 1) < len then None else Some (wrap64 (len + 1)))"

text \<open>
  The block encoder writes to memory \<open>m\<close> from \<open>dst\<close> on; the result is the memory and the
  number of characters before the terminating zero.
\<close>

fun encode_block_loop :: "u8 list \<Rightarrow> nat \<Rightarrow> nat \<Rightarrow> u8 list \<Rightarrow> nat \<times> u8 list" where
  "encode_block_loop (a # b # c # src) dst ret m =
     (let l = push_bit 16 (ucast a) OR push_bit 8 (ucast b) OR ucast c :: u32
      in encode_block_loop src (dst + 4) (ret + 4)
           (mem_write m dst [conv_bin2ascii (ucast (drop_bit 18 l)), conv_bin2ascii (ucast (drop_bit 12 l)),
              conv_bin2ascii (ucast (drop_bit 6 l)), conv_bin2ascii (ucast l)]))"
| "encode_block_loop [a, b] dst ret m =
     (let l = push_bit 16 (ucast a) OR push_bit 8 (ucast b) :: u32
      in (ret + 4,
          mem_write m dst [conv_bin2ascii (ucast (drop_bit 18 l)), conv_bin2ascii (ucast (drop_bit 12 l)),
            conv_bin2ascii (ucast (drop_bit 6 l)), 0x3d, 0]))"
| "encode_block_loop [a] dst ret m =
     (let l = push_bit 16 (ucast a) :: u32
      in (ret + 4,
          mem_write m dst [conv_bin2ascii (ucast (drop_bit 18 l)), conv_bin2ascii (ucast (drop_bit 12 l)),
            0x3d, 0x3d, 0]))"
| "encode_block_loop [] dst ret m = (ret, mem_write m dst [0])"

definition EVP_EncodeBlock :: "nat \<Rightarrow> u8 list \<Rightarrow> u8 list \<Rightarrow> nat \<times> u8 list" where
  "EVP_EncodeBlock dst src m = encode_block_loop src dst 0 m"

record evp_encode_ctx =
  data_used :: nat
  ctx_data :: "u8 list"
  eof_seen :: bool
  error_encountered :: bool

definition EVP_EncodeInit :: evp_encode_ctx where
  "EVP_EncodeInit = \<lparr>data_used = 0, ctx_data = replicate 48 0, eof_seen = False, error_encountered = False\<rparr>"

abbreviation int_max :: nat where
  "int_max \<equiv> 2 ^ 31 - 1"

text \<open>
  The loop over whole lines.  \<open>written\<close> is the number of characters written and the position
  of \<open>out\<close>; the result is \<open>None\<close> when it wraps around.
\<close>

function encode_lines :: "u8 list \<Rightarrow> nat \<Rightarrow> u8 list \<Rightarrow> (u8 list \<times> nat) option \<times> u8 list" where
  "encode_lines inp written m =
     (if 48 \<le> length inp then
        (case EVP_EncodeBlock written (take 48 inp) m of
           (encoded, m) \<Rightarrow>
             let m = mem_write m (written + encoded) [0x0a, 0] in
             if wrap64 (written + encoded + 1) < written then (None, m)
             else encode_lines (drop 48 inp) (wrap64 (written + encoded + 1)) m)
      else (Some (inp, written), m))"
  by pat_completeness auto
termination by (relation "measure (\<lambda>(inp, written, m). length inp)") auto

declare encode_lines.simps [simp del]

text \<open>No result stands for the assertion that the context has room for a byte.\<close>

definition EVP_EncodeUpdate ::
    "evp_encode_ctx \<Rightarrow> u8 list \<Rightarrow> u8 list \<Rightarrow> (nat \<times> evp_encode_ctx \<times> u8 list) option"
where
  "EVP_EncodeUpdate ctx inp m =
     (if inp = [] then Some (0, ctx, m)
      else if \<not> data_used ctx < 48 then None
      else if 48 - data_used ctx > length inp then
        Some (0, ctx\<lparr>ctx_data := mem_write (ctx_data ctx) (data_used ctx) inp,
                     data_used := data_used ctx + length inp\<rparr>, m)
      else
        let (inp, written, ctx, m) =
          (if data_used ctx \<noteq> 0 then
             let todo = 48 - data_used ctx;
                 ctx = ctx\<lparr>ctx_data := mem_write (ctx_data ctx) (data_used ctx) (take todo inp)\<rparr>;
                 (encoded, m) = EVP_EncodeBlock 0 (ctx_data ctx) m
             in (drop todo inp, encoded + 1, ctx\<lparr>data_used := 0\<rparr>, mem_write m encoded [0x0a, 0])
           else (inp, 0, ctx, m))
        in Some (case encode_lines inp written m of
             (None, m) \<Rightarrow> (0, ctx, m)
           | (Some (inp, written), m) \<Rightarrow>
               (if written > int_max then 0 else written,
                ctx\<lparr>ctx_data := mem_write (ctx_data ctx) 0 inp, data_used := length inp\<rparr>, m)))"

definition EVP_EncodeFinal :: "evp_encode_ctx \<Rightarrow> u8 list \<Rightarrow> nat \<times> evp_encode_ctx \<times> u8 list" where
  "EVP_EncodeFinal ctx m =
     (if data_used ctx = 0 then (0, ctx, m)
      else
        (case EVP_EncodeBlock 0 (take (data_used ctx) (ctx_data ctx)) m of
           (encoded, m) \<Rightarrow>
             (encoded + 1, ctx\<lparr>data_used := 0\<rparr>, mem_write m encoded [0x0a, 0])))"

section \<open>Decoding\<close>

definition EVP_DecodedLength :: "nat \<Rightarrow> nat option" where
  "EVP_DecodedLength len = (if len mod 4 \<noteq> 0 then None else Some ((len div 4) * 3))"

definition EVP_DecodeInit :: evp_encode_ctx where
  "EVP_DecodeInit = \<lparr>data_used = 0, ctx_data = replicate 48 0, eof_seen = False, error_encountered = False\<rparr>"

definition base64_decode_quad :: "u8 list \<Rightarrow> u8 list option" where
  "base64_decode_quad inp =
     (let a = base64_ascii_to_bin (inp ! 0); b = base64_ascii_to_bin (inp ! 1);
          c = base64_ascii_to_bin (inp ! 2); d = base64_ascii_to_bin (inp ! 3)
      in if a = 0xff \<or> b = 0xff \<or> c = 0xff \<or> d = 0xff then None
         else
           let v = push_bit 18 (ucast a) OR push_bit 12 (ucast b) OR push_bit 6 (ucast c) OR ucast d :: u32;
               padding_pattern = push_bit 3 (of_bool (inp ! 0 = 0x3d)) OR push_bit 2 (of_bool (inp ! 1 = 0x3d)) OR
                 push_bit 1 (of_bool (inp ! 2 = 0x3d)) OR of_bool (inp ! 3 = 0x3d) :: u32
           in if padding_pattern = 0 then Some [ucast (drop_bit 16 v), ucast (drop_bit 8 v), ucast v]
              else if padding_pattern = 1 then Some [ucast (drop_bit 16 v), ucast (drop_bit 8 v)]
              else if padding_pattern = 3 then Some [ucast (drop_bit 16 v)]
              else None)"

text \<open>
  One call of \<open>EVP_DecodeUpdate\<close> reads the characters in turn; \<open>None\<close> is the return of -1.
\<close>

fun decode_update_loop ::
    "u8 list \<Rightarrow> nat \<Rightarrow> evp_encode_ctx \<Rightarrow> u8 list \<Rightarrow> nat option \<times> evp_encode_ctx \<times> u8 list"
where
  "decode_update_loop [] bytes_out ctx m = (Some bytes_out, ctx, m)"
| "decode_update_loop (c # inp) bytes_out ctx m =
     (if c = 0x20 \<or> c = 0x09 \<or> c = 0x0d \<or> c = 0x0a then decode_update_loop inp bytes_out ctx m
      else if eof_seen ctx then (None, ctx\<lparr>error_encountered := True\<rparr>, m)
      else
        let ctx = ctx\<lparr>ctx_data := (ctx_data ctx)[data_used ctx := c], data_used := data_used ctx + 1\<rparr>
        in if data_used ctx = 4 then
             (case base64_decode_quad (take 4 (ctx_data ctx)) of
                None \<Rightarrow> (None, ctx\<lparr>error_encountered := True\<rparr>, m)
              | Some bs \<Rightarrow>
                  decode_update_loop inp (bytes_out + length bs)
                    (ctx\<lparr>data_used := 0, eof_seen := eof_seen ctx \<or> length bs < 3\<rparr>)
                    (mem_write m bytes_out bs))
           else decode_update_loop inp bytes_out ctx m)"

text \<open>The result is the returned number, \<open>*out_len\<close>, the context and the memory.\<close>

definition EVP_DecodeUpdate ::
    "evp_encode_ctx \<Rightarrow> u8 list \<Rightarrow> u8 list \<Rightarrow> int \<times> nat \<times> evp_encode_ctx \<times> u8 list"
where
  "EVP_DecodeUpdate ctx inp m =
     (if error_encountered ctx then (- 1, 0, ctx, m)
      else
        (case decode_update_loop inp 0 ctx m of
           (None, ctx, m) \<Rightarrow> (- 1, 0, ctx, m)
         | (Some bytes_out, ctx, m) \<Rightarrow>
             if bytes_out > int_max then (- 1, 0, ctx\<lparr>error_encountered := True\<rparr>, m)
             else (if eof_seen ctx then 0 else 1, bytes_out, ctx, m)))"

definition EVP_DecodeFinal :: "evp_encode_ctx \<Rightarrow> int" where
  "EVP_DecodeFinal ctx = (if error_encountered ctx \<or> data_used ctx \<noteq> 0 then - 1 else 1)"

fun decode_quads :: "u8 list \<Rightarrow> nat \<Rightarrow> (u8 list, nat) op" where
  "decode_quads (a # b # c # d # inp) bytes_out m =
     (case base64_decode_quad [a, b, c, d] of
        None \<Rightarrow> (None, m)
      | Some bs \<Rightarrow>
          if length bs \<noteq> 3 \<and> inp \<noteq> [] then (None, mem_write m bytes_out bs)
          else decode_quads inp (bytes_out + length bs) (mem_write m bytes_out bs))"
| "decode_quads _ bytes_out m = (Some bytes_out, m)"

definition EVP_DecodeBase64 :: "nat \<Rightarrow> u8 list \<Rightarrow> (u8 list, nat) op" where
  "EVP_DecodeBase64 max_out inp m =
     (if length inp mod 4 \<noteq> 0 then (None, m)
      else
        (case EVP_DecodedLength (length inp) of
           None \<Rightarrow> (None, m)
         | Some max_len \<Rightarrow> if max_out < max_len then (None, m) else decode_quads inp 0 m))"

definition is_blank :: "u8 \<Rightarrow> bool" where
  "is_blank c \<longleftrightarrow> c = 0x20 \<or> c = 0x09"

definition is_space :: "u8 \<Rightarrow> bool" where
  "is_space c \<longleftrightarrow> c = 0x20 \<or> c = 0x09 \<or> c = 0x0d \<or> c = 0x0a"

text \<open>The result is \<open>None\<close> for a return of -1.\<close>

definition EVP_DecodeBlock :: "u8 list \<Rightarrow> (u8 list, nat) op" where
  "EVP_DecodeBlock src m =
     (let src = dropWhile is_blank src;
          src = rev (dropWhile is_space (rev src))
      in case EVP_DecodedLength (length src) of
           None \<Rightarrow> (None, m)
         | Some dst_len \<Rightarrow>
             if dst_len > int_max then (None, m)
             else
               (case EVP_DecodeBase64 dst_len src m of
                  (None, m) \<Rightarrow> (None, m)
                | (Some dst_len, m) \<Rightarrow>
                    let pad = (3 - dst_len mod 3) mod 3
                    in (Some (dst_len + pad), mem_write m dst_len (replicate pad 0))))"


section \<open>The alphabet as a table\<close>

lemma lt_args_8 [ct_simps]: "constant_time_lt_args_8 a b = ct_bool_8 (a < b)"
proof -
  have "bit (ucast a - ucast b :: u64) 63 \<longleftrightarrow> a < b"
    unfolding bit_63_iff unat_sub_u64 word_less_nat_alt word_le_nat_alt
    by (auto simp: not_le) (use unat_u8_less [of a] unat_u8_less [of b] in linarith)+
  then show ?thesis by (simp add: constant_time_lt_args_8_def msb_w_bit)
qed

lemma unat_sub_u8: "unat (a - b :: u8) = (if b \<le> a then unat a - unat b else 256 + unat a - unat b)"
proof -
  have "2 ^ size a = (256 :: nat)" by (simp add: word_size)
  then show ?thesis
    unfolding unat_sub_if_size word_le_nat_alt by (simp only: add.commute [of "unat a"])
qed

lemma in_range_8 [ct_simps]:
  assumes "unat min' \<le> unat max'" and "unat max' - unat min' < 255"
  shows "constant_time_in_range_8 a min' max' = ct_bool_8 (min' \<le> a \<and> a \<le> max')"
proof -
  have d: "unat (max' - min') = unat max' - unat min'"
    using assms by (simp add: unat_sub_u8 word_le_nat_alt)
  then have "unat (max' - min' + 1) = unat max' - unat min' + 1"
    using assms by (simp add: unat_plus_if_size word_size)
  then have "a - min' < max' - min' + 1 \<longleftrightarrow> min' \<le> a \<and> a \<le> max'"
    using assms
    by (auto simp: word_less_nat_alt word_le_nat_alt unat_sub_u8)
      (use unat_u8_less [of a] unat_u8_less [of max'] in linarith)+
  then show ?thesis by (simp add: constant_time_in_range_8_def lt_args_8)
qed

text \<open>The alphabet of RFC 4648.\<close>

definition b64_chars :: "u8 list" where
  "b64_chars = map of_char ''ABCDEFGHIJKLMNOPQRSTUVWXYZabcdefghijklmnopqrstuvwxyz0123456789+/''"

abbreviation b64_char :: "nat \<Rightarrow> u8" where
  "b64_char n \<equiv> b64_chars ! n"

abbreviation b64_pad :: u8 where
  "b64_pad \<equiv> 0x3d"

lemma length_b64_chars [simp]: "length b64_chars = 64"
  by (simp add: b64_chars_def)

lemma b64_chars_eq: "b64_chars = map of_nat ([65..<91] @ [97..<123] @ [48..<58] @ [43, 47])"
  by code_simp

lemma byte_in_image: "N \<subseteq> {..<256} \<Longrightarrow> (c :: u8) \<in> of_nat ` N \<longleftrightarrow> unat c \<in> N"
proof
  assume "N \<subseteq> {..<256}" and "c \<in> of_nat ` N"
  then obtain n where "n \<in> N" "c = of_nat n" "n < 256" by blast
  then show "unat c \<in> N" by (simp add: unat_of_nat_u8)
next
  assume "unat c \<in> N"
  then show "c \<in> of_nat ` N" by (metis image_eqI u8_of_unat)
qed

lemma mem_b64_chars:
  "c \<in> set b64_chars \<longleftrightarrow> unat c \<in> {65..<91} \<union> {97..<123} \<union> {48..<58} \<union> {43, 47}"
proof -
  have "set b64_chars = of_nat ` ({65..<91} \<union> {97..<123} \<union> {48..<58} \<union> {43, 47})"
    by (simp only: b64_chars_eq set_map set_append set_upt list.set Un_assoc)
  moreover have "{65..<91} \<union> {97..<123} \<union> {48..<58} \<union> {43, 47} \<subseteq> {..<256 :: nat}" by auto
  ultimately show ?thesis by (simp only: byte_in_image)
qed

lemma b64_char_eq:
  assumes "n < 64"
  shows "b64_char n =
    of_nat (if n < 26 then 65 + n else if n < 52 then 71 + n else if n < 62 then n - 4
      else if n = 62 then 43 else 47)"
proof -
  have "n = 62 \<or> n = 63 \<or> n < 62" using assms by auto
  then show ?thesis
    by (auto simp: b64_chars_eq nth_append simp del: upt_rec_numeral)
qed

lemma conv_of_nat:
  assumes "n < 64"
  shows "conv_bin2ascii (of_nat n) = b64_char n"
proof -
  have u: "unat (of_nat n :: u8) = n" using assms by (simp add: unat_of_nat_u8)
  have "unat ((of_nat n :: u8) AND mask 6) = n" using assms u by (simp only: unat_and_mask) simp
  then have m: "(of_nat n :: u8) AND 0x3f = of_nat n"
    by (simp add: mask_eq_exp_minus_1 u8_of_unat)
  have "n = 62 \<or> n = 63 \<or> n < 62" using assms by auto
  then show ?thesis
    using u by (auto simp: conv_bin2ascii_def Let_def ct_simps m b64_char_eq word_less_nat_alt)
qed

lemma conv_char: "conv_bin2ascii a = b64_char (unat a mod 64)"
proof -
  have m: "unat (a AND 0x3f) = unat a mod 64"
    using unat_and_mask [of a 6] by (simp add: mask_eq_exp_minus_1)
  have "conv_bin2ascii a = conv_bin2ascii (a AND 0x3f)"
    by (simp add: conv_bin2ascii_def and.assoc)
  also have "a AND 0x3f = of_nat (unat a mod 64)" using m by (rule u8_of_unat)
  finally show ?thesis by (simp only: conv_of_nat mod_less_divisor zero_less_numeral)
qed

lemma ascii_range:
  "base64_ascii_to_bin a =
     (if a = b64_pad then 0 else if a = 0x2f then 63 else if a = 0x2b then 62
      else if 0x30 \<le> a \<and> a \<le> 0x39 then a - 0x30 + 52
      else if 0x61 \<le> a \<and> a \<le> 0x7a then a - 0x61 + 26
      else if 0x41 \<le> a \<and> a \<le> 0x5a then a - 0x41 else 0xff)"
proof -
  have e: "ucast a = (k :: u64) \<longleftrightarrow> a = ucast k" if "unat k < 256" for k
    using that by (simp add: word_unat_eq_iff unat_ucast_small)
  show ?thesis
    by (simp add: base64_ascii_to_bin_def Let_def ct_simps e)
qed

lemma ascii_of_nat:
  assumes "k < 256"
  shows "base64_ascii_to_bin (of_nat k) =
     (if k = 61 then 0 else if k = 47 then 63 else if k = 43 then 62
      else if 48 \<le> k \<and> k \<le> 57 then of_nat k - 0x30 + 52
      else if 97 \<le> k \<and> k \<le> 122 then of_nat k - 0x61 + 26
      else if 65 \<le> k \<and> k \<le> 90 then of_nat k - 0x41 else 0xff)"
proof -
  have "unat (of_nat k :: u8) = k" using assms by (simp add: unat_of_nat_u8)
  then show ?thesis
    unfolding ascii_range word_le_nat_alt by (simp add: word_unat_eq_iff [of "of_nat k"])
qed

lemma ascii_of_char [simp]:
  assumes "n < 64"
  shows "base64_ascii_to_bin (b64_char n) = of_nat n"
proof -
  consider "n < 26" | "26 \<le> n" "n < 52" | "52 \<le> n" "n < 62" | "n = 62" | "n = 63"
    using assms by linarith
  then show ?thesis
  proof cases
    case 3
    then obtain d where d: "n = 52 + d" "d < 10" using le_Suc_ex [of 52 n] by auto
    then have "48 + d < 256" by simp
    from ascii_of_nat [OF this] d show ?thesis unfolding b64_char_eq [OF assms] by simp
  qed (simp_all add: b64_char_eq ascii_of_nat del: of_nat_add, simp_all add: ascii_range)
qed

lemma ascii_invalid: "a \<notin> set b64_chars \<Longrightarrow> a \<noteq> b64_pad \<Longrightarrow> base64_ascii_to_bin a = 0xff"
  by (auto simp: ascii_range mem_b64_chars word_le_nat_alt word_unat_eq_iff)

lemma char_cases:
  assumes "base64_ascii_to_bin a \<noteq> 0xff"
  obtains (digit) n where "n < 64" "a = b64_char n" | (pad) "a = b64_pad"
  using assms ascii_invalid [of a] by (auto simp: in_set_conv_nth)

lemma char_not_pad [simp]: "n < 64 \<Longrightarrow> b64_char n \<noteq> b64_pad"
proof -
  assume "n < 64"
  then have "b64_char n \<in> set b64_chars" by simp
  moreover have "b64_pad \<notin> set b64_chars" by (simp add: mem_b64_chars)
  ultimately show ?thesis by metis
qed

lemma unat_ascii: "n < 64 \<Longrightarrow> unat (base64_ascii_to_bin (b64_char n)) = n"
  unfolding ascii_of_char unat_of_nat_u8 by simp

lemma char_inject: "m < 64 \<Longrightarrow> n < 64 \<Longrightarrow> b64_char m = b64_char n \<Longrightarrow> m = n"
  by (metis unat_ascii)

section \<open>The reference encoding\<close>

text \<open>The six-bit digits of a byte string, the last one filled up with zero bits, and back.\<close>

fun b64_sextets :: "u8 list \<Rightarrow> nat list" where
  "b64_sextets (a # b # c # src) =
     (let n = unat a * 2 ^ 16 + unat b * 2 ^ 8 + unat c
      in [n div 2 ^ 18, n div 2 ^ 12 mod 64, n div 2 ^ 6 mod 64, n mod 64] @ b64_sextets src)"
| "b64_sextets [a, b] =
     (let n = unat a * 2 ^ 16 + unat b * 2 ^ 8
      in [n div 2 ^ 18, n div 2 ^ 12 mod 64, n div 2 ^ 6 mod 64])"
| "b64_sextets [a] = (let n = unat a * 2 ^ 16 in [n div 2 ^ 18, n div 2 ^ 12 mod 64])"
| "b64_sextets [] = []"

fun b64_bytes :: "nat list \<Rightarrow> u8 list" where
  "b64_bytes (a # b # c # d # ds) = be_bytes 3 (a * 2 ^ 18 + b * 2 ^ 12 + c * 2 ^ 6 + d) @ b64_bytes ds"
| "b64_bytes [a, b, c] = be_bytes 2 ((a * 2 ^ 12 + b * 2 ^ 6 + c) div 4)"
| "b64_bytes [a, b] = be_bytes 1 ((a * 2 ^ 6 + b) div 16)"
| "b64_bytes _ = []"

definition b64_padding :: "nat \<Rightarrow> nat" where
  "b64_padding n = (3 - n mod 3) mod 3"

text \<open>A base64 text: digits and up to two padding characters that complete a group of four.\<close>

definition b64_text :: "nat list \<Rightarrow> u8 list" where
  "b64_text ds = map b64_char ds @ replicate ((4 - length ds mod 4) mod 4) b64_pad"

definition b64_digits :: "nat list \<Rightarrow> bool" where
  "b64_digits ds \<longleftrightarrow> list_all (\<lambda>d. d < 64) ds \<and> length ds mod 4 \<noteq> 1"

definition base64 :: "u8 list \<Rightarrow> u8 list" where
  "base64 src = b64_text (b64_sextets src)"

lemma unat_u8_le: "unat (b :: u8) \<le> 255"
  using unat_u8_less [of b] by linarith

lemma unat_triple:
  "unat (push_bit 16 (ucast a) OR push_bit 8 (ucast b) OR ucast c :: u32) =
     unat (a :: u8) * 2 ^ 16 + unat (b :: u8) * 2 ^ 8 + unat (c :: u8)"
proof -
  have "unat b * 2 ^ 8 + unat c < 2 ^ 16" "unat a * 2 ^ 16 + (unat b * 2 ^ 8 + unat c) < 2 ^ 32"
    using unat_u8_le [of a] unat_u8_le [of b] unat_u8_le [of c] by simp_all
  moreover from this have "unat (push_bit 8 (ucast b) OR ucast c :: u32) = unat b * 2 ^ 8 + unat c"
    by (subst unat_push_or) simp_all
  ultimately show ?thesis
    by (subst unat_push_or) (simp_all add: add.assoc)
qed

lemma conv_shift: "conv_bin2ascii (ucast (drop_bit k (l :: u32))) = b64_char (unat l div 2 ^ k mod 64)"
proof -
  have "unat (ucast (drop_bit k l) :: u8) = unat (drop_bit k l) mod 256"
    by (simp add: unsigned_ucast_eq take_bit_eq_mod)
  then have "unat (ucast (drop_bit k l) :: u8) mod 64 = unat l div 2 ^ k mod 64"
    by (simp add: unat_drop_bit mod_mod_cancel)
  then show ?thesis by (simp only: conv_char)
qed

lemma conv_low: "conv_bin2ascii (ucast (l :: u32)) = b64_char (unat l mod 64)"
  using conv_shift [of 0 l] by simp

lemma mem_write_append:
  "off \<le> length m \<Longrightarrow> mem_write (mem_write m off xs) (off + length xs) ys = mem_write m off (xs @ ys)"
  by (simp add: mem_write_def ac_simps)

lemma mem_write_reaches: "off \<le> length m \<Longrightarrow> off + length bs \<le> length (mem_write m off bs)"
  by (simp add: mem_write_def)

lemma b64_text_group:
  "b64_text ([a, b, c, d] @ ds) = [b64_char a, b64_char b, b64_char c, b64_char d] @ b64_text ds"
  by (simp add: b64_text_def)

lemma base64_group:
  "base64 (a # b # c # src) =
     (let n = unat a * 2 ^ 16 + unat b * 2 ^ 8 + unat c
      in [b64_char (n div 2 ^ 18), b64_char (n div 2 ^ 12 mod 64), b64_char (n div 2 ^ 6 mod 64),
          b64_char (n mod 64)] @ base64 src)"
  by (simp only: base64_def b64_sextets.simps Let_def b64_text_group)

lemma sextet_top: "unat (a :: u8) * 2 ^ 16 + unat (b :: u8) * 2 ^ 8 + unat (c :: u8) < 2 ^ 24"
  using unat_u8_le [of a] unat_u8_le [of b] unat_u8_le [of c] by simp

lemma sextet_top_mod:
  "(unat (a :: u8) * 2 ^ 16 + unat (b :: u8) * 2 ^ 8 + unat (c :: u8)) div 2 ^ 18 mod 64 =
     (unat a * 2 ^ 16 + unat b * 2 ^ 8 + unat c) div 2 ^ 18"
  using sextet_top [of a b c] by (intro mod_less) (simp add: div_less_iff_less_mult)

lemma encode_block_loop_writes:
  "dst \<le> length m \<Longrightarrow>
     encode_block_loop src dst ret m = (ret + length (base64 src), mem_write m dst (base64 src @ [0]))"
proof (induction src dst ret m rule: encode_block_loop.induct)
  case (1 a b c src dst ret m)
  let ?l = "push_bit 16 (ucast a) OR push_bit 8 (ucast b) OR ucast c :: u32"
  define q where "q = [conv_bin2ascii (ucast (drop_bit 18 ?l)), conv_bin2ascii (ucast (drop_bit 12 ?l)),
    conv_bin2ascii (ucast (drop_bit 6 ?l)), conv_bin2ascii (ucast ?l)]"
  have q: "base64 (a # b # c # src) = q @ base64 src" and len: "length q = 4"
    by (simp_all only: q_def base64_group Let_def conv_shift conv_low unat_drop_bit unat_triple sextet_top_mod)
      simp
  have "dst + 4 \<le> length (mem_write m dst q)"
    using mem_write_reaches [OF "1.prems", of q] len by simp
  from "1.IH" [OF refl this [unfolded q_def]]
  have "encode_block_loop (a # b # c # src) dst ret m =
      (ret + 4 + length (base64 src), mem_write (mem_write m dst q) (dst + length q) (base64 src @ [0]))"
    unfolding len by (simp only: encode_block_loop.simps Let_def q_def)
  then show ?case
    unfolding mem_write_append [OF "1.prems"] q by (simp add: len)
next
  case (2 a b dst ret m)
  then show ?case
    using conv_shift unat_triple [of a b 0] sextet_top_mod [of a b 0]
    by (simp add: base64_def b64_text_def Let_def)
next
  case (3 a dst ret m)
  then show ?case
    using conv_shift unat_triple [of a 0 0] sextet_top_mod [of a 0 0]
    by (simp add: base64_def b64_text_def Let_def numeral_2_eq_2)
next
  case (4 dst ret m)
  then show ?case by (simp add: base64_def b64_text_def)
qed

section \<open>Decoding a group of four\<close>

lemma unat_quad:
  assumes "a < 64" "b < 64" "c < 64" "d < 64"
  shows "unat (push_bit 18 (ucast (of_nat a :: u8)) OR push_bit 12 (ucast (of_nat b :: u8)) OR
      push_bit 6 (ucast (of_nat c :: u8)) OR ucast (of_nat d :: u8) :: u32) =
    a * 2 ^ 18 + b * 2 ^ 12 + c * 2 ^ 6 + d"
proof -
  have u: "unat (ucast (of_nat n :: u8) :: u32) = n" if "n < 64" for n
    using that by (simp add: unat_of_nat_u8)
  have 1: "unat (push_bit 6 (ucast (of_nat c :: u8)) OR ucast (of_nat d :: u8) :: u32) = c * 2 ^ 6 + d"
    using assms by (subst unat_push_or) (simp_all only: u, simp_all)
  have 2: "unat (push_bit 12 (ucast (of_nat b :: u8)) OR push_bit 6 (ucast (of_nat c :: u8)) OR
      ucast (of_nat d :: u8) :: u32) = b * 2 ^ 12 + (c * 2 ^ 6 + d)"
    using assms by (subst unat_push_or) (simp_all only: u 1, simp_all)
  show ?thesis
    using assms by (subst unat_push_or) (simp_all only: u 2, simp_all)
qed

lemma be_bytes_1: "be_bytes 1 n = [of_nat n]"
  by simp

lemma be_bytes_2: "be_bytes 2 n = [of_nat (n div 2 ^ 8), of_nat n]"
proof -
  have "be_bytes (Suc (Suc 0)) n = [of_nat (n div 2 ^ 8), of_nat n]" by simp
  moreover have "Suc (Suc 0) = 2" by simp
  ultimately show ?thesis by (simp only:)
qed

lemma be_bytes_3: "be_bytes 3 n = [of_nat (n div 2 ^ 16), of_nat (n div 2 ^ 8), of_nat n]"
  by (simp add: numeral_3_eq_3 div_mult2_eq [symmetric])

lemma u8_of_word: "(ucast (w :: u32) :: u8) = of_nat (unat w)"
  by simp

lemma quad_bytes:
  "[ucast (drop_bit 16 v), ucast (drop_bit 8 v), ucast v] = be_bytes 3 (unat (v :: u32))"
  "[ucast (drop_bit 16 v), ucast (drop_bit 8 v)] = be_bytes 2 (unat (v :: u32) div 2 ^ 8)"
  "[ucast (drop_bit 16 v)] = be_bytes 1 (unat (v :: u32) div 2 ^ 16)"
  unfolding be_bytes_1 be_bytes_2 be_bytes_3 u8_of_word unat_drop_bit
  by (simp_all add: div_mult2_eq [symmetric])

lemma ascii_valid: "n < 64 \<Longrightarrow> base64_ascii_to_bin (b64_char n) \<noteq> 0xff"
proof
  assume n: "n < 64" and "base64_ascii_to_bin (b64_char n) = 0xff"
  then have "n = 255" using unat_ascii [of n] by simp
  with n show False by simp
qed

lemma ascii_of_pad: "base64_ascii_to_bin b64_pad = of_nat 0"
  by (simp add: ascii_range)

text \<open>The four characters of a group, given by what they are.\<close>

lemma decode_quad_digits:
  assumes "a < 64" "b < 64" "c < 64" "d < 64"
  shows "base64_decode_quad [b64_char a, b64_char b, b64_char c, b64_char d] =
    Some (be_bytes 3 (a * 2 ^ 18 + b * 2 ^ 12 + c * 2 ^ 6 + d))"
proof -
  have "of_nat n \<noteq> (0xff :: u8)" if "n < 64" for n
    using ascii_valid [OF that] that by simp
  then show ?thesis
    unfolding unat_quad [OF assms, symmetric] quad_bytes [symmetric]
    using assms by (simp add: base64_decode_quad_def Let_def)
qed

lemma decode_quad_pad_1:
  assumes "a < 64" "b < 64" "c < 64"
  shows "base64_decode_quad [b64_char a, b64_char b, b64_char c, b64_pad] =
    Some (be_bytes 2 ((a * 2 ^ 12 + b * 2 ^ 6 + c) div 4))"
proof -
  have f: "of_nat n \<noteq> (0xff :: u8)" if "n < 64" for n
    using ascii_valid [OF that] that by simp
  have "(a * 2 ^ 12 + b * 2 ^ 6 + c) div 4 = (a * 2 ^ 18 + b * 2 ^ 12 + c * 2 ^ 6 + 0) div 2 ^ 8"
    by simp
  moreover have "base64_decode_quad [b64_char a, b64_char b, b64_char c, b64_pad] =
      (let v = push_bit 18 (ucast (of_nat a :: u8)) OR push_bit 12 (ucast (of_nat b :: u8)) OR
         push_bit 6 (ucast (of_nat c :: u8)) OR ucast (of_nat 0 :: u8) :: u32
       in Some [ucast (drop_bit 16 v), ucast (drop_bit 8 v)])"
    using assms f by (simp add: base64_decode_quad_def Let_def ascii_of_pad)
  ultimately show ?thesis
    by (simp only: Let_def quad_bytes unat_quad [OF assms zero_less_numeral])
qed

lemma decode_quad_pad_2:
  assumes "a < 64" "b < 64"
  shows "base64_decode_quad [b64_char a, b64_char b, b64_pad, b64_pad] =
    Some (be_bytes 1 ((a * 2 ^ 6 + b) div 16))"
proof -
  have f: "of_nat n \<noteq> (0xff :: u8)" if "n < 64" for n
    using ascii_valid [OF that] that by simp
  have "(a * 2 ^ 6 + b) div 16 = (a * 2 ^ 18 + b * 2 ^ 12 + 0 * 2 ^ 6 + 0) div 2 ^ 16"
    by simp
  moreover have "base64_decode_quad [b64_char a, b64_char b, b64_pad, b64_pad] =
      (let v = push_bit 18 (ucast (of_nat a :: u8)) OR push_bit 12 (ucast (of_nat b :: u8)) OR
         push_bit 6 (ucast (of_nat 0 :: u8)) OR ucast (of_nat 0 :: u8) :: u32
       in Some [ucast (drop_bit 16 v)])"
    using assms f by (simp add: base64_decode_quad_def Let_def ascii_of_pad)
  ultimately show ?thesis
    by (simp only: Let_def quad_bytes unat_quad [OF assms zero_less_numeral zero_less_numeral])
qed

lemma replicate_2: "replicate 2 x = [x, x]"
  by (simp add: numeral_2_eq_2)

lemma decode_quad_text:
  assumes "b64_digits ds" and "ds \<noteq> []" and "length ds \<le> 4"
  shows "length (b64_text ds) = 4" and "base64_decode_quad (b64_text ds) = Some (b64_bytes ds)"
proof -
  have "length ds \<noteq> 0" "length ds \<noteq> 1" using assms by (auto simp: b64_digits_def)
  then have "length ds = 2 \<or> length ds = 3 \<or> length ds = 4" using assms(3) by linarith
  then consider a b where "ds = [a, b]" | a b c where "ds = [a, b, c]" | a b c d where "ds = [a, b, c, d]"
    by (auto simp: length_Suc_conv numeral_eq_Suc)
  note shape = this
  show "length (b64_text ds) = 4"
    using shape by cases (simp_all add: b64_text_def)
  show "base64_decode_quad (b64_text ds) = Some (b64_bytes ds)"
    using shape
  proof cases
    case 1
    then show ?thesis
      using assms(1) decode_quad_pad_2 by (simp add: b64_text_def b64_digits_def replicate_2)
  next
    case 2
    then show ?thesis
      using assms(1) decode_quad_pad_1 by (simp add: b64_text_def b64_digits_def)
  next
    case 3
    then show ?thesis
      using assms(1) decode_quad_digits by (simp add: b64_text_def b64_digits_def)
  qed
qed

lemma quad_pattern:
  "(push_bit 3 (of_bool p) OR push_bit 2 (of_bool q) OR push_bit 1 (of_bool r) OR of_bool s :: u32)
     \<in> {0, 1, 3} \<Longrightarrow> \<not> p \<and> \<not> q \<and> (r \<longrightarrow> s)"
  by (cases p; cases q; cases r; cases s) simp_all

lemma decode_quad_Some:
  assumes "base64_decode_quad [w, x, y, z] = Some bs"
  shows "\<exists>ds. b64_digits ds \<and> ds \<noteq> [] \<and> length ds \<le> 4 \<and> [w, x, y, z] = b64_text ds"
proof -
  have "base64_ascii_to_bin w \<noteq> 0xff" "base64_ascii_to_bin x \<noteq> 0xff"
      "base64_ascii_to_bin y \<noteq> 0xff" "base64_ascii_to_bin z \<noteq> 0xff"
    using assms by (auto simp: base64_decode_quad_def Let_def split: if_splits)
  then have c: "(\<exists>n < 64. v = b64_char n) \<or> v = b64_pad" if "v \<in> {w, x, y, z}" for v
    using that by (auto elim!: char_cases)
  have n: "[w, x, y, z] ! 0 = w" "[w, x, y, z] ! 1 = x" "[w, x, y, z] ! 2 = y" "[w, x, y, z] ! 3 = z"
    by simp_all
  define p where "p = (push_bit 3 (of_bool (w = b64_pad)) OR push_bit 2 (of_bool (x = b64_pad)) OR
      push_bit 1 (of_bool (y = b64_pad)) OR of_bool (z = b64_pad) :: u32)"
  have "p \<in> {0, 1, 3}"
    using assms unfolding base64_decode_quad_def Let_def n p_def [symmetric]
    by (cases "p = 0"; cases "p = 1"; cases "p = 3") (simp_all split: if_splits)
  from this [unfolded p_def] have "(push_bit 3 (of_bool (w = b64_pad)) OR push_bit 2 (of_bool (x = b64_pad)) OR
      push_bit 1 (of_bool (y = b64_pad)) OR of_bool (z = b64_pad) :: u32) \<in> {0, 1, 3}" .
  from quad_pattern [OF this] have "w \<noteq> b64_pad" "x \<noteq> b64_pad" "y = b64_pad \<Longrightarrow> z = b64_pad"
    by blast+
  then obtain a b where ab: "a < 64" "b < 64" "w = b64_char a" "x = b64_char b"
    using c [of w] c [of x] by auto
  consider "y = b64_pad" "z = b64_pad" | d where "d < 64" "y = b64_char d" "z = b64_pad"
    | d e where "d < 64" "e < 64" "y = b64_char d" "z = b64_char e"
    using c [of y] c [of z] \<open>y = b64_pad \<Longrightarrow> z = b64_pad\<close> by auto
  then show ?thesis
  proof cases
    case 1
    then show ?thesis using ab
      by (intro exI [of _ "[a, b]"]) (simp add: b64_digits_def b64_text_def replicate_2)
  next
    case 2
    then show ?thesis using ab
      by (intro exI [of _ "[a, b, d]"]) (simp add: b64_digits_def b64_text_def)
  next
    case 3
    then show ?thesis using ab
      by (intro exI [of _ "[a, b, d, e]"]) (simp add: b64_digits_def b64_text_def)
  qed
qed

section \<open>Decoding a text\<close>

lemma b64_digits_group: "b64_digits ([a, b, c, d] @ ds) \<longleftrightarrow> list_all (\<lambda>d. d < 64) [a, b, c, d] \<and> b64_digits ds"
  by (auto simp: b64_digits_def)

lemma b64_bytes_group: "b64_bytes ([a, b, c, d] @ ds) = b64_bytes [a, b, c, d] @ b64_bytes ds"
  by simp

lemma long_list_group: "4 < length ds \<Longrightarrow> \<exists>a b c d ds'. ds = [a, b, c, d] @ ds' \<and> ds' \<noteq> []"
  by (cases ds; cases "tl ds"; cases "tl (tl ds)"; cases "tl (tl (tl ds))") auto

lemma length_group: "b64_text [a, b, c, d] = [b64_char a, b64_char b, b64_char c, b64_char d]"
  by (simp add: b64_text_def)

lemma b64_text_Nil [simp]: "b64_text ds = [] \<longleftrightarrow> ds = []"
  by (auto simp: b64_text_def)

lemma decode_quads_text:
  "b64_digits ds \<Longrightarrow> out \<le> length m \<Longrightarrow>
     decode_quads (b64_text ds) out m = (Some (out + length (b64_bytes ds)), mem_write m out (b64_bytes ds))"
proof (induction "length ds" arbitrary: ds out m rule: less_induct)
  case less
  consider "ds = []" | "ds \<noteq> []" "length ds \<le> 4" | "4 < length ds" by linarith
  then show ?case
  proof cases
    case 1
    then show ?thesis using less.prems by (simp add: b64_text_def)
  next
    case 2
    obtain w x y z where "b64_text ds = [w, x, y, z]"
      using decode_quad_text(1) [OF less.prems(1) 2] by (auto simp: length_Suc_conv numeral_eq_Suc)
    then show ?thesis using decode_quad_text(2) [OF less.prems(1) 2] by simp
  next
    case 3
    then obtain a b c d ds' where ds: "ds = [a, b, c, d] @ ds'" "ds' \<noteq> []"
      using long_list_group by blast
    then have digits: "b64_digits [a, b, c, d]" "b64_digits ds'"
      using less.prems(1) unfolding ds b64_digits_group by (simp_all add: b64_digits_def)
    let ?bs = "b64_bytes [a, b, c, d]"
    have q: "base64_decode_quad [b64_char a, b64_char b, b64_char c, b64_char d] = Some ?bs"
      using decode_quad_text(2) [OF digits(1)] by (simp add: b64_text_def)
    have len: "length ?bs = 3" by simp
    have "decode_quads (b64_text ds) out m = decode_quads (b64_text ds') (out + length ?bs) (mem_write m out ?bs)"
      unfolding ds b64_text_group using q len by (simp del: b64_bytes.simps)
    also have "\<dots> = (Some (out + length ?bs + length (b64_bytes ds')),
        mem_write (mem_write m out ?bs) (out + length ?bs) (b64_bytes ds'))"
      using ds by (intro less.hyps digits mem_write_reaches less.prems) simp
    finally show ?thesis
      unfolding mem_write_append [OF less.prems(2)] ds b64_bytes_group [of a b c d] length_append
      by (simp only: add.assoc)
  qed
qed

lemma b64_bytes_short: "length ds = 2 \<or> length ds = 3 \<Longrightarrow> length (b64_bytes ds) < 3"
  by (cases ds rule: b64_bytes.cases) auto

lemma full_group:
  assumes "b64_digits ds" and "ds \<noteq> []" and "length ds \<le> 4" and "length (b64_bytes ds) = 3"
  shows "\<exists>a b c d. ds = [a, b, c, d]"
proof -
  have "length ds \<noteq> 0" "length ds \<noteq> 1" using assms(1,2) by (auto simp: b64_digits_def)
  moreover have "\<not> (length ds = 2 \<or> length ds = 3)" using b64_bytes_short [of ds] assms(4) by linarith
  ultimately have "length ds = 4" using assms(3) by linarith
  then show ?thesis by (auto simp: length_Suc_conv numeral_eq_Suc)
qed

lemma decode_quads_only_texts:
  "decode_quads inp out m = (Some n, m') \<Longrightarrow> length inp mod 4 = 0 \<Longrightarrow>
     \<exists>ds. b64_digits ds \<and> inp = b64_text ds"
proof (induction inp out m arbitrary: n m' rule: decode_quads.induct)
  case (1 w x y z inp out m)
  obtain bs where bs: "base64_decode_quad [w, x, y, z] = Some bs"
    using "1.prems"(1) by (auto split: option.splits)
  obtain ds where ds: "b64_digits ds" "ds \<noteq> []" "length ds \<le> 4" "[w, x, y, z] = b64_text ds"
    using decode_quad_Some [OF bs] by blast
  have b: "bs = b64_bytes ds" using decode_quad_text(2) [OF ds(1-3)] bs unfolding ds(4) [symmetric] by simp
  show ?case
  proof (cases "inp = []")
    case True
    then show ?thesis using ds by auto
  next
    case False
    then have three: "length bs = 3" and rest: "decode_quads inp (out + length bs) (mem_write m out bs) = (Some n, m')"
      using "1.prems"(1) bs by (auto split: if_splits)
    then obtain a b c d where abcd: "ds = [a, b, c, d]" using full_group [OF ds(1-3)] b by blast
    obtain ds' where "b64_digits ds'" "inp = b64_text ds'"
      using "1.IH" [OF bs _ rest] three "1.prems"(2) by auto
    moreover from this have "b64_digits ([a, b, c, d] @ ds')" using ds(1) abcd
      unfolding b64_digits_group by (simp add: b64_digits_def)
    moreover have "w # x # y # z # inp = b64_text ([a, b, c, d] @ ds')"
      using ds(4) \<open>inp = b64_text ds'\<close> unfolding abcd b64_text_group length_group by simp
    ultimately show ?thesis by blast
  qed
qed (auto simp: b64_digits_def b64_text_def intro: exI [of _ "[]"])

lemma group_arith: "n + (4 - n mod 4) mod 4 = 4 * ((n + 3) div 4)" for n :: nat
proof -
  obtain q r where n: "n = 4 * q + r" "r < 4" by (metis mod_less_divisor mult_div_mod_eq zero_less_numeral)
  then have "r = 0 \<or> r = 1 \<or> r = 2 \<or> r = 3" by linarith
  then show ?thesis unfolding n by auto
qed

lemma length_b64_text: "length (b64_text ds) = 4 * ((length ds + 3) div 4)"
  using group_arith [of "length ds"] by (simp add: b64_text_def)

lemma length_b64_bytes: "length (b64_bytes ds) \<le> 3 * ((length ds + 3) div 4)"
proof (induction ds rule: b64_bytes.induct)
  case (1 a b c d ds)
  have "(length (a # b # c # d # ds) + 3) div 4 = (length ds + 3) div 4 + 1"
    using div_add_self2 [of 4 "length ds + 3"] by (simp add: ac_simps)
  with 1 show ?case by simp
qed simp_all

text \<open>What the block decoder does, on every input.\<close>

lemma EVP_DecodeBase64_text:
  assumes "b64_digits ds" and "length (b64_text ds) div 4 * 3 \<le> max_out"
  shows "EVP_DecodeBase64 max_out (b64_text ds) m = (Some (length (b64_bytes ds)), mem_write m 0 (b64_bytes ds))"
  using assms decode_quads_text [OF assms(1), of 0 m]
  by (simp add: EVP_DecodeBase64_def EVP_DecodedLength_def length_b64_text)

lemma EVP_DecodeBase64_Some:
  assumes "EVP_DecodeBase64 max_out inp m = (Some n, m')"
  shows "length inp div 4 * 3 \<le> max_out \<and> (\<exists>ds. b64_digits ds \<and> inp = b64_text ds)"
  using assms decode_quads_only_texts [of inp 0 m n m']
  by (auto simp: EVP_DecodeBase64_def EVP_DecodedLength_def split: if_splits)

lemma b64_text_inject:
  assumes "b64_digits ds" "b64_digits es" "b64_text ds = b64_text es"
  shows "ds = es"
proof -
  have digits: "takeWhile (\<lambda>c. c \<noteq> b64_pad) (b64_text ds) = map b64_char ds" if "b64_digits ds" for ds
  proof -
    have "takeWhile (\<lambda>c. c \<noteq> b64_pad) (map b64_char ds @ replicate k b64_pad) = map b64_char ds" for k
      using that char_not_pad by (subst takeWhile_append2) (auto simp: b64_digits_def list_all_iff)
    then show ?thesis by (simp only: b64_text_def)
  qed
  then have "map b64_char ds = map b64_char es" using assms by metis
  moreover have "inj_on b64_char (set ds \<union> set es)"
    using assms(1,2) by (intro inj_onI) (auto simp: b64_digits_def list_all_iff intro: char_inject)
  ultimately show ?thesis by (simp add: inj_on_map_eq_map)
qed

section \<open>Block properties\<close>

lemma be_bytes_triple: "be_bytes 3 (unat a * 2 ^ 16 + unat b * 2 ^ 8 + unat c) = [a, b, c]"
proof -
  have "be_nat [a, b, c] = unat a * 2 ^ 16 + unat b * 2 ^ 8 + unat c" "length [a, b, c] = 3"
    by (simp_all add: be_nat_def)
  with be_bytes_be_nat [of "[a, b, c]"] show ?thesis by metis
qed

lemma sextets_join:
  "n div 2 ^ 18 * 2 ^ 18 + n div 2 ^ 12 mod 64 * 2 ^ 12 + n div 2 ^ 6 mod 64 * 2 ^ 6 + n mod 64 = n" for n :: nat
proof -
  have d: "n div 2 ^ 6 = n div 64" "n div 2 ^ 12 = n div 64 div 64" "n div 2 ^ 18 = n div 64 div 64 div 64"
    by (simp_all add: div_mult2_eq [symmetric])
  have p: "2 ^ 6 = (64 :: nat)" "2 ^ 12 = (4096 :: nat)" "2 ^ 18 = (262144 :: nat)" by simp_all
  show ?thesis
    unfolding d unfolding p
    using div_mult_mod_eq [of n 64] div_mult_mod_eq [of "n div 64" 64] div_mult_mod_eq [of "n div 64 div 64" 64]
    by linarith
qed

lemma be_bytes_pair: "be_bytes 2 (unat a * 2 ^ 8 + unat b) = [a, b]"
proof -
  have "be_nat [a, b] = unat a * 2 ^ 8 + unat b" "length [a, b] = 2" by (simp_all add: be_nat_def)
  with be_bytes_be_nat [of "[a, b]"] show ?thesis by metis
qed

lemma b64_bytes_sextets [simp]: "b64_bytes (b64_sextets src) = src"
proof (induction src rule: b64_sextets.induct)
  case (1 a b c src)
  then show ?case
    unfolding b64_sextets.simps Let_def append_Cons append_Nil b64_bytes.simps
      sextets_join be_bytes_triple by simp
next
  case (2 a b)
  let ?n = "unat a * 2 ^ 16 + unat b * 2 ^ 8 + unat (0 :: u8)"
  have "?n div 2 ^ 18 * 2 ^ 12 + ?n div 2 ^ 12 mod 64 * 2 ^ 6 + ?n div 2 ^ 6 mod 64 = ?n div 2 ^ 6"
    using sextets_join [of ?n] by simp
  then have "(?n div 2 ^ 18 * 2 ^ 12 + ?n div 2 ^ 12 mod 64 * 2 ^ 6 + ?n div 2 ^ 6 mod 64) div 4 =
      unat a * 2 ^ 8 + unat b" by simp
  then show ?case using be_bytes_pair [of a b] by (simp add: Let_def)
next
  case (3 a)
  have "16 * unat a mod 64 = 16 * (unat a mod 4)" using mod_mult_mult1 [of 16 "unat a" 4] by simp
  moreover have "unat a div 4 * 64 + 16 * (unat a mod 4) = 16 * unat a"
    using div_mult_mod_eq [of "unat a" 4] by linarith
  ultimately have "(unat a div 4 * 64 + 16 * unat a mod 64) div 16 = unat a" by simp
  then show ?case by simp
qed simp

lemma b64_sextets_digits [simp]: "b64_digits (b64_sextets src)"
proof (induction src rule: b64_sextets.induct)
  case (1 a b c src)
  have "(unat a * 2 ^ 16 + unat b * 2 ^ 8 + unat c) div 2 ^ 18 < 64"
    using sextet_top [of a b c] by (simp add: div_less_iff_less_mult)
  with 1 show ?case
    unfolding b64_sextets.simps Let_def b64_digits_group by simp
next
  case (2 a b)
  have "(unat a * 2 ^ 16 + unat b * 2 ^ 8 + unat (0 :: u8)) div 2 ^ 18 < 64"
    using sextet_top [of a b 0] by (simp add: div_less_iff_less_mult)
  then show ?case by (simp add: b64_digits_def Let_def)
next
  case (3 a)
  have "unat a div 4 < 64" using unat_u8_le [of a] by simp
  then show ?case by (simp add: b64_digits_def)
next
  case 4
  then show ?case by (simp add: b64_digits_def)
qed

lemma length_base64: "length (base64 src) = 4 * ((length src + 2) div 3)"
proof -
  have "(length (b64_sextets src) + 3) div 4 = (length src + 2) div 3"
  proof (induction src rule: b64_sextets.induct)
    case (1 a b c src)
    have "(length (b64_sextets (a # b # c # src)) + 3) div 4 = (length (b64_sextets src) + 3) div 4 + 1"
      using div_add_self2 [of 4 "length (b64_sextets src) + 3"] by (simp add: Let_def ac_simps)
    moreover have "(length (a # b # c # src) + 2) div 3 = (length src + 2) div 3 + 1"
      using div_add_self2 [of 3 "length src + 2"] by (simp add: ac_simps)
    ultimately show ?case using 1 by simp
  qed (simp_all add: Let_def)
  then show ?thesis by (simp add: base64_def length_b64_text)
qed

lemma EVP_EncodeBlock_writes:
  "dst \<le> length m \<Longrightarrow> EVP_EncodeBlock dst src m = (length (base64 src), mem_write m dst (base64 src @ [0]))"
  by (simp add: EVP_EncodeBlock_def encode_block_loop_writes)

text \<open>
  \<open>EVP_EncodedLength\<close> gives the size of the buffer that \<open>EVP_EncodeBlock\<close> writes, its
  terminating zero included, whenever this size is a number of \<open>size_t\<close>; it fails otherwise.
\<close>

theorem EVP_EncodedLength_exact:
  assumes "length src < 2 ^ 64"
  shows "EVP_EncodedLength (length src) =
    (if length (base64 src @ [0]) < 2 ^ 64 then Some (length (base64 src @ [0])) else None)"
proof -
  let ?n = "length src" and ?k = "(length src + 2) div 3"
  have len: "length (base64 src @ [0]) = 4 * ?k + 1" by (simp add: length_base64)
  show ?thesis
  proof (cases "?n + 2 < 2 ^ 64")
    case False
    then have "2 ^ 64 - 2 \<le> ?n" by simp
    then have "\<not> 4 * ?k + 1 < 2 ^ 64" by simp
    moreover have "wrap64 (?n + 2) < ?n"
      using wrap64_add_overflow [of ?n 2] assms False by simp
    ultimately show ?thesis using len by (simp add: EVP_EncodedLength_def)
  next
    case True
    then have w: "wrap64 (?n + 2) = ?n + 2" by simp
    show ?thesis
    proof (cases "4 * ?k < 2 ^ 64")
      case small: True
      have "4 * ?k + 1 \<noteq> 2 ^ 64"
      proof
        assume "4 * ?k + 1 = 2 ^ 64"
        moreover have "even (2 ^ 64 :: nat)" "odd (4 * ?k + 1)" by simp_all
        ultimately show False by metis
      qed
      with small have "4 * ?k + 1 < 2 ^ 64" by linarith
      then show ?thesis using len w small by (simp add: EVP_EncodedLength_def Let_def)
    next
      case False
      have "wrap64 (4 * ?k) div 4 \<noteq> ?k"
      proof
        assume "wrap64 (4 * ?k) div 4 = ?k"
        then have "4 * ?k \<le> wrap64 (4 * ?k)" by (metis times_div_less_eq_dividend)
        with False wrap64_bound [of "4 * ?k"] show False by simp
      qed
      then show ?thesis using len w False by (simp add: EVP_EncodedLength_def Let_def)
    qed
  qed
qed

theorem EVP_EncodedLength_exact_witness: "EVP_EncodedLength (length [1 :: u8, 2, 3, 4]) = Some 9"
  by (subst EVP_EncodedLength_exact) (simp_all add: length_base64)

text \<open>
  C16: \<open>EVP_DecodeBase64\<close> accepts exactly the base64 texts for which the buffer is large enough:
  digits of the alphabet and at most two padding characters at the end that complete a group
  of four.  It writes the bytes of the digits to the start of the buffer and nothing else.
\<close>

theorem EVP_DecodeBase64_accepts:
  "EVP_DecodeBase64 max_out inp m = (Some n, m') \<longleftrightarrow>
     (\<exists>ds. b64_digits ds \<and> inp = b64_text ds \<and> length inp div 4 * 3 \<le> max_out \<and>
        n = length (b64_bytes ds) \<and> m' = mem_write m 0 (b64_bytes ds))"
proof
  assume run: "EVP_DecodeBase64 max_out inp m = (Some n, m')"
  from EVP_DecodeBase64_Some [OF run] obtain ds where "b64_digits ds" "inp = b64_text ds"
      "length inp div 4 * 3 \<le> max_out" by blast
  with run EVP_DecodeBase64_text [of ds max_out m]
  show "\<exists>ds. b64_digits ds \<and> inp = b64_text ds \<and> length inp div 4 * 3 \<le> max_out \<and>
        n = length (b64_bytes ds) \<and> m' = mem_write m 0 (b64_bytes ds)" by auto
qed (auto simp: EVP_DecodeBase64_text)

text \<open>
  C17: what \<open>EVP_EncodeBlock\<close> writes, \<open>EVP_DecodeBase64\<close> decodes to the same bytes.
\<close>

theorem base64_roundtrip:
  assumes "length (base64 src) < length m" and "length (base64 src) div 4 * 3 \<le> length out"
  shows "\<exists>m'. EVP_EncodeBlock 0 src m = (length (base64 src), m') \<and> length m' = length m \<and>
    EVP_DecodeBase64 (length out) (take (length (base64 src)) m') out =
      (Some (length src), src @ drop (length src) out)"
proof -
  have e: "EVP_EncodeBlock 0 src m = (length (base64 src), mem_write m 0 (base64 src @ [0]))"
    by (rule EVP_EncodeBlock_writes) simp
  moreover have "take (length (base64 src)) (mem_write m 0 (base64 src @ [0])) = base64 src"
    by (simp add: mem_write_def)
  moreover have "length (mem_write m 0 (base64 src @ [0])) = length m"
    using assms(1) by (intro length_mem_write) simp
  moreover have "EVP_DecodeBase64 (length out) (base64 src) out = (Some (length src), mem_write out 0 src)"
    using EVP_DecodeBase64_text [OF b64_sextets_digits [of src], of "length out" out] assms(2)
    by (simp add: base64_def)
  ultimately show ?thesis by (auto simp: mem_write_def)
qed

theorem base64_roundtrip_witness:
  "\<exists>m'. EVP_EncodeBlock 0 [1, 2] (replicate 9 0) = (length (base64 [1, 2]), m') \<and>
    length m' = length (replicate 9 (0 :: u8)) \<and>
    EVP_DecodeBase64 (length [7 :: u8, 7, 7]) (take (length (base64 [1, 2])) m') [7, 7, 7] =
      (Some (length [1 :: u8, 2]), [1, 2] @ drop (length [1 :: u8, 2]) [7, 7, 7])"
  by (rule base64_roundtrip) (simp_all add: length_base64)

end
