(* ===== verification/Base64_Stream.thy ===== *)
theory Base64_Stream
  imports Base64
begin

text \<open>
  The streaming interface of \<open>base64.c\<close>: whatever the chunks in which the input arrives, the
  encoder writes the lines of the whole input, and the decoder returns the bytes of the
  whole text with its white space removed, or an error.
\<close>

section \<open>Encoding in chunks\<close>

lemma mem_write_over:
  assumes "off \<le> length m" and "length ys \<le> length zs"
  shows "mem_write (mem_write m off (xs @ ys)) (off + length xs) zs = mem_write m off (xs @ zs)"
  using assms by (simp add: mem_write_def ac_simps)

text \<open>Whole lines of 48 bytes each, and what is left over.\<close>

function b64_lines :: "u8 list \<Rightarrow> u8 list" where
  "b64_lines src = (if 48 \<le> length src then base64 (take 48 src) @ 0x0a # b64_lines (drop 48 src) else [])"
  by pat_completeness auto
termination by (relation "measure length") auto

function b64_rest :: "u8 list \<Rightarrow> u8 list" where
  "b64_rest src = (if 48 \<le> length src then b64_rest (drop 48 src) else src)"
  by pat_completeness auto
termination by (relation "measure length") auto

declare b64_lines.simps [simp del] b64_rest.simps [simp del]

lemma b64_rest_short: "length (b64_rest src) < 48"
  by (induction src rule: b64_rest.induct) (simp add: b64_rest.simps)

lemma b64_lines_short [simp]: "length src < 48 \<Longrightarrow> b64_lines src = [] \<and> b64_rest src = src"
  by (simp add: b64_lines.simps b64_rest.simps)

lemma b64_lines_step:
  "length l = 48 \<Longrightarrow> b64_lines (l @ src) = base64 l @ 0x0a # b64_lines src \<and> b64_rest (l @ src) = b64_rest src"
  by (simp add: b64_lines.simps [of "l @ src"] b64_rest.simps [of "l @ src"])

lemma b64_lines_append:
  "b64_lines (xs @ ys) = b64_lines xs @ b64_lines (b64_rest xs @ ys) \<and>
   b64_rest (xs @ ys) = b64_rest (b64_rest xs @ ys)"
proof (induction xs rule: b64_rest.induct)
  case (1 xs)
  show ?case
  proof (cases "48 \<le> length xs")
    case True
    have split: "xs @ ys = take 48 xs @ (drop 48 xs @ ys)" by simp
    show ?thesis
      unfolding split using b64_lines_step [of "take 48 xs" "drop 48 xs @ ys"] True 1 [OF True]
      by (simp add: b64_lines.simps [of xs] b64_rest.simps [of xs] min_def)
  qed simp
qed

lemma encode_lines_writes:
  "written \<le> length m \<Longrightarrow> written + length (b64_lines inp) < 2 ^ 64 \<Longrightarrow>
     encode_lines inp written m =
       (Some (b64_rest inp, written + length (b64_lines inp)),
        if b64_lines inp = [] then m else mem_write m written (b64_lines inp @ [0]))"
proof (induction inp written m rule: encode_lines.induct)
  case (1 inp written m)
  show ?case
  proof (cases "48 \<le> length inp")
    case False
    then show ?thesis by (subst encode_lines.simps) simp
  next
    case True
    let ?e = "base64 (take 48 inp)"
    have block: "EVP_EncodeBlock written (take 48 inp) m = (length ?e, mem_write m written (?e @ [0]))"
      by (rule EVP_EncodeBlock_writes [OF "1.prems"(1)])
    define m1 where "m1 = mem_write m written (?e @ [0x0a, 0])"
    have m1: "mem_write (mem_write m written (?e @ [0])) (written + length ?e) [0x0a, 0] = m1"
      unfolding m1_def by (rule mem_write_over [OF "1.prems"(1)]) simp
    have lines: "b64_lines inp = ?e @ 0x0a # b64_lines (drop 48 inp)" "b64_rest inp = b64_rest (drop 48 inp)"
      using True by (simp_all add: b64_lines.simps [of inp] b64_rest.simps [of inp])
    have small: "written + length ?e + 1 < 2 ^ 64" using "1.prems"(2) lines by simp
    have reach: "written + length ?e + 1 \<le> length m1"
      using mem_write_reaches [OF "1.prems"(1), of "?e @ [0x0a, 0]"] by (simp add: m1_def)
    have IH: "encode_lines (drop 48 inp) (written + length ?e + 1) m1 =
        (Some (b64_rest (drop 48 inp), written + length ?e + 1 + length (b64_lines (drop 48 inp))),
         if b64_lines (drop 48 inp) = [] then m1
         else mem_write m1 (written + length ?e + 1) (b64_lines (drop 48 inp) @ [0]))"
      using "1.IH" [OF True block [symmetric] m1 [symmetric]] small reach "1.prems"(2) lines by simp
    have over: "mem_write m1 (written + length ?e + 1) (b64_lines (drop 48 inp) @ [0]) =
        mem_write m written (b64_lines inp @ [0])"
      using mem_write_over [OF "1.prems"(1), of "[0]" "b64_lines (drop 48 inp) @ [0]" "?e @ [0x0a]"]
      by (simp add: m1_def lines)
    have "encode_lines inp written m = encode_lines (drop 48 inp) (written + length ?e + 1) m1"
      using True small by (subst encode_lines.simps) (simp add: block m1 Let_def)
    then show ?thesis
      using IH over lines by (simp add: m1_def)
  qed
qed

text \<open>The context holds the bytes \<open>pend\<close> that do not fill a line yet.\<close>

definition enc_holds :: "evp_encode_ctx \<Rightarrow> u8 list \<Rightarrow> bool" where
  "enc_holds ctx pend \<longleftrightarrow>
     data_used ctx = length pend \<and> length pend < 48 \<and> length (ctx_data ctx) = 48 \<and>
     take (length pend) (ctx_data ctx) = pend"

lemma EVP_EncodeInit_holds: "enc_holds EVP_EncodeInit []"
  by (simp add: enc_holds_def EVP_EncodeInit_def)

lemma enc_holds_store:
  "enc_holds ctx pend \<Longrightarrow> length rest < 48 \<Longrightarrow>
     enc_holds (ctx\<lparr>ctx_data := mem_write (ctx_data ctx) 0 rest, data_used := length rest\<rparr>) rest"
  by (simp add: enc_holds_def mem_write_def)

lemma EVP_EncodeUpdate_writes:
  assumes ctx: "enc_holds ctx pend" and small: "length (b64_lines (pend @ inp)) \<le> int_max"
  shows "\<exists>ctx' m'. EVP_EncodeUpdate ctx inp m = Some (length (b64_lines (pend @ inp)), ctx', m') \<and>
    enc_holds ctx' (b64_rest (pend @ inp)) \<and>
    m' = (if b64_lines (pend @ inp) = [] then m else mem_write m 0 (b64_lines (pend @ inp) @ [0]))"
proof -
  have pend: "data_used ctx = length pend" "length pend < 48" "length (ctx_data ctx) = 48"
      "take (length pend) (ctx_data ctx) = pend" using ctx by (simp_all add: enc_holds_def)
  consider "inp = []" | "inp \<noteq> []" "length pend + length inp < 48" | "pend = []" "48 \<le> length inp"
    | "pend \<noteq> []" "48 \<le> length pend + length inp" by fastforce
  then show ?thesis
  proof cases
    case 1
    then show ?thesis using ctx pend by (simp add: EVP_EncodeUpdate_def)
  next
    case 2
    let ?ctx = "ctx\<lparr>ctx_data := mem_write (ctx_data ctx) (length pend) inp,
        data_used := length pend + length inp\<rparr>"
    have "take (length pend + length inp) (mem_write (ctx_data ctx) (length pend) inp) = pend @ inp"
      using take_mem_write_end [of "length pend" "ctx_data ctx" inp] pend by simp
    then have "enc_holds ?ctx (pend @ inp)" using 2 pend by (simp add: enc_holds_def)
    then show ?thesis using 2 pend by (simp add: EVP_EncodeUpdate_def less_diff_conv)
  next
    case 3
    have "encode_lines inp 0 m = (Some (b64_rest inp, 0 + length (b64_lines inp)),
        if b64_lines inp = [] then m else mem_write m 0 (b64_lines inp @ [0]))"
      using small 3 by (intro encode_lines_writes) simp_all
    then show ?thesis
      using 3 pend small enc_holds_store [OF ctx b64_rest_short [of inp]]
      by (auto simp: EVP_EncodeUpdate_def Let_def)
  next
    case 4
    let ?todo = "48 - length pend"
    let ?l = "pend @ take ?todo inp" and ?r = "drop ?todo inp"
    let ?e = "base64 ?l"
    have "?todo \<le> length inp" using 4 pend by linarith
    then have l: "length ?l = 48" using pend by (simp add: min_absorb2)
    have lines: "b64_lines (pend @ inp) = ?e @ 0x0a # b64_lines ?r" "b64_rest (pend @ inp) = b64_rest ?r"
      using b64_lines_step [OF l, of ?r] by simp_all
    have data: "mem_write (ctx_data ctx) (length pend) (take ?todo inp) = ?l"
      using pend 4 by (simp add: mem_write_def min_def)
    let ?ctx = "ctx\<lparr>ctx_data := ?l, data_used := 0\<rparr>"
    define m1 where "m1 = mem_write m 0 (?e @ [0x0a, 0])"
    have block: "EVP_EncodeBlock 0 ?l m = (length ?e, mem_write m 0 (?e @ [0]))"
      by (rule EVP_EncodeBlock_writes) simp
    have m1: "mem_write (mem_write m 0 (?e @ [0])) (length ?e) [0x0a, 0] = m1"
      using mem_write_over [of 0 m "[0]" "[0x0a, 0]" ?e] by (simp add: m1_def)
    have "encode_lines ?r (length ?e + 1) m1 = (Some (b64_rest ?r, length ?e + 1 + length (b64_lines ?r)),
        if b64_lines ?r = [] then m1 else mem_write m1 (length ?e + 1) (b64_lines ?r @ [0]))"
      using small lines mem_write_reaches [of 0 m "?e @ [0x0a, 0]"]
      by (intro encode_lines_writes) (simp_all add: m1_def)
    moreover have "mem_write m1 (length ?e + 1) (b64_lines ?r @ [0]) = mem_write m 0 (b64_lines (pend @ inp) @ [0])"
      using mem_write_over [of 0 m "[0]" "b64_lines ?r @ [0]" "?e @ [0x0a]"] by (simp add: m1_def lines)
    moreover have "EVP_EncodeUpdate ctx inp m =
        Some (case encode_lines ?r (length ?e + 1) m1 of
           (None, m) \<Rightarrow> (0, ?ctx, m)
         | (Some (inp, written), m) \<Rightarrow>
             (if written > int_max then 0 else written,
              ?ctx\<lparr>ctx_data := mem_write (ctx_data ?ctx) 0 inp, data_used := length inp\<rparr>, m))"
      using 4 pend by (auto simp: EVP_EncodeUpdate_def Let_def data block m1 simp del: length_append)
    moreover have "enc_holds ?ctx []" using l by (simp add: enc_holds_def)
    ultimately show ?thesis
      using small enc_holds_store [OF _ b64_rest_short [of ?r], of ?ctx "[]"] lines
      by (auto simp: m1_def)
  qed
qed

lemma EVP_EncodeFinal_writes:
  assumes "enc_holds ctx pend"
  shows "\<exists>ctx' m'. EVP_EncodeFinal ctx m = (if pend = [] then 0 else length (base64 pend) + 1, ctx', m') \<and>
    m' = (if pend = [] then m else mem_write m 0 (base64 pend @ [0x0a, 0]))"
proof -
  have "EVP_EncodeBlock 0 pend m = (length (base64 pend), mem_write m 0 (base64 pend @ [0]))"
    by (rule EVP_EncodeBlock_writes) simp
  moreover have "mem_write (mem_write m 0 (base64 pend @ [0])) (length (base64 pend)) [0x0a, 0] =
      mem_write m 0 (base64 pend @ [0x0a, 0])"
    using mem_write_over [of 0 m "[0]" "[0x0a, 0]" "base64 pend"] by simp
  ultimately show ?thesis using assms by (auto simp: EVP_EncodeFinal_def enc_holds_def)
qed

text \<open>
  A run of the encoder: one \<open>EVP_EncodeUpdate\<close> per chunk, then \<open>EVP_EncodeFinal\<close>; each call
  writes into a buffer \<open>m\<close> and its output is taken from there.
\<close>

fun encode_run :: "u8 list \<Rightarrow> evp_encode_ctx \<Rightarrow> u8 list list \<Rightarrow> u8 list option" where
  "encode_run m ctx [] = (case EVP_EncodeFinal ctx m of (n, ctx, m') \<Rightarrow> Some (take n m'))"
| "encode_run m ctx (c # cs) =
     (case EVP_EncodeUpdate ctx c m of
        None \<Rightarrow> None
      | Some (n, ctx, m') \<Rightarrow> map_option ((@) (take n m')) (encode_run m ctx cs))"

definition b64_stream :: "u8 list \<Rightarrow> u8 list" where
  "b64_stream src =
     b64_lines src @ (if b64_rest src = [] then [] else base64 (b64_rest src) @ [0x0a])"

lemma encode_run_writes:
  "enc_holds ctx pend \<Longrightarrow> length (b64_lines (pend @ concat cs)) \<le> int_max \<Longrightarrow>
     encode_run m ctx cs = Some (b64_stream (pend @ concat cs))"
proof (induction cs arbitrary: ctx pend)
  case Nil
  then have "length pend < 48" by (simp add: enc_holds_def)
  then show ?case
    using EVP_EncodeFinal_writes [OF Nil.prems(1), of m]
    by (auto simp: b64_stream_def mem_write_def)
next
  case (Cons c cs)
  have split: "b64_lines (pend @ c @ concat cs) = b64_lines (pend @ c) @ b64_lines (b64_rest (pend @ c) @ concat cs)"
      "b64_rest (pend @ c @ concat cs) = b64_rest (b64_rest (pend @ c) @ concat cs)"
    using b64_lines_append [of "pend @ c" "concat cs"] by simp_all
  then have "length (b64_lines (pend @ c)) \<le> int_max" using Cons.prems(2) by simp
  from EVP_EncodeUpdate_writes [OF Cons.prems(1) this, of m] obtain ctx' m' where u:
      "EVP_EncodeUpdate ctx c m = Some (length (b64_lines (pend @ c)), ctx', m')"
      "enc_holds ctx' (b64_rest (pend @ c))"
      "m' = (if b64_lines (pend @ c) = [] then m else mem_write m 0 (b64_lines (pend @ c) @ [0]))" by blast
  have "encode_run m ctx' cs = Some (b64_stream (b64_rest (pend @ c) @ concat cs))"
    using Cons.IH [OF u(2)] Cons.prems(2) split by simp
  moreover have "take (length (b64_lines (pend @ c))) m' = b64_lines (pend @ c)"
    using u(3) by (simp add: mem_write_def)
  ultimately show ?case using u(1) split by (simp add: b64_stream_def)
qed

section \<open>Decoding in chunks\<close>

text \<open>
  The decoder on the characters that are not white space: the bytes decoded so far, the
  characters of an unfinished group, and whether a padded group was seen.
\<close>

fun decode_groups :: "u8 list \<Rightarrow> bool \<Rightarrow> (u8 list \<times> u8 list \<times> bool) option" where
  "decode_groups (w # x # y # z # cs) eof =
     (if eof then None
      else case base64_decode_quad [w, x, y, z] of
             None \<Rightarrow> None
           | Some bs \<Rightarrow>
               (case decode_groups cs (length bs < 3) of
                  None \<Rightarrow> None | Some (bs', pend, eof) \<Rightarrow> Some (bs @ bs', pend, eof)))"
| "decode_groups cs eof = (if cs \<noteq> [] \<and> eof then None else Some ([], cs, eof))"

lemma decode_groups_pend: "decode_groups cs eof = Some (bs, pend, e) \<Longrightarrow> length pend < 4"
  by (induction cs eof arbitrary: bs pend e rule: decode_groups.induct)
    (auto split: if_splits option.splits)

lemma decode_groups_eof: "decode_groups cs True = (if cs = [] then Some ([], [], True) else None)"
  by (cases "(cs, True)" rule: decode_groups.cases) simp_all

lemma decode_groups_short: "length cs < 4 \<Longrightarrow> decode_groups cs False = Some ([], cs, False)"
  by (cases "(cs, False)" rule: decode_groups.cases) simp_all

lemma decode_groups_append:
  "decode_groups (xs @ ys) eof =
     (case decode_groups xs eof of
        None \<Rightarrow> None
      | Some (bs, pend, e) \<Rightarrow>
          (case decode_groups (pend @ ys) e of
             None \<Rightarrow> None | Some (bs', pend', e') \<Rightarrow> Some (bs @ bs', pend', e')))"
proof (cases eof)
  case True
  then show ?thesis by (auto simp: decode_groups_eof split: option.splits)
next
  case False
  then show ?thesis
  proof (induction "length xs" arbitrary: xs eof rule: less_induct)
    case less
    show ?case
    proof (cases "length xs < 4")
      case True
      then show ?thesis using less.prems decode_groups_short [OF True] by (auto split: option.splits)
    next
      case long: False
      then obtain w x y z cs where xs: "xs = w # x # y # z # cs"
        by (cases "(xs, False)" rule: decode_groups.cases) auto
      show ?thesis
      proof (cases "base64_decode_quad [w, x, y, z]")
        case None
        then show ?thesis using xs less.prems by simp
      next
        case (Some bs)
        have "decode_groups (cs @ ys) (length bs < 3) =
           (case decode_groups cs (length bs < 3) of
              None \<Rightarrow> None
            | Some (bs, pend, e) \<Rightarrow>
                (case decode_groups (pend @ ys) e of
                   None \<Rightarrow> None | Some (bs', pend', e') \<Rightarrow> Some (bs @ bs', pend', e')))"
          using less.hyps [of cs "length bs < 3"] xs
          by (cases "length bs < 3") (auto simp: decode_groups_eof split: option.splits)
        then show ?thesis
          using Some xs less.prems by (auto split: option.splits)
      qed
    qed
  qed
qed

definition dec_holds :: "evp_encode_ctx \<Rightarrow> u8 list \<Rightarrow> bool \<Rightarrow> bool" where
  "dec_holds ctx pend eof \<longleftrightarrow>
     data_used ctx = length pend \<and> length pend < 4 \<and> length (ctx_data ctx) = 48 \<and>
     take (length pend) (ctx_data ctx) = pend \<and> eof_seen ctx = eof \<and> \<not> error_encountered ctx \<and>
     (eof \<longrightarrow> pend = [])"

definition unspaced :: "u8 list \<Rightarrow> u8 list" where
  "unspaced cs = filter (\<lambda>c. \<not> is_space c) cs"

lemma store_char:
  assumes "dec_holds ctx pend eof"
  shows "take (length pend + 1) ((ctx_data ctx)[length pend := c]) = pend @ [c]"
proof -
  have "length pend < length (ctx_data ctx)" using assms by (simp add: dec_holds_def)
  then have "take (length pend + 1) ((ctx_data ctx)[length pend := c]) = take (length pend) (ctx_data ctx) @ [c]"
    by (simp add: take_Suc_conv_app_nth)
  then show ?thesis using assms by (simp add: dec_holds_def)
qed

lemma decode_update_loop_groups:
  "dec_holds ctx pend eof \<Longrightarrow> n \<le> length m \<Longrightarrow>
     (case decode_groups (pend @ unspaced inp) eof of
        None \<Rightarrow> \<exists>ctx' m'. decode_update_loop inp n ctx m = (None, ctx', m')
      | Some (bs, pend', e) \<Rightarrow>
          \<exists>ctx'. decode_update_loop inp n ctx m = (Some (n + length bs), ctx', mem_write m n bs) \<and>
            dec_holds ctx' pend' e)"
proof (induction inp arbitrary: ctx pend eof n m)
  case Nil
  then have "decode_groups pend eof = Some ([], pend, eof)"
    by (cases eof) (auto simp: dec_holds_def decode_groups_short)
  then show ?case using Nil by (simp add: unspaced_def)
next
  case (Cons c inp)
  note h = Cons.prems(1)
  show ?case
  proof (cases "is_space c")
    case True
    then have "unspaced (c # inp) = unspaced inp" by (simp add: unspaced_def)
    moreover have "decode_update_loop (c # inp) n ctx m = decode_update_loop inp n ctx m"
      using True by (auto simp: is_space_def)
    ultimately show ?thesis using Cons.IH [OF Cons.prems] by (simp only:)
  next
    case sp: False
    then have u: "unspaced (c # inp) = c # unspaced inp" by (simp add: unspaced_def)
    show ?thesis
    proof (cases eof)
      case True
      then show ?thesis using h sp by (simp add: u decode_groups_eof is_space_def dec_holds_def)
    next
      case eof: False
      let ?ctx = "ctx\<lparr>ctx_data := (ctx_data ctx)[length pend := c], data_used := length pend + 1\<rparr>"
      have loop: "decode_update_loop (c # inp) n ctx m =
          (if length pend + 1 = 4 then
             (case base64_decode_quad (take 4 (ctx_data ?ctx)) of
                None \<Rightarrow> (None, ?ctx\<lparr>error_encountered := True\<rparr>, m)
              | Some bs \<Rightarrow>
                  decode_update_loop inp (n + length bs)
                    (?ctx\<lparr>data_used := 0, eof_seen := length bs < 3\<rparr>) (mem_write m n bs))
           else decode_update_loop inp n ?ctx m)"
        using h sp eof by (auto simp: is_space_def dec_holds_def Let_def split: option.splits)
      show ?thesis
      proof (cases "length pend + 1 = 4")
        case False
        then have "dec_holds ?ctx (pend @ [c]) False"
          using h eof store_char [OF h, of c] by (simp add: dec_holds_def)
        from Cons.IH [OF this Cons.prems(2)] show ?thesis
          unfolding loop if_not_P [OF False] using eof by (simp add: u)
      next
        case True
        have q: "take 4 (ctx_data ?ctx) = pend @ [c]"
          using store_char [OF h, of c] True by simp
        then obtain w x y where p: "pend @ [c] = [w, x, y, c]"
          using True by (auto simp: length_Suc_conv numeral_3_eq_3)
        have groups: "decode_groups (pend @ unspaced (c # inp)) eof =
            decode_groups ([w, x, y, c] @ unspaced inp) False"
          using eof p by (simp add: u)
        have loop': "decode_update_loop (c # inp) n ctx m =
            (case base64_decode_quad [w, x, y, c] of
               None \<Rightarrow> (None, ?ctx\<lparr>error_encountered := True\<rparr>, m)
             | Some bs \<Rightarrow>
                 decode_update_loop inp (n + length bs)
                   (?ctx\<lparr>data_used := 0, eof_seen := length bs < 3\<rparr>) (mem_write m n bs))"
          unfolding loop if_P [OF True] q p ..
        show ?thesis
        proof (cases "base64_decode_quad [w, x, y, c]")
          case None
          then show ?thesis unfolding loop' groups by simp
        next
          case (Some bs)
          have "dec_holds (?ctx\<lparr>data_used := 0, eof_seen := length bs < 3\<rparr>) [] (length bs < 3)"
            using h by (simp add: dec_holds_def)
          from Cons.IH [OF this mem_write_reaches [OF Cons.prems(2), of bs]]
          show ?thesis
            unfolding loop' groups using Some
            by (auto simp: add.assoc mem_write_append [OF Cons.prems(2)] split: option.splits)
        qed
      qed
    qed
  qed
qed

text \<open>
  A run of the decoder: one \<open>EVP_DecodeUpdate\<close> per chunk while it does not return -1, then
  \<open>EVP_DecodeFinal\<close>.
\<close>

fun decode_run :: "u8 list \<Rightarrow> evp_encode_ctx \<Rightarrow> u8 list list \<Rightarrow> u8 list option" where
  "decode_run m ctx [] = (if EVP_DecodeFinal ctx = - 1 then None else Some [])"
| "decode_run m ctx (c # cs) =
     (case EVP_DecodeUpdate ctx c m of
        (ret, n, ctx, m') \<Rightarrow>
          if ret = - 1 then None
          else (case decode_run m ctx cs of None \<Rightarrow> None | Some bs \<Rightarrow> Some (take n m' @ bs)))"

text \<open>Every quad gives at most three bytes.\<close>

lemma decode_quad_length: "base64_decode_quad inp = Some bs \<Longrightarrow> length bs \<le> 3"
  by (auto simp: base64_decode_quad_def Let_def split: if_splits)

lemma decode_groups_length:
  "decode_groups cs eof = Some (bs, pend, e) \<Longrightarrow> length bs \<le> length cs \<and> length pend + length bs \<le> length cs"
  by (induction cs eof arbitrary: bs pend e rule: decode_groups.induct)
    (force split: if_splits option.splits dest: decode_quad_length)+

lemma EVP_DecodeUpdate_groups:
  assumes ctx: "dec_holds ctx pend eof" and small: "length pend + length inp \<le> int_max"
  shows "case decode_groups (pend @ unspaced inp) eof of
        None \<Rightarrow> \<exists>ctx' m'. EVP_DecodeUpdate ctx inp m = (- 1, 0, ctx', m')
      | Some (bs, pend', e) \<Rightarrow>
          \<exists>ctx'. EVP_DecodeUpdate ctx inp m = (if e then 0 else 1, length bs, ctx', mem_write m 0 bs) \<and>
            dec_holds ctx' pend' e"
proof (cases "decode_groups (pend @ unspaced inp) eof")
  case None
  then show ?thesis
    using decode_update_loop_groups [OF ctx, of 0 m inp] ctx
    by (auto simp: EVP_DecodeUpdate_def dec_holds_def)
next
  case (Some r)
  obtain bs pend' e where r: "r = (bs, pend', e)" by (cases r)
  have "length (unspaced inp) \<le> length inp" by (simp add: unspaced_def)
  then have "length bs \<le> int_max"
    using decode_groups_length [OF Some [unfolded r]] small by simp
  then show ?thesis
    using decode_update_loop_groups [OF ctx, of 0 m inp] ctx Some r
    by (auto simp: EVP_DecodeUpdate_def dec_holds_def)
qed

lemma decode_run_groups:
  "dec_holds ctx pend eof \<Longrightarrow> \<forall>c \<in> set cs. length c + 4 \<le> int_max \<Longrightarrow>
     decode_run m ctx cs =
       (case decode_groups (pend @ unspaced (concat cs)) eof of
          Some (bs, [], e) \<Rightarrow> Some bs | _ \<Rightarrow> None)"
proof (induction cs arbitrary: ctx pend eof)
  case Nil
  then have "decode_groups pend eof = Some ([], pend, eof)"
    by (cases eof) (auto simp: dec_holds_def decode_groups_short)
  then show ?case
    using Nil.prems(1) by (auto simp: EVP_DecodeFinal_def dec_holds_def unspaced_def split: list.splits)
next
  case (Cons c cs)
  have u: "pend @ unspaced (concat (c # cs)) = (pend @ unspaced c) @ unspaced (concat cs)"
    by (simp add: unspaced_def)
  have "length pend + length c \<le> int_max" using Cons.prems by (simp add: dec_holds_def)
  note step = EVP_DecodeUpdate_groups [OF Cons.prems(1) this, of m]
  show ?case
  proof (cases "decode_groups (pend @ unspaced c) eof")
    case None
    then show ?thesis using step unfolding u decode_groups_append [of "pend @ unspaced c"] by auto
  next
    case (Some r)
    obtain bs pend' e where r: "r = (bs, pend', e)" by (cases r)
    then obtain ctx' where ctx': "EVP_DecodeUpdate ctx c m = (if e then 0 else 1, length bs, ctx', mem_write m 0 bs)"
        "dec_holds ctx' pend' e" using step Some by auto
    have "take (length bs) (mem_write m 0 bs) = bs" by (simp add: mem_write_def)
    then show ?thesis
      using Cons.IH [OF ctx'(2)] Cons.prems(2) ctx'(1) Some r
      unfolding u decode_groups_append [of "pend @ unspaced c"]
      by (auto split: option.splits list.splits)
  qed
qed

text \<open>The texts that leave no unfinished group are the base64 texts.\<close>

lemma decode_groups_text:
  "b64_digits ds \<Longrightarrow> \<exists>e. decode_groups (b64_text ds) False = Some (b64_bytes ds, [], e)"
proof (induction "length ds" arbitrary: ds rule: less_induct)
  case less
  consider "ds = []" | "ds \<noteq> []" "length ds \<le> 4" | "4 < length ds" by linarith
  then show ?case
  proof cases
    case 1
    then show ?thesis by (intro exI [of _ False]) (simp add: b64_text_def)
  next
    case 2
    obtain w x y z where "b64_text ds = [w, x, y, z]"
      using decode_quad_text(1) [OF less.prems(1) 2] by (auto simp: length_Suc_conv numeral_eq_Suc)
    then show ?thesis using decode_quad_text(2) [OF less.prems(1) 2] by simp
  next
    case 3
    then obtain a b c d ds' where ds: "ds = [a, b, c, d] @ ds'" "ds' \<noteq> []"
      using long_list_group by blast
    then have digits: "b64_digits [a, b, c, d]" "b64_digits ds'"
      using less.prems(1) unfolding ds b64_digits_group by (simp_all add: b64_digits_def)
    let ?bs = "b64_bytes [a, b, c, d]"
    have q: "base64_decode_quad [b64_char a, b64_char b, b64_char c, b64_char d] = Some ?bs"
      using decode_quad_text(2) [OF digits(1)] by (simp add: b64_text_def)
    have len: "length ?bs = 3" by simp
    obtain e where "decode_groups (b64_text ds') False = Some (b64_bytes ds', [], e)"
      using less.hyps [OF _ digits(2)] ds by auto
    then show ?thesis
      unfolding ds b64_text_group b64_bytes_group [of a b c d] using q len
      by (simp del: b64_bytes.simps)
  qed
qed

lemma decode_groups_only_texts:
  "decode_groups cs eof = Some (bs, [], e) \<Longrightarrow> \<not> eof \<Longrightarrow> \<exists>ds. b64_digits ds \<and> cs = b64_text ds"
proof (induction cs eof arbitrary: bs e rule: decode_groups.induct)
  case (1 w x y z cs eof)
  obtain bs' where bs': "base64_decode_quad [w, x, y, z] = Some bs'"
    using "1.prems" by (auto split: option.splits)
  obtain ds where ds: "b64_digits ds" "ds \<noteq> []" "length ds \<le> 4" "[w, x, y, z] = b64_text ds"
    using decode_quad_Some [OF bs'] by blast
  have b: "bs' = b64_bytes ds" using decode_quad_text(2) [OF ds(1-3)] bs' unfolding ds(4) [symmetric] by simp
  obtain bs'' e' where rest: "decode_groups cs (length bs' < 3) = Some (bs'', [], e')"
    using "1.prems" bs' by (auto split: option.splits)
  show ?case
  proof (cases "cs = []")
    case True
    then show ?thesis using ds by auto
  next
    case False
    then have full: "\<not> length bs' < 3" using rest by (auto simp: decode_groups_eof)
    then have "length bs' = 3" using decode_quad_length [OF bs'] by simp
    then obtain a b c d where abcd: "ds = [a, b, c, d]" using full_group [OF ds(1-3)] b by blast
    obtain ds' where ds': "b64_digits ds'" "cs = b64_text ds'"
      using "1.IH" [OF _ bs' rest full] "1.prems"(2) by auto
    then have "b64_digits ([a, b, c, d] @ ds')" using ds(1) abcd
      unfolding b64_digits_group by (simp add: b64_digits_def)
    moreover have "w # x # y # z # cs = b64_text ([a, b, c, d] @ ds')"
      using ds(4) ds'(2) unfolding abcd b64_text_group length_group by simp
    ultimately show ?thesis by blast
  qed
qed (auto simp: b64_digits_def b64_text_def split: if_splits)

lemma EVP_DecodeInit_holds: "dec_holds EVP_DecodeInit [] False"
  by (simp add: dec_holds_def EVP_DecodeInit_def)

section \<open>Properties\<close>

text \<open>
  C18: in whatever chunks the input arrives, the assertion of the streaming encoder holds and it
  outputs the base64 lines of the whole input: 64 characters and a newline for every 48 bytes, and
  a last shorter line.
\<close>

theorem EVP_Encode_chunks:
  assumes "length (b64_lines (concat cs)) \<le> int_max"
  shows "encode_run m EVP_EncodeInit cs = Some (b64_stream (concat cs))"
  using encode_run_writes [OF EVP_EncodeInit_holds] assms by simp

theorem EVP_Encode_chunks_witness:
  "encode_run [] EVP_EncodeInit [[1], [], [2, 3]] = Some (b64_stream [1, 2, 3])"
  using EVP_Encode_chunks [of "[[1], [], [2, 3]]" "[]"] by simp

text \<open>
  C19: in whatever chunks the text arrives, the streaming decoder returns the decoded bytes
  exactly when the characters that are not white space form a base64 text, and an error
  otherwise.
\<close>

theorem EVP_Decode_chunks:
  assumes "\<forall>c \<in> set cs. length c + 4 \<le> int_max"
  shows "decode_run m EVP_DecodeInit cs = Some bs \<longleftrightarrow>
    (\<exists>ds. b64_digits ds \<and> unspaced (concat cs) = b64_text ds \<and> bs = b64_bytes ds)"
proof -
  have run: "decode_run m EVP_DecodeInit cs =
      (case decode_groups (unspaced (concat cs)) False of Some (bs, [], e) \<Rightarrow> Some bs | _ \<Rightarrow> None)"
    using decode_run_groups [OF EVP_DecodeInit_holds assms] by simp
  show ?thesis
  proof
    assume "decode_run m EVP_DecodeInit cs = Some bs"
    then obtain e where g: "decode_groups (unspaced (concat cs)) False = Some (bs, [], e)"
      using run by (auto split: option.splits list.splits)
    then obtain ds where "b64_digits ds" "unspaced (concat cs) = b64_text ds"
      using decode_groups_only_texts by blast
    then show "\<exists>ds. b64_digits ds \<and> unspaced (concat cs) = b64_text ds \<and> bs = b64_bytes ds"
      using decode_groups_text [of ds] g by auto
  next
    assume "\<exists>ds. b64_digits ds \<and> unspaced (concat cs) = b64_text ds \<and> bs = b64_bytes ds"
    then obtain ds where ds: "b64_digits ds" "unspaced (concat cs) = b64_text ds" "bs = b64_bytes ds" by blast
    obtain e where "decode_groups (b64_text ds) False = Some (b64_bytes ds, [], e)"
      using decode_groups_text [OF ds(1)] by blast
    then show "decode_run m EVP_DecodeInit cs = Some bs" using run ds by simp
  qed
qed

theorem EVP_Decode_chunks_witness:
  "\<exists>bs. decode_run [] EVP_DecodeInit [[0x41, 0x51], [0x0a, 0x3d, 0x3d]] = Some bs"
proof -
  have "b64_char 0 = 0x41" "b64_char 16 = 0x51" by (simp_all add: b64_char_eq)
  then have "b64_digits [0, 16] \<and> unspaced (concat [[0x41, 0x51], [0x0a, 0x3d, 0x3d]]) = b64_text [0, 16]"
    by (simp add: b64_digits_def b64_text_def unspaced_def is_space_def replicate_2)
  then show ?thesis
    using EVP_Decode_chunks [of "[[0x41, 0x51], [0x0a, 0x3d, 0x3d]]" "[]" "b64_bytes [0, 16]"] by auto
qed

end
