(* ===== verification/Refcount.thy ===== *)
theory Refcount
  imports Prelude
begin

text \<open>
  \<open>crypto/refcount_c11.c\<close>: reference counts that saturate, updated by compare-and-exchange
  loops.  The functions of one call without interference are \<open>CRYPTO_refcount_inc\<close> and
  \<open>CRYPTO_refcount_dec_and_test_zero\<close>; the concurrent calls are a step relation on the count
  and the program counters of the threads, one step for each access to the count.
\<close>

definition CRYPTO_REFCOUNT_MAX :: u32 where
  "CRYPTO_REFCOUNT_MAX = 0xffffffff"

section \<open>One call alone\<close>

definition CRYPTO_refcount_inc :: "u32 \<Rightarrow> u32" where
  "CRYPTO_refcount_inc count = (if count \<noteq> CRYPTO_REFCOUNT_MAX then count + 1 else count)"

text \<open>\<open>None\<close> is the call of \<open>abort\<close>.\<close>

definition CRYPTO_refcount_dec_and_test_zero :: "u32 \<Rightarrow> (bool \<times> u32) option" where
  "CRYPTO_refcount_dec_and_test_zero count =
     (if count = 0 then None
      else if count = CRYPTO_REFCOUNT_MAX then Some (False, count)
      else Some (count - 1 = 0, count - 1))"

section \<open>Concurrent calls\<close>

text \<open>
  A thread is about to load the count, in the loop with its local variable \<open>expected\<close>, or has
  returned; \<open>Aborted\<close> ends the process.
\<close>

datatype rc_pc = IncLoad | IncLoop u32 | DecLoad | DecLoop u32 | Returned bool | Aborted

datatype rc_event = Inc | Dec bool

text \<open>
  \<open>atomic_compare_exchange_weak\<close> stores the new value only if the count is \<open>expected\<close>, and may
  fail even then; when it fails it stores the count in \<open>expected\<close>.  A step that ends a call has
  the call with its result as its event.
\<close>

inductive rc_step :: "u32 \<Rightarrow> rc_pc \<Rightarrow> rc_event option \<Rightarrow> u32 \<Rightarrow> rc_pc \<Rightarrow> bool" where
  inc_load: "rc_step c IncLoad None c (IncLoop c)"
| inc_saturated: "rc_step c (IncLoop CRYPTO_REFCOUNT_MAX) (Some Inc) c (Returned False)"
| inc_exchange: "e \<noteq> CRYPTO_REFCOUNT_MAX \<Longrightarrow> rc_step e (IncLoop e) (Some Inc) (e + 1) (Returned False)"
| inc_retry: "e \<noteq> CRYPTO_REFCOUNT_MAX \<Longrightarrow> rc_step c (IncLoop e) None c (IncLoop c)"
| dec_load: "rc_step c DecLoad None c (DecLoop c)"
| dec_abort: "rc_step c (DecLoop 0) None c Aborted"
| dec_saturated: "rc_step c (DecLoop CRYPTO_REFCOUNT_MAX) (Some (Dec False)) c (Returned False)"
| dec_exchange: "e \<noteq> 0 \<Longrightarrow> e \<noteq> CRYPTO_REFCOUNT_MAX \<Longrightarrow>
    rc_step e (DecLoop e) (Some (Dec (e - 1 = 0))) (e - 1) (Returned (e - 1 = 0))"
| dec_retry: "e \<noteq> 0 \<Longrightarrow> e \<noteq> CRYPTO_REFCOUNT_MAX \<Longrightarrow> rc_step c (DecLoop e) None c (DecLoop c)"

text \<open>The threads, and the events of a run, the last one first.\<close>

inductive rc_run ::
    "u32 \<times> (nat \<Rightarrow> rc_pc) \<Rightarrow> rc_event list \<Rightarrow> u32 \<times> (nat \<Rightarrow> rc_pc) \<Rightarrow> bool"
  for s :: "u32 \<times> (nat \<Rightarrow> rc_pc)"
where
  rc_refl: "rc_run s [] s"
| rc_trans: "rc_run s evs (c, pcs) \<Longrightarrow> rc_step c (pcs i) ev c' pc' \<Longrightarrow>
    rc_run s (case ev of None \<Rightarrow> evs | Some e \<Rightarrow> e # evs) (c', pcs(i := pc'))"

inductive_cases rc_stepE [elim!]: "rc_step c pc ev c' pc'"

lemmas rc_step_simps = rc_step.intros CRYPTO_REFCOUNT_MAX_def

section \<open>Specification\<close>

text \<open>What a sequence of calls one after the other does; the last call is the first of the list.\<close>

fun rc_after :: "rc_event list \<Rightarrow> u32 \<Rightarrow> u32 option" where
  "rc_after [] c = Some c"
| "rc_after (Inc # evs) c = map_option CRYPTO_refcount_inc (rc_after evs c)"
| "rc_after (Dec r # evs) c =
     (case rc_after evs c of
        None \<Rightarrow> None
      | Some c' \<Rightarrow>
          (case CRYPTO_refcount_dec_and_test_zero c' of
             None \<Rightarrow> None
           | Some (r', c'') \<Rightarrow> if r' = r then Some c'' else None))"

text \<open>A thread whose local variable holds the maximum is in front of a count that holds it too.\<close>

definition rc_inv :: "u32 \<Rightarrow> rc_pc \<Rightarrow> bool" where
  "rc_inv c pc \<longleftrightarrow>
     pc = IncLoop CRYPTO_REFCOUNT_MAX \<or> pc = DecLoop CRYPTO_REFCOUNT_MAX \<longrightarrow> c = CRYPTO_REFCOUNT_MAX"

lemma rc_step_inv: "rc_step c pc ev c' pc' \<Longrightarrow> rc_inv c pc \<Longrightarrow> rc_inv c' pc'"
  by (auto simp: rc_inv_def)

text \<open>The maximum is never left.\<close>

lemma rc_step_stays: "rc_step CRYPTO_REFCOUNT_MAX pc ev c' pc' \<Longrightarrow> rc_inv CRYPTO_REFCOUNT_MAX pc \<Longrightarrow>
    c' = CRYPTO_REFCOUNT_MAX"
  by auto

lemma rc_step_after:
  assumes "rc_step c pc (Some e) c' pc'" and "rc_inv c pc" and "rc_after evs c0 = Some c"
  shows "rc_after (e # evs) c0 = Some c'"
  using assms
  by (auto simp: rc_inv_def CRYPTO_refcount_inc_def CRYPTO_refcount_dec_and_test_zero_def
      CRYPTO_REFCOUNT_MAX_def)

lemma rc_step_silent: "rc_step c pc None c' pc' \<Longrightarrow> c' = c"
  by auto

lemma rc_run_inv:
  assumes "rc_run s evs t" and "\<And>i. rc_inv (fst s) (snd s i)"
  shows "(\<forall>i. rc_inv (fst t) (snd t i)) \<and> rc_after evs (fst s) = Some (fst t)"
  using assms(1)
proof (induction rule: rc_run.induct)
  case rc_refl
  show ?case using assms(2) by simp
next
  case (rc_trans evs c pcs i ev c' pc')
  have inv: "rc_inv c (pcs i)" for i using rc_trans.IH by simp
  have "rc_inv c' (pcs j)" for j
    using rc_step_stays [of "pcs i" ev c' pc'] rc_trans.hyps(2) inv [of i] inv [of j]
    by (auto simp: rc_inv_def)
  then have "rc_inv c' ((pcs(i := pc')) j)" for j
    using rc_step_inv [OF rc_trans.hyps(2) inv] by simp
  moreover have "rc_after (case ev of None \<Rightarrow> evs | Some e \<Rightarrow> e # evs) (fst s) = Some c'"
  proof (cases ev)
    case None
    then show ?thesis using rc_trans.IH rc_step_silent rc_trans.hyps(2) by auto
  next
    case (Some e)
    then show ?thesis using rc_step_after [of c "pcs i" e c' pc' evs] rc_trans inv by auto
  qed
  ultimately show ?case by simp
qed

text \<open>
  C25: whatever the interleaving of the loads and exchanges of the threads, the calls that have
  returned have the results, and the count has the value, of the same calls made one after the
  other, in the order of their last steps.
\<close>

theorem refcount_linearizable:
  assumes "rc_run (c, pcs) evs (c', pcs')" and "\<And>i. pcs i \<in> {IncLoad, DecLoad}"
  shows "rc_after evs c = Some c'"
proof -
  have "rc_inv (fst (c, pcs)) (snd (c, pcs) i)" for i using assms(2) [of i] by (auto simp: rc_inv_def)
  from rc_run_inv [OF assms(1) this] show ?thesis by simp
qed

lemma rc_example:
  "rc_run (1, (\<lambda>_. DecLoad)(0 := IncLoad)) [Dec False, Inc]
     (1, (\<lambda>_. DecLoad)(0 := Returned False, 1 := Returned False))"
proof -
  let ?p = "(\<lambda>_ :: nat. DecLoad)(0 := IncLoad)"
  have "rc_run (1, ?p) [] (1, ?p(1 := DecLoop 1))"
    using rc_trans [OF rc_refl, of 1 ?p 1 None] dec_load by simp
  from rc_trans [OF this, of 0 None 1 "IncLoop 1"]
  have "rc_run (1, ?p) [] (1, ?p(1 := DecLoop 1, 0 := IncLoop 1))"
    using inc_load by simp
  from rc_trans [OF this, of 0 "Some Inc" 2 "Returned False"]
  have "rc_run (1, ?p) [Inc] (2, ?p(1 := DecLoop 1, 0 := Returned False))"
    using inc_exchange [of 1] by (simp add: CRYPTO_REFCOUNT_MAX_def)
  from rc_trans [OF this, of 1 None 2 "DecLoop 2"]
  have "rc_run (1, ?p) [Inc] (2, ?p(1 := DecLoop 2, 0 := Returned False))"
    using dec_retry [of 1 2] by (simp add: CRYPTO_REFCOUNT_MAX_def fun_upd_twist)
  from rc_trans [OF this, of 1 "Some (Dec False)" 1 "Returned False"]
  show ?thesis
    using dec_exchange [of 2] by (simp add: CRYPTO_REFCOUNT_MAX_def fun_upd_twist)
qed

theorem refcount_linearizable_witness:
  "rc_after [Dec False, Inc] 1 = Some 1"
  by (rule refcount_linearizable [OF rc_example]) simp

section \<open>The last owner\<close>

definition releasing :: "rc_pc \<Rightarrow> bool" where
  "releasing pc \<longleftrightarrow> pc \<noteq> IncLoad \<and> (\<forall>e. pc \<noteq> IncLoop e)"

lemma rc_step_releasing: "rc_step c pc ev c' pc' \<Longrightarrow> releasing pc \<Longrightarrow>
    releasing pc' \<and> (\<forall>e. ev = Some e \<longrightarrow> e \<noteq> Inc)"
  by (auto simp: releasing_def)

lemma rc_run_releasing:
  assumes "rc_run s evs t" and "\<And>i. releasing (snd s i)"
  shows "(\<forall>i. releasing (snd t i)) \<and> Inc \<notin> set evs"
  using assms(1)
proof (induction rule: rc_run.induct)
  case rc_refl
  show ?case using assms(2) by simp
next
  case (rc_trans evs c pcs i ev c' pc')
  then show ?case using rc_step_releasing [OF rc_trans.hyps(2)] by (auto split: option.splits)
qed

lemma rc_after_decs:
  assumes "rc_after evs c = Some c'" and "Inc \<notin> set evs" and "c \<noteq> CRYPTO_REFCOUNT_MAX"
  shows "unat c' + length evs = unat c \<and> (\<forall>k < length evs. evs ! k = Dec (length evs - k = unat c))"
  using assms(1,2)
proof (induction evs arbitrary: c')
  case Nil
  then show ?case by simp
next
  case (Cons e evs)
  obtain r where e: "e = Dec r" using Cons.prems(2) by (cases e) auto
  then obtain c1 where c1: "rc_after evs c = Some c1"
      and d: "CRYPTO_refcount_dec_and_test_zero c1 = Some (r, c')"
    using Cons.prems(1) by (auto split: option.splits prod.splits if_splits)
  have IH: "unat c1 + length evs = unat c" "\<forall>k < length evs. evs ! k = Dec (length evs - k = unat c)"
    using Cons.IH [OF c1] Cons.prems(2) by auto
  have "unat c1 \<le> unat c" using IH(1) by simp
  moreover have "unat c < unat CRYPTO_REFCOUNT_MAX"
  proof -
    have "unat c \<noteq> 4294967295" using assms(3) by (simp add: CRYPTO_REFCOUNT_MAX_def word_unat_eq_iff)
    moreover have "unat c < 4294967296" using unsigned_less [of c, where 'a = nat] by simp
    ultimately show ?thesis by (simp add: CRYPTO_REFCOUNT_MAX_def)
  qed
  ultimately have "c1 \<noteq> CRYPTO_REFCOUNT_MAX" by auto
  then have c': "c1 \<noteq> 0" "c' = c1 - 1" "r \<longleftrightarrow> c' = 0"
    using d by (auto simp: CRYPTO_refcount_dec_and_test_zero_def split: if_splits)
  have u: "unat c' + 1 = unat c1" using c'(1,2) unat_minus_one [of c1] by (simp add: unat_gt_0)
  have "r \<longleftrightarrow> unat c' = 0" using c'(3) by (simp add: unat_eq_0)
  then have "r \<longleftrightarrow> Suc (length evs) = unat c" using u IH(1) by linarith
  then show ?case using IH u e by (auto simp: nth_Cons split: nat.splits)
qed

text \<open>
  C26: when threads release references, the call that releases the last one, and no other,
  reports it, whatever the interleaving.
\<close>

theorem refcount_last_release:
  assumes "rc_run (c, pcs) evs (c', pcs')" and "\<And>i. pcs i = DecLoad" and "c \<noteq> CRYPTO_REFCOUNT_MAX"
  shows "unat c' + length evs = unat c \<and> (\<forall>k < length evs. rev evs ! k = Dec (k + 1 = unat c))"
proof -
  have after: "rc_after evs c = Some c'"
    using rc_run_inv [OF assms(1)] assms(2) by (auto simp: rc_inv_def)
  have "Inc \<notin> set evs" using rc_run_releasing [OF assms(1)] assms(2) by (simp add: releasing_def)
  from rc_after_decs [OF after this assms(3)]
  have len: "unat c' + length evs = unat c" and nth: "\<And>k. k < length evs \<Longrightarrow> evs ! k = Dec (length evs - k = unat c)"
    by blast+
  have "rev evs ! k = Dec (k + 1 = unat c)" if "k < length evs" for k
    using nth [of "length evs - Suc k"] that by (simp add: rev_nth)
  then show ?thesis using len by blast
qed

lemma rc_release_example:
  "rc_run (1, \<lambda>_. DecLoad) [Dec True] (0, (\<lambda>_. DecLoad)(0 := Returned True))"
proof -
  have "rc_run (1, \<lambda>_. DecLoad) [] (1, (\<lambda>_. DecLoad)(0 := DecLoop 1))"
    using rc_trans [OF rc_refl, of 1 "\<lambda>_. DecLoad" 0 None] dec_load by simp
  from rc_trans [OF this, of 0 "Some (Dec True)" 0 "Returned True"]
  show ?thesis using dec_exchange [of 1] by (simp add: CRYPTO_REFCOUNT_MAX_def)
qed

theorem refcount_last_release_witness: "rev [Dec True] ! 0 = Dec (0 + 1 = unat (1 :: u32))"
  using refcount_last_release [OF rc_release_example] by (simp add: CRYPTO_REFCOUNT_MAX_def)

end
