(* ===== verification/Bio.thy ===== *)
theory Bio
  imports Refcount Mem "HOL-Library.Monad_Syntax"
begin

text \<open>
  \<open>crypto/bio/bio.c\<close>: the I/O abstraction.  The objects are in a heap, a map from addresses; the
  tables of methods are given by the environment, which also hands out the addresses of new
  objects.  A function gives \<open>None\<close> where the code follows a pointer to no live object, fails an
  assertion or does not return.
\<close>

section \<open>State\<close>

record 'p bio =
  bio_method :: nat
  bio_init :: bool
  bio_shutdown :: int
  bio_flags :: u32
  bio_retry_reason :: int
  bio_num :: int
  bio_references :: u32
  bio_ptr :: "'p option"
  bio_next_bio :: nat
  bio_num_read :: nat
  bio_num_write :: nat

type_synonym 'p bios = "nat \<Rightarrow> 'p bio option"

text \<open>
  The methods.  The data of a write is \<open>None\<close> for a null pointer; a read gets the length of the
  buffer and whether there is one, and returns the bytes it stored.
\<close>

record 'p bio_meth =
  m_type :: u32
  m_bwrite :: "(nat \<Rightarrow> u8 list option \<Rightarrow> 'p bios \<Rightarrow> (int \<times> 'p bios) option) option"
  m_bread :: "(nat \<Rightarrow> bool \<Rightarrow> nat \<Rightarrow> 'p bios \<Rightarrow> (int \<times> u8 list \<times> 'p bios) option) option"
  m_bgets :: "(nat \<Rightarrow> bool \<Rightarrow> nat \<Rightarrow> 'p bios \<Rightarrow> (int \<times> u8 list \<times> 'p bios) option) option"
  m_ctrl :: "(nat \<Rightarrow> int \<Rightarrow> int \<Rightarrow> nat \<Rightarrow> 'p bios \<Rightarrow> (int \<times> 'p bios) option) option"
  m_create :: "(nat \<Rightarrow> 'p bios \<Rightarrow> (bool \<times> 'p bios) option) option"
  m_destroy :: "(nat \<Rightarrow> 'p bios \<Rightarrow> 'p bios option) option"

record 'p bio_env =
  e_methods :: "nat \<Rightarrow> 'p bio_meth option"
  e_new :: "'p bios \<Rightarrow> nat"

definition BIO_FLAGS_READ :: u32 where "BIO_FLAGS_READ = 0x01"
definition BIO_FLAGS_WRITE :: u32 where "BIO_FLAGS_WRITE = 0x02"
definition BIO_FLAGS_IO_SPECIAL :: u32 where "BIO_FLAGS_IO_SPECIAL = 0x04"
definition BIO_FLAGS_RWS :: u32 where
  "BIO_FLAGS_RWS = BIO_FLAGS_READ OR BIO_FLAGS_WRITE OR BIO_FLAGS_IO_SPECIAL"
definition BIO_FLAGS_SHOULD_RETRY :: u32 where "BIO_FLAGS_SHOULD_RETRY = 0x08"
definition kRetryFlags :: u32 where "kRetryFlags = BIO_FLAGS_RWS OR BIO_FLAGS_SHOULD_RETRY"

lemmas bio_flag_defs =
  BIO_FLAGS_READ_def BIO_FLAGS_WRITE_def BIO_FLAGS_IO_SPECIAL_def BIO_FLAGS_RWS_def
  BIO_FLAGS_SHOULD_RETRY_def kRetryFlags_def

definition BIO_CTRL_RESET :: int where "BIO_CTRL_RESET = 1"
definition BIO_CTRL_EOF :: int where "BIO_CTRL_EOF = 2"
definition BIO_CTRL_GET_CLOSE :: int where "BIO_CTRL_GET_CLOSE = 8"
definition BIO_CTRL_SET_CLOSE :: int where "BIO_CTRL_SET_CLOSE = 9"
definition BIO_CTRL_PENDING :: int where "BIO_CTRL_PENDING = 10"
definition BIO_CTRL_FLUSH :: int where "BIO_CTRL_FLUSH = 11"
definition BIO_CTRL_WPENDING :: int where "BIO_CTRL_WPENDING = 13"

lemmas bio_ctrl_defs =
  BIO_CTRL_RESET_def BIO_CTRL_EOF_def BIO_CTRL_GET_CLOSE_def BIO_CTRL_SET_CLOSE_def
  BIO_CTRL_PENDING_def BIO_CTRL_FLUSH_def BIO_CTRL_WPENDING_def

text \<open>An update of the object at an address; the null pointer is not the address of an object.\<close>

definition bio_at :: "nat \<Rightarrow> 'p bios \<Rightarrow> 'p bio option" where
  "bio_at a w = (if a = 0 then None else w a)"

definition bio_upd :: "nat \<Rightarrow> ('p bio \<Rightarrow> 'p bio) \<Rightarrow> 'p bios \<Rightarrow> 'p bios option" where
  "bio_upd a f w = do { b \<leftarrow> bio_at a w; Some (w(a \<mapsto> f b)) }"

definition bio_methods :: "'p bio_env \<Rightarrow> 'p bio \<Rightarrow> 'p bio_meth option" where
  "bio_methods env b = (if bio_method b = 0 then None else e_methods env (bio_method b))"

section \<open>Creation and release\<close>

definition BIO_pop :: "nat \<Rightarrow> 'p bios \<Rightarrow> (nat \<times> 'p bios) option" where
  "BIO_pop bio w =
     (if bio = 0 then Some (0, w)
      else do {
        b \<leftarrow> bio_at bio w;
        w \<leftarrow> bio_upd bio (\<lambda>b. b\<lparr>bio_next_bio := 0\<rparr>) w;
        Some (bio_next_bio b, w) })"

definition BIO_new :: "'p bio_env \<Rightarrow> nat \<Rightarrow> 'p bios \<Rightarrow> (nat \<times> 'p bios) option" where
  "BIO_new env meth w =
     (let ret = e_new env w in
      if ret = 0 then Some (0, w)
      else do {
        m \<leftarrow> e_methods env meth;
        let w = w(ret \<mapsto> \<lparr>bio_method = meth, bio_init = False, bio_shutdown = 1, bio_flags = 0,
                          bio_retry_reason = 0, bio_num = 0, bio_references = 1, bio_ptr = None,
                          bio_next_bio = 0, bio_num_read = 0, bio_num_write = 0\<rparr>);
        case m_create m of
          None \<Rightarrow> Some (ret, w)
        | Some create \<Rightarrow> do {
            (ok, w) \<leftarrow> create ret w;
            Some (if ok then (ret, w) else (0, w(ret := None))) } })"

text \<open>The chain behind the object is released too; its length is not bounded.\<close>

partial_function (option) BIO_free :: "'p bio_env \<Rightarrow> nat \<Rightarrow> 'p bios \<Rightarrow> (int \<times> 'p bios) option" where
  "BIO_free env bio w =
     (if bio = 0 then Some (1, w)
      else do {
        b \<leftarrow> bio_at bio w;
        (zero, refs) \<leftarrow> CRYPTO_refcount_dec_and_test_zero (bio_references b);
        let w = w(bio \<mapsto> b\<lparr>bio_references := refs\<rparr>);
        if \<not> zero then Some (0, w)
        else do {
          (next_bio, w) \<leftarrow> BIO_pop bio w;
          b \<leftarrow> bio_at bio w;
          w \<leftarrow> (case bio_methods env b of
                 None \<Rightarrow> Some w
               | Some m \<Rightarrow> (case m_destroy m of None \<Rightarrow> Some w | Some destroy \<Rightarrow> destroy bio w));
          BIO_free env next_bio (w(bio := None)) } })"

declare BIO_free.simps [code]

definition BIO_up_ref :: "nat \<Rightarrow> 'p bios \<Rightarrow> (int \<times> 'p bios) option" where
  "BIO_up_ref bio w = do {
     w \<leftarrow> bio_upd bio (\<lambda>b. b\<lparr>bio_references := CRYPTO_refcount_inc (bio_references b)\<rparr>) w;
     Some (1, w) }"

definition BIO_vfree :: "'p bio_env \<Rightarrow> nat \<Rightarrow> 'p bios \<Rightarrow> 'p bios option" where
  "BIO_vfree env bio w = do { (_, w) \<leftarrow> BIO_free env bio w; Some w }"

definition BIO_free_all :: "'p bio_env \<Rightarrow> nat \<Rightarrow> 'p bios \<Rightarrow> 'p bios option" where
  "BIO_free_all env bio w = do { (_, w) \<leftarrow> BIO_free env bio w; Some w }"

section \<open>Reading and writing\<close>

text \<open>What \<open>BIO_read\<close> and \<open>BIO_gets\<close> share: the checks, the call and the count of bytes.\<close>

definition bio_input ::
    "'p bio_env \<Rightarrow> ('p bio_meth \<Rightarrow> (nat \<Rightarrow> bool \<Rightarrow> nat \<Rightarrow> 'p bios \<Rightarrow> (int \<times> u8 list \<times> 'p bios) option) option) \<Rightarrow>
     nat \<Rightarrow> bool \<Rightarrow> int \<Rightarrow> 'p bios \<Rightarrow> (int \<times> u8 list \<times> 'p bios) option"
where
  "bio_input env sel bio buf len w =
     (if bio = 0 then Some (- 2, [], w)
      else do {
        b \<leftarrow> bio_at bio w;
        case Option.bind (bio_methods env b) sel of
          None \<Rightarrow> Some (- 2, [], w)
        | Some bread \<Rightarrow>
            if \<not> bio_init b then Some (- 2, [], w)
            else if len \<le> 0 then Some (0, [], w)
            else do {
              (ret, bs, w) \<leftarrow> bread bio buf (nat len) w;
              w \<leftarrow> (if ret > 0
                    then bio_upd bio (\<lambda>b. b\<lparr>bio_num_read := wrap64 (bio_num_read b + nat ret)\<rparr>) w
                    else Some w);
              Some (ret, bs, w) } })"

definition BIO_read :: "'p bio_env \<Rightarrow> nat \<Rightarrow> bool \<Rightarrow> int \<Rightarrow> 'p bios \<Rightarrow> (int \<times> u8 list \<times> 'p bios) option" where
  "BIO_read env = bio_input env m_bread"

definition BIO_gets :: "'p bio_env \<Rightarrow> nat \<Rightarrow> bool \<Rightarrow> int \<Rightarrow> 'p bios \<Rightarrow> (int \<times> u8 list \<times> 'p bios) option" where
  "BIO_gets env = bio_input env m_bgets"

text \<open>\<open>data\<close> is the memory from the pointer on; the first \<open>inl\<close> bytes are written.\<close>

definition BIO_write ::
    "'p bio_env \<Rightarrow> nat \<Rightarrow> u8 list option \<Rightarrow> int \<Rightarrow> 'p bios \<Rightarrow> (int \<times> 'p bios) option"
where
  "BIO_write env bio data inl w =
     (if bio = 0 then Some (- 2, w)
      else do {
        b \<leftarrow> bio_at bio w;
        case Option.bind (bio_methods env b) m_bwrite of
          None \<Rightarrow> Some (- 2, w)
        | Some bwrite \<Rightarrow>
            if \<not> bio_init b then Some (- 2, w)
            else if inl \<le> 0 then Some (0, w)
            else do {
              (ret, w) \<leftarrow> bwrite bio (map_option (take (nat inl)) data) w;
              w \<leftarrow> (if ret > 0
                    then bio_upd bio (\<lambda>b. b\<lparr>bio_num_write := wrap64 (bio_num_write b + nat ret)\<rparr>) w
                    else Some w);
              Some (ret, w) } })"

definition INT_MAX :: int where
  "INT_MAX = 2 ^ 31 - 1"

function BIO_write_all ::
    "'p bio_env \<Rightarrow> nat \<Rightarrow> u8 list \<Rightarrow> 'p bios \<Rightarrow> (bool \<times> 'p bios) option"
where
  "BIO_write_all env bio data w =
     (if data = [] then Some (True, w)
      else
        (case BIO_write env bio (Some data) (min (int (length data)) INT_MAX) w of
           None \<Rightarrow> None
         | Some (ret, w) \<Rightarrow>
             if ret \<le> 0 then Some (False, w)
             else if int (length data) < ret then None
             else BIO_write_all env bio (drop (nat ret) data) w))"
  by auto
termination by (relation "measure (\<lambda>(env, bio, data, w). length data)") auto

declare BIO_write_all.simps [simp del]

text \<open>
  The conversion of a \<open>long\<close> or \<open>size_t\<close> to an \<open>int\<close>.  The argument of \<open>BIO_puts\<close> is the
  string without its terminating zero, so that its length is \<open>strlen\<close>.
\<close>

definition c_int :: "int \<Rightarrow> int" where
  "c_int i = sint (word_of_int i :: 32 word)"

lemma c_int_small: "- (2 ^ 31) \<le> i \<Longrightarrow> i < 2 ^ 31 \<Longrightarrow> c_int i = i"
  by (simp add: c_int_def sint_sbintrunc' signed_take_bit_int_eq_self)

definition BIO_puts :: "'p bio_env \<Rightarrow> nat \<Rightarrow> u8 list \<Rightarrow> 'p bios \<Rightarrow> (int \<times> 'p bios) option" where
  "BIO_puts env bio str w = BIO_write env bio (Some str) (c_int (int (length str))) w"

fun BIO_indent_loop :: "'p bio_env \<Rightarrow> nat \<Rightarrow> nat \<Rightarrow> 'p bios \<Rightarrow> (bool \<times> 'p bios) option" where
  "BIO_indent_loop env bio 0 w = Some (True, w)"
| "BIO_indent_loop env bio (Suc indent) w = do {
     (r, w) \<leftarrow> BIO_puts env bio [0x20] w;
     if r \<noteq> 1 then Some (False, w) else BIO_indent_loop env bio indent w }"

definition BIO_indent :: "'p bio_env \<Rightarrow> nat \<Rightarrow> nat \<Rightarrow> nat \<Rightarrow> 'p bios \<Rightarrow> (bool \<times> 'p bios) option" where
  "BIO_indent env bio indent max_indent w =
     BIO_indent_loop env bio (if indent > max_indent then max_indent else indent) w"

section \<open>Control\<close>

definition BIO_ctrl :: "'p bio_env \<Rightarrow> nat \<Rightarrow> int \<Rightarrow> int \<Rightarrow> nat \<Rightarrow> 'p bios \<Rightarrow> (int \<times> 'p bios) option" where
  "BIO_ctrl env bio cmd larg parg w =
     (if bio = 0 then Some (0, w)
      else do {
        b \<leftarrow> bio_at bio w;
        case Option.bind (bio_methods env b) m_ctrl of
          None \<Rightarrow> Some (- 2, w)
        | Some ctrl \<Rightarrow> ctrl bio cmd larg parg w })"

definition BIO_flush :: "'p bio_env \<Rightarrow> nat \<Rightarrow> 'p bios \<Rightarrow> (int \<times> 'p bios) option" where
  "BIO_flush env bio w = map_option (map_prod c_int id) (BIO_ctrl env bio BIO_CTRL_FLUSH 0 0 w)"

definition BIO_reset :: "'p bio_env \<Rightarrow> nat \<Rightarrow> 'p bios \<Rightarrow> (int \<times> 'p bios) option" where
  "BIO_reset env bio w = map_option (map_prod c_int id) (BIO_ctrl env bio BIO_CTRL_RESET 0 0 w)"

definition BIO_eof :: "'p bio_env \<Rightarrow> nat \<Rightarrow> 'p bios \<Rightarrow> (int \<times> 'p bios) option" where
  "BIO_eof env bio w = map_option (map_prod c_int id) (BIO_ctrl env bio BIO_CTRL_EOF 0 0 w)"

definition BIO_set_close :: "'p bio_env \<Rightarrow> nat \<Rightarrow> int \<Rightarrow> 'p bios \<Rightarrow> (int \<times> 'p bios) option" where
  "BIO_set_close env bio close_flag w =
     map_option (map_prod c_int id) (BIO_ctrl env bio BIO_CTRL_SET_CLOSE close_flag 0 w)"

definition BIO_pending :: "'p bio_env \<Rightarrow> nat \<Rightarrow> 'p bios \<Rightarrow> (nat \<times> 'p bios) option" where
  "BIO_pending env bio w = do {
     (r, w) \<leftarrow> BIO_ctrl env bio BIO_CTRL_PENDING 0 0 w;
     if r \<ge> 0 then Some (nat r, w) else None }"

definition BIO_ctrl_pending :: "'p bio_env \<Rightarrow> nat \<Rightarrow> 'p bios \<Rightarrow> (nat \<times> 'p bios) option" where
  "BIO_ctrl_pending = BIO_pending"

definition BIO_wpending :: "'p bio_env \<Rightarrow> nat \<Rightarrow> 'p bios \<Rightarrow> (nat \<times> 'p bios) option" where
  "BIO_wpending env bio w = do {
     (r, w) \<leftarrow> BIO_ctrl env bio BIO_CTRL_WPENDING 0 0 w;
     if r \<ge> 0 then Some (nat r, w) else None }"

section \<open>Flags\<close>

definition BIO_set_flags :: "u32 \<Rightarrow> 'p bio \<Rightarrow> 'p bio" where
  "BIO_set_flags flags b = b\<lparr>bio_flags := bio_flags b OR flags\<rparr>"

definition BIO_test_flags :: "'p bio \<Rightarrow> u32 \<Rightarrow> u32" where
  "BIO_test_flags b flags = bio_flags b AND flags"

definition BIO_should_read :: "'p bio \<Rightarrow> bool" where
  "BIO_should_read b \<longleftrightarrow> BIO_test_flags b BIO_FLAGS_READ \<noteq> 0"

definition BIO_should_write :: "'p bio \<Rightarrow> bool" where
  "BIO_should_write b \<longleftrightarrow> BIO_test_flags b BIO_FLAGS_WRITE \<noteq> 0"

definition BIO_should_retry :: "'p bio \<Rightarrow> bool" where
  "BIO_should_retry b \<longleftrightarrow> BIO_test_flags b BIO_FLAGS_SHOULD_RETRY \<noteq> 0"

definition BIO_should_io_special :: "'p bio \<Rightarrow> bool" where
  "BIO_should_io_special b \<longleftrightarrow> BIO_test_flags b BIO_FLAGS_IO_SPECIAL \<noteq> 0"

definition BIO_clear_flags :: "u32 \<Rightarrow> 'p bio \<Rightarrow> 'p bio" where
  "BIO_clear_flags flags b = b\<lparr>bio_flags := bio_flags b AND NOT flags\<rparr>"

definition BIO_set_retry_read :: "'p bio \<Rightarrow> 'p bio" where
  "BIO_set_retry_read b = b\<lparr>bio_flags := bio_flags b OR (BIO_FLAGS_READ OR BIO_FLAGS_SHOULD_RETRY)\<rparr>"

definition BIO_set_retry_write :: "'p bio \<Rightarrow> 'p bio" where
  "BIO_set_retry_write b = b\<lparr>bio_flags := bio_flags b OR (BIO_FLAGS_WRITE OR BIO_FLAGS_SHOULD_RETRY)\<rparr>"

definition BIO_set_retry_special :: "'p bio \<Rightarrow> 'p bio" where
  "BIO_set_retry_special b = b\<lparr>bio_flags := bio_flags b OR (BIO_FLAGS_READ OR BIO_FLAGS_IO_SPECIAL)\<rparr>"

definition BIO_get_retry_flags :: "'p bio \<Rightarrow> u32" where
  "BIO_get_retry_flags b = bio_flags b AND kRetryFlags"

definition BIO_clear_retry_flags :: "'p bio \<Rightarrow> 'p bio" where
  "BIO_clear_retry_flags b = b\<lparr>bio_flags := bio_flags b AND NOT kRetryFlags, bio_retry_reason := 0\<rparr>"

definition BIO_copy_next_retry :: "nat \<Rightarrow> 'p bios \<Rightarrow> 'p bios option" where
  "BIO_copy_next_retry bio w = do {
     w \<leftarrow> bio_upd bio BIO_clear_retry_flags w;
     b \<leftarrow> bio_at bio w;
     nb \<leftarrow> bio_at (bio_next_bio b) w;
     w \<leftarrow> bio_upd bio (BIO_set_flags (BIO_get_retry_flags nb)) w;
     nb \<leftarrow> bio_at (bio_next_bio b) w;
     bio_upd bio (\<lambda>b. b\<lparr>bio_retry_reason := bio_retry_reason nb\<rparr>) w }"

section \<open>Chains\<close>

partial_function (option) last_bio :: "nat \<Rightarrow> 'p bios \<Rightarrow> nat option" where
  "last_bio bio w = do {
     b \<leftarrow> bio_at bio w;
     if bio_next_bio b \<noteq> 0 then last_bio (bio_next_bio b) w else Some bio }"

declare last_bio.simps [code]

definition BIO_push :: "nat \<Rightarrow> nat \<Rightarrow> 'p bios \<Rightarrow> (nat \<times> 'p bios) option" where
  "BIO_push bio appended_bio w =
     (if bio = 0 then Some (bio, w)
      else do {
        l \<leftarrow> last_bio bio w;
        w \<leftarrow> bio_upd l (\<lambda>b. b\<lparr>bio_next_bio := appended_bio\<rparr>) w;
        Some (bio, w) })"

definition BIO_next :: "nat \<Rightarrow> 'p bios \<Rightarrow> nat option" where
  "BIO_next bio w = (if bio = 0 then Some 0 else map_option bio_next_bio (bio_at bio w))"

partial_function (option) find_type_loop ::
    "'p bio_env \<Rightarrow> nat \<Rightarrow> u32 \<Rightarrow> 'p bios \<Rightarrow> nat option"
where
  "find_type_loop env bio type w = do {
     b \<leftarrow> bio_at bio w;
     let hit = (case bio_methods env b of
                  None \<Rightarrow> False
                | Some m \<Rightarrow> if type AND 0xff = 0 then m_type m AND type \<noteq> 0 else m_type m = type);
     if hit then Some bio
     else if bio_next_bio b \<noteq> 0 then find_type_loop env (bio_next_bio b) type w
     else Some 0 }"

declare find_type_loop.simps [code]

definition BIO_find_type :: "'p bio_env \<Rightarrow> nat \<Rightarrow> u32 \<Rightarrow> 'p bios \<Rightarrow> nat option" where
  "BIO_find_type env bio type w = (if bio = 0 then Some 0 else find_type_loop env bio type w)"

section \<open>Reading whole structures\<close>

text \<open>
  The result is whether all the bytes were read and, if not, whether the first read met the
  end of the data; the bytes are those stored in \<open>out\<close>.
\<close>

function bio_read_full_loop ::
    "'p bio_env \<Rightarrow> nat \<Rightarrow> nat \<Rightarrow> bool \<Rightarrow> u8 list \<Rightarrow> 'p bios \<Rightarrow> (bool \<times> bool \<times> u8 list \<times> 'p bios) option"
where
  "bio_read_full_loop env bio len first_read out w =
     (if len = 0 then Some (True, False, out, w)
      else
        (case BIO_read env bio True (min (int len) INT_MAX) w of
           None \<Rightarrow> None
         | Some (ret, bs, w) \<Rightarrow>
             if ret \<le> 0 then Some (False, first_read \<and> ret = 0, out, w)
             else if int len < ret then None
             else bio_read_full_loop env bio (len - nat ret) False (out @ bs) w))"
  by auto
termination by (relation "measure (\<lambda>(env, bio, len, fr, out, w). len)") auto

declare bio_read_full_loop.simps [simp del]

definition bio_read_full ::
    "'p bio_env \<Rightarrow> nat \<Rightarrow> nat \<Rightarrow> 'p bios \<Rightarrow> (bool \<times> bool \<times> u8 list \<times> 'p bios) option"
where
  "bio_read_full env bio len w = bio_read_full_loop env bio len True [] w"

definition kChunkSize :: nat where
  "kChunkSize = 4096"

text \<open>The sum of a \<open>size_t\<close> and an \<open>int\<close>.\<close>

definition size_plus :: "nat \<Rightarrow> int \<Rightarrow> nat" where
  "size_plus done n = nat ((int done + n) mod 2 ^ 64)"

partial_function (option) bio_read_all_loop ::
    "'p bio_env \<Rightarrow> allocator \<Rightarrow> nat \<Rightarrow> nat \<Rightarrow> u8 list \<Rightarrow> nat \<Rightarrow> nat \<Rightarrow> 'p bios \<Rightarrow> (u8 list option \<times> 'p bios) option"
where
  "bio_read_all_loop env ml bio max_len out len done w =
     (if done = len then Some (None, w)
      else do {
        let todo = wrap64 (2 ^ 64 + len - done);
        (n, bs, w) \<leftarrow> (if int todo < INT_MAX then BIO_read env bio True (int todo) w else None);
        let out = mem_write out done bs;
        if n = 0 then Some (Some (take done out), w)
        else if n = - 1 then Some (None, w)
        else
          let done = size_plus done n in
          if len < max_len \<and> wrap64 (2 ^ 64 + len - done) < kChunkSize div 2 then
            let len = wrap64 (len + kChunkSize);
                len = (if len < kChunkSize \<or> len > max_len then max_len else len)
            in (case OPENSSL_realloc ml (Some out) len of
                  None \<Rightarrow> Some (None, w)
                | Some out \<Rightarrow> bio_read_all_loop env ml bio max_len out len done w)
          else bio_read_all_loop env ml bio max_len out len done w })"

declare bio_read_all_loop.simps [code]

definition bio_read_all ::
    "'p bio_env \<Rightarrow> allocator \<Rightarrow> nat \<Rightarrow> u8 list \<Rightarrow> nat \<Rightarrow> 'p bios \<Rightarrow> (u8 list option \<times> 'p bios) option"
where
  "bio_read_all env ml bio prefix max_len w =
     (let len = wrap64 (length prefix + kChunkSize);
          len = (if len > max_len then max_len else len)
      in if len < length prefix then Some (None, w)
         else
           (case OPENSSL_malloc ml len of
              None \<Rightarrow> Some (None, w)
            | Some out \<Rightarrow>
                bio_read_all_loop env ml bio max_len (mem_write out 0 prefix) len (length prefix) w))"

text \<open>The contents of an element whose header was read.\<close>

definition read_asn1_body ::
    "'p bio_env \<Rightarrow> allocator \<Rightarrow> nat \<Rightarrow> nat \<Rightarrow> u8 list \<Rightarrow> nat \<Rightarrow> 'p bios \<Rightarrow> (u8 list option \<times> 'p bios) option"
where
  "read_asn1_body env ml bio max_len header len w =
     (if wrap64 (len + length header) < len \<or> wrap64 (len + length header) > max_len \<or> int len > INT_MAX
      then Some (None, w)
      else
        (case OPENSSL_malloc ml (len + length header) of
           None \<Rightarrow> Some (None, w)
         | Some out \<Rightarrow> do {
             let out = mem_write out 0 header;
             (ok, _, bs, w) \<leftarrow> bio_read_full env bio len w;
             let out = mem_write out (length header) bs;
             Some (if ok then Some out else None, w) }))"

definition BIO_read_asn1 ::
    "'p bio_env \<Rightarrow> allocator \<Rightarrow> nat \<Rightarrow> nat \<Rightarrow> 'p bios \<Rightarrow> (u8 list option \<times> 'p bios) option"
where
  "BIO_read_asn1 env ml bio max_len w = do {
     (ok, eof, header, w) \<leftarrow> bio_read_full env bio 2 w;
     if \<not> ok then Some (None, w)
     else
       let tag = header ! 0; length_byte = header ! 1 in
       if tag AND 0x1f = 0x1f then Some (None, w)
       else if length_byte AND 0x80 = 0 then read_asn1_body env ml bio max_len header (unat length_byte) w
       else
         let num_bytes = unat (length_byte AND 0x7f) in
         if tag AND 0x20 \<noteq> 0 \<and> num_bytes = 0 then bio_read_all env ml bio header max_len w
         else if num_bytes = 0 \<or> num_bytes > 4 then Some (None, w)
         else do {
           (ok, _, bs, w) \<leftarrow> bio_read_full env bio num_bytes w;
           if \<not> ok then Some (None, w)
           else
             let len32 = foldl (\<lambda>len32 b. push_bit 8 len32 OR ucast b) (0 :: u32) bs in
             if len32 < 128 then Some (None, w)
             else if drop_bit ((num_bytes - 1) * 8) len32 = 0 then Some (None, w)
             else read_asn1_body env ml bio max_len (header @ bs) (unat len32) w } }"

section \<open>Type numbers\<close>

text \<open>\<open>BIO_get_new_index\<close>, with the global counter as its state.\<close>

definition BIO_get_new_index :: "int \<Rightarrow> int \<times> int" where
  "BIO_get_new_index g_index = (if g_index > 255 then (- 1, g_index) else (g_index, g_index + 1))"

section \<open>Method tables and fields\<close>

definition BIO_meth_new :: "allocator \<Rightarrow> u32 \<Rightarrow> 'p bio_meth option" where
  "BIO_meth_new ml type =
     (case OPENSSL_malloc ml 80 of
        None \<Rightarrow> None
      | Some _ \<Rightarrow> Some \<lparr>m_type = type, m_bwrite = None, m_bread = None, m_bgets = None, m_ctrl = None,
                      m_create = None, m_destroy = None\<rparr>)"

definition BIO_meth_set_create :: "(nat \<Rightarrow> 'p bios \<Rightarrow> (bool \<times> 'p bios) option) option \<Rightarrow> 'p bio_meth \<Rightarrow> int \<times> 'p bio_meth" where
  "BIO_meth_set_create create m = (1, m\<lparr>m_create := create\<rparr>)"

definition BIO_meth_set_destroy :: "(nat \<Rightarrow> 'p bios \<Rightarrow> 'p bios option) option \<Rightarrow> 'p bio_meth \<Rightarrow> int \<times> 'p bio_meth" where
  "BIO_meth_set_destroy destroy m = (1, m\<lparr>m_destroy := destroy\<rparr>)"

definition BIO_meth_set_write ::
    "(nat \<Rightarrow> u8 list option \<Rightarrow> 'p bios \<Rightarrow> (int \<times> 'p bios) option) option \<Rightarrow> 'p bio_meth \<Rightarrow> int \<times> 'p bio_meth" where
  "BIO_meth_set_write bwrite m = (1, m\<lparr>m_bwrite := bwrite\<rparr>)"

definition BIO_meth_set_read ::
    "(nat \<Rightarrow> bool \<Rightarrow> nat \<Rightarrow> 'p bios \<Rightarrow> (int \<times> u8 list \<times> 'p bios) option) option \<Rightarrow> 'p bio_meth \<Rightarrow> int \<times> 'p bio_meth" where
  "BIO_meth_set_read bread m = (1, m\<lparr>m_bread := bread\<rparr>)"

definition BIO_meth_set_gets ::
    "(nat \<Rightarrow> bool \<Rightarrow> nat \<Rightarrow> 'p bios \<Rightarrow> (int \<times> u8 list \<times> 'p bios) option) option \<Rightarrow> 'p bio_meth \<Rightarrow> int \<times> 'p bio_meth" where
  "BIO_meth_set_gets bgets m = (1, m\<lparr>m_bgets := bgets\<rparr>)"

definition BIO_meth_set_ctrl ::
    "(nat \<Rightarrow> int \<Rightarrow> int \<Rightarrow> nat \<Rightarrow> 'p bios \<Rightarrow> (int \<times> 'p bios) option) option \<Rightarrow> 'p bio_meth \<Rightarrow> int \<times> 'p bio_meth" where
  "BIO_meth_set_ctrl ctrl m = (1, m\<lparr>m_ctrl := ctrl\<rparr>)"

definition BIO_set_data :: "'p option \<Rightarrow> 'p bio \<Rightarrow> 'p bio" where
  "BIO_set_data p b = b\<lparr>bio_ptr := p\<rparr>"

definition BIO_set_init :: "int \<Rightarrow> 'p bio \<Rightarrow> 'p bio" where
  "BIO_set_init i b = b\<lparr>bio_init := (i \<noteq> 0)\<rparr>"

definition BIO_set_shutdown :: "int \<Rightarrow> 'p bio \<Rightarrow> 'p bio" where
  "BIO_set_shutdown shutdown b = b\<lparr>bio_shutdown := shutdown\<rparr>"

end
