(* ===== verification/Bio_Source.thy ===== *)
theory Bio_Source
  imports Bio Asn1_Values
begin

text \<open>
  Reading from an I/O object: the contract of a source of bytes and what \<open>bio_read_full\<close> and
  \<open>BIO_read_asn1\<close> do on every source that keeps it.
\<close>

section \<open>The contract\<close>

text \<open>
  A read delivers at least one of the bytes that are there, and not more than asked for;
  without bytes it returns 0 or -1.
\<close>

locale bio_source =
  fixes env :: "'p bio_env" and bio :: nat and inv :: "'p bios \<Rightarrow> bool" and contents :: "'p bios \<Rightarrow> u8 list"
  assumes read_some: "inv w \<Longrightarrow> 0 < len \<Longrightarrow> len \<le> INT_MAX \<Longrightarrow> contents w \<noteq> [] \<Longrightarrow>
      \<exists>k w'. BIO_read env bio True len w = Some (int k, take k (contents w), w') \<and> 0 < k \<and> k \<le> nat len \<and>
        k \<le> length (contents w) \<and> inv w' \<and> contents w' = drop k (contents w)"
    and read_none: "inv w \<Longrightarrow> 0 < len \<Longrightarrow> len \<le> INT_MAX \<Longrightarrow> contents w = [] \<Longrightarrow>
      \<exists>r w'. BIO_read env bio True len w = Some (r, [], w') \<and> (r = 0 \<or> r = - 1) \<and> inv w' \<and> contents w' = []"
begin

lemma read_full_loop_enough:
  "inv w \<Longrightarrow> len \<le> length (contents w) \<Longrightarrow>
     \<exists>w'. bio_read_full_loop env bio len fr out w = Some (True, False, out @ take len (contents w), w') \<and>
       inv w' \<and> contents w' = drop len (contents w)"
proof (induction len arbitrary: fr out w rule: less_induct)
  case (less len)
  show ?case
  proof (cases "len = 0")
    case True
    then show ?thesis using less.prems by (subst bio_read_full_loop.simps) simp
  next
    case False
    let ?n = "min (int len) INT_MAX"
    have n: "0 < ?n" "?n \<le> INT_MAX" using False by (simp_all add: INT_MAX_def)
    have "contents w \<noteq> []" using less.prems(2) False by auto
    from read_some [OF less.prems(1) n this] obtain k w1 where
      k: "BIO_read env bio True ?n w = Some (int k, take k (contents w), w1)" "0 < k" "k \<le> nat ?n"
        "inv w1" "contents w1 = drop k (contents w)" by blast
    have le: "k \<le> len" using k(3) by linarith
    have "len - k < len" "len - k \<le> length (contents w1)"
      using k(2,5) le False less.prems(2) by simp_all
    from less.IH [OF this(1) k(4) this(2), of False "out @ take k (contents w)"] obtain w' where
      w': "bio_read_full_loop env bio (len - k) False (out @ take k (contents w)) w1 =
          Some (True, False, (out @ take k (contents w)) @ take (len - k) (drop k (contents w)), w')"
        "inv w'" "contents w' = drop (len - k) (drop k (contents w))"
      by (auto simp: k(5))
    have "take k (contents w) @ take (len - k) (drop k (contents w)) = take len (contents w)"
      using take_add [of k "len - k" "contents w"] le by simp
    then show ?thesis
      using w' k(1,2) le False by (subst bio_read_full_loop.simps) simp
  qed
qed

lemma read_full_loop_short:
  "inv w \<Longrightarrow> length (contents w) < len \<Longrightarrow>
     \<exists>eof out' w'. bio_read_full_loop env bio len fr out w = Some (False, eof, out', w') \<and> inv w'"
proof (induction len arbitrary: fr out w rule: less_induct)
  case (less len)
  let ?n = "min (int len) INT_MAX"
  have len: "len \<noteq> 0" using less.prems(2) by auto
  have n: "0 < ?n" "?n \<le> INT_MAX" using len by (simp_all add: INT_MAX_def)
  show ?case
  proof (cases "contents w = []")
    case True
    from read_none [OF less.prems(1) n True] show ?thesis
      using len by (subst bio_read_full_loop.simps) auto
  next
    case False
    from read_some [OF less.prems(1) n this] obtain k w1 where
      k: "BIO_read env bio True ?n w = Some (int k, take k (contents w), w1)" "0 < k" "k \<le> nat ?n"
        "inv w1" "contents w1 = drop k (contents w)" "k \<le> length (contents w)" by blast
    have le: "k \<le> len" using k(3) by linarith
    have "len - k < len" "length (contents w1) < len - k"
      using k(2,5,6) le len less.prems(2) by auto
    from less.IH [OF this(1) k(4) this(2)] show ?thesis
      using k(1,2) le len by (subst bio_read_full_loop.simps) simp
  qed
qed

lemma read_full_enough:
  "inv w \<Longrightarrow> len \<le> length (contents w) \<Longrightarrow>
     \<exists>w'. bio_read_full env bio len w = Some (True, False, take len (contents w), w') \<and>
       inv w' \<and> contents w' = drop len (contents w)"
  using read_full_loop_enough [of w len True "[]"] by (simp add: bio_read_full_def)

lemma read_full_short:
  "inv w \<Longrightarrow> length (contents w) < len \<Longrightarrow>
     \<exists>eof out w'. bio_read_full env bio len w = Some (False, eof, out, w') \<and> inv w'"
  using read_full_loop_short [of w len True "[]"] by (simp add: bio_read_full_def)

end

section \<open>ASN.1 elements\<close>

text \<open>The element at the front of some bytes, for lengths that are not indefinite.\<close>

definition split_body :: "nat \<Rightarrow> u8 list \<Rightarrow> nat \<Rightarrow> u8 list \<Rightarrow> (u8 list \<times> u8 list) option" where
  "split_body max_len hdr n h =
     (if n + length hdr > max_len \<or> int n > INT_MAX \<or> length h < n then None
      else Some (hdr @ take n h, drop n h))"

definition split_element :: "nat \<Rightarrow> u8 list \<Rightarrow> (u8 list \<times> u8 list) option" where
  "split_element max_len c =
     (case c of
        b # lb # h \<Rightarrow>
          if unat b mod 32 = 31 then None
          else if unat lb < 128 then split_body max_len [b, lb] (unat lb) h
          else
            let nb = unat lb - 128; d = take nb h in
            if nb = 0 \<or> nb > 4 \<or> length h < nb then None
            else if be_nat d < 128 \<or> be_nat d < 256 ^ (nb - 1) then None
            else split_body max_len (b # lb # d) (be_nat d) (drop nb h)
      | _ \<Rightarrow> None)"

definition malloc_big :: "allocator \<Rightarrow> bool" where
  "malloc_big ml \<longleftrightarrow> (\<forall>n \<le> 2 ^ 40. ml n \<noteq> None)"

lemma OPENSSL_malloc_big:
  assumes "malloc_ok ml" and "malloc_big ml" and "n \<le> 2 ^ 39"
  shows "\<exists>m. OPENSSL_malloc ml n = Some m \<and> length m = n"
proof -
  have "ml (n + 8) \<noteq> None" using assms(2,3) by (simp add: malloc_big_def)
  then have "OPENSSL_malloc ml n \<noteq> None" using assms(3) by (auto simp: OPENSSL_malloc_def)
  then obtain m where "OPENSSL_malloc ml n = Some m" by auto
  moreover from OPENSSL_malloc_length [OF assms(1) this] have "length m = n" using assms(3) by simp
  ultimately show ?thesis by blast
qed

lemma len32_be:
  "length bs \<le> 4 \<Longrightarrow> unat (foldl (\<lambda>l b. push_bit 8 l OR ucast b) (0 :: u32) bs) = be_nat bs"
proof (induction bs rule: rev_induct)
  case Nil
  show ?case by (simp add: byte_simps)
next
  case (snoc b bs)
  let ?l = "foldl (\<lambda>l b. push_bit 8 l OR ucast b) (0 :: u32) bs"
  have l: "unat ?l = be_nat bs" using snoc by simp
  have "be_nat (bs @ [b]) < 256 ^ 4"
    using be_nat_bound [of "bs @ [b]"] snoc.prems power_increasing [of "length (bs @ [b])" 4 "256 :: nat"]
    by (metis one_le_numeral order.strict_trans2)
  then have "unat (push_bit 8 ?l OR ucast b) = unat ?l * 2 ^ 8 + unat (ucast b :: u32)"
    using l by (intro unat_push_or) (simp_all add: byte_simps)
  then show ?case using l by (simp add: byte_simps)
qed

context bio_source begin

lemma read_body:
  assumes "inv w" and "malloc_ok ml" and "malloc_big ml" and "length header \<le> 6" and "n < 2 ^ 32"
  shows "\<exists>w'. read_asn1_body env ml bio max_len header n w =
      Some (map_option fst (split_body max_len header n (contents w)), w') \<and> inv w' \<and>
      (\<forall>out t. split_body max_len header n (contents w) = Some (out, t) \<longrightarrow> contents w' = t)"
proof (cases "n + length header > max_len \<or> int n > INT_MAX")
  case True
  then have "read_asn1_body env ml bio max_len header n w = Some (None, w)"
    using assms(4,5) by (auto simp: read_asn1_body_def)
  then show ?thesis using True assms(1) by (auto simp: split_body_def)
next
  case False
  have nw: "wrap64 (n + length header) = n + length header" using assms(4,5) by simp
  obtain m where m: "OPENSSL_malloc ml (n + length header) = Some m" "length m = n + length header"
    using OPENSSL_malloc_big [OF assms(2,3), of "n + length header"] assms(4,5) by auto
  have start: "read_asn1_body env ml bio max_len header n w = do {
      (ok, _, bs, w) \<leftarrow> bio_read_full env bio n w;
      Some (if ok then Some (mem_write (mem_write m 0 header) (length header) bs) else None, w) }"
    using False m(1) nw by (simp add: read_asn1_body_def Let_def)
  show ?thesis
  proof (cases "length (contents w) < n")
    case True
    then show ?thesis
      using read_full_short [OF assms(1) True] False by (auto simp: start split_body_def)
  next
    case enough: False
    then obtain w' where w': "bio_read_full env bio n w = Some (True, False, take n (contents w), w')"
        "inv w'" "contents w' = drop n (contents w)"
      using read_full_enough [OF assms(1), of n] by auto
    have "mem_write (mem_write m 0 header) (length header) (take n (contents w)) = header @ take n (contents w)"
      using m(2) enough by (simp add: mem_write_def)
    then show ?thesis
      using w' False enough by (auto simp: start split_body_def)
  qed
qed

lemma read_asn1:
  assumes "inv w" and "malloc_ok ml" and "malloc_big ml" and "\<forall>b h. contents w \<noteq> b # 0x80 # h"
  shows "\<exists>w'. BIO_read_asn1 env ml bio max_len w =
      Some (map_option fst (split_element max_len (contents w)), w') \<and> inv w' \<and>
      (\<forall>out t. split_element max_len (contents w) = Some (out, t) \<longrightarrow> contents w' = t)"
proof (cases "length (contents w) < 2")
  case True
  then have "split_element max_len (contents w) = None"
    by (auto simp: split_element_def split: list.splits)
  then show ?thesis
    using read_full_short [OF assms(1) True] assms(1) by (auto simp: BIO_read_asn1_def)
next
  case False
  then obtain b lb h where c: "contents w = b # lb # h"
    by (cases "contents w"; cases "tl (contents w)") auto
  have lb: "lb \<noteq> 0x80" using assms(4) c by auto
  obtain w1 where w1: "bio_read_full env bio 2 w = Some (True, False, [b, lb], w1)" "inv w1" "contents w1 = h"
    using read_full_enough [OF assms(1), of 2] False c by auto
  have high: "b AND 0x1f = 0x1f \<longleftrightarrow> unat b mod 32 = 31"
    by (simp add: word_unat_eq_iff mask_5_u8)
  consider "unat b mod 32 = 31" | "unat b mod 32 \<noteq> 31" "unat lb < 128" | "unat b mod 32 \<noteq> 31" "\<not> unat lb < 128"
    by blast
  then show ?thesis
  proof cases
    case 1
    then show ?thesis using w1 high by (simp add: BIO_read_asn1_def split_element_def c)
  next
    case 2
    have "unat lb < 2 ^ 32" using 2 by simp
    from read_body [OF w1(2) assms(2,3) _ this, of "[b, lb]" max_len] show ?thesis
      using 2 w1 high by (auto simp: BIO_read_asn1_def split_element_def c top_bit_u8)
  next
    case 3
    let ?nb = "unat lb - 128" and ?d = "take (unat lb - 128) h"
    have nb: "unat (lb AND 0x7f) = ?nb" by (rule unat_long_form [OF 3(2)])
    have nb0: "?nb \<noteq> 0"
    proof
      assume "?nb = 0"
      then have "unat lb = unat (0x80 :: u8)" using 3(2) by simp
      then show False using lb by (simp only: word_unat_eq_iff [symmetric])
    qed
    have start: "BIO_read_asn1 env ml bio max_len w =
        (if ?nb > 4 then Some (None, w1)
         else do {
           (ok, _, bs, w) \<leftarrow> bio_read_full env bio ?nb w1;
           if \<not> ok then Some (None, w)
           else
             let len32 = foldl (\<lambda>len32 b. push_bit 8 len32 OR ucast b) (0 :: u32) bs in
             if len32 < 128 then Some (None, w)
             else if drop_bit ((?nb - 1) * 8) len32 = 0 then Some (None, w)
             else read_asn1_body env ml bio max_len ([b, lb] @ bs) (unat len32) w })"
      using w1(1) 3 high nb nb0 by (simp add: BIO_read_asn1_def top_bit_u8 Let_def)
    show ?thesis
    proof (cases "?nb > 4 \<or> length h < ?nb")
      case True
      then have "split_element max_len (contents w) = None" using 3 by (auto simp: split_element_def c)
      then show ?thesis
        using True w1 read_full_short [OF w1(2), of ?nb] by (auto simp: start)
    next
      case False
      then obtain w2 where w2: "bio_read_full env bio ?nb w1 = Some (True, False, ?d, w2)" "inv w2"
          "contents w2 = drop ?nb h"
        using read_full_enough [OF w1(2), of ?nb] w1(3) by auto
      let ?l = "foldl (\<lambda>len32 b. push_bit 8 len32 OR ucast b) (0 :: u32) ?d"
      have l: "unat ?l = be_nat ?d" using False by (intro len32_be) simp
      have "drop_bit ((?nb - 1) * 8) ?l = 0 \<longleftrightarrow> unat ?l < 2 ^ ((?nb - 1) * 8)"
        by (rule drop_bit_eq_0_iff)
      then have short: "drop_bit ((?nb - 1) * 8) ?l = 0 \<longleftrightarrow> be_nat ?d < 256 ^ (?nb - 1)"
        using l by (simp only: pow256)
      have small: "?l < 128 \<longleftrightarrow> be_nat ?d < 128" using l by (simp add: word_less_nat_alt)
      have step: "BIO_read_asn1 env ml bio max_len w =
          (if be_nat ?d < 128 \<or> be_nat ?d < 256 ^ (?nb - 1) then Some (None, w2)
           else read_asn1_body env ml bio max_len (b # lb # ?d) (be_nat ?d) w2)"
        using False w2(1) short small l by (simp add: start Let_def)
      have "unat ?l < 2 ^ 32" using unsigned_less [of ?l, where 'a = nat] by simp
      then have "be_nat ?d < 2 ^ 32" using l by simp
      from read_body [OF w2(2) assms(2,3) _ this, of "b # lb # ?d" max_len] show ?thesis
        using False 3 w2(2,3) nb0 by (auto simp: step split_element_def c Let_def)
    qed
  qed
qed

end

section \<open>Agreement with the parser\<close>

lemma low_tag:
  assumes "unat b mod 32 \<noteq> 31"
  shows "\<exists>tag. der_tag_bytes tag = [b]" and "der_tag_bytes tag @ s = b # h \<Longrightarrow> der_tag_bytes tag = [b] \<and> s = h"
proof -
  obtain tag' where tag': "parse_asn1_tag (b # h) = (Some tag', h)" for h
    using parse_asn1_tag_low [OF assms] by blast
  have "b # [] = der_tag_bytes tag' @ []" using tag' [of "[]"] by (simp only: parse_asn1_tag_iff)
  then show "\<exists>tag. der_tag_bytes tag = [b]" by auto
  assume s: "der_tag_bytes tag @ s = b # h"
  have "parse_asn1_tag (b # h) = (Some tag, s)" unfolding s [symmetric] parse_asn1_tag_iff ..
  then have "s = h" using tag' [of h] by simp
  then show "der_tag_bytes tag = [b] \<and> s = h" using s by simp
qed

lemma split_element_sound:
  assumes "split_element max_len c = Some (out, t)"
  shows "\<exists>tag body. length body < 2 ^ 32 \<and> c = der_element tag body @ t \<and> out = der_element tag body \<and>
    length out \<le> max_len \<and> int (length body) \<le> INT_MAX \<and> unat (hd c) mod 32 \<noteq> 31"
proof -
  obtain b lb h where c: "c = b # lb # h"
    using assms by (auto simp: split_element_def split: list.splits)
  have low: "unat b mod 32 \<noteq> 31" using assms by (auto simp: c split_element_def)
  then have hdc: "unat (hd c) mod 32 \<noteq> 31" by (simp add: c)
  obtain tag where tag: "der_tag_bytes tag = [b]" using low_tag(1) [OF low] by blast
  have fin: ?thesis if hdr: "der_len_bytes n = lb # d" and h: "h = d @ h'"
    and s: "split_body max_len (b # lb # d) n h' = Some (out, t)" for n d h'
  proof -
    have n: "n + length (b # lb # d) \<le> max_len" "int n \<le> INT_MAX" "n \<le> length h'"
      and out: "out = (b # lb # d) @ take n h'" and t: "t = drop n h'"
      using s by (auto simp: split_body_def split: if_splits)
    have el: "der_element tag (take n h') = out"
      using n(3) hdr tag out by (simp add: der_element_def der_header_def)
    have "n < 2 ^ 32" using n(2) by (simp add: INT_MAX_def)
    moreover have "length out \<le> max_len" "length (take n h') = n" using out n by simp_all
    moreover have ceq: "c = out @ t" using c h out t by simp
    ultimately have "length (take n h') < 2 ^ 32 \<and> c = der_element tag (take n h') @ t \<and>
        out = der_element tag (take n h') \<and> length out \<le> max_len \<and> int (length (take n h')) \<le> INT_MAX"
      using n(2) el by simp
    then show ?thesis using hdc by blast
  qed
  show ?thesis
  proof (cases "unat lb < 128")
    case True
    have "der_len_bytes (unat lb) = [lb]" using True by (simp add: der_len_bytes_def)
    from fin [OF this] show ?thesis using assms low True by (simp add: c split_element_def)
  next
    case False
    let ?nb = "unat lb - 128"
    have nb: "?nb \<noteq> 0" "?nb \<le> 4" "?nb \<le> length h" "128 \<le> be_nat (take ?nb h)"
        "256 ^ (?nb - 1) \<le> be_nat (take ?nb h)"
      and s: "split_body max_len (b # lb # take ?nb h) (be_nat (take ?nb h)) (drop ?nb h) = Some (out, t)"
      using assms low False by (auto simp: c split_element_def Let_def split: if_splits)
    have "der_len_bytes (be_nat (take ?nb h)) = lb # take ?nb h"
      using nb False by (intro long_form_bytes [of _ ?nb]) simp_all
    from fin [OF this _ s] show ?thesis by simp
  qed
qed

lemma split_element_complete:
  assumes "length body < 2 ^ 32" and "c = der_element tag body @ t"
    and "length (der_element tag body) \<le> max_len" and "int (length body) \<le> INT_MAX" and "unat (hd c) mod 32 \<noteq> 31"
  shows "split_element max_len c = Some (der_element tag body, t)"
proof -
  let ?n = "length body"
  have "c \<noteq> []" using assms(2) length_der_tag_bytes [of tag] by (auto simp: der_element_def der_header_def)
  then obtain b h0 where c: "c = b # h0" by (cases c) auto
  have low: "unat b mod 32 \<noteq> 31" using assms(5) c by simp
  have eq: "der_tag_bytes tag @ (der_len_bytes ?n @ body @ t) = b # h0"
    using assms(2) c by (simp add: der_element_def der_header_def)
  from low_tag(2) [OF low eq] have tag: "der_tag_bytes tag = [b]" and h0: "h0 = der_len_bytes ?n @ body @ t"
    by simp_all
  have split: "split_body max_len (b # der_len_bytes ?n) ?n (body @ t) = Some (der_element tag body, t)"
    using assms(3,4) tag by (simp add: split_body_def der_element_def der_header_def)
  show ?thesis
  proof (cases "?n < 128")
    case True
    have u: "unat (of_nat ?n :: u8) = ?n" using True by (simp add: unat_of_nat_u8)
    have "der_len_bytes ?n = [of_nat ?n]" using True by (simp add: der_len_bytes_def)
    then show ?thesis using split u True low by (simp add: split_element_def c h0)
  next
    case False
    let ?k = "byte_len ?n"
    have k: "1 \<le> ?k" "?k \<le> 4" using byte_len_pos [of ?n] byte_len_le_4 [OF assms(1)] False by auto
    have u: "unat (of_nat (128 + ?k) :: u8) = 128 + ?k" unfolding unat_of_nat_u8 using k by simp
    have len: "der_len_bytes ?n = of_nat (128 + ?k) # be_bytes ?k ?n" using False by (simp add: der_len_bytes_def)
    have be: "be_nat (be_bytes ?k ?n) = ?n" using byte_len_upper [of ?n] by simp
    have low': "256 ^ (?k - 1) \<le> ?n" using False by (intro byte_len_lower) linarith
    have c': "c = b # of_nat (128 + ?k) # be_bytes ?k ?n @ body @ t" using c h0 len by simp
    have "split_element max_len c = split_body max_len (b # of_nat (128 + ?k) # be_bytes ?k ?n) ?n (body @ t)"
      unfolding c' using low k be low' False
      by (simp add: split_element_def u Let_def del: of_nat_add)
    then show ?thesis using split len by simp
  qed
qed

lemma split_element_iff:
  "split_element max_len c = Some (out, t) \<longleftrightarrow>
     (\<exists>tag hl. CBS_get_any_asn1_element c = (Some (out, tag, hl), t) \<and> length out \<le> max_len \<and>
        int (length out - hl) \<le> INT_MAX \<and> unat (hd c) mod 32 \<noteq> 31)"
proof
  assume "split_element max_len c = Some (out, t)"
  from split_element_sound [OF this] show "\<exists>tag hl. CBS_get_any_asn1_element c = (Some (out, tag, hl), t) \<and>
      length out \<le> max_len \<and> int (length out - hl) \<le> INT_MAX \<and> unat (hd c) mod 32 \<noteq> 31"
    by (fastforce simp: CBS_get_any_asn1_element_iff der_element_def)
next
  assume "\<exists>tag hl. CBS_get_any_asn1_element c = (Some (out, tag, hl), t) \<and> length out \<le> max_len \<and>
      int (length out - hl) \<le> INT_MAX \<and> unat (hd c) mod 32 \<noteq> 31"
  then obtain tag hl body where "length body < 2 ^ 32" "c = der_element tag body @ t" "out = der_element tag body"
      "hl = length (der_header tag (length body))" "length out \<le> max_len" "int (length out - hl) \<le> INT_MAX"
      "unat (hd c) mod 32 \<noteq> 31"
    unfolding CBS_get_any_asn1_element_iff by blast
  then show "split_element max_len c = Some (out, t)"
    using split_element_complete [of body c tag t max_len] by (simp add: der_element_def)
qed

end
