(* ===== verification/Bio_Pair.thy ===== *)
theory Bio_Pair
  imports Bio_Source
begin

text \<open>
  \<open>crypto/bio/pair.c\<close>: two connected I/O objects; what is written to one is kept in a ring
  buffer until it is read from the other.  Assertions are part of the model.
\<close>

section \<open>State\<close>

record bio_bio_st =
  bb_peer :: nat
  bb_closed :: bool
  bb_len :: nat
  bb_offset :: nat
  bb_size :: nat
  bb_buf :: "u8 list option"
  bb_request :: nat

type_synonym pair_bios = "bio_bio_st bios"

definition ck :: "bool \<Rightarrow> unit option" where
  "ck p = (if p then Some () else None)"

lemma ck_simps [simp]: "ck True = Some ()" "ck False = None" "ck p = Some u \<longleftrightarrow> p"
  by (simp_all add: ck_def)

definition bb_at :: "nat \<Rightarrow> pair_bios \<Rightarrow> bio_bio_st option" where
  "bb_at bio w = do { b \<leftarrow> bio_at bio w; bio_ptr b }"

definition bb_upd :: "nat \<Rightarrow> (bio_bio_st \<Rightarrow> bio_bio_st) \<Rightarrow> pair_bios \<Rightarrow> pair_bios option" where
  "bb_upd bio f w = do { s \<leftarrow> bb_at bio w; bio_upd bio (\<lambda>b. b\<lparr>bio_ptr := Some (f s)\<rparr>) w }"

section \<open>Creation and destruction\<close>

definition bio_new :: "allocator \<Rightarrow> nat \<Rightarrow> pair_bios \<Rightarrow> (bool \<times> pair_bios) option" where
  "bio_new ml bio w =
     (case OPENSSL_malloc ml 56 of
        None \<Rightarrow> Some (False, w)
      | Some _ \<Rightarrow> do {
          w \<leftarrow> bio_upd bio (\<lambda>b. b\<lparr>bio_ptr := Some \<lparr>bb_peer = 0, bb_closed = False, bb_len = 0, bb_offset = 0,
                 bb_size = 17 * 1024, bb_buf = None, bb_request = 0\<rparr>\<rparr>) w;
          Some (True, w) })"

definition bio_destroy_pair :: "nat \<Rightarrow> pair_bios \<Rightarrow> pair_bios option" where
  "bio_destroy_pair bio w = do {
     bo \<leftarrow> bio_at bio w;
     case bio_ptr bo of
       None \<Rightarrow> Some w
     | Some b \<Rightarrow>
         if bb_peer b = 0 then Some w
         else do {
           let peer_bio = bb_peer b;
           peer_b \<leftarrow> bb_at peer_bio w;
           ck (bb_peer peer_b = bio);
           w \<leftarrow> bb_upd peer_bio (\<lambda>s. s\<lparr>bb_peer := 0\<rparr>) w;
           w \<leftarrow> bio_upd peer_bio (\<lambda>b. b\<lparr>bio_init := False\<rparr>) w;
           ck (bb_buf peer_b \<noteq> None);
           w \<leftarrow> bb_upd peer_bio (\<lambda>s. s\<lparr>bb_len := 0, bb_offset := 0\<rparr>) w;
           w \<leftarrow> bb_upd bio (\<lambda>s. s\<lparr>bb_peer := 0\<rparr>) w;
           w \<leftarrow> bio_upd bio (\<lambda>b. b\<lparr>bio_init := False\<rparr>) w;
           ck (bb_buf b \<noteq> None);
           bb_upd bio (\<lambda>s. s\<lparr>bb_len := 0, bb_offset := 0\<rparr>) w } }"

definition bio_free :: "nat \<Rightarrow> pair_bios \<Rightarrow> pair_bios option" where
  "bio_free bio w =
     (if bio = 0 then Some w
      else do {
        b \<leftarrow> bb_at bio w;
        w \<leftarrow> (if bb_peer b \<noteq> 0 then bio_destroy_pair bio w else Some w);
        bio_upd bio (\<lambda>b. b\<lparr>bio_ptr := None\<rparr>) w })"

section \<open>Reading\<close>

partial_function (option) ring_read :: "nat \<Rightarrow> u8 list \<Rightarrow> bio_bio_st \<Rightarrow> (u8 list \<times> bio_bio_st) option" where
  "ring_read rest out b = do {
     mem \<leftarrow> bb_buf b;
     ck (rest \<le> bb_len b);
     let chunk = (if wrap64 (bb_offset b + rest) \<le> bb_size b then rest
                  else wrap64 (2 ^ 64 + bb_size b - bb_offset b));
     ck (wrap64 (bb_offset b + chunk) \<le> bb_size b \<and> bb_offset b + chunk \<le> length mem);
     let out = out @ take chunk (drop (bb_offset b) mem);
     b \<leftarrow> (let b = b\<lparr>bb_len := wrap64 (2 ^ 64 + bb_len b - chunk)\<rparr> in
           if bb_len b \<noteq> 0 then
             let offset = wrap64 (bb_offset b + chunk) in
             do { ck (offset \<le> bb_size b);
                  Some (b\<lparr>bb_offset := (if offset = bb_size b then 0 else offset)\<rparr>) }
           else do { ck (chunk = rest); Some (b\<lparr>bb_offset := 0\<rparr>) });
     let rest = wrap64 (2 ^ 64 + rest - chunk);
     if rest \<noteq> 0 then ring_read rest out b else Some (out, b) }"

declare ring_read.simps [code]

definition bio_read :: "nat \<Rightarrow> bool \<Rightarrow> nat \<Rightarrow> pair_bios \<Rightarrow> (int \<times> u8 list \<times> pair_bios) option" where
  "bio_read bio buf sz w = do {
     w \<leftarrow> bio_upd bio BIO_clear_retry_flags w;
     bo \<leftarrow> bio_at bio w;
     if \<not> bio_init bo then Some (0, [], w)
     else do {
       b \<leftarrow> bio_ptr bo;
       let peer = bb_peer b;
       ck (peer \<noteq> 0);
       peer_b \<leftarrow> bb_at peer w;
       ck (bb_buf peer_b \<noteq> None);
       w \<leftarrow> bb_upd peer (\<lambda>s. s\<lparr>bb_request := 0\<rparr>) w;
       if \<not> buf \<or> sz = 0 then Some (0, [], w)
       else if bb_len peer_b = 0 then
         if bb_closed peer_b then Some (0, [], w)
         else do {
           w \<leftarrow> bio_upd bio BIO_set_retry_read w;
           w \<leftarrow> bb_upd peer (\<lambda>s. s\<lparr>bb_request := (if sz \<le> bb_size s then sz else bb_size s)\<rparr>) w;
           Some (- 1, [], w) }
       else do {
         let sz = (if bb_len peer_b < sz then bb_len peer_b else sz);
         peer_b \<leftarrow> bb_at peer w;
         (out, peer_b) \<leftarrow> ring_read sz [] peer_b;
         w \<leftarrow> bb_upd peer (\<lambda>_. peer_b) w;
         Some (int sz, out, w) } } }"

section \<open>Writing\<close>

partial_function (option) ring_write :: "nat \<Rightarrow> u8 list \<Rightarrow> bio_bio_st \<Rightarrow> bio_bio_st option" where
  "ring_write rest data b = do {
     mem \<leftarrow> bb_buf b;
     ck (wrap64 (bb_len b + rest) \<le> bb_size b);
     let write_offset = wrap64 (bb_offset b + bb_len b);
     let write_offset = (if write_offset \<ge> bb_size b then write_offset - bb_size b else write_offset);
     let chunk = (if wrap64 (write_offset + rest) \<le> bb_size b then rest
                  else wrap64 (2 ^ 64 + bb_size b - write_offset));
     ck (write_offset + chunk \<le> length mem \<and> chunk \<le> length data);
     let len = wrap64 (bb_len b + chunk);
     let b = b\<lparr>bb_buf := Some (mem_write mem write_offset (take chunk data)), bb_len := len\<rparr>;
     let rest = wrap64 (2 ^ 64 + rest - chunk);
     ck (len \<le> bb_size b);
     if rest \<noteq> 0 then ring_write rest (drop chunk data) b else Some b }"

declare ring_write.simps [code]

definition bio_write :: "nat \<Rightarrow> u8 list option \<Rightarrow> pair_bios \<Rightarrow> (int \<times> pair_bios) option" where
  "bio_write bio buf w = do {
     w \<leftarrow> bio_upd bio BIO_clear_retry_flags w;
     bo \<leftarrow> bio_at bio w;
     case buf of
       None \<Rightarrow> Some (0, w)
     | Some data \<Rightarrow>
         if \<not> bio_init bo \<or> length data = 0 then Some (0, w)
         else do {
           b \<leftarrow> bio_ptr bo;
           ck (bb_peer b \<noteq> 0);
           ck (bb_buf b \<noteq> None);
           w \<leftarrow> bb_upd bio (\<lambda>s. s\<lparr>bb_request := 0\<rparr>) w;
           if bb_closed b then Some (- 1, w)
           else do {
             ck (bb_len b \<le> bb_size b);
             if bb_len b = bb_size b then do {
               w \<leftarrow> bio_upd bio BIO_set_retry_write w;
               Some (- 1, w) }
             else do {
               let num = min (length data) (bb_size b - bb_len b);
               b \<leftarrow> bb_at bio w;
               b \<leftarrow> ring_write num data b;
               w \<leftarrow> bb_upd bio (\<lambda>_. b) w;
               Some (int num, w) } } } }"

section \<open>Connection\<close>

text \<open>The buffer of one side; \<open>None\<close> inside is a failed allocation.\<close>

definition make_buf :: "allocator \<Rightarrow> nat \<Rightarrow> bio_bio_st \<Rightarrow> bio_bio_st option" where
  "make_buf ml writebuf_len b =
     (if bb_buf b = None then
        let b = (if writebuf_len \<noteq> 0 then b\<lparr>bb_size := writebuf_len\<rparr> else b)
        in (case OPENSSL_malloc ml (bb_size b) of
              None \<Rightarrow> None
            | Some mem \<Rightarrow> Some (b\<lparr>bb_buf := Some mem, bb_len := 0, bb_offset := 0\<rparr>))
      else Some b)"

definition make_side :: "allocator \<Rightarrow> nat \<Rightarrow> nat \<Rightarrow> pair_bios \<Rightarrow> (bool \<times> pair_bios) option" where
  "make_side ml bio writebuf_len w = do {
     b \<leftarrow> bb_at bio w;
     case make_buf ml writebuf_len b of
       None \<Rightarrow> do {
         w \<leftarrow> bb_upd bio (\<lambda>b. if writebuf_len \<noteq> 0 then b\<lparr>bb_size := writebuf_len\<rparr> else b) w;
         Some (False, w) }
     | Some b \<Rightarrow> do { w \<leftarrow> bb_upd bio (\<lambda>_. b) w; Some (True, w) } }"

definition bio_make_pair ::
    "allocator \<Rightarrow> nat \<Rightarrow> nat \<Rightarrow> nat \<Rightarrow> nat \<Rightarrow> pair_bios \<Rightarrow> (bool \<times> pair_bios) option"
where
  "bio_make_pair ml bio1 bio2 writebuf1_len writebuf2_len w = do {
     b1 \<leftarrow> bb_at bio1 w;
     b2 \<leftarrow> bb_at bio2 w;
     if bb_peer b1 \<noteq> 0 \<or> bb_peer b2 \<noteq> 0 then Some (False, w)
     else do {
       (ok, w) \<leftarrow> make_side ml bio1 writebuf1_len w;
       if \<not> ok then Some (False, w)
       else do {
         (ok, w) \<leftarrow> make_side ml bio2 writebuf2_len w;
         if \<not> ok then Some (False, w)
         else do {
           w \<leftarrow> bb_upd bio1 (\<lambda>b. b\<lparr>bb_peer := bio2, bb_closed := False, bb_request := 0\<rparr>) w;
           w \<leftarrow> bb_upd bio2 (\<lambda>b. b\<lparr>bb_peer := bio1, bb_closed := False, bb_request := 0\<rparr>) w;
           w \<leftarrow> bio_upd bio1 (\<lambda>b. b\<lparr>bio_init := True\<rparr>) w;
           w \<leftarrow> bio_upd bio2 (\<lambda>b. b\<lparr>bio_init := True\<rparr>) w;
           Some (True, w) } } } }"

section \<open>Control\<close>

definition BIO_C_GET_WRITE_BUF_SIZE :: int where "BIO_C_GET_WRITE_BUF_SIZE = 137"
definition BIO_C_GET_WRITE_GUARANTEE :: int where "BIO_C_GET_WRITE_GUARANTEE = 140"
definition BIO_C_GET_READ_REQUEST :: int where "BIO_C_GET_READ_REQUEST = 141"
definition BIO_C_SHUTDOWN_WR :: int where "BIO_C_SHUTDOWN_WR = 142"
definition BIO_C_RESET_READ_REQUEST :: int where "BIO_C_RESET_READ_REQUEST = 147"

lemmas bio_c_defs =
  BIO_C_GET_WRITE_BUF_SIZE_def BIO_C_GET_WRITE_GUARANTEE_def BIO_C_GET_READ_REQUEST_def
  BIO_C_SHUTDOWN_WR_def BIO_C_RESET_READ_REQUEST_def

definition to_long :: "nat \<Rightarrow> int" where
  "to_long n = sint (of_nat n :: u64)"

definition bio_ctrl :: "nat \<Rightarrow> int \<Rightarrow> int \<Rightarrow> nat \<Rightarrow> pair_bios \<Rightarrow> (int \<times> pair_bios) option" where
  "bio_ctrl bio cmd num ptr w = do {
     bo \<leftarrow> bio_at bio w;
     b \<leftarrow> bio_ptr bo;
     if cmd = BIO_C_GET_WRITE_BUF_SIZE then Some (to_long (bb_size b), w)
     else if cmd = BIO_C_GET_WRITE_GUARANTEE then
       Some (if bb_peer b = 0 \<or> bb_closed b then 0 else to_long (wrap64 (2 ^ 64 + bb_size b - bb_len b)), w)
     else if cmd = BIO_C_GET_READ_REQUEST then Some (to_long (bb_request b), w)
     else if cmd = BIO_C_RESET_READ_REQUEST then do {
       w \<leftarrow> bb_upd bio (\<lambda>b. b\<lparr>bb_request := 0\<rparr>) w;
       Some (1, w) }
     else if cmd = BIO_C_SHUTDOWN_WR then do {
       w \<leftarrow> bb_upd bio (\<lambda>b. b\<lparr>bb_closed := True\<rparr>) w;
       Some (1, w) }
     else if cmd = BIO_CTRL_GET_CLOSE then Some (bio_shutdown bo, w)
     else if cmd = BIO_CTRL_SET_CLOSE then do {
       w \<leftarrow> bio_upd bio (\<lambda>b. b\<lparr>bio_shutdown := sint (of_int num :: u32)\<rparr>) w;
       Some (1, w) }
     else if cmd = BIO_CTRL_PENDING then
       (if bb_peer b \<noteq> 0 then do { peer_b \<leftarrow> bb_at (bb_peer b) w; Some (to_long (bb_len peer_b), w) }
        else Some (0, w))
     else if cmd = BIO_CTRL_WPENDING then Some (if bb_buf b \<noteq> None then to_long (bb_len b) else 0, w)
     else if cmd = BIO_CTRL_FLUSH then Some (1, w)
     else if cmd = BIO_CTRL_EOF then
       (if ptr \<noteq> 0 then do {
          other_b \<leftarrow> bb_at ptr w;
          Some (if bb_len other_b = 0 \<and> bb_closed other_b then 1 else 0, w) }
        else Some (1, w))
     else Some (0, w) }"

section \<open>The method table and the interface\<close>

text \<open>The table is the object at address 1; there are no other tables.\<close>

definition methods_biop :: "allocator \<Rightarrow> bio_bio_st bio_meth" where
  "methods_biop ml =
     \<lparr>m_type = 0x0413, m_bwrite = Some bio_write, m_bread = Some bio_read, m_bgets = None,
      m_ctrl = Some bio_ctrl, m_create = Some (bio_new ml), m_destroy = Some bio_free\<rparr>"

definition pair_env :: "allocator \<Rightarrow> (pair_bios \<Rightarrow> nat) \<Rightarrow> bio_bio_st bio_env" where
  "pair_env ml new = \<lparr>e_methods = [1 \<mapsto> methods_biop ml], e_new = new\<rparr>"

definition bio_s_bio :: nat where
  "bio_s_bio = 1"

definition BIO_new_bio_pair ::
    "allocator \<Rightarrow> (pair_bios \<Rightarrow> nat) \<Rightarrow> nat \<Rightarrow> nat \<Rightarrow> pair_bios \<Rightarrow> (bool \<times> nat \<times> nat \<times> pair_bios) option"
where
  "BIO_new_bio_pair ml new writebuf1_len writebuf2_len w = do {
     (bio1, w) \<leftarrow> BIO_new (pair_env ml new) bio_s_bio w;
     (bio2, w) \<leftarrow> BIO_new (pair_env ml new) bio_s_bio w;
     (ok, w) \<leftarrow> (if bio1 = 0 \<or> bio2 = 0 then Some (False, w)
                 else bio_make_pair ml bio1 bio2 writebuf1_len writebuf2_len w);
     if \<not> ok then do {
       (_, w) \<leftarrow> BIO_free (pair_env ml new) bio1 w;
       (_, w) \<leftarrow> BIO_free (pair_env ml new) bio2 w;
       Some (False, 0, 0, w) }
     else Some (True, bio1, bio2, w) }"

definition BIO_ctrl_get_read_request ::
    "bio_bio_st bio_env \<Rightarrow> nat \<Rightarrow> pair_bios \<Rightarrow> (nat \<times> pair_bios) option"
where
  "BIO_ctrl_get_read_request env bio w = do {
     (r, w) \<leftarrow> BIO_ctrl env bio BIO_C_GET_READ_REQUEST 0 0 w;
     Some (nat (r mod 2 ^ 64), w) }"

definition BIO_ctrl_get_write_guarantee ::
    "bio_bio_st bio_env \<Rightarrow> nat \<Rightarrow> pair_bios \<Rightarrow> (nat \<times> pair_bios) option"
where
  "BIO_ctrl_get_write_guarantee env bio w = do {
     (r, w) \<leftarrow> BIO_ctrl env bio BIO_C_GET_WRITE_GUARANTEE 0 0 w;
     Some (nat (r mod 2 ^ 64), w) }"

definition BIO_shutdown_wr :: "bio_bio_st bio_env \<Rightarrow> nat \<Rightarrow> pair_bios \<Rightarrow> (int \<times> pair_bios) option" where
  "BIO_shutdown_wr env bio w = map_option (map_prod c_int id) (BIO_ctrl env bio BIO_C_SHUTDOWN_WR 0 0 w)"

end
