(* ===== verification/Bio_Pair_Safe.thy ===== *)
theory Bio_Pair_Safe
  imports Bio_Pair
begin

text \<open>
  The ring buffers of pairs of I/O objects implement queues, no assertion fails and no pointer
  dangles, whatever the calls.
\<close>

section \<open>Ring buffers\<close>

definition ring_ok :: "bio_bio_st \<Rightarrow> bool" where
  "ring_ok b \<longleftrightarrow> (\<exists>mem. bb_buf b = Some mem \<and> length mem = bb_size b) \<and> bb_size b \<le> ptrdiff_max \<and>
     bb_len b \<le> bb_size b \<and> bb_offset b < bb_size b \<and> (bb_len b = 0 \<longrightarrow> bb_offset b = 0)"

definition ring_index :: "bio_bio_st \<Rightarrow> nat \<Rightarrow> nat" where
  "ring_index b i =
     (if bb_offset b + i < bb_size b then bb_offset b + i else bb_offset b + i - bb_size b)"

definition ring_contents :: "bio_bio_st \<Rightarrow> u8 list" where
  "ring_contents b = map (\<lambda>i. the (bb_buf b) ! ring_index b i) [0..<bb_len b]"

lemma length_ring_contents [simp]: "length (ring_contents b) = bb_len b"
  by (simp add: ring_contents_def)

lemma nth_ring_contents: "i < bb_len b \<Longrightarrow> ring_contents b ! i = the (bb_buf b) ! ring_index b i"
  by (simp add: ring_contents_def)

text \<open>The parts of the state that reading and writing leave alone.\<close>

definition same_ends :: "bio_bio_st \<Rightarrow> bio_bio_st \<Rightarrow> bool" where
  "same_ends b b' \<longleftrightarrow> bb_peer b' = bb_peer b \<and> bb_closed b' = bb_closed b \<and> bb_size b' = bb_size b \<and>
     bb_request b' = bb_request b"

lemma same_ends_refl [simp]: "same_ends b b"
  by (simp add: same_ends_def)

lemma same_ends_trans: "same_ends a b \<Longrightarrow> same_ends b c \<Longrightarrow> same_ends a c"
  by (simp add: same_ends_def)

lemma wrap64_sub: "b \<le> a \<Longrightarrow> a < 2 ^ 64 \<Longrightarrow> wrap64 (2 ^ 64 + a - b) = a - b"
  by (simp add: wrap64_def mod_if)

lemma ring_read_straight:
  assumes "ring_ok b" and "0 < rest" and "rest \<le> bb_len b" and "bb_offset b + rest \<le> bb_size b"
  shows "\<exists>b'. ring_read rest out b = Some (out @ take rest (ring_contents b), b') \<and> ring_ok b' \<and>
    ring_contents b' = drop rest (ring_contents b) \<and> same_ends b b'"
proof -
  obtain mem where mem: "bb_buf b = Some mem" "length mem = bb_size b" using assms(1) by (auto simp: ring_ok_def)
  have sz: "bb_size b \<le> 2 ^ 63 - 1" "bb_len b \<le> bb_size b" "bb_offset b < bb_size b"
    using assms(1) by (auto simp: ring_ok_def)
  have w: "wrap64 (bb_offset b + rest) = bb_offset b + rest" "wrap64 (2 ^ 64 + rest - rest) = 0"
    using assms(4) sz(1) by (simp_all add: wrap64_def)
  have l: "wrap64 (2 ^ 64 + bb_len b - rest) = bb_len b - rest"
    using assms(3) sz by (intro wrap64_sub) simp_all
  define off where "off = (if bb_len b - rest = 0 then 0
      else if bb_offset b + rest = bb_size b then 0 else bb_offset b + rest)"
  let ?b = "b\<lparr>bb_len := bb_len b - rest, bb_offset := off\<rparr>"
  have data: "take rest (drop (bb_offset b) mem) = take rest (ring_contents b)"
    using assms(3,4) mem by (intro nth_equalityI) (simp_all add: nth_ring_contents ring_index_def)
  have run: "ring_read rest out b = Some (out @ take rest (ring_contents b), ?b)"
    using assms mem w l
    by (subst ring_read.simps) (simp add: ck_def data [symmetric] off_def)
  have "ring_ok ?b" using assms sz mem by (auto simp: ring_ok_def off_def)
  moreover have "ring_contents ?b = drop rest (ring_contents b)"
    using assms(3,4) sz by (intro nth_equalityI) (auto simp: nth_ring_contents ring_index_def off_def ac_simps)
  ultimately show ?thesis using run by (auto simp: same_ends_def)
qed

lemma ring_read_reads:
  assumes "ring_ok b" and "0 < rest" and "rest \<le> bb_len b"
  shows "\<exists>b'. ring_read rest out b = Some (out @ take rest (ring_contents b), b') \<and> ring_ok b' \<and>
    ring_contents b' = drop rest (ring_contents b) \<and> same_ends b b'"
proof (cases "bb_offset b + rest \<le> bb_size b")
  case True
  then show ?thesis by (rule ring_read_straight [OF assms])
next
  case False
  obtain mem where mem: "bb_buf b = Some mem" "length mem = bb_size b" using assms(1) by (auto simp: ring_ok_def)
  have sz: "bb_size b \<le> 2 ^ 63 - 1" "bb_len b \<le> bb_size b" "bb_offset b < bb_size b"
    using assms(1) by (auto simp: ring_ok_def)
  define c where "c = bb_size b - bb_offset b"
  let ?k = "ring_contents b" and ?b = "b\<lparr>bb_len := bb_len b - c, bb_offset := 0\<rparr>"
  have c: "0 < c" "c < rest" "bb_offset b + c = bb_size b" using False sz(3) by (auto simp: c_def)
  have w: "wrap64 (bb_offset b + rest) = bb_offset b + rest" "wrap64 (bb_offset b + c) = bb_size b"
    using assms(3) sz c by simp_all
  have w': "wrap64 (2 ^ 64 + bb_size b - bb_offset b) = c"
    unfolding c_def by (rule wrap64_sub) (use sz in simp_all)
  have w'': "wrap64 (2 ^ 64 + n - c) = n - c" if "c \<le> n" "n \<le> bb_size b" for n
    by (rule wrap64_sub) (use that sz in simp_all)
  note w'' = w'' [of "bb_len b"] w'' [of rest]
  have data: "take c (drop (bb_offset b) mem) = take c ?k"
    using assms(3) mem c sz by (intro nth_equalityI) (auto simp: nth_ring_contents ring_index_def)
  have run: "ring_read rest out b = ring_read (rest - c) (out @ take c ?k) ?b"
    using False assms mem c sz w w' w''
    by (subst ring_read.simps) (simp add: ck_def data [symmetric] Let_def)
  have ok: "ring_ok ?b" using assms sz mem by (auto simp: ring_ok_def)
  have k: "ring_contents ?b = drop c ?k"
    using assms(3) c sz by (intro nth_equalityI) (auto simp: nth_ring_contents ring_index_def ac_simps)
  have "\<exists>b'. ring_read (rest - c) (out @ take c ?k) ?b =
        Some ((out @ take c ?k) @ take (rest - c) (ring_contents ?b), b') \<and> ring_ok b' \<and>
      ring_contents b' = drop (rest - c) (ring_contents ?b) \<and> same_ends ?b b'"
    using ok c assms(3) sz by (intro ring_read_straight) simp_all
  moreover have "take c ?k @ take (rest - c) (drop c ?k) = take rest ?k"
    using take_add [of c "rest - c" ?k] c by simp
  ultimately show ?thesis using run k c by (auto simp: same_ends_def)
qed

lemma ring_write_straight:
  assumes "ring_ok b" and "0 < rest" and "bb_len b + rest \<le> bb_size b" and "rest \<le> length data"
    and "ring_index b (bb_len b) + rest \<le> bb_size b"
  shows "\<exists>b'. ring_write rest data b = Some b' \<and> ring_ok b' \<and>
    ring_contents b' = ring_contents b @ take rest data \<and> same_ends b b'"
proof -
  obtain mem where mem: "bb_buf b = Some mem" "length mem = bb_size b" using assms(1) by (auto simp: ring_ok_def)
  have sz: "bb_size b \<le> 2 ^ 63 - 1" "bb_len b \<le> bb_size b" "bb_offset b < bb_size b"
    using assms(1) by (auto simp: ring_ok_def)
  let ?w = "ring_index b (bb_len b)"
  have w: "wrap64 (bb_len b + rest) = bb_len b + rest" "wrap64 (bb_offset b + bb_len b) = bb_offset b + bb_len b"
    "wrap64 (?w + rest) = ?w + rest" "wrap64 (2 ^ 64 + rest - rest) = 0"
    using assms(3,5) sz by (simp_all add: wrap64_def)
  have wo: "(if bb_offset b + bb_len b \<ge> bb_size b then bb_offset b + bb_len b - bb_size b
      else bb_offset b + bb_len b) = ?w"
    by (auto simp: ring_index_def)
  let ?m = "mem_write mem ?w (take rest data)"
  let ?b = "b\<lparr>bb_buf := Some ?m, bb_len := bb_len b + rest\<rparr>"
  have run: "ring_write rest data b = Some ?b"
    using assms mem w wo by (subst ring_write.simps) (simp add: ck_def)
  have len: "length ?m = bb_size b" using mem assms(4,5) by simp
  have ok: "ring_ok ?b" using len assms sz by (auto simp: ring_ok_def)
  have m: "?m ! j = (if ?w \<le> j \<and> j < ?w + rest then data ! (j - ?w) else mem ! j)" if "j < bb_size b" for j
    using that mem assms(4,5) by (auto simp: mem_write_def nth_append)
  have "ring_contents ?b ! i = (ring_contents b @ take rest data) ! i" if i: "i < bb_len b + rest" for i
  proof -
    have ix: "ring_index ?b i = ring_index b i" by (simp add: ring_index_def)
    have lt: "ring_index b i < bb_size b" using i assms(3) sz by (auto simp: ring_index_def)
    show ?thesis
    proof (cases "i < bb_len b")
      case True
      then have "\<not> (?w \<le> ring_index b i \<and> ring_index b i < ?w + rest)"
        using assms(3,5) sz by (auto simp: ring_index_def split: if_splits)
      from m [OF lt, unfolded if_not_P [OF this]] show ?thesis
        using True i mem by (simp add: nth_ring_contents ix nth_append)
    next
      case False
      then obtain d where d: "i = bb_len b + d" by (metis le_Suc_ex not_less)
      then have e: "ring_index b i = ?w + d" "d < rest"
        using i assms(3,5) sz by (auto simp: ring_index_def split: if_splits)
      then have "?m ! ring_index b i = data ! d" using m [OF lt] by simp
      then have "?m ! ring_index ?b i = data ! d" unfolding ix .
      then show ?thesis using d e(2) by (simp add: nth_ring_contents nth_append)
    qed
  qed
  then have "ring_contents ?b = ring_contents b @ take rest data"
    using assms(4) by (intro nth_equalityI) simp_all
  then show ?thesis using run ok by (auto simp: same_ends_def)
qed

lemma ring_write_writes:
  assumes "ring_ok b" and "0 < rest" and "bb_len b + rest \<le> bb_size b" and "rest \<le> length data"
  shows "\<exists>b'. ring_write rest data b = Some b' \<and> ring_ok b' \<and>
    ring_contents b' = ring_contents b @ take rest data \<and> same_ends b b'"
proof (cases "ring_index b (bb_len b) + rest \<le> bb_size b")
  case True
  then show ?thesis by (rule ring_write_straight [OF assms])
next
  case False
  have sz: "bb_size b \<le> 2 ^ 63 - 1" "bb_len b \<le> bb_size b" "bb_offset b < bb_size b"
    using assms(1) by (auto simp: ring_ok_def)
  let ?w = "ring_index b (bb_len b)"
  define c where "c = bb_size b - ?w"
  have wlt: "?w < bb_size b" using assms(2,3) sz by (auto simp: ring_index_def)
  have c: "0 < c" "c < rest" "?w + c = bb_size b" using False wlt by (auto simp: c_def)
  have "\<exists>b'. ring_write c data b = Some b' \<and> ring_ok b' \<and>
      ring_contents b' = ring_contents b @ take c data \<and> same_ends b b'"
    using assms c wlt by (intro ring_write_straight) simp_all
  then obtain b1 where b1: "ring_write c data b = Some b1" "ring_ok b1"
      "ring_contents b1 = ring_contents b @ take c data" "same_ends b b1" by blast
  obtain mem where mem: "bb_buf b = Some mem" "length mem = bb_size b" using assms(1) by (auto simp: ring_ok_def)
  have wo: "(if bb_offset b + bb_len b \<ge> bb_size b then bb_offset b + bb_len b - bb_size b
      else bb_offset b + bb_len b) = ?w"
    by (auto simp: ring_index_def)
  have w: "wrap64 (bb_len b + n) = bb_len b + n" "wrap64 (?w + n) = ?w + n" if "n \<le> rest" for n
    using that assms(3) sz wlt by (simp_all add: wrap64_def)
  have w0: "wrap64 (bb_offset b + bb_len b) = bb_offset b + bb_len b" using sz by simp
  have w1: "wrap64 (2 ^ 64 + bb_size b - ?w) = c" unfolding c_def by (rule wrap64_sub) (use sz wlt in simp_all)
  have w2: "wrap64 (2 ^ 64 + rest - c) = rest - c"
    by (rule wrap64_sub) (use c sz assms(3) in simp_all)
  have w3: "wrap64 (2 ^ 64 + c - c) = 0" by (simp add: wrap64_def)
  let ?b = "b\<lparr>bb_buf := Some (mem_write mem ?w (take c data)), bb_len := bb_len b + c\<rparr>"
  have le: "c \<le> rest" "bb_len b + c \<le> bb_size b" "?w + c = bb_size b" "c \<le> length data"
    using c assms(3,4) wlt by linarith+
  have "ring_write c data b = Some ?b"
    using w [OF le(1)] w0 w3 le mem
    by (subst ring_write.simps) (simp add: ck_def wo Let_def)
  then have b: "b1 = ?b" using b1(1) by simp
  have "ring_write rest data b = ring_write (rest - c) (drop c data) ?b"
    using w [OF order_refl] w [OF le(1)] w0 w1 w2 le mem False c assms(3)
    by (subst ring_write.simps) (simp add: ck_def wo Let_def)
  then have run: "ring_write rest data b = ring_write (rest - c) (drop c data) b1" by (simp add: b)
  have len: "bb_len b1 = bb_len b + c" "bb_size b1 = bb_size b" by (simp_all add: b)
  have "ring_index b1 (bb_len b1) = 0"
    using assms(3) c wlt sz False by (auto simp: ring_index_def b split: if_splits)
  then have "\<exists>b'. ring_write (rest - c) (drop c data) b1 = Some b' \<and> ring_ok b' \<and>
      ring_contents b' = ring_contents b1 @ take (rest - c) (drop c data) \<and> same_ends b1 b'"
    using b1(2) c assms(3,4) len by (intro ring_write_straight) simp_all
  then obtain b' where b': "ring_write (rest - c) (drop c data) b1 = Some b'" "ring_ok b'"
      "ring_contents b' = ring_contents b1 @ take (rest - c) (drop c data)" "same_ends b1 b'" by blast
  have "take c data @ take (rest - c) (drop c data) = take rest data"
    using take_add [of c "rest - c" data] c by simp
  then show ?thesis using run b' b1(3) same_ends_trans [OF b1(4) b'(4)] by auto
qed

end
