(* ===== verification/Bio_Pair_Run.thy ===== *)
theory Bio_Pair_Run
  imports Bio_Pair_Safe
begin

text \<open>
  The heap of pairs: its invariant, the queues it stands for, and the calls on them.
\<close>

section \<open>Invariant\<close>

text \<open>The conditions that the comments of \<open>struct bio_bio_st\<close> state.\<close>

definition st_ok :: "bio_bio_st \<Rightarrow> bool" where
  "st_ok s \<longleftrightarrow> 0 < bb_size s \<and> bb_size s + 8 < 2 ^ 64 \<and> (bb_buf s \<noteq> None \<longrightarrow> ring_ok s) \<and>
     (bb_peer s = 0 \<longrightarrow> bb_len s = 0) \<and>
     (bb_peer s \<noteq> 0 \<longrightarrow> bb_request s \<noteq> 0 \<longrightarrow> bb_len s = 0 \<and> bb_request s \<le> bb_size s)"

definition linked :: "pair_bios \<Rightarrow> nat \<Rightarrow> bio_bio_st \<Rightarrow> bool" where
  "linked w a s \<longleftrightarrow> bb_peer s \<noteq> a \<and> bb_buf s \<noteq> None \<and>
     (\<exists>P t. w (bb_peer s) = Some P \<and> bio_ptr P = Some t \<and> bb_peer t = a)"

definition bio_ok :: "pair_bios \<Rightarrow> nat \<Rightarrow> bio_bio_st bio \<Rightarrow> bool" where
  "bio_ok w a A \<longleftrightarrow> a \<noteq> 0 \<and> bio_method A = 1 \<and> bio_next_bio A = 0 \<and> bio_references A \<noteq> 0 \<and>
     (\<exists>s. bio_ptr A = Some s \<and> st_ok s \<and> (bio_init A \<longleftrightarrow> bb_peer s \<noteq> 0) \<and> (bb_peer s \<noteq> 0 \<longrightarrow> linked w a s))"

definition pair_wf :: "pair_bios \<Rightarrow> bool" where
  "pair_wf w \<longleftrightarrow> (\<forall>a A. w a = Some A \<longrightarrow> bio_ok w a A)"

lemma pair_wfD:
  assumes "pair_wf w" and "w a = Some A"
  obtains s where "a \<noteq> 0" "bio_method A = 1" "bio_next_bio A = 0" "bio_references A \<noteq> 0" "bio_ptr A = Some s"
    "st_ok s" "bio_init A \<longleftrightarrow> bb_peer s \<noteq> 0" "bb_peer s \<noteq> 0 \<longrightarrow> linked w a s"
  using assms unfolding pair_wf_def bio_ok_def by blast

text \<open>An update that leaves the links alone.\<close>

lemma wf_update:
  assumes "pair_wf w" and "w a = Some A" and "bio_ptr A = Some s" and "bio_ptr A' = Some s'"
    and "bio_method A' = bio_method A" and "bio_next_bio A' = bio_next_bio A" and "bio_init A' = bio_init A"
    and "bio_references A' \<noteq> 0" and "bb_peer s' = bb_peer s" and "st_ok s'" and "bb_buf s \<noteq> None \<longrightarrow> bb_buf s' \<noteq> None"
  shows "pair_wf (w(a \<mapsto> A'))"
  unfolding pair_wf_def
proof (intro allI impI)
  fix x X
  assume x: "(w(a \<mapsto> A')) x = Some X"
  have link: "linked (w(a \<mapsto> A')) y t'" if "linked w y t" "bb_peer t' = bb_peer t" "bb_buf t' \<noteq> None" for y t t'
    using that assms(2-4,9) by (auto simp: linked_def)
  show "bio_ok (w(a \<mapsto> A')) x X"
  proof (cases "x = a")
    case True
    obtain s0 where "a \<noteq> 0" "bio_method A = 1" "bio_next_bio A = 0" "bio_ptr A = Some s0"
        "bio_init A \<longleftrightarrow> bb_peer s0 \<noteq> 0" "bb_peer s0 \<noteq> 0 \<longrightarrow> linked w a s0"
      using pair_wfD [OF assms(1,2)] by blast
    moreover from this have "linked (w(a \<mapsto> A')) a s'" if "bb_peer s' \<noteq> 0"
      using that assms(3,9,11) by (intro link [of a s s']) (auto simp: linked_def)
    ultimately show ?thesis using x True assms by (simp add: bio_ok_def)
  next
    case False
    then have w: "w x = Some X" using x by simp
    from assms(1) w obtain t where "x \<noteq> 0" "bio_method X = 1" "bio_next_bio X = 0" "bio_references X \<noteq> 0"
        "bio_ptr X = Some t" "st_ok t" "bio_init X \<longleftrightarrow> bb_peer t \<noteq> 0" "bb_peer t \<noteq> 0 \<longrightarrow> linked w x t"
      by (rule pair_wfD)
    then show ?thesis using link [of x t t] by (auto simp: bio_ok_def linked_def)
  qed
qed

text \<open>Updates of the flags and counts of an object, and of the state of its buffer.\<close>

lemma wf_bio_upd:
  assumes "pair_wf w" and "w a = Some A" and "bio_ptr (f A) = bio_ptr A" and "bio_method (f A) = bio_method A"
    and "bio_next_bio (f A) = bio_next_bio A" and "bio_init (f A) = bio_init A" and "bio_references (f A) \<noteq> 0"
  shows "pair_wf (w(a \<mapsto> f A))"
proof -
  obtain s where "bio_ptr A = Some s" "st_ok s" using pair_wfD [OF assms(1,2)] by blast
  then show ?thesis using assms by (intro wf_update [OF assms(1,2), of s _ s]) auto
qed

lemma wf_bb_upd:
  assumes "pair_wf w" and "w a = Some A" and "bio_ptr A = Some s" and "bb_peer s' = bb_peer s" and "st_ok s'"
    and "bb_buf s \<noteq> None \<longrightarrow> bb_buf s' \<noteq> None"
  shows "pair_wf (w(a \<mapsto> A\<lparr>bio_ptr := Some s'\<rparr>))"
proof -
  have "bio_references A \<noteq> 0" using pair_wfD [OF assms(1,2)] by blast
  then show ?thesis using assms by (intro wf_update [OF assms(1,2,3)]) auto
qed

lemma bio_at_Some: "a \<noteq> 0 \<Longrightarrow> w a = Some A \<Longrightarrow> bio_at a w = Some A"
  by (simp add: bio_at_def)

lemma bio_upd_Some: "a \<noteq> 0 \<Longrightarrow> w a = Some A \<Longrightarrow> bio_upd a f w = Some (w(a \<mapsto> f A))"
  by (simp add: bio_upd_def bio_at_def)

lemma bb_at_Some: "a \<noteq> 0 \<Longrightarrow> w a = Some A \<Longrightarrow> bio_ptr A = Some s \<Longrightarrow> bb_at a w = Some s"
  by (simp add: bb_at_def bio_at_def)

lemma bb_upd_Some: "a \<noteq> 0 \<Longrightarrow> w a = Some A \<Longrightarrow> bio_ptr A = Some s \<Longrightarrow>
    bb_upd a f w = Some (w(a \<mapsto> A\<lparr>bio_ptr := Some (f s)\<rparr>))"
  by (simp add: bb_upd_def bb_at_Some bio_upd_Some)

lemmas heap_simps = bio_at_Some bio_upd_Some bb_at_Some bb_upd_Some

section \<open>Queues\<close>

text \<open>What the heap stands for: the other side, whether the writer has closed, the bytes on the way.\<close>

record chan =
  ch_peer :: nat
  ch_closed :: bool
  ch_queue :: "u8 list"
  ch_size :: nat

definition chan_of :: "bio_bio_st \<Rightarrow> chan" where
  "chan_of s = \<lparr>ch_peer = bb_peer s, ch_closed = bb_closed s, ch_queue = ring_contents s, ch_size = bb_size s\<rparr>"

definition chans :: "pair_bios \<Rightarrow> nat \<Rightarrow> chan option" where
  "chans w a = map_option chan_of (bb_at a w)"

lemma chans_upd: "a \<noteq> 0 \<Longrightarrow> chans (w(a \<mapsto> A')) = (chans w)(a := map_option chan_of (bio_ptr A'))"
  by (rule ext) (simp add: chans_def bb_at_def bio_at_def)

lemma chans_Some: "a \<noteq> 0 \<Longrightarrow> w a = Some A \<Longrightarrow> bio_ptr A = Some s \<Longrightarrow> chans w a = Some (chan_of s)"
  by (simp add: chans_def bb_at_Some)

lemma chans_same: "a \<noteq> 0 \<Longrightarrow> w a = Some A \<Longrightarrow> map_option chan_of (bio_ptr A') = map_option chan_of (bio_ptr A) \<Longrightarrow>
    chans (w(a \<mapsto> A')) = chans w"
  by (rule ext) (simp add: chans_def bb_at_def bio_at_def)

lemma ring_contents_request [simp]: "ring_contents (s\<lparr>bb_request := r\<rparr>) = ring_contents s"
  by (simp add: ring_contents_def ring_index_def)

lemma ring_contents_closed [simp]: "ring_contents (s\<lparr>bb_closed := c\<rparr>) = ring_contents s"
  by (simp add: ring_contents_def ring_index_def)

lemma chan_of_request [simp]: "chan_of (s\<lparr>bb_request := r\<rparr>) = chan_of s"
  by (simp add: chan_of_def)

lemma ring_ok_request [simp]: "ring_ok (s\<lparr>bb_request := r\<rparr>) = ring_ok s"
  by (simp add: ring_ok_def)

lemma ring_ok_closed [simp]: "ring_ok (s\<lparr>bb_closed := c\<rparr>) = ring_ok s"
  by (simp add: ring_ok_def)

lemma st_ok_request: "st_ok s \<Longrightarrow> r = 0 \<or> bb_len s = 0 \<and> r \<le> bb_size s \<Longrightarrow> st_ok (s\<lparr>bb_request := r\<rparr>)"
  by (auto simp: st_ok_def)

lemma bio_flag_ops [simp]:
  "bio_ptr (BIO_clear_retry_flags b) = bio_ptr b" "bio_init (BIO_clear_retry_flags b) = bio_init b"
  "bio_method (BIO_clear_retry_flags b) = bio_method b" "bio_next_bio (BIO_clear_retry_flags b) = bio_next_bio b"
  "bio_references (BIO_clear_retry_flags b) = bio_references b"
  "bio_ptr (BIO_set_retry_read b) = bio_ptr b" "bio_init (BIO_set_retry_read b) = bio_init b"
  "bio_method (BIO_set_retry_read b) = bio_method b" "bio_next_bio (BIO_set_retry_read b) = bio_next_bio b"
  "bio_references (BIO_set_retry_read b) = bio_references b"
  "bio_ptr (BIO_set_retry_write b) = bio_ptr b" "bio_init (BIO_set_retry_write b) = bio_init b"
  "bio_method (BIO_set_retry_write b) = bio_method b" "bio_next_bio (BIO_set_retry_write b) = bio_next_bio b"
  "bio_references (BIO_set_retry_write b) = bio_references b"
  by (simp_all add: BIO_clear_retry_flags_def BIO_set_retry_read_def BIO_set_retry_write_def)

text \<open>A step on the flags of an object: it succeeds and leaves the queues as they are.\<close>

definition calm :: "(bio_bio_st bio \<Rightarrow> bio_bio_st bio) \<Rightarrow> bool" where
  "calm f \<longleftrightarrow> (\<forall>b. bio_ptr (f b) = bio_ptr b \<and> bio_init (f b) = bio_init b \<and> bio_method (f b) = bio_method b \<and>
     bio_next_bio (f b) = bio_next_bio b \<and> (bio_references b \<noteq> 0 \<longrightarrow> bio_references (f b) \<noteq> 0))"

lemma calm_ops: "calm BIO_clear_retry_flags" "calm BIO_set_retry_read" "calm BIO_set_retry_write"
    "calm (\<lambda>b. b\<lparr>bio_num_read := g b\<rparr>)" "calm (\<lambda>b. b\<lparr>bio_num_write := g b\<rparr>)" "calm (\<lambda>b. b\<lparr>bio_shutdown := i\<rparr>)"
    "calm (\<lambda>b. b\<lparr>bio_references := CRYPTO_refcount_inc (bio_references b)\<rparr>)"
proof -
  show "calm (\<lambda>b. b\<lparr>bio_references := CRYPTO_refcount_inc (bio_references b)\<rparr>)"
  proof -
    have "c + 1 \<noteq> 0" if "c \<noteq> CRYPTO_REFCOUNT_MAX" for c
      using that by (auto simp: CRYPTO_REFCOUNT_MAX_def add_eq_0_iff2)
    then show ?thesis by (auto simp: calm_def CRYPTO_refcount_inc_def)
  qed
qed (simp_all add: calm_def)

lemma bio_upd_calm:
  assumes "pair_wf w" and "w a = Some A" and "calm f"
  shows "bio_upd a f w = Some (w(a \<mapsto> f A)) \<and> pair_wf (w(a \<mapsto> f A)) \<and> chans (w(a \<mapsto> f A)) = chans w"
proof -
  have a: "a \<noteq> 0" "bio_references A \<noteq> 0" using pair_wfD [OF assms(1,2)] by blast+
  have "pair_wf (w(a \<mapsto> f A))"
    by (rule wf_bio_upd [OF assms(1,2)]) (use assms(3) a(2) in \<open>simp_all add: calm_def\<close>)
  moreover have "chans (w(a \<mapsto> f A)) = chans w"
    by (rule chans_same [of a w A, OF a(1) assms(2)]) (use assms(3) in \<open>simp add: calm_def\<close>)
  ultimately show ?thesis using bio_upd_Some [of a w A f, OF a(1) assms(2)] by blast
qed

lemma bb_upd_step:
  assumes "pair_wf w" and "w a = Some A" and "bio_ptr A = Some s" and "bb_peer (f s) = bb_peer s" and "st_ok (f s)"
    and "bb_buf s \<noteq> None \<longrightarrow> bb_buf (f s) \<noteq> None"
  shows "bb_upd a f w = Some (w(a \<mapsto> A\<lparr>bio_ptr := Some (f s)\<rparr>)) \<and>
    pair_wf (w(a \<mapsto> A\<lparr>bio_ptr := Some (f s)\<rparr>)) \<and>
    chans (w(a \<mapsto> A\<lparr>bio_ptr := Some (f s)\<rparr>)) = (chans w)(a \<mapsto> chan_of (f s))"
proof -
  have a: "a \<noteq> 0" using pair_wfD [OF assms(1,2)] by blast
  show ?thesis
    using bb_upd_Some [of a w A s f, OF a assms(2,3)] wf_bb_upd [OF assms] chans_upd [OF a] by simp
qed

lemma bb_upd_quiet:
  assumes "pair_wf w" and "w a = Some A" and "bio_ptr A = Some s" and "bb_peer (f s) = bb_peer s" and "st_ok (f s)"
    and "bb_buf s \<noteq> None \<longrightarrow> bb_buf (f s) \<noteq> None" and "chan_of (f s) = chan_of s"
  shows "bb_upd a f w = Some (w(a \<mapsto> A\<lparr>bio_ptr := Some (f s)\<rparr>)) \<and>
    pair_wf (w(a \<mapsto> A\<lparr>bio_ptr := Some (f s)\<rparr>)) \<and> chans (w(a \<mapsto> A\<lparr>bio_ptr := Some (f s)\<rparr>)) = chans w"
proof -
  have "a \<noteq> 0" using pair_wfD [OF assms(1,2)] by blast
  then have "chans w a = Some (chan_of (f s))" using assms(2,3,7) by (simp add: chans_Some)
  then show ?thesis
    using bb_upd_step [of w a A s f, OF assms(1-6)] by (simp add: fun_upd_idem)
qed

lemma st_okD: "st_ok s \<Longrightarrow> bb_buf s \<noteq> None \<Longrightarrow> ring_ok s"
  by (simp add: st_ok_def)

section \<open>Reading and writing\<close>

text \<open>An object that is connected, and the other side.\<close>

lemma wf_linked:
  assumes "pair_wf w" and "w a = Some A" and "bio_ptr A = Some s" and "bb_peer s \<noteq> 0"
  obtains P t where "w (bb_peer s) = Some P" "bio_ptr P = Some t" "bb_peer t = a" "bb_peer s \<noteq> a"
    "ring_ok t" "bb_buf t \<noteq> None" "st_ok t" "bio_init A" "ring_ok s" "bb_buf s \<noteq> None" "a \<noteq> 0"
proof -
  obtain P t where P: "w (bb_peer s) = Some P" "bio_ptr P = Some t" "bb_peer t = a" "bb_peer s \<noteq> a"
      "bb_buf s \<noteq> None" "st_ok s" "bio_init A" "a \<noteq> 0"
    using pair_wfD [OF assms(1,2)] assms(3,4) unfolding linked_def by (metis option.inject)
  have "bb_buf t \<noteq> None \<and> st_ok t"
    using pair_wfD [OF assms(1) P(1)] P(2,3,8) unfolding linked_def by (metis option.inject)
  then show thesis using that [of P t] P st_okD by blast
qed

lemma bio_read_queue:
  assumes wf: "pair_wf w" and A: "w a = Some A" "bio_ptr A = Some s" "bb_peer s \<noteq> 0"
    and d: "chans w (bb_peer s) = Some d" and n: "0 < n"
  shows "\<exists>w'. bio_read a True n w =
      Some (if ch_queue d \<noteq> [] then int (min n (length (ch_queue d))) else if ch_closed d then 0 else - 1,
            take n (ch_queue d), w') \<and>
    pair_wf w' \<and> chans w' = (chans w)(bb_peer s \<mapsto> d\<lparr>ch_queue := drop n (ch_queue d)\<rparr>)"
proof -
  let ?p = "bb_peer s"
  obtain P t where P: "w ?p = Some P" "bio_ptr P = Some t" "bb_peer t = a" "?p \<noteq> a" "ring_ok t" "bb_buf t \<noteq> None"
      "st_ok t" and init: "bio_init A" and a: "a \<noteq> 0"
    using wf_linked [OF wf A] by metis
  have dt: "d = chan_of t" using d P A(3) by (simp add: chans_Some)
  let ?A1 = "BIO_clear_retry_flags A"
  let ?w1 = "w(a \<mapsto> ?A1)"
  have s1: "bio_upd a BIO_clear_retry_flags w = Some ?w1" "pair_wf ?w1" "chans ?w1 = chans w"
    using bio_upd_calm [of w a A, OF wf A(1) calm_ops(1)] by simp_all
  have P1: "?w1 ?p = Some P" using P by simp
  let ?t = "t\<lparr>bb_request := 0\<rparr>"
  let ?P2 = "P\<lparr>bio_ptr := Some ?t\<rparr>"
  let ?w2 = "?w1(?p \<mapsto> ?P2)"
  have s2: "bb_upd ?p (\<lambda>s. s\<lparr>bb_request := 0\<rparr>) ?w1 = Some ?w2" "pair_wf ?w2" "chans ?w2 = chans w"
    using bb_upd_quiet [of ?w1 ?p P t "\<lambda>s. s\<lparr>bb_request := 0\<rparr>", OF s1(2) P1 P(2)] P(7) s1(3)
    by (simp_all add: st_ok_request)
  have start: "bio_read a True n w =
      (if bb_len t = 0 then
         if bb_closed t then Some (0, [], ?w2)
         else do {
           w \<leftarrow> bio_upd a BIO_set_retry_read ?w2;
           w \<leftarrow> bb_upd ?p (\<lambda>s. s\<lparr>bb_request := (if n \<le> bb_size s then n else bb_size s)\<rparr>) w;
           Some (- 1, [], w) }
       else do {
         (out, peer_b) \<leftarrow> ring_read (min n (bb_len t)) [] ?t;
         w \<leftarrow> bb_upd ?p (\<lambda>_. peer_b) ?w2;
         Some (int (min n (bb_len t)), out, w) })"
    using s1 s2 A P a n init
    by (simp add: bio_read_def heap_simps min_def Let_def)
  have len: "length (ch_queue d) = bb_len t" by (simp add: dt chan_of_def)
  show ?thesis
  proof (cases "bb_len t = 0")
    case True
    then have q: "ch_queue d = []" using len by simp
    then have same: "(chans w)(?p \<mapsto> d\<lparr>ch_queue := drop n (ch_queue d)\<rparr>) = chans w"
      using d by (simp add: fun_upd_idem)
    have cl: "ch_closed d = bb_closed t" by (simp add: dt chan_of_def)
    show ?thesis
    proof (cases "bb_closed t")
      case True
      then show ?thesis using start s2 q same cl \<open>bb_len t = 0\<close> by simp
    next
      case False
      have A2: "?w2 a = Some ?A1" using P(4) by simp
      let ?w3 = "?w2(a \<mapsto> BIO_set_retry_read ?A1)"
      have s3: "bio_upd a BIO_set_retry_read ?w2 = Some ?w3" "pair_wf ?w3" "chans ?w3 = chans w"
        using bio_upd_calm [of ?w2 a ?A1, OF s2(2) A2 calm_ops(2)] s2(3) by simp_all
      have P3: "?w3 ?p = Some ?P2" using P(4) by simp
      let ?f = "\<lambda>s. s\<lparr>bb_request := (if n \<le> bb_size s then n else bb_size s)\<rparr>"
      have "st_ok (?f ?t)" using P(7) True by (simp add: st_ok_def)
      then obtain w4 where s4: "bb_upd ?p ?f ?w3 = Some w4" "pair_wf w4" "chans w4 = chans w"
        using bb_upd_quiet [of ?w3 ?p ?P2 ?t ?f, OF s3(2) P3] s3(3) by auto
      then show ?thesis using start True False s3 q same cl by simp
    qed
  next
    case False
    let ?m = "min n (bb_len t)"
    have "ring_ok ?t" "0 < ?m" "?m \<le> bb_len ?t" using P(5) n False by simp_all
    from ring_read_reads [OF this, of "[]"] obtain t' where t': "ring_read ?m [] ?t = Some (take ?m (ring_contents t), t')"
        "ring_ok t'" "ring_contents t' = drop ?m (ring_contents t)" "same_ends ?t t'" by auto
    have ends: "bb_peer t' = bb_peer t" "bb_closed t' = bb_closed t" "bb_size t' = bb_size t" "bb_request t' = 0"
      using t'(4) by (simp_all add: same_ends_def)
    have "st_ok t'" using t'(2) ends P(7) A P(3) a by (auto simp: st_ok_def ring_ok_def)
    moreover have P2: "?w2 ?p = Some ?P2" by simp
    moreover have "bb_buf t' \<noteq> None" using t'(2) by (auto simp: ring_ok_def)
    ultimately obtain w3 where s3: "bb_upd ?p (\<lambda>_. t') ?w2 = Some w3" "pair_wf w3"
        "chans w3 = (chans w)(?p \<mapsto> chan_of t')"
      using bb_upd_step [of ?w2 ?p ?P2 ?t "\<lambda>_. t'", OF s2(2) P2] ends s2(3) by auto
    have q: "ch_queue d = ring_contents t" by (simp add: dt chan_of_def)
    have "take ?m (ring_contents t) = take n (ring_contents t)" "drop ?m (ring_contents t) = drop n (ring_contents t)"
      by (auto simp: min_def)
    moreover have "chan_of t' = d\<lparr>ch_queue := drop n (ring_contents t)\<rparr>"
      using ends t'(3) calculation by (simp add: dt chan_of_def)
    moreover have "ch_queue d \<noteq> []" using len False by auto
    ultimately show ?thesis using start False t'(1) s3 q len by simp
  qed
qed

lemma bio_write_queue:
  assumes wf: "pair_wf w" and A: "w a = Some A" "bio_ptr A = Some s" "bb_peer s \<noteq> 0"
    and c: "chans w a = Some c" and n: "data \<noteq> []"
  shows "\<exists>w'. bio_write a (Some data) w =
      Some (if ch_closed c \<or> length (ch_queue c) = ch_size c then - 1
            else int (min (length data) (ch_size c - length (ch_queue c))), w') \<and>
    pair_wf w' \<and>
    chans w' = (if ch_closed c then chans w
      else (chans w)(a \<mapsto> c\<lparr>ch_queue := ch_queue c @ take (ch_size c - length (ch_queue c)) data\<rparr>))"
proof -
  obtain P t where P: "w (bb_peer s) = Some P" "bb_peer s \<noteq> a" and init: "bio_init A" and a: "a \<noteq> 0"
      and s: "ring_ok s" "bb_buf s \<noteq> None"
    using wf_linked [OF wf A] by metis
  have ok: "st_ok s" using pair_wfD [OF wf A(1)] A(2) by (metis option.inject)
  have cs: "c = chan_of s" using c A a by (simp add: chans_Some)
  let ?A1 = "BIO_clear_retry_flags A"
  let ?w1 = "w(a \<mapsto> ?A1)"
  have s1: "bio_upd a BIO_clear_retry_flags w = Some ?w1" "pair_wf ?w1" "chans ?w1 = chans w"
    using bio_upd_calm [of w a A, OF wf A(1) calm_ops(1)] by simp_all
  have A1: "?w1 a = Some ?A1" "bio_ptr ?A1 = Some s" using A by simp_all
  let ?s = "s\<lparr>bb_request := 0\<rparr>"
  let ?A2 = "?A1\<lparr>bio_ptr := Some ?s\<rparr>"
  let ?w2 = "?w1(a \<mapsto> ?A2)"
  have s2: "bb_upd a (\<lambda>s. s\<lparr>bb_request := 0\<rparr>) ?w1 = Some ?w2" "pair_wf ?w2" "chans ?w2 = chans w"
    using bb_upd_quiet [of ?w1 a ?A1 s "\<lambda>s. s\<lparr>bb_request := 0\<rparr>", OF s1(2) A1] ok s1(3)
    by (simp_all add: st_ok_request)
  have le: "bb_len s \<le> bb_size s" using s(1) by (simp add: ring_ok_def)
  have start: "bio_write a (Some data) w =
      (if bb_closed s then Some (- 1, ?w2)
       else if bb_len s = bb_size s then do {
         w \<leftarrow> bio_upd a BIO_set_retry_write ?w2;
         Some (- 1, w) }
       else do {
         b \<leftarrow> ring_write (min (length data) (bb_size s - bb_len s)) data ?s;
         w \<leftarrow> bb_upd a (\<lambda>_. b) ?w2;
         Some (int (min (length data) (bb_size s - bb_len s)), w) })"
    using s1(1) s2(1) A a n init s(2) le
    by (simp add: bio_write_def heap_simps Let_def)
  have q: "ch_queue c = ring_contents s" "ch_size c = bb_size s" "ch_closed c = bb_closed s"
    by (simp_all add: cs chan_of_def)
  have A2: "?w2 a = Some ?A2" by simp
  show ?thesis
  proof (cases "bb_closed s \<or> bb_len s = bb_size s")
    case True
    have same: "(chans w)(a \<mapsto> c\<lparr>ch_queue := ch_queue c @ take 0 data\<rparr>) = chans w"
      using c by (simp add: fun_upd_idem)
    show ?thesis
    proof (cases "bb_closed s")
      case True
      then show ?thesis using start s2 q by simp
    next
      case False
      then have full: "bb_len s = bb_size s" using True by simp
      obtain w3 where "bio_upd a BIO_set_retry_write ?w2 = Some w3" "pair_wf w3" "chans w3 = chans w"
        using bio_upd_calm [of ?w2 a ?A2, OF s2(2) A2 calm_ops(3)] s2(3) by simp
      then show ?thesis using start False full q same by simp
    qed
  next
    case False
    let ?m = "min (length data) (bb_size s - bb_len s)"
    have "ring_ok ?s" "0 < ?m" "bb_len ?s + ?m \<le> bb_size ?s" "?m \<le> length data" using s(1) n False le by auto
    from ring_write_writes [OF this] obtain s' where s': "ring_write ?m data ?s = Some s'" "ring_ok s'"
        "ring_contents s' = ring_contents s @ take ?m data" "same_ends ?s s'" by auto
    have ends: "bb_peer s' = bb_peer s" "bb_closed s' = bb_closed s" "bb_size s' = bb_size s" "bb_request s' = 0"
      using s'(4) by (simp_all add: same_ends_def)
    have "st_ok s'" using s'(2) ends ok A by (auto simp: st_ok_def)
    moreover have "bb_buf s' \<noteq> None" using s'(2) by (auto simp: ring_ok_def)
    ultimately obtain w3 where s3: "bb_upd a (\<lambda>_. s') ?w2 = Some w3" "pair_wf w3"
        "chans w3 = (chans w)(a \<mapsto> chan_of s')"
      using bb_upd_step [of ?w2 a ?A2 ?s "\<lambda>_. s'", OF s2(2) A2] ends s2(3) by auto
    have "take ?m data = take (bb_size s - bb_len s) data" by (auto simp: min_def)
    then have "chan_of s' = c\<lparr>ch_queue := ch_queue c @ take (bb_size s - bb_len s) data\<rparr>"
      using ends s'(3) by (simp add: cs chan_of_def)
    then show ?thesis using start False s'(1) s3 q by simp
  qed
qed

end
