(* ===== verification/Bio_Pair_Calls.thy ===== *)
theory Bio_Pair_Calls
  imports Bio_Pair_Run
begin

text \<open>
  The interface of pairs: every sequence of calls with live objects keeps the invariant, and the
  bytes read at one end are those written at the other, in their order.
\<close>

section \<open>Reading and writing\<close>

lemma chansD:
  assumes "chans w a = Some c"
  obtains A s where "w a = Some A" "bio_ptr A = Some s" "a \<noteq> 0" "c = chan_of s"
  using assms by (auto simp: chans_def bb_at_def bio_at_def bind_eq_Some_conv split: if_splits)

lemma pair_methods: "bio_method A = 1 \<Longrightarrow> bio_methods (pair_env ml new) A = Some (methods_biop ml)"
  by (simp add: bio_methods_def pair_env_def)

text \<open>An object of a heap that keeps the invariant, with its table of methods.\<close>

lemma wf_env:
  assumes "pair_wf w" and "chans w a = Some c"
  obtains A s where "w a = Some A" "bio_ptr A = Some s" "a \<noteq> 0" "c = chan_of s"
    "bio_methods (pair_env ml new) A = Some (methods_biop ml)" "bio_init A \<longleftrightarrow> ch_peer c \<noteq> 0"
proof -
  obtain A s where A: "w a = Some A" "bio_ptr A = Some s" "a \<noteq> 0" "c = chan_of s"
    using assms(2) by (rule chansD)
  moreover have "bio_method A = 1" "bio_init A \<longleftrightarrow> bb_peer s \<noteq> 0"
    using pair_wfD [OF assms(1) A(1)] A(2) by (metis option.inject)+
  ultimately show thesis using that pair_methods by (metis chan.select_convs(1) chan_of_def)
qed

lemma count_bytes:
  assumes "pair_wf w" and "chans w a \<noteq> None" and "calm f"
  shows "\<exists>w'. (if p then bio_upd a f w else Some w) = Some w' \<and> pair_wf w' \<and> chans w' = chans w"
proof -
  obtain c where "chans w a = Some c" using assms(2) by auto
  then obtain A where "w a = Some A" by (rule chansD)
  from bio_upd_calm [of w a A f, OF assms(1) this assms(3)] assms(1) show ?thesis by auto
qed

text \<open>The result of reading from a queue, and of writing to one.\<close>

definition read_result :: "chan \<Rightarrow> int \<Rightarrow> int" where
  "read_result d len =
     (if ch_queue d \<noteq> [] then min len (int (length (ch_queue d))) else if ch_closed d then 0 else - 1)"

definition write_result :: "chan \<Rightarrow> int \<Rightarrow> int" where
  "write_result c inl =
     (if ch_closed c \<or> length (ch_queue c) = ch_size c then - 1
      else min inl (int (ch_size c - length (ch_queue c))))"

lemma BIO_read_queue:
  assumes "pair_wf w" and "chans w a = Some c" and "ch_peer c \<noteq> 0" and "chans w (ch_peer c) = Some d" and "0 < len"
  shows "\<exists>w'. BIO_read (pair_env ml new) a True len w = Some (read_result d len, take (nat len) (ch_queue d), w') \<and>
    pair_wf w' \<and> chans w' = (chans w)(ch_peer c \<mapsto> d\<lparr>ch_queue := drop (nat len) (ch_queue d)\<rparr>)"
proof -
  obtain A s where A: "w a = Some A" "bio_ptr A = Some s" "a \<noteq> 0" "c = chan_of s"
      "bio_methods (pair_env ml new) A = Some (methods_biop ml)" "bio_init A \<longleftrightarrow> ch_peer c \<noteq> 0"
    using assms(1,2) by (rule wf_env)
  have p: "bb_peer s = ch_peer c" using A(4) by (simp add: chan_of_def)
  have r: "(if ch_queue d \<noteq> [] then int (min (nat len) (length (ch_queue d))) else if ch_closed d then 0 else - 1)
      = read_result d len"
    using assms(5) by (auto simp: read_result_def min_def)
  have "bb_peer s \<noteq> 0" "chans w (bb_peer s) = Some d" "0 < nat len" using p assms(3-5) by simp_all
  from bio_read_queue [OF assms(1) A(1,2) this] obtain w1 where
    w1: "bio_read a True (nat len) w = Some (read_result d len, take (nat len) (ch_queue d), w1)" "pair_wf w1"
      "chans w1 = (chans w)(ch_peer c \<mapsto> d\<lparr>ch_queue := drop (nat len) (ch_queue d)\<rparr>)"
    unfolding r p by blast
  have "chans w1 a \<noteq> None" using w1(3) assms(2) by simp
  from count_bytes [OF w1(2) this calm_ops(4), of "read_result d len > 0"
      "\<lambda>b. wrap64 (bio_num_read b + nat (read_result d len))"] obtain w2 where
    w2: "(if read_result d len > 0
          then bio_upd a (\<lambda>b. b\<lparr>bio_num_read := wrap64 (bio_num_read b + nat (read_result d len))\<rparr>) w1
          else Some w1) = Some w2" "pair_wf w2" "chans w2 = chans w1"
    by blast
  have "m_bread (methods_biop ml) = Some bio_read" by (simp add: methods_biop_def)
  then have "BIO_read (pair_env ml new) a True len w = Some (read_result d len, take (nat len) (ch_queue d), w2)"
    using A(1-3,5,6) assms(3,5) w1(1) w2(1) by (simp add: BIO_read_def bio_input_def bio_at_Some)
  then show ?thesis using w2 w1(3) by simp
qed

lemma BIO_write_queue:
  assumes "pair_wf w" and "chans w a = Some c" and "ch_peer c \<noteq> 0" and "0 < inl" and "inl \<le> int (length data)"
  shows "\<exists>w'. BIO_write (pair_env ml new) a (Some data) inl w = Some (write_result c inl, w') \<and> pair_wf w' \<and>
    chans w' = (if ch_closed c then chans w
      else (chans w)(a \<mapsto> c\<lparr>ch_queue :=
             ch_queue c @ take (ch_size c - length (ch_queue c)) (take (nat inl) data)\<rparr>))"
proof -
  obtain A s where A: "w a = Some A" "bio_ptr A = Some s" "a \<noteq> 0" "c = chan_of s"
      "bio_methods (pair_env ml new) A = Some (methods_biop ml)" "bio_init A \<longleftrightarrow> ch_peer c \<noteq> 0"
    using assms(1,2) by (rule wf_env)
  let ?d = "take (nat inl) data"
  have len: "length ?d = nat inl" using assms(4,5) by simp
  then have ne: "?d \<noteq> []" using assms(4) by (metis length_0_conv nat_0_iff not_less)
  have p: "bb_peer s \<noteq> 0" using A(4) assms(3) by (simp add: chan_of_def)
  have r: "(if ch_closed c \<or> length (ch_queue c) = ch_size c then - 1
      else int (min (length ?d) (ch_size c - length (ch_queue c)))) = write_result c inl"
    using assms(4) unfolding len by (auto simp: write_result_def min_def)
  from bio_write_queue [OF assms(1) A(1,2) p assms(2) ne] obtain w1 where
    w1: "bio_write a (Some ?d) w = Some (write_result c inl, w1)" "pair_wf w1"
      "chans w1 = (if ch_closed c then chans w
        else (chans w)(a \<mapsto> c\<lparr>ch_queue := ch_queue c @ take (ch_size c - length (ch_queue c)) ?d\<rparr>))"
    unfolding r by blast
  have "chans w1 a \<noteq> None" using w1(3) assms(2) by simp
  from count_bytes [OF w1(2) this calm_ops(5), of "write_result c inl > 0"
      "\<lambda>b. wrap64 (bio_num_write b + nat (write_result c inl))"] obtain w2 where
    w2: "(if write_result c inl > 0
          then bio_upd a (\<lambda>b. b\<lparr>bio_num_write := wrap64 (bio_num_write b + nat (write_result c inl))\<rparr>) w1
          else Some w1) = Some w2" "pair_wf w2" "chans w2 = chans w1"
    by blast
  have "m_bwrite (methods_biop ml) = Some bio_write" by (simp add: methods_biop_def)
  then have "BIO_write (pair_env ml new) a (Some data) inl w = Some (write_result c inl, w2)"
    using A(1-3,5,6) assms(3,4) w1(1) w2(1) by (simp add: BIO_write_def bio_at_Some)
  then show ?thesis using w2 w1(3) by simp
qed

text \<open>A side that is not connected answers -2 and changes nothing.\<close>

lemma BIO_io_unconnected:
  assumes "pair_wf w" and "chans w a = Some c" and "ch_peer c = 0"
  shows "BIO_read (pair_env ml new) a buf len w = Some (- 2, [], w)"
    and "BIO_write (pair_env ml new) a data inl w = Some (- 2, w)"
proof -
  obtain A s where A: "w a = Some A" "bio_ptr A = Some s" "a \<noteq> 0" "c = chan_of s"
      "bio_methods (pair_env ml new) A = Some (methods_biop ml)" "bio_init A \<longleftrightarrow> ch_peer c \<noteq> 0"
    using assms(1,2) by (rule wf_env)
  then show "BIO_read (pair_env ml new) a buf len w = Some (- 2, [], w)"
    and "BIO_write (pair_env ml new) a data inl w = Some (- 2, w)"
    using assms(3) by (simp_all add: BIO_read_def bio_input_def BIO_write_def bio_at_Some methods_biop_def)
qed

section \<open>A pair as a source of bytes\<close>

definition reads_from :: "nat \<Rightarrow> pair_bios \<Rightarrow> bool" where
  "reads_from a w \<longleftrightarrow> pair_wf w \<and> (\<exists>c d. chans w a = Some c \<and> ch_peer c \<noteq> 0 \<and> chans w (ch_peer c) = Some d)"

definition incoming :: "nat \<Rightarrow> pair_bios \<Rightarrow> u8 list" where
  "incoming a w = (case chans w a of None \<Rightarrow> [] | Some c \<Rightarrow>
     (case chans w (ch_peer c) of None \<Rightarrow> [] | Some d \<Rightarrow> ch_queue d))"

lemma reads_fromE:
  assumes "reads_from a w" and "0 < len"
  obtains d w' where "BIO_read (pair_env ml new) a True len w = Some (read_result d len, take (nat len) (incoming a w), w')"
    "ch_queue d = incoming a w" "reads_from a w'" "incoming a w' = drop (nat len) (incoming a w)"
proof -
  obtain c d where c: "pair_wf w" "chans w a = Some c" "ch_peer c \<noteq> 0" "chans w (ch_peer c) = Some d"
    using assms(1) by (auto simp: reads_from_def)
  then have q: "incoming a w = ch_queue d" by (simp add: incoming_def)
  obtain A s where A: "w a = Some A" "bio_ptr A = Some s" "c = chan_of s" using c(2) by (rule chansD)
  have "bb_peer s \<noteq> 0" using c(3) A(3) by (simp add: chan_of_def)
  from wf_linked [OF c(1) A(1,2) this] have ne: "ch_peer c \<noteq> a"
    using A(3) by (metis chan.select_convs(1) chan_of_def)
  from BIO_read_queue [OF c assms(2)] obtain w' where
    w': "BIO_read (pair_env ml new) a True len w = Some (read_result d len, take (nat len) (ch_queue d), w')"
      "pair_wf w'" "chans w' = (chans w)(ch_peer c \<mapsto> d\<lparr>ch_queue := drop (nat len) (ch_queue d)\<rparr>)" by blast
  have "reads_from a w'" "incoming a w' = drop (nat len) (ch_queue d)"
    using w'(2,3) c ne by (auto simp: reads_from_def incoming_def)
  then show thesis using that w'(1) q by simp
qed

interpretation pair_source: bio_source "pair_env ml new" a "reads_from a" "incoming a" for ml new a
proof
  fix w len
  assume w: "reads_from a w" and len: "(0 :: int) < len" "len \<le> INT_MAX" and ne: "incoming a w \<noteq> []"
  obtain d w' where r: "BIO_read (pair_env ml new) a True len w = Some (read_result d len, take (nat len) (incoming a w), w')"
      "ch_queue d = incoming a w" "reads_from a w'" "incoming a w' = drop (nat len) (incoming a w)"
    using w len(1) by (rule reads_fromE)
  let ?k = "min (nat len) (length (incoming a w))"
  have "read_result d len = int ?k" using r(2) ne len by (simp add: read_result_def)
  moreover have "take ?k (incoming a w) = take (nat len) (incoming a w)"
    "drop ?k (incoming a w) = drop (nat len) (incoming a w)" by (auto simp: min_def)
  ultimately show "\<exists>k w'. BIO_read (pair_env ml new) a True len w = Some (int k, take k (incoming a w), w') \<and>
      0 < k \<and> k \<le> nat len \<and> k \<le> length (incoming a w) \<and> reads_from a w' \<and> incoming a w' = drop k (incoming a w)"
    using r len(1) ne by (intro exI [of _ ?k] exI [of _ w']) auto
next
  fix w len
  assume w: "reads_from a w" and len: "(0 :: int) < len" and e: "incoming a w = []"
  obtain d w' where "BIO_read (pair_env ml new) a True len w = Some (read_result d len, take (nat len) (incoming a w), w')"
      "ch_queue d = incoming a w" "reads_from a w'" "incoming a w' = drop (nat len) (incoming a w)"
    using w len(1) by (rule reads_fromE)
  then show "\<exists>r w'. BIO_read (pair_env ml new) a True len w = Some (r, [], w') \<and> (r = 0 \<or> r = - 1) \<and>
      reads_from a w' \<and> incoming a w' = []"
    using e by (auto simp: read_result_def)
qed

end
