(* ===== verification/Bio_Pair_Props.thy ===== *)
theory Bio_Pair_Props
  imports Bio_Pair_Calls
begin

text \<open>
  Every sequence of calls on live objects succeeds and keeps the invariant; the bytes read at one
  end are those written at the other.
\<close>

section \<open>Control calls\<close>

definition same_live :: "pair_bios \<Rightarrow> pair_bios \<Rightarrow> bool" where
  "same_live w w' \<longleftrightarrow> (\<forall>x. w' x = None \<longleftrightarrow> w x = None)"

lemma same_live_refl [simp]: "same_live w w"
  by (simp add: same_live_def)

lemma same_live_upd: "w a = Some A \<Longrightarrow> same_live w (w(a \<mapsto> A'))"
  by (simp add: same_live_def)

lemma BIO_ctrl_safe:
  assumes "pair_wf w" and "w a = Some A" and "ptr = 0 \<or> w ptr \<noteq> None"
  shows "\<exists>r w'. BIO_ctrl (pair_env ml new) a cmd num ptr w = Some (r, w') \<and> pair_wf w' \<and> same_live w w'"
proof -
  obtain s where A: "a \<noteq> 0" "bio_method A = 1" "bio_ptr A = Some s" "st_ok s" "bb_peer s \<noteq> 0 \<longrightarrow> linked w a s"
    using pair_wfD [OF assms(1,2)] by blast
  let ?good = "\<lambda>u. \<exists>w'. u = Some w' \<and> pair_wf w' \<and> same_live w w'"
  have quiet: "?good (bb_upd a f w)" if "bb_peer (f s) = bb_peer s" "st_ok (f s)" "bb_buf (f s) = bb_buf s" for f
    using bb_upd_step [of w a A s f, OF assms(1,2) A(3) that(1,2)] that(3) same_live_upd [of w a A, OF assms(2)]
    by simp
  have "?good (bio_upd a (\<lambda>b. b\<lparr>bio_shutdown := sint (of_int num :: u32)\<rparr>) w)"
    using bio_upd_calm [of w a A, OF assms(1,2) calm_ops(6)] same_live_upd [of w a A, OF assms(2)] by simp
  then obtain w1 where w1: "bio_upd a (\<lambda>b. b\<lparr>bio_shutdown := sint (of_int num :: u32)\<rparr>) w = Some w1"
      "pair_wf w1" "same_live w w1" by blast
  have ok: "st_ok (s\<lparr>bb_request := 0\<rparr>)" "st_ok (s\<lparr>bb_closed := True\<rparr>)" using A(4) by (auto simp: st_ok_def)
  obtain w2 where w2: "bb_upd a (\<lambda>b. b\<lparr>bb_request := 0\<rparr>) w = Some w2" "pair_wf w2" "same_live w w2"
    using quiet [of "\<lambda>b. b\<lparr>bb_request := 0\<rparr>"] ok(1) by auto
  obtain w3 where w3: "bb_upd a (\<lambda>b. b\<lparr>bb_closed := True\<rparr>) w = Some w3" "pair_wf w3" "same_live w w3"
    using quiet [of "\<lambda>b. b\<lparr>bb_closed := True\<rparr>"] ok(2) by auto
  have peer: "\<exists>t. bb_at (bb_peer s) w = Some t" if ne: "bb_peer s \<noteq> 0"
  proof -
    obtain P t where "w (bb_peer s) = Some P" "bio_ptr P = Some t" using A(5) ne unfolding linked_def by blast
    from bb_at_Some [of "bb_peer s" w P t, OF ne this] show ?thesis by blast
  qed
  have other: "\<exists>t. bb_at ptr w = Some t" if ptr: "ptr \<noteq> 0"
  proof -
    obtain B where B: "w ptr = Some B" using ptr assms(3) by auto
    obtain t where "bio_ptr B = Some t" using pair_wfD [OF assms(1) B] by blast
    from bb_at_Some [of ptr w B t, OF ptr B this] show ?thesis by blast
  qed
  have at: "bio_at a w = Some A" using A(1) assms(2) by (rule bio_at_Some)
  have "BIO_ctrl (pair_env ml new) a cmd num ptr w = bio_ctrl a cmd num ptr w"
    using A(1,2) at pair_methods [of A ml new] by (simp add: BIO_ctrl_def methods_biop_def)
  moreover have "\<exists>r w'. bio_ctrl a cmd num ptr w = Some (r, w') \<and> pair_wf w' \<and> same_live w w'"
    using w1 w2 w3 peer other assms(1) by (auto simp: bio_ctrl_def at A(3))
  ultimately show ?thesis by simp
qed

section \<open>Creation, connection and release\<close>

lemma wf_add:
  assumes "pair_wf w" and "w a = None" and "a \<noteq> 0" and "bio_method X = 1" and "bio_next_bio X = 0"
    and "bio_references X \<noteq> 0" and "bio_ptr X = Some s" and "st_ok s" and "\<not> bio_init X" and "bb_peer s = 0"
  shows "pair_wf (w(a \<mapsto> X))"
  unfolding pair_wf_def
proof (intro allI impI)
  fix y Y
  assume y: "(w(a \<mapsto> X)) y = Some Y"
  show "bio_ok (w(a \<mapsto> X)) y Y"
  proof (cases "y = a")
    case True
    then show ?thesis using assms y by (auto simp: bio_ok_def)
  next
    case False
    then have "w y = Some Y" using y by simp
    from pair_wfD [OF assms(1) this] obtain t where "y \<noteq> 0" "bio_method Y = 1" "bio_next_bio Y = 0"
        "bio_references Y \<noteq> 0" "bio_ptr Y = Some t" "st_ok t" "bio_init Y \<longleftrightarrow> bb_peer t \<noteq> 0"
        "bb_peer t \<noteq> 0 \<longrightarrow> linked w y t" by blast
    moreover have "linked w y t \<Longrightarrow> linked (w(a \<mapsto> X)) y t" using assms(2) by (auto simp: linked_def)
    ultimately show ?thesis by (auto simp: bio_ok_def)
  qed
qed

lemma wf_remove:
  assumes "pair_wf w" and "w a = Some A" and "bio_ptr A = Some s" and "bb_peer s = 0"
  shows "pair_wf (w(a := None))"
  unfolding pair_wf_def
proof (intro allI impI)
  fix y Y
  assume y: "(w(a := None)) y = Some Y"
  then have w: "w y = Some Y" and ne: "y \<noteq> a" by (auto split: if_splits)
  from pair_wfD [OF assms(1) w] obtain t where "y \<noteq> 0" "bio_method Y = 1" "bio_next_bio Y = 0"
      "bio_references Y \<noteq> 0" "bio_ptr Y = Some t" "st_ok t" "bio_init Y \<longleftrightarrow> bb_peer t \<noteq> 0"
      "bb_peer t \<noteq> 0 \<longrightarrow> linked w y t" by blast
  moreover have "linked w y t \<Longrightarrow> linked (w(a := None)) y t" using assms(2-4) calculation(1) by (auto simp: linked_def)
  ultimately show "bio_ok (w(a := None)) y Y" by (auto simp: bio_ok_def)
qed

definition fresh :: "(pair_bios \<Rightarrow> nat) \<Rightarrow> bool" where
  "fresh new \<longleftrightarrow> (\<forall>w. new w = 0 \<or> w (new w) = None)"

lemma BIO_new_safe:
  assumes "pair_wf w" and "fresh new"
  shows "\<exists>r w'. BIO_new (pair_env ml new) bio_s_bio w = Some (r, w') \<and> pair_wf w' \<and>
    (if r = 0 then w' = w else w r = None \<and> (\<exists>X s. w' = w(r \<mapsto> X) \<and> bio_ptr X = Some s \<and> bb_peer s = 0 \<and>
      bio_references X = 1 \<and> bb_buf s = None \<and> bb_size s = 17 * 1024))"
proof (cases "new w = 0")
  case True
  then show ?thesis using assms(1) by (simp add: BIO_new_def pair_env_def)
next
  case False
  then have r: "w (new w) = None" using assms(2) [unfolded fresh_def, rule_format, of w] by simp
  show ?thesis
  proof (cases "OPENSSL_malloc ml 56")
    case None
    have "w(new w := None) = w" using r by auto
    then show ?thesis
      using None False assms(1)
      by (simp add: BIO_new_def pair_env_def bio_s_bio_def methods_biop_def bio_new_def)
  next
    case (Some m)
    define s where "s = \<lparr>bb_peer = 0, bb_closed = False, bb_len = 0, bb_offset = 0, bb_size = 17 * 1024, bb_buf = None,
        bb_request = 0\<rparr>"
    define X where "X = \<lparr>bio_method = 1, bio_init = False, bio_shutdown = 1, bio_flags = 0,
        bio_retry_reason = 0, bio_num = 0, bio_references = 1, bio_ptr = Some s,
        bio_next_bio = 0, bio_num_read = 0, bio_num_write = 0\<rparr>"
    have "BIO_new (pair_env ml new) bio_s_bio w = Some (new w, w(new w \<mapsto> X))"
      using Some False
      by (simp add: BIO_new_def pair_env_def bio_s_bio_def methods_biop_def bio_new_def bio_upd_def bio_at_def
          X_def s_def Let_def)
    moreover have "pair_wf (w(new w \<mapsto> X))"
      using assms(1) r False by (intro wf_add [of _ _ _ s]) (simp_all add: X_def s_def st_ok_def)
    ultimately show ?thesis using r False by (auto simp: X_def s_def)
  qed
qed

lemma make_side_safe:
  assumes "malloc_ok ml" and "pair_wf w" and "w a = Some A" and "bio_ptr A = Some s" and "bb_peer s = 0" and "n + 8 < 2 ^ 64"
  shows "\<exists>ok s'. make_side ml a n w = Some (ok, w(a \<mapsto> A\<lparr>bio_ptr := Some s'\<rparr>)) \<and>
    pair_wf (w(a \<mapsto> A\<lparr>bio_ptr := Some s'\<rparr>)) \<and> bb_peer s' = 0 \<and> (ok \<longrightarrow> bb_buf s' \<noteq> None) \<and>
    (bb_buf s = None \<longrightarrow> bb_size s' = (if n \<noteq> 0 then n else bb_size s) \<and>
       (OPENSSL_malloc ml (bb_size s') \<noteq> None \<longleftrightarrow> ok))"
proof -
  have a: "a \<noteq> 0" "st_ok s" using pair_wfD [OF assms(2,3)] assms(4) by (metis option.inject)+
  have upd: "bb_upd a f w = Some (w(a \<mapsto> A\<lparr>bio_ptr := Some (f s)\<rparr>)) \<and> pair_wf (w(a \<mapsto> A\<lparr>bio_ptr := Some (f s)\<rparr>))"
    if "bb_peer (f s) = 0" "st_ok (f s)" "bb_buf s \<noteq> None \<longrightarrow> bb_buf (f s) \<noteq> None" for f
    using bb_upd_step [of w a A s f, OF assms(2-4)] that assms(5) by simp
  have at: "bb_at a w = Some s" by (rule bb_at_Some [of a w A s, OF a(1) assms(3,4)])
  define s1 where "s1 = (if n \<noteq> 0 then s\<lparr>bb_size := n\<rparr> else s)"
  show ?thesis
  proof (cases "bb_buf s")
    case (Some mem)
    have "make_side ml a n w = Some (True, w(a \<mapsto> A\<lparr>bio_ptr := Some s\<rparr>))"
      using upd [of "\<lambda>_. s"] Some assms(5) a(2) by (simp add: make_side_def at make_buf_def)
    then show ?thesis using upd [of "\<lambda>_. s"] Some assms(5) a(2) by (intro exI [of _ True] exI [of _ s]) simp
  next
    case None
    have s: "st_ok s1" "bb_peer s1 = 0" "bb_buf s1 = None" "bb_size s1 = (if n \<noteq> 0 then n else bb_size s)"
      using a(2) assms(5,6) None by (auto simp: st_ok_def s1_def)
    show ?thesis
    proof (cases "OPENSSL_malloc ml (bb_size s1)")
      case fail: None
      let ?f = "\<lambda>b. if n \<noteq> 0 then b\<lparr>bb_size := n\<rparr> else b"
      have "make_buf ml n s = None" using None fail by (simp add: make_buf_def s1_def)
      moreover have "?f s = s1" by (simp add: s1_def)
      ultimately have "make_side ml a n w = Some (False, w(a \<mapsto> A\<lparr>bio_ptr := Some s1\<rparr>)) \<and>
          pair_wf (w(a \<mapsto> A\<lparr>bio_ptr := Some s1\<rparr>))"
        using upd [of ?f] s None by (simp add: make_side_def at)
      then show ?thesis using s None fail by (intro exI [of _ False] exI [of _ s1]) simp
    next
      case (Some mem)
      define t where "t = s1\<lparr>bb_buf := Some mem, bb_len := 0, bb_offset := 0\<rparr>"
      have "bb_size s1 + 8 < 2 ^ 64" using s(1) by (simp add: st_ok_def)
      from OPENSSL_malloc_length [OF assms(1) Some this]
      have "length mem = bb_size s1" "bb_size s1 + 8 \<le> ptrdiff_max" by blast+
      then have t: "st_ok t" "bb_peer t = 0" "bb_buf t \<noteq> None" "bb_size t = bb_size s1"
        using s by (auto simp: st_ok_def ring_ok_def t_def)
      have "make_buf ml n s = Some t" using None Some by (simp add: make_buf_def s1_def t_def)
      then have "make_side ml a n w = Some (True, w(a \<mapsto> A\<lparr>bio_ptr := Some t\<rparr>)) \<and>
          pair_wf (w(a \<mapsto> A\<lparr>bio_ptr := Some t\<rparr>))"
        using upd [of "\<lambda>_. t"] t None by (simp add: make_side_def at)
      then show ?thesis using t s None Some by (intro exI [of _ True] exI [of _ t]) simp
    qed
  qed
qed

text \<open>Connecting two objects.\<close>

definition joined :: "nat \<Rightarrow> bio_bio_st \<Rightarrow> bio_bio_st bio \<Rightarrow> bio_bio_st bio" where
  "joined peer s A = A\<lparr>bio_init := True, bio_ptr := Some (s\<lparr>bb_peer := peer, bb_closed := False, bb_request := 0\<rparr>)\<rparr>"

lemma wf_join:
  assumes "pair_wf w" and "a \<noteq> b"
    and A: "w a = Some A" "bio_ptr A = Some s" "bb_peer s = 0" "bb_buf s \<noteq> None"
    and B: "w b = Some B" "bio_ptr B = Some t" "bb_peer t = 0" "bb_buf t \<noteq> None"
  shows "pair_wf (w(a \<mapsto> joined b s A, b \<mapsto> joined a t B))"
  unfolding pair_wf_def
proof (intro allI impI)
  let ?w = "w(a \<mapsto> joined b s A, b \<mapsto> joined a t B)"
  have ok: "a \<noteq> 0" "b \<noteq> 0" "st_ok s" "st_ok t" "bio_method A = 1" "bio_next_bio A = 0" "bio_references A \<noteq> 0"
      "bio_method B = 1" "bio_next_bio B = 0" "bio_references B \<noteq> 0"
    using pair_wfD [OF assms(1) A(1)] pair_wfD [OF assms(1) B(1)] A(2) B(2) by (metis option.inject)+
  have st: "st_ok (s\<lparr>bb_peer := b, bb_closed := False, bb_request := 0\<rparr>)"
    "st_ok (t\<lparr>bb_peer := a, bb_closed := False, bb_request := 0\<rparr>)"
    using ok by (auto simp: st_ok_def ring_ok_def)
  fix y Y
  assume y: "?w y = Some Y"
  consider "y = a" | "y = b" | "y \<noteq> a" "y \<noteq> b" by blast
  then show "bio_ok ?w y Y"
  proof cases
    case 1
    have "linked ?w a (s\<lparr>bb_peer := b, bb_closed := False, bb_request := 0\<rparr>)"
      using assms(2) A(4) by (simp add: linked_def joined_def)
    then show ?thesis using 1 y ok st assms(2) by (simp add: bio_ok_def joined_def) auto
  next
    case 2
    have "linked ?w b (t\<lparr>bb_peer := a, bb_closed := False, bb_request := 0\<rparr>)"
      using assms(2) B(4) by (simp add: linked_def joined_def)
    then show ?thesis using 2 y ok st assms(2) by (simp add: bio_ok_def joined_def) auto
  next
    case 3
    then have "w y = Some Y" using y by simp
    from pair_wfD [OF assms(1) this] obtain u where u: "y \<noteq> 0" "bio_method Y = 1" "bio_next_bio Y = 0"
        "bio_references Y \<noteq> 0" "bio_ptr Y = Some u" "st_ok u" "bio_init Y \<longleftrightarrow> bb_peer u \<noteq> 0"
        "bb_peer u \<noteq> 0 \<longrightarrow> linked w y u" by blast
    moreover have "linked w y u \<Longrightarrow> linked ?w y u" using A(1-3) B(1-3) u(1) by (auto simp: linked_def)
    ultimately show ?thesis by (auto simp: bio_ok_def)
  qed
qed

lemma bio_make_pair_safe:
  assumes ml: "malloc_ok ml" and wf: "pair_wf w" and ne: "a \<noteq> b" and A: "w a = Some A" "bio_ptr A = Some s"
    and B: "w b = Some B" "bio_ptr B = Some t" and n: "n + 8 < 2 ^ 64" "m + 8 < 2 ^ 64"
  shows "\<exists>ok w'. bio_make_pair ml a b n m w = Some (ok, w') \<and> pair_wf w' \<and> same_live w w' \<and>
    (bb_peer s = 0 \<and> bb_peer t = 0 \<and> bb_buf s = None \<and> bb_buf t = None \<and> ok \<longrightarrow>
       chans w' a = Some \<lparr>ch_peer = b, ch_closed = False, ch_queue = [], ch_size = (if n \<noteq> 0 then n else bb_size s)\<rparr> \<and>
       chans w' b = Some \<lparr>ch_peer = a, ch_closed = False, ch_queue = [], ch_size = (if m \<noteq> 0 then m else bb_size t)\<rparr>)"
proof -
  have a: "a \<noteq> 0" "b \<noteq> 0" using pair_wfD [OF wf A(1)] pair_wfD [OF wf B(1)] by blast+
  have at: "bb_at a w = Some s" "bb_at b w = Some t"
    using bb_at_Some [of a w A s, OF a(1) A] bb_at_Some [of b w B t, OF a(2) B] by blast+
  show ?thesis
  proof (cases "bb_peer s \<noteq> 0 \<or> bb_peer t \<noteq> 0")
    case True
    then have "bio_make_pair ml a b n m w = Some (False, w)" by (simp add: bio_make_pair_def at)
    then show ?thesis using wf True by (intro exI [of _ False] exI [of _ w]) auto
  next
    case False
    then have p: "bb_peer s = 0" "bb_peer t = 0" by simp_all
    obtain ok1 s1 where s1: "make_side ml a n w = Some (ok1, w(a \<mapsto> A\<lparr>bio_ptr := Some s1\<rparr>))"
        "pair_wf (w(a \<mapsto> A\<lparr>bio_ptr := Some s1\<rparr>))" "bb_peer s1 = 0" "ok1 \<longrightarrow> bb_buf s1 \<noteq> None"
        "bb_buf s = None \<longrightarrow> bb_size s1 = (if n \<noteq> 0 then n else bb_size s) \<and> (OPENSSL_malloc ml (bb_size s1) \<noteq> None \<longleftrightarrow> ok1)"
      using make_side_safe [of ml w a A s n, OF ml wf A p(1) n(1)] by (elim exE conjE) (rule that; assumption)
    define w1 where "w1 = w(a \<mapsto> A\<lparr>bio_ptr := Some s1\<rparr>)"
    have B1: "w1 b = Some B" using B ne by (simp add: w1_def)
    obtain ok2 t1 where t1: "make_side ml b m w1 = Some (ok2, w1(b \<mapsto> B\<lparr>bio_ptr := Some t1\<rparr>))"
        "pair_wf (w1(b \<mapsto> B\<lparr>bio_ptr := Some t1\<rparr>))" "bb_peer t1 = 0" "ok2 \<longrightarrow> bb_buf t1 \<noteq> None"
        "bb_buf t = None \<longrightarrow> bb_size t1 = (if m \<noteq> 0 then m else bb_size t) \<and> (OPENSSL_malloc ml (bb_size t1) \<noteq> None \<longleftrightarrow> ok2)"
      using make_side_safe [of ml w1 b B t m, OF ml s1(2) [folded w1_def] B1 B(2) p(2) n(2)]
      by (elim exE conjE) (rule that; assumption)
    define w2 where "w2 = w1(b \<mapsto> B\<lparr>bio_ptr := Some t1\<rparr>)"
    have live: "same_live w w1" "same_live w w2" using A B by (auto simp: same_live_def w1_def w2_def)
    show ?thesis
    proof (cases "ok1 \<and> ok2")
      case False
      then have "bio_make_pair ml a b n m w = Some (False, if ok1 then w2 else w1)"
        using s1(1) t1(1) p by (auto simp: bio_make_pair_def at w1_def w2_def)
      then show ?thesis
        using s1(2) t1(2) live
        by (intro exI [of _ False] exI [of _ "if ok1 then w2 else w1"]) (simp add: w1_def w2_def)
    next
      case True
      let ?A = "A\<lparr>bio_ptr := Some s1\<rparr>" and ?B = "B\<lparr>bio_ptr := Some t1\<rparr>"
      let ?w = "w2(a \<mapsto> joined b s1 ?A, b \<mapsto> joined a t1 ?B)"
      have w2: "w2 a = Some ?A" "w2 b = Some ?B" using ne by (simp_all add: w2_def w1_def)
      have run: "bio_make_pair ml a b n m w = Some (True, ?w)"
        using s1(1) t1(1) p True a ne
        by (simp add: bio_make_pair_def at w1_def [symmetric] w2_def [symmetric] heap_simps w2 joined_def fun_eq_iff)
      have "pair_wf ?w"
        using wf_join [of w2 a b ?A s1 ?B t1, OF t1(2) [folded w2_def] ne w2(1) _ s1(3) _ w2(2) _ t1(3)] s1(4) t1(4) True
        by simp
      moreover have "same_live w ?w" using live(2) A(1) B(1) by (simp add: same_live_def)
      moreover have "chans ?w a = Some (chan_of (s1\<lparr>bb_peer := b, bb_closed := False, bb_request := 0\<rparr>))"
        "chans ?w b = Some (chan_of (t1\<lparr>bb_peer := a, bb_closed := False, bb_request := 0\<rparr>))"
        using a ne by (simp_all add: chans_upd joined_def)
      moreover have "bb_len s1 = 0" "bb_len t1 = 0"
      proof -
        have "st_ok s1" "st_ok t1"
          using pair_wfD [OF t1(2) [folded w2_def] w2(1)] pair_wfD [OF t1(2) [folded w2_def] w2(2)] by auto
        then show "bb_len s1 = 0" "bb_len t1 = 0" using s1(3) t1(3) by (simp_all add: st_ok_def)
      qed
      ultimately show ?thesis
        using run s1(5) t1(5)
        by (intro exI [of _ True] exI [of _ ?w]) (auto simp: chan_of_def ring_contents_def)
    qed
  qed
qed

text \<open>Release.\<close>

definition parted :: "bio_bio_st \<Rightarrow> bio_bio_st bio \<Rightarrow> bio_bio_st bio" where
  "parted s A = A\<lparr>bio_init := False, bio_ptr := Some (s\<lparr>bb_peer := 0, bb_len := 0, bb_offset := 0\<rparr>)\<rparr>"

lemma bio_destroy_pair_run:
  assumes "a \<noteq> 0" and "w a = Some A" and "bio_ptr A = Some s" and "bb_peer s = p" and "p \<noteq> 0" and "p \<noteq> a"
    and "w p = Some P" and "bio_ptr P = Some t" and "bb_peer t = a" and "bb_buf s \<noteq> None" and "bb_buf t \<noteq> None"
  shows "bio_destroy_pair a w = Some (w(p \<mapsto> parted t P, a \<mapsto> parted s A))"
  using assms by (simp add: bio_destroy_pair_def heap_simps parted_def Let_def)

lemma wf_part:
  assumes "pair_wf w" and "w a = Some A" and "bio_ptr A = Some s" and "bb_peer s = p" and "p \<noteq> 0"
    and "w p = Some P" and "bio_ptr P = Some t"
  shows "pair_wf (w(p \<mapsto> parted t P, a := None))"
  unfolding pair_wf_def
proof (intro allI impI)
  let ?w = "w(p \<mapsto> parted t P, a := None)"
  have "linked w a s" using pair_wfD [OF assms(1,2)] assms(3-5) by (metis option.inject)
  then have pt: "p \<noteq> a" "bb_peer t = a" using assms(4-7) by (auto simp: linked_def)
  have a: "a \<noteq> 0" using pair_wfD [OF assms(1,2)] by blast
  fix y Y
  assume y: "?w y = Some Y"
  then have ya: "y \<noteq> a" by auto
  show "bio_ok ?w y Y"
  proof (cases "y = p")
    case True
    have "st_ok t" "bio_method P = 1" "bio_next_bio P = 0" "bio_references P \<noteq> 0"
      using pair_wfD [OF assms(1,6)] assms(7) by (metis option.inject)+
    then show ?thesis using True y pt assms(5) by (auto simp: bio_ok_def parted_def st_ok_def ring_ok_def)
  next
    case False
    then have "w y = Some Y" using y ya by simp
    from pair_wfD [OF assms(1) this] obtain u where u: "y \<noteq> 0" "bio_method Y = 1" "bio_next_bio Y = 0"
        "bio_references Y \<noteq> 0" "bio_ptr Y = Some u" "st_ok u" "bio_init Y \<longleftrightarrow> bb_peer u \<noteq> 0"
        "bb_peer u \<noteq> 0 \<longrightarrow> linked w y u" by blast
    moreover have "linked w y u \<Longrightarrow> linked ?w y u"
      using assms(2-4,6,7) pt ya False by (auto simp: linked_def)
    ultimately show ?thesis by (auto simp: bio_ok_def)
  qed
qed

lemma BIO_free_safe:
  assumes wf: "pair_wf w" and A: "w a = Some A"
  shows "\<exists>r w'. BIO_free (pair_env ml new) a w = Some (r, w') \<and> pair_wf w'"
proof -
  obtain s where s: "a \<noteq> 0" "bio_method A = 1" "bio_next_bio A = 0" "bio_references A \<noteq> 0" "bio_ptr A = Some s"
      "bb_peer s \<noteq> 0 \<longrightarrow> linked w a s"
    using pair_wfD [OF wf A] by blast
  obtain zero refs where dec: "CRYPTO_refcount_dec_and_test_zero (bio_references A) = Some (zero, refs)"
      "\<not> zero \<longrightarrow> refs \<noteq> 0"
    using s(4) by (cases "bio_references A = CRYPTO_REFCOUNT_MAX")
      (simp_all add: CRYPTO_refcount_dec_and_test_zero_def)
  have at: "bio_at a w = Some A" by (rule bio_at_Some [of a w A, OF s(1) A])
  show ?thesis
  proof (cases zero)
    case False
    have "BIO_free (pair_env ml new) a w = Some (0, w(a \<mapsto> A\<lparr>bio_references := refs\<rparr>))"
      using s(1) at dec(1) False by (subst BIO_free.simps) simp
    moreover have "pair_wf (w(a \<mapsto> A\<lparr>bio_references := refs\<rparr>))"
      using wf_bio_upd [of w a A "\<lambda>A. A\<lparr>bio_references := refs\<rparr>", OF wf A] dec(2) False by simp
    ultimately show ?thesis by blast
  next
    case True
    let ?A = "A\<lparr>bio_references := refs, bio_next_bio := 0\<rparr>"
    let ?w = "w(a \<mapsto> ?A)"
    have pop: "BIO_pop a (w(a \<mapsto> A\<lparr>bio_references := refs\<rparr>)) = Some (0, ?w)"
      using s(1,3) by (simp add: BIO_pop_def heap_simps)
    have m: "bio_methods (pair_env ml new) ?A = Some (methods_biop ml)"
      using s(2) by (simp add: pair_methods)
    have zero0: "BIO_free (pair_env ml new) 0 w' = Some (1, w')" for w'
      by (subst BIO_free.simps) simp
    have start: "BIO_free (pair_env ml new) a w =
        do { w \<leftarrow> bio_free a ?w; Some (1, w(a := None)) }"
      using s(1) at dec(1) True pop m zero0
      by (subst BIO_free.simps) (simp add: bio_at_Some methods_biop_def)
    show ?thesis
    proof (cases "bb_peer s = 0")
      case True
      have "bio_free a ?w = Some (?w(a \<mapsto> ?A\<lparr>bio_ptr := None\<rparr>))"
        using s(1,5) True by (simp add: bio_free_def heap_simps)
      then have "BIO_free (pair_env ml new) a w = Some (1, w(a := None))" by (simp add: start)
      then show ?thesis using wf_remove [of w a A s, OF wf A s(5) True] by blast
    next
      case False
      then have l: "linked w a s" using s(6) by simp
      then obtain P t where P: "w (bb_peer s) = Some P" "bio_ptr P = Some t" "bb_peer t = a" "bb_peer s \<noteq> a"
          "bb_buf s \<noteq> None" unfolding linked_def by blast
      have "bb_buf t \<noteq> None"
        using pair_wfD [OF wf P(1)] P(2,3) s(1) unfolding linked_def by (metis option.inject)
      then have "bio_destroy_pair a ?w = Some (?w(bb_peer s \<mapsto> parted t P, a \<mapsto> parted s ?A))"
        using s(1,5) False P by (intro bio_destroy_pair_run) simp_all
      then have "bio_free a ?w = Some (?w(bb_peer s \<mapsto> parted t P, a \<mapsto> (parted s ?A)\<lparr>bio_ptr := None\<rparr>))"
        using s(1,5) False by (simp add: bio_free_def heap_simps)
      then have "BIO_free (pair_env ml new) a w =
          Some (1, ?w(bb_peer s \<mapsto> parted t P, a \<mapsto> (parted s ?A)\<lparr>bio_ptr := None\<rparr>, a := None))"
        by (simp add: start)
      also have "?w(bb_peer s \<mapsto> parted t P, a \<mapsto> (parted s ?A)\<lparr>bio_ptr := None\<rparr>, a := None) =
          w(bb_peer s \<mapsto> parted t P, a := None)"
        using P(4) by (simp add: fun_eq_iff)
      finally show ?thesis using wf_part [of w a A s, OF wf A s(5) refl False P(1,2)] by blast
    qed
  qed
qed

end
