(* ===== verification/Bio_Pair_Runs.thy ===== *)
theory Bio_Pair_Runs
  imports Bio_Pair_Props
begin

text \<open>
  Sequences of calls on pairs, from the empty heap on.
\<close>

section \<open>Calls\<close>

datatype bio_call =
    Read nat bool int
  | Write nat "u8 list option" int
  | Ctrl nat int int nat
  | New
  | Make_pair nat nat nat nat
  | Up_ref nat
  | Free nat

fun exec :: "allocator \<Rightarrow> (pair_bios \<Rightarrow> nat) \<Rightarrow> bio_call \<Rightarrow> pair_bios \<Rightarrow> pair_bios option" where
  "exec ml new (Read a buf len) w = map_option (\<lambda>(_, _, w). w) (BIO_read (pair_env ml new) a buf len w)"
| "exec ml new (Write a data inl) w = map_option snd (BIO_write (pair_env ml new) a data inl w)"
| "exec ml new (Ctrl a cmd num ptr) w = map_option snd (BIO_ctrl (pair_env ml new) a cmd num ptr w)"
| "exec ml new New w = map_option snd (BIO_new (pair_env ml new) bio_s_bio w)"
| "exec ml new (Make_pair a b n m) w = map_option snd (bio_make_pair ml a b n m w)"
| "exec ml new (Up_ref a) w = map_option snd (BIO_up_ref a w)"
| "exec ml new (Free a) w = map_option snd (BIO_free (pair_env ml new) a w)"

text \<open>
  What the caller has to see to: pointers are to live objects (or null, where the code allows it),
  the data of a write are there, and sizes of buffers do not overflow in the allocator.
\<close>

fun allowed :: "bio_call \<Rightarrow> pair_bios \<Rightarrow> bool" where
  "allowed (Read a buf len) w \<longleftrightarrow> a = 0 \<or> w a \<noteq> None"
| "allowed (Write a data inl) w \<longleftrightarrow>
     (a = 0 \<or> w a \<noteq> None) \<and> (case data of None \<Rightarrow> True | Some d \<Rightarrow> inl \<le> int (length d))"
| "allowed (Ctrl a cmd num ptr) w \<longleftrightarrow> (a = 0 \<or> w a \<noteq> None) \<and> (ptr = 0 \<or> w ptr \<noteq> None)"
| "allowed New w \<longleftrightarrow> True"
| "allowed (Make_pair a b n m) w \<longleftrightarrow> w a \<noteq> None \<and> w b \<noteq> None \<and> a \<noteq> b \<and> n + 8 < 2 ^ 64 \<and> m + 8 < 2 ^ 64"
| "allowed (Up_ref a) w \<longleftrightarrow> w a \<noteq> None"
| "allowed (Free a) w \<longleftrightarrow> a = 0 \<or> w a \<noteq> None"

inductive reachable :: "allocator \<Rightarrow> (pair_bios \<Rightarrow> nat) \<Rightarrow> pair_bios \<Rightarrow> bool" for ml new where
  start: "reachable ml new Map.empty"
| step: "reachable ml new w \<Longrightarrow> allowed c w \<Longrightarrow> exec ml new c w = Some w' \<Longrightarrow> reachable ml new w'"

lemma live_chan:
  assumes "pair_wf w" and "w a = Some A"
  obtains c where "chans w a = Some c" "ch_peer c \<noteq> 0 \<Longrightarrow> \<exists>d. chans w (ch_peer c) = Some d"
proof -
  obtain s where s: "a \<noteq> 0" "bio_ptr A = Some s" "bb_peer s \<noteq> 0 \<longrightarrow> linked w a s" using pair_wfD [OF assms] by blast
  have c: "chans w a = Some (chan_of s)" by (rule chans_Some [of a w A s, OF s(1) assms(2) s(2)])
  have "\<exists>d. chans w (ch_peer (chan_of s)) = Some d" if ne: "ch_peer (chan_of s) \<noteq> 0"
  proof -
    have p: "bb_peer s \<noteq> 0" "ch_peer (chan_of s) = bb_peer s" using ne by (simp_all add: chan_of_def)
    obtain P t where "w (bb_peer s) = Some P" "bio_ptr P = Some t" using s(3) p(1) unfolding linked_def by blast
    from chans_Some [of "bb_peer s" w P t, OF p(1) this] show ?thesis unfolding p(2) by blast
  qed
  with that [OF c] show thesis by blast
qed

lemma bio_read_null:
  assumes wf: "pair_wf w" and A: "w a = Some A"
  shows "\<exists>w'. bio_read a False n w = Some (0, [], w') \<and> pair_wf w' \<and> chans w' = chans w"
proof -
  obtain s where s: "a \<noteq> 0" "bio_ptr A = Some s" "bio_init A \<longleftrightarrow> bb_peer s \<noteq> 0" using pair_wfD [OF wf A] by blast
  let ?A1 = "BIO_clear_retry_flags A"
  let ?w1 = "w(a \<mapsto> ?A1)"
  have s1: "bio_upd a BIO_clear_retry_flags w = Some ?w1" "pair_wf ?w1" "chans ?w1 = chans w"
    using bio_upd_calm [of w a A, OF wf A calm_ops(1)] by simp_all
  show ?thesis
  proof (cases "bb_peer s = 0")
    case True
    then show ?thesis using s s1 by (simp add: bio_read_def heap_simps)
  next
    case False
    obtain P t where P: "w (bb_peer s) = Some P" "bio_ptr P = Some t" "bb_peer s \<noteq> a" "bb_buf t \<noteq> None" "st_ok t"
      using wf_linked [of w a A s, OF wf A s(2) False] by metis
    have P1: "?w1 (bb_peer s) = Some P" using P by simp
    obtain w2 where w2: "bb_upd (bb_peer s) (\<lambda>s. s\<lparr>bb_request := 0\<rparr>) ?w1 = Some w2" "pair_wf w2" "chans w2 = chans w"
      using bb_upd_quiet [of ?w1 "bb_peer s" P t "\<lambda>s. s\<lparr>bb_request := 0\<rparr>", OF s1(2) P1 P(2)] P(5) s1(3)
      by (auto simp: st_ok_request)
    then show ?thesis using s s1 P False by (simp add: bio_read_def heap_simps)
  qed
qed

lemma bio_write_null:
  assumes wf: "pair_wf w" and A: "w a = Some A"
  shows "\<exists>w'. bio_write a None w = Some (0, w') \<and> pair_wf w' \<and> chans w' = chans w"
proof -
  have a: "a \<noteq> 0" using pair_wfD [OF wf A] by blast
  then show ?thesis
    using bio_upd_calm [of w a A, OF wf A calm_ops(1)] by (simp add: bio_write_def heap_simps)
qed

lemma BIO_read_safe:
  assumes wf: "pair_wf w" and A: "w a = Some A"
  shows "\<exists>r bs w'. BIO_read (pair_env ml new) a buf len w = Some (r, bs, w') \<and> pair_wf w'"
proof -
  obtain c where c: "chans w a = Some c" "ch_peer c \<noteq> 0 \<Longrightarrow> \<exists>d. chans w (ch_peer c) = Some d"
    using live_chan [OF wf A] by blast
  obtain A' s where E: "w a = Some A'" "a \<noteq> 0" "bio_methods (pair_env ml new) A' = Some (methods_biop ml)"
      "bio_init A' \<longleftrightarrow> ch_peer c \<noteq> 0"
    using wf_env [OF wf c(1)] by metis
  consider "ch_peer c = 0" | "ch_peer c \<noteq> 0" "len \<le> 0" | "ch_peer c \<noteq> 0" "0 < len" "buf" | "ch_peer c \<noteq> 0" "0 < len" "\<not> buf"
    by linarith
  then show ?thesis
  proof cases
    case 1
    then show ?thesis using BIO_io_unconnected(1) [OF wf c(1)] wf by blast
  next
    case 2
    then have "BIO_read (pair_env ml new) a buf len w = Some (0, [], w)"
      using E by (simp add: BIO_read_def bio_input_def bio_at_Some methods_biop_def)
    then show ?thesis using wf by blast
  next
    case 3
    obtain d where "chans w (ch_peer c) = Some d" using c(2) 3 by blast
    from BIO_read_queue [where ml = ml and new = new, OF wf c(1) 3(1) this 3(2)] show ?thesis using 3(3) by auto
  next
    case 4
    obtain w1 where w1: "bio_read a False (nat len) w = Some (0, [], w1)" "pair_wf w1"
      using bio_read_null [OF wf A] by blast
    then have "BIO_read (pair_env ml new) a buf len w = Some (0, [], w1)"
      using E 4 by (simp add: BIO_read_def bio_input_def bio_at_Some methods_biop_def)
    then show ?thesis using w1(2) by blast
  qed
qed

lemma BIO_write_safe:
  assumes wf: "pair_wf w" and A: "w a = Some A" and data: "case data of None \<Rightarrow> True | Some d \<Rightarrow> inl \<le> int (length d)"
  shows "\<exists>r w'. BIO_write (pair_env ml new) a data inl w = Some (r, w') \<and> pair_wf w'"
proof -
  obtain c where c: "chans w a = Some c" using live_chan [OF wf A] by blast
  obtain A' s where E: "w a = Some A'" "a \<noteq> 0" "bio_methods (pair_env ml new) A' = Some (methods_biop ml)"
      "bio_init A' \<longleftrightarrow> ch_peer c \<noteq> 0"
    using wf_env [OF wf c] by metis
  consider "ch_peer c = 0" | "ch_peer c \<noteq> 0" "inl \<le> 0" | d where "ch_peer c \<noteq> 0" "0 < inl" "data = Some d"
    | "ch_peer c \<noteq> 0" "0 < inl" "data = None"
    by (cases data; cases "inl \<le> 0"; cases "ch_peer c = 0") auto
  then show ?thesis
  proof cases
    case 1
    then show ?thesis using BIO_io_unconnected(2) [OF wf c] wf by blast
  next
    case 2
    then have "BIO_write (pair_env ml new) a data inl w = Some (0, w)"
      using E by (simp add: BIO_write_def bio_at_Some methods_biop_def)
    then show ?thesis using wf by blast
  next
    case (3 d)
    have "inl \<le> int (length d)" using data 3(3) by simp
    from BIO_write_queue [where ml = ml and new = new, OF wf c 3(1,2) this] show ?thesis using 3(3) by auto
  next
    case 4
    obtain w1 where w1: "bio_write a None w = Some (0, w1)" "pair_wf w1" using bio_write_null [OF wf A] by blast
    then have "BIO_write (pair_env ml new) a data inl w = Some (0, w1)"
      using E 4 by (simp add: BIO_write_def bio_at_Some methods_biop_def)
    then show ?thesis using w1(2) by blast
  qed
qed

lemma exec_safe:
  assumes "malloc_ok ml" and "fresh new" and "pair_wf w" and "allowed c w"
  shows "\<exists>w'. exec ml new c w = Some w' \<and> pair_wf w'"
proof (cases c)
  case (Read a buf len)
  then show ?thesis
    using assms(3,4) BIO_read_safe [OF assms(3), where a = a and ml = ml and new = new and buf = buf and len = len]
    by (cases "a = 0") (auto simp: BIO_read_def bio_input_def)
next
  case (Write a data inl)
  then show ?thesis
    using assms(3,4) BIO_write_safe [OF assms(3), where a = a and ml = ml and new = new and data = data and inl = inl]
    by (cases "a = 0") (auto simp: BIO_write_def)
next
  case (Ctrl a cmd num ptr)
  then show ?thesis
    using assms(3,4) BIO_ctrl_safe [OF assms(3), where a = a and ml = ml and new = new and cmd = cmd and num = num and ptr = ptr]
    by (cases "a = 0") (auto simp: BIO_ctrl_def)
next
  case New
  then show ?thesis using BIO_new_safe [OF assms(3,2), of ml] by auto
next
  case (Make_pair a b n m)
  then obtain A B where AB: "w a = Some A" "w b = Some B" "a \<noteq> b" "n + 8 < 2 ^ 64" "m + 8 < 2 ^ 64"
    using assms(4) by auto
  obtain s t where "bio_ptr A = Some s" "bio_ptr B = Some t"
    using pair_wfD [OF assms(3) AB(1)] pair_wfD [OF assms(3) AB(2)] by metis
  from bio_make_pair_safe [OF assms(1,3) AB(3,1) this(1) AB(2) this(2) AB(4,5)] show ?thesis
    using Make_pair by auto
next
  case (Up_ref a)
  then obtain A where A: "w a = Some A" using assms(4) by auto
  from bio_upd_calm [of w a A, OF assms(3) A calm_ops(7)] show ?thesis using Up_ref by (simp add: BIO_up_ref_def)
next
  case (Free a)
  show ?thesis
  proof (cases "a = 0")
    case True
    then show ?thesis using Free assms(3) by (simp add: BIO_free.simps [of _ 0])
  next
    case False
    then obtain A where "w a = Some A" using Free assms(4) by auto
    from BIO_free_safe [where ml = ml and new = new, OF assms(3) this] show ?thesis using Free by auto
  qed
qed

lemma reachable_wf: "reachable ml new w \<Longrightarrow> malloc_ok ml \<Longrightarrow> fresh new \<Longrightarrow> pair_wf w"
proof (induction rule: reachable.induct)
  case start
  show ?case by (simp add: pair_wf_def)
next
  case (step w c w')
  then show ?case using exec_safe [of ml new w c] by auto
qed

text \<open>
  C27: from the empty heap on, whatever calls were made before, a call on live objects never fails
  an assertion of \<open>pair.c\<close>, follows a dangling pointer or leaves a buffer, and after it the pairs
  are well formed again: the peer of a peer is the object itself, and every ring lies in its buffer.
\<close>

theorem bio_pair_calls_safe:
  assumes "malloc_ok ml" and "fresh new" and "reachable ml new w" and "allowed c w"
  shows "\<exists>w'. exec ml new c w = Some w' \<and> pair_wf w'"
  using exec_safe [OF assms(1,2) reachable_wf [OF assms(3,1,2)] assms(4)] by blast

section \<open>A pair keeps the order of the bytes\<close>

datatype io = Put nat "u8 list" | Get nat int | Shut nat

text \<open>
  A sequence of transfers; the result has the bytes that writes to \<open>a\<close> accepted and those that
  reads from \<open>b\<close> delivered.
\<close>

fun transfer ::
    "bio_bio_st bio_env \<Rightarrow> nat \<Rightarrow> nat \<Rightarrow> io list \<Rightarrow> pair_bios \<Rightarrow> (u8 list \<times> u8 list \<times> pair_bios) option"
where
  "transfer env a b [] w = Some ([], [], w)"
| "transfer env a b (Put x data # ios) w = do {
     (r, w) \<leftarrow> BIO_write env x (Some data) (int (length data)) w;
     (sent, got, w) \<leftarrow> transfer env a b ios w;
     Some ((if x = a then take (nat r) data else []) @ sent, got, w) }"
| "transfer env a b (Get x len # ios) w = do {
     (r, bs, w) \<leftarrow> BIO_read env x True len w;
     (sent, got, w) \<leftarrow> transfer env a b ios w;
     Some (sent, (if x = b then bs else []) @ got, w) }"
| "transfer env a b (Shut x # ios) w = do {
     (r, w) \<leftarrow> BIO_shutdown_wr env x w;
     transfer env a b ios w }"

fun io_at :: "io \<Rightarrow> nat" where
  "io_at (Put x _) = x"
| "io_at (Get x _) = x"
| "io_at (Shut x) = x"

lemma chans_sym:
  assumes "pair_wf w" and "chans w a = Some c" and "ch_peer c \<noteq> 0"
  shows "ch_peer c \<noteq> a \<and> (\<exists>d. chans w (ch_peer c) = Some d \<and> ch_peer d = a)"
proof -
  obtain A s where A: "w a = Some A" "bio_ptr A = Some s" "c = chan_of s" using assms(2) by (rule chansD)
  then have p: "ch_peer c = bb_peer s" by (simp add: chan_of_def)
  then have "bb_peer s \<noteq> 0" using assms(3) by simp
  from wf_linked [OF assms(1) A(1,2) this] obtain P t where
    P: "w (bb_peer s) = Some P" "bio_ptr P = Some t" "bb_peer t = a" "bb_peer s \<noteq> a" by metis
  have "bb_peer s \<noteq> 0" using assms(3) p by simp
  from chans_Some [of "bb_peer s" w P t, OF this P(1,2)] show ?thesis using P(3,4) p by (simp add: chan_of_def)
qed

lemma BIO_shutdown_wr_queue:
  assumes "pair_wf w" and "chans w a = Some c"
  shows "\<exists>w'. BIO_shutdown_wr (pair_env ml new) a w = Some (1, w') \<and> pair_wf w' \<and>
    chans w' = (chans w)(a \<mapsto> c\<lparr>ch_closed := True\<rparr>)"
proof -
  obtain A s where A: "w a = Some A" "bio_ptr A = Some s" "a \<noteq> 0" "c = chan_of s"
      "bio_methods (pair_env ml new) A = Some (methods_biop ml)"
    using assms by (rule wf_env)
  have "st_ok s" using pair_wfD [OF assms(1) A(1)] A(2) by (metis option.inject)
  then have "st_ok (s\<lparr>bb_closed := True\<rparr>)" by (auto simp: st_ok_def)
  then obtain w' where "bb_upd a (\<lambda>b. b\<lparr>bb_closed := True\<rparr>) w = Some w'" "pair_wf w'"
      "chans w' = (chans w)(a \<mapsto> chan_of (s\<lparr>bb_closed := True\<rparr>))"
    using bb_upd_step [of w a A s "\<lambda>b. b\<lparr>bb_closed := True\<rparr>", OF assms(1) A(1,2)] by auto
  moreover have "bio_at a w = Some A" by (rule bio_at_Some [of a w A, OF A(3,1)])
  moreover have "chan_of (s\<lparr>bb_closed := True\<rparr>) = c\<lparr>ch_closed := True\<rparr>" by (simp add: A(4) chan_of_def)
  ultimately show ?thesis
    using A(2,3,5) by (simp add: BIO_shutdown_wr_def c_int_small BIO_ctrl_def methods_biop_def bio_ctrl_def bio_c_defs)
qed

lemma write_accepts:
  assumes "length (ch_queue c) \<le> ch_size c" and "data \<noteq> []"
  shows "take (nat (write_result c (int (length data)))) data =
    (if ch_closed c then [] else take (ch_size c - length (ch_queue c)) data)"
  using assms by (auto simp: write_result_def min_def nat_diff_distrib)

lemma wf_queue_le:
  assumes "pair_wf w" and "chans w a = Some c"
  shows "length (ch_queue c) \<le> ch_size c"
proof -
  obtain A s where A: "w a = Some A" "bio_ptr A = Some s" "c = chan_of s" using assms(2) by (rule chansD)
  then have "st_ok s" "bb_peer s \<noteq> 0 \<longrightarrow> linked w a s"
    using pair_wfD [OF assms(1) A(1)] by (metis option.inject)+
  then have "bb_len s \<le> bb_size s"
    by (cases "bb_peer s = 0") (auto simp: st_ok_def linked_def ring_ok_def)
  then show ?thesis by (simp add: A(3) chan_of_def)
qed

lemma transfer_queue:
  assumes "pair_wf w" and "chans w a = Some c" and "ch_peer c = b" and "b \<noteq> 0" and "\<forall>io \<in> set ios. chans w (io_at io) \<noteq> None"
  shows "\<exists>sent got w' c'. transfer (pair_env ml new) a b ios w = Some (sent, got, w') \<and>
    pair_wf w' \<and> chans w' a = Some c' \<and> ch_queue c @ sent = got @ ch_queue c' \<and> ch_size c' = ch_size c"
  using assms
proof (induction ios arbitrary: w c)
  case Nil
  then show ?case by simp
next
  case (Cons io ios)
  obtain d where d: "chans w b = Some d" "ch_peer d = a" "b \<noteq> a"
    using chans_sym [OF Cons.prems(1,2)] Cons.prems(3,4) by blast
  obtain e where e: "chans w (io_at io) = Some e" using Cons.prems(5) by auto
  text \<open>The transfers after the first, for the heap that it leaves.\<close>
  have rest: "\<exists>sent got w' c'. transfer (pair_env ml new) a b ios w1 = Some (sent, got, w') \<and>
      pair_wf w' \<and> chans w' a = Some c' \<and> ch_queue c1 @ sent = got @ ch_queue c' \<and> ch_size c' = ch_size c1"
    if "pair_wf w1" "chans w1 a = Some c1" "ch_peer c1 = b" "\<And>x. chans w x \<noteq> None \<Longrightarrow> chans w1 x \<noteq> None" for w1 c1
    by (rule Cons.IH [OF that(1-3)]) (use Cons.prems(4,5) that(4) in auto)
  show ?case
  proof (cases io)
    case (Put x data)
    show ?thesis
    proof (cases "ch_peer e = 0 \<or> data = []")
      case True
      have "\<exists>r. BIO_write (pair_env ml new) x (Some data) (int (length data)) w = Some (r, w) \<and> r \<le> 0"
      proof (cases "ch_peer e = 0")
        case True
        then show ?thesis using BIO_io_unconnected(2) [of w x e, OF Cons.prems(1)] e Put by auto
      next
        case False
        obtain A s where "w x = Some A" "x \<noteq> 0" "bio_methods (pair_env ml new) A = Some (methods_biop ml)"
            "bio_init A \<longleftrightarrow> ch_peer e \<noteq> 0"
          using wf_env [of w x e, OF Cons.prems(1)] e Put by (metis io_at.simps(1))
        then show ?thesis using True False by (simp add: BIO_write_def bio_at_Some methods_biop_def)
      qed
      then show ?thesis using rest [OF Cons.prems(1-3)] Put by fastforce
    next
      case False
      have x: "chans w x = Some e" "ch_peer e \<noteq> 0" "0 < int (length data)" "int (length data) \<le> int (length data)"
        using e Put False by simp_all
      obtain w1 where w1: "BIO_write (pair_env ml new) x (Some data) (int (length data)) w =
            Some (write_result e (int (length data)), w1)" "pair_wf w1"
          "chans w1 = (if ch_closed e then chans w
            else (chans w)(x \<mapsto> e\<lparr>ch_queue := ch_queue e @ take (ch_size e - length (ch_queue e)) data\<rparr>))"
        using BIO_write_queue [where ml = ml and new = new, OF Cons.prems(1) x] by auto
      have live: "\<And>y. chans w y \<noteq> None \<Longrightarrow> chans w1 y \<noteq> None" using w1(3) by auto
      show ?thesis
      proof (cases "x = a")
        case True
        then have ec: "e = c" using x(1) Cons.prems(2) by simp
        let ?t = "if ch_closed c then [] else take (ch_size c - length (ch_queue c)) data"
        have "chans w1 a = Some (c\<lparr>ch_queue := ch_queue c @ ?t\<rparr>)"
          using w1(3) True ec Cons.prems(2) by simp
        from rest [OF w1(2) this _ live] obtain sent got w' c' where
          "transfer (pair_env ml new) a b ios w1 = Some (sent, got, w')" "pair_wf w'" "chans w' a = Some c'"
          "(ch_queue c @ ?t) @ sent = got @ ch_queue c'" "ch_size c' = ch_size c" using Cons.prems(3) by auto
        moreover have "take (nat (write_result c (int (length data)))) data = ?t"
          using wf_queue_le [OF Cons.prems(1,2)] False by (intro write_accepts) auto
        ultimately show ?thesis using Put True ec w1(1) by simp
      next
        case False
        then have "chans w1 a = Some c" using w1(3) Cons.prems(2) by auto
        from rest [OF w1(2) this Cons.prems(3) live] show ?thesis using Put False w1(1) by auto
      qed
    qed
  next
    case (Get x len)
    show ?thesis
    proof (cases "ch_peer e = 0 \<or> len \<le> 0")
      case True
      have "\<exists>r. BIO_read (pair_env ml new) x True len w = Some (r, [], w)"
      proof (cases "ch_peer e = 0")
        case True
        then show ?thesis using BIO_io_unconnected(1) [of w x e, OF Cons.prems(1)] e Get by auto
      next
        case False
        obtain A s where "w x = Some A" "x \<noteq> 0" "bio_methods (pair_env ml new) A = Some (methods_biop ml)"
            "bio_init A \<longleftrightarrow> ch_peer e \<noteq> 0"
          using wf_env [of w x e, OF Cons.prems(1)] e Get by (metis io_at.simps(2))
        then show ?thesis using True False by (simp add: BIO_read_def bio_input_def bio_at_Some methods_biop_def)
      qed
      then show ?thesis using rest [OF Cons.prems(1-3)] Get by fastforce
    next
      case False
      have x: "chans w x = Some e" "ch_peer e \<noteq> 0" "0 < len" using e Get False by simp_all
      obtain f where f: "chans w (ch_peer e) = Some f" "ch_peer f = x" using chans_sym [OF Cons.prems(1) x(1,2)] by blast
      obtain w1 where w1: "BIO_read (pair_env ml new) x True len w = Some (read_result f len, take (nat len) (ch_queue f), w1)"
          "pair_wf w1" "chans w1 = (chans w)(ch_peer e \<mapsto> f\<lparr>ch_queue := drop (nat len) (ch_queue f)\<rparr>)"
        using BIO_read_queue [where ml = ml and new = new, OF Cons.prems(1) x(1,2) f(1) x(3)] by auto
      have live: "\<And>y. chans w y \<noteq> None \<Longrightarrow> chans w1 y \<noteq> None" using w1(3) by auto
      show ?thesis
      proof (cases "x = b")
        case True
        then have ef: "ch_peer e = a" "f = c" using x(1) d f Cons.prems(2) by simp_all
        then have "chans w1 a = Some (c\<lparr>ch_queue := drop (nat len) (ch_queue c)\<rparr>)" using w1(3) by simp
        from rest [OF w1(2) this _ live] obtain sent got w' c' where
          r: "transfer (pair_env ml new) a b ios w1 = Some (sent, got, w')" "pair_wf w'" "chans w' a = Some c'"
          "drop (nat len) (ch_queue c) @ sent = got @ ch_queue c'" "ch_size c' = ch_size c" using Cons.prems(3) by auto
        have "ch_queue c @ sent = take (nat len) (ch_queue c) @ got @ ch_queue c'"
          using r(4) by (metis append.assoc append_take_drop_id)
        then show ?thesis using Get True ef w1(1) r(1-3,5) by simp
      next
        case False
        then have "ch_peer e \<noteq> a" using f Cons.prems(2,3) by auto
        then have "chans w1 a = Some c" using w1(3) Cons.prems(2) by auto
        from rest [OF w1(2) this Cons.prems(3) live] show ?thesis using Get False w1(1) by auto
      qed
    qed
  next
    case (Shut x)
    then have x: "chans w x = Some e" using e by simp
    obtain w1 where w1: "BIO_shutdown_wr (pair_env ml new) x w = Some (1, w1)" "pair_wf w1"
        "chans w1 = (chans w)(x \<mapsto> e\<lparr>ch_closed := True\<rparr>)"
      using BIO_shutdown_wr_queue [where ml = ml and new = new, OF Cons.prems(1) x] by auto
    have live: "\<And>y. chans w y \<noteq> None \<Longrightarrow> chans w1 y \<noteq> None" using w1(3) by auto
    obtain c1 where c1: "chans w1 a = Some c1" "ch_peer c1 = b" "ch_queue c1 = ch_queue c" "ch_size c1 = ch_size c"
      using w1(3) x Cons.prems(2,3) by (cases "x = a") auto
    from rest [OF w1(2) c1(1,2) live] show ?thesis using Shut w1(1) c1(3,4) by auto
  qed
qed

end
