(* ===== verification/Bio_Pair_Main.thy ===== *)
theory Bio_Pair_Main
  imports Bio_Pair_Runs "HOL-Library.Sublist" "HOL-Library.Code_Target_Nat"
begin

text \<open>
  The properties of pairs, from their creation on.
\<close>

section \<open>Creation\<close>

lemma BIO_free_live_safe:
  assumes "pair_wf w" and "a = 0 \<or> w a \<noteq> None"
  shows "\<exists>r w'. BIO_free (pair_env ml new) a w = Some (r, w') \<and> pair_wf w'"
  using assms BIO_free_safe [OF assms(1)] by (cases "a = 0") (auto simp: BIO_free.simps [of _ 0])

lemma BIO_new_bio_pair_connects:
  assumes "malloc_ok ml" and "fresh new" and "pair_wf w" and "n + 8 < 2 ^ 64" and "m + 8 < 2 ^ 64"
    and "BIO_new_bio_pair ml new n m w = Some (True, a, b, w')"
  shows "pair_wf w' \<and> a \<noteq> 0 \<and> b \<noteq> 0 \<and>
    chans w' a = Some \<lparr>ch_peer = b, ch_closed = False, ch_queue = [], ch_size = (if n \<noteq> 0 then n else 17 * 1024)\<rparr> \<and>
    chans w' b = Some \<lparr>ch_peer = a, ch_closed = False, ch_queue = [], ch_size = (if m \<noteq> 0 then m else 17 * 1024)\<rparr>"
proof -
  let ?env = "pair_env ml new"
  obtain a1 w1 where 1: "BIO_new ?env bio_s_bio w = Some (a1, w1)" "pair_wf w1"
      "if a1 = 0 then w1 = w else w a1 = None \<and> (\<exists>X s. w1 = w(a1 \<mapsto> X) \<and> bio_ptr X = Some s \<and> bb_peer s = 0 \<and>
        bio_references X = 1 \<and> bb_buf s = None \<and> bb_size s = 17 * 1024)"
    using BIO_new_safe [OF assms(3,2), of ml] by blast
  obtain b1 w2 where 2: "BIO_new ?env bio_s_bio w1 = Some (b1, w2)" "pair_wf w2"
      "if b1 = 0 then w2 = w1 else w1 b1 = None \<and> (\<exists>X s. w2 = w1(b1 \<mapsto> X) \<and> bio_ptr X = Some s \<and> bb_peer s = 0 \<and>
        bio_references X = 1 \<and> bb_buf s = None \<and> bb_size s = 17 * 1024)"
    using BIO_new_safe [OF 1(2) assms(2), of ml] by blast
  have run: "do {
      (ok, w) \<leftarrow> (if a1 = 0 \<or> b1 = 0 then Some (False, w2) else bio_make_pair ml a1 b1 n m w2);
      if \<not> ok then do {
        (_, w) \<leftarrow> BIO_free ?env a1 w;
        (_, w) \<leftarrow> BIO_free ?env b1 w;
        Some (False, 0, 0, w) }
      else Some (True, a1, b1, w) } = Some (True, a, b, w')"
    using assms(6) 1(1) 2(1) by (simp add: BIO_new_bio_pair_def)
  then have nz: "a1 \<noteq> 0" "b1 \<noteq> 0" by (auto simp: bind_eq_Some_conv split: if_splits)
  then obtain X s Y t where X: "w1 a1 = Some X" "bio_ptr X = Some s" "bb_peer s = 0" "bb_buf s = None" "bb_size s = 17 * 1024"
      and Y: "w2 b1 = Some Y" "bio_ptr Y = Some t" "bb_peer t = 0" "bb_buf t = None" "bb_size t = 17 * 1024"
      and w2: "w2 = w1(b1 \<mapsto> Y)" "w1 b1 = None"
    using 1(3) 2(3) by (auto split: if_splits)
  have ne: "a1 \<noteq> b1" using X(1) w2(2) by auto
  then have X2: "w2 a1 = Some X" using X(1) w2(1) by simp
  obtain ok w3 where 3: "bio_make_pair ml a1 b1 n m w2 = Some (ok, w3)" "pair_wf w3"
    and full: "ok \<longrightarrow>
      chans w3 a1 = Some \<lparr>ch_peer = b1, ch_closed = False, ch_queue = [], ch_size = (if n \<noteq> 0 then n else 17 * 1024)\<rparr> \<and>
      chans w3 b1 = Some \<lparr>ch_peer = a1, ch_closed = False, ch_queue = [], ch_size = (if m \<noteq> 0 then m else 17 * 1024)\<rparr>"
    using bio_make_pair_safe [OF assms(1) 2(2) ne X2 X(2) Y(1,2) assms(4,5)] X(3-5) Y(3-5) by auto
  have "ok" "a = a1" "b = b1" "w' = w3"
    using run nz 3(1) by (auto simp: bind_eq_Some_conv split: if_splits)
  then show ?thesis using full 3(2) nz by simp
qed

text \<open>An allocator of addresses, and a pair.\<close>

definition two_addresses :: "pair_bios \<Rightarrow> nat" where
  "two_addresses w = (if w 2 = None then 2 else if w 3 = None then 3 else 0)"

lemma fresh_two_addresses: "fresh two_addresses"
  by (auto simp: fresh_def two_addresses_def)

section \<open>Properties\<close>

theorem bio_pair_calls_safe_witness:
  "\<exists>w'. exec zero_malloc two_addresses (Free 2) (the (exec zero_malloc two_addresses New Map.empty)) = Some w' \<and>
    pair_wf w'"
proof (rule bio_pair_calls_safe [OF zero_malloc_ok fresh_two_addresses])
  have "exec zero_malloc two_addresses New Map.empty \<noteq> None" by code_simp
  then obtain w where w: "exec zero_malloc two_addresses New Map.empty = Some w" by blast
  have "reachable zero_malloc two_addresses w" using reachable.step [OF reachable.start _ w] by simp
  then show "reachable zero_malloc two_addresses (the (exec zero_malloc two_addresses New Map.empty))"
    unfolding w option.sel .
  show "allowed (Free 2) (the (exec zero_malloc two_addresses New Map.empty))" by code_simp
qed

lemma transfer_in_order:
  assumes "pair_wf w" and "chans w a = Some \<lparr>ch_peer = b, ch_closed = False, ch_queue = [], ch_size = k\<rparr>" and "b \<noteq> 0"
    and "\<forall>io \<in> set ios. chans w (io_at io) \<noteq> None"
  shows "\<exists>sent got w'. transfer (pair_env ml new) a b ios w = Some (sent, got, w') \<and>
    prefix got sent \<and> length sent \<le> length got + k"
proof -
  obtain sent got w' c where t: "transfer (pair_env ml new) a b ios w = Some (sent, got, w')"
      "pair_wf w'" "chans w' a = Some c" "sent = got @ ch_queue c" "ch_size c = k"
    using transfer_queue [where ml = ml and new = new, OF assms(1,2) _ assms(3,4)] by auto
  have "length (ch_queue c) \<le> ch_size c" by (rule wf_queue_le [OF t(2,3)])
  then show ?thesis using t by (auto simp: prefix_def)
qed

text \<open>
  C28: after \<open>BIO_new_bio_pair\<close> has connected two objects, whatever is then written, read and
  shut down at both, in any order: in each direction what is read at one end is a prefix of what
  was written at the other, and no more than the size given for the buffer of the writing end is
  missing (17 kilobytes where the size is 0).
\<close>

theorem bio_pair_in_order:
  assumes "malloc_ok ml" and "fresh new" and "reachable ml new w" and "n + 8 < 2 ^ 64" and "m + 8 < 2 ^ 64"
    and "BIO_new_bio_pair ml new n m w = Some (True, a, b, w')" and "\<forall>io \<in> set ios. io_at io \<in> {a, b}"
  shows "(\<exists>sent got w''. transfer (pair_env ml new) a b ios w' = Some (sent, got, w'') \<and>
      prefix got sent \<and> length sent \<le> length got + (if n \<noteq> 0 then n else 17 * 1024)) \<and>
    (\<exists>sent got w''. transfer (pair_env ml new) b a ios w' = Some (sent, got, w'') \<and>
      prefix got sent \<and> length sent \<le> length got + (if m \<noteq> 0 then m else 17 * 1024))"
proof -
  note c = BIO_new_bio_pair_connects [OF assms(1,2) reachable_wf [OF assms(3,1,2)] assms(4,5,6)]
  have live: "\<forall>io \<in> set ios. chans w' (io_at io) \<noteq> None" using assms(7) c by auto
  have "pair_wf w'" using c by simp
  from transfer_in_order [OF this _ _ live, where a = a and b = b] transfer_in_order [OF this _ _ live, where a = b and b = a]
  show ?thesis using c by simp
qed

theorem bio_pair_in_order_witness:
  "(\<exists>sent got w''. transfer (pair_env zero_malloc two_addresses) 2 3 [Put 2 [1, 2], Put 3 [3], Get 3 1, Shut 2, Get 3 5]
      (case the (BIO_new_bio_pair zero_malloc two_addresses 4 2 Map.empty) of (_, _, _, w) \<Rightarrow> w) =
      Some (sent, got, w'') \<and> prefix got sent \<and> length sent \<le> length got + 4) \<and>
   (\<exists>sent got w''. transfer (pair_env zero_malloc two_addresses) 3 2 [Put 2 [1, 2], Put 3 [3], Get 3 1, Shut 2, Get 3 5]
      (case the (BIO_new_bio_pair zero_malloc two_addresses 4 2 Map.empty) of (_, _, _, w) \<Rightarrow> w) =
      Some (sent, got, w'') \<and> prefix got sent \<and> length sent \<le> length got + 2)"
proof -
  have "(case the (BIO_new_bio_pair zero_malloc two_addresses 4 2 Map.empty) of (ok, a, b, w) \<Rightarrow> (ok, a, b)) = (True, 2, 3)"
    and "BIO_new_bio_pair zero_malloc two_addresses 4 2 Map.empty \<noteq> None"
    by code_simp+
  then have "BIO_new_bio_pair zero_malloc two_addresses 4 2 Map.empty =
      Some (True, 2, 3, case the (BIO_new_bio_pair zero_malloc two_addresses 4 2 Map.empty) of (_, _, _, w) \<Rightarrow> w)"
    by (auto split: prod.splits)
  from bio_pair_in_order [OF zero_malloc_ok fresh_two_addresses reachable.start _ _ this,
      of "[Put 2 [1, 2], Put 3 [3], Get 3 1, Shut 2, Get 3 5]"]
  show ?thesis by simp
qed

text \<open>
  C29: \<open>BIO_read_asn1\<close> on a pair takes from the stream exactly what \<open>CBS_get_any_asn1_element\<close>
  parses at the front of it, when the tag is short and the length within the limits, and nothing
  else that is not of indefinite length.
\<close>

theorem BIO_read_asn1_agrees:
  assumes "reads_from a w" and "malloc_ok ml" and "malloc_big ml" and "\<forall>b h. incoming a w \<noteq> b # 0x80 # h"
  shows "\<exists>r w'. BIO_read_asn1 (pair_env ml new) ml a max_len w = Some (r, w') \<and>
    r = (case CBS_get_any_asn1_element (incoming a w) of
           (Some (out, tag, hl), t) \<Rightarrow>
             if length out \<le> max_len \<and> int (length out - hl) \<le> INT_MAX \<and> unat (hd (incoming a w)) mod 32 \<noteq> 31
             then Some out else None
         | (None, t) \<Rightarrow> None) \<and>
    (\<forall>out. r = Some out \<longrightarrow> incoming a w = out @ incoming a w')"
proof -
  let ?c = "incoming a w"
  obtain w' where w': "BIO_read_asn1 (pair_env ml new) ml a max_len w = Some (map_option fst (split_element max_len ?c), w')"
    and rest: "\<forall>out t. split_element max_len ?c = Some (out, t) \<longrightarrow> incoming a w' = t"
    using pair_source.read_asn1 [where a = a and ml = ml and new = new and mla = ml and w = w and max_len = max_len, OF assms]
    by blast
  have "map_option fst (split_element max_len ?c) =
      (case CBS_get_any_asn1_element ?c of
         (Some (out, tag, hl), t) \<Rightarrow>
           if length out \<le> max_len \<and> int (length out - hl) \<le> INT_MAX \<and> unat (hd ?c) mod 32 \<noteq> 31
           then Some out else None
       | (None, t) \<Rightarrow> None)"
  proof (cases "split_element max_len ?c")
    case None
    then have "\<nexists>out tag hl t. CBS_get_any_asn1_element ?c = (Some (out, tag, hl), t) \<and> length out \<le> max_len \<and>
        int (length out - hl) \<le> INT_MAX \<and> unat (hd ?c) mod 32 \<noteq> 31"
      using split_element_iff [of max_len ?c] by auto
    then show ?thesis using None by (auto split: prod.splits option.splits)
  next
    case (Some p)
    then have "split_element max_len ?c = Some (fst p, snd p)" by simp
    then show ?thesis unfolding split_element_iff using Some by auto
  qed
  moreover have "?c = out @ incoming a w'" if "map_option fst (split_element max_len ?c) = Some out" for out
    using that rest split_element_sound [of max_len ?c out] by auto
  ultimately show ?thesis using w' by blast
qed

definition example_side :: "nat \<Rightarrow> u8 list \<Rightarrow> bio_bio_st bio" where
  "example_side peer q =
     \<lparr>bio_method = 1, bio_init = True, bio_shutdown = 1, bio_flags = 0, bio_retry_reason = 0, bio_num = 0,
      bio_references = 1,
      bio_ptr = Some \<lparr>bb_peer = peer, bb_closed = False, bb_len = length q, bb_offset = 0, bb_size = 8,
        bb_buf = Some (q @ replicate (8 - length q) 0), bb_request = 0\<rparr>,
      bio_next_bio = 0, bio_num_read = 0, bio_num_write = 0\<rparr>"

definition example_pair :: "u8 list \<Rightarrow> pair_bios" where
  "example_pair q = [2 \<mapsto> example_side 3 [], 3 \<mapsto> example_side 2 q]"

lemma example_pair_reads:
  assumes "length q \<le> 8"
  shows "reads_from 2 (example_pair q)" and "incoming 2 (example_pair q) = q"
proof -
  have wf: "pair_wf (example_pair q)"
    unfolding pair_wf_def using assms
    by (auto simp: example_pair_def example_side_def bio_ok_def st_ok_def ring_ok_def linked_def)
  have c: "chans (example_pair q) 2 = Some \<lparr>ch_peer = 3, ch_closed = False, ch_queue = [], ch_size = 8\<rparr>"
    by (simp add: chans_def bb_at_def bio_at_def example_pair_def example_side_def chan_of_def ring_contents_def)
  have "ring_contents \<lparr>bb_peer = 2, bb_closed = False, bb_len = length q, bb_offset = 0, bb_size = 8,
      bb_buf = Some (q @ replicate (8 - length q) 0), bb_request = 0\<rparr> = q"
    using assms by (intro nth_equalityI) (auto simp: nth_ring_contents ring_index_def nth_append)
  then have d: "chans (example_pair q) 3 = Some \<lparr>ch_peer = 2, ch_closed = False, ch_queue = q, ch_size = 8\<rparr>"
    by (simp add: chans_def bb_at_def bio_at_def example_pair_def example_side_def chan_of_def)
  show "reads_from 2 (example_pair q)" "incoming 2 (example_pair q) = q"
    using wf c d by (simp_all add: reads_from_def incoming_def)
qed

lemma zero_malloc_big: "malloc_big zero_malloc"
  by (simp add: malloc_big_def zero_malloc_def)

theorem BIO_read_asn1_agrees_witness:
  "\<exists>w'. BIO_read_asn1 (pair_env zero_malloc two_addresses) zero_malloc 2 10 (example_pair [2, 1, 5, 9]) =
      Some (Some [2, 1, 5], w')"
proof -
  let ?w = "example_pair [2, 1, 5, 9]"
  have i: "incoming 2 ?w = [2, 1, 5, 9]" by (rule example_pair_reads) simp
  have w: "reads_from 2 ?w" by (rule example_pair_reads) simp
  have cbs: "CBS_get_any_asn1_element [2, 1, 5, 9] = (Some ([2, 1, 5], 2, 2), [9])" by code_simp
  have "\<forall>b h. incoming 2 ?w \<noteq> b # 0x80 # h" by (simp add: i)
  from BIO_read_asn1_agrees [OF w zero_malloc_ok zero_malloc_big this, of two_addresses 10]
  show ?thesis by (auto simp: i cbs INT_MAX_def)
qed

end
