(* ===== verification/Digest.thy ===== *)
theory Digest
  imports Prelude
begin

text \<open>
  The collectors of the message digests: \<open>crypto/fipsmodule/digest/md32_common.h\<close>, which MD4, MD5,
  SHA-1 and SHA-256 instantiate as macros, and the one of SHA-512 (\<open>sha512.c\<close>).  They cut the
  input into blocks, count its bits and pad it.  The function that works on blocks is a
  parameter here; the theories of the digests supply it.
\<close>

section \<open>State\<close>

text \<open>
  \<open>struct sha256_state_st\<close> and its kin.  \<open>hc_data\<close> is the buffer for a block that is
  not complete (\<open>p\<close> in SHA-512), \<open>hc_Nl\<close> and \<open>hc_Nh\<close> are the halves of the number of bits.
\<close>

record 'w hash_ctx =
  hc_h :: "'w list"
  hc_Nl :: 'w
  hc_Nh :: 'w
  hc_data :: "u8 list"
  hc_num :: nat
  hc_md_len :: nat

type_synonym 'w block_order = "'w list \<Rightarrow> u8 list \<Rightarrow> nat \<Rightarrow> 'w list"

section \<open>The collector of 32-bit words\<close>

definition HASH_CBLOCK :: nat where
  "HASH_CBLOCK = 64"

text \<open>The part of the update after the buffer has been emptied.\<close>

definition hash_rest :: "u32 block_order \<Rightarrow> u32 hash_ctx \<Rightarrow> u8 list \<Rightarrow> u32 hash_ctx" where
  "hash_rest block_order c data =
     (let n = length data div HASH_CBLOCK;
          (c, data) = (if n > 0 then (c\<lparr>hc_h := block_order (hc_h c) data n\<rparr>, drop (n * HASH_CBLOCK) data)
                       else (c, data))
      in if data \<noteq> [] then c\<lparr>hc_num := length data, hc_data := mem_write (hc_data c) 0 data\<rparr> else c)"

definition HASH_UPDATE :: "u32 block_order \<Rightarrow> u32 hash_ctx \<Rightarrow> u8 list \<Rightarrow> u32 hash_ctx" where
  "HASH_UPDATE block_order c data =
     (if data = [] then c
      else
        let l = hc_Nl c + push_bit 3 (of_nat (length data));
            c = (if l < hc_Nl c then c\<lparr>hc_Nh := hc_Nh c + 1\<rparr> else c);
            c = c\<lparr>hc_Nh := hc_Nh c + of_nat (length data div 2 ^ 29), hc_Nl := l\<rparr>;
            n = hc_num c
        in if n \<noteq> 0 then
             if length data \<ge> HASH_CBLOCK \<or> length data + n \<ge> HASH_CBLOCK then
               let block = mem_write (hc_data c) n (take (HASH_CBLOCK - n) data)
               in hash_rest block_order
                    (c\<lparr>hc_h := block_order (hc_h c) block 1, hc_num := 0, hc_data := replicate HASH_CBLOCK 0\<rparr>)
                    (drop (HASH_CBLOCK - n) data)
             else c\<lparr>hc_data := mem_write (hc_data c) n data, hc_num := n + length data\<rparr>
           else hash_rest block_order c data)"

definition HASH_TRANSFORM :: "u32 block_order \<Rightarrow> u32 hash_ctx \<Rightarrow> u8 list \<Rightarrow> u32 hash_ctx" where
  "HASH_TRANSFORM block_order c data = c\<lparr>hc_h := block_order (hc_h c) data 1\<rparr>"

text \<open>\<open>HOST_l2c\<close> and \<open>HOST_c2l\<close> for the two byte orders.\<close>

definition l2c_be :: "u32 \<Rightarrow> u8 list" where
  "l2c_be l = [ucast (drop_bit 24 l AND 0xff), ucast (drop_bit 16 l AND 0xff), ucast (drop_bit 8 l AND 0xff), ucast (l AND 0xff)]"

definition l2c_le :: "u32 \<Rightarrow> u8 list" where
  "l2c_le l = [ucast (l AND 0xff), ucast (drop_bit 8 l AND 0xff), ucast (drop_bit 16 l AND 0xff), ucast (drop_bit 24 l AND 0xff)]"

definition c2l_be :: "u8 list \<Rightarrow> u32" where
  "c2l_be c = push_bit 24 (ucast (c ! 0)) OR push_bit 16 (ucast (c ! 1)) OR push_bit 8 (ucast (c ! 2)) OR ucast (c ! 3)"

definition c2l_le :: "u8 list \<Rightarrow> u32" where
  "c2l_le c = ucast (c ! 0) OR push_bit 8 (ucast (c ! 1)) OR push_bit 16 (ucast (c ! 2)) OR push_bit 24 (ucast (c ! 3))"

definition length_field :: "bool \<Rightarrow> u32 hash_ctx \<Rightarrow> u8 list" where
  "length_field big_endian c =
     (if big_endian then l2c_be (hc_Nh c) @ l2c_be (hc_Nl c) else l2c_le (hc_Nl c) @ l2c_le (hc_Nh c))"

text \<open>
  The end of a message.  The parameters are the byte order and \<open>HASH_MAKE_STRING\<close>, which is
  \<open>None\<close> where the macro returns 0.  The result is \<open>None\<close> when the assertion fails.
\<close>

definition HASH_FINAL ::
    "u32 block_order \<Rightarrow> bool \<Rightarrow> (u32 hash_ctx \<Rightarrow> u8 list option) \<Rightarrow> u32 hash_ctx \<Rightarrow> (u8 list option \<times> u32 hash_ctx) option"
where
  "HASH_FINAL block_order big_endian make_string c =
     (if hc_num c < HASH_CBLOCK then
        let n = hc_num c;
            c = c\<lparr>hc_data := (hc_data c)[n := 0x80]\<rparr>;
            n = n + 1;
            (c, n) = (if n > HASH_CBLOCK - 8 then
                        let data = mem_write (hc_data c) n (replicate (HASH_CBLOCK - n) 0)
                        in (c\<lparr>hc_data := data, hc_h := block_order (hc_h c) data 1\<rparr>, 0)
                      else (c, n));
            data = mem_write (hc_data c) n (replicate (HASH_CBLOCK - 8 - n) 0);
            data = mem_write data (HASH_CBLOCK - 8) (length_field big_endian c);
            c = c\<lparr>hc_h := block_order (hc_h c) data 1, hc_num := 0, hc_data := replicate HASH_CBLOCK 0\<rparr>
        in Some (make_string c, c)
      else None)"

section \<open>The collector of SHA-512\<close>

definition SHA512_CBLOCK :: nat where
  "SHA512_CBLOCK = 128"

definition sha512_rest :: "u64 block_order \<Rightarrow> u64 hash_ctx \<Rightarrow> u8 list \<Rightarrow> u64 hash_ctx" where
  "sha512_rest block_order c data =
     (let (c, data) = (if length data \<ge> SHA512_CBLOCK then
                         (c\<lparr>hc_h := block_order (hc_h c) data (length data div SHA512_CBLOCK)\<rparr>,
                          drop (length data - length data mod SHA512_CBLOCK) data)
                       else (c, data))
      in if data \<noteq> [] then c\<lparr>hc_data := mem_write (hc_data c) 0 data, hc_num := length data\<rparr> else c)"

definition SHA512_Update :: "u64 block_order \<Rightarrow> u64 hash_ctx \<Rightarrow> u8 list \<Rightarrow> u64 hash_ctx" where
  "SHA512_Update block_order c data =
     (if data = [] then c
      else
        let l = (hc_Nl c + push_bit 3 (of_nat (length data))) AND 0xffffffffffffffff;
            c = (if l < hc_Nl c then c\<lparr>hc_Nh := hc_Nh c + 1\<rparr> else c);
            c = c\<lparr>hc_Nh := hc_Nh c + of_nat (length data div 2 ^ 61), hc_Nl := l\<rparr>
        in if hc_num c \<noteq> 0 then
             let n = SHA512_CBLOCK - hc_num c
             in if length data < n then
                  c\<lparr>hc_data := mem_write (hc_data c) (hc_num c) data, hc_num := hc_num c + length data\<rparr>
                else
                  let p = mem_write (hc_data c) (hc_num c) (take n data)
                  in sha512_rest block_order
                       (c\<lparr>hc_data := p, hc_num := 0, hc_h := block_order (hc_h c) p 1\<rparr>) (drop n data)
           else sha512_rest block_order c data)"

text \<open>The bytes of a number, stored one by one from the last to the first.\<close>

definition u64_bytes :: "u64 \<Rightarrow> u8 list" where
  "u64_bytes t = [ucast (drop_bit 56 t), ucast (drop_bit 48 t), ucast (drop_bit 40 t), ucast (drop_bit 32 t),
     ucast (drop_bit 24 t), ucast (drop_bit 16 t), ucast (drop_bit 8 t), ucast t]"

definition SHA384_DIGEST_LENGTH :: nat where
  "SHA384_DIGEST_LENGTH = 48"

definition SHA512_DIGEST_LENGTH :: nat where
  "SHA512_DIGEST_LENGTH = 64"

text \<open>\<open>has_out\<close> says that \<open>out\<close> is not \<open>NULL\<close>.\<close>

definition SHA512_Final :: "u64 block_order \<Rightarrow> bool \<Rightarrow> u64 hash_ctx \<Rightarrow> u8 list option \<times> u64 hash_ctx" where
  "SHA512_Final block_order has_out c =
     (let n = hc_num c;
          c = c\<lparr>hc_data := (hc_data c)[n := 0x80]\<rparr>;
          n = n + 1;
          (c, n) = (if n > SHA512_CBLOCK - 16 then
                      let p = mem_write (hc_data c) n (replicate (SHA512_CBLOCK - n) 0)
                      in (c\<lparr>hc_data := p, hc_h := block_order (hc_h c) p 1\<rparr>, 0)
                    else (c, n));
          p = mem_write (hc_data c) n (replicate (SHA512_CBLOCK - 16 - n) 0);
          p = mem_write p (SHA512_CBLOCK - 8) (u64_bytes (hc_Nl c));
          p = mem_write p (SHA512_CBLOCK - 16) (u64_bytes (hc_Nh c));
          c = c\<lparr>hc_data := p, hc_h := block_order (hc_h c) p 1\<rparr>
      in (if \<not> has_out then None
          else if hc_md_len c = SHA384_DIGEST_LENGTH then
            Some (concat (map u64_bytes (take (SHA384_DIGEST_LENGTH div 8) (hc_h c))))
          else if hc_md_len c = SHA512_DIGEST_LENGTH then
            Some (concat (map u64_bytes (take (SHA512_DIGEST_LENGTH div 8) (hc_h c))))
          else None, c))"

section \<open>Specification\<close>

text \<open>The chain over the complete blocks of a string.\<close>

function hash_blocks :: "nat \<Rightarrow> ('s \<Rightarrow> u8 list \<Rightarrow> 's) \<Rightarrow> 's \<Rightarrow> u8 list \<Rightarrow> 's" where
  "hash_blocks cb compress h m =
     (if cb = 0 \<or> length m < cb then h else hash_blocks cb compress (compress h (take cb m)) (drop cb m))"
  by auto
termination by (relation "measure (\<lambda>(cb, compress, h, m). length m)") auto

declare hash_blocks.simps [simp del]

definition tail :: "nat \<Rightarrow> u8 list \<Rightarrow> u8 list" where
  "tail cb m = drop (length m div cb * cb) m"

text \<open>The padding: a one, zeros, and the number of bits of the message in \<open>len\<close> bytes.\<close>

definition pad :: "nat \<Rightarrow> nat \<Rightarrow> (nat \<Rightarrow> u8 list) \<Rightarrow> u8 list \<Rightarrow> u8 list" where
  "pad cb len encode m =
     m @ [0x80] @ replicate ((cb - (length m + 1 + len) mod cb) mod cb) 0 @ encode (8 * length m mod 256 ^ len)"

lemma hash_blocks_short [simp]: "length m < cb \<Longrightarrow> hash_blocks cb compress h m = h"
  by (simp add: hash_blocks.simps)

lemma hash_blocks_one: "length b = cb \<Longrightarrow> 0 < cb \<Longrightarrow> hash_blocks cb compress h (b @ m) = hash_blocks cb compress (compress h b) m"
  by (subst hash_blocks.simps) simp

lemma hash_blocks_split:
  "length b = cb \<Longrightarrow> 0 < cb \<Longrightarrow>
    hash_blocks cb compress h (b @ m) = hash_blocks cb compress (hash_blocks cb compress h b) m"
  using hash_blocks_one [of b cb compress h "[]"] by (simp add: hash_blocks_one)

lemma tail_short [simp]: "length m < cb \<Longrightarrow> tail cb m = m"
  by (simp add: tail_def)

lemma length_tail: "0 < cb \<Longrightarrow> length (tail cb m) = length m mod cb"
  by (simp add: tail_def minus_div_mult_eq_mod)

lemma tail_one: "length b = cb \<Longrightarrow> 0 < cb \<Longrightarrow> tail cb (b @ m) = tail cb m"
  by (simp add: tail_def div_add_self1)

lemma blocks_induct [consumes 1, case_names short block]:
  assumes "0 < cb"
    and "\<And>m. length m < cb \<Longrightarrow> P m"
    and "\<And>b m. length b = cb \<Longrightarrow> P m \<Longrightarrow> P (b @ m)"
  shows "P m"
proof (induction m rule: length_induct)
  case (1 m)
  show ?case
  proof (cases "length m < cb")
    case False
    then have "length (take cb m) = cb" "length (drop cb m) < length m" using assms(1) by simp_all
    then have "P (take cb m @ drop cb m)" using 1 assms(3) by blast
    then show ?thesis by simp
  qed (rule assms(2))
qed

lemma hash_blocks_append:
  assumes "0 < cb"
  shows "hash_blocks cb compress h (m @ x) = hash_blocks cb compress (hash_blocks cb compress h m) (tail cb m @ x)"
  by (induction m arbitrary: h rule: blocks_induct [OF assms]) (simp_all add: hash_blocks_one tail_one assms)

lemma tail_append: assumes "0 < cb" shows "tail cb (m @ x) = tail cb (tail cb m @ x)"
  by (induction m rule: blocks_induct [OF assms]) (simp_all add: tail_one assms)

lemma hash_blocks_take:
  assumes "0 < cb"
  shows "hash_blocks cb compress h (take (length m div cb * cb) m) = hash_blocks cb compress h m"
  using assms
proof (induction m arbitrary: h rule: blocks_induct)
  case (block b m)
  have "(cb + length m) div cb = Suc (length m div cb)" using assms by (simp add: div_add_self1)
  then show ?case using block assms by (simp add: hash_blocks_one)
qed simp

section \<open>Collectors\<close>

definition bit_count :: "'w::len word hash_ctx \<Rightarrow> nat" where
  "bit_count c = (unat (hc_Nh c) * 2 ^ LENGTH('w) + unat (hc_Nl c)) mod 2 ^ (2 * LENGTH('w))"

text \<open>The context \<open>c\<close> has seen the message \<open>m\<close>.\<close>

definition absorbed :: "nat \<Rightarrow> ('w::len word list \<Rightarrow> u8 list \<Rightarrow> 'w word list) \<Rightarrow> 'w word list \<Rightarrow> 'w word hash_ctx \<Rightarrow> u8 list \<Rightarrow> bool" where
  "absorbed cb compress h0 c m \<longleftrightarrow>
     length (hc_data c) = cb \<and> hc_num c = length (tail cb m) \<and> take (length (tail cb m)) (hc_data c) = tail cb m \<and>
     hc_h c = hash_blocks cb compress h0 m \<and> bit_count c = 8 * length m mod 2 ^ (2 * LENGTH('w))"

text \<open>A function on blocks, and what it does with one.\<close>

definition works_on_blocks :: "nat \<Rightarrow> ('w \<Rightarrow> u8 list \<Rightarrow> 'w) \<Rightarrow> ('w \<Rightarrow> u8 list \<Rightarrow> nat \<Rightarrow> 'w) \<Rightarrow> bool" where
  "works_on_blocks cb compress block_order \<longleftrightarrow>
     (\<forall>h n data. n > 0 \<longrightarrow> n * cb \<le> length data \<longrightarrow> block_order h data n = hash_blocks cb compress h (take (n * cb) data))"

lemma works_on_blocksD:
  "works_on_blocks cb compress bo \<Longrightarrow> n > 0 \<Longrightarrow> n * cb \<le> length data \<Longrightarrow> bo h data n = hash_blocks cb compress h (take (n * cb) data)"
  by (simp add: works_on_blocks_def)

text \<open>Counting with a carry between two words.\<close>

lemma count_bits:
  fixes c c' :: "'w::len word hash_ctx"
  assumes "2 < LENGTH('w)" and l: "hc_Nl c' = hc_Nl c + push_bit 3 (of_nat n)"
    and h: "hc_Nh c' = (if hc_Nl c' < hc_Nl c then hc_Nh c + 1 else hc_Nh c) + of_nat (n div 2 ^ (LENGTH('w) - 3))"
  shows "bit_count c' = (bit_count c + 8 * n) mod 2 ^ (2 * LENGTH('w))"
proof -
  let ?W = "2 ^ LENGTH('w) :: nat"
  define q r where "q = n div 2 ^ (LENGTH('w) - 3)" and "r = 8 * n mod ?W"
  have W: "?W = 8 * 2 ^ (LENGTH('w) - 3)"
    using assms(1) power_add [of "2 :: nat" 3 "LENGTH('w) - 3"] by simp
  have "8 * n div ?W = q" unfolding W q_def by simp
  then have n: "8 * n = q * ?W + r" using div_mult_mod_eq [of "8 * n" ?W] by (simp add: r_def)
  have "push_bit 3 (of_nat n) = (of_nat (8 * n) :: 'w word)"
    by (simp add: push_bit_eq_mult mult.commute)
  then have r: "unat (push_bit 3 (of_nat n :: 'w word)) = r"
    by (simp only: unat_of_nat r_def)
  define k :: nat where "k = (if hc_Nl c' < hc_Nl c then 1 else 0)"
  have bounds: "r < ?W" "unat (hc_Nl c) < ?W" by (simp_all add: r_def)
  have k: "unat (hc_Nl c) + r = k * ?W + unat (hc_Nl c')"
  proof (cases "unat (hc_Nl c) + r < ?W")
    case True
    then have "unat (hc_Nl c') = unat (hc_Nl c) + r" using r by (simp add: l unat_word_ariths)
    then show ?thesis by (simp add: k_def word_less_nat_alt)
  next
    case False
    moreover have "unat (hc_Nl c) + r - ?W < ?W" using bounds by linarith
    ultimately have "unat (hc_Nl c') = unat (hc_Nl c) + r - ?W" using r by (simp add: l unat_word_ariths le_mod_geq)
    then show ?thesis using False bounds by (simp add: k_def word_less_nat_alt)
  qed
  have "hc_Nh c' = of_nat (unat (hc_Nh c) + k + q)" by (simp add: h k_def q_def)
  then have "unat (hc_Nh c') = (unat (hc_Nh c) + k + q) mod ?W" by (simp only: unat_of_nat)
  moreover have WW: "2 ^ (2 * LENGTH('w)) = ?W * ?W" by (simp add: mult_2 power_add)
  moreover have "((unat (hc_Nh c) + k + q) mod ?W * ?W + unat (hc_Nl c')) mod (?W * ?W) =
      ((unat (hc_Nh c) + k + q) * ?W + unat (hc_Nl c')) mod (?W * ?W)"
    by (simp only: mod_mult_mult2 [symmetric] mod_add_left_eq)
  moreover have "(unat (hc_Nh c) + k + q) * ?W + unat (hc_Nl c') = unat (hc_Nh c) * ?W + unat (hc_Nl c) + 8 * n"
    unfolding distrib_right using k n by linarith
  ultimately show ?thesis by (simp only: bit_count_def WW mod_add_left_eq)
qed

text \<open>What the updates have in common: counting leaves the rest alone, and the two ways to buffer.\<close>

lemma absorbed_fill:
  assumes c: "absorbed cb compress h0 c m" and cb: "0 < cb" and len: "hc_num c + length x < cb"
    and count: "bit_count c' = (bit_count c + 8 * length x) mod 2 ^ (2 * LENGTH('w))"
    and c': "hc_h c' = hc_h c" "hc_data c' = mem_write (hc_data c) (hc_num c) x" "hc_num c' = hc_num c + length x"
  shows "absorbed cb compress h0 (c' :: 'w::len word hash_ctx) (m @ x)"
proof -
  have t: "length (tail cb m) = hc_num c" "take (hc_num c) (hc_data c) = tail cb m" "length (hc_data c) = cb"
    using c by (simp_all add: absorbed_def)
  have s: "length (tail cb m @ x) < cb" using len t by simp
  have tl: "tail cb (m @ x) = tail cb m @ x" using tail_append [OF cb, of m x] s by simp
  have "hash_blocks cb compress h0 (m @ x) = hash_blocks cb compress h0 m"
    using hash_blocks_append [OF cb, of compress h0 m x] s by simp
  moreover have "take (hc_num c + length x) (mem_write (hc_data c) (hc_num c) x) = tail cb m @ x"
    using t len take_mem_write_end [of "hc_num c" "hc_data c" x] by simp
  moreover have "bit_count c' = 8 * length (m @ x) mod 2 ^ (2 * LENGTH('w))"
    using c by (simp add: count absorbed_def mod_simps distrib_left)
  ultimately show ?thesis
    using c len t by (simp add: absorbed_def c' tl)
qed

lemma absorbed_complete:
  assumes c: "absorbed cb compress h0 c m" and cb: "0 < cb" and len: "cb \<le> hc_num c + length x" and n: "hc_num c \<noteq> 0"
    and count: "bit_count c' = (bit_count c + 8 * length x) mod 2 ^ (2 * LENGTH('w))"
    and c': "hc_h c' = hash_blocks cb compress (hc_h c) (mem_write (hc_data c) (hc_num c) (take (cb - hc_num c) x) @ drop (cb - hc_num c) x)"
      "hc_num c' = length (tail cb (drop (cb - hc_num c) x))" "length (hc_data c') = cb"
      "take (hc_num c') (hc_data c') = tail cb (drop (cb - hc_num c) x)"
  shows "absorbed cb compress h0 (c' :: 'w::len word hash_ctx) (m @ x)"
proof -
  have t: "length (tail cb m) = hc_num c" "take (hc_num c) (hc_data c) = tail cb m" "length (hc_data c) = cb"
    using c by (simp_all add: absorbed_def)
  define b where "b = tail cb m @ take (cb - hc_num c) x"
  have less: "hc_num c < cb" using c cb by (simp add: absorbed_def length_tail)
  then have b: "length b = cb" "tail cb m @ x = b @ drop (cb - hc_num c) x"
    "mem_write (hc_data c) (hc_num c) (take (cb - hc_num c) x) = b"
    using t len by (simp_all add: b_def mem_write_def)
  have "tail cb (m @ x) = tail cb (drop (cb - hc_num c) x)"
    using tail_append [OF cb, of m x] tail_one [OF b(1) cb] by (simp add: b(2))
  moreover have "hash_blocks cb compress h0 (m @ x) = hc_h c'"
    using hash_blocks_append [OF cb, of compress h0 m x] c unfolding c'(1) b by (simp add: absorbed_def)
  moreover have "bit_count c' = 8 * length (m @ x) mod 2 ^ (2 * LENGTH('w))"
    using c by (simp add: count absorbed_def mod_simps distrib_left)
  ultimately show ?thesis
    using c'(2-4) by (simp add: absorbed_def)
qed

text \<open>The same for an empty buffer.\<close>

lemma absorbed_direct:
  assumes c: "absorbed cb compress h0 c m" and cb: "0 < cb" and n: "hc_num c = 0"
    and count: "bit_count c' = (bit_count c + 8 * length x) mod 2 ^ (2 * LENGTH('w))"
    and c': "hc_h c' = hash_blocks cb compress (hc_h c) x"
      "hc_num c' = length (tail cb x)" "length (hc_data c') = cb" "take (hc_num c') (hc_data c') = tail cb x"
  shows "absorbed cb compress h0 (c' :: 'w::len word hash_ctx) (m @ x)"
proof -
  have t: "tail cb m = []" using c n by (simp add: absorbed_def)
  have "hash_blocks cb compress h0 (m @ x) = hc_h c'"
    using hash_blocks_append [OF cb, of compress h0 m x] c t by (simp add: c'(1) absorbed_def)
  moreover have "bit_count c' = 8 * length (m @ x) mod 2 ^ (2 * LENGTH('w))"
    using c by (simp add: count absorbed_def mod_simps distrib_left)
  ultimately show ?thesis
    using c'(2-4) tail_append [OF cb, of m x] t by (simp add: absorbed_def)
qed

lemma hash_rest:
  assumes "works_on_blocks HASH_CBLOCK compress block_order" and "length (hc_data c) = HASH_CBLOCK" and "hc_num c = 0"
  shows "hc_h (hash_rest block_order c x) = hash_blocks HASH_CBLOCK compress (hc_h c) x"
    and "hc_num (hash_rest block_order c x) = length (tail HASH_CBLOCK x)"
    and "length (hc_data (hash_rest block_order c x)) = HASH_CBLOCK"
    and "take (length (tail HASH_CBLOCK x)) (hc_data (hash_rest block_order c x)) = tail HASH_CBLOCK x"
    and "hc_Nl (hash_rest block_order c x) = hc_Nl c" and "hc_Nh (hash_rest block_order c x) = hc_Nh c"
proof -
  have cb: "0 < HASH_CBLOCK" by (simp add: HASH_CBLOCK_def)
  have l: "length (tail HASH_CBLOCK x) \<le> HASH_CBLOCK" using length_tail [OF cb, of x] cb by (simp add: less_imp_le)
  define h where "h = hash_blocks HASH_CBLOCK compress (hc_h c) x"
  have "block_order (hc_h c) x (length x div HASH_CBLOCK) = h" if "length x div HASH_CBLOCK > 0"
    using works_on_blocksD [OF assms(1) that, of x "hc_h c"] hash_blocks_take [OF cb] by (simp add: h_def)
  moreover have "h = hc_h c" "tail HASH_CBLOCK x = x" if "length x div HASH_CBLOCK = 0"
    using that cb by (simp_all add: h_def div_eq_0_iff)
  ultimately have r: "hash_rest block_order c x = (if tail HASH_CBLOCK x \<noteq> []
      then c\<lparr>hc_h := h, hc_num := length (tail HASH_CBLOCK x), hc_data := mem_write (hc_data c) 0 (tail HASH_CBLOCK x)\<rparr>
      else c\<lparr>hc_h := h\<rparr>)"
    by (cases "length x div HASH_CBLOCK > 0") (simp_all add: hash_rest_def Let_def tail_def)
  show "hc_h (hash_rest block_order c x) = hash_blocks HASH_CBLOCK compress (hc_h c) x"
    and "hc_num (hash_rest block_order c x) = length (tail HASH_CBLOCK x)"
    and "length (hc_data (hash_rest block_order c x)) = HASH_CBLOCK"
    and "take (length (tail HASH_CBLOCK x)) (hc_data (hash_rest block_order c x)) = tail HASH_CBLOCK x"
    and "hc_Nl (hash_rest block_order c x) = hc_Nl c" and "hc_Nh (hash_rest block_order c x) = hc_Nh c"
    using l assms(2,3) by (auto simp: r h_def mem_write_def)
qed

lemma HASH_UPDATE_absorbs:
  assumes f: "works_on_blocks HASH_CBLOCK compress block_order" and c: "absorbed HASH_CBLOCK compress h0 c m"
  shows "absorbed HASH_CBLOCK compress h0 (HASH_UPDATE block_order c x) (m @ x)"
proof (cases "x = []")
  case True
  then show ?thesis using c by (simp add: HASH_UPDATE_def)
next
  case False
  have cb: "0 < HASH_CBLOCK" by (simp add: HASH_CBLOCK_def)
  define l where "l = hc_Nl c + push_bit 3 (of_nat (length x))"
  define c1 where "c1 = c\<lparr>hc_Nl := l, hc_Nh := (if l < hc_Nl c then hc_Nh c + 1 else hc_Nh c) + of_nat (length x div 2 ^ 29)\<rparr>"
  have count: "bit_count c1 = (bit_count c + 8 * length x) mod 2 ^ (2 * LENGTH(32))"
    by (rule count_bits) (simp_all add: c1_def l_def)
  have same: "hc_h c1 = hc_h c" "hc_data c1 = hc_data c" "hc_num c1 = hc_num c" by (simp_all add: c1_def)
  have upd: "HASH_UPDATE block_order c x =
      (if hc_num c \<noteq> 0 then
         if length x \<ge> HASH_CBLOCK \<or> length x + hc_num c \<ge> HASH_CBLOCK then
           hash_rest block_order
             (c1\<lparr>hc_h := block_order (hc_h c) (mem_write (hc_data c) (hc_num c) (take (HASH_CBLOCK - hc_num c) x)) 1,
                hc_num := 0, hc_data := replicate HASH_CBLOCK 0\<rparr>) (drop (HASH_CBLOCK - hc_num c) x)
         else c1\<lparr>hc_data := mem_write (hc_data c) (hc_num c) x, hc_num := hc_num c + length x\<rparr>
       else hash_rest block_order c1 x)"
    using False by (cases c) (simp add: HASH_UPDATE_def Let_def c1_def l_def)
  have data: "length (hc_data c) = HASH_CBLOCK" "hc_num c < HASH_CBLOCK"
    using c length_tail [OF cb, of m] cb by (simp_all add: absorbed_def)
  consider "hc_num c = 0" | "hc_num c \<noteq> 0" "length x + hc_num c < HASH_CBLOCK" | "hc_num c \<noteq> 0" "HASH_CBLOCK \<le> hc_num c + length x"
    by linarith
  then show ?thesis
  proof cases
    case 1
    note r = hash_rest [OF f, of c1 x]
    show ?thesis
      by (rule absorbed_direct [OF c cb 1]) (use 1 r data count in \<open>simp_all add: upd same bit_count_def\<close>)
  next
    case 2
    then show ?thesis
      by (intro absorbed_fill [OF c cb]) (use count in \<open>simp_all add: upd same bit_count_def\<close>)
  next
    case 3
    define b where "b = mem_write (hc_data c) (hc_num c) (take (HASH_CBLOCK - hc_num c) x)"
    have b: "length b = HASH_CBLOCK" using data 3 by (simp add: b_def)
    then have "block_order (hc_h c) b 1 = hash_blocks HASH_CBLOCK compress (hc_h c) b"
      using works_on_blocksD [OF f, of 1 b] by simp
    moreover define c2 where "c2 = c1\<lparr>hc_h := block_order (hc_h c) b 1, hc_num := 0, hc_data := replicate HASH_CBLOCK 0\<rparr>"
    note r = hash_rest [OF f, of c2 "drop (HASH_CBLOCK - hc_num c) x"]
    have "HASH_UPDATE block_order c x = hash_rest block_order c2 (drop (HASH_CBLOCK - hc_num c) x)"
      using 3 by (auto simp: upd c2_def b_def)
    ultimately show ?thesis
      by (intro absorbed_complete [OF c cb 3(2,1)])
        (use r count in \<open>simp_all add: c2_def b_def [symmetric] hash_blocks_split [OF b cb] bit_count_def\<close>)
  qed
qed

section \<open>Padding\<close>

lemma pad_blocks:
  assumes cb: "len + 1 < cb" and e: "\<And>n. length (encode n) = len"
  shows "hash_blocks cb compress h0 (pad cb len encode m) =
    (let t = tail cb m; h = hash_blocks cb compress h0 m; n = encode (8 * length m mod 256 ^ len) in
     if length t + 1 > cb - len then
       compress (compress h (t @ [0x80] @ replicate (cb - (length t + 1)) 0)) (replicate (cb - len) 0 @ n)
     else compress h (t @ [0x80] @ replicate (cb - len - (length t + 1)) 0 @ n))"
proof -
  have cb0: "0 < cb" using cb by simp
  define t n where "t = tail cb m" and "n = encode (8 * length m mod 256 ^ len)"
  define z where "z = (cb - (length m + 1 + len) mod cb) mod cb"
  have t: "length t < cb" "length m mod cb = length t" using length_tail [OF cb0] cb0 by (simp_all add: t_def)
  have md: "(length m + 1 + len) mod cb = (length t + 1 + len) mod cb" using t(2) by (metis mod_add_left_eq)
  have z: "z = (if length t + 1 > cb - len then 2 * cb - len - (length t + 1) else cb - len - (length t + 1))"
  proof (cases "length t + 1 + len < cb")
    case True
    then show ?thesis using md by (simp add: z_def add.commute)
  next
    case False
    then have "(length t + 1 + len) mod cb = length t + 1 + len - cb" using t(1) cb by (simp add: le_mod_geq)
    then show ?thesis using False md cb t(1) by (auto simp: z_def)
  qed
  have n: "length n = len" using e by (simp add: n_def)
  have split: "hash_blocks cb compress h0 (pad cb len encode m) =
      hash_blocks cb compress (hash_blocks cb compress h0 m) (t @ [0x80] @ replicate z 0 @ n)"
    unfolding pad_def hash_blocks_append [OF cb0, of _ _ m] by (simp add: t_def n_def z_def)
  show ?thesis
  proof (cases "length t + 1 > cb - len")
    case True
    then have "z = (cb - (length t + 1)) + (cb - len)" using z t(1) cb by simp
    then have "t @ [0x80] @ replicate z 0 @ n =
        (t @ [0x80] @ replicate (cb - (length t + 1)) 0) @ (replicate (cb - len) 0 @ n) @ []"
      by (simp add: replicate_add)
    moreover have "length (t @ [0x80] @ replicate (cb - (length t + 1)) 0) = cb" "length (replicate (cb - len) 0 @ n) = cb"
      using t(1) cb n by simp_all
    ultimately have "hash_blocks cb compress (hash_blocks cb compress h0 m) (t @ [0x80] @ replicate z 0 @ n) =
        compress (compress (hash_blocks cb compress h0 m) (t @ [0x80] @ replicate (cb - (length t + 1)) 0)) (replicate (cb - len) 0 @ n)"
      by (simp only: hash_blocks_one [OF _ cb0] hash_blocks_short list.size cb0)
    then show ?thesis using True split by (simp add: t_def [symmetric] n_def [symmetric] Let_def)
  next
    case False
    then have "length (t @ [0x80] @ replicate (cb - len - (length t + 1)) 0 @ n) = cb" using n cb by simp
    from hash_blocks_one [OF this cb0, of _ _ "[]"] show ?thesis
      using False split z cb0 by (simp add: t_def [symmetric] n_def [symmetric] Let_def)
  qed
qed

text \<open>The digest of a whole message.\<close>

lemma l2c_bytes: "l2c_be w = be_bytes 4 (unat w)" "l2c_le w = rev (l2c_be w)"
proof -
  have e: "be_bytes 4 n = [of_nat (n div 256 div 256 div 256), of_nat (n div 256 div 256), of_nat (n div 256), of_nat n]" for n
  proof -
    have "(4 :: nat) = Suc (Suc (Suc (Suc 0)))" by simp
    then show ?thesis by (simp only: be_bytes.simps append.simps)
  qed
  have m: "ucast (v AND 0xff) = (ucast v :: u8)" for v :: u32
  proof -
    have e: "(0xff :: u32) = mask 8" by (simp add: mask_eq_exp_minus_1)
    show ?thesis unfolding e by (rule bit_word_eqI) (auto simp: bit_simps)
  qed
  have u: "ucast v = (of_nat (unat v) :: u8)" for v :: u32 by (rule word_unat_eq_iff [THEN iffD2], simp add: unsigned_ucast_eq take_bit_eq_mod unat_of_nat)
  show "l2c_be w = be_bytes 4 (unat w)"
    unfolding l2c_be_def m unfolding u e unat_drop_bit by (simp add: div_mult2_eq [symmetric])
  show "l2c_le w = rev (l2c_be w)" by (simp add: l2c_be_def l2c_le_def)
qed

lemma bit_count_bytes: "be_bytes 4 (unat (hc_Nh c)) @ be_bytes 4 (unat (hc_Nl c)) = be_bytes 8 (bit_count (c :: u32 hash_ctx))"
proof (rule be_nat_inject)
  have "unat (hc_Nh c) * 4294967296 + unat (hc_Nl c) < 18446744073709551616"
  proof -
    have "unat (hc_Nh c) < 4294967296" "unat (hc_Nl c) < 4294967296"
      using unsigned_less [of "hc_Nh c", where 'a = nat] unsigned_less [of "hc_Nl c", where 'a = nat] by simp_all
    then show ?thesis by linarith
  qed
  then show "be_nat (be_bytes 4 (unat (hc_Nh c)) @ be_bytes 4 (unat (hc_Nl c))) = be_nat (be_bytes 8 (bit_count c))"
    using unsigned_less [of "hc_Nh c", where 'a = nat] unsigned_less [of "hc_Nl c", where 'a = nat]
    by (simp add: be_nat_append bit_count_def del: be_bytes.simps)
qed simp

text \<open>The final functions, up to the choice of the bytes of the state that are the digest.\<close>

lemma pad_writes:
  assumes d: "length d = cb" "take (length t) d = t" "length t < cb" and len: "len + 1 < cb" "length e = len"
  shows "length t + 1 > cb - len \<Longrightarrow>
      mem_write (d[length t := 0x80]) (length t + 1) (replicate (cb - (length t + 1)) 0) = t @ [0x80] @ replicate (cb - (length t + 1)) 0"
    and "length b = cb \<Longrightarrow> mem_write (mem_write b 0 (replicate (cb - len) 0)) (cb - len) e = replicate (cb - len) 0 @ e"
    and "\<not> length t + 1 > cb - len \<Longrightarrow>
      mem_write (mem_write (d[length t := 0x80]) (length t + 1) (replicate (cb - len - (length t + 1)) 0)) (cb - len) e =
        t @ [0x80] @ replicate (cb - len - (length t + 1)) 0 @ e"
proof -
  have d1: "d[length t := 0x80] = t @ [0x80] @ drop (length t + 1) d"
    using d by (simp add: upd_conv_take_nth_drop)
  show "length t + 1 > cb - len \<Longrightarrow>
      mem_write (d[length t := 0x80]) (length t + 1) (replicate (cb - (length t + 1)) 0) = t @ [0x80] @ replicate (cb - (length t + 1)) 0"
    using d by (simp add: d1 mem_write_def)
  show "length b = cb \<Longrightarrow> mem_write (mem_write b 0 (replicate (cb - len) 0)) (cb - len) e = replicate (cb - len) 0 @ e"
    using len by (simp add: mem_write_def)
  assume short: "\<not> length t + 1 > cb - len"
  define k where "k = cb - len - (length t + 1)"
  then have k: "cb = length t + 1 + k + len" using short len(1) by linarith
  have "mem_write (d[length t := 0x80]) (length t + 1) (replicate k 0) = t @ [0x80] @ replicate k 0 @ drop (length t + 1 + k) d"
    using d k by (simp add: d1 mem_write_def add.commute)
  then show "mem_write (mem_write (d[length t := 0x80]) (length t + 1) (replicate (cb - len - (length t + 1)) 0)) (cb - len) e =
        t @ [0x80] @ replicate (cb - len - (length t + 1)) 0 @ e"
    using d k len by (simp add: mem_write_def)
qed

lemma HASH_FINAL_digest:
  assumes f: "works_on_blocks HASH_CBLOCK compress block_order" and c: "absorbed HASH_CBLOCK compress h0 c m"
  shows "\<exists>c'. HASH_FINAL block_order be mk c = Some (mk c', c') \<and> hc_md_len c' = hc_md_len c \<and>
    hc_h c' = hash_blocks HASH_CBLOCK compress h0 (pad HASH_CBLOCK 8 (if be then be_bytes 8 else (\<lambda>n. rev (be_bytes 8 n))) m)"
proof -
  have cb: "0 < HASH_CBLOCK" "8 + 1 < HASH_CBLOCK" by (simp_all add: HASH_CBLOCK_def)
  define t where "t = tail HASH_CBLOCK m"
  define enc where "enc = (if be then be_bytes 8 else (\<lambda>n. rev (be_bytes 8 n)))"
  have data: "length (hc_data c) = HASH_CBLOCK" "hc_num c = length t" "take (length t) (hc_data c) = t" "length t < HASH_CBLOCK"
    using c length_tail [OF cb(1), of m] cb by (simp_all add: absorbed_def t_def)
  have "bit_count c = 8 * length m mod 256 ^ 8" using c by (simp add: absorbed_def)
  then have len: "length_field be (c\<lparr>hc_data := d, hc_h := x\<rparr>) = enc (8 * length m mod 256 ^ 8)" for x d
    using bit_count_bytes [of c] by (auto simp: length_field_def l2c_bytes enc_def rev_append [symmetric] simp del: rev_append be_bytes.simps)
  have l: "length (enc n) = 8" for n by (simp add: enc_def)
  have b: "block_order h b 1 = compress h b" if "length b = HASH_CBLOCK" for h b
    using works_on_blocksD [OF f, of 1 b h] hash_blocks_one [OF that cb(1), of compress h "[]"] that cb by simp
  note b' = b [unfolded One_nat_def]
  have len': "length_field be (c\<lparr>hc_data := d\<rparr>) = enc (8 * length m mod 256 ^ 8)" for d
    using len [of "hc_h c" d] by (simp add: length_field_def)
  have h: "hc_h c = hash_blocks HASH_CBLOCK compress h0 m" using c by (simp add: absorbed_def)
  note w = pad_writes [OF data(1,3,4) cb(2) l [of "8 * length m mod 256 ^ 8"]]
  show ?thesis
    unfolding enc_def [symmetric]
  proof (cases "length t + 1 > HASH_CBLOCK - 8")
    case True
    define b1 where "b1 = t @ [0x80] @ replicate (HASH_CBLOCK - (length t + 1)) 0"
    have b1: "mem_write ((hc_data c)[length t := 0x80]) (length t + 1) (replicate (HASH_CBLOCK - (length t + 1)) 0) = b1"
      "length b1 = HASH_CBLOCK" using w(1) [OF True] data by (simp_all add: b1_def)
    define b2 where "b2 = replicate (HASH_CBLOCK - 8) 0 @ enc (8 * length m mod 256 ^ 8)"
    have b2: "mem_write (mem_write b1 0 (replicate (HASH_CBLOCK - 8 - 0) 0)) (HASH_CBLOCK - 8) (enc (8 * length m mod 256 ^ 8)) = b2"
      "length b2 = HASH_CBLOCK" using w(2) [OF b1(2)] l cb by (simp_all add: b2_def)
    show "\<exists>c'. HASH_FINAL block_order be mk c = Some (mk c', c') \<and> hc_md_len c' = hc_md_len c \<and>
        hc_h c' = hash_blocks HASH_CBLOCK compress h0 (pad HASH_CBLOCK 8 enc m)"
      unfolding pad_blocks [OF cb(2) l] Let_def t_def [symmetric] if_P [OF True] b1_def [symmetric] b2_def [symmetric]
      using True data(2,4)
      by (simp add: HASH_FINAL_def Let_def len b1(1) [simplified] b1(2) b2(1) [simplified] b2(2) b' h)
  next
    case False
    define b1 where "b1 = t @ [0x80] @ replicate (HASH_CBLOCK - 8 - (length t + 1)) 0 @ enc (8 * length m mod 256 ^ 8)"
    have b1: "mem_write (mem_write ((hc_data c)[length t := 0x80]) (length t + 1) (replicate (HASH_CBLOCK - 8 - (length t + 1)) 0))
        (HASH_CBLOCK - 8) (enc (8 * length m mod 256 ^ 8)) = b1" "length b1 = HASH_CBLOCK"
      using w(3) [OF False] data l False cb by (simp_all add: b1_def)
    show "\<exists>c'. HASH_FINAL block_order be mk c = Some (mk c', c') \<and> hc_md_len c' = hc_md_len c \<and>
        hc_h c' = hash_blocks HASH_CBLOCK compress h0 (pad HASH_CBLOCK 8 enc m)"
      unfolding pad_blocks [OF cb(2) l] Let_def t_def [symmetric] if_not_P [OF False] b1_def [symmetric]
      using False data(2,4)
      by (simp add: HASH_FINAL_def Let_def len' b1(1) [simplified] b1(2) b' h)
  qed
qed

section \<open>The collector of SHA-512\<close>

lemma sha512_rest:
  assumes "works_on_blocks SHA512_CBLOCK compress block_order" and "length (hc_data c) = SHA512_CBLOCK" and "hc_num c = 0"
  shows "hc_h (sha512_rest block_order c x) = hash_blocks SHA512_CBLOCK compress (hc_h c) x"
    and "hc_num (sha512_rest block_order c x) = length (tail SHA512_CBLOCK x)"
    and "length (hc_data (sha512_rest block_order c x)) = SHA512_CBLOCK"
    and "take (length (tail SHA512_CBLOCK x)) (hc_data (sha512_rest block_order c x)) = tail SHA512_CBLOCK x"
    and "bit_count (sha512_rest block_order c x) = bit_count c"
proof -
  have cb: "0 < SHA512_CBLOCK" by (simp add: SHA512_CBLOCK_def)
  have l: "length (tail SHA512_CBLOCK x) \<le> SHA512_CBLOCK" using length_tail [OF cb, of x] cb by (simp add: less_imp_le)
  define h where "h = hash_blocks SHA512_CBLOCK compress (hc_h c) x"
  have "block_order (hc_h c) x (length x div SHA512_CBLOCK) = h" if "SHA512_CBLOCK \<le> length x"
  proof -
    have "length x div SHA512_CBLOCK > 0" using that cb by (simp add: div_greater_zero_iff)
    from works_on_blocksD [OF assms(1) this, of x "hc_h c"] hash_blocks_take [OF cb] show ?thesis by (simp add: h_def)
  qed
  moreover have "drop (length x - length x mod SHA512_CBLOCK) x = tail SHA512_CBLOCK x"
    by (simp add: tail_def minus_mod_eq_div_mult)
  moreover have "h = hc_h c" "tail SHA512_CBLOCK x = x" if "\<not> SHA512_CBLOCK \<le> length x"
    using that by (simp_all add: h_def)
  ultimately have r: "sha512_rest block_order c x = (if tail SHA512_CBLOCK x \<noteq> []
      then c\<lparr>hc_h := h, hc_data := mem_write (hc_data c) 0 (tail SHA512_CBLOCK x), hc_num := length (tail SHA512_CBLOCK x)\<rparr>
      else c\<lparr>hc_h := h\<rparr>)"
    by (cases "SHA512_CBLOCK \<le> length x") (simp_all add: sha512_rest_def Let_def)
  show "hc_h (sha512_rest block_order c x) = hash_blocks SHA512_CBLOCK compress (hc_h c) x"
    and "hc_num (sha512_rest block_order c x) = length (tail SHA512_CBLOCK x)"
    and "length (hc_data (sha512_rest block_order c x)) = SHA512_CBLOCK"
    and "take (length (tail SHA512_CBLOCK x)) (hc_data (sha512_rest block_order c x)) = tail SHA512_CBLOCK x"
    and "bit_count (sha512_rest block_order c x) = bit_count c"
    using l assms(2,3) by (auto simp: r h_def mem_write_def bit_count_def)
qed

lemma SHA512_Update_absorbs:
  assumes f: "works_on_blocks SHA512_CBLOCK compress block_order" and c: "absorbed SHA512_CBLOCK compress h0 c m"
  shows "absorbed SHA512_CBLOCK compress h0 (SHA512_Update block_order c x) (m @ x)"
proof (cases "x = []")
  case True
  then show ?thesis using c by (simp add: SHA512_Update_def)
next
  case False
  have cb: "0 < SHA512_CBLOCK" by (simp add: SHA512_CBLOCK_def)
  have ones: "w AND 0xffffffffffffffff = w" for w :: u64
  proof -
    have "(0xffffffffffffffff :: u64) = - 1" by simp
    then show ?thesis by (simp only: and.right_neutral)
  qed
  define l where "l = hc_Nl c + push_bit 3 (of_nat (length x))"
  define c1 where "c1 = c\<lparr>hc_Nl := l, hc_Nh := (if l < hc_Nl c then hc_Nh c + 1 else hc_Nh c) + of_nat (length x div 2 ^ 61)\<rparr>"
  have count: "bit_count c1 = (bit_count c + 8 * length x) mod 2 ^ (2 * LENGTH(64))"
    by (rule count_bits) (simp_all add: c1_def l_def)
  have same: "hc_h c1 = hc_h c" "hc_data c1 = hc_data c" "hc_num c1 = hc_num c" by (simp_all add: c1_def)
  have upd: "SHA512_Update block_order c x =
      (if hc_num c \<noteq> 0 then
         if length x < SHA512_CBLOCK - hc_num c then
           c1\<lparr>hc_data := mem_write (hc_data c) (hc_num c) x, hc_num := hc_num c + length x\<rparr>
         else sha512_rest block_order
             (c1\<lparr>hc_data := mem_write (hc_data c) (hc_num c) (take (SHA512_CBLOCK - hc_num c) x), hc_num := 0,
                hc_h := block_order (hc_h c) (mem_write (hc_data c) (hc_num c) (take (SHA512_CBLOCK - hc_num c) x)) 1\<rparr>)
             (drop (SHA512_CBLOCK - hc_num c) x)
       else sha512_rest block_order c1 x)"
    using False unfolding SHA512_Update_def ones by (cases c) (simp add: Let_def c1_def l_def)
  have data: "length (hc_data c) = SHA512_CBLOCK" "hc_num c < SHA512_CBLOCK"
    using c length_tail [OF cb, of m] cb by (simp_all add: absorbed_def)
  have bc: "bit_count (c1\<lparr>hc_data := d, hc_num := n, hc_h := h\<rparr>) = bit_count c1"
    "bit_count (c1\<lparr>hc_data := d, hc_num := n\<rparr>) = bit_count c1" for d n h by (simp_all add: bit_count_def)
  consider "hc_num c = 0" | "hc_num c \<noteq> 0" "length x + hc_num c < SHA512_CBLOCK" | "hc_num c \<noteq> 0" "SHA512_CBLOCK \<le> hc_num c + length x"
    by linarith
  then show ?thesis
  proof cases
    case 1
    note r = sha512_rest [OF f, of c1 x]
    show ?thesis
      by (rule absorbed_direct [OF c cb 1]) (use 1 r data count in \<open>simp_all add: upd same\<close>)
  next
    case 2
    then have "length x < SHA512_CBLOCK - hc_num c" by linarith
    with 2 have "SHA512_Update block_order c x = c1\<lparr>hc_data := mem_write (hc_data c) (hc_num c) x, hc_num := hc_num c + length x\<rparr>"
      by (simp add: upd)
    then show ?thesis
      using 2 by (intro absorbed_fill [OF c cb]) (use count in \<open>simp_all add: same bc\<close>)
  next
    case 3
    define b where "b = mem_write (hc_data c) (hc_num c) (take (SHA512_CBLOCK - hc_num c) x)"
    have b: "length b = SHA512_CBLOCK" using data 3 by (simp add: b_def)
    then have "block_order (hc_h c) b 1 = hash_blocks SHA512_CBLOCK compress (hc_h c) b"
      using works_on_blocksD [OF f, of 1 b] by simp
    moreover define c2 where "c2 = c1\<lparr>hc_data := b, hc_num := 0, hc_h := block_order (hc_h c) b 1\<rparr>"
    note r = sha512_rest [OF f, of c2 "drop (SHA512_CBLOCK - hc_num c) x"]
    have "SHA512_Update block_order c x = sha512_rest block_order c2 (drop (SHA512_CBLOCK - hc_num c) x)"
      using 3 by (auto simp: upd c2_def b_def)
    ultimately show ?thesis
      by (intro absorbed_complete [OF c cb 3(2,1)])
        (use r count b in \<open>simp_all add: c2_def b_def [symmetric] hash_blocks_split [OF b cb] bc\<close>)
  qed
qed

lemma u64_bytes: "u64_bytes w = be_bytes 8 (unat w)"
proof -
  have "(8 :: nat) = Suc (Suc (Suc (Suc (Suc (Suc (Suc (Suc 0)))))))" by simp
  then have e: "be_bytes 8 n = [of_nat (n div 256 div 256 div 256 div 256 div 256 div 256 div 256),
      of_nat (n div 256 div 256 div 256 div 256 div 256 div 256), of_nat (n div 256 div 256 div 256 div 256 div 256),
      of_nat (n div 256 div 256 div 256 div 256), of_nat (n div 256 div 256 div 256), of_nat (n div 256 div 256),
      of_nat (n div 256), of_nat n]" for n
    by (simp only: be_bytes.simps append.simps)
  have u: "ucast v = (of_nat (unat v) :: u8)" for v :: u64
    by (rule word_unat_eq_iff [THEN iffD2], simp add: unsigned_ucast_eq take_bit_eq_mod unat_of_nat)
  show ?thesis
    unfolding u64_bytes_def u e unat_drop_bit by (simp add: div_mult2_eq [symmetric])
qed

lemma bit_count_bytes_64: "u64_bytes (hc_Nh c) @ u64_bytes (hc_Nl c) = be_bytes 16 (bit_count (c :: u64 hash_ctx))"
proof (rule be_nat_inject)
  note less = unsigned_less [of "hc_Nh c", where 'a = nat] unsigned_less [of "hc_Nl c", where 'a = nat]
  have "unat (hc_Nh c) * 2 ^ 64 + unat (hc_Nl c) < 2 ^ 128"
  proof -
    have "unat (hc_Nh c) < 2 ^ 64" "unat (hc_Nl c) < 2 ^ 64" using less by simp_all
    then have "unat (hc_Nh c) * 2 ^ 64 + unat (hc_Nl c) < (unat (hc_Nh c) + 1) * 2 ^ 64" by simp
    also have "\<dots> \<le> 2 ^ 64 * 2 ^ 64" using \<open>unat (hc_Nh c) < 2 ^ 64\<close> by (intro mult_right_mono) simp_all
    finally show ?thesis by simp
  qed
  then show "be_nat (u64_bytes (hc_Nh c) @ u64_bytes (hc_Nl c)) = be_nat (be_bytes 16 (bit_count c))"
    using less by (simp add: u64_bytes be_nat_append bit_count_def del: be_bytes.simps)
qed (simp add: u64_bytes del: be_bytes.simps)

lemma SHA512_Final_digest:
  assumes f: "works_on_blocks SHA512_CBLOCK compress block_order" and c: "absorbed SHA512_CBLOCK compress h0 c m"
  shows "fst (SHA512_Final block_order True c) =
      (let h = hash_blocks SHA512_CBLOCK compress h0 (pad SHA512_CBLOCK 16 (be_bytes 16) m) in
       if hc_md_len c = SHA384_DIGEST_LENGTH then Some (concat (map u64_bytes (take (SHA384_DIGEST_LENGTH div 8) h)))
       else if hc_md_len c = SHA512_DIGEST_LENGTH then Some (concat (map u64_bytes (take (SHA512_DIGEST_LENGTH div 8) h)))
       else None)"
proof -
  have cb: "0 < SHA512_CBLOCK" "16 + 1 < SHA512_CBLOCK" by (simp_all add: SHA512_CBLOCK_def)
  define t n where "t = tail SHA512_CBLOCK m" and "n = be_bytes 16 (8 * length m mod 256 ^ 16)"
  have data: "length (hc_data c) = SHA512_CBLOCK" "hc_num c = length t" "take (length t) (hc_data c) = t" "length t < SHA512_CBLOCK"
    using c length_tail [OF cb(1), of m] cb by (simp_all add: absorbed_def t_def)
  have "bit_count c = 8 * length m mod 256 ^ 16" using c by (simp add: absorbed_def)
  then have len: "u64_bytes (hc_Nh c) @ u64_bytes (hc_Nl c) = n" "length n = 16"
    using bit_count_bytes_64 [of c] by (simp_all add: n_def del: be_bytes.simps)
  have two: "mem_write (mem_write p (SHA512_CBLOCK - 8) (u64_bytes (hc_Nl c))) (SHA512_CBLOCK - 16) (u64_bytes (hc_Nh c)) =
      mem_write p (SHA512_CBLOCK - 16) n" if "length p = SHA512_CBLOCK" for p
    using that len(1) [symmetric] by (simp add: mem_write_def u64_bytes SHA512_CBLOCK_def del: be_bytes.simps)
  have b: "block_order h b (Suc 0) = compress h b" if "length b = SHA512_CBLOCK" for h b
    using works_on_blocksD [OF f, of 1 b h] hash_blocks_one [OF that cb(1), of compress h "[]"] that cb by simp
  have h: "hc_h c = hash_blocks SHA512_CBLOCK compress h0 m" using c by (simp add: absorbed_def)
  note w = pad_writes [OF data(1,3,4) cb(2) len(2)]
  show ?thesis
  proof (cases "length t + 1 > SHA512_CBLOCK - 16")
    case True
    define b1 where "b1 = t @ [0x80] @ replicate (SHA512_CBLOCK - (length t + 1)) 0"
    have b1: "mem_write ((hc_data c)[length t := 0x80]) (length t + 1) (replicate (SHA512_CBLOCK - (length t + 1)) 0) = b1"
      "length b1 = SHA512_CBLOCK" using w(1) [OF True] data by (simp_all add: b1_def)
    define b2 where "b2 = replicate (SHA512_CBLOCK - 16) 0 @ n"
    have "length (mem_write b1 0 (replicate (SHA512_CBLOCK - 16 - 0) 0)) = SHA512_CBLOCK" using b1(2) by simp
    note two = two [OF this]
    have b2: "mem_write (mem_write b1 0 (replicate (SHA512_CBLOCK - 16 - 0) 0)) (SHA512_CBLOCK - 16) n = b2"
      "length b2 = SHA512_CBLOCK" using w(2) [OF b1(2)] len cb by (simp_all add: b2_def)
    show ?thesis
      unfolding pad_blocks [OF cb(2) length_be_bytes] Let_def t_def [symmetric] n_def [symmetric] if_P [OF True]
        b1_def [symmetric] b2_def [symmetric]
      using True data(2,4)
      by (simp add: SHA512_Final_def Let_def b1(1) [simplified] b1(2) two [simplified] b2(1) [simplified] b2(2) b h)
  next
    case False
    define b1 where "b1 = t @ [0x80] @ replicate (SHA512_CBLOCK - 16 - (length t + 1)) 0 @ n"
    have b1: "mem_write (mem_write ((hc_data c)[length t := 0x80]) (length t + 1) (replicate (SHA512_CBLOCK - 16 - (length t + 1)) 0))
        (SHA512_CBLOCK - 16) n = b1" "length b1 = SHA512_CBLOCK"
      using w(3) [OF False] len False cb by (simp_all add: b1_def)
    have "length (mem_write ((hc_data c)[length t := 0x80]) (length t + 1) (replicate (SHA512_CBLOCK - 16 - (length t + 1)) 0)) = SHA512_CBLOCK"
      using data False by simp
    note two = two [OF this]
    show ?thesis
      unfolding pad_blocks [OF cb(2) length_be_bytes] Let_def t_def [symmetric] n_def [symmetric] if_not_P [OF False] b1_def [symmetric]
      using False data(2,4)
      by (simp add: SHA512_Final_def Let_def two [simplified] b1(1) [simplified] b1(2) b h)
  qed
qed

section \<open>Messages in pieces\<close>

text \<open>
  The contract of a digest with an initial context, an update and a final function; \<open>seen c m\<close> says
  that the context has been given the bytes \<open>m\<close>.
\<close>

locale digest =
  fixes update :: "'c \<Rightarrow> u8 list \<Rightarrow> 'c" and final :: "'c \<Rightarrow> (u8 list option \<times> 'c) option"
    and seen :: "'c \<Rightarrow> u8 list \<Rightarrow> bool" and hash :: "u8 list \<Rightarrow> u8 list"
  assumes update_seen: "seen c m \<Longrightarrow> seen (update c x) (m @ x)"
    and final_hash: "seen c m \<Longrightarrow> \<exists>c'. final c = Some (Some (hash m), c')"
begin

lemma pieces_seen: "seen c m \<Longrightarrow> seen (foldl update c xs) (m @ concat xs)"
proof (induction xs arbitrary: c m)
  case (Cons x xs)
  from Cons.IH [OF update_seen [OF Cons.prems]] show ?case by simp
qed simp

lemma pieces_hash: "seen c [] \<Longrightarrow> \<exists>c'. final (foldl update c xs) = Some (Some (hash (concat xs)), c')"
  using final_hash [OF pieces_seen [of c "[]" xs]] by simp

end

section \<open>Functions on blocks\<close>

lemma hash_blocks_cong:
  assumes "0 < cb" and "\<And>H b. length H = n \<Longrightarrow> length b = cb \<Longrightarrow> f H b = g H b" and "\<And>H b. length H = n \<Longrightarrow> length (g H b) = n"
  shows "length H = n \<Longrightarrow> hash_blocks cb f H m = hash_blocks cb g H m"
  using assms(1)
proof (induction m arbitrary: H rule: blocks_induct)
  case (block b m)
  then show ?case using assms(1) assms(2) [of H b] assms(3) [of H b] by (simp add: hash_blocks_one)
qed (use assms(1) in simp_all)

lemma length_hash_blocks:
  assumes "0 < cb" and "\<And>H b. length H = n \<Longrightarrow> length (f H b) = n"
  shows "length H = n \<Longrightarrow> length (hash_blocks cb f H m) = n"
  using assms(1)
proof (induction m arbitrary: H rule: blocks_induct)
  case (block b m)
  then show ?case using assms(1) assms(2) [of H b] by (simp add: hash_blocks_one)
qed (use assms(1) in simp_all)

lemma block_order_works:
  assumes "0 < cb" and "\<And>H d. cb \<le> length d \<Longrightarrow> block H (take cb d) = block H d"
    and "\<And>H d. bo H d 0 = H" and "\<And>H d n. bo H d (Suc n) = bo (block H d) (drop cb d) n"
  shows "works_on_blocks cb block bo"
proof -
  have "n * cb \<le> length d \<Longrightarrow> bo H d n = hash_blocks cb block H (take (n * cb) d)" for n H d
  proof (induction n arbitrary: H d)
    case 0
    then show ?case using assms(1) by (simp add: assms(3))
  next
    case (Suc n)
    then have "bo H d (Suc n) = hash_blocks cb block (block H d) (take (n * cb) (drop cb d))"
      by (simp add: assms(4))
    moreover have "take (Suc n * cb) d = take cb d @ take (n * cb) (drop cb d)"
      using take_add [of cb "n * cb" d] by simp
    ultimately show ?case
      using Suc.prems assms(1,2) by (simp add: hash_blocks_one)
  qed
  then show ?thesis by (simp add: works_on_blocks_def)
qed

lemma fold_upt_cong: "(\<And>i s. i < n \<Longrightarrow> f i s = g i s) \<Longrightarrow> fold f [0 ..< n] s = fold g [0 ..< n] s"
  by (rule fold_cong) (auto intro!: ext)

lemma md_len_rest [simp]:
  "hc_md_len (hash_rest bo c x) = hc_md_len c" "hc_md_len (sha512_rest bo' c' x) = hc_md_len c'"
  by (simp_all add: hash_rest_def sha512_rest_def Let_def)

lemma md_len_update [simp]:
  "hc_md_len (HASH_UPDATE bo c x) = hc_md_len c" "hc_md_len (SHA512_Update bo' c' x) = hc_md_len c'"
  unfolding HASH_UPDATE_def SHA512_Update_def Let_def by (simp_all split: if_split)

lemma absorbed_init:
  "length (hc_data c) = cb \<Longrightarrow> 0 < cb \<Longrightarrow> hc_num c = 0 \<Longrightarrow> hc_Nl c = 0 \<Longrightarrow> hc_Nh c = 0 \<Longrightarrow> hc_h c = H0 \<Longrightarrow>
    absorbed cb f H0 c []"
  by (simp add: absorbed_def bit_count_def)

section \<open>Words of a block\<close>

lemma c2l_be_word:
  assumes "4 \<le> length c"
  shows "c2l_be c = of_nat (be_nat (take 4 c))"
proof -
  obtain a b d e r where c: "c = a # b # d # e # r" using assms by (auto simp: numeral_eq_Suc Suc_le_length_iff)
  have l: "unat v < 256" for v :: u8 by (rule unat_u8_less)
  have p: "unat (push_bit n (ucast v) OR w :: u32) = unat v * 2 ^ n + unat w" if "unat w < 2 ^ n" "n + 8 \<le> 32" for n and v :: u8 and w :: u32
  proof (subst unat_push_or)
    have "unat v * 2 ^ n + unat w < (unat v + 1) * 2 ^ n" using that(1) by simp
    also have "\<dots> \<le> 256 * 2 ^ n" by (rule mult_right_mono) (use l [of v] in linarith, simp)
    also have "\<dots> = 2 ^ (8 + n)" by (simp add: power_add)
    also have "\<dots> \<le> 2 ^ LENGTH(32)" using that(2) by (intro power_increasing) simp_all
    finally show "unat (ucast v :: u32) * 2 ^ n + unat w < 2 ^ LENGTH(32)" by simp
  qed (use that in simp_all)
  have 1: "unat (push_bit 8 (ucast d) OR ucast e :: u32) = unat d * 256 + unat e" by (subst p) (simp_all add: l)
  have b: "unat d * 256 + unat e < 65536" "unat b * 65536 + (unat d * 256 + unat e) < 16777216"
    using l [of b] l [of d] l [of e] by linarith+
  have 2: "unat (push_bit 16 (ucast b) OR (push_bit 8 (ucast d) OR ucast e) :: u32) = unat b * 65536 + (unat d * 256 + unat e)"
    using b(1) by (subst p) (simp_all add: 1)
  have 3: "unat (push_bit 24 (ucast a) OR (push_bit 16 (ucast b) OR (push_bit 8 (ucast d) OR ucast e)) :: u32) =
      unat a * 16777216 + (unat b * 65536 + (unat d * 256 + unat e))"
    using b(2) by (subst p) (simp_all add: 2)
  have "be_nat [a, b, d, e] = unat a * 16777216 + (unat b * 65536 + (unat d * 256 + unat e))"
    by (simp add: be_nat_def)
  then have "of_nat (be_nat (take 4 c)) = (of_nat (unat (c2l_be c)) :: u32)"
    using 3 by (simp add: c c2l_be_def)
  then show ?thesis by simp
qed

lemma c2l_le_word:
  assumes "4 \<le> length c"
  shows "c2l_le c = of_nat (le_nat (take 4 c))"
proof -
  have "c2l_le c = c2l_be (rev (take 4 c))"
    using assms by (auto simp: c2l_le_def c2l_be_def rev_nth or.assoc or.commute or.left_commute numeral_eq_Suc)
  then show ?thesis using c2l_be_word [of "rev (take 4 c)"] assms by (simp add: le_nat_def)
qed

end
