(* ===== verification/Sha2.thy ===== *)
theory Sha2
  imports Digest
begin

text \<open>
  \<open>crypto/fipsmodule/sha/sha256.c\<close> and \<open>sha512.c\<close>: the functions on blocks and the digests SHA-224,
  SHA-256, SHA-384 and SHA-512.  The code keeps eight registers whose names move from
  round to round and a window of sixteen words; the specification is the one of FIPS 180-4,
  with the message schedule as a recursion and the registers shifted.
\<close>

section \<open>SHA-256\<close>

definition K256 :: "u32 list" where
  "K256 = concat [
     [0x428a2f98, 0x71374491, 0xb5c0fbcf, 0xe9b5dba5, 0x3956c25b],
     [0x59f111f1, 0x923f82a4, 0xab1c5ed5, 0xd807aa98, 0x12835b01],
     [0x243185be, 0x550c7dc3, 0x72be5d74, 0x80deb1fe, 0x9bdc06a7],
     [0xc19bf174, 0xe49b69c1, 0xefbe4786, 0x0fc19dc6, 0x240ca1cc],
     [0x2de92c6f, 0x4a7484aa, 0x5cb0a9dc, 0x76f988da, 0x983e5152],
     [0xa831c66d, 0xb00327c8, 0xbf597fc7, 0xc6e00bf3, 0xd5a79147],
     [0x06ca6351, 0x14292967, 0x27b70a85, 0x2e1b2138, 0x4d2c6dfc],
     [0x53380d13, 0x650a7354, 0x766a0abb, 0x81c2c92e, 0x92722c85],
     [0xa2bfe8a1, 0xa81a664b, 0xc24b8b70, 0xc76c51a3, 0xd192e819],
     [0xd6990624, 0xf40e3585, 0x106aa070, 0x19a4c116, 0x1e376c08],
     [0x2748774c, 0x34b0bcb5, 0x391c0cb3, 0x4ed8aa4a, 0x5b9cca4f],
     [0x682e6ff3, 0x748f82ee, 0x78a5636f, 0x84c87814, 0x8cc70208],
     [0x90befffa, 0xa4506ceb, 0xbef9a3f7, 0xc67178f2]]"

definition ROTATE :: "u32 \<Rightarrow> nat \<Rightarrow> u32" where
  "ROTATE a n = push_bit n a OR drop_bit (32 - n) a"

definition Sigma0_256 :: "u32 \<Rightarrow> u32" where
  "Sigma0_256 x = ROTATE x 30 XOR ROTATE x 19 XOR ROTATE x 10"

definition Sigma1_256 :: "u32 \<Rightarrow> u32" where
  "Sigma1_256 x = ROTATE x 26 XOR ROTATE x 21 XOR ROTATE x 7"

definition sigma0_256 :: "u32 \<Rightarrow> u32" where
  "sigma0_256 x = ROTATE x 25 XOR ROTATE x 14 XOR drop_bit 3 x"

definition sigma1_256 :: "u32 \<Rightarrow> u32" where
  "sigma1_256 x = ROTATE x 15 XOR ROTATE x 13 XOR drop_bit 10 x"

text \<open>The macros that both files define with the same text.\<close>

definition Ch :: "'w::len word \<Rightarrow> 'w word \<Rightarrow> 'w word \<Rightarrow> 'w word" where
  "Ch x y z = (x AND y) XOR (NOT x AND z)"

definition Maj :: "'w::len word \<Rightarrow> 'w word \<Rightarrow> 'w word \<Rightarrow> 'w word" where
  "Maj x y z = (x AND y) XOR (x AND z) XOR (y AND z)"

text \<open>
  \<open>ROUND_00_15\<close> on the registers \<open>r\<close>.  The arguments \<open>a\<close> to \<open>h\<close> of the macro are names, that is positions in
  \<open>r\<close>; the functions \<open>Sigma0\<close>, \<open>Sigma1\<close> and the table \<open>K\<close> are those of the file.
\<close>

fun ROUND_00_15 ::
    "('w::len word \<Rightarrow> 'w word) \<Rightarrow> ('w word \<Rightarrow> 'w word) \<Rightarrow> 'w word list \<Rightarrow> nat \<Rightarrow> nat list \<Rightarrow> 'w word \<Rightarrow> 'w word list \<Rightarrow> 'w word list"
where
  "ROUND_00_15 Sigma0 Sigma1 K i [a, b, c, d, e, f, g, h] T1 r =
     (let T1 = T1 + (r ! h + Sigma1 (r ! e) + Ch (r ! e) (r ! f) (r ! g) + K ! i);
          r = r[h := Sigma0 (r ! a) + Maj (r ! a) (r ! b) (r ! c)];
          r = r[d := r ! d + T1]
      in r[h := r ! h + T1])"
| "ROUND_00_15 Sigma0 Sigma1 K i names T1 r = r"

definition ROUND_16_63 :: "nat \<Rightarrow> nat list \<Rightarrow> u32 list \<times> u32 list \<Rightarrow> u32 list \<times> u32 list" where
  "ROUND_16_63 i names s =
     (case s of (X, r) \<Rightarrow>
        let s0 = sigma0_256 (X ! ((i + 1) mod 16));
            s1 = sigma1_256 (X ! ((i + 14) mod 16));
            T1 = X ! (i mod 16) + (s0 + s1 + X ! ((i + 9) mod 16))
        in (X[i mod 16 := T1], ROUND_00_15 Sigma0_256 Sigma1_256 K256 i names T1 r))"

text \<open>The order of the registers in each of eight successive calls, which then come again.\<close>

definition sha2_names :: "nat list list" where
  "sha2_names = [
     [0,1,2,3,4,5,6,7],
     [7,0,1,2,3,4,5,6],
     [6,7,0,1,2,3,4,5],
     [5,6,7,0,1,2,3,4],
     [4,5,6,7,0,1,2,3],
     [3,4,5,6,7,0,1,2],
     [2,3,4,5,6,7,0,1],
     [1,2,3,4,5,6,7,0]]"

text \<open>The first sixteen rounds fill the window.\<close>

definition sha256_first :: "u8 list \<Rightarrow> nat \<Rightarrow> u32 list \<times> u32 list \<Rightarrow> u32 list \<times> u32 list" where
  "sha256_first data i s =
     (case s of (X, r) \<Rightarrow>
        let l = c2l_be (drop (4 * i) data)
        in (X @ [l], ROUND_00_15 Sigma0_256 Sigma1_256 K256 i (sha2_names ! (i mod 8)) l r))"

function sha256_loop :: "nat \<Rightarrow> u32 list \<times> u32 list \<Rightarrow> u32 list \<times> u32 list" where
  "sha256_loop i s =
     (if i < 64 then sha256_loop (i + 8) (fold (\<lambda>j. ROUND_16_63 (i + j) (sha2_names ! j)) [0 ..< 8] s) else s)"
  by auto
termination by (relation "measure (\<lambda>(i, s). 64 - i)") auto

declare sha256_loop.simps [simp del]

definition sha256_block :: "u32 list \<Rightarrow> u8 list \<Rightarrow> u32 list" where
  "sha256_block state data = map2 (+) state (snd (sha256_loop 16 (fold (sha256_first data) [0 ..< 16] ([], state))))"

fun sha256_block_data_order :: "u32 list \<Rightarrow> u8 list \<Rightarrow> nat \<Rightarrow> u32 list" where
  "sha256_block_data_order state data 0 = state"
| "sha256_block_data_order state data (Suc num) =
     sha256_block_data_order (sha256_block state data) (drop 64 data) num"

definition SHA224_DIGEST_LENGTH :: nat where
  "SHA224_DIGEST_LENGTH = 28"

definition SHA256_DIGEST_LENGTH :: nat where
  "SHA256_DIGEST_LENGTH = 32"

definition sha256_make_string :: "u32 hash_ctx \<Rightarrow> u8 list option" where
  "sha256_make_string c =
     (if hc_md_len c = SHA224_DIGEST_LENGTH then Some (concat (map l2c_be (take (SHA224_DIGEST_LENGTH div 4) (hc_h c))))
      else if hc_md_len c = SHA256_DIGEST_LENGTH then Some (concat (map l2c_be (take (SHA256_DIGEST_LENGTH div 4) (hc_h c))))
      else if hc_md_len c > SHA256_DIGEST_LENGTH then None
      else Some (concat (map l2c_be (take (hc_md_len c div 4) (hc_h c)))))"

definition SHA224_Init :: "u32 hash_ctx" where
  "SHA224_Init = \<lparr>hc_h = [
     0xc1059ed8, 0x367cd507, 0x3070dd17, 0xf70e5939,
     0xffc00b31, 0x68581511, 0x64f98fa7, 0xbefa4fa4],
     hc_Nl = 0, hc_Nh = 0, hc_data = replicate 64 0, hc_num = 0, hc_md_len = SHA224_DIGEST_LENGTH\<rparr>"

definition SHA256_Init :: "u32 hash_ctx" where
  "SHA256_Init = \<lparr>hc_h = [
     0x6a09e667, 0xbb67ae85, 0x3c6ef372, 0xa54ff53a,
     0x510e527f, 0x9b05688c, 0x1f83d9ab, 0x5be0cd19],
     hc_Nl = 0, hc_Nh = 0, hc_data = replicate 64 0, hc_num = 0, hc_md_len = SHA256_DIGEST_LENGTH\<rparr>"

definition SHA256_Update :: "u32 hash_ctx \<Rightarrow> u8 list \<Rightarrow> u32 hash_ctx" where
  "SHA256_Update = HASH_UPDATE sha256_block_data_order"

definition SHA256_Transform :: "u32 hash_ctx \<Rightarrow> u8 list \<Rightarrow> u32 hash_ctx" where
  "SHA256_Transform = HASH_TRANSFORM sha256_block_data_order"

definition SHA256_Final :: "u32 hash_ctx \<Rightarrow> (u8 list option \<times> u32 hash_ctx) option" where
  "SHA256_Final = HASH_FINAL sha256_block_data_order True sha256_make_string"

definition SHA256_TransformBlocks :: "u32 list \<Rightarrow> u8 list \<Rightarrow> nat \<Rightarrow> u32 list" where
  "SHA256_TransformBlocks state data num_blocks = sha256_block_data_order state data num_blocks"

definition SHA224_Update :: "u32 hash_ctx \<Rightarrow> u8 list \<Rightarrow> u32 hash_ctx" where
  "SHA224_Update ctx data = SHA256_Update ctx data"

definition SHA224_Final :: "u32 hash_ctx \<Rightarrow> (u8 list option \<times> u32 hash_ctx) option" where
  "SHA224_Final ctx = SHA256_Final ctx"

definition SHA224 :: "u8 list \<Rightarrow> (u8 list option \<times> u32 hash_ctx) option" where
  "SHA224 data = SHA224_Final (SHA224_Update SHA224_Init data)"

definition SHA256 :: "u8 list \<Rightarrow> (u8 list option \<times> u32 hash_ctx) option" where
  "SHA256 data = SHA256_Final (SHA256_Update SHA256_Init data)"

section \<open>SHA-512\<close>

definition K512 :: "u64 list" where
  "K512 = concat [
     [0x428a2f98d728ae22, 0x7137449123ef65cd],
     [0xb5c0fbcfec4d3b2f, 0xe9b5dba58189dbbc],
     [0x3956c25bf348b538, 0x59f111f1b605d019],
     [0x923f82a4af194f9b, 0xab1c5ed5da6d8118],
     [0xd807aa98a3030242, 0x12835b0145706fbe],
     [0x243185be4ee4b28c, 0x550c7dc3d5ffb4e2],
     [0x72be5d74f27b896f, 0x80deb1fe3b1696b1],
     [0x9bdc06a725c71235, 0xc19bf174cf692694],
     [0xe49b69c19ef14ad2, 0xefbe4786384f25e3],
     [0x0fc19dc68b8cd5b5, 0x240ca1cc77ac9c65],
     [0x2de92c6f592b0275, 0x4a7484aa6ea6e483],
     [0x5cb0a9dcbd41fbd4, 0x76f988da831153b5],
     [0x983e5152ee66dfab, 0xa831c66d2db43210],
     [0xb00327c898fb213f, 0xbf597fc7beef0ee4],
     [0xc6e00bf33da88fc2, 0xd5a79147930aa725],
     [0x06ca6351e003826f, 0x142929670a0e6e70],
     [0x27b70a8546d22ffc, 0x2e1b21385c26c926],
     [0x4d2c6dfc5ac42aed, 0x53380d139d95b3df],
     [0x650a73548baf63de, 0x766a0abb3c77b2a8],
     [0x81c2c92e47edaee6, 0x92722c851482353b],
     [0xa2bfe8a14cf10364, 0xa81a664bbc423001],
     [0xc24b8b70d0f89791, 0xc76c51a30654be30],
     [0xd192e819d6ef5218, 0xd69906245565a910],
     [0xf40e35855771202a, 0x106aa07032bbd1b8],
     [0x19a4c116b8d2d0c8, 0x1e376c085141ab53],
     [0x2748774cdf8eeb99, 0x34b0bcb5e19b48a8],
     [0x391c0cb3c5c95a63, 0x4ed8aa4ae3418acb],
     [0x5b9cca4f7763e373, 0x682e6ff3d6b2b8a3],
     [0x748f82ee5defb2fc, 0x78a5636f43172f60],
     [0x84c87814a1f0ab72, 0x8cc702081a6439ec],
     [0x90befffa23631e28, 0xa4506cebde82bde9],
     [0xbef9a3f7b2c67915, 0xc67178f2e372532b],
     [0xca273eceea26619c, 0xd186b8c721c0c207],
     [0xeada7dd6cde0eb1e, 0xf57d4f7fee6ed178],
     [0x06f067aa72176fba, 0x0a637dc5a2c898a6],
     [0x113f9804bef90dae, 0x1b710b35131c471b],
     [0x28db77f523047d84, 0x32caab7b40c72493],
     [0x3c9ebe0a15c9bebc, 0x431d67c49c100d4c],
     [0x4cc5d4becb3e42b6, 0x597f299cfc657e2a],
     [0x5fcb6fab3ad6faec, 0x6c44198c4a475817]]"

definition ROTR :: "u64 \<Rightarrow> nat \<Rightarrow> u64" where
  "ROTR x s = drop_bit s x OR push_bit (64 - s) x"

definition Sigma0_512 :: "u64 \<Rightarrow> u64" where
  "Sigma0_512 x = ROTR x 28 XOR ROTR x 34 XOR ROTR x 39"

definition Sigma1_512 :: "u64 \<Rightarrow> u64" where
  "Sigma1_512 x = ROTR x 14 XOR ROTR x 18 XOR ROTR x 41"

definition sigma0_512 :: "u64 \<Rightarrow> u64" where
  "sigma0_512 x = ROTR x 1 XOR ROTR x 8 XOR drop_bit 7 x"

definition sigma1_512 :: "u64 \<Rightarrow> u64" where
  "sigma1_512 x = ROTR x 19 XOR ROTR x 61 XOR drop_bit 6 x"

definition load_u64_be :: "u8 list \<Rightarrow> u64" where
  "load_u64_be p = of_nat (be_nat (take 8 p))"

definition ROUND_16_80 :: "nat \<Rightarrow> nat \<Rightarrow> nat list \<Rightarrow> u64 list \<times> u64 list \<Rightarrow> u64 list \<times> u64 list" where
  "ROUND_16_80 i j names s =
     (case s of (X, r) \<Rightarrow>
        let s0 = sigma0_512 (X ! ((j + 1) mod 16));
            s1 = sigma1_512 (X ! ((j + 14) mod 16));
            T1 = X ! (j mod 16) + (s0 + s1 + X ! ((j + 9) mod 16))
        in (X[j mod 16 := T1], ROUND_00_15 Sigma0_512 Sigma1_512 K512 (i + j) names T1 r))"

definition sha512_first :: "u8 list \<Rightarrow> nat \<Rightarrow> u64 list \<times> u64 list \<Rightarrow> u64 list \<times> u64 list" where
  "sha512_first inp i s =
     (case s of (X, r) \<Rightarrow>
        let l = load_u64_be (drop (i * 8) inp)
        in (X @ [l], ROUND_00_15 Sigma0_512 Sigma1_512 K512 i (sha2_names ! (i mod 8)) l r))"

function sha512_loop :: "nat \<Rightarrow> u64 list \<times> u64 list \<Rightarrow> u64 list \<times> u64 list" where
  "sha512_loop i s =
     (if i < 80 then sha512_loop (i + 16) (fold (\<lambda>j. ROUND_16_80 i j (sha2_names ! (j mod 8))) [0 ..< 16] s) else s)"
  by auto
termination by (relation "measure (\<lambda>(i, s). 80 - i)") auto

declare sha512_loop.simps [simp del]

definition sha512_block :: "u64 list \<Rightarrow> u8 list \<Rightarrow> u64 list" where
  "sha512_block state inp = map2 (+) state (snd (sha512_loop 16 (fold (sha512_first inp) [0 ..< 16] ([], state))))"

fun sha512_block_data_order :: "u64 list \<Rightarrow> u8 list \<Rightarrow> nat \<Rightarrow> u64 list" where
  "sha512_block_data_order state inp 0 = state"
| "sha512_block_data_order state inp (Suc num) =
     sha512_block_data_order (sha512_block state inp) (drop (16 * 8) inp) num"

text \<open>Unlike \<open>SHA256_Init\<close> these leave the buffer as it is.\<close>

definition SHA384_Init :: "u64 hash_ctx \<Rightarrow> u64 hash_ctx" where
  "SHA384_Init sha = sha\<lparr>hc_h := [
     0xcbbb9d5dc1059ed8, 0x629a292a367cd507, 0x9159015a3070dd17, 0x152fecd8f70e5939,
     0x67332667ffc00b31, 0x8eb44a8768581511, 0xdb0c2e0d64f98fa7, 0x47b5481dbefa4fa4],
     hc_Nl := 0, hc_Nh := 0, hc_num := 0, hc_md_len := SHA384_DIGEST_LENGTH\<rparr>"

definition SHA512_Init :: "u64 hash_ctx \<Rightarrow> u64 hash_ctx" where
  "SHA512_Init sha = sha\<lparr>hc_h := [
     0x6a09e667f3bcc908, 0xbb67ae8584caa73b, 0x3c6ef372fe94f82b, 0xa54ff53a5f1d36f1,
     0x510e527fade682d1, 0x9b05688c2b3e6c1f, 0x1f83d9abfb41bd6b, 0x5be0cd19137e2179],
     hc_Nl := 0, hc_Nh := 0, hc_num := 0, hc_md_len := SHA512_DIGEST_LENGTH\<rparr>"

definition SHA512_Transform :: "u64 hash_ctx \<Rightarrow> u8 list \<Rightarrow> u64 hash_ctx" where
  "SHA512_Transform c block = c\<lparr>hc_h := sha512_block_data_order (hc_h c) block 1\<rparr>"

definition SHA384_Update :: "u64 hash_ctx \<Rightarrow> u8 list \<Rightarrow> u64 hash_ctx" where
  "SHA384_Update sha data = SHA512_Update sha512_block_data_order sha data"

definition SHA384_Final :: "bool \<Rightarrow> u64 hash_ctx \<Rightarrow> u8 list option \<times> u64 hash_ctx" where
  "SHA384_Final has_out sha = SHA512_Final sha512_block_data_order has_out sha"

definition SHA384 :: "u64 hash_ctx \<Rightarrow> u8 list \<Rightarrow> u8 list option \<times> u64 hash_ctx" where
  "SHA384 ctx data = SHA384_Final True (SHA384_Update (SHA384_Init ctx) data)"

definition SHA512 :: "u64 hash_ctx \<Rightarrow> u8 list \<Rightarrow> u8 list option \<times> u64 hash_ctx" where
  "SHA512 ctx data = SHA512_Final sha512_block_data_order True (SHA512_Update sha512_block_data_order (SHA512_Init ctx) data)"

end
