(* ===== verification/Sha2_Spec.thy ===== *)
theory Sha2_Spec
  imports Sha2
begin

text \<open>
  The functions of FIPS 180-4, and that the functions of \<open>Sha2\<close> compute them: the moving names of the
  registers are a shift, the window of sixteen words is the message schedule.
\<close>

section \<open>FIPS 180-4\<close>

text \<open>The schedule, one round, and the function on a block, for both word sizes.\<close>

fun schedule :: "('w::len word \<Rightarrow> 'w word) \<Rightarrow> ('w word \<Rightarrow> 'w word) \<Rightarrow> 'w word list \<Rightarrow> nat \<Rightarrow> 'w word" where
  "schedule s0 s1 M t =
     (if t < 16 then M ! t
      else s1 (schedule s0 s1 M (t - 2)) + schedule s0 s1 M (t - 7) + s0 (schedule s0 s1 M (t - 15)) + schedule s0 s1 M (t - 16))"

declare schedule.simps [simp del]

fun sha2_round ::
    "('w::len word \<Rightarrow> 'w word) \<Rightarrow> ('w word \<Rightarrow> 'w word) \<Rightarrow> 'w word list \<Rightarrow> (nat \<Rightarrow> 'w word) \<Rightarrow> nat \<Rightarrow> 'w word list \<Rightarrow> 'w word list"
where
  "sha2_round S0 S1 K W t [a, b, c, d, e, f, g, h] =
     (let T1 = h + S1 e + Ch e f g + K ! t + W t; T2 = S0 a + Maj a b c in [T1 + T2, a, b, c, d + T1, e, f, g])"
| "sha2_round S0 S1 K W t v = v"

definition rotr :: "nat \<Rightarrow> 'w::len word \<Rightarrow> 'w word" where
  "rotr n x = word_rotr n x"

definition words_of :: "nat \<Rightarrow> u8 list \<Rightarrow> 'w::len word list" where
  "words_of n block = map (\<lambda>i. of_nat (be_nat (take n (drop (n * i) block)))) [0 ..< 16]"

definition sha256_compress :: "u32 list \<Rightarrow> u8 list \<Rightarrow> u32 list" where
  "sha256_compress H block = map2 (+) H
     (fold (sha2_round (\<lambda>x. rotr 2 x XOR rotr 13 x XOR rotr 22 x) (\<lambda>x. rotr 6 x XOR rotr 11 x XOR rotr 25 x) K256
        (schedule (\<lambda>x. rotr 7 x XOR rotr 18 x XOR drop_bit 3 x) (\<lambda>x. rotr 17 x XOR rotr 19 x XOR drop_bit 10 x) (words_of 4 block)))
      [0 ..< 64] H)"

definition sha512_compress :: "u64 list \<Rightarrow> u8 list \<Rightarrow> u64 list" where
  "sha512_compress H block = map2 (+) H
     (fold (sha2_round (\<lambda>x. rotr 28 x XOR rotr 34 x XOR rotr 39 x) (\<lambda>x. rotr 14 x XOR rotr 18 x XOR rotr 41 x) K512
        (schedule (\<lambda>x. rotr 1 x XOR rotr 8 x XOR drop_bit 7 x) (\<lambda>x. rotr 19 x XOR rotr 61 x XOR drop_bit 6 x) (words_of 8 block)))
      [0 ..< 80] H)"

section \<open>Rounds\<close>

text \<open>The values of the registers in the order in which round \<open>t\<close> names them.\<close>

definition named :: "nat \<Rightarrow> 'w list \<Rightarrow> 'w list" where
  "named t r = map ((!) r) (sha2_names ! (t mod 8))"

lemma length_eight: "length xs = 8 \<Longrightarrow> \<exists>a b c d e f g h. xs = [a, b, c, d, e, f, g, h]"
  by (simp add: numeral_eq_Suc length_Suc_conv) blast

lemma sha2_rows:
  "list_all (\<lambda>n. length (sha2_names ! n) = 8 \<and> sha2_names ! (Suc n mod 8) = last (sha2_names ! n) # butlast (sha2_names ! n) \<and>
     distinct (sha2_names ! n) \<and> list_all (\<lambda>k. k < 8) (sha2_names ! n)) [0 ..< 8]"
  by code_simp

lemma sha2_names:
  obtains a b c d e f g h where "sha2_names ! (t mod 8) = [a, b, c, d, e, f, g, h]"
    and "sha2_names ! (Suc t mod 8) = [h, a, b, c, d, e, f, g]"
    and "distinct [a, b, c, d, e, f, g, h]" and "list_all (\<lambda>k. k < 8) [a, b, c, d, e, f, g, h]"
proof -
  have "t mod 8 \<in> set [0 ..< 8]" by simp
  with sha2_rows have row: "length (sha2_names ! (t mod 8)) = 8"
    "sha2_names ! (Suc (t mod 8) mod 8) = last (sha2_names ! (t mod 8)) # butlast (sha2_names ! (t mod 8))"
    "distinct (sha2_names ! (t mod 8))" "list_all (\<lambda>k. k < 8) (sha2_names ! (t mod 8))"
    unfolding list_all_iff by blast+
  from length_eight [OF row(1)] obtain a b c d e f g h where "sha2_names ! (t mod 8) = [a, b, c, d, e, f, g, h]"
    by blast
  with row(2-4) that show ?thesis by (simp add: mod_Suc_eq)
qed

lemma ROUND_00_15:
  assumes "length r = 8"
  shows "named (Suc t) (ROUND_00_15 S0 S1 K i (sha2_names ! (t mod 8)) w r) = sha2_round S0 S1 K (\<lambda>_. w) i (named t r)"
    and "length (ROUND_00_15 S0 S1 K i (sha2_names ! (t mod 8)) w r) = 8"
proof -
  obtain a b c d e f g h where n: "sha2_names ! (t mod 8) = [a, b, c, d, e, f, g, h]"
    "sha2_names ! (Suc t mod 8) = [h, a, b, c, d, e, f, g]"
    "distinct [a, b, c, d, e, f, g, h]" "list_all (\<lambda>k. k < 8) [a, b, c, d, e, f, g, h]"
    by (rule sha2_names)
  show "named (Suc t) (ROUND_00_15 S0 S1 K i (sha2_names ! (t mod 8)) w r) = sha2_round S0 S1 K (\<lambda>_. w) i (named t r)"
    using n(3,4) assms by (auto simp: named_def n(1,2) Let_def nth_list_update ac_simps)
  show "length (ROUND_00_15 S0 S1 K i (sha2_names ! (t mod 8)) w r) = 8"
    using assms by (simp add: n(1) Let_def)
qed

lemma sha2_round_word: "sha2_round S0 S1 K W t v = sha2_round S0 S1 K (\<lambda>_. W t) t v"
  by (cases "(S0, S1, K, W, t, v)" rule: sha2_round.cases) simp_all

section \<open>The window of sixteen words\<close>

definition window :: "(nat \<Rightarrow> 'w) \<Rightarrow> nat \<Rightarrow> 'w list \<Rightarrow> bool" where
  "window W t X \<longleftrightarrow> length X = 16 \<and> (\<forall>k. t \<le> k + 16 \<and> k < t \<longrightarrow> X ! (k mod 16) = W k)"

lemma window_nth:
  assumes "window W t X" and "16 \<le> t" and "d < 16"
  shows "X ! ((t + d) mod 16) = W (t + d - 16)"
proof -
  have "(t + d) mod 16 = (t + d - 16) mod 16" using assms(2) by (simp add: le_mod_geq)
  moreover have "t \<le> (t + d - 16) + 16" "t + d - 16 < t" using assms(2,3) by simp_all
  ultimately show ?thesis using assms(1) by (simp add: window_def)
qed

lemma window_step:
  assumes "window W t X" and "16 \<le> t"
  shows "window W (Suc t) (X[t mod 16 := W t])"
proof -
  have "(X[t mod 16 := W t]) ! (k mod 16) = W k" if k: "Suc t \<le> k + 16" "k < Suc t" for k
  proof (cases "k = t")
    case False
    have "k mod 16 \<noteq> t mod 16"
    proof
      assume "k mod 16 = t mod 16"
      then have "16 dvd t - k" using k by (metis mod_eq_dvd_iff_nat less_Suc_eq_le)
      moreover have "0 < t - k" "t - k < 16" using k False by linarith+
      ultimately show False by (simp add: dvd_imp_le nat_dvd_not_less)
    qed
    then show ?thesis using assms(1) k False by (simp add: window_def)
  qed (use assms(1) in \<open>simp add: window_def\<close>)
  then show ?thesis using assms(1) by (simp add: window_def)
qed

lemma window_start: "window (schedule s0 s1 M) 16 (map (schedule s0 s1 M) [0 ..< 16])"
  by (simp add: window_def)

lemma window_schedule:
  assumes "window (schedule s0 s1 M) t X" and "16 \<le> t"
  shows "X ! (t mod 16) + (s0 (X ! ((t + 1) mod 16)) + s1 (X ! ((t + 14) mod 16)) + X ! ((t + 9) mod 16)) = schedule s0 s1 M t"
proof -
  have "X ! (t mod 16) = schedule s0 s1 M (t - 16)" "X ! ((t + 1) mod 16) = schedule s0 s1 M (t - 15)"
    "X ! ((t + 14) mod 16) = schedule s0 s1 M (t - 2)" "X ! ((t + 9) mod 16) = schedule s0 s1 M (t - 7)"
    using window_nth [OF assms, of 0] window_nth [OF assms, of 1] window_nth [OF assms, of 14] window_nth [OF assms, of 9] assms(2)
    by simp_all
  then show ?thesis using assms(2) by (simp add: schedule.simps [of s0 s1 M t] ac_simps)
qed

text \<open>The state after \<open>t\<close> rounds.\<close>

definition after ::
    "('w::len word \<Rightarrow> 'w word) \<Rightarrow> ('w word \<Rightarrow> 'w word) \<Rightarrow> 'w word list \<Rightarrow> (nat \<Rightarrow> 'w word) \<Rightarrow> 'w word list \<Rightarrow> nat \<Rightarrow>
      'w word list \<times> 'w word list \<Rightarrow> bool"
where
  "after S0 S1 K W H t s \<longleftrightarrow> length (snd s) = 8 \<and> named t (snd s) = fold (sha2_round S0 S1 K W) [0 ..< t] H \<and>
     (if t \<le> 16 then fst s = map W [0 ..< t] else window W t (fst s))"

lemma after_window: "after S0 S1 K (schedule s0 s1 M) H t s \<Longrightarrow> 16 \<le> t \<Longrightarrow> window (schedule s0 s1 M) t (fst s)"
  using window_start [of s0 s1 M] by (auto simp: after_def split: if_splits)

lemma after_round:
  assumes "length r = 8" and "named t r = fold (sha2_round S0 S1 K W) [0 ..< t] H" and "w = W t"
  shows "length (ROUND_00_15 S0 S1 K t (sha2_names ! (t mod 8)) w r) = 8"
    and "named (Suc t) (ROUND_00_15 S0 S1 K t (sha2_names ! (t mod 8)) w r) = fold (sha2_round S0 S1 K W) [0 ..< Suc t] H"
  using ROUND_00_15 [OF assms(1), where t = t and i = t and w = w and ?S0.0 = S0 and ?S1.0 = S1 and K = K] assms
    sha2_round_word [of S0 S1 K W t] by simp_all

lemma after_start: "length H = 8 \<Longrightarrow> after S0 S1 K W H 0 ([], H)"
proof -
  assume "length H = 8"
  moreover from length_eight [OF this] have "named 0 H = H" by (auto simp: named_def sha2_names_def)
  ultimately show ?thesis by (simp add: after_def)
qed

lemma after_end:
  assumes "after S0 S1 K W H t s" and "t mod 8 = 0"
  shows "snd s = fold (sha2_round S0 S1 K W) [0 ..< t] H"
proof -
  have "length (snd s) = 8" using assms(1) by (simp add: after_def)
  from length_eight [OF this] have "named t (snd s) = snd s" using assms(2) by (auto simp: named_def sha2_names_def)
  then show ?thesis using assms(1) by (simp add: after_def)
qed

text \<open>A number of rounds that each keep the state.\<close>

lemma after_fold:
  assumes "\<And>j s. j < n \<Longrightarrow> after S0 S1 K W H (i + j) s \<Longrightarrow> after S0 S1 K W H (Suc (i + j)) (step j s)"
    and "after S0 S1 K W H i s"
  shows "after S0 S1 K W H (i + n) (fold step [0 ..< n] s)"
  using assms(1)
proof (induction n)
  case 0
  show ?case using assms(2) by simp
next
  case (Suc n)
  then show ?case by simp
qed

section \<open>Rotations\<close>

lemma shift_rotr:
  fixes x :: "'w::len word"
  assumes "0 < n" and "n < LENGTH('w)"
  shows "drop_bit n x OR push_bit (LENGTH('w) - n) x = rotr n x"
proof (rule bit_word_eqI)
  fix k assume k: "k < LENGTH('w)"
  show "bit (drop_bit n x OR push_bit (LENGTH('w) - n) x) k = bit (rotr n x) k"
  proof (cases "k + n < LENGTH('w)")
    case True
    then show ?thesis using k assms by (auto simp: rotr_def bit_simps add.commute)
  next
    case False
    then have "(k + n) mod LENGTH('w) = k + n - LENGTH('w)" using k assms by (simp add: le_mod_geq)
    moreover have "\<not> bit x (n + k)" using False by (auto dest: bit_imp_le_length)
    ultimately show ?thesis using False k assms by (auto simp: rotr_def bit_simps)
  qed
qed

lemma ROTATE_rotr: "0 < n \<Longrightarrow> n < 32 \<Longrightarrow> ROTATE x n = rotr (32 - n) x"
  using shift_rotr [of "32 - n" x] by (simp add: ROTATE_def or.commute)

lemma ROTR_rotr: "0 < n \<Longrightarrow> n < 64 \<Longrightarrow> ROTR x n = rotr n x"
  using shift_rotr [of n x] by (simp add: ROTR_def)

lemma sigmas:
  "Sigma0_256 = (\<lambda>x. rotr 2 x XOR rotr 13 x XOR rotr 22 x)" "Sigma1_256 = (\<lambda>x. rotr 6 x XOR rotr 11 x XOR rotr 25 x)"
  "sigma0_256 = (\<lambda>x. rotr 7 x XOR rotr 18 x XOR drop_bit 3 x)" "sigma1_256 = (\<lambda>x. rotr 17 x XOR rotr 19 x XOR drop_bit 10 x)"
  "Sigma0_512 = (\<lambda>x. rotr 28 x XOR rotr 34 x XOR rotr 39 x)" "Sigma1_512 = (\<lambda>x. rotr 14 x XOR rotr 18 x XOR rotr 41 x)"
  "sigma0_512 = (\<lambda>x. rotr 1 x XOR rotr 8 x XOR drop_bit 7 x)" "sigma1_512 = (\<lambda>x. rotr 19 x XOR rotr 61 x XOR drop_bit 6 x)"
  by (rule ext, simp add: Sigma0_256_def Sigma1_256_def sigma0_256_def sigma1_256_def
      Sigma0_512_def Sigma1_512_def sigma0_512_def sigma1_512_def ROTATE_rotr ROTR_rotr)+

section \<open>The blocks\<close>

lemma schedule_start: "t < 16 \<Longrightarrow> schedule s0 s1 M t = M ! t"
  by (simp add: schedule.simps)

lemma words_of_nth: "t < 16 \<Longrightarrow> words_of n block ! t = of_nat (be_nat (take n (drop (n * t) block)))"
  by (simp add: words_of_def)

abbreviation W256 :: "u8 list \<Rightarrow> nat \<Rightarrow> u32" where
  "W256 data \<equiv> schedule sigma0_256 sigma1_256 (words_of 4 data)"

abbreviation after256 :: "u8 list \<Rightarrow> u32 list \<Rightarrow> nat \<Rightarrow> u32 list \<times> u32 list \<Rightarrow> bool" where
  "after256 data H \<equiv> after Sigma0_256 Sigma1_256 K256 (W256 data) H"

lemma sha256_first:
  assumes "64 \<le> length data" and "i < 16" and "after256 data H i s"
  shows "after256 data H (Suc i) (sha256_first data i s)"
proof -
  have "c2l_be (drop (4 * i) data) = W256 data i"
    using assms(1,2) by (simp add: c2l_be_word schedule_start words_of_nth)
  then show ?thesis
    using assms(2,3) after_round [of "snd s" i Sigma0_256 Sigma1_256 K256 "W256 data" H "W256 data i"]
    by (simp add: after_def sha256_first_def split_beta Let_def)
qed

lemma ROUND_16_63:
  assumes "16 \<le> t" and "after256 data H t s"
  shows "after256 data H (Suc t) (ROUND_16_63 t (sha2_names ! (t mod 8)) s)"
proof -
  have w: "window (W256 data) t (fst s)" by (rule after_window [OF assms(2,1)])
  define T1 where "T1 = fst s ! (t mod 16) + (sigma0_256 (fst s ! ((t + 1) mod 16)) + sigma1_256 (fst s ! ((t + 14) mod 16)) + fst s ! ((t + 9) mod 16))"
  have T1: "T1 = W256 data t" unfolding T1_def by (rule window_schedule [OF w assms(1)])
  have "ROUND_16_63 t (sha2_names ! (t mod 8)) s =
      ((fst s)[t mod 16 := T1], ROUND_00_15 Sigma0_256 Sigma1_256 K256 t (sha2_names ! (t mod 8)) T1 (snd s))"
    by (simp add: ROUND_16_63_def split_beta Let_def T1_def)
  then show ?thesis
    using assms after_round [of "snd s" t Sigma0_256 Sigma1_256 K256 "W256 data" H "W256 data t"] window_step [OF w assms(1)]
    by (simp add: after_def T1)
qed

lemma sha256_loop: "after256 data H i s \<Longrightarrow> 16 \<le> i \<Longrightarrow> i \<le> 64 \<Longrightarrow> 8 dvd i \<Longrightarrow> after256 data H 64 (sha256_loop i s)"
proof (induction i s rule: sha256_loop.induct)
  case (1 i s)
  show ?case
  proof (cases "i < 64")
    case True
    have "after256 data H (i + 8) (fold (\<lambda>j. ROUND_16_63 (i + j) (sha2_names ! j)) [0 ..< 8] s)"
    proof (rule after_fold [OF _ "1.prems"(1)])
      fix j s assume j: "j < (8 :: nat)" and s: "after256 data H (i + j) s"
      have "(i + j) mod 8 = j" using "1.prems"(4) j by (metis dvd_def mod_less mod_mult_self4 add.commute)
      then show "after256 data H (Suc (i + j)) (ROUND_16_63 (i + j) (sha2_names ! j) s)"
        using ROUND_16_63 [OF _ s] "1.prems"(2) by simp
    qed
    moreover have "i + 8 \<le> 64" using True "1.prems"(4) by (auto simp: dvd_def)
    moreover have "8 dvd i + 8" using "1.prems"(4) by simp
    ultimately show ?thesis
      using "1.IH" [OF True] "1.prems"(2) True by (subst sha256_loop.simps) simp
  next
    case False
    then show ?thesis using "1.prems" by (subst sha256_loop.simps) simp
  qed
qed

lemma sha256_block:
  assumes "length H = 8" and "64 \<le> length data"
  shows "sha256_block H data = sha256_compress H data"
proof -
  have "after256 data H (0 + 16) (fold (sha256_first data) [0 ..< 16] ([], H))"
    by (rule after_fold [OF _ after_start [OF assms(1)]]) (use sha256_first [OF assms(2)] in simp)
  then have "after256 data H 64 (sha256_loop 16 (fold (sha256_first data) [0 ..< 16] ([], H)))"
    by (intro sha256_loop) simp_all
  from after_end [OF this] show ?thesis by (simp add: sha256_block_def sha256_compress_def sigmas)
qed

abbreviation W512 :: "u8 list \<Rightarrow> nat \<Rightarrow> u64" where
  "W512 data \<equiv> schedule sigma0_512 sigma1_512 (words_of 8 data)"

abbreviation after512 :: "u8 list \<Rightarrow> u64 list \<Rightarrow> nat \<Rightarrow> u64 list \<times> u64 list \<Rightarrow> bool" where
  "after512 data H \<equiv> after Sigma0_512 Sigma1_512 K512 (W512 data) H"

lemma sha512_first:
  assumes "i < 16" and "after512 data H i s"
  shows "after512 data H (Suc i) (sha512_first data i s)"
proof -
  have "load_u64_be (drop (i * 8) data) = W512 data i"
    using assms(1) by (simp add: load_u64_be_def schedule_start words_of_nth mult.commute)
  then show ?thesis
    using assms after_round [of "snd s" i Sigma0_512 Sigma1_512 K512 "W512 data" H "W512 data i"]
    by (simp add: after_def sha512_first_def split_beta Let_def)
qed

lemma ROUND_16_80:
  assumes "16 \<le> i" and "16 dvd i" and "j < 16" and "after512 data H (i + j) s"
  shows "after512 data H (Suc (i + j)) (ROUND_16_80 i j (sha2_names ! (j mod 8)) s)"
proof -
  obtain q where q: "i = 16 * q" using assms(2) by blast
  then have mod16: "(i + j + d) mod 16 = (j + d) mod 16" "(i + j) mod 8 = j mod 8" for d
    by (simp_all add: add.assoc mod_add_eq [of "16 * q" 8 j, symmetric] mod_mult_right_eq [of 16 q, symmetric])
  have t: "16 \<le> i + j" using assms(1) by simp
  have w: "window (W512 data) (i + j) (fst s)" by (rule after_window [OF assms(4) t])
  define T1 where "T1 = fst s ! (j mod 16) + (sigma0_512 (fst s ! ((j + 1) mod 16)) + sigma1_512 (fst s ! ((j + 14) mod 16)) + fst s ! ((j + 9) mod 16))"
  have T1: "T1 = W512 data (i + j)"
    using window_schedule [OF w t] by (simp only: T1_def mod16 mod16(1) [of 0, unfolded add_0_right])
  have "ROUND_16_80 i j (sha2_names ! (j mod 8)) s =
      ((fst s)[(i + j) mod 16 := T1], ROUND_00_15 Sigma0_512 Sigma1_512 K512 (i + j) (sha2_names ! ((i + j) mod 8)) T1 (snd s))"
    unfolding mod16 mod16(1) [of 0, unfolded add_0_right] by (simp add: ROUND_16_80_def split_beta Let_def T1_def)
  then show ?thesis
    using assms(4) t after_round [of "snd s" "i + j" Sigma0_512 Sigma1_512 K512 "W512 data" H "W512 data (i + j)"] window_step [OF w t]
    by (simp add: after_def T1)
qed

lemma sha512_loop: "after512 data H i s \<Longrightarrow> 16 \<le> i \<Longrightarrow> i \<le> 80 \<Longrightarrow> 16 dvd i \<Longrightarrow> after512 data H 80 (sha512_loop i s)"
proof (induction i s rule: sha512_loop.induct)
  case (1 i s)
  show ?case
  proof (cases "i < 80")
    case True
    have "after512 data H (i + 16) (fold (\<lambda>j. ROUND_16_80 i j (sha2_names ! (j mod 8))) [0 ..< 16] s)"
      by (rule after_fold [OF _ "1.prems"(1)]) (rule ROUND_16_80 [OF "1.prems"(2,4)])
    moreover have "i + 16 \<le> 80" using True "1.prems"(4) by (auto simp: dvd_def)
    moreover have "16 dvd i + 16" using "1.prems"(4) by simp
    ultimately show ?thesis
      using "1.IH" [OF True] "1.prems"(2) True by (subst sha512_loop.simps) simp
  next
    case False
    then show ?thesis using "1.prems" by (subst sha512_loop.simps) simp
  qed
qed

lemma sha512_block:
  assumes "length H = 8"
  shows "sha512_block H data = sha512_compress H data"
proof -
  have "after512 data H (0 + 16) (fold (sha512_first data) [0 ..< 16] ([], H))"
    by (rule after_fold [OF _ after_start [OF assms]]) (use sha512_first in simp)
  then have "after512 data H 80 (sha512_loop 16 (fold (sha512_first data) [0 ..< 16] ([], H)))"
    by (intro sha512_loop) simp_all
  from after_end [OF this] show ?thesis by (simp add: sha512_block_def sha512_compress_def sigmas)
qed

end
