(* ===== verification/Sha2_Props.thy ===== *)
theory Sha2_Props
  imports Sha2_Spec
begin

text \<open>
  The digests SHA-224 to SHA-512: for every division of a message into pieces they are the
  function of FIPS 180-4.
\<close>

section \<open>The functions on blocks\<close>

lemma sha2_round_length: "length (sha2_round S0 S1 K W t v) = length v"
  by (cases "(S0, S1, K, W, t, v)" rule: sha2_round.cases) (simp_all add: Let_def)

lemma sha2_rounds_length: "length (fold (sha2_round S0 S1 K W) ts v) = length v"
  by (induction ts arbitrary: v) (simp_all add: sha2_round_length)

lemma length_compress [simp]: "length (sha256_compress H b) = length H" "length (sha512_compress H' b) = length H'"
  by (simp_all add: sha256_compress_def sha512_compress_def sha2_rounds_length)

lemma sha256_block_take: "64 \<le> length d \<Longrightarrow> sha256_block H (take 64 d) = sha256_block H d"
proof -
  assume "64 \<le> length d"
  then have "c2l_be (drop (4 * i) (take 64 d)) = c2l_be (drop (4 * i) d)" if "i < 16" for i
    using that by (simp add: c2l_be_def)
  then have "fold (sha256_first (take 64 d)) [0 ..< 16] s = fold (sha256_first d) [0 ..< 16] s" for s
    by (intro fold_upt_cong) (simp add: sha256_first_def)
  then show ?thesis by (simp add: sha256_block_def)
qed

lemma sha512_block_take: "sha512_block H (take 128 d) = sha512_block H d"
proof -
  have "take 8 (drop (i * 8) (take 128 d)) = take 8 (drop (i * 8) d)" if "i < 16" for i
    using that by (simp add: drop_take)
  then have "fold (sha512_first (take 128 d)) [0 ..< 16] s = fold (sha512_first d) [0 ..< 16] s" for s
    by (intro fold_upt_cong) (simp add: sha512_first_def load_u64_be_def)
  then show ?thesis by (simp add: sha512_block_def)
qed

lemma sha256_works: "works_on_blocks HASH_CBLOCK sha256_block sha256_block_data_order"
  by (rule block_order_works) (simp_all add: HASH_CBLOCK_def sha256_block_take)

lemma sha512_works: "works_on_blocks SHA512_CBLOCK sha512_block sha512_block_data_order"
  by (rule block_order_works) (simp_all add: SHA512_CBLOCK_def sha512_block_take)

section \<open>The digests\<close>

text \<open>FIPS 180-4: pad, chain the blocks from the initial value, take the first bytes.\<close>

definition sha256_digest :: "u32 list \<Rightarrow> nat \<Rightarrow> u8 list \<Rightarrow> u8 list" where
  "sha256_digest H0 n m =
     concat (map (\<lambda>w. be_bytes 4 (unat w)) (take (n div 4) (hash_blocks 64 sha256_compress H0 (pad 64 8 (be_bytes 8) m))))"

definition sha512_digest :: "u64 list \<Rightarrow> nat \<Rightarrow> u8 list \<Rightarrow> u8 list" where
  "sha512_digest H0 n m =
     concat (map (\<lambda>w. be_bytes 8 (unat w)) (take (n div 8) (hash_blocks 128 sha512_compress H0 (pad 128 16 (be_bytes 16) m))))"

lemma bytes_fun: "l2c_be = (\<lambda>w. be_bytes 4 (unat w))" "u64_bytes = (\<lambda>w. be_bytes 8 (unat w))"
  by (rule ext, simp only: l2c_bytes u64_bytes)+

text \<open>The context of a digest of length \<open>n\<close> has been given the bytes \<open>m\<close>.\<close>

definition seen256 :: "u32 list \<Rightarrow> nat \<Rightarrow> u32 hash_ctx \<Rightarrow> u8 list \<Rightarrow> bool" where
  "seen256 H0 n c m \<longleftrightarrow> length H0 = 8 \<and> n \<in> {28, 32} \<and> hc_md_len c = n \<and> absorbed HASH_CBLOCK sha256_block H0 c m"

definition seen512 :: "u64 list \<Rightarrow> nat \<Rightarrow> u64 hash_ctx \<Rightarrow> u8 list \<Rightarrow> bool" where
  "seen512 H0 n c m \<longleftrightarrow> length H0 = 8 \<and> n \<in> {48, 64} \<and> hc_md_len c = n \<and> absorbed SHA512_CBLOCK sha512_block H0 c m"

interpretation sha256: digest SHA256_Update SHA256_Final "seen256 H0 n" "sha256_digest H0 n" for H0 n
proof
  fix c m x assume s: "seen256 H0 n c m"
  then show "seen256 H0 n (SHA256_Update c x) (m @ x)"
    using HASH_UPDATE_absorbs [OF sha256_works, of H0 c m x] by (simp add: seen256_def SHA256_Update_def)
  obtain c' where c': "SHA256_Final c = Some (sha256_make_string c', c')" "hc_md_len c' = n"
      "hc_h c' = hash_blocks HASH_CBLOCK sha256_block H0 (pad HASH_CBLOCK 8 (be_bytes 8) m)"
    using HASH_FINAL_digest [OF sha256_works, of H0 c m True sha256_make_string] s
    by (auto simp: seen256_def SHA256_Final_def)
  moreover have "hash_blocks HASH_CBLOCK sha256_block H0 p = hash_blocks 64 sha256_compress H0 p" for p
    using s hash_blocks_cong [of 64 8 sha256_block sha256_compress] by (simp add: seen256_def HASH_CBLOCK_def sha256_block)
  ultimately have "sha256_make_string c' = Some (sha256_digest H0 n m)"
    using s by (auto simp: seen256_def sha256_make_string_def sha256_digest_def HASH_CBLOCK_def bytes_fun
        SHA224_DIGEST_LENGTH_def SHA256_DIGEST_LENGTH_def simp del: be_bytes.simps)
  then show "\<exists>c'. SHA256_Final c = Some (Some (sha256_digest H0 n m), c')" using c'(1) by simp
qed

interpretation sha512: digest "SHA512_Update sha512_block_data_order" "\<lambda>c. Some (SHA512_Final sha512_block_data_order True c)"
  "seen512 H0 n" "sha512_digest H0 n" for H0 n
proof
  fix c m x assume s: "seen512 H0 n c m"
  then show "seen512 H0 n (SHA512_Update sha512_block_data_order c x) (m @ x)"
    by (simp add: seen512_def SHA512_Update_absorbs [OF sha512_works])
  have "hash_blocks SHA512_CBLOCK sha512_block H0 p = hash_blocks 128 sha512_compress H0 p" for p
    using s hash_blocks_cong [of 128 8 sha512_block sha512_compress] by (simp add: seen512_def SHA512_CBLOCK_def sha512_block)
  then have "fst (SHA512_Final sha512_block_data_order True c) = Some (sha512_digest H0 n m)"
    using s SHA512_Final_digest [OF sha512_works, of H0 c m]
    by (auto simp: seen512_def sha512_digest_def SHA512_CBLOCK_def bytes_fun Let_def
        SHA384_DIGEST_LENGTH_def SHA512_DIGEST_LENGTH_def simp del: be_bytes.simps)
  then show "\<exists>c'. Some (SHA512_Final sha512_block_data_order True c) = Some (Some (sha512_digest H0 n m), c')"
    by (metis prod.collapse)
qed

text \<open>
  C35: SHA-224 and SHA-256 of a message that arrives in any pieces, empty ones included, are the
  digests of FIPS 180-4 of the whole message; the final functions never fail.
\<close>
theorem SHA256_pieces:
  "\<exists>c c'. SHA224_Final (foldl SHA224_Update SHA224_Init pieces) = Some (Some (sha256_digest (hc_h SHA224_Init) 28 (concat pieces)), c) \<and>
     SHA256_Final (foldl SHA256_Update SHA256_Init pieces) = Some (Some (sha256_digest (hc_h SHA256_Init) 32 (concat pieces)), c')"
proof -
  have "seen256 (hc_h SHA224_Init) 28 SHA224_Init []" "seen256 (hc_h SHA256_Init) 32 SHA256_Init []"
    unfolding seen256_def
    by (auto simp: SHA224_Init_def SHA256_Init_def SHA224_DIGEST_LENGTH_def SHA256_DIGEST_LENGTH_def HASH_CBLOCK_def intro!: absorbed_init)
  moreover have "SHA224_Final = SHA256_Final" "SHA224_Update = SHA256_Update"
    by (auto simp: SHA224_Final_def SHA224_Update_def intro!: ext)
  ultimately show ?thesis using sha256.pieces_hash by simp
qed

text \<open>
  C36: the same for SHA-384 and SHA-512 (with an output buffer), whatever the buffer of the
  context held before.
\<close>
theorem SHA512_pieces:
  assumes "length (hc_data ctx) = 128"
  shows "\<exists>c c'. SHA384_Final True (foldl SHA384_Update (SHA384_Init ctx) pieces) =
      (Some (sha512_digest (hc_h (SHA384_Init ctx)) 48 (concat pieces)), c) \<and>
    SHA512_Final sha512_block_data_order True (foldl (SHA512_Update sha512_block_data_order) (SHA512_Init ctx) pieces) =
      (Some (sha512_digest (hc_h (SHA512_Init ctx)) 64 (concat pieces)), c')"
proof -
  have "seen512 (hc_h (SHA384_Init ctx)) 48 (SHA384_Init ctx) []" "seen512 (hc_h (SHA512_Init ctx)) 64 (SHA512_Init ctx) []"
    unfolding seen512_def using assms
    by (auto simp: SHA384_Init_def SHA512_Init_def SHA384_DIGEST_LENGTH_def SHA512_DIGEST_LENGTH_def SHA512_CBLOCK_def intro!: absorbed_init)
  moreover have "SHA384_Final True = SHA512_Final sha512_block_data_order True" "SHA384_Update = SHA512_Update sha512_block_data_order"
    by (auto simp: SHA384_Final_def SHA384_Update_def intro!: ext)
  ultimately show ?thesis using sha512.pieces_hash by simp
qed

theorem SHA512_pieces_witness:
  "\<exists>c c'. SHA384_Final True (foldl SHA384_Update (SHA384_Init \<lparr>hc_h = [], hc_Nl = 1, hc_Nh = 2, hc_data = replicate 128 7, hc_num = 9, hc_md_len = 0\<rparr>) [[1], [], [2, 3]]) =
      (Some (sha512_digest (hc_h (SHA384_Init \<lparr>hc_h = [], hc_Nl = 1, hc_Nh = 2, hc_data = replicate 128 7, hc_num = 9, hc_md_len = 0\<rparr>)) 48 (concat [[1], [], [2, 3]])), c) \<and>
    SHA512_Final sha512_block_data_order True (foldl (SHA512_Update sha512_block_data_order) (SHA512_Init \<lparr>hc_h = [], hc_Nl = 1, hc_Nh = 2, hc_data = replicate 128 7, hc_num = 9, hc_md_len = 0\<rparr>) [[1], [], [2, 3]]) =
      (Some (sha512_digest (hc_h (SHA512_Init \<lparr>hc_h = [], hc_Nl = 1, hc_Nh = 2, hc_data = replicate 128 7, hc_num = 9, hc_md_len = 0\<rparr>)) 64 (concat [[1], [], [2, 3]])), c')"
  by (rule SHA512_pieces) simp

end
