(* ===== verification/Sha1.thy ===== *)
theory Sha1
  imports Sha2_Spec
begin

text \<open>
  \<open>crypto/fipsmodule/sha/sha1.c\<close>.  The rounds are written out in the code as eighty macro calls with
  permuted registers and words; here they are a table with one row for each call, in the
  order of the code.  The specification is the one of FIPS 180-4.
\<close>

section \<open>The macros\<close>

definition K_00_19 :: u32 where "K_00_19 = 0x5a827999"

definition K_20_39 :: u32 where "K_20_39 = 0x6ed9eba1"

definition K_40_59 :: u32 where "K_40_59 = 0x8f1bbcdc"

definition K_60_79 :: u32 where "K_60_79 = 0xca62c1d6"

definition F_00_19 :: "u32 \<Rightarrow> u32 \<Rightarrow> u32 \<Rightarrow> u32" where
  "F_00_19 b c d = ((c XOR d) AND b) XOR d"

definition F_20_39 :: "u32 \<Rightarrow> u32 \<Rightarrow> u32 \<Rightarrow> u32" where
  "F_20_39 b c d = b XOR c XOR d"

definition F_40_59 :: "u32 \<Rightarrow> u32 \<Rightarrow> u32 \<Rightarrow> u32" where
  "F_40_59 b c d = (b AND c) OR ((b OR c) AND d)"

definition F_60_79 :: "u32 \<Rightarrow> u32 \<Rightarrow> u32 \<Rightarrow> u32" where
  "F_60_79 b c d = F_20_39 b c d"

text \<open>The state is the words \<open>X\<close> and the registers \<open>A\<close> to \<open>E\<close> and \<open>T\<close>, numbered 0 to 5.\<close>

type_synonym sha1_state = "u32 list \<times> u32 list"

text \<open>\<open>Xupdate\<close> with \<open>ix\<close> the word that is set and \<open>a\<close> the register that gets it as well.\<close>

definition Xupdate :: "nat \<Rightarrow> nat \<Rightarrow> nat \<Rightarrow> nat \<Rightarrow> nat \<Rightarrow> nat \<Rightarrow> sha1_state \<Rightarrow> sha1_state" where
  "Xupdate a ix ia ib ic idx s =
     (case s of (X, r) \<Rightarrow>
        let v = X ! ia XOR X ! ib XOR X ! ic XOR X ! idx; v = ROTATE v 1 in (X[ix := v], r[a := v]))"

text \<open>
  The calls.  A row has the macro, its registers \<open>a\<close> to \<open>f\<close>, and the numbers of the words that
  follow them.  The words are loaded before the first call; the code loads each one
  before the call that uses it.
\<close>

datatype sha1_macro = BODY_00_15 | BODY_16_19 | BODY_20_31 | BODY_32_39 | BODY_40_59 | BODY_60_79

type_synonym sha1_row = "sha1_macro \<times> (nat \<times> nat \<times> nat \<times> nat \<times> nat \<times> nat) \<times> nat list"

definition body_set :: "(u32 \<Rightarrow> u32 \<Rightarrow> u32 \<Rightarrow> u32) \<Rightarrow> u32 \<Rightarrow> nat \<Rightarrow> nat \<Rightarrow> nat \<Rightarrow> nat \<Rightarrow> nat \<Rightarrow> nat \<Rightarrow> nat \<Rightarrow> sha1_state \<Rightarrow> sha1_state" where
  "body_set F K a b c d e f xi s =
     (case s of (X, r) \<Rightarrow>
        let r = r[f := X ! xi + r ! e + K + ROTATE (r ! a) 5 + F (r ! b) (r ! c) (r ! d)]
        in (X, r[b := ROTATE (r ! b) 30]))"

definition body_add :: "(u32 \<Rightarrow> u32 \<Rightarrow> u32 \<Rightarrow> u32) \<Rightarrow> u32 \<Rightarrow> nat \<Rightarrow> nat \<Rightarrow> nat \<Rightarrow> nat \<Rightarrow> nat \<Rightarrow> nat \<Rightarrow> sha1_state \<Rightarrow> sha1_state" where
  "body_add F K a b c d e f s =
     (case s of (X, r) \<Rightarrow>
        let r = r[f := r ! f + (r ! e + K + ROTATE (r ! a) 5 + F (r ! b) (r ! c) (r ! d))]
        in (X, r[b := ROTATE (r ! b) 30]))"

definition sha1_call :: "sha1_row \<Rightarrow> sha1_state \<Rightarrow> sha1_state" where
  "sha1_call row s =
     (case row of (macro, (a, b, c, d, e, f), x) \<Rightarrow>
        case macro of
          BODY_00_15 \<Rightarrow> body_set F_00_19 K_00_19 a b c d e f (x ! 0) s
        | BODY_16_19 \<Rightarrow> body_add F_00_19 K_00_19 a b c d e f (Xupdate f (x ! 0) (x ! 1) (x ! 2) (x ! 3) (x ! 4) s)
        | BODY_20_31 \<Rightarrow> body_add F_20_39 K_20_39 a b c d e f (Xupdate f (x ! 0) (x ! 1) (x ! 2) (x ! 3) (x ! 4) s)
        | BODY_32_39 \<Rightarrow> body_add F_20_39 K_20_39 a b c d e f (Xupdate f (x ! 0) (x ! 0) (x ! 1) (x ! 2) (x ! 3) s)
        | BODY_40_59 \<Rightarrow> body_add F_40_59 K_40_59 a b c d e f (Xupdate f (x ! 0) (x ! 0) (x ! 1) (x ! 2) (x ! 3) s)
        | BODY_60_79 \<Rightarrow> body_set F_60_79 K_60_79 a b c d e f (x ! 0) (Xupdate f (x ! 0) (x ! 0) (x ! 1) (x ! 2) (x ! 3) s))"

definition sha1_calls :: "sha1_row list" where
  "sha1_calls = [
     (BODY_00_15, (0,1,2,3,4,5), [0]),
     (BODY_00_15, (5,0,1,2,3,4), [1]),
     (BODY_00_15, (4,5,0,1,2,3), [2]),
     (BODY_00_15, (3,4,5,0,1,2), [3]),
     (BODY_00_15, (2,3,4,5,0,1), [4]),
     (BODY_00_15, (1,2,3,4,5,0), [5]),
     (BODY_00_15, (0,1,2,3,4,5), [6]),
     (BODY_00_15, (5,0,1,2,3,4), [7]),
     (BODY_00_15, (4,5,0,1,2,3), [8]),
     (BODY_00_15, (3,4,5,0,1,2), [9]),
     (BODY_00_15, (2,3,4,5,0,1), [10]),
     (BODY_00_15, (1,2,3,4,5,0), [11]),
     (BODY_00_15, (0,1,2,3,4,5), [12]),
     (BODY_00_15, (5,0,1,2,3,4), [13]),
     (BODY_00_15, (4,5,0,1,2,3), [14]),
     (BODY_00_15, (3,4,5,0,1,2), [15]),
     (BODY_16_19, (2,3,4,5,0,1), [0,0,2,8,13]),
     (BODY_16_19, (1,2,3,4,5,0), [1,1,3,9,14]),
     (BODY_16_19, (0,1,2,3,4,5), [2,2,4,10,15]),
     (BODY_16_19, (5,0,1,2,3,4), [3,3,5,11,0]),
     (BODY_20_31, (4,5,0,1,2,3), [4,4,6,12,1]),
     (BODY_20_31, (3,4,5,0,1,2), [5,5,7,13,2]),
     (BODY_20_31, (2,3,4,5,0,1), [6,6,8,14,3]),
     (BODY_20_31, (1,2,3,4,5,0), [7,7,9,15,4]),
     (BODY_20_31, (0,1,2,3,4,5), [8,8,10,0,5]),
     (BODY_20_31, (5,0,1,2,3,4), [9,9,11,1,6]),
     (BODY_20_31, (4,5,0,1,2,3), [10,10,12,2,7]),
     (BODY_20_31, (3,4,5,0,1,2), [11,11,13,3,8]),
     (BODY_20_31, (2,3,4,5,0,1), [12,12,14,4,9]),
     (BODY_20_31, (1,2,3,4,5,0), [13,13,15,5,10]),
     (BODY_20_31, (0,1,2,3,4,5), [14,14,0,6,11]),
     (BODY_20_31, (5,0,1,2,3,4), [15,15,1,7,12]),
     (BODY_32_39, (4,5,0,1,2,3), [0,2,8,13]),
     (BODY_32_39, (3,4,5,0,1,2), [1,3,9,14]),
     (BODY_32_39, (2,3,4,5,0,1), [2,4,10,15]),
     (BODY_32_39, (1,2,3,4,5,0), [3,5,11,0]),
     (BODY_32_39, (0,1,2,3,4,5), [4,6,12,1]),
     (BODY_32_39, (5,0,1,2,3,4), [5,7,13,2]),
     (BODY_32_39, (4,5,0,1,2,3), [6,8,14,3]),
     (BODY_32_39, (3,4,5,0,1,2), [7,9,15,4]),
     (BODY_40_59, (2,3,4,5,0,1), [8,10,0,5]),
     (BODY_40_59, (1,2,3,4,5,0), [9,11,1,6]),
     (BODY_40_59, (0,1,2,3,4,5), [10,12,2,7]),
     (BODY_40_59, (5,0,1,2,3,4), [11,13,3,8]),
     (BODY_40_59, (4,5,0,1,2,3), [12,14,4,9]),
     (BODY_40_59, (3,4,5,0,1,2), [13,15,5,10]),
     (BODY_40_59, (2,3,4,5,0,1), [14,0,6,11]),
     (BODY_40_59, (1,2,3,4,5,0), [15,1,7,12]),
     (BODY_40_59, (0,1,2,3,4,5), [0,2,8,13]),
     (BODY_40_59, (5,0,1,2,3,4), [1,3,9,14]),
     (BODY_40_59, (4,5,0,1,2,3), [2,4,10,15]),
     (BODY_40_59, (3,4,5,0,1,2), [3,5,11,0]),
     (BODY_40_59, (2,3,4,5,0,1), [4,6,12,1]),
     (BODY_40_59, (1,2,3,4,5,0), [5,7,13,2]),
     (BODY_40_59, (0,1,2,3,4,5), [6,8,14,3]),
     (BODY_40_59, (5,0,1,2,3,4), [7,9,15,4]),
     (BODY_40_59, (4,5,0,1,2,3), [8,10,0,5]),
     (BODY_40_59, (3,4,5,0,1,2), [9,11,1,6]),
     (BODY_40_59, (2,3,4,5,0,1), [10,12,2,7]),
     (BODY_40_59, (1,2,3,4,5,0), [11,13,3,8]),
     (BODY_60_79, (0,1,2,3,4,5), [12,14,4,9]),
     (BODY_60_79, (5,0,1,2,3,4), [13,15,5,10]),
     (BODY_60_79, (4,5,0,1,2,3), [14,0,6,11]),
     (BODY_60_79, (3,4,5,0,1,2), [15,1,7,12]),
     (BODY_60_79, (2,3,4,5,0,1), [0,2,8,13]),
     (BODY_60_79, (1,2,3,4,5,0), [1,3,9,14]),
     (BODY_60_79, (0,1,2,3,4,5), [2,4,10,15]),
     (BODY_60_79, (5,0,1,2,3,4), [3,5,11,0]),
     (BODY_60_79, (4,5,0,1,2,3), [4,6,12,1]),
     (BODY_60_79, (3,4,5,0,1,2), [5,7,13,2]),
     (BODY_60_79, (2,3,4,5,0,1), [6,8,14,3]),
     (BODY_60_79, (1,2,3,4,5,0), [7,9,15,4]),
     (BODY_60_79, (0,1,2,3,4,5), [8,10,0,5]),
     (BODY_60_79, (5,0,1,2,3,4), [9,11,1,6]),
     (BODY_60_79, (4,5,0,1,2,3), [10,12,2,7]),
     (BODY_60_79, (3,4,5,0,1,2), [11,13,3,8]),
     (BODY_60_79, (2,3,4,5,0,1), [12,14,4,9]),
     (BODY_60_79, (1,2,3,4,5,0), [13,15,5,10]),
     (BODY_60_79, (0,1,2,3,4,5), [14,0,6,11]),
     (BODY_60_79, (5,0,1,2,3,4), [15,1,7,12])]"

section \<open>The function on blocks and the digest\<close>

definition sha1_block :: "u32 list \<Rightarrow> u8 list \<Rightarrow> u32 list" where
  "sha1_block state data =
     (let X = map (\<lambda>i. c2l_be (drop (4 * i) data)) [0 ..< 16];
          (X, r) = fold sha1_call sha1_calls (X, take 5 state @ [0])
      in [state ! 0 + r ! 4, state ! 1 + r ! 5, state ! 2 + r ! 0, state ! 3 + r ! 1, state ! 4 + r ! 2])"

text \<open>The loop of the code tests its counter at the end; it is only called for one block or more.\<close>

fun sha1_block_data_order :: "u32 list \<Rightarrow> u8 list \<Rightarrow> nat \<Rightarrow> u32 list" where
  "sha1_block_data_order state data 0 = state"
| "sha1_block_data_order state data (Suc num) = sha1_block_data_order (sha1_block state data) (drop 64 data) num"

definition sha1_make_string :: "u32 hash_ctx \<Rightarrow> u8 list option" where
  "sha1_make_string c =
     Some (l2c_be (hc_h c ! 0) @ l2c_be (hc_h c ! 1) @ l2c_be (hc_h c ! 2) @ l2c_be (hc_h c ! 3) @ l2c_be (hc_h c ! 4))"

definition SHA1_Init :: "u32 hash_ctx" where
  "SHA1_Init = \<lparr>hc_h = [0x67452301, 0xefcdab89, 0x98badcfe, 0x10325476, 0xc3d2e1f0],
     hc_Nl = 0, hc_Nh = 0, hc_data = replicate 64 0, hc_num = 0, hc_md_len = 0\<rparr>"

definition SHA1_Update :: "u32 hash_ctx \<Rightarrow> u8 list \<Rightarrow> u32 hash_ctx" where
  "SHA1_Update = HASH_UPDATE sha1_block_data_order"

definition SHA1_Transform :: "u32 hash_ctx \<Rightarrow> u8 list \<Rightarrow> u32 hash_ctx" where
  "SHA1_Transform = HASH_TRANSFORM sha1_block_data_order"

definition SHA1_Final :: "u32 hash_ctx \<Rightarrow> (u8 list option \<times> u32 hash_ctx) option" where
  "SHA1_Final = HASH_FINAL sha1_block_data_order True sha1_make_string"

definition SHA1 :: "u8 list \<Rightarrow> (u8 list option \<times> u32 hash_ctx) option" where
  "SHA1 data = SHA1_Final (SHA1_Update SHA1_Init data)"

section \<open>FIPS 180-4\<close>

definition rotl :: "nat \<Rightarrow> u32 \<Rightarrow> u32" where
  "rotl n x = word_rotl n x"

fun sha1_schedule :: "u32 list \<Rightarrow> nat \<Rightarrow> u32" where
  "sha1_schedule M t =
     (if t < 16 then M ! t
      else rotl 1 (sha1_schedule M (t - 3) XOR sha1_schedule M (t - 8) XOR sha1_schedule M (t - 14) XOR sha1_schedule M (t - 16)))"

declare sha1_schedule.simps [simp del]

definition Parity :: "u32 \<Rightarrow> u32 \<Rightarrow> u32 \<Rightarrow> u32" where
  "Parity x y z = x XOR y XOR z"

definition sha1_f :: "nat \<Rightarrow> u32 \<Rightarrow> u32 \<Rightarrow> u32 \<Rightarrow> u32" where
  "sha1_f t = (if t < 20 then Ch else if t < 40 then Parity else if t < 60 then Maj else Parity)"

definition sha1_K :: "nat \<Rightarrow> u32" where
  "sha1_K t = (if t < 20 then 0x5a827999 else if t < 40 then 0x6ed9eba1 else if t < 60 then 0x8f1bbcdc else 0xca62c1d6)"

definition sha1_round :: "(nat \<Rightarrow> u32) \<Rightarrow> nat \<Rightarrow> u32 list \<Rightarrow> u32 list" where
  "sha1_round W t v =
     (let a = v ! 0; b = v ! 1; c = v ! 2; d = v ! 3; e = v ! 4
      in [rotl 5 a + sha1_f t b c d + e + sha1_K t + W t, a, rotl 30 b, c, d])"

definition sha1_compress :: "u32 list \<Rightarrow> u8 list \<Rightarrow> u32 list" where
  "sha1_compress H block = map2 (+) H (fold (sha1_round (sha1_schedule (words_of 4 block))) [0 ..< 80] H)"

section \<open>The calls compute it\<close>

lemma ROTATE_rotl: "0 < n \<Longrightarrow> n < 32 \<Longrightarrow> ROTATE x n = rotl n x"
proof (rule bit_word_eqI)
  fix k assume "0 < n" "n < 32" "k < LENGTH(32)"
  moreover have "(k + 32 - n) mod 32 = (if k < n then k + 32 - n else k - n)"
    using calculation by (auto simp: le_mod_geq)
  ultimately show "bit (ROTATE x n) k = bit (rotl n x) k"
    by (auto simp: ROTATE_def rotl_def bit_simps add.commute [of k 32] dest: bit_imp_le_length)
qed

definition sha1_row_of :: "nat \<Rightarrow> sha1_row" where
  "sha1_row_of t =
     (if t < 16 then BODY_00_15 else if t < 20 then BODY_16_19 else if t < 32 then BODY_20_31
      else if t < 40 then BODY_32_39 else if t < 60 then BODY_40_59 else BODY_60_79,
      (5 * t mod 6, (1 + 5 * t) mod 6, (2 + 5 * t) mod 6, (3 + 5 * t) mod 6, (4 + 5 * t) mod 6, (5 + 5 * t) mod 6),
      if t < 16 then [t]
      else (if t < 32 then [t mod 16] else []) @ [t mod 16, (t + 2) mod 16, (t + 8) mod 16, (t + 13) mod 16])"

lemma sha1_rows: "sha1_calls = map sha1_row_of [0 ..< 80]"
  by code_simp

text \<open>The values of the registers in the order in which call \<open>t\<close> names them, and the state before it.\<close>

definition sha1_named :: "nat \<Rightarrow> u32 list \<Rightarrow> u32 list" where
  "sha1_named t r = map (\<lambda>i. r ! ((i + 5 * t) mod 6)) [0 ..< 5]"

definition sha1_after :: "(nat \<Rightarrow> u32) \<Rightarrow> u32 list \<Rightarrow> nat \<Rightarrow> sha1_state \<Rightarrow> bool" where
  "sha1_after W H t s \<longleftrightarrow> length (snd s) = 6 \<and> sha1_named t (snd s) = fold (sha1_round W) [0 ..< t] H \<and>
     window W (if t < 16 then 16 else t) (fst s)"

lemma length_six: "length r = 6 \<Longrightarrow> \<exists>a b c d e f. r = [a, b, c, d, e, f]"
  by (simp add: numeral_eq_Suc length_Suc_conv) blast

lemma less_six: "j < 6 \<longleftrightarrow> j = 0 \<or> j = 1 \<or> j = 2 \<or> j = 3 \<or> j = 4 \<or> j = 5" for j :: nat
  by (auto simp: less_Suc_eq numeral_eq_Suc)

lemma reg_mod: "(i + 5 * t) mod 6 = (i + 5 * (t mod 6)) mod (6 :: nat)"
  by (metis mod_add_right_eq mod_mult_right_eq)

lemma sha1_named_mod: "sha1_named (t mod 6) r = sha1_named t r" "sha1_named (Suc (t mod 6)) r = sha1_named (Suc t) r"
proof -
  show 1: "sha1_named (t mod 6) r = sha1_named t r" for t
    unfolding sha1_named_def using reg_mod [of _ t] by simp
  show "sha1_named (Suc (t mod 6)) r = sha1_named (Suc t) r"
    using 1 [of "Suc t"] 1 [of "Suc (t mod 6)"] by (simp add: mod_Suc_eq)
qed

text \<open>One call, with the register that gets the result and the other five.\<close>

definition sha1_new :: "(u32 \<Rightarrow> u32 \<Rightarrow> u32 \<Rightarrow> u32) \<Rightarrow> u32 \<Rightarrow> u32 \<Rightarrow> u32 list \<Rightarrow> u32 list" where
  "sha1_new F K w v = [rotl 5 (v ! 0) + F (v ! 1) (v ! 2) (v ! 3) + v ! 4 + K + w, v ! 0, rotl 30 (v ! 1), v ! 2, v ! 3]"

lemmas sha1_body = Let_def sha1_named_def sha1_new_def upt_conv_Cons ROTATE_rotl add_ac

lemma body_set_row:
  assumes r: "length r = 6" and j: "j < 6"
  shows "sha1_named (Suc j) (snd (body_set F K (5 * j mod 6) ((1 + 5 * j) mod 6) ((2 + 5 * j) mod 6) ((3 + 5 * j) mod 6)
      ((4 + 5 * j) mod 6) ((5 + 5 * j) mod 6) xi (X, r))) = sha1_new F K (X ! xi) (sha1_named j r)"
proof -
  obtain a b c d e f where abc: "r = [a, b, c, d, e, f]" using length_six [OF r] by blast
  from j have "j = 0 \<or> j = 1 \<or> j = 2 \<or> j = 3 \<or> j = 4 \<or> j = 5" by (simp only: less_six)
  then show ?thesis
    by (elim disjE) (simp_all add: body_set_def abc sha1_body)
qed

lemma body_add_row:
  assumes r: "length r = 6" and j: "j < 6"
  shows "sha1_named (Suc j) (snd (body_add F K (5 * j mod 6) ((1 + 5 * j) mod 6) ((2 + 5 * j) mod 6) ((3 + 5 * j) mod 6)
      ((4 + 5 * j) mod 6) ((5 + 5 * j) mod 6) (X, r[(5 + 5 * j) mod 6 := w]))) = sha1_new F K w (sha1_named j r)"
proof -
  obtain a b c d e f where abc: "r = [a, b, c, d, e, f]" using length_six [OF r] by blast
  from j have "j = 0 \<or> j = 1 \<or> j = 2 \<or> j = 3 \<or> j = 4 \<or> j = 5" by (simp only: less_six)
  then show ?thesis
    by (elim disjE) (simp_all add: body_add_def abc sha1_body)
qed

lemma body_rest [simp]:
  "fst (body_set F K a b c d e f xi s) = fst s" "length (snd (body_set F K a b c d e f xi s)) = length (snd s)"
  "fst (body_add F K a b c d e f s) = fst s" "length (snd (body_add F K a b c d e f s)) = length (snd s)"
  by (simp_all add: body_set_def body_add_def Let_def split_beta)

text \<open>The words.\<close>

lemma sha1_schedule_start: "t < 16 \<Longrightarrow> sha1_schedule M t = M ! t"
  by (simp add: sha1_schedule.simps)

lemma window_sha1:
  assumes "window (sha1_schedule M) t X" and "16 \<le> t"
  shows "ROTATE (X ! (t mod 16) XOR X ! ((t + 2) mod 16) XOR X ! ((t + 8) mod 16) XOR X ! ((t + 13) mod 16)) 1 = sha1_schedule M t"
proof -
  have "X ! (t mod 16) = sha1_schedule M (t - 16)" "X ! ((t + 2) mod 16) = sha1_schedule M (t - 14)"
    "X ! ((t + 8) mod 16) = sha1_schedule M (t - 8)" "X ! ((t + 13) mod 16) = sha1_schedule M (t - 3)"
    using window_nth [OF assms, of 0] window_nth [OF assms, of 2] window_nth [OF assms, of 8] window_nth [OF assms, of 13] assms(2)
    by simp_all
  then show ?thesis using assms(2) by (simp add: sha1_schedule.simps [of M t] ROTATE_rotl xor.assoc xor.commute xor.left_commute)
qed

text \<open>One call.\<close>

lemma sha1_named_temp: "length r = 6 \<Longrightarrow> j < 6 \<Longrightarrow> sha1_named j (r[(5 + 5 * j) mod 6 := w]) = sha1_named j r"
  unfolding less_six by (elim disjE) (auto dest!: length_six simp: sha1_named_def upt_conv_Cons)

lemma F_functions: "F_00_19 = Ch" "F_20_39 = Parity" "F_40_59 = Maj" "F_60_79 = Parity"
proof -
  show "F_00_19 = Ch" "F_40_59 = Maj"
    by (rule ext, rule ext, rule ext, rule bit_word_eqI, auto simp: F_00_19_def F_40_59_def Ch_def Maj_def bit_simps)+
  show "F_20_39 = Parity" "F_60_79 = Parity"
    by (rule ext, rule ext, rule ext, simp add: F_20_39_def F_60_79_def Parity_def)+
qed

lemma sha1_round_new: "sha1_round W t v = sha1_new (sha1_f t) (sha1_K t) (W t) v"
  by (simp add: sha1_round_def sha1_new_def Let_def ac_simps)

text \<open>Both bodies after the update of the words.\<close>

lemma sha1_call_late:
  assumes t: "16 \<le> t" "t < 80"
  shows "sha1_call (sha1_row_of t) (X, r) =
    (let w = ROTATE (X ! (t mod 16) XOR X ! ((t + 2) mod 16) XOR X ! ((t + 8) mod 16) XOR X ! ((t + 13) mod 16)) 1;
         s = (X[t mod 16 := w], r[(5 + 5 * t) mod 6 := w])
     in if t < 60
        then body_add (sha1_f t) (sha1_K t) (5 * t mod 6) ((1 + 5 * t) mod 6) ((2 + 5 * t) mod 6) ((3 + 5 * t) mod 6)
          ((4 + 5 * t) mod 6) ((5 + 5 * t) mod 6) s
        else body_set (sha1_f t) (sha1_K t) (5 * t mod 6) ((1 + 5 * t) mod 6) ((2 + 5 * t) mod 6) ((3 + 5 * t) mod 6)
          ((4 + 5 * t) mod 6) ((5 + 5 * t) mod 6) (t mod 16) s)"
  using t
  by (auto simp: sha1_call_def sha1_row_of_def Xupdate_def Let_def sha1_f_def sha1_K_def F_functions
      K_00_19_def K_20_39_def K_40_59_def K_60_79_def xor.assoc)

lemma sha1_call_early:
  "t < 16 \<Longrightarrow> sha1_call (sha1_row_of t) s =
     body_set (sha1_f t) (sha1_K t) (5 * t mod 6) ((1 + 5 * t) mod 6) ((2 + 5 * t) mod 6) ((3 + 5 * t) mod 6)
          ((4 + 5 * t) mod 6) ((5 + 5 * t) mod 6) t s"
  by (simp add: sha1_call_def sha1_row_of_def sha1_f_def sha1_K_def F_functions K_00_19_def)

lemma reg_mods:
  "5 * t mod 6 = 5 * (t mod 6) mod (6 :: nat)" "(1 + 5 * t) mod 6 = (1 + 5 * (t mod 6)) mod (6 :: nat)"
  "(2 + 5 * t) mod 6 = (2 + 5 * (t mod 6)) mod (6 :: nat)" "(3 + 5 * t) mod 6 = (3 + 5 * (t mod 6)) mod (6 :: nat)"
  "(4 + 5 * t) mod 6 = (4 + 5 * (t mod 6)) mod (6 :: nat)" "(5 + 5 * t) mod 6 = (5 + 5 * (t mod 6)) mod (6 :: nat)"
  using reg_mod [of 0 t] by (simp only: add_0) (rule reg_mod)+

lemma body_set_round:
  assumes "length r = 6" and "X ! xi = W t"
  shows "sha1_named (Suc t) (snd (body_set (sha1_f t) (sha1_K t) (5 * t mod 6) ((1 + 5 * t) mod 6) ((2 + 5 * t) mod 6)
      ((3 + 5 * t) mod 6) ((4 + 5 * t) mod 6) ((5 + 5 * t) mod 6) xi (X, r))) = sha1_round W t (sha1_named t r)"
  using body_set_row [OF assms(1), of "t mod 6" "sha1_f t" "sha1_K t" xi X] assms(2)
  by (simp only: sha1_round_new sha1_named_mod reg_mods [of t, symmetric])

lemma body_add_round:
  assumes "length r = 6" and "w = W t"
  shows "sha1_named (Suc t) (snd (body_add (sha1_f t) (sha1_K t) (5 * t mod 6) ((1 + 5 * t) mod 6) ((2 + 5 * t) mod 6)
      ((3 + 5 * t) mod 6) ((4 + 5 * t) mod 6) ((5 + 5 * t) mod 6) (X, r[(5 + 5 * t) mod 6 := w]))) = sha1_round W t (sha1_named t r)"
  using body_add_row [OF assms(1), of "t mod 6" "sha1_f t" "sha1_K t" X w] assms(2)
  by (simp only: sha1_round_new sha1_named_mod reg_mods [of t, symmetric])

lemma sha1_step:
  assumes t: "t < 80" and s: "sha1_after (sha1_schedule M) H t s"
  shows "sha1_after (sha1_schedule M) H (Suc t) (sha1_call (sha1_row_of t) s)"
proof (cases "t < 16")
  case True
  have "fst s ! t = sha1_schedule M t" using s True by (simp add: sha1_after_def window_def)
  moreover have "window (sha1_schedule M) (if Suc t < 16 then 16 else Suc t) (fst s)"
    using s True by (cases "t = 15") (simp_all add: sha1_after_def)
  ultimately show ?thesis
    using s True body_set_round [of "snd s" "fst s" t "sha1_schedule M" t]
    by (simp add: sha1_after_def sha1_call_early)
next
  case False
  define w where "w = ROTATE (fst s ! (t mod 16) XOR fst s ! ((t + 2) mod 16) XOR fst s ! ((t + 8) mod 16) XOR fst s ! ((t + 13) mod 16)) 1"
  have win: "window (sha1_schedule M) t (fst s)" and len: "length (snd s) = 6" using s False by (simp_all add: sha1_after_def)
  have w: "w = sha1_schedule M t" unfolding w_def using window_sha1 [OF win] False by simp
  let ?X = "(fst s)[t mod 16 := w]" and ?r = "(snd s)[(5 + 5 * t) mod 6 := w]"
  have X: "window (sha1_schedule M) (Suc t) ?X" using window_step [OF win] False by (simp add: w)
  moreover have "?X ! (t mod 16) = sha1_schedule M t" using win by (simp add: window_def w)
  moreover have "sha1_named t ?r = sha1_named t (snd s)"
    using sha1_named_temp [of "snd s" "t mod 6" w] len by (simp only: sha1_named_mod reg_mods [of t, symmetric])
  moreover note call = sha1_call_late [of t "fst s" "snd s", unfolded Let_def w_def [symmetric] prod.collapse]
  ultimately show ?thesis
    using s False t len w call body_add_round [of "snd s" w "sha1_schedule M" t ?X]
      body_set_round [of ?r ?X "t mod 16" "sha1_schedule M" t]
    by (simp add: sha1_after_def)
qed

lemma sha1_block:
  assumes "length H = 5" and "64 \<le> length data"
  shows "sha1_block H data = sha1_compress H data"
proof -
  let ?W = "sha1_schedule (words_of 4 data)"
  define s0 where "s0 = (map (\<lambda>i. c2l_be (drop (4 * i) data)) [0 ..< 16], take 5 H @ [0])"
  have "c2l_be (drop (4 * i) data) = ?W i" if "i < 16" for i
    using assms(2) that by (simp add: c2l_be_word sha1_schedule_start words_of_nth)
  then have "map (\<lambda>i. c2l_be (drop (4 * i) data)) [0 ..< 16] = map ?W [0 ..< 16]" by (intro map_cong) simp_all
  then have s0: "s0 = (map ?W [0 ..< 16], H @ [0])" unfolding s0_def using assms(1) by (simp only: take_all)
  obtain a b c d e where H: "H = [a, b, c, d, e]"
    using assms(1) by (auto simp: numeral_eq_Suc length_Suc_conv)
  have "window ?W 16 (map ?W [0 ..< 16])" by (simp add: window_def)
  moreover have "sha1_named 0 (H @ [0]) = H" by (simp add: H sha1_named_def upt_conv_Cons)
  ultimately have "sha1_after ?W H 0 s0"
    using assms(1) unfolding s0 by (simp add: sha1_after_def del: upt_Suc)
  then have after: "n \<le> 80 \<Longrightarrow> sha1_after ?W H n (fold (sha1_call \<circ> sha1_row_of) [0 ..< n] s0)" for n
    by (induction n) (simp_all add: sha1_step)
  define s where "s = fold sha1_call sha1_calls s0"
  have "sha1_after ?W H 80 s" using after [of 80] by (simp only: s_def sha1_rows fold_map order_refl)
  then have r: "length (snd s) = 6" "sha1_named 80 (snd s) = fold (sha1_round ?W) [0 ..< 80] H"
    by (simp_all add: sha1_after_def)
  then have "fold (sha1_round ?W) [0 ..< 80] H = [snd s ! 4, snd s ! 5, snd s ! 0, snd s ! 1, snd s ! 2]"
    by (simp add: sha1_named_def upt_conv_Cons)
  moreover have "sha1_block H data = [H ! 0 + snd s ! 4, H ! 1 + snd s ! 5, H ! 2 + snd s ! 0, H ! 3 + snd s ! 1, H ! 4 + snd s ! 2]"
    by (simp only: sha1_block_def Let_def s0_def [symmetric] s_def [symmetric] split_beta)
  ultimately show ?thesis by (simp add: sha1_compress_def H)
qed

section \<open>The digest\<close>

definition sha1_digest :: "u8 list \<Rightarrow> u8 list" where
  "sha1_digest m = concat (map (\<lambda>w. be_bytes 4 (unat w))
     (hash_blocks 64 sha1_compress [0x67452301, 0xefcdab89, 0x98badcfe, 0x10325476, 0xc3d2e1f0] (pad 64 8 (be_bytes 8) m)))"

lemma length_sha1_compress: "length H = 5 \<Longrightarrow> length (sha1_compress H b) = 5"
proof -
  have "length H = 5 \<Longrightarrow> length (fold (sha1_round W) ts H) = 5" for W ts
    by (induction ts arbitrary: H) (simp_all add: sha1_round_def Let_def)
  then show "length H = 5 \<Longrightarrow> length (sha1_compress H b) = 5" by (simp add: sha1_compress_def)
qed

lemma sha1_block_take: "64 \<le> length d \<Longrightarrow> sha1_block H (take 64 d) = sha1_block H d"
proof -
  assume "64 \<le> length d"
  then have "map (\<lambda>i. c2l_be (drop (4 * i) (take 64 d))) [0 ..< 16] = map (\<lambda>i. c2l_be (drop (4 * i) d)) [0 ..< 16]"
    by (intro map_cong) (simp_all add: c2l_be_def)
  then show ?thesis by (simp only: sha1_block_def)
qed

lemma sha1_works: "works_on_blocks HASH_CBLOCK sha1_block sha1_block_data_order"
  by (rule block_order_works) (simp_all add: HASH_CBLOCK_def sha1_block_take)

abbreviation sha1_start :: "u32 list" where
  "sha1_start \<equiv> [0x67452301, 0xefcdab89, 0x98badcfe, 0x10325476, 0xc3d2e1f0]"

interpretation sha1: digest SHA1_Update SHA1_Final "absorbed HASH_CBLOCK sha1_block sha1_start" sha1_digest
proof
  fix c m x assume s: "absorbed HASH_CBLOCK sha1_block sha1_start c m"
  then show "absorbed HASH_CBLOCK sha1_block sha1_start (SHA1_Update c x) (m @ x)"
    using HASH_UPDATE_absorbs [OF sha1_works] by (simp add: SHA1_Update_def)
  obtain c' where c': "SHA1_Final c = Some (sha1_make_string c', c')"
      "hc_h c' = hash_blocks HASH_CBLOCK sha1_block sha1_start (pad HASH_CBLOCK 8 (be_bytes 8) m)"
    using HASH_FINAL_digest [OF sha1_works s, of True sha1_make_string] by (auto simp: SHA1_Final_def)
  have h: "hc_h c' = hash_blocks 64 sha1_compress sha1_start (pad 64 8 (be_bytes 8) m)"
    unfolding c'(2) HASH_CBLOCK_def by (rule hash_blocks_cong [where n = 5]) (simp_all add: sha1_block length_sha1_compress)
  then have "length (hc_h c') = 5"
    using length_hash_blocks [of 64 5 sha1_compress sha1_start] by (simp add: length_sha1_compress)
  then obtain v0 v1 v2 v3 v4 where "hc_h c' = [v0, v1, v2, v3, v4]"
    by (auto simp: numeral_eq_Suc length_Suc_conv simp del: upt_Suc)
  then have "sha1_make_string c' = Some (sha1_digest m)"
    using h by (simp add: sha1_make_string_def sha1_digest_def l2c_bytes del: be_bytes.simps)
  then show "\<exists>c'. SHA1_Final c = Some (Some (sha1_digest m), c')" using c'(1) by simp
qed

text \<open>
  C38: SHA-1 of a message that arrives in any pieces, empty ones included, is the digest of FIPS 180-4
  of the whole message, and the final function never fails; so does the call for a whole message.
\<close>
theorem SHA1_pieces:
  "\<exists>c c'. SHA1_Final (foldl SHA1_Update SHA1_Init pieces) = Some (Some (sha1_digest (concat pieces)), c) \<and>
     SHA1 data = Some (Some (sha1_digest data), c')"
proof -
  have "absorbed HASH_CBLOCK sha1_block sha1_start SHA1_Init []"
    by (rule absorbed_init) (simp_all add: SHA1_Init_def HASH_CBLOCK_def)
  from sha1.pieces_hash [OF this, of pieces] sha1.pieces_hash [OF this, of "[data]"] show ?thesis
    by (simp add: SHA1_def)
qed

end
