(* ===== verification/Md5_Sines.thy ===== *)
theory Md5_Sines
  imports Complex_Main
begin

text \<open>
  The constants of MD5 are the first 32 bits of the sines of the numbers 1 to 64.  A test that
  computes with integers: the points on the unit circle at a scale of 56 bits, with a
  bound of their error, from one number to the next by a rotation.
\<close>

definition fixed_one :: int where
  "fixed_one = 2 ^ 56"

definition fixed_sin1 :: int where
  "fixed_sin1 = 60634374617982832"

definition fixed_cos1 :: int where
  "fixed_cos1 = 38932884214002780"

fun are_sines :: "int \<Rightarrow> int \<Rightarrow> int \<Rightarrow> int list \<Rightarrow> bool" where
  "are_sines S C e [] \<longleftrightarrow> True"
| "are_sines S C e (t # ts) \<longleftrightarrow>
     e \<le> fixed_one \<and> t * 2 ^ 24 + e \<le> \<bar>S\<bar> \<and> \<bar>S\<bar> + e < (t + 1) * 2 ^ 24 \<and>
     are_sines (drop_bit 56 (S * fixed_cos1 + C * fixed_sin1)) (drop_bit 56 (C * fixed_cos1 - S * fixed_sin1)) (e + 10) ts"

section \<open>The first point\<close>

lemma near_series:
  assumes "\<bar>y - q\<bar> \<le> 1 / fact 20" and "\<bar>real_of_int fixed_one * q - real_of_int v\<bar> \<le> 1"
  shows "\<bar>real_of_int fixed_one * y - real_of_int v\<bar> \<le> 2"
proof -
  have "0 \<le> real_of_int fixed_one" by (simp add: fixed_one_def)
  then have "\<bar>real_of_int fixed_one * y - real_of_int fixed_one * q\<bar> = real_of_int fixed_one * \<bar>y - q\<bar>"
    by (simp only: right_diff_distrib [symmetric] abs_mult abs_of_nonneg)
  also have "\<dots> \<le> real_of_int fixed_one * (1 / fact 20)"
    using assms(1) by (rule mult_left_mono) (simp add: fixed_one_def)
  also have "\<dots> \<le> 1" by (simp add: fixed_one_def fact_numeral)
  finally show ?thesis using assms(2) by linarith
qed

lemma near_sin1: "\<bar>real_of_int fixed_one * sin 1 - real_of_int fixed_sin1\<bar> \<le> 2"
proof (rule near_series)
  have "\<bar>sin (1 :: real) - (\<Sum>m<20. sin_coeff m * 1 ^ m)\<bar> \<le> inverse (fact 20) * \<bar>1\<bar> ^ 20"
    by (rule Maclaurin_sin_bound)
  then show "\<bar>sin (1 :: real) - (\<Sum>m<20. sin_coeff m)\<bar> \<le> 1 / fact 20" by (simp add: field_simps)
  show "\<bar>real_of_int fixed_one * (\<Sum>m<20. sin_coeff m) - real_of_int fixed_sin1\<bar> \<le> 1"
    unfolding fixed_one_def fixed_sin1_def sin_coeff_def by (simp add: lessThan_nat_numeral lessThan_Suc fact_numeral)
qed

lemma near_cos1: "\<bar>real_of_int fixed_one * cos 1 - real_of_int fixed_cos1\<bar> \<le> 2"
proof (rule near_series)
  obtain t where "cos 1 = (\<Sum>m<20. cos_coeff m * 1 ^ m) + cos (t + 1 / 2 * real 20 * pi) / fact 20 * 1 ^ 20"
    using Maclaurin_cos_expansion [of 1 20] by blast
  then have "cos 1 - (\<Sum>m<20. cos_coeff m) = cos (t + 1 / 2 * real 20 * pi) / fact 20" by simp
  moreover have "\<bar>cos (t + 1 / 2 * real 20 * pi) / fact 20\<bar> \<le> 1 / fact 20"
    unfolding abs_divide abs_of_nonneg [OF fact_ge_zero] by (rule divide_right_mono [OF abs_cos_le_one fact_ge_zero])
  ultimately show "\<bar>cos (1 :: real) - (\<Sum>m<20. cos_coeff m)\<bar> \<le> 1 / fact 20" by (simp only:)
  show "\<bar>real_of_int fixed_one * (\<Sum>m<20. cos_coeff m) - real_of_int fixed_cos1\<bar> \<le> 1"
    unfolding fixed_one_def fixed_cos1_def cos_coeff_def by (simp add: lessThan_nat_numeral lessThan_Suc fact_numeral)
qed

section \<open>Rotations\<close>

definition near :: "real \<Rightarrow> int \<Rightarrow> int \<Rightarrow> int \<Rightarrow> bool" where
  "near x S C e \<longleftrightarrow> cmod (of_int fixed_one * cis x - Complex (of_int C) (of_int S)) \<le> of_int e"

lemma near1: "near 1 fixed_sin1 fixed_cos1 4"
  using near_sin1 near_cos1 cmod_le [of "of_int fixed_one * cis 1 - Complex (of_int fixed_cos1) (of_int fixed_sin1)"]
  by (simp add: near_def)

lemma drop_bit_near: "\<bar>real_of_int v / real_of_int fixed_one - real_of_int (drop_bit 56 v)\<bar> \<le> 1"
proof -
  have "drop_bit 56 v = v div fixed_one" by (simp add: drop_bit_eq_div fixed_one_def)
  then show ?thesis using real_of_int_div4 [of v fixed_one] real_of_int_div3 [of v fixed_one] by simp
qed

lemma near_step:
  assumes n: "near x S C e" and e: "e \<le> fixed_one"
  shows "near (x + 1) (drop_bit 56 (S * fixed_cos1 + C * fixed_sin1)) (drop_bit 56 (C * fixed_cos1 - S * fixed_sin1)) (e + 10)"
proof -
  define P where "P = real_of_int fixed_one"
  define Z where "Z = Complex (of_int C) (of_int S)"
  define Z1 where "Z1 = Complex (of_int fixed_cos1) (of_int fixed_sin1)"
  define Z2 where "Z2 = Complex (of_int (C * fixed_cos1 - S * fixed_sin1) / P) (of_int (S * fixed_cos1 + C * fixed_sin1) / P)"
  define W where "W = Complex (of_int (drop_bit 56 (C * fixed_cos1 - S * fixed_sin1))) (of_int (drop_bit 56 (S * fixed_cos1 + C * fixed_sin1)))"
  have P: "0 < P" by (simp add: P_def fixed_one_def)
  have z: "cmod (of_real P * cis x - Z) \<le> of_int e" "cmod (of_real P * cis 1 - Z1) \<le> 4"
    using n near1 by (simp_all add: near_def P_def Z_def Z1_def)
  have eP: "real_of_int e \<le> P" using e by (simp add: P_def)
  have "cmod Z \<le> cmod (of_real P * cis x) + cmod (of_real P * cis x - Z)"
    using norm_triangle_sub [of Z "of_real P * cis x"] by (simp add: norm_minus_commute)
  then have "cmod Z \<le> 2 * P" using z(1) eP P by (simp add: norm_mult)
  then have zz: "cmod Z * cmod (of_real P * cis 1 - Z1) \<le> 2 * P * 4"
    using z(2) P by (intro mult_mono) simp_all
  have Z2: "of_real P * Z2 = Z * Z1"
    using P by (simp add: Z2_def Z_def Z1_def complex_eq_iff)
  have "of_real P * (of_real P * cis (x + 1) - Z2) = (of_real P * cis x - Z) * (of_real P * cis 1) + Z * (of_real P * cis 1 - Z1)"
    by (simp add: right_diff_distrib left_diff_distrib Z2 cis_mult [symmetric] mult.assoc mult.left_commute)
  then have "P * cmod (of_real P * cis (x + 1) - Z2) = cmod ((of_real P * cis x - Z) * (of_real P * cis 1) + Z * (of_real P * cis 1 - Z1))"
    using P by (metis norm_mult norm_of_real abs_of_pos)
  also have "\<dots> \<le> cmod ((of_real P * cis x - Z) * (of_real P * cis 1)) + cmod (Z * (of_real P * cis 1 - Z1))"
    by (rule norm_triangle_ineq)
  also have "\<dots> = cmod (of_real P * cis x - Z) * P + cmod Z * cmod (of_real P * cis 1 - Z1)"
    using P by (simp add: norm_mult)
  also have "\<dots> \<le> of_int e * P + 2 * P * 4"
    by (rule add_mono [OF mult_right_mono [OF z(1)] zz]) (use P in simp)
  also have "\<dots> = P * (of_int e + 8)" by (simp add: algebra_simps)
  finally have near2: "cmod (of_real P * cis (x + 1) - Z2) \<le> of_int e + 8" using P by simp
  have "cmod (Z2 - W) \<le> \<bar>Re (Z2 - W)\<bar> + \<bar>Im (Z2 - W)\<bar>" by (rule cmod_le)
  also have "\<dots> \<le> 1 + 1"
    unfolding Z2_def W_def P_def minus_complex.sel complex.sel by (rule add_mono [OF drop_bit_near drop_bit_near])
  finally have "cmod (of_real P * cis (x + 1) - W) \<le> of_int e + 10"
    using near2 norm_triangle_ineq [of "of_real P * cis (x + 1) - Z2" "Z2 - W"] by simp
  then show ?thesis by (simp add: near_def W_def P_def)
qed

lemma are_sines:
  "are_sines S C e ts \<Longrightarrow> near x S C e \<Longrightarrow> i < length ts \<Longrightarrow> ts ! i = \<lfloor>2 ^ 32 * \<bar>sin (x + real i)\<bar>\<rfloor>"
proof (induction S C e ts arbitrary: x i rule: are_sines.induct)
  case (2 S C e t ts)
  show ?case
  proof (cases i)
    case 0
    have "real_of_int (t * 2 ^ 24 + e) \<le> real_of_int \<bar>S\<bar>" "real_of_int (\<bar>S\<bar> + e) < real_of_int ((t + 1) * 2 ^ 24)"
      using 2(2) by (simp_all only: of_int_le_iff of_int_less_iff are_sines.simps)
    then have "real_of_int t * 2 ^ 24 + real_of_int e \<le> \<bar>real_of_int S\<bar>" "\<bar>real_of_int S\<bar> + real_of_int e < (real_of_int t + 1) * 2 ^ 24"
      by simp_all
    moreover have "\<bar>real_of_int fixed_one * sin x - real_of_int S\<bar> \<le> real_of_int e"
      using 2(3) abs_Im_le_cmod [of "of_int fixed_one * cis x - Complex (of_int C) (of_int S)"] by (simp add: near_def)
    then have "\<bar>real_of_int fixed_one * \<bar>sin x\<bar> - \<bar>real_of_int S\<bar>\<bar> \<le> real_of_int e"
      unfolding fixed_one_def by (auto simp: abs_if split: if_splits)
    ultimately have "real_of_int t \<le> 2 ^ 32 * \<bar>sin x\<bar>" "2 ^ 32 * \<bar>sin x\<bar> < real_of_int t + 1"
      unfolding fixed_one_def by simp_all
    then show ?thesis using 0 by (simp add: floor_unique)
  next
    case (Suc k)
    have "e \<le> fixed_one" using 2(2) by simp
    from near_step [OF 2(3) this] 2(1) [of "x + 1" k] 2(2,4) Suc show ?thesis by (simp add: ac_simps)
  qed
qed simp

end
