(* ===== verification/Md45.thy ===== *)
theory Md45
  imports Sha1 Md5_Sines
begin

text \<open>
  \<open>crypto/fipsmodule/md4/md4.c\<close> and \<open>md5/md5.c\<close>.  The rounds are tables with one row for each macro call
  of the code, in its order: the macro, the registers, the word, the rotation and the constant.
  The specifications are the ones of RFC 1320 and RFC 1321.
\<close>

section \<open>MD5\<close>

definition F_md5 :: "u32 \<Rightarrow> u32 \<Rightarrow> u32 \<Rightarrow> u32" where
  "F_md5 b c d = ((c XOR d) AND b) XOR d"

definition G_md5 :: "u32 \<Rightarrow> u32 \<Rightarrow> u32 \<Rightarrow> u32" where
  "G_md5 b c d = ((b XOR c) AND d) XOR c"

definition H_md5 :: "u32 \<Rightarrow> u32 \<Rightarrow> u32 \<Rightarrow> u32" where
  "H_md5 b c d = b XOR c XOR d"

definition I_md5 :: "u32 \<Rightarrow> u32 \<Rightarrow> u32 \<Rightarrow> u32" where
  "I_md5 b c d = (NOT d OR b) XOR c"

datatype md_macro = R0 | R1 | R2 | R3

text \<open>
  A row has the macro, the registers in the order of its arguments, the word, the rotation and the
  constant; the registers \<open>A\<close> to \<open>D\<close> have the numbers 0 to 3.  A call changes the register that
  its first argument names.  The words are loaded before the first call; the code loads
  each one before the call that uses it.
\<close>

type_synonym md_row = "md_macro \<times> (nat \<times> nat \<times> nat \<times> nat) \<times> nat \<times> nat \<times> u32"

definition md5_call :: "u32 list \<Rightarrow> md_row \<Rightarrow> u32 list \<Rightarrow> u32 list" where
  "md5_call X row r =
     (case row of (macro, (a, b, c, d), k, s, t) \<Rightarrow>
        let F = (case macro of R0 \<Rightarrow> F_md5 | R1 \<Rightarrow> G_md5 | R2 \<Rightarrow> H_md5 | R3 \<Rightarrow> I_md5);
            r = r[a := r ! a + (X ! k + t + F (r ! b) (r ! c) (r ! d))];
            r = r[a := ROTATE (r ! a) s]
        in r[a := r ! a + r ! b])"

definition md5_calls :: "md_row list" where
  "md5_calls = [
     (R0, (0,1,2,3), 0, 7, 0xd76aa478),
     (R0, (3,0,1,2), 1, 12, 0xe8c7b756),
     (R0, (2,3,0,1), 2, 17, 0x242070db),
     (R0, (1,2,3,0), 3, 22, 0xc1bdceee),
     (R0, (0,1,2,3), 4, 7, 0xf57c0faf),
     (R0, (3,0,1,2), 5, 12, 0x4787c62a),
     (R0, (2,3,0,1), 6, 17, 0xa8304613),
     (R0, (1,2,3,0), 7, 22, 0xfd469501),
     (R0, (0,1,2,3), 8, 7, 0x698098d8),
     (R0, (3,0,1,2), 9, 12, 0x8b44f7af),
     (R0, (2,3,0,1), 10, 17, 0xffff5bb1),
     (R0, (1,2,3,0), 11, 22, 0x895cd7be),
     (R0, (0,1,2,3), 12, 7, 0x6b901122),
     (R0, (3,0,1,2), 13, 12, 0xfd987193),
     (R0, (2,3,0,1), 14, 17, 0xa679438e),
     (R0, (1,2,3,0), 15, 22, 0x49b40821),
     (R1, (0,1,2,3), 1, 5, 0xf61e2562),
     (R1, (3,0,1,2), 6, 9, 0xc040b340),
     (R1, (2,3,0,1), 11, 14, 0x265e5a51),
     (R1, (1,2,3,0), 0, 20, 0xe9b6c7aa),
     (R1, (0,1,2,3), 5, 5, 0xd62f105d),
     (R1, (3,0,1,2), 10, 9, 0x02441453),
     (R1, (2,3,0,1), 15, 14, 0xd8a1e681),
     (R1, (1,2,3,0), 4, 20, 0xe7d3fbc8),
     (R1, (0,1,2,3), 9, 5, 0x21e1cde6),
     (R1, (3,0,1,2), 14, 9, 0xc33707d6),
     (R1, (2,3,0,1), 3, 14, 0xf4d50d87),
     (R1, (1,2,3,0), 8, 20, 0x455a14ed),
     (R1, (0,1,2,3), 13, 5, 0xa9e3e905),
     (R1, (3,0,1,2), 2, 9, 0xfcefa3f8),
     (R1, (2,3,0,1), 7, 14, 0x676f02d9),
     (R1, (1,2,3,0), 12, 20, 0x8d2a4c8a),
     (R2, (0,1,2,3), 5, 4, 0xfffa3942),
     (R2, (3,0,1,2), 8, 11, 0x8771f681),
     (R2, (2,3,0,1), 11, 16, 0x6d9d6122),
     (R2, (1,2,3,0), 14, 23, 0xfde5380c),
     (R2, (0,1,2,3), 1, 4, 0xa4beea44),
     (R2, (3,0,1,2), 4, 11, 0x4bdecfa9),
     (R2, (2,3,0,1), 7, 16, 0xf6bb4b60),
     (R2, (1,2,3,0), 10, 23, 0xbebfbc70),
     (R2, (0,1,2,3), 13, 4, 0x289b7ec6),
     (R2, (3,0,1,2), 0, 11, 0xeaa127fa),
     (R2, (2,3,0,1), 3, 16, 0xd4ef3085),
     (R2, (1,2,3,0), 6, 23, 0x04881d05),
     (R2, (0,1,2,3), 9, 4, 0xd9d4d039),
     (R2, (3,0,1,2), 12, 11, 0xe6db99e5),
     (R2, (2,3,0,1), 15, 16, 0x1fa27cf8),
     (R2, (1,2,3,0), 2, 23, 0xc4ac5665),
     (R3, (0,1,2,3), 0, 6, 0xf4292244),
     (R3, (3,0,1,2), 7, 10, 0x432aff97),
     (R3, (2,3,0,1), 14, 15, 0xab9423a7),
     (R3, (1,2,3,0), 5, 21, 0xfc93a039),
     (R3, (0,1,2,3), 12, 6, 0x655b59c3),
     (R3, (3,0,1,2), 3, 10, 0x8f0ccc92),
     (R3, (2,3,0,1), 10, 15, 0xffeff47d),
     (R3, (1,2,3,0), 1, 21, 0x85845dd1),
     (R3, (0,1,2,3), 8, 6, 0x6fa87e4f),
     (R3, (3,0,1,2), 15, 10, 0xfe2ce6e0),
     (R3, (2,3,0,1), 6, 15, 0xa3014314),
     (R3, (1,2,3,0), 13, 21, 0x4e0811a1),
     (R3, (0,1,2,3), 4, 6, 0xf7537e82),
     (R3, (3,0,1,2), 11, 10, 0xbd3af235),
     (R3, (2,3,0,1), 2, 15, 0x2ad7d2bb),
     (R3, (1,2,3,0), 9, 21, 0xeb86d391)]"

definition md5_block :: "u32 list \<Rightarrow> u8 list \<Rightarrow> u32 list" where
  "md5_block state data =
     (let X = map (\<lambda>i. c2l_le (drop (4 * i) data)) [0 ..< 16]
      in map2 (+) (take 4 state) (fold (md5_call X) md5_calls (take 4 state)))"

fun md5_block_data_order :: "u32 list \<Rightarrow> u8 list \<Rightarrow> nat \<Rightarrow> u32 list" where
  "md5_block_data_order state data 0 = state"
| "md5_block_data_order state data (Suc num) = md5_block_data_order (md5_block state data) (drop 64 data) num"

text \<open>\<open>HASH_MAKE_STRING\<close>, the same in both files.\<close>

definition md_make_string :: "u32 hash_ctx \<Rightarrow> u8 list option" where
  "md_make_string c = Some (l2c_le (hc_h c ! 0) @ l2c_le (hc_h c ! 1) @ l2c_le (hc_h c ! 2) @ l2c_le (hc_h c ! 3))"

definition MD5_Init :: "u32 hash_ctx" where
  "MD5_Init = \<lparr>hc_h = [0x67452301, 0xefcdab89, 0x98badcfe, 0x10325476],
     hc_Nl = 0, hc_Nh = 0, hc_data = replicate 64 0, hc_num = 0, hc_md_len = 0\<rparr>"

definition MD5_Update :: "u32 hash_ctx \<Rightarrow> u8 list \<Rightarrow> u32 hash_ctx" where
  "MD5_Update = HASH_UPDATE md5_block_data_order"

definition MD5_Transform :: "u32 hash_ctx \<Rightarrow> u8 list \<Rightarrow> u32 hash_ctx" where
  "MD5_Transform = HASH_TRANSFORM md5_block_data_order"

definition MD5_Final :: "u32 hash_ctx \<Rightarrow> (u8 list option \<times> u32 hash_ctx) option" where
  "MD5_Final = HASH_FINAL md5_block_data_order False md_make_string"

definition MD5 :: "u8 list \<Rightarrow> (u8 list option \<times> u32 hash_ctx) option" where
  "MD5 data = MD5_Final (MD5_Update MD5_Init data)"

section \<open>MD4\<close>

definition G_md4 :: "u32 \<Rightarrow> u32 \<Rightarrow> u32 \<Rightarrow> u32" where
  "G_md4 b c d = (b AND c) OR (b AND d) OR (c AND d)"

definition md4_call :: "u32 list \<Rightarrow> md_row \<Rightarrow> u32 list \<Rightarrow> u32 list" where
  "md4_call X row r =
     (case row of (macro, (a, b, c, d), k, s, t) \<Rightarrow>
        let F = (case macro of R0 \<Rightarrow> F_md5 | R1 \<Rightarrow> G_md4 | _ \<Rightarrow> H_md5);
            r = r[a := r ! a + (X ! k + t + F (r ! b) (r ! c) (r ! d))]
        in r[a := ROTATE (r ! a) s])"

definition md4_calls :: "md_row list" where
  "md4_calls = [
     (R0, (0,1,2,3), 0, 3, 0),
     (R0, (3,0,1,2), 1, 7, 0),
     (R0, (2,3,0,1), 2, 11, 0),
     (R0, (1,2,3,0), 3, 19, 0),
     (R0, (0,1,2,3), 4, 3, 0),
     (R0, (3,0,1,2), 5, 7, 0),
     (R0, (2,3,0,1), 6, 11, 0),
     (R0, (1,2,3,0), 7, 19, 0),
     (R0, (0,1,2,3), 8, 3, 0),
     (R0, (3,0,1,2), 9, 7, 0),
     (R0, (2,3,0,1), 10, 11, 0),
     (R0, (1,2,3,0), 11, 19, 0),
     (R0, (0,1,2,3), 12, 3, 0),
     (R0, (3,0,1,2), 13, 7, 0),
     (R0, (2,3,0,1), 14, 11, 0),
     (R0, (1,2,3,0), 15, 19, 0),
     (R1, (0,1,2,3), 0, 3, 0x5a827999),
     (R1, (3,0,1,2), 4, 5, 0x5a827999),
     (R1, (2,3,0,1), 8, 9, 0x5a827999),
     (R1, (1,2,3,0), 12, 13, 0x5a827999),
     (R1, (0,1,2,3), 1, 3, 0x5a827999),
     (R1, (3,0,1,2), 5, 5, 0x5a827999),
     (R1, (2,3,0,1), 9, 9, 0x5a827999),
     (R1, (1,2,3,0), 13, 13, 0x5a827999),
     (R1, (0,1,2,3), 2, 3, 0x5a827999),
     (R1, (3,0,1,2), 6, 5, 0x5a827999),
     (R1, (2,3,0,1), 10, 9, 0x5a827999),
     (R1, (1,2,3,0), 14, 13, 0x5a827999),
     (R1, (0,1,2,3), 3, 3, 0x5a827999),
     (R1, (3,0,1,2), 7, 5, 0x5a827999),
     (R1, (2,3,0,1), 11, 9, 0x5a827999),
     (R1, (1,2,3,0), 15, 13, 0x5a827999),
     (R2, (0,1,2,3), 0, 3, 0x6ed9eba1),
     (R2, (3,0,1,2), 8, 9, 0x6ed9eba1),
     (R2, (2,3,0,1), 4, 11, 0x6ed9eba1),
     (R2, (1,2,3,0), 12, 15, 0x6ed9eba1),
     (R2, (0,1,2,3), 2, 3, 0x6ed9eba1),
     (R2, (3,0,1,2), 10, 9, 0x6ed9eba1),
     (R2, (2,3,0,1), 6, 11, 0x6ed9eba1),
     (R2, (1,2,3,0), 14, 15, 0x6ed9eba1),
     (R2, (0,1,2,3), 1, 3, 0x6ed9eba1),
     (R2, (3,0,1,2), 9, 9, 0x6ed9eba1),
     (R2, (2,3,0,1), 5, 11, 0x6ed9eba1),
     (R2, (1,2,3,0), 13, 15, 0x6ed9eba1),
     (R2, (0,1,2,3), 3, 3, 0x6ed9eba1),
     (R2, (3,0,1,2), 11, 9, 0x6ed9eba1),
     (R2, (2,3,0,1), 7, 11, 0x6ed9eba1),
     (R2, (1,2,3,0), 15, 15, 0x6ed9eba1)]"

definition md4_block :: "u32 list \<Rightarrow> u8 list \<Rightarrow> u32 list" where
  "md4_block state data =
     (let X = map (\<lambda>i. c2l_le (drop (4 * i) data)) [0 ..< 16]
      in map2 (+) (take 4 state) (fold (md4_call X) md4_calls (take 4 state)))"

fun md4_block_data_order :: "u32 list \<Rightarrow> u8 list \<Rightarrow> nat \<Rightarrow> u32 list" where
  "md4_block_data_order state data 0 = state"
| "md4_block_data_order state data (Suc num) = md4_block_data_order (md4_block state data) (drop 64 data) num"

definition MD4_Init :: "u32 hash_ctx" where
  "MD4_Init = \<lparr>hc_h = [0x67452301, 0xefcdab89, 0x98badcfe, 0x10325476],
     hc_Nl = 0, hc_Nh = 0, hc_data = replicate 64 0, hc_num = 0, hc_md_len = 0\<rparr>"

definition MD4_Update :: "u32 hash_ctx \<Rightarrow> u8 list \<Rightarrow> u32 hash_ctx" where
  "MD4_Update = HASH_UPDATE md4_block_data_order"

definition MD4_Transform :: "u32 hash_ctx \<Rightarrow> u8 list \<Rightarrow> u32 hash_ctx" where
  "MD4_Transform = HASH_TRANSFORM md4_block_data_order"

definition MD4_Final :: "u32 hash_ctx \<Rightarrow> (u8 list option \<times> u32 hash_ctx) option" where
  "MD4_Final = HASH_FINAL md4_block_data_order False md_make_string"

definition MD4 :: "u8 list \<Rightarrow> (u8 list option \<times> u32 hash_ctx) option" where
  "MD4 data = MD4_Final (MD4_Update MD4_Init data)"

section \<open>RFC 1320 and RFC 1321\<close>

text \<open>
  Step \<open>i\<close>, with the values of the registers in the order in which the step names them.  The constants
  of MD5 are the first 32 bits of sines.
\<close>

definition md5_T :: "nat \<Rightarrow> u32" where
  "md5_T i = of_int \<lfloor>2 ^ 32 * \<bar>sin (real (i + 1))\<bar>\<rfloor>"

definition md5_word :: "nat \<Rightarrow> nat" where
  "md5_word i = (let n = i mod 16 in [n, (1 + 5 * n) mod 16, (5 + 3 * n) mod 16, 7 * n mod 16] ! (i div 16))"

definition md5_shift :: "nat \<Rightarrow> nat" where
  "md5_shift i = [[7, 12, 17, 22], [5, 9, 14, 20], [4, 11, 16, 23], [6, 10, 15, 21]] ! (i div 16) ! (i mod 4)"

definition md5_round :: "u32 list \<Rightarrow> nat \<Rightarrow> u32 list \<Rightarrow> u32 list" where
  "md5_round X i v =
     (let a = v ! 0; b = v ! 1; c = v ! 2; d = v ! 3;
          f = [b AND c OR NOT b AND d, b AND d OR c AND NOT d, b XOR c XOR d, c XOR (b OR NOT d)] ! (i div 16)
      in [d, b + rotl (md5_shift i) (a + f + X ! md5_word i + md5_T i), b, c])"

definition md4_word :: "nat \<Rightarrow> nat" where
  "md4_word i =
     (let n = i mod 16
      in [n, 4 * (n mod 4) + n div 4, 8 * (n mod 2) + 4 * (n div 2 mod 2) + 2 * (n div 4 mod 2) + n div 8] ! (i div 16))"

definition md4_shift :: "nat \<Rightarrow> nat" where
  "md4_shift i = [[3, 7, 11, 19], [3, 5, 9, 13], [3, 9, 11, 15]] ! (i div 16) ! (i mod 4)"

definition md4_round :: "u32 list \<Rightarrow> nat \<Rightarrow> u32 list \<Rightarrow> u32 list" where
  "md4_round X i v =
     (let a = v ! 0; b = v ! 1; c = v ! 2; d = v ! 3;
          f = [b AND c OR NOT b AND d, b AND c OR b AND d OR c AND d, b XOR c XOR d] ! (i div 16)
      in [d, rotl (md4_shift i) (a + f + X ! md4_word i + [0, 0x5a827999, 0x6ed9eba1] ! (i div 16)), b, c])"

definition le_words :: "u8 list \<Rightarrow> u32 list" where
  "le_words block = map (\<lambda>i. of_nat (le_nat (take 4 (drop (4 * i) block)))) [0 ..< 16]"

definition md5_compress :: "u32 list \<Rightarrow> u8 list \<Rightarrow> u32 list" where
  "md5_compress H block = map2 (+) H (fold (md5_round (le_words block)) [0 ..< 64] H)"

definition md4_compress :: "u32 list \<Rightarrow> u8 list \<Rightarrow> u32 list" where
  "md4_compress H block = map2 (+) H (fold (md4_round (le_words block)) [0 ..< 48] H)"

abbreviation md_start :: "u32 list" where
  "md_start \<equiv> [0x67452301, 0xefcdab89, 0x98badcfe, 0x10325476]"

definition md_digest :: "(u32 list \<Rightarrow> u8 list \<Rightarrow> u32 list) \<Rightarrow> u8 list \<Rightarrow> u8 list" where
  "md_digest compress m = concat (map (\<lambda>w. rev (be_bytes 4 (unat w)))
     (hash_blocks 64 compress md_start (pad 64 8 (\<lambda>n. rev (be_bytes 8 n)) m)))"

section \<open>The calls compute it\<close>

definition md_named :: "nat \<Rightarrow> u32 list \<Rightarrow> u32 list" where
  "md_named t r = map (\<lambda>i. r ! ((i + 3 * t) mod 4)) [0 ..< 4]"

definition md_new :: "(u32 \<Rightarrow> u32 \<Rightarrow> u32 \<Rightarrow> u32 \<Rightarrow> u32) \<Rightarrow> u32 list \<Rightarrow> u32 list" where
  "md_new g v = [v ! 3, g (v ! 0) (v ! 1) (v ! 2) (v ! 3), v ! 1, v ! 2]"

lemma length_four: "length r = 4 \<Longrightarrow> \<exists>a b c d. r = [a, b, c, d]"
  by (simp add: numeral_eq_Suc length_Suc_conv) blast

lemma less_four: "j < 4 \<longleftrightarrow> j = 0 \<or> j = 1 \<or> j = 2 \<or> j = 3" for j :: nat
  by (auto simp: less_Suc_eq numeral_eq_Suc)

lemma md_reg_mod: "(i + 3 * t) mod 4 = (i + 3 * (t mod 4)) mod (4 :: nat)"
  by (metis mod_add_right_eq mod_mult_right_eq)

lemma md_named_mod: "md_named (t mod 4) r = md_named t r" "md_named (Suc (t mod 4)) r = md_named (Suc t) r"
proof -
  show 1: "md_named (t mod 4) r = md_named t r" for t
    unfolding md_named_def using md_reg_mod [of _ t] by simp
  show "md_named (Suc (t mod 4)) r = md_named (Suc t) r"
    using 1 [of "Suc t"] 1 [of "Suc (t mod 4)"] by (simp add: mod_Suc_eq)
qed

definition md_regs :: "nat \<Rightarrow> nat \<times> nat \<times> nat \<times> nat" where
  "md_regs t = ((0 + 3 * t) mod 4, (1 + 3 * t) mod 4, (2 + 3 * t) mod 4, (3 + 3 * t) mod 4)"

lemma md_regs_mod: "md_regs (t mod 4) = md_regs t"
  unfolding md_regs_def by (simp only: md_reg_mod [of _ t, symmetric])

lemma md_assign:
  assumes "length r = 4" and "md_regs t = (a, b, c, d)"
  shows "md_named (Suc t) (r[a := g (r ! a) (r ! b) (r ! c) (r ! d)]) = md_new g (md_named t r)"
    and "a \<noteq> b" "a \<noteq> c" "a \<noteq> d" "a < 4"
proof -
  obtain w x y z where r: "r = [w, x, y, z]" using length_four [OF assms(1)] by blast
  define j where "j = t mod 4"
  have "j < 4" by (simp add: j_def)
  then have j: "j = 0 \<or> j = 1 \<or> j = 2 \<or> j = 3" by (simp only: less_four)
  have regs: "md_regs j = (a, b, c, d)" using assms(2) by (simp only: md_regs_mod j_def)
  have "md_named (Suc j) (r[a := g (r ! a) (r ! b) (r ! c) (r ! d)]) = md_new g (md_named j r)"
    using j regs by (elim disjE) (auto simp: r md_regs_def md_named_def md_new_def upt_conv_Cons)
  then show "md_named (Suc t) (r[a := g (r ! a) (r ! b) (r ! c) (r ! d)]) = md_new g (md_named t r)"
    by (simp only: md_named_mod j_def)
  show "a \<noteq> b" "a \<noteq> c" "a \<noteq> d" "a < 4" using j regs by (elim disjE, auto simp: md_regs_def)+
qed

lemma md5_rows:
  "md5_calls = map (\<lambda>i. ([R0, R1, R2, R3] ! (i div 16), md_regs i, md5_word i, md5_shift i, snd (snd (snd (snd (md5_calls ! i)))))) [0 ..< 64]"
  by code_simp

lemma md4_rows:
  "md4_calls = map (\<lambda>i. ([R0, R1, R2] ! (i div 16), md_regs i, md4_word i, md4_shift i, [0, 0x5a827999, 0x6ed9eba1] ! (i div 16))) [0 ..< 48]"
  by code_simp

lemma md_shifts:
  "list_all (\<lambda>i. 0 < md5_shift i \<and> md5_shift i < 32) [0 ..< 64]" "list_all (\<lambda>i. 0 < md4_shift i \<and> md4_shift i < 32) [0 ..< 48]"
  by code_simp+

lemma md5_sines: "are_sines fixed_sin1 fixed_cos1 4 (map (\<lambda>row. uint (snd (snd (snd (snd row))))) md5_calls)"
  by (simp add: md5_calls_def fixed_one_def fixed_sin1_def fixed_cos1_def)

lemma md5_T: "i < 64 \<Longrightarrow> snd (snd (snd (snd (md5_calls ! i)))) = md5_T i"
proof -
  assume i: "i < 64"
  have len: "length md5_calls = 64" by (subst md5_rows) simp
  have "uint (snd (snd (snd (snd (md5_calls ! i))))) = \<lfloor>2 ^ 32 * \<bar>sin (1 + real i)\<bar>\<rfloor>"
    using are_sines [OF md5_sines near1, of i] i by (simp add: len)
  then have "of_int (uint (snd (snd (snd (snd (md5_calls ! i)))))) = md5_T i"
    by (simp only: md5_T_def of_nat_add of_nat_1 add.commute)
  then show ?thesis by simp
qed

text \<open>A call as one assignment, and the steps.\<close>

lemma md5_call_assign:
  assumes "length r = 4" and "a < 4" and "a \<noteq> b"
  shows "md5_call X (m, (a, b, c, d), k, s, t) r =
    r[a := r ! b + ROTATE (r ! a + (X ! k + t + (case m of R0 \<Rightarrow> F_md5 | R1 \<Rightarrow> G_md5 | R2 \<Rightarrow> H_md5 | R3 \<Rightarrow> I_md5) (r ! b) (r ! c) (r ! d))) s]"
  using assms by (simp add: md5_call_def Let_def add.commute)

lemma md4_call_assign:
  assumes "length r = 4" and "a < 4"
  shows "md4_call X (m, (a, b, c, d), k, s, t) r =
    r[a := ROTATE (r ! a + (X ! k + t + (case m of R0 \<Rightarrow> F_md5 | R1 \<Rightarrow> G_md4 | _ \<Rightarrow> H_md5) (r ! b) (r ! c) (r ! d))) s]"
  using assms by (simp add: md4_call_def Let_def)

lemma md_functions:
  "F_md5 b c d = b AND c OR NOT b AND d" "G_md5 b c d = b AND d OR c AND NOT d" "H_md5 b c d = b XOR c XOR d"
  "I_md5 b c d = c XOR (b OR NOT d)" "G_md4 b c d = b AND c OR b AND d OR c AND d"
  by (rule bit_word_eqI, auto simp: F_md5_def G_md5_def H_md5_def I_md5_def G_md4_def bit_simps)+

lemma less_64: "i < 64 \<Longrightarrow> i div 16 = 0 \<or> i div 16 = 1 \<or> i div 16 = 2 \<or> i div 16 = (3 :: nat)"
  by (subst less_four [symmetric]) simp

lemma less_48: "i < 48 \<Longrightarrow> i div 16 = 0 \<or> i div 16 = 1 \<or> i div 16 = (2 :: nat)"
proof -
  assume "i < 48"
  then have "i div 16 < 3" by simp
  then show ?thesis by linarith
qed

lemma md_shift_bounds:
  "i < 64 \<Longrightarrow> 0 < md5_shift i \<and> md5_shift i < 32" "i < 48 \<Longrightarrow> 0 < md4_shift i \<and> md4_shift i < 32"
  using md_shifts unfolding list_all_iff by simp_all

lemma md5_step:
  assumes "length r = 4" and "i < 64"
  shows "md_named (Suc i) (md5_call X (md5_calls ! i) r) = md5_round X i (md_named i r)"
    and "length (md5_call X (md5_calls ! i) r) = 4"
proof -
  obtain a b c d where regs: "md_regs i = (a, b, c, d)" by (cases "md_regs i")
  have "md5_calls ! i = map (\<lambda>i. ([R0, R1, R2, R3] ! (i div 16), md_regs i, md5_word i, md5_shift i, snd (snd (snd (snd (md5_calls ! i)))))) [0 ..< 64] ! i"
    by (rule arg_cong [where f = "\<lambda>xs. xs ! i", OF md5_rows])
  then have row: "md5_calls ! i = ([R0, R1, R2, R3] ! (i div 16), (a, b, c, d), md5_word i, md5_shift i, md5_T i)"
    using assms(2) md5_T [OF assms(2)] regs by simp
  note as = md_assign [OF assms(1) regs]
  define F where "F = (case [R0, R1, R2, R3] ! (i div 16) of R0 \<Rightarrow> F_md5 | R1 \<Rightarrow> G_md5 | R2 \<Rightarrow> H_md5 | R3 \<Rightarrow> I_md5)"
  have F: "F b c d = [b AND c OR NOT b AND d, b AND d OR c AND NOT d, b XOR c XOR d, c XOR (b OR NOT d)] ! (i div 16)" for b c d
    using less_64 [OF assms(2)] unfolding F_def by (elim disjE) (simp_all add: md_functions)
  have call: "md5_call X (md5_calls ! i) r = r[a := r ! b + ROTATE (r ! a + (X ! md5_word i + md5_T i + F (r ! b) (r ! c) (r ! d))) (md5_shift i)]"
    unfolding row F_def by (rule md5_call_assign [OF assms(1) as(5,2)])
  show "length (md5_call X (md5_calls ! i) r) = 4" unfolding call using assms(1) by simp
  show "md_named (Suc i) (md5_call X (md5_calls ! i) r) = md5_round X i (md_named i r)"
    unfolding call as(1) [where g = "\<lambda>a b c d. b + ROTATE (a + (X ! md5_word i + md5_T i + F b c d)) (md5_shift i)"]
    using md_shift_bounds(1) [OF assms(2)] by (simp add: md_new_def md5_round_def Let_def F ROTATE_rotl ac_simps)
qed

lemma md4_step:
  assumes "length r = 4" and "i < 48"
  shows "md_named (Suc i) (md4_call X (md4_calls ! i) r) = md4_round X i (md_named i r)"
    and "length (md4_call X (md4_calls ! i) r) = 4"
proof -
  obtain a b c d where regs: "md_regs i = (a, b, c, d)" by (cases "md_regs i")
  have row: "md4_calls ! i = ([R0, R1, R2] ! (i div 16), (a, b, c, d), md4_word i, md4_shift i, [0, 0x5a827999, 0x6ed9eba1] ! (i div 16))"
    using assms(2) regs by (simp add: md4_rows)
  note as = md_assign [OF assms(1) regs]
  define F where "F = (case [R0, R1, R2] ! (i div 16) of R0 \<Rightarrow> F_md5 | R1 \<Rightarrow> G_md4 | _ \<Rightarrow> H_md5)"
  have F: "F b c d = [b AND c OR NOT b AND d, b AND c OR b AND d OR c AND d, b XOR c XOR d] ! (i div 16)" for b c d
    using less_48 [OF assms(2)] unfolding F_def by (elim disjE) (simp_all add: md_functions)
  let ?t = "[0, 0x5a827999, 0x6ed9eba1] ! (i div 16) :: u32"
  have call: "md4_call X (md4_calls ! i) r = r[a := ROTATE (r ! a + (X ! md4_word i + ?t + F (r ! b) (r ! c) (r ! d))) (md4_shift i)]"
    unfolding row F_def by (rule md4_call_assign [OF assms(1) as(5)])
  show "length (md4_call X (md4_calls ! i) r) = 4" unfolding call using assms(1) by simp
  show "md_named (Suc i) (md4_call X (md4_calls ! i) r) = md4_round X i (md_named i r)"
    unfolding call as(1) [where g = "\<lambda>a b c d. ROTATE (a + (X ! md4_word i + ?t + F b c d)) (md4_shift i)"]
    using md_shift_bounds(2) [OF assms(2)] by (simp add: md_new_def md4_round_def Let_def F ROTATE_rotl ac_simps)
qed

lemma md_calls_fold:
  assumes "\<And>r i. length r = 4 \<Longrightarrow> i < n \<Longrightarrow> md_named (Suc i) (call (calls ! i) r) = step i (md_named i r)"
    and "\<And>r i. length r = 4 \<Longrightarrow> i < n \<Longrightarrow> length (call (calls ! i) r) = 4"
    and "length H = 4" and "length calls = n" and "n mod 4 = 0"
  shows "fold call calls H = fold step [0 ..< n] H" and "length (fold call calls H) = 4"
proof -
  have id4: "md_named t r = r" if "length r = 4" "t mod 4 = 0" for t r
    using length_four [OF that(1)] md_named_mod(1) [of t r] that(2) by (auto simp: md_named_def upt_conv_Cons)
  have "k \<le> n \<Longrightarrow> length (fold call (take k calls) H) = 4 \<and> md_named k (fold call (take k calls) H) = fold step [0 ..< k] H" for k
  proof (induction k)
    case 0
    show ?case using assms(3) id4 [of H 0] by simp
  next
    case (Suc k)
    then show ?case using assms(1,2,4) by (simp add: take_Suc_conv_app_nth)
  qed
  from this [of n] assms(4) have "length (fold call calls H) = 4" "md_named n (fold call calls H) = fold step [0 ..< n] H" by simp_all
  with id4 [of "fold call calls H" n] assms(5) show "fold call calls H = fold step [0 ..< n] H" "length (fold call calls H) = 4" by simp_all
qed

section \<open>The blocks\<close>

lemma le_words_c2l: "64 \<le> length data \<Longrightarrow> map (\<lambda>i. c2l_le (drop (4 * i) data)) [0 ..< 16] = le_words data"
  unfolding le_words_def by (intro map_cong refl c2l_le_word) simp

lemma length_md_rounds:
  "length H = 4 \<Longrightarrow> length (fold (md5_round X) ts H) = 4" "length H = 4 \<Longrightarrow> length (fold (md4_round X) ts H) = 4"
  by (induction ts arbitrary: H) (simp_all add: md5_round_def md4_round_def Let_def)

lemma length_md_compress: "length H = 4 \<Longrightarrow> length (md5_compress H b) = 4" "length H = 4 \<Longrightarrow> length (md4_compress H b) = 4"
  by (simp_all add: md5_compress_def md4_compress_def length_md_rounds)

lemma md5_block:
  assumes "length H = 4" and "64 \<le> length data"
  shows "md5_block H data = md5_compress H data"
proof -
  have "length md5_calls = 64" by (subst md5_rows) simp
  from md_calls_fold(1) [OF _ _ assms(1) this, of "md5_call (le_words data)" "md5_round (le_words data)"]
  have "fold (md5_call (le_words data)) md5_calls H = fold (md5_round (le_words data)) [0 ..< 64] H"
    by (simp add: md5_step)
  then show ?thesis
    unfolding md5_block_def md5_compress_def Let_def le_words_c2l [OF assms(2)] using assms(1) by simp
qed

lemma md4_block:
  assumes "length H = 4" and "64 \<le> length data"
  shows "md4_block H data = md4_compress H data"
proof -
  have "length md4_calls = 48" by (simp add: md4_rows)
  from md_calls_fold(1) [OF _ _ assms(1) this, of "md4_call (le_words data)" "md4_round (le_words data)"]
  have "fold (md4_call (le_words data)) md4_calls H = fold (md4_round (le_words data)) [0 ..< 48] H"
    by (simp add: md4_step)
  then show ?thesis
    unfolding md4_block_def md4_compress_def Let_def le_words_c2l [OF assms(2)] using assms(1) by simp
qed

lemma c2l_le_take: "64 \<le> length d \<Longrightarrow> map (\<lambda>i. c2l_le (drop (4 * i) (take 64 d))) [0 ..< 16] = map (\<lambda>i. c2l_le (drop (4 * i) d)) [0 ..< 16]"
  by (intro map_cong) (simp_all add: c2l_le_def)

lemma md5_block_take: "64 \<le> length d \<Longrightarrow> md5_block H (take 64 d) = md5_block H d"
  by (simp only: md5_block_def c2l_le_take)

lemma md4_block_take: "64 \<le> length d \<Longrightarrow> md4_block H (take 64 d) = md4_block H d"
  by (simp only: md4_block_def c2l_le_take)

lemma md5_works: "works_on_blocks HASH_CBLOCK md5_block md5_block_data_order"
  by (rule block_order_works) (simp_all add: HASH_CBLOCK_def md5_block_take)

lemma md4_works: "works_on_blocks HASH_CBLOCK md4_block md4_block_data_order"
  by (rule block_order_works) (simp_all add: HASH_CBLOCK_def md4_block_take)

section \<open>The digests\<close>

lemma md_final:
  assumes works: "works_on_blocks HASH_CBLOCK block bo" and seen: "absorbed HASH_CBLOCK block md_start c m"
    and block: "\<And>H b. length H = 4 \<Longrightarrow> length b = 64 \<Longrightarrow> block H b = compress H b"
    and len: "\<And>H b. length H = 4 \<Longrightarrow> length (compress H b) = 4"
  shows "\<exists>c'. HASH_FINAL bo False md_make_string c = Some (Some (md_digest compress m), c')"
proof -
  let ?p = "pad 64 8 (\<lambda>n. rev (be_bytes 8 n)) m"
  obtain c' where c': "HASH_FINAL bo False md_make_string c = Some (md_make_string c', c')"
      "hc_h c' = hash_blocks HASH_CBLOCK block md_start (pad HASH_CBLOCK 8 (\<lambda>n. rev (be_bytes 8 n)) m)"
    using HASH_FINAL_digest [OF works seen, of False md_make_string] by auto
  have h: "hc_h c' = hash_blocks 64 compress md_start ?p"
    unfolding c'(2) HASH_CBLOCK_def by (rule hash_blocks_cong [where n = 4]) (simp_all add: block len)
  then have "length (hc_h c') = 4"
    using length_hash_blocks [of 64 4 compress md_start] by (simp add: len)
  then obtain v0 v1 v2 v3 where "hc_h c' = [v0, v1, v2, v3]" using length_four by blast
  then have "md_make_string c' = Some (md_digest compress m)"
    using h by (simp add: md_make_string_def md_digest_def l2c_bytes del: be_bytes.simps)
  then show ?thesis using c'(1) by simp
qed

interpretation md5: digest MD5_Update MD5_Final "absorbed HASH_CBLOCK md5_block md_start" "md_digest md5_compress"
  by unfold_locales
    (simp_all add: MD5_Update_def MD5_Final_def HASH_UPDATE_absorbs [OF md5_works] md_final [OF md5_works] md5_block length_md_compress)

interpretation md4: digest MD4_Update MD4_Final "absorbed HASH_CBLOCK md4_block md_start" "md_digest md4_compress"
  by unfold_locales
    (simp_all add: MD4_Update_def MD4_Final_def HASH_UPDATE_absorbs [OF md4_works] md_final [OF md4_works] md4_block length_md_compress)

text \<open>
  C39: MD5 and MD4 of a message that arrives in any pieces, empty ones included, are the digests of RFC 1321
  and RFC 1320 of the whole message, with the constants of MD5 the first bits of sines; the
  final functions never fail.
\<close>
theorem MD5_MD4_pieces:
  "\<exists>c c'. MD5_Final (foldl MD5_Update MD5_Init pieces) = Some (Some (md_digest md5_compress (concat pieces)), c) \<and>
     MD4_Final (foldl MD4_Update MD4_Init pieces) = Some (Some (md_digest md4_compress (concat pieces)), c')"
proof -
  have "absorbed HASH_CBLOCK md5_block md_start MD5_Init []" "absorbed HASH_CBLOCK md4_block md_start MD4_Init []"
    by (rule absorbed_init; simp add: MD5_Init_def MD4_Init_def HASH_CBLOCK_def)+
  then show ?thesis using md5.pieces_hash md4.pieces_hash by simp
qed

lemma MD5_MD4_whole:
  "\<exists>c c'. MD5 data = Some (Some (md_digest md5_compress data), c) \<and> MD4 data = Some (Some (md_digest md4_compress data), c')"
proof -
  have "absorbed HASH_CBLOCK md5_block md_start MD5_Init []" "absorbed HASH_CBLOCK md4_block md_start MD4_Init []"
    by (rule absorbed_init; simp add: MD5_Init_def MD4_Init_def HASH_CBLOCK_def)+
  then show ?thesis using md5.pieces_hash [of MD5_Init "[data]"] md4.pieces_hash [of MD4_Init "[data]"]
    by (simp add: MD5_def MD4_def)
qed

end
