(* ===== verification/Evp_Digest.thy ===== *)
theory Evp_Digest
  imports Mem Sha2_Props Md45
begin

text \<open>
  \<open>crypto/fipsmodule/digest/digest.c\<close> and \<open>digests.c\<close>: the digests behind one table of methods, and the
  contexts that own the state of one.  A function that returns 0 or 1 gives a flag; a failed
  assertion and the use of a null pointer are \<open>None\<close>.  The allocator is a parameter.
\<close>

section \<open>States\<close>

text \<open>What a block of \<open>md_data\<close> holds, by the structure that the methods take it for.\<close>

datatype md_state = State32 "u32 hash_ctx" | State64 "u64 hash_ctx" | State_Pair "u32 hash_ctx" "u32 hash_ctx"

text \<open>
  The bytes of a block as a context of \<open>n\<close> words of \<open>w\<close> bytes, two words that count, a buffer of
  \<open>cb\<close> bytes and two numbers, of which the contexts of the short digests have only the first.
\<close>

definition ctx_at :: "nat \<Rightarrow> nat \<Rightarrow> nat \<Rightarrow> u8 list \<Rightarrow> 'w::len word hash_ctx" where
  "ctx_at w n cb p =
     (let word_at = (\<lambda>i. of_nat (le_nat (take w (drop (w * i) p)))); q = drop (w * (n + 2)) p
      in \<lparr>hc_h = map word_at [0 ..< n], hc_Nl = word_at n, hc_Nh = word_at (n + 1), hc_data = take cb q,
          hc_num = le_nat (take 4 (drop cb q)), hc_md_len = le_nat (take 4 (drop (cb + 4) q))\<rparr>)"

text \<open>The digests; a value stands for the address of the static table of one.\<close>

datatype evp_md = EVP_md4 | EVP_md5 | EVP_sha1 | EVP_sha224 | EVP_sha256 | EVP_sha384 | EVP_sha512 | EVP_md5_sha1

record evp_md_st =
  md_type :: int
  md_size :: nat
  md_flags :: u32
  md_init :: "md_state \<Rightarrow> md_state option"
  md_update :: "md_state \<Rightarrow> u8 list \<Rightarrow> md_state option"
  md_final :: "md_state \<Rightarrow> (u8 list \<times> md_state) option"
  md_block_size :: nat
  md_ctx_size :: nat

section \<open>The methods\<close>

text \<open>\<open>CHECK\<close> of the results that say whether a digest was written.\<close>

fun check_final :: "('c \<Rightarrow> md_state) \<Rightarrow> u8 list option \<times> 'c \<Rightarrow> (u8 list \<times> md_state) option" where
  "check_final wrap (Some out, c) = Some (out, wrap c)"
| "check_final wrap (None, c) = None"

fun md4_init :: "md_state \<Rightarrow> md_state option" where
  "md4_init (State32 c) = Some (State32 MD4_Init)"
| "md4_init _ = None"

fun md4_update :: "md_state \<Rightarrow> u8 list \<Rightarrow> md_state option" where
  "md4_update (State32 c) data = Some (State32 (MD4_Update c data))"
| "md4_update _ data = None"

fun md4_final :: "md_state \<Rightarrow> (u8 list \<times> md_state) option" where
  "md4_final (State32 c) = Option.bind (MD4_Final c) (check_final State32)"
| "md4_final _ = None"

fun md5_init :: "md_state \<Rightarrow> md_state option" where
  "md5_init (State32 c) = Some (State32 MD5_Init)"
| "md5_init _ = None"

fun md5_update :: "md_state \<Rightarrow> u8 list \<Rightarrow> md_state option" where
  "md5_update (State32 c) data = Some (State32 (MD5_Update c data))"
| "md5_update _ data = None"

fun md5_final :: "md_state \<Rightarrow> (u8 list \<times> md_state) option" where
  "md5_final (State32 c) = Option.bind (MD5_Final c) (check_final State32)"
| "md5_final _ = None"

fun sha1_init :: "md_state \<Rightarrow> md_state option" where
  "sha1_init (State32 c) = Some (State32 SHA1_Init)"
| "sha1_init _ = None"

fun sha1_update :: "md_state \<Rightarrow> u8 list \<Rightarrow> md_state option" where
  "sha1_update (State32 c) data = Some (State32 (SHA1_Update c data))"
| "sha1_update _ data = None"

fun sha1_final :: "md_state \<Rightarrow> (u8 list \<times> md_state) option" where
  "sha1_final (State32 c) = Option.bind (SHA1_Final c) (check_final State32)"
| "sha1_final _ = None"

fun sha224_init :: "md_state \<Rightarrow> md_state option" where
  "sha224_init (State32 c) = Some (State32 SHA224_Init)"
| "sha224_init _ = None"

fun sha224_update :: "md_state \<Rightarrow> u8 list \<Rightarrow> md_state option" where
  "sha224_update (State32 c) data = Some (State32 (SHA224_Update c data))"
| "sha224_update _ data = None"

fun sha224_final :: "md_state \<Rightarrow> (u8 list \<times> md_state) option" where
  "sha224_final (State32 c) = Option.bind (SHA224_Final c) (check_final State32)"
| "sha224_final _ = None"

fun sha256_init :: "md_state \<Rightarrow> md_state option" where
  "sha256_init (State32 c) = Some (State32 SHA256_Init)"
| "sha256_init _ = None"

fun sha256_update :: "md_state \<Rightarrow> u8 list \<Rightarrow> md_state option" where
  "sha256_update (State32 c) data = Some (State32 (SHA256_Update c data))"
| "sha256_update _ data = None"

fun sha256_final :: "md_state \<Rightarrow> (u8 list \<times> md_state) option" where
  "sha256_final (State32 c) = Option.bind (SHA256_Final c) (check_final State32)"
| "sha256_final _ = None"

fun sha384_init :: "md_state \<Rightarrow> md_state option" where
  "sha384_init (State64 c) = Some (State64 (SHA384_Init c))"
| "sha384_init _ = None"

fun sha384_update :: "md_state \<Rightarrow> u8 list \<Rightarrow> md_state option" where
  "sha384_update (State64 c) data = Some (State64 (SHA384_Update c data))"
| "sha384_update _ data = None"

fun sha384_final :: "md_state \<Rightarrow> (u8 list \<times> md_state) option" where
  "sha384_final (State64 c) = check_final State64 (SHA384_Final True c)"
| "sha384_final _ = None"

fun sha512_init :: "md_state \<Rightarrow> md_state option" where
  "sha512_init (State64 c) = Some (State64 (SHA512_Init c))"
| "sha512_init _ = None"

fun sha512_update :: "md_state \<Rightarrow> u8 list \<Rightarrow> md_state option" where
  "sha512_update (State64 c) data = Some (State64 (SHA512_Update sha512_block_data_order c data))"
| "sha512_update _ data = None"

fun sha512_final :: "md_state \<Rightarrow> (u8 list \<times> md_state) option" where
  "sha512_final (State64 c) = check_final State64 (SHA512_Final sha512_block_data_order True c)"
| "sha512_final _ = None"

fun md5_sha1_init :: "md_state \<Rightarrow> md_state option" where
  "md5_sha1_init (State_Pair c d) = Some (State_Pair MD5_Init SHA1_Init)"
| "md5_sha1_init _ = None"

fun md5_sha1_update :: "md_state \<Rightarrow> u8 list \<Rightarrow> md_state option" where
  "md5_sha1_update (State_Pair c d) data = Some (State_Pair (MD5_Update c data) (SHA1_Update d data))"
| "md5_sha1_update _ data = None"

fun md5_sha1_final :: "md_state \<Rightarrow> (u8 list \<times> md_state) option" where
  "md5_sha1_final (State_Pair c d) =
     (case MD5_Final c of
        Some (Some out, c) \<Rightarrow>
          (case SHA1_Final d of Some (Some out', d) \<Rightarrow> Some (out @ out', State_Pair c d) | _ \<Rightarrow> None)
      | _ \<Rightarrow> None)"
| "md5_sha1_final _ = None"

fun method_of :: "evp_md \<Rightarrow> evp_md_st" where
  "method_of EVP_md4 = \<lparr>md_type = 257, md_size = 16, md_flags = 0, md_init = md4_init, md_update = md4_update,
     md_final = md4_final, md_block_size = 64, md_ctx_size = 92\<rparr>"
| "method_of EVP_md5 = \<lparr>md_type = 4, md_size = 16, md_flags = 0, md_init = md5_init, md_update = md5_update,
     md_final = md5_final, md_block_size = 64, md_ctx_size = 92\<rparr>"
| "method_of EVP_sha1 = \<lparr>md_type = 64, md_size = 20, md_flags = 0, md_init = sha1_init, md_update = sha1_update,
     md_final = sha1_final, md_block_size = 64, md_ctx_size = 96\<rparr>"
| "method_of EVP_sha224 = \<lparr>md_type = 675, md_size = 28, md_flags = 0, md_init = sha224_init, md_update = sha224_update,
     md_final = sha224_final, md_block_size = 64, md_ctx_size = 112\<rparr>"
| "method_of EVP_sha256 = \<lparr>md_type = 672, md_size = 32, md_flags = 0, md_init = sha256_init, md_update = sha256_update,
     md_final = sha256_final, md_block_size = 64, md_ctx_size = 112\<rparr>"
| "method_of EVP_sha384 = \<lparr>md_type = 673, md_size = 48, md_flags = 0, md_init = sha384_init, md_update = sha384_update,
     md_final = sha384_final, md_block_size = 128, md_ctx_size = 216\<rparr>"
| "method_of EVP_sha512 = \<lparr>md_type = 674, md_size = 64, md_flags = 0, md_init = sha512_init, md_update = sha512_update,
     md_final = sha512_final, md_block_size = 128, md_ctx_size = 216\<rparr>"
| "method_of EVP_md5_sha1 = \<lparr>md_type = 114, md_size = 16 + 20, md_flags = 0, md_init = md5_sha1_init, md_update = md5_sha1_update,
     md_final = md5_sha1_final, md_block_size = 64, md_ctx_size = 92 + 96\<rparr>"

text \<open>A block of the size of the context of a digest, as its methods see it.\<close>

fun block_state :: "evp_md \<Rightarrow> u8 list \<Rightarrow> md_state" where
  "block_state EVP_md4 p = State32 (ctx_at 4 4 64 p)"
| "block_state EVP_md5 p = State32 (ctx_at 4 4 64 p)"
| "block_state EVP_sha1 p = State32 (ctx_at 4 5 64 p)"
| "block_state EVP_sha224 p = State32 (ctx_at 4 8 64 p)"
| "block_state EVP_sha256 p = State32 (ctx_at 4 8 64 p)"
| "block_state EVP_sha384 p = State64 (ctx_at 8 8 128 p)"
| "block_state EVP_sha512 p = State64 (ctx_at 8 8 128 p)"
| "block_state EVP_md5_sha1 p = State_Pair (ctx_at 4 4 64 (take 92 p)) (ctx_at 4 5 64 (drop 92 p))"

section \<open>Contexts\<close>

text \<open>
  \<open>pctx\<close> belongs to the signature functions; what they can do with it here is to copy it, which may
  fail, and to free it.
\<close>

record 'p evp_md_ctx =
  cx_digest :: "evp_md option"
  cx_md_data :: "md_state option"
  cx_pctx :: "'p option"
  cx_pctx_ops :: "('p \<Rightarrow> 'p option) option"

definition EVP_MAX_MD_SIZE :: nat where "EVP_MAX_MD_SIZE = 64"

definition EVP_MAX_MD_BLOCK_SIZE :: nat where "EVP_MAX_MD_BLOCK_SIZE = 128"

definition EVP_MD_type :: "evp_md option \<Rightarrow> int option" where
  "EVP_MD_type md = map_option (\<lambda>m. md_type (method_of m)) md"

definition EVP_MD_flags :: "evp_md option \<Rightarrow> u32 option" where
  "EVP_MD_flags md = map_option (\<lambda>m. md_flags (method_of m)) md"

definition EVP_MD_size :: "evp_md option \<Rightarrow> nat option" where
  "EVP_MD_size md = map_option (\<lambda>m. md_size (method_of m)) md"

definition EVP_MD_block_size :: "evp_md option \<Rightarrow> nat option" where
  "EVP_MD_block_size md = map_option (\<lambda>m. md_block_size (method_of m)) md"

definition EVP_MD_CTX_init :: "'p evp_md_ctx" where
  "EVP_MD_CTX_init = \<lparr>cx_digest = None, cx_md_data = None, cx_pctx = None, cx_pctx_ops = None\<rparr>"

definition EVP_MD_CTX_cleanup :: "'p evp_md_ctx \<Rightarrow> 'p evp_md_ctx option" where
  "EVP_MD_CTX_cleanup ctx =
     (if cx_pctx ctx = None \<or> cx_pctx_ops ctx \<noteq> None then Some EVP_MD_CTX_init else None)"

definition EVP_MD_CTX_reset :: "'p evp_md_ctx \<Rightarrow> 'p evp_md_ctx option" where
  "EVP_MD_CTX_reset ctx = Option.bind (EVP_MD_CTX_cleanup ctx) (\<lambda>_. Some EVP_MD_CTX_init)"

text \<open>An allocated context; \<open>sizeof(EVP_MD_CTX)\<close> is 32.\<close>

definition EVP_MD_CTX_new :: "allocator \<Rightarrow> 'p evp_md_ctx option" where
  "EVP_MD_CTX_new ml = (case OPENSSL_malloc ml 32 of None \<Rightarrow> None | Some _ \<Rightarrow> Some EVP_MD_CTX_init)"

definition EVP_MD_CTX_create :: "allocator \<Rightarrow> 'p evp_md_ctx option" where
  "EVP_MD_CTX_create ml = EVP_MD_CTX_new ml"

definition EVP_MD_CTX_free :: "'p evp_md_ctx option \<Rightarrow> unit option" where
  "EVP_MD_CTX_free ctx =
     (case ctx of None \<Rightarrow> Some () | Some c \<Rightarrow> map_option (\<lambda>_. ()) (EVP_MD_CTX_cleanup c))"

definition EVP_MD_CTX_destroy :: "'p evp_md_ctx option \<Rightarrow> unit option" where
  "EVP_MD_CTX_destroy ctx = EVP_MD_CTX_free ctx"

definition EVP_DigestFinalXOF :: "'p evp_md_ctx \<Rightarrow> nat \<Rightarrow> bool" where
  "EVP_DigestFinalXOF ctx len \<longleftrightarrow> False"

definition EVP_MD_meth_get_flags :: "evp_md option \<Rightarrow> u32 option" where
  "EVP_MD_meth_get_flags md = EVP_MD_flags md"

text \<open>
  The result has the flag and the context \<open>out\<close>, which is another object than \<open>in\<close>.  The bytes
  of the state are copied from and to blocks that must be there.
\<close>

definition EVP_MD_CTX_copy_ex ::
    "allocator \<Rightarrow> 'p evp_md_ctx \<Rightarrow> 'p evp_md_ctx option \<Rightarrow> (bool \<times> 'p evp_md_ctx) option" where
  "EVP_MD_CTX_copy_ex ml out input =
     (case input of
        None \<Rightarrow> Some (False, out)
      | Some inp \<Rightarrow>
          if cx_pctx inp = None \<and> cx_digest inp = None then Some (False, out)
          else if cx_pctx inp \<noteq> None \<and> cx_pctx_ops inp = None then None
          else
            let pctx = (case cx_pctx inp of None \<Rightarrow> Some None
                        | Some p \<Rightarrow> map_option Some (the (cx_pctx_ops inp) p))
            in (case pctx of
                  None \<Rightarrow> Some (False, out)
                | Some pctx \<Rightarrow>
                    let allocated = (case cx_digest inp of
                                       None \<Rightarrow> True
                                     | Some md \<Rightarrow> cx_digest out = Some md \<or>
                                         OPENSSL_malloc ml (md_ctx_size (method_of md)) \<noteq> None)
                    in if \<not> allocated then Some (False, out)
                       else if cx_digest inp \<noteq> None \<and>
                         (cx_md_data inp = None \<or> cx_digest out = cx_digest inp \<and> cx_md_data out = None) then None
                       else
                         let out = (if cx_digest inp \<noteq> None \<and> cx_digest out = cx_digest inp
                                    then out\<lparr>cx_md_data := None\<rparr> else out)
                         in (case EVP_MD_CTX_cleanup out of
                               None \<Rightarrow> None
                             | Some out \<Rightarrow>
                                 Some (True, out\<lparr>cx_digest := cx_digest inp,
                                   cx_md_data := (if cx_digest inp \<noteq> None then cx_md_data inp else None),
                                   cx_pctx := pctx, cx_pctx_ops := cx_pctx_ops inp\<rparr>))))"

definition EVP_MD_CTX_copy :: "allocator \<Rightarrow> 'p evp_md_ctx option \<Rightarrow> (bool \<times> 'p evp_md_ctx) option" where
  "EVP_MD_CTX_copy ml input = EVP_MD_CTX_copy_ex ml EVP_MD_CTX_init input"

definition EVP_DigestInit_ex :: "allocator \<Rightarrow> 'p evp_md_ctx \<Rightarrow> evp_md option \<Rightarrow> (bool \<times> 'p evp_md_ctx) option" where
  "EVP_DigestInit_ex ml ctx typ =
     (let start = (\<lambda>ctx.
            if cx_pctx ctx \<noteq> None \<and> cx_pctx_ops ctx = None then None
            else case (cx_digest ctx, cx_md_data ctx) of
                   (Some md, Some st) \<Rightarrow>
                     map_option (\<lambda>st. (True, ctx\<lparr>cx_md_data := Some st\<rparr>)) (md_init (method_of md) st)
                 | _ \<Rightarrow> None)
      in if cx_digest ctx \<noteq> typ then
           (case typ of
              None \<Rightarrow> None
            | Some md \<Rightarrow>
                (case OPENSSL_malloc ml (md_ctx_size (method_of md)) of
                   None \<Rightarrow> Some (False, ctx)
                 | Some md_data \<Rightarrow> start (ctx\<lparr>cx_md_data := Some (block_state md md_data), cx_digest := Some md\<rparr>)))
         else start ctx)"

definition EVP_DigestInit :: "allocator \<Rightarrow> evp_md option \<Rightarrow> (bool \<times> 'p evp_md_ctx) option" where
  "EVP_DigestInit ml typ = EVP_DigestInit_ex ml EVP_MD_CTX_init typ"

definition EVP_DigestUpdate :: "'p evp_md_ctx \<Rightarrow> u8 list \<Rightarrow> 'p evp_md_ctx option" where
  "EVP_DigestUpdate ctx data =
     (case (cx_digest ctx, cx_md_data ctx) of
        (Some md, Some st) \<Rightarrow> map_option (\<lambda>st. ctx\<lparr>cx_md_data := Some st\<rparr>) (md_update (method_of md) st data)
      | _ \<Rightarrow> None)"

text \<open>The bytes written, whose number is the size, and the context with its state cleansed.\<close>

definition EVP_DigestFinal_ex :: "'p evp_md_ctx \<Rightarrow> (u8 list \<times> nat \<times> 'p evp_md_ctx) option" where
  "EVP_DigestFinal_ex ctx =
     (case (cx_digest ctx, cx_md_data ctx) of
        (Some md, Some st) \<Rightarrow>
          if md_size (method_of md) \<le> EVP_MAX_MD_SIZE then
            (case md_final (method_of md) st of
               None \<Rightarrow> None
             | Some (md_out, st) \<Rightarrow>
                 Some (md_out, md_size (method_of md),
                   ctx\<lparr>cx_md_data := Some (block_state md (replicate (md_ctx_size (method_of md)) 0))\<rparr>))
          else None
      | _ \<Rightarrow> None)"

definition EVP_DigestFinal :: "'p evp_md_ctx \<Rightarrow> (u8 list \<times> nat \<times> 'p evp_md_ctx) option" where
  "EVP_DigestFinal ctx =
     (case EVP_DigestFinal_ex ctx of
        None \<Rightarrow> None
      | Some (md, s, ctx) \<Rightarrow> map_option (\<lambda>ctx. (md, s, ctx)) (EVP_MD_CTX_cleanup ctx))"

text \<open>The flag, and the digest with its size where there is one.\<close>

definition EVP_Digest :: "allocator \<Rightarrow> u8 list \<Rightarrow> evp_md option \<Rightarrow> (bool \<times> (u8 list \<times> nat) option) option" where
  "EVP_Digest ml data typ =
     (case EVP_DigestInit_ex ml (EVP_MD_CTX_init :: unit evp_md_ctx) typ of
        None \<Rightarrow> None
      | Some (False, ctx) \<Rightarrow> map_option (\<lambda>_. (False, None)) (EVP_MD_CTX_cleanup ctx)
      | Some (True, ctx) \<Rightarrow>
          (case EVP_DigestUpdate ctx data of
             None \<Rightarrow> None
           | Some ctx \<Rightarrow>
               (case EVP_DigestFinal_ex ctx of
                  None \<Rightarrow> None
                | Some (md, s, ctx) \<Rightarrow> map_option (\<lambda>_. (True, Some (md, s))) (EVP_MD_CTX_cleanup ctx))))"

definition EVP_MD_CTX_md :: "'p evp_md_ctx option \<Rightarrow> evp_md option" where
  "EVP_MD_CTX_md ctx = (case ctx of None \<Rightarrow> None | Some c \<Rightarrow> cx_digest c)"

definition EVP_MD_CTX_size :: "'p evp_md_ctx option \<Rightarrow> nat option" where
  "EVP_MD_CTX_size ctx = EVP_MD_size (EVP_MD_CTX_md ctx)"

definition EVP_MD_CTX_block_size :: "'p evp_md_ctx option \<Rightarrow> nat option" where
  "EVP_MD_CTX_block_size ctx = EVP_MD_block_size (EVP_MD_CTX_md ctx)"

definition EVP_MD_CTX_type :: "'p evp_md_ctx option \<Rightarrow> int option" where
  "EVP_MD_CTX_type ctx = EVP_MD_type (EVP_MD_CTX_md ctx)"

definition EVP_add_digest :: "evp_md option \<Rightarrow> bool" where
  "EVP_add_digest md \<longleftrightarrow> True"

section \<open>What the digests are\<close>

definition sha384_start :: "u64 list" where
  "sha384_start = hc_h (SHA384_Init (ctx_at 8 8 128 []))"

definition sha512_start :: "u64 list" where
  "sha512_start = hc_h (SHA512_Init (ctx_at 8 8 128 []))"

fun evp_hash :: "evp_md \<Rightarrow> u8 list \<Rightarrow> u8 list" where
  "evp_hash EVP_md4 m = md_digest md4_compress m"
| "evp_hash EVP_md5 m = md_digest md5_compress m"
| "evp_hash EVP_sha1 m = sha1_digest m"
| "evp_hash EVP_sha224 m = sha256_digest (hc_h SHA224_Init) 28 m"
| "evp_hash EVP_sha256 m = sha256_digest (hc_h SHA256_Init) 32 m"
| "evp_hash EVP_sha384 m = sha512_digest sha384_start 48 m"
| "evp_hash EVP_sha512 m = sha512_digest sha512_start 64 m"
| "evp_hash EVP_md5_sha1 m = md_digest md5_compress m @ sha1_digest m"

text \<open>A state that the methods can work on, and one that has been given the bytes \<open>m\<close>.\<close>

fun evp_usable :: "evp_md \<Rightarrow> md_state \<Rightarrow> bool" where
  "evp_usable EVP_sha384 st \<longleftrightarrow> (case st of State64 c \<Rightarrow> length (hc_data c) = 128 | _ \<Rightarrow> False)"
| "evp_usable EVP_sha512 st \<longleftrightarrow> (case st of State64 c \<Rightarrow> length (hc_data c) = 128 | _ \<Rightarrow> False)"
| "evp_usable EVP_md5_sha1 st \<longleftrightarrow> (case st of State_Pair c d \<Rightarrow> True | _ \<Rightarrow> False)"
| "evp_usable md st \<longleftrightarrow> (case st of State32 c \<Rightarrow> True | _ \<Rightarrow> False)"

fun evp_seen :: "evp_md \<Rightarrow> md_state \<Rightarrow> u8 list \<Rightarrow> bool" where
  "evp_seen EVP_md4 (State32 c) m \<longleftrightarrow> absorbed HASH_CBLOCK md4_block md_start c m"
| "evp_seen EVP_md5 (State32 c) m \<longleftrightarrow> absorbed HASH_CBLOCK md5_block md_start c m"
| "evp_seen EVP_sha1 (State32 c) m \<longleftrightarrow> absorbed HASH_CBLOCK sha1_block sha1_start c m"
| "evp_seen EVP_sha224 (State32 c) m \<longleftrightarrow> seen256 (hc_h SHA224_Init) 28 c m"
| "evp_seen EVP_sha256 (State32 c) m \<longleftrightarrow> seen256 (hc_h SHA256_Init) 32 c m"
| "evp_seen EVP_sha384 (State64 c) m \<longleftrightarrow> seen512 sha384_start 48 c m"
| "evp_seen EVP_sha512 (State64 c) m \<longleftrightarrow> seen512 sha512_start 64 c m"
| "evp_seen EVP_md5_sha1 (State_Pair c d) m \<longleftrightarrow>
     absorbed HASH_CBLOCK md5_block md_start c m \<and> absorbed HASH_CBLOCK sha1_block sha1_start d m"
| "evp_seen md st m \<longleftrightarrow> False"

text \<open>The contract of a table of methods.\<close>

locale evp_method =
  fixes md :: evp_md and usable :: "md_state \<Rightarrow> bool" and seen :: "md_state \<Rightarrow> u8 list \<Rightarrow> bool" and hash :: "u8 list \<Rightarrow> u8 list"
  assumes block_usable: "length p = md_ctx_size (method_of md) \<Longrightarrow> usable (block_state md p)"
    and init_seen: "usable st \<Longrightarrow> \<exists>st'. md_init (method_of md) st = Some st' \<and> seen st' []"
    and update_seen: "seen st m \<Longrightarrow> \<exists>st'. md_update (method_of md) st x = Some st' \<and> seen st' (m @ x)"
    and final_hash: "seen st m \<Longrightarrow> \<exists>st'. md_final (method_of md) st = Some (hash m, st')"
    and seen_usable: "seen st m \<Longrightarrow> usable st"
    and hash_size: "length (hash m) = md_size (method_of md)"

lemma start_values:
  "hc_h (SHA384_Init c) = sha384_start" "hc_h (SHA512_Init c) = sha512_start"
  by (simp_all add: sha384_start_def sha512_start_def SHA384_Init_def SHA512_Init_def)

lemma init_absorbed:
  "absorbed HASH_CBLOCK md4_block md_start MD4_Init []" "absorbed HASH_CBLOCK md5_block md_start MD5_Init []"
  "absorbed HASH_CBLOCK sha1_block sha1_start SHA1_Init []"
  by (rule absorbed_init; simp add: MD4_Init_def MD5_Init_def SHA1_Init_def HASH_CBLOCK_def)+

lemma init_seen256: "seen256 (hc_h SHA224_Init) 28 SHA224_Init []" "seen256 (hc_h SHA256_Init) 32 SHA256_Init []"
  unfolding seen256_def
  by (auto simp: SHA224_Init_def SHA256_Init_def SHA224_DIGEST_LENGTH_def SHA256_DIGEST_LENGTH_def HASH_CBLOCK_def intro!: absorbed_init)

lemma init_seen512:
  assumes "length (hc_data c) = 128"
  shows "seen512 sha384_start 48 (SHA384_Init c) []" "seen512 sha512_start 64 (SHA512_Init c) []"
  unfolding seen512_def start_values [of c, symmetric] using assms
  by (auto simp: SHA384_Init_def SHA512_Init_def SHA384_DIGEST_LENGTH_def SHA512_DIGEST_LENGTH_def SHA512_CBLOCK_def intro!: absorbed_init)

lemma final_224: "SHA224_Final = SHA256_Final" "SHA224_Update = SHA256_Update"
  "SHA384_Final True = SHA512_Final sha512_block_data_order True" "SHA384_Update = SHA512_Update sha512_block_data_order"
  by (auto simp: SHA224_Final_def SHA224_Update_def SHA384_Final_def SHA384_Update_def intro!: ext)

lemma length_words: "length (concat (map (\<lambda>w. be_bytes k (unat w)) ws)) = k * length ws"
  "length (concat (map (\<lambda>w. rev (be_bytes k (unat w))) ws)) = k * length ws"
  by (induction ws) simp_all

lemma length_digests:
  "length (md_digest md4_compress m) = 16" "length (md_digest md5_compress m) = 16" "length (sha1_digest m) = 20"
  using length_hash_blocks [of 64 4 md4_compress md_start] length_hash_blocks [of 64 4 md5_compress md_start]
    length_hash_blocks [of 64 5 sha1_compress sha1_start]
  by (simp_all add: md_digest_def sha1_digest_def length_words length_md_compress length_sha1_compress del: be_bytes.simps)

lemma length_sha2_digests:
  "length H = 8 \<Longrightarrow> n \<in> {28, 32} \<Longrightarrow> length (sha256_digest H n m) = n"
  "length G = 8 \<Longrightarrow> k \<in> {48, 64} \<Longrightarrow> length (sha512_digest G k m) = k"
  using length_hash_blocks [of 64 8 sha256_compress H] length_hash_blocks [of 128 8 sha512_compress G]
  by (auto simp: sha256_digest_def sha512_digest_def length_words del: be_bytes.simps)

lemma evp_seen_cases:
  assumes "evp_seen md st m"
  obtains (s32) c where "st = State32 c" "md \<in> {EVP_md4, EVP_md5, EVP_sha1, EVP_sha224, EVP_sha256}"
    | (s64) c where "st = State64 c" "md \<in> {EVP_sha384, EVP_sha512}"
    | (pair) c d where "st = State_Pair c d" "md = EVP_md5_sha1"
  using assms by (cases md; cases st) auto

interpretation evp: evp_method md "evp_usable md" "evp_seen md" "evp_hash md" for md
proof
  fix p :: "u8 list" assume "length p = md_ctx_size (method_of md)"
  then show "evp_usable md (block_state md p)" by (cases md) (simp_all add: ctx_at_def Let_def)
next
  fix st assume "evp_usable md st"
  then show "\<exists>st'. md_init (method_of md) st = Some st' \<and> evp_seen md st' []"
    by (cases md; cases st) (simp_all add: init_absorbed init_seen256 init_seen512)
next
  fix st m x assume "evp_seen md st m"
  then show "\<exists>st'. md_update (method_of md) st x = Some st' \<and> evp_seen md st' (m @ x)"
    using md4.update_seen md5.update_seen sha1.update_seen sha256.update_seen sha512.update_seen
    by (cases md; cases st) (simp_all add: final_224)
next
  fix st m assume s: "evp_seen md st m"
  from s show "\<exists>st'. md_final (method_of md) st = Some (evp_hash md m, st')"
  proof (cases rule: evp_seen_cases)
    case (s32 c)
    then show ?thesis
      using s md4.final_hash [of c m] md5.final_hash [of c m] sha1.final_hash [of c m] sha256.final_hash [of "hc_h SHA224_Init" 28 c m] sha256.final_hash [of "hc_h SHA256_Init" 32 c m]
      by (auto simp: final_224)
  next
    case (s64 c)
    then show ?thesis using s sha512.final_hash [of sha384_start 48 c m] sha512.final_hash [of sha512_start 64 c m] by (auto simp: final_224)
  next
    case (pair c d)
    then show ?thesis using s md5.final_hash [of c m] sha1.final_hash [of d m] by auto
  qed
next
  fix st m assume "evp_seen md st m"
  then show "evp_usable md st"
    by (cases md; cases st) (auto simp: seen512_def absorbed_def SHA512_CBLOCK_def)
next
  fix m show "length (evp_hash md m) = md_size (method_of md)"
    by (cases md) (auto simp: length_digests length_sha2_digests SHA224_Init_def SHA256_Init_def sha384_start_def sha512_start_def
        SHA384_Init_def SHA512_Init_def)
qed

section \<open>Contexts that own a digest\<close>

lemma method_sizes:
  "md_size (method_of md) \<le> EVP_MAX_MD_SIZE" "md_block_size (method_of md) \<le> EVP_MAX_MD_BLOCK_SIZE"
  "md_size (method_of md) \<le> md_block_size (method_of md)" "md_ctx_size (method_of md) + 8 < 2 ^ 64"
  "0 < md_size (method_of md)"
  by (cases md; simp add: EVP_MAX_MD_SIZE_def EVP_MAX_MD_BLOCK_SIZE_def)+

context evp_method
begin

text \<open>A context that has been given \<open>m\<close>, and one on which a digest can be started.\<close>

definition ctx_seen :: "'p evp_md_ctx \<Rightarrow> u8 list \<Rightarrow> bool" where
  "ctx_seen ctx m \<longleftrightarrow> cx_digest ctx = Some md \<and> cx_pctx ctx = None \<and> (\<exists>st. cx_md_data ctx = Some st \<and> seen st m)"

definition ctx_usable :: "'p evp_md_ctx \<Rightarrow> bool" where
  "ctx_usable ctx \<longleftrightarrow> cx_pctx ctx = None \<and> (cx_digest ctx = Some md \<longrightarrow> (\<exists>st. cx_md_data ctx = Some st \<and> usable st))"

lemma ctx_seen_usable: "ctx_seen ctx m \<Longrightarrow> ctx_usable ctx"
  using seen_usable by (auto simp: ctx_seen_def ctx_usable_def)

lemma ctx_init_usable: "ctx_usable EVP_MD_CTX_init"
  by (simp add: ctx_usable_def EVP_MD_CTX_init_def)

lemma DigestInit_seen:
  assumes "malloc_ok ml" and "ctx_usable ctx"
  shows "(\<exists>ctx'. EVP_DigestInit_ex ml ctx (Some md) = Some (True, ctx') \<and> ctx_seen ctx' []) \<or>
    EVP_DigestInit_ex ml ctx (Some md) = Some (False, ctx) \<and> cx_digest ctx \<noteq> Some md \<and>
      OPENSSL_malloc ml (md_ctx_size (method_of md)) = None"
proof (cases "cx_digest ctx = Some md")
  case True
  then obtain st where "cx_md_data ctx = Some st" "usable st" "cx_pctx ctx = None" using assms(2) by (auto simp: ctx_usable_def)
  with init_seen [of st] True show ?thesis by (auto simp: EVP_DigestInit_ex_def Let_def ctx_seen_def)
next
  case False
  show ?thesis
  proof (cases "OPENSSL_malloc ml (md_ctx_size (method_of md))")
    case None
    then show ?thesis using False by (simp add: EVP_DigestInit_ex_def Let_def)
  next
    case (Some p)
    then have "length p = md_ctx_size (method_of md)"
      using OPENSSL_malloc_length [OF assms(1)] method_sizes(4) by blast
    with init_seen [OF block_usable] obtain st' where "md_init (method_of md) (block_state md p) = Some st'" "seen st' []" by blast
    then show ?thesis using Some False assms(2) by (auto simp: EVP_DigestInit_ex_def Let_def ctx_seen_def ctx_usable_def)
  qed
qed

lemma DigestUpdate_seen:
  "ctx_seen ctx m \<Longrightarrow> \<exists>ctx'. EVP_DigestUpdate ctx x = Some ctx' \<and> ctx_seen ctx' (m @ x)"
  using update_seen [of _ m x] by (fastforce simp: ctx_seen_def EVP_DigestUpdate_def)

lemma DigestFinal_hash:
  "ctx_seen ctx m \<Longrightarrow>
    \<exists>ctx'. EVP_DigestFinal_ex ctx = Some (hash m, md_size (method_of md), ctx') \<and> ctx_usable ctx' \<and> cx_digest ctx' = Some md"
proof -
  assume "ctx_seen ctx m"
  then obtain st where st: "cx_digest ctx = Some md" "cx_md_data ctx = Some st" "seen st m" "cx_pctx ctx = None"
    by (auto simp: ctx_seen_def)
  from final_hash [OF st(3)] obtain st' where "md_final (method_of md) st = Some (hash m, st')" by blast
  then show ?thesis
    using st method_sizes(1) [of md] block_usable [of "replicate (md_ctx_size (method_of md)) 0"]
    by (simp add: EVP_DigestFinal_ex_def ctx_usable_def)
qed

lemma ctx_copy_seen:
  assumes "ctx_seen inp m" and "ctx_usable out"
  shows "(\<exists>out'. EVP_MD_CTX_copy_ex ml out (Some inp) = Some (True, out') \<and> ctx_seen out' m) \<or>
    EVP_MD_CTX_copy_ex ml out (Some inp) = Some (False, out) \<and> cx_digest out \<noteq> Some md \<and>
      OPENSSL_malloc ml (md_ctx_size (method_of md)) = None"
  using assms
  by (auto simp: EVP_MD_CTX_copy_ex_def EVP_MD_CTX_cleanup_def EVP_MD_CTX_init_def ctx_seen_def ctx_usable_def Let_def)

end

text \<open>The digest of a message, or a lack of memory.\<close>

lemma EVP_Digest_hash:
  assumes "malloc_ok ml"
  shows "EVP_Digest ml data (Some md) =
    Some (if OPENSSL_malloc ml (md_ctx_size (method_of md)) = None then (False, None)
          else (True, Some (evp_hash md data, md_size (method_of md))))"
proof -
  note init = evp.DigestInit_seen [OF assms evp.ctx_init_usable, of md, where 'a = unit]
  have d: "cx_digest EVP_MD_CTX_init \<noteq> Some md" by (simp add: EVP_MD_CTX_init_def)
  show ?thesis
  proof (cases "OPENSSL_malloc ml (md_ctx_size (method_of md)) = None")
    case True
    then show ?thesis by (simp add: EVP_Digest_def EVP_DigestInit_ex_def d EVP_MD_CTX_cleanup_def) (simp add: EVP_MD_CTX_init_def)
  next
    case False
    with init obtain c1 where c1: "EVP_DigestInit_ex ml EVP_MD_CTX_init (Some md) = Some (True, c1 :: unit evp_md_ctx)" "evp.ctx_seen md c1 []"
      by blast
    from evp.DigestUpdate_seen [OF c1(2), of data] obtain c2 where c2: "EVP_DigestUpdate c1 data = Some c2" "evp.ctx_seen md c2 data" by auto
    from evp.DigestFinal_hash [OF c2(2)] obtain c3 where "EVP_DigestFinal_ex c2 = Some (evp_hash md data, md_size (method_of md), c3)" "evp.ctx_usable md c3"
      by blast
    then show ?thesis using c1(1) c2(1) False by (simp add: EVP_Digest_def EVP_MD_CTX_cleanup_def evp.ctx_usable_def)
  qed
qed

end
