(* ===== verification/Hmac.thy ===== *)
theory Hmac
  imports Evp_Digest
begin

text \<open>
  \<open>crypto/fipsmodule/hmac/hmac.c\<close> over the digests of \<open>Evp_Digest\<close>.  The
  allocator of a function that allocates more than once is a family: \<open>mls i\<close> answers
  the call with the number \<open>i\<close> in the order of the code.
\<close>

section \<open>The code of HMAC\<close>

record 'p hmac_ctx =
  hm_md :: "evp_md option"
  hm_md_ctx :: "'p evp_md_ctx"
  hm_i_ctx :: "'p evp_md_ctx"
  hm_o_ctx :: "'p evp_md_ctx"

definition HMAC_CTX_init :: "'p hmac_ctx" where
  "HMAC_CTX_init = \<lparr>hm_md = None, hm_md_ctx = EVP_MD_CTX_init, hm_i_ctx = EVP_MD_CTX_init, hm_o_ctx = EVP_MD_CTX_init\<rparr>"

text \<open>The context is cleared in the end, which leaves null pointers.\<close>

definition HMAC_CTX_cleanup :: "'p hmac_ctx \<Rightarrow> 'p hmac_ctx option" where
  "HMAC_CTX_cleanup ctx =
     (case (EVP_MD_CTX_cleanup (hm_i_ctx ctx), EVP_MD_CTX_cleanup (hm_o_ctx ctx), EVP_MD_CTX_cleanup (hm_md_ctx ctx)) of
        (Some i, Some out, Some md) \<Rightarrow> Some HMAC_CTX_init
      | _ \<Rightarrow> None)"

text \<open>An allocated context; \<open>sizeof(HMAC_CTX)\<close> is 104.\<close>

definition HMAC_CTX_new :: "allocator \<Rightarrow> 'p hmac_ctx option" where
  "HMAC_CTX_new ml = (case OPENSSL_malloc ml 104 of None \<Rightarrow> None | Some _ \<Rightarrow> Some HMAC_CTX_init)"

definition HMAC_CTX_free :: "'p hmac_ctx option \<Rightarrow> unit option" where
  "HMAC_CTX_free ctx =
     (case ctx of None \<Rightarrow> Some () | Some c \<Rightarrow> map_option (\<lambda>_. ()) (HMAC_CTX_cleanup c))"

definition HMAC_CTX_reset :: "'p hmac_ctx \<Rightarrow> 'p hmac_ctx option" where
  "HMAC_CTX_reset ctx = Option.bind (HMAC_CTX_cleanup ctx) (\<lambda>_. Some HMAC_CTX_init)"

text \<open>The block of the key, hashed when it is long and padded with zeros; no block when memory is short.\<close>

definition hmac_key_block ::
    "allocator \<Rightarrow> 'p evp_md_ctx \<Rightarrow> u8 list \<Rightarrow> evp_md \<Rightarrow> (u8 list option \<times> 'p evp_md_ctx) option"
where
  "hmac_key_block ml md_ctx key md =
     (let block_size = md_block_size (method_of md);
          fill = (\<lambda>key_block. key_block @ replicate (EVP_MAX_MD_BLOCK_SIZE - length key_block) 0)
      in if \<not> block_size \<le> EVP_MAX_MD_BLOCK_SIZE then None
         else if block_size < length key then
           (case EVP_DigestInit_ex ml md_ctx (Some md) of
              None \<Rightarrow> None
            | Some (ok, md_ctx) \<Rightarrow>
                if \<not> ok then Some (None, md_ctx)
                else (case EVP_DigestUpdate md_ctx key of
                        None \<Rightarrow> None
                      | Some md_ctx \<Rightarrow>
                          (case EVP_DigestFinal_ex md_ctx of
                             None \<Rightarrow> None
                           | Some (key_block, key_block_len, md_ctx) \<Rightarrow>
                               Some (Some (fill (take key_block_len key_block)), md_ctx))))
         else if length key \<le> EVP_MAX_MD_BLOCK_SIZE then Some (Some (fill key), md_ctx)
         else None)"

definition hmac_start_pad :: "allocator \<Rightarrow> 'p evp_md_ctx \<Rightarrow> evp_md \<Rightarrow> u8 list \<Rightarrow> (bool \<times> 'p evp_md_ctx) option" where
  "hmac_start_pad ml ctx md key_pad =
     (case EVP_DigestInit_ex ml ctx (Some md) of
        None \<Rightarrow> None
      | Some (ok, ctx) \<Rightarrow>
          if \<not> ok then Some (False, ctx)
          else map_option (\<lambda>ctx. (True, ctx)) (EVP_DigestUpdate ctx (take (md_block_size (method_of md)) key_pad)))"

definition hmac_rewind :: "allocator \<Rightarrow> 'p hmac_ctx \<Rightarrow> (bool \<times> 'p hmac_ctx) option" where
  "hmac_rewind ml ctx =
     map_option (\<lambda>(ok, c). (ok, ctx\<lparr>hm_md_ctx := c\<rparr>)) (EVP_MD_CTX_copy_ex ml (hm_md_ctx ctx) (Some (hm_i_ctx ctx)))"

text \<open>\<open>key\<close> and \<open>md\<close> may be null; the length of a null key is zero.\<close>

definition key_bytes :: "u8 list option \<Rightarrow> u8 list" where
  "key_bytes key = (case key of None \<Rightarrow> [] | Some k \<Rightarrow> k)"

definition HMAC_Init_ex ::
    "(nat \<Rightarrow> allocator) \<Rightarrow> 'p hmac_ctx \<Rightarrow> u8 list option \<Rightarrow> evp_md option \<Rightarrow> (bool \<times> 'p hmac_ctx) option"
where
  "HMAC_Init_ex mls ctx key md =
     (let md = (if md = None then hm_md ctx else md)
      in if md \<noteq> hm_md ctx \<or> key \<noteq> None then
           (case md of
              None \<Rightarrow> None
            | Some m \<Rightarrow>
                (case hmac_key_block (mls 0) (hm_md_ctx ctx) (key_bytes key) m of
                   None \<Rightarrow> None
                 | Some (None, c) \<Rightarrow> Some (False, ctx\<lparr>hm_md_ctx := c\<rparr>)
                 | Some (Some key_block, c) \<Rightarrow>
                     let ctx = ctx\<lparr>hm_md_ctx := c\<rparr>
                     in (case hmac_start_pad (mls 1) (hm_i_ctx ctx) m (map (\<lambda>b. 0x36 XOR b) key_block) of
                           None \<Rightarrow> None
                         | Some (ok, c) \<Rightarrow>
                             let ctx = ctx\<lparr>hm_i_ctx := c\<rparr>
                             in if \<not> ok then Some (False, ctx)
                                else (case hmac_start_pad (mls 2) (hm_o_ctx ctx) m (map (\<lambda>b. 0x5c XOR b) key_block) of
                                        None \<Rightarrow> None
                                      | Some (ok, c) \<Rightarrow>
                                          let ctx = ctx\<lparr>hm_o_ctx := c\<rparr>
                                          in if \<not> ok then Some (False, ctx)
                                             else hmac_rewind (mls 3) (ctx\<lparr>hm_md := Some m\<rparr>)))))
         else hmac_rewind (mls 3) ctx)"

definition HMAC_Update :: "'p hmac_ctx \<Rightarrow> u8 list \<Rightarrow> 'p hmac_ctx option" where
  "HMAC_Update ctx data = map_option (\<lambda>c. ctx\<lparr>hm_md_ctx := c\<rparr>) (EVP_DigestUpdate (hm_md_ctx ctx) data)"

text \<open>
  The bytes written, or no bytes when a copy of the context fails; then the code stores a zero
  through \<open>out_len\<close>, which must not be null.
\<close>

definition HMAC_Final :: "allocator \<Rightarrow> 'p hmac_ctx \<Rightarrow> bool \<Rightarrow> (u8 list option \<times> 'p hmac_ctx) option" where
  "HMAC_Final ml ctx out_len_given =
     (case EVP_DigestFinal_ex (hm_md_ctx ctx) of
        None \<Rightarrow> None
      | Some (buf, i, c) \<Rightarrow>
          (case EVP_MD_CTX_copy_ex ml c (Some (hm_o_ctx ctx)) of
             None \<Rightarrow> None
           | Some (ok, c) \<Rightarrow>
               if \<not> ok then (if out_len_given then Some (None, ctx\<lparr>hm_md_ctx := c\<rparr>) else None)
               else (case EVP_DigestUpdate c (take i buf) of
                       None \<Rightarrow> None
                     | Some c \<Rightarrow>
                         (case EVP_DigestFinal_ex c of
                            None \<Rightarrow> None
                          | Some (out, out_len, c) \<Rightarrow> Some (Some (take out_len out), ctx\<lparr>hm_md_ctx := c\<rparr>)))))"

definition HMAC_size :: "'p hmac_ctx \<Rightarrow> nat option" where
  "HMAC_size ctx = EVP_MD_size (hm_md ctx)"

definition HMAC_CTX_copy_ex :: "(nat \<Rightarrow> allocator) \<Rightarrow> 'p hmac_ctx \<Rightarrow> 'p hmac_ctx \<Rightarrow> (bool \<times> 'p hmac_ctx) option" where
  "HMAC_CTX_copy_ex mls dest src =
     (case EVP_MD_CTX_copy_ex (mls 0) (hm_i_ctx dest) (Some (hm_i_ctx src)) of
        None \<Rightarrow> None
      | Some (ok, c) \<Rightarrow>
          let dest = dest\<lparr>hm_i_ctx := c\<rparr>
          in if \<not> ok then Some (False, dest)
             else (case EVP_MD_CTX_copy_ex (mls 1) (hm_o_ctx dest) (Some (hm_o_ctx src)) of
                     None \<Rightarrow> None
                   | Some (ok, c) \<Rightarrow>
                       let dest = dest\<lparr>hm_o_ctx := c\<rparr>
                       in if \<not> ok then Some (False, dest)
                          else (case EVP_MD_CTX_copy_ex (mls 2) (hm_md_ctx dest) (Some (hm_md_ctx src)) of
                                  None \<Rightarrow> None
                                | Some (ok, c) \<Rightarrow>
                                    let dest = dest\<lparr>hm_md_ctx := c\<rparr>
                                    in if \<not> ok then Some (False, dest) else Some (True, dest\<lparr>hm_md := hm_md src\<rparr>))))"

definition HMAC_CTX_copy :: "(nat \<Rightarrow> allocator) \<Rightarrow> 'p hmac_ctx \<Rightarrow> (bool \<times> 'p hmac_ctx) option" where
  "HMAC_CTX_copy mls src = HMAC_CTX_copy_ex mls HMAC_CTX_init src"

definition HMAC_Init ::
    "(nat \<Rightarrow> allocator) \<Rightarrow> 'p hmac_ctx \<Rightarrow> u8 list option \<Rightarrow> evp_md option \<Rightarrow> (bool \<times> 'p hmac_ctx) option" where
  "HMAC_Init mls ctx key md = HMAC_Init_ex mls (if key \<noteq> None \<and> md \<noteq> None then HMAC_CTX_init else ctx) key md"

text \<open>The bytes written, or none when the function returns a null pointer.\<close>

definition HMAC :: "(nat \<Rightarrow> allocator) \<Rightarrow> evp_md option \<Rightarrow> u8 list option \<Rightarrow> u8 list \<Rightarrow> u8 list option option" where
  "HMAC mls evp_md key data =
     (case HMAC_Init_ex mls (HMAC_CTX_init :: unit hmac_ctx) key evp_md of
        None \<Rightarrow> None
      | Some (ok, ctx) \<Rightarrow>
          if \<not> ok then map_option (\<lambda>_. None) (HMAC_CTX_cleanup ctx)
          else (case HMAC_Update ctx data of
                  None \<Rightarrow> None
                | Some ctx \<Rightarrow>
                    (case HMAC_Final (mls 4) ctx True of
                       None \<Rightarrow> None
                     | Some (out, ctx) \<Rightarrow> map_option (\<lambda>_. out) (HMAC_CTX_cleanup ctx))))"

section \<open>RFC 2104\<close>

definition hmac_key :: "nat \<Rightarrow> (u8 list \<Rightarrow> u8 list) \<Rightarrow> u8 list \<Rightarrow> u8 list" where
  "hmac_key B H key = (let k = (if B < length key then H key else key) in k @ replicate (B - length k) 0)"

definition hmac_spec :: "nat \<Rightarrow> (u8 list \<Rightarrow> u8 list) \<Rightarrow> u8 list \<Rightarrow> u8 list \<Rightarrow> u8 list" where
  "hmac_spec B H key m =
     H (map (\<lambda>b. b XOR 0x5c) (hmac_key B H key) @ H (map (\<lambda>b. b XOR 0x36) (hmac_key B H key) @ m))"

section \<open>The code computes it\<close>

lemma take_key_pad:
  assumes "length k \<le> B" and "B \<le> N"
  shows "take B (map f (k @ replicate (N - length k) 0)) = map f (k @ replicate (B - length k) 0)"
  using assms by (simp add: take_map min_def)

context evp_method
begin

abbreviation block_size :: nat where "block_size \<equiv> md_block_size (method_of md)"

abbreviation has_memory :: "allocator \<Rightarrow> bool" where
  "has_memory ml \<equiv> OPENSSL_malloc ml (md_ctx_size (method_of md)) \<noteq> None"

definition key_pad :: "u8 \<Rightarrow> u8 list \<Rightarrow> u8 list" where
  "key_pad v key = map (\<lambda>b. v XOR b) (hmac_key block_size hash key)"

text \<open>A context that is keyed, and one that in addition has been given the message \<open>m\<close>.\<close>

definition hmac_keyed :: "u8 list \<Rightarrow> 'p hmac_ctx \<Rightarrow> bool" where
  "hmac_keyed key ctx \<longleftrightarrow> hm_md ctx = Some md \<and> ctx_seen (hm_i_ctx ctx) (key_pad 0x36 key) \<and>
     ctx_seen (hm_o_ctx ctx) (key_pad 0x5c key) \<and> ctx_usable (hm_md_ctx ctx) \<and> cx_digest (hm_md_ctx ctx) = Some md"

definition hmac_running :: "u8 list \<Rightarrow> 'p hmac_ctx \<Rightarrow> u8 list \<Rightarrow> bool" where
  "hmac_running key ctx m \<longleftrightarrow> hm_md ctx = Some md \<and> ctx_seen (hm_i_ctx ctx) (key_pad 0x36 key) \<and>
     ctx_seen (hm_o_ctx ctx) (key_pad 0x5c key) \<and> ctx_seen (hm_md_ctx ctx) (key_pad 0x36 key @ m)"

definition hmac_clean :: "'p hmac_ctx \<Rightarrow> bool" where
  "hmac_clean ctx \<longleftrightarrow> ctx_usable (hm_i_ctx ctx) \<and> ctx_usable (hm_o_ctx ctx) \<and> ctx_usable (hm_md_ctx ctx)"

lemma hmac_key_length: "length (hash x) \<le> block_size"
  using hash_size method_sizes(3) [of md] by simp

lemma key_block:
  assumes "malloc_ok ml" and "ctx_usable ctx"
  shows "(\<exists>kb ctx'. hmac_key_block ml ctx key md = Some (Some kb, ctx') \<and> ctx_usable ctx' \<and>
        (\<forall>f :: u8 \<Rightarrow> u8. take block_size (map f kb) = map f (hmac_key block_size hash key))) \<or>
      hmac_key_block ml ctx key md = Some (None, ctx) \<and> \<not> has_memory ml"
proof (cases "block_size < length key")
  case False
  then have "hmac_key_block ml ctx key md = Some (Some (key @ replicate (EVP_MAX_MD_BLOCK_SIZE - length key) 0), ctx)"
    using method_sizes(2) [of md] by (simp add: hmac_key_block_def Let_def)
  then show ?thesis
    using False assms(2) take_key_pad [of key block_size EVP_MAX_MD_BLOCK_SIZE] method_sizes(2) [of md] by (simp add: hmac_key_def Let_def)
next
  case True
  from DigestInit_seen [OF assms] show ?thesis
  proof
    assume "\<exists>ctx'. EVP_DigestInit_ex ml ctx (Some md) = Some (True, ctx') \<and> ctx_seen ctx' []"
    then obtain c1 where c1: "EVP_DigestInit_ex ml ctx (Some md) = Some (True, c1)" "ctx_seen c1 []" by blast
    from DigestUpdate_seen [OF c1(2), of key] obtain c2 where c2: "EVP_DigestUpdate c1 key = Some c2" "ctx_seen c2 key" by auto
    from DigestFinal_hash [OF c2(2)] obtain c3 where
      c3: "EVP_DigestFinal_ex c2 = Some (hash key, md_size (method_of md), c3)" "ctx_usable c3" by blast
    have "hmac_key_block ml ctx key md = Some (Some (hash key @ replicate (EVP_MAX_MD_BLOCK_SIZE - length (hash key)) 0), c3)"
      using True method_sizes(2) [of md] c1(1) c2(1) c3(1) by (simp add: hmac_key_block_def Let_def hash_size)
    moreover have "take block_size (map f (hash key @ replicate (EVP_MAX_MD_BLOCK_SIZE - length (hash key)) 0)) =
        map f (hmac_key block_size hash key)" for f :: "u8 \<Rightarrow> u8"
      using take_key_pad [OF hmac_key_length [of key] method_sizes(2) [of md], of f] True by (simp add: hmac_key_def Let_def)
    ultimately show ?thesis using c3(2) by blast
  next
    assume "EVP_DigestInit_ex ml ctx (Some md) = Some (False, ctx) \<and> cx_digest ctx \<noteq> Some md \<and>
      OPENSSL_malloc ml (md_ctx_size (method_of md)) = None"
    then show ?thesis using True method_sizes(2) [of md] by (simp add: hmac_key_block_def Let_def)
  qed
qed

lemma start_pad:
  assumes "malloc_ok ml" and "ctx_usable ctx" and "take block_size pd = p"
  shows "(\<exists>ctx'. hmac_start_pad ml ctx md pd = Some (True, ctx') \<and> ctx_seen ctx' p) \<or>
      hmac_start_pad ml ctx md pd = Some (False, ctx) \<and> \<not> has_memory ml"
  using DigestInit_seen [OF assms(1,2)]
proof
  assume "\<exists>ctx'. EVP_DigestInit_ex ml ctx (Some md) = Some (True, ctx') \<and> ctx_seen ctx' []"
  then obtain c1 where c1: "EVP_DigestInit_ex ml ctx (Some md) = Some (True, c1)" "ctx_seen c1 []" by blast
  from DigestUpdate_seen [OF c1(2), of p] show ?thesis using c1(1) assms(3) by (auto simp: hmac_start_pad_def)
qed (simp add: hmac_start_pad_def)

lemma rewind:
  assumes "ctx_seen (hm_i_ctx ctx) (key_pad 0x36 key)" and "ctx_seen (hm_o_ctx ctx) (key_pad 0x5c key)"
    and "hm_md ctx = Some md" and "ctx_usable (hm_md_ctx ctx)"
  shows "(\<exists>ctx'. hmac_rewind ml ctx = Some (True, ctx') \<and> hmac_running key ctx' []) \<or>
      hmac_rewind ml ctx = Some (False, ctx) \<and> cx_digest (hm_md_ctx ctx) \<noteq> Some md \<and> \<not> has_memory ml"
  using ctx_copy_seen [OF assms(1,4), of ml] assms by (auto simp: hmac_rewind_def hmac_running_def)

text \<open>The three ways to initialize: with a key, again with the same key, and without memory.\<close>

lemma HMAC_Init_key:
  assumes ok: "\<And>i. malloc_ok (mls i)" and clean: "hmac_clean ctx" and new: "hm_md ctx \<noteq> Some md \<or> key \<noteq> None"
  shows "(\<exists>ctx'. HMAC_Init_ex mls ctx key (Some md) = Some (True, ctx') \<and> hmac_running (key_bytes key) ctx' []) \<or>
      (\<exists>ctx'. HMAC_Init_ex mls ctx key (Some md) = Some (False, ctx') \<and> hmac_clean ctx') \<and> (\<exists>i < 4. \<not> has_memory (mls i))"
proof -
  have n: "Some md \<noteq> hm_md ctx \<or> key \<noteq> None" using new by auto
  have u: "ctx_usable (hm_i_ctx ctx)" "ctx_usable (hm_o_ctx ctx)" "ctx_usable (hm_md_ctx ctx)" using clean by (simp_all add: hmac_clean_def)
  have kb: "(\<exists>kb c. hmac_key_block (mls 0) (hm_md_ctx ctx) (key_bytes key) md = Some (Some kb, c) \<and> ctx_usable c \<and>
      (\<forall>f :: u8 \<Rightarrow> u8. take block_size (map f kb) = map f (hmac_key block_size hash (key_bytes key)))) \<or>
    hmac_key_block (mls 0) (hm_md_ctx ctx) (key_bytes key) md = Some (None, hm_md_ctx ctx) \<and> \<not> has_memory (mls 0)"
    by (rule key_block [OF ok u(3)])
  show ?thesis
  proof (cases "hmac_key_block (mls 0) (hm_md_ctx ctx) (key_bytes key) md = Some (None, hm_md_ctx ctx)")
    case True
    then have "\<not> has_memory (mls 0)" using kb by auto
    then have "\<exists>i < 4. \<not> has_memory (mls i)" by (intro exI [of _ 0]) simp
    then show ?thesis using True clean n by (auto simp: HMAC_Init_ex_def Let_def)
  next
    case False
    with kb obtain kb c where c: "hmac_key_block (mls 0) (hm_md_ctx ctx) (key_bytes key) md = Some (Some kb, c)" "ctx_usable c"
      and t: "\<And>f :: u8 \<Rightarrow> u8. take block_size (map f kb) = map f (hmac_key block_size hash (key_bytes key))" by blast
    from start_pad [OF ok u(1) t [of "\<lambda>b. 0x36 XOR b"], of 1] start_pad [OF ok u(2) t [of "\<lambda>b. 0x5c XOR b"], of 2]
    consider (i) "hmac_start_pad (mls 1) (hm_i_ctx ctx) md (map (\<lambda>b. 0x36 XOR b) kb) = Some (False, hm_i_ctx ctx)" "\<not> has_memory (mls 1)"
      | (out) ic where "hmac_start_pad (mls 1) (hm_i_ctx ctx) md (map (\<lambda>b. 0x36 XOR b) kb) = Some (True, ic)" "ctx_seen ic (key_pad 0x36 (key_bytes key))"
        "hmac_start_pad (mls 2) (hm_o_ctx ctx) md (map (\<lambda>b. 0x5c XOR b) kb) = Some (False, hm_o_ctx ctx)" "\<not> has_memory (mls 2)"
      | (both) ic oc where "hmac_start_pad (mls 1) (hm_i_ctx ctx) md (map (\<lambda>b. 0x36 XOR b) kb) = Some (True, ic)" "ctx_seen ic (key_pad 0x36 (key_bytes key))"
        "hmac_start_pad (mls 2) (hm_o_ctx ctx) md (map (\<lambda>b. 0x5c XOR b) kb) = Some (True, oc)" "ctx_seen oc (key_pad 0x5c (key_bytes key))"
      unfolding key_pad_def by blast
    then show ?thesis
    proof cases
      case i
      have "\<exists>i < 4. \<not> has_memory (mls i)" by (rule exI [of _ 1]) (use i(2) in simp)
      then show ?thesis using i(1) c u n by (auto simp: HMAC_Init_ex_def Let_def hmac_clean_def)
    next
      case out
      have "\<exists>i < 4. \<not> has_memory (mls i)" by (rule exI [of _ 2]) (use out(4) in simp)
      then show ?thesis using out(1-3) c u n ctx_seen_usable [of ic] by (auto simp: HMAC_Init_ex_def Let_def hmac_clean_def)
    next
      case both
      define ctx1 where "ctx1 = ctx\<lparr>hm_md_ctx := c, hm_i_ctx := ic, hm_o_ctx := oc, hm_md := Some md\<rparr>"
      have "HMAC_Init_ex mls ctx key (Some md) = hmac_rewind (mls 3) ctx1"
        using c(1) both(1,3) n by (simp add: HMAC_Init_ex_def Let_def ctx1_def)
      moreover have "hmac_clean ctx1" using c(2) both ctx_seen_usable by (auto simp: hmac_clean_def ctx1_def)
      moreover have "\<exists>i < 4. \<not> has_memory (mls i)" if "\<not> has_memory (mls 3)" by (rule exI [of _ 3]) (use that in simp)
      ultimately show ?thesis using rewind [of ctx1 "key_bytes key" "mls 3"] both(2,4) c(2) by (auto simp: ctx1_def)
    qed
  qed
qed

lemma HMAC_Init_again:
  assumes "hmac_keyed key ctx"
  shows "\<exists>ctx'. HMAC_Init_ex mls ctx None None = Some (True, ctx') \<and> hmac_running key ctx' []"
  using rewind [of ctx key "mls 3"] assms by (auto simp: HMAC_Init_ex_def Let_def hmac_keyed_def)

lemma HMAC_Update_running:
  "hmac_running key ctx m \<Longrightarrow> \<exists>ctx'. HMAC_Update ctx x = Some ctx' \<and> hmac_running key ctx' (m @ x)"
  using DigestUpdate_seen [of "hm_md_ctx ctx" "key_pad 0x36 key @ m" x] by (auto simp: HMAC_Update_def hmac_running_def)

lemma HMAC_Final_running:
  assumes "hmac_running key ctx m"
  shows "\<exists>ctx'. HMAC_Final ml ctx g = Some (Some (hmac_spec block_size hash key m), ctx') \<and> hmac_keyed key ctx'"
proof -
  have s: "ctx_seen (hm_md_ctx ctx) (key_pad 0x36 key @ m)" "ctx_seen (hm_o_ctx ctx) (key_pad 0x5c key)"
    using assms by (simp_all add: hmac_running_def)
  from DigestFinal_hash [OF s(1)] obtain c1 where
    c1: "EVP_DigestFinal_ex (hm_md_ctx ctx) = Some (hash (key_pad 0x36 key @ m), md_size (method_of md), c1)" "ctx_usable c1" "cx_digest c1 = Some md"
    by blast
  from ctx_copy_seen [OF s(2) c1(2), of ml] c1(3) obtain c2 where
    c2: "EVP_MD_CTX_copy_ex ml c1 (Some (hm_o_ctx ctx)) = Some (True, c2)" "ctx_seen c2 (key_pad 0x5c key)" by blast
  from DigestUpdate_seen [OF c2(2), of "hash (key_pad 0x36 key @ m)"] obtain c3 where
    c3: "EVP_DigestUpdate c2 (hash (key_pad 0x36 key @ m)) = Some c3" "ctx_seen c3 (key_pad 0x5c key @ hash (key_pad 0x36 key @ m))" by blast
  from DigestFinal_hash [OF c3(2)] obtain c4 where
    c4: "EVP_DigestFinal_ex c3 = Some (hash (key_pad 0x5c key @ hash (key_pad 0x36 key @ m)), md_size (method_of md), c4)"
      "ctx_usable c4" "cx_digest c4 = Some md" by blast
  show ?thesis
    using assms c1(1) c2(1) c3(1) c4
    by (simp add: HMAC_Final_def hash_size hmac_keyed_def hmac_running_def hmac_spec_def key_pad_def xor.commute)
qed

end

section \<open>HMAC\<close>

lemma HMAC_clean_cleanup: "evp.hmac_clean md ctx \<Longrightarrow> HMAC_CTX_cleanup ctx = Some HMAC_CTX_init"
  by (simp add: HMAC_CTX_cleanup_def evp.hmac_clean_def evp.ctx_usable_def EVP_MD_CTX_cleanup_def)

lemma HMAC_running_clean: "evp.hmac_running md key ctx m \<Longrightarrow> evp.hmac_clean md ctx"
  using evp.ctx_seen_usable by (auto simp: evp.hmac_running_def evp.hmac_clean_def)

lemma HMAC_keyed_clean: "evp.hmac_keyed md key ctx \<Longrightarrow> evp.hmac_clean md ctx"
  using evp.ctx_seen_usable by (auto simp: evp.hmac_keyed_def evp.hmac_clean_def)

lemma HMAC_init_clean: "evp.hmac_clean md HMAC_CTX_init"
  by (simp add: evp.hmac_clean_def HMAC_CTX_init_def evp.ctx_init_usable)

text \<open>HMAC with one of the eight digests.\<close>

definition hmac_of :: "evp_md \<Rightarrow> u8 list \<Rightarrow> u8 list \<Rightarrow> u8 list" where
  "hmac_of md = hmac_spec (md_block_size (method_of md)) (evp_hash md)"

lemma length_hmac_of: "length (hmac_of md key m) = md_size (method_of md)"
  by (simp add: hmac_of_def hmac_spec_def evp.hash_size)

text \<open>The call for a whole message gives no bytes only when an allocation fails.\<close>

lemma HMAC_whole:
  assumes "\<And>i. malloc_ok (mls i)"
  shows "HMAC mls (Some md) key data = Some (Some (hmac_of md (key_bytes key) data)) \<or>
    HMAC mls (Some md) key data = Some None \<and> (\<exists>i < 4. OPENSSL_malloc (mls i) (md_ctx_size (method_of md)) = None)"
proof -
  have new: "hm_md (HMAC_CTX_init :: unit hmac_ctx) \<noteq> Some md \<or> key \<noteq> None" by (simp add: HMAC_CTX_init_def)
  from evp.HMAC_Init_key [OF assms HMAC_init_clean new] show ?thesis
  proof
    assume "\<exists>ctx'. HMAC_Init_ex mls HMAC_CTX_init key (Some md) = Some (True, ctx' :: unit hmac_ctx) \<and> evp.hmac_running md (key_bytes key) ctx' []"
    then obtain c1 where c1: "HMAC_Init_ex mls HMAC_CTX_init key (Some md) = Some (True, c1 :: unit hmac_ctx)" "evp.hmac_running md (key_bytes key) c1 []"
      by blast
    from evp.HMAC_Update_running [OF c1(2), of data] obtain c2 where c2: "HMAC_Update c1 data = Some c2" "evp.hmac_running md (key_bytes key) c2 data" by auto
    from evp.HMAC_Final_running [OF c2(2), of "mls 4" True] obtain c3 where
      c3: "HMAC_Final (mls 4) c2 True = Some (Some (hmac_of md (key_bytes key) data), c3)" "evp.hmac_keyed md (key_bytes key) c3"
      by (auto simp: hmac_of_def)
    show ?thesis using c1(1) c2(1) c3(1) HMAC_clean_cleanup [OF HMAC_keyed_clean [OF c3(2)]] by (simp add: HMAC_def)
  next
    assume f: "(\<exists>ctx'. HMAC_Init_ex mls HMAC_CTX_init key (Some md) = Some (False, ctx' :: unit hmac_ctx) \<and> evp.hmac_clean md ctx') \<and>
      (\<exists>i < 4. \<not> evp.has_memory md (mls i))"
    then obtain c1 where "HMAC_Init_ex mls HMAC_CTX_init key (Some md) = Some (False, c1 :: unit hmac_ctx)" "evp.hmac_clean md c1" by blast
    then have "HMAC mls (Some md) key data = Some None" using HMAC_clean_cleanup [of md c1] by (simp add: HMAC_def)
    then show ?thesis using f by simp
  qed
qed

definition HMAC_updates :: "'p hmac_ctx \<Rightarrow> u8 list list \<Rightarrow> 'p hmac_ctx option" where
  "HMAC_updates ctx pieces = foldl (\<lambda>c x. Option.bind c (\<lambda>c. HMAC_Update c x)) (Some ctx) pieces"

lemma HMAC_updates_running:
  "evp.hmac_running md key ctx m \<Longrightarrow> \<exists>ctx'. HMAC_updates ctx pieces = Some ctx' \<and> evp.hmac_running md key ctx' (m @ concat pieces)"
proof (induction pieces arbitrary: ctx m)
  case (Cons x pieces)
  from evp.HMAC_Update_running [OF Cons.prems, of x] obtain c where "HMAC_Update ctx x = Some c" "evp.hmac_running md key c (m @ x)" by blast
  with Cons.IH [of c "m @ x"] show ?case by (simp add: HMAC_updates_def)
qed (simp add: HMAC_updates_def)

text \<open>
  Once a context is initialized with a key and one of the eight digests, a message in any pieces gives
  the HMAC of RFC 2104 over the digest of its standard, and after a call to start again without
  a key the next message gives it for the same key; no call can fail any more, for want
  of memory or otherwise.
\<close>
theorem HMAC_rfc2104:
  assumes "\<And>i. malloc_ok (mls i)" and "HMAC_Init_ex mls HMAC_CTX_init (Some key) (Some md) = Some (True, ctx :: unit hmac_ctx)"
  shows "\<exists>c1 c2 c3 c4 c5.
    HMAC_updates ctx pieces = Some c1 \<and> HMAC_Final ml c1 False = Some (Some (hmac_of md key (concat pieces)), c2) \<and>
    HMAC_Init_ex mls' c2 None None = Some (True, c3) \<and>
    HMAC_updates c3 pieces' = Some c4 \<and> HMAC_Final ml' c4 False = Some (Some (hmac_of md key (concat pieces')), c5)"
proof -
  have "evp.hmac_running md key ctx []"
    using evp.HMAC_Init_key [of mls md "HMAC_CTX_init :: unit hmac_ctx" "Some key", OF assms(1) HMAC_init_clean] assms(2)
    by (auto simp: key_bytes_def)
  from HMAC_updates_running [OF this, of pieces] obtain c1 where
    c1: "HMAC_updates ctx pieces = Some c1" "evp.hmac_running md key c1 (concat pieces)" by auto
  from evp.HMAC_Final_running [OF c1(2), of ml False] obtain c2 where
    c2: "HMAC_Final ml c1 False = Some (Some (hmac_of md key (concat pieces)), c2)" "evp.hmac_keyed md key c2" by (auto simp: hmac_of_def)
  from evp.HMAC_Init_again [OF c2(2), of mls'] obtain c3 where
    c3: "HMAC_Init_ex mls' c2 None None = Some (True, c3)" "evp.hmac_running md key c3 []" by blast
  from HMAC_updates_running [OF c3(2), of pieces'] obtain c4 where
    c4: "HMAC_updates c3 pieces' = Some c4" "evp.hmac_running md key c4 (concat pieces')" by auto
  from evp.HMAC_Final_running [OF c4(2), of ml' False] c1(1) c2(1) c3(1) c4(1) show ?thesis by (auto simp: hmac_of_def)
qed

theorem HMAC_rfc2104_witness:
  "\<exists>ctx c1 c2 c3 c4 c5. HMAC_Init_ex (\<lambda>_. zero_malloc) HMAC_CTX_init (Some [1, 2]) (Some EVP_sha1) = Some (True, ctx :: unit hmac_ctx) \<and>
    HMAC_updates ctx [[3], [], [4]] = Some c1 \<and> HMAC_Final (\<lambda>_. None) c1 False = Some (Some (hmac_of EVP_sha1 [1, 2] (concat [[3], [], [4]])), c2) \<and>
    HMAC_Init_ex (\<lambda>_ _. None) c2 None None = Some (True, c3) \<and>
    HMAC_updates c3 [[5]] = Some c4 \<and> HMAC_Final (\<lambda>_. None) c4 False = Some (Some (hmac_of EVP_sha1 [1, 2] (concat [[5]])), c5)"
proof -
  have "\<exists>ctx. HMAC_Init_ex (\<lambda>_. zero_malloc) HMAC_CTX_init (Some [1, 2]) (Some EVP_sha1) = Some (True, ctx :: unit hmac_ctx)"
    using evp.HMAC_Init_key [of "\<lambda>_. zero_malloc" EVP_sha1 "HMAC_CTX_init :: unit hmac_ctx" "Some [1, 2]"] HMAC_init_clean by auto
  then obtain ctx where ctx: "HMAC_Init_ex (\<lambda>_. zero_malloc) HMAC_CTX_init (Some [1, 2]) (Some EVP_sha1) = Some (True, ctx :: unit hmac_ctx)" by blast
  with HMAC_rfc2104 [OF _ ctx, of "[[3], [], [4]]" "\<lambda>_. None" "\<lambda>_ _. None" "[[5]]" "\<lambda>_. None"] show ?thesis by auto
qed

end
