(* ===== verification/Hkdf.thy ===== *)
theory Hkdf
  imports Hmac
begin

text \<open>
  \<open>crypto/hkdf/hkdf.c\<close>: the derivation of keys from HMAC.  The result is \<open>None\<close> for a failed assertion,
  \<open>Some None\<close> when the function returns 0, and otherwise the bytes that are written.
\<close>

section \<open>The code\<close>





section \<open>RFC 5869\<close>



section \<open>The code computes it\<close>








end
