(* ===== verification/Lhash.thy ===== *)
theory Lhash
  imports Stack "HOL-Library.Multiset"
begin

text \<open>
  \<open>crypto/lhash/lhash.c\<close>: the chained hash table.  The array of buckets is a list of
  chains, a chain the list of its items from the head on.  A pointer to a \<open>next\<close> field
  (\<open>get_next_ptr_and_hash\<close>) is a bucket with a position in its chain, the length of the
  chain when it points to the final \<open>NULL\<close>.  The callbacks are parameters of the
  table, as in the code.
\<close>

section \<open>State\<close>

record 'd lhash_item =
  item_data :: 'd
  item_hash :: u32

record 'd lhash_st =
  num_items :: nat
  buckets :: "'d lhash_item list list"
  num_buckets :: nat
  callback_depth :: u32
  lh_comp :: "'d \<Rightarrow> 'd \<Rightarrow> int"
  lh_hash :: "'d \<Rightarrow> u32"

definition kMinNumBuckets :: nat where "kMinNumBuckets = 16"
definition kMaxAverageChainLength :: nat where "kMaxAverageChainLength = 2"
definition kMinAverageChainLength :: nat where "kMinAverageChainLength = 1"

section \<open>Operations\<close>

definition lh_new :: "allocator \<Rightarrow> ('d \<Rightarrow> u32) \<Rightarrow> ('d \<Rightarrow> 'd \<Rightarrow> int) \<Rightarrow> 'd lhash_st option" where
  "lh_new ml hash cmp =
     (if OPENSSL_malloc ml 48 = None then None
      else if OPENSSL_malloc ml (8 * kMinNumBuckets) = None then None
      else Some \<lparr>num_items = 0, buckets = replicate kMinNumBuckets [], num_buckets = kMinNumBuckets,
                 callback_depth = 0, lh_comp = cmp, lh_hash = hash\<rparr>)"

definition lh_num_items :: "'d lhash_st \<Rightarrow> nat" where
  "lh_num_items lh = num_items lh"

fun chain_position :: "('d \<Rightarrow> bool) \<Rightarrow> 'd lhash_item list \<Rightarrow> nat" where
  "chain_position P [] = 0"
| "chain_position P (cur # ret) = (if P (item_data cur) then 0 else Suc (chain_position P ret))"

text \<open>The bucket, the position in its chain, and the hash.\<close>

definition get_next_ptr_and_hash :: "'d lhash_st \<Rightarrow> 'd \<Rightarrow> nat \<times> nat \<times> u32" where
  "get_next_ptr_and_hash lh data =
     (let hash = lh_hash lh data; b = unat hash mod num_buckets lh
      in (b, chain_position (\<lambda>d. lh_comp lh d data = 0) (buckets lh ! b), hash))"

definition get_next_ptr_by_key :: "'d lhash_st \<Rightarrow> 'k \<Rightarrow> u32 \<Rightarrow> ('k \<Rightarrow> 'd \<Rightarrow> int) \<Rightarrow> nat \<times> nat" where
  "get_next_ptr_by_key lh key key_hash cmp_key =
     (let b = unat key_hash mod num_buckets lh
      in (b, chain_position (\<lambda>d. cmp_key key d = 0) (buckets lh ! b)))"

definition lh_retrieve :: "'d lhash_st \<Rightarrow> 'd \<Rightarrow> 'd option" where
  "lh_retrieve lh data =
     (case get_next_ptr_and_hash lh data of
        (b, i, _) \<Rightarrow>
          if i = length (buckets lh ! b) then None else Some (item_data (buckets lh ! b ! i)))"

definition lh_retrieve_key :: "'d lhash_st \<Rightarrow> 'k \<Rightarrow> u32 \<Rightarrow> ('k \<Rightarrow> 'd \<Rightarrow> int) \<Rightarrow> 'd option" where
  "lh_retrieve_key lh key key_hash cmp_key =
     (case get_next_ptr_by_key lh key key_hash cmp_key of
        (b, i) \<Rightarrow>
          if i = length (buckets lh ! b) then None else Some (item_data (buckets lh ! b ! i)))"

definition rehash_item ::
    "nat \<Rightarrow> 'd lhash_item list list \<Rightarrow> 'd lhash_item \<Rightarrow> 'd lhash_item list list"
where
  "rehash_item n new_buckets cur =
     (let new_bucket = unat (item_hash cur) mod n
      in new_buckets[new_bucket := cur # new_buckets ! new_bucket])"

definition lh_rebucket :: "allocator \<Rightarrow> nat \<Rightarrow> 'd lhash_st \<Rightarrow> 'd lhash_st" where
  "lh_rebucket ml new_num_buckets lh =
     (let alloc_size = wrap64 (8 * new_num_buckets)
      in if alloc_size div 8 \<noteq> new_num_buckets then lh
         else if OPENSSL_malloc ml alloc_size = None then lh
         else lh\<lparr>buckets := foldl (rehash_item new_num_buckets) (replicate new_num_buckets [])
                               (concat (buckets lh)),
                 num_buckets := new_num_buckets\<rparr>)"

definition lh_maybe_resize :: "allocator \<Rightarrow> 'd lhash_st \<Rightarrow> 'd lhash_st" where
  "lh_maybe_resize ml lh =
     (if callback_depth lh > 0 then lh
      else
        let avg_chain_length = num_items lh div num_buckets lh
        in if avg_chain_length > kMaxAverageChainLength then
             (let new_num_buckets = wrap64 (num_buckets lh * 2)
              in if new_num_buckets > num_buckets lh then lh_rebucket ml new_num_buckets lh else lh)
           else if avg_chain_length < kMinAverageChainLength \<and> num_buckets lh > kMinNumBuckets then
             (let new_num_buckets = num_buckets lh div 2;
                  new_num_buckets = (if new_num_buckets < kMinNumBuckets then kMinNumBuckets
                                     else new_num_buckets)
              in lh_rebucket ml new_num_buckets lh)
           else lh)"

text \<open>The result is the return value, \<open>*old_data\<close> and the table.\<close>

definition lh_insert :: "allocator \<Rightarrow> 'd lhash_st \<Rightarrow> 'd \<Rightarrow> bool \<times> 'd option \<times> 'd lhash_st" where
  "lh_insert ml lh data =
     (case get_next_ptr_and_hash lh data of
        (b, i, hash) \<Rightarrow>
          let chain = buckets lh ! b
          in if i < length chain then
               (True, Some (item_data (chain ! i)),
                lh\<lparr>buckets := (buckets lh)[b := chain[i := (chain ! i)\<lparr>item_data := data\<rparr>]]\<rparr>)
             else if OPENSSL_malloc ml 24 = None then (False, None, lh)
             else
               (True, None,
                lh_maybe_resize ml
                  (lh\<lparr>buckets := (buckets lh)[b := chain @ [\<lparr>item_data = data, item_hash = hash\<rparr>]],
                      num_items := num_items lh + 1\<rparr>)))"

definition lh_delete :: "allocator \<Rightarrow> 'd lhash_st \<Rightarrow> 'd \<Rightarrow> 'd option \<times> 'd lhash_st" where
  "lh_delete ml lh data =
     (case get_next_ptr_and_hash lh data of
        (b, i, _) \<Rightarrow>
          let chain = buckets lh ! b
          in if i = length chain then (None, lh)
             else
               (Some (item_data (chain ! i)),
                lh_maybe_resize ml
                  (lh\<lparr>buckets := (buckets lh)[b := take i chain @ drop (Suc i) chain],
                      num_items := num_items lh - 1\<rparr>)))"

text \<open>
  \<open>lh_doall_arg\<close> for a callback that works on its argument only; the depth keeps the
  buckets in place during the walk, and a resize that became due is made at the end.
\<close>

definition lh_doall_arg :: "allocator \<Rightarrow> ('d \<Rightarrow> 'a \<Rightarrow> 'a) \<Rightarrow> 'd lhash_st \<Rightarrow> 'a \<Rightarrow> 'a \<times> 'd lhash_st" where
  "lh_doall_arg ml func lh arg =
     (let lh = (if callback_depth lh < - 1 then lh\<lparr>callback_depth := callback_depth lh + 1\<rparr> else lh);
          arg = foldl (\<lambda>a cur. func (item_data cur) a) arg (concat (buckets lh));
          lh = (if callback_depth lh < - 1 then lh\<lparr>callback_depth := callback_depth lh - 1\<rparr> else lh)
      in (arg, lh_maybe_resize ml lh))"

definition lh_strhash :: "u8 list option \<Rightarrow> u32 option" where
  "lh_strhash str =
     (case str of
        None \<Rightarrow> Some 0
      | Some c \<Rightarrow> map_option (\<lambda>n. OPENSSL_hash32 (take n c)) (c_strlen c))"

section \<open>The table as a finite map\<close>

text \<open>What the callbacks must satisfy: equality of data is an equivalence that the hash respects.\<close>

locale hash_key =
  fixes cmp :: "'d \<Rightarrow> 'd \<Rightarrow> int" and hash :: "'d \<Rightarrow> u32"
  assumes eq_refl: "cmp x x = 0"
    and eq_sym: "cmp x y = 0 \<Longrightarrow> cmp y x = 0"
    and eq_trans: "cmp x y = 0 \<Longrightarrow> cmp y z = 0 \<Longrightarrow> cmp x z = 0"
    and eq_hash: "cmp x y = 0 \<Longrightarrow> hash x = hash y"
begin

lemma eq_left: "cmp x y = 0 \<Longrightarrow> cmp x z = 0 \<longleftrightarrow> cmp y z = 0"
  using eq_sym eq_trans by blast

lemma eq_right: "cmp x y = 0 \<Longrightarrow> cmp z x = 0 \<longleftrightarrow> cmp z y = 0"
  using eq_sym eq_trans by blast

end

definition lh_elems :: "'d lhash_st \<Rightarrow> 'd list" where
  "lh_elems lh = map item_data (concat (buckets lh))"

text \<open>The element that is stored for a given one.\<close>

definition lh_map :: "'d lhash_st \<Rightarrow> 'd \<Rightarrow> 'd option" where
  "lh_map lh d = find (\<lambda>e. lh_comp lh e d = 0) (lh_elems lh)"

text \<open>Every item is in the bucket of its hash, and no two elements are equal.\<close>

definition item_ok :: "('d \<Rightarrow> u32) \<Rightarrow> nat \<Rightarrow> nat \<Rightarrow> 'd lhash_item \<Rightarrow> bool" where
  "item_ok hash n b it \<longleftrightarrow> item_hash it = hash (item_data it) \<and> unat (item_hash it) mod n = b"

lemma item_ok_iff:
  "item_ok hash n b it \<longleftrightarrow>
     item_hash it = hash (item_data it) \<and> unat (hash (item_data it)) mod n = b"
  by (auto simp: item_ok_def)

definition buckets_ok :: "('d \<Rightarrow> u32) \<Rightarrow> 'd lhash_item list list \<Rightarrow> bool" where
  "buckets_ok hash bs \<longleftrightarrow>
     (\<forall>b < length bs. \<forall>it \<in> set (bs ! b). item_ok hash (length bs) b it)"

definition unequal :: "('d \<Rightarrow> 'd \<Rightarrow> int) \<Rightarrow> 'd list \<Rightarrow> bool" where
  "unequal cmp ds \<longleftrightarrow>
     distinct ds \<and> (\<forall>x \<in> set ds. \<forall>y \<in> set ds. cmp x y = 0 \<longrightarrow> x = y)"

definition lh_ok :: "'d lhash_st \<Rightarrow> bool" where
  "lh_ok lh \<longleftrightarrow>
     hash_key (lh_comp lh) (lh_hash lh) \<and>
     length (buckets lh) = num_buckets lh \<and> kMinNumBuckets \<le> num_buckets lh \<and>
     num_items lh = length (concat (buckets lh)) \<and>
     buckets_ok (lh_hash lh) (buckets lh) \<and>
     unequal (lh_comp lh) (lh_elems lh)"

section \<open>Chains and buckets\<close>

lemma chain_position_le: "chain_position P c \<le> length c"
  by (induction c) auto

lemma chain_position_hit:
  "chain_position P c < length c \<Longrightarrow> P (item_data (c ! chain_position P c))"
  by (induction c) auto

lemma chain_position_miss:
  "chain_position P c = length c \<longleftrightarrow> (\<forall>it \<in> set c. \<not> P (item_data it))"
  by (induction c) auto

lemma mset_concat_update:
  "i < length xs \<Longrightarrow> mset (concat (xs[i := ys])) + mset (xs ! i) = mset (concat xs) + mset ys"
proof (induction xs arbitrary: i)
  case Nil
  then show ?case by simp
next
  case (Cons x xs)
  show ?case
  proof (cases i)
    case 0
    then show ?thesis by (simp add: ac_simps)
  next
    case (Suc j)
    then have "mset (concat (xs[j := ys])) + mset (xs ! j) = mset (concat xs) + mset ys"
      using Cons by simp
    then show ?thesis using Suc by (simp add: ac_simps)
  qed
qed

lemma buckets_ok_update:
  "buckets_ok hash bs \<Longrightarrow> \<forall>it \<in> set c. item_ok hash (length bs) b it \<Longrightarrow> buckets_ok hash (bs[b := c])"
  unfolding buckets_ok_def by (metis length_list_update nth_list_update_eq nth_list_update_neq)

lemma buckets_okD:
  "buckets_ok hash bs \<Longrightarrow> c \<in> set bs \<Longrightarrow> it \<in> set c \<Longrightarrow> item_hash it = hash (item_data it)"
  unfolding buckets_ok_def item_ok_def by (metis in_set_conv_nth)

lemma rehash_items:
  assumes "0 < n" and "length nb = n" and "buckets_ok hash nb"
    and "\<forall>it \<in> set its. item_hash it = hash (item_data it)"
  shows "length (foldl (rehash_item n) nb its) = n"
    and "buckets_ok hash (foldl (rehash_item n) nb its)"
    and "mset (concat (foldl (rehash_item n) nb its)) = mset (concat nb) + mset its"
proof -
  have "length (foldl (rehash_item n) nb its) = n \<and> buckets_ok hash (foldl (rehash_item n) nb its) \<and>
      mset (concat (foldl (rehash_item n) nb its)) = mset (concat nb) + mset its"
    using assms(2-)
  proof (induction its arbitrary: nb)
    case Nil
    then show ?case by simp
  next
    case (Cons it its)
    define b where "b = unat (item_hash it) mod n"
    have b: "b < n" using assms(1) by (simp add: b_def)
    have r: "rehash_item n nb it = nb[b := it # nb ! b]" by (simp add: rehash_item_def b_def Let_def)
    have "item_ok hash (length nb) b it"
      using Cons.prems(1,3) by (simp add: item_ok_def b_def)
    moreover have "\<forall>it' \<in> set (nb ! b). item_ok hash (length nb) b it'"
      using Cons.prems(1,2) b unfolding buckets_ok_def by blast
    ultimately have "\<forall>it' \<in> set (it # nb ! b). item_ok hash (length nb) b it'" by simp
    then have ok: "buckets_ok hash (rehash_item n nb it)"
      unfolding r using Cons.prems(2) by (rule buckets_ok_update [rotated])
    have "mset (concat (nb[b := it # nb ! b])) = add_mset it (mset (concat nb))"
      using mset_concat_update [of b nb "it # nb ! b"] b Cons.prems(1) by simp
    then show ?case
      using Cons.IH [OF _ ok] Cons.prems r by simp
  qed
  then show "length (foldl (rehash_item n) nb its) = n"
    and "buckets_ok hash (foldl (rehash_item n) nb its)"
    and "mset (concat (foldl (rehash_item n) nb its)) = mset (concat nb) + mset its" by blast+
qed

lemma unequal_mset: "mset ds = mset ds' \<Longrightarrow> unequal cmp ds = unequal cmp ds'"
  using mset_eq_imp_distinct_iff [of ds ds'] mset_eq_setD [of ds ds'] by (simp add: unequal_def)

section \<open>Resizing\<close>

text \<open>A table with the same elements, whatever the buckets.\<close>

definition lh_same :: "'d lhash_st \<Rightarrow> 'd lhash_st \<Rightarrow> bool" where
  "lh_same lh lh' \<longleftrightarrow>
     lh_ok lh' \<and> mset (lh_elems lh') = mset (lh_elems lh) \<and>
     lh_comp lh' = lh_comp lh \<and> lh_hash lh' = lh_hash lh \<and> callback_depth lh' = callback_depth lh"

lemma lh_same_refl: "lh_ok lh \<Longrightarrow> lh_same lh lh"
  by (simp add: lh_same_def)

lemma lh_rebucket_same:
  assumes ok: "lh_ok lh" and n: "kMinNumBuckets \<le> n"
  shows "lh_same lh (lh_rebucket ml n lh)"
proof -
  define bs where "bs = foldl (rehash_item n) (replicate n []) (concat (buckets lh))"
  have n0: "0 < n" using n by (simp add: kMinNumBuckets_def)
  have old: "buckets_ok (lh_hash lh) (buckets lh)" using ok by (simp add: lh_ok_def)
  have "\<forall>it \<in> set (concat (buckets lh)). item_hash it = lh_hash lh (item_data it)"
    using buckets_okD [OF old] by auto
  moreover have "buckets_ok (lh_hash lh) (replicate n [])" by (simp add: buckets_ok_def)
  ultimately have bs: "length bs = n" "buckets_ok (lh_hash lh) bs"
    "mset (concat bs) = mset (concat (buckets lh))"
    using rehash_items [OF n0, of "replicate n []" "lh_hash lh" "concat (buckets lh)"]
    by (simp_all add: bs_def)
  define lh' where "lh' = lh\<lparr>buckets := bs, num_buckets := n\<rparr>"
  have el: "mset (lh_elems lh') = mset (lh_elems lh)"
    using bs(3) by (simp add: lh_elems_def lh'_def)
  have "length (concat bs) = length (concat (buckets lh))" using bs(3) by (metis size_mset)
  then have "lh_ok lh'"
    using ok bs n unequal_mset [OF el, of "lh_comp lh"] by (simp add: lh_ok_def lh'_def)
  then have "lh_same lh lh'" using el by (simp add: lh_same_def lh'_def)
  then show ?thesis
    using lh_same_refl [OF ok] by (simp add: lh_rebucket_def Let_def bs_def [symmetric] lh'_def [symmetric])
qed

lemma lh_maybe_resize_same: "lh_ok lh \<Longrightarrow> lh_same lh (lh_maybe_resize ml lh)"
  using lh_same_refl [of lh] lh_rebucket_same [of lh]
  by (auto simp: lh_maybe_resize_def Let_def lh_ok_def [of lh])

section \<open>Lookups\<close>

lemma lh_map_iff:
  assumes "lh_ok lh"
  shows "lh_map lh d = Some e \<longleftrightarrow> e \<in> set (lh_elems lh) \<and> lh_comp lh e d = 0"
proof -
  have k: "hash_key (lh_comp lh) (lh_hash lh)" and u: "unequal (lh_comp lh) (lh_elems lh)"
    using assms by (simp_all add: lh_ok_def)
  have uniq: "e1 = e2" if "e1 \<in> set (lh_elems lh)" "e2 \<in> set (lh_elems lh)"
    "lh_comp lh e1 d = 0" "lh_comp lh e2 d = 0" for e1 e2
    using u that hash_key.eq_sym [OF k that(4)] hash_key.eq_trans [OF k that(3)]
    by (simp add: unequal_def)
  show ?thesis
  proof
    assume "lh_map lh d = Some e"
    then show "e \<in> set (lh_elems lh) \<and> lh_comp lh e d = 0"
      by (auto simp: lh_map_def find_Some_iff in_set_conv_nth)
  next
    assume e: "e \<in> set (lh_elems lh) \<and> lh_comp lh e d = 0"
    then obtain e' where e': "lh_map lh d = Some e'"
      by (cases "lh_map lh d") (auto simp: lh_map_def find_None_iff)
    then have "e' \<in> set (lh_elems lh) \<and> lh_comp lh e' d = 0"
      by (auto simp: lh_map_def find_Some_iff in_set_conv_nth)
    then show "lh_map lh d = Some e" using e e' uniq by blast
  qed
qed

lemma lh_map_cong:
  assumes "lh_ok lh" and "lh_ok lh'" and "set (lh_elems lh') = set (lh_elems lh)"
    and "lh_comp lh' = lh_comp lh"
  shows "lh_map lh' = lh_map lh"
proof
  fix d
  have "lh_map lh' d = Some e \<longleftrightarrow> lh_map lh d = Some e" for e
    using assms by (simp add: lh_map_iff)
  then show "lh_map lh' d = lh_map lh d" by (metis not_Some_eq)
qed

lemma lh_same_map: "lh_ok lh \<Longrightarrow> lh_same lh lh' \<Longrightarrow> lh_map lh' = lh_map lh"
  by (rule lh_map_cong) (auto simp: lh_same_def dest: mset_eq_setD)

lemma lh_bucket_items:
  "lh_ok lh \<Longrightarrow> b < num_buckets lh \<Longrightarrow> it \<in> set (buckets lh ! b) \<Longrightarrow>
     item_ok (lh_hash lh) (num_buckets lh) b it"
  unfolding lh_ok_def buckets_ok_def by metis

text \<open>The equal element, if there is one, is in the chain that is searched.\<close>

lemma lh_chain:
  assumes ok: "lh_ok lh" and p: "get_next_ptr_and_hash lh d = (b, i, h)"
  shows "b < length (buckets lh)" and "h = lh_hash lh d" and "b = unat h mod num_buckets lh"
    and "i \<le> length (buckets lh ! b)"
    and "i < length (buckets lh ! b) \<Longrightarrow> lh_map lh d = Some (item_data (buckets lh ! b ! i))"
    and "i = length (buckets lh ! b) \<Longrightarrow> lh_map lh d = None"
proof -
  have hb: "h = lh_hash lh d" "b = unat h mod num_buckets lh"
    "i = chain_position (\<lambda>e. lh_comp lh e d = 0) (buckets lh ! b)"
    using p by (auto simp: get_next_ptr_and_hash_def Let_def)
  then show "h = lh_hash lh d" and "b = unat h mod num_buckets lh" by simp_all
  have nb: "length (buckets lh) = num_buckets lh" "0 < num_buckets lh"
    using ok by (auto simp: lh_ok_def kMinNumBuckets_def)
  then show b: "b < length (buckets lh)" using hb by simp
  show "i \<le> length (buckets lh ! b)" using hb chain_position_le by simp
  have elems: "set (lh_elems lh) = (\<Union>c \<in> set (buckets lh). item_data ` set c)"
    by (simp add: lh_elems_def image_UN)
  show "lh_map lh d = Some (item_data (buckets lh ! b ! i))" if i: "i < length (buckets lh ! b)"
  proof -
    have "lh_comp lh (item_data (buckets lh ! b ! i)) d = 0"
      using chain_position_hit [of "\<lambda>e. lh_comp lh e d = 0" "buckets lh ! b"] i hb(3) by simp
    moreover have "item_data (buckets lh ! b ! i) \<in> set (lh_elems lh)"
      unfolding elems using nth_mem [OF b] nth_mem [OF i] by blast
    ultimately show ?thesis using ok by (simp add: lh_map_iff)
  qed
  show "lh_map lh d = None" if i: "i = length (buckets lh ! b)"
  proof (rule ccontr)
    assume "lh_map lh d \<noteq> None"
    then obtain e where e: "e \<in> set (lh_elems lh)" "lh_comp lh e d = 0"
      using lh_map_iff [OF ok, of d] by auto
    then obtain c it where "c \<in> set (buckets lh)" "it \<in> set c" "e = item_data it"
      using elems by blast
    then obtain b' where it: "b' < length (buckets lh)" "it \<in> set (buckets lh ! b')" "e = item_data it"
      by (metis in_set_conv_nth)
    then have "item_ok (lh_hash lh) (num_buckets lh) b' it"
      using lh_bucket_items [OF ok] nb by simp
    moreover have "lh_hash lh e = lh_hash lh d"
      using ok e(2) hash_key.eq_hash by (metis lh_ok_def)
    ultimately have "b' = b" using it(3) hb nb by (simp add: item_ok_iff)
    then show False
      using i hb(3) it e(2) chain_position_miss [of "\<lambda>e. lh_comp lh e d = 0" "buckets lh ! b"] by auto
  qed
qed

section \<open>The operations on the map\<close>

lemma lh_retrieve_map: "lh_ok lh \<Longrightarrow> lh_retrieve lh d = lh_map lh d"
proof -
  assume ok: "lh_ok lh"
  obtain b i h where p: "get_next_ptr_and_hash lh d = (b, i, h)" by (metis prod_cases3)
  note c = lh_chain [OF ok p]
  show ?thesis
    using p c(4) c(5) c(6) by (cases "i = length (buckets lh ! b)") (auto simp: lh_retrieve_def)
qed

text \<open>A table after one chain was replaced.\<close>

lemma lh_chain_update:
  assumes ok: "lh_ok lh" and b: "b < num_buckets lh"
    and c: "\<forall>it \<in> set c. item_ok (lh_hash lh) (num_buckets lh) b it"
    and lh': "lh' = lh\<lparr>buckets := (buckets lh)[b := c], num_items := n\<rparr>"
    and n: "n = length (concat ((buckets lh)[b := c]))" and u: "unequal (lh_comp lh) (lh_elems lh')"
  shows "lh_ok lh'"
  using assms buckets_ok_update [of "lh_hash lh" "buckets lh" c b] by (simp add: lh_ok_def)

lemma lh_insert_new:
  assumes ok: "lh_ok lh" and p: "get_next_ptr_and_hash lh d = (b, i, h)"
    and i: "i = length (buckets lh ! b)"
    and lh': "lh' = lh\<lparr>buckets := (buckets lh)[b := buckets lh ! b @ [\<lparr>item_data = d, item_hash = h\<rparr>]],
      num_items := num_items lh + 1\<rparr>"
  shows "lh_ok lh'" and "mset (lh_elems lh') = add_mset d (mset (lh_elems lh))"
proof -
  note c = lh_chain [OF ok p]
  define ch where "ch = buckets lh ! b @ [\<lparr>item_data = d, item_hash = h\<rparr>]"
  have cm: "mset (concat ((buckets lh)[b := ch])) = add_mset \<lparr>item_data = d, item_hash = h\<rparr> (mset (concat (buckets lh)))"
    using mset_concat_update [OF c(1), of ch] by (simp add: ch_def)
  then show el: "mset (lh_elems lh') = add_mset d (mset (lh_elems lh))"
    by (simp add: lh_elems_def lh' ch_def)
  have k: "hash_key (lh_comp lh) (lh_hash lh)" and u: "unequal (lh_comp lh) (lh_elems lh)"
    and nb: "length (buckets lh) = num_buckets lh" using ok by (simp_all add: lh_ok_def)
  have new: "lh_comp lh e d \<noteq> 0" if "e \<in> set (lh_elems lh)" for e
    using c(6) [OF i] lh_map_iff [OF ok, of d e] that by simp
  have "unequal (lh_comp lh) (d # lh_elems lh)"
    using u new hash_key.eq_refl [OF k] hash_key.eq_sym [OF k] by (auto simp: unequal_def)
  then have "unequal (lh_comp lh) (lh_elems lh')"
    using unequal_mset [of "lh_elems lh'" "d # lh_elems lh"] el by simp
  moreover have "\<forall>it \<in> set ch. item_ok (lh_hash lh) (num_buckets lh) b it"
    using lh_bucket_items [OF ok, of b] c(1,2,3) nb by (auto simp: ch_def item_ok_iff)
  moreover have "num_items lh + 1 = length (concat ((buckets lh)[b := ch]))"
    using ok arg_cong [OF cm, of size] by (simp add: lh_ok_def)
  ultimately show "lh_ok lh'"
    using lh_chain_update [OF ok, of b ch] c(1) nb by (simp add: lh' ch_def)
qed

lemma unequal_replace:
  assumes k: "hash_key cmp hash" and u: "unequal cmp (old # rs)" and eq: "cmp old d = 0"
  shows "unequal cmp (d # rs)"
proof -
  have no: "cmp d x \<noteq> 0 \<and> cmp x d \<noteq> 0 \<and> x \<noteq> d" if x: "x \<in> set rs" for x
  proof -
    have "cmp old x \<noteq> 0" using u x by (auto simp: unequal_def)
    then show ?thesis
      using hash_key.eq_trans [OF k eq, of x] hash_key.eq_sym [OF k, of x d] hash_key.eq_refl [OF k, of d]
      by auto
  qed
  then show ?thesis using u by (auto simp: unequal_def)
qed

lemma lh_insert_replace:
  assumes ok: "lh_ok lh" and p: "get_next_ptr_and_hash lh d = (b, i, h)"
    and i: "i < length (buckets lh ! b)"
    and lh': "lh' = lh\<lparr>buckets := (buckets lh)[b := (buckets lh ! b)[i := (buckets lh ! b ! i)\<lparr>item_data := d\<rparr>]]\<rparr>"
  shows "lh_ok lh'"
    and "\<exists>rs. mset (lh_elems lh) = mset (item_data (buckets lh ! b ! i) # rs) \<and>
      mset (lh_elems lh') = mset (d # rs)"
proof -
  note c = lh_chain [OF ok p]
  define it ch where "it = buckets lh ! b ! i" and "ch = (buckets lh ! b)[i := it\<lparr>item_data := d\<rparr>]"
  have k: "hash_key (lh_comp lh) (lh_hash lh)" and u: "unequal (lh_comp lh) (lh_elems lh)"
    and nb: "length (buckets lh) = num_buckets lh" using ok by (simp_all add: lh_ok_def)
  have itb: "it \<in> set (buckets lh ! b)" using i by (simp add: it_def)
  then obtain M where M: "mset (buckets lh ! b) = add_mset it M" by (metis insert_DiffM set_mset_mset)
  then have "mset ch = add_mset (it\<lparr>item_data := d\<rparr>) M"
    using i by (simp add: ch_def mset_update it_def)
  then have eq: "add_mset it (mset (concat ((buckets lh)[b := ch]))) =
      add_mset (it\<lparr>item_data := d\<rparr>) (mset (concat (buckets lh)))"
    using mset_concat_update [OF c(1), of ch] M by simp
  define R where "R = mset (concat (buckets lh)) - {#it#}"
  have "it \<in># mset (concat (buckets lh))" using itb c(1) by (auto intro: nth_mem)
  then have R: "mset (concat (buckets lh)) = add_mset it R" by (simp add: R_def)
  with eq have R': "mset (concat ((buckets lh)[b := ch])) = add_mset (it\<lparr>item_data := d\<rparr>) R"
    by (metis add_mset_commute add_mset_add_single add_right_cancel)
  obtain rs where rs: "mset rs = image_mset item_data R" by (metis ex_mset)
  have el: "mset (lh_elems lh) = mset (item_data it # rs)" "mset (lh_elems lh') = mset (d # rs)"
    using R R' rs by (simp_all add: lh_elems_def lh' ch_def it_def)
  then show "\<exists>rs. mset (lh_elems lh) = mset (item_data (buckets lh ! b ! i) # rs) \<and>
      mset (lh_elems lh') = mset (d # rs)" unfolding it_def by blast
  have hit: "lh_comp lh (item_data it) d = 0"
    using c(5) [OF i] lh_map_iff [OF ok, of d] by (simp add: it_def)
  have "unequal (lh_comp lh) (d # rs)"
    using unequal_replace [OF k _ hit] u unequal_mset [OF el(1)] by simp
  then have "unequal (lh_comp lh) (lh_elems lh')" using unequal_mset [OF el(2)] by simp
  moreover have "\<forall>it \<in> set ch. item_ok (lh_hash lh) (num_buckets lh) b it"
  proof -
    have "item_ok (lh_hash lh) (num_buckets lh) b it"
      using lh_bucket_items [OF ok _ itb] c(1) nb by simp
    then have "item_ok (lh_hash lh) (num_buckets lh) b (it\<lparr>item_data := d\<rparr>)"
      using hash_key.eq_hash [OF k hit] by (simp add: item_ok_iff)
    moreover have "set ch \<subseteq> insert (it\<lparr>item_data := d\<rparr>) (set (buckets lh ! b))"
      unfolding ch_def by (rule set_update_subset_insert)
    ultimately show ?thesis using lh_bucket_items [OF ok, of b] c(1) nb by auto
  qed
  moreover have "num_items lh = length (concat ((buckets lh)[b := ch]))"
    using ok arg_cong [OF R, of size] arg_cong [OF R', of size] by (simp add: lh_ok_def)
  ultimately show "lh_ok lh'"
    using lh_chain_update [OF ok, of b ch lh' "num_items lh"] c(1) nb by (simp add: lh' ch_def it_def)
qed

lemma lh_delete_hit:
  assumes ok: "lh_ok lh" and p: "get_next_ptr_and_hash lh d = (b, i, h)"
    and i: "i < length (buckets lh ! b)"
    and lh': "lh' = lh\<lparr>buckets := (buckets lh)[b := take i (buckets lh ! b) @ drop (Suc i) (buckets lh ! b)],
      num_items := num_items lh - 1\<rparr>"
  shows "lh_ok lh'"
    and "mset (lh_elems lh) = add_mset (item_data (buckets lh ! b ! i)) (mset (lh_elems lh'))"
proof -
  note c = lh_chain [OF ok p]
  define it ch where "it = buckets lh ! b ! i"
    and "ch = take i (buckets lh ! b) @ drop (Suc i) (buckets lh ! b)"
  have u: "unequal (lh_comp lh) (lh_elems lh)"
    and nb: "length (buckets lh) = num_buckets lh" using ok by (simp_all add: lh_ok_def)
  have chain: "buckets lh ! b = take i (buckets lh ! b) @ it # drop (Suc i) (buckets lh ! b)"
    using i by (simp add: it_def id_take_nth_drop [symmetric])
  then have "mset (buckets lh ! b) = add_mset it (mset ch)"
    unfolding ch_def by (metis mset_append mset.simps(2) union_mset_add_mset_right)
  then have R: "mset (concat (buckets lh)) = add_mset it (mset (concat ((buckets lh)[b := ch])))"
    using mset_concat_update [OF c(1), of ch] by simp
  then show el: "mset (lh_elems lh) = add_mset (item_data (buckets lh ! b ! i)) (mset (lh_elems lh'))"
    by (simp add: lh_elems_def lh' ch_def it_def)
  have "unequal (lh_comp lh) (item_data it # lh_elems lh')"
    using u unequal_mset [of "lh_elems lh" "item_data it # lh_elems lh'"] el by (simp add: it_def)
  then have "unequal (lh_comp lh) (lh_elems lh')" by (auto simp: unequal_def)
  moreover have "set ch \<subseteq> set (buckets lh ! b)"
    unfolding ch_def using set_take_subset set_drop_subset by fastforce
  then have "\<forall>it \<in> set ch. item_ok (lh_hash lh) (num_buckets lh) b it"
    using lh_bucket_items [OF ok, of b] c(1) nb by auto
  moreover have "num_items lh - 1 = length (concat ((buckets lh)[b := ch]))"
    using ok arg_cong [OF R, of size] by (simp add: lh_ok_def)
  ultimately show "lh_ok lh'"
    using lh_chain_update [OF ok, of b ch lh'] c(1) nb by (simp add: lh' ch_def)
qed

lemma lh_insert_map:
  assumes ok: "lh_ok lh" and r: "lh_insert ml lh d = (res, old, lh')"
  shows "lh_ok lh'" and "lh_comp lh' = lh_comp lh" and "res \<Longrightarrow> old = lh_map lh d"
    and "res \<Longrightarrow> lh_map lh' x = (if lh_comp lh d x = 0 then Some d else lh_map lh x)"
    and "\<not> res \<Longrightarrow> lh' = lh \<and> lh_map lh d = None \<and> OPENSSL_malloc ml 24 = None"
    and "lh_num_items lh' = (if res \<and> old = None then lh_num_items lh + 1 else lh_num_items lh)"
proof -
  have k: "hash_key (lh_comp lh) (lh_hash lh)" using ok by (simp add: lh_ok_def)
  obtain b i h where p: "get_next_ptr_and_hash lh d = (b, i, h)" by (metis prod_cases3)
  note c = lh_chain [OF ok p]
  have count: "lh_num_items l = size (mset (lh_elems l))" if "lh_ok l" for l :: "'a lhash_st"
    using that by (simp add: lh_num_items_def lh_ok_def lh_elems_def)
  have "lh_ok lh' \<and> lh_comp lh' = lh_comp lh \<and> (res \<longrightarrow> old = lh_map lh d) \<and>
    (res \<longrightarrow> lh_map lh' x = (if lh_comp lh d x = 0 then Some d else lh_map lh x)) \<and>
    (\<not> res \<longrightarrow> lh' = lh \<and> lh_map lh d = None \<and> OPENSSL_malloc ml 24 = None) \<and>
    lh_num_items lh' = (if res \<and> old = None then lh_num_items lh + 1 else lh_num_items lh)"
  proof (cases "i < length (buckets lh ! b)")
    case True
    define lh1 where "lh1 = lh\<lparr>buckets := (buckets lh)[b := (buckets lh ! b)[i :=
      (buckets lh ! b ! i)\<lparr>item_data := d\<rparr>]]\<rparr>"
    note rp = lh_insert_replace [OF ok p True lh1_def]
    obtain rs where rs: "mset (lh_elems lh) = mset (item_data (buckets lh ! b ! i) # rs)"
      "mset (lh_elems lh1) = mset (d # rs)" using rp(2) by blast
    have res: "res" "old = Some (item_data (buckets lh ! b ! i))" "lh' = lh1"
      using r p True by (simp_all add: lh_insert_def Let_def lh1_def)
    have hit: "lh_comp lh (item_data (buckets lh ! b ! i)) d = 0"
      using c(5) [OF True] lh_map_iff [OF ok, of d] by simp
    have sets: "set (lh_elems lh) = insert (item_data (buckets lh ! b ! i)) (set rs)"
      "set (lh_elems lh1) = insert d (set rs)"
      using mset_eq_setD [OF rs(1)] mset_eq_setD [OF rs(2)] by simp_all
    have cmp: "lh_comp lh1 = lh_comp lh" by (simp add: lh1_def)
    have "lh_map lh1 x = (if lh_comp lh d x = 0 then Some d else lh_map lh x)"
    proof (cases "lh_comp lh d x = 0")
      case True
      then show ?thesis using lh_map_iff [OF rp(1), of x d] sets cmp by simp
    next
      case False
      then have "lh_comp lh (item_data (buckets lh ! b ! i)) x \<noteq> 0"
        using hash_key.eq_left [OF k hit] by simp
      then have "lh_map lh1 x = Some e \<longleftrightarrow> lh_map lh x = Some e" for e
        using lh_map_iff [OF rp(1), of x e] lh_map_iff [OF ok, of x e] sets cmp False by auto
      then have "lh_map lh1 x = lh_map lh x" by (metis not_Some_eq)
      then show ?thesis using False by simp
    qed
    then show ?thesis
      using rp(1) res cmp c(5) [OF True] by (simp add: lh_num_items_def lh1_def)
  next
    case False
    then have i: "i = length (buckets lh ! b)" using c(4) by simp
    show ?thesis
    proof (cases "OPENSSL_malloc ml 24")
      case None
      then show ?thesis using r p False ok c(6) [OF i] by (auto simp: lh_insert_def Let_def)
    next
      case (Some m)
      define lh1 where "lh1 = lh\<lparr>buckets := (buckets lh)[b := buckets lh ! b @
        [\<lparr>item_data = d, item_hash = h\<rparr>]], num_items := num_items lh + 1\<rparr>"
      note nw = lh_insert_new [OF ok p i lh1_def]
      have res: "res" "old = None" "lh' = lh_maybe_resize ml lh1"
        using r p False Some by (auto simp: lh_insert_def Let_def lh1_def)
      have same: "lh_same lh1 lh'" using lh_maybe_resize_same [OF nw(1)] res by simp
      have sets: "set (lh_elems lh1) = insert d (set (lh_elems lh))"
        using nw(2) by (metis set_mset_add_mset_insert set_mset_mset)
      have cmp: "lh_comp lh1 = lh_comp lh" by (simp add: lh1_def)
      have "lh_map lh1 x = (if lh_comp lh d x = 0 then Some d else lh_map lh x)"
      proof (cases "lh_comp lh d x = 0")
        case True
        then show ?thesis using lh_map_iff [OF nw(1), of x d] sets cmp by simp
      next
        case False
        then have "lh_map lh1 x = Some e \<longleftrightarrow> lh_map lh x = Some e" for e
          using lh_map_iff [OF nw(1), of x e] lh_map_iff [OF ok, of x e] sets cmp by auto
        then have "lh_map lh1 x = lh_map lh x" by (metis not_Some_eq)
        then show ?thesis using False by simp
      qed
      moreover have "lh_num_items lh' = lh_num_items lh + 1"
        using count [of lh'] count [OF ok] same nw(2) by (metis Suc_eq_plus1 lh_same_def size_add_mset)
      ultimately show ?thesis
        using same res cmp c(6) [OF i] lh_same_map [OF nw(1) same] by (simp add: lh_same_def)
    qed
  qed
  then show "lh_ok lh'" and "lh_comp lh' = lh_comp lh" and "res \<Longrightarrow> old = lh_map lh d"
    and "res \<Longrightarrow> lh_map lh' x = (if lh_comp lh d x = 0 then Some d else lh_map lh x)"
    and "\<not> res \<Longrightarrow> lh' = lh \<and> lh_map lh d = None \<and> OPENSSL_malloc ml 24 = None"
    and "lh_num_items lh' = (if res \<and> old = None then lh_num_items lh + 1 else lh_num_items lh)"
    by blast+
qed

lemma lh_delete_map:
  assumes ok: "lh_ok lh" and r: "lh_delete ml lh d = (res, lh')"
  shows "lh_ok lh'" and "lh_comp lh' = lh_comp lh" and "res = lh_map lh d"
    and "lh_map lh' x = (if lh_comp lh d x = 0 then None else lh_map lh x)"
    and "lh_num_items lh' = lh_num_items lh - (if res = None then 0 else 1)"
proof -
  have k: "hash_key (lh_comp lh) (lh_hash lh)" using ok by (simp add: lh_ok_def)
  obtain b i h where p: "get_next_ptr_and_hash lh d = (b, i, h)" by (metis prod_cases3)
  note c = lh_chain [OF ok p]
  have count: "lh_num_items l = size (mset (lh_elems l))" if "lh_ok l" for l :: "'a lhash_st"
    using that by (simp add: lh_num_items_def lh_ok_def lh_elems_def)
  have "lh_ok lh' \<and> lh_comp lh' = lh_comp lh \<and> res = lh_map lh d \<and>
    lh_map lh' x = (if lh_comp lh d x = 0 then None else lh_map lh x) \<and>
    lh_num_items lh' = lh_num_items lh - (if res = None then 0 else 1)"
  proof (cases "i < length (buckets lh ! b)")
    case False
    then have i: "i = length (buckets lh ! b)" using c(4) by simp
    then have res: "res = None" "lh' = lh" using r p by (simp_all add: lh_delete_def)
    have "lh_map lh x = None" if x: "lh_comp lh d x = 0"
    proof (rule ccontr)
      assume "lh_map lh x \<noteq> None"
      then obtain e where "e \<in> set (lh_elems lh)" "lh_comp lh e x = 0"
        using lh_map_iff [OF ok, of x] by auto
      then have "lh_map lh d = Some e"
        using lh_map_iff [OF ok, of d e] hash_key.eq_right [OF k x, of e] by simp
      then show False using c(6) [OF i] by simp
    qed
    then show ?thesis using res ok c(6) [OF i] by simp
  next
    case True
    define lh1 where "lh1 = lh\<lparr>buckets := (buckets lh)[b := take i (buckets lh ! b) @
      drop (Suc i) (buckets lh ! b)], num_items := num_items lh - 1\<rparr>"
    define old where "old = item_data (buckets lh ! b ! i)"
    note dl = lh_delete_hit [OF ok p True lh1_def, folded old_def]
    have res: "res = Some old" "lh' = lh_maybe_resize ml lh1"
      using r p True by (simp_all add: lh_delete_def Let_def lh1_def old_def)
    have same: "lh_same lh1 lh'" using lh_maybe_resize_same [OF dl(1)] res by simp
    have hit: "lh_map lh d = Some old" "lh_comp lh old d = 0"
      using c(5) [OF True] lh_map_iff [OF ok, of d old] by (simp_all add: old_def)
    have sets: "set (lh_elems lh) = insert old (set (lh_elems lh1))"
      using dl(2) by (metis set_mset_add_mset_insert set_mset_mset)
    have "unequal (lh_comp lh) (old # lh_elems lh1)"
      using ok unequal_mset [of "lh_elems lh" "old # lh_elems lh1"] dl(2) by (simp add: lh_ok_def)
    then have apart: "lh_comp lh old e \<noteq> 0" if "e \<in> set (lh_elems lh1)" for e
      using that by (auto simp: unequal_def)
    have cmp: "lh_comp lh1 = lh_comp lh" by (simp add: lh1_def)
    have dx: "lh_comp lh d x = 0 \<longleftrightarrow> lh_comp lh old x = 0"
      using hash_key.eq_left [OF k hit(2)] by simp
    have "lh_map lh1 x = (if lh_comp lh d x = 0 then None else lh_map lh x)"
    proof (cases "lh_comp lh d x = 0")
      case True
      have "lh_map lh1 x \<noteq> Some e" for e
        using lh_map_iff [OF dl(1), of x e] cmp True dx apart [of e]
          hash_key.eq_trans [OF k, of old x e] hash_key.eq_sym [OF k, of e x] by auto
      then have "lh_map lh1 x = None" by (metis not_Some_eq)
      then show ?thesis using True by simp
    next
      case False
      then have "lh_map lh1 x = Some e \<longleftrightarrow> lh_map lh x = Some e" for e
        using lh_map_iff [OF dl(1), of x e] lh_map_iff [OF ok, of x e] sets cmp dx by auto
      then have "lh_map lh1 x = lh_map lh x" by (metis not_Some_eq)
      then show ?thesis using False by simp
    qed
    moreover have "lh_num_items lh' = lh_num_items lh - 1"
      using count [of lh'] count [OF ok] same dl(2) by (metis diff_Suc_1 lh_same_def size_add_mset)
    ultimately show ?thesis
      using same res cmp hit lh_same_map [OF dl(1) same] by (simp add: lh_same_def)
  qed
  then show "lh_ok lh'" and "lh_comp lh' = lh_comp lh" and "res = lh_map lh d"
    and "lh_map lh' x = (if lh_comp lh d x = 0 then None else lh_map lh x)"
    and "lh_num_items lh' = lh_num_items lh - (if res = None then 0 else 1)" by blast+
qed

section \<open>The interface of a keyed table\<close>

text \<open>
  What the users of the table rely on: the three operations, an invariant, and the
  effect of every update on every later lookup.
\<close>

locale keyed_table =
  fixes inv :: "'s \<Rightarrow> bool" and look :: "'s \<Rightarrow> 'd \<Rightarrow> 'd option"
    and ins :: "'s \<Rightarrow> 'd \<Rightarrow> 's" and del :: "'s \<Rightarrow> 'd \<Rightarrow> 's" and eq :: "'d \<Rightarrow> 'd \<Rightarrow> bool"
  assumes inv_ins: "inv s \<Longrightarrow> inv (ins s d)"
    and inv_del: "inv s \<Longrightarrow> inv (del s d)"
    and look_ins: "inv s \<Longrightarrow> look (ins s d) x = (if eq d x then Some d else look s x)"
    and look_del: "inv s \<Longrightarrow> look (del s d) x = (if eq d x then None else look s x)"
begin

lemma inv_log: "inv s \<Longrightarrow> inv (foldl ins s ds)"
  by (induction ds arbitrary: s) (simp_all add: inv_ins)

lemma look_log:
  "inv s \<Longrightarrow>
     look (foldl ins s ds) x =
       (case find (\<lambda>d. eq d x) (rev ds) of None \<Rightarrow> look s x | Some d \<Rightarrow> Some d)"
proof (induction ds rule: rev_induct)
  case Nil
  then show ?case by simp
next
  case (snoc d ds)
  then show ?case using inv_log [of s ds] by (simp add: look_ins)
qed

lemma look_del_ins:
  "inv s \<Longrightarrow> look (del (ins s d) d) x = (if eq d x then None else look s x)"
  by (simp add: inv_ins look_ins look_del)

end

text \<open>
  Tables of byte strings, compared as the code compares encodings and hashed by
  \<open>OPENSSL_hash32\<close>.
\<close>

lemma bytes_hash_key: "hash_key compare_set_of_element OPENSSL_hash32"
  by unfold_locales (auto simp: compare_set_of_element_0)

interpretation bytes_key: hash_key compare_set_of_element OPENSSL_hash32
  by (rule bytes_hash_key)

definition bytes_table_ok :: "u8 list lhash_st \<Rightarrow> bool" where
  "bytes_table_ok lh \<longleftrightarrow> lh_ok lh \<and> lh_comp lh = compare_set_of_element"

definition bytes_table_insert :: "u8 list lhash_st \<Rightarrow> u8 list \<Rightarrow> u8 list lhash_st" where
  "bytes_table_insert lh d = snd (snd (lh_insert zero_malloc lh d))"

definition bytes_table_delete :: "u8 list lhash_st \<Rightarrow> u8 list \<Rightarrow> u8 list lhash_st" where
  "bytes_table_delete lh d = snd (lh_delete zero_malloc lh d)"

lemma lh_insert_zero_malloc: "lh_ok lh \<Longrightarrow> fst (lh_insert zero_malloc lh d)"
proof -
  assume ok: "lh_ok lh"
  obtain res old lh' where r: "lh_insert zero_malloc lh d = (res, old, lh')" by (metis prod_cases3)
  show ?thesis using lh_insert_map(5) [OF ok r] r by auto
qed

interpretation bytes_table: keyed_table bytes_table_ok lh_retrieve bytes_table_insert bytes_table_delete "(=)"
proof unfold_locales
  fix s :: "u8 list lhash_st" and d x
  assume "bytes_table_ok s"
  then have ok: "lh_ok s" "lh_comp s = compare_set_of_element" by (simp_all add: bytes_table_ok_def)
  obtain old s1 where ins: "lh_insert zero_malloc s d = (True, old, s1)"
    using lh_insert_zero_malloc [OF ok(1), of d] by (metis prod.collapse)
  obtain res s2 where del: "lh_delete zero_malloc s d = (res, s2)" by fastforce
  note i = lh_insert_map [OF ok(1) ins] and e = lh_delete_map [OF ok(1) del]
  show "bytes_table_ok (bytes_table_insert s d)" "bytes_table_ok (bytes_table_delete s d)"
    using i(1,2) e(1,2) ok by (simp_all add: bytes_table_ok_def bytes_table_insert_def
        bytes_table_delete_def ins del)
  show "lh_retrieve (bytes_table_insert s d) x = (if d = x then Some d else lh_retrieve s x)"
    using i(1,4) ok by (simp add: bytes_table_insert_def ins lh_retrieve_map compare_set_of_element_0)
  show "lh_retrieve (bytes_table_delete s d) x = (if d = x then None else lh_retrieve s x)"
    using e(1,4) ok by (simp add: bytes_table_delete_def del lh_retrieve_map compare_set_of_element_0)
qed

lemma lh_new_ok:
  assumes "lh_new ml hash cmp = Some lh" and "hash_key cmp hash"
  shows "lh_ok lh" and "lh_map lh d = None" and "lh_comp lh = cmp"
proof -
  have lh: "lh = \<lparr>num_items = 0, buckets = replicate kMinNumBuckets [], num_buckets = kMinNumBuckets,
      callback_depth = 0, lh_comp = cmp, lh_hash = hash\<rparr>"
    using assms(1) by (auto simp: lh_new_def split: if_splits)
  show "lh_ok lh" using assms(2) by (simp add: lh lh_ok_def buckets_ok_def unequal_def lh_elems_def)
  show "lh_map lh d = None" by (simp add: lh lh_map_def lh_elems_def)
  show "lh_comp lh = cmp" by (simp add: lh)
qed

section \<open>Properties\<close>

definition example_table :: "u8 list lhash_st" where
  "example_table =
     foldl bytes_table_insert (the (lh_new zero_malloc OPENSSL_hash32 compare_set_of_element)) [[1], [2, 3]]"

lemma lh_new_zero_malloc: "lh_new zero_malloc hash cmp = Some (the (lh_new zero_malloc hash cmp))"
  by (simp add: lh_new_def kMinNumBuckets_def)

lemma example_table_ok: "lh_ok example_table" "lh_comp example_table = compare_set_of_element"
  using bytes_table.inv_log [of "the (lh_new zero_malloc OPENSSL_hash32 compare_set_of_element)" "[[1], [2, 3]]"]
    lh_new_ok [OF lh_new_zero_malloc bytes_hash_key]
  by (simp_all add: bytes_table_ok_def example_table_def)

text \<open>
  C6: a successful \<open>lh_insert\<close> maps everything equal to the new element to it, leaves
  the other lookups, returns the element it replaces and counts a new one; a failed one
  changes nothing.  This holds through any resize of the buckets.
\<close>

theorem lh_insert_updates:
  assumes "lh_ok lh" and "lh_insert ml lh d = (res, old, lh')"
  shows "lh_ok lh' \<and>
    lh_num_items lh' = (if res \<and> old = None then lh_num_items lh + 1 else lh_num_items lh) \<and>
    (if res then old = lh_retrieve lh d \<and>
       (\<forall>x. lh_retrieve lh' x = (if lh_comp lh d x = 0 then Some d else lh_retrieve lh x))
     else lh' = lh \<and> OPENSSL_malloc ml 24 = None)"
  using lh_insert_map [OF assms] assms(1) by (simp add: lh_retrieve_map)

theorem lh_insert_updates_witness:
  "\<exists>old lh'. lh_insert zero_malloc example_table [7] = (True, old, lh') \<and> lh_ok lh' \<and>
     old = lh_retrieve example_table [7] \<and> lh_retrieve lh' [7] = Some [7]"
proof -
  obtain old lh' where r: "lh_insert zero_malloc example_table [7] = (True, old, lh')"
    using lh_insert_zero_malloc [OF example_table_ok(1), of "[7]"] by (metis prod.collapse)
  then show ?thesis
    using lh_insert_updates [OF example_table_ok(1) r] example_table_ok(2)
    by (simp add: compare_set_of_element_0)
qed

text \<open>
  C7: \<open>lh_delete\<close> removes the element equal to the argument, returns it, and leaves
  every other lookup, through any resize of the buckets.
\<close>

theorem lh_delete_removes:
  assumes "lh_ok lh" and "lh_delete ml lh d = (res, lh')"
  shows "lh_ok lh' \<and> res = lh_retrieve lh d \<and>
    lh_num_items lh' = lh_num_items lh - (if res = None then 0 else 1) \<and>
    (\<forall>x. lh_retrieve lh' x = (if lh_comp lh d x = 0 then None else lh_retrieve lh x))"
  using lh_delete_map [OF assms] assms(1) by (simp add: lh_retrieve_map)

theorem lh_delete_removes_witness:
  "\<exists>lh'. lh_delete zero_malloc example_table [1] = (Some [1], lh') \<and> lh_ok lh' \<and>
     lh_retrieve lh' [1] = None \<and> lh_retrieve lh' [2, 3] = Some [2, 3]"
proof -
  obtain res lh' where r: "lh_delete zero_malloc example_table [1] = (res, lh')" by fastforce
  have "bytes_table_ok (the (lh_new zero_malloc OPENSSL_hash32 compare_set_of_element))"
    using lh_new_ok [OF lh_new_zero_malloc bytes_hash_key] by (simp add: bytes_table_ok_def)
  then have "lh_retrieve example_table [1] = Some [1]" "lh_retrieve example_table [2, 3] = Some [2, 3]"
    by (simp_all add: example_table_def bytes_table.look_ins bytes_table.inv_ins)
  then show ?thesis
    using lh_delete_removes [OF example_table_ok(1) r] example_table_ok(2) r
    by (auto simp: compare_set_of_element_0)
qed

lemma find_equal: "find (\<lambda>d. d = x) ds = (if x \<in> set ds then Some x else None)"
  by (induction ds) auto

text \<open>
  After any sequence of insertions into a new table of byte strings a lookup finds
  exactly the strings that were inserted.
\<close>

theorem lh_retrieve_after_inserts:
  assumes "lh_new zero_malloc OPENSSL_hash32 compare_set_of_element = Some lh"
  shows "lh_retrieve (foldl (\<lambda>lh d. snd (snd (lh_insert zero_malloc lh d))) lh ds) x =
    (if x \<in> set ds then Some x else None)"
proof -
  have ok: "bytes_table_ok lh" and none: "lh_retrieve lh x = None"
    using lh_new_ok [OF assms bytes_hash_key] by (simp_all add: bytes_table_ok_def lh_retrieve_map)
  have "(\<lambda>lh d. snd (snd (lh_insert zero_malloc lh d))) = bytes_table_insert"
    by (intro ext) (simp add: bytes_table_insert_def)
  then show ?thesis
    using bytes_table.look_log [OF ok, of ds x] none
    by (simp add: compare_set_of_element_0 find_equal)
qed

theorem lh_retrieve_after_inserts_witness:
  "lh_retrieve (foldl (\<lambda>lh d. snd (snd (lh_insert zero_malloc lh d)))
     (the (lh_new zero_malloc OPENSSL_hash32 compare_set_of_element)) [[1], [], [1]]) [] = Some []"
  using lh_retrieve_after_inserts [OF lh_new_zero_malloc, of "[[1], [], [1]]" "[]"] by simp

end
