(* ===== verification/Codec.thy ===== *)
theory Codec
  imports Cbb_Build
begin

text \<open>
  The interface between a reader on a \<open>CBS\<close> and the byte strings it is meant to read.
  \<open>byte_codec\<close> states that a reader accepts exactly the encodings of the valid values
  and stops at their end; \<open>cbb_codec\<close> adds a writer on a \<open>CBB\<close> that produces these
  encodings.  What follows for whole strings of values (unique decoding, termination of
  read loops, round trips through a builder session) is proved here once, and the
  components interpret the locales on their readers and writers.
\<close>

locale byte_codec =
  fixes dec :: "(u8 list, 'a) op"
    and enc :: "'a \<Rightarrow> u8 list"
    and valid :: "'a \<Rightarrow> bool"
  assumes dec_iff: "dec cbs = (Some v, rest) \<longleftrightarrow> valid v \<and> cbs = enc v @ rest"
    and enc_nonempty: "valid v \<Longrightarrow> enc v \<noteq> []"
begin

lemma dec_enc: "valid v \<Longrightarrow> dec (enc v @ rest) = (Some v, rest)"
  by (simp add: dec_iff)

lemma dec_shorter: "dec cbs = (Some v, rest) \<Longrightarrow> length rest < length cbs"
  using enc_nonempty [of v] by (auto simp: dec_iff)

lemma dec_Nil: "dec [] \<noteq> (Some v, rest)"
  using dec_shorter [of "[]" v rest] by auto

lemma prefix_free:
  assumes "valid v" and "valid w" and "enc v @ r = enc w @ s"
  shows "v = w \<and> r = s"
proof -
  have "(Some v, r) = dec (enc v @ r)" by (rule dec_enc [OF assms(1), symmetric])
  also have "\<dots> = (Some w, s)" unfolding assms(3) by (rule dec_enc [OF assms(2)])
  finally show ?thesis by simp
qed

lemma dec_rejects: "(\<And>v r. valid v \<Longrightarrow> cbs \<noteq> enc v @ r) \<Longrightarrow> fst (dec cbs) = None"
proof -
  assume "\<And>v r. valid v \<Longrightarrow> cbs \<noteq> enc v @ r"
  then have "dec cbs \<noteq> (Some v, r)" for v r using dec_iff by blast
  then show ?thesis by (cases "dec cbs") (metis fst_conv option.exhaust)
qed

lemma concat_enc_inject:
  "list_all valid vs \<Longrightarrow> list_all valid ws \<Longrightarrow>
     concat (map enc vs) = concat (map enc ws) \<Longrightarrow> vs = ws"
proof (induction vs arbitrary: ws)
  case Nil
  then show ?case using enc_nonempty by (cases ws) auto
next
  case (Cons v vs)
  then obtain w ws' where ws: "ws = w # ws'" using enc_nonempty by (cases ws) auto
  with Cons.prems have "v = w \<and> concat (map enc vs) = concat (map enc ws')"
    by (intro prefix_free) simp_all
  then show ?case using Cons ws by simp
qed

lemma length_concat_enc: "list_all valid vs \<Longrightarrow> length vs \<le> length (concat (map enc vs))"
proof (induction vs)
  case Nil
  then show ?case by simp
next
  case (Cons v vs)
  then obtain b bs where "enc v = b # bs" using enc_nonempty by (cases "enc v") auto
  then show ?case using Cons by simp
qed

end

locale cbb_codec = byte_codec dec enc valid
  for dec :: "(u8 list, 'a) op" and enc :: "'a \<Rightarrow> u8 list" and valid :: "'a \<Rightarrow> bool" +
  fixes add :: "allocator \<Rightarrow> nat \<Rightarrow> 'a \<Rightarrow> unit cbb_op"
  assumes add_refines:
    "malloc_ok ml \<Longrightarrow> cbb_refines ml (add ml d v) (\<lambda>s. if valid v then stack_add d (enc v) s else None)"
begin

lemma add_each_refines:
  assumes ml: "malloc_ok ml"
  shows "vs \<noteq> [] \<Longrightarrow> cbb_refines ml (op_each (add ml d) vs)
    (\<lambda>s. if list_all valid vs then stack_add d (concat (map enc vs)) s else None)"
proof (induction vs)
  case Nil
  then show ?case by simp
next
  case (Cons v vs)
  show ?case
  proof (cases "vs = []")
    case True
    have "op_bind (add ml d v) (\<lambda>_. op_ret ()) = add ml d v"
      by (rule ext) (auto simp: op_bind_def op_ret_def split: prod.splits option.splits)
    moreover have "op_each (add ml d) (v # vs) = op_bind (add ml d v) (\<lambda>_. op_ret ())"
      by (simp add: True)
    moreover have "(if list_all valid (v # vs) then stack_add d (concat (map enc (v # vs))) s else None) =
        (if valid v then stack_add d (enc v) s else None)" for s by (simp add: True)
    ultimately show ?thesis using add_refines [OF ml, of d v] by (simp only:)
  next
    case False
    have "cbb_refines ml (op_bind (add ml d v) (\<lambda>_. op_each (add ml d) vs))
        (\<lambda>s. Option.bind (if valid v then stack_add d (enc v) s else None)
          (\<lambda>s. if list_all valid vs then stack_add d (concat (map enc vs)) s else None))"
      by (rule cbb_refines_bind [OF add_refines [OF ml] Cons.IH [OF False]])
    moreover have "(\<lambda>s. Option.bind (if valid v then stack_add d (enc v) s else None)
          (\<lambda>s. if list_all valid vs then stack_add d (concat (map enc vs)) s else None)) =
        (\<lambda>s. if list_all valid (v # vs) then stack_add d (concat (map enc (v # vs))) s else None)"
      by (rule ext) (auto simp: stack_add_append [symmetric])
    ultimately show ?thesis by simp
  qed
qed

lemma add_each_end_refines:
  assumes ml: "malloc_ok ml" and f: "cbb_refines ml f (stack_add d bs)"
  shows "cbb_refines ml (op_bind (op_each (add ml d) vs) (\<lambda>_. f))
    (\<lambda>s. if list_all valid vs then stack_add d (concat (map enc vs) @ bs) s else None)"
proof (cases "vs = []")
  case True
  then show ?thesis using f by simp
next
  case False
  have "cbb_refines ml (op_bind (op_each (add ml d) vs) (\<lambda>_. f))
      (\<lambda>s. Option.bind (if list_all valid vs then stack_add d (concat (map enc vs)) s else None)
        (stack_add d bs))"
    by (rule cbb_refines_bind [OF add_each_refines [OF ml False] f])
  moreover have "(\<lambda>s. Option.bind (if list_all valid vs then stack_add d (concat (map enc vs)) s else None)
        (stack_add d bs)) =
      (\<lambda>s. if list_all valid vs then stack_add d (concat (map enc vs) @ bs) s else None)"
    by (rule ext) (auto simp: stack_add_append [symmetric])
  ultimately show ?thesis by simp
qed

text \<open>
  A builder session that writes the values \<open>vs\<close> one after the other: what it returns is
  the concatenation of the encodings, and with an allocator that does not fail it fails
  only when one of the values is not valid.
\<close>

lemma session_partial:
  assumes "malloc_ok ml" and "n \<le> 2 ^ 60" and "vs \<noteq> []"
    and "cbb_session ml n (op_each (add ml 0) vs) = Some out"
  shows "list_all valid vs \<and> out = concat (map enc vs)"
  using cbb_session_partial [OF assms(1,2) add_each_refines [OF assms(1,3)] assms(4)]
  by (auto simp: stack_add_def stack_append_def split: if_splits)

lemma session_total:
  assumes "malloc_ok ml" and "malloc_total ml" and "n \<le> 2 ^ 60" and "vs \<noteq> []"
    and "list_all valid vs" and "length (concat (map enc vs)) \<le> 2 ^ 60"
  shows "cbb_session ml n (op_each (add ml 0) vs) = Some (concat (map enc vs))"
  by (rule cbb_session_total [OF assms(1-3) add_each_refines [OF assms(1,4)] _ assms(6)])
    (use assms(5) in \<open>simp add: stack_add_def stack_append_def\<close>)

end

end
