(* ===== verification/Unicode.thy ===== *)
theory Unicode
  imports Codec
begin

text \<open>
  \<open>crypto/bytestring/unicode.c\<close>: reading and writing code points in UTF-8, Latin-1,
  UCS-2 and UTF-32.  The specification is the arithmetic of the encodings on natural
  numbers (\<open>utf8_bytes\<close>); the theory shows that the readers accept exactly the shortest
  encodings of valid code points and that the writers produce them, as interpretations
  of \<open>cbb_codec\<close>.
\<close>

section \<open>The code\<close>

definition is_valid_code_point :: "u32 \<Rightarrow> bool" where
  "is_valid_code_point v =
     (if v > 0x10ffff \<or> (v AND 0xfffe) = 0xfffe \<or> (v \<ge> 0xfdd0 \<and> v \<le> 0xfdef) \<or>
         (v \<ge> 0xd800 \<and> v \<le> 0xdfff)
      then False else True)"

definition BOTTOM_BITS :: "nat \<Rightarrow> u8" where
  "BOTTOM_BITS n = ucast ((push_bit n 1 :: u32) - 1)"

definition TOP_BITS :: "nat \<Rightarrow> u8" where
  "TOP_BITS n = NOT (BOTTOM_BITS (8 - n))"

text \<open>The loop of \<open>cbs_get_utf8\<close> over the continuation bytes.\<close>

fun utf8_continuation :: "nat \<Rightarrow> u32 \<Rightarrow> u32 cbs_op" where
  "utf8_continuation 0 v = op_ret v"
| "utf8_continuation (Suc len) v =
     op_bind CBS_get_u8 (\<lambda>c.
       if c AND TOP_BITS 2 \<noteq> TOP_BITS 1 then op_fail
       else utf8_continuation len (push_bit 6 v OR ucast (c AND BOTTOM_BITS 6)))"

definition cbs_get_utf8 :: "u32 cbs_op" where
  "cbs_get_utf8 =
     op_bind CBS_get_u8 (\<lambda>c.
       if c \<le> 0x7f then op_ret (ucast c)
       else
         (case (if c AND TOP_BITS 3 = TOP_BITS 2 then Some (c AND BOTTOM_BITS 5, 1, 0x80)
                else if c AND TOP_BITS 4 = TOP_BITS 3 then Some (c AND BOTTOM_BITS 4, 2, 0x800)
                else if c AND TOP_BITS 5 = TOP_BITS 4 then Some (c AND BOTTOM_BITS 3, 3, 0x10000)
                else None)
          of None \<Rightarrow> op_fail
           | Some (v, len, lower_bound) \<Rightarrow>
               op_bind (utf8_continuation len (ucast v)) (\<lambda>v.
                 if \<not> is_valid_code_point v \<or> v < lower_bound then op_fail else op_ret v)))"

definition cbs_get_latin1 :: "u32 cbs_op" where
  "cbs_get_latin1 = op_bind CBS_get_u8 (\<lambda>c. op_ret (ucast c))"

definition cbs_get_ucs2_be :: "u32 cbs_op" where
  "cbs_get_ucs2_be =
     op_bind CBS_get_u16 (\<lambda>c.
       if \<not> is_valid_code_point (ucast c) then op_fail else op_ret (ucast c))"

definition cbs_get_utf32_be :: "u32 cbs_op" where
  "cbs_get_utf32_be =
     op_bind CBS_get_u32 (\<lambda>c. if is_valid_code_point c then op_ret c else op_fail)"

definition cbb_get_utf8_len :: "u32 \<Rightarrow> nat" where
  "cbb_get_utf8_len u =
     (if u \<le> 0x7f then 1 else if u \<le> 0x7ff then 2 else if u \<le> 0xffff then 3 else 4)"

text \<open>
  The byte arguments are computed as 32-bit numbers and converted to \<open>uint8_t\<close> by the
  call of \<open>CBB_add_u8\<close>.
\<close>

definition utf8_lead :: "nat \<Rightarrow> nat \<Rightarrow> u32 \<Rightarrow> u8" where
  "utf8_lead n k u = ucast (ucast (TOP_BITS n) OR drop_bit k u)"

definition utf8_tail :: "nat \<Rightarrow> u32 \<Rightarrow> u8" where
  "utf8_tail k u = ucast (ucast (TOP_BITS 1) OR (drop_bit k u AND ucast (BOTTOM_BITS 6)))"

definition cbb_add_utf8 :: "allocator \<Rightarrow> nat \<Rightarrow> u32 \<Rightarrow> unit cbb_op" where
  "cbb_add_utf8 ml d u =
     (if \<not> is_valid_code_point u then op_fail
      else if u \<le> 0x7f then CBB_add_u8 ml d (ucast u)
      else if u \<le> 0x7ff then
        op_bind (CBB_add_u8 ml d (utf8_lead 2 6 u)) (\<lambda>_.
          CBB_add_u8 ml d (utf8_tail 0 u))
      else if u \<le> 0xffff then
        op_bind (CBB_add_u8 ml d (utf8_lead 3 12 u)) (\<lambda>_.
          op_bind (CBB_add_u8 ml d (utf8_tail 6 u)) (\<lambda>_.
            CBB_add_u8 ml d (utf8_tail 0 u)))
      else if u \<le> 0x10ffff then
        op_bind (CBB_add_u8 ml d (utf8_lead 4 18 u)) (\<lambda>_.
          op_bind (CBB_add_u8 ml d (utf8_tail 12 u)) (\<lambda>_.
            op_bind (CBB_add_u8 ml d (utf8_tail 6 u)) (\<lambda>_.
              CBB_add_u8 ml d (utf8_tail 0 u))))
      else op_fail)"

definition cbb_add_latin1 :: "allocator \<Rightarrow> nat \<Rightarrow> u32 \<Rightarrow> unit cbb_op" where
  "cbb_add_latin1 ml d u = (if u \<le> 0xff then CBB_add_u8 ml d (ucast u) else op_fail)"

definition cbb_add_ucs2_be :: "allocator \<Rightarrow> nat \<Rightarrow> u32 \<Rightarrow> unit cbb_op" where
  "cbb_add_ucs2_be ml d u =
     (if u \<le> 0xffff \<and> is_valid_code_point u then CBB_add_u16 ml d (ucast u) else op_fail)"

definition cbb_add_utf32_be :: "allocator \<Rightarrow> nat \<Rightarrow> u32 \<Rightarrow> unit cbb_op" where
  "cbb_add_utf32_be ml d u = (if is_valid_code_point u then CBB_add_u32 ml d u else op_fail)"

section \<open>The encodings as arithmetic\<close>

text \<open>\<open>sextets n v\<close> are the \<open>n\<close> lowest groups of six bits, as continuation bytes.\<close>

fun sextets :: "nat \<Rightarrow> nat \<Rightarrow> u8 list" where
  "sextets 0 v = []"
| "sextets (Suc n) v = sextets n (v div 64) @ [of_nat (128 + v mod 64)]"

definition utf8_bytes :: "nat \<Rightarrow> u8 list" where
  "utf8_bytes v =
     (if v < 0x80 then [of_nat v]
      else if v < 0x800 then of_nat (0xc0 + v div 64) # sextets 1 v
      else if v < 0x10000 then of_nat (0xe0 + v div 64 ^ 2) # sextets 2 v
      else of_nat (0xf0 + v div 64 ^ 3) # sextets 3 v)"

lemma length_sextets [simp]: "length (sextets n v) = n"
  by (induction n v rule: sextets.induct) simp_all

lemma sextets_Suc: "sextets (Suc n) v = of_nat (128 + v div 64 ^ n mod 64) # sextets n v"
proof (induction n arbitrary: v)
  case 0
  show ?case by simp
next
  case (Suc n)
  have "sextets (Suc (Suc n)) v = sextets (Suc n) (v div 64) @ [of_nat (128 + v mod 64)]" by simp
  also have "\<dots> = of_nat (128 + v div 64 div 64 ^ n mod 64) # sextets n (v div 64) @
      [of_nat (128 + v mod 64)]"
    using Suc by simp
  finally show ?case by (simp add: div_mult2_eq)
qed

section \<open>Bytes and their groups of bits\<close>

lemma BOTTOM_BITS_mask: "n \<le> 8 \<Longrightarrow> BOTTOM_BITS n = mask n"
proof -
  assume n: "n \<le> 8"
  have "BOTTOM_BITS n = ucast (mask n :: u32)"
    by (simp add: BOTTOM_BITS_def mask_eq_exp_minus_1 push_bit_eq_mult)
  also have "\<dots> = mask n"
    by (rule bit_word_eqI) (auto simp: bit_simps)
  finally show ?thesis .
qed

lemma unat_and_NOT_mask: "unat ((c :: 'a::len word) AND NOT (mask k)) = unat c div 2 ^ k * 2 ^ k"
proof -
  have "(c AND NOT (mask k)) OR (c AND mask k) = c"
    by (rule bit_word_eqI) (auto simp: bit_simps)
  moreover have "(c AND NOT (mask k)) AND (c AND mask k) = 0"
    by (rule bit_word_eqI) (auto simp: bit_simps)
  ultimately have "(c AND NOT (mask k)) + (c AND mask k) = c"
    by (simp add: disjunctive_add_eq_or)
  moreover have "c AND mask k \<le> c" by (rule word_and_le2)
  ultimately have "unat (c AND NOT (mask k)) = unat c - unat (c AND mask k)"
    by (metis add_diff_cancel_right' unat_sub)
  then show ?thesis by (simp add: unat_and_mask minus_mod_eq_div_mult)
qed

lemma top_bits_eq:
  assumes "n \<le> 8" and "unat (TOP_BITS m) = t * 2 ^ (8 - n)"
  shows "(c :: u8) AND TOP_BITS n = TOP_BITS m \<longleftrightarrow> unat c div 2 ^ (8 - n) = t"
proof -
  have "unat (c AND TOP_BITS n) = unat c div 2 ^ (8 - n) * 2 ^ (8 - n)"
    using BOTTOM_BITS_mask [of "8 - n"] unat_and_NOT_mask [of c "8 - n"] by (simp add: TOP_BITS_def)
  then show ?thesis using assms(2) by (simp add: word_unat_eq_iff)
qed

lemma TOP_BITS_values:
  "TOP_BITS 1 = 0x80" "TOP_BITS (Suc 0) = 0x80" "TOP_BITS 2 = 0xc0" "TOP_BITS 3 = 0xe0" "TOP_BITS 4 = 0xf0"
  by (simp_all add: TOP_BITS_def BOTTOM_BITS_mask mask_eq_exp_minus_1)

lemma lead_byte_iff:
  fixes c :: u8
  shows "c AND TOP_BITS 2 = TOP_BITS 1 \<longleftrightarrow> unat c div 64 = 2"
    and "c AND TOP_BITS 3 = TOP_BITS 2 \<longleftrightarrow> unat c div 32 = 6"
    and "c AND TOP_BITS 4 = TOP_BITS 3 \<longleftrightarrow> unat c div 16 = 14"
    and "c AND TOP_BITS 5 = TOP_BITS 4 \<longleftrightarrow> unat c div 8 = 30"
proof -
  have "unat (TOP_BITS 1) = 2 * 2 ^ (8 - 2)" "unat (TOP_BITS 2) = 6 * 2 ^ (8 - 3)"
    "unat (TOP_BITS 3) = 14 * 2 ^ (8 - 4)" "unat (TOP_BITS 4) = 30 * 2 ^ (8 - 5)"
    by (simp_all add: TOP_BITS_values)
  from this [THEN top_bits_eq [rotated], of c]
  show "c AND TOP_BITS 2 = TOP_BITS 1 \<longleftrightarrow> unat c div 64 = 2"
    and "c AND TOP_BITS 3 = TOP_BITS 2 \<longleftrightarrow> unat c div 32 = 6"
    and "c AND TOP_BITS 4 = TOP_BITS 3 \<longleftrightarrow> unat c div 16 = 14"
    and "c AND TOP_BITS 5 = TOP_BITS 4 \<longleftrightarrow> unat c div 8 = 30" by simp_all
qed

lemma unat_bottom_bits: "n \<le> 8 \<Longrightarrow> unat ((c :: u8) AND BOTTOM_BITS n) = unat c mod 2 ^ n"
  by (simp add: BOTTOM_BITS_mask unat_and_mask)

lemma byte_of_div_mod:
  assumes "unat (c :: u8) div 2 ^ k = q"
  shows "c = of_nat (q * 2 ^ k + unat c mod 2 ^ k)"
  using assms div_mult_mod_eq [of "unat c" "2 ^ k"] by (intro u8_of_unat) simp

section \<open>Reading UTF-8\<close>

lemma sextet_div_mod: "a < 64 \<Longrightarrow> (128 + a) div 64 = 2 \<and> (128 + a) mod 64 = (a :: nat)"
  using div_mult_self1 [of 64 a 2] mod_mult_self1 [of a 2 64] by (simp add: add.commute)

lemma utf8_continuation_iff:
  assumes "(unat v + 1) * 64 ^ n \<le> 2 ^ 32"
  shows "utf8_continuation n v cbs = (Some w, rest) \<longleftrightarrow>
    unat w div 64 ^ n = unat v \<and> cbs = sextets n (unat w) @ rest"
  using assms
proof (induction n arbitrary: v cbs)
  case 0
  show ?case by (auto simp: op_simps word_unat_eq_iff)
next
  case (Suc n)
  have step: "utf8_continuation n (push_bit 6 v OR ucast (c AND BOTTOM_BITS 6)) cbs' = (Some w, rest)
      \<longleftrightarrow> unat w div 64 ^ n = unat v * 64 + unat c mod 64 \<and> cbs' = sextets n (unat w) @ rest"
    for c :: u8 and cbs'
  proof -
    have bound: "(unat v + 1) * 64 * 64 ^ n \<le> 2 ^ 32" using Suc.prems by (simp add: algebra_simps)
    have "(unat v + 1) * 64 * 1 \<le> (unat v + 1) * 64 * 64 ^ n" by (intro mult_left_mono) simp_all
    from order_trans [OF this bound] have "unat v * 64 + 64 \<le> 2 ^ 32" by simp
    then have c: "unat (push_bit 6 v OR ucast (c AND BOTTOM_BITS 6)) = unat v * 64 + unat c mod 64"
      using unat_push_or [of "ucast (c AND BOTTOM_BITS 6)" 6 v] by (simp add: unat_bottom_bits)
    have "(unat v * 64 + unat c mod 64 + 1) * 64 ^ n \<le> (unat v + 1) * 64 * 64 ^ n"
      by (intro mult_right_mono) simp_all
    from order_trans [OF this bound] show ?thesis using Suc.IH [of "push_bit 6 v OR ucast (c AND BOTTOM_BITS 6)" cbs'] c by simp
  qed
  have byte: "unat c div 64 = 2 \<and> unat w div 64 ^ n = unat v * 64 + unat c mod 64 \<longleftrightarrow>
      unat w div 64 ^ Suc n = unat v \<and> c = of_nat (128 + unat w div 64 ^ n mod 64)" (is "?l \<longleftrightarrow> ?r")
    for c :: u8
  proof
    assume ?l
    moreover have "c = of_nat (2 * 2 ^ 6 + unat c mod 2 ^ 6)"
      using \<open>?l\<close> by (intro byte_of_div_mod) simp
    moreover have "unat w div 64 ^ Suc n = unat w div 64 ^ n div 64"
      by (simp only: power_Suc mult.commute [of 64] div_mult2_eq)
    ultimately show ?r by simp
  next
    assume r: ?r
    have "unat c = (128 + unat w div 64 ^ n mod 64) mod 256"
      using r by (simp only: unat_of_nat_u8)
    then have "unat c = 128 + unat w div 64 ^ n mod 64" by simp
    moreover have "unat w div 64 ^ Suc n = unat w div 64 ^ n div 64"
      by (simp only: power_Suc mult.commute [of 64] div_mult2_eq)
    ultimately show ?l
      using r div_mult_mod_eq [of "unat w div 64 ^ n" 64]
        sextet_div_mod [of "unat w div 64 ^ n mod 64"] by simp
  qed
  show ?case
  proof (cases cbs)
    case Nil
    then show ?thesis by (auto simp: op_simps sextets_Suc)
  next
    case (Cons c cs)
    have "utf8_continuation (Suc n) v cbs = (Some w, rest) \<longleftrightarrow>
        unat c div 64 = 2 \<and> unat w div 64 ^ n = unat v * 64 + unat c mod 64 \<and>
        cs = sextets n (unat w) @ rest"
      using Cons step by (auto simp: op_simps lead_byte_iff [simplified])
    also have "\<dots> \<longleftrightarrow> unat w div 64 ^ Suc n = unat v \<and> cbs = sextets (Suc n) (unat w) @ rest"
      using byte [of c] Cons by (auto simp: sextets_Suc simp del: sextets.simps)
    finally show ?thesis .
  qed
qed

lemma valid_code_point_bound: "is_valid_code_point v \<Longrightarrow> unat v \<le> 0x10ffff"
proof -
  assume "is_valid_code_point v"
  then have "v \<le> 0x10ffff" by (simp add: is_valid_code_point_def not_less split: if_splits)
  then show ?thesis by (simp add: word_le_nat_alt)
qed

lemma cbs_get_utf8_multi:
  fixes c :: u8
  assumes "(k, n, lb) \<in> {(5, 1, 0x80), (4, 2, 0x800), (3, 3, 0x10000)}"
    and "unat c div 2 ^ k = (2 ^ (8 - k) - 2)"
  shows "cbs_get_utf8 (c # cs) = (Some w, rest) \<longleftrightarrow>
    is_valid_code_point w \<and> lb \<le> unat w \<and> unat w div 64 ^ n = unat c mod 2 ^ k \<and>
    cs = sextets n (unat w) @ rest"
proof -
  have big: "\<not> c \<le> 0x7f" using assms by (auto simp: word_le_nat_alt)
  have cont: "utf8_continuation n (ucast (c AND BOTTOM_BITS k)) cs = (Some w, rest) \<longleftrightarrow>
      unat w div 64 ^ n = unat c mod 2 ^ k \<and> cs = sextets n (unat w) @ rest"
  proof -
    have "unat c mod 2 ^ k < 2 ^ k" by simp
    then have "(unat c mod 2 ^ k + 1) * 64 ^ n \<le> 2 ^ k * 64 ^ n"
      by (intro mult_right_mono) (simp_all add: Suc_le_eq)
    also have "\<dots> \<le> 2 ^ 32" using assms(1) by auto
    finally have "(unat c mod 2 ^ k + 1) * 64 ^ n \<le> 2 ^ 32" .
    moreover have "unat (ucast (c AND BOTTOM_BITS k) :: u32) = unat c mod 2 ^ k"
      using assms(1) by (subst unat_ucast_up) (auto simp: unat_bottom_bits)
    ultimately show ?thesis
      using utf8_continuation_iff [of "ucast (c AND BOTTOM_BITS k)" n cs w rest] by simp
  qed
  have "cbs_get_utf8 (c # cs) =
      op_bind (utf8_continuation n (ucast (c AND BOTTOM_BITS k)))
        (\<lambda>v. if \<not> is_valid_code_point v \<or> v < of_nat lb then op_fail else op_ret v) cs"
    using assms big
    by (auto simp: cbs_get_utf8_def op_bind_Some [of CBS_get_u8] CBS_get_u8_iff lead_byte_iff)
  also have "\<dots> = (Some w, rest) \<longleftrightarrow> is_valid_code_point w \<and> lb \<le> unat w \<and>
      utf8_continuation n (ucast (c AND BOTTOM_BITS k)) cs = (Some w, rest)"
    using assms(1) by (auto simp: op_simps word_less_nat_alt split: if_splits)
  finally show ?thesis using cont by simp
qed

lemma utf8_lead_value:
  assumes "a < 2 ^ k" and "k \<le> 8" and "q * 2 ^ k + a < 256"
  shows "unat (of_nat (q * 2 ^ k + a) :: u8) div 2 ^ k = q"
    and "unat (of_nat (q * 2 ^ k + a) :: u8) mod 2 ^ k = a"
proof -
  have "unat (of_nat (q * 2 ^ k + a) :: u8) = q * 2 ^ k + a"
    unfolding unat_of_nat_u8 using assms(3) by (rule mod_less)
  then show "unat (of_nat (q * 2 ^ k + a) :: u8) div 2 ^ k = q"
    and "unat (of_nat (q * 2 ^ k + a) :: u8) mod 2 ^ k = a"
    using assms(1) by simp_all
qed

lemma cbs_get_utf8_iff:
  "cbs_get_utf8 cbs = (Some w, rest) \<longleftrightarrow> is_valid_code_point w \<and> cbs = utf8_bytes (unat w) @ rest"
proof
  assume get: "cbs_get_utf8 cbs = (Some w, rest)"
  then obtain c cs where cbs: "cbs = c # cs" by (auto simp: cbs_get_utf8_def op_simps)
  have multi: "is_valid_code_point w \<and> cbs = utf8_bytes (unat w) @ rest"
    if "(k, n, lb) \<in> {(5, 1, 0x80), (4, 2, 0x800), (3, 3, 0x10000)}"
      and lead: "unat c div 2 ^ k = 2 ^ (8 - k) - 2" for k n lb :: nat
  proof -
    note m = get [unfolded cbs cbs_get_utf8_multi [OF that]]
    have "unat w < 64 ^ n * 2 ^ k"
      using m by (simp add: div_less_iff_less_mult [symmetric] mult.commute)
    moreover have "c = of_nat ((2 ^ (8 - k) - 2) * 2 ^ k + unat w div 64 ^ n)"
      using byte_of_div_mod [OF lead] m by simp
    ultimately show ?thesis using that(1) m cbs by (auto simp: utf8_bytes_def)
  qed
  consider "c \<le> 0x7f" | "\<not> c \<le> 0x7f" "unat c div 2 ^ 5 = 2 ^ (8 - 5) - 2"
    | "\<not> c \<le> 0x7f" "unat c div 2 ^ 4 = 2 ^ (8 - 4) - 2"
    | "\<not> c \<le> 0x7f" "unat c div 2 ^ 3 = 2 ^ (8 - 3) - 2"
    | "\<not> c \<le> 0x7f" "unat c div 32 \<noteq> 6" "unat c div 16 \<noteq> 14" "unat c div 8 \<noteq> 30" by fastforce
  then show "is_valid_code_point w \<and> cbs = utf8_bytes (unat w) @ rest"
  proof cases
    case 1
    then have "w = ucast c" "rest = cs" and c: "unat c < 128"
      using get cbs by (auto simp: cbs_get_utf8_def op_simps word_le_nat_alt)
    moreover have "is_valid_code_point (ucast c)"
    proof -
      have "(ucast c AND 0xfffe :: u32) \<le> ucast c" by (rule word_and_le2)
      then show ?thesis
        using c by (auto simp: is_valid_code_point_def word_le_nat_alt word_less_nat_alt)
    qed
    ultimately show ?thesis using cbs by (simp add: utf8_bytes_def)
  next
    case 2 then show ?thesis using multi [of 5 1 "0x80"] by simp
  next
    case 3 then show ?thesis using multi [of 4 2 "0x800"] by simp
  next
    case 4 then show ?thesis using multi [of 3 3 "0x10000"] by simp
  next
    case 5
    then show ?thesis
      using get cbs by (auto simp: cbs_get_utf8_def op_simps lead_byte_iff)
  qed
next
  assume r: "is_valid_code_point w \<and> cbs = utf8_bytes (unat w) @ rest"
  then have w: "unat w \<le> 0x10ffff" using valid_code_point_bound by blast
  have multi: "cbs_get_utf8 cbs = (Some w, rest)"
    if k: "(k, n, lb) \<in> {(5, 1, 0x80), (4, 2, 0x800), (3, 3, 0x10000)}"
      and "lb \<le> unat w" and "unat w div 64 ^ n < 2 ^ k"
      and "cbs = of_nat ((2 ^ (8 - k) - 2) * 2 ^ k + unat w div 64 ^ n) # sextets n (unat w) @ rest"
    for k n lb :: nat
  proof -
    have "(2 ^ (8 - k) - 2) * 2 ^ k + unat w div 64 ^ n < 256" "k \<le> 8" using that by auto
    note l = utf8_lead_value [OF that(3) this(2,1)]
    show ?thesis unfolding that(4) cbs_get_utf8_multi [OF k l(1)] using l(2) r that(2) by simp
  qed
  consider "unat w < 0x80" | "0x80 \<le> unat w" "unat w < 0x800" | "0x800 \<le> unat w" "unat w < 0x10000"
    | "0x10000 \<le> unat w" by linarith
  then show "cbs_get_utf8 cbs = (Some w, rest)"
  proof cases
    case 1
    then have "cbs = of_nat (unat w) # rest" "unat (of_nat (unat w) :: u8) = unat w"
      using r by (simp add: utf8_bytes_def, unfold unat_of_nat_u8) simp
    moreover have "ucast (of_nat (unat w) :: u8) = w"
      using calculation(2) by (simp add: word_unat_eq_iff)
    ultimately show ?thesis
      using 1 by (simp add: cbs_get_utf8_def op_simps word_le_nat_alt)
  next
    case 2 then show ?thesis using multi [of 5 1 "0x80"] r by (simp add: utf8_bytes_def)
  next
    case 3 then show ?thesis using multi [of 4 2 "0x800"] r by (simp add: utf8_bytes_def)
  next
    case 4 then show ?thesis using multi [of 3 3 "0x10000"] r w by (simp add: utf8_bytes_def)
  qed
qed

section \<open>Writing UTF-8\<close>

lemma ucast_byte: "(ucast (w :: u32) :: u8) = of_nat (unat w)"
  by (simp add: word_unat_eq_iff unsigned_ucast_eq unat_of_nat take_bit_eq_mod)

lemma push_or_byte:
  fixes x :: u32
  assumes "unat x < 2 ^ j" and "unat q * 2 ^ j + 2 ^ j \<le> 256"
  shows "(ucast (push_bit j q OR x) :: u8) = of_nat (unat q * 2 ^ j + unat x)"
  unfolding ucast_byte using assms by (subst unat_push_or) simp_all

lemma utf8_lead_eq:
  assumes "ucast (TOP_BITS n) = push_bit j (q :: u32)" and "unat u div 2 ^ k < 2 ^ j"
    and "unat q * 2 ^ j + 2 ^ j \<le> 256"
  shows "utf8_lead n k u = of_nat (unat q * 2 ^ j + unat u div 2 ^ k)"
  using push_or_byte [of "drop_bit k u" j q] assms by (simp add: utf8_lead_def unat_drop_bit)

lemma utf8_tail_eq: "utf8_tail k u = of_nat (128 + unat u div 2 ^ k mod 64)"
proof -
  have "ucast (TOP_BITS 1) = push_bit 6 (2 :: u32)" "ucast (BOTTOM_BITS 6) = (mask 6 :: u32)"
    by (simp_all add: TOP_BITS_values BOTTOM_BITS_mask mask_eq_exp_minus_1)
  moreover have "unat (drop_bit k u AND mask 6) = unat u div 2 ^ k mod 64"
    by (simp add: unat_and_mask unat_drop_bit)
  ultimately show ?thesis
    using push_or_byte [of "drop_bit k u AND mask 6" 6 2] by (simp add: utf8_tail_def)
qed

lemma utf8_bytes_written:
  "u \<le> 0x7f \<Longrightarrow> utf8_bytes (unat u) = [ucast u]"
  "\<not> u \<le> 0x7f \<Longrightarrow> u \<le> 0x7ff \<Longrightarrow> utf8_bytes (unat u) = [utf8_lead 2 6 u, utf8_tail 0 u]"
  "\<not> u \<le> 0x7ff \<Longrightarrow> u \<le> 0xffff \<Longrightarrow>
     utf8_bytes (unat u) = [utf8_lead 3 12 u, utf8_tail 6 u, utf8_tail 0 u]"
  "\<not> u \<le> 0xffff \<Longrightarrow> u \<le> 0x10ffff \<Longrightarrow>
     utf8_bytes (unat u) = [utf8_lead 4 18 u, utf8_tail 12 u, utf8_tail 6 u, utf8_tail 0 u]"
proof -
  have two: "sextets 2 v = [of_nat (128 + v div 64 mod 64), of_nat (128 + v mod 64)]"
    and three: "sextets 3 v = of_nat (128 + v div 64 div 64 mod 64) # sextets 2 v" for v
    by (simp_all add: numeral_2_eq_2 numeral_3_eq_3 del: of_nat_add)
  have lead: "ucast (TOP_BITS 2) = push_bit 5 (6 :: u32)" "ucast (TOP_BITS 3) = push_bit 4 (14 :: u32)"
    "ucast (TOP_BITS 4) = push_bit 3 (30 :: u32)" by (simp_all add: TOP_BITS_values)
  show "u \<le> 0x7f \<Longrightarrow> utf8_bytes (unat u) = [ucast u]"
    by (simp add: utf8_bytes_def word_le_nat_alt)
  have small: "\<not> u \<le> 0x7f \<Longrightarrow> \<not> unat u < 0x80" "\<not> u \<le> 0x7ff \<Longrightarrow> \<not> unat u < 0x800"
    "\<not> u \<le> 0xffff \<Longrightarrow> \<not> unat u < 0x10000" "u \<le> 0x7ff \<Longrightarrow> unat u < 0x800"
    "u \<le> 0xffff \<Longrightarrow> unat u < 0x10000" "u \<le> 0x10ffff \<Longrightarrow> unat u < 0x110000"
    by (simp_all add: word_le_nat_alt)
  show "utf8_bytes (unat u) = [utf8_lead 2 6 u, utf8_tail 0 u]" if "\<not> u \<le> 0x7f" "u \<le> 0x7ff"
  proof -
    note n = small(1) [OF that(1)] small(4) [OF that(2)]
    have "utf8_lead 2 6 u = of_nat (unat (6 :: u32) * 2 ^ 5 + unat u div 2 ^ 6)"
      using n by (intro utf8_lead_eq [OF lead(1)]) simp_all
    then show ?thesis using n by (simp add: utf8_bytes_def utf8_tail_eq)
  qed
  show "utf8_bytes (unat u) = [utf8_lead 3 12 u, utf8_tail 6 u, utf8_tail 0 u]"
    if "\<not> u \<le> 0x7ff" "u \<le> 0xffff"
  proof -
    note n = small(2) [OF that(1)] small(5) [OF that(2)]
    have "utf8_lead 3 12 u = of_nat (unat (14 :: u32) * 2 ^ 4 + unat u div 2 ^ 12)"
      using n by (intro utf8_lead_eq [OF lead(2)]) simp_all
    then show ?thesis using n by (simp add: utf8_bytes_def utf8_tail_eq two)
  qed
  show "utf8_bytes (unat u) = [utf8_lead 4 18 u, utf8_tail 12 u, utf8_tail 6 u, utf8_tail 0 u]"
    if "\<not> u \<le> 0xffff" "u \<le> 0x10ffff"
  proof -
    note n = small(3) [OF that(1)] small(6) [OF that(2)]
    have "utf8_lead 4 18 u = of_nat (unat (30 :: u32) * 2 ^ 3 + unat u div 2 ^ 18)"
      using n by (intro utf8_lead_eq [OF lead(3)]) simp_all
    moreover have "unat u div 64 div 64 = unat u div 2 ^ 12" by (simp add: div_mult2_eq [symmetric])
    ultimately show ?thesis using n by (simp add: utf8_bytes_def utf8_tail_eq two three)
  qed
qed

lemma cbb_refines_fail: "cbb_refines ml op_fail (\<lambda>_. None)"
  by (auto simp: cbb_refines_def cbb_does_def op_fail_def intro: size_monoI)

lemma stack_add_pair: "malloc_ok ml \<Longrightarrow> cbb_refines ml f (stack_add d bs) \<Longrightarrow>
    cbb_refines ml (op_bind (CBB_add_u8 ml d b) (\<lambda>_. f)) (stack_add d (b # bs))"
  using cbb_refines_bind [OF cbb_add_u8_refines [of ml d b], of "\<lambda>_. f" "stack_add d bs"]
  by (simp add: stack_add_append [abs_def])

lemma cbb_add_utf8_refines:
  assumes ml: "malloc_ok ml"
  shows "cbb_refines ml (cbb_add_utf8 ml d u)
    (\<lambda>s. if is_valid_code_point u then stack_add d (utf8_bytes (unat u)) s else None)"
proof (cases "is_valid_code_point u")
  case False
  then show ?thesis using cbb_refines_fail by (simp add: cbb_add_utf8_def)
next
  case True
  then have top: "u \<le> 0x10ffff" using valid_code_point_bound by (simp add: word_le_nat_alt)
  note add = stack_add_pair [OF ml] cbb_add_u8_refines [OF ml]
  consider "u \<le> 0x7f" | "\<not> u \<le> 0x7f" "u \<le> 0x7ff" | "\<not> u \<le> 0x7ff" "u \<le> 0xffff"
    | "\<not> u \<le> 0xffff" by blast
  then have "cbb_refines ml (cbb_add_utf8 ml d u) (stack_add d (utf8_bytes (unat u)))"
  proof cases
    case 1
    then show ?thesis using True by (simp add: cbb_add_utf8_def utf8_bytes_written, intro add)
  next
    case 2
    then show ?thesis using True by (simp add: cbb_add_utf8_def utf8_bytes_written, intro add)
  next
    case 3
    then have "\<not> u \<le> 0x7f" by (auto simp: word_le_nat_alt)
    then show ?thesis using True 3 by (simp add: cbb_add_utf8_def utf8_bytes_written, intro add)
  next
    case 4
    then have "\<not> u \<le> 0x7f" "\<not> u \<le> 0x7ff" by (auto simp: word_le_nat_alt)
    then show ?thesis using True top 4 by (simp add: cbb_add_utf8_def utf8_bytes_written, intro add)
  qed
  then show ?thesis using True by simp
qed

section \<open>The four encodings as codecs\<close>

lemma utf8_bytes_nonempty: "utf8_bytes v \<noteq> []"
  by (simp add: utf8_bytes_def)

interpretation utf8: cbb_codec cbs_get_utf8 "\<lambda>u. utf8_bytes (unat u)" is_valid_code_point cbb_add_utf8
  by unfold_locales (simp_all add: cbs_get_utf8_iff utf8_bytes_nonempty cbb_add_utf8_refines)

lemma u8_back: "unat (c :: u8) \<le> 255 \<and> (ucast (ucast c :: u32) :: u8) = c"
proof -
  have "unat c \<le> 255" using unat_u8_less [of c] by linarith
  moreover have "unat (ucast (ucast c :: u32) :: u8) = unat c" by (subst unat_ucast_small) simp_all
  ultimately show ?thesis by (simp add: word_unat_eq_iff)
qed

lemma cbs_get_latin1_iff:
  "cbs_get_latin1 cbs = (Some u, rest) \<longleftrightarrow> u \<le> 0xff \<and> cbs = [ucast u] @ rest"
proof
  assume "cbs_get_latin1 cbs = (Some u, rest)"
  then obtain c :: u8 where c: "cbs = c # rest" "u = ucast c" by (auto simp: cbs_get_latin1_def op_simps)
  then show "u \<le> 0xff \<and> cbs = [ucast u] @ rest"
    using u8_back [of c] by (simp add: word_le_nat_alt)
next
  assume u: "u \<le> 0xff \<and> cbs = [ucast u] @ rest"
  then have "unat u < 2 ^ LENGTH(8)" by (simp add: word_le_nat_alt)
  from unat_ucast_small [OF this] have "ucast (ucast u :: u8) = u" by (simp add: word_unat_eq_iff)
  then show "cbs_get_latin1 cbs = (Some u, rest)"
    using u by (simp add: cbs_get_latin1_def op_simps)
qed

interpretation latin1: cbb_codec cbs_get_latin1 "\<lambda>u. [ucast u]" "\<lambda>u. u \<le> 0xff" cbb_add_latin1
  by unfold_locales
    (simp_all add: cbs_get_latin1_iff cbb_add_latin1_def cbb_add_u8_refines cbb_refines_fail)

lemma unat_ucast_u16: "u \<le> 0xffff \<Longrightarrow> unat (ucast (u :: u32) :: u16) = unat u"
  by (simp add: unsigned_ucast_eq word_le_nat_alt take_bit_nat_eq_self)

lemma cbs_get_ucs2_be_iff:
  "cbs_get_ucs2_be cbs = (Some u, rest) \<longleftrightarrow>
     (u \<le> 0xffff \<and> is_valid_code_point u) \<and> cbs = be_bytes 2 (unat u) @ rest"
proof
  assume "cbs_get_ucs2_be cbs = (Some u, rest)"
  then obtain c :: u16 and bs where c: "cbs = bs @ rest" "length bs = 2" "unat c = be_nat bs"
    "u = ucast c" "is_valid_code_point u"
    by (auto simp: cbs_get_ucs2_be_def op_simps split: if_splits)
  have "unat c < 2 ^ 16" using unsigned_less [of c, where 'a = nat] by simp
  then show "(u \<le> 0xffff \<and> is_valid_code_point u) \<and> cbs = be_bytes 2 (unat u) @ rest"
    using c be_bytes_be_nat [of bs] by (simp add: word_le_nat_alt)
next
  assume u: "(u \<le> 0xffff \<and> is_valid_code_point u) \<and> cbs = be_bytes 2 (unat u) @ rest"
  then have c: "unat (ucast u :: u16) = unat u" by (simp add: unat_ucast_u16)
  then have "ucast (ucast u :: u16) = u" by (simp add: word_unat_eq_iff)
  moreover have "unat u < 256 ^ 2" using u by (simp add: word_le_nat_alt)
  then have "CBS_get_u16 cbs = (Some (ucast u), rest)"
    using u c by (auto simp: CBS_get_u16_iff)
  ultimately show "cbs_get_ucs2_be cbs = (Some u, rest)"
    using u by (simp add: cbs_get_ucs2_be_def op_bind_Some op_ret_def)
qed

interpretation ucs2: cbb_codec cbs_get_ucs2_be "\<lambda>u. be_bytes 2 (unat u)"
  "\<lambda>u. u \<le> 0xffff \<and> is_valid_code_point u" cbb_add_ucs2_be
proof unfold_locales
  fix ml d and u :: u32
  assume ml: "malloc_ok ml"
  have "cbb_refines ml (CBB_add_u16 ml d (ucast u)) (stack_add d (be_bytes 2 (unat u)))" if "u \<le> 0xffff"
    using cbb_add_u16_refines [OF ml, of d "ucast u"] unfolding unat_ucast_u16 [OF that] .
  then show "cbb_refines ml (cbb_add_ucs2_be ml d u)
      (\<lambda>s. if u \<le> 0xffff \<and> is_valid_code_point u then stack_add d (be_bytes 2 (unat u)) s else None)"
    by (cases "u \<le> 0xffff \<and> is_valid_code_point u") (auto simp: cbb_add_ucs2_be_def cbb_refines_fail)
qed (auto simp: cbs_get_ucs2_be_iff numeral_2_eq_2)

lemma cbs_get_utf32_be_iff:
  "cbs_get_utf32_be cbs = (Some u, rest) \<longleftrightarrow>
     is_valid_code_point u \<and> cbs = be_bytes 4 (unat u) @ rest"
proof
  assume "cbs_get_utf32_be cbs = (Some u, rest)"
  then obtain bs where "cbs = bs @ rest" "length bs = 4" "unat u = be_nat bs" "is_valid_code_point u"
    by (auto simp: cbs_get_utf32_be_def op_simps split: if_splits)
  then show "is_valid_code_point u \<and> cbs = be_bytes 4 (unat u) @ rest"
    using be_bytes_be_nat [of bs] by simp
next
  assume u: "is_valid_code_point u \<and> cbs = be_bytes 4 (unat u) @ rest"
  have "unat u < 256 ^ 4" using unsigned_less [of u, where 'a = nat] by simp
  then have "CBS_get_u32 cbs = (Some u, rest)" using u by (auto simp: CBS_get_u32_iff)
  then show "cbs_get_utf32_be cbs = (Some u, rest)"
    using u by (simp add: cbs_get_utf32_be_def op_bind_Some op_ret_def)
qed

lemma be_bytes_nonempty: "0 < n \<Longrightarrow> be_bytes n v \<noteq> []"
  using length_be_bytes [of n v] by fastforce

interpretation utf32: cbb_codec cbs_get_utf32_be "\<lambda>u. be_bytes 4 (unat u)" is_valid_code_point
  cbb_add_utf32_be
  by unfold_locales
    (simp_all add: cbs_get_utf32_be_iff cbb_add_utf32_be_def cbb_add_u32_refines cbb_refines_fail
      be_bytes_nonempty)

section \<open>Valid code points\<close>

lemma unat_and_0xfffe: "unat (v AND 0xfffe :: u32) = unat v mod 0x10000 div 2 * 2"
proof -
  have "(0xfffe :: u32) = mask 16 AND NOT (mask 1)" by (simp add: mask_eq_exp_minus_1)
  then have "v AND 0xfffe = (v AND mask 16) AND NOT (mask 1)" by (simp only: and.assoc)
  then show ?thesis
    using unat_and_NOT_mask [of "v AND mask 16" 1] unat_and_mask [of v 16] by simp
qed

lemma is_valid_code_point_iff:
  "is_valid_code_point v \<longleftrightarrow>
     unat v \<le> 0x10ffff \<and> unat v mod 0x10000 < 0xfffe \<and>
     \<not> (0xfdd0 \<le> unat v \<and> unat v \<le> 0xfdef) \<and> \<not> (0xd800 \<le> unat v \<and> unat v \<le> 0xdfff)"
proof -
  have "(v AND 0xfffe = 0xfffe) \<longleftrightarrow> \<not> unat v mod 0x10000 < 0xfffe"
  proof -
    have "(v AND 0xfffe = 0xfffe) \<longleftrightarrow> unat v mod 0x10000 div 2 * 2 = 0xfffe"
      by (simp add: word_unat_eq_iff unat_and_0xfffe)
    moreover have "n div 2 * 2 = 0xfffe \<longleftrightarrow> \<not> n < 0xfffe" if "n < 0x10000" for n :: nat
    proof -
      have "n \<in> {0xfffe, 0xffff} \<or> n < 0xfffe" using that by auto
      then show ?thesis using div_mult_mod_eq [of n 2] by auto
    qed
    ultimately show ?thesis by simp
  qed
  then show ?thesis
    by (auto simp: is_valid_code_point_def word_le_nat_alt word_less_nat_alt)
qed

text \<open>
  C8: \<open>cbs_get_utf8\<close> accepts exactly the shortest UTF-8 encodings of the valid code points
  (at most 0x10ffff, no surrogate, no noncharacter) and stops behind the encoding.
\<close>

theorem cbs_get_utf8_shortest_forms:
  "cbs_get_utf8 cbs = (Some w, rest) \<longleftrightarrow>
     unat w \<le> 0x10ffff \<and> unat w mod 0x10000 < 0xfffe \<and>
     \<not> (0xfdd0 \<le> unat w \<and> unat w \<le> 0xfdef) \<and> \<not> (0xd800 \<le> unat w \<and> unat w \<le> 0xdfff) \<and>
     cbs = utf8_bytes (unat w) @ rest"
  by (simp add: cbs_get_utf8_iff is_valid_code_point_iff)

text \<open>
  A builder session that writes a non-empty list of code points with \<open>cbb_add_utf8\<close>
  succeeds, with an allocator that does not fail, exactly when all of them are valid, and
  then returns their UTF-8 encodings one after the other.
\<close>

theorem cbb_add_utf8_writes:
  assumes "malloc_ok ml" and "malloc_total ml" and "n \<le> 2 ^ 60" and "us \<noteq> []" and "length us \<le> 2 ^ 50"
  shows "cbb_session ml n (op_each (cbb_add_utf8 ml 0) us) =
    (if list_all is_valid_code_point us then Some (concat (map (\<lambda>u. utf8_bytes (unat u)) us)) else None)"
proof (cases "list_all is_valid_code_point us")
  case True
  have "length (concat (map (\<lambda>u. utf8_bytes (unat u)) us)) \<le> 4 * length us"
    by (induction us) (simp_all add: utf8_bytes_def)
  then have "length (concat (map (\<lambda>u. utf8_bytes (unat u)) us)) \<le> 2 ^ 60" using assms(5) by simp
  then show ?thesis using True utf8.session_total [OF assms(1-4) True] by simp
next
  case False
  then show ?thesis using utf8.session_partial [OF assms(1,3,4)]
    by (cases "cbb_session ml n (op_each (cbb_add_utf8 ml 0) us)") auto
qed

theorem cbb_add_utf8_writes_witness:
  "cbb_session zero_malloc 1 (op_each (cbb_add_utf8 zero_malloc 0) [0x41, 0x20ac]) =
     Some [0x41, 0xe2, 0x82, 0xac] \<and>
   cbb_session zero_malloc 1 (op_each (cbb_add_utf8 zero_malloc 0) [0x41, 0xd800]) = None"
proof -
  have t: "malloc_total zero_malloc" by (simp add: malloc_total_def zero_malloc_def)
  have "sextets 2 8364 = [0x82, 0xac]" by (simp add: numeral_2_eq_2)
  then show ?thesis
    using cbb_add_utf8_writes [OF zero_malloc_ok t, of 1 "[0x41, 0x20ac]"]
      cbb_add_utf8_writes [OF zero_malloc_ok t, of 1 "[0x41, 0xd800]"]
    by (simp add: is_valid_code_point_iff utf8_bytes_def)
qed

end
