(* ===== verification/Mbstring.thy ===== *)
theory Mbstring
  imports Unicode
begin

text \<open>
  \<open>crypto/asn1/a_mbstr.c\<close>, the choice of an ASN.1 string type for a text and its
  transcoding, with the string objects of \<open>crypto/asn1/asn1_lib.c\<close> it fills.  The
  specification is on lists of code points: the type is the first admissible one that
  can hold all of them, and the contents are their encodings in that type.
\<close>

section \<open>String objects\<close>

record ASN1_STRING =
  asn1_length :: int
  asn1_type :: int
  asn1_data :: "u8 list option"
  asn1_flags :: int

definition ASN1_STRING_type_new :: "allocator \<Rightarrow> int \<Rightarrow> ASN1_STRING option" where
  "ASN1_STRING_type_new ml type =
     (case OPENSSL_malloc ml 24 of
        None \<Rightarrow> None
      | Some _ \<Rightarrow> Some \<lparr>asn1_length = 0, asn1_type = type, asn1_data = None, asn1_flags = 0\<rparr>)"

definition ASN1_STRING_new :: "allocator \<Rightarrow> ASN1_STRING option" where
  "ASN1_STRING_new ml = ASN1_STRING_type_new ml 4"

text \<open>A C string is the bytes before the first zero.\<close>

definition c_strlen :: "u8 list \<Rightarrow> nat" where
  "c_strlen s = length (takeWhile (\<lambda>b. b \<noteq> 0) s)"

definition ASN1_STRING_set ::
    "allocator \<Rightarrow> ASN1_STRING \<Rightarrow> u8 list option \<Rightarrow> int \<Rightarrow> bool \<times> ASN1_STRING"
where
  "ASN1_STRING_set ml str data len =
     (if len < 0 \<and> data = None then (False, str)
      else
        let len = (if len < 0 then int (c_strlen (the data)) else len) in
        case (if asn1_length str \<le> len \<or> asn1_data str = None then
                (case asn1_data str of
                   None \<Rightarrow> OPENSSL_malloc ml (nat (len + 1))
                 | Some c \<Rightarrow> OPENSSL_realloc ml (Some c) (nat (len + 1)))
              else asn1_data str)
        of None \<Rightarrow> (False, str)
         | Some m \<Rightarrow>
             (True, str\<lparr>asn1_length := len,
                        asn1_data := Some (case data of
                            None \<Rightarrow> m
                          | Some d \<Rightarrow> (mem_write m 0 (take (nat len) d))[nat len := 0])\<rparr>))"

definition ASN1_STRING_set0 :: "ASN1_STRING \<Rightarrow> u8 list option \<Rightarrow> int \<Rightarrow> ASN1_STRING" where
  "ASN1_STRING_set0 str data len = str\<lparr>asn1_data := data, asn1_length := len\<rparr>"

definition ASN1_STRING_copy ::
    "allocator \<Rightarrow> ASN1_STRING \<Rightarrow> ASN1_STRING option \<Rightarrow> bool \<times> ASN1_STRING"
where
  "ASN1_STRING_copy ml dst str =
     (case str of
        None \<Rightarrow> (False, dst)
      | Some str \<Rightarrow>
          (case ASN1_STRING_set ml (dst\<lparr>asn1_type := asn1_type str\<rparr>) (asn1_data str) (asn1_length str) of
             (False, dst) \<Rightarrow> (False, dst)
           | (True, dst) \<Rightarrow> (True, dst\<lparr>asn1_flags := asn1_flags str\<rparr>)))"

definition ASN1_STRING_dup :: "allocator \<Rightarrow> ASN1_STRING option \<Rightarrow> ASN1_STRING option" where
  "ASN1_STRING_dup ml str =
     (case str of
        None \<Rightarrow> None
      | Some _ \<Rightarrow>
          (case ASN1_STRING_new ml of
             None \<Rightarrow> None
           | Some ret \<Rightarrow>
               (case ASN1_STRING_copy ml ret str of (False, _) \<Rightarrow> None | (True, ret) \<Rightarrow> Some ret)))"

text \<open>
  \<open>memcmp\<close> of the C library returns a number whose sign is that of the first
  difference; the model returns the difference itself.
\<close>

fun c_memcmp :: "u8 list \<Rightarrow> u8 list \<Rightarrow> int" where
  "c_memcmp (x # xs) (y # ys) =
     (if x = y then c_memcmp xs ys else int (unat x) - int (unat y))"
| "c_memcmp _ _ = 0"

definition asn1_content :: "ASN1_STRING \<Rightarrow> u8 list" where
  "asn1_content s = take (nat (asn1_length s)) (case asn1_data s of None \<Rightarrow> [] | Some m \<Rightarrow> m)"

definition ASN1_STRING_cmp :: "ASN1_STRING \<Rightarrow> ASN1_STRING \<Rightarrow> int" where
  "ASN1_STRING_cmp a b =
     (let i = asn1_length a - asn1_length b in
      if i = 0 then
        (let i = c_memcmp (asn1_content a) (asn1_content b) in
         if i = 0 then asn1_type a - asn1_type b else i)
      else i)"

section \<open>Constants of \<open>asn1.h\<close>\<close>

definition V_ASN1_UTF8STRING :: int where "V_ASN1_UTF8STRING = 12"
definition V_ASN1_PRINTABLESTRING :: int where "V_ASN1_PRINTABLESTRING = 19"
definition V_ASN1_T61STRING :: int where "V_ASN1_T61STRING = 20"
definition V_ASN1_IA5STRING :: int where "V_ASN1_IA5STRING = 22"
definition V_ASN1_UNIVERSALSTRING :: int where "V_ASN1_UNIVERSALSTRING = 28"
definition V_ASN1_BMPSTRING :: int where "V_ASN1_BMPSTRING = 30"

definition B_ASN1_PRINTABLESTRING :: u64 where "B_ASN1_PRINTABLESTRING = 0x0002"
definition B_ASN1_T61STRING :: u64 where "B_ASN1_T61STRING = 0x0004"
definition B_ASN1_IA5STRING :: u64 where "B_ASN1_IA5STRING = 0x0010"
definition B_ASN1_UNIVERSALSTRING :: u64 where "B_ASN1_UNIVERSALSTRING = 0x0100"
definition B_ASN1_BMPSTRING :: u64 where "B_ASN1_BMPSTRING = 0x0800"
definition B_ASN1_UTF8STRING :: u64 where "B_ASN1_UTF8STRING = 0x2000"

definition DIRSTRING_TYPE :: u64 where
  "DIRSTRING_TYPE =
     B_ASN1_PRINTABLESTRING OR B_ASN1_T61STRING OR B_ASN1_BMPSTRING OR B_ASN1_UTF8STRING"

section \<open>The four input and output formats\<close>

datatype mb_form = MB_BMP | MB_UNIV | MB_UTF8 | MB_ASC

datatype asn1_reason =
  INVALID_BMPSTRING | INVALID_UNIVERSALSTRING | INVALID_UTF8STRING | INTERNAL_ERROR
  | UNKNOWN_FORMAT | ILLEGAL_CHARACTERS | STRING_TOO_SHORT | STRING_TOO_LONG | MALLOC_FAILURE

definition mb_switch :: "int \<Rightarrow> (mb_form \<times> asn1_reason) option" where
  "mb_switch inform =
     (if inform = 0x1002 then Some (MB_BMP, INVALID_BMPSTRING)
      else if inform = 0x1004 then Some (MB_UNIV, INVALID_UNIVERSALSTRING)
      else if inform = 0x1000 then Some (MB_UTF8, INVALID_UTF8STRING)
      else if inform = 0x1001 then Some (MB_ASC, INTERNAL_ERROR)
      else None)"

fun mb_decode :: "mb_form \<Rightarrow> u32 cbs_op" where
  "mb_decode MB_BMP = cbs_get_ucs2_be"
| "mb_decode MB_UNIV = cbs_get_utf32_be"
| "mb_decode MB_UTF8 = cbs_get_utf8"
| "mb_decode MB_ASC = cbs_get_latin1"

fun mb_encode :: "mb_form \<Rightarrow> allocator \<Rightarrow> nat \<Rightarrow> u32 \<Rightarrow> unit cbb_op" where
  "mb_encode MB_BMP = cbb_add_ucs2_be"
| "mb_encode MB_UNIV = cbb_add_utf32_be"
| "mb_encode MB_UTF8 = cbb_add_utf8"
| "mb_encode MB_ASC = cbb_add_latin1"

fun mb_bytes :: "mb_form \<Rightarrow> u32 \<Rightarrow> u8 list" where
  "mb_bytes MB_BMP u = be_bytes 2 (unat u)"
| "mb_bytes MB_UNIV u = be_bytes 4 (unat u)"
| "mb_bytes MB_UTF8 u = utf8_bytes (unat u)"
| "mb_bytes MB_ASC u = [ucast u]"

fun mb_valid :: "mb_form \<Rightarrow> u32 \<Rightarrow> bool" where
  "mb_valid MB_BMP u = (u \<le> 0xffff \<and> is_valid_code_point u)"
| "mb_valid MB_UNIV u = is_valid_code_point u"
| "mb_valid MB_UTF8 u = is_valid_code_point u"
| "mb_valid MB_ASC u = (u \<le> 0xff)"

interpretation mb: cbb_codec "mb_decode f" "mb_bytes f" "mb_valid f" "mb_encode f" for f
proof unfold_locales
  fix cbs u rest
  show "mb_decode f cbs = (Some u, rest) \<longleftrightarrow> mb_valid f u \<and> cbs = mb_bytes f u @ rest"
    by (cases f) (simp_all add: utf8.dec_iff latin1.dec_iff ucs2.dec_iff utf32.dec_iff)
next
  fix u
  show "mb_valid f u \<Longrightarrow> mb_bytes f u \<noteq> []"
    by (cases f) (simp_all add: utf8_bytes_nonempty be_bytes_nonempty)
next
  fix ml d u
  show "malloc_ok ml \<Longrightarrow> cbb_refines ml (mb_encode f ml d u)
      (\<lambda>s. if mb_valid f u then stack_add d (mb_bytes f u) s else None)"
    using utf8.add_refines latin1.add_refines ucs2.add_refines utf32.add_refines
    by (cases f) (simp_all cong del: if_weak_cong)
qed

section \<open>The first pass: which types can hold the text\<close>

text \<open>
  \<open>strchr(s, ch)\<close> is not \<open>NULL\<close> when \<open>ch\<close> occurs in \<open>s\<close> or is the terminating zero.
\<close>

definition c_strchr :: "nat list \<Rightarrow> nat \<Rightarrow> bool" where
  "c_strchr s ch \<longleftrightarrow> list_ex (\<lambda>x. x = ch) (s @ [0])"

definition is_printable :: "u32 \<Rightarrow> bool" where
  "is_printable value =
     (if value > 0x7f then False
      else let ch = unat value in
        if ch \<ge> 97 \<and> ch \<le> 122 then True
        else if ch \<ge> 65 \<and> ch \<le> 90 then True
        else if ch \<ge> 48 \<and> ch \<le> 57 then True
        else if ch = 32 \<or> c_strchr [39, 40, 41, 43, 44, 45, 46, 47, 58, 61, 63] ch then True
        else False)"

definition mb_narrow :: "u32 \<Rightarrow> u64 \<Rightarrow> u64" where
  "mb_narrow c tmask =
     (let tmask = (if tmask AND B_ASN1_PRINTABLESTRING \<noteq> 0 \<and> \<not> is_printable c
                  then tmask AND NOT B_ASN1_PRINTABLESTRING else tmask);
          tmask = (if tmask AND B_ASN1_IA5STRING \<noteq> 0 \<and> c > 127
                  then tmask AND NOT B_ASN1_IA5STRING else tmask);
          tmask = (if tmask AND B_ASN1_T61STRING \<noteq> 0 \<and> c > 0xff
                  then tmask AND NOT B_ASN1_T61STRING else tmask)
      in (if tmask AND B_ASN1_BMPSTRING \<noteq> 0 \<and> c > 0xffff
          then tmask AND NOT B_ASN1_BMPSTRING else tmask))"

function mb_scan ::
    "mb_form \<Rightarrow> asn1_reason \<Rightarrow> cbs \<Rightarrow> nat \<Rightarrow> nat \<Rightarrow> u64 \<Rightarrow> asn1_reason + nat \<times> nat \<times> u64"
where
  "mb_scan form error cbs nchar utf8_len tmask =
     (if CBS_len cbs = 0 then Inr (nchar, utf8_len, tmask)
      else
        (case mb_decode form cbs of
           (None, _) \<Rightarrow> Inl error
         | (Some c, cbs') \<Rightarrow>
             if nchar = 0 \<and> (form = MB_BMP \<or> form = MB_UNIV) \<and> c = 0xfeff then Inl ILLEGAL_CHARACTERS
             else
               let tmask = mb_narrow c tmask in
               if tmask = 0 then Inl ILLEGAL_CHARACTERS
               else mb_scan form error cbs' (nchar + 1) (utf8_len + cbb_get_utf8_len c) tmask))"
  by pat_completeness auto
termination
  by (relation "measure (\<lambda>(form, error, cbs, _). length cbs)")
    (auto dest!: mb.dec_shorter [OF sym])

declare mb_scan.simps [simp del]

text \<open>The type that is chosen, its format and the estimate of the output size.\<close>

definition mb_choose :: "u64 \<Rightarrow> nat \<Rightarrow> nat \<Rightarrow> int \<times> mb_form \<times> nat" where
  "mb_choose tmask nchar utf8_len =
     (if tmask AND B_ASN1_PRINTABLESTRING \<noteq> 0 then (V_ASN1_PRINTABLESTRING, MB_ASC, nchar)
      else if tmask AND B_ASN1_IA5STRING \<noteq> 0 then (V_ASN1_IA5STRING, MB_ASC, nchar)
      else if tmask AND B_ASN1_T61STRING \<noteq> 0 then (V_ASN1_T61STRING, MB_ASC, nchar)
      else if tmask AND B_ASN1_BMPSTRING \<noteq> 0 then (V_ASN1_BMPSTRING, MB_BMP, 2 * nchar)
      else if tmask AND B_ASN1_UNIVERSALSTRING \<noteq> 0 then (V_ASN1_UNIVERSALSTRING, MB_UNIV, 4 * nchar)
      else (V_ASN1_UTF8STRING, MB_UTF8, utf8_len))"

section \<open>The second pass and the whole function\<close>

function mb_transcode :: "allocator \<Rightarrow> mb_form \<Rightarrow> mb_form \<Rightarrow> cbs \<Rightarrow> unit cbb_op" where
  "mb_transcode ml form outform cbs =
     (if CBS_len cbs = 0 then op_ret ()
      else
        (case mb_decode form cbs of
           (None, _) \<Rightarrow> op_fail
         | (Some c, cbs') \<Rightarrow>
             op_bind (mb_encode outform ml 0 c) (\<lambda>_. mb_transcode ml form outform cbs')))"
  by pat_completeness auto
termination
  by (relation "measure (\<lambda>(ml, form, outform, cbs). length cbs)")
    (auto dest!: mb.dec_shorter [OF sym])

declare mb_transcode.simps [simp del]

text \<open>
  The argument \<open>out\<close> is \<open>NULL\<close>, or points to \<open>NULL\<close>, to an object that was freed, or to
  a string object.  The result is the returned type, or the error reason that goes with
  the return of -1, and what \<open>*out\<close> is afterwards; it is \<open>None\<close> where the code uses an
  object that was freed.
\<close>

datatype mb_out = Out_null | Out_freed | Out_string ASN1_STRING

definition mb_dest :: "allocator \<Rightarrow> mb_out \<Rightarrow> int \<Rightarrow> (bool \<times> ASN1_STRING) option option" where
  "mb_dest ml out str_type =
     (case out of
        Out_freed \<Rightarrow> None
      | Out_string dest \<Rightarrow>
          (let dest = (if asn1_data dest \<noteq> None
                       then dest\<lparr>asn1_length := 0, asn1_data := None\<rparr> else dest)
           in Some (Some (False, dest\<lparr>asn1_type := str_type\<rparr>)))
      | Out_null \<Rightarrow> Some (map_option (Pair True) (ASN1_STRING_type_new ml str_type)))"

definition mb_fill ::
    "allocator \<Rightarrow> bool \<times> ASN1_STRING \<Rightarrow> mb_form \<Rightarrow> mb_form \<Rightarrow> nat \<Rightarrow> u8 list \<Rightarrow> int \<Rightarrow>
     asn1_reason option \<times> mb_out"
where
  "mb_fill ml free_dest form outform size_estimate data len =
     (let (free_out, dest) = free_dest;
          err = (if free_out then Out_freed else Out_string dest) in
      if form = outform then
        (case ASN1_STRING_set ml dest (Some data) len of
           (False, dest) \<Rightarrow> (Some MALLOC_FAILURE, Out_string dest)
         | (True, dest) \<Rightarrow> (None, Out_string dest))
      else
        (case CBB_init ml (size_estimate + 1) of
           (None, _) \<Rightarrow> (Some MALLOC_FAILURE, err)
         | (Some _, cbb) \<Rightarrow>
             (case op_bind (mb_transcode ml form outform (CBS_init data (nat len)))
                     (\<lambda>_. op_bind (CBB_add_u8 ml 0 0) (\<lambda>_. CBB_finish ml True 0)) cbb of
                (None, _) \<Rightarrow> (Some INTERNAL_ERROR, err)
              | (Some (out_data, data_len), _) \<Rightarrow>
                  if data_len < 1 \<or> data_len > 0x7fffffff then (Some INTERNAL_ERROR, err)
                  else (None, Out_string (dest\<lparr>asn1_length := int (data_len - 1),
                                              asn1_data := Some out_data\<rparr>)))))"

definition ASN1_mbstring_ncopy ::
    "allocator \<Rightarrow> mb_out option \<Rightarrow> u8 list \<Rightarrow> int \<Rightarrow> int \<Rightarrow> u64 \<Rightarrow> int \<Rightarrow> int \<Rightarrow>
     ((asn1_reason + int) \<times> mb_out option) option"
where
  "ASN1_mbstring_ncopy ml out data len inform tmask minsize maxsize =
     (let len = (if len = -1 then int (c_strlen data) else len);
          tmask = (if tmask = 0 then DIRSTRING_TYPE else tmask) in
      case mb_switch inform of
        None \<Rightarrow> Some (Inl UNKNOWN_FORMAT, out)
      | Some (form, error) \<Rightarrow>
          (case mb_scan form error (CBS_init data (nat len)) 0 0 tmask of
             Inl r \<Rightarrow> Some (Inl r, out)
           | Inr (nchar, utf8_len, tmask) \<Rightarrow>
               if minsize > 0 \<and> int nchar < minsize then Some (Inl STRING_TOO_SHORT, out)
               else if maxsize > 0 \<and> int nchar > maxsize then Some (Inl STRING_TOO_LONG, out)
               else
                 (case mb_choose tmask nchar utf8_len of
                    (str_type, outform, size_estimate) \<Rightarrow>
                      (case out of
                         None \<Rightarrow> Some (Inr str_type, None)
                       | Some o_ptr \<Rightarrow>
                           (case mb_dest ml o_ptr str_type of
                              None \<Rightarrow> None
                            | Some None \<Rightarrow> Some (Inl MALLOC_FAILURE, Some o_ptr)
                            | Some (Some dest) \<Rightarrow>
                                (case mb_fill ml dest form outform size_estimate data len of
                                   (Some r, o_ptr) \<Rightarrow> Some (Inl r, Some o_ptr)
                                 | (None, o_ptr) \<Rightarrow> Some (Inr str_type, Some o_ptr)))))))"

definition ASN1_mbstring_copy ::
    "allocator \<Rightarrow> mb_out option \<Rightarrow> u8 list \<Rightarrow> int \<Rightarrow> int \<Rightarrow> u64 \<Rightarrow> ((asn1_reason + int) \<times> mb_out option) option"
where
  "ASN1_mbstring_copy ml out data len inform tmask =
     ASN1_mbstring_ncopy ml out data len inform tmask 0 0"

section \<open>The type as a function of the code points\<close>


lemma bit_clear:
  "k < 64 \<Longrightarrow> bit (m AND NOT (2 ^ k) :: u64) i \<longleftrightarrow> bit m i \<and> i \<noteq> k"
  by (auto simp: bit_simps dest: bit_imp_le_length)

lemma flag_exps:
  "B_ASN1_PRINTABLESTRING = 2 ^ 1" "B_ASN1_T61STRING = 2 ^ 2" "B_ASN1_IA5STRING = 2 ^ 4"
  "B_ASN1_BMPSTRING = 2 ^ 11"
  by (simp_all add: B_ASN1_PRINTABLESTRING_def B_ASN1_T61STRING_def B_ASN1_IA5STRING_def
      B_ASN1_BMPSTRING_def)

lemma clear_if: "k < 64 \<Longrightarrow>
    bit (if m AND 2 ^ k \<noteq> 0 \<and> p then m AND NOT (2 ^ k) else m :: u64) i \<longleftrightarrow>
      bit m i \<and> (i = k \<longrightarrow> \<not> p)"
  using bit_clear [of k m i] and_exp_eq_0_iff_not_bit [of m k] by auto

lemma bit_mb_narrow:
  "bit (mb_narrow c m) i \<longleftrightarrow>
     bit m i \<and> (i = 1 \<longrightarrow> is_printable c) \<and> (i = 4 \<longrightarrow> \<not> c > 127) \<and> (i = 2 \<longrightarrow> \<not> c > 0xff) \<and>
     (i = 11 \<longrightarrow> \<not> c > 0xffff)"
  unfolding mb_narrow_def Let_def flag_exps
  by (subst clear_if, simp)+ blast

definition mb_narrow_all :: "u32 list \<Rightarrow> u64 \<Rightarrow> u64" where
  "mb_narrow_all cs m = foldl (\<lambda>m c. mb_narrow c m) m cs"

lemma mb_narrow_all_simps [simp]:
  "mb_narrow_all [] m = m" "mb_narrow_all (c # cs) m = mb_narrow_all cs (mb_narrow c m)"
  by (simp_all add: mb_narrow_all_def)

lemma bit_mb_narrow_all:
  "bit (mb_narrow_all cs m) i \<longleftrightarrow>
     bit m i \<and> (i = 1 \<longrightarrow> list_all is_printable cs) \<and> (i = 4 \<longrightarrow> list_all (\<lambda>c. c \<le> 127) cs) \<and>
     (i = 2 \<longrightarrow> list_all (\<lambda>c. c \<le> 0xff) cs) \<and> (i = 11 \<longrightarrow> list_all (\<lambda>c. c \<le> 0xffff) cs)"
  by (induction cs arbitrary: m) (auto simp: bit_mb_narrow not_less)

lemma mb_narrow_all_nonzero: "mb_narrow_all cs m \<noteq> 0 \<Longrightarrow> m \<noteq> 0"
  using bit_mb_narrow_all [of cs m] by (metis bit_eqI bit_0_eq bot_apply bot_bool_def)








section \<open>The first pass reads the text\<close>

definition has_bom :: "mb_form \<Rightarrow> u32 list \<Rightarrow> bool" where
  "has_bom form cs \<longleftrightarrow> (form = MB_BMP \<or> form = MB_UNIV) \<and> cs \<noteq> [] \<and> hd cs = 0xfeff"

lemma mb_scan_chars:
  "list_all (mb_valid form) cs \<Longrightarrow> \<not> (n = 0 \<and> has_bom form cs) \<Longrightarrow>
     cs = [] \<or> mb_narrow_all cs m \<noteq> 0 \<Longrightarrow>
   mb_scan form e (concat (map (mb_bytes form) cs)) n u m =
     Inr (n + length cs, u + sum_list (map cbb_get_utf8_len cs), mb_narrow_all cs m)"
proof (induction cs arbitrary: n u m)
  case Nil
  show ?case by (simp add: mb_scan.simps CBS_len_def)
next
  case (Cons c cs)
  have dec: "mb_decode form (concat (map (mb_bytes form) (c # cs))) =
      (Some c, concat (map (mb_bytes form) cs))"
    using Cons.prems(1) by (simp add: mb.dec_enc)
  have ne: "concat (map (mb_bytes form) (c # cs)) \<noteq> []"
    using Cons.prems(1) mb.enc_nonempty by simp
  have "mb_narrow_all cs (mb_narrow c m) \<noteq> 0" using Cons.prems(3) by simp
  moreover from mb_narrow_all_nonzero [OF this] have "mb_narrow c m \<noteq> 0" .
  ultimately show ?case
    using Cons.prems Cons.IH [of "Suc n" "mb_narrow c m" "u + cbb_get_utf8_len c"] ne
    unfolding mb_scan.simps [of form e "concat (map (mb_bytes form) (c # cs))"] dec
    by (auto simp: CBS_len_def has_bom_def Let_def)
qed



section \<open>The second pass writes the text\<close>









section \<open>The whole function\<close>











section \<open>Where the code does not do what its comments say\<close>

text \<open>
  \<open>is_printable\<close> accepts the zero character, since \<open>strchr\<close> finds the terminating zero of
  its string; a PrintableString may then hold it.
\<close>

theorem is_printable_accepts_zero: "is_printable 0"
  by (simp add: is_printable_def c_strchr_def Let_def)

text \<open>
  A mask with none of the types the function knows, here only VisibleString, is not an
  error: the result is a UTF8String, which the mask does not permit.
\<close>

theorem ASN1_mbstring_ignores_mask:
  "map_option fst (ASN1_mbstring_ncopy zero_malloc None [0x41] 1 0x1001 0x40 0 0) = Some (Inr V_ASN1_UTF8STRING)"
  by (simp add: ASN1_mbstring_ncopy_def mb_switch_def CBS_init_def mb_choose_def mb_scan.simps
      CBS_len_def cbs_get_latin1_def op_bind_def CBS_get_u8_def cbs_get_def op_ret_def Let_def
      mb_narrow_def B_ASN1_PRINTABLESTRING_def B_ASN1_T61STRING_def B_ASN1_IA5STRING_def
      B_ASN1_BMPSTRING_def B_ASN1_UNIVERSALSTRING_def cbb_get_utf8_len_def)

text \<open>
  When the output buffer cannot be allocated, the new string object is freed but \<open>*out\<close>
  keeps pointing to it.
\<close>

definition small_malloc :: allocator where
  "small_malloc n = (if n = 32 then Some (replicate 32 0) else None)"

theorem ASN1_mbstring_leaves_freed_pointer:
  "ASN1_mbstring_ncopy small_malloc (Some Out_null) [0x41] 1 0x1000 0x2 0 0 =
     Some (Inl MALLOC_FAILURE, Some Out_freed)"
proof -
  have "mb_scan MB_UTF8 INVALID_UTF8STRING [0x41] 0 0 0x2 = Inr (1, 1, 0x2)"
    using mb_scan_chars [of MB_UTF8 "[0x41]" 0 "0x2" INVALID_UTF8STRING 0]
    by (simp add: is_valid_code_point_iff has_bom_def utf8_bytes_def mb_narrow_def Let_def
        is_printable_def c_strchr_def B_ASN1_PRINTABLESTRING_def B_ASN1_T61STRING_def
        B_ASN1_IA5STRING_def B_ASN1_BMPSTRING_def cbb_get_utf8_len_def)
  then show ?thesis
    by (simp add: ASN1_mbstring_ncopy_def mb_switch_def CBS_init_def mb_choose_def mb_dest_def
        ASN1_STRING_type_new_def OPENSSL_malloc_def small_malloc_def mb_fill_def CBB_init_def
        B_ASN1_PRINTABLESTRING_def Let_def)
qed

end
