(* ===== verification/Modes.thy ===== *)
theory Modes
  imports Prelude
begin

text \<open>
  The stream modes of \<open>crypto/fipsmodule/modes\<close>: counter mode (\<open>ctr.c\<close>), output feedback (\<open>ofb.c\<close>)
  and cipher feedback (\<open>cfb.c\<close>).  The block cipher with its key is a parameter, a function on
  blocks of 16 bytes.  The functions keep their place in the current block in \<open>*num\<close>, so that
  a message can be processed in pieces; the reference is a machine that takes one byte at a time.
\<close>

section \<open>State\<close>

text \<open>
  \<open>ms_buf\<close> is the block that is combined with the input (\<open>ecount_buf\<close> in counter mode, \<open>ivec\<close>
  in the others) and \<open>ms_ctr\<close> the counter (\<open>ivec\<close> in counter mode).
\<close>

record mode_state =
  ms_ctr :: "u8 list"
  ms_buf :: "u8 list"
  ms_num :: nat

type_synonym block128 = "u8 list \<Rightarrow> u8 list"

text \<open>What some of the modes rely on: the cipher maps blocks to blocks.\<close>

definition block_fun :: "block128 \<Rightarrow> bool" where
  "block_fun block \<longleftrightarrow> (\<forall>bs. length bs = 16 \<longrightarrow> length (block bs) = 16)"

lemma block_funD [simp]: "block_fun block \<Longrightarrow> length bs = 16 \<Longrightarrow> length (block bs) = 16"
  by (simp add: block_fun_def)

text \<open>What is done with a byte of the buffer and a byte of the input: the output and the new byte of the buffer.\<close>

type_synonym combine = "u8 \<Rightarrow> u8 \<Rightarrow> u8 \<times> u8"

section \<open>The three loops\<close>

text \<open>The code of the four functions has the same three loops; they differ in how the block is made.\<close>

fun mode_head :: "combine \<Rightarrow> u8 list \<Rightarrow> nat \<Rightarrow> u8 list \<Rightarrow> u8 list \<times> u8 list \<times> nat \<times> u8 list" where
  "mode_head f buf n [] = ([], buf, n, [])"
| "mode_head f buf n (x # xs) =
     (if n = 0 then ([], buf, n, x # xs)
      else
        let (out, b) = f (buf ! n) x;
            (outs, buf, n, rest) = mode_head f (buf[n := b]) ((n + 1) mod 16) xs
        in (out # outs, buf, n, rest))"

fun put_bytes :: "combine \<Rightarrow> u8 list \<Rightarrow> nat \<Rightarrow> u8 list \<Rightarrow> u8 list \<times> u8 list" where
  "put_bytes f buf n [] = ([], buf)"
| "put_bytes f buf n (x # xs) =
     (let (out, b) = f (buf ! n) x; (outs, buf) = put_bytes f (buf[n := b]) (Suc n) xs in (out # outs, buf))"

function mode_blocks ::
    "(mode_state \<Rightarrow> mode_state) \<Rightarrow> combine \<Rightarrow> mode_state \<Rightarrow> u8 list \<Rightarrow> u8 list \<times> mode_state \<times> u8 list"
where
  "mode_blocks refill f s xs =
     (if length xs < 16 then ([], s, xs)
      else
        let s = refill s;
            (outs, buf) = put_bytes f (ms_buf s) 0 (take 16 xs);
            (outs', s, rest) = mode_blocks refill f (s\<lparr>ms_buf := buf\<rparr>) (drop 16 xs)
        in (outs @ outs', s, rest))"
  by auto
termination by (relation "measure (\<lambda>(refill, f, s, xs). length xs)") auto

declare mode_blocks.simps [simp del]

definition mode_run :: "(mode_state \<Rightarrow> mode_state) \<Rightarrow> combine \<Rightarrow> mode_state \<Rightarrow> u8 list \<Rightarrow> u8 list \<times> mode_state" where
  "mode_run refill f s xs =
     (let (out1, buf, n, xs) = mode_head f (ms_buf s) (ms_num s) xs;
          (out2, s, xs) = mode_blocks refill f (s\<lparr>ms_buf := buf, ms_num := n\<rparr>) xs
      in if xs = [] then (out1 @ out2, s)
         else
           let s = refill s;
               (out3, buf) = put_bytes f (ms_buf s) n xs
           in (out1 @ out2 @ out3, s\<lparr>ms_buf := buf, ms_num := n + length xs\<rparr>))"

section \<open>The functions\<close>

fun ctr_inc_loop :: "nat \<Rightarrow> u32 \<Rightarrow> u8 list \<Rightarrow> u8 list" where
  "ctr_inc_loop 0 c counter = counter"
| "ctr_inc_loop (Suc n) c counter =
     (let c = c + ucast (counter ! n) in ctr_inc_loop n (drop_bit 8 c) (counter[n := ucast c]))"

definition ctr128_inc :: "u8 list \<Rightarrow> u8 list" where
  "ctr128_inc = ctr_inc_loop 16 1"

definition ctr96_inc :: "u8 list \<Rightarrow> u8 list" where
  "ctr96_inc = ctr_inc_loop 12 1"

text \<open>The key stream: the buffer is not changed.\<close>

definition xor_byte :: combine where
  "xor_byte b x = (x XOR b, b)"

definition ctr_refill :: "block128 \<Rightarrow> mode_state \<Rightarrow> mode_state" where
  "ctr_refill block s = s\<lparr>ms_buf := block (ms_ctr s), ms_ctr := ctr128_inc (ms_ctr s)\<rparr>"

definition buf_refill :: "block128 \<Rightarrow> mode_state \<Rightarrow> mode_state" where
  "buf_refill block s = s\<lparr>ms_buf := block (ms_buf s)\<rparr>"

text \<open>\<open>None\<close> is the assertion that \<open>*num\<close> is less than 16.\<close>

definition CRYPTO_ctr128_encrypt :: "block128 \<Rightarrow> mode_state \<Rightarrow> u8 list \<Rightarrow> (u8 list \<times> mode_state) option" where
  "CRYPTO_ctr128_encrypt block s inp =
     (if ms_num s < 16 then Some (mode_run (ctr_refill block) xor_byte s inp) else None)"

definition CRYPTO_ofb128_encrypt :: "block128 \<Rightarrow> mode_state \<Rightarrow> u8 list \<Rightarrow> u8 list \<times> mode_state" where
  "CRYPTO_ofb128_encrypt block s inp = mode_run (buf_refill block) xor_byte s inp"

definition CRYPTO_cfb128_encrypt :: "block128 \<Rightarrow> bool \<Rightarrow> mode_state \<Rightarrow> u8 list \<Rightarrow> u8 list \<times> mode_state" where
  "CRYPTO_cfb128_encrypt block enc s inp =
     (if enc then mode_run (buf_refill block) (\<lambda>b x. (b XOR x, b XOR x)) s inp
      else mode_run (buf_refill block) (\<lambda>b x. (b XOR x, x)) s inp)"

section \<open>Counter mode with a counter of 32 bits\<close>

definition GETU32 :: "u8 list \<Rightarrow> u32" where
  "GETU32 bs = of_nat (be_nat (take 4 bs))"

definition PUTU32 :: "u8 list \<Rightarrow> nat \<Rightarrow> u32 \<Rightarrow> u8 list" where
  "PUTU32 bs i v = take i bs @ be_bytes 4 (unat v) @ drop (i + 4) bs"

text \<open>
  The parameter \<open>func\<close> encrypts whole blocks and counts in the last four bytes of the counter only.
  The loop returns the output, the counter, its last four bytes as a number, and the rest.
\<close>

function ctr32_loop ::
    "(u8 list \<Rightarrow> u8 list \<Rightarrow> u8 list) \<Rightarrow> u8 list \<Rightarrow> u32 \<Rightarrow> u8 list \<Rightarrow> u8 list \<times> u8 list \<times> u32 \<times> u8 list"
where
  "ctr32_loop func ivec ctr32 xs =
     (if length xs < 16 then ([], ivec, ctr32, xs)
      else
        let blocks = (if length xs div 16 > 2 ^ 28 then 2 ^ 28 else length xs div 16);
            ctr32 = ctr32 + of_nat blocks;
            (blocks, ctr32) = (if unat ctr32 < blocks then (blocks - unat ctr32, 0) else (blocks, ctr32));
            out = func (take (16 * blocks) xs) ivec;
            ivec = PUTU32 ivec 12 ctr32;
            ivec = (if ctr32 = 0 then ctr96_inc ivec else ivec);
            (outs, ivec, ctr32, rest) = ctr32_loop func ivec ctr32 (drop (16 * blocks) xs)
        in (out @ outs, ivec, ctr32, rest))"
  by auto
termination
proof (relation "measure (\<lambda>(func, ivec, ctr32, xs). length xs)", goal_cases)
  case (2 func ivec ctr32 xs)
  then show ?case by (auto split: if_splits simp: Let_def)
qed simp

declare ctr32_loop.simps [simp del]

definition CRYPTO_ctr128_encrypt_ctr32 ::
    "(u8 list \<Rightarrow> u8 list \<Rightarrow> u8 list) \<Rightarrow> mode_state \<Rightarrow> u8 list \<Rightarrow> (u8 list \<times> mode_state) option"
where
  "CRYPTO_ctr128_encrypt_ctr32 func s inp =
     (if ms_num s < 16 then
        let (out1, buf, n, xs) = mode_head xor_byte (ms_buf s) (ms_num s) inp;
            (out2, ivec, ctr32, xs) = ctr32_loop func (ms_ctr s) (GETU32 (drop 12 (ms_ctr s))) xs
        in if xs = [] then Some (out1 @ out2, s\<lparr>ms_ctr := ivec, ms_buf := buf, ms_num := n\<rparr>)
           else
             let buf = func (replicate 16 0) ivec;
                 ctr32 = ctr32 + 1;
                 ivec = PUTU32 ivec 12 ctr32;
                 ivec = (if ctr32 = 0 then ctr96_inc ivec else ivec);
                 (out3, buf) = put_bytes xor_byte buf n xs
             in Some (out1 @ out2 @ out3, s\<lparr>ms_ctr := ivec, ms_buf := buf, ms_num := n + length xs\<rparr>)
      else None)"

section \<open>One byte at a time\<close>

definition mode_step :: "(mode_state \<Rightarrow> mode_state) \<Rightarrow> combine \<Rightarrow> mode_state \<Rightarrow> u8 \<Rightarrow> u8 \<times> mode_state" where
  "mode_step refill f s x =
     (let s = (if ms_num s = 0 then refill s else s); (out, b) = f (ms_buf s ! ms_num s) x
      in (out, s\<lparr>ms_buf := (ms_buf s)[ms_num s := b], ms_num := (ms_num s + 1) mod 16\<rparr>))"

fun serial :: "('s \<Rightarrow> u8 \<Rightarrow> u8 \<times> 's) \<Rightarrow> 's \<Rightarrow> u8 list \<Rightarrow> u8 list \<times> 's" where
  "serial step s [] = ([], s)"
| "serial step s (x # xs) = (let (out, s) = step s x; (outs, s) = serial step s xs in (out # outs, s))"

lemma serial_append:
  "serial step s (xs @ ys) =
    (let (out, s) = serial step s xs; (outs, s) = serial step s ys in (out @ outs, s))"
  by (induction xs arbitrary: s) (simp_all add: split_beta Let_def)

lemma length_serial: "length (fst (serial step s xs)) = length xs"
  by (induction xs arbitrary: s) (simp_all add: split_beta Let_def)

lemma mode_step_mid:
  "0 < ms_num s \<Longrightarrow> mode_step refill f s x = (fst (f (ms_buf s ! ms_num s) x),
    s\<lparr>ms_buf := (ms_buf s)[ms_num s := snd (f (ms_buf s ! ms_num s) x)], ms_num := (ms_num s + 1) mod 16\<rparr>)"
  by (simp add: mode_step_def split_beta)

lemma mode_step_start:
  "ms_num s = 0 \<Longrightarrow> ms_num (refill s) = 0 \<Longrightarrow> mode_step refill f s x = (fst (f (ms_buf (refill s) ! 0) x),
    (refill s)\<lparr>ms_buf := (ms_buf (refill s))[0 := snd (f (ms_buf (refill s) ! 0) x)], ms_num := 1\<rparr>)"
  by (simp add: mode_step_def split_beta Let_def)

lemma put_bytes_serial:
  assumes "0 < n" and "n + length xs \<le> 16"
  shows "serial (mode_step refill f) (s\<lparr>ms_buf := buf, ms_num := n mod 16\<rparr>) xs =
    (fst (put_bytes f buf n xs), s\<lparr>ms_buf := snd (put_bytes f buf n xs), ms_num := (n + length xs) mod 16\<rparr>)"
  using assms
proof (induction xs arbitrary: n buf)
  case Nil
  then show ?case by simp
next
  case (Cons x xs)
  then have n: "n mod 16 = n" "0 < n" by simp_all
  show ?case
    using Cons.IH [of "Suc n" "buf[n := snd (f (buf ! n) x)]"] Cons.prems n
    by (simp add: mode_step_mid split_beta Let_def)
qed

lemma mode_head_serial:
  assumes "n < 16"
  shows "serial (mode_step refill f) (s\<lparr>ms_buf := buf, ms_num := n\<rparr>) xs =
    (let (outs, buf, n, rest) = mode_head f buf n xs;
         (outs', s) = serial (mode_step refill f) (s\<lparr>ms_buf := buf, ms_num := n\<rparr>) rest
     in (outs @ outs', s))"
  using assms
proof (induction xs arbitrary: n buf)
  case Nil
  then show ?case by simp
next
  case (Cons x xs)
  show ?case
  proof (cases "n = 0")
    case False
    then show ?thesis
      using Cons.IH [of "(n + 1) mod 16" "buf[n := snd (f (buf ! n) x)]"]
      by (simp add: mode_step_mid split_beta Let_def)
  qed (simp add: split_beta Let_def)
qed

lemma mode_head_end: "n < 16 \<Longrightarrow> mode_head f buf n xs = (outs, buf', n', rest) \<Longrightarrow> n' < 16 \<and> (rest \<noteq> [] \<longrightarrow> n' = 0)"
  by (induction f buf n xs arbitrary: outs rule: mode_head.induct)
    (auto split: if_splits prod.splits)

lemma block_serial:
  assumes "xs \<noteq> []" and "length xs \<le> 16" and "ms_num s = 0" and "ms_num (refill s) = 0"
  shows "serial (mode_step refill f) s xs =
    (fst (put_bytes f (ms_buf (refill s)) 0 xs),
     (refill s)\<lparr>ms_buf := snd (put_bytes f (ms_buf (refill s)) 0 xs), ms_num := length xs mod 16\<rparr>)"
proof (cases xs)
  case (Cons x ys)
  then show ?thesis
    using assms put_bytes_serial [where n = 1 and xs = ys and refill = refill and f = f and s = "refill s" and
        buf = "(ms_buf (refill s))[0 := snd (f (ms_buf (refill s) ! 0) x)]"]
    by (simp add: mode_step_start split_beta Let_def)
qed (use assms in simp)

lemma mode_blocks_serial:
  assumes refill: "\<And>s. ms_num (refill s) = ms_num s"
  shows "ms_num s = 0 \<Longrightarrow> serial (mode_step refill f) s xs =
    (let (outs, s, rest) = mode_blocks refill f s xs; (outs', s) = serial (mode_step refill f) s rest
     in (outs @ outs', s))
    \<and> (case mode_blocks refill f s xs of (_, s, rest) \<Rightarrow> length rest < 16 \<and> ms_num s = 0)"
proof (induction "length xs" arbitrary: s xs rule: less_induct)
  case less
  show ?case
  proof (cases "length xs < 16")
    case True
    then show ?thesis using less.prems by (subst mode_blocks.simps) (simp add: mode_blocks.simps [of _ _ _ xs])
  next
    case False
    define b where "b = put_bytes f (ms_buf (refill s)) 0 (take 16 xs)"
    define s1 where "s1 = (refill s)\<lparr>ms_buf := snd b\<rparr>"
    have n: "ms_num s1 = 0" "ms_num (refill s) = 0" using less.prems refill by (simp_all add: s1_def)
    have 1: "serial (mode_step refill f) s (take 16 xs) = (fst b, s1)"
    proof -
      have "(refill s)\<lparr>ms_buf := snd b, ms_num := 0\<rparr> = s1" using n(2) by (cases "refill s") (simp add: s1_def)
      moreover have "take 16 xs \<noteq> []" "length (take 16 xs) = 16" using False by auto
      ultimately show ?thesis using less.prems n block_serial [of "take 16 xs" s refill f] by (simp add: b_def)
    qed
    have 2: "serial (mode_step refill f) s xs =
        (let (outs, s) = serial (mode_step refill f) s1 (drop 16 xs) in (fst b @ outs, s))"
      using serial_append [of "mode_step refill f" s "take 16 xs" "drop 16 xs"] 1 by simp
    have blocks: "mode_blocks refill f s xs =
        (let (outs, s, rest) = mode_blocks refill f s1 (drop 16 xs) in (fst b @ outs, s, rest))"
      using False by (subst mode_blocks.simps) (simp add: b_def s1_def split_beta Let_def)
    show ?thesis using less.hyps [of "drop 16 xs" s1] False n
      by (simp add: 2 blocks split_beta Let_def)
  qed
qed

theorem mode_run_serial:
  assumes refill: "\<And>s. ms_num (refill s) = ms_num s" and n: "ms_num s < 16"
  shows "mode_run refill f s xs = serial (mode_step refill f) s xs"
proof -
  obtain out1 buf n' rest where h: "mode_head f (ms_buf s) (ms_num s) xs = (out1, buf, n', rest)" by (metis prod_cases4)
  define s1 where "s1 = s\<lparr>ms_buf := buf, ms_num := n'\<rparr>"
  have 1: "serial (mode_step refill f) s xs =
      (let (outs, s) = serial (mode_step refill f) s1 rest in (out1 @ outs, s))"
    using mode_head_serial [OF n, where refill = refill and f = f and s = s and buf = "ms_buf s" and xs = xs] by (simp add: h s1_def)
  have e: "n' < 16" "rest \<noteq> [] \<longrightarrow> n' = 0" using mode_head_end [OF n h] by simp_all
  show ?thesis
  proof (cases "rest = []")
    case True
    then show ?thesis using 1 by (simp add: mode_run_def h s1_def mode_blocks.simps)
  next
    case False
    then have n': "n' = 0" "ms_num s1 = 0" using e by (simp_all add: s1_def)
    obtain out2 s2 ys where b: "mode_blocks refill f s1 rest = (out2, s2, ys)" by (metis prod_cases3)
    have 2: "serial (mode_step refill f) s1 rest =
        (let (outs, s) = serial (mode_step refill f) s2 ys in (out2 @ outs, s))"
      and ys: "length ys < 16" "ms_num s2 = 0"
      using mode_blocks_serial [of refill s1 f rest, OF refill n'(2)] by (simp_all add: b)
    have run: "mode_run refill f s xs = (if ys = [] then (out1 @ out2, s2)
        else (out1 @ out2 @ fst (put_bytes f (ms_buf (refill s2)) n' ys),
          (refill s2)\<lparr>ms_buf := snd (put_bytes f (ms_buf (refill s2)) n' ys), ms_num := n' + length ys\<rparr>))"
      by (simp add: mode_run_def h b s1_def [symmetric] split_beta Let_def)
    show ?thesis
    proof (cases "ys = []")
      case True
      then show ?thesis using 1 2 by (simp add: run)
    next
      case False
      then have "serial (mode_step refill f) s2 ys = (fst (put_bytes f (ms_buf (refill s2)) 0 ys),
          (refill s2)\<lparr>ms_buf := snd (put_bytes f (ms_buf (refill s2)) 0 ys), ms_num := length ys\<rparr>)"
        using block_serial [of ys s2 refill f] ys refill by simp
      then show ?thesis using 1 2 n' False by (simp add: run)
    qed
  qed
qed

section \<open>Processing in pieces\<close>

text \<open>Process the pieces of a message one after the other.\<close>

fun in_pieces :: "('s \<Rightarrow> u8 list \<Rightarrow> (u8 list \<times> 's) option) \<Rightarrow> 's \<Rightarrow> u8 list list \<Rightarrow> (u8 list \<times> 's) option" where
  "in_pieces run s [] = Some ([], s)"
| "in_pieces run s (xs # xss) =
     (case run s xs of
        None \<Rightarrow> None
      | Some (out, s) \<Rightarrow> map_option (\<lambda>(outs, s). (out @ outs, s)) (in_pieces run s xss))"

locale byte_machine =
  fixes run :: "'s \<Rightarrow> u8 list \<Rightarrow> (u8 list \<times> 's) option"
    and step :: "'s \<Rightarrow> u8 \<Rightarrow> u8 \<times> 's"
    and ok :: "'s \<Rightarrow> bool"
  assumes run_serial: "ok s \<Longrightarrow> run s xs = Some (serial step s xs)"
    and step_ok: "ok s \<Longrightarrow> ok (snd (step s x))"
begin

lemma serial_ok: "ok s \<Longrightarrow> ok (snd (serial step s xs))"
  by (induction xs arbitrary: s) (simp_all add: split_beta Let_def step_ok)

lemma in_pieces: "ok s \<Longrightarrow> in_pieces run s xss = Some (serial step s (concat xss))"
proof (induction xss arbitrary: s)
  case Nil
  then show ?case by simp
next
  case (Cons xs xss)
  have "ok (snd (serial step s xs))" by (rule serial_ok [OF Cons.prems])
  from Cons.IH [OF this] show ?case
    by (simp add: run_serial [OF Cons.prems] split_beta serial_append Let_def)
qed

end

text \<open>A key stream: the byte at each position of the message is combined with one of the key.\<close>

locale key_stream = byte_machine run step ok
  for run :: "'s \<Rightarrow> u8 list \<Rightarrow> (u8 list \<times> 's) option" and step and ok +
  fixes place :: "'s \<Rightarrow> nat \<Rightarrow> bool" and key :: "nat \<Rightarrow> u8"
  assumes place_ok: "place s p \<Longrightarrow> ok s"
    and step_key: "place s p \<Longrightarrow> fst (step s x) = x XOR key p \<and> place (snd (step s x)) (Suc p)"
begin

lemma serial_key:
  "place s p \<Longrightarrow> fst (serial step s xs) = map2 (XOR) xs (map key [p ..< p + length xs]) \<and>
    place (snd (serial step s xs)) (p + length xs)"
proof (induction xs arbitrary: s p)
  case (Cons x xs)
  have "[p ..< p + length (x # xs)] = p # [Suc p ..< Suc p + length xs]"
    using upt_conv_Cons [of p "p + length (x # xs)"] by simp
  with Cons.IH [of "snd (step s x)" "Suc p"] step_key [OF Cons.prems, of x] show ?case
    by (simp add: split_beta Let_def del: upt_Suc)
qed simp

lemma pieces_key:
  "place s p \<Longrightarrow> \<exists>s'. in_pieces run s xss =
    Some (map2 (XOR) (concat xss) (map key [p ..< p + length (concat xss)]), s') \<and> place s' (p + length (concat xss))"
  using in_pieces [OF place_ok] serial_key by (metis prod.collapse)

end

section \<open>The modes as machines\<close>

lemma refill_num [simp]: "ms_num (ctr_refill block s) = ms_num s" "ms_num (buf_refill block s) = ms_num s"
  by (simp_all add: ctr_refill_def buf_refill_def)

lemma mode_step_num: "ms_num (snd (mode_step refill f s x)) < 16"
  by (simp add: mode_step_def split_beta Let_def)

interpretation ctr: byte_machine "CRYPTO_ctr128_encrypt block" "mode_step (ctr_refill block) xor_byte"
  "\<lambda>s. ms_num s < 16" for block
  by unfold_locales (simp_all add: CRYPTO_ctr128_encrypt_def mode_run_serial mode_step_num)

interpretation ofb: byte_machine "\<lambda>s xs. Some (CRYPTO_ofb128_encrypt block s xs)"
  "mode_step (buf_refill block) xor_byte" "\<lambda>s. ms_num s < 16" for block
  by unfold_locales (simp_all add: CRYPTO_ofb128_encrypt_def mode_run_serial mode_step_num)

interpretation cfb_enc: byte_machine "\<lambda>s xs. Some (CRYPTO_cfb128_encrypt block True s xs)"
  "mode_step (buf_refill block) (\<lambda>b x. (b XOR x, b XOR x))" "\<lambda>s. ms_num s < 16" for block
  by unfold_locales (simp_all add: CRYPTO_cfb128_encrypt_def mode_run_serial mode_step_num)

interpretation cfb_dec: byte_machine "\<lambda>s xs. Some (CRYPTO_cfb128_encrypt block False s xs)"
  "mode_step (buf_refill block) (\<lambda>b x. (b XOR x, x))" "\<lambda>s. ms_num s < 16" for block
  by unfold_locales (simp_all add: CRYPTO_cfb128_encrypt_def mode_run_serial mode_step_num)

section \<open>Counters\<close>

lemma ctr_inc_loop:
  assumes "n \<le> length l" and "unat c < 256"
  shows "be_nat (take n (ctr_inc_loop n c l)) = (be_nat (take n l) + unat c) mod 256 ^ n"
    and "drop n (ctr_inc_loop n c l) = drop n l" and "length (ctr_inc_loop n c l) = length l"
proof -
  have "be_nat (take n (ctr_inc_loop n c l)) = (be_nat (take n l) + unat c) mod 256 ^ n \<and>
      drop n (ctr_inc_loop n c l) = drop n l \<and> length (ctr_inc_loop n c l) = length l"
    using assms
  proof (induction n arbitrary: c l)
    case 0
    then show ?case by (simp add: byte_simps)
  next
    case (Suc n)
    define d where "d = c + ucast (l ! n)"
    have "unat c + unat (l ! n) < 4294967296" using Suc.prems(2) unat_u8_less [of "l ! n"] by linarith
    then have d: "unat d = unat c + unat (l ! n)" by (simp add: d_def unat_word_ariths)
    define l' where "l' = l[n := ucast d]"
    have c': "unat (drop_bit 8 d) = unat d div 256" "unat (ucast d :: u8) = unat d mod 256"
      by (simp_all add: unat_drop_bit unsigned_ucast_eq take_bit_eq_mod)
    have "unat c + unat (l ! n) < 512" using Suc.prems(2) unat_u8_less [of "l ! n"] by linarith
    then have small: "unat (drop_bit 8 d) < 256" using c' d by simp
    have n: "n < length l" "n \<le> length l'" "l' ! n = ucast d" "take n l' = take n l" "drop (Suc n) l' = drop (Suc n) l"
      using Suc.prems(1) by (simp_all add: l'_def)
    note IH = Suc.IH [OF n(2) small]
    define r where "r = ctr_inc_loop n (drop_bit 8 d) l'"
    have r: "be_nat (take n r) = (be_nat (take n l) + unat d div 256) mod 256 ^ n" "drop n r = drop n l'" "length r = length l"
      using IH n c' by (simp_all add: r_def l'_def)
    have "ctr_inc_loop (Suc n) c l = r" by (simp add: r_def d_def l'_def Let_def)
    moreover have "take (Suc n) r = take n r @ [ucast d]"
      using r n by (metis nth_via_drop Cons_nth_drop_Suc take_Suc_conv_app_nth)
    moreover have "take (Suc n) l = take n l @ [l ! n]" using n(1) by (rule take_Suc_conv_app_nth)
    moreover have "drop (Suc n) r = drop (Suc n) l"
      using r(2) n(5) by (metis drop_drop plus_1_eq_Suc)
    moreover have "(be_nat (take n l) * 256 + unat d) mod (256 * 256 ^ n) =
        256 * ((be_nat (take n l) + unat d div 256) mod 256 ^ n) + unat d mod 256"
      using mod_mult2_eq [of "be_nat (take n l) * 256 + unat d" 256 "256 ^ n"] by simp
    ultimately show ?case using r c' d by (simp add: be_nat_snoc mult.commute add.assoc add.commute [of "unat c"])
  qed
  then show "be_nat (take n (ctr_inc_loop n c l)) = (be_nat (take n l) + unat c) mod 256 ^ n"
    and "drop n (ctr_inc_loop n c l) = drop n l" and "length (ctr_inc_loop n c l) = length l" by simp_all
qed

lemma ctr128_inc_bytes: "ctr128_inc (be_bytes 16 x) = be_bytes 16 (x + 1)"
proof (rule be_nat_inject)
  have "be_nat (ctr128_inc (be_bytes 16 x)) = (x mod 256 ^ 16 + 1) mod 256 ^ 16"
    using ctr_inc_loop(1,3) [of 16 "be_bytes 16 x" 1] by (simp add: ctr128_inc_def be_nat_be_bytes)
  then show "be_nat (ctr128_inc (be_bytes 16 x)) = be_nat (be_bytes 16 (x + 1))"
    by (simp add: be_nat_be_bytes mod_Suc_eq del: be_bytes.simps)
  show "length (ctr128_inc (be_bytes 16 x)) = length (be_bytes 16 (x + 1))"
    using ctr_inc_loop(3) [of 16 "be_bytes 16 x" 1] by (simp add: ctr128_inc_def)
qed

text \<open>The counter block that encrypts the byte at a position, when counting began at \<open>c0\<close>.\<close>

definition ctr_key :: "block128 \<Rightarrow> nat \<Rightarrow> nat \<Rightarrow> u8" where
  "ctr_key block c0 p = block (be_bytes 16 (c0 + p div 16)) ! (p mod 16)"

definition ctr_place :: "block128 \<Rightarrow> nat \<Rightarrow> mode_state \<Rightarrow> nat \<Rightarrow> bool" where
  "ctr_place block c0 s p \<longleftrightarrow> ms_num s = p mod 16 \<and> ms_ctr s = be_bytes 16 (c0 + (p + 15) div 16) \<and>
     (p mod 16 \<noteq> 0 \<longrightarrow> ms_buf s = block (be_bytes 16 (c0 + p div 16)))"

lemma block_start:
  assumes "p mod 16 = 0"
  shows "(p + 15) div 16 = p div 16 \<and> (Suc p + 15) div 16 = Suc (p div 16) \<and>
    Suc p div 16 = p div 16 \<and> Suc p mod 16 = (1 :: nat)"
proof -
  obtain q where "p = 16 * q" using assms by blast
  then show ?thesis by simp
qed

lemma block_middle:
  assumes "p mod 16 \<noteq> 0"
  shows "(p + 15) div 16 = Suc (p div 16)" and "(Suc p + 15) div 16 = (p + 15) div 16"
    and "Suc p mod 16 \<noteq> 0 \<Longrightarrow> Suc p div 16 = p div (16 :: nat)"
proof -
  obtain q r where p: "p = 16 * q + r" "r < 16" "r \<noteq> 0"
    using assms by (metis mult_div_mod_eq mod_less_divisor zero_less_numeral)
  have "(r + 15) div 16 = 1" "(Suc r + 15) div 16 = 1" using p(2,3) by (intro div_nat_eqI; simp)+
  moreover have "(p + 15) div 16 = q + (r + 15) div 16" "(Suc p + 15) div 16 = q + (Suc r + 15) div 16"
    using div_mult_self2 [of 16 "r + 15" q] div_mult_self2 [of 16 "Suc r + 15" q] by (simp_all add: p(1) add.commute add.left_commute)
  moreover have "p div 16 = q" using p by simp
  ultimately show "(p + 15) div 16 = Suc (p div 16)" "(Suc p + 15) div 16 = (p + 15) div 16" by simp_all
  assume "Suc p mod 16 \<noteq> 0"
  then have "Suc r < 16" using p by (metis Suc_lessI add_Suc_right mod_mult_self1_is_0 mult_Suc_right add.commute)
  then show "Suc p div 16 = p div 16" using p by simp
qed

interpretation ctr_stream: key_stream "CRYPTO_ctr128_encrypt block" "mode_step (ctr_refill block) xor_byte"
  "\<lambda>s. ms_num s < 16" "ctr_place block c0" "ctr_key block c0" for block c0
proof
  fix s p and x :: u8
  show "ctr_place block c0 s p \<Longrightarrow> ms_num s < 16" by (simp add: ctr_place_def)
  assume at: "ctr_place block c0 s p"
  show "fst (mode_step (ctr_refill block) xor_byte s x) = x XOR ctr_key block c0 p \<and>
      ctr_place block c0 (snd (mode_step (ctr_refill block) xor_byte s x)) (Suc p)"
  proof (cases "p mod 16 = 0")
    case True
    then have n: "ms_num s = 0" "ms_ctr s = be_bytes 16 (c0 + p div 16)"
      using at block_start [OF True] by (simp_all add: ctr_place_def)
    show ?thesis using True n block_start [OF True]
      by (simp add: mode_step_start ctr_place_def ctr_key_def ctr_refill_def xor_byte_def ctr128_inc_bytes del: be_bytes.simps)
  next
    case False
    then have n: "ms_num s = p mod 16" "ms_buf s = block (be_bytes 16 (c0 + p div 16))"
        "ms_ctr s = be_bytes 16 (c0 + (p + 15) div 16)"
      using at by (simp_all add: ctr_place_def)
    show ?thesis using False n block_middle [OF False]
      by (simp add: mode_step_mid ctr_place_def ctr_key_def xor_byte_def mod_Suc_eq del: be_bytes.simps)
  qed
qed

definition ofb_key :: "block128 \<Rightarrow> u8 list \<Rightarrow> nat \<Rightarrow> u8" where
  "ofb_key block iv p = (block ^^ Suc (p div 16)) iv ! (p mod 16)"

definition ofb_place :: "block128 \<Rightarrow> u8 list \<Rightarrow> mode_state \<Rightarrow> nat \<Rightarrow> bool" where
  "ofb_place block iv s p \<longleftrightarrow> ms_num s = p mod 16 \<and> ms_buf s = (block ^^ ((p + 15) div 16)) iv"

interpretation ofb_stream: key_stream "\<lambda>s xs. Some (CRYPTO_ofb128_encrypt block s xs)"
  "mode_step (buf_refill block) xor_byte" "\<lambda>s. ms_num s < 16" "ofb_place block iv" "ofb_key block iv" for block iv
proof
  fix s p and x :: u8
  show "ofb_place block iv s p \<Longrightarrow> ms_num s < 16" by (simp add: ofb_place_def)
  assume at: "ofb_place block iv s p"
  show "fst (mode_step (buf_refill block) xor_byte s x) = x XOR ofb_key block iv p \<and>
      ofb_place block iv (snd (mode_step (buf_refill block) xor_byte s x)) (Suc p)"
  proof (cases "p mod 16 = 0")
    case True
    then have n: "ms_num s = 0" "ms_buf s = (block ^^ (p div 16)) iv"
      using at block_start [OF True] by (simp_all add: ofb_place_def)
    show ?thesis using True n block_start [OF True]
      by (simp add: mode_step_start ofb_place_def ofb_key_def buf_refill_def xor_byte_def)
  next
    case False
    note d = block_middle(1) [OF False]
    then have n: "ms_num s = p mod 16" "ms_buf s = (block ^^ Suc (p div 16)) iv"
      using at by (simp_all only: ofb_place_def d)
    show ?thesis using False n block_middle [OF False] d
      by (simp add: mode_step_mid ofb_place_def ofb_key_def xor_byte_def mod_Suc_eq)
  qed
qed

section \<open>Encryption and decryption\<close>

text \<open>Two machines of which the second undoes the first.\<close>

locale inverse_machines =
  enc: byte_machine encrypt step ok + dec: byte_machine decrypt step' ok
  for encrypt :: "'s \<Rightarrow> u8 list \<Rightarrow> (u8 list \<times> 's) option" and step ok decrypt step' +
  assumes undo: "ok s \<Longrightarrow> step' s (fst (step s x)) = (x, snd (step s x))"
begin

lemma serial_undo: "ok s \<Longrightarrow> serial step' s (fst (serial step s xs)) = (xs, snd (serial step s xs))"
  by (induction xs arbitrary: s) (simp_all add: split_beta Let_def undo enc.step_ok)

lemma pieces_undo:
  assumes "ok s" and "in_pieces encrypt s xss = Some (c, s')" and "concat css = c"
  shows "in_pieces decrypt s css = Some (concat xss, s')"
  using assms serial_undo [OF assms(1), of "concat xss"]
  by (simp add: enc.in_pieces dec.in_pieces)

end

interpretation cfb: inverse_machines "\<lambda>s xs. Some (CRYPTO_cfb128_encrypt block True s xs)"
  "mode_step (buf_refill block) (\<lambda>b x. (b XOR x, b XOR x))" "\<lambda>s. ms_num s < 16"
  "\<lambda>s xs. Some (CRYPTO_cfb128_encrypt block False s xs)"
  "mode_step (buf_refill block) (\<lambda>b x. (b XOR x, x))" for block
  by unfold_locales (simp add: mode_step_def split_beta Let_def)

interpretation ctr_inverse: inverse_machines "CRYPTO_ctr128_encrypt block" "mode_step (ctr_refill block) xor_byte"
  "\<lambda>s. ms_num s < 16" "CRYPTO_ctr128_encrypt block" "mode_step (ctr_refill block) xor_byte" for block
  by unfold_locales (simp add: mode_step_def split_beta Let_def xor_byte_def xor.assoc)

interpretation ofb_inverse: inverse_machines "\<lambda>s xs. Some (CRYPTO_ofb128_encrypt block s xs)"
  "mode_step (buf_refill block) xor_byte" "\<lambda>s. ms_num s < 16"
  "\<lambda>s xs. Some (CRYPTO_ofb128_encrypt block s xs)" "mode_step (buf_refill block) xor_byte" for block
  by unfold_locales (simp add: mode_step_def split_beta Let_def xor_byte_def xor.assoc)

section \<open>Properties\<close>

text \<open>
  C31: in counter mode every byte of a message is combined with the byte of the key stream at its
  position, in whatever pieces the message arrives, the cuts within blocks included, and
  wherever the counter starts, overflow to zero included.
\<close>
theorem CRYPTO_ctr128_encrypt_pieces:
  assumes "ms_num s = 0" and "length (ms_ctr s) = 16"
  shows "\<exists>s'. in_pieces (CRYPTO_ctr128_encrypt block) s pieces =
    Some (map2 (XOR) (concat pieces) (map (ctr_key block (be_nat (ms_ctr s))) [0 ..< length (concat pieces)]), s')"
proof -
  have "ctr_place block (be_nat (ms_ctr s)) s 0"
    using assms be_bytes_be_nat [of "ms_ctr s"] by (simp add: ctr_place_def del: be_bytes.simps)
  from ctr_stream.pieces_key [OF this, of pieces] show ?thesis by (auto simp del: be_bytes.simps)
qed

theorem CRYPTO_ctr128_encrypt_pieces_witness:
  "\<exists>s'. in_pieces (CRYPTO_ctr128_encrypt rev) \<lparr>ms_ctr = replicate 16 0xff, ms_buf = [], ms_num = 0\<rparr> [[1, 2], [], [3]] =
    Some (map2 (XOR) (concat [[1, 2], [], [3]])
      (map (ctr_key rev (be_nat (ms_ctr \<lparr>ms_ctr = replicate 16 0xff, ms_buf = [], ms_num = 0\<rparr>)))
        [0 ..< length (concat [[1, 2], [], [3 :: u8]])]), s')"
  by (rule CRYPTO_ctr128_encrypt_pieces) simp_all

text \<open>
  What cipher feedback mode encrypts, in whatever pieces, it decrypts to the same message, in
  whatever other pieces, with any block cipher; both sides end in the same state.
\<close>
theorem CRYPTO_cfb128_encrypt_roundtrip:
  assumes "ms_num s < 16"
    and "in_pieces (\<lambda>s xs. Some (CRYPTO_cfb128_encrypt block True s xs)) s pieces = Some (c, s')"
    and "concat pieces' = c"
  shows "in_pieces (\<lambda>s xs. Some (CRYPTO_cfb128_encrypt block False s xs)) s pieces' = Some (concat pieces, s')"
  using assms by (rule cfb.pieces_undo)

theorem CRYPTO_cfb128_encrypt_roundtrip_witness:
  "\<exists>s'. in_pieces (\<lambda>s xs. Some (CRYPTO_cfb128_encrypt rev False s xs)) \<lparr>ms_ctr = [], ms_buf = replicate 16 5, ms_num = 0\<rparr>
     [[4, 7], [6]] = Some ([1, 2, 3], s')"
proof -
  let ?s = "\<lparr>ms_ctr = [], ms_buf = replicate 16 5, ms_num = 0\<rparr>"
  obtain c s' where e: "in_pieces (\<lambda>s xs. Some (CRYPTO_cfb128_encrypt rev True s xs)) ?s [[1], [2, 3]] = Some (c, s')"
  proof -
    have "in_pieces (\<lambda>s xs. Some (CRYPTO_cfb128_encrypt rev True s xs)) ?s [[1], [2, 3]] \<noteq> None"
      by (subst cfb_enc.in_pieces) simp_all
    then obtain r where "in_pieces (\<lambda>s xs. Some (CRYPTO_cfb128_encrypt rev True s xs)) ?s [[1], [2, 3]] = Some r"
      by blast
    then show ?thesis by (cases r) (rule that, simp)
  qed
  have "map_option fst (in_pieces (\<lambda>s xs. Some (CRYPTO_cfb128_encrypt rev True s xs)) ?s [[1], [2, 3]]) = Some [4, 7, 6]"
    by code_simp
  then have "c = [4, 7, 6]" using e by simp
  with CRYPTO_cfb128_encrypt_roundtrip [OF _ e, of "[[4, 7], [6]]"] show ?thesis by simp
qed

end
