(* ===== verification/Modes_Cbc.thy ===== *)
theory Modes_Cbc
  imports Modes
begin

text \<open>
  Cipher block chaining, \<open>crypto/fipsmodule/modes/cbc.c\<close>.  Input and output are regions of one memory,
  because the functions allow them to overlap: they may be the same, and the output may begin
  before the input.  The pointer \<open>iv\<close> is first the caller's \<open>ivec\<close>, a buffer of its own
  (\<open>None\<close>), and then an address in the memory.
\<close>

section \<open>Memory\<close>

type_synonym memory = "nat \<Rightarrow> u8"

definition rd :: "memory \<Rightarrow> nat \<Rightarrow> nat \<Rightarrow> u8 list" where
  "rd m a n = map (\<lambda>i. m (a + i)) [0 ..< n]"

definition wr :: "memory \<Rightarrow> nat \<Rightarrow> u8 list \<Rightarrow> memory" where
  "wr m a bs = (\<lambda>x. if a \<le> x \<and> x < a + length bs then bs ! (x - a) else m x)"

definition iv_rd :: "memory \<Rightarrow> u8 list \<Rightarrow> nat option \<Rightarrow> nat \<Rightarrow> nat \<Rightarrow> u8 list" where
  "iv_rd m ivec iv n k = (case iv of None \<Rightarrow> take k (drop n ivec) | Some a \<Rightarrow> rd m (a + n) k)"

section \<open>Encryption\<close>

text \<open>One turn of the loop over the words of a block: \<open>out[n..] = src[n..] XOR iv[n..]\<close>.\<close>

definition xor_word :: "nat \<Rightarrow> nat \<Rightarrow> u8 list \<Rightarrow> nat option \<Rightarrow> nat \<Rightarrow> memory \<Rightarrow> memory" where
  "xor_word out src ivec iv n m = wr m (out + n) (map2 (XOR) (rd m (src + n) 8) (iv_rd m ivec iv n 8))"

definition xor_block :: "nat \<Rightarrow> nat \<Rightarrow> u8 list \<Rightarrow> nat option \<Rightarrow> memory \<Rightarrow> memory" where
  "xor_block out src ivec iv m = xor_word out src ivec iv 8 (xor_word out src ivec iv 0 m)"

fun xor_bytes :: "nat \<Rightarrow> nat \<Rightarrow> u8 list \<Rightarrow> nat option \<Rightarrow> nat \<Rightarrow> nat \<Rightarrow> memory \<Rightarrow> memory" where
  "xor_bytes out src ivec iv n 0 m = m"
| "xor_bytes out src ivec iv n (Suc k) m =
     xor_bytes out src ivec iv (Suc n) k (m(out + n := m (src + n) XOR hd (iv_rd m ivec iv n 1)))"

fun copy_bytes :: "nat \<Rightarrow> u8 list \<Rightarrow> nat option \<Rightarrow> nat \<Rightarrow> nat \<Rightarrow> memory \<Rightarrow> memory" where
  "copy_bytes out ivec iv n 0 m = m"
| "copy_bytes out ivec iv n (Suc k) m =
     copy_bytes out ivec iv (Suc n) k (m(out + n := hd (iv_rd m ivec iv n 1)))"

function cbc_enc_loop ::
    "(u8 list \<Rightarrow> u8 list) \<Rightarrow> u8 list \<Rightarrow> nat \<Rightarrow> nat \<Rightarrow> nat \<Rightarrow> nat option \<Rightarrow> memory \<Rightarrow> memory \<times> nat option"
where
  "cbc_enc_loop block ivec inp out len iv m =
     (if len = 0 then (m, iv)
      else if len < 16 then
        let m = xor_bytes out inp ivec iv 0 len m;
            m = copy_bytes out ivec iv len (16 - len) m
        in (wr m out (block (rd m out 16)), Some out)
      else
        let m = xor_block out inp ivec iv m;
            m = wr m out (block (rd m out 16))
        in cbc_enc_loop block ivec (inp + 16) (out + 16) (len - 16) (Some out) m)"
  by auto
termination by (relation "measure (\<lambda>(block, ivec, inp, out, len, iv, m). len)") auto

declare cbc_enc_loop.simps [simp del]

text \<open>The result is the memory and the new \<open>ivec\<close>.\<close>

definition CRYPTO_cbc128_encrypt ::
    "(u8 list \<Rightarrow> u8 list) \<Rightarrow> nat \<Rightarrow> nat \<Rightarrow> nat \<Rightarrow> u8 list \<Rightarrow> memory \<Rightarrow> memory \<times> u8 list"
where
  "CRYPTO_cbc128_encrypt block inp out len ivec m =
     (let (m, iv) = cbc_enc_loop block ivec inp out len None m in (m, iv_rd m ivec iv 0 16))"

section \<open>Decryption\<close>

text \<open>The loop without a temporary block.  The input is deciphered into the output and then combined.\<close>

function cbc_dec_direct ::
    "(u8 list \<Rightarrow> u8 list) \<Rightarrow> u8 list \<Rightarrow> nat \<Rightarrow> nat \<Rightarrow> nat \<Rightarrow> nat option \<Rightarrow> memory \<Rightarrow>
     memory \<times> nat option \<times> nat \<times> nat \<times> nat"
where
  "cbc_dec_direct block ivec inp out len iv m =
     (if len < 16 then (m, iv, inp, out, len)
      else
        let m = wr m out (block (rd m inp 16));
            m = xor_block out out ivec iv m
        in cbc_dec_direct block ivec (inp + 16) (out + 16) (len - 16) (Some inp) m)"
  by auto
termination by (relation "measure (\<lambda>(block, ivec, inp, out, len, iv, m). len)") auto

declare cbc_dec_direct.simps [simp del]

text \<open>The loop with one.  A word of the input is kept while the output is written.\<close>

definition tmp_word :: "u8 list \<Rightarrow> nat \<Rightarrow> nat \<Rightarrow> nat \<Rightarrow> memory \<times> u8 list \<Rightarrow> memory \<times> u8 list" where
  "tmp_word tmp inp out n s =
     (case s of (m, ivec) \<Rightarrow>
        let c = rd m (inp + n) 8
        in (wr m (out + n) (map2 (XOR) (take 8 (drop n tmp)) (take 8 (drop n ivec))),
            take n ivec @ c @ drop (n + 8) ivec))"

function cbc_dec_tmp ::
    "(u8 list \<Rightarrow> u8 list) \<Rightarrow> u8 list \<Rightarrow> nat \<Rightarrow> nat \<Rightarrow> nat \<Rightarrow> memory \<Rightarrow> memory \<times> u8 list \<times> nat \<times> nat \<times> nat"
where
  "cbc_dec_tmp block ivec inp out len m =
     (if len < 16 then (m, ivec, inp, out, len)
      else
        let tmp = block (rd m inp 16);
            (m, ivec) = tmp_word tmp inp out 8 (tmp_word tmp inp out 0 (m, ivec))
        in cbc_dec_tmp block ivec (inp + 16) (out + 16) (len - 16) m)"
  by auto
termination by (relation "measure (\<lambda>(block, ivec, inp, out, len, m). len)") auto

declare cbc_dec_tmp.simps [simp del]

text \<open>The last, incomplete block.\<close>

fun cbc_dec_bytes :: "u8 list \<Rightarrow> nat \<Rightarrow> nat \<Rightarrow> nat \<Rightarrow> nat \<Rightarrow> u8 list \<Rightarrow> memory \<Rightarrow> memory \<times> u8 list" where
  "cbc_dec_bytes tmp inp out n 0 ivec m = (m, ivec)"
| "cbc_dec_bytes tmp inp out n (Suc k) ivec m =
     (let c = m (inp + n)
      in cbc_dec_bytes tmp inp out (Suc n) k (ivec[n := c]) (m(out + n := (tmp ! n) XOR (ivec ! n))))"

text \<open>\<open>None\<close> is the failed assertion that the input does not begin before an output it overlaps.\<close>

definition CRYPTO_cbc128_decrypt ::
    "(u8 list \<Rightarrow> u8 list) \<Rightarrow> nat \<Rightarrow> nat \<Rightarrow> nat \<Rightarrow> u8 list \<Rightarrow> memory \<Rightarrow> (memory \<times> u8 list) option"
where
  "CRYPTO_cbc128_decrypt block inp out len ivec m =
     (if \<not> (inp \<ge> out \<or> inp + len \<le> out) then None
      else
        let (m, ivec, inp, out, len) =
              (if inp \<ge> 32 \<and> out \<le> inp - 32 \<or> inp < out then
                 let (m, iv, inp, out, len) = cbc_dec_direct block ivec inp out len None m
                 in (m, iv_rd m ivec iv 0 16, inp, out, len)
               else cbc_dec_tmp block ivec inp out len m)
        in if len = 0 then Some (m, ivec)
           else
             let tmp = block (rd m inp 16);
                 (m, ivec) = cbc_dec_bytes tmp inp out 0 len ivec m
             in Some (m, take len ivec @ rd m (inp + len) (16 - len)))"

section \<open>Specification\<close>

text \<open>The chains over a list of bytes.\<close>

function cbc_enc :: "(u8 list \<Rightarrow> u8 list) \<Rightarrow> u8 list \<Rightarrow> u8 list \<Rightarrow> u8 list" where
  "cbc_enc block iv xs =
     (if length xs < 16 then []
      else let c = block (map2 (XOR) (take 16 xs) iv) in c @ cbc_enc block c (drop 16 xs))"
  by auto
termination by (relation "measure (\<lambda>(block, iv, xs). length xs)") auto

function cbc_dec :: "(u8 list \<Rightarrow> u8 list) \<Rightarrow> u8 list \<Rightarrow> u8 list \<Rightarrow> u8 list" where
  "cbc_dec block iv xs =
     (if length xs < 16 then []
      else map2 (XOR) (block (take 16 xs)) iv @ cbc_dec block (take 16 xs) (drop 16 xs))"
  by auto
termination by (relation "measure (\<lambda>(block, iv, xs). length xs)") auto

declare cbc_enc.simps [simp del] cbc_dec.simps [simp del]

definition last_block :: "u8 list \<Rightarrow> u8 list \<Rightarrow> u8 list" where
  "last_block iv xs = (if length xs < 16 then iv else drop (length xs - 16) xs)"

section \<open>Lemmas on memory\<close>

lemma length_rd [simp]: "length (rd m a n) = n"
  by (simp add: rd_def)

lemma nth_rd [simp]: "i < n \<Longrightarrow> rd m a n ! i = m (a + i)"
  by (simp add: rd_def)

lemma rd_cong: "(\<And>x. a \<le> x \<Longrightarrow> x < a + n \<Longrightarrow> m x = m' x) \<Longrightarrow> rd m a n = rd m' a n"
  by (rule nth_equalityI) simp_all

lemma wr_outside [simp]: "x < a \<or> a + length bs \<le> x \<Longrightarrow> wr m a bs x = m x"
  by (auto simp: wr_def)

lemma rd_wr [simp]: "rd (wr m a bs) a (length bs) = bs"
  by (rule nth_equalityI) (simp_all add: wr_def)

lemma rd_wr_same: "length bs = n \<Longrightarrow> rd (wr m a bs) a n = bs"
  using rd_wr by blast

lemma rd_add: "rd m a (n + k) = rd m a n @ rd m (a + n) k"
  by (rule nth_equalityI) (auto simp: nth_append)

lemma rd_take: "take k (rd m a n) = rd m a (min k n)"
  by (rule nth_equalityI) simp_all

lemma rd_drop: "k \<le> n \<Longrightarrow> drop k (rd m a n) = rd m (a + k) (n - k)"
  by (rule nth_equalityI) (simp_all add: add.assoc)

lemma rd_wr_outside: "b + n \<le> a \<or> a + length bs \<le> b \<Longrightarrow> rd (wr m a bs) b n = rd m b n"
  by (rule rd_cong) auto

lemma wr_wr: "wr (wr m a xs) (a + length xs) ys = wr m a (xs @ ys)"
  by (rule ext) (auto simp: wr_def nth_append)

lemma wr_append: "length xs = n \<Longrightarrow> wr (wr m a xs) (a + n) ys = wr m a (xs @ ys)"
  using wr_wr by blast

lemma wr_over: "length xs = length ys \<Longrightarrow> wr (wr m a xs) a ys = wr m a ys"
  by (rule ext) (auto simp: wr_def)

lemma wr_Nil [simp]: "wr m a [] = m"
  by (rule ext) (auto simp: wr_def)

text \<open>Two halves of a block.\<close>

lemma map2_halves:
  assumes "length xs = 16" and "length ys = 16"
  shows "map2 f (take 8 xs) (take 8 ys) @ map2 f (take 8 (drop 8 xs)) (take 8 (drop 8 ys)) = map2 f xs ys"
proof -
  have "zip xs ys = zip (take 8 xs) (take 8 ys) @ zip (drop 8 xs) (drop 8 ys)"
    using zip_append [of "take 8 xs" "take 8 ys" "drop 8 xs" "drop 8 ys"] assms by simp
  then show ?thesis using assms by simp
qed

text \<open>The block at \<open>iv\<close> is not the one that is written.\<close>

definition iv_apart :: "nat option \<Rightarrow> nat \<Rightarrow> bool" where
  "iv_apart iv out = (case iv of None \<Rightarrow> True | Some a \<Rightarrow> a + 16 \<le> out \<or> out + 16 \<le> a)"

lemma iv_rd_parts:
  "length ivec = 16 \<Longrightarrow> iv_rd m ivec iv 0 8 = take 8 (iv_rd m ivec iv 0 16)"
  "length ivec = 16 \<Longrightarrow> iv_rd m ivec iv 8 8 = take 8 (drop 8 (iv_rd m ivec iv 0 16))"
  "length ivec = 16 \<Longrightarrow> length (iv_rd m ivec iv 0 16) = 16"
  by (simp_all add: iv_rd_def rd_take rd_drop split: option.split)

lemma iv_rd_apart:
  "iv_apart iv out \<Longrightarrow> n + k \<le> 16 \<Longrightarrow> length bs + j \<le> 16 \<Longrightarrow> iv_rd (wr m (out + j) bs) ivec iv n k = iv_rd m ivec iv n k"
  by (auto simp: iv_rd_def iv_apart_def intro!: rd_wr_outside split: option.splits)

lemma xor_block:
  assumes "length ivec = 16" and "iv_apart iv out" and "out \<le> src \<or> src + 16 \<le> out"
  shows "xor_block out src ivec iv m = wr m out (map2 (XOR) (rd m src 16) (iv_rd m ivec iv 0 16))"
proof -
  let ?iv = "iv_rd m ivec iv 0 16"
  let ?a = "map2 (XOR) (take 8 (rd m src 16)) (take 8 ?iv)"
  have len: "length ?iv = 16" by (rule iv_rd_parts(3) [OF assms(1)])
  have "xor_word out src ivec iv 0 m = wr m out ?a"
    by (simp add: xor_word_def iv_rd_parts [OF assms(1)] rd_take)
  moreover have "rd (wr m out ?a) (src + 8) 8 = rd m (src + 8) 8"
    using assms(3) len by (intro rd_wr_outside) auto
  moreover have "iv_rd (wr m out ?a) ivec iv 8 8 = take 8 (drop 8 ?iv)"
    using iv_rd_apart [OF assms(2), of 8 8 ?a 0 m ivec] iv_rd_parts(2) [OF assms(1), of m iv] len by simp
  ultimately have "xor_block out src ivec iv m =
      wr (wr m out ?a) (out + 8) (map2 (XOR) (take 8 (drop 8 (rd m src 16))) (take 8 (drop 8 ?iv)))"
    by (simp add: xor_block_def xor_word_def rd_drop rd_take)
  moreover have "take 8 (drop 8 (rd m src 16)) = drop 8 (rd m src 16)" "take 8 (drop 8 ?iv) = drop 8 ?iv"
    using len by simp_all
  ultimately show ?thesis using len map2_halves [of "rd m src 16" ?iv "(XOR)"] by (simp add: wr_append)
qed

section \<open>The loops\<close>

lemma cbc_step:
  "cbc_dec block iv (rd m a (16 * Suc k)) =
    map2 (XOR) (block (rd m a 16)) iv @ cbc_dec block (rd m a 16) (rd m (a + 16) (16 * k))"
  "cbc_enc block iv (rd m a (16 * Suc k)) =
    (let c = block (map2 (XOR) (rd m a 16) iv) in c @ cbc_enc block c (rd m (a + 16) (16 * k)))"
  by (subst cbc_dec.simps cbc_enc.simps, simp add: rd_take rd_drop Let_def)+

lemma cbc_short: "length xs < 16 \<Longrightarrow> cbc_dec block iv xs = []" "length xs < 16 \<Longrightarrow> cbc_enc block iv xs = []"
  by (simp_all add: cbc_dec.simps cbc_enc.simps)

lemma cbc_dec_direct:
  assumes "length ivec = 16" and "block_fun block"
  shows "inp + 16 * k \<le> out \<or> out + 32 \<le> inp \<Longrightarrow> (case iv of None \<Rightarrow> True | Some a \<Rightarrow> a + 16 = inp) \<Longrightarrow>
    cbc_dec_direct block ivec inp out (16 * k) iv m =
      (wr m out (cbc_dec block (iv_rd m ivec iv 0 16) (rd m inp (16 * k))),
       if k = 0 then iv else Some (inp + 16 * k - 16), inp + 16 * k, out + 16 * k, 0)"
proof (induction k arbitrary: inp out iv m)
  case 0
  then show ?case by (simp add: cbc_dec_direct.simps cbc_short)
next
  case (Suc k)
  define iv0 where "iv0 = iv_rd m ivec iv 0 16"
  define d where "d = map2 (XOR) (block (rd m inp 16)) iv0"
  have len: "length iv0 = 16" "length d = 16"
    using iv_rd_parts(3) [OF assms(1)] assms(2) by (simp_all add: iv0_def d_def)
  have apart: "iv_apart iv out" using Suc.prems by (auto simp: iv_apart_def split: option.splits)
  have b: "length (block (rd m inp 16)) = 16" using assms(2) by simp
  have iv1: "iv_rd (wr m out (block (rd m inp 16))) ivec iv 0 16 = iv0"
    using iv_rd_apart [OF apart, of 0 16 "block (rd m inp 16)" 0] b by (simp add: iv0_def)
  have step: "xor_block out out ivec iv (wr m out (block (rd m inp 16))) = wr m out d"
    using xor_block [OF assms(1) apart, of out "wr m out (block (rd m inp 16))"] b len
    by (simp add: iv1 rd_wr_same wr_over d_def)
  have rest: "rd (wr m out d) inp 16 = rd m inp 16" "rd (wr m out d) (inp + 16) (16 * k) = rd m (inp + 16) (16 * k)"
    using Suc.prems(1) len by (intro rd_wr_outside; auto)+
  have "cbc_dec_direct block ivec inp out (16 * Suc k) iv m =
      cbc_dec_direct block ivec (inp + 16) (out + 16) (16 * k) (Some inp) (wr m out d)"
    by (subst cbc_dec_direct.simps) (simp add: step Let_def)
  also have "\<dots> = (wr (wr m out d) (out + 16) (cbc_dec block (rd m inp 16) (rd m (inp + 16) (16 * k))),
      if k = 0 then Some inp else Some (inp + 16 + 16 * k - 16), inp + 16 + 16 * k, out + 16 + 16 * k, 0)"
    using Suc.prems(1) by (subst Suc.IH) (auto simp: iv_rd_def rest)
  finally show ?case using len unfolding cbc_step by (simp add: wr_append d_def iv0_def)
qed

lemma tmp_words:
  assumes "length ivec = 16" and "length tmp = 16" and "out \<le> inp"
  shows "tmp_word tmp inp out 8 (tmp_word tmp inp out 0 (m, ivec)) = (wr m out (map2 (XOR) tmp ivec), rd m inp 16)"
proof -
  let ?a = "map2 (XOR) (take 8 tmp) (take 8 ivec)"
  have "tmp_word tmp inp out 0 (m, ivec) = (wr m out ?a, rd m inp 8 @ drop 8 ivec)"
    by (simp add: tmp_word_def)
  moreover have "rd (wr m out ?a) (inp + 8) 8 = rd m (inp + 8) 8"
    using assms by (intro rd_wr_outside) auto
  moreover have "rd m inp 8 @ rd m (inp + 8) 8 = rd m inp 16" using rd_add [of m inp 8 8] by simp
  ultimately show ?thesis
    using assms map2_halves [of tmp ivec "(XOR)"] by (simp add: tmp_word_def wr_append)
qed

lemma cbc_dec_tmp:
  assumes "block_fun block"
  shows "length ivec = 16 \<Longrightarrow> out \<le> inp \<Longrightarrow>
    cbc_dec_tmp block ivec inp out (16 * k) m =
      (wr m out (cbc_dec block ivec (rd m inp (16 * k))),
       if k = 0 then ivec else rd m (inp + 16 * k - 16) 16, inp + 16 * k, out + 16 * k, 0)"
proof (induction k arbitrary: inp out ivec m)
  case 0
  then show ?case by (simp add: cbc_dec_tmp.simps cbc_short)
next
  case (Suc k)
  define d where "d = map2 (XOR) (block (rd m inp 16)) ivec"
  have len: "length d = 16" using assms Suc.prems by (simp add: d_def)
  have keep: "rd (wr m out d) a n = rd m a n" if "inp + 16 \<le> a" for a n
    using that len Suc.prems(2) by (intro rd_wr_outside) auto
  have "cbc_dec_tmp block ivec inp out (16 * Suc k) m =
      cbc_dec_tmp block (rd m inp 16) (inp + 16) (out + 16) (16 * k) (wr m out d)"
    using assms Suc.prems by (subst cbc_dec_tmp.simps) (simp add: tmp_words Let_def d_def)
  also have "\<dots> = (wr (wr m out d) (out + 16) (cbc_dec block (rd m inp 16) (rd m (inp + 16) (16 * k))),
      if k = 0 then rd m inp 16 else rd m (inp + 16 + 16 * k - 16) 16, inp + 16 + 16 * k, out + 16 + 16 * k, 0)"
    using Suc.prems(2) by (subst Suc.IH) (simp_all add: keep)
  finally show ?case using len unfolding cbc_step by (simp add: wr_append d_def)
qed

lemma cbc_enc_loop:
  assumes "length ivec = 16" and "block_fun block"
  shows "inp + 16 * k \<le> out \<or> out \<le> inp \<Longrightarrow> (case iv of None \<Rightarrow> True | Some a \<Rightarrow> a + 16 = out) \<Longrightarrow>
    cbc_enc_loop block ivec inp out (16 * k) iv m =
      (wr m out (cbc_enc block (iv_rd m ivec iv 0 16) (rd m inp (16 * k))),
       if k = 0 then iv else Some (out + 16 * k - 16))"
proof (induction k arbitrary: inp out iv m)
  case 0
  then show ?case by (simp add: cbc_enc_loop.simps cbc_short)
next
  case (Suc k)
  define x where "x = map2 (XOR) (rd m inp 16) (iv_rd m ivec iv 0 16)"
  have len: "length x = 16" "length (block x) = 16"
    using iv_rd_parts(3) [OF assms(1)] assms(2) by (simp_all add: x_def)
  have apart: "iv_apart iv out" using Suc.prems by (auto simp: iv_apart_def split: option.splits)
  have step: "xor_block out inp ivec iv m = wr m out x"
    unfolding x_def using Suc.prems(1) by (intro xor_block [OF assms(1) apart]) auto
  have rest: "rd (wr m out (block x)) (inp + 16) (16 * k) = rd m (inp + 16) (16 * k)"
    using Suc.prems(1) len by (intro rd_wr_outside) auto
  have "cbc_enc_loop block ivec inp out (16 * Suc k) iv m =
      cbc_enc_loop block ivec (inp + 16) (out + 16) (16 * k) (Some out) (wr m out (block x))"
    by (subst cbc_enc_loop.simps) (simp add: step Let_def rd_wr_same wr_over len)
  also have "\<dots> = (wr (wr m out (block x)) (out + 16) (cbc_enc block (block x) (rd m (inp + 16) (16 * k))),
      if k = 0 then Some out else Some (out + 16 + 16 * k - 16))"
    using Suc.prems(1) by (subst Suc.IH) (auto simp: iv_rd_def rest rd_wr_same len)
  finally show ?case using len unfolding cbc_step Let_def by (simp add: wr_append x_def)
qed

section \<open>Properties\<close>

lemma CRYPTO_cbc128_encrypt_blocks:
  assumes "block_fun block" and "length ivec = 16" and "16 dvd len" and "inp + len \<le> out \<or> out \<le> inp"
  shows "CRYPTO_cbc128_encrypt block inp out len ivec m =
    (wr m out (cbc_enc block ivec (rd m inp len)), last_block ivec (cbc_enc block ivec (rd m inp len)))"
proof -
  obtain k where k: "len = 16 * k" using assms(3) by blast
  have n: "length (cbc_enc block iv (rd m a (16 * j))) = 16 * j" if "length iv = 16" for iv a j
    using that
  proof (induction j arbitrary: iv a)
    case (Suc j)
    then show ?case unfolding cbc_step Let_def using assms(1) by simp
  qed (simp add: cbc_short)
  let ?c = "cbc_enc block ivec (rd m inp (16 * k))"
  have "rd (wr m out ?c) (out + (16 * k - 16)) 16 = last_block ivec ?c" if "k \<noteq> 0"
    using that n [OF assms(2), of inp k] rd_drop [of "16 * k - 16" "16 * k" "wr m out ?c" out]
    by (simp add: last_block_def rd_wr_same)
  moreover have "last_block ivec ?c = ivec" if "k = 0"
    using that by (simp add: last_block_def cbc_short)
  ultimately show ?thesis
    using assms cbc_enc_loop [OF assms(2,1), of inp k out None m]
    by (auto simp: CRYPTO_cbc128_encrypt_def k iv_rd_def)
qed

lemma CRYPTO_cbc128_decrypt_blocks:
  assumes "block_fun block" and "length ivec = 16" and "16 dvd len" and "inp + len \<le> out \<or> out \<le> inp"
  shows "CRYPTO_cbc128_decrypt block inp out len ivec m =
    Some (wr m out (cbc_dec block ivec (rd m inp len)), last_block ivec (rd m inp len))"
proof -
  obtain k where k: "len = 16 * k" using assms(3) by blast
  let ?d = "cbc_dec block ivec (rd m inp (16 * k))"
  have n: "length (cbc_dec block iv (rd m a (16 * j))) = 16 * j" if "length iv = 16" for iv a j
    using that
  proof (induction j arbitrary: iv a)
    case (Suc j)
    then show ?case unfolding cbc_step using assms(1) by simp
  qed (simp add: cbc_short)
  have last: "last_block ivec (rd m inp (16 * k)) = (if k = 0 then ivec else rd m (inp + 16 * k - 16) 16)"
    by (simp add: last_block_def rd_drop)
  show ?thesis
  proof (cases "inp \<ge> 32 \<and> out \<le> inp - 32 \<or> inp < out")
    case True
    then have apart: "inp + 16 * k \<le> out \<or> out + 32 \<le> inp" using assms(4) k by auto
    have "rd (wr m out ?d) (inp + 16 * k - 16) 16 = rd m (inp + 16 * k - 16) 16" if "k \<noteq> 0"
      using that apart n [OF assms(2), of inp k] by (intro rd_wr_outside) auto
    then show ?thesis
      using cbc_dec_direct [OF assms(2,1) apart, of None m] True assms(2,4) k last
      by (auto simp: CRYPTO_cbc128_decrypt_def iv_rd_def)
  next
    case False
    then show ?thesis
      using cbc_dec_tmp [OF assms(1,2), of out inp k m] k last
      by (auto simp: CRYPTO_cbc128_decrypt_def)
  qed
qed

text \<open>
  C33: decryption in cipher block chaining mode writes the decrypted chain over the output and
  nothing else, and leaves the last block of the input in \<open>ivec\<close>, also where the output overlaps
  an input that it does not begin after: neither of the two loops reads what it has overwritten.
\<close>
theorem CRYPTO_cbc128_decrypt_overlap:
  assumes "block_fun block" and "length ivec = 16" and "16 dvd len" and "inp + len \<le> out \<or> out \<le> inp"
  shows "CRYPTO_cbc128_decrypt block inp out len ivec m =
    Some (wr m out (cbc_dec block ivec (rd m inp len)), last_block ivec (rd m inp len))"
  using assms by (rule CRYPTO_cbc128_decrypt_blocks)

theorem CRYPTO_cbc128_decrypt_overlap_witness:
  "CRYPTO_cbc128_decrypt rev 116 100 32 (replicate 16 1) of_nat =
    Some (wr of_nat 100 (cbc_dec rev (replicate 16 1) (rd of_nat 116 32)), last_block (replicate 16 1) (rd of_nat 116 32))"
  by (rule CRYPTO_cbc128_decrypt_overlap) (simp_all add: block_fun_def)

lemma cbc_dec_enc:
  assumes "block_fun block" and "\<And>bs. length bs = 16 \<Longrightarrow> block' (block bs) = bs"
  shows "length iv = 16 \<Longrightarrow> length xs = 16 * k \<Longrightarrow>
    cbc_dec block' iv (cbc_enc block iv xs) = xs \<and> length (cbc_enc block iv xs) = 16 * k"
proof (induction k arbitrary: iv xs)
  case 0
  then show ?case by (simp add: cbc_short)
next
  case (Suc k)
  define x where "x = map2 (XOR) (take 16 xs) iv"
  have x: "length x = 16" "length (block x) = 16" using Suc.prems assms(1) by (simp_all add: x_def)
  have undo: "map2 (XOR) x iv = take 16 xs"
    using Suc.prems by (auto simp: x_def xor.assoc intro!: nth_equalityI)
  have IH: "cbc_dec block' (block x) (cbc_enc block (block x) (drop 16 xs)) = drop 16 xs"
      "length (cbc_enc block (block x) (drop 16 xs)) = 16 * k"
    using Suc.IH [of "block x" "drop 16 xs"] x Suc.prems by simp_all
  have "cbc_enc block iv xs = block x @ cbc_enc block (block x) (drop 16 xs)"
    using Suc.prems by (subst cbc_enc.simps) (simp add: x_def Let_def)
  moreover have "cbc_dec block' iv (block x @ cbc_enc block (block x) (drop 16 xs)) = take 16 xs @ drop 16 xs"
    using x IH assms(2) undo by (subst cbc_dec.simps) simp
  ultimately show ?case using x IH by simp
qed

text \<open>
  A message encrypted in place in cipher block chaining mode and decrypted in place with the
  same initialization vector is what it was, and the memory around it is untouched.
\<close>
theorem CRYPTO_cbc128_in_place_roundtrip:
  assumes "block_fun block" and "block_fun block'" and "\<And>bs. length bs = 16 \<Longrightarrow> block' (block bs) = bs"
    and "length ivec = 16" and "16 dvd len"
  shows "CRYPTO_cbc128_decrypt block' a a len ivec (fst (CRYPTO_cbc128_encrypt block a a len ivec m)) =
    Some (m, snd (CRYPTO_cbc128_encrypt block a a len ivec m))"
proof -
  obtain k where k: "len = 16 * k" using assms(5) by blast
  let ?c = "cbc_enc block ivec (rd m a len)"
  have c: "cbc_dec block' ivec ?c = rd m a len" "length ?c = len"
    using cbc_dec_enc [OF assms(1,3,4), of "rd m a len" k] k by simp_all
  have "wr m a (rd m a len) = m" by (rule ext) (auto simp: wr_def)
  moreover have "CRYPTO_cbc128_decrypt block' a a len ivec (wr m a ?c) =
      Some (wr (wr m a ?c) a (cbc_dec block' ivec ?c), last_block ivec ?c)"
    using CRYPTO_cbc128_decrypt_blocks [OF assms(2,4,5), of a a "wr m a ?c"] c by (simp add: rd_wr_same)
  ultimately show ?thesis
    using c by (simp add: CRYPTO_cbc128_encrypt_blocks [OF assms(1,4,5)] wr_over)
qed

theorem CRYPTO_cbc128_in_place_roundtrip_witness:
  "CRYPTO_cbc128_decrypt rev 7 7 32 (replicate 16 1) (fst (CRYPTO_cbc128_encrypt rev 7 7 32 (replicate 16 1) of_nat)) =
    Some (of_nat, snd (CRYPTO_cbc128_encrypt rev 7 7 32 (replicate 16 1) of_nat))"
  by (rule CRYPTO_cbc128_in_place_roundtrip) (simp_all add: block_fun_def)

end
