(* ===== verification/Modes_Cfbr.thy ===== *)
theory Modes_Cfbr
  imports Modes
begin

text \<open>
  Cipher feedback with a feedback of fewer than 128 bits, \<open>crypto/fipsmodule/modes/cfb.c\<close>: the shift
  register of \<open>cfbr_encrypt_block\<close>, and the modes that feed back a byte and a bit.
\<close>

section \<open>The functions\<close>

text \<open>The two loops over the bytes of the input; \<open>ovec\<close> takes the ciphertext from its byte 16 on.\<close>

fun cfbr_bytes :: "bool \<Rightarrow> u8 list \<Rightarrow> u8 list \<Rightarrow> nat \<Rightarrow> nat \<Rightarrow> u8 list \<times> u8 list \<Rightarrow> u8 list \<times> u8 list" where
  "cfbr_bytes enc inp ivec n 0 s = s"
| "cfbr_bytes enc inp ivec n (Suc k) (out, ovec) =
     cfbr_bytes enc inp ivec (Suc n) k
       (if enc then (out[n := inp ! n XOR ivec ! n], ovec[16 + n := inp ! n XOR ivec ! n])
        else (out[n := inp ! n XOR ivec ! n], ovec[16 + n := inp ! n]))"

text \<open>\<open>junk\<close> is what the 33 bytes of \<open>ovec\<close> hold before they are written.\<close>

definition cfbr_encrypt_block ::
    "u8 list \<Rightarrow> block128 \<Rightarrow> nat \<Rightarrow> bool \<Rightarrow> u8 list \<Rightarrow> u8 list \<Rightarrow> u8 list \<Rightarrow> u8 list \<times> u8 list"
where
  "cfbr_encrypt_block junk block nbits enc inp out ivec =
     (if nbits = 0 \<or> nbits > 128 then (out, ivec)
      else
        let ovec = ivec @ drop 16 junk;
            ivec = block ivec;
            (out, ovec) = cfbr_bytes enc inp ivec 0 ((nbits + 7) div 8) (out, ovec);
            rem = nbits mod 8;
            num = nbits div 8
        in if rem = 0 then (out, take 16 (drop num ovec))
           else (out, map (\<lambda>n. push_bit rem (ovec ! (n + num)) OR drop_bit (8 - rem) (ovec ! (n + num + 1))) [0 ..< 16]))"

text \<open>\<open>None\<close> is the assertion that \<open>*num\<close> is 0.\<close>

fun cfb8_loop :: "u8 list \<Rightarrow> block128 \<Rightarrow> bool \<Rightarrow> u8 list \<Rightarrow> u8 list \<Rightarrow> u8 list \<times> u8 list" where
  "cfb8_loop junk block enc [] ivec = ([], ivec)"
| "cfb8_loop junk block enc (x # xs) ivec =
     (let (out, ivec) = cfbr_encrypt_block junk block 8 enc [x] [0] ivec;
          (outs, ivec) = cfb8_loop junk block enc xs ivec
      in (out @ outs, ivec))"

definition CRYPTO_cfb128_8_encrypt ::
    "u8 list \<Rightarrow> block128 \<Rightarrow> bool \<Rightarrow> mode_state \<Rightarrow> u8 list \<Rightarrow> (u8 list \<times> mode_state) option"
where
  "CRYPTO_cfb128_8_encrypt junk block enc s inp =
     (if ms_num s = 0 then
        let (out, ivec) = cfb8_loop junk block enc inp (ms_buf s) in Some (out, s\<lparr>ms_buf := ivec\<rparr>)
      else None)"

fun cfb1_loop :: "u8 list \<Rightarrow> block128 \<Rightarrow> bool \<Rightarrow> u8 list \<Rightarrow> nat \<Rightarrow> nat \<Rightarrow> u8 list \<times> u8 list \<Rightarrow> u8 list \<times> u8 list" where
  "cfb1_loop junk block enc inp n 0 s = s"
| "cfb1_loop junk block enc inp n (Suc k) (out, ivec) =
     (let c = (if inp ! (n div 8) AND push_bit (7 - n mod 8) 1 \<noteq> 0 then [0x80] else [0]);
          (d, ivec) = cfbr_encrypt_block junk block 1 enc c [0] ivec;
          out = out[n div 8 := (out ! (n div 8) AND NOT (push_bit (7 - n mod 8) 1))
                  OR drop_bit (n mod 8) (d ! 0 AND 0x80)]
      in cfb1_loop junk block enc inp (Suc n) k (out, ivec))"

definition CRYPTO_cfb128_1_encrypt ::
    "u8 list \<Rightarrow> block128 \<Rightarrow> bool \<Rightarrow> mode_state \<Rightarrow> nat \<Rightarrow> u8 list \<Rightarrow> u8 list \<Rightarrow> (u8 list \<times> mode_state) option"
where
  "CRYPTO_cfb128_1_encrypt junk block enc s bits inp out =
     (if ms_num s = 0 then
        let (out, ivec) = cfb1_loop junk block enc inp 0 bits (out, ms_buf s) in Some (out, s\<lparr>ms_buf := ivec\<rparr>)
      else None)"

section \<open>The shift register\<close>

lemma cfbr_bytes:
  assumes "n + k \<le> length inp" and "n + k \<le> length ivec" and "n + k \<le> length out" and "16 + n + k \<le> length ovec"
  shows "cfbr_bytes enc inp ivec n k (out, ovec) =
    (let x = map2 (XOR) (take k (drop n inp)) (take k (drop n ivec)) in
     (take n out @ x @ drop (n + k) out,
      take (16 + n) ovec @ (if enc then x else take k (drop n inp)) @ drop (16 + n + k) ovec))"
  using assms
proof (induction k arbitrary: n out ovec)
  case 0
  then show ?case by simp
next
  case (Suc k)
  have d: "take (Suc k) (drop n xs) = xs ! n # take k (drop (Suc n) xs)" if "n + Suc k \<le> length xs" for xs :: "u8 list"
    using that by (simp add: Cons_nth_drop_Suc [symmetric])
  have u: "take (Suc n) (xs[n := x]) = take n xs @ [x]" if "n < length xs" for xs :: "u8 list" and n x
    using that by (simp add: take_Suc_conv_app_nth)
  have v: "take (17 + n) (ovec[16 + n := x]) = take (16 + n) ovec @ [x]" for x
    using u [of "16 + n" ovec x] Suc.prems by simp
  show ?case
    using Suc.prems Suc.IH [of "Suc n" "out[n := inp ! n XOR ivec ! n]" "ovec[16 + n := inp ! n XOR ivec ! n]"]
      Suc.IH [of "Suc n" "out[n := inp ! n XOR ivec ! n]" "ovec[16 + n := inp ! n]"]
    by (cases enc) (simp_all add: d u v Let_def add.assoc)
qed

text \<open>
  The bytes of \<open>ovec\<close> that are not written are not read either: the result is a function of the register
  and the input.
\<close>

lemma cfbr_encrypt_block:
  assumes "nbits \<noteq> 0" and "nbits \<le> 128" and "length ivec = 16" and "length (block ivec) = 16" and "length junk = 33"
    and "length inp = (nbits + 7) div 8" and "length out = length inp"
  shows "cfbr_encrypt_block junk block nbits enc inp out ivec =
    (let x = map2 (XOR) inp (take (length inp) (block ivec));
         ovec = ivec @ (if enc then x else inp);
         rem = nbits mod 8; num = nbits div 8
     in (x, if rem = 0 then take 16 (drop num ovec)
       else map (\<lambda>n. push_bit rem (ovec ! (n + num)) OR drop_bit (8 - rem) (ovec ! (n + num + 1))) [0 ..< 16]))"
proof -
  let ?x = "map2 (XOR) inp (take (length inp) (block ivec))"
  let ?ovec = "ivec @ (if enc then ?x else inp) @ drop (length inp) (drop 16 junk)"
  have n: "length inp \<le> 16" using assms(2,6) by simp
  have bytes: "cfbr_bytes enc inp (block ivec) 0 ((nbits + 7) div 8) (out, ivec @ drop 16 junk) = (?x, ?ovec)"
    using cfbr_bytes [of 0 "length inp" inp "block ivec" out "ivec @ drop 16 junk" enc] assms n by (simp add: Let_def)
  let ?o = "ivec @ (if enc then ?x else inp)"
  have nth: "?ovec ! i = ?o ! i" if "i < 17 + nbits div 8" "nbits mod 8 \<noteq> 0" for i
  proof -
    have "nbits div 8 < (nbits + 7) div 8" using that(2) by presburger
    then have "i < length ?o" using that(1) assms(3,4,6) n by simp
    then show ?thesis by (simp only: append.assoc [symmetric] nth_append if_True)
  qed
  have upper: "take 16 (drop (nbits div 8) ?ovec) = take 16 (drop (nbits div 8) ?o)" if whole: "nbits mod 8 = 0"
  proof -
    obtain q where "nbits = 8 * q" using whole by blast
    then have "nbits div 8 = length inp" using assms(6) by simp
    then show ?thesis using assms(3,4) n by (cases enc) simp_all
  qed
  define shift where "shift ovec n = push_bit (nbits mod 8) (ovec ! (n + nbits div 8)) OR
      drop_bit (8 - nbits mod 8) (ovec ! (n + nbits div 8 + 1))" for ovec :: "u8 list" and n
  have maps: "map (shift ?ovec) [0 ..< 16] = map (shift ?o) [0 ..< 16]" if "nbits mod 8 \<noteq> 0"
    unfolding shift_def
  proof (intro map_cong refl)
    fix i :: nat assume "i \<in> set [0 ..< 16]"
    then have "i + nbits div 8 < 17 + nbits div 8" "i + nbits div 8 + 1 < 17 + nbits div 8" by simp_all
    then show "push_bit (nbits mod 8) (?ovec ! (i + nbits div 8)) OR drop_bit (8 - nbits mod 8) (?ovec ! (i + nbits div 8 + 1)) =
        push_bit (nbits mod 8) (?o ! (i + nbits div 8)) OR drop_bit (8 - nbits mod 8) (?o ! (i + nbits div 8 + 1))"
      using nth [OF _ that] by simp
  qed
  have "(if nbits mod 8 = 0 then (?x, take 16 (drop (nbits div 8) ?ovec)) else (?x, map (shift ?ovec) [0 ..< 16])) =
      (?x, if nbits mod 8 = 0 then take 16 (drop (nbits div 8) ?o) else map (shift ?o) [0 ..< 16])"
  proof (cases "nbits mod 8 = 0")
    case True
    show ?thesis by (simp only: if_P [OF True] upper [OF True])
  next
    case False
    show ?thesis by (simp only: if_not_P [OF False] maps [OF False])
  qed
  moreover have "(nbits = 0 \<or> nbits > 128) = False" using assms(1,2) by simp
  ultimately show ?thesis
    unfolding cfbr_encrypt_block_def Let_def bytes prod.case shift_def by (simp only: if_False)
qed

section \<open>Feedback of a byte\<close>

text \<open>One byte as a step of a machine.\<close>

definition cfb8_step :: "block128 \<Rightarrow> bool \<Rightarrow> mode_state \<Rightarrow> u8 \<Rightarrow> u8 \<times> mode_state" where
  "cfb8_step block enc s x =
     (let y = x XOR hd (block (ms_buf s)) in (y, s\<lparr>ms_buf := tl (ms_buf s) @ [if enc then y else x]\<rparr>))"

lemma take1: "length xs = 16 \<Longrightarrow> take (Suc 0) xs = [hd xs]"
  by (cases xs) simp_all

lemma cfb8_block:
  assumes "block_fun block" and "length junk = 33" and "length ivec = 16"
  shows "cfbr_encrypt_block junk block 8 enc [x] [0] ivec =
    ([x XOR hd (block ivec)], tl ivec @ [if enc then x XOR hd (block ivec) else x])"
  using assms cfbr_encrypt_block [of 8 ivec block junk "[x]" "[0]" enc]
  by (cases ivec) (simp_all add: Let_def take1)

lemma cfb8_loop_serial:
  assumes "block_fun block" and "length junk = 33"
  shows "length (ms_buf s) = 16 \<Longrightarrow> serial (cfb8_step block enc) s xs =
    (fst (cfb8_loop junk block enc xs (ms_buf s)), s\<lparr>ms_buf := snd (cfb8_loop junk block enc xs (ms_buf s))\<rparr>)"
proof (induction xs arbitrary: s)
  case (Cons x xs)
  then show ?case
    using Cons.IH [of "snd (cfb8_step block enc s x)"] cfb8_block [OF assms Cons.prems, of enc x]
    by (simp add: cfb8_step_def split_beta Let_def)
qed simp

text \<open>A block cipher and some initial contents, in one type: the contract is a condition on them.\<close>

definition cfb8_ok :: "block128 \<Rightarrow> u8 list \<Rightarrow> mode_state \<Rightarrow> bool" where
  "cfb8_ok block junk s \<longleftrightarrow> block_fun block \<and> length junk = 33 \<and> length (ms_buf s) = 16 \<and> ms_num s = 0"

interpretation cfb8: inverse_machines "CRYPTO_cfb128_8_encrypt junk block True" "cfb8_step block True"
  "cfb8_ok block junk" "CRYPTO_cfb128_8_encrypt junk block False" "cfb8_step block False" for junk block
  by unfold_locales
    (auto simp: cfb8_ok_def CRYPTO_cfb128_8_encrypt_def cfb8_loop_serial split_beta Let_def cfb8_step_def xor.assoc)

section \<open>Feedback of a bit\<close>

text \<open>Bit \<open>n\<close> of a buffer, the most significant bit of a byte first.\<close>

definition bit_at :: "u8 list \<Rightarrow> nat \<Rightarrow> bool" where
  "bit_at bs n = bit (bs ! (n div 8)) (7 - n mod 8)"

definition shift_in :: "u8 list \<Rightarrow> bool \<Rightarrow> u8 list" where
  "shift_in iv b =
     map (\<lambda>n. push_bit 1 (iv ! n) OR (if n < 15 then drop_bit 7 (iv ! Suc n) else of_bool b)) [0 ..< 16]"

fun cfb1_bits :: "block128 \<Rightarrow> bool \<Rightarrow> u8 list \<Rightarrow> bool list \<Rightarrow> bool list \<times> u8 list" where
  "cfb1_bits block enc iv [] = ([], iv)"
| "cfb1_bits block enc iv (b # bs) =
     (let c = (b \<noteq> bit (hd (block iv)) 7);
          (cs, iv) = cfb1_bits block enc (shift_in iv (if enc then c else b)) bs
      in (c # cs, iv))"

lemma cfb1_bits_inverse:
  "cfb1_bits block False iv (fst (cfb1_bits block True iv bs)) = (bs, snd (cfb1_bits block True iv bs))"
  by (induction bs arbitrary: iv) (auto simp: split_beta Let_def)

lemma length_cfb1_bits [simp]: "length (fst (cfb1_bits block enc iv bs)) = length bs"
  by (induction bs arbitrary: iv) (simp_all add: split_beta Let_def)

lemma top_bit: "drop_bit 7 x = (of_bool (bit x 7) :: u8)"
proof (rule bit_eqI)
  fix n
  have "\<not> bit x (7 + n)" if "n \<noteq> 0" using that bit_imp_le_length [of x "7 + n"] by auto
  then show "bit (drop_bit 7 x) n = bit (of_bool (bit x 7) :: u8) n" by (cases "n = 0") (simp_all add: bit_simps)
qed

lemma cfb1_block:
  assumes "block_fun block" and "length junk = 33" and "length ivec = 16"
  shows "cfbr_encrypt_block junk block 1 enc [if b then 0x80 else 0] [0] ivec =
    ([(if b then 0x80 else 0) XOR hd (block ivec)], shift_in ivec (if enc then b \<noteq> bit (hd (block ivec)) 7 else b))"
proof -
  have "bit (0x80 :: u8) 7" by simp
  then have "drop_bit 7 (if b then 0x80 else 0) = (of_bool b :: u8)"
      "drop_bit 7 ((if b then 0x80 else 0) XOR hd (block ivec)) = of_bool (b \<noteq> bit (hd (block ivec)) 7)"
    by (simp_all add: top_bit bit_xor_iff)
  then show ?thesis
    using assms cfbr_encrypt_block [of 1 ivec block junk "[if b then 0x80 else 0]" "[0]" enc]
    by (auto simp: Let_def take1 shift_in_def nth_append)
qed

lemma bit_test: "(x AND push_bit j 1 \<noteq> 0) = bit x j" if "j < 8" for x :: u8
  using that by (simp add: bit_iff_and_push_bit_not_eq_0)

lemma put_bit:
  assumes "n < 8 * length out" and "i < 8 * length out"
  shows "bit_at (out[n div 8 := (out ! (n div 8) AND NOT (push_bit (7 - n mod 8) 1)) OR drop_bit (n mod 8) (d AND 0x80)]) i =
    (if i = n then bit d 7 else bit_at out i)"
proof (cases "i div 8 = n div 8")
  case True
  have q: "n div 8 < length out" using assms(1) by simp
  define a c where ac: "a = n mod 8" "c = i mod 8"
  then have m: "a < 8" "c < 8" by simp_all
  then have e: "a + (7 - c) = 7 \<longleftrightarrow> c = a" "7 - c = 7 - a \<longleftrightarrow> c = a" by linarith+
  have h: "bit (0x80 :: u8) k = (k = 7)" for k
    using bit_push_bit_iff [of 7 "1 :: u8" k] by (auto simp: bit_1_iff)
  have "bit (drop_bit a (d AND 0x80)) (7 - c) = (bit d 7 \<and> c = a)"
    by (simp only: bit_drop_bit_eq o_apply bit_and_iff h e) (metis e(1))
  moreover have "bit (push_bit (7 - a) (1 :: u8)) (7 - c) = (c = a)"
    using m e by (auto simp: bit_exp_iff)
  then have "bit (out ! (n div 8) AND NOT (push_bit (7 - a) 1)) (7 - c) = (bit (out ! (n div 8)) (7 - c) \<and> c \<noteq> a)"
    using m by (auto simp: bit_and_iff bit_not_iff)
  moreover have "(i = n) = (c = a)" using True ac by (metis mult_div_mod_eq)
  ultimately show ?thesis using True q unfolding ac [symmetric] by (auto simp: bit_at_def bit_or_iff ac [symmetric])
qed (auto simp: bit_at_def)

lemma cfb1_loop:
  assumes "block_fun block" and "length junk = 33"
  shows "length iv = 16 \<Longrightarrow> n + k \<le> 8 * length out \<Longrightarrow>
    (case (cfb1_loop junk block enc inp n k (out, iv), cfb1_bits block enc iv (map (bit_at inp) [n ..< n + k])) of
       ((out', iv'), (cs, iv'')) \<Rightarrow>
         iv' = iv'' \<and> length iv' = 16 \<and> length out' = length out \<and>
         (\<forall>i < 8 * length out. bit_at out' i = (if n \<le> i \<and> i < n + k then cs ! (i - n) else bit_at out i)))"
proof (induction k arbitrary: n out iv)
  case 0
  then show ?case by (auto simp: not_le)
next
  case (Suc k)
  define b where "b = bit_at inp n"
  define d where "d = (if b then 0x80 else 0) XOR hd (block iv)"
  define iv1 where "iv1 = shift_in iv (if enc then b \<noteq> bit (hd (block iv)) 7 else b)"
  define out1 where "out1 = out[n div 8 := (out ! (n div 8) AND NOT (push_bit (7 - n mod 8) 1)) OR drop_bit (n mod 8) (d AND 0x80)]"
  have d: "bit d 7 = (b \<noteq> bit (hd (block iv)) 7)"
  proof -
    have "bit (0x80 :: u8) 7" by simp
    then show ?thesis by (simp add: d_def bit_xor_iff)
  qed
  have "(inp ! (n div 8) AND push_bit (7 - n mod 8) 1 \<noteq> 0) = b"
    by (subst bit_test) (auto simp: b_def bit_at_def)
  then have c: "(if inp ! (n div 8) AND push_bit (7 - n mod 8) 1 \<noteq> 0 then [0x80] else [0 :: u8]) = [if b then 0x80 else 0]"
    by simp
  have loop: "cfb1_loop junk block enc inp n (Suc k) (out, iv) = cfb1_loop junk block enc inp (Suc n) k (out1, iv1)"
    unfolding cfb1_loop.simps c cfb1_block [OF assms Suc.prems(1)] Let_def
    by (simp add: out1_def d_def iv1_def)
  have bits: "map (bit_at inp) [n ..< n + Suc k] = b # map (bit_at inp) [Suc n ..< Suc n + k]"
    using upt_conv_Cons [of n "n + Suc k"] by (simp add: b_def)
  have iv1: "length iv1 = 16" by (simp add: iv1_def shift_in_def)
  have out1: "length out1 = length out" by (simp add: out1_def)
  have bit1: "bit_at out1 i = (if i = n then bit d 7 else bit_at out i)" if "i < 8 * length out" for i
    unfolding out1_def using that Suc.prems(2) by (intro put_bit) simp_all
  define bs where "bs = map (bit_at inp) [Suc n ..< Suc n + k]"
  obtain cs iv2 where cs: "cfb1_bits block enc iv1 bs = (cs, iv2)" by fastforce
  have step: "cfb1_bits block enc iv (b # bs) = (bit d 7 # cs, iv2)"
    by (simp only: cfb1_bits.simps Let_def iv1_def [symmetric] d cs prod.case)
  obtain out2 iv3 where r: "cfb1_loop junk block enc inp (Suc n) k (out1, iv1) = (out2, iv3)" by fastforce
  have IH: "iv3 = iv2" "length iv3 = 16" "length out2 = length out"
      "\<And>i. i < 8 * length out \<Longrightarrow> bit_at out2 i = (if Suc n \<le> i \<and> i < Suc n + k then cs ! (i - Suc n) else bit_at out1 i)"
    using Suc.IH [OF iv1, of "Suc n" out1] Suc.prems(2) unfolding r bs_def [symmetric] cs prod.case out1 by auto
  have "bit_at out2 i = (if n \<le> i \<and> i < n + Suc k then (bit d 7 # cs) ! (i - n) else bit_at out i)"
    if "i < 8 * length out" for i
    using IH(4) [OF that] bit1 [OF that] by (auto simp: nth_Cons')
  then show ?case
    unfolding loop r bits bs_def [symmetric] step using IH by simp
qed

lemma cfb1_run:
  assumes "block_fun block" and "length junk = 33" and "length iv = 16" and "bits \<le> 8 * length out"
    and "cfb1_bits block enc iv (map (bit_at inp) [0 ..< bits]) = (cs, iv')"
  obtains out' where "cfb1_loop junk block enc inp 0 bits (out, iv) = (out', iv')" and "length out' = length out"
    and "\<And>i. i < 8 * length out \<Longrightarrow> bit_at out' i = (if i < bits then cs ! i else bit_at out i)"
proof (cases "cfb1_loop junk block enc inp 0 bits (out, iv)")
  case (Pair out' iv2)
  then show ?thesis
    using that [of out'] cfb1_loop [OF assms(1-3), of 0 bits out enc inp] assms(4,5) by simp
qed

section \<open>Properties\<close>

text \<open>
  C34: cipher feedback of single bits, packed most significant bit first, decrypts to the bits
  that were encrypted whatever the two output buffers held, changes no bit of them after the
  last, and leaves the same shift register on both sides; the bytes of \<open>ovec\<close> that are never written
  have no influence.
\<close>
theorem CRYPTO_cfb128_1_encrypt_roundtrip:
  assumes "block_fun block" and "length junk = 33" and "length junk' = 33" and "length (ms_buf s) = 16" and "ms_num s = 0"
    and "bits \<le> 8 * length out" and "bits \<le> 8 * length out'"
  shows "\<exists>c p s'. CRYPTO_cfb128_1_encrypt junk block True s bits inp out = Some (c, s') \<and>
    CRYPTO_cfb128_1_encrypt junk' block False s bits c out' = Some (p, s') \<and>
    map (bit_at p) [0 ..< bits] = map (bit_at inp) [0 ..< bits] \<and>
    map (bit_at c) [bits ..< 8 * length out] = map (bit_at out) [bits ..< 8 * length out] \<and>
    map (bit_at p) [bits ..< 8 * length out'] = map (bit_at out') [bits ..< 8 * length out']"
proof -
  let ?bs = "map (bit_at inp) [0 ..< bits]"
  obtain cs iv where cs: "cfb1_bits block True (ms_buf s) ?bs = (cs, iv)" by fastforce
  then have undo: "cfb1_bits block False (ms_buf s) cs = (?bs, iv)" and len: "length cs = bits"
    using cfb1_bits_inverse [of block "ms_buf s" ?bs] length_cfb1_bits [of block True "ms_buf s" ?bs] by simp_all
  obtain c where c: "cfb1_loop junk block True inp 0 bits (out, ms_buf s) = (c, iv)" "length c = length out"
      "\<And>i. i < 8 * length out \<Longrightarrow> bit_at c i = (if i < bits then cs ! i else bit_at out i)"
    using cfb1_run [OF assms(1,2,4,6) cs] by blast
  have "map (bit_at c) [0 ..< bits] = cs" using c(2,3) len assms(6) by (intro nth_equalityI) simp_all
  then have undo: "cfb1_bits block False (ms_buf s) (map (bit_at c) [0 ..< bits]) = (?bs, iv)" using undo by simp
  obtain p where p: "cfb1_loop junk' block False c 0 bits (out', ms_buf s) = (p, iv)"
      "\<And>i. i < 8 * length out' \<Longrightarrow> bit_at p i = (if i < bits then ?bs ! i else bit_at out' i)"
    using cfb1_run [OF assms(1,3,4,7) undo] by blast
  show ?thesis
    using c p assms(5-7) by (auto simp: CRYPTO_cfb128_1_encrypt_def)
qed

theorem CRYPTO_cfb128_1_encrypt_roundtrip_witness:
  "\<exists>c p s'. CRYPTO_cfb128_1_encrypt (replicate 33 7) rev True \<lparr>ms_ctr = [], ms_buf = replicate 16 0x80, ms_num = 0\<rparr> 11
      [0xaa, 0xff] [0, 3] = Some (c, s') \<and>
    CRYPTO_cfb128_1_encrypt (replicate 33 0) rev False \<lparr>ms_ctr = [], ms_buf = replicate 16 0x80, ms_num = 0\<rparr> 11
      c [1, 2] = Some (p, s') \<and>
    map (bit_at p) [0 ..< 11] = map (bit_at [0xaa, 0xff]) [0 ..< 11] \<and>
    map (bit_at c) [11 ..< 8 * length [0, 3 :: u8]] = map (bit_at [0, 3]) [11 ..< 8 * length [0, 3 :: u8]] \<and>
    map (bit_at p) [11 ..< 8 * length [1, 2 :: u8]] = map (bit_at [1, 2]) [11 ..< 8 * length [1, 2 :: u8]]"
  by (rule CRYPTO_cfb128_1_encrypt_roundtrip) (simp_all add: block_fun_def)

end
