(* ===== verification/Modes_Ctr32.thy ===== *)
theory Modes_Ctr32
  imports Modes
begin

text \<open>
  Counter mode by a function that counts in 32 bits only (\<open>CRYPTO_ctr128_encrypt_ctr32\<close>) is counter
  mode with the counter of 128 bits: the runs are cut where the last four bytes overflow, and
  the carry is taken into the upper bytes.
\<close>

text \<open>
  What the optimised function does, according to \<open>modes/internal.h\<close>: counter mode that only deals
  with the lower 32 bits of the counter.
\<close>

definition ctr32_func :: "block128 \<Rightarrow> (u8 list \<Rightarrow> u8 list \<Rightarrow> u8 list) \<Rightarrow> bool" where
  "ctr32_func block func \<longleftrightarrow> (\<forall>inp ivec. length ivec = 16 \<longrightarrow>
     func inp ivec = map2 (XOR) inp
       (map (\<lambda>p. block (take 12 ivec @ be_bytes 4 (be_nat (drop 12 ivec) + p div 16)) ! (p mod 16)) [0 ..< length inp]))"

lemma be_bytes_add: "be_bytes (m + n) v = be_bytes m (v div 256 ^ n) @ be_bytes n v"
proof (induction n arbitrary: v)
  case (Suc n)
  have "v div 256 div 256 ^ n = v div 256 ^ Suc n" by (simp add: div_mult2_eq)
  then show ?case using Suc [of "v div 256"] by simp
qed simp

declare be_bytes.simps [simp del]

lemma be_bytes_16: "be_bytes 16 v = be_bytes 12 (v div 2 ^ 32) @ be_bytes 4 v"
  using be_bytes_add [of 12 4 v] by simp

lemma be_bytes_mod: "be_bytes n (v mod 256 ^ n) = be_bytes n v"
  by (rule be_nat_inject) (simp_all add: be_nat_be_bytes)

definition xor_key :: "block128 \<Rightarrow> nat \<Rightarrow> u8 list \<Rightarrow> u8 list" where
  "xor_key block c0 xs = map2 (XOR) xs (map (ctr_key block c0) [0 ..< length xs])"

lemma ctr_key_shift: "ctr_key block (c0 + b) p = ctr_key block c0 (16 * b + p)"
  by (simp add: ctr_key_def add.assoc)

lemma xor_key_append:
  assumes "length xs = 16 * b"
  shows "xor_key block c0 (xs @ ys) = xor_key block c0 xs @ xor_key block (c0 + b) ys"
proof -
  have keys: "map (ctr_key block c0) [length xs ..< length xs + length ys] =
      map (ctr_key block (c0 + b)) [0 ..< length ys]"
    by (rule nth_equalityI) (simp_all add: ctr_key_shift assms)
  have upt: "[0 ..< length xs + length ys] = [0 ..< length xs] @ [length xs ..< length xs + length ys]"
    by (rule upt_add_eq_append) simp
  have "xor_key block c0 (xs @ ys) = map2 (XOR) (xs @ ys)
      (map (ctr_key block c0) [0 ..< length xs] @ map (ctr_key block (c0 + b)) [0 ..< length ys])"
    unfolding xor_key_def length_append upt map_append keys ..
  then show ?thesis by (simp only: xor_key_def zip_append length_map length_upt diff_zero map_append)
qed

lemma put_xor: "n + length xs \<le> length buf \<Longrightarrow> put_bytes xor_byte buf n xs = (map2 (XOR) xs (drop n buf), buf)"
proof (induction xs arbitrary: n)
  case (Cons x xs)
  then have "drop n buf = buf ! n # drop (Suc n) buf" by (simp add: Cons_nth_drop_Suc)
  then show ?case using Cons by (simp add: xor_byte_def)
qed simp

text \<open>One block of the key stream.\<close>

lemma xor_key_block:
  assumes "length xs \<le> 16" and "length (block (be_bytes 16 x)) = 16"
  shows "xor_key block x xs = map2 (XOR) xs (block (be_bytes 16 x))"
proof (rule nth_equalityI)
  show "length (xor_key block x xs) = length (map2 (XOR) xs (block (be_bytes 16 x)))"
    using assms by (simp add: xor_key_def)
  fix i assume "i < length (xor_key block x xs)"
  then have "i < length xs" by (simp add: xor_key_def)
  then show "xor_key block x xs ! i = map2 (XOR) xs (block (be_bytes 16 x)) ! i"
    using assms by (simp add: xor_key_def ctr_key_def)
qed

lemma ctr_blocks:
  assumes block: "\<And>b. length (block b) = 16"
  shows "ms_ctr s = be_bytes 16 x \<Longrightarrow>
    \<exists>s'. mode_blocks (ctr_refill block) xor_byte s xs =
      (xor_key block x (take (16 * (length xs div 16)) xs), s', drop (16 * (length xs div 16)) xs) \<and>
      ms_ctr s' = be_bytes 16 (x + length xs div 16) \<and> ms_num s' = ms_num s \<and> (length xs < 16 \<longrightarrow> s' = s)"
proof (induction "length xs" arbitrary: s xs x rule: less_induct)
  case less
  show ?case
  proof (cases "length xs < 16")
    case True
    then show ?thesis using less.prems by (simp add: mode_blocks.simps [of _ _ _ xs] xor_key_def)
  next
    case False
    define s1 where "s1 = (ctr_refill block s)\<lparr>ms_buf := block (ms_ctr s)\<rparr>"
    have s1: "ms_ctr s1 = be_bytes 16 (x + 1)" "ms_num s1 = ms_num s"
      using less.prems by (simp_all add: s1_def ctr_refill_def ctr128_inc_bytes)
    define k where "k = length (drop 16 xs) div 16"
    have k: "length xs div 16 = Suc k" using False by (simp add: k_def le_div_geq)
    obtain s' where s': "mode_blocks (ctr_refill block) xor_byte s1 (drop 16 xs) =
        (xor_key block (x + 1) (take (16 * k) (drop 16 xs)), s', drop (16 * k) (drop 16 xs))"
        "ms_ctr s' = be_bytes 16 (x + 1 + k)" "ms_num s' = ms_num s1"
    proof -
      have "length (drop 16 xs) < length xs" using False by simp
      from less.hyps [OF this s1(1), folded k_def] show ?thesis using that by blast
    qed
    have "put_bytes xor_byte (ms_buf (ctr_refill block s)) 0 (take 16 xs) =
        (map2 (XOR) (take 16 xs) (block (ms_ctr s)), block (ms_ctr s))"
      using False by (subst put_xor) (simp_all add: ctr_refill_def block)
    moreover have "map2 (XOR) (take 16 xs) (block (ms_ctr s)) = xor_key block x (take 16 xs)"
      using less.prems by (simp add: xor_key_block block)
    moreover have "xor_key block x (take 16 xs) @ xor_key block (x + 1) (take (16 * k) (drop 16 xs)) =
        xor_key block x (take (16 * Suc k) xs)"
      using xor_key_append [of "take 16 xs" 1 block x "take (16 * k) (drop 16 xs)"] False
      by (simp add: take_add [of 16 "16 * k" xs])
    ultimately have "mode_blocks (ctr_refill block) xor_byte s xs =
        (xor_key block x (take (16 * Suc k) xs), s', drop (16 * Suc k) xs)"
      using False s'(1) by (simp add: mode_blocks.simps [of _ _ _ xs] s1_def [symmetric] add.commute)
    then show ?thesis using s' s1 False k by simp
  qed
qed


text \<open>The upper twelve bytes and the lower four.\<close>

lemma counter_parts:
  assumes "length iv = 12 + 4" and "iv = be_bytes 16 x"
  shows "take 12 iv = be_bytes 12 (x div 2 ^ 32)" and "drop 12 iv = be_bytes 4 x"
  using be_bytes_16 [of x] by (simp_all add: assms(2))

lemma func_key:
  assumes "ctr32_func block func" and small: "x mod 2 ^ 32 * 16 + length inp \<le> 2 ^ 32 * 16"
  shows "func inp (be_bytes 16 x) = xor_key block x inp"
proof -
  have "take 12 (be_bytes 16 x) @ be_bytes 4 (be_nat (drop 12 (be_bytes 16 x)) + p div 16) = be_bytes 16 (x + p div 16)"
    if "p < length inp" for p
  proof -
    have "p div 16 < 2 ^ 32 - x mod 2 ^ 32"
      using that small by (intro less_mult_imp_div_less) simp
    then have lo: "x mod 2 ^ 32 + p div 16 < 2 ^ 32" by simp
    have "x + p div 16 = x div 2 ^ 32 * 2 ^ 32 + (x mod 2 ^ 32 + p div 16)" by simp
    then have hi: "(x + p div 16) div 2 ^ 32 = x div 2 ^ 32"
      using lo by (metis add.right_neutral div_less div_mult_self3 power_not_zero zero_neq_numeral)
    have "be_nat (be_bytes 4 x) = x mod 2 ^ 32" by (simp add: be_nat_be_bytes)
    moreover have "be_bytes 4 (x mod 2 ^ 32 + p div 16) = be_bytes 4 (x + p div 16)"
      by (rule be_nat_inject) (simp_all add: be_nat_be_bytes mod_add_left_eq)
    ultimately show ?thesis using hi by (simp add: be_bytes_16)
  qed
  then have "map (\<lambda>p. block (take 12 (be_bytes 16 x) @ be_bytes 4 (be_nat (drop 12 (be_bytes 16 x)) + p div 16)) ! (p mod 16))
      [0 ..< length inp] = map (ctr_key block x) [0 ..< length inp]"
    by (simp add: ctr_key_def)
  moreover have "func inp (be_bytes 16 x) = map2 (XOR) inp
      (map (\<lambda>p. block (take 12 (be_bytes 16 x) @ be_bytes 4 (be_nat (drop 12 (be_bytes 16 x)) + p div 16)) ! (p mod 16))
        [0 ..< length inp])"
    using assms(1) [unfolded ctr32_func_def, rule_format, of "be_bytes 16 x" inp] by simp
  ultimately show ?thesis by (simp only: xor_key_def)
qed

text \<open>The update of the counter after a run that ends at the overflow at the latest.\<close>

definition ctr_after :: "u8 list \<Rightarrow> u32 \<Rightarrow> u8 list" where
  "ctr_after ivec ctr32 =
     (let ivec = PUTU32 ivec 12 ctr32 in if ctr32 = 0 then ctr96_inc ivec else ivec)"

lemma ctr96_inc_bytes: "ctr96_inc (be_bytes 12 y @ be_bytes 4 0) = be_bytes 12 (y + 1) @ be_bytes 4 0"
proof -
  let ?l = "be_bytes 12 y @ be_bytes 4 0"
  note c = ctr_inc_loop [of 12 ?l 1]
  have "take 12 (ctr96_inc ?l) = be_bytes 12 (y + 1)"
    by (rule be_nat_inject) (use c in \<open>simp_all add: ctr96_inc_def be_nat_be_bytes mod_Suc_eq\<close>)
  moreover have "drop 12 (ctr96_inc ?l) = be_bytes 4 0" using c(2) by (simp add: ctr96_inc_def)
  ultimately show ?thesis by (metis append_take_drop_id)
qed

lemma ctr_after:
  assumes "0 < b" and "x mod 2 ^ 32 + b \<le> 2 ^ 32"
  shows "ctr_after (be_bytes 16 x) (of_nat (x + b)) = be_bytes 16 (x + b)"
proof -
  have u: "unat (of_nat (x + b) :: u32) = (x + b) mod 2 ^ 32" by (simp add: unat_of_nat del: of_nat_add)
  have put: "PUTU32 (be_bytes 16 x) 12 (of_nat (x + b)) = be_bytes 12 (x div 2 ^ 32) @ be_bytes 4 (x + b)"
    using be_bytes_mod [of 4 "x + b"] u by (simp add: PUTU32_def be_bytes_16)
  have split: "x + b = x div 2 ^ 32 * 2 ^ 32 + (x mod 2 ^ 32 + b)" by simp
  show ?thesis
  proof (cases "x mod 2 ^ 32 + b = 2 ^ 32")
    case True
    then have xb: "x + b = (x div 2 ^ 32 + 1) * 2 ^ 32" using split by simp
    then have "(of_nat (x + b) :: u32) = 0" using u by (simp add: word_unat_eq_iff)
    moreover have "be_bytes 4 (x + b) = be_bytes 4 0" using be_bytes_mod [of 4 "x + b"] xb by simp
    moreover have "(x + b) div 2 ^ 32 = x div 2 ^ 32 + 1" using xb by simp
    ultimately show ?thesis unfolding ctr_after_def put Let_def be_bytes_16 [of "x + b"]
      by (simp add: ctr96_inc_bytes)
  next
    case False
    then have lo: "x mod 2 ^ 32 + b < 2 ^ 32" using assms(2) by simp
    have "(x + b) mod 2 ^ 32 = x mod 2 ^ 32 + b"
      using lo split by (metis mod_less mod_mult_self3)
    then have "(of_nat (x + b) :: u32) \<noteq> 0" using u assms(1) by (metis add_is_0 less_numeral_extra(3) unat_0)
    moreover have "(x + b) div 2 ^ 32 = x div 2 ^ 32"
      using lo split by (metis add.right_neutral div_less div_mult_self3 power_not_zero zero_neq_numeral)
    ultimately show ?thesis unfolding ctr_after_def put Let_def be_bytes_16 [of "x + b"] by simp
  qed
qed

text \<open>The number of blocks of a run.\<close>

definition run_blocks :: "nat \<Rightarrow> nat \<Rightarrow> nat" where
  "run_blocks x b = min b (2 ^ 32 - x mod 2 ^ 32)"

lemma run_blocks:
  assumes "0 < b" and "b \<le> 2 ^ 28"
  shows "(if unat ((of_nat x :: u32) + of_nat b) < b then (b - unat ((of_nat x :: u32) + of_nat b), 0)
      else (b, (of_nat x :: u32) + of_nat b)) = (run_blocks x b, of_nat (x + run_blocks x b))"
    and "0 < run_blocks x b" and "run_blocks x b \<le> b" and "x mod 2 ^ 32 + run_blocks x b \<le> 2 ^ 32"
proof -
  define lo where "lo = x mod 2 ^ 32"
  have lo: "lo < 2 ^ 32" by (simp add: lo_def)
  have u: "unat ((of_nat x :: u32) + of_nat b) = (lo + b) mod 2 ^ 32"
    using unat_of_nat [of "x + b", where 'a = 32] by (simp add: lo_def take_bit_eq_mod mod_add_left_eq)
  show "(if unat ((of_nat x :: u32) + of_nat b) < b then (b - unat ((of_nat x :: u32) + of_nat b), 0)
      else (b, (of_nat x :: u32) + of_nat b)) = (run_blocks x b, of_nat (x + run_blocks x b))"
  proof (cases "lo + b < 2 ^ 32")
    case True
    then have "run_blocks x b = b" unfolding run_blocks_def lo_def [symmetric] by simp
    then show ?thesis unfolding u using True by simp
  next
    case False
    then have m: "(lo + b) mod 2 ^ 32 = lo + b - 2 ^ 32"
      using lo assms(2) by (subst le_mod_geq) simp_all
    have "x + (2 ^ 32 - lo) = (x div 2 ^ 32 + 1) * 2 ^ 32"
    proof -
      have "x = x div 2 ^ 32 * 2 ^ 32 + lo" by (simp add: lo_def)
      then show ?thesis using lo by (simp add: distrib_right)
    qed
    then have "unat (of_nat (x + (2 ^ 32 - lo)) :: u32) = 0" by (simp add: unat_of_nat del: of_nat_add)
    then have "(of_nat (x + (2 ^ 32 - lo)) :: u32) = 0" by (simp only: unat_eq_zero)
    moreover have "run_blocks x b = 2 ^ 32 - lo"
      unfolding run_blocks_def lo_def [symmetric] using False by simp
    moreover have "b - (lo + b - 2 ^ 32) = 2 ^ 32 - lo" "lo + b - 2 ^ 32 < b" using False lo by simp_all
    ultimately show ?thesis unfolding u m by (simp only: if_True)
  qed
  show "0 < run_blocks x b" "run_blocks x b \<le> b" "x mod 2 ^ 32 + run_blocks x b \<le> 2 ^ 32"
    unfolding run_blocks_def lo_def [symmetric] using assms lo by simp_all
qed

lemma ctr32_loop:
  assumes func: "ctr32_func block func"
  shows "ctr32_loop func (be_bytes 16 x) (of_nat x) xs =
    (xor_key block x (take (16 * (length xs div 16)) xs), be_bytes 16 (x + length xs div 16),
     of_nat (x + length xs div 16), drop (16 * (length xs div 16)) xs)"
proof (induction "length xs" arbitrary: xs x rule: less_induct)
  case less
  show ?case
  proof (cases "length xs < 16")
    case True
    then show ?thesis by (simp add: ctr32_loop.simps [of _ _ _ xs] xor_key_def)
  next
    case False
    define b0 where "b0 = (if length xs div 16 > 2 ^ 28 then 2 ^ 28 else length xs div 16)"
    have b0: "0 < b0" "b0 \<le> 2 ^ 28" "b0 \<le> length xs div 16" using False by (auto simp: b0_def div_greater_zero_iff)
    define b where "b = run_blocks x b0"
    note rb = run_blocks [OF b0(1,2), of x, folded b_def]
    have b: "0 < b" "16 * b \<le> length xs" "x mod 2 ^ 32 + b \<le> 2 ^ 32"
    proof -
      have "16 * b \<le> 16 * (length xs div 16)" using rb(3) b0(3) by simp
      also have "\<dots> \<le> length xs" by simp
      finally show "16 * b \<le> length xs" .
    qed (fact rb(2), fact rb(4))
    have k: "length (drop (16 * b) xs) div 16 + b = length xs div 16" (is "?k + b = _")
      using b(2) by simp
    have len: "length (drop (16 * b) xs) < length xs" using b False by simp
    have fk: "func (take (16 * b) xs) (be_bytes 16 x) = xor_key block x (take (16 * b) xs)"
      using b by (intro func_key [OF func]) simp
    have "ctr32_loop func (be_bytes 16 x) (of_nat x) xs =
        (let (outs, ivec, ctr32, rest) =
           ctr32_loop func (ctr_after (be_bytes 16 x) (of_nat (x + b))) (of_nat (x + b)) (drop (16 * b) xs)
         in (func (take (16 * b) xs) (be_bytes 16 x) @ outs, ivec, ctr32, rest))"
      using False by (subst ctr32_loop.simps) (simp only: if_False Let_def b0_def [symmetric] rb(1) prod.case ctr_after_def)
    then have "ctr32_loop func (be_bytes 16 x) (of_nat x) xs =
        (xor_key block x (take (16 * b) xs) @ xor_key block (x + b) (take (16 * ?k) (drop (16 * b) xs)),
         be_bytes 16 (x + b + ?k), of_nat (x + b + ?k), drop (16 * ?k) (drop (16 * b) xs))"
      unfolding ctr_after [OF b(1,3)] less.hyps [OF len, of "x + b"] fk by (simp only: Let_def prod.case)
    moreover have "xor_key block x (take (16 * b) xs) @ xor_key block (x + b) (take (16 * ?k) (drop (16 * b) xs)) =
        xor_key block x (take (16 * (b + ?k)) xs)"
      using xor_key_append [of "take (16 * b) xs" b block x "take (16 * ?k) (drop (16 * b) xs)"] b(2)
        take_add [of "16 * b" "16 * ?k" xs] by (simp add: distrib_left)
    moreover have "drop (16 * ?k) (drop (16 * b) xs) = drop (16 * (b + ?k)) xs"
      by (simp only: drop_drop distrib_left add.commute)
    moreover have "b + ?k = length xs div 16" using k by simp
    ultimately show ?thesis by (simp only: add.assoc)
  qed
qed

lemma GETU32_counter: "GETU32 (drop 12 (be_bytes 16 x)) = of_nat x"
  by (simp add: GETU32_def be_bytes_16 be_nat_be_bytes word_unat_eq_iff unat_of_nat take_bit_eq_mod)

lemma func_zeros:
  assumes "ctr32_func block func" and "\<forall>b. length (block b) = 16"
  shows "func (replicate 16 0) (be_bytes 16 y) = block (be_bytes 16 y)"
proof -
  have "func (replicate 16 0) (be_bytes 16 y) = xor_key block y (replicate 16 0)"
    by (rule func_key [OF assms(1)]) (simp add: Suc_leI)
  also have "\<dots> = block (be_bytes 16 y)"
    using assms(2) by (subst xor_key_block) (auto intro!: nth_equalityI)
  finally show ?thesis .
qed

text \<open>
  C32: \<open>CRYPTO_ctr128_encrypt_ctr32\<close> with a function that counts in 32 bits gives the same output
  and the same counter as \<open>CRYPTO_ctr128_encrypt\<close> with the block cipher, wherever the counter
  starts and however long the input is; the buffered block is the same when it is still needed.
\<close>
theorem CRYPTO_ctr128_encrypt_ctr32_agrees:
  assumes "ctr32_func block func" and "\<forall>b. length (block b) = 16" and "ms_num s < 16" and "length (ms_ctr s) = 16"
  shows "\<exists>out s1 s2. CRYPTO_ctr128_encrypt block s inp = Some (out, s1) \<and>
    CRYPTO_ctr128_encrypt_ctr32 func s inp = Some (out, s2) \<and>
    ms_ctr s2 = ms_ctr s1 \<and> ms_num s2 = ms_num s1 \<and> (ms_num s1 = 0 \<or> ms_buf s2 = ms_buf s1)"
proof -
  define x where "x = be_nat (ms_ctr s)"
  have x: "ms_ctr s = be_bytes 16 x" using be_bytes_be_nat [of "ms_ctr s"] assms(4) by (simp add: x_def)
  have get: "GETU32 (drop 12 (ms_ctr s)) = of_nat x" by (simp add: x GETU32_counter)
  obtain out1 buf n xs where h: "mode_head xor_byte (ms_buf s) (ms_num s) inp = (out1, buf, n, xs)" by (metis prod_cases4)
  have e: "n < 16" "xs \<noteq> [] \<Longrightarrow> n = 0" using mode_head_end [OF assms(3) h] by simp_all
  define m where "m = length xs div 16"
  define s0 where "s0 = s\<lparr>ms_buf := buf, ms_num := n\<rparr>"
  have "ms_ctr s0 = be_bytes 16 x" using x by (simp add: s0_def)
  then obtain s' where b: "mode_blocks (ctr_refill block) xor_byte s0 xs =
      (xor_key block x (take (16 * m) xs), s', drop (16 * m) xs)"
      "ms_ctr s' = be_bytes 16 (x + m)" "ms_num s' = n" "length xs < 16 \<longrightarrow> s' = s0"
    using ctr_blocks [of block s0 x xs] assms(2) by (auto simp: m_def s0_def)
  have l: "ctr32_loop func (ms_ctr s) (of_nat x) xs =
      (xor_key block x (take (16 * m) xs), be_bytes 16 (x + m), of_nat (x + m), drop (16 * m) xs)"
    using ctr32_loop [OF assms(1), of x xs] by (simp add: x m_def)
  define ys where "ys = drop (16 * m) xs"
  define E where "E = xor_key block x (take (16 * m) xs)"
  note parts = h s0_def [symmetric] get b(1) l E_def [symmetric] ys_def [symmetric]
  show ?thesis
  proof (cases "ys = []")
    case True
    have r1: "CRYPTO_ctr128_encrypt block s inp = Some (out1 @ E, s')"
      using assms(3) True by (simp add: CRYPTO_ctr128_encrypt_def mode_run_def parts)
    have r2: "CRYPTO_ctr128_encrypt_ctr32 func s inp =
        Some (out1 @ E, s\<lparr>ms_ctr := be_bytes 16 (x + m), ms_buf := buf, ms_num := n\<rparr>)"
      using assms(3) True by (simp add: CRYPTO_ctr128_encrypt_ctr32_def parts)
    have "n = 0 \<or> ms_buf s' = buf"
    proof (cases "xs = []")
      case True
      then have "s' = s0" using b(4) by simp
      then show ?thesis by (simp add: s0_def)
    qed (use e(2) in simp)
    then show ?thesis using r1 r2 b(2,3) by auto
  next
    case False
    let ?c = "be_bytes 16 (x + m)"
    have inc: "ctr_after ?c (of_nat (x + m) + 1) = be_bytes 16 (x + m + 1)"
      using ctr_after [of 1 "x + m"] by (simp add: add.commute Suc_leI)
    obtain out3 buf3 where p: "put_bytes xor_byte (block ?c) n ys = (out3, buf3)" by (metis surj_pair)
    have r1: "CRYPTO_ctr128_encrypt block s inp = Some (out1 @ E @ out3,
        s'\<lparr>ms_ctr := be_bytes 16 (x + m + 1), ms_buf := buf3, ms_num := n + length ys\<rparr>)"
      using assms(3) False b(2) p
      by (simp add: CRYPTO_ctr128_encrypt_def mode_run_def parts ctr_refill_def ctr128_inc_bytes)
    have r2: "CRYPTO_ctr128_encrypt_ctr32 func s inp = Some (out1 @ E @ out3,
        s\<lparr>ms_ctr := be_bytes 16 (x + m + 1), ms_buf := buf3, ms_num := n + length ys\<rparr>)"
      using assms(3) False p inc [unfolded ctr_after_def]
      by (simp add: CRYPTO_ctr128_encrypt_ctr32_def parts func_zeros [OF assms(1,2)] Let_def)
    show ?thesis using r1 r2 by simp
  qed
qed

text \<open>A function that satisfies the contract, for any block cipher.\<close>

definition ctr32_blocks :: "block128 \<Rightarrow> u8 list \<Rightarrow> u8 list \<Rightarrow> u8 list" where
  "ctr32_blocks block inp ivec = map2 (XOR) inp
     (map (\<lambda>p. block (take 12 ivec @ be_bytes 4 (be_nat (drop 12 ivec) + p div 16)) ! (p mod 16)) [0 ..< length inp])"

lemma ctr32_blocks: "ctr32_func block (ctr32_blocks block)"
  by (simp add: ctr32_func_def ctr32_blocks_def)

text \<open>A permutation of the blocks, and a counter that is about to overflow.\<close>

definition toy_block :: block128 where
  "toy_block b = map (\<lambda>x. x + 1) (take 16 (rev b @ replicate 16 0))"

lemma length_toy_block: "length (toy_block b) = 16"
  by (simp add: toy_block_def min_def)

theorem CRYPTO_ctr128_encrypt_ctr32_agrees_witness:
  "case (CRYPTO_ctr128_encrypt toy_block \<lparr>ms_ctr = replicate 16 0xff, ms_buf = replicate 16 0, ms_num = 0\<rparr> (replicate 40 7),
         CRYPTO_ctr128_encrypt_ctr32 (ctr32_blocks toy_block)
           \<lparr>ms_ctr = replicate 16 0xff, ms_buf = replicate 16 0, ms_num = 0\<rparr> (replicate 40 7)) of
     (Some (out1, s1), Some (out2, s2)) \<Rightarrow> out1 = out2 \<and> ms_ctr s1 = ms_ctr s2 \<and> ms_num s2 = ms_num s1
   | _ \<Rightarrow> False"
  using CRYPTO_ctr128_encrypt_ctr32_agrees [OF ctr32_blocks, of toy_block
      "\<lparr>ms_ctr = replicate 16 0xff, ms_buf = replicate 16 0, ms_num = 0\<rparr>" "replicate 40 7"]
  by (auto simp: length_toy_block)

declare be_bytes.simps [simp]

end
