(* ===== verification/Oid.thy ===== *)
theory Oid
  imports Cbb_Build
begin

text \<open>
  Object identifiers as text: \<open>CBS_asn1_oid_to_text\<close> of \<open>crypto/bytestring/cbs.c\<close>, and how it
  and \<open>CBB_add_asn1_oid_from_text\<close> of \<open>cbb.c\<close> fit together.
\<close>

section \<open>The code\<close>

text \<open>What \<open>snprintf\<close> writes for the format \<open>PRIu64\<close>: the decimal digits.\<close>

fun decimal :: "nat \<Rightarrow> u8 list" where
  "decimal n = (if n < 10 then [of_nat (48 + n)] else decimal (n div 10) @ [of_nat (48 + n mod 10)])"

declare decimal.simps [simp del]

definition DECIMAL_SIZE :: "nat \<Rightarrow> nat" where
  "DECIMAL_SIZE sz = (sz * 8 + 2) div 3 + 1"

text \<open>\<open>BIO_snprintf\<close> keeps one byte of the buffer for the zero.\<close>

definition add_decimal :: "allocator \<Rightarrow> nat \<Rightarrow> u64 \<Rightarrow> unit cbb_op" where
  "add_decimal ml out v =
     (let buf_size = DECIMAL_SIZE 8 + 1; buf = take (buf_size - 1) (decimal (unat v))
      in CBB_add_bytes ml out buf)"

function oid_text_loop :: "allocator \<Rightarrow> cbs \<Rightarrow> unit cbb_op" where
  "oid_text_loop ml copy =
     (if CBS_len copy \<noteq> 0 then
        (case parse_base128_integer copy of
           (None, _) \<Rightarrow> op_fail
         | (Some v, copy) \<Rightarrow>
             op_bind (CBB_add_u8 ml 0 0x2e) (\<lambda>_.
             op_bind (add_decimal ml 0 v) (\<lambda>_. oid_text_loop ml copy)))
      else op_ret ())"
  by pat_completeness auto

lemma parse_base128_integer_shorter: "parse_base128_integer cbs = (Some v, t) \<Longrightarrow> length t < length cbs"
  by (auto simp: parse_base128_integer_iff b128_bytes_def)

termination oid_text_loop
  by (relation "measure (\<lambda>(ml, copy). length copy)") (auto dest: parse_base128_integer_shorter [OF sym])

declare oid_text_loop.simps [simp del]

text \<open>The text with its terminating zero; \<open>cbb_session\<close> is \<open>CBB_init\<close>, the calls and \<open>CBB_finish\<close>.\<close>

definition CBS_asn1_oid_to_text :: "allocator \<Rightarrow> cbs \<Rightarrow> u8 list option" where
  "CBS_asn1_oid_to_text ml cbs =
     cbb_session ml 32
       (case parse_base128_integer cbs of
          (None, _) \<Rightarrow> op_fail
        | (Some v, copy) \<Rightarrow>
            op_bind
              (if v \<ge> 80 then
                 op_bind (CBB_add_bytes ml 0 [0x32, 0x2e]) (\<lambda>_. add_decimal ml 0 (v - 80))
               else
                 op_bind (add_decimal ml 0 (v div 40)) (\<lambda>_.
                 op_bind (CBB_add_u8 ml 0 0x2e) (\<lambda>_. add_decimal ml 0 (v mod 40))))
              (\<lambda>_. op_bind (oid_text_loop ml copy) (\<lambda>_. CBB_add_u8 ml 0 0)))"

section \<open>Decimal numbers\<close>

lemma length_decimal: "0 < k \<Longrightarrow> n < 10 ^ k \<Longrightarrow> length (decimal n) \<le> k"
proof (induction k arbitrary: n)
  case 0
  then show ?case by simp
next
  case (Suc k)
  show ?case
  proof (cases "n < 10")
    case True
    then show ?thesis by (simp add: decimal.simps)
  next
    case False
    then have k: "0 < k" using Suc.prems by (cases k) auto
    have "n div 10 < 10 ^ k" using Suc.prems by (simp add: div_less_iff_less_mult mult.commute)
    then show ?thesis using Suc.IH [OF k] False by (simp add: decimal.simps [of n])
  qed
qed

lemma length_decimal_u64: "length (decimal (unat (v :: u64))) \<le> 20"
proof (rule length_decimal)
  have "unat v < 2 ^ 64" using unsigned_less [of v] by simp
  then show "unat v < 10 ^ 20" by simp
qed simp

lemma add_decimal_refines:
  assumes "malloc_ok ml"
  shows "cbb_refines ml (add_decimal ml d v) (stack_add d (decimal (unat v)))"
proof -
  have "length (decimal (unat v)) \<le> 23" using length_decimal_u64 [of v] by simp
  then have "add_decimal ml d v = CBB_add_bytes ml d (decimal (unat v))"
    by (simp add: add_decimal_def DECIMAL_SIZE_def)
  then show ?thesis using cbb_add_bytes_refines [OF assms, of "decimal (unat v)" d] length_decimal_u64 [of v] by simp
qed

text \<open>Reading decimal digits, with the checks against overflow and leading zeros.\<close>

lemma parse_dotted_step:
  assumes "u \<noteq> 46" and "\<not> u < 48" and "\<not> u > 57" and "\<not> (seen \<and> v = 0)"
    and "\<not> v > (- 1) div 10" and "\<not> v * 10 > - 1 - (ucast u - 48)"
  shows "parse_dotted_loop seen v (u # s) = parse_dotted_loop True (v * 10 + (ucast u - 48)) s"
proof -
  have "\<not> (u < 48 \<or> u > 57 \<or> (seen \<and> v = 0) \<or> v > (- 1) div 10 \<or> v * 10 > - 1 - (ucast u - 48))"
    and "\<not> (u = 46 \<and> CBS_len s > 0)" using assms by blast+
  then show ?thesis by (simp only: parse_dotted_loop.simps if_False)
qed

lemma parse_decimal_digit:
  assumes "n < 10" and "m * 10 + n < 2 ^ 64" and "seen \<longrightarrow> 0 < m" and "\<not> seen \<longrightarrow> m = 0"
  shows "parse_dotted_loop seen (of_nat m) (of_nat (48 + n) # s) = parse_dotted_loop True (of_nat (m * 10 + n)) s"
proof -
  let ?u = "of_nat (48 + n) :: u8" and ?v = "of_nat m :: u64"
  have u: "unat ?u = 48 + n" using assms(1) by (simp only: unat_of_nat_u8) simp
  have m: "m < 2 ^ 64" "m \<le> (2 ^ 64 - 1) div 10" using assms(2) by linarith+
  then have v: "unat ?v = m" by (simp add: unat_of_nat)
  have d: "unat (ucast ?u - 48 :: u64) = n"
  proof -
    have "unat (ucast ?u :: u64) = 48 + n" using u assms(1) by (simp add: unsigned_ucast_eq take_bit_nat_eq_self)
    then show ?thesis by (simp add: unat_sub word_le_nat_alt)
  qed
  have dn: "(ucast ?u - 48 :: u64) = of_nat n" using arg_cong [where f = "of_nat :: nat \<Rightarrow> u64", OF d] by simp
  have "\<not> (seen \<and> ?v = 0)" using assms(3) v by auto
  moreover have "\<not> ?v > (- 1) div 10"
    using m v by (simp add: word_less_nat_alt unat_div)
  moreover have "\<not> ?v * 10 > - 1 - (ucast ?u - 48)"
  proof -
    have "unat (?v * 10) = m * 10"
      using v assms(2) by (simp add: unat_word_ariths)
    moreover have "unat (- 1 - (ucast ?u - 48) :: u64) = 2 ^ 64 - 1 - n"
    proof -
      have "unat (- 1 - of_nat n :: u64) = unat (- 1 :: u64) - unat (of_nat n :: u64)"
        by (rule unat_sub) simp
      moreover have "unat (of_nat n :: u64) = n" using assms(1) by (simp add: unat_of_nat)
      ultimately show ?thesis unfolding dn by (simp add: unsigned_minus_1_eq_mask mask_eq_exp_minus_1)
    qed
    ultimately show ?thesis using assms(2) by (simp add: word_less_nat_alt)
  qed
  moreover have "\<not> ?u < 48" "\<not> ?u > 57" using u assms(1) by (simp_all add: word_less_nat_alt)
  moreover have "?u \<noteq> 46"
  proof
    assume "?u = 46"
    then have "unat ?u = 46" by (simp only:) simp
    with u show False by linarith
  qed
  ultimately have "parse_dotted_loop seen ?v (?u # s) = parse_dotted_loop True (?v * 10 + (ucast ?u - 48)) s"
    by (intro parse_dotted_step) blast+
  then show ?thesis unfolding dn by simp
qed

lemma parse_decimal: "n < 2 ^ 64 \<Longrightarrow> parse_dotted_loop False 0 (decimal n @ s) = parse_dotted_loop True (of_nat n) s"
proof (induction n arbitrary: s rule: decimal.induct)
  case (1 n)
  show ?case
  proof (cases "n < 10")
    case True
    then show ?thesis using parse_decimal_digit [of n 0 False s] by (simp add: decimal.simps [of n])
  next
    case False
    have "parse_dotted_loop False 0 (decimal n @ s) =
        parse_dotted_loop False 0 (decimal (n div 10) @ of_nat (48 + n mod 10) # s)"
      using False by (simp add: decimal.simps [of n])
    also have "\<dots> = parse_dotted_loop True (of_nat (n div 10)) (of_nat (48 + n mod 10) # s)"
      using 1 False by simp
    also have "\<dots> = parse_dotted_loop True (of_nat (n div 10 * 10 + n mod 10)) s"
      using 1(2) False by (intro parse_decimal_digit) (auto simp: div_greater_zero_iff)
    finally show ?thesis by simp
  qed
qed

text \<open>Numbers with dots between them.\<close>

fun dotted :: "nat list \<Rightarrow> u8 list" where
  "dotted [] = []"
| "dotted [n] = decimal n"
| "dotted (n # m # ns) = decimal n @ 0x2e # dotted (m # ns)"

lemma decimal_nonempty [simp]: "decimal n \<noteq> []"
  by (simp add: decimal.simps [of n])

lemma dotted_nonempty: "ns \<noteq> [] \<Longrightarrow> dotted ns \<noteq> []"
  by (cases ns rule: dotted.cases) auto

lemma parse_dotted_decimal_dotted:
  "n < 2 ^ 64 \<Longrightarrow> parse_dotted_decimal (dotted (n # ns)) = (Some (of_nat n), dotted ns)"
  using dotted_nonempty [of ns]
  by (cases ns) (auto simp: parse_dotted_decimal_def parse_decimal CBS_len_def parse_decimal [of n "[]", simplified])

lemma dotted_Cons: "dotted (n # ns) = decimal n @ concat (map (\<lambda>m. 0x2e # decimal m) ns)"
  by (induction ns arbitrary: n) auto

section \<open>The numbers of an identifier\<close>

text \<open>All the base-128 integers of a string.\<close>

function b128_numbers :: "cbs \<Rightarrow> u64 list option" where
  "b128_numbers cbs =
     (if cbs = [] then Some []
      else (case parse_base128_integer cbs of
              (None, _) \<Rightarrow> None
            | (Some v, rest) \<Rightarrow> map_option ((#) v) (b128_numbers rest)))"
  by pat_completeness auto
termination by (relation "measure length") (auto dest: parse_base128_integer_shorter [OF sym])

declare b128_numbers.simps [simp del]

lemma b128_numbers_Cons: "b128_numbers (b128_bytes (unat v) @ rest) = map_option ((#) v) (b128_numbers rest)"
proof -
  have "parse_base128_integer (b128_bytes (unat v) @ rest) = (Some v, rest)" by (simp add: parse_base128_integer_iff)
  moreover have "b128_bytes (unat v) @ rest \<noteq> []" by (simp add: b128_bytes_def)
  ultimately show ?thesis using b128_numbers.simps [of "b128_bytes (unat v) @ rest"] by (simp del: append_is_Nil_conv)
qed

lemma b128_numbers_iff: "b128_numbers cbs = Some vs \<longleftrightarrow> cbs = concat (map (\<lambda>v. b128_bytes (unat v)) vs)"
proof
  show "b128_numbers cbs = Some vs \<Longrightarrow> cbs = concat (map (\<lambda>v. b128_bytes (unat v)) vs)"
    by (induction cbs arbitrary: vs rule: b128_numbers.induct)
      (subst (asm) (2) b128_numbers.simps,
       auto simp: parse_base128_integer_iff split: if_splits prod.splits option.splits)
  have "b128_numbers (concat (map (\<lambda>v. b128_bytes (unat v)) vs)) = Some vs"
    by (induction vs) (simp_all add: b128_numbers_Cons, simp add: b128_numbers.simps)
  then show "cbs = concat (map (\<lambda>v. b128_bytes (unat v)) vs) \<Longrightarrow> b128_numbers cbs = Some vs" by simp
qed

text \<open>
  The first two numbers of an identifier share a base-128 integer; the encoding and the text of
  an identifier.
\<close>

definition oid_ok :: "nat list \<Rightarrow> bool" where
  "oid_ok ns \<longleftrightarrow>
     (case ns of
        a # b # ns \<Rightarrow> a \<le> 2 \<and> (a < 2 \<longrightarrow> b < 40) \<and> 40 * a + b < 2 ^ 64 \<and> list_all (\<lambda>n. n < 2 ^ 64) ns
      | _ \<Rightarrow> False)"

definition oid_bytes :: "nat list \<Rightarrow> u8 list" where
  "oid_bytes ns =
     (case ns of a # b # ns \<Rightarrow> b128_bytes (40 * a + b) @ concat (map b128_bytes ns) | _ \<Rightarrow> [])"

definition oid_split :: "u64 \<Rightarrow> nat list" where
  "oid_split v = (if 80 \<le> unat v then [2, unat v - 80] else [unat v div 40, unat v mod 40])"

lemma oid_split_bytes: "oid_bytes (oid_split v @ map unat vs) = concat (map (\<lambda>v. b128_bytes (unat v)) (v # vs))"
proof -
  have "40 * (unat v div 40) + unat v mod 40 = unat v" by simp
  then show ?thesis by (auto simp: oid_split_def oid_bytes_def o_def)
qed

lemma oid_split_ok: "oid_ok (oid_split v @ map unat (vs :: u64 list))"
proof -
  have "unat w < 2 ^ 64" for w :: u64 using unsigned_less [of w] by simp
  then have "list_all (\<lambda>n. n < 2 ^ 64) (map unat vs)" by (auto simp: list_all_iff)
  moreover have "unat v < 2 ^ 64" using unsigned_less [of v] by simp
  moreover have "unat v div 40 < 2" if "\<not> 80 \<le> unat v" using that by linarith
  moreover have "40 * (unat v div 40) + unat v mod 40 = unat v" by simp
  ultimately show ?thesis by (auto simp: oid_split_def oid_ok_def)
qed

lemma oid_bytes_split:
  assumes "oid_ok ns"
  obtains v and vs :: "u64 list" where "ns = oid_split v @ map unat vs"
proof -
  obtain a b ms where ns: "ns = a # b # ms" and ok: "a \<le> 2" "a < 2 \<longrightarrow> b < 40" "40 * a + b < 2 ^ 64" "list_all (\<lambda>n. n < 2 ^ 64) ms"
    using assms by (auto simp: oid_ok_def split: list.splits)
  have v: "unat (of_nat (40 * a + b) :: u64) = 40 * a + b" using ok(3) by (simp only: unat_of_nat) simp
  have "map (\<lambda>n. unat (of_nat n :: u64)) ms = ms"
    using ok(4) by (induction ms) (auto simp: unat_of_nat)
  moreover have "oid_split (of_nat (40 * a + b)) = [a, b]"
  proof (cases "a < 2")
    case True
    then have "a = 0 \<or> a = 1" by linarith
    then show ?thesis using ok(2) by (auto simp: oid_split_def v simp del: of_nat_add of_nat_mult)
  next
    case False
    then have "a = 2" using ok(1) by linarith
    then show ?thesis unfolding oid_split_def v by simp
  qed
  ultimately have "ns = oid_split (of_nat (40 * a + b)) @ map unat (map (of_nat :: nat \<Rightarrow> u64) ms)"
    using ns by (simp add: o_def del: of_nat_add of_nat_mult)
  then show ?thesis by (rule that)
qed

section \<open>From the encoding to the text\<close>

lemma op_fail_refines: "cbb_refines ml op_fail (\<lambda>_. None)"
  by (auto simp: cbb_refines_def size_mono_def cbb_does_def op_fail_def)

lemma oid_text_loop_refines:
  assumes ml: "malloc_ok ml"
  shows "cbb_refines ml (op_bind (oid_text_loop ml copy) (\<lambda>_. CBB_add_u8 ml 0 0))
    (case b128_numbers copy of
       None \<Rightarrow> (\<lambda>_. None)
     | Some vs \<Rightarrow> stack_add 0 (concat (map (\<lambda>v. 0x2e # decimal (unat v)) vs) @ [0]))"
proof (induction copy rule: b128_numbers.induct)
  case (1 copy)
  show ?case
  proof (cases "copy = []")
    case True
    then show ?thesis using cbb_add_u8_refines [OF ml, of 0 0]
      by (simp add: oid_text_loop.simps [of ml "[]"] b128_numbers.simps [of "[]"] CBS_len_def)
  next
    case False
    obtain r rest where p: "parse_base128_integer copy = (r, rest)" by fastforce
    show ?thesis
    proof (cases r)
      case None
      have "op_bind op_fail f = op_fail" for f :: "unit \<Rightarrow> unit cbb_op"
        by (rule ext) (simp add: op_bind_def op_fail_def)
      then show ?thesis using None p False op_fail_refines
        by (simp add: oid_text_loop.simps [of ml copy] b128_numbers.simps [of copy] CBS_len_def)
    next
      case (Some v)
      let ?k = "op_bind (oid_text_loop ml rest) (\<lambda>_. CBB_add_u8 ml 0 0)"
      have run: "op_bind (oid_text_loop ml copy) (\<lambda>_. CBB_add_u8 ml 0 0) =
          op_bind (op_bind (CBB_add_u8 ml 0 0x2e) (\<lambda>_. add_decimal ml 0 v)) (\<lambda>_. ?k)"
        using Some p False by (simp add: oid_text_loop.simps [of ml copy] CBS_len_def op_bind_assoc)
      have "cbb_refines ml (op_bind (CBB_add_u8 ml 0 0x2e) (\<lambda>_. add_decimal ml 0 v))
          (\<lambda>s. Option.bind (stack_add 0 [0x2e] s) (stack_add 0 (decimal (unat v))))"
        by (rule cbb_refines_bind [OF cbb_add_u8_refines [OF ml] add_decimal_refines [OF ml]])
      then have one: "cbb_refines ml (op_bind (CBB_add_u8 ml 0 0x2e) (\<lambda>_. add_decimal ml 0 v))
          (stack_add 0 (0x2e # decimal (unat v)))" by (simp add: stack_add_append [abs_def])
      note IH = 1 [OF False p [symmetric] Some]
      have num: "b128_numbers copy = map_option ((#) v) (b128_numbers rest)"
        using Some p False by (simp add: b128_numbers.simps [of copy])
      show ?thesis
      proof (cases "b128_numbers rest")
        case None
        have "cbb_refines ml (op_bind (op_bind (CBB_add_u8 ml 0 0x2e) (\<lambda>_. add_decimal ml 0 v)) (\<lambda>_. ?k))
            (\<lambda>s. Option.bind (stack_add 0 (0x2e # decimal (unat v)) s) (\<lambda>_. None))"
          using IH None by (intro cbb_refines_bind one) simp
        then show ?thesis unfolding run using num None by simp
      next
        case (Some vs)
        have "cbb_refines ml (op_bind (op_bind (CBB_add_u8 ml 0 0x2e) (\<lambda>_. add_decimal ml 0 v)) (\<lambda>_. ?k))
            (\<lambda>s. Option.bind (stack_add 0 (0x2e # decimal (unat v)) s)
              (stack_add 0 (concat (map (\<lambda>v. 0x2e # decimal (unat v)) vs) @ [0])))"
          using IH Some by (intro cbb_refines_bind one) simp
        then show ?thesis unfolding run using num Some by (simp add: stack_add_append)
      qed
    qed
  qed
qed

lemma oid_first_refines:
  assumes ml: "malloc_ok ml"
  shows "cbb_refines ml
      (if v \<ge> 80 then op_bind (CBB_add_bytes ml 0 [0x32, 0x2e]) (\<lambda>_. add_decimal ml 0 (v - 80))
       else op_bind (add_decimal ml 0 (v div 40)) (\<lambda>_. op_bind (CBB_add_u8 ml 0 0x2e) (\<lambda>_. add_decimal ml 0 (v mod 40))))
      (stack_add 0 (dotted (oid_split v)))"
proof (cases "80 \<le> unat v")
  case True
  have "cbb_refines ml (op_bind (CBB_add_bytes ml 0 [0x32, 0x2e]) (\<lambda>_. add_decimal ml 0 (v - 80)))
      (\<lambda>s. Option.bind (stack_add 0 [0x32, 0x2e] s) (stack_add 0 (decimal (unat (v - 80)))))"
    by (rule cbb_refines_bind [OF cbb_add_bytes_refines [OF ml] add_decimal_refines [OF ml]]) simp
  moreover have "unat (v - 80) = unat v - 80" "v \<ge> 80" using True by (simp_all add: unat_sub word_le_nat_alt)
  ultimately show ?thesis
    using True by (simp add: stack_add_append [abs_def] oid_split_def decimal.simps [of 2])
next
  case False
  have "cbb_refines ml (op_bind (add_decimal ml 0 (v div 40)) (\<lambda>_. op_bind (CBB_add_u8 ml 0 0x2e) (\<lambda>_. add_decimal ml 0 (v mod 40))))
      (\<lambda>s. Option.bind (stack_add 0 (decimal (unat (v div 40))) s)
        (\<lambda>s. Option.bind (stack_add 0 [0x2e] s) (stack_add 0 (decimal (unat (v mod 40))))))"
    by (intro cbb_refines_bind cbb_add_u8_refines add_decimal_refines ml)
  moreover have "unat (v div 40) = unat v div 40" "unat (v mod 40) = unat v mod 40" "\<not> v \<ge> 80"
    using False by (simp_all add: unat_div unat_mod word_le_nat_alt)
  ultimately show ?thesis
    using False by (simp add: stack_add_append [abs_def] oid_split_def)
qed

lemma oid_text: "dotted (oid_split v) @ concat (map (\<lambda>v. 0x2e # decimal (unat v)) vs) = dotted (oid_split v @ map unat vs)"
  by (simp add: oid_split_def dotted_Cons o_def)

text \<open>The session of \<open>CBS_asn1_oid_to_text\<close>, as a function on stacks.\<close>

definition oid_text_stack :: "cbs \<Rightarrow> cbb_stack \<Rightarrow> cbb_stack option" where
  "oid_text_stack cbs =
     (case b128_numbers cbs of
        Some (v # vs) \<Rightarrow> stack_add 0 (dotted (oid_split v @ map unat vs) @ [0])
      | _ \<Rightarrow> (\<lambda>_. None))"

lemma oid_to_text_session:
  assumes ml: "malloc_ok ml"
  shows "\<exists>f. CBS_asn1_oid_to_text ml cbs = cbb_session ml 32 f \<and> cbb_refines ml f (oid_text_stack cbs)"
proof -
  obtain r copy where p: "parse_base128_integer cbs = (r, copy)" by fastforce
  show ?thesis
  proof (cases r)
    case None
    have "oid_text_stack cbs = (\<lambda>_. None)"
      using p None by (simp add: oid_text_stack_def b128_numbers.simps [of cbs])
    then show ?thesis using p None op_fail_refines by (auto simp: CBS_asn1_oid_to_text_def)
  next
    case (Some v)
    have cbs: "b128_numbers cbs = map_option ((#) v) (b128_numbers copy)"
      using p Some parse_base128_integer_shorter [of cbs v copy] by (subst b128_numbers.simps) auto
    let ?k = "case b128_numbers copy of None \<Rightarrow> (\<lambda>_. None)
        | Some vs \<Rightarrow> stack_add 0 (concat (map (\<lambda>v. 0x2e # decimal (unat v)) vs) @ [0])"
    note r = cbb_refines_bind [OF oid_first_refines [OF ml, of v] oid_text_loop_refines [OF ml, of copy]]
    moreover have "(\<lambda>s. Option.bind (stack_add 0 (dotted (oid_split v)) s) ?k) = oid_text_stack cbs"
      unfolding oid_text_stack_def cbs
      by (cases "b128_numbers copy") (auto simp: stack_add_append oid_text [symmetric])
    ultimately show ?thesis using p Some by (auto simp: CBS_asn1_oid_to_text_def)
  qed
qed

lemma oid_text_stack_iff:
  "Option.bind (oid_text_stack cbs ([], [])) (stack_flush 0) = Some (txt, []) \<longleftrightarrow>
     (\<exists>ns. oid_ok ns \<and> cbs = oid_bytes ns \<and> txt = dotted ns @ [0])"
proof
  assume "Option.bind (oid_text_stack cbs ([], [])) (stack_flush 0) = Some (txt, [])"
  then obtain v vs where n: "b128_numbers cbs = Some (v # vs)" "txt = dotted (oid_split v @ map unat vs) @ [0]"
    by (auto simp: oid_text_stack_def stack_add_def stack_append_def split: option.splits list.splits)
  then have "cbs = oid_bytes (oid_split v @ map unat vs)" by (simp add: b128_numbers_iff oid_split_bytes)
  then show "\<exists>ns. oid_ok ns \<and> cbs = oid_bytes ns \<and> txt = dotted ns @ [0]" using n(2) oid_split_ok by blast
next
  assume "\<exists>ns. oid_ok ns \<and> cbs = oid_bytes ns \<and> txt = dotted ns @ [0]"
  then obtain ns where ns: "oid_ok ns" "cbs = oid_bytes ns" "txt = dotted ns @ [0]" by blast
  then obtain v and vs :: "u64 list" where s: "ns = oid_split v @ map unat vs" by (elim oid_bytes_split)
  then have "b128_numbers cbs = Some (v # vs)" using ns(2) by (simp add: b128_numbers_iff oid_split_bytes)
  then show "Option.bind (oid_text_stack cbs ([], [])) (stack_flush 0) = Some (txt, [])"
    using ns(3) s by (simp add: oid_text_stack_def stack_add_def stack_append_def)
qed

lemma CBS_asn1_oid_to_text_sound:
  assumes "malloc_ok ml" and "CBS_asn1_oid_to_text ml cbs = Some txt"
  shows "\<exists>ns. oid_ok ns \<and> cbs = oid_bytes ns \<and> txt = dotted ns @ [0]"
proof -
  obtain f where f: "CBS_asn1_oid_to_text ml cbs = cbb_session ml 32 f" "cbb_refines ml f (oid_text_stack cbs)"
    using oid_to_text_session [OF assms(1)] by blast
  note cbb_session_partial [OF assms(1) _ f(2), of 32 "txt"]
  then show ?thesis using f(1) assms(2) by (simp add: oid_text_stack_iff)
qed

lemma CBS_asn1_oid_to_text_complete:
  assumes "malloc_ok ml" and "malloc_total ml" and "oid_ok ns" and "length (dotted ns) < 2 ^ 60"
  shows "CBS_asn1_oid_to_text ml (oid_bytes ns) = Some (dotted ns @ [0])"
proof -
  obtain f where f: "CBS_asn1_oid_to_text ml (oid_bytes ns) = cbb_session ml 32 f"
      "cbb_refines ml f (oid_text_stack (oid_bytes ns))"
    using oid_to_text_session [OF assms(1)] by blast
  have "Option.bind (oid_text_stack (oid_bytes ns) ([], [])) (stack_flush 0) = Some (dotted ns @ [0], [])"
    unfolding oid_text_stack_iff using assms(3) by blast
  from cbb_session_total [OF assms(1,2) _ f(2) this, of 32] show ?thesis using f(1) assms(4) by simp
qed

section \<open>From the text to the encoding\<close>

lemma op_each_components:
  assumes "list_all (\<lambda>n. n < 2 ^ 64) ns"
  shows "oid_components ml d (dotted ns) = op_each (\<lambda>n. add_base128_integer ml d (of_nat n)) ns"
  using assms
proof (induction ns)
  case Nil
  show ?case by (rule ext) (simp add: oid_components.simps [of ml d "[]"] CBS_len_def op_ret_def)
next
  case (Cons n ns)
  have "0 < CBS_len (dotted (n # ns))" using dotted_nonempty [of "n # ns"] by (simp add: CBS_len_def del: dotted.simps)
  then have "oid_components ml d (dotted (n # ns)) =
      op_bind (add_base128_integer ml d (of_nat n)) (\<lambda>_. oid_components ml d (dotted ns))"
    using parse_dotted_decimal_dotted [of n ns] Cons.prems
    by (intro ext, subst oid_components.simps) (simp add: op_bind_def del: dotted.simps)
  then show ?case using Cons by simp
qed

lemma oid_from_text_refines:
  assumes ml: "malloc_ok ml" and ns: "oid_ok ns"
  shows "cbb_refines ml (CBB_add_asn1_oid_from_text ml d (dotted ns)) (stack_add d (oid_bytes ns))"
proof -
  obtain a b ms where n: "ns = a # b # ms" and ok: "a \<le> 2" "a < 2 \<longrightarrow> b < 40" "40 * a + b < 2 ^ 64" "list_all (\<lambda>n. n < 2 ^ 64) ms"
    using ns by (auto simp: oid_ok_def split: list.splits)
  define f where "f = (\<lambda>n :: nat. add_base128_integer ml d (of_nat n))"
  have b: "b < 2 ^ 64" "a < 2 ^ 64" using ok by linarith+
  have u: "unat (of_nat a :: u64) = a" "unat (of_nat b :: u64) = b"
    using b by (simp_all add: unat_of_nat)
  have run: "CBB_add_asn1_oid_from_text ml d (dotted ns) = op_bind (CBB_flush ml d) (\<lambda>_. op_each f ((40 * a + b) # ms))"
  proof -
    define A B :: u64 where "A = of_nat a" and "B = of_nat b"
    have AB: "unat A = a" "unat B = b" using u by (simp_all add: A_def B_def)
    have "\<not> (A > 2 \<or> (A < 2 \<and> B > 39) \<or> B > - 1 - 80)"
    proof -
      have "b \<le> 2 ^ 64 - 1 - 80" using ok(1-3) by (cases "a < 2") auto
      moreover have "unat (- 1 - 80 :: u64) = 2 ^ 64 - 1 - 80" by simp
      ultimately have "\<not> B > - 1 - 80" using AB by (simp only: word_less_nat_alt)
      moreover have "\<not> A > 2" "\<not> (A < 2 \<and> B > 39)" using ok AB by (auto simp: word_less_nat_alt)
      ultimately show ?thesis by blast
    qed
    moreover have "CBS_init (dotted ns) (length (dotted ns)) = dotted ns" by (simp add: CBS_init_def)
    moreover have "parse_dotted_decimal (dotted ns) = (Some A, dotted (b # ms))"
        "parse_dotted_decimal (dotted (b # ms)) = (Some B, dotted ms)"
      unfolding A_def B_def n using b by (simp_all only: parse_dotted_decimal_dotted)
    moreover have "add_base128_integer ml d (40 * A + B) = f (40 * a + b)" by (simp add: f_def A_def B_def)
    moreover have "oid_components ml d (dotted ms) = op_each f ms" unfolding f_def by (rule op_each_components [OF ok(4)])
    ultimately show ?thesis by (simp only: CBB_add_asn1_oid_from_text_def Let_def prod.case option.case if_False op_each.simps)
  qed
  have "cbb_refines ml (op_each f ((40 * a + b) # ms)) (stack_add d (concat (map b128_bytes ((40 * a + b) # ms))))"
  proof (rule op_each_refines)
    fix x assume "x \<in> set ((40 * a + b) # ms)"
    then have "x < 2 ^ 64" using ok(3,4) by (auto simp: list_all_iff)
    then have "unat (of_nat x :: u64) = x" by (simp add: unat_of_nat)
    then show "cbb_refines ml (f x) (stack_add d (b128_bytes x))"
      using add_base128_integer_refines [OF ml, of d "of_nat x"] by (simp add: f_def)
  qed simp
  from cbb_refines_flush_first [OF ml this] show ?thesis unfolding run by (simp add: n oid_bytes_def)
qed

lemma length_dotted: "oid_ok ns \<Longrightarrow> length (dotted ns) \<le> 22 * length (oid_bytes ns)"
proof -
  assume "oid_ok ns"
  then obtain a b ms where n: "ns = a # b # ms" and ok: "a \<le> 2" "b < 2 ^ 64" "list_all (\<lambda>n. n < 2 ^ 64) ms"
    by (auto simp: oid_ok_def split: list.splits)
  have dec: "length (decimal m) \<le> 20" if "m < 2 ^ 64" for m
    using length_decimal_u64 [of "of_nat m"] that by (simp add: unat_of_nat)
  have one: "0 < length (b128_bytes m)" for m by (simp add: b128_bytes_def)
  have "length (concat (map (\<lambda>m. 0x2e # decimal m) ms)) \<le> 21 * length (concat (map b128_bytes ms))"
    using ok(3)
  proof (induction ms)
    case Nil
    then show ?case by simp
  next
    case (Cons m ms)
    then have "length (decimal m) \<le> 20" using dec [of m] by simp
    then have "1 + length (decimal m) \<le> 21 * length (b128_bytes m)" using one [of m] by linarith
    then show ?case using Cons by simp
  qed
  moreover have "length (decimal a) \<le> 1" using ok(1) by (simp add: decimal.simps)
  moreover have "length (decimal a) + (1 + length (decimal b)) \<le> 22 * length (b128_bytes (40 * a + b))"
    using dec [OF ok(2)] one [of "40 * a + b"] calculation(2) by linarith
  ultimately show ?thesis by (simp add: n oid_bytes_def dotted_Cons)
qed

section \<open>Properties\<close>

text \<open>
  \<open>CBS_asn1_oid_to_text\<close> turns an encoding into its numbers with dots between them exactly
  when it is one (base-128 integers of 64 bits, the first for two numbers), and what it writes
  is read back by \<open>CBB_add_asn1_oid_from_text\<close> to the same encoding.
\<close>

theorem oid_text_roundtrip:
  assumes "malloc_ok ml" and "malloc_total ml" and "length cbs \<le> 2 ^ 55" and "n \<le> 2 ^ 60"
  shows "case CBS_asn1_oid_to_text ml cbs of
      None \<Rightarrow> \<nexists>ns. oid_ok ns \<and> cbs = oid_bytes ns
    | Some text \<Rightarrow> \<exists>ns. oid_ok ns \<and> cbs = oid_bytes ns \<and> text = dotted ns @ [0] \<and>
        cbb_session ml n (CBB_add_asn1_oid_from_text ml 0 (butlast text)) = Some cbs"
proof (cases "CBS_asn1_oid_to_text ml cbs")
  case None
  have False if ns: "oid_ok ns" "cbs = oid_bytes ns" for ns
  proof -
    have "length (dotted ns) \<le> 22 * length (oid_bytes ns)" by (rule length_dotted [OF ns(1)])
    then have "length (dotted ns) < 2 ^ 60" using ns(2) assms(3) by simp
    from CBS_asn1_oid_to_text_complete [OF assms(1,2) ns(1) this] show False using None ns(2) by simp
  qed
  then show ?thesis using None by auto
next
  case (Some str)
  then obtain ns where ns: "oid_ok ns" "cbs = oid_bytes ns" "str = dotted ns @ [0]"
    using CBS_asn1_oid_to_text_sound [OF assms(1)] by blast
  have "cbb_session ml n (CBB_add_asn1_oid_from_text ml 0 (dotted ns)) = Some (oid_bytes ns)"
    using ns(2) assms(3) by (intro cbb_session_add [OF assms(1,2,4) oid_from_text_refines [OF assms(1) ns(1)]]) simp
  then show ?thesis using Some ns by auto
qed

theorem oid_text_roundtrip_witness:
  "case CBS_asn1_oid_to_text zero_malloc [0x2a, 0x86, 0x48] of
      None \<Rightarrow> \<nexists>ns. oid_ok ns \<and> [0x2a, 0x86, 0x48] = oid_bytes ns
    | Some text \<Rightarrow> \<exists>ns. oid_ok ns \<and> [0x2a, 0x86, 0x48] = oid_bytes ns \<and> text = dotted ns @ [0] \<and>
        cbb_session zero_malloc 10 (CBB_add_asn1_oid_from_text zero_malloc 0 (butlast text)) = Some [0x2a, 0x86, 0x48]"
  by (rule oid_text_roundtrip) (simp_all add: malloc_total_def zero_malloc_def)

end
