(* ===== verification/Pb_Istream.thy ===== *)
theory Pb_Istream
  imports Codec
begin

text \<open>
  The input streams of \<open>nanopb/pb_decode.c\<close> and the decoders of single values: bytes,
  varints, tags, fixed-width numbers, substreams, and the skipping of unknown fields.  A
  stream has a callback with a state of its own and the number of bytes left; all
  operations are \<open>op\<close>s on the stream.  The error message is the first one that was set.
\<close>

section \<open>Streams\<close>

type_synonym 'st pb_read_callback = "nat \<Rightarrow> ('st, u8 list) op"

text \<open>
  \<open>is_buf_read\<close> tells whether the callback pointer is \<open>buf_read\<close>, which \<open>pb_read\<close> tests.
\<close>

record 'st pb_istream =
  is_callback :: "'st pb_read_callback"
  is_buf_read :: bool
  is_state :: 'st
  is_bytes_left :: nat
  is_errmsg :: "string option"

definition pb_set_error :: "string \<Rightarrow> 'st pb_istream \<Rightarrow> 'st pb_istream" where
  "pb_set_error msg s =
     s\<lparr>is_errmsg := (case is_errmsg s of None \<Rightarrow> Some msg | Some m \<Rightarrow> Some m)\<rparr>"

definition pb_return_error :: "string \<Rightarrow> ('st pb_istream, 'a) op" where
  "pb_return_error msg s = (None, pb_set_error msg s)"

text \<open>The state of \<open>buf_read\<close> is the memory from the read pointer on.\<close>

definition buf_read :: "u8 list pb_read_callback" where
  "buf_read count source = (Some (take count source), drop count source)"

definition pb_istream_from_buffer :: "u8 list \<Rightarrow> nat \<Rightarrow> u8 list pb_istream" where
  "pb_istream_from_buffer buf bufsize =
     \<lparr>is_callback = buf_read, is_buf_read = True, is_state = buf, is_bytes_left = bufsize,
      is_errmsg = None\<rparr>"

definition pb_call :: "nat \<Rightarrow> ('st pb_istream, u8 list) op" where
  "pb_call count s =
     (case is_callback s count (is_state s) of
        (None, st) \<Rightarrow> pb_return_error ''io error'' (s\<lparr>is_state := st\<rparr>)
      | (Some bs, st) \<Rightarrow> (Some bs, s\<lparr>is_state := st, is_bytes_left := is_bytes_left s - count\<rparr>))"

text \<open>\<open>pb_read\<close> with a buffer.\<close>

definition pb_read_buf :: "nat \<Rightarrow> ('st pb_istream, u8 list) op" where
  "pb_read_buf count s =
     (if count = 0 then (Some [], s)
      else if is_bytes_left s < count then pb_return_error ''end-of-stream'' s
      else pb_call count s)"

text \<open>\<open>pb_read\<close> with \<open>NULL\<close>: streams other than buffers are skipped in blocks of 16.\<close>

fun pb_skip_blocks :: "nat \<Rightarrow> ('st pb_istream, unit) op" where
  "pb_skip_blocks count =
     (if count > 16 then op_bind (pb_read_buf 16) (\<lambda>_. pb_skip_blocks (count - 16))
      else op_bind (pb_read_buf count) (\<lambda>_. op_ret ()))"

declare pb_skip_blocks.simps [simp del]

definition pb_read_null :: "nat \<Rightarrow> ('st pb_istream, unit) op" where
  "pb_read_null count s =
     (if count = 0 then (Some (), s)
      else if \<not> is_buf_read s then pb_skip_blocks count s
      else op_bind (pb_read_buf count) (\<lambda>_. op_ret ()) s)"

definition pb_readbyte :: "('st pb_istream, u8) op" where
  "pb_readbyte s =
     (if is_bytes_left s = 0 then pb_return_error ''end-of-stream'' s
      else op_bind (pb_call 1) (\<lambda>bs. op_ret (hd bs)) s)"

lemma pb_readbyte_left: "pb_readbyte s = (Some b, s') \<Longrightarrow> is_bytes_left s' < is_bytes_left s"
  by (auto simp: pb_readbyte_def pb_call_def pb_return_error_def op_bind_def op_ret_def
      split: if_splits prod.splits option.splits)

section \<open>Varints\<close>

text \<open>
  The loop of \<open>pb_decode_varint32_eof\<close>, from the second byte on.  \<open>bitpos\<close> is a
  \<open>uint_fast8_t\<close> of 8 bits, so it wraps around.  The result has the last byte and the last
  \<open>bitpos\<close> for the final check.
\<close>

function pb_varint32_loop :: "u32 \<Rightarrow> u8 \<Rightarrow> ('st pb_istream, u32 \<times> u8 \<times> u8) op" where
  "pb_varint32_loop result bitpos s =
     (case pb_readbyte s of
        (None, s) \<Rightarrow> (None, s)
      | (Some byte, s) \<Rightarrow>
          let sign_extension = (if bitpos < 63 then 0xff else 0x01) in
          if bitpos \<ge> 32 \<and> byte AND 0x7f \<noteq> 0 \<and>
             (drop_bit 31 result = 0 \<or> byte \<noteq> sign_extension)
          then pb_return_error ''varint overflow'' s
          else
            let result = (if bitpos \<ge> 32 then result
                          else result OR push_bit (unat bitpos) (ucast (byte AND 0x7f)));
                bitpos = bitpos + 7
            in if byte AND 0x80 \<noteq> 0 then pb_varint32_loop result bitpos s
               else (Some (result, byte, bitpos), s))"
  by pat_completeness auto
termination
  by (relation "measure (\<lambda>(result, bitpos, s). is_bytes_left s)")
    (auto dest!: pb_readbyte_left [OF sym])

declare pb_varint32_loop.simps [simp del]

text \<open>The second result is \<open>*eof\<close>, which is set when there was no first byte.\<close>

definition pb_decode_varint32_eof :: "'st pb_istream \<Rightarrow> u32 option \<times> bool \<times> 'st pb_istream" where
  "pb_decode_varint32_eof s =
     (case pb_readbyte s of
        (None, s) \<Rightarrow> (None, is_bytes_left s = 0, s)
      | (Some byte, s) \<Rightarrow>
          if byte AND 0x80 = 0 then (Some (ucast byte), False, s)
          else
            (case pb_varint32_loop (ucast (byte AND 0x7f)) 7 s of
               (None, s) \<Rightarrow> (None, False, s)
             | (Some (result, byte, bitpos), s) \<Rightarrow>
                 if bitpos = 35 \<and> byte AND 0x70 \<noteq> 0
                 then (None, False, pb_set_error ''varint overflow'' s)
                 else (Some result, False, s)))"

definition pb_decode_varint32 :: "('st pb_istream, u32) op" where
  "pb_decode_varint32 s = (case pb_decode_varint32_eof s of (r, eof, s) \<Rightarrow> (r, s))"

function pb_varint_loop :: "u64 \<Rightarrow> u8 \<Rightarrow> ('st pb_istream, u64) op" where
  "pb_varint_loop result bitpos s =
     (if bitpos \<ge> 64 then pb_return_error ''varint overflow'' s
      else
        (case pb_readbyte s of
           (None, s) \<Rightarrow> (None, s)
         | (Some byte, s) \<Rightarrow>
             let result = result OR push_bit (unat bitpos) (ucast (byte AND 0x7f));
                 bitpos = bitpos + 7
             in if byte AND 0x80 \<noteq> 0 then pb_varint_loop result bitpos s
                else (Some result, s)))"
  by pat_completeness auto
termination
  by (relation "measure (\<lambda>(result, bitpos, s). is_bytes_left s)")
    (auto dest!: pb_readbyte_left [OF sym])

declare pb_varint_loop.simps [simp del]

definition pb_decode_varint :: "('st pb_istream, u64) op" where
  "pb_decode_varint = pb_varint_loop 0 0"

definition pb_decode_svarint :: "('st pb_istream, u64) op" where
  "pb_decode_svarint =
     op_bind pb_decode_varint (\<lambda>value.
       op_ret (if value AND 1 \<noteq> 0 then NOT (drop_bit 1 value) else drop_bit 1 value))"

definition pb_decode_bool :: "('st pb_istream, bool) op" where
  "pb_decode_bool = op_bind pb_decode_varint32 (\<lambda>value. op_ret (value \<noteq> 0))"

definition pb_decode_fixed32 :: "('st pb_istream, u32) op" where
  "pb_decode_fixed32 =
     op_bind (pb_read_buf 4) (\<lambda>bytes.
       op_ret (ucast (bytes ! 0) OR push_bit 8 (ucast (bytes ! 1)) OR
         push_bit 16 (ucast (bytes ! 2)) OR push_bit 24 (ucast (bytes ! 3))))"

definition pb_decode_fixed64 :: "('st pb_istream, u64) op" where
  "pb_decode_fixed64 =
     op_bind (pb_read_buf 8) (\<lambda>bytes.
       op_ret (ucast (bytes ! 0) OR push_bit 8 (ucast (bytes ! 1)) OR
         push_bit 16 (ucast (bytes ! 2)) OR push_bit 24 (ucast (bytes ! 3)) OR
         push_bit 32 (ucast (bytes ! 4)) OR push_bit 40 (ucast (bytes ! 5)) OR
         push_bit 48 (ucast (bytes ! 6)) OR push_bit 56 (ucast (bytes ! 7))))"

text \<open>
  The loop reads one byte with \<open>pb_read\<close> in each turn; with a count of 1 this needs a byte
  left, so it ends.
\<close>

function pb_skip_varint :: "('st pb_istream, unit) op" where
  "pb_skip_varint s =
     (case pb_read_buf 1 s of
        (None, s) \<Rightarrow> (None, s)
      | (Some bs, s) \<Rightarrow> if hd bs AND 0x80 \<noteq> 0 then pb_skip_varint s else (Some (), s))"
  by pat_completeness auto
termination
  by (relation "measure is_bytes_left")
    (auto simp: pb_read_buf_def pb_call_def pb_return_error_def split: if_splits prod.splits option.splits)

declare pb_skip_varint.simps [simp del]

section \<open>Fields\<close>

definition PB_WT_VARINT :: u32 where "PB_WT_VARINT = 0"
definition PB_WT_64BIT :: u32 where "PB_WT_64BIT = 1"
definition PB_WT_STRING :: u32 where "PB_WT_STRING = 2"
definition PB_WT_32BIT :: u32 where "PB_WT_32BIT = 5"

definition pb_skip_string :: "('st pb_istream, unit) op" where
  "pb_skip_string = op_bind pb_decode_varint32 (\<lambda>length. pb_read_null (unat length))"

text \<open>The result is the wire type and the tag, if they could be read, and \<open>*eof\<close>.\<close>

definition pb_decode_tag :: "'st pb_istream \<Rightarrow> (u32 \<times> u32) option \<times> bool \<times> 'st pb_istream" where
  "pb_decode_tag s =
     (case pb_decode_varint32_eof s of
        (None, eof, s) \<Rightarrow> (None, eof, s)
      | (Some temp, eof, s) \<Rightarrow>
          if temp = 0 then (None, True, s)
          else (Some (temp AND 7, drop_bit 3 temp), eof, s))"

definition pb_skip_field :: "u32 \<Rightarrow> ('st pb_istream, unit) op" where
  "pb_skip_field wire_type =
     (if wire_type = PB_WT_VARINT then pb_skip_varint
      else if wire_type = PB_WT_64BIT then pb_read_null 8
      else if wire_type = PB_WT_STRING then pb_skip_string
      else if wire_type = PB_WT_32BIT then pb_read_null 4
      else pb_return_error ''invalid wire_type'')"

fun pb_read_raw_varint :: "nat \<Rightarrow> ('st pb_istream, u8 list) op" where
  "pb_read_raw_varint 0 = op_fail"
| "pb_read_raw_varint (Suc n) =
     op_bind (pb_read_buf 1) (\<lambda>bs.
       if hd bs AND 0x80 \<noteq> 0
       then op_bind (pb_read_raw_varint n) (\<lambda>rest. op_ret (hd bs # rest))
       else op_ret [hd bs])"

definition read_raw_value :: "u32 \<Rightarrow> nat \<Rightarrow> ('st pb_istream, u8 list) op" where
  "read_raw_value wire_type max_size =
     (if wire_type = PB_WT_VARINT then pb_read_raw_varint max_size
      else if wire_type = PB_WT_64BIT then pb_read_buf 8
      else if wire_type = PB_WT_32BIT then pb_read_buf 4
      else pb_return_error ''invalid wire_type'')"

text \<open>The result is the substream; the parent stream keeps its state until it is closed.\<close>

definition pb_make_string_substream :: "('st pb_istream, 'st pb_istream) op" where
  "pb_make_string_substream =
     op_bind pb_decode_varint32 (\<lambda>size s.
       let substream = s in
       if is_bytes_left substream < unat size then pb_return_error ''parent stream too short'' s
       else (Some (substream\<lparr>is_bytes_left := unat size\<rparr>),
             s\<lparr>is_bytes_left := is_bytes_left s - unat size\<rparr>))"

definition pb_close_string_substream ::
    "'st pb_istream \<Rightarrow> ('st pb_istream, unit) op"
where
  "pb_close_string_substream substream s =
     (case (if is_bytes_left substream \<noteq> 0
            then pb_read_null (is_bytes_left substream) substream
            else (Some (), substream))
      of (None, substream) \<Rightarrow> (None, s)
       | (Some _, substream) \<Rightarrow>
           (Some (), s\<lparr>is_state := is_state substream, is_errmsg := is_errmsg substream\<rparr>))"

section \<open>Varints as numbers\<close>

fun varint_value :: "u8 list \<Rightarrow> nat" where
  "varint_value [] = 0"
| "varint_value (b # bs) = unat b mod 128 + 128 * varint_value bs"

text \<open>A varint is a number of bytes with the top bit set and a last one without.\<close>

definition varint_form :: "u8 list \<Rightarrow> bool" where
  "varint_form bs \<longleftrightarrow> bs \<noteq> [] \<and> list_all (\<lambda>b. 128 \<le> unat b) (butlast bs) \<and> unat (last bs) < 128"

fun varint_bytes :: "nat \<Rightarrow> u8 list" where
  "varint_bytes v = (if v < 128 then [of_nat v] else of_nat (128 + v mod 128) # varint_bytes (v div 128))"

declare varint_bytes.simps [simp del]

lemma varint_form_Cons:
  "varint_form (b # bs) \<longleftrightarrow> (if bs = [] then unat b < 128 else 128 \<le> unat b \<and> varint_form bs)"
  by (simp add: varint_form_def)

lemma varint_form_ne: "varint_form bs \<Longrightarrow> bs \<noteq> []"
  by (simp add: varint_form_def)

lemma varint_bytes_ne [simp]: "varint_bytes v \<noteq> []"
  by (subst varint_bytes.simps) simp

lemma varint_bytes_form: "varint_form (varint_bytes v)"
proof (induction v rule: varint_bytes.induct)
  case (1 v)
  show ?case
  proof (cases "v < 128")
    case True
    then show ?thesis by (subst varint_bytes.simps) (simp add: varint_form_Cons unat_of_nat_u8)
  next
    case False
    have "unat (of_nat (128 + v mod 128) :: u8) = 128 + v mod 128"
      unfolding unat_of_nat_u8 by simp
    then show ?thesis
      using False 1 by (subst varint_bytes.simps) (simp add: varint_form_Cons del: of_nat_add)
  qed
qed

lemma varint_value_bytes [simp]: "varint_value (varint_bytes v) = v"
proof (induction v rule: varint_bytes.induct)
  case (1 v)
  show ?case
  proof (cases "v < 128")
    case True
    then show ?thesis by (subst varint_bytes.simps) (simp add: unat_of_nat_u8)
  next
    case False
    have "unat (of_nat (128 + v mod 128) :: u8) mod 128 = v mod 128"
      unfolding unat_of_nat_u8 by (simp add: mod_mod_cancel)
    then show ?thesis
      using False 1 by (subst varint_bytes.simps) (simp del: of_nat_add)
  qed
qed

lemma length_varint_bytes: "0 < n \<Longrightarrow> v < 128 ^ n \<Longrightarrow> length (varint_bytes v) \<le> n"
proof (induction n arbitrary: v)
  case 0
  then show ?case by simp
next
  case (Suc n)
  show ?case
  proof (cases "v < 128")
    case True
    then show ?thesis by (subst varint_bytes.simps) simp
  next
    case False
    have "v div 128 < 128 ^ n" using Suc.prems(2) by (simp add: div_less_iff_less_mult mult.commute)
    moreover from this have "0 < n" using False by (cases n) auto
    ultimately show ?thesis using Suc.IH [of "v div 128"] False by (subst varint_bytes.simps) simp
  qed
qed

lemma length_varint_bytes_u64: "length (varint_bytes (unat (v :: u64))) \<le> 10"
proof -
  have "unat v < 128 ^ 10" using unat_u64_less [of v] by simp
  then show ?thesis by (intro length_varint_bytes) simp_all
qed

lemma varint_value_bound: "varint_value bs < 128 ^ length bs"
proof (induction bs)
  case Nil
  show ?case by simp
next
  case (Cons b bs)
  have "unat b mod 128 + 128 * varint_value bs < 128 * (varint_value bs + 1)" by simp
  also have "\<dots> \<le> 128 * 128 ^ length bs" using Cons by (intro mult_left_mono) simp_all
  finally show ?case by simp
qed

section \<open>Callbacks that deliver a byte string\<close>

text \<open>
  The stream \<open>s\<close> is limited to the bytes \<open>bs\<close>, which \<open>tail\<close> follows in the data its
  callback reads; \<open>e\<close> is its error message.
\<close>

definition pb_at ::
    "'st pb_read_callback \<Rightarrow> ('st \<Rightarrow> u8 list) \<Rightarrow> string option \<Rightarrow> 'st pb_istream \<Rightarrow>
     u8 list \<Rightarrow> u8 list \<Rightarrow> bool"
where
  "pb_at cb contents e s bs tail \<longleftrightarrow>
     is_callback s = cb \<and> is_bytes_left s = length bs \<and> contents (is_state s) = bs @ tail \<and>
     is_errmsg s = e"

text \<open>
  The contract of a read callback: asked for at most as many bytes as its data has, it
  delivers them and advances.
\<close>

locale read_callback =
  fixes cb :: "'st pb_read_callback" and contents :: "'st \<Rightarrow> u8 list"
  assumes cb_reads: "n \<le> length (contents st) \<Longrightarrow>
    \<exists>st'. cb n st = (Some (take n (contents st)), st') \<and> contents st' = drop n (contents st)"
begin

lemma call_at:
  assumes "pb_at cb contents e s (xs @ bs) tail"
  shows "\<exists>s'. pb_call (length xs) s = (Some xs, s') \<and> pb_at cb contents e s' bs tail"
proof -
  have c: "contents (is_state s) = xs @ bs @ tail" using assms by (simp add: pb_at_def)
  then obtain st where "cb (length xs) (is_state s) = (Some xs, st)" "contents st = bs @ tail"
    using cb_reads [of "length xs" "is_state s"] by auto
  then show ?thesis using assms by (simp add: pb_call_def pb_at_def)
qed

lemma read_buf_at:
  assumes "pb_at cb contents e s (xs @ bs) tail"
  shows "\<exists>s'. pb_read_buf (length xs) s = (Some xs, s') \<and> pb_at cb contents e s' bs tail"
  using call_at [OF assms] assms by (auto simp: pb_read_buf_def pb_at_def)

lemma read_buf_short:
  assumes "pb_at cb contents e s bs tail" and "length bs < n"
  shows "pb_read_buf n s = (None, pb_set_error ''end-of-stream'' s)"
  using assms by (simp add: pb_read_buf_def pb_at_def pb_return_error_def)

lemma readbyte_at:
  assumes "pb_at cb contents e s (b # bs) tail"
  shows "\<exists>s'. pb_readbyte s = (Some b, s') \<and> pb_at cb contents e s' bs tail"
proof -
  obtain s' where "pb_call 1 s = (Some [b], s')" "pb_at cb contents e s' bs tail"
    using call_at [of e s "[b]" bs tail] assms by auto
  then show ?thesis using assms by (auto simp: pb_readbyte_def pb_at_def op_bind_Some op_ret_def)
qed

lemma readbyte_end:
  "pb_at cb contents e s [] tail \<Longrightarrow> pb_readbyte s = (None, pb_set_error ''end-of-stream'' s)"
  by (simp add: pb_readbyte_def pb_at_def pb_return_error_def)

lemma skip_blocks_at:
  "pb_at cb contents e s (xs @ bs) tail \<Longrightarrow>
     \<exists>s'. pb_skip_blocks (length xs) s = (Some (), s') \<and> pb_at cb contents e s' bs tail"
proof (induction "length xs" arbitrary: xs s rule: less_induct)
  case less
  show ?case
  proof (cases "length xs > 16")
    case True
    have "pb_at cb contents e s (take 16 xs @ drop 16 xs @ bs) tail"
      using less.prems by (simp add: append_assoc [symmetric] del: append_assoc)
    then obtain s1 where s1: "pb_read_buf 16 s = (Some (take 16 xs), s1)"
        "pb_at cb contents e s1 (drop 16 xs @ bs) tail"
      using read_buf_at [of e s "take 16 xs" "drop 16 xs @ bs" tail] True by auto
    then show ?thesis
      using less.hyps [of "drop 16 xs" s1] True
      by (subst pb_skip_blocks.simps) (simp add: op_bind_Some)
  next
    case False
    then show ?thesis
      using read_buf_at [OF less.prems]
      by (subst pb_skip_blocks.simps) (auto simp: op_bind_Some op_ret_def)
  qed
qed

lemma read_null_at:
  assumes "pb_at cb contents e s (xs @ bs) tail"
  shows "\<exists>s'. pb_read_null (length xs) s = (Some (), s') \<and> pb_at cb contents e s' bs tail"
  using skip_blocks_at [OF assms] read_buf_at [OF assms] assms
  by (auto simp: pb_read_null_def op_bind_Some op_ret_def)

end

interpretation buffer: read_callback buf_read "\<lambda>st. st"
  by unfold_locales (simp add: buf_read_def)

lemma pb_at_from_buffer:
  "pb_at buf_read (\<lambda>st. st) None (pb_istream_from_buffer (bs @ tail) (length bs)) bs tail"
  by (simp add: pb_at_def pb_istream_from_buffer_def)

section \<open>Reading varints\<close>

lemma unat_low7: "unat (ucast ((b :: u8) AND 0x7f) :: 'a::len word) = unat b mod 128"
  if "8 \<le> LENGTH('a)"
  using that mask_7_u8 [of b] by simp

lemma or_push_bit_add:
  fixes r x :: "'a::len word"
  assumes "unat r < 2 ^ n"
  shows "r OR push_bit n x = r + of_nat (unat x * 2 ^ n)"
proof -
  have "r = take_bit n r"
    using assms by (simp add: word_unat_eq_iff unsigned_take_bit_eq take_bit_nat_eq_self)
  then have "r AND push_bit n x = take_bit n r AND push_bit n x" by simp
  also have "\<dots> = 0" by (rule bit_word_eqI) (auto simp: bit_simps)
  finally have "r OR push_bit n x = r + push_bit n x" by (simp add: disjunctive_add_eq_or)
  then show ?thesis by (simp add: push_bit_eq_mult)
qed

lemma unat_bitpos: "k \<le> 10 \<Longrightarrow> unat (of_nat (7 * k) :: u8) = 7 * k"
  unfolding unat_of_nat_u8 by simp

lemma top_bit_iff: "(b :: u8) AND 0x80 \<noteq> 0 \<longleftrightarrow> 128 \<le> unat b"
  using top_bit_u8 [of b] by auto

lemma unat_35: "unat (35 :: u8) = 35"
  by simp

lemma and_0x70: "unat (b :: u8) < 16 \<Longrightarrow> b AND 0x70 = 0"
proof -
  assume "unat b < 16"
  then have "b = take_bit 4 b"
    by (simp add: word_unat_eq_iff unsigned_take_bit_eq take_bit_nat_eq_self)
  moreover have "(0x70 :: u8) = push_bit 4 7" by simp
  ultimately have "b AND 0x70 = take_bit 4 b AND push_bit 4 7" by argo
  moreover have "take_bit 4 b AND push_bit 4 c = 0" for c :: u8
    by (rule bit_word_eqI) (auto simp: bit_simps)
  ultimately show ?thesis by metis
qed

lemma varint_value_butlast:
  "bs \<noteq> [] \<Longrightarrow> varint_value bs =
     varint_value (butlast bs) + unat (last bs) mod 128 * 128 ^ (length bs - 1)"
proof (induction bs)
  case Nil
  then show ?case by simp
next
  case (Cons b bs)
  then show ?case by (cases bs) (simp_all add: algebra_simps)
qed

lemma u8_split: "(b :: u8) = (b AND mask 4) OR (b AND 0x70) OR (b AND 0x80)"
proof -
  have "(b AND mask 4) OR (b AND 0x70) OR (b AND 0x80) = b AND (mask 4 OR 0x70 OR 0x80)"
    by (simp only: bit.conj_disj_distrib or.assoc)
  moreover have "(mask 4 OR 0x70 OR 0x80 :: u8) = - 1" by (simp add: mask_eq_exp_minus_1)
  ultimately show ?thesis by simp
qed

lemma varint_value_last:
  "bs \<noteq> [] \<Longrightarrow> unat (last bs) mod 128 * 128 ^ (length bs - 1) \<le> varint_value bs"
proof (induction bs)
  case Nil
  then show ?case by simp
next
  case (Cons b bs)
  show ?case
  proof (cases "bs = []")
    case False
    then have "128 * (unat (last bs) mod 128 * 128 ^ (length bs - 1)) \<le> 128 * varint_value bs"
      using Cons by simp
    moreover have "128 ^ length bs = 128 * (128 :: nat) ^ (length bs - 1)"
      using False by (cases bs) simp_all
    ultimately show ?thesis using False by simp
  qed simp
qed

context read_callback
begin

text \<open>The 64-bit loop, \<open>k\<close> bytes into the varint: further bytes are added at their place.\<close>

lemma varint_loop_at:
  "varint_form bs \<Longrightarrow> k + length bs \<le> 10 \<Longrightarrow> unat r < 2 ^ (7 * k) \<Longrightarrow>
     pb_at cb contents e s (bs @ rest) tail \<Longrightarrow>
   \<exists>s'. pb_varint_loop r (of_nat (7 * k)) s = (Some (r + of_nat (varint_value bs * 2 ^ (7 * k))), s') \<and>
     pb_at cb contents e s' rest tail"
proof (induction bs arbitrary: k r s)
  case Nil
  then show ?case by (simp add: varint_form_def)
next
  case (Cons b bs)
  have k: "k \<le> 9" using Cons.prems(2) by simp
  then have bp: "unat (of_nat (7 * k) :: u8) = 7 * k" by (intro unat_bitpos) simp
  have small: "\<not> (of_nat (7 * k) :: u8) \<ge> 64" using k bp by (simp add: word_le_nat_alt)
  obtain s1 where s1: "pb_readbyte s = (Some b, s1)" "pb_at cb contents e s1 (bs @ rest) tail"
    using readbyte_at [of e s b "bs @ rest" tail] Cons.prems(4) by auto
  define r' where "r' = r + of_nat (unat b mod 128 * 2 ^ (7 * k))"
  have r': "r OR push_bit (unat (of_nat (7 * k) :: u8)) (ucast (b AND 0x7f)) = r'"
    unfolding bp or_push_bit_add [OF Cons.prems(3)] r'_def
    by (simp only: unat_low7 len_num1 len_bit0)
  have bp': "of_nat (7 * k) + 7 = (of_nat (7 * Suc k) :: u8)" by simp
  have step: "pb_varint_loop r (of_nat (7 * k)) s =
      (if 128 \<le> unat b then pb_varint_loop r' (of_nat (7 * Suc k)) s1 else (Some r', s1))"
    using small s1(1)
    by (subst pb_varint_loop.simps) (simp only: r' bp' Let_def option.case prod.case top_bit_iff if_False)
  show ?case
  proof (cases "bs = []")
    case True
    then have "unat b < 128" using Cons.prems(1) by (simp add: varint_form_Cons)
    then show ?thesis using step s1 True by (auto simp: r'_def)
  next
    case False
    then have form: "128 \<le> unat b" "varint_form bs" using Cons.prems(1) by (simp_all add: varint_form_Cons)
    have "unat r' < 2 ^ (7 * Suc k)"
    proof (cases "k = 9")
      case True
      then show ?thesis using unat_u64_less [of r'] by (simp add: order.strict_trans2)
    next
      case k8: False
      have "unat r + unat b mod 128 * 2 ^ (7 * k) < (unat b mod 128 + 1) * 2 ^ (7 * k)"
        using Cons.prems(3) by simp
      also have "\<dots> \<le> 128 * 2 ^ (7 * k)" by (intro mult_right_mono) (simp_all add: Suc_le_eq)
      finally have n: "unat r + unat b mod 128 * 2 ^ (7 * k) < 2 ^ (7 * Suc k)" by (simp add: power_add)
      also have "\<dots> \<le> 2 ^ 64" using k k8 by (intro power_increasing) simp_all
      finally have "unat r + unat b mod 128 * 2 ^ (7 * k) < 2 ^ 64" .
      then have "unat (of_nat (unat r + unat b mod 128 * 2 ^ (7 * k)) :: u64) =
          unat r + unat b mod 128 * 2 ^ (7 * k)" unfolding unat_of_nat by simp
      moreover have "r' = of_nat (unat r + unat b mod 128 * 2 ^ (7 * k))" by (simp add: r'_def)
      ultimately show ?thesis using n by simp
    qed
    then obtain s' where "pb_varint_loop r' (of_nat (7 * Suc k)) s1 =
        (Some (r' + of_nat (varint_value bs * 2 ^ (7 * Suc k))), s')" "pb_at cb contents e s' rest tail"
      using Cons.IH [OF form(2), of "Suc k" r' s1] Cons.prems(2) s1(2) by auto
    moreover have "r' + of_nat (varint_value bs * 2 ^ (7 * Suc k)) =
        r + of_nat (varint_value (b # bs) * 2 ^ (7 * k))"
      by (simp add: r'_def power_add algebra_simps)
    ultimately show ?thesis using step form(1) by simp
  qed
qed

lemma decode_varint_at:
  assumes "varint_form bs" and "length bs \<le> 10" and "pb_at cb contents e s (bs @ rest) tail"
  shows "\<exists>s'. pb_decode_varint s = (Some (of_nat (varint_value bs)), s') \<and> pb_at cb contents e s' rest tail"
  using varint_loop_at [of bs 0 0 e s rest tail] assms by (simp add: pb_decode_varint_def)

text \<open>
  The 32-bit loop.  While the number that is read fits into 32 bits, the bytes beyond them
  contribute nothing and pass the overflow check.
\<close>

lemma varint32_loop_at:
  "varint_form bs \<Longrightarrow> 0 < k \<Longrightarrow> k + length bs \<le> 10 \<Longrightarrow> k < 5 \<longrightarrow> unat r < 2 ^ (7 * k) \<Longrightarrow>
     unat r + varint_value bs * 2 ^ (7 * k) < 2 ^ 32 \<Longrightarrow> pb_at cb contents e s (bs @ rest) tail \<Longrightarrow>
   \<exists>s'. pb_varint32_loop r (of_nat (7 * k)) s =
       (Some (of_nat (unat r + varint_value bs * 2 ^ (7 * k)), last bs, of_nat (7 * (k + length bs))), s') \<and>
     pb_at cb contents e s' rest tail"
proof (induction bs arbitrary: k r s)
  case Nil
  then show ?case by (simp add: varint_form_def)
next
  case (Cons b bs)
  have k: "k \<le> 9" using Cons.prems(3) by simp
  then have bp: "unat (of_nat (7 * k) :: u8) = 7 * k" by (intro unat_bitpos) simp
  have big: "(of_nat (7 * k) :: u8) \<ge> 32 \<longleftrightarrow> 5 \<le> k" using bp by (auto simp: word_le_nat_alt)
  obtain s1 where s1: "pb_readbyte s = (Some b, s1)" "pb_at cb contents e s1 (bs @ rest) tail"
    using readbyte_at [of e s b "bs @ rest" tail] Cons.prems(6) by auto
  define r' where "r' = (of_nat (unat r + unat b mod 128 * 2 ^ (7 * k)) :: u32)"
  have "unat b mod 128 * 2 ^ (7 * k) \<le> varint_value (b # bs) * 2 ^ (7 * k)"
    by (intro mult_right_mono) simp_all
  with Cons.prems(5) have fits: "unat r + unat b mod 128 * 2 ^ (7 * k) < 2 ^ 32" by linarith
  then have ur': "unat r' = unat r + unat b mod 128 * 2 ^ (7 * k)"
    unfolding r'_def unat_of_nat by simp
  have late: "unat b mod 128 = 0" if "5 \<le> k"
  proof (rule ccontr)
    assume "unat b mod 128 \<noteq> 0"
    then have "1 * 2 ^ 35 \<le> unat b mod 128 * 2 ^ (7 * k)"
      using that by (intro mult_mono power_increasing) simp_all
    with fits show False by simp
  qed
  have r': "(if 32 \<le> (of_nat (7 * k) :: u8) then r
      else r OR push_bit (unat (of_nat (7 * k) :: u8)) (ucast (b AND 0x7f))) = r'"
  proof (cases "5 \<le> k")
    case True
    then show ?thesis using late big by (simp add: r'_def)
  next
    case False
    then have "unat r < 2 ^ (7 * k)" using Cons.prems(4) by simp
    from or_push_bit_add [OF this, of "ucast (b AND 0x7f)"]
    have "r OR push_bit (7 * k) (ucast (b AND 0x7f)) = r'"
      by (simp only: unat_low7 r'_def len_num1 len_bit0 of_nat_add of_nat_unat ucast_id)
    then show ?thesis using False big bp by simp
  qed
  have seven: "(b AND 0x7f = 0) \<longleftrightarrow> unat b mod 128 = 0"
    using mask_7_u8 [of b] by (simp add: word_unat_eq_iff)
  have ok: "\<not> (32 \<le> (of_nat (7 * k) :: u8) \<and> b AND 0x7f \<noteq> 0 \<and> p)" for p
    using late big seven by auto
  have bp': "of_nat (7 * k) + 7 = (of_nat (7 * Suc k) :: u8)" by simp
  have step: "pb_varint32_loop r (of_nat (7 * k)) s =
      (if 128 \<le> unat b then pb_varint32_loop r' (of_nat (7 * Suc k)) s1
       else (Some (r', b, of_nat (7 * Suc k)), s1))"
    using s1(1) ok
    by (subst pb_varint32_loop.simps)
      (simp only: r' bp' Let_def option.case prod.case top_bit_iff if_False)
  show ?case
  proof (cases "bs = []")
    case True
    then have "unat b < 128" using Cons.prems(1) by (simp add: varint_form_Cons)
    then show ?thesis using step s1 True by (auto simp: r'_def)
  next
    case False
    then have form: "128 \<le> unat b" "varint_form bs" using Cons.prems(1) by (simp_all add: varint_form_Cons)
    have small: "Suc k < 5 \<longrightarrow> unat r' < 2 ^ (7 * Suc k)"
    proof
      assume "Suc k < 5"
      then have "unat r + unat b mod 128 * 2 ^ (7 * k) < (unat b mod 128 + 1) * 2 ^ (7 * k)"
        using Cons.prems(4) by simp
      also have "\<dots> \<le> 128 * 2 ^ (7 * k)" by (intro mult_right_mono) (simp_all add: Suc_le_eq)
      finally show "unat r' < 2 ^ (7 * Suc k)" using ur' by (simp add: power_add)
    qed
    have sum: "unat r' + varint_value bs * 2 ^ (7 * Suc k) = unat r + varint_value (b # bs) * 2 ^ (7 * k)"
      by (simp add: ur' power_add algebra_simps)
    have "\<exists>s'. pb_varint32_loop r' (of_nat (7 * Suc k)) s1 =
        (Some (of_nat (unat r' + varint_value bs * 2 ^ (7 * Suc k)), last bs,
          of_nat (7 * (Suc k + length bs))), s') \<and> pb_at cb contents e s' rest tail"
      using Cons.prems(3,5) small sum by (intro Cons.IH [OF form(2) _ _ _ _ s1(2)]) simp_all
    moreover have "Suc k + length bs = k + length (b # bs)" "last (b # bs) = last bs"
      using False by simp_all
    ultimately show ?thesis unfolding step sum using form(1) by simp
  qed
qed

lemma decode_varint32_at:
  assumes bs: "varint_form bs" "length bs \<le> 10" "varint_value bs < 2 ^ 32"
    and s: "pb_at cb contents e s (bs @ rest) tail"
  shows "\<exists>s'. pb_decode_varint32_eof s = (Some (of_nat (varint_value bs)), False, s') \<and>
    pb_at cb contents e s' rest tail"
proof -
  obtain b cs where b: "bs = b # cs" using varint_form_ne [OF bs(1)] by (cases bs) auto
  obtain s1 where s1: "pb_readbyte s = (Some b, s1)" "pb_at cb contents e s1 (cs @ rest) tail"
    using readbyte_at [of e s b "cs @ rest" tail] s b by auto
  show ?thesis
  proof (cases "cs = []")
    case True
    then have "unat b < 128" using bs(1) b by (simp add: varint_form_Cons)
    moreover from this have "(ucast b :: u32) = of_nat (unat b mod 128)" by (simp add: word_unat_eq_iff)
    ultimately show ?thesis
      using s1 True b top_bit_u8 [of b] by (auto simp: pb_decode_varint32_eof_def)
  next
    case False
    then have form: "128 \<le> unat b" "varint_form cs" using bs(1) b by (simp_all add: varint_form_Cons)
    have u: "unat (ucast (b AND 0x7f) :: u32) = unat b mod 128" by (rule unat_low7) simp
    have val: "unat (ucast (b AND 0x7f) :: u32) + varint_value cs * 2 ^ (7 * 1) = varint_value bs"
      using b u by simp
    have "unat (ucast (b AND 0x7f) :: u32) < 2 ^ (7 * 1)" using u by simp
    then have "\<exists>s'. pb_varint32_loop (ucast (b AND 0x7f)) (of_nat (7 * 1)) s1 =
        (Some (of_nat (unat (ucast (b AND 0x7f) :: u32) + varint_value cs * 2 ^ (7 * 1)), last cs,
          of_nat (7 * (1 + length cs))), s') \<and> pb_at cb contents e s' rest tail"
      using s1(2) bs(2,3) b val by (intro varint32_loop_at [OF form(2)]) simp_all
    then obtain s' where loop: "pb_varint32_loop (ucast (b AND 0x7f)) 7 s1 =
        (Some (of_nat (varint_value bs), last cs, of_nat (7 * (1 + length cs))), s')"
        "pb_at cb contents e s' rest tail"
      unfolding val by auto
    have "last cs AND 0x70 = 0" if "(of_nat (7 * (1 + length cs)) :: u8) = 35"
    proof -
      have "1 + length cs \<le> 10" using bs(2) b by simp
      from unat_bitpos [OF this] that have "7 * (1 + length cs) = 35" by (metis unat_35)
      then have "length cs = 4" by simp
      with varint_value_last [of cs] False have "unat (last cs) mod 128 * 128 ^ 3 \<le> varint_value cs"
        by simp
      moreover have "128 * varint_value cs < 2 ^ 32" using bs(3) b by simp
      moreover have "unat (last cs) < 128" using form(2) by (simp add: varint_form_def)
      ultimately show ?thesis by (intro and_0x70) simp
    qed
    then show ?thesis
      using s1 loop form(1) top_bit_u8 [of b] by (auto simp: pb_decode_varint32_eof_def)
  qed
qed

lemma decode_varint32_simple_at:
  assumes "varint_form bs" "length bs \<le> 10" "varint_value bs < 2 ^ 32"
    and "pb_at cb contents e s (bs @ rest) tail"
  shows "\<exists>s'. pb_decode_varint32 s = (Some (of_nat (varint_value bs)), s') \<and> pb_at cb contents e s' rest tail"
  using decode_varint32_at [OF assms] by (auto simp: pb_decode_varint32_def)

lemma decode_tag_at:
  assumes "0 < t" and "t < 2 ^ 32" and "pb_at cb contents e s (varint_bytes t @ rest) tail"
  shows "\<exists>s'. pb_decode_tag s = (Some (of_nat (t mod 8), of_nat (t div 8)), False, s') \<and>
    pb_at cb contents e s' rest tail"
proof -
  have "length (varint_bytes t) \<le> 10" using assms(2) by (intro length_varint_bytes) simp_all
  then obtain s' where s': "pb_decode_varint32_eof s = (Some (of_nat t), False, s')"
      "pb_at cb contents e s' rest tail"
    using decode_varint32_at [OF varint_bytes_form _ _ assms(3)] assms(2) by auto
  have u: "unat (of_nat t :: u32) = t" using assms(2) unfolding unat_of_nat by simp
  have "(of_nat t :: u32) \<noteq> 0" using u assms(1) by (metis unsigned_0 less_irrefl)
  moreover have "(of_nat t :: u32) AND 7 = of_nat (t mod 8)"
    using u unat_and_mask [of "of_nat t :: u32" 3]
    by (simp add: word_unat_eq_iff mask_eq_exp_minus_1 unat_of_nat)
  moreover have "drop_bit 3 (of_nat t :: u32) = of_nat (t div 8)"
    using u assms(2) by (simp add: word_unat_eq_iff unat_drop_bit unat_of_nat)
  ultimately show ?thesis using s' by (simp add: pb_decode_tag_def)
qed

lemma decode_tag_end:
  "pb_at cb contents e s [] tail \<Longrightarrow>
     pb_decode_tag s = (None, True, pb_set_error ''end-of-stream'' s)"
  using readbyte_end [of e s tail]
  by (simp add: pb_decode_tag_def pb_decode_varint32_eof_def pb_at_def pb_set_error_def)

lemma skip_varint_at:
  "varint_form bs \<Longrightarrow> pb_at cb contents e s (bs @ rest) tail \<Longrightarrow>
     \<exists>s'. pb_skip_varint s = (Some (), s') \<and> pb_at cb contents e s' rest tail"
proof (induction bs arbitrary: s)
  case Nil
  then show ?case by (simp add: varint_form_def)
next
  case (Cons b bs)
  obtain s1 where s1: "pb_read_buf 1 s = (Some [b], s1)" "pb_at cb contents e s1 (bs @ rest) tail"
    using read_buf_at [of e s "[b]" "bs @ rest" tail] Cons.prems(2) by auto
  then have "pb_skip_varint s = (if 128 \<le> unat b then pb_skip_varint s1 else (Some (), s1))"
    by (subst pb_skip_varint.simps) (simp only: option.case prod.case list.sel top_bit_iff)
  then show ?case
    using Cons s1(2) by (cases "bs = []") (auto simp: varint_form_Cons)
qed

end

section \<open>Values on the wire\<close>

text \<open>A length prefix and as many bytes.\<close>

definition wire_string :: "u8 list \<Rightarrow> u8 list \<Rightarrow> bool" where
  "wire_string bs payload \<longleftrightarrow>
     (\<exists>l. bs = l @ payload \<and> varint_form l \<and> length l \<le> 10 \<and> varint_value l = length payload \<and>
       length payload < 2 ^ 32)"

definition wire_value :: "u32 \<Rightarrow> u8 list \<Rightarrow> bool" where
  "wire_value wt bs \<longleftrightarrow>
     (if wt = PB_WT_VARINT then varint_form bs
      else if wt = PB_WT_64BIT then length bs = 8
      else if wt = PB_WT_STRING then (\<exists>payload. wire_string bs payload)
      else wt = PB_WT_32BIT \<and> length bs = 4)"

lemma wire_string_varint_bytes:
  "length payload < 2 ^ 32 \<Longrightarrow> wire_string (varint_bytes (length payload) @ payload) payload"
  unfolding wire_string_def
  by (rule exI [of _ "varint_bytes (length payload)"])
    (simp add: varint_bytes_form length_varint_bytes)

definition zigzag :: "int \<Rightarrow> nat" where
  "zigzag v = nat (if v < 0 then - 2 * v - 1 else 2 * v)"

context read_callback
begin

lemma make_substream_at:
  assumes "wire_string bs payload" and "pb_at cb contents e s (bs @ rest) tail"
  shows "\<exists>sub s'. pb_make_string_substream s = (Some sub, s') \<and>
    pb_at cb contents e sub payload (rest @ tail) \<and> is_callback s' = cb \<and>
    is_bytes_left s' = length rest \<and> is_errmsg s' = e"
proof -
  obtain l where l: "bs = l @ payload" "varint_form l" "length l \<le> 10"
      "varint_value l = length payload" "length payload < 2 ^ 32"
    using assms(1) by (auto simp: wire_string_def)
  obtain s1 where s1: "pb_decode_varint32 s = (Some (of_nat (length payload)), s1)"
      "pb_at cb contents e s1 (payload @ rest) tail"
    using decode_varint32_simple_at [OF l(2,3), of e s "payload @ rest" tail] assms(2) l by auto
  have "unat (of_nat (length payload) :: u32) = length payload" using l(5) unfolding unat_of_nat by simp
  then show ?thesis
    using s1 by (simp add: pb_make_string_substream_def op_bind_Some pb_at_def Let_def)
qed

text \<open>Closing skips what the reader of the substream left over.\<close>

lemma close_substream_at:
  assumes "pb_at cb contents e' sub left (rest @ tail)"
    and "is_callback s = cb" and "is_bytes_left s = length rest"
  shows "\<exists>s'. pb_close_string_substream sub s = (Some (), s') \<and> pb_at cb contents e' s' rest tail"
proof -
  obtain sub' where "(if is_bytes_left sub \<noteq> 0 then pb_read_null (is_bytes_left sub) sub
      else (Some (), sub)) = (Some (), sub')" "pb_at cb contents e' sub' [] (rest @ tail)"
    using read_null_at [of e' sub left "[]" "rest @ tail"] assms(1)
    by (cases "left = []") (auto simp: pb_at_def)
  then show ?thesis
    using assms(2,3) by (auto simp: pb_close_string_substream_def pb_at_def)
qed

lemma skip_string_at:
  assumes "wire_string bs payload" and "pb_at cb contents e s (bs @ rest) tail"
  shows "\<exists>s'. pb_skip_string s = (Some (), s') \<and> pb_at cb contents e s' rest tail"
proof -
  obtain l where l: "bs = l @ payload" "varint_form l" "length l \<le> 10"
      "varint_value l = length payload" "length payload < 2 ^ 32"
    using assms(1) by (auto simp: wire_string_def)
  obtain s1 where s1: "pb_decode_varint32 s = (Some (of_nat (length payload)), s1)"
      "pb_at cb contents e s1 (payload @ rest) tail"
    using decode_varint32_simple_at [OF l(2,3), of e s "payload @ rest" tail] assms(2) l by auto
  have "unat (of_nat (length payload) :: u32) = length payload" using l(5) unfolding unat_of_nat by simp
  then show ?thesis
    using s1(1) read_null_at [OF s1(2)] by (simp add: pb_skip_string_def op_bind_Some)
qed

lemma skip_field_at:
  assumes "wire_value wt bs" and "pb_at cb contents e s (bs @ rest) tail"
  shows "\<exists>s'. pb_skip_field wt s = (Some (), s') \<and> pb_at cb contents e s' rest tail"
  using assms(1) skip_varint_at [OF _ assms(2)] skip_string_at [OF _ assms(2)] read_null_at [OF assms(2)]
  by (auto simp: wire_value_def pb_skip_field_def split: if_splits)

lemma decode_svarint_at:
  assumes "pb_at cb contents e s (varint_bytes (zigzag (sint (v :: u64))) @ rest) tail"
  shows "\<exists>s'. pb_decode_svarint s = (Some v, s') \<and> pb_at cb contents e s' rest tail"
proof -
  let ?z = "of_nat (zigzag (sint v)) :: u64"
  have range: "- (2 ^ 63) \<le> sint v" "sint v < 2 ^ 63"
    using sint_range_size [of v] by (simp_all add: word_size)
  then have z: "zigzag (sint v) < 2 ^ 64" by (auto simp: zigzag_def)
  then have u: "unat ?z = zigzag (sint v)" unfolding unat_of_nat by simp
  have "length (varint_bytes (zigzag (sint v))) \<le> 10"
    using z by (intro length_varint_bytes) simp_all
  then obtain s1 where s1: "pb_decode_varint s = (Some ?z, s1)" "pb_at cb contents e s1 rest tail"
    using decode_varint_at [OF varint_bytes_form _ assms] by auto
  have low: "unat (?z AND 1) = zigzag (sint v) mod 2"
    using unat_and_mask [of ?z 1] u by simp
  have half: "drop_bit 1 ?z = of_nat (zigzag (sint v) div 2)"
    using u unat_drop_bit [of 1 ?z] unat_of_nat [of "zigzag (sint v) div 2", where 'a = 64] z
    by (simp add: word_unat_eq_iff)
  have "(if ?z AND 1 \<noteq> 0 then NOT (drop_bit 1 ?z) else drop_bit 1 ?z) = v"
  proof (cases "sint v < 0")
    case True
    then obtain n where n: "sint v = - int n - 1" by (metis zero_less_imp_eq_int negD of_nat_Suc
          add.inverse_inverse diff_minus_eq_add minus_diff_eq uminus_add_conv_diff add.commute)
    then have "zigzag (sint v) = 2 * n + 1" by (simp add: zigzag_def)
    then have "?z AND 1 \<noteq> 0" "drop_bit 1 ?z = of_nat n" using low half by (auto simp: word_unat_eq_iff)
    moreover have "v = of_int (- int n - 1)" by (simp only: n [symmetric] of_int_sint scast_id id_apply)
    then have "v = NOT (of_nat n)" by (simp add: not_eq_complement)
    ultimately show ?thesis by simp
  next
    case False
    then obtain n where n: "sint v = int n" by (metis nonneg_int_cases not_less)
    then have "zigzag (sint v) = 2 * n" by (simp add: zigzag_def)
    then have "?z AND 1 = 0" "drop_bit 1 ?z = of_nat n" using low half by (auto simp: word_unat_eq_iff)
    moreover have "v = of_int (int n)" by (simp only: n [symmetric] of_int_sint scast_id id_apply)
    then have "v = of_nat n" by simp
    ultimately show ?thesis by simp
  qed
  then show ?thesis
    using s1 by (simp add: pb_decode_svarint_def op_bind_Some op_ret_def)
qed

text \<open>Past 32 bits a last byte other than zero ends the loop with an error.\<close>

lemma varint32_loop_rejects:
  "varint_form bs \<Longrightarrow> 0 < k \<Longrightarrow> k + length bs \<le> 9 \<Longrightarrow> pb_at cb contents e s (bs @ rest) tail \<Longrightarrow>
   pb_varint32_loop r (of_nat (7 * k)) s = (res, s') \<Longrightarrow>
     case res of None \<Rightarrow> True
     | Some (r', byte, bitpos) \<Rightarrow> byte = last bs \<and> bitpos = of_nat (7 * (k + length bs)) \<and>
         (5 < k + length bs \<longrightarrow> last bs = 0)"
proof (induction bs arbitrary: k r s)
  case Nil
  then show ?case by (simp add: varint_form_def)
next
  case (Cons b bs)
  obtain s1 where s1: "pb_readbyte s = (Some b, s1)" "pb_at cb contents e s1 (bs @ rest) tail"
    using readbyte_at [of e s b "bs @ rest" tail] Cons.prems(4) by auto
  have k: "k \<le> 8" using Cons.prems(3) by simp
  then have bp: "unat (of_nat (7 * k) :: u8) = 7 * k" by (intro unat_bitpos) simp
  have big: "(of_nat (7 * k) :: u8) \<ge> 32 \<longleftrightarrow> 5 \<le> k" and sign: "(of_nat (7 * k) :: u8) < 63"
    using bp k by (auto simp: word_le_nat_alt word_less_nat_alt)
  let ?bad = "32 \<le> (of_nat (7 * k) :: u8) \<and> b AND 0x7f \<noteq> 0 \<and> (drop_bit 31 r = 0 \<or> b \<noteq> 0xff)"
  let ?r = "if 32 \<le> (of_nat (7 * k) :: u8) then r
    else r OR push_bit (unat (of_nat (7 * k) :: u8)) (ucast (b AND 0x7f))"
  have bp': "of_nat (7 * k) + 7 = (of_nat (7 * Suc k) :: u8)" by simp
  have step: "pb_varint32_loop r (of_nat (7 * k)) s =
      (if ?bad then pb_return_error ''varint overflow'' s1
       else if 128 \<le> unat b then pb_varint32_loop ?r (of_nat (7 * Suc k)) s1
       else (Some (?r, b, of_nat (7 * Suc k)), s1))"
    using s1(1) sign
    by (subst pb_varint32_loop.simps) (simp only: Let_def option.case prod.case top_bit_iff bp' if_True)
  show ?case
  proof (cases ?bad)
    case True
    then show ?thesis using step Cons.prems(5) by (auto simp: pb_return_error_def)
  next
    case ok: False
    show ?thesis
    proof (cases "bs = []")
      case True
      then have small: "unat b < 128" using Cons.prems(1) by (simp add: varint_form_Cons)
      have "b = 0" if "5 \<le> k"
      proof -
        have "b \<noteq> 0xff" using small by auto
        then have "b AND 0x7f = 0" using ok that big by auto
        then have "unat b mod 128 = 0" using mask_7_u8 [of b] by simp
        then show ?thesis using small by (simp add: word_unat_eq_iff)
      qed
      then show ?thesis
        using Cons.prems(5) step ok small True by (auto simp del: of_nat_mult)
    next
      case False
      then have form: "128 \<le> unat b" "varint_form bs" using Cons.prems(1) by (simp_all add: varint_form_Cons)
      then have "pb_varint32_loop ?r (of_nat (7 * Suc k)) s1 = (res, s')"
        using Cons.prems(5) unfolding step if_not_P [OF ok] by simp
      from Cons.IH [OF form(2) _ _ s1(2) this] Cons.prems(3) False show ?thesis
        by (auto simp: algebra_simps split: option.splits)
    qed
  qed
qed

lemma decode_varint32_rejects:
  assumes bs: "varint_form bs" "length bs \<le> 9" "last bs \<noteq> 0" "2 ^ 32 \<le> varint_value bs"
    and s: "pb_at cb contents e s (bs @ rest) tail"
  shows "fst (pb_decode_varint32 s) = None"
proof -
  obtain b cs where b: "bs = b # cs" using varint_form_ne [OF bs(1)] by (cases bs) auto
  obtain s1 where s1: "pb_readbyte s = (Some b, s1)" "pb_at cb contents e s1 (cs @ rest) tail"
    using readbyte_at [of e s b "cs @ rest" tail] s b by auto
  have cs: "cs \<noteq> []"
  proof
    assume "cs = []"
    then have "varint_value bs < 128" using b by simp
    with bs(4) show False by simp
  qed
  then have form: "128 \<le> unat b" "varint_form cs" using bs(1) b by (simp_all add: varint_form_Cons)
  obtain res s' where loop: "pb_varint32_loop (ucast (b AND 0x7f)) (of_nat (7 * 1)) s1 = (res, s')"
    by fastforce
  have rej: "case res of None \<Rightarrow> True
     | Some (r', byte, bitpos) \<Rightarrow> byte = last cs \<and> bitpos = of_nat (7 * (1 + length cs)) \<and>
         (5 < 1 + length cs \<longrightarrow> last cs = 0)"
    using varint32_loop_rejects [OF form(2) _ _ s1(2) loop] bs(2) b by simp
  have last: "last cs \<noteq> 0" using bs(3) b cs by simp
  show ?thesis
  proof (cases res)
    case None
    then show ?thesis
      using s1(1) loop form(1) top_bit_u8 [of b]
      by (auto simp: pb_decode_varint32_def pb_decode_varint32_eof_def)
  next
    case (Some t)
    then obtain r' where t: "t = (r', last cs, of_nat (7 * (1 + length cs)))" "length bs \<le> 5"
      using rej last b by (cases t) auto
    have "2 ^ 32 \<le> varint_value bs" "varint_value bs < 128 ^ length bs"
      using bs(4) varint_value_bound [of bs] by auto
    then have len: "length bs = 5"
      using t(2) power_increasing [of "length bs" 4 "128 :: nat"]
      by (cases "length bs \<le> 4") auto
    have high: "16 \<le> unat (last cs)"
    proof (rule ccontr)
      assume "\<not> 16 \<le> unat (last cs)"
      then have "varint_value bs < 2 ^ 32"
        using varint_value_butlast [of bs] varint_value_bound [of "butlast bs"] bs(1) b cs len by simp
      with bs(4) show False by simp
    qed
    have "last cs AND 0x70 \<noteq> 0"
    proof
      assume z: "last cs AND 0x70 = 0"
      have "last cs AND 0x80 = 0" using bs(1) b cs top_bit_u8 [of "last cs"] by (simp add: varint_form_def)
      then have "last cs = last cs AND mask 4" using z u8_split [of "last cs"] by simp
      then have "unat (last cs) = unat (last cs) mod 16" using unat_and_mask [of "last cs" 4] by simp
      then have "unat (last cs) < 16" by (metis mod_less_divisor zero_less_numeral)
      with high show False by simp
    qed
    moreover have "(of_nat (7 * (1 + length cs)) :: u8) = 35" using len b by simp
    ultimately show ?thesis
      using s1(1) loop form(1) top_bit_u8 [of b] Some t(1)
      by (auto simp: pb_decode_varint32_def pb_decode_varint32_eof_def)
  qed
qed

end

lemma last_varint_bytes: "v \<noteq> 0 \<Longrightarrow> last (varint_bytes v) \<noteq> 0"
proof (induction v rule: varint_bytes.induct)
  case (1 v)
  show ?case
  proof (cases "v < 128")
    case True
    then have "unat (of_nat v :: u8) = v" unfolding unat_of_nat_u8 by simp
    then have "(of_nat v :: u8) \<noteq> 0" using 1(2) by (metis unsigned_0)
    then show ?thesis using True by (subst varint_bytes.simps) simp
  next
    case False
    then have "v div 128 \<noteq> 0" by (simp add: div_eq_0_iff)
    with 1(1) [OF False this] show ?thesis using False by (subst varint_bytes.simps) simp
  qed
qed

section \<open>Decoding from a buffer\<close>

text \<open>What is left in a buffer stream that was made for a whole buffer.\<close>

definition pb_left :: "u8 list pb_istream \<Rightarrow> u8 list" where
  "pb_left s = take (is_bytes_left s) (is_state s)"

abbreviation pb_buffer :: "u8 list \<Rightarrow> u8 list pb_istream" where
  "pb_buffer bs \<equiv> pb_istream_from_buffer bs (length bs)"

lemma pb_at_buffer: "pb_at buf_read (\<lambda>st. st) None (pb_buffer bs) bs []"
  by (simp add: pb_at_def pb_istream_from_buffer_def)

lemma pb_left_at: "pb_at cb (\<lambda>st. st) e s bs tail \<Longrightarrow> pb_left s = bs"
  by (simp add: pb_left_def pb_at_def)

text \<open>
  C11: \<open>pb_decode_varint\<close> reads a varint of at most ten bytes as its value modulo
  \<open>2 ^ 64\<close> and stops behind it.
\<close>

theorem pb_decode_varint_reads:
  assumes "varint_form bs" and "length bs \<le> 10"
  shows "\<exists>s. pb_decode_varint (pb_buffer (bs @ rest)) = (Some (of_nat (varint_value bs)), s) \<and>
    pb_left s = rest \<and> is_errmsg s = None"
  using buffer.decode_varint_at [OF assms pb_at_buffer, of rest] by (auto simp: pb_at_def pb_left_def)

theorem pb_decode_varint_reads_witness:
  "\<exists>s. pb_decode_varint (pb_buffer ([0xac, 0x02] @ [7])) = (Some 300, s) \<and>
    pb_left s = [7] \<and> is_errmsg s = None"
  using pb_decode_varint_reads [of "[0xac, 0x02]" "[7]"] by (simp add: varint_form_def)

text \<open>
  \<open>pb_decode_varint32\<close> accepts the varint of a number below \<open>2 ^ 63\<close> exactly when it
  fits into 32 bits.
\<close>

theorem pb_decode_varint32_checks_range:
  assumes "v < 2 ^ 63"
  shows "fst (pb_decode_varint32 (pb_buffer (varint_bytes v @ rest))) =
    (if v < 2 ^ 32 then Some (of_nat v) else None)"
proof -
  have len: "length (varint_bytes v) \<le> 9" using assms by (intro length_varint_bytes) simp_all
  show ?thesis
  proof (cases "v < 2 ^ 32")
    case True
    then show ?thesis
      using buffer.decode_varint32_simple_at [OF varint_bytes_form _ _ pb_at_buffer, of v rest] len by auto
  next
    case False
    then have "last (varint_bytes v) \<noteq> 0" by (intro last_varint_bytes) auto
    then show ?thesis
      using buffer.decode_varint32_rejects [OF varint_bytes_form len _ _ pb_at_buffer] False by simp
  qed
qed

theorem pb_decode_varint32_checks_range_witness:
  "fst (pb_decode_varint32 (pb_buffer (varint_bytes (2 ^ 32) @ []))) = None"
  by (subst pb_decode_varint32_checks_range) simp_all

text \<open>
  \<open>pb_skip_field\<close> skips exactly one value of its wire type: a varint, 8 or 4 bytes, or
  a length prefix with the bytes it announces.
\<close>

theorem pb_skip_field_skips:
  assumes "wire_value wt bs"
  shows "\<exists>s. pb_skip_field wt (pb_buffer (bs @ rest)) = (Some (), s) \<and> pb_left s = rest"
  using buffer.skip_field_at [OF assms pb_at_buffer] pb_left_at by blast

theorem pb_skip_field_skips_witness:
  "\<exists>s. pb_skip_field PB_WT_STRING (pb_buffer ([2, 0xff, 0xff] @ [1])) = (Some (), s) \<and> pb_left s = [1]"
proof (rule pb_skip_field_skips)
  have "wire_string [2, 0xff, 0xff] [0xff, 0xff]"
    unfolding wire_string_def by (rule exI [of _ "[2]"]) (simp add: varint_form_def)
  then show "wire_value PB_WT_STRING [2, 0xff, 0xff]"
    by (auto simp: wire_value_def PB_WT_STRING_def PB_WT_VARINT_def PB_WT_64BIT_def)
qed

text \<open>
  C12: a substream for a length-delimited value holds exactly that value, and closing it
  puts the parent stream behind the value, however much of it was read.
\<close>

theorem pb_substream_delimits:
  assumes "wire_string bs payload"
  shows "\<exists>sub s. pb_make_string_substream (pb_buffer (bs @ rest)) = (Some sub, s) \<and>
    pb_left sub = payload \<and>
    (\<forall>n \<le> length payload. \<exists>sub' s'. pb_read_buf n sub = (Some (take n payload), sub') \<and>
       pb_close_string_substream sub' s = (Some (), s') \<and> pb_left s' = rest)"
proof -
  obtain sub s where sub: "pb_make_string_substream (pb_buffer (bs @ rest)) = (Some sub, s)"
      "pb_at buf_read (\<lambda>st. st) None sub payload (rest @ [])" "is_callback s = buf_read"
      "is_bytes_left s = length rest"
    using buffer.make_substream_at [OF assms pb_at_buffer] by blast
  have "\<exists>sub' s'. pb_read_buf n sub = (Some (take n payload), sub') \<and>
       pb_close_string_substream sub' s = (Some (), s') \<and> pb_left s' = rest"
    if n: "n \<le> length payload" for n
  proof -
    have "pb_at buf_read (\<lambda>st. st) None sub (take n payload @ drop n payload) (rest @ [])"
      using sub(2) by simp
    from buffer.read_buf_at [OF this] n obtain sub' where sub':
        "pb_read_buf n sub = (Some (take n payload), sub')"
        "pb_at buf_read (\<lambda>st. st) None sub' (drop n payload) (rest @ [])" by auto
    from buffer.close_substream_at [OF sub'(2) sub(3,4)] show ?thesis
      using sub'(1) pb_left_at by blast
  qed
  then show ?thesis using sub(1) pb_left_at [OF sub(2)] by blast
qed

theorem pb_substream_delimits_witness:
  "\<exists>sub s. pb_make_string_substream (pb_buffer ([2, 8, 9] @ [5])) = (Some sub, s) \<and>
    pb_left sub = [8, 9]"
proof -
  have "wire_string [2, 8, 9] [8, 9]"
    unfolding wire_string_def by (rule exI [of _ "[2]"]) (simp add: varint_form_def)
  from pb_substream_delimits [OF this, of "[5]"] show ?thesis by blast
qed

text \<open>
  \<open>pb_decode_varint32\<close> is meant to refuse a varint that does not fit, but its bit
  position is an 8-bit number: after 37 bytes it has wrapped around, and the payload of a
  38th byte, whose place is far beyond 64 bits, is added to the result.
\<close>

theorem pb_decode_varint32_wraps:
  "fst (pb_decode_varint32 (pb_buffer (replicate 37 0x80 @ [1]))) = Some 8 \<and>
     varint_value (replicate 37 0x80 @ [1]) = 2 ^ 259"
proof -
  have "replicate 37 (0x80 :: u8) = [0x80, 0x80, 0x80, 0x80, 0x80, 0x80, 0x80, 0x80, 0x80, 0x80,
      0x80, 0x80, 0x80, 0x80, 0x80, 0x80, 0x80, 0x80, 0x80, 0x80, 0x80, 0x80, 0x80, 0x80, 0x80,
      0x80, 0x80, 0x80, 0x80, 0x80, 0x80, 0x80, 0x80, 0x80, 0x80, 0x80, 0x80]"
    by (simp add: numeral_eq_Suc)
  then show ?thesis
    by (simp add: pb_decode_varint32_def pb_decode_varint32_eof_def pb_varint32_loop.simps
        pb_readbyte_def pb_call_def buf_read_def pb_istream_from_buffer_def op_bind_def op_ret_def)
qed

end
