(* ===== verification/Pb_Ostream.thy ===== *)
theory Pb_Ostream
  imports Pb_Istream
begin

text \<open>
  The output streams of \<open>nanopb/pb_encode.c\<close> and the encoders of single values.  A stream
  without callback only counts the bytes.  \<open>pb_emits\<close> is the specification of an encoder:
  the bytes it appends when they fit under the limit of the stream, and an error with the
  stream still within its limit when they do not; it composes along the sequence of calls,
  and length-delimited messages are encoded twice, first to find their size.
\<close>

section \<open>Streams\<close>

type_synonym 'st pb_write_callback = "u8 list \<Rightarrow> ('st, unit) op"

record 'st pb_ostream =
  os_callback :: "'st pb_write_callback option"
  os_state :: 'st
  os_max_size :: nat
  os_bytes_written :: nat
  os_errmsg :: "string option"

definition pb_out_error :: "string \<Rightarrow> ('st pb_ostream, 'a) op" where
  "pb_out_error msg s =
     (None, s\<lparr>os_errmsg := (case os_errmsg s of None \<Rightarrow> Some msg | Some m \<Rightarrow> Some m)\<rparr>)"

text \<open>The state of \<open>buf_write\<close> is the buffer and the position of the write pointer.\<close>

definition buf_write :: "(u8 list \<times> nat) pb_write_callback" where
  "buf_write buf st = (case st of (m, dest) \<Rightarrow> (Some (), (mem_write m dest buf, dest + length buf)))"

definition pb_ostream_from_buffer :: "u8 list \<Rightarrow> nat \<Rightarrow> (u8 list \<times> nat) pb_ostream" where
  "pb_ostream_from_buffer buf bufsize =
     \<lparr>os_callback = Some buf_write, os_state = (buf, 0), os_max_size = bufsize,
      os_bytes_written = 0, os_errmsg = None\<rparr>"

definition PB_OSTREAM_SIZING :: "'st \<Rightarrow> 'st pb_ostream" where
  "PB_OSTREAM_SIZING st =
     \<lparr>os_callback = None, os_state = st, os_max_size = 0, os_bytes_written = 0, os_errmsg = None\<rparr>"

definition pb_write :: "u8 list \<Rightarrow> ('st pb_ostream, unit) op" where
  "pb_write buf s =
     (let count = length buf;
          counted = (\<lambda>s. (Some (), s\<lparr>os_bytes_written := wrap64 (os_bytes_written s + count)\<rparr>))
      in case os_callback s of
           None \<Rightarrow> counted s
         | Some callback \<Rightarrow>
             if count > 0 then
               (if wrap64 (os_bytes_written s + count) < os_bytes_written s \<or>
                   wrap64 (os_bytes_written s + count) > os_max_size s
                then pb_out_error ''stream full'' s
                else
                  (case callback buf (os_state s) of
                     (None, st) \<Rightarrow> pb_out_error ''io error'' (s\<lparr>os_state := st\<rparr>)
                   | (Some _, st) \<Rightarrow> counted (s\<lparr>os_state := st\<rparr>)))
             else counted s)"

text \<open>\<open>pb_write(stream, NULL, size)\<close>, which is called on sizing streams only.\<close>

definition pb_write_null :: "nat \<Rightarrow> ('st pb_ostream, unit) op" where
  "pb_write_null count s = (Some (), s\<lparr>os_bytes_written := wrap64 (os_bytes_written s + count)\<rparr>)"

section \<open>Single values\<close>

text \<open>The loop that fills the buffer: every byte with the top bit set.\<close>

function pb_varint_buffer :: "u64 \<Rightarrow> u8 list" where
  "pb_varint_buffer value =
     (if value = 0 then []
      else (ucast (value AND 0x7f) OR 0x80) # pb_varint_buffer (drop_bit 7 value))"
  by pat_completeness auto
termination
proof (relation "measure unat")
  fix v :: u64
  assume "v \<noteq> 0"
  then have "0 < unat v" by (simp add: unat_gt_0)
  then show "(drop_bit 7 v, v) \<in> measure unat" by (simp add: unat_drop_bit)
qed simp

declare pb_varint_buffer.simps [simp del]

definition pb_encode_varint :: "u64 \<Rightarrow> ('st pb_ostream, unit) op" where
  "pb_encode_varint value =
     (if value \<le> 0x7f then pb_write [ucast value]
      else
        (let buffer = pb_varint_buffer value; i = length buffer
         in pb_write (buffer[i - 1 := buffer ! (i - 1) AND 0x7f])))"

definition pb_encode_svarint :: "u64 \<Rightarrow> ('st pb_ostream, unit) op" where
  "pb_encode_svarint value =
     (let zigzagged = (if sint value < 0 then NOT (push_bit 1 value) else push_bit 1 value)
      in pb_encode_varint zigzagged)"

definition pb_encode_fixed32 :: "u32 \<Rightarrow> ('st pb_ostream, unit) op" where
  "pb_encode_fixed32 val =
     pb_write [ucast (val AND 0xff), ucast (drop_bit 8 val AND 0xff),
       ucast (drop_bit 16 val AND 0xff), ucast (drop_bit 24 val AND 0xff)]"

definition pb_encode_fixed64 :: "u64 \<Rightarrow> ('st pb_ostream, unit) op" where
  "pb_encode_fixed64 val =
     pb_write [ucast (val AND 0xff), ucast (drop_bit 8 val AND 0xff),
       ucast (drop_bit 16 val AND 0xff), ucast (drop_bit 24 val AND 0xff),
       ucast (drop_bit 32 val AND 0xff), ucast (drop_bit 40 val AND 0xff),
       ucast (drop_bit 48 val AND 0xff), ucast (drop_bit 56 val AND 0xff)]"

definition pb_encode_tag :: "u32 \<Rightarrow> u32 \<Rightarrow> ('st pb_ostream, unit) op" where
  "pb_encode_tag wiretype field_number =
     pb_encode_varint (push_bit 3 (ucast field_number) OR ucast wiretype)"

definition pb_encode_string :: "u8 list \<Rightarrow> ('st pb_ostream, unit) op" where
  "pb_encode_string buffer =
     op_bind (pb_encode_varint (of_nat (length buffer))) (\<lambda>_. pb_write buffer)"

text \<open>
  \<open>pb_encode_submessage\<close>, with the call \<open>pb_encode(stream, fields, src_struct)\<close> as an
  argument.
\<close>

definition pb_encode_submessage :: "('st pb_ostream, unit) op \<Rightarrow> ('st pb_ostream, unit) op" where
  "pb_encode_submessage encode s =
     (case encode (PB_OSTREAM_SIZING (os_state s)) of
        (None, substream) \<Rightarrow> (None, s\<lparr>os_errmsg := os_errmsg substream\<rparr>)
      | (Some _, substream) \<Rightarrow>
          let size = os_bytes_written substream in
          op_bind (pb_encode_varint (of_nat size)) (\<lambda>_ s.
            if Option.is_none (os_callback s) then pb_write_null size s
            else if wrap64 (os_bytes_written s + size) > os_max_size s
            then pb_out_error ''stream full'' s
            else
              (case encode (substream\<lparr>os_callback := os_callback s, os_state := os_state s,
                              os_max_size := size, os_bytes_written := 0, os_errmsg := None\<rparr>)
               of (status, substream) \<Rightarrow>
                 let s = s\<lparr>os_bytes_written := wrap64 (os_bytes_written s + os_bytes_written substream),
                           os_state := os_state substream, os_errmsg := os_errmsg substream\<rparr>
                 in if os_bytes_written substream \<noteq> size
                    then pb_out_error ''submsg size changed'' s
                    else (status, s))) s)"

section \<open>What encoders emit\<close>

text \<open>
  The contract of a write callback: \<open>room\<close> is what it can still take, and while there is
  room it appends what it is given.
\<close>

definition pb_out_ok :: "'st pb_write_callback \<Rightarrow> ('st \<Rightarrow> nat) \<Rightarrow> 'st pb_ostream \<Rightarrow> bool" where
  "pb_out_ok cb room s \<longleftrightarrow>
     os_errmsg s = None \<and>
     (os_callback s = None \<or>
      os_callback s = Some cb \<and> os_bytes_written s \<le> os_max_size s \<and> os_max_size s < 2 ^ 63 \<and>
      os_max_size s - os_bytes_written s \<le> room (os_state s))"

definition pb_emits ::
    "'st pb_write_callback \<Rightarrow> ('st \<Rightarrow> nat) \<Rightarrow> ('st \<Rightarrow> u8 list) \<Rightarrow> ('st pb_ostream, unit) op \<Rightarrow>
     u8 list \<Rightarrow> bool"
where
  "pb_emits cb room written f bs \<longleftrightarrow>
     (\<forall>s. pb_out_ok cb room s \<longrightarrow>
        (if os_callback s = None then
           os_bytes_written s + length bs < 2 ^ 64 \<longrightarrow>
           f s = (Some (), s\<lparr>os_bytes_written := os_bytes_written s + length bs\<rparr>)
         else if os_bytes_written s + length bs \<le> os_max_size s then
           \<exists>st. f s = (Some (), s\<lparr>os_state := st, os_bytes_written := os_bytes_written s + length bs\<rparr>) \<and>
             written st = written (os_state s) @ bs \<and>
             room st = room (os_state s) - length bs
         else
           \<exists>s' n. n \<le> length bs \<and> f s = (None, s') \<and> os_bytes_written s + n \<le> os_max_size s \<and>
             os_bytes_written s' = os_bytes_written s + n \<and>
             written (os_state s') = written (os_state s) @ take n bs))"

locale write_callback =
  fixes cb :: "'st pb_write_callback" and room :: "'st \<Rightarrow> nat" and written :: "'st \<Rightarrow> u8 list"
  assumes cb_writes: "length bs \<le> room st \<Longrightarrow>
    \<exists>st'. cb bs st = (Some (), st') \<and> written st' = written st @ bs \<and> room st' = room st - length bs"
begin

lemma emits_sizing:
  "pb_emits cb room written f bs \<Longrightarrow> os_callback s = None \<Longrightarrow> os_errmsg s = None \<Longrightarrow>
     os_bytes_written s + length bs < 2 ^ 64 \<Longrightarrow>
     f s = (Some (), s\<lparr>os_bytes_written := os_bytes_written s + length bs\<rparr>)"
  by (simp add: pb_emits_def pb_out_ok_def)

lemma emits_fits:
  assumes "pb_emits cb room written f bs" and "pb_out_ok cb room s" and "os_callback s \<noteq> None"
    and "os_bytes_written s + length bs \<le> os_max_size s"
  shows "\<exists>st. f s = (Some (), s\<lparr>os_state := st, os_bytes_written := os_bytes_written s + length bs\<rparr>) \<and>
    written st = written (os_state s) @ bs \<and> room st = room (os_state s) - length bs \<and>
    pb_out_ok cb room (s\<lparr>os_state := st, os_bytes_written := os_bytes_written s + length bs\<rparr>)"
proof -
  obtain st where "f s = (Some (), s\<lparr>os_state := st, os_bytes_written := os_bytes_written s + length bs\<rparr>)"
    "written st = written (os_state s) @ bs" "room st = room (os_state s) - length bs"
    using assms(1) [unfolded pb_emits_def, rule_format, OF assms(2)] assms(3,4) by auto
  moreover from this assms have
    "pb_out_ok cb room (s\<lparr>os_state := st, os_bytes_written := os_bytes_written s + length bs\<rparr>)"
    by (auto simp: pb_out_ok_def)
  ultimately show ?thesis by blast
qed

lemma emits_full:
  assumes "pb_emits cb room written f bs" and "pb_out_ok cb room s" and "os_callback s \<noteq> None"
    and "\<not> os_bytes_written s + length bs \<le> os_max_size s"
  shows "\<exists>s' n. n \<le> length bs \<and> f s = (None, s') \<and> os_bytes_written s + n \<le> os_max_size s \<and>
    os_bytes_written s' = os_bytes_written s + n \<and>
    written (os_state s') = written (os_state s) @ take n bs"
  using assms(1) [unfolded pb_emits_def, rule_format, OF assms(2)] assms(3,4) by auto

lemma emits_write: "length bs < 2 ^ 64 \<Longrightarrow> pb_emits cb room written (pb_write bs) bs"
  unfolding pb_emits_def
proof (intro allI impI)
  fix s :: "'st pb_ostream"
  assume len: "length bs < 2 ^ 64" and ok: "pb_out_ok cb room s"
  let ?n = "os_bytes_written s + length bs"
  show "if os_callback s = None then
      ?n < 2 ^ 64 \<longrightarrow> pb_write bs s = (Some (), s\<lparr>os_bytes_written := ?n\<rparr>)
    else if ?n \<le> os_max_size s then
      \<exists>st. pb_write bs s = (Some (), s\<lparr>os_state := st, os_bytes_written := ?n\<rparr>) \<and>
        written st = written (os_state s) @ bs \<and> room st = room (os_state s) - length bs
    else
      \<exists>s' n. n \<le> length bs \<and> pb_write bs s = (None, s') \<and> os_bytes_written s + n \<le> os_max_size s \<and>
        os_bytes_written s' = os_bytes_written s + n \<and>
        written (os_state s') = written (os_state s) @ take n bs"
  proof (cases "os_callback s = None")
    case True
    then show ?thesis by (auto simp: pb_write_def)
  next
    case False
    with ok have s: "os_errmsg s = None" "os_callback s = Some cb" "os_bytes_written s \<le> os_max_size s"
      "os_max_size s < 2 ^ 63" "os_max_size s - os_bytes_written s \<le> room (os_state s)"
      by (auto simp: pb_out_ok_def)
    show ?thesis
    proof (cases "?n \<le> os_max_size s")
      case True
      then have "length bs \<le> room (os_state s)" using s by linarith
      then obtain st where "cb bs (os_state s) = (Some (), st)" "written st = written (os_state s) @ bs"
        "room st = room (os_state s) - length bs" using cb_writes by blast
      note st = this
      show ?thesis
      proof (cases "bs = []")
        case True
        then have "pb_write bs s = (Some (), s\<lparr>os_state := os_state s, os_bytes_written := ?n\<rparr>)"
          using s by (simp add: pb_write_def)
        then show ?thesis using \<open>bs = []\<close> s by (auto intro!: exI [of _ "os_state s"])
      next
        case False
        then have "pb_write bs s = (Some (), s\<lparr>os_state := st, os_bytes_written := ?n\<rparr>)"
          using s st \<open>?n \<le> os_max_size s\<close> by (simp add: pb_write_def)
        then show ?thesis using s st \<open>?n \<le> os_max_size s\<close> by (auto intro!: exI [of _ st])
      qed
    next
      case big: False
      have "wrap64 ?n < os_bytes_written s \<or> os_max_size s < wrap64 ?n"
      proof (cases "?n < 2 ^ 64")
        case True
        then show ?thesis using big by simp
      next
        case False
        then show ?thesis using wrap64_add_overflow [of "os_bytes_written s" "length bs"] s len by auto
      qed
      moreover have "bs \<noteq> []" using big s by auto
      ultimately have "pb_write bs s = pb_out_error ''stream full'' s" using s by (auto simp: pb_write_def)
      then show ?thesis
        using ok s big by (auto simp: pb_out_error_def pb_out_ok_def intro!: exI [of _ 0])
    qed
  qed
qed

lemma emits_ret: "pb_emits cb room written (op_ret ()) []"
  by (auto simp: pb_emits_def op_ret_def pb_out_ok_def intro!: exI [of _ "os_state s" for s])

lemma emits_bind:
  assumes f: "pb_emits cb room written f as" and g: "pb_emits cb room written g bs"
  shows "pb_emits cb room written (op_bind f (\<lambda>_. g)) (as @ bs)"
  unfolding pb_emits_def
proof (intro allI impI)
  fix s :: "'st pb_ostream"
  assume ok: "pb_out_ok cb room s"
  let ?h = "op_bind f (\<lambda>_. g)"
  let ?n = "os_bytes_written s + length (as @ bs)"
  show "if os_callback s = None then
      ?n < 2 ^ 64 \<longrightarrow> ?h s = (Some (), s\<lparr>os_bytes_written := ?n\<rparr>)
    else if ?n \<le> os_max_size s then
      \<exists>st. ?h s = (Some (), s\<lparr>os_state := st, os_bytes_written := ?n\<rparr>) \<and>
        written st = written (os_state s) @ as @ bs \<and> room st = room (os_state s) - length (as @ bs)
    else
      \<exists>s' n. n \<le> length (as @ bs) \<and> ?h s = (None, s') \<and> os_bytes_written s + n \<le> os_max_size s \<and>
        os_bytes_written s' = os_bytes_written s + n \<and>
        written (os_state s') = written (os_state s) @ take n (as @ bs)"
  proof (cases "os_callback s = None")
    case True
    then show ?thesis
      using ok emits_sizing [OF f True] emits_sizing [OF g, of "s\<lparr>os_bytes_written := os_bytes_written s + length as\<rparr>"]
      by (auto simp: op_bind_Some add.assoc pb_out_ok_def)
  next
    case cb: False
    show ?thesis
    proof (cases "os_bytes_written s + length as \<le> os_max_size s")
      case True
      obtain st where st: "f s = (Some (), s\<lparr>os_state := st, os_bytes_written := os_bytes_written s + length as\<rparr>)"
          "written st = written (os_state s) @ as" "room st = room (os_state s) - length as"
          "pb_out_ok cb room (s\<lparr>os_state := st, os_bytes_written := os_bytes_written s + length as\<rparr>)"
        using emits_fits [OF f ok cb True] by blast
      show ?thesis
      proof (cases "?n \<le> os_max_size s")
        case True
        then show ?thesis
          using emits_fits [OF g st(4)] st(1-3) cb by (auto simp: op_bind_Some add.assoc)
      next
        case False
        then obtain s' n where "n \<le> length bs" "g (s\<lparr>os_state := st, os_bytes_written := os_bytes_written s + length as\<rparr>) = (None, s')"
            "os_bytes_written s + length as + n \<le> os_max_size s"
            "os_bytes_written s' = os_bytes_written s + length as + n"
            "written (os_state s') = written st @ take n bs"
          using emits_full [OF g st(4)] cb by (auto simp: add.assoc)
        then show ?thesis
          using False st(1,2) cb
          by (auto simp: op_bind_Some add.assoc intro!: exI [of _ "length as + n"])
      qed
    next
      case False
      then obtain s' n where s': "n \<le> length as" "f s = (None, s')" "os_bytes_written s + n \<le> os_max_size s"
          "os_bytes_written s' = os_bytes_written s + n"
          "written (os_state s') = written (os_state s) @ take n as"
        using emits_full [OF f ok cb] by auto
      then show ?thesis
        using False cb by (auto simp: op_bind_None intro!: exI [of _ n])
    qed
  qed
qed

end

interpretation buffer_out: write_callback buf_write "\<lambda>(m, dest). length m - dest" "\<lambda>(m, dest). take dest m"
proof unfold_locales
  fix bs :: "u8 list" and st :: "u8 list \<times> nat"
  assume "length bs \<le> (case st of (m, dest) \<Rightarrow> length m - dest)"
  then show "\<exists>st'. buf_write bs st = (Some (), st') \<and>
      (case st' of (m, dest) \<Rightarrow> take dest m) = (case st of (m, dest) \<Rightarrow> take dest m) @ bs \<and>
      (case st' of (m, dest) \<Rightarrow> length m - dest) = (case st of (m, dest) \<Rightarrow> length m - dest) - length bs"
    by (cases st; cases "bs = []") (auto simp: buf_write_def mem_write_def)
qed

section \<open>The bytes of numbers\<close>

lemma low7_byte: "(ucast ((v :: u64) AND 0x7f) OR 0x80 :: u8) = of_nat (128 + unat v mod 128)"
  and low7_only: "(ucast ((v :: u64) AND 0x7f) OR 0x80 :: u8) AND 0x7f = of_nat (unat v mod 128)"
proof -
  have m: "unat (v AND 0x7f) = unat v mod 128"
    using unat_and_mask [of v 7] by (simp add: mask_eq_exp_minus_1)
  have "unat v mod 128 < 128" by simp
  then have "unat v mod 128 < 2 ^ LENGTH(8)" by simp
  then have b: "unat (ucast (v AND 0x7f) :: u8) = unat v mod 128"
    using m unat_ucast_small [of "v AND 0x7f", where 'b = 8] by simp
  have "(ucast (v AND 0x7f) OR 0x80 :: u8) = push_bit 7 1 OR ucast (v AND 0x7f)" by (simp add: or.commute)
  also have "unat \<dots> = 1 * 2 ^ 7 + unat (ucast (v AND 0x7f) :: u8)"
    using b by (subst unat_push_or) simp_all
  finally have u: "unat (ucast (v AND 0x7f) OR 0x80 :: u8) = 128 + unat v mod 128" using b by simp
  then show "(ucast (v AND 0x7f) OR 0x80 :: u8) = of_nat (128 + unat v mod 128)" by (rule u8_of_unat)
  have "unat ((ucast (v AND 0x7f) OR 0x80 :: u8) AND 0x7f) = unat v mod 128"
    using u mask_7_u8 [of "ucast (v AND 0x7f) OR 0x80"] by simp
  then show "(ucast (v AND 0x7f) OR 0x80 :: u8) AND 0x7f = of_nat (unat v mod 128)" by (rule u8_of_unat)
qed

lemma pb_varint_buffer_bytes:
  "v \<noteq> 0 \<Longrightarrow>
     pb_varint_buffer v \<noteq> [] \<and>
     (pb_varint_buffer v)[length (pb_varint_buffer v) - 1 :=
       pb_varint_buffer v ! (length (pb_varint_buffer v) - 1) AND 0x7f] = varint_bytes (unat v)"
proof (induction v rule: pb_varint_buffer.induct)
  case (1 v)
  show ?case
  proof (cases "drop_bit 7 v = 0")
    case True
    then have small: "unat v < 128" using drop_bit_eq_0_iff [of 7 v] by simp
    have "pb_varint_buffer v = [ucast (v AND 0x7f) OR 0x80]"
      using 1(2) True pb_varint_buffer.simps [of 0] by (subst pb_varint_buffer.simps) simp
    then show ?thesis using small low7_only [of v] by (simp add: varint_bytes.simps [of "unat v"])
  next
    case False
    then have big: "\<not> unat v < 128" using drop_bit_eq_0_iff [of 7 v] by simp
    let ?b = "pb_varint_buffer (drop_bit 7 v)"
    have IH: "?b \<noteq> []" "?b[length ?b - 1 := ?b ! (length ?b - 1) AND 0x7f] = varint_bytes (unat v div 128)"
      using 1(1) [OF 1(2) False] by (simp_all add: unat_drop_bit)
    have "pb_varint_buffer v = (ucast (v AND 0x7f) OR 0x80) # ?b"
      using 1(2) by (subst pb_varint_buffer.simps) simp
    moreover obtain k where "length ?b = Suc k" using IH(1) by (cases ?b) auto
    ultimately show ?thesis
      using IH(2) big low7_byte [of v] by (simp add: varint_bytes.simps [of "unat v"] del: of_nat_add)
  qed
qed

lemma pb_encode_varint_bytes: "pb_encode_varint v = pb_write (varint_bytes (unat v))"
proof (cases "v \<le> 0x7f")
  case True
  then have "unat v < 128" by (simp add: word_le_nat_alt)
  then have "(ucast v :: u8) = of_nat (unat v)" by (intro u8_of_unat) (simp add: unat_ucast_small)
  then show ?thesis
    using True \<open>unat v < 128\<close> by (simp add: pb_encode_varint_def varint_bytes.simps [of "unat v"])
next
  case False
  then have "v \<noteq> 0" by auto
  then show ?thesis using False pb_varint_buffer_bytes [of v] by (simp add: pb_encode_varint_def Let_def)
qed

definition le_bytes :: "nat \<Rightarrow> nat \<Rightarrow> u8 list" where
  "le_bytes n v = rev (be_bytes n v)"

lemma le_bytes_Suc: "le_bytes (Suc n) v = of_nat v # le_bytes n (v div 256)"
  by (simp add: le_bytes_def)

lemma length_le_bytes [simp]: "length (le_bytes n v) = n"
  by (simp add: le_bytes_def)

lemma le_nat_le_bytes [simp]: "v < 256 ^ n \<Longrightarrow> le_nat (le_bytes n v) = v"
  by (simp add: le_bytes_def le_nat_def)

lemma low_byte: "8 \<le> LENGTH('a) \<Longrightarrow> (ucast ((x :: 'a::len word) AND 0xff) :: u8) = of_nat (unat x)"
proof -
  have "unat (x AND 0xff) = unat x mod 256"
    using unat_and_mask [of x 8] by (simp add: mask_eq_exp_minus_1)
  moreover have "unat x mod 256 < 2 ^ LENGTH(8)" by simp
  ultimately have "unat (ucast (x AND 0xff) :: u8) = unat x mod 256"
    using unat_ucast_small [of "x AND 0xff", where 'b = 8] by simp
  then show ?thesis by (simp only: word_unat_eq_iff unat_of_nat_u8)
qed

lemma shifted_byte:
  "8 \<le> LENGTH('a) \<Longrightarrow> (ucast (drop_bit k (w :: 'a::len word) AND 0xff) :: u8) = of_nat (unat w div 2 ^ k)"
  using low_byte [of "drop_bit k w"] by (simp only: unat_drop_bit)

lemma bytes_u32:
  "(ucast ((v :: u32) AND 0xff) :: u8) = of_nat (unat v)"
  "(ucast (drop_bit k (v :: u32) AND 0xff) :: u8) = of_nat (unat v div 2 ^ k)"
  by (rule low_byte shifted_byte, simp)+

lemma bytes_u64:
  "(ucast ((v :: u64) AND 0xff) :: u8) = of_nat (unat v)"
  "(ucast (drop_bit k (v :: u64) AND 0xff) :: u8) = of_nat (unat v div 2 ^ k)"
  by (rule low_byte shifted_byte, simp)+

lemma le_bytes_0 [simp]: "le_bytes 0 v = []"
  by (simp add: le_bytes_def)

lemma le_bytes_4:
  "le_bytes 4 n = [of_nat n, of_nat (n div 2 ^ 8), of_nat (n div 2 ^ 16), of_nat (n div 2 ^ 24)]"
proof -
  have "le_bytes (Suc (Suc (Suc (Suc 0)))) n =
      [of_nat n, of_nat (n div 256), of_nat (n div 256 div 256), of_nat (n div 256 div 256 div 256)]"
    by (simp only: le_bytes_Suc le_bytes_0)
  moreover have "Suc (Suc (Suc (Suc 0))) = 4" by simp
  ultimately show ?thesis by (simp only: div_mult2_eq [symmetric]) simp
qed

lemma le_bytes_8: "le_bytes 8 n = le_bytes 4 n @ le_bytes 4 (n div 2 ^ 32)"
proof -
  have "le_bytes (Suc (Suc (Suc (Suc 4)))) n =
      [of_nat n, of_nat (n div 256), of_nat (n div 256 div 256), of_nat (n div 256 div 256 div 256)] @
      le_bytes 4 (n div 256 div 256 div 256 div 256)"
    by (simp only: le_bytes_Suc append_Cons append_Nil)
  moreover have "Suc (Suc (Suc (Suc 4))) = 8" by simp
  ultimately show ?thesis
    by (simp only: le_bytes_4 [of n] div_mult2_eq [symmetric]) simp
qed

lemma pb_encode_fixed32_bytes: "pb_encode_fixed32 v = pb_write (le_bytes 4 (unat v))"
  unfolding pb_encode_fixed32_def le_bytes_4
  by (simp only: bytes_u32 unat_drop_bit)

lemma pb_encode_fixed64_bytes: "pb_encode_fixed64 v = pb_write (le_bytes 8 (unat v))"
proof -
  have "le_bytes 8 n = [of_nat n, of_nat (n div 2 ^ 8), of_nat (n div 2 ^ 16), of_nat (n div 2 ^ 24),
      of_nat (n div 2 ^ 32), of_nat (n div 2 ^ 40), of_nat (n div 2 ^ 48), of_nat (n div 2 ^ 56)]" for n
    by (simp add: le_bytes_8 le_bytes_4 div_mult2_eq [symmetric])
  then show ?thesis unfolding pb_encode_fixed64_def by (simp only: bytes_u64 unat_drop_bit)
qed

lemma ushift_signed:
  "unat (if sint (v :: u64) < 0 then NOT (push_bit 1 v) else push_bit 1 v) = zigzag (sint v)"
proof -
  have range: "- (2 ^ 63) \<le> sint v" "sint v < 2 ^ 63"
    using sint_range_size [of v] by (simp_all add: word_size)
  have v: "v = of_int (sint v)" by (simp only: of_int_sint scast_id id_apply)
  show ?thesis
  proof (cases "sint v < 0")
    case True
    have "NOT (push_bit 1 v) = of_int (- 2 * sint v - 1)"
      by (subst v) (simp add: push_bit_eq_mult not_eq_complement)
    moreover have "uint (of_int (- 2 * sint v - 1) :: u64) = - 2 * sint v - 1"
      unfolding uint_word_of_int_eq using range True by (simp add: take_bit_int_eq_self)
    ultimately have "uint (NOT (push_bit 1 v)) = - 2 * sint v - 1" by simp
    then show ?thesis using True by (simp add: unat_eq_nat_uint zigzag_def)
  next
    case False
    have "push_bit 1 v = of_int (2 * sint v)"
      by (subst v) (simp add: push_bit_eq_mult)
    moreover have "uint (of_int (2 * sint v) :: u64) = 2 * sint v"
      unfolding uint_word_of_int_eq using range False by (simp add: take_bit_int_eq_self)
    ultimately have "uint (push_bit 1 v) = 2 * sint v" by (simp only:)
    then show ?thesis using False by (simp add: unat_eq_nat_uint zigzag_def)
  qed
qed

lemma pb_encode_svarint_bytes: "pb_encode_svarint v = pb_write (varint_bytes (zigzag (sint v)))"
  unfolding pb_encode_svarint_def Let_def pb_encode_varint_bytes ushift_signed ..

lemma pb_encode_tag_bytes:
  assumes "unat wiretype < 8"
  shows "pb_encode_tag wiretype field_number =
    pb_write (varint_bytes (unat field_number * 8 + unat wiretype))"
proof -
  have "unat field_number < 2 ^ 32" using unsigned_less [of field_number, where 'a = nat] by simp
  then have "unat (push_bit 3 (ucast field_number) OR ucast wiretype :: u64) =
      unat field_number * 8 + unat wiretype"
    using assms by (subst unat_push_or) simp_all
  then show ?thesis by (simp only: pb_encode_tag_def pb_encode_varint_bytes)
qed

section \<open>Strings and submessages\<close>

context write_callback
begin

lemma emits_string:
  assumes "length bs < 2 ^ 64"
  shows "pb_emits cb room written (pb_encode_string bs) (varint_bytes (length bs) @ bs)"
proof -
  have u: "unat (of_nat (length bs) :: u64) = length bs" using assms unfolding unat_of_nat by simp
  have "length (varint_bytes (length bs)) \<le> 10"
    using assms by (intro length_varint_bytes) simp_all
  then show ?thesis
    unfolding pb_encode_string_def pb_encode_varint_bytes u
    using assms by (intro emits_bind emits_write) simp_all
qed

text \<open>
  A submessage is encoded once on a sizing stream and then, behind its length, on a
  substream that is limited to this length.
\<close>

lemma emits_submessage:
  assumes enc: "pb_emits cb room written encode bs" and len: "length bs < 2 ^ 63"
  shows "pb_emits cb room written (pb_encode_submessage encode) (varint_bytes (length bs) @ bs)"
proof -
  let ?l = "varint_bytes (length bs)"
  have size: "encode (PB_OSTREAM_SIZING st) = (Some (), \<lparr>os_callback = None, os_state = st,
      os_max_size = 0, os_bytes_written = length bs, os_errmsg = None\<rparr>)"
    for st using emits_sizing [OF enc, of "PB_OSTREAM_SIZING st"] len by (simp add: PB_OSTREAM_SIZING_def)
  have u: "unat (of_nat (length bs) :: u64) = length bs" using len unfolding unat_of_nat by simp
  have "length ?l \<le> 10" using len by (intro length_varint_bytes) simp_all
  then have l: "pb_emits cb room written (pb_write ?l) ?l" by (intro emits_write) simp
  show ?thesis
    unfolding pb_emits_def
  proof (intro allI impI)
    fix s :: "'st pb_ostream"
    assume ok: "pb_out_ok cb room s"
    let ?n = "os_bytes_written s + length (?l @ bs)"
    show "if os_callback s = None then
        ?n < 2 ^ 64 \<longrightarrow> pb_encode_submessage encode s = (Some (), s\<lparr>os_bytes_written := ?n\<rparr>)
      else if ?n \<le> os_max_size s then
        \<exists>st. pb_encode_submessage encode s = (Some (), s\<lparr>os_state := st, os_bytes_written := ?n\<rparr>) \<and>
          written st = written (os_state s) @ ?l @ bs \<and> room st = room (os_state s) - length (?l @ bs)
      else
        \<exists>s' n. n \<le> length (?l @ bs) \<and> pb_encode_submessage encode s = (None, s') \<and>
          os_bytes_written s + n \<le> os_max_size s \<and> os_bytes_written s' = os_bytes_written s + n \<and>
          written (os_state s') = written (os_state s) @ take n (?l @ bs)"
    proof (cases "os_callback s = None")
      case True
      then show ?thesis
        using emits_sizing [OF l True] ok
        by (auto simp: pb_encode_submessage_def size pb_encode_varint_bytes u op_bind_Some pb_write_null_def
            pb_out_ok_def add.assoc Let_def)
    next
      case cb: False
      then have s: "os_callback s = Some cb" "os_max_size s < 2 ^ 63" "os_errmsg s = None"
        using ok by (auto simp: pb_out_ok_def)
      show ?thesis
      proof (cases "os_bytes_written s + length ?l \<le> os_max_size s")
        case False
        then show ?thesis
          using emits_full [OF l ok cb False] cb
          by (auto simp: pb_encode_submessage_def size pb_encode_varint_bytes u op_bind_None)
      next
        case True
        obtain st where st: "pb_write ?l s = (Some (), s\<lparr>os_state := st, os_bytes_written := os_bytes_written s + length ?l\<rparr>)"
            "written st = written (os_state s) @ ?l" "room st = room (os_state s) - length ?l"
            "pb_out_ok cb room (s\<lparr>os_state := st, os_bytes_written := os_bytes_written s + length ?l\<rparr>)"
          using emits_fits [OF l ok cb True] by blast
        let ?s1 = "s\<lparr>os_state := st, os_bytes_written := os_bytes_written s + length ?l\<rparr>"
        show ?thesis
        proof (cases "?n \<le> os_max_size s")
          case fits: True
          let ?sub = "\<lparr>os_callback = Some cb, os_state = st, os_max_size = length bs, os_bytes_written = 0,
            os_errmsg = None\<rparr>"
          have sub: "pb_out_ok cb room ?sub"
            using st(4) fits len s by (auto simp: pb_out_ok_def)
          obtain st' where st': "encode ?sub = (Some (), ?sub\<lparr>os_state := st', os_bytes_written := length bs\<rparr>)"
              "written st' = written st @ bs" "room st' = room st - length bs"
            using emits_fits [OF enc sub] by auto
          have "pb_encode_submessage encode s = (Some (), s\<lparr>os_state := st', os_bytes_written := ?n\<rparr>)"
            using st(1) st'(1) s fits
            by (cases s) (simp add: pb_encode_submessage_def size pb_encode_varint_bytes u op_bind_Some
                add.assoc Let_def)
          then show ?thesis using st st' s fits by auto
        next
          case big: False
          have "wrap64 (os_bytes_written s + length ?l + length bs) = os_bytes_written s + length ?l + length bs"
            using True s len by simp
          then have "pb_encode_submessage encode s = pb_out_error ''stream full'' ?s1"
            using st(1) s big
            by (simp add: pb_encode_submessage_def size pb_encode_varint_bytes u op_bind_Some add.assoc)
          then show ?thesis
            using st big True cb by (auto simp: pb_out_error_def intro!: exI [of _ "length ?l"])
        qed
      qed
    qed
  qed
qed

end

section \<open>Encoding into a buffer\<close>

text \<open>What is in a buffer of \<open>n\<close> bytes after an encoder that succeeds.\<close>

definition pb_encoded :: "nat \<Rightarrow> ((u8 list \<times> nat) pb_ostream, unit) op \<Rightarrow> u8 list option" where
  "pb_encoded n f =
     (case f (pb_ostream_from_buffer (replicate n 0) n) of
        (None, s) \<Rightarrow> None
      | (Some _, s) \<Rightarrow> Some (take (os_bytes_written s) (fst (os_state s))))"

abbreviation pb_buf_emits :: "((u8 list \<times> nat) pb_ostream, unit) op \<Rightarrow> u8 list \<Rightarrow> bool" where
  "pb_buf_emits \<equiv> pb_emits buf_write (\<lambda>(m, dest). length m - dest) (\<lambda>(m, dest). take dest m)"

lemma pb_encoded_emits:
  assumes f: "pb_buf_emits f bs" and n: "n < 2 ^ 63"
  shows "pb_encoded n f = (if length bs \<le> n then Some bs else None)"
proof -
  let ?s = "pb_ostream_from_buffer (replicate n 0) n"
  have ok: "pb_out_ok buf_write (\<lambda>(m, dest). length m - dest) ?s"
    using n by (simp add: pb_out_ok_def pb_ostream_from_buffer_def)
  have cb: "os_callback ?s \<noteq> None" and z: "os_bytes_written ?s = 0" "os_max_size ?s = n"
      "os_state ?s = (replicate n 0, 0)"
    by (simp_all add: pb_ostream_from_buffer_def)
  show ?thesis
  proof (cases "length bs \<le> n")
    case True
    then obtain st where st: "f ?s = (Some (), ?s\<lparr>os_state := st, os_bytes_written := length bs\<rparr>)"
        "(case st of (m, dest) \<Rightarrow> take dest m) = bs" "(case st of (m, dest) \<Rightarrow> length m - dest) = n - length bs"
      using buffer_out.emits_fits [OF f ok cb] z by auto
    then have "take (length bs) (fst st) = bs" by (cases st) (auto simp: min_def)
    then show ?thesis using st(1) True by (simp add: pb_encoded_def)
  next
    case False
    then show ?thesis
      using buffer_out.emits_full [OF f ok cb] z by (auto simp: pb_encoded_def)
  qed
qed

section \<open>Decoding what was encoded\<close>

lemma le_nat_one: "le_nat [b] = unat b"
  by (simp add: byte_simps)

lemma le_nat_snoc: "le_nat (bs @ [b]) = le_nat bs + unat b * 2 ^ (8 * length bs)"
  by (simp add: le_nat_def be_nat_Cons pow256 mult.commute)

lemma le_nat_bound: "le_nat bs < 2 ^ (8 * length bs)"
  using be_nat_bound [of "rev bs"] by (simp add: le_nat_def pow256 mult.commute)

lemma le_word_step:
  assumes "8 * length bs + 8 \<le> LENGTH('a)"
  shows "(of_nat (le_nat bs) :: 'a::len word) OR push_bit (8 * length bs) (ucast b) =
    of_nat (le_nat (bs @ [b]))"
proof -
  have "(2 :: nat) ^ (8 * length bs) \<le> 2 ^ LENGTH('a)" using assms by (intro power_increasing) simp_all
  then have "le_nat bs < 2 ^ LENGTH('a)" by (rule order.strict_trans2 [OF le_nat_bound])
  then have "unat (of_nat (le_nat bs) :: 'a word) = le_nat bs" unfolding unat_of_nat by simp
  then have "unat (of_nat (le_nat bs) :: 'a word) < 2 ^ (8 * length bs)" using le_nat_bound [of bs] by simp
  moreover have "unat (ucast b :: 'a word) = unat b" using assms by simp
  ultimately show ?thesis using le_nat_snoc [of bs b] by (simp add: or_push_bit_add)
qed

lemma le_word_4:
  assumes "32 \<le> LENGTH('a)"
  shows "(ucast a OR push_bit 8 (ucast b) OR push_bit 16 (ucast c) OR push_bit 24 (ucast d) ::
    'a::len word) = of_nat (le_nat [a, b, c, d])"
proof -
  have "(ucast a OR push_bit 8 (ucast b) :: 'a word) = of_nat (le_nat [a, b])"
    using le_word_step [of "[a]" b, where 'a = 'a] assms by (simp add: le_nat_one)
  moreover have "(of_nat (le_nat [a, b]) OR push_bit 16 (ucast c) :: 'a word) = of_nat (le_nat [a, b, c])"
    using le_word_step [of "[a, b]" c, where 'a = 'a] assms by simp
  moreover have "(of_nat (le_nat [a, b, c]) OR push_bit 24 (ucast d) :: 'a word) = of_nat (le_nat [a, b, c, d])"
    using le_word_step [of "[a, b, c]" d, where 'a = 'a] assms by simp
  ultimately show ?thesis by (simp only: or.assoc [symmetric])
qed

lemma le_word_8:
  "(ucast a OR push_bit 8 (ucast b) OR push_bit 16 (ucast c) OR push_bit 24 (ucast d) OR
     push_bit 32 (ucast e) OR push_bit 40 (ucast f) OR push_bit 48 (ucast g) OR push_bit 56 (ucast h) ::
     u64) = of_nat (le_nat [a, b, c, d, e, f, g, h])"
proof -
  have "(ucast a OR push_bit 8 (ucast b) OR push_bit 16 (ucast c) OR push_bit 24 (ucast d) :: u64) =
      of_nat (le_nat [a, b, c, d])" by (rule le_word_4) simp
  moreover have "(of_nat (le_nat [a, b, c, d]) OR push_bit 32 (ucast e) :: u64) = of_nat (le_nat [a, b, c, d, e])"
    using le_word_step [of "[a, b, c, d]" e, where 'a = 64] by simp
  moreover have "(of_nat (le_nat [a, b, c, d, e]) OR push_bit 40 (ucast f) :: u64) =
      of_nat (le_nat [a, b, c, d, e, f])"
    using le_word_step [of "[a, b, c, d, e]" f, where 'a = 64] by simp
  moreover have "(of_nat (le_nat [a, b, c, d, e, f]) OR push_bit 48 (ucast g) :: u64) =
      of_nat (le_nat [a, b, c, d, e, f, g])"
    using le_word_step [of "[a, b, c, d, e, f]" g, where 'a = 64] by simp
  moreover have "(of_nat (le_nat [a, b, c, d, e, f, g]) OR push_bit 56 (ucast h) :: u64) =
      of_nat (le_nat [a, b, c, d, e, f, g, h])"
    using le_word_step [of "[a, b, c, d, e, f, g]" h, where 'a = 64] by simp
  ultimately show ?thesis by (simp only: or.assoc [symmetric])
qed

context read_callback
begin

lemma decode_fixed32_at:
  assumes "length bs = 4" and "pb_at cb contents e s (bs @ rest) tail"
  shows "\<exists>s'. pb_decode_fixed32 s = (Some (of_nat (le_nat bs)), s') \<and> pb_at cb contents e s' rest tail"
proof -
  obtain s' where "pb_read_buf 4 s = (Some bs, s')" "pb_at cb contents e s' rest tail"
    using read_buf_at [OF assms(2)] assms(1) by auto
  moreover have "bs = [bs ! 0, bs ! 1, bs ! 2, bs ! 3]"
    using assms(1) by (intro nth_equalityI) (auto simp: less_Suc_eq numeral_eq_Suc)
  ultimately show ?thesis
    using le_word_4 [of "bs ! 0" "bs ! 1" "bs ! 2" "bs ! 3", where 'a = 32]
    by (simp only: pb_decode_fixed32_def op_bind_Some op_ret_def) simp
qed

lemma decode_fixed64_at:
  assumes "length bs = 8" and "pb_at cb contents e s (bs @ rest) tail"
  shows "\<exists>s'. pb_decode_fixed64 s = (Some (of_nat (le_nat bs)), s') \<and> pb_at cb contents e s' rest tail"
proof -
  obtain s' where "pb_read_buf 8 s = (Some bs, s')" "pb_at cb contents e s' rest tail"
    using read_buf_at [OF assms(2)] assms(1) by auto
  moreover have "bs = [bs ! 0, bs ! 1, bs ! 2, bs ! 3, bs ! 4, bs ! 5, bs ! 6, bs ! 7]"
    using assms(1) by (intro nth_equalityI) (auto simp: less_Suc_eq numeral_eq_Suc)
  ultimately show ?thesis
    using le_word_8 [of "bs ! 0" "bs ! 1" "bs ! 2" "bs ! 3" "bs ! 4" "bs ! 5" "bs ! 6" "bs ! 7"]
    by (simp only: pb_decode_fixed64_def op_bind_Some op_ret_def) simp
qed

end

text \<open>\<open>n\<close> values one after the other.\<close>

fun op_times :: "nat \<Rightarrow> ('s, 'a) op \<Rightarrow> ('s, 'a list) op" where
  "op_times 0 f = op_ret []"
| "op_times (Suc n) f = op_bind f (\<lambda>x. op_bind (op_times n f) (\<lambda>xs. op_ret (x # xs)))"

text \<open>
  A codec of the wire format: the encoder emits the wire form of the valid values and the
  decoder reads it and stops behind it.
\<close>

locale pb_codec =
  fixes enc :: "'a \<Rightarrow> ((u8 list \<times> nat) pb_ostream, unit) op"
    and dec :: "(u8 list pb_istream, 'a) op"
    and wire :: "'a \<Rightarrow> u8 list" and valid :: "'a \<Rightarrow> bool"
  assumes enc_emits: "valid v \<Longrightarrow> pb_buf_emits (enc v) (wire v)"
    and dec_reads: "valid v \<Longrightarrow> pb_at buf_read (\<lambda>st. st) e s (wire v @ rest) tail \<Longrightarrow>
      \<exists>s'. dec s = (Some v, s') \<and> pb_at buf_read (\<lambda>st. st) e s' rest tail"
begin

lemma each_emits: "list_all valid vs \<Longrightarrow> pb_buf_emits (op_each enc vs) (concat (map wire vs))"
  by (induction vs) (auto intro!: buffer_out.emits_bind buffer_out.emits_ret enc_emits)

lemma times_reads:
  "list_all valid vs \<Longrightarrow> pb_at buf_read (\<lambda>st. st) e s (concat (map wire vs) @ rest) tail \<Longrightarrow>
     \<exists>s'. op_times (length vs) dec s = (Some vs, s') \<and> pb_at buf_read (\<lambda>st. st) e s' rest tail"
proof (induction vs arbitrary: s)
  case Nil
  then show ?case by (simp add: op_ret_def)
next
  case (Cons v vs)
  obtain s1 where s1: "dec s = (Some v, s1)"
      "pb_at buf_read (\<lambda>st. st) e s1 (concat (map wire vs) @ rest) tail"
    using dec_reads [of v e s "concat (map wire vs) @ rest" tail] Cons.prems by auto
  then show ?case
    using Cons.IH [OF _ s1(2)] Cons.prems(1) by (auto simp: op_bind_Some op_ret_def)
qed

lemma roundtrip:
  assumes "list_all valid vs" and "length (concat (map wire vs)) \<le> n" and "n < 2 ^ 63"
  shows "\<exists>bs. pb_encoded n (op_each enc vs) = Some bs \<and>
    fst (op_times (length vs) dec (pb_buffer bs)) = Some vs"
proof -
  have "pb_encoded n (op_each enc vs) = Some (concat (map wire vs))"
    using pb_encoded_emits [OF each_emits [OF assms(1)] assms(3)] assms(2) by simp
  moreover obtain s' where "op_times (length vs) dec (pb_buffer (concat (map wire vs))) = (Some vs, s')"
    using times_reads [OF assms(1), of None "pb_buffer (concat (map wire vs))" "[]" "[]"] pb_at_buffer
    by auto
  ultimately show ?thesis by simp
qed

end

lemma varint_word: "(of_nat (varint_value (varint_bytes (unat (v :: u64)))) :: u64) = v"
  by simp

interpretation pb_varint: pb_codec pb_encode_varint pb_decode_varint "\<lambda>v. varint_bytes (unat v)" "\<lambda>v. True"
proof unfold_locales
  fix v :: u64 and e s rest tail
  show "pb_buf_emits (pb_encode_varint v) (varint_bytes (unat v))"
    unfolding pb_encode_varint_bytes
    using length_varint_bytes_u64 [of v] by (intro buffer_out.emits_write) simp
  assume "pb_at buf_read (\<lambda>st. st) e s (varint_bytes (unat v) @ rest) tail"
  from buffer.decode_varint_at [OF varint_bytes_form length_varint_bytes_u64 this]
  show "\<exists>s'. pb_decode_varint s = (Some v, s') \<and> pb_at buf_read (\<lambda>st. st) e s' rest tail"
    unfolding varint_word .
qed

interpretation pb_svarint: pb_codec pb_encode_svarint pb_decode_svarint
  "\<lambda>v. varint_bytes (zigzag (sint v))" "\<lambda>v. True"
proof unfold_locales
  fix v :: u64 and e s rest tail
  have "length (varint_bytes (zigzag (sint v))) \<le> 10"
    using length_varint_bytes_u64 [of "if sint v < 0 then NOT (push_bit 1 v) else push_bit 1 v"]
    by (simp only: ushift_signed)
  then show "pb_buf_emits (pb_encode_svarint v) (varint_bytes (zigzag (sint v)))"
    unfolding pb_encode_svarint_bytes by (intro buffer_out.emits_write) simp
  assume "pb_at buf_read (\<lambda>st. st) e s (varint_bytes (zigzag (sint v)) @ rest) tail"
  then show "\<exists>s'. pb_decode_svarint s = (Some v, s') \<and> pb_at buf_read (\<lambda>st. st) e s' rest tail"
    by (rule buffer.decode_svarint_at)
qed

interpretation pb_fixed32: pb_codec pb_encode_fixed32 pb_decode_fixed32 "\<lambda>v. le_bytes 4 (unat v)" "\<lambda>v. True"
proof unfold_locales
  fix v :: u32 and e s rest tail
  show "pb_buf_emits (pb_encode_fixed32 v) (le_bytes 4 (unat v))"
    unfolding pb_encode_fixed32_bytes by (rule buffer_out.emits_write) simp
  assume "pb_at buf_read (\<lambda>st. st) e s (le_bytes 4 (unat v) @ rest) tail"
  from buffer.decode_fixed32_at [OF _ this]
  show "\<exists>s'. pb_decode_fixed32 s = (Some v, s') \<and> pb_at buf_read (\<lambda>st. st) e s' rest tail"
    using unsigned_less [of v, where 'a = nat] by simp
qed

interpretation pb_fixed64: pb_codec pb_encode_fixed64 pb_decode_fixed64 "\<lambda>v. le_bytes 8 (unat v)" "\<lambda>v. True"
proof unfold_locales
  fix v :: u64 and e s rest tail
  show "pb_buf_emits (pb_encode_fixed64 v) (le_bytes 8 (unat v))"
    unfolding pb_encode_fixed64_bytes by (rule buffer_out.emits_write) simp
  assume "pb_at buf_read (\<lambda>st. st) e s (le_bytes 8 (unat v) @ rest) tail"
  from buffer.decode_fixed64_at [OF _ this]
  show "\<exists>s'. pb_decode_fixed64 s = (Some v, s') \<and> pb_at buf_read (\<lambda>st. st) e s' rest tail"
    using unat_u64_less [of v] by simp
qed

section \<open>Properties\<close>

text \<open>
  Zigzag-encoded signed numbers that are written into a large enough buffer are read back.
\<close>

theorem pb_svarints_roundtrip:
  assumes "length (concat (map (\<lambda>v. varint_bytes (zigzag (sint v))) vs)) \<le> n" and "n < 2 ^ 63"
  shows "\<exists>bs. pb_encoded n (op_each pb_encode_svarint vs) = Some bs \<and>
    fst (op_times (length vs) pb_decode_svarint (pb_buffer bs)) = Some vs"
  using assms by (intro pb_svarint.roundtrip) (simp_all add: list_all_iff)

theorem pb_svarints_roundtrip_witness:
  "\<exists>bs. pb_encoded 100 (op_each pb_encode_svarint [- 1, 5]) = Some bs \<and>
    fst (op_times (length [- 1 :: u64, 5]) pb_decode_svarint (pb_buffer bs)) = Some [- 1, 5]"
  by (rule pb_svarints_roundtrip) (simp_all add: zigzag_def varint_bytes.simps)

text \<open>
  C13: an encoder that emits \<open>bs\<close> becomes, as a submessage, an encoder that emits the length
  of \<open>bs\<close> as a varint and \<open>bs\<close>; it returns failure exactly when the buffer is too small for
  both.  (On failure the buffer is not specified: the length may have been written already.)
\<close>

theorem pb_encode_submessage_emits:
  assumes "pb_buf_emits f bs" and "length bs < 2 ^ 63" and "n < 2 ^ 63"
  shows "pb_encoded n (pb_encode_submessage f) =
    (if length (varint_bytes (length bs) @ bs) \<le> n then Some (varint_bytes (length bs) @ bs) else None)"
  by (rule pb_encoded_emits [OF buffer_out.emits_submessage [OF assms(1,2)] assms(3)])

theorem pb_encode_submessage_emits_witness:
  "pb_encoded 10 (pb_encode_submessage (pb_encode_fixed32 1)) = Some [4, 1, 0, 0, 0]"
proof -
  have "pb_buf_emits (pb_encode_fixed32 1) (le_bytes 4 (unat (1 :: u32)))"
    by (rule pb_fixed32.enc_emits) simp
  from pb_encode_submessage_emits [OF this, of 10] show ?thesis
    by (simp add: varint_bytes.simps le_bytes_4)
qed

end
