(* ===== verification/Pb_Fields.thy ===== *)
theory Pb_Fields
  imports Prelude
begin

text \<open>
  Field descriptors and the field iterator of \<open>nanopb/pb.h\<close> and \<open>nanopb/pb_common.c\<close>.
  Addresses are integers, \<open>NULL\<close> is 0, and the memory of the message structures is a
  function from addresses to bytes.  A descriptor array \<open>pb_field_t[]\<close> is the list of its
  entries; reading at its end gives the terminator \<open>PB_LAST_FIELD\<close>.
\<close>

section \<open>Memory\<close>

type_synonym mem = "int \<Rightarrow> u8"

definition mem_bytes :: "mem \<Rightarrow> int \<Rightarrow> nat \<Rightarrow> u8 list" where
  "mem_bytes m a n = map (\<lambda>i. m (a + int i)) [0..<n]"

text \<open>A little-endian number of \<open>n\<close> bytes, and a pointer.\<close>

definition load :: "nat \<Rightarrow> mem \<Rightarrow> int \<Rightarrow> nat" where
  "load n m a = le_nat (mem_bytes m a n)"

definition load_ptr :: "mem \<Rightarrow> int \<Rightarrow> int" where
  "load_ptr m a = int (load 8 m a)"

lemma length_mem_bytes [simp]: "length (mem_bytes m a n) = n"
  by (simp add: mem_bytes_def)

lemma mem_bytes_0 [simp]: "mem_bytes m a 0 = []"
  by (simp add: mem_bytes_def)

lemma mem_bytes_Suc: "mem_bytes m a (Suc n) = m a # mem_bytes m (a + 1) n"
  by (simp add: mem_bytes_def map_upt_Suc add.assoc del: upt_Suc)

lemma mem_bytes_numeral: "mem_bytes m a (numeral k) = m a # mem_bytes m (a + 1) (pred_numeral k)"
  by (simp add: numeral_eq_Suc mem_bytes_Suc)

lemma mem_bytes_add: "mem_bytes m a (i + j) = mem_bytes m a i @ mem_bytes m (a + int i) j"
  by (induction i arbitrary: a) (simp_all add: mem_bytes_Suc ac_simps)

section \<open>Descriptors\<close>

record pb_field =
  f_tag :: u32
  f_type :: u8
  f_data_offset :: u32
  f_size_offset :: "32 word"
  f_data_size :: u32
  f_array_size :: u32
  f_ptr :: int

definition PB_LAST_FIELD :: pb_field where
  "PB_LAST_FIELD = \<lparr>f_tag = 0, f_type = 0, f_data_offset = 0, f_size_offset = 0, f_data_size = 0,
     f_array_size = 0, f_ptr = 0\<rparr>"

definition PB_LTYPE_BOOL :: u8 where "PB_LTYPE_BOOL = 0x00"
definition PB_LTYPE_VARINT :: u8 where "PB_LTYPE_VARINT = 0x01"
definition PB_LTYPE_UVARINT :: u8 where "PB_LTYPE_UVARINT = 0x02"
definition PB_LTYPE_SVARINT :: u8 where "PB_LTYPE_SVARINT = 0x03"
definition PB_LTYPE_FIXED32 :: u8 where "PB_LTYPE_FIXED32 = 0x04"
definition PB_LTYPE_FIXED64 :: u8 where "PB_LTYPE_FIXED64 = 0x05"
definition PB_LTYPE_LAST_PACKABLE :: u8 where "PB_LTYPE_LAST_PACKABLE = 0x05"
definition PB_LTYPE_BYTES :: u8 where "PB_LTYPE_BYTES = 0x06"
definition PB_LTYPE_STRING :: u8 where "PB_LTYPE_STRING = 0x07"
definition PB_LTYPE_SUBMESSAGE :: u8 where "PB_LTYPE_SUBMESSAGE = 0x08"
definition PB_LTYPE_EXTENSION :: u8 where "PB_LTYPE_EXTENSION = 0x09"
definition PB_LTYPE_FIXED_LENGTH_BYTES :: u8 where "PB_LTYPE_FIXED_LENGTH_BYTES = 0x0A"

definition PB_HTYPE_REQUIRED :: u8 where "PB_HTYPE_REQUIRED = 0x00"
definition PB_HTYPE_OPTIONAL :: u8 where "PB_HTYPE_OPTIONAL = 0x10"
definition PB_HTYPE_REPEATED :: u8 where "PB_HTYPE_REPEATED = 0x20"
definition PB_HTYPE_ONEOF :: u8 where "PB_HTYPE_ONEOF = 0x30"

definition PB_ATYPE_STATIC :: u8 where "PB_ATYPE_STATIC = 0x00"
definition PB_ATYPE_POINTER :: u8 where "PB_ATYPE_POINTER = 0x80"
definition PB_ATYPE_CALLBACK :: u8 where "PB_ATYPE_CALLBACK = 0x40"

definition PB_ATYPE :: "u8 \<Rightarrow> u8" where "PB_ATYPE x = x AND 0xC0"
definition PB_HTYPE :: "u8 \<Rightarrow> u8" where "PB_HTYPE x = x AND 0x30"
definition PB_LTYPE :: "u8 \<Rightarrow> u8" where "PB_LTYPE x = x AND 0x0F"

lemmas pb_ltypes = PB_LTYPE_BOOL_def PB_LTYPE_VARINT_def PB_LTYPE_UVARINT_def PB_LTYPE_SVARINT_def
  PB_LTYPE_FIXED32_def PB_LTYPE_FIXED64_def PB_LTYPE_LAST_PACKABLE_def PB_LTYPE_BYTES_def
  PB_LTYPE_STRING_def PB_LTYPE_SUBMESSAGE_def PB_LTYPE_EXTENSION_def PB_LTYPE_FIXED_LENGTH_BYTES_def

lemmas pb_htypes = PB_HTYPE_REQUIRED_def PB_HTYPE_OPTIONAL_def PB_HTYPE_REPEATED_def PB_HTYPE_ONEOF_def

lemmas pb_atypes = PB_ATYPE_STATIC_def PB_ATYPE_POINTER_def PB_ATYPE_CALLBACK_def

definition PB_SIZE_MAX :: u32 where
  "PB_SIZE_MAX = - 1"

text \<open>The size of a pointer on the 64-bit targets.\<close>

definition sizeof_ptr :: nat where
  "sizeof_ptr = 8"

section \<open>The iterator\<close>

record pb_field_iter =
  it_start :: "pb_field list"
  it_pos :: nat
  it_required_field_index :: nat
  it_dest_struct :: int
  it_pData :: int
  it_pSize :: int

definition field_at :: "pb_field list \<Rightarrow> nat \<Rightarrow> pb_field" where
  "field_at fs i = (if i < length fs then fs ! i else PB_LAST_FIELD)"

abbreviation it_field :: "pb_field_iter \<Rightarrow> pb_field" where
  "it_field iter \<equiv> field_at (it_start iter) (it_pos iter)"

definition pb_field_iter_begin :: "pb_field list \<Rightarrow> int \<Rightarrow> bool \<times> pb_field_iter" where
  "pb_field_iter_begin fs dest_struct =
     (let pos = field_at fs 0;
          pData = dest_struct + int (unat (f_data_offset pos))
      in (f_tag pos \<noteq> 0,
          \<lparr>it_start = fs, it_pos = 0, it_required_field_index = 0, it_dest_struct = dest_struct,
           it_pData = pData, it_pSize = pData + sint (f_size_offset pos)\<rparr>))"

definition pb_field_iter_next :: "pb_field_iter \<Rightarrow> bool \<times> pb_field_iter" where
  "pb_field_iter_next iter =
     (let prev_field = it_field iter in
      if f_tag prev_field = 0 then (False, iter)
      else
        let iter = iter\<lparr>it_pos := it_pos iter + 1\<rparr>; pos = it_field iter in
        if f_tag pos = 0 then (False, snd (pb_field_iter_begin (it_start iter) (it_dest_struct iter)))
        else if PB_HTYPE (f_type prev_field) = PB_HTYPE_ONEOF \<and> PB_HTYPE (f_type pos) = PB_HTYPE_ONEOF \<and>
          f_data_offset pos = PB_SIZE_MAX then (True, iter)
        else
          let prev_size = unat (f_data_size prev_field);
              prev_size =
                (if PB_ATYPE (f_type prev_field) = PB_ATYPE_STATIC \<and>
                    PB_HTYPE (f_type prev_field) = PB_HTYPE_REPEATED
                 then prev_size * unat (f_array_size prev_field)
                 else if PB_ATYPE (f_type prev_field) = PB_ATYPE_POINTER then sizeof_ptr
                 else prev_size);
              iter = (if PB_HTYPE (f_type prev_field) = PB_HTYPE_REQUIRED
                      then iter\<lparr>it_required_field_index := it_required_field_index iter + 1\<rparr> else iter);
              pData = it_pData iter + int prev_size + int (unat (f_data_offset pos))
          in (True, iter\<lparr>it_pData := pData, it_pSize := pData + sint (f_size_offset pos)\<rparr>))"

text \<open>
  A search ends when the iterator is back at the position where it began; on a damaged array
  it might not end.
\<close>

partial_function (option) iter_search ::
    "(pb_field \<Rightarrow> bool) \<Rightarrow> nat \<Rightarrow> pb_field_iter \<Rightarrow> (bool \<times> pb_field_iter) option"
where
  "iter_search p start iter =
     (if p (it_field iter) then Some (True, iter)
      else
        let iter = snd (pb_field_iter_next iter) in
        if it_pos iter \<noteq> start then iter_search p start iter else Some (False, iter))"

declare iter_search.simps [code]

definition pb_field_iter_find :: "u32 \<Rightarrow> pb_field_iter \<Rightarrow> (bool \<times> pb_field_iter) option" where
  "pb_field_iter_find tag iter =
     iter_search (\<lambda>f. f_tag f = tag \<and> PB_LTYPE (f_type f) \<noteq> PB_LTYPE_EXTENSION) (it_pos iter) iter"

text \<open>
  The loop \<open>do f while (pb_field_iter_next(&iter))\<close> over the members, for at most \<open>k\<close> of them.
\<close>

fun each_field :: "(pb_field_iter \<Rightarrow> ('s, unit) op) \<Rightarrow> nat \<Rightarrow> pb_field_iter \<Rightarrow> ('s, unit) op" where
  "each_field f 0 iter = op_fail"
| "each_field f (Suc k) iter =
     op_bind (f iter) (\<lambda>_.
       case pb_field_iter_next iter of
         (False, iter) \<Rightarrow> op_ret ()
       | (True, iter) \<Rightarrow> each_field f k iter)"

section \<open>Where the iterator points\<close>

text \<open>
  The members of the structure are laid out as the descriptors say: an offset from the end
  of the member before, except inside a union, where all members have the same place.
\<close>

definition member_size :: "pb_field \<Rightarrow> nat" where
  "member_size f =
     (if PB_ATYPE (f_type f) = PB_ATYPE_STATIC \<and> PB_HTYPE (f_type f) = PB_HTYPE_REPEATED
      then unat (f_data_size f) * unat (f_array_size f)
      else if PB_ATYPE (f_type f) = PB_ATYPE_POINTER then sizeof_ptr else unat (f_data_size f))"

definition in_union :: "pb_field \<Rightarrow> pb_field \<Rightarrow> bool" where
  "in_union f g \<longleftrightarrow> PB_HTYPE (f_type f) = PB_HTYPE_ONEOF \<and> PB_HTYPE (f_type g) = PB_HTYPE_ONEOF \<and>
     f_data_offset g = PB_SIZE_MAX"

fun member_offset :: "pb_field list \<Rightarrow> nat \<Rightarrow> nat" where
  "member_offset fs 0 = unat (f_data_offset (fs ! 0))"
| "member_offset fs (Suc i) =
     (if in_union (fs ! i) (fs ! Suc i) then member_offset fs i
      else member_offset fs i + member_size (fs ! i) + unat (f_data_offset (fs ! Suc i)))"

text \<open>The place of the size or presence member; inside a union it is the one of its first member.\<close>

fun member_size_offset :: "pb_field list \<Rightarrow> nat \<Rightarrow> int" where
  "member_size_offset fs 0 = int (member_offset fs 0) + sint (f_size_offset (fs ! 0))"
| "member_size_offset fs (Suc i) =
     (if in_union (fs ! i) (fs ! Suc i) then member_size_offset fs i
      else int (member_offset fs (Suc i)) + sint (f_size_offset (fs ! Suc i)))"

definition required_before :: "pb_field list \<Rightarrow> nat \<Rightarrow> nat" where
  "required_before fs i = length (filter (\<lambda>f. PB_HTYPE (f_type f) = PB_HTYPE_REQUIRED) (take i fs))"

definition fields_ok :: "pb_field list \<Rightarrow> bool" where
  "fields_ok fs \<longleftrightarrow> fs \<noteq> [] \<and> list_all (\<lambda>f. f_tag f \<noteq> 0) fs"

definition iter_at :: "pb_field list \<Rightarrow> int \<Rightarrow> nat \<Rightarrow> pb_field_iter" where
  "iter_at fs dest i =
     \<lparr>it_start = fs, it_pos = i, it_required_field_index = required_before fs i, it_dest_struct = dest,
      it_pData = dest + int (member_offset fs i), it_pSize = dest + member_size_offset fs i\<rparr>"

lemma iter_at_simps [simp]:
  "it_start (iter_at fs dest i) = fs" "it_pos (iter_at fs dest i) = i"
  "it_dest_struct (iter_at fs dest i) = dest"
  "it_pData (iter_at fs dest i) = dest + int (member_offset fs i)"
  "it_pSize (iter_at fs dest i) = dest + member_size_offset fs i"
  by (simp_all add: iter_at_def)

lemma field_at_ok: "fields_ok fs \<Longrightarrow> i < length fs \<Longrightarrow> field_at fs i = fs ! i \<and> f_tag (fs ! i) \<noteq> 0"
  by (simp add: fields_ok_def field_at_def list_all_length)

lemma iter_begin: "fields_ok fs \<Longrightarrow> pb_field_iter_begin fs dest = (True, iter_at fs dest 0)"
  using field_at_ok [of fs 0]
  by (auto simp: pb_field_iter_begin_def iter_at_def Let_def required_before_def fields_ok_def)

lemma iter_next:
  assumes "fields_ok fs" and "i < length fs"
  shows "pb_field_iter_next (iter_at fs dest i) =
    (if Suc i < length fs then (True, iter_at fs dest (Suc i)) else (False, iter_at fs dest 0))"
proof (cases "Suc i < length fs")
  case False
  then have "field_at fs (Suc i) = PB_LAST_FIELD" by (simp add: field_at_def)
  then show ?thesis
    using field_at_ok [OF assms] iter_begin [OF assms(1), of dest] False
    by (simp add: pb_field_iter_next_def iter_at_def Let_def PB_LAST_FIELD_def)
next
  case True
  have req: "required_before fs (Suc i) =
      required_before fs i + (if PB_HTYPE (f_type (fs ! i)) = PB_HTYPE_REQUIRED then 1 else 0)"
    using assms(2) by (simp add: required_before_def take_Suc_conv_app_nth)
  have "PB_HTYPE_ONEOF \<noteq> PB_HTYPE_REQUIRED" by (simp add: pb_htypes)
  then show ?thesis
    using field_at_ok [OF assms] field_at_ok [OF assms(1) True] True
    by (auto simp: pb_field_iter_next_def iter_at_def Let_def req member_size_def in_union_def)
qed

section \<open>Finding a field\<close>

text \<open>A search at position \<open>i\<close>, with \<open>k\<close> positions to go before it is back at its start.\<close>

lemma search_at:
  assumes ok: "fields_ok fs"
  shows "0 < k \<Longrightarrow> k \<le> length fs \<Longrightarrow> i < length fs \<Longrightarrow> start = (i + k) mod length fs \<Longrightarrow>
    \<exists>found j. iter_search p start (iter_at fs dest i) = Some (found, iter_at fs dest j) \<and>
      j < length fs \<and>
      (if found then p (fs ! j)
       else j = start \<and> (\<forall>l < k. \<not> p (fs ! ((i + l) mod length fs))))"
proof (induction k arbitrary: i)
  case 0
  then show ?case by simp
next
  case (Suc k)
  note i = Suc.prems(3)
  have f: "field_at fs i = fs ! i" using field_at_ok [OF ok i] by simp
  show ?case
  proof (cases "p (fs ! i)")
    case True
    then have "iter_search p start (iter_at fs dest i) = Some (True, iter_at fs dest i)"
      by (subst iter_search.simps) (simp add: f)
    then show ?thesis using True i by auto
  next
    case False
    define i' where "i' = Suc i mod length fs"
    have "0 < length fs" using i by linarith
    then have i': "i' < length fs" unfolding i'_def by (rule mod_less_divisor)
    have next_at: "snd (pb_field_iter_next (iter_at fs dest i)) = iter_at fs dest i'"
      using iter_next [OF ok i] i by (auto simp: i'_def mod_Suc)
    have loop: "iter_search p start (iter_at fs dest i) =
        (if i' \<noteq> start then iter_search p start (iter_at fs dest i') else Some (False, iter_at fs dest i'))"
      using False by (subst iter_search.simps) (auto simp: f next_at Let_def)
    have shift: "(i' + l) mod length fs = (i + Suc l) mod length fs" for l
      by (simp add: i'_def mod_simps)
    show ?thesis
    proof (cases "i' = start")
      case True
      have "k = 0"
      proof (rule ccontr)
        assume "k \<noteq> 0"
        have "(i' + k) mod length fs = i' mod length fs" using True Suc.prems(4) shift [of k] i' by simp
        then have "k mod length fs = 0" by (metis add_cancel_right_right mod_add_left_eq mod_eq_nat1E add.commute
              diff_add_inverse mod_mult_self1_is_0 le_add1 mult.commute)
        then show False using \<open>k \<noteq> 0\<close> Suc.prems(2) by (simp add: mod_eq_0_iff_dvd nat_dvd_not_less)
      qed
      then show ?thesis using loop True False i i' by (intro exI [of _ False] exI [of _ start]) auto
    next
      case ne: False
      have "0 < k" using ne Suc.prems(4) i by (cases k) (auto simp: i'_def)
      moreover have "start = (i' + k) mod length fs" using Suc.prems(4) shift [of k] by simp
      ultimately obtain found j where j:
          "iter_search p start (iter_at fs dest i') = Some (found, iter_at fs dest j)" "j < length fs"
          "if found then p (fs ! j) else j = start \<and> (\<forall>l < k. \<not> p (fs ! ((i' + l) mod length fs)))"
        using Suc.IH [OF _ _ i'] Suc.prems(2) by auto
      have "\<forall>l < Suc k. \<not> p (fs ! ((i + l) mod length fs))"
        if "\<forall>l < k. \<not> p (fs ! ((i' + l) mod length fs))"
        using that False i by (auto simp: less_Suc_eq_0_disj shift)
      then show ?thesis using loop ne j by (cases found) auto
    qed
  qed
qed

lemma search_finds:
  assumes "fields_ok fs" and "i < length fs"
  shows "\<exists>found j. iter_search p i (iter_at fs dest i) = Some (found, iter_at fs dest j) \<and>
    j < length fs \<and> found = list_ex p fs \<and> (if found then p (fs ! j) else j = i)"
proof -
  have "i = (i + length fs) mod length fs" using assms(2) by simp
  then obtain found j where j: "iter_search p i (iter_at fs dest i) = Some (found, iter_at fs dest j)"
      "j < length fs" "if found then p (fs ! j)
         else j = i \<and> (\<forall>l < length fs. \<not> p (fs ! ((i + l) mod length fs)))"
    using search_at [OF assms(1) _ _ assms(2), of "length fs" i p dest] assms(2) by fastforce
  have "found = list_ex p fs"
  proof (cases found)
    case True
    then show ?thesis using j(2,3) by (auto simp: list_ex_length)
  next
    case False
    have "\<not> p (fs ! q)" if q: "q < length fs" for q
    proof -
      have "(i + (q + length fs - i) mod length fs) mod length fs = q"
        using assms(2) q by (simp add: mod_simps)
      moreover have "0 < length fs" using q by linarith
      then have "(q + length fs - i) mod length fs < length fs" by (rule mod_less_divisor)
      ultimately show ?thesis using j(3) False by metis
    qed
    then show ?thesis using False by (auto simp: list_ex_length)
  qed
  then show ?thesis using j by auto
qed

definition wanted :: "u32 \<Rightarrow> pb_field \<Rightarrow> bool" where
  "wanted tag f \<longleftrightarrow> f_tag f = tag \<and> PB_LTYPE (f_type f) \<noteq> PB_LTYPE_EXTENSION"

text \<open>
  C22: \<open>pb_field_iter_find\<close> ends from every position of the iterator.  It finds a field with the
  tag, passing over extension placeholders, exactly when there is one, and then points at its
  member in the structure; otherwise the iterator is where it was.
\<close>

theorem pb_field_iter_find_finds:
  assumes "fields_ok fs" and "i < length fs"
  shows "\<exists>found j. pb_field_iter_find tag (iter_at fs dest i) = Some (found, iter_at fs dest j) \<and>
    j < length fs \<and> found = list_ex (wanted tag) fs \<and>
    (if found then wanted tag (fs ! j) else j = i)"
  using search_finds [OF assms, of "wanted tag"] by (simp add: pb_field_iter_find_def wanted_def [abs_def])

theorem pb_field_iter_find_finds_witness:
  "\<exists>found j. pb_field_iter_find 2 (iter_at [PB_LAST_FIELD\<lparr>f_tag := 1\<rparr>, PB_LAST_FIELD\<lparr>f_tag := 2\<rparr>] 100 1) =
    Some (found, iter_at [PB_LAST_FIELD\<lparr>f_tag := 1\<rparr>, PB_LAST_FIELD\<lparr>f_tag := 2\<rparr>] 100 j) \<and> found"
  using pb_field_iter_find_finds [of "[PB_LAST_FIELD\<lparr>f_tag := 1\<rparr>, PB_LAST_FIELD\<lparr>f_tag := 2\<rparr>]" 1 2 100]
  by (auto simp: fields_ok_def PB_LAST_FIELD_def wanted_def pb_ltypes PB_LTYPE_def)

end
