(* ===== verification/Pb_Decode.thy ===== *)
theory Pb_Decode
  imports Pb_Ostream Pb_Fields
begin

text \<open>
  The message decoder of \<open>nanopb/pb_decode.c\<close>, with dynamic allocation.  The state is the
  stream, the memory of the structures and the heap, which knows the size of every live
  block.  Functions of the application and of the C library are in an environment.  The
  first argument of the recursive functions bounds the nesting of messages, the length of
  extension lists and the calls of one callback; when it is exhausted they fail.
\<close>

section \<open>State\<close>

record 'st pb_dstate =
  ds_stream :: "'st pb_istream"
  ds_mem :: mem
  ds_heap :: "int \<Rightarrow> nat option"
  ds_bad_ptr :: "int option"

type_synonym ('st, 'a) dec = "('st pb_dstate, 'a) op"

text \<open>
  \<open>de_decode\<close> and \<open>de_decode_value\<close> are the same function of the application, called on a
  substream and on a buffer with one value; its other arguments are the function pointer,
  the field and the address of its argument.  \<open>de_malloc\<close> gives the address of a new block
  or 0, and \<open>de_local\<close> the address of a local variable of \<open>pb_decode_noinit\<close>.
\<close>

record 'st pb_denv =
  de_fields :: "int \<Rightarrow> pb_field list"
  de_decode :: "int \<Rightarrow> pb_field \<Rightarrow> int \<Rightarrow> ('st, unit) dec"
  de_decode_value :: "int \<Rightarrow> pb_field \<Rightarrow> int \<Rightarrow> u8 list \<Rightarrow> ('st, unit) dec"
  de_ext_decode :: "int \<Rightarrow> int \<Rightarrow> u32 \<Rightarrow> u32 \<Rightarrow> ('st, unit) dec"
  de_malloc :: "(int \<Rightarrow> nat option) \<Rightarrow> nat \<Rightarrow> int"
  de_local :: "nat \<Rightarrow> int"

definition mem_set :: "int \<Rightarrow> u8 list \<Rightarrow> mem \<Rightarrow> mem" where
  "mem_set a bs m x = (if a \<le> x \<and> x < a + int (length bs) then bs ! nat (x - a) else m x)"

definition on_stream :: "('st pb_istream, 'a) op \<Rightarrow> ('st, 'a) dec" where
  "on_stream f s = (case f (ds_stream s) of (r, st) \<Rightarrow> (r, s\<lparr>ds_stream := st\<rparr>))"

definition dec_write :: "int \<Rightarrow> u8 list \<Rightarrow> ('st, unit) dec" where
  "dec_write a bs s = (Some (), s\<lparr>ds_mem := mem_set a bs (ds_mem s)\<rparr>)"

definition dec_mem :: "(mem \<Rightarrow> 'a) \<Rightarrow> ('st, 'a) dec" where
  "dec_mem f s = (Some (f (ds_mem s)), s)"

definition dec_error :: "string \<Rightarrow> ('st, 'a) dec" where
  "dec_error msg = on_stream (pb_return_error msg)"

text \<open>
  \<open>realloc\<close> and \<open>free\<close>.  Passing a pointer that is neither \<open>NULL\<close> nor of a live block has no
  defined behaviour; the model records the pointer.
\<close>

definition pb_realloc :: "'st pb_denv \<Rightarrow> int \<Rightarrow> nat \<Rightarrow> ('st, int) dec" where
  "pb_realloc env ptr sz s =
     (let bad = ptr \<noteq> 0 \<and> ds_heap s ptr = None;
          new = de_malloc env (ds_heap s) sz;
          old = (case ds_heap s ptr of None \<Rightarrow> 0 | Some n \<Rightarrow> n)
      in if bad then (Some 0, s\<lparr>ds_bad_ptr := Some ptr\<rparr>)
         else if new = 0 then (Some 0, s)
         else (Some new, s\<lparr>ds_heap := (ds_heap s)(ptr := None, new := Some sz),
                            ds_mem := mem_set new (mem_bytes (ds_mem s) ptr (min old sz)) (ds_mem s)\<rparr>))"

definition pb_free :: "int \<Rightarrow> ('st, unit) dec" where
  "pb_free ptr s =
     (if ptr = 0 then (Some (), s)
      else if ds_heap s ptr = None then (Some (), s\<lparr>ds_bad_ptr := Some ptr\<rparr>)
      else (Some (), s\<lparr>ds_heap := (ds_heap s)(ptr := None)\<rparr>))"

definition allocate_field :: "'st pb_denv \<Rightarrow> int \<Rightarrow> nat \<Rightarrow> nat \<Rightarrow> ('st, unit) dec" where
  "allocate_field env pData data_size array_size =
     (if data_size = 0 \<or> array_size = 0 then dec_error ''invalid size''
      else if (data_size \<ge> 2 ^ 32 \<or> array_size \<ge> 2 ^ 32) \<and> (2 ^ 64 - 1) div array_size < data_size
      then dec_error ''size too large''
      else
        op_bind (dec_mem (\<lambda>m. load_ptr m pData)) (\<lambda>ptr.
        op_bind (pb_realloc env ptr (wrap64 (array_size * data_size))) (\<lambda>ptr.
          if ptr = 0 then dec_error ''realloc failed''
          else dec_write pData (le_bytes 8 (nat ptr)))))"

section \<open>Field decoders\<close>

definition pb_dec_bool :: "int \<Rightarrow> ('st, unit) dec" where
  "pb_dec_bool dest =
     op_bind (on_stream pb_decode_varint32) (\<lambda>value. dec_write dest [if value \<noteq> 0 then 1 else 0])"

text \<open>
  The value after it was stored in a member of 1, 2, 4 or 8 bytes; it has to be the same.
\<close>

definition clamp_signed :: "u32 \<Rightarrow> u64 \<Rightarrow> u64 option" where
  "clamp_signed data_size value =
     (if data_size = 8 then Some value
      else if data_size = 4 then Some (scast (ucast value :: u32))
      else if data_size = 2 then Some (scast (ucast value :: u16))
      else if data_size = 1 then Some (scast (ucast value :: u8))
      else None)"

definition clamp_unsigned :: "u32 \<Rightarrow> u64 \<Rightarrow> u64 option" where
  "clamp_unsigned data_size value =
     (if data_size = 8 then Some value
      else if data_size = 4 then Some (ucast (ucast value :: u32))
      else if data_size = 2 then Some (ucast (ucast value :: u16))
      else if data_size = 1 then Some (ucast (ucast value :: u8))
      else None)"

definition store_clamped :: "u32 \<Rightarrow> u64 option \<Rightarrow> u64 \<Rightarrow> int \<Rightarrow> ('st, unit) dec" where
  "store_clamped data_size clamped value dest =
     (case clamped of
        None \<Rightarrow> dec_error ''invalid data_size''
      | Some c \<Rightarrow>
          op_bind (dec_write dest (le_bytes (unat data_size) (unat value))) (\<lambda>_.
            if c \<noteq> value then dec_error ''integer too large'' else op_ret ()))"

definition pb_dec_varint :: "pb_field \<Rightarrow> int \<Rightarrow> ('st, unit) dec" where
  "pb_dec_varint field dest =
     op_bind (on_stream pb_decode_varint) (\<lambda>value.
       let svalue = (if f_data_size field = 8 then value else scast (ucast value :: u32))
       in store_clamped (f_data_size field) (clamp_signed (f_data_size field) svalue) svalue dest)"

definition pb_dec_uvarint :: "pb_field \<Rightarrow> int \<Rightarrow> ('st, unit) dec" where
  "pb_dec_uvarint field dest =
     op_bind (on_stream pb_decode_varint) (\<lambda>value.
       store_clamped (f_data_size field) (clamp_unsigned (f_data_size field) value) value dest)"

definition pb_dec_svarint :: "pb_field \<Rightarrow> int \<Rightarrow> ('st, unit) dec" where
  "pb_dec_svarint field dest =
     op_bind (on_stream pb_decode_svarint) (\<lambda>value.
       store_clamped (f_data_size field) (clamp_signed (f_data_size field) value) value dest)"

definition pb_dec_fixed32 :: "int \<Rightarrow> ('st, unit) dec" where
  "pb_dec_fixed32 dest =
     op_bind (on_stream pb_decode_fixed32) (\<lambda>v. dec_write dest (le_bytes 4 (unat v)))"

definition pb_dec_fixed64 :: "int \<Rightarrow> ('st, unit) dec" where
  "pb_dec_fixed64 dest =
     op_bind (on_stream pb_decode_fixed64) (\<lambda>v. dec_write dest (le_bytes 8 (unat v)))"

text \<open>\<open>pb_read\<close> into the memory; a read that fails leaves the buffer as it was.\<close>

definition dec_read :: "int \<Rightarrow> nat \<Rightarrow> ('st, unit) dec" where
  "dec_read dest count = op_bind (on_stream (pb_read_buf count)) (dec_write dest)"

definition pb_dec_bytes :: "'st pb_denv \<Rightarrow> pb_field \<Rightarrow> int \<Rightarrow> ('st, unit) dec" where
  "pb_dec_bytes env field dest =
     op_bind (on_stream pb_decode_varint32) (\<lambda>sz.
       let alloc_size = wrap64 (unat sz + 4) in
       if sz > PB_SIZE_MAX then dec_error ''bytes overflow''
       else if unat sz > alloc_size then dec_error ''size too large''
       else
         op_bind
           (if PB_ATYPE (f_type field) = PB_ATYPE_POINTER then
              op_bind (allocate_field env dest alloc_size 1) (\<lambda>_. dec_mem (\<lambda>m. load_ptr m dest))
            else if alloc_size > unat (f_data_size field) then dec_error ''bytes overflow''
            else op_ret dest)
           (\<lambda>bdest.
              op_bind (dec_write bdest (le_bytes 4 (unat sz))) (\<lambda>_. dec_read (bdest + 4) (unat sz))))"

text \<open>The addition for the terminator is in 32 bits.\<close>

definition pb_dec_string :: "'st pb_denv \<Rightarrow> pb_field \<Rightarrow> int \<Rightarrow> ('st, unit) dec" where
  "pb_dec_string env field dest =
     op_bind (on_stream pb_decode_varint32) (\<lambda>sz.
       let alloc_size = unat (sz + 1) in
       if alloc_size < unat sz then dec_error ''size too large''
       else
         op_bind
           (if PB_ATYPE (f_type field) = PB_ATYPE_POINTER then
              op_bind (allocate_field env dest alloc_size 1) (\<lambda>_. dec_mem (\<lambda>m. load_ptr m dest))
            else if alloc_size > unat (f_data_size field) then dec_error ''string overflow''
            else op_ret dest)
           (\<lambda>dest s.
              case dec_read dest (unat sz) s of
                (status, s) \<Rightarrow>
                  op_bind (dec_write (dest + int (unat sz)) [0]) (\<lambda>_ s. (status, s)) s))"

text \<open>
  \<open>in_substream\<close> runs a decoder on the substream, closes it and returns the status of the
  decoder.
\<close>

definition in_substream :: "'st pb_istream \<Rightarrow> ('st, unit) dec \<Rightarrow> ('st, unit) dec" where
  "in_substream substream f s =
     (case f (s\<lparr>ds_stream := substream\<rparr>) of
        (status, s') \<Rightarrow>
          op_bind (on_stream (pb_close_string_substream (ds_stream s'))) (\<lambda>_ s. (status, s))
            (s'\<lparr>ds_stream := ds_stream s\<rparr>))"

text \<open>The recursive calls of the decoder on a message.\<close>

type_synonym 'st pb_dsub = "pb_field list \<Rightarrow> int \<Rightarrow> ('st, unit) dec"

record 'st pb_dcalls =
  call_decode :: "'st pb_dsub"
  call_noinit :: "'st pb_dsub"
  call_defaults :: "'st pb_dsub"

definition pb_dec_submessage ::
    "'st pb_denv \<Rightarrow> 'st pb_dcalls \<Rightarrow> pb_field \<Rightarrow> int \<Rightarrow> ('st, unit) dec"
where
  "pb_dec_submessage env calls field dest =
     op_bind (on_stream pb_make_string_substream) (\<lambda>substream.
       if f_ptr field = 0 then dec_error ''invalid field descriptor''
       else
         in_substream substream
           ((if PB_HTYPE (f_type field) = PB_HTYPE_REPEATED then call_decode calls else call_noinit calls)
              (de_fields env (f_ptr field)) dest))"

definition pb_dec_fixed_length_bytes :: "pb_field \<Rightarrow> int \<Rightarrow> ('st, unit) dec" where
  "pb_dec_fixed_length_bytes field dest =
     op_bind (on_stream pb_decode_varint32) (\<lambda>sz.
       if sz > PB_SIZE_MAX then dec_error ''bytes overflow''
       else if sz = 0 then dec_write dest (replicate (unat (f_data_size field)) 0)
       else if sz \<noteq> f_data_size field then dec_error ''incorrect fixed length bytes size''
       else dec_read dest (unat (f_data_size field)))"

definition PB_DECODERS ::
    "'st pb_denv \<Rightarrow> 'st pb_dcalls \<Rightarrow> u8 \<Rightarrow> pb_field \<Rightarrow> int \<Rightarrow> ('st, unit) dec"
where
  "PB_DECODERS env calls ltype field dest =
     (if ltype = PB_LTYPE_BOOL then pb_dec_bool dest
      else if ltype = PB_LTYPE_VARINT then pb_dec_varint field dest
      else if ltype = PB_LTYPE_UVARINT then pb_dec_uvarint field dest
      else if ltype = PB_LTYPE_SVARINT then pb_dec_svarint field dest
      else if ltype = PB_LTYPE_FIXED32 then pb_dec_fixed32 dest
      else if ltype = PB_LTYPE_FIXED64 then pb_dec_fixed64 dest
      else if ltype = PB_LTYPE_BYTES then pb_dec_bytes env field dest
      else if ltype = PB_LTYPE_STRING then pb_dec_string env field dest
      else if ltype = PB_LTYPE_SUBMESSAGE then pb_dec_submessage env calls field dest
      else if ltype = PB_LTYPE_FIXED_LENGTH_BYTES then pb_dec_fixed_length_bytes field dest
      else op_fail)"

section \<open>Extensions\<close>

text \<open>
  A \<open>pb_extension_t\<close> has the pointers \<open>type\<close>, \<open>dest\<close> and \<open>next\<close> and the flag \<open>found\<close>; a
  \<open>pb_extension_type_t\<close> has \<open>decode\<close>, \<open>encode\<close> and \<open>arg\<close>.
\<close>

definition ext_fields :: "'st pb_denv \<Rightarrow> mem \<Rightarrow> int \<Rightarrow> pb_field list" where
  "ext_fields env m extension = de_fields env (load_ptr m (load_ptr m extension + 16))"

definition iter_from_extension :: "'st pb_denv \<Rightarrow> int \<Rightarrow> mem \<Rightarrow> pb_field_iter" where
  "iter_from_extension env extension m =
     (let fs = ext_fields env m extension; dest = load_ptr m (extension + 8)
      in (snd (pb_field_iter_begin fs dest))
           \<lparr>it_pData := (if PB_ATYPE (f_type (field_at fs 0)) = PB_ATYPE_POINTER then extension + 8 else dest),
            it_pSize := extension + 24\<rparr>)"

text \<open>A loop over the list of extensions from \<open>extension\<close> on.\<close>

fun each_extension :: "(int \<Rightarrow> ('st, unit) dec) \<Rightarrow> nat \<Rightarrow> int \<Rightarrow> ('st, unit) dec" where
  "each_extension f 0 extension = (if extension = 0 then op_ret () else op_fail)"
| "each_extension f (Suc k) extension =
     (if extension = 0 then op_ret ()
      else
        op_bind (f extension) (\<lambda>_.
        op_bind (dec_mem (\<lambda>m. load_ptr m (extension + 16))) (each_extension f k)))"

section \<open>Default values\<close>

fun pb_field_set_to_default :: "nat \<Rightarrow> 'st pb_denv \<Rightarrow> pb_field_iter \<Rightarrow> ('st, unit) dec"
and pb_message_set_to_defaults :: "nat \<Rightarrow> 'st pb_denv \<Rightarrow> pb_field list \<Rightarrow> int \<Rightarrow> ('st, unit) dec"
where
  "pb_field_set_to_default 0 env iter = op_fail"
| "pb_field_set_to_default (Suc n) env iter =
     (let field = it_field iter; type = f_type field; pData = it_pData iter; pSize = it_pSize iter in
      if PB_LTYPE type = PB_LTYPE_EXTENSION then
        op_bind (dec_mem (\<lambda>m. load_ptr m pData))
          (each_extension
             (\<lambda>ext.
                op_bind (dec_write (ext + 24) [0]) (\<lambda>_.
                op_bind (dec_mem (iter_from_extension env ext)) (\<lambda>ext_iter.
                  pb_field_set_to_default n env ext_iter)))
             n)
      else if PB_ATYPE type = PB_ATYPE_STATIC then
        (if PB_HTYPE type = PB_HTYPE_REPEATED \<or> PB_HTYPE type = PB_HTYPE_ONEOF
         then dec_write pSize (le_bytes 4 0)
         else
           op_bind (if PB_HTYPE type = PB_HTYPE_OPTIONAL \<and> pSize \<noteq> pData then dec_write pSize [0] else op_ret ())
             (\<lambda>_.
              if PB_LTYPE type = PB_LTYPE_SUBMESSAGE
              then pb_message_set_to_defaults n env (de_fields env (f_ptr field)) pData
              else if f_ptr field \<noteq> 0 then
                op_bind (dec_mem (\<lambda>m. mem_bytes m (f_ptr field) (unat (f_data_size field)))) (dec_write pData)
              else dec_write pData (replicate (unat (f_data_size field)) 0)))
      else if PB_ATYPE type = PB_ATYPE_POINTER then
        op_bind (dec_write pData (le_bytes 8 0)) (\<lambda>_.
          if PB_HTYPE type = PB_HTYPE_REPEATED \<or> PB_HTYPE type = PB_HTYPE_ONEOF
          then dec_write pSize (le_bytes 4 0) else op_ret ())
      else op_ret ())"
| "pb_message_set_to_defaults 0 env fs dest_struct = op_fail"
| "pb_message_set_to_defaults (Suc n) env fs dest_struct =
     (case pb_field_iter_begin fs dest_struct of
        (False, iter) \<Rightarrow> op_ret ()
      | (True, iter) \<Rightarrow> each_field (\<lambda>iter. pb_field_set_to_default n env iter) (length fs) iter)"

declare pb_field_set_to_default.simps [simp del] pb_message_set_to_defaults.simps [simp del]

section \<open>Releasing\<close>

fun release_items :: "(int \<Rightarrow> ('st, unit) dec) \<Rightarrow> nat \<Rightarrow> int \<Rightarrow> int \<Rightarrow> ('st, unit) dec" where
  "release_items f 0 pItem step = op_ret ()"
| "release_items f (Suc count) pItem step =
     op_bind (f pItem) (\<lambda>_. release_items f count (pItem + step) step)"

fun pb_release_single_field :: "nat \<Rightarrow> 'st pb_denv \<Rightarrow> pb_field_iter \<Rightarrow> ('st, unit) dec"
and pb_release :: "nat \<Rightarrow> 'st pb_denv \<Rightarrow> pb_field list \<Rightarrow> int \<Rightarrow> ('st, unit) dec"
where
  "pb_release_single_field 0 env iter = op_fail"
| "pb_release_single_field (Suc n) env iter =
     (let field = it_field iter; type = f_type field; pData = it_pData iter; pSize = it_pSize iter;
          repeated = (PB_HTYPE type = PB_HTYPE_REPEATED); pointer = (PB_ATYPE type = PB_ATYPE_POINTER)
      in op_bind (dec_mem id) (\<lambda>m.
         if PB_HTYPE type = PB_HTYPE_ONEOF \<and> load 4 m pSize \<noteq> unat (f_tag field) then op_ret ()
         else
           op_bind
             (if PB_LTYPE type = PB_LTYPE_EXTENSION then
                each_extension
                  (\<lambda>ext. op_bind (dec_mem (iter_from_extension env ext)) (\<lambda>ext_iter.
                     pb_release_single_field n env ext_iter))
                  n (load_ptr m pData)
              else if PB_LTYPE type = PB_LTYPE_SUBMESSAGE \<and> PB_ATYPE type \<noteq> PB_ATYPE_CALLBACK then
                (let pItem = (if pointer then load_ptr m pData else pData);
                     count =
                       (if repeated then
                          (let count = (if PB_ATYPE type = PB_ATYPE_STATIC \<and> pSize = pData
                                        then unat (f_array_size field) else load 4 m pSize)
                           in if PB_ATYPE type = PB_ATYPE_STATIC \<and> count > unat (f_array_size field)
                              then unat (f_array_size field) else count)
                        else 1)
                 in if pItem \<noteq> 0 then
                      release_items (\<lambda>p. pb_release n env (de_fields env (f_ptr field)) p) count pItem
                        (int (unat (f_data_size field)))
                    else op_ret ())
              else op_ret ())
             (\<lambda>_.
              if pointer then
                op_bind
                  (if repeated \<and> (PB_LTYPE type = PB_LTYPE_STRING \<or> PB_LTYPE type = PB_LTYPE_BYTES) then
                     op_bind (dec_mem id) (\<lambda>m.
                       release_items
                         (\<lambda>p. op_bind (dec_mem (\<lambda>m. load_ptr m p)) (\<lambda>q.
                              op_bind (pb_free q) (\<lambda>_. dec_write p (le_bytes 8 0))))
                         (load 4 m pSize) (load_ptr m pData) 8)
                   else op_ret ())
                  (\<lambda>_.
                op_bind (if repeated then dec_write pSize (le_bytes 4 0) else op_ret ()) (\<lambda>_.
                op_bind (dec_mem (\<lambda>m. load_ptr m pData)) (\<lambda>p.
                op_bind (pb_free p) (\<lambda>_. dec_write pData (le_bytes 8 0)))))
              else op_ret ())))"
| "pb_release 0 env fs dest_struct = op_fail"
| "pb_release (Suc n) env fs dest_struct =
     (if dest_struct = 0 then op_ret ()
      else
        case pb_field_iter_begin fs dest_struct of
          (False, iter) \<Rightarrow> op_ret ()
        | (True, iter) \<Rightarrow> each_field (\<lambda>iter. pb_release_single_field n env iter) (length fs) iter)"

declare pb_release_single_field.simps [simp del] pb_release.simps [simp del]

text \<open>The result is the iterator; a search that does not end is a failure.\<close>

definition dec_find :: "u32 \<Rightarrow> pb_field_iter \<Rightarrow> ('st, bool \<times> pb_field_iter) dec" where
  "dec_find tag iter =
     (case pb_field_iter_find tag iter of None \<Rightarrow> op_fail | Some r \<Rightarrow> op_ret r)"

definition pb_release_union_field ::
    "nat \<Rightarrow> 'st pb_denv \<Rightarrow> pb_field_iter \<Rightarrow> ('st, pb_field_iter) dec"
where
  "pb_release_union_field n env iter =
     op_bind (dec_mem (\<lambda>m. load 4 m (it_pSize iter))) (\<lambda>old_tag.
       let new_tag = f_tag (it_field iter) in
       if old_tag = 0 then op_ret iter
       else if old_tag = unat new_tag then op_ret iter
       else
         op_bind (dec_find (of_nat old_tag) iter) (\<lambda>(found, iter).
           if \<not> found then dec_error ''invalid union tag''
           else
             op_bind (pb_release_single_field n env iter) (\<lambda>_.
             op_bind (dec_find new_tag iter) (\<lambda>(found, iter).
               if \<not> found then dec_error ''iterator error'' else op_ret iter))))"

section \<open>Static fields\<close>

text \<open>
  The loop over a packed array.  Every entry takes at least a byte, so the number of bytes
  left at the start is a bound.  The result is the status; the substream is in the state.
\<close>

fun decode_packed_loop ::
    "(int \<Rightarrow> ('st, unit) dec) \<Rightarrow> pb_field \<Rightarrow> int \<Rightarrow> int \<Rightarrow> nat \<Rightarrow> ('st, unit) dec"
where
  "decode_packed_loop func field pData pSize k s =
     (let count = load 4 (ds_mem s) pSize in
      if is_bytes_left (ds_stream s) > 0 \<and> count < unat (f_array_size field) then
        (case k of
           0 \<Rightarrow> (None, s)
         | Suc k \<Rightarrow>
             op_bind (func (pData + int (unat (f_data_size field * of_nat count)))) (\<lambda>_.
             op_bind (dec_mem (\<lambda>m. load 4 m pSize)) (\<lambda>count.
             op_bind (dec_write pSize (le_bytes 4 (count + 1))) (\<lambda>_.
               decode_packed_loop func field pData pSize k))) s)
      else (Some (), s))"

declare decode_packed_loop.simps [simp del]

definition decode_static_field ::
    "'st pb_denv \<Rightarrow> 'st pb_dcalls \<Rightarrow> u32 \<Rightarrow> pb_field_iter \<Rightarrow> ('st, unit) dec"
where
  "decode_static_field env calls wire_type iter =
     (let field = it_field iter; type = f_type field; pData = it_pData iter; pSize = it_pSize iter;
          func = PB_DECODERS env calls (PB_LTYPE type) field
      in if PB_HTYPE type = PB_HTYPE_REQUIRED then func pData
         else if PB_HTYPE type = PB_HTYPE_OPTIONAL then
           op_bind (if pSize \<noteq> pData then dec_write pSize [1] else op_ret ()) (\<lambda>_. func pData)
         else if PB_HTYPE type = PB_HTYPE_REPEATED then
           (if wire_type = PB_WT_STRING \<and> PB_LTYPE type \<le> PB_LTYPE_LAST_PACKABLE then
              op_bind (on_stream pb_make_string_substream) (\<lambda>substream s.
                case decode_packed_loop func field pData pSize (is_bytes_left substream)
                       (s\<lparr>ds_stream := substream\<rparr>) of
                  (status, s') \<Rightarrow>
                    let substream = ds_stream s'; s = s'\<lparr>ds_stream := ds_stream s\<rparr> in
                    if is_bytes_left substream \<noteq> 0 then dec_error ''array overflow'' s
                    else
                      op_bind (on_stream (pb_close_string_substream substream)) (\<lambda>_ s. (status, s)) s)
            else
              op_bind (dec_mem (\<lambda>m. load 4 m pSize)) (\<lambda>count.
              op_bind (dec_write pSize (le_bytes 4 (count + 1))) (\<lambda>_.
                if count \<ge> unat (f_array_size field) then dec_error ''array overflow''
                else func (pData + int (unat (f_data_size field * of_nat count))))))
         else if PB_HTYPE type = PB_HTYPE_ONEOF then
           op_bind (dec_write pSize (le_bytes 4 (unat (f_tag field)))) (\<lambda>_.
           op_bind
             (if PB_LTYPE type = PB_LTYPE_SUBMESSAGE then
                op_bind (dec_write pData (replicate (unat (f_data_size field)) 0)) (\<lambda>_.
                  call_defaults calls (de_fields env (f_ptr field)) pData)
              else op_ret ())
             (\<lambda>_. func pData))
         else dec_error ''invalid field type'')"

section \<open>Pointer fields\<close>

definition initialize_pointer_field :: "'st pb_denv \<Rightarrow> 'st pb_dcalls \<Rightarrow> int \<Rightarrow> pb_field \<Rightarrow> ('st, unit) dec" where
  "initialize_pointer_field env calls pItem field =
     (let ltype = PB_LTYPE (f_type field) in
      if ltype = PB_LTYPE_STRING \<or> ltype = PB_LTYPE_BYTES then dec_write pItem (le_bytes 8 0)
      else if ltype = PB_LTYPE_SUBMESSAGE then
        op_bind (dec_write pItem (replicate (unat (f_data_size field)) 0)) (\<lambda>_.
          call_defaults calls (de_fields env (f_ptr field)) pItem)
      else op_ret ())"

text \<open>
  The loop over a packed array that is allocated while it is read, with the number of
  entries there is space for.  The result is \<open>False\<close> when there are too many entries.  The
  descriptors of packed arrays have a \<open>data_size\<close> that is not 0.
\<close>

fun pointer_packed_loop ::
    "'st pb_denv \<Rightarrow> 'st pb_dcalls \<Rightarrow> pb_field \<Rightarrow> int \<Rightarrow> int \<Rightarrow> nat \<Rightarrow> nat \<Rightarrow> ('st, bool) dec"
where
  "pointer_packed_loop env calls field pData pSize k allocated_size s =
     (let count = load 4 (ds_mem s) pSize; left = is_bytes_left (ds_stream s);
          data_size = unat (f_data_size field)
      in if left = 0 then (Some True, s)
         else if count = unat PB_SIZE_MAX then (Some False, s)
         else
           let remain = (left - 1) div data_size + 1;
               grow = (count + 1 > allocated_size);
               allocated_size =
                 (if grow then allocated_size +
                    (if remain < wrap64 (2 ^ 64 + unat PB_SIZE_MAX - allocated_size) then remain else 1)
                  else allocated_size)
           in (case k of
                 0 \<Rightarrow> (None, s)
               | Suc k \<Rightarrow>
                   op_bind (if grow then allocate_field env pData data_size allocated_size else op_ret ()) (\<lambda>_.
                   op_bind (dec_mem (\<lambda>m. load_ptr m pData)) (\<lambda>base.
                     let pItem = base + int (unat (f_data_size field * of_nat count)) in
                     op_bind (initialize_pointer_field env calls pItem field) (\<lambda>_.
                     op_bind (PB_DECODERS env calls (PB_LTYPE (f_type field)) field pItem) (\<lambda>_.
                     op_bind (dec_mem (\<lambda>m. load 4 m pSize)) (\<lambda>count.
                     op_bind (dec_write pSize (le_bytes 4 (count + 1))) (\<lambda>_.
                       pointer_packed_loop env calls field pData pSize k allocated_size)))))) s))"

declare pointer_packed_loop.simps [simp del]

definition decode_pointer_field ::
    "nat \<Rightarrow> 'st pb_denv \<Rightarrow> 'st pb_dcalls \<Rightarrow> u32 \<Rightarrow> pb_field_iter \<Rightarrow> ('st, unit) dec"
where
  "decode_pointer_field n env calls wire_type iter =
     (let field = it_field iter; type = f_type field; pData = it_pData iter; pSize = it_pSize iter;
          func = PB_DECODERS env calls (PB_LTYPE type) field;
          item = (\<lambda>count. op_bind (dec_mem (\<lambda>m. load_ptr m pData)) (\<lambda>base.
                    op_ret (base + int (unat (f_data_size field * of_nat count)))))
      in if PB_HTYPE type \<in> {PB_HTYPE_REQUIRED, PB_HTYPE_OPTIONAL, PB_HTYPE_ONEOF} then
           op_bind (dec_mem (\<lambda>m. load_ptr m pData)) (\<lambda>old.
           op_bind (if PB_LTYPE type = PB_LTYPE_SUBMESSAGE \<and> old \<noteq> 0
                    then pb_release_single_field n env iter else op_ret ()) (\<lambda>_.
           op_bind (if PB_HTYPE type = PB_HTYPE_ONEOF
                    then dec_write pSize (le_bytes 4 (unat (f_tag field))) else op_ret ()) (\<lambda>_.
             if PB_LTYPE type = PB_LTYPE_STRING \<or> PB_LTYPE type = PB_LTYPE_BYTES then func pData
             else
               op_bind (allocate_field env pData (unat (f_data_size field)) 1) (\<lambda>_.
               op_bind (item 0) (\<lambda>pItem.
               op_bind (initialize_pointer_field env calls pItem field) (\<lambda>_. func pItem))))))
         else if PB_HTYPE type = PB_HTYPE_REPEATED then
           (if wire_type = PB_WT_STRING \<and> PB_LTYPE type \<le> PB_LTYPE_LAST_PACKABLE then
              op_bind (dec_mem (\<lambda>m. load 4 m pSize)) (\<lambda>allocated_size.
              op_bind (on_stream pb_make_string_substream) (\<lambda>substream s.
                case pointer_packed_loop env calls field pData pSize (is_bytes_left substream) allocated_size
                       (s\<lparr>ds_stream := substream\<rparr>) of
                  (r, s') \<Rightarrow>
                    let substream = ds_stream s';
                        stream = (if r = Some False
                                  then (ds_stream s)\<lparr>is_errmsg := Some ''too many array entries''\<rparr>
                                  else ds_stream s)
                    in op_bind (on_stream (pb_close_string_substream substream))
                         (\<lambda>_ s. (if r = Some True then Some () else None, s))
                         (s'\<lparr>ds_stream := stream\<rparr>)))
            else
              op_bind (dec_mem (\<lambda>m. load 4 m pSize)) (\<lambda>count.
                if count = unat PB_SIZE_MAX then dec_error ''too many array entries''
                else
                  op_bind (allocate_field env pData (unat (f_data_size field)) (count + 1)) (\<lambda>_.
                  op_bind (item count) (\<lambda>pItem.
                  op_bind (dec_write pSize (le_bytes 4 (count + 1))) (\<lambda>_.
                  op_bind (initialize_pointer_field env calls pItem field) (\<lambda>_. func pItem))))))
         else dec_error ''invalid field type'')"

section \<open>Callback fields\<close>

text \<open>\<open>do decode(&substream, ...) while (substream.bytes_left)\<close>.\<close>

fun callback_loop :: "'st pb_denv \<Rightarrow> pb_field \<Rightarrow> int \<Rightarrow> nat \<Rightarrow> ('st, unit) dec" where
  "callback_loop env field pData 0 = op_fail"
| "callback_loop env field pData (Suc k) =
     op_bind (dec_mem (\<lambda>m. load_ptr m pData)) (\<lambda>decode.
     op_bind (de_decode env decode field (pData + 8)) (\<lambda>_ s.
       if is_bytes_left (ds_stream s) \<noteq> 0 then callback_loop env field pData k s else (Some (), s)))"

definition decode_callback_field ::
    "nat \<Rightarrow> 'st pb_denv \<Rightarrow> u32 \<Rightarrow> pb_field_iter \<Rightarrow> ('st, unit) dec"
where
  "decode_callback_field n env wire_type iter =
     (let field = it_field iter; pData = it_pData iter in
      op_bind (dec_mem (\<lambda>m. if pData = 0 then 0 else load_ptr m pData)) (\<lambda>decode.
        if decode = 0 then on_stream (pb_skip_field wire_type)
        else if wire_type = PB_WT_STRING then
          op_bind (on_stream pb_make_string_substream) (\<lambda>substream s.
            case callback_loop env field pData n (s\<lparr>ds_stream := substream\<rparr>) of
              (None, s') \<Rightarrow> dec_error ''callback failed'' (s'\<lparr>ds_stream := ds_stream s\<rparr>)
            | (Some _, s') \<Rightarrow>
                on_stream (pb_close_string_substream (ds_stream s')) (s'\<lparr>ds_stream := ds_stream s\<rparr>))
        else
          op_bind (on_stream (read_raw_value wire_type 10)) (\<lambda>buffer.
            de_decode_value env decode field (pData + 8) buffer)))"

section \<open>Fields and extensions\<close>

text \<open>The result is the iterator, which the release of a union may have moved.\<close>

definition decode_field ::
    "nat \<Rightarrow> 'st pb_denv \<Rightarrow> 'st pb_dcalls \<Rightarrow> u32 \<Rightarrow> pb_field_iter \<Rightarrow> ('st, pb_field_iter) dec"
where
  "decode_field n env calls wire_type iter =
     op_bind (if PB_HTYPE (f_type (it_field iter)) = PB_HTYPE_ONEOF
              then pb_release_union_field n env iter else op_ret iter) (\<lambda>iter.
       let atype = PB_ATYPE (f_type (it_field iter)) in
       op_bind
         (if atype = PB_ATYPE_STATIC then decode_static_field env calls wire_type iter
          else if atype = PB_ATYPE_POINTER then decode_pointer_field n env calls wire_type iter
          else if atype = PB_ATYPE_CALLBACK then decode_callback_field n env wire_type iter
          else dec_error ''invalid field type'')
         (\<lambda>_. op_ret iter))"

definition default_extension_decoder ::
    "nat \<Rightarrow> 'st pb_denv \<Rightarrow> 'st pb_dcalls \<Rightarrow> int \<Rightarrow> u32 \<Rightarrow> u32 \<Rightarrow> ('st, unit) dec"
where
  "default_extension_decoder n env calls extension tag wire_type =
     op_bind (dec_mem (iter_from_extension env extension)) (\<lambda>iter.
       if f_tag (it_field iter) \<noteq> tag then op_ret ()
       else
         op_bind (dec_write (extension + 24) [1]) (\<lambda>_.
         op_bind (decode_field n env calls wire_type iter) (\<lambda>_. op_ret ())))"

fun decode_extensions ::
    "(int \<Rightarrow> ('st, unit) dec) \<Rightarrow> nat \<Rightarrow> nat \<Rightarrow> int \<Rightarrow> ('st, unit) dec"
where
  "decode_extensions f k pos extension s =
     (if extension = 0 \<or> pos \<noteq> is_bytes_left (ds_stream s) then (Some (), s)
      else
        (case k of
           0 \<Rightarrow> (None, s)
         | Suc k \<Rightarrow>
             op_bind (f extension) (\<lambda>_.
             op_bind (dec_mem (\<lambda>m. load_ptr m (extension + 16))) (decode_extensions f k pos)) s))"

declare decode_extensions.simps [simp del]

definition decode_extension ::
    "nat \<Rightarrow> 'st pb_denv \<Rightarrow> 'st pb_dcalls \<Rightarrow> u32 \<Rightarrow> u32 \<Rightarrow> pb_field_iter \<Rightarrow> ('st, unit) dec"
where
  "decode_extension n env calls tag wire_type iter s =
     decode_extensions
       (\<lambda>ext. op_bind (dec_mem (\<lambda>m. load_ptr m (load_ptr m ext))) (\<lambda>decode.
          if decode \<noteq> 0 then de_ext_decode env decode ext tag wire_type
          else default_extension_decoder n env calls ext tag wire_type))
       n (is_bytes_left (ds_stream s)) (load_ptr (ds_mem s) (it_pData iter)) s"

definition find_extension_field :: "pb_field_iter \<Rightarrow> (bool \<times> pb_field_iter) option" where
  "find_extension_field iter =
     iter_search (\<lambda>f. PB_LTYPE (f_type f) = PB_LTYPE_EXTENSION) (it_pos iter) iter"

section \<open>Messages\<close>

definition PB_MAX_REQUIRED_FIELDS :: nat where
  "PB_MAX_REQUIRED_FIELDS = 64"

text \<open>
  The local variables of \<open>pb_decode_noinit\<close>, except \<open>fixed_count_size\<close>, to which the iterator
  may point: it is in the memory at \<open>de_local\<close>.
\<close>

record pb_locals =
  lo_fields_seen :: "u32 list"
  lo_extension_range_start :: u32
  lo_iter :: pb_field_iter
  lo_fixed_count_field :: "nat option"

definition mark_required :: "nat \<Rightarrow> u32 list \<Rightarrow> u32 list" where
  "mark_required i seen = seen[i div 32 := seen ! (i div 32) OR push_bit (i mod 32) 1]"

text \<open>No field has the tag: it may be one of an extension.\<close>

definition decode_unknown ::
    "nat \<Rightarrow> 'st pb_denv \<Rightarrow> 'st pb_dcalls \<Rightarrow> u32 \<Rightarrow> u32 \<Rightarrow> pb_locals \<Rightarrow> ('st, pb_locals) dec"
where
  "decode_unknown n env calls tag wire_type lo =
     (let skip = (\<lambda>lo. op_bind (on_stream (pb_skip_field wire_type)) (\<lambda>_. op_ret lo)) in
      if tag \<ge> lo_extension_range_start lo then
        (case find_extension_field (lo_iter lo) of
           None \<Rightarrow> op_fail
         | Some (found, iter) \<Rightarrow>
             let start = (if found then f_tag (it_field iter) else - 1);
                 lo = lo\<lparr>lo_iter := iter, lo_extension_range_start := start\<rparr>
             in if tag \<ge> start then
                  (\<lambda>s. op_bind (decode_extension n env calls tag wire_type iter) (\<lambda>_ s'.
                     if is_bytes_left (ds_stream s) \<noteq> is_bytes_left (ds_stream s') then (Some lo, s')
                     else skip lo s') s)
                else skip lo)
      else skip lo)"

text \<open>A field with the tag was found.  The flag of the fixed count is checked and updated.\<close>

definition fixed_count_done :: "int \<Rightarrow> pb_locals \<Rightarrow> mem \<Rightarrow> bool" where
  "fixed_count_done loc lo m \<longleftrightarrow>
     (case lo_fixed_count_field lo of
        None \<Rightarrow> True
      | Some i \<Rightarrow> load 4 m loc = unat (f_array_size (field_at (it_start (lo_iter lo)) i)))"

definition decode_known ::
    "nat \<Rightarrow> 'st pb_denv \<Rightarrow> 'st pb_dcalls \<Rightarrow> int \<Rightarrow> u32 \<Rightarrow> pb_locals \<Rightarrow> ('st, pb_locals) dec"
where
  "decode_known n env calls loc wire_type lo =
     (let iter = lo_iter lo; htype = PB_HTYPE (f_type (it_field iter)) in
      op_bind
        (if htype = PB_HTYPE_REPEATED \<and> it_pSize iter = it_pData iter then
           op_bind
             (if lo_fixed_count_field lo \<noteq> Some (it_pos iter) then
                op_bind (dec_mem (fixed_count_done loc lo)) (\<lambda>done.
                  if \<not> done then dec_error ''wrong size for fixed count field''
                  else
                    op_bind (dec_write loc (le_bytes 4 0)) (\<lambda>_.
                      op_ret (lo\<lparr>lo_fixed_count_field := Some (it_pos iter)\<rparr>)))
              else op_ret lo)
             (\<lambda>lo. op_ret (lo\<lparr>lo_iter := iter\<lparr>it_pSize := loc\<rparr>\<rparr>))
         else op_ret lo)
        (\<lambda>lo.
           let i = it_required_field_index (lo_iter lo);
               lo = (if htype = PB_HTYPE_REQUIRED \<and> i < PB_MAX_REQUIRED_FIELDS
                     then lo\<lparr>lo_fields_seen := mark_required i (lo_fields_seen lo)\<rparr> else lo)
           in op_bind (decode_field n env calls wire_type (lo_iter lo)) (\<lambda>iter.
                op_ret (lo\<lparr>lo_iter := iter\<rparr>))))"

text \<open>
  One turn of the main loop; the result tells whether the loop ends.  Every turn reads at
  least a byte, so the number of bytes left at the start is a bound for the loop.
\<close>

definition decode_one ::
    "nat \<Rightarrow> 'st pb_denv \<Rightarrow> 'st pb_dcalls \<Rightarrow> int \<Rightarrow> pb_locals \<Rightarrow> ('st, bool \<times> pb_locals) dec"
where
  "decode_one n env calls loc lo s =
     (case pb_decode_tag (ds_stream s) of
        (None, eof, stream) \<Rightarrow>
          (if eof then Some (True, lo) else None, s\<lparr>ds_stream := stream\<rparr>)
      | (Some (wire_type, tag), eof, stream) \<Rightarrow>
          op_bind (dec_find tag (lo_iter lo)) (\<lambda>(found, iter).
          op_bind
            (if found then decode_known n env calls loc wire_type (lo\<lparr>lo_iter := iter\<rparr>)
             else decode_unknown n env calls tag wire_type (lo\<lparr>lo_iter := iter\<rparr>))
            (\<lambda>lo. op_ret (False, lo))) (s\<lparr>ds_stream := stream\<rparr>))"

fun decode_loop ::
    "(pb_locals \<Rightarrow> ('st, bool \<times> pb_locals) dec) \<Rightarrow> nat \<Rightarrow> pb_locals \<Rightarrow> ('st, pb_locals) dec"
where
  "decode_loop one k lo s =
     (if is_bytes_left (ds_stream s) = 0 then (Some lo, s)
      else
        (case k of
           0 \<Rightarrow> (None, s)
         | Suc k \<Rightarrow>
             op_bind (one lo) (\<lambda>(ended, lo). if ended then op_ret lo else decode_loop one k lo) s))"

declare decode_loop.simps [simp del]

text \<open>The number of required fields, by a walk to the end of the descriptors.\<close>

fun last_field :: "nat \<Rightarrow> pb_field_iter \<Rightarrow> nat \<times> u8 \<times> pb_field_iter" where
  "last_field k iter =
     (case pb_field_iter_next iter of
        (False, iter') \<Rightarrow> (it_required_field_index iter, f_type (it_field iter), iter')
      | (True, iter') \<Rightarrow>
          (case k of
             0 \<Rightarrow> (it_required_field_index iter, f_type (it_field iter), iter')
           | Suc k \<Rightarrow> last_field k iter'))"

declare last_field.simps [simp del]

definition req_field_count :: "pb_field_iter \<Rightarrow> nat" where
  "req_field_count iter =
     (case last_field (length (it_start iter)) iter of
        (req_field_count, last_type, iter) \<Rightarrow>
          min PB_MAX_REQUIRED_FIELDS
            (if PB_HTYPE last_type = PB_HTYPE_REQUIRED \<and> f_tag (it_field iter) \<noteq> 0
             then req_field_count + 1 else req_field_count))"

definition required_fields_seen :: "nat \<Rightarrow> u32 list \<Rightarrow> bool" where
  "required_fields_seen count fields_seen \<longleftrightarrow>
     (let allbits = - 1 in
      list_all (\<lambda>i. fields_seen ! i = allbits) [0..<count div 32] \<and>
      (count mod 32 = 0 \<or> fields_seen ! (count div 32) = drop_bit (32 - count mod 32) allbits))"

definition decode_body ::
    "nat \<Rightarrow> 'st pb_denv \<Rightarrow> 'st pb_dcalls \<Rightarrow> int \<Rightarrow> pb_field list \<Rightarrow> int \<Rightarrow> ('st, unit) dec"
where
  "decode_body n env calls loc fs dest_struct s =
     op_bind (dec_write loc (le_bytes 4 0)) (\<lambda>_.
     op_bind
       (decode_loop (decode_one n env calls loc) (is_bytes_left (ds_stream s))
          \<lparr>lo_fields_seen = [0, 0], lo_extension_range_start = 0,
           lo_iter = snd (pb_field_iter_begin fs dest_struct), lo_fixed_count_field = None\<rparr>)
       (\<lambda>lo.
     op_bind (dec_mem (fixed_count_done loc lo)) (\<lambda>done.
       if \<not> done then dec_error ''wrong size for fixed count field''
       else if \<not> required_fields_seen (req_field_count (lo_iter lo)) (lo_fields_seen lo)
       then dec_error ''missing required field''
       else op_ret ()))) s"

text \<open>\<open>pb_decode\<close>, with the call of \<open>pb_decode_noinit\<close> as an argument.\<close>

definition decode_with :: "nat \<Rightarrow> 'st pb_denv \<Rightarrow> 'st pb_dsub \<Rightarrow> 'st pb_dsub" where
  "decode_with n env noinit fs dest_struct =
     op_bind (pb_message_set_to_defaults n env fs dest_struct) (\<lambda>_ s.
       case noinit fs dest_struct s of
         (None, s) \<Rightarrow> (None, snd (pb_release n env fs dest_struct s))
       | (Some _, s) \<Rightarrow> (Some (), s))"

fun pb_decode_noinit :: "nat \<Rightarrow> 'st pb_denv \<Rightarrow> pb_field list \<Rightarrow> int \<Rightarrow> ('st, unit) dec" where
  "pb_decode_noinit 0 env fs dest_struct = op_fail"
| "pb_decode_noinit (Suc n) env fs dest_struct =
     decode_body n env
       \<lparr>call_decode = decode_with n env (\<lambda>fs dest. pb_decode_noinit n env fs dest),
        call_noinit = (\<lambda>fs dest. pb_decode_noinit n env fs dest),
        call_defaults = pb_message_set_to_defaults n env\<rparr>
       (de_local env n) fs dest_struct"

declare pb_decode_noinit.simps [simp del]

definition pb_decode :: "nat \<Rightarrow> 'st pb_denv \<Rightarrow> pb_field list \<Rightarrow> int \<Rightarrow> ('st, unit) dec" where
  "pb_decode n env = decode_with n env (pb_decode_noinit n env)"

definition pb_decode_delimited_noinit ::
    "nat \<Rightarrow> 'st pb_denv \<Rightarrow> pb_field list \<Rightarrow> int \<Rightarrow> ('st, unit) dec"
where
  "pb_decode_delimited_noinit n env fs dest_struct =
     op_bind (on_stream pb_make_string_substream) (\<lambda>substream.
       in_substream substream (pb_decode_noinit n env fs dest_struct))"

definition pb_decode_delimited :: "nat \<Rightarrow> 'st pb_denv \<Rightarrow> pb_field list \<Rightarrow> int \<Rightarrow> ('st, unit) dec" where
  "pb_decode_delimited n env fs dest_struct =
     op_bind (on_stream pb_make_string_substream) (\<lambda>substream.
       in_substream substream (pb_decode n env fs dest_struct))"

definition pb_decode_nullterminated ::
    "nat \<Rightarrow> 'st pb_denv \<Rightarrow> pb_field list \<Rightarrow> int \<Rightarrow> ('st, unit) dec"
where
  "pb_decode_nullterminated = pb_decode"

end
