(* ===== verification/Pb_Decode_Safe.thy ===== *)
theory Pb_Decode_Safe
  imports Pb_Decode
begin

text \<open>
  Memory safety of the decoder on messages without pointers, callbacks and extensions: what
  it may write.  \<open>keeps cb A f Q\<close> says that on a stream with the read callback \<open>cb\<close> the
  decoder \<open>f\<close> writes only at the addresses of \<open>A\<close>, leaves the heap and the callback alone,
  and that its results satisfy \<open>Q\<close>; it composes along the code.
\<close>

section \<open>What a decoder may write\<close>

definition framed :: "int set \<Rightarrow> 'st pb_dstate \<Rightarrow> 'st pb_dstate \<Rightarrow> bool" where
  "framed A s s' \<longleftrightarrow>
     is_callback (ds_stream s') = is_callback (ds_stream s) \<and>
     (\<forall>x. x \<notin> A \<longrightarrow> ds_mem s' x = ds_mem s x) \<and> ds_heap s' = ds_heap s \<and> ds_bad_ptr s' = ds_bad_ptr s"

definition keeps :: "'st pb_read_callback \<Rightarrow> int set \<Rightarrow> ('st, 'a) dec \<Rightarrow> ('a \<Rightarrow> bool) \<Rightarrow> bool" where
  "keeps cb A f Q \<longleftrightarrow>
     (\<forall>s r s'. is_callback (ds_stream s) = cb \<longrightarrow> f s = (r, s') \<longrightarrow>
        framed A s s' \<and> (\<forall>y. r = Some y \<longrightarrow> Q y))"

abbreviation block :: "int \<Rightarrow> nat \<Rightarrow> int set" where
  "block a n \<equiv> {a ..< a + int n}"

lemma framed_refl: "framed A s s"
  by (simp add: framed_def)

lemma framed_trans: "framed A s t \<Longrightarrow> framed A t u \<Longrightarrow> framed A s u"
  by (simp add: framed_def)

lemma framed_mono: "framed A s t \<Longrightarrow> A \<subseteq> B \<Longrightarrow> framed B s t"
  unfolding framed_def by blast

lemma framed_stream: "is_callback st = is_callback (ds_stream s) \<Longrightarrow> framed A s (s\<lparr>ds_stream := st\<rparr>)"
  by (simp add: framed_def)

lemma framed_callback: "framed A s t \<Longrightarrow> is_callback (ds_stream t) = is_callback (ds_stream s)"
  by (simp add: framed_def)

lemma sub_block:
  "block a n \<subseteq> A \<Longrightarrow> k \<le> n \<Longrightarrow> block a k \<subseteq> A"
  "block a n \<subseteq> A \<Longrightarrow> d + k \<le> n \<Longrightarrow> block (a + int d) k \<subseteq> A"
  by (rule subset_trans [of _ "block a n"], auto)+

lemma keepsI:
  assumes "\<And>s r s'. is_callback (ds_stream s) = cb \<Longrightarrow> f s = (r, s') \<Longrightarrow>
    framed A s s' \<and> (\<forall>y. r = Some y \<longrightarrow> Q y)"
  shows "keeps cb A f Q"
  using assms unfolding keeps_def by blast

lemma keepsD:
  assumes "keeps cb A f Q" and "is_callback (ds_stream s) = cb" and "f s = (r, s')"
  shows "framed A s s'" and "r = Some y \<Longrightarrow> Q y" and "is_callback (ds_stream s') = cb"
proof -
  show f: "framed A s s'" and "r = Some y \<Longrightarrow> Q y" using assms unfolding keeps_def by blast+
  show "is_callback (ds_stream s') = cb" using framed_callback [OF f] assms(2) by simp
qed

lemma keeps_weaken: "keeps cb A f P \<Longrightarrow> A \<subseteq> B \<Longrightarrow> (\<And>y. P y \<Longrightarrow> Q y) \<Longrightarrow> keeps cb B f Q"
  unfolding keeps_def using framed_mono by blast

lemma keeps_ret: "Q x \<Longrightarrow> keeps cb A (op_ret x) Q"
  by (simp add: keeps_def op_ret_def framed_refl)

lemma keeps_fail: "keeps cb A op_fail Q"
  by (simp add: keeps_def op_fail_def framed_refl)

lemma keeps_bind:
  assumes f: "keeps cb A f P" and g: "\<And>x. P x \<Longrightarrow> keeps cb A (g x) Q"
  shows "keeps cb A (op_bind f g) Q"
proof (rule keepsI)
  fix s r s'
  assume cb: "is_callback (ds_stream s) = cb" and run: "op_bind f g s = (r, s')"
  obtain q t where t: "f s = (q, t)" by (cases "f s")
  note 1 = keepsD [OF f cb t]
  show "framed A s s' \<and> (\<forall>y. r = Some y \<longrightarrow> Q y)"
  proof (cases q)
    case None
    then show ?thesis using run t 1(1) by (simp add: op_bind_None)
  next
    case (Some x)
    then have "g x t = (r, s')" using run t by (simp add: op_bind_Some)
    from keepsD [OF g [OF 1(2) [OF Some]] 1(3) this] show ?thesis using framed_trans [OF 1(1)] by blast
  qed
qed

definition keeps_callback :: "('st pb_istream, 'a) op \<Rightarrow> bool" where
  "keeps_callback f \<longleftrightarrow> (\<forall>s r s'. f s = (r, s') \<longrightarrow> is_callback s' = is_callback s)"

lemma keeps_on_stream: "keeps_callback f \<Longrightarrow> keeps cb A (on_stream f) (\<lambda>_. True)"
  unfolding keeps_callback_def
  by (rule keepsI) (auto simp: on_stream_def split: prod.splits intro!: framed_stream)

lemma keeps_error: "keeps cb A (dec_error msg) Q"
  by (auto simp: keeps_def dec_error_def on_stream_def pb_return_error_def pb_set_error_def intro!: framed_stream)

lemma keeps_mem: "keeps cb A (dec_mem f) (\<lambda>_. True)"
  by (simp add: keeps_def dec_mem_def framed_refl)

lemma mem_set_outside: "x \<notin> block a (length bs) \<Longrightarrow> mem_set a bs m x = m x"
  by (auto simp: mem_set_def)

lemma keeps_write: "block a (length bs) \<subseteq> A \<Longrightarrow> keeps cb A (dec_write a bs) (\<lambda>_. True)"
  unfolding keeps_def dec_write_def framed_def by (auto intro: mem_set_outside)

lemma keeps_if: "(b \<Longrightarrow> keeps cb A f Q) \<Longrightarrow> (\<not> b \<Longrightarrow> keeps cb A g Q) \<Longrightarrow> keeps cb A (if b then f else g) Q"
  by simp

lemma keeps_state:
  "(\<And>s0. is_callback (ds_stream s0) = cb \<Longrightarrow> keeps cb A (f s0) Q) \<Longrightarrow> keeps cb A (\<lambda>s. f s s) Q"
  unfolding keeps_def by blast

lemma keeps_with_stream:
  assumes "keeps cb A f Q" and "is_callback st = cb"
  shows "keeps cb A (\<lambda>s. f (s\<lparr>ds_stream := st\<rparr>)) Q"
proof (rule keepsI)
  fix s r s'
  assume cb: "is_callback (ds_stream s) = cb" and run: "f (s\<lparr>ds_stream := st\<rparr>) = (r, s')"
  have "is_callback (ds_stream (s\<lparr>ds_stream := st\<rparr>)) = cb" using assms(2) by simp
  from keepsD [OF assms(1) this run]
  show "framed A s s' \<and> (\<forall>y. r = Some y \<longrightarrow> Q y)"
    using framed_trans [OF framed_stream [of st s A]] cb assms(2) by auto
qed

lemma keeps_status:
  assumes f: "keeps cb A f P"
    and g: "\<And>r st. is_callback st = cb \<Longrightarrow> (\<And>x. r = Some x \<Longrightarrow> P x) \<Longrightarrow> keeps cb A (\<lambda>s. g r s st) Q"
  shows "keeps cb A (\<lambda>s. case f s of (r, s') \<Rightarrow> g r s' (ds_stream s)) Q"
proof (rule keepsI)
  fix s q t
  assume cb: "is_callback (ds_stream s) = cb" and run: "(case f s of (r, s') \<Rightarrow> g r s' (ds_stream s)) = (q, t)"
  obtain r s' where fs: "f s = (r, s')" by (cases "f s")
  note 1 = keepsD [OF f cb fs]
  have "g r s' (ds_stream s) = (q, t)" using run fs by simp
  from keepsD [OF g [OF cb 1(2)] 1(3) this]
  show "framed A s t \<and> (\<forall>y. q = Some y \<longrightarrow> Q y)" using framed_trans [OF 1(1)] by blast
qed

lemma keeps_result:
  assumes "keeps cb A f P" and "\<And>r. (\<And>x. r = Some x \<Longrightarrow> P x) \<Longrightarrow> keeps cb A (g r) Q"
  shows "keeps cb A (\<lambda>s. case f s of (r, s') \<Rightarrow> g r s') Q"
  using keeps_status [OF assms(1), of "\<lambda>r s st. g r s"] assms(2) by simp

lemma keeps_pure: "(\<And>x. r = Some x \<Longrightarrow> Q x) \<Longrightarrow> keeps cb A (\<lambda>s. (r, s)) Q"
  by (simp add: keeps_def framed_refl)

lemmas keeps_bind_mem = keeps_bind [OF keeps_mem]
lemmas keeps_bind_write = keeps_bind [OF keeps_write]
lemmas keeps_bind_stream = keeps_bind [OF keeps_on_stream]

lemma keeps_bind_error: "keeps cb A (op_bind (dec_error msg) g) Q"
  by (rule keeps_bind [OF keeps_error [where Q = "\<lambda>_. False"]]) simp

lemma keeps_seq: "keeps cb A f (\<lambda>_. True) \<Longrightarrow> (\<And>x. keeps cb A (g x) Q) \<Longrightarrow> keeps cb A (op_bind f g) Q"
  by (rule keeps_bind)

section \<open>Stream operations\<close>

named_theorems callback_kept

lemma keeps_callbackI:
  "(\<And>s r s'. f s = (r, s') \<Longrightarrow> is_callback s' = is_callback s) \<Longrightarrow> keeps_callback f"
  by (simp add: keeps_callback_def)

lemma keeps_callbackD: "keeps_callback f \<Longrightarrow> f s = (r, s') \<Longrightarrow> is_callback s' = is_callback s"
  unfolding keeps_callback_def by blast

lemma keeps_callback_bind [callback_kept]:
  assumes f: "keeps_callback f" and g: "\<And>x. keeps_callback (g x)"
  shows "keeps_callback (op_bind f g)"
proof (rule keeps_callbackI)
  fix s r s'
  assume run: "op_bind f g s = (r, s')"
  obtain q t where t: "f s = (q, t)" by (cases "f s")
  then show "is_callback s' = is_callback s"
    using run keeps_callbackD [OF f t] keeps_callbackD [OF g, of _ t r s']
    by (cases q) (simp_all add: op_bind_Some op_bind_None)
qed

lemma keeps_callback_simple [callback_kept]:
  "keeps_callback (op_ret x)" "keeps_callback (pb_return_error msg)" "keeps_callback (pb_call n)"
  "keeps_callback op_fail" "keeps_callback (\<lambda>s. (Some x, s))"
  by (auto simp: keeps_callback_def op_ret_def op_fail_def pb_return_error_def pb_set_error_def pb_call_def
      split: prod.splits option.splits)

lemma keeps_callback_if [callback_kept]:
  "keeps_callback f \<Longrightarrow> keeps_callback g \<Longrightarrow> keeps_callback (if b then f else g)"
  "keeps_callback f \<Longrightarrow> keeps_callback g \<Longrightarrow> keeps_callback (\<lambda>s. if p s then f s else g s)"
  by (auto simp: keeps_callback_def)

lemma keeps_callback_read [callback_kept]: "keeps_callback (pb_read_buf n)" "keeps_callback pb_readbyte"
  unfolding pb_read_buf_def [abs_def] pb_readbyte_def [abs_def] by (intro callback_kept)+

lemma keeps_callback_blocks [callback_kept]: "keeps_callback (pb_skip_blocks n)"
proof (induction n rule: less_induct)
  case (less n)
  show ?case
  proof (cases "16 < n")
    case True
    then show ?thesis by (subst pb_skip_blocks.simps) (auto intro!: callback_kept less)
  next
    case False
    then show ?thesis by (subst pb_skip_blocks.simps) (auto intro!: callback_kept)
  qed
qed

lemma keeps_callback_null [callback_kept]: "keeps_callback (pb_read_null n)"
  unfolding pb_read_null_def [abs_def] by (intro callback_kept)

lemma varint_loop_callback: "pb_varint_loop result bitpos s = (r, s') \<Longrightarrow> is_callback s' = is_callback s"
proof (induction result bitpos s arbitrary: r s' rule: pb_varint_loop.induct)
  case (1 result bitpos s)
  obtain q t where t: "pb_readbyte s = (q, t)" by (cases "pb_readbyte s")
  have cb: "is_callback t = is_callback s" using keeps_callbackD [OF keeps_callback_read(2) t] .
  let ?res = "\<lambda>byte. result OR push_bit (unat bitpos) (ucast (byte AND 0x7f :: u8))"
  consider "64 \<le> bitpos" | "\<not> 64 \<le> bitpos" "q = None"
    | byte where "\<not> 64 \<le> bitpos" "q = Some byte" "byte AND 0x80 \<noteq> 0"
    | byte where "\<not> 64 \<le> bitpos" "q = Some byte" "byte AND 0x80 = 0" by (cases q) auto
  then show ?case
  proof cases
    case 1
    then show ?thesis using "1.prems" by (subst (asm) pb_varint_loop.simps) (auto simp: pb_return_error_def pb_set_error_def)
  next
    case 2
    then show ?thesis using "1.prems" t cb by (subst (asm) pb_varint_loop.simps) simp
  next
    case 3
    have "pb_varint_loop (?res byte) (bitpos + 7) t = (r, s')"
      using "1.prems" 3 t by (subst (asm) pb_varint_loop.simps) (simp add: Let_def)
    from "1.IH" [OF 3(1) t [symmetric] 3(2) refl refl 3(3) this] show ?thesis using cb by simp
  next
    case 4
    then show ?thesis using "1.prems" t cb by (subst (asm) pb_varint_loop.simps) (auto simp: Let_def)
  qed
qed

lemma varint32_loop_callback: "pb_varint32_loop result bitpos s = (r, s') \<Longrightarrow> is_callback s' = is_callback s"
proof (induction result bitpos s arbitrary: r s' rule: pb_varint32_loop.induct)
  case (1 result bitpos s)
  obtain q t where t: "pb_readbyte s = (q, t)" by (cases "pb_readbyte s")
  have cb: "is_callback t = is_callback s" using keeps_callbackD [OF keeps_callback_read(2) t] .
  let ?sign = "if bitpos < 63 then 0xff else 0x01 :: u8"
  let ?res = "\<lambda>byte :: u8. if 32 \<le> bitpos then result
      else result OR push_bit (unat bitpos) (ucast (byte AND 0x7f))"
  let ?bad = "\<lambda>byte. 32 \<le> bitpos \<and> byte AND 0x7f \<noteq> 0 \<and> (drop_bit 31 result = 0 \<or> byte \<noteq> ?sign)"
  consider "q = None" | byte where "q = Some byte" "?bad byte"
    | byte where "q = Some byte" "\<not> ?bad byte" "byte AND 0x80 \<noteq> 0"
    | byte where "q = Some byte" "\<not> ?bad byte" "byte AND 0x80 = 0" by (cases q) auto
  then show ?case
  proof cases
    case 1
    then show ?thesis using "1.prems" t cb by (subst (asm) pb_varint32_loop.simps) simp
  next
    case 2
    then have "pb_return_error ''varint overflow'' t = (r, s')"
      using "1.prems" t by (subst (asm) pb_varint32_loop.simps) (simp only: Let_def prod.case option.case if_True simp_thms)
    then show ?thesis using cb by (auto simp: pb_return_error_def pb_set_error_def)
  next
    case 3
    have "pb_varint32_loop (?res byte) (bitpos + 7) t = (r, s')"
      using "1.prems" 3 t
      by (subst (asm) pb_varint32_loop.simps) (simp only: Let_def prod.case option.case if_False if_True not_False_eq_True)
    from "1.IH" [OF t [symmetric] 3(1) refl 3(2) refl refl 3(3) this] show ?thesis using cb by simp
  next
    case 4
    then have "(Some (?res byte, byte, bitpos + 7), t) = (r, s')"
      using "1.prems" t
      by (subst (asm) pb_varint32_loop.simps) (simp only: Let_def prod.case option.case if_False simp_thms)
    then show ?thesis using cb by auto
  qed
qed

lemma skip_varint_callback: "pb_skip_varint s = (r, s') \<Longrightarrow> is_callback s' = is_callback s"
proof (induction s arbitrary: r s' rule: pb_skip_varint.induct)
  case (1 s)
  obtain q t where t: "pb_read_buf 1 s = (q, t)" by (cases "pb_read_buf 1 s")
  have cb: "is_callback t = is_callback s" using keeps_callbackD [OF keeps_callback_read(1) t] .
  show ?case
  proof (cases "\<exists>bs. q = Some bs \<and> hd bs AND 0x80 \<noteq> 0")
    case True
    then obtain bs where q: "q = Some bs" "hd bs AND 0x80 \<noteq> 0" by blast
    then have "pb_skip_varint t = (r, s')" using "1.prems" t by (subst (asm) pb_skip_varint.simps) simp
    from "1.IH" [OF t [symmetric] q this] show ?thesis using cb by simp
  next
    case False
    then show ?thesis using "1.prems" t cb by (subst (asm) pb_skip_varint.simps) (auto split: option.splits)
  qed
qed

lemma varint32_eof_callback: "pb_decode_varint32_eof s = (r, eof, s') \<Longrightarrow> is_callback s' = is_callback s"
  using keeps_callbackD [OF keeps_callback_read(2)]
  by (auto simp: pb_decode_varint32_eof_def pb_set_error_def split: prod.splits option.splits if_splits
      dest!: varint32_loop_callback)

lemma keeps_callback_varints [callback_kept]:
  "keeps_callback pb_decode_varint" "keeps_callback pb_decode_varint32" "keeps_callback pb_skip_varint"
  using varint_loop_callback varint32_eof_callback skip_varint_callback
  by (auto simp: keeps_callback_def pb_decode_varint_def pb_decode_varint32_def split: prod.splits)

lemma keeps_callback_values [callback_kept]:
  "keeps_callback pb_decode_svarint" "keeps_callback pb_decode_fixed32" "keeps_callback pb_decode_fixed64"
  unfolding pb_decode_svarint_def pb_decode_fixed32_def pb_decode_fixed64_def
  by (intro callback_kept)+

lemma keeps_callback_field [callback_kept]: "keeps_callback (pb_skip_field wire_type)"
  unfolding pb_skip_field_def pb_skip_string_def by (intro callback_kept)

lemma tag_callback: "pb_decode_tag s = (r, eof, s') \<Longrightarrow> is_callback s' = is_callback s"
  using varint32_eof_callback
  by (auto simp: pb_decode_tag_def split: prod.splits option.splits if_splits)

lemma close_callback: "keeps_callback (pb_close_string_substream substream)"
  by (auto simp: keeps_callback_def pb_close_string_substream_def split: prod.splits option.splits)

lemma make_substream_callback:
  "pb_make_string_substream s = (r, s') \<Longrightarrow>
     is_callback s' = is_callback s \<and> (\<forall>sub. r = Some sub \<longrightarrow> is_callback sub = is_callback s)"
  using keeps_callbackD [OF keeps_callback_varints(2), of s]
  by (auto simp: pb_make_string_substream_def op_bind_def Let_def pb_return_error_def pb_set_error_def
      split: prod.splits option.splits if_splits)

lemma keeps_make_substream:
  "keeps cb A (on_stream pb_make_string_substream) (\<lambda>sub. is_callback sub = cb)"
  by (rule keepsI)
    (auto simp: on_stream_def split: prod.splits dest!: make_substream_callback intro!: framed_stream)

lemma keeps_close:
  "is_callback st = cb \<Longrightarrow>
     keeps cb A (\<lambda>s. op_bind (on_stream (pb_close_string_substream sub)) (\<lambda>_ s. (status :: unit option, s))
       (s\<lparr>ds_stream := st\<rparr>)) (\<lambda>_. True)"
  by (rule keeps_with_stream [OF keeps_bind_stream]) (simp_all add: keeps_pure close_callback)

lemma keeps_in_substream:
  assumes f: "keeps cb A f (\<lambda>_. True)" and sub: "is_callback substream = cb"
  shows "keeps cb A (in_substream substream f) (\<lambda>_. True)"
proof -
  have "keeps cb A (\<lambda>s'. op_bind (on_stream (pb_close_string_substream (ds_stream s')))
      (\<lambda>_ s. (status, s)) (s'\<lparr>ds_stream := st\<rparr>)) (\<lambda>_. True)"
    if "is_callback st = cb" for st and status :: "unit option"
    by (rule keeps_state [OF keeps_close [OF that]])
  from keeps_status [OF keeps_with_stream [OF f sub] this]
  show ?thesis unfolding in_substream_def [abs_def] by simp
qed

section \<open>Field decoders\<close>

text \<open>The members are large enough for what is stored in one entry.\<close>

definition entry_ok :: "pb_field \<Rightarrow> bool" where
  "entry_ok f \<longleftrightarrow>
     (let ltype = PB_LTYPE (f_type f); n = unat (f_data_size f) in
      (ltype = PB_LTYPE_BOOL \<longrightarrow> 1 \<le> n) \<and> (ltype = PB_LTYPE_FIXED32 \<longrightarrow> 4 \<le> n) \<and>
      (ltype = PB_LTYPE_FIXED64 \<longrightarrow> 8 \<le> n))"

lemma keeps_store_clamped:
  "block dest (unat data_size) \<subseteq> A \<Longrightarrow> keeps cb A (store_clamped data_size c v dest) (\<lambda>_. True)"
  unfolding store_clamped_def
  by (cases c) (auto intro!: keeps_error keeps_bind_write keeps_ret)

text \<open>What the recursive calls on the message of a field may write.\<close>

definition calls_keep :: "'st pb_read_callback \<Rightarrow> int set \<Rightarrow> 'st pb_denv \<Rightarrow> 'st pb_dcalls \<Rightarrow> pb_field \<Rightarrow> int \<Rightarrow> bool" where
  "calls_keep cb A env calls field dest \<longleftrightarrow>
     (PB_LTYPE (f_type field) = PB_LTYPE_SUBMESSAGE \<longrightarrow>
        keeps cb A (call_decode calls (de_fields env (f_ptr field)) dest) (\<lambda>_. True) \<and>
        keeps cb A (call_noinit calls (de_fields env (f_ptr field)) dest) (\<lambda>_. True) \<and>
        keeps cb A (call_defaults calls (de_fields env (f_ptr field)) dest) (\<lambda>_. True))"

section \<open>The layout of structures\<close>

text \<open>
  The members with their sizes and presence or count members are inside a structure of
  \<open>sz\<close> bytes.
\<close>

definition member_ok :: "pb_field \<Rightarrow> nat \<Rightarrow> int \<Rightarrow> nat \<Rightarrow> bool" where
  "member_ok f off soff sz \<longleftrightarrow>
     PB_ATYPE (f_type f) = PB_ATYPE_STATIC \<and> PB_LTYPE (f_type f) \<noteq> PB_LTYPE_EXTENSION \<and>
     off + member_size f \<le> sz \<and> entry_ok f \<and>
     (PB_HTYPE (f_type f) = PB_HTYPE_OPTIONAL \<longrightarrow> soff \<noteq> int off \<longrightarrow> 0 \<le> soff \<and> soff + 1 \<le> int sz) \<and>
     (PB_HTYPE (f_type f) \<in> {PB_HTYPE_REPEATED, PB_HTYPE_ONEOF} \<longrightarrow> 0 \<le> soff \<and> soff + 4 \<le> int sz) \<and>
     (PB_HTYPE (f_type f) = PB_HTYPE_REPEATED \<longrightarrow> unat (f_data_size f) * unat (f_array_size f) < 2 ^ 32)"

inductive struct_ok :: "'st pb_denv \<Rightarrow> pb_field list \<Rightarrow> nat \<Rightarrow> bool" for env :: "'st pb_denv" where
  struct_okI: "fields_ok fs \<Longrightarrow>
    \<forall>i < length fs. member_ok (fs ! i) (member_offset fs i) (member_size_offset fs i) sz \<and>
      (PB_LTYPE (f_type (fs ! i)) = PB_LTYPE_SUBMESSAGE \<longrightarrow>
         struct_ok env (de_fields env (f_ptr (fs ! i))) (unat (f_data_size (fs ! i)))) \<Longrightarrow>
    struct_ok env fs sz"

lemma block_trans: "block a n \<subseteq> A \<Longrightarrow> b = a + int d \<Longrightarrow> d + k \<le> n \<Longrightarrow> block b k \<subseteq> A"
  using sub_block(2) by blast

lemma member_ok_block:
  assumes "member_ok f off soff sz"
  shows "block (dest + int off) (member_size f) \<subseteq> block dest sz"
  using assms by (intro block_trans [OF order.refl refl]) (simp add: member_ok_def)

lemma member_ok_single:
  "member_ok f off soff sz \<Longrightarrow> PB_HTYPE (f_type f) \<noteq> PB_HTYPE_REPEATED \<Longrightarrow> member_size f = unat (f_data_size f)"
  by (simp add: member_ok_def member_size_def pb_atypes)

lemma member_ok_array:
  "member_ok f off soff sz \<Longrightarrow> PB_HTYPE (f_type f) = PB_HTYPE_REPEATED \<Longrightarrow>
     member_size f = unat (f_data_size f) * unat (f_array_size f)"
  by (simp add: member_ok_def member_size_def)

lemma member_ok_size_block:
  assumes "member_ok f off soff sz"
  shows "PB_HTYPE (f_type f) = PB_HTYPE_OPTIONAL \<Longrightarrow> soff \<noteq> int off \<Longrightarrow> block (dest + soff) 1 \<subseteq> block dest sz"
    and "PB_HTYPE (f_type f) \<in> {PB_HTYPE_REPEATED, PB_HTYPE_ONEOF} \<Longrightarrow> block (dest + soff) 4 \<subseteq> block dest sz"
  using assms by (auto simp: member_ok_def)

text \<open>An entry of an array; the product of the code is in 32 bits.\<close>

lemma member_ok_entry:
  assumes m: "member_ok f off soff sz" and h: "PB_HTYPE (f_type f) = PB_HTYPE_REPEATED"
    and k: "k < unat (f_array_size f)"
  shows "unat (f_data_size f * of_nat k) = unat (f_data_size f) * k"
    and "block (dest + int off + int (unat (f_data_size f) * k)) (unat (f_data_size f)) \<subseteq> block dest sz"
proof -
  have bound: "unat (f_data_size f) * unat (f_array_size f) < 2 ^ 32" using m h by (simp add: member_ok_def)
  have "unat (f_data_size f) * k \<le> unat (f_data_size f) * unat (f_array_size f)" using k by simp
  from order.strict_trans1 [OF this bound] have "unat (f_data_size f) * k < 2 ^ LENGTH(32)" by simp
  moreover have "k < 2 ^ LENGTH(32)" using k unsigned_less [of "f_array_size f", where 'a = nat] by simp
  then have "unat (of_nat k :: u32) = k" unfolding unat_of_nat by simp
  ultimately show "unat (f_data_size f * of_nat k) = unat (f_data_size f) * k"
    by (simp add: unat_mult_lem [symmetric] unat_word_ariths)
  have "unat (f_data_size f) * k + unat (f_data_size f) = unat (f_data_size f) * Suc k" by simp
  also have "\<dots> \<le> unat (f_data_size f) * unat (f_array_size f)" using k by (intro mult_le_mono2) simp
  finally have "unat (f_data_size f) * k + unat (f_data_size f) \<le> member_size f"
    using member_ok_array [OF m h] by simp
  then show "block (dest + int off + int (unat (f_data_size f) * k)) (unat (f_data_size f)) \<subseteq> block dest sz"
    by (intro block_trans [OF member_ok_block [OF m] refl])
qed

section \<open>The iterator of the main loop\<close>

text \<open>
  The iterator points at a member of the structure, and for an array without a count member
  its \<open>pSize\<close> may point at the local variable at \<open>loc\<close>.
\<close>

definition iter_ok :: "pb_field list \<Rightarrow> int \<Rightarrow> int \<Rightarrow> pb_field_iter \<Rightarrow> bool" where
  "iter_ok fs dest loc iter \<longleftrightarrow>
     (\<exists>j < length fs. iter = iter_at fs dest j \<or>
        PB_HTYPE (f_type (fs ! j)) = PB_HTYPE_REPEATED \<and> iter = (iter_at fs dest j)\<lparr>it_pSize := loc\<rparr>)"

lemma iter_okI: "j < length fs \<Longrightarrow> iter_ok fs dest loc (iter_at fs dest j)"
  by (auto simp: iter_ok_def)

lemma next_moved:
  assumes "fields_ok fs" and "j < length fs" and "PB_HTYPE (f_type (fs ! j)) = PB_HTYPE_REPEATED"
  shows "pb_field_iter_next ((iter_at fs dest j)\<lparr>it_pSize := loc\<rparr>) = pb_field_iter_next (iter_at fs dest j)"
  using field_at_ok [OF assms(1,2)] assms(3)
  by (simp add: pb_field_iter_next_def iter_at_def Let_def pb_htypes)

lemma search_plain:
  assumes "fields_ok fs" and "j < length fs"
  obtains found i where "iter_search p j (iter_at fs dest j) = Some (found, iter_at fs dest i)"
    and "i < length fs" and "found = list_ex p fs" and "found \<longrightarrow> p (fs ! i)"
  using search_finds [OF assms, of p dest] by (auto split: if_splits)

lemma search_ok:
  assumes ok: "fields_ok fs" and iter: "iter_ok fs dest loc iter"
  obtains found iter' where "iter_search p (it_pos iter) iter = Some (found, iter')"
    and "iter_ok fs dest loc iter'" and "found = list_ex p fs"
proof -
  obtain j where j: "j < length fs" and cases: "iter = iter_at fs dest j \<or>
      PB_HTYPE (f_type (fs ! j)) = PB_HTYPE_REPEATED \<and> iter = (iter_at fs dest j)\<lparr>it_pSize := loc\<rparr>"
    using iter by (auto simp: iter_ok_def)
  obtain found i where plain: "iter_search p j (iter_at fs dest j) = Some (found, iter_at fs dest i)"
    "i < length fs" "found = list_ex p fs" using search_plain [OF ok j] by metis
  have pos: "it_pos iter = j" "it_field iter = fs ! j" using cases field_at_ok [OF ok j] by (auto simp: iter_at_def)
  have f: "field_at fs j = fs ! j" using field_at_ok [OF ok j] by simp
  show thesis
  proof (cases "p (fs ! j)")
    case True
    have "iter_search p (it_pos iter) iter = Some (True, iter)"
      using True pos by (subst iter_search.simps) simp
    moreover have "list_ex p fs" using True j by (auto simp: list_ex_length)
    ultimately show thesis using that iter by simp
  next
    case False
    have "snd (pb_field_iter_next iter) = snd (pb_field_iter_next (iter_at fs dest j))"
      using cases next_moved [OF ok j] by auto
    then have "iter_search p (it_pos iter) iter = iter_search p j (iter_at fs dest j)"
      using False pos f
      by (subst iter_search.simps, subst (2) iter_search.simps) (simp add: Let_def)
    then show thesis using that plain iter_okI by metis
  qed
qed

text \<open>A read callback delivers at most what it is asked for.\<close>

locale bounded_callback =
  fixes cb :: "'st pb_read_callback"
  assumes cb_bound: "cb n st = (Some bs, st') \<Longrightarrow> length bs \<le> n"
begin

lemma read_buf_bound:
  assumes "is_callback s = cb" and "pb_read_buf n s = (Some bs, s')"
  shows "length bs \<le> n"
  using assms cb_bound
  by (auto simp: pb_read_buf_def pb_call_def pb_return_error_def split: if_splits prod.splits option.splits)

lemma keeps_read:
  assumes "block dest n \<subseteq> A"
  shows "keeps cb A (dec_read dest n) (\<lambda>_. True)"
proof -
  have "keeps cb A (on_stream (pb_read_buf n)) (\<lambda>bs. length bs \<le> n)"
    using read_buf_bound keeps_callbackD [OF keeps_callback_read(1)]
    by (intro keepsI) (auto simp: on_stream_def split: prod.splits intro!: framed_stream)
  then show ?thesis
    unfolding dec_read_def
  proof (rule keeps_bind)
    fix bs :: "u8 list"
    assume "length bs \<le> n"
    then have "block dest (length bs) \<subseteq> A" by (rule sub_block(1) [OF assms])
    then show "keeps cb A (dec_write dest bs) (\<lambda>_. True)" by (rule keeps_write)
  qed
qed

lemma keeps_string:
  assumes "PB_ATYPE (f_type field) = PB_ATYPE_STATIC" and A: "block dest (unat (f_data_size field)) \<subseteq> A"
  shows "keeps cb A (pb_dec_string env field dest) (\<lambda>_. True)"
  unfolding pb_dec_string_def
proof (rule keeps_bind_stream [OF keeps_callback_varints(2)])
  fix sz :: u32
  have atype: "PB_ATYPE (f_type field) \<noteq> PB_ATYPE_POINTER" using assms(1) by (simp add: pb_atypes)
  let ?k = "\<lambda>dest s. case dec_read dest (unat sz) s of (status, s) \<Rightarrow>
      op_bind (dec_write (dest + int (unat sz)) [0]) (\<lambda>_ s. (status, s)) s"
  have k: "keeps cb A (?k dest) (\<lambda>_. True)"
    if "unat sz \<le> unat (sz + 1)" "unat (sz + 1) \<le> unat (f_data_size field)"
  proof -
    have "1 + sz \<noteq> 0" using that(1) by (auto simp: add.commute unat_eq_0)
    then have "unat (sz + 1) = unat sz + 1" using unatSuc [of sz] by (simp add: add.commute)
    then have "block dest (unat sz) \<subseteq> A" "block (dest + int (unat sz)) (length [0 :: u8]) \<subseteq> A"
      using that(2) sub_block(1) [OF A, of "unat sz"] sub_block(2) [OF A, of "unat sz" 1]
      by (simp_all del: of_nat_unat)
    then show ?thesis
      by (intro keeps_result [OF keeps_read] keeps_bind_write keeps_pure) auto
  qed
  show "keeps cb A (let alloc_size = unat (sz + 1) in
      if alloc_size < unat sz then dec_error ''size too large''
      else op_bind
        (if PB_ATYPE (f_type field) = PB_ATYPE_POINTER then
           op_bind (allocate_field env dest alloc_size 1) (\<lambda>_. dec_mem (\<lambda>m. load_ptr m dest))
         else if alloc_size > unat (f_data_size field) then dec_error ''string overflow'' else op_ret dest) ?k)
      (\<lambda>_. True)"
  proof (cases "unat sz \<le> unat (sz + 1) \<and> unat (sz + 1) \<le> unat (f_data_size field)")
    case True
    then show ?thesis using k atype by (simp add: Let_def)
  next
    case False
    then show ?thesis using atype by (auto simp: Let_def intro!: keeps_error keeps_bind_error)
  qed
qed

lemma keeps_bytes:
  assumes "PB_ATYPE (f_type field) = PB_ATYPE_STATIC" and A: "block dest (unat (f_data_size field)) \<subseteq> A"
  shows "keeps cb A (pb_dec_bytes env field dest) (\<lambda>_. True)"
  unfolding pb_dec_bytes_def
proof (rule keeps_bind_stream [OF keeps_callback_varints(2)])
  fix sz :: u32
  have atype: "PB_ATYPE (f_type field) \<noteq> PB_ATYPE_POINTER" using assms(1) by (simp add: pb_atypes)
  have "unat sz < 2 ^ 32" using unsigned_less [of sz, where 'a = nat] by simp
  then have w: "wrap64 (unat sz + 4) = unat sz + 4" by simp
  let ?k = "\<lambda>bdest. op_bind (dec_write bdest (le_bytes 4 (unat sz))) (\<lambda>_. dec_read (bdest + 4) (unat sz))"
  have k: "keeps cb A (?k dest) (\<lambda>_. True)" if "unat sz + 4 \<le> unat (f_data_size field)"
  proof -
    have "block dest (length (le_bytes 4 (unat sz))) \<subseteq> A" "block (dest + 4) (unat sz) \<subseteq> A"
      using that sub_block(1) [OF A, of 4] sub_block(2) [OF A, of 4 "unat sz"] by (simp_all del: of_nat_unat)
    then show ?thesis by (intro keeps_bind_write keeps_read)
  qed
  show "keeps cb A (let alloc_size = wrap64 (unat sz + 4) in
      if sz > PB_SIZE_MAX then dec_error ''bytes overflow''
      else if unat sz > alloc_size then dec_error ''size too large''
      else op_bind
        (if PB_ATYPE (f_type field) = PB_ATYPE_POINTER then
           op_bind (allocate_field env dest alloc_size 1) (\<lambda>_. dec_mem (\<lambda>m. load_ptr m dest))
         else if alloc_size > unat (f_data_size field) then dec_error ''bytes overflow'' else op_ret dest) ?k)
      (\<lambda>_. True)"
    unfolding w
  proof (cases "unat sz + 4 \<le> unat (f_data_size field)")
    case True
    then show "keeps cb A (let alloc_size = unat sz + 4 in
        if sz > PB_SIZE_MAX then dec_error ''bytes overflow''
        else if unat sz > alloc_size then dec_error ''size too large''
        else op_bind
          (if PB_ATYPE (f_type field) = PB_ATYPE_POINTER then
             op_bind (allocate_field env dest alloc_size 1) (\<lambda>_. dec_mem (\<lambda>m. load_ptr m dest))
           else if alloc_size > unat (f_data_size field) then dec_error ''bytes overflow'' else op_ret dest) ?k)
        (\<lambda>_. True)"
      using k atype by (auto simp: Let_def intro!: keeps_error)
  next
    case False
    then show "keeps cb A (let alloc_size = unat sz + 4 in
        if sz > PB_SIZE_MAX then dec_error ''bytes overflow''
        else if unat sz > alloc_size then dec_error ''size too large''
        else op_bind
          (if PB_ATYPE (f_type field) = PB_ATYPE_POINTER then
             op_bind (allocate_field env dest alloc_size 1) (\<lambda>_. dec_mem (\<lambda>m. load_ptr m dest))
           else if alloc_size > unat (f_data_size field) then dec_error ''bytes overflow'' else op_ret dest) ?k)
        (\<lambda>_. True)"
      using atype by (auto simp: Let_def intro!: keeps_error keeps_bind_error)
  qed
qed

lemma keeps_fixed_length_bytes:
  assumes "block dest (unat (f_data_size field)) \<subseteq> A"
  shows "keeps cb A (pb_dec_fixed_length_bytes field dest) (\<lambda>_. True)"
  unfolding pb_dec_fixed_length_bytes_def
  using assms by (intro keeps_bind_stream callback_kept keeps_if keeps_error keeps_write keeps_read) simp_all

lemma keeps_submessage:
  assumes "PB_LTYPE (f_type field) = PB_LTYPE_SUBMESSAGE" and "calls_keep cb A env calls field dest"
  shows "keeps cb A (pb_dec_submessage env calls field dest) (\<lambda>_. True)"
  unfolding pb_dec_submessage_def
proof (rule keeps_bind [OF keeps_make_substream])
  fix substream :: "'st pb_istream"
  assume "is_callback substream = cb"
  then show "keeps cb A
      (if f_ptr field = 0 then dec_error ''invalid field descriptor''
       else in_substream substream
         ((if PB_HTYPE (f_type field) = PB_HTYPE_REPEATED then call_decode calls else call_noinit calls)
            (de_fields env (f_ptr field)) dest)) (\<lambda>_. True)"
    using assms by (auto simp: calls_keep_def intro!: keeps_error keeps_in_substream)
qed

lemma keeps_decoder:
  assumes "PB_ATYPE (f_type field) = PB_ATYPE_STATIC" and entry: "entry_ok field"
    and A: "block dest (unat (f_data_size field)) \<subseteq> A" and calls: "calls_keep cb A env calls field dest"
  shows "keeps cb A (PB_DECODERS env calls (PB_LTYPE (f_type field)) field dest) (\<lambda>_. True)"
proof -
  have sub: "block dest n \<subseteq> A" if "n \<le> unat (f_data_size field)" for n using that by (rule sub_block(1) [OF A])
  have bool: "keeps cb A (pb_dec_bool dest) (\<lambda>_. True)" if "PB_LTYPE (f_type field) = PB_LTYPE_BOOL"
    unfolding pb_dec_bool_def using that entry sub [of 1]
    by (intro keeps_bind_stream callback_kept keeps_write) (auto simp: entry_ok_def pb_ltypes)
  have f32: "keeps cb A (pb_dec_fixed32 dest) (\<lambda>_. True)" if "PB_LTYPE (f_type field) = PB_LTYPE_FIXED32"
    unfolding pb_dec_fixed32_def using that entry sub [of 4]
    by (intro keeps_bind_stream callback_kept keeps_write) (auto simp: entry_ok_def pb_ltypes)
  have f64: "keeps cb A (pb_dec_fixed64 dest) (\<lambda>_. True)" if "PB_LTYPE (f_type field) = PB_LTYPE_FIXED64"
    unfolding pb_dec_fixed64_def using that entry sub [of 8]
    by (intro keeps_bind_stream callback_kept keeps_write) (auto simp: entry_ok_def pb_ltypes)
  have ints: "keeps cb A (pb_dec_varint field dest) (\<lambda>_. True)"
      "keeps cb A (pb_dec_uvarint field dest) (\<lambda>_. True)" "keeps cb A (pb_dec_svarint field dest) (\<lambda>_. True)"
    unfolding pb_dec_varint_def pb_dec_uvarint_def pb_dec_svarint_def Let_def
    by (intro keeps_bind_stream callback_kept keeps_store_clamped A)+
  show ?thesis
    unfolding PB_DECODERS_def
    using bool f32 f64 ints keeps_bytes [OF assms(1) A] keeps_string [OF assms(1) A]
      keeps_submessage [OF _ calls] keeps_fixed_length_bytes [OF A] keeps_fail
    by (intro keeps_if)
qed

section \<open>Walks over the members\<close>

lemma keeps_each_field:
  assumes ok: "fields_ok fs" and f: "\<And>i. i < length fs \<Longrightarrow> keeps cb A (f (iter_at fs dest i)) (\<lambda>_. True)"
  shows "i < length fs \<Longrightarrow> keeps cb A (each_field f k (iter_at fs dest i)) (\<lambda>_. True)"
proof (induction k arbitrary: i)
  case 0
  then show ?case by (simp add: keeps_fail)
next
  case (Suc k)
  show ?case
    using iter_next [OF ok Suc.prems, of dest] Suc.IH
    by (cases "Suc i < length fs") (auto intro!: keeps_seq [OF f [OF Suc.prems]] keeps_ret)
qed

lemma keeps_release_items:
  assumes "\<And>p. keeps cb A (f p) (\<lambda>_. True)"
  shows "keeps cb A (release_items f k p step) (\<lambda>_. True)"
  by (induction k arbitrary: p) (auto intro!: keeps_ret keeps_seq assms)

lemma keeps_defaults:
  "struct_ok env fs sz \<Longrightarrow> keeps cb (block dest sz) (pb_message_set_to_defaults n env fs dest) (\<lambda>_. True)"
proof (induction fs sz arbitrary: n dest rule: struct_ok.induct)
  case (struct_okI fs sz)
  note ok = \<open>fields_ok fs\<close>
  have field: "keeps cb (block dest sz) (pb_field_set_to_default n env (iter_at fs dest i)) (\<lambda>_. True)"
    if i: "i < length fs" for n i
  proof (cases n)
    case 0
    then show ?thesis by (simp add: keeps_fail pb_field_set_to_default.simps)
  next
    case (Suc m)
    let ?f = "fs ! i" and ?off = "member_offset fs i" and ?soff = "member_size_offset fs i"
    have m: "member_ok ?f ?off ?soff sz" using struct_okI.IH i by blast
    have it: "field_at fs i = ?f" using field_at_ok [OF ok i] by simp
    have atype: "PB_ATYPE (f_type ?f) = PB_ATYPE_STATIC" "PB_LTYPE (f_type ?f) \<noteq> PB_LTYPE_EXTENSION"
      using m by (simp_all add: member_ok_def)
    have data: "block (dest + int ?off) (unat (f_data_size ?f)) \<subseteq> block dest sz"
      if "PB_HTYPE (f_type ?f) \<noteq> PB_HTYPE_REPEATED"
      using member_ok_block [OF m] member_ok_single [OF m that] by simp
    have sub: "keeps cb (block dest sz) (pb_message_set_to_defaults m env (de_fields env (f_ptr ?f)) (dest + int ?off)) (\<lambda>_. True)"
      if "PB_LTYPE (f_type ?f) = PB_LTYPE_SUBMESSAGE" "PB_HTYPE (f_type ?f) \<noteq> PB_HTYPE_REPEATED"
    proof -
      have "keeps cb (block (dest + int ?off) (unat (f_data_size ?f)))
          (pb_message_set_to_defaults m env (de_fields env (f_ptr ?f)) (dest + int ?off)) (\<lambda>_. True)"
        using struct_okI.IH i that(1) by blast
      then show ?thesis using data [OF that(2)] by (rule keeps_weaken)
    qed
    have h: "PB_HTYPE_REPEATED \<noteq> PB_HTYPE_OPTIONAL" by (simp add: pb_htypes)
    show ?thesis
      unfolding Suc pb_field_set_to_default.simps Let_def iter_at_simps it if_not_P [OF atype(2)] if_P [OF atype(1)]
    proof (intro keeps_if)
      assume "PB_HTYPE (f_type ?f) = PB_HTYPE_REPEATED \<or> PB_HTYPE (f_type ?f) = PB_HTYPE_ONEOF"
      then show "keeps cb (block dest sz) (dec_write (dest + ?soff) (le_bytes 4 0)) (\<lambda>_. True)"
        using member_ok_size_block(2) [OF m, of dest] by (intro keeps_write) simp
    next
      assume "\<not> (PB_HTYPE (f_type ?f) = PB_HTYPE_REPEATED \<or> PB_HTYPE (f_type ?f) = PB_HTYPE_ONEOF)"
      then have single: "PB_HTYPE (f_type ?f) \<noteq> PB_HTYPE_REPEATED" by simp
      have "dest + ?soff \<noteq> dest + int ?off \<Longrightarrow> ?soff \<noteq> int ?off" by simp
      then show "keeps cb (block dest sz)
          (op_bind (if PB_HTYPE (f_type ?f) = PB_HTYPE_OPTIONAL \<and> dest + ?soff \<noteq> dest + int ?off
                    then dec_write (dest + ?soff) [0] else op_ret ())
             (\<lambda>_. if PB_LTYPE (f_type ?f) = PB_LTYPE_SUBMESSAGE
                  then pb_message_set_to_defaults m env (de_fields env (f_ptr ?f)) (dest + int ?off)
                  else if f_ptr ?f \<noteq> 0 then
                    op_bind (dec_mem (\<lambda>m. mem_bytes m (f_ptr ?f) (unat (f_data_size ?f)))) (dec_write (dest + int ?off))
                  else dec_write (dest + int ?off) (replicate (unat (f_data_size ?f)) 0))) (\<lambda>_. True)"
        using member_ok_size_block(1) [OF m, of dest] sub [OF _ single] data [OF single]
        by (intro keeps_seq keeps_if keeps_write keeps_ret keeps_bind [of cb "block dest sz" _ "\<lambda>bs. length bs = unat (f_data_size ?f)"])
          (auto simp: keeps_def dec_mem_def framed_refl)
    qed
  qed
  show ?case
  proof (cases n)
    case 0
    then show ?thesis by (simp add: keeps_fail pb_message_set_to_defaults.simps)
  next
    case (Suc m)
    have "0 < length fs" using ok by (simp add: fields_ok_def)
    then have "keeps cb (block dest sz)
        (each_field (\<lambda>iter. pb_field_set_to_default m env iter) (length fs) (iter_at fs dest 0)) (\<lambda>_. True)"
      by (intro keeps_each_field [OF ok] field)
    then show ?thesis
      using iter_begin [OF ok, of dest] by (simp add: Suc pb_message_set_to_defaults.simps)
  qed
qed

text \<open>Releasing a structure without pointers does nothing.\<close>

lemma keeps_release:
  "struct_ok env fs sz \<Longrightarrow> keeps cb {} (pb_release n env fs dest) (\<lambda>_. True)"
  and keeps_release_field:
  "struct_ok env fs sz \<Longrightarrow> i < length fs \<Longrightarrow>
     keeps cb {} (pb_release_single_field n env (iter_at fs dest i)) (\<lambda>_. True)"
proof -
  have field: "keeps cb {} (pb_release_single_field n env (iter_at fs dest i)) (\<lambda>_. True)"
    if ok: "fields_ok fs" and i: "i < length fs"
      and m: "member_ok (fs ! i) (member_offset fs i) (member_size_offset fs i) sz"
      and sub: "\<And>n dest. PB_LTYPE (f_type (fs ! i)) = PB_LTYPE_SUBMESSAGE \<Longrightarrow>
        keeps cb {} (pb_release n env (de_fields env (f_ptr (fs ! i))) dest) (\<lambda>_. True)"
    for fs i n dest sz
  proof (cases n)
    case 0
    then show ?thesis by (simp add: keeps_fail pb_release_single_field.simps)
  next
    case (Suc m)
    have it: "field_at fs i = fs ! i" using field_at_ok [OF ok i] by simp
    have atype: "PB_ATYPE (f_type (fs ! i)) \<noteq> PB_ATYPE_POINTER" "PB_LTYPE (f_type (fs ! i)) \<noteq> PB_LTYPE_EXTENSION"
      using m by (simp_all add: member_ok_def pb_atypes)
    show ?thesis
      unfolding Suc pb_release_single_field.simps Let_def iter_at_simps it if_not_P [OF atype(1)] if_not_P [OF atype(2)]
      by (intro keeps_bind_mem keeps_if keeps_ret keeps_seq keeps_release_items sub) simp_all
  qed
  have message: "keeps cb {} (pb_release n env fs dest) (\<lambda>_. True)"
    if ok: "fields_ok fs" and fields: "\<And>i n. i < length fs \<Longrightarrow>
        keeps cb {} (pb_release_single_field n env (iter_at fs dest i)) (\<lambda>_. True)" for fs n dest
  proof (cases n)
    case 0
    then show ?thesis by (simp add: keeps_fail pb_release.simps)
  next
    case (Suc m)
    have "0 < length fs" using ok by (simp add: fields_ok_def)
    then have "keeps cb {} (each_field (\<lambda>iter. pb_release_single_field m env iter) (length fs) (iter_at fs dest 0))
        (\<lambda>_. True)"
      by (intro keeps_each_field [OF ok] fields)
    then show ?thesis using iter_begin [OF ok, of dest] by (simp add: Suc pb_release.simps keeps_ret)
  qed
  show rel: "keeps cb {} (pb_release n env fs dest) (\<lambda>_. True)" if "struct_ok env fs sz" for fs sz n dest
    using that
  proof (induction fs sz arbitrary: n dest rule: struct_ok.induct)
    case (struct_okI fs sz)
    note ok = \<open>fields_ok fs\<close>
    show ?case
    proof (rule message [OF ok])
      fix i n
      assume i: "i < length fs"
      note f = struct_okI.IH [rule_format, OF i]
      show "keeps cb {} (pb_release_single_field n env (iter_at fs dest i)) (\<lambda>_. True)"
        by (rule field [OF ok i conjunct1 [OF f]]) (use conjunct2 [OF f] in simp)
    qed
  qed
  assume "struct_ok env fs sz" and i: "i < length fs"
  then show "keeps cb {} (pb_release_single_field n env (iter_at fs dest i)) (\<lambda>_. True)"
  proof cases
    case struct_okI
    note f = struct_okI(2) [rule_format, OF i]
    show ?thesis
      by (rule field [OF struct_okI(1) i conjunct1 [OF f]]) (use conjunct2 [OF f] rel in simp)
  qed
qed

section \<open>Static fields\<close>

lemma keeps_packed_loop:
  assumes pSize: "block pSize 4 \<subseteq> A"
    and func: "\<And>k. k < unat (f_array_size field) \<Longrightarrow>
      keeps cb A (func (pData + int (unat (f_data_size field * of_nat k)))) (\<lambda>_. True)"
  shows "keeps cb A (decode_packed_loop func field pData pSize k) (\<lambda>_. True)"
proof (induction k)
  case 0
  show ?case
    by (rule keepsI) (auto simp: decode_packed_loop.simps [of _ _ _ _ 0] Let_def framed_refl split: if_splits)
next
  case (Suc k)
  let ?one = "\<lambda>count. op_bind (func (pData + int (unat (f_data_size field * of_nat count)))) (\<lambda>_.
      op_bind (dec_mem (\<lambda>m. load 4 m pSize)) (\<lambda>count.
      op_bind (dec_write pSize (le_bytes 4 (count + 1))) (\<lambda>_.
        decode_packed_loop func field pData pSize k)))"
  have one: "keeps cb A (?one count) (\<lambda>_. True)" if "count < unat (f_array_size field)" for count
    by (intro keeps_seq [OF func] keeps_bind_mem keeps_bind_write Suc.IH that) (use pSize in simp_all)
  show ?case
  proof (rule keepsI)
    fix s r s'
    assume cb: "is_callback (ds_stream s) = cb" and run: "decode_packed_loop func field pData pSize (Suc k) s = (r, s')"
    show "framed A s s' \<and> (\<forall>y. r = Some y \<longrightarrow> True)"
    proof (cases "0 < is_bytes_left (ds_stream s) \<and> load 4 (ds_mem s) pSize < unat (f_array_size field)")
      case True
      then have "?one (load 4 (ds_mem s) pSize) s = (r, s')"
        using run by (subst (asm) decode_packed_loop.simps) (simp add: Let_def)
      then show ?thesis using keepsD(1) [OF one cb] True by blast
    next
      case False
      then show ?thesis
        using run by (subst (asm) decode_packed_loop.simps) (auto simp: Let_def framed_refl)
    qed
  qed
qed

lemma keeps_static_field:
  assumes m: "member_ok f off soff sz" and it: "it_field iter = f" and pData: "it_pData iter = dest + int off"
    and A: "block dest sz \<subseteq> A"
    and pSize: "it_pSize iter = dest + soff \<or> block (it_pSize iter) 4 \<subseteq> A \<and> PB_HTYPE (f_type f) = PB_HTYPE_REPEATED"
    and calls: "\<And>a. block a (unat (f_data_size f)) \<subseteq> A \<Longrightarrow> calls_keep cb A env calls f a"
  shows "keeps cb A (decode_static_field env calls wire_type iter) (\<lambda>_. True)"
proof -
  let ?func = "PB_DECODERS env calls (PB_LTYPE (f_type f)) f" and ?h = "PB_HTYPE (f_type f)"
  let ?entry = "\<lambda>k. dest + int off + int (unat (f_data_size f * of_nat k))"
  have decoder: "keeps cb A (?func a) (\<lambda>_. True)" if "block a (unat (f_data_size f)) \<subseteq> A" for a
    using m that calls [OF that] by (intro keeps_decoder) (simp_all add: member_ok_def)
  have single: "block (dest + int off) (unat (f_data_size f)) \<subseteq> A" if "?h \<noteq> PB_HTYPE_REPEATED"
    using member_ok_block [OF m, of dest] member_ok_single [OF m that] A by auto
  have entry: "keeps cb A (?func (?entry k)) (\<lambda>_. True)"
    if "?h = PB_HTYPE_REPEATED" "k < unat (f_array_size f)" for k
    unfolding member_ok_entry(1) [OF m that] using member_ok_entry(2) [OF m that, of dest] A
    by (intro decoder) blast
  have size4: "block (it_pSize iter) 4 \<subseteq> A" if "?h \<in> {PB_HTYPE_REPEATED, PB_HTYPE_ONEOF}"
    using pSize member_ok_size_block(2) [OF m that, of dest] A by auto
  have size1: "block (it_pSize iter) 1 \<subseteq> A" if "?h = PB_HTYPE_OPTIONAL" "it_pSize iter \<noteq> dest + int off"
    using pSize member_ok_size_block(1) [OF m that(1), of dest] that A by (auto simp: pb_htypes)
  have repeated: "keeps cb A
      (if wire_type = PB_WT_STRING \<and> PB_LTYPE (f_type f) \<le> PB_LTYPE_LAST_PACKABLE then
         op_bind (on_stream pb_make_string_substream) (\<lambda>substream s.
           case decode_packed_loop ?func f (dest + int off) (it_pSize iter) (is_bytes_left substream)
                  (s\<lparr>ds_stream := substream\<rparr>) of
             (status, s') \<Rightarrow>
               let substream = ds_stream s'; s = s'\<lparr>ds_stream := ds_stream s\<rparr> in
               if is_bytes_left substream \<noteq> 0 then dec_error ''array overflow'' s
               else op_bind (on_stream (pb_close_string_substream substream)) (\<lambda>_ s. (status, s)) s)
       else
         op_bind (dec_mem (\<lambda>m. load 4 m (it_pSize iter))) (\<lambda>count.
         op_bind (dec_write (it_pSize iter) (le_bytes 4 (count + 1))) (\<lambda>_.
           if count \<ge> unat (f_array_size f) then dec_error ''array overflow'' else ?func (?entry count))))
      (\<lambda>_. True)" if h: "?h = PB_HTYPE_REPEATED"
  proof (intro keeps_if)
    show "keeps cb A (op_bind (on_stream pb_make_string_substream) (\<lambda>substream s.
        case decode_packed_loop ?func f (dest + int off) (it_pSize iter) (is_bytes_left substream)
               (s\<lparr>ds_stream := substream\<rparr>) of
          (status, s') \<Rightarrow>
            let substream = ds_stream s'; s = s'\<lparr>ds_stream := ds_stream s\<rparr> in
            if is_bytes_left substream \<noteq> 0 then dec_error ''array overflow'' s
            else op_bind (on_stream (pb_close_string_substream substream)) (\<lambda>_ s. (status, s)) s)) (\<lambda>_. True)"
    proof (rule keeps_bind [OF keeps_make_substream])
      fix substream :: "'st pb_istream"
      assume sub: "is_callback substream = cb"
      have close: "keeps cb A (\<lambda>s'. let substream = ds_stream s'; s = s'\<lparr>ds_stream := st\<rparr> in
            if is_bytes_left substream \<noteq> 0 then dec_error ''array overflow'' s
            else op_bind (on_stream (pb_close_string_substream substream)) (\<lambda>_ s. (status, s)) s) (\<lambda>_. True)"
        if "is_callback st = cb" for st and status :: "unit option"
      proof -
        let ?g = "\<lambda>(s0 :: 'st pb_dstate) s'. let substream = ds_stream s0; s = s'\<lparr>ds_stream := st\<rparr> in
            if is_bytes_left substream \<noteq> 0 then dec_error ''array overflow'' s
            else op_bind (on_stream (pb_close_string_substream substream)) (\<lambda>_ s. (status, s)) s"
        have "keeps cb A (?g s0) (\<lambda>_. True)" for s0
          using keeps_with_stream [OF keeps_error that] keeps_close [OF that]
          by (cases "is_bytes_left (ds_stream s0) = 0") (simp_all add: Let_def)
        then show ?thesis by (rule keeps_state)
      qed
      have "keeps cb A (decode_packed_loop ?func f (dest + int off) (it_pSize iter) (is_bytes_left substream)) (\<lambda>_. True)"
        using size4 h by (intro keeps_packed_loop entry) simp_all
      from keeps_status [OF keeps_with_stream [OF this sub] close]
      show "keeps cb A (\<lambda>s. case decode_packed_loop ?func f (dest + int off) (it_pSize iter)
            (is_bytes_left substream) (s\<lparr>ds_stream := substream\<rparr>) of
          (status, s') \<Rightarrow>
            let substream = ds_stream s'; s = s'\<lparr>ds_stream := ds_stream s\<rparr> in
            if is_bytes_left substream \<noteq> 0 then dec_error ''array overflow'' s
            else op_bind (on_stream (pb_close_string_substream substream)) (\<lambda>_ s. (status, s)) s) (\<lambda>_. True)"
        by simp
    qed
    show "keeps cb A (op_bind (dec_mem (\<lambda>m. load 4 m (it_pSize iter))) (\<lambda>count.
        op_bind (dec_write (it_pSize iter) (le_bytes 4 (count + 1))) (\<lambda>_.
          if count \<ge> unat (f_array_size f) then dec_error ''array overflow'' else ?func (?entry count)))) (\<lambda>_. True)"
      using size4 h by (intro keeps_bind_mem keeps_bind_write keeps_if keeps_error entry) simp_all
  qed
  have oneof: "keeps cb A (op_bind (dec_write (it_pSize iter) (le_bytes 4 (unat (f_tag f)))) (\<lambda>_.
      op_bind
        (if PB_LTYPE (f_type f) = PB_LTYPE_SUBMESSAGE then
           op_bind (dec_write (dest + int off) (replicate (unat (f_data_size f)) 0)) (\<lambda>_.
             call_defaults calls (de_fields env (f_ptr f)) (dest + int off))
         else op_ret ())
        (\<lambda>_. ?func (dest + int off)))) (\<lambda>_. True)" if h: "?h = PB_HTYPE_ONEOF"
  proof -
    have d: "block (dest + int off) (unat (f_data_size f)) \<subseteq> A" using single h by (simp add: pb_htypes)
    from calls [OF d] show ?thesis
      using size4 h d
      by (intro keeps_bind_write keeps_seq keeps_if keeps_ret decoder) (auto simp: calls_keep_def)
  qed
  have optional: "keeps cb A (op_bind (if it_pSize iter \<noteq> dest + int off then dec_write (it_pSize iter) [1] else op_ret ())
      (\<lambda>_. ?func (dest + int off))) (\<lambda>_. True)" if "?h = PB_HTYPE_OPTIONAL"
    using size1 single that by (intro keeps_seq keeps_if keeps_write keeps_ret decoder) (auto simp: pb_htypes)
  have required: "keeps cb A (?func (dest + int off)) (\<lambda>_. True)" if "?h = PB_HTYPE_REQUIRED"
    using single that by (intro decoder) (auto simp: pb_htypes)
  show ?thesis
    unfolding decode_static_field_def Let_def it pData
    by (intro keeps_if required optional oneof repeated [unfolded Let_def] keeps_error)
qed

section \<open>The main loop\<close>

lemma keeps_find:
  assumes "fields_ok fs" and "iter_ok fs dest loc iter"
  shows "keeps cb A (dec_find tag iter) (\<lambda>(found, iter). iter_ok fs dest loc iter)"
proof -
  let ?p = "\<lambda>f. f_tag f = tag \<and> PB_LTYPE (f_type f) \<noteq> PB_LTYPE_EXTENSION"
  obtain found iter' where "iter_search ?p (it_pos iter) iter = Some (found, iter')" "iter_ok fs dest loc iter'"
    by (rule search_ok [OF assms, of ?p])
  then show ?thesis by (simp add: dec_find_def pb_field_iter_find_def keeps_ret)
qed

lemma keeps_find_plain:
  assumes "fields_ok fs" and "j < length fs"
  shows "keeps cb A (dec_find tag (iter_at fs dest j))
    (\<lambda>(found, iter). \<exists>i < length fs. iter = iter_at fs dest i)"
proof -
  let ?p = "\<lambda>f. f_tag f = tag \<and> PB_LTYPE (f_type f) \<noteq> PB_LTYPE_EXTENSION"
  obtain found i where "iter_search ?p j (iter_at fs dest j) = Some (found, iter_at fs dest i)" "i < length fs"
    by (rule search_plain [OF assms, of ?p dest])
  then show ?thesis by (auto simp: dec_find_def pb_field_iter_find_def intro!: keeps_ret)
qed

lemma keeps_union:
  assumes st: "struct_ok env fs sz" and j: "j < length fs"
  shows "keeps cb A (pb_release_union_field n env (iter_at fs dest j)) (iter_ok fs dest loc)"
proof -
  have ok: "fields_ok fs" using st by cases
  have rel: "keeps cb A (pb_release_single_field n env (iter_at fs dest i)) (\<lambda>_. True)" if "i < length fs" for i
    by (rule keeps_weaken [OF keeps_release_field [OF st that]]) simp_all
  show ?thesis
    unfolding pb_release_union_field_def Let_def
  proof (rule keeps_bind_mem, intro keeps_if keeps_ret iter_okI [OF j])
    fix old_tag
    show "keeps cb A (op_bind (dec_find (of_nat old_tag) (iter_at fs dest j)) (\<lambda>(found, iter).
        if \<not> found then dec_error ''invalid union tag''
        else op_bind (pb_release_single_field n env iter) (\<lambda>_.
             op_bind (dec_find (f_tag (it_field (iter_at fs dest j))) iter) (\<lambda>(found, iter).
               if \<not> found then dec_error ''iterator error'' else op_ret iter)))) (iter_ok fs dest loc)"
    proof (rule keeps_bind [OF keeps_find_plain [OF ok j]], clarify)
      fix found i
      assume i: "i < length fs"
      have last: "keeps cb A (op_bind (dec_find tag (iter_at fs dest i)) (\<lambda>(found, iter).
          if \<not> found then dec_error ''iterator error'' else op_ret iter)) (iter_ok fs dest loc)" for tag
        by (rule keeps_bind [OF keeps_find_plain [OF ok i]]) (auto intro!: keeps_error keeps_ret iter_okI)
      show "keeps cb A (if \<not> found then dec_error ''invalid union tag''
          else op_bind (pb_release_single_field n env (iter_at fs dest i)) (\<lambda>_.
               op_bind (dec_find (f_tag (it_field (iter_at fs dest j))) (iter_at fs dest i)) (\<lambda>(found, iter).
                 if \<not> found then dec_error ''iterator error'' else op_ret iter))) (iter_ok fs dest loc)"
        by (intro keeps_if keeps_error keeps_seq [OF rel [OF i]] last)
    qed
  qed
qed

lemma keeps_field:
  assumes st: "struct_ok env fs sz" and A: "block dest sz \<subseteq> A" "block loc 4 \<subseteq> A"
    and calls: "\<And>f a. f \<in> set fs \<Longrightarrow> block a (unat (f_data_size f)) \<subseteq> A \<Longrightarrow> calls_keep cb A env calls f a"
    and iter: "iter_ok fs dest loc iter"
  shows "keeps cb A (decode_field n env calls wire_type iter) (iter_ok fs dest loc)"
proof -
  have ok: "fields_ok fs" and members: "\<And>i. i < length fs \<Longrightarrow>
      member_ok (fs ! i) (member_offset fs i) (member_size_offset fs i) sz"
    using st by (auto elim: struct_ok.cases)
  have union: "keeps cb A (if PB_HTYPE (f_type (it_field iter)) = PB_HTYPE_ONEOF
      then pb_release_union_field n env iter else op_ret iter) (iter_ok fs dest loc)"
  proof (intro keeps_if keeps_ret iter)
    assume h: "PB_HTYPE (f_type (it_field iter)) = PB_HTYPE_ONEOF"
    obtain j where j: "j < length fs" "iter = iter_at fs dest j \<or>
        PB_HTYPE (f_type (fs ! j)) = PB_HTYPE_REPEATED \<and> iter = (iter_at fs dest j)\<lparr>it_pSize := loc\<rparr>"
      using iter by (auto simp: iter_ok_def)
    have "iter = iter_at fs dest j" using h j field_at_ok [OF ok j(1)] by (auto simp: iter_at_def pb_htypes)
    then show "keeps cb A (pb_release_union_field n env iter) (iter_ok fs dest loc)"
      using keeps_union [OF st j(1)] by simp
  qed
  show ?thesis
    unfolding decode_field_def Let_def
  proof (rule keeps_bind [OF union])
    fix iter
    assume iter: "iter_ok fs dest loc iter"
    then obtain j where j: "j < length fs" "iter = iter_at fs dest j \<or>
        PB_HTYPE (f_type (fs ! j)) = PB_HTYPE_REPEATED \<and> iter = (iter_at fs dest j)\<lparr>it_pSize := loc\<rparr>"
      by (auto simp: iter_ok_def)
    have it: "it_field iter = fs ! j" "it_pData iter = dest + int (member_offset fs j)"
      using j field_at_ok [OF ok j(1)] by (auto simp: iter_at_def)
    have size: "it_pSize iter = dest + member_size_offset fs j \<or>
        block (it_pSize iter) 4 \<subseteq> A \<and> PB_HTYPE (f_type (fs ! j)) = PB_HTYPE_REPEATED"
      using j(2) A(2) by (auto simp: iter_at_def)
    have atype: "PB_ATYPE (f_type (it_field iter)) = PB_ATYPE_STATIC"
      using members [OF j(1)] it by (simp add: member_ok_def)
    have "keeps cb A (decode_static_field env calls wire_type iter) (\<lambda>_. True)"
      using calls j(1) by (intro keeps_static_field [OF members [OF j(1)] it A(1) size]) simp
    then show "keeps cb A (op_bind
        (if PB_ATYPE (f_type (it_field iter)) = PB_ATYPE_STATIC then decode_static_field env calls wire_type iter
         else if PB_ATYPE (f_type (it_field iter)) = PB_ATYPE_POINTER then decode_pointer_field n env calls wire_type iter
         else if PB_ATYPE (f_type (it_field iter)) = PB_ATYPE_CALLBACK then decode_callback_field n env wire_type iter
         else dec_error ''invalid field type'') (\<lambda>_. op_ret iter)) (iter_ok fs dest loc)"
      unfolding if_P [OF atype] by (intro keeps_seq keeps_ret iter)
  qed
qed

lemma keeps_known:
  assumes st: "struct_ok env fs sz" and A: "block dest sz \<subseteq> A" "block loc 4 \<subseteq> A"
    and calls: "\<And>f a. f \<in> set fs \<Longrightarrow> block a (unat (f_data_size f)) \<subseteq> A \<Longrightarrow> calls_keep cb A env calls f a"
    and iter: "iter_ok fs dest loc (lo_iter lo)"
  shows "keeps cb A (decode_known n env calls loc wire_type lo) (\<lambda>lo. iter_ok fs dest loc (lo_iter lo))"
proof -
  have ok: "fields_ok fs" using st by cases
  let ?h = "PB_HTYPE (f_type (it_field (lo_iter lo)))" and ?I = "\<lambda>lo. iter_ok fs dest loc (lo_iter lo)"
  have moved: "iter_ok fs dest loc ((lo_iter lo)\<lparr>it_pSize := loc\<rparr>)" if "?h = PB_HTYPE_REPEATED"
  proof -
    obtain j where j: "j < length fs" "lo_iter lo = iter_at fs dest j \<or>
        PB_HTYPE (f_type (fs ! j)) = PB_HTYPE_REPEATED \<and> lo_iter lo = (iter_at fs dest j)\<lparr>it_pSize := loc\<rparr>"
      using iter by (auto simp: iter_ok_def)
    then have "PB_HTYPE (f_type (fs ! j)) = PB_HTYPE_REPEATED"
      using that field_at_ok [OF ok j(1)] by (auto simp: iter_at_def)
    then show ?thesis using j by (auto simp: iter_ok_def)
  qed
  have first: "keeps cb A
      (if ?h = PB_HTYPE_REPEATED \<and> it_pSize (lo_iter lo) = it_pData (lo_iter lo) then
         op_bind
           (if lo_fixed_count_field lo \<noteq> Some (it_pos (lo_iter lo)) then
              op_bind (dec_mem (fixed_count_done loc lo)) (\<lambda>done.
                if \<not> done then dec_error ''wrong size for fixed count field''
                else
                  op_bind (dec_write loc (le_bytes 4 0)) (\<lambda>_.
                    op_ret (lo\<lparr>lo_fixed_count_field := Some (it_pos (lo_iter lo))\<rparr>)))
            else op_ret lo)
           (\<lambda>lo'. op_ret (lo'\<lparr>lo_iter := (lo_iter lo)\<lparr>it_pSize := loc\<rparr>\<rparr>))
       else op_ret lo) ?I"
    using moved iter A(2)
    by (intro keeps_if keeps_seq keeps_bind_mem keeps_bind_write keeps_error keeps_ret) simp_all
  show ?thesis
    unfolding decode_known_def Let_def
  proof (rule keeps_bind [OF first])
    fix lo1
    assume 1: "iter_ok fs dest loc (lo_iter lo1)"
    let ?mark = "if ?h = PB_HTYPE_REQUIRED \<and> it_required_field_index (lo_iter lo1) < PB_MAX_REQUIRED_FIELDS
        then lo1\<lparr>lo_fields_seen := mark_required (it_required_field_index (lo_iter lo1)) (lo_fields_seen lo1)\<rparr> else lo1"
    have "iter_ok fs dest loc (lo_iter ?mark)" using 1 by simp
    from keeps_field [OF st A calls this]
    show "keeps cb A (op_bind (decode_field n env calls wire_type (lo_iter ?mark)) (\<lambda>iter.
        op_ret (?mark\<lparr>lo_iter := iter\<rparr>))) ?I"
      by (rule keeps_bind) (simp_all add: keeps_ret)
  qed
qed

lemma keeps_unknown:
  assumes st: "struct_ok env fs sz" and tag: "tag \<noteq> - 1" and iter: "iter_ok fs dest loc (lo_iter lo)"
  shows "keeps cb A (decode_unknown n env calls tag wire_type lo) (\<lambda>lo. iter_ok fs dest loc (lo_iter lo))"
proof -
  have ok: "fields_ok fs" and members: "\<And>i. i < length fs \<Longrightarrow>
      member_ok (fs ! i) (member_offset fs i) (member_size_offset fs i) sz"
    using st by (auto elim: struct_ok.cases)
  let ?p = "\<lambda>f. PB_LTYPE (f_type f) = PB_LTYPE_EXTENSION"
  have none: "\<not> list_ex ?p fs" using members by (auto simp: list_ex_length member_ok_def)
  obtain found iter' where search: "iter_search ?p (it_pos (lo_iter lo)) (lo_iter lo) = Some (found, iter')"
      "iter_ok fs dest loc iter'" "found = list_ex ?p fs"
    by (rule search_ok [OF ok iter, of ?p])
  have skip: "keeps cb A (op_bind (on_stream (pb_skip_field wire_type)) (\<lambda>_. op_ret lo'))
      (\<lambda>lo. iter_ok fs dest loc (lo_iter lo))" if "iter_ok fs dest loc (lo_iter lo')" for lo' :: pb_locals
    using that by (intro keeps_bind_stream callback_kept keeps_ret)
  have "\<not> - 1 \<le> tag" using tag by (metis antisym word_order.extremum)
  then show ?thesis
    unfolding decode_unknown_def Let_def
    using search none skip iter by (simp add: find_extension_field_def keeps_if)
qed

lemma keeps_one:
  assumes st: "struct_ok env fs sz" and A: "block dest sz \<subseteq> A" "block loc 4 \<subseteq> A"
    and calls: "\<And>f a. f \<in> set fs \<Longrightarrow> block a (unat (f_data_size f)) \<subseteq> A \<Longrightarrow> calls_keep cb A env calls f a"
    and iter: "iter_ok fs dest loc (lo_iter lo)"
  shows "keeps cb A (decode_one n env calls loc lo) (\<lambda>(ended, lo). iter_ok fs dest loc (lo_iter lo))"
proof (rule keepsI)
  fix s r s'
  assume cb: "is_callback (ds_stream s) = cb" and run: "decode_one n env calls loc lo s = (r, s')"
  have ok: "fields_ok fs" using st by cases
  obtain q eof stream where t: "pb_decode_tag (ds_stream s) = (q, eof, stream)" by (cases "pb_decode_tag (ds_stream s)") auto
  have stream: "is_callback stream = cb" using tag_callback [OF t] cb by simp
  show "framed A s s' \<and> (\<forall>y. r = Some y \<longrightarrow> (case y of (ended, lo) \<Rightarrow> iter_ok fs dest loc (lo_iter lo)))"
  proof (cases q)
    case None
    then show ?thesis
      using run t iter framed_stream [of stream s A] stream cb by (auto simp: decode_one_def split: if_splits)
  next
    case (Some p)
    obtain wire_type tag where p: "p = (wire_type, tag)" by (cases p)
    have "tag \<noteq> - 1"
    proof -
      obtain temp where "tag = drop_bit 3 temp"
        using t Some p by (auto simp: pb_decode_tag_def split: option.splits prod.splits if_splits)
      then have "unat tag < 2 ^ 29" using unsigned_less [of temp, where 'a = nat] by (simp add: unat_drop_bit)
      then show ?thesis by (auto simp: unsigned_minus_1_eq_mask mask_eq_exp_minus_1)
    qed
    let ?body = "op_bind (dec_find tag (lo_iter lo)) (\<lambda>(found, iter).
        op_bind
          (if found then decode_known n env calls loc wire_type (lo\<lparr>lo_iter := iter\<rparr>)
           else decode_unknown n env calls tag wire_type (lo\<lparr>lo_iter := iter\<rparr>))
          (\<lambda>lo. op_ret (False, lo)))"
    have "keeps cb A ?body (\<lambda>(ended, lo). iter_ok fs dest loc (lo_iter lo))"
    proof (rule keeps_bind [OF keeps_find [OF ok iter]], clarify)
      fix found iter'
      assume i: "iter_ok fs dest loc iter'"
      show "keeps cb A (op_bind
          (if found then decode_known n env calls loc wire_type (lo\<lparr>lo_iter := iter'\<rparr>)
           else decode_unknown n env calls tag wire_type (lo\<lparr>lo_iter := iter'\<rparr>))
          (\<lambda>lo. op_ret (False, lo))) (\<lambda>(ended, lo). iter_ok fs dest loc (lo_iter lo))"
        by (rule keeps_bind [of _ _ _ "\<lambda>lo. iter_ok fs dest loc (lo_iter lo)"])
          (use i \<open>tag \<noteq> - 1\<close> in \<open>auto intro!: keeps_known [OF st A calls] keeps_unknown [OF st] keeps_ret\<close>)
    qed
    from keepsD [OF keeps_with_stream [OF this stream] cb, of r s']
    show ?thesis using run t Some p by (simp add: decode_one_def)
  qed
qed

lemma keeps_loop:
  assumes one: "\<And>lo. I lo \<Longrightarrow> keeps cb A (one lo) (\<lambda>(ended, lo). I lo)"
  shows "I lo \<Longrightarrow> keeps cb A (decode_loop one k lo) I"
proof (induction k arbitrary: lo)
  case 0
  then show ?case
    by (intro keepsI) (auto simp: decode_loop.simps framed_refl split: if_splits)
next
  case (Suc k)
  have body: "keeps cb A (op_bind (one lo) (\<lambda>(ended, lo). if ended then op_ret lo else decode_loop one k lo)) I"
    by (rule keeps_bind [OF one [OF Suc.prems]]) (auto intro!: keeps_ret Suc.IH)
  show ?case
  proof (rule keepsI)
    fix s r s'
    assume cb: "is_callback (ds_stream s) = cb" and run: "decode_loop one (Suc k) lo s = (r, s')"
    show "framed A s s' \<and> (\<forall>y. r = Some y \<longrightarrow> I y)"
      using run keepsD(1,2) [OF body cb, of r s'] Suc.prems
      by (cases "is_bytes_left (ds_stream s) = 0") (auto simp: decode_loop.simps framed_refl)
  qed
qed

lemma keeps_noinit:
  assumes "struct_ok env fs sz" and "block dest sz \<subseteq> A" and "\<And>k. k < n \<Longrightarrow> block (de_local env k) 4 \<subseteq> A"
  shows "keeps cb A (pb_decode_noinit n env fs dest) (\<lambda>_. True)"
    and "keeps cb A (decode_with n env (pb_decode_noinit n env) fs dest) (\<lambda>_. True)"
proof -
  have decode: "keeps cb A (decode_with m env noinit fs dest) (\<lambda>_. True)"
    if st: "struct_ok env fs sz" and A: "block dest sz \<subseteq> A" and noinit: "keeps cb A (noinit fs dest) (\<lambda>_. True)"
    for m fs sz dest noinit
  proof -
    have rel: "keeps cb A (\<lambda>s. (None :: unit option, snd (pb_release m env fs dest s))) (\<lambda>_. True)"
    proof (rule keepsI)
      fix s r s'
      assume cb: "is_callback (ds_stream s) = cb" and run: "(None :: unit option, snd (pb_release m env fs dest s)) = (r, s')"
      have "keeps cb A (pb_release m env fs dest) (\<lambda>_. True)"
        by (rule keeps_weaken [OF keeps_release [OF st]]) simp_all
      from keepsD(1) [OF this cb, of "fst (pb_release m env fs dest s)" s'] run
      show "framed A s s' \<and> (\<forall>y. r = Some y \<longrightarrow> True)" by (cases "pb_release m env fs dest s") simp
    qed
    have "keeps cb A (\<lambda>s. case noinit fs dest s of
        (None, s) \<Rightarrow> (None, snd (pb_release m env fs dest s)) | (Some _, s) \<Rightarrow> (Some (), s)) (\<lambda>_. True)"
    proof -
      have "keeps cb A ((\<lambda>r s. case r of None \<Rightarrow> (None, snd (pb_release m env fs dest s)) | Some _ \<Rightarrow> (Some (), s)) r)
          (\<lambda>_. True)" for r :: "unit option"
        using rel keeps_pure [of "Some ()" "\<lambda>_. True"] by (cases r) simp_all
      from keeps_result [OF noinit this] show ?thesis by (simp add: case_prod_unfold)
    qed
    then show ?thesis
      unfolding decode_with_def using keeps_weaken [OF keeps_defaults [OF st] A] by (intro keeps_seq) simp_all
  qed
  have noinit: "keeps cb A (pb_decode_noinit n env fs dest) (\<lambda>_. True)"
    if "struct_ok env fs sz" "block dest sz \<subseteq> A" "\<And>k. k < n \<Longrightarrow> block (de_local env k) 4 \<subseteq> A" for n fs sz dest
    using that
  proof (induction n arbitrary: fs sz dest)
    case 0
    then show ?case by (simp add: pb_decode_noinit.simps keeps_fail)
  next
    case (Suc n)
    note st = Suc.prems(1) and A = Suc.prems(2)
    have loc: "block (de_local env n) 4 \<subseteq> A" using Suc.prems(3) by simp
    have ok: "fields_ok fs" using st by cases
    let ?calls = "\<lparr>call_decode = decode_with n env (pb_decode_noinit n env),
        call_noinit = pb_decode_noinit n env, call_defaults = pb_message_set_to_defaults n env\<rparr>"
    have calls: "calls_keep cb A env ?calls f a" if f: "f \<in> set fs" "block a (unat (f_data_size f)) \<subseteq> A" for f a
    proof -
      have sub: "struct_ok env (de_fields env (f_ptr f)) (unat (f_data_size f))"
        if "PB_LTYPE (f_type f) = PB_LTYPE_SUBMESSAGE"
        using st f(1) that by (auto elim: struct_ok.cases simp: in_set_conv_nth)
      have IH: "keeps cb A (pb_decode_noinit n env (de_fields env (f_ptr f)) a) (\<lambda>_. True)"
        if "PB_LTYPE (f_type f) = PB_LTYPE_SUBMESSAGE"
        using Suc.IH [OF sub [OF that] f(2)] Suc.prems(3) by simp
      show ?thesis
        unfolding calls_keep_def
        using IH decode [OF sub f(2)] keeps_weaken [OF keeps_defaults [OF sub] f(2)] by simp
    qed
    have iter: "iter_ok fs dest (de_local env n) (snd (pb_field_iter_begin fs dest))"
      using iter_begin [OF ok, of dest] ok by (simp add: iter_okI fields_ok_def)
    have loop: "keeps cb A (decode_loop (decode_one n env ?calls (de_local env n)) k
        \<lparr>lo_fields_seen = [0, 0], lo_extension_range_start = 0,
         lo_iter = snd (pb_field_iter_begin fs dest), lo_fixed_count_field = None\<rparr>) (\<lambda>_. True)" for k
      by (rule keeps_weaken [OF keeps_loop [where I = "\<lambda>lo. iter_ok fs dest (de_local env n) (lo_iter lo)"]])
        (use iter in \<open>auto intro!: keeps_one [OF st A loc calls]\<close>)
    show ?case
      unfolding pb_decode_noinit.simps decode_body_def [abs_def]
    proof -
      let ?lo = "\<lparr>lo_fields_seen = [0, 0], lo_extension_range_start = 0,
          lo_iter = snd (pb_field_iter_begin fs dest), lo_fixed_count_field = None\<rparr>"
      let ?g = "\<lambda>s0 :: 'st pb_dstate. op_bind (dec_write (de_local env n) (le_bytes 4 0)) (\<lambda>_.
          op_bind (decode_loop (decode_one n env ?calls (de_local env n)) (is_bytes_left (ds_stream s0)) ?lo) (\<lambda>lo.
          op_bind (dec_mem (fixed_count_done (de_local env n) lo)) (\<lambda>done.
            if \<not> done then dec_error ''wrong size for fixed count field''
            else if \<not> required_fields_seen (req_field_count (lo_iter lo)) (lo_fields_seen lo)
            then dec_error ''missing required field'' else op_ret ())))"
      have "keeps cb A (?g s0) (\<lambda>_. True)" for s0
        using loc by (intro keeps_bind_write keeps_seq [OF loop] keeps_bind_mem keeps_if keeps_error keeps_ret) simp_all
      then show "keeps cb A (\<lambda>s. ?g s s) (\<lambda>_. True)" by (rule keeps_state)
    qed
  qed
  from noinit [OF assms] show *: "keeps cb A (pb_decode_noinit n env fs dest) (\<lambda>_. True)" .
  from decode [where noinit = "pb_decode_noinit n env", OF assms(1,2) *] show "keeps cb A (decode_with n env (pb_decode_noinit n env) fs dest) (\<lambda>_. True)" .
qed

end

interpretation buf_decode: bounded_callback buf_read
  by unfold_locales (auto simp: buf_read_def)

section \<open>What pb_decode writes\<close>

text \<open>
  C23: decoding any input into a structure without pointers, callbacks and extensions, whose
  members are inside its \<open>sz\<close> bytes, writes only into the structure and the local variables
  of the decoder; nothing is allocated or freed.  The stream may have any callback that
  delivers no more than it is asked for.
\<close>

theorem pb_decode_stays_inside:
  assumes "\<And>k st bs st'. is_callback (ds_stream s) k st = (Some bs, st') \<Longrightarrow> length bs \<le> k"
    and "struct_ok env fs sz" and "pb_decode n env fs dest s = (r, s')"
    and "x \<notin> {dest ..< dest + int sz}" and "\<And>k. k < n \<Longrightarrow> x \<notin> {de_local env k ..< de_local env k + 4}"
  shows "ds_mem s' x = ds_mem s x \<and> ds_heap s' = ds_heap s \<and> ds_bad_ptr s' = ds_bad_ptr s"
proof -
  have cb: "bounded_callback (is_callback (ds_stream s))" by unfold_locales (rule assms(1))
  let ?A = "block dest sz \<union> (\<Union>k < n. block (de_local env k) 4)"
  have "keeps (is_callback (ds_stream s)) ?A (decode_with n env (pb_decode_noinit n env) fs dest) (\<lambda>_. True)"
    by (rule bounded_callback.keeps_noinit(2) [OF cb assms(2)]) auto
  from keepsD(1) [OF this refl assms(3) [unfolded pb_decode_def]]
  show ?thesis using assms(4,5) by (auto simp: framed_def)
qed

end
