(* ===== verification/Pb_Encode.thy ===== *)
theory Pb_Encode
  imports Pb_Ostream Pb_Fields
begin

text \<open>
  The message encoder of \<open>nanopb/pb_encode.c\<close>.  What it reads is an environment: the memory
  of the structures, the descriptor arrays by their address, and the functions of the
  application behind the callback pointers.  \<open>pb_encode\<close> takes as first argument a bound on
  the nesting of messages and on the length of extension lists; when it is exhausted the
  encoder fails, and the theorems show how large it has to be.
\<close>

section \<open>Field encoders\<close>

record 'st pb_env =
  env_mem :: mem
  env_fields :: "int \<Rightarrow> pb_field list"
  env_encode :: "int \<Rightarrow> pb_field \<Rightarrow> int \<Rightarrow> ('st pb_ostream, unit) op"
  env_ext_encode :: "int \<Rightarrow> int \<Rightarrow> ('st pb_ostream, unit) op"

definition safe_read_bool :: "mem \<Rightarrow> int \<Rightarrow> bool" where
  "safe_read_bool m pSize \<longleftrightarrow> m pSize \<noteq> 0"

definition pb_enc_bool :: "mem \<Rightarrow> pb_field \<Rightarrow> int \<Rightarrow> ('st pb_ostream, unit) op" where
  "pb_enc_bool m field src = pb_encode_varint (if safe_read_bool m src then 1 else 0)"

text \<open>
  The value of a signed or unsigned member of 1, 2, 4 or 8 bytes, converted to 64 bits.
\<close>

definition load_signed :: "mem \<Rightarrow> u32 \<Rightarrow> int \<Rightarrow> u64 option" where
  "load_signed m data_size src =
     (if data_size = 1 then Some (scast (of_nat (load 1 m src) :: u8))
      else if data_size = 2 then Some (scast (of_nat (load 2 m src) :: u16))
      else if data_size = 4 then Some (scast (of_nat (load 4 m src) :: u32))
      else if data_size = 8 then Some (of_nat (load 8 m src))
      else None)"

definition load_unsigned :: "mem \<Rightarrow> u32 \<Rightarrow> int \<Rightarrow> u64 option" where
  "load_unsigned m data_size src =
     (if data_size = 1 then Some (of_nat (load 1 m src))
      else if data_size = 2 then Some (of_nat (load 2 m src))
      else if data_size = 4 then Some (of_nat (load 4 m src))
      else if data_size = 8 then Some (of_nat (load 8 m src))
      else None)"

definition pb_enc_varint :: "mem \<Rightarrow> pb_field \<Rightarrow> int \<Rightarrow> ('st pb_ostream, unit) op" where
  "pb_enc_varint m field src =
     (case load_signed m (f_data_size field) src of
        None \<Rightarrow> pb_out_error ''invalid data_size''
      | Some v \<Rightarrow> pb_encode_varint v)"

definition pb_enc_uvarint :: "mem \<Rightarrow> pb_field \<Rightarrow> int \<Rightarrow> ('st pb_ostream, unit) op" where
  "pb_enc_uvarint m field src =
     (case load_unsigned m (f_data_size field) src of
        None \<Rightarrow> pb_out_error ''invalid data_size''
      | Some v \<Rightarrow> pb_encode_varint v)"

definition pb_enc_svarint :: "mem \<Rightarrow> pb_field \<Rightarrow> int \<Rightarrow> ('st pb_ostream, unit) op" where
  "pb_enc_svarint m field src =
     (case load_signed m (f_data_size field) src of
        None \<Rightarrow> pb_out_error ''invalid data_size''
      | Some v \<Rightarrow> pb_encode_svarint v)"

definition pb_enc_fixed64 :: "mem \<Rightarrow> pb_field \<Rightarrow> int \<Rightarrow> ('st pb_ostream, unit) op" where
  "pb_enc_fixed64 m field src = pb_encode_fixed64 (of_nat (load 8 m src))"

definition pb_enc_fixed32 :: "mem \<Rightarrow> pb_field \<Rightarrow> int \<Rightarrow> ('st pb_ostream, unit) op" where
  "pb_enc_fixed32 m field src = pb_encode_fixed32 (of_nat (load 4 m src))"

text \<open>A \<open>pb_bytes_array_t\<close> has its size in the first four bytes.\<close>

definition pb_enc_bytes :: "mem \<Rightarrow> pb_field \<Rightarrow> int \<Rightarrow> ('st pb_ostream, unit) op" where
  "pb_enc_bytes m field src =
     (if src = 0 then pb_encode_string []
      else
        let sz = load 4 m src; allocsize = wrap64 (sz + 4) in
        if allocsize < sz \<or>
           PB_ATYPE (f_type field) = PB_ATYPE_STATIC \<and> allocsize > unat (f_data_size field)
        then pb_out_error ''bytes size exceeded''
        else pb_encode_string (mem_bytes m (src + 4) sz))"

function c_strnlen :: "mem \<Rightarrow> int \<Rightarrow> nat \<Rightarrow> nat" where
  "c_strnlen m p max_size = (if max_size = 0 \<or> m p = 0 then 0 else 1 + c_strnlen m (p + 1) (max_size - 1))"
  by pat_completeness auto
termination by (relation "measure (\<lambda>(m, p, n). n)") auto

declare c_strnlen.simps [simp del]

definition pb_enc_string :: "mem \<Rightarrow> pb_field \<Rightarrow> int \<Rightarrow> ('st pb_ostream, unit) op" where
  "pb_enc_string m field src =
     (let max_size = (if PB_ATYPE (f_type field) = PB_ATYPE_POINTER then 2 ^ 64 - 1
                      else unat (f_data_size field));
          sz = (if src = 0 then 0 else c_strnlen m src max_size)
      in pb_encode_string (mem_bytes m src sz))"

definition pb_enc_fixed_length_bytes :: "mem \<Rightarrow> pb_field \<Rightarrow> int \<Rightarrow> ('st pb_ostream, unit) op" where
  "pb_enc_fixed_length_bytes m field src = pb_encode_string (mem_bytes m src (unat (f_data_size field)))"

text \<open>In what follows \<open>sub\<close> is the recursive call of \<open>pb_encode\<close>.\<close>

type_synonym 'st pb_sub = "pb_field list \<Rightarrow> int \<Rightarrow> ('st pb_ostream, unit) op"

definition pb_enc_submessage ::
    "'st pb_env \<Rightarrow> 'st pb_sub \<Rightarrow> pb_field \<Rightarrow> int \<Rightarrow> ('st pb_ostream, unit) op"
where
  "pb_enc_submessage env sub field src =
     (if f_ptr field = 0 then pb_out_error ''invalid field descriptor''
      else pb_encode_submessage (sub (env_fields env (f_ptr field)) src))"

text \<open>
  The table of the encoders by \<open>PB_LTYPE\<close>.  It has no entry for extensions and none past
  \<open>PB_LTYPES_COUNT\<close>; the code is not meant to call these.
\<close>

definition PB_ENCODERS ::
    "'st pb_env \<Rightarrow> 'st pb_sub \<Rightarrow> u8 \<Rightarrow> pb_field \<Rightarrow> int \<Rightarrow> ('st pb_ostream, unit) op"
where
  "PB_ENCODERS env sub ltype field src =
     (let m = env_mem env in
      if ltype = PB_LTYPE_BOOL then pb_enc_bool m field src
      else if ltype = PB_LTYPE_VARINT then pb_enc_varint m field src
      else if ltype = PB_LTYPE_UVARINT then pb_enc_uvarint m field src
      else if ltype = PB_LTYPE_SVARINT then pb_enc_svarint m field src
      else if ltype = PB_LTYPE_FIXED32 then pb_enc_fixed32 m field src
      else if ltype = PB_LTYPE_FIXED64 then pb_enc_fixed64 m field src
      else if ltype = PB_LTYPE_BYTES then pb_enc_bytes m field src
      else if ltype = PB_LTYPE_STRING then pb_enc_string m field src
      else if ltype = PB_LTYPE_SUBMESSAGE then pb_enc_submessage env sub field src
      else if ltype = PB_LTYPE_FIXED_LENGTH_BYTES then pb_enc_fixed_length_bytes m field src
      else op_fail)"

definition pb_encode_tag_for_field :: "pb_field \<Rightarrow> ('st pb_ostream, unit) op" where
  "pb_encode_tag_for_field field =
     (let ltype = PB_LTYPE (f_type field) in
      if ltype = PB_LTYPE_BOOL \<or> ltype = PB_LTYPE_VARINT \<or> ltype = PB_LTYPE_UVARINT \<or>
         ltype = PB_LTYPE_SVARINT
      then pb_encode_tag PB_WT_VARINT (f_tag field)
      else if ltype = PB_LTYPE_FIXED32 then pb_encode_tag PB_WT_32BIT (f_tag field)
      else if ltype = PB_LTYPE_FIXED64 then pb_encode_tag PB_WT_64BIT (f_tag field)
      else if ltype = PB_LTYPE_BYTES \<or> ltype = PB_LTYPE_STRING \<or> ltype = PB_LTYPE_SUBMESSAGE \<or>
         ltype = PB_LTYPE_FIXED_LENGTH_BYTES
      then pb_encode_tag PB_WT_STRING (f_tag field)
      else pb_out_error ''invalid field type'')"

section \<open>Arrays\<close>

text \<open>\<open>count\<close> calls of \<open>func\<close> on consecutive entries.\<close>

fun encode_entries :: "(int \<Rightarrow> ('st pb_ostream, unit) op) \<Rightarrow> nat \<Rightarrow> int \<Rightarrow> int \<Rightarrow> ('st pb_ostream, unit) op" where
  "encode_entries func 0 p step = op_ret ()"
| "encode_entries func (Suc n) p step = op_bind (func p) (\<lambda>_. encode_entries func n (p + step) step)"

definition encode_packed ::
    "pb_field \<Rightarrow> int \<Rightarrow> nat \<Rightarrow> (int \<Rightarrow> ('st pb_ostream, unit) op) \<Rightarrow> ('st pb_ostream, unit) op"
where
  "encode_packed field pData count func s =
     (let step = int (unat (f_data_size field));
          sz = (if PB_LTYPE (f_type field) = PB_LTYPE_FIXED32 then Some (wrap64 (4 * count))
                  else if PB_LTYPE (f_type field) = PB_LTYPE_FIXED64 then Some (wrap64 (8 * count))
                  else (case encode_entries func count pData step (PB_OSTREAM_SIZING (os_state s)) of
                          (None, sizestream) \<Rightarrow> None
                        | (Some _, sizestream) \<Rightarrow> Some (os_bytes_written sizestream)))
      in case sz of
           None \<Rightarrow> (None, s)
         | Some sz \<Rightarrow>
             op_bind (pb_encode_varint (of_nat sz)) (\<lambda>_ s.
               if Option.is_none (os_callback s) then pb_write_null sz s
               else encode_entries func count pData step s) s)"

definition encode_array ::
    "mem \<Rightarrow> pb_field \<Rightarrow> int \<Rightarrow> nat \<Rightarrow> (int \<Rightarrow> ('st pb_ostream, unit) op) \<Rightarrow> ('st pb_ostream, unit) op"
where
  "encode_array m field pData count func =
     (if count = 0 then op_ret ()
      else if PB_ATYPE (f_type field) \<noteq> PB_ATYPE_POINTER \<and> count > unat (f_array_size field)
      then pb_out_error ''array max size exceeded''
      else if PB_LTYPE (f_type field) \<le> PB_LTYPE_LAST_PACKABLE then
        op_bind (pb_encode_tag PB_WT_STRING (f_tag field)) (\<lambda>_. encode_packed field pData count func)
      else
        encode_entries
          (\<lambda>p. op_bind (pb_encode_tag_for_field field) (\<lambda>_.
             if PB_ATYPE (f_type field) = PB_ATYPE_POINTER \<and>
                (PB_LTYPE (f_type field) = PB_LTYPE_STRING \<or> PB_LTYPE (f_type field) = PB_LTYPE_BYTES)
             then func (load_ptr m p) else func p))
          count pData (int (unat (f_data_size field))))"

section \<open>Fields\<close>

text \<open>
  The check for the default value of proto3.  Submessages are nested at most \<open>n\<close> deep in the
  structure; \<open>None\<close> when the bound is too small.
\<close>

fun pb_check_proto3_default_value ::
    "nat \<Rightarrow> 'st pb_env \<Rightarrow> pb_field \<Rightarrow> int \<Rightarrow> bool option"
and check_all_default :: "nat \<Rightarrow> 'st pb_env \<Rightarrow> nat \<Rightarrow> pb_field_iter \<Rightarrow> bool option"
where
  "pb_check_proto3_default_value n env field pData =
     (let m = env_mem env; type = f_type field; pSize = pData + sint (f_size_offset field);
          by_bytes = list_all (\<lambda>b. b = 0) (mem_bytes m pData (unat (f_data_size field)));
          singular =
            (if PB_ATYPE type = PB_ATYPE_STATIC \<and> PB_LTYPE type = PB_LTYPE_BYTES
             then Some (load 4 m pData = 0)
             else if PB_ATYPE type = PB_ATYPE_STATIC \<and> PB_LTYPE type = PB_LTYPE_STRING
             then Some (m pData = 0)
             else if PB_ATYPE type = PB_ATYPE_STATIC \<and> PB_LTYPE type = PB_LTYPE_FIXED_LENGTH_BYTES
             then Some (f_data_size field = 0)
             else if PB_ATYPE type = PB_ATYPE_STATIC \<and> PB_LTYPE type = PB_LTYPE_SUBMESSAGE then
               (case n of
                  0 \<Rightarrow> None
                | Suc n \<Rightarrow>
                    let fs = env_fields env (f_ptr field) in
                    (case pb_field_iter_begin fs pData of
                       (False, iter) \<Rightarrow> Some True
                     | (True, iter) \<Rightarrow> check_all_default n env (length fs) iter))
             else if PB_ATYPE type = PB_ATYPE_POINTER \<and> PB_LTYPE type > PB_LTYPE_LAST_PACKABLE
             then Some (load_ptr m pData = 0)
             else Some by_bytes)
      in if PB_HTYPE type = PB_HTYPE_REQUIRED then Some False
         else if PB_HTYPE type = PB_HTYPE_REPEATED then
           (if f_size_offset field \<noteq> 0 then Some (load 4 m pSize = 0)
            else if PB_ATYPE type = PB_ATYPE_STATIC then Some False
            else singular)
         else if PB_HTYPE type = PB_HTYPE_ONEOF then Some (load 4 m pSize = 0)
         else if PB_HTYPE type = PB_HTYPE_OPTIONAL \<and> f_size_offset field \<noteq> 0
         then Some (\<not> safe_read_bool m pSize)
         else singular)"
| "check_all_default n env 0 iter = None"
| "check_all_default n env (Suc k) iter =
     (case pb_check_proto3_default_value n env (it_field iter) (it_pData iter) of
        None \<Rightarrow> None
      | Some False \<Rightarrow> Some False
      | Some True \<Rightarrow>
          (case pb_field_iter_next iter of
             (False, iter) \<Rightarrow> Some True
           | (True, iter) \<Rightarrow> check_all_default n env k iter))"

declare pb_check_proto3_default_value.simps [simp del]

text \<open>
  A oneof member always has a size offset, to the member that says which one is set; without
  it the code would read a local variable past its end.
\<close>

definition encode_basic_field ::
    "nat \<Rightarrow> 'st pb_env \<Rightarrow> 'st pb_sub \<Rightarrow> pb_field \<Rightarrow> int \<Rightarrow> ('st pb_ostream, unit) op"
where
  "encode_basic_field n env sub field pData =
     (let m = env_mem env; htype = PB_HTYPE (f_type field);
          func = PB_ENCODERS env sub (PB_LTYPE (f_type field)) field;
          has_size = (f_size_offset field \<noteq> 0);
          pSize = pData + sint (f_size_offset field)
      in case (if \<not> has_size \<and> htype = PB_HTYPE_OPTIONAL
               then pb_check_proto3_default_value n env field pData else Some False) of
           None \<Rightarrow> op_fail
         | Some is_default \<Rightarrow>
             let is_pointer = (PB_ATYPE (f_type field) = PB_ATYPE_POINTER);
                 pData = (if is_pointer then load_ptr m pData else pData);
                 implicit_has = (if is_pointer then pData \<noteq> 0 else \<not> is_default);
                 encode_one = op_bind (pb_encode_tag_for_field field) (\<lambda>_. func pData)
             in if htype = PB_HTYPE_REQUIRED then
                  (if pData = 0 then pb_out_error ''missing required field'' else encode_one)
                else if htype = PB_HTYPE_OPTIONAL then
                  (if (if has_size then safe_read_bool m pSize else implicit_has) then encode_one else op_ret ())
                else if htype = PB_HTYPE_REPEATED then
                  encode_array m field pData (if has_size then load 4 m pSize else unat (f_array_size field)) func
                else if htype = PB_HTYPE_ONEOF then
                  (if \<not> has_size then op_fail
                   else if load 4 m pSize = unat (f_tag field) then encode_one else op_ret ())
                else pb_out_error ''invalid field type'')"

definition encode_callback_field :: "'st pb_env \<Rightarrow> pb_field \<Rightarrow> int \<Rightarrow> ('st pb_ostream, unit) op" where
  "encode_callback_field env field pData s =
     (let encode = load_ptr (env_mem env) pData; arg = pData + 8 in
      if encode = 0 then (Some (), s)
      else
        (case env_encode env encode field arg s of
           (None, s) \<Rightarrow> pb_out_error ''callback error'' s
         | (Some _, s) \<Rightarrow> (Some (), s)))"

definition encode_field ::
    "nat \<Rightarrow> 'st pb_env \<Rightarrow> 'st pb_sub \<Rightarrow> pb_field \<Rightarrow> int \<Rightarrow> ('st pb_ostream, unit) op"
where
  "encode_field n env sub field pData =
     (if PB_ATYPE (f_type field) = PB_ATYPE_STATIC \<or> PB_ATYPE (f_type field) = PB_ATYPE_POINTER
      then encode_basic_field n env sub field pData
      else if PB_ATYPE (f_type field) = PB_ATYPE_CALLBACK then encode_callback_field env field pData
      else pb_out_error ''invalid field type'')"

text \<open>
  A \<open>pb_extension_t\<close> has the pointers \<open>type\<close>, \<open>dest\<close> and \<open>next\<close>; a \<open>pb_extension_type_t\<close> has
  \<open>decode\<close>, \<open>encode\<close> and \<open>arg\<close>.
\<close>

definition default_extension_encoder ::
    "nat \<Rightarrow> 'st pb_env \<Rightarrow> 'st pb_sub \<Rightarrow> int \<Rightarrow> ('st pb_ostream, unit) op"
where
  "default_extension_encoder n env sub extension =
     (let m = env_mem env; type = load_ptr m extension;
          field = field_at (env_fields env (load_ptr m (type + 16))) 0
      in if PB_ATYPE (f_type field) = PB_ATYPE_POINTER
         then encode_field n env sub field (extension + 8)
         else encode_field n env sub field (load_ptr m (extension + 8)))"

fun encode_extensions ::
    "nat \<Rightarrow> nat \<Rightarrow> 'st pb_env \<Rightarrow> 'st pb_sub \<Rightarrow> int \<Rightarrow> ('st pb_ostream, unit) op"
where
  "encode_extensions 0 n env sub extension = (if extension = 0 then op_ret () else op_fail)"
| "encode_extensions (Suc k) n env sub extension =
     (if extension = 0 then op_ret ()
      else
        let m = env_mem env; encode = load_ptr m (load_ptr m extension + 8) in
        op_bind (if encode \<noteq> 0 then env_ext_encode env encode extension
                 else default_extension_encoder n env sub extension)
          (\<lambda>_. encode_extensions k n env sub (load_ptr m (extension + 16))))"

definition encode_extension_field ::
    "nat \<Rightarrow> 'st pb_env \<Rightarrow> 'st pb_sub \<Rightarrow> int \<Rightarrow> ('st pb_ostream, unit) op"
where
  "encode_extension_field n env sub pData =
     encode_extensions n n env sub (load_ptr (env_mem env) pData)"

section \<open>Messages\<close>

fun pb_encode :: "nat \<Rightarrow> 'st pb_env \<Rightarrow> pb_field list \<Rightarrow> int \<Rightarrow> ('st pb_ostream, unit) op" where
  "pb_encode 0 env fs src_struct = op_fail"
| "pb_encode (Suc n) env fs src_struct =
     (case pb_field_iter_begin fs src_struct of
        (False, iter) \<Rightarrow> op_ret ()
      | (True, iter) \<Rightarrow>
          each_field
            (\<lambda>iter.
               if PB_LTYPE (f_type (it_field iter)) = PB_LTYPE_EXTENSION
               then encode_extension_field n env (pb_encode n env) (it_pData iter)
               else encode_field n env (pb_encode n env) (it_field iter) (it_pData iter))
            (length fs) iter)"

declare pb_encode.simps [simp del]

definition pb_encode_delimited :: "nat \<Rightarrow> 'st pb_env \<Rightarrow> pb_field list \<Rightarrow> int \<Rightarrow> ('st pb_ostream, unit) op" where
  "pb_encode_delimited n env fs src_struct = pb_encode_submessage (pb_encode n env fs src_struct)"

definition pb_encode_nullterminated ::
    "nat \<Rightarrow> 'st pb_env \<Rightarrow> pb_field list \<Rightarrow> int \<Rightarrow> ('st pb_ostream, unit) op"
where
  "pb_encode_nullterminated n env fs src_struct =
     op_bind (pb_encode n env fs src_struct) (\<lambda>_. pb_write [0])"

definition pb_get_encoded_size :: "nat \<Rightarrow> 'st pb_env \<Rightarrow> 'st \<Rightarrow> pb_field list \<Rightarrow> int \<Rightarrow> nat option" where
  "pb_get_encoded_size n env st fs src_struct =
     (case pb_encode n env fs src_struct (PB_OSTREAM_SIZING st) of
        (None, stream) \<Rightarrow> None
      | (Some _, stream) \<Rightarrow> Some (os_bytes_written stream))"

end
