(* ===== verification/Pb_Encode_Refine.thy ===== *)
theory Pb_Encode_Refine
  imports Pb_Encode
begin

text \<open>
  The specification of the message encoder.  A message is a list of tags with values; its
  wire format is defined without streams.  \<open>pb_message\<close> reads the message that a structure in
  memory represents, and \<open>pb_encode\<close> is shown to emit the wire format of this message.
\<close>

section \<open>Messages and their wire format\<close>

datatype pb_value =
    PVarint nat
  | PFix32 nat
  | PFix64 nat
  | PBytes "u8 list"
  | PPacked "pb_value list"
  | PMsg "(nat \<times> pb_value) list"

fun pb_wt :: "pb_value \<Rightarrow> nat" where
  "pb_wt (PVarint v) = 0"
| "pb_wt (PFix64 v) = 1"
| "pb_wt (PFix32 v) = 5"
| "pb_wt _ = 2"

definition pb_delimited :: "u8 list \<Rightarrow> u8 list" where
  "pb_delimited bs = varint_bytes (length bs) @ bs"

fun pb_payload :: "pb_value \<Rightarrow> u8 list" where
  "pb_payload (PVarint v) = varint_bytes v"
| "pb_payload (PFix32 v) = le_bytes 4 v"
| "pb_payload (PFix64 v) = le_bytes 8 v"
| "pb_payload (PBytes bs) = pb_delimited bs"
| "pb_payload (PPacked vs) = pb_delimited (concat (map pb_payload vs))"
| "pb_payload (PMsg fs) =
     pb_delimited (concat (map (\<lambda>(tag, v). varint_bytes (8 * tag + pb_wt v) @ pb_payload v) fs))"

definition pb_wire_field :: "nat \<times> pb_value \<Rightarrow> u8 list" where
  "pb_wire_field = (\<lambda>(tag, v). varint_bytes (8 * tag + pb_wt v) @ pb_payload v)"

definition pb_wire :: "(nat \<times> pb_value) list \<Rightarrow> u8 list" where
  "pb_wire fs = concat (map pb_wire_field fs)"

lemma pb_payload_PMsg: "pb_payload (PMsg fs) = pb_delimited (pb_wire fs)"
  by (simp add: pb_wire_def pb_wire_field_def)

section \<open>The message in a structure\<close>

type_synonym 'st pb_reader = "pb_field list \<Rightarrow> int \<Rightarrow> (nat \<times> pb_value) list option"

definition pb_value_at :: "'st pb_env \<Rightarrow> 'st pb_reader \<Rightarrow> pb_field \<Rightarrow> int \<Rightarrow> pb_value option" where
  "pb_value_at env sub field src =
     (let m = env_mem env; ltype = PB_LTYPE (f_type field) in
      if ltype = PB_LTYPE_BOOL then Some (PVarint (if m src \<noteq> 0 then 1 else 0))
      else if ltype = PB_LTYPE_VARINT
      then map_option (\<lambda>v. PVarint (unat v)) (load_signed m (f_data_size field) src)
      else if ltype = PB_LTYPE_UVARINT
      then map_option (\<lambda>v. PVarint (unat v)) (load_unsigned m (f_data_size field) src)
      else if ltype = PB_LTYPE_SVARINT
      then map_option (\<lambda>v. PVarint (zigzag (sint v))) (load_signed m (f_data_size field) src)
      else if ltype = PB_LTYPE_FIXED32 then Some (PFix32 (load 4 m src))
      else if ltype = PB_LTYPE_FIXED64 then Some (PFix64 (load 8 m src))
      else if ltype = PB_LTYPE_BYTES then
        (if src = 0 then Some (PBytes [])
         else if PB_ATYPE (f_type field) = PB_ATYPE_STATIC \<and> load 4 m src + 4 > unat (f_data_size field)
         then None
         else Some (PBytes (mem_bytes m (src + 4) (load 4 m src))))
      else if ltype = PB_LTYPE_STRING then
        Some (PBytes (if src = 0 then []
          else mem_bytes m src (c_strnlen m src (if PB_ATYPE (f_type field) = PB_ATYPE_POINTER then 2 ^ 64 - 1
                                                 else unat (f_data_size field)))))
      else if ltype = PB_LTYPE_SUBMESSAGE then
        (if f_ptr field = 0 then None else map_option PMsg (sub (env_fields env (f_ptr field)) src))
      else if ltype = PB_LTYPE_FIXED_LENGTH_BYTES
      then Some (PBytes (mem_bytes m src (unat (f_data_size field))))
      else None)"

text \<open>
  The entries of an array; entries of string and bytes arrays that are allocated are
  themselves pointers.
\<close>

definition pb_entry_addr :: "mem \<Rightarrow> pb_field \<Rightarrow> int \<Rightarrow> int" where
  "pb_entry_addr m field p =
     (if PB_ATYPE (f_type field) = PB_ATYPE_POINTER \<and>
         (PB_LTYPE (f_type field) = PB_LTYPE_STRING \<or> PB_LTYPE (f_type field) = PB_LTYPE_BYTES)
      then load_ptr m p else p)"

definition pb_entries ::
    "'st pb_env \<Rightarrow> 'st pb_reader \<Rightarrow> pb_field \<Rightarrow> nat \<Rightarrow> int \<Rightarrow> pb_value list option"
where
  "pb_entries env sub field count pData =
     those (map (\<lambda>i. pb_value_at env sub field
         (pb_entry_addr (env_mem env) field (pData + int i * int (unat (f_data_size field))))) [0..<count])"

text \<open>The entries of an array of numbers are packed into one value.\<close>

definition pb_array_fields :: "pb_field \<Rightarrow> pb_value list \<Rightarrow> (nat \<times> pb_value) list" where
  "pb_array_fields field vs =
     (if PB_LTYPE (f_type field) \<le> PB_LTYPE_LAST_PACKABLE then [(unat (f_tag field), PPacked vs)]
      else map (Pair (unat (f_tag field))) vs)"

text \<open>
  The values that one member contributes.  Callbacks and extensions are not part of the
  message; a member of these kinds must be empty.
\<close>

definition pb_member ::
    "nat \<Rightarrow> 'st pb_env \<Rightarrow> 'st pb_reader \<Rightarrow> pb_field \<Rightarrow> int \<Rightarrow> (nat \<times> pb_value) list option"
where
  "pb_member n env sub field pData =
     (let m = env_mem env; tag = unat (f_tag field); htype = PB_HTYPE (f_type field);
          pSize = pData + sint (f_size_offset field);
          pointer = (PB_ATYPE (f_type field) = PB_ATYPE_POINTER);
          dest = (if pointer then load_ptr m pData else pData);
          one = map_option (\<lambda>v. [(tag, v)]) (pb_value_at env sub field dest)
      in if PB_LTYPE (f_type field) = PB_LTYPE_EXTENSION \<or> PB_ATYPE (f_type field) = PB_ATYPE_CALLBACK then
           (if load_ptr m pData = 0 then Some [] else None)
         else if PB_ATYPE (f_type field) \<notin> {PB_ATYPE_STATIC, PB_ATYPE_POINTER} then None
         else if htype = PB_HTYPE_REQUIRED then (if dest = 0 then None else one)
         else if htype = PB_HTYPE_OPTIONAL then
           (if f_size_offset field \<noteq> 0 then (if m pSize \<noteq> 0 then one else Some [])
            else (case pb_check_proto3_default_value n env field pData of
                    None \<Rightarrow> None
                  | Some d \<Rightarrow> if (if pointer then dest \<noteq> 0 else \<not> d) then one else Some []))
         else if htype = PB_HTYPE_REPEATED then
           (let count = (if f_size_offset field \<noteq> 0 then load 4 m pSize else unat (f_array_size field)) in
            if count = 0 then Some []
            else if \<not> pointer \<and> count > unat (f_array_size field) then None
            else map_option (pb_array_fields field) (pb_entries env sub field count dest))
         else if f_size_offset field = 0 then None
         else if load 4 m pSize = tag then one else Some [])"

fun pb_message :: "nat \<Rightarrow> 'st pb_env \<Rightarrow> 'st pb_reader" where
  "pb_message 0 env fs src = None"
| "pb_message (Suc n) env fs src =
     (if list_all (\<lambda>f. f_tag f \<noteq> 0) fs
      then map_option concat (those (map (\<lambda>i. pb_member n env (pb_message n env) (fs ! i)
               (src + int (member_offset fs i))) [0..<length fs]))
      else None)"

section \<open>The encoder emits the message\<close>

lemma those_Some_iff: "those xs = Some ys \<longleftrightarrow> xs = map Some ys"
  by (induction xs arbitrary: ys) (auto split: option.splits)

text \<open>What is assumed of the recursive calls.\<close>

definition sub_emits ::
    "'st pb_write_callback \<Rightarrow> ('st \<Rightarrow> nat) \<Rightarrow> ('st \<Rightarrow> u8 list) \<Rightarrow> 'st pb_sub \<Rightarrow> 'st pb_reader \<Rightarrow> bool"
where
  "sub_emits cb room written sub subv \<longleftrightarrow>
     (\<forall>fs src msg. subv fs src = Some msg \<longrightarrow> length (pb_wire msg) < 2 ^ 63 \<longrightarrow>
        pb_emits cb room written (sub fs src) (pb_wire msg))"

context write_callback
begin

lemma emits_varint: "pb_emits cb room written (pb_encode_varint v) (varint_bytes (unat v))"
  unfolding pb_encode_varint_bytes
  using length_varint_bytes_u64 [of v] by (intro emits_write) simp

lemma emits_fixed32: "v < 2 ^ 32 \<Longrightarrow> pb_emits cb room written (pb_encode_fixed32 (of_nat v)) (le_bytes 4 v)"
proof -
  assume "v < 2 ^ 32"
  then have "unat (of_nat v :: u32) = v" unfolding unat_of_nat by simp
  then show ?thesis unfolding pb_encode_fixed32_bytes using emits_write [of "le_bytes 4 v"] by simp
qed

lemma emits_fixed64: "v < 2 ^ 64 \<Longrightarrow> pb_emits cb room written (pb_encode_fixed64 (of_nat v)) (le_bytes 8 v)"
proof -
  assume "v < 2 ^ 64"
  then have "unat (of_nat v :: u64) = v" unfolding unat_of_nat by simp
  then show ?thesis unfolding pb_encode_fixed64_bytes using emits_write [of "le_bytes 8 v"] by simp
qed

lemma emits_delimited:
  "length (pb_delimited bs) < 2 ^ 63 \<Longrightarrow> pb_emits cb room written (pb_encode_string bs) (pb_delimited bs)"
  unfolding pb_delimited_def by (rule emits_string) simp

lemma emits_svarint: "pb_emits cb room written (pb_encode_svarint v) (varint_bytes (zigzag (sint v)))"
  using emits_varint [of "if sint v < 0 then NOT (push_bit 1 v) else push_bit 1 v"]
  by (simp only: pb_encode_svarint_def Let_def ushift_signed)

lemma emits_value:
  assumes v: "pb_value_at env subv field src = Some v" and len: "length (pb_payload v) < 2 ^ 63"
    and sub: "sub_emits cb room written sub subv"
  shows "pb_emits cb room written (PB_ENCODERS env sub (PB_LTYPE (f_type field)) field src) (pb_payload v)"
proof -
  let ?l = "PB_LTYPE (f_type field)" and ?m = "env_mem env"
  have short: "length bs < 2 ^ 63" if "length (pb_delimited bs) < 2 ^ 63" for bs
    using that by (simp add: pb_delimited_def)
  have loads: "load 4 ?m a < 2 ^ 32" "load 8 ?m a < 2 ^ 64" for a
    using le_nat_bound [of "mem_bytes ?m a 4"] le_nat_bound [of "mem_bytes ?m a 8"] by (simp_all add: load_def)
  note defs = PB_ENCODERS_def Let_def pb_ltypes
  consider "?l = PB_LTYPE_BOOL" | "?l = PB_LTYPE_VARINT" | "?l = PB_LTYPE_UVARINT" | "?l = PB_LTYPE_SVARINT"
    | "?l = PB_LTYPE_FIXED32" | "?l = PB_LTYPE_FIXED64" | "?l = PB_LTYPE_BYTES" | "?l = PB_LTYPE_STRING"
    | "?l = PB_LTYPE_SUBMESSAGE" | "?l = PB_LTYPE_FIXED_LENGTH_BYTES"
    using v by (auto simp: pb_value_at_def Let_def split: if_splits)
  then show ?thesis
  proof cases
    case 1
    then show ?thesis
      using v emits_varint [of 1] emits_varint [of 0]
      by (auto simp: defs pb_value_at_def pb_enc_bool_def safe_read_bool_def split: if_splits)
  next
    case 2
    then show ?thesis
      using v emits_varint by (auto simp: defs pb_value_at_def pb_enc_varint_def)
  next
    case 3
    then show ?thesis
      using v emits_varint by (auto simp: defs pb_value_at_def pb_enc_uvarint_def)
  next
    case 4
    then show ?thesis
      using v emits_svarint by (auto simp: defs pb_value_at_def pb_enc_svarint_def)
  next
    case 5
    then show ?thesis
      using v emits_fixed32 [OF loads(1), of src] by (auto simp: defs pb_value_at_def pb_enc_fixed32_def)
  next
    case 6
    then show ?thesis
      using v emits_fixed64 [OF loads(2), of src] by (auto simp: defs pb_value_at_def pb_enc_fixed64_def)
  next
    case 7
    have "wrap64 (load 4 ?m src + 4) = load 4 ?m src + 4" using loads(1) [of src] by simp
    then show ?thesis
      using 7 v len emits_delimited
      by (auto simp: defs pb_value_at_def pb_enc_bytes_def split: if_splits)
  next
    case 8
    then show ?thesis
      using v len emits_delimited by (auto simp: defs pb_value_at_def pb_enc_string_def)
  next
    case 9
    then obtain msg where msg: "subv (env_fields env (f_ptr field)) src = Some msg" "v = PMsg msg" "f_ptr field \<noteq> 0"
      using v by (auto simp: Let_def pb_value_at_def pb_ltypes split: if_splits)
    then have "length (pb_wire msg) < 2 ^ 63" using len short by (simp add: pb_payload_PMsg del: pb_payload.simps)
    then have "pb_emits cb room written (pb_encode_submessage (sub (env_fields env (f_ptr field)) src))
        (pb_delimited (pb_wire msg))"
      unfolding pb_delimited_def using sub msg(1) by (intro emits_submessage) (auto simp: sub_emits_def)
    then show ?thesis
      using 9 msg by (simp add: defs pb_enc_submessage_def pb_payload_PMsg del: pb_payload.simps)
  next
    case 10
    then show ?thesis
      using v len emits_delimited by (auto simp: defs pb_value_at_def pb_enc_fixed_length_bytes_def)
  qed
qed

lemma emits_tag:
  assumes "unat wt < 8"
  shows "pb_emits cb room written (pb_encode_tag wt tag) (varint_bytes (8 * unat tag + unat wt))"
proof -
  have "unat tag < 2 ^ 32" using unsigned_less [of tag, where 'a = nat] by simp
  then have "unat tag * 8 + unat wt < 128 ^ 10" using assms by simp
  then have "length (varint_bytes (unat tag * 8 + unat wt)) \<le> 10" by (intro length_varint_bytes) simp_all
  then show ?thesis
    unfolding pb_encode_tag_bytes [OF assms] mult.commute [of 8] by (intro emits_write) simp
qed

lemma emits_field_tag:
  assumes v: "pb_value_at env subv field src = Some v"
  shows "pb_emits cb room written (pb_encode_tag_for_field field) (varint_bytes (8 * unat (f_tag field) + pb_wt v))"
proof -
  let ?l = "PB_LTYPE (f_type field)"
  have w: "unat PB_WT_VARINT = 0" "unat PB_WT_64BIT = 1" "unat PB_WT_32BIT = 5" "unat PB_WT_STRING = 2"
    by (simp_all add: PB_WT_VARINT_def PB_WT_64BIT_def PB_WT_32BIT_def PB_WT_STRING_def)
  note t = emits_tag [of PB_WT_VARINT "f_tag field", unfolded w] emits_tag [of PB_WT_64BIT "f_tag field", unfolded w]
    emits_tag [of PB_WT_32BIT "f_tag field", unfolded w] emits_tag [of PB_WT_STRING "f_tag field", unfolded w]
  show ?thesis
    using v t
    by (auto simp: pb_value_at_def pb_encode_tag_for_field_def Let_def pb_ltypes split: if_splits)
qed

section \<open>Members\<close>

lemma emits_entries:
  "\<forall>i < length vs. pb_emits cb room written (func (p + int i * step)) (pay (vs ! i)) \<Longrightarrow>
     pb_emits cb room written (encode_entries func (length vs) p step) (concat (map pay vs))"
proof (induction vs arbitrary: p)
  case Nil
  then show ?case by (simp add: emits_ret)
next
  case (Cons v vs)
  have "pb_emits cb room written (func p) (pay v)" using Cons.prems by (auto dest: spec [of _ 0])
  moreover have "pb_emits cb room written (encode_entries func (length vs) (p + step) step) (concat (map pay vs))"
    using Cons.prems by (intro Cons.IH) (auto dest: spec [of _ "Suc i" for i] simp: algebra_simps)
  ultimately show ?case by (simp add: emits_bind)
qed

lemma emits_switch:
  assumes "pb_emits cb room written f bs"
  shows "pb_emits cb room written
    (\<lambda>s. if Option.is_none (os_callback s) then pb_write_null (length bs) s else f s) bs"
  unfolding pb_emits_def
proof (intro allI impI)
  fix s :: "'st pb_ostream"
  assume ok: "pb_out_ok cb room s"
  let ?g = "if Option.is_none (os_callback s) then pb_write_null (length bs) s else f s"
  show "if os_callback s = None then
      os_bytes_written s + length bs < 2 ^ 64 \<longrightarrow>
      ?g = (Some (), s\<lparr>os_bytes_written := os_bytes_written s + length bs\<rparr>)
    else if os_bytes_written s + length bs \<le> os_max_size s then
      \<exists>st. ?g = (Some (), s\<lparr>os_state := st, os_bytes_written := os_bytes_written s + length bs\<rparr>) \<and>
        written st = written (os_state s) @ bs \<and> room st = room (os_state s) - length bs
    else
      \<exists>s' n. n \<le> length bs \<and> ?g = (None, s') \<and> os_bytes_written s + n \<le> os_max_size s \<and>
        os_bytes_written s' = os_bytes_written s + n \<and>
        written (os_state s') = written (os_state s) @ take n bs"
  proof (cases "os_callback s = None")
    case True
    then show ?thesis by (simp add: pb_write_null_def)
  next
    case False
    then have "?g = f s" by (auto simp: Option.is_none_def)
    then show ?thesis using assms [unfolded pb_emits_def, rule_format, OF ok] by (simp only:)
  qed
qed

text \<open>
  A packed array: its size is computed for entries of a fixed width and found on a sizing
  stream otherwise.
\<close>

lemma emits_packed:
  assumes entries: "pb_emits cb room written
      (encode_entries func count pData (int (unat (f_data_size field)))) body"
    and len: "length body < 2 ^ 63"
    and width: "PB_LTYPE (f_type field) = PB_LTYPE_FIXED32 \<Longrightarrow> length body = 4 * count"
      "PB_LTYPE (f_type field) = PB_LTYPE_FIXED64 \<Longrightarrow> length body = 8 * count"
  shows "pb_emits cb room written (encode_packed field pData count func) (pb_delimited body)"
proof -
  let ?step = "int (unat (f_data_size field))"
  let ?size = "\<lambda>s :: 'st pb_ostream. if PB_LTYPE (f_type field) = PB_LTYPE_FIXED32 then Some (wrap64 (4 * count))
      else if PB_LTYPE (f_type field) = PB_LTYPE_FIXED64 then Some (wrap64 (8 * count))
      else (case encode_entries func count pData ?step (PB_OSTREAM_SIZING (os_state s)) of
              (None, sizestream) \<Rightarrow> None
            | (Some _, sizestream) \<Rightarrow> Some (os_bytes_written sizestream))"
  have sizing: "?size s = Some (length body)" for s :: "'st pb_ostream"
    using emits_sizing [OF entries, of "PB_OSTREAM_SIZING (os_state s)"] len width
    by (auto simp: PB_OSTREAM_SIZING_def)
  have run: "encode_packed field pData count func s =
      op_bind (pb_encode_varint (of_nat (length body))) (\<lambda>_ s.
        if Option.is_none (os_callback s) then pb_write_null (length body) s
        else encode_entries func count pData ?step s) s" for s :: "'st pb_ostream"
    unfolding encode_packed_def Let_def sizing by simp
  have "unat (of_nat (length body) :: u64) = length body" using len unfolding unat_of_nat by simp
  then have v: "pb_emits cb room written (pb_encode_varint (of_nat (length body))) (varint_bytes (length body))"
    using emits_varint [of "of_nat (length body)"] by simp
  from emits_bind [OF v emits_switch [OF entries]] show ?thesis
    unfolding pb_delimited_def pb_emits_def run .
qed

lemma emits_one:
  assumes v: "pb_value_at env subv field dest = Some v" and sub: "sub_emits cb room written sub subv"
    and len: "length (pb_wire [(unat (f_tag field), v)]) < 2 ^ 63"
  shows "pb_emits cb room written
    (op_bind (pb_encode_tag_for_field field) (\<lambda>_. PB_ENCODERS env sub (PB_LTYPE (f_type field)) field dest))
    (pb_wire [(unat (f_tag field), v)])"
proof -
  have w: "pb_wire [(unat (f_tag field), v)] =
      varint_bytes (8 * unat (f_tag field) + pb_wt v) @ pb_payload v"
    by (simp add: pb_wire_def pb_wire_field_def)
  then have "length (pb_payload v) < 2 ^ 63" using len by simp
  from emits_bind [OF emits_field_tag [OF v] emits_value [OF v this sub]] show ?thesis unfolding w .
qed

end

lemma length_concat_nth: "i < length vs \<Longrightarrow> length (f (vs ! i)) \<le> length (concat (map f vs))"
  using elem_le_sum_list [of i "map (length \<circ> f) vs"] by (simp add: length_concat comp_def)

lemma pb_entries_nth:
  assumes "pb_entries env sub field count pData = Some vs"
  shows "length vs = count"
    and "i < count \<Longrightarrow> pb_value_at env sub field
      (pb_entry_addr (env_mem env) field (pData + int i * int (unat (f_data_size field)))) = Some (vs ! i)"
proof -
  have m: "map (\<lambda>i. pb_value_at env sub field
      (pb_entry_addr (env_mem env) field (pData + int i * int (unat (f_data_size field))))) [0..<count] = map Some vs"
    using assms unfolding pb_entries_def those_Some_iff .
  show len: "length vs = count" using arg_cong [OF m, of length] by simp
  show "pb_value_at env sub field
      (pb_entry_addr (env_mem env) field (pData + int i * int (unat (f_data_size field)))) = Some (vs ! i)"
    if "i < count"
    using arg_cong [OF m, of "\<lambda>xs. xs ! i"] that len by simp
qed

text \<open>Entries of a fixed width.\<close>

lemma pb_value_width:
  assumes "pb_value_at env sub field src = Some v"
  shows "PB_LTYPE (f_type field) = PB_LTYPE_FIXED32 \<Longrightarrow> length (pb_payload v) = 4"
    and "PB_LTYPE (f_type field) = PB_LTYPE_FIXED64 \<Longrightarrow> length (pb_payload v) = 8"
  using assms by (auto simp: pb_value_at_def Let_def pb_ltypes)

lemma length_concat_width:
  "\<forall>i < length vs. length (f (vs ! i)) = w \<Longrightarrow> length (concat (map f vs)) = w * length vs"
proof (induction vs)
  case Nil
  then show ?case by simp
next
  case (Cons v vs)
  then have "length (f v) = w" by (auto dest: spec [of _ 0])
  moreover have "\<forall>i < length vs. length (f (vs ! i)) = w"
    using Cons.prems by (metis Suc_less_eq length_Cons nth_Cons_Suc)
  then have "length (concat (map f vs)) = w * length vs" by (rule Cons.IH)
  ultimately show ?case by simp
qed

lemma and_0x30_cases: "(x :: u8) AND 0x30 \<in> {0x00, 0x10, 0x20, 0x30}"
proof -
  have "(0x30 :: u8) = push_bit 4 (mask 2)" by (simp add: mask_eq_exp_minus_1)
  moreover have "x AND push_bit 4 (mask 2) = push_bit 4 (drop_bit 4 x AND mask 2)"
    by (rule bit_word_eqI) (auto simp: bit_simps)
  ultimately have "x AND 0x30 = push_bit 4 (drop_bit 4 x AND 3)"
    by (simp only: mask_eq_exp_minus_1) simp
  moreover have "drop_bit 4 x AND 3 = take_bit 2 (drop_bit 4 x)" by (simp add: take_bit_eq_mask mask_eq_exp_minus_1)
  then have "unat (drop_bit 4 x AND 3) < 4" 
    using take_bit_nat_less_exp [of 2] by (simp add: unsigned_take_bit_eq)
  then have "unat (drop_bit 4 x AND 3) \<in> {0, 1, 2, 3}" by auto
  then have "drop_bit 4 x AND 3 \<in> {0, 1, 2, 3}"
    unfolding insert_iff word_unat_eq_iff by simp
  ultimately have "x AND 0x30 \<in> push_bit 4 ` {0, 1, 2, 3}" by (simp only: image_eqI)
  then show ?thesis by simp
qed

context write_callback
begin

lemma emits_array:
  assumes vs: "pb_entries env subv field count pData = Some vs" and count: "0 < count"
    and max: "PB_ATYPE (f_type field) \<noteq> PB_ATYPE_POINTER \<Longrightarrow> count \<le> unat (f_array_size field)"
    and sub: "sub_emits cb room written sub subv"
    and len: "length (pb_wire (pb_array_fields field vs)) < 2 ^ 63"
  shows "pb_emits cb room written
    (encode_array (env_mem env) field pData count (PB_ENCODERS env sub (PB_LTYPE (f_type field)) field))
    (pb_wire (pb_array_fields field vs))"
proof -
  let ?l = "PB_LTYPE (f_type field)" and ?step = "int (unat (f_data_size field))"
  let ?tag = "unat (f_tag field)" and ?func = "PB_ENCODERS env sub (PB_LTYPE (f_type field)) field"
  note nth = pb_entries_nth [OF vs]
  have bound: "\<not> (PB_ATYPE (f_type field) \<noteq> PB_ATYPE_POINTER \<and> count > unat (f_array_size field))"
    using max by auto
  show ?thesis
  proof (cases "?l \<le> PB_LTYPE_LAST_PACKABLE")
    case True
    then have plain: "?l \<notin> {PB_LTYPE_STRING, PB_LTYPE_BYTES}" by (auto simp: pb_ltypes)
    let ?body = "concat (map pb_payload vs)"
    have w: "pb_wire (pb_array_fields field vs) = varint_bytes (8 * ?tag + 2) @ pb_delimited ?body"
      using True by (simp add: pb_array_fields_def pb_wire_def pb_wire_field_def)
    then have body: "length ?body < 2 ^ 63" using len by (simp add: pb_delimited_def)
    have entry: "pb_value_at env subv field (pData + int i * ?step) = Some (vs ! i)" if "i < length vs" for i
      using nth(2) [of i] that nth(1) plain by (simp add: pb_entry_addr_def)
    have "\<forall>i < length vs. pb_emits cb room written (?func (pData + int i * ?step)) (pb_payload (vs ! i))"
      using emits_value [OF entry _ sub] length_concat_nth [of _ vs pb_payload] body
      by (meson order.strict_trans1)
    then have "pb_emits cb room written (encode_entries ?func (length vs) pData ?step) ?body"
      by (rule emits_entries)
    then have "pb_emits cb room written (encode_packed field pData count ?func) (pb_delimited ?body)"
      using nth(1) body pb_value_width [OF entry]
      by (intro emits_packed) (auto intro!: length_concat_width)
    moreover have "pb_emits cb room written (pb_encode_tag PB_WT_STRING (f_tag field)) (varint_bytes (8 * ?tag + 2))"
      using emits_tag [of PB_WT_STRING "f_tag field"] by (simp add: PB_WT_STRING_def)
    ultimately show ?thesis
      unfolding w encode_array_def if_not_P [OF bound] if_P [OF True] using count
      by (simp add: emits_bind)
  next
    case False
    let ?one = "\<lambda>p. op_bind (pb_encode_tag_for_field field) (\<lambda>_.
        if PB_ATYPE (f_type field) = PB_ATYPE_POINTER \<and> (?l = PB_LTYPE_STRING \<or> ?l = PB_LTYPE_BYTES)
        then ?func (load_ptr (env_mem env) p) else ?func p)"
    have one: "?one p = op_bind (pb_encode_tag_for_field field) (\<lambda>_. ?func (pb_entry_addr (env_mem env) field p))"
      for p by (auto simp: pb_entry_addr_def)
    have w: "pb_wire (pb_array_fields field vs) = concat (map (\<lambda>v. pb_wire [(?tag, v)]) vs)"
      using False by (simp add: pb_array_fields_def pb_wire_def comp_def)
    have entry: "pb_value_at env subv field (pb_entry_addr (env_mem env) field (pData + int i * ?step)) = Some (vs ! i)"
      if "i < length vs" for i using nth(2) [of i] that nth(1) by simp
    have "length (pb_wire [(?tag, vs ! i)]) < 2 ^ 63" if "i < length vs" for i
      using length_concat_nth [OF that, of "\<lambda>v. pb_wire [(?tag, v)]"] len unfolding w by (rule order.strict_trans1)
    then have "\<forall>i < length vs. pb_emits cb room written (?one (pData + int i * ?step)) (pb_wire [(?tag, vs ! i)])"
      unfolding one using emits_one [OF entry sub] by blast
    then have "pb_emits cb room written (encode_entries ?one (length vs) pData ?step)
        (concat (map (\<lambda>v. pb_wire [(?tag, v)]) vs))"
      by (rule emits_entries)
    then show ?thesis
      unfolding w encode_array_def if_not_P [OF bound] if_not_P [OF False] using count nth(1) by simp
  qed
qed

lemma emits_member:
  assumes msg: "pb_member n env subv field pData = Some vs"
    and sub: "sub_emits cb room written sub subv"
    and len: "length (pb_wire vs) < 2 ^ 63"
  shows "pb_emits cb room written
    (if PB_LTYPE (f_type field) = PB_LTYPE_EXTENSION
     then encode_extension_field n env sub pData else encode_field n env sub field pData) (pb_wire vs)"
proof (cases "PB_LTYPE (f_type field) = PB_LTYPE_EXTENSION \<or> PB_ATYPE (f_type field) = PB_ATYPE_CALLBACK")
  case True
  then have vs: "vs = []" "load_ptr (env_mem env) pData = 0"
    using msg by (auto simp: pb_member_def Let_def split: if_splits)
  have "encode_extensions n n env sub 0 = op_ret ()" by (cases n) simp_all
  moreover have "encode_callback_field env field pData = op_ret ()"
    using vs by (simp add: encode_callback_field_def op_ret_def fun_eq_iff)
  ultimately show ?thesis
    using True vs by (auto simp: encode_extension_field_def encode_field_def pb_atypes pb_wire_def emits_ret)
next
  case False
  let ?m = "env_mem env" and ?h = "PB_HTYPE (f_type field)" and ?tag = "unat (f_tag field)"
  let ?p = "PB_ATYPE (f_type field) = PB_ATYPE_POINTER" and ?pSize = "pData + sint (f_size_offset field)"
  let ?dest = "if ?p then load_ptr ?m pData else pData"
  let ?one = "op_bind (pb_encode_tag_for_field field)
      (\<lambda>_. PB_ENCODERS env sub (PB_LTYPE (f_type field)) field ?dest)"
  have one: "pb_emits cb room written ?one (pb_wire vs)"
    if "map_option (\<lambda>v. [(?tag, v)]) (pb_value_at env subv field ?dest) = Some vs"
    using that emits_one [OF _ sub] len by auto
  have basic: "encode_field n env sub field pData = encode_basic_field n env sub field pData"
    using False msg by (auto simp: pb_member_def Let_def encode_field_def split: if_splits)
  note defs = pb_member_def encode_basic_field_def Let_def safe_read_bool_def pb_htypes
  have "pb_emits cb room written (encode_basic_field n env sub field pData) (pb_wire vs)"
  proof (cases "?h = PB_HTYPE_REPEATED")
    case True
    let ?count = "if f_size_offset field \<noteq> 0 then load 4 ?m ?pSize else unat (f_array_size field)"
    have run: "encode_basic_field n env sub field pData =
        encode_array ?m field ?dest ?count (PB_ENCODERS env sub (PB_LTYPE (f_type field)) field)"
      using True by (simp add: encode_basic_field_def Let_def pb_htypes)
    have repeated: "(if ?count = 0 then Some []
         else if \<not> ?p \<and> ?count > unat (f_array_size field) then None
         else map_option (pb_array_fields field) (pb_entries env subv field ?count ?dest)) = Some vs"
      using msg False True by (simp add: pb_member_def Let_def pb_htypes split: if_splits)
    show ?thesis
    proof (cases "?count = 0")
      case True
      then have "vs = []" "encode_array ?m field ?dest ?count
          (PB_ENCODERS env sub (PB_LTYPE (f_type field)) field) = op_ret ()"
        using repeated by (simp_all add: encode_array_def)
      then show ?thesis unfolding run by (simp only:) (simp add: pb_wire_def emits_ret)
    next
      case count: False
      then have bound: "\<not> (\<not> ?p \<and> ?count > unat (f_array_size field))" using repeated by auto
      obtain es where es: "pb_entries env subv field ?count ?dest = Some es" "vs = pb_array_fields field es"
        using repeated [unfolded if_not_P [OF count] if_not_P [OF bound]] by blast
      show ?thesis
        unfolding run es(2) using count bound len es by (intro emits_array [OF es(1) _ _ sub]) auto
    qed
  next
    case single: False
    have basic_cases: "encode_basic_field n env sub field pData = ?one \<and>
          map_option (\<lambda>v. [(?tag, v)]) (pb_value_at env subv field ?dest) = Some vs \<or>
        encode_basic_field n env sub field pData = op_ret () \<and> vs = []"
    proof (cases "?h = PB_HTYPE_OPTIONAL \<and> f_size_offset field = 0")
      case True
      then obtain d where d: "pb_check_proto3_default_value n env field pData = Some d"
          "(if if ?p then ?dest \<noteq> 0 else \<not> d
            then map_option (\<lambda>v. [(?tag, v)]) (pb_value_at env subv field ?dest) else Some []) = Some vs"
        using msg False by (auto simp: pb_member_def Let_def pb_htypes split: if_splits option.splits)
      have "encode_basic_field n env sub field pData =
          (if if ?p then ?dest \<noteq> 0 else \<not> d then ?one else op_ret ())"
        using True d(1) by (simp add: encode_basic_field_def Let_def pb_htypes)
      then show ?thesis using d(2) by (auto split: if_splits)
    next
      case no_default: False
      have "?h \<in> {PB_HTYPE_REQUIRED, PB_HTYPE_OPTIONAL, PB_HTYPE_REPEATED, PB_HTYPE_ONEOF}"
        unfolding PB_HTYPE_def pb_htypes by (rule and_0x30_cases)
      then consider "?h = PB_HTYPE_REQUIRED" | "?h = PB_HTYPE_OPTIONAL" "f_size_offset field \<noteq> 0"
        | "?h = PB_HTYPE_ONEOF" using single no_default by auto
      then show ?thesis
      proof cases
        case 1
        then show ?thesis using msg False by (auto simp: defs split: if_splits)
      next
        case 2
        then show ?thesis using msg False by (auto simp: defs split: if_splits)
      next
        case 3
        then show ?thesis using msg False by (auto simp: defs split: if_splits)
      qed
    qed
    then show ?thesis using one by (auto simp: pb_wire_def emits_ret)
  qed
  then show ?thesis using False basic by simp
qed

text \<open>The loop over the members, from member \<open>i\<close> on.\<close>

lemma emits_members:
  assumes ok: "fields_ok fs"
    and vs: "\<forall>j < length fs. g (fs ! j) (src + int (member_offset fs j)) = Some (vs ! j)"
      "length vs = length fs"
    and member: "\<And>field pData v. g field pData = Some v \<Longrightarrow> length (pb_wire v) < 2 ^ 63 \<Longrightarrow>
      pb_emits cb room written (f field pData) (pb_wire v)"
  shows "i < length fs \<Longrightarrow> length fs - i \<le> k \<Longrightarrow> length (pb_wire (concat (drop i vs))) < 2 ^ 63 \<Longrightarrow>
    pb_emits cb room written (each_field (\<lambda>iter. f (it_field iter) (it_pData iter)) k (iter_at fs src i))
      (pb_wire (concat (drop i vs)))"
proof (induction k arbitrary: i)
  case 0
  then show ?case by simp
next
  case (Suc k)
  let ?F = "\<lambda>iter. f (it_field iter) (it_pData iter)"
  have drop: "drop i vs = vs ! i # drop (Suc i) vs" using Suc.prems(1) vs(2) by (simp add: Cons_nth_drop_Suc)
  then have w: "pb_wire (concat (drop i vs)) = pb_wire (vs ! i) @ pb_wire (concat (drop (Suc i) vs))"
    by (simp add: pb_wire_def)
  then have len: "length (pb_wire (vs ! i)) < 2 ^ 63" "length (pb_wire (concat (drop (Suc i) vs))) < 2 ^ 63"
    using Suc.prems(3) by simp_all
  have field: "field_at fs i = fs ! i" using Suc.prems(1) by (simp add: field_at_def)
  have first: "pb_emits cb room written (?F (iter_at fs src i)) (pb_wire (vs ! i))"
    using member [OF vs(1) [rule_format, OF Suc.prems(1)] len(1)] field by simp
  show ?case
  proof (cases "Suc i < length fs")
    case True
    have "each_field ?F (Suc k) (iter_at fs src i) =
        op_bind (?F (iter_at fs src i)) (\<lambda>_. each_field ?F k (iter_at fs src (Suc i)))"
      using iter_next [OF ok Suc.prems(1), of src] True by simp
    moreover have "pb_emits cb room written (each_field ?F k (iter_at fs src (Suc i)))
        (pb_wire (concat (drop (Suc i) vs)))"
      using Suc.prems(2) by (intro Suc.IH True len) simp
    ultimately show ?thesis unfolding w using emits_bind [OF first] by simp
  next
    case False
    have "each_field ?F (Suc k) (iter_at fs src i) = op_bind (?F (iter_at fs src i)) (\<lambda>_. op_ret ())"
      using iter_next [OF ok Suc.prems(1), of src] False by simp
    moreover have "drop (Suc i) vs = []" using False vs(2) by simp
    ultimately show ?thesis unfolding w using emits_bind [OF first emits_ret] by (simp add: pb_wire_def)
  qed
qed

lemma emits_message:
  "pb_message n env fs src = Some msg \<Longrightarrow> length (pb_wire msg) < 2 ^ 63 \<Longrightarrow>
     pb_emits cb room written (pb_encode n env fs src) (pb_wire msg)"
proof (induction n arbitrary: fs src msg)
  case 0
  then show ?case by simp
next
  case (Suc n)
  let ?sub = "pb_encode n env" and ?subv = "pb_message n env"
  have sub: "sub_emits cb room written ?sub ?subv"
    unfolding sub_emits_def using Suc.IH by blast
  let ?g = "\<lambda>field pData. pb_member n env ?subv field pData"
  let ?f = "\<lambda>field pData. if PB_LTYPE (f_type field) = PB_LTYPE_EXTENSION
      then encode_extension_field n env ?sub pData else encode_field n env ?sub field pData"
  show ?case
  proof (cases "fs = []")
    case True
    then have "pb_encode (Suc n) env fs src = op_ret ()"
      by (simp add: pb_field_iter_begin_def field_at_def PB_LAST_FIELD_def Let_def pb_encode.simps)
    moreover have "msg = []" using True Suc.prems(1) by simp
    ultimately show ?thesis by (simp add: pb_wire_def emits_ret)
  next
    case False
    obtain vs where vs: "map (\<lambda>i. ?g (fs ! i) (src + int (member_offset fs i))) [0..<length fs] = map Some vs"
        "msg = concat vs" and tags: "list_all (\<lambda>f. f_tag f \<noteq> 0) fs"
      using Suc.prems(1) by (auto simp: those_Some_iff split: if_splits)
    have ok: "fields_ok fs" using False tags by (simp add: fields_ok_def)
    have len: "length vs = length fs" using arg_cong [OF vs(1), of length] by simp
    have nth: "\<forall>j < length fs. ?g (fs ! j) (src + int (member_offset fs j)) = Some (vs ! j)"
    proof (intro allI impI)
      fix j
      assume "j < length fs"
      then show "?g (fs ! j) (src + int (member_offset fs j)) = Some (vs ! j)"
        using arg_cong [OF vs(1), of "\<lambda>xs. xs ! j"] len by simp
    qed
    have "pb_emits cb room written
        (each_field (\<lambda>iter. ?f (it_field iter) (it_pData iter)) (length fs) (iter_at fs src 0))
        (pb_wire (concat (drop 0 vs)))"
      using ok nth len
    proof (rule emits_members)
      show "pb_emits cb room written (?f field pData) (pb_wire v)"
        if "?g field pData = Some v" "length (pb_wire v) < 2 ^ 63" for field pData v
        using that(1) sub that(2) by (rule emits_member)
    qed (use False Suc.prems vs in auto)
    then show ?thesis using iter_begin [OF ok, of src] vs(2) by (simp add: pb_encode.simps)
  qed
qed

end

section \<open>Encoding into a buffer\<close>

text \<open>
  C20: for a structure that represents a message, \<open>pb_encode\<close> fills a buffer with the wire format
  of the message when it fits, and fails otherwise.
\<close>

theorem pb_encode_message:
  assumes "pb_message n env fs src = Some msg" and "length (pb_wire msg) < 2 ^ 63" and "bufsize < 2 ^ 63"
  shows "pb_encoded bufsize (pb_encode n env fs src) =
    (if length (pb_wire msg) \<le> bufsize then Some (pb_wire msg) else None)"
  by (rule pb_encoded_emits [OF buffer_out.emits_message [OF assms(1,2)] assms(3)])

text \<open>
  The example is a message with a packed array of two numbers and an optional submessage.
\<close>

definition example_sub :: "pb_field list" where
  "example_sub = [\<lparr>f_tag = 1, f_type = 0x02, f_data_offset = 0, f_size_offset = 0, f_data_size = 1,
     f_array_size = 0, f_ptr = 0\<rparr>]"

definition example_fields :: "pb_field list" where
  "example_fields =
     [\<lparr>f_tag = 1, f_type = 0x22, f_data_offset = 4, f_size_offset = - 4, f_data_size = 1,
       f_array_size = 4, f_ptr = 0\<rparr>,
      \<lparr>f_tag = 2, f_type = 0x18, f_data_offset = 1, f_size_offset = - 1, f_data_size = 1,
       f_array_size = 0, f_ptr = 100\<rparr>]"

definition example_mem :: mem where
  "example_mem a = (if 16 \<le> a \<and> a < 26 then [2, 0, 0, 0, 5, 200, 0, 0, 1, 7] ! nat (a - 16) else 0)"

definition example_env :: "'st pb_env" where
  "example_env = \<lparr>env_mem = example_mem, env_fields = (\<lambda>a. if a = 100 then example_sub else []),
     env_encode = (\<lambda>_ _ _. op_fail), env_ext_encode = (\<lambda>_ _. op_fail)\<rparr>"

lemmas example_defs = example_sub_def example_env_def example_mem_def pb_member_def pb_value_at_def Let_def
  PB_LTYPE_def PB_ATYPE_def PB_HTYPE_def pb_ltypes pb_htypes pb_atypes load_unsigned_def load_def
  mem_bytes_numeral mem_bytes_Suc byte_simps

lemma example_message:
  "pb_message (Suc (Suc 0)) example_env example_fields 16 =
     Some [(1, PPacked [PVarint 5, PVarint 200]), (2, PMsg [(1, PVarint 7)])]"
  by (simp add: example_fields_def example_defs pb_entries_def pb_entry_addr_def pb_array_fields_def
      in_union_def member_size_def upt_conv_Cons)

lemma example_wire:
  "pb_wire [(1, PPacked [PVarint 5, PVarint 200]), (2, PMsg [(1, PVarint 7)])] =
     [10, 3, 5, 200, 1, 18, 2, 8, 7]"
  by (simp add: pb_wire_def pb_wire_field_def pb_delimited_def varint_bytes.simps)

theorem pb_encode_message_witness:
  "pb_encoded 9 (pb_encode (Suc (Suc 0)) example_env example_fields 16) =
     Some [10, 3, 5, 200, 1, 18, 2, 8, 7] \<and>
   pb_encoded 8 (pb_encode (Suc (Suc 0)) example_env example_fields 16) = None"
  using pb_encode_message [OF example_message, unfolded example_wire, of 9]
    pb_encode_message [OF example_message, unfolded example_wire, of 8] by simp

text \<open>
  C21: \<open>pb_get_encoded_size\<close> finds, without writing, the smallest size of a buffer in which
  \<open>pb_encode\<close> succeeds.
\<close>

theorem pb_get_encoded_size_exact:
  assumes "pb_message n env fs src = Some msg" and "length (pb_wire msg) < 2 ^ 63"
  shows "\<exists>k. pb_get_encoded_size n env st fs src = Some k \<and>
    pb_encoded k (pb_encode n env fs src) = Some (pb_wire msg) \<and>
    (\<forall>j < k. pb_encoded j (pb_encode n env fs src) = None)"
proof -
  have "pb_encode n env fs src (PB_OSTREAM_SIZING st) =
      (Some (), (PB_OSTREAM_SIZING st)\<lparr>os_bytes_written := length (pb_wire msg)\<rparr>)"
    using buffer_out.emits_sizing [OF buffer_out.emits_message [OF assms], of "PB_OSTREAM_SIZING st"] assms(2)
    by (simp add: PB_OSTREAM_SIZING_def)
  then have "pb_get_encoded_size n env st fs src = Some (length (pb_wire msg))"
    by (simp add: pb_get_encoded_size_def)
  moreover have "pb_encoded j (pb_encode n env fs src) =
      (if length (pb_wire msg) \<le> j then Some (pb_wire msg) else None)" if "j < 2 ^ 63" for j
    using assms that by (intro pb_encoded_emits buffer_out.emits_message)
  then have "pb_encoded (length (pb_wire msg)) (pb_encode n env fs src) = Some (pb_wire msg)"
    and "\<forall>j < length (pb_wire msg). pb_encoded j (pb_encode n env fs src) = None"
    using assms(2) by (simp_all add: not_le)
  ultimately show ?thesis by blast
qed

theorem pb_get_encoded_size_exact_witness:
  "\<exists>k. pb_get_encoded_size (Suc (Suc 0)) example_env ([] :: u8 list, 0 :: nat) example_fields 16 = Some k \<and>
    pb_encoded k (pb_encode (Suc (Suc 0)) example_env example_fields 16) = Some [10, 3, 5, 200, 1, 18, 2, 8, 7]"
  using pb_get_encoded_size_exact [OF example_message, unfolded example_wire, of "([], 0)"] by auto

text \<open>
  The two framed forms: \<open>pb_encode_delimited\<close> puts the length of the message before it, and
  \<open>pb_encode_nullterminated\<close> a zero byte, which is no tag, after it.
\<close>

theorem pb_encode_framed:
  assumes "pb_message n env fs src = Some msg" and "length (pb_wire msg) < 2 ^ 63" and "bufsize < 2 ^ 63"
  shows "pb_encoded bufsize (pb_encode_delimited n env fs src) =
      (let bs = varint_bytes (length (pb_wire msg)) @ pb_wire msg in
       if length bs \<le> bufsize then Some bs else None) \<and>
    pb_encoded bufsize (pb_encode_nullterminated n env fs src) =
      (let bs = pb_wire msg @ [0] in if length bs \<le> bufsize then Some bs else None)"
proof -
  note emits = buffer_out.emits_message [OF assms(1,2)]
  have "pb_buf_emits (pb_encode_delimited n env fs src) (varint_bytes (length (pb_wire msg)) @ pb_wire msg)"
    unfolding pb_encode_delimited_def by (rule buffer_out.emits_submessage [OF emits assms(2)])
  moreover have "pb_buf_emits (pb_encode_nullterminated n env fs src) (pb_wire msg @ [0])"
    unfolding pb_encode_nullterminated_def
    by (intro buffer_out.emits_bind emits buffer_out.emits_write) simp
  ultimately show ?thesis using pb_encoded_emits [OF _ assms(3)] by (simp add: Let_def)
qed

theorem pb_encode_framed_witness:
  "pb_encoded 20 (pb_encode_delimited (Suc (Suc 0)) example_env example_fields 16) =
     Some [9, 10, 3, 5, 200, 1, 18, 2, 8, 7] \<and>
   pb_encoded 20 (pb_encode_nullterminated (Suc (Suc 0)) example_env example_fields 16) =
     Some [10, 3, 5, 200, 1, 18, 2, 8, 7, 0]"
  using pb_encode_framed [OF example_message, unfolded example_wire, of 20]
  by (simp add: Let_def varint_bytes.simps)

end
