(* ===== verification/Pb_Decode_Props.thy ===== *)
theory Pb_Decode_Props
  imports Pb_Decode_Safe Pb_Encode_Refine "HOL-Library.Code_Target_Nat"
begin

text \<open>
  Further properties of the decoder: the check of the required fields, the range checks of
  integers, and three places where the code writes or frees what it should not.
\<close>

section \<open>Required fields\<close>

text \<open>The fields seen, as the set of their indices.\<close>

definition seen_index :: "u32 list \<Rightarrow> nat \<Rightarrow> bool" where
  "seen_index seen k \<longleftrightarrow> bit (seen ! (k div 32)) (k mod 32)"

lemma seen_mark:
  assumes "length seen = 2" and "i < 64" and "k < 64"
  shows "seen_index (mark_required i seen) k \<longleftrightarrow> seen_index seen k \<or> k = i"
proof (cases "k div 32 = i div 32")
  case True
  have "k = i \<longleftrightarrow> k mod 32 = i mod 32" using True by (metis mod_mult_div_eq)
  moreover have "i div 32 < length seen" using assms(1,2) by simp
  moreover have "bit (push_bit (i mod 32) 1 :: u32) (k mod 32) \<longleftrightarrow> k mod 32 = i mod 32"
    by (auto simp: bit_simps)
  ultimately show ?thesis using True by (simp add: seen_index_def mark_required_def bit_or_iff)
next
  case False
  then have "k \<noteq> i" by auto
  then show ?thesis using False by (simp add: seen_index_def mark_required_def)
qed

lemma seen_marks:
  "length seen = 2 \<Longrightarrow> list_all (\<lambda>i. i < 64) is \<Longrightarrow> k < 64 \<Longrightarrow>
     seen_index (fold mark_required is seen) k \<longleftrightarrow> seen_index seen k \<or> k \<in> set is"
proof (induction "is" arbitrary: seen)
  case Nil
  then show ?case by simp
next
  case (Cons i "is")
  have "length (mark_required i seen) = 2" using Cons.prems(1) by (simp add: mark_required_def)
  then show ?case using Cons seen_mark [OF Cons.prems(1), of i k] by auto
qed

lemma word_all_bits: "(w :: u32) = - 1 \<longleftrightarrow> (\<forall>j < 32. bit w j)"
  by (auto simp: bit_eq_iff)

lemma word_low_bits: "m \<le> 32 \<Longrightarrow> (w :: u32) = drop_bit (32 - m) (- 1) \<longleftrightarrow> (\<forall>j < 32. bit w j \<longleftrightarrow> j < m)"
  by (auto simp: bit_eq_iff bit_simps)

lemma all_by_words:
  "(\<forall>k < n. P k) \<longleftrightarrow>
    (\<forall>w < n div 32. \<forall>j < 32. P (32 * w + j)) \<and> (\<forall>j < n mod 32. P (32 * (n div 32) + j))" (is "?l \<longleftrightarrow> ?r")
  for n :: nat
proof
  assume l: ?l
  have "32 * w + j < n" if "w < n div 32" "j < 32" for w j using that by linarith
  moreover have "32 * (n div 32) + j < n" if "j < n mod 32" for j
    using that by (metis div_mult_mod_eq mult.commute nat_add_left_cancel_less)
  ultimately show ?r using l by blast
next
  assume r: ?r
  show ?l
  proof (intro allI impI)
    fix k
    assume k: "k < n"
    have eq: "k = 32 * (k div 32) + k mod 32" by simp
    show "P k"
    proof (cases "k div 32 < n div 32")
      case True
      then show ?thesis using r eq by (metis mod_less_divisor zero_less_numeral)
    next
      case False
      then have "k div 32 = n div 32" using div_le_mono [of k n 32] k by simp
      moreover from this have "k mod 32 < n mod 32" using k by (metis div_mult_mod_eq nat_add_left_cancel_less)
      ultimately show ?thesis using r eq by metis
    qed
  qed
qed

text \<open>
  C24: the check at the end of \<open>pb_decode_noinit\<close>, which compares whole words of the bit map, holds
  exactly when every required field was seen.
\<close>

theorem required_fields_seen_iff:
  assumes "count \<le> PB_MAX_REQUIRED_FIELDS" and "list_all (\<lambda>i. i < count) is"
  shows "required_fields_seen count (fold mark_required is [0, 0]) \<longleftrightarrow> {..<count} \<subseteq> set is"
proof -
  let ?s = "fold mark_required is [0, 0]" and ?q = "count div 32" and ?m = "count mod 32"
  have "list_all (\<lambda>i. i < 64) is" using assms by (auto simp: list_all_iff PB_MAX_REQUIRED_FIELDS_def)
  then have seen: "seen_index ?s k \<longleftrightarrow> k \<in> set is" if "k < 64" for k
    using seen_marks [of "[0, 0]" "is" k] that by (cases "k < 32") (auto simp: seen_index_def)
  have bit: "bit (?s ! w) j \<longleftrightarrow> 32 * w + j \<in> set is" if "w < 2" "j < 32" for w j
    using seen [of "32 * w + j"] that by (simp add: seen_index_def)
  have small: "k < count" if "k \<in> set is" for k using assms(2) that by (auto simp: list_all_iff)
  have "count \<le> 64" using assms(1) by (simp add: PB_MAX_REQUIRED_FIELDS_def)
  then have q: "?q < 2 \<or> ?q = 2 \<and> ?m = 0"
    using less_mult_imp_div_less [of count 2 32] by (cases "count = 64") simp_all
  have whole: "list_all (\<lambda>w. ?s ! w = - 1) [0..<?q] \<longleftrightarrow> (\<forall>w < ?q. \<forall>j < 32. 32 * w + j \<in> set is)"
  proof -
    have "w < 2" if "w < ?q" for w using that q by auto
    then show ?thesis using bit by (simp add: list_all_iff word_all_bits Ball_def)
  qed
  have part: "?s ! ?q = drop_bit (32 - ?m) (- 1) \<longleftrightarrow> (\<forall>j < ?m. 32 * ?q + j \<in> set is)" if "?m \<noteq> 0"
  proof -
    have "?q < 2" using q that by simp
    then have "?s ! ?q = drop_bit (32 - ?m) (- 1) \<longleftrightarrow> (\<forall>j < 32. 32 * ?q + j \<in> set is \<longleftrightarrow> j < ?m)"
      using bit by (subst word_low_bits) simp_all
    also have "\<dots> \<longleftrightarrow> (\<forall>j < ?m. 32 * ?q + j \<in> set is)"
    proof -
      have "j < ?m" if "32 * ?q + j \<in> set is" for j
        using small [OF that] by (metis mult.commute div_mult_mod_eq nat_add_left_cancel_less)
      moreover have "?m < 32" by simp
      ultimately show ?thesis by (meson order.strict_trans)
    qed
    finally show ?thesis .
  qed
  note split = all_by_words [where P = "\<lambda>k. k \<in> set is" and n = count]
  have sub: "{..<count} \<subseteq> set is \<longleftrightarrow> (\<forall>k < count. k \<in> set is)" by auto
  show ?thesis
  proof (cases "?m = 0")
    case True
    then show ?thesis using whole split by (simp add: sub required_fields_seen_def)
  next
    case False
    then show ?thesis using whole split part [OF False] by (simp add: sub required_fields_seen_def)
  qed
qed

theorem required_fields_seen_iff_witness:
  "required_fields_seen 40 (fold mark_required [0..<40] [0, 0]) \<and>
   \<not> required_fields_seen 40 (fold mark_required [0..<39] [0, 0])"
  using required_fields_seen_iff [of 40 "[0..<40]"] required_fields_seen_iff [of 40 "[0..<39]"]
  by (simp add: PB_MAX_REQUIRED_FIELDS_def list_all_iff atLeast0LessThan del: upt_rec_numeral)

section \<open>Examples\<close>

definition decode_env :: "(int \<Rightarrow> pb_field list) \<Rightarrow> 'st pb_denv" where
  "decode_env msgs = \<lparr>de_fields = msgs, de_decode = (\<lambda>_ _ _. op_fail),
     de_decode_value = (\<lambda>_ _ _ _. op_fail), de_ext_decode = (\<lambda>_ _ _ _. op_fail),
     de_malloc = (\<lambda>_ _. 0), de_local = (\<lambda>n. 1000 + 4 * int n)\<rparr>"

definition decode_state :: "u8 list \<Rightarrow> u8 list pb_dstate" where
  "decode_state bs = \<lparr>ds_stream = pb_istream_from_buffer bs (length bs), ds_mem = (\<lambda>_. 0),
     ds_heap = (\<lambda>_. None), ds_bad_ptr = None\<rparr>"

definition oneof_fields :: "pb_field list" where
  "oneof_fields =
     [\<lparr>f_tag = 1, f_type = 0x32, f_data_offset = 8, f_size_offset = - 8, f_data_size = 8,
       f_array_size = 0, f_ptr = 0\<rparr>,
      \<lparr>f_tag = 2, f_type = 0xB7, f_data_offset = PB_SIZE_MAX, f_size_offset = - 8, f_data_size = 8,
       f_array_size = 0, f_ptr = 0\<rparr>]"


lemma example_struct_ok: "struct_ok (decode_env (\<lambda>a. if a = 100 then example_sub else [])) example_fields 10"
proof (rule struct_okI)
  have sub: "struct_ok (decode_env (\<lambda>a. if a = 100 then example_sub else [])) example_sub 1"
    by (rule struct_okI)
      (simp_all add: example_sub_def fields_ok_def member_ok_def entry_ok_def member_size_def
        PB_LTYPE_def PB_ATYPE_def PB_HTYPE_def pb_ltypes pb_atypes pb_htypes)
  show "fields_ok example_fields" by (simp add: example_fields_def fields_ok_def)
  have "i < 2 \<Longrightarrow> i = 0 \<or> i = Suc 0" for i :: nat by auto
  then show "\<forall>i < length example_fields.
      member_ok (example_fields ! i) (member_offset example_fields i) (member_size_offset example_fields i) 10 \<and>
      (PB_LTYPE (f_type (example_fields ! i)) = PB_LTYPE_SUBMESSAGE \<longrightarrow>
       struct_ok (decode_env (\<lambda>a. if a = 100 then example_sub else []))
         (de_fields (decode_env (\<lambda>a. if a = 100 then example_sub else [])) (f_ptr (example_fields ! i)))
         (unat (f_data_size (example_fields ! i))))"
    using sub
    by (auto simp: example_fields_def decode_env_def member_ok_def entry_ok_def member_size_def in_union_def less_Suc_eq
        PB_LTYPE_def PB_ATYPE_def PB_HTYPE_def pb_ltypes pb_atypes pb_htypes)
qed

section \<open>Integers\<close>

lemma mem_bytes_set: "mem_bytes (mem_set a bs m) a (length bs) = bs"
  by (rule nth_equalityI) (simp_all add: mem_bytes_def mem_set_def)

lemma load_mem_set: "load (length bs) (mem_set a bs m) a = le_nat bs"
  by (simp add: load_def mem_bytes_set)

lemma le_nat_le_bytes_mod: "le_nat (le_bytes n v) = v mod 256 ^ n"
  by (simp add: le_nat_def le_bytes_def be_nat_be_bytes)

lemma clamp_unsigned_mod:
  assumes "ds \<in> {1, 2, 4, 8}"
  shows "\<exists>c. clamp_unsigned ds v = Some c \<and> unat c = unat v mod 256 ^ unat ds"
proof -
  have cast: "unat (ucast (ucast v :: u32) :: u64) = unat v mod 2 ^ 32"
    "unat (ucast (ucast v :: u16) :: u64) = unat v mod 2 ^ 16"
    "unat (ucast (ucast v :: u8) :: u64) = unat v mod 2 ^ 8"
    by (simp_all add: unsigned_ucast_eq take_bit_eq_mod unat_mod_distrib)
  have v: "unat v < 2 ^ 64" using unsigned_less [of v, where 'a = nat] by simp
  consider "ds = 1" | "ds = 2" | "ds = 4" | "ds = 8" using assms by auto
  then show ?thesis
    by cases (use cast v in \<open>simp_all add: clamp_unsigned_def\<close>)
qed

text \<open>
  \<open>pb_dec_uvarint\<close> stores the varint modulo the size of the member, and succeeds exactly when
  the number fits.
\<close>

theorem pb_dec_uvarint_fits:
  assumes "f_data_size field \<in> {1, 2, 4, 8}" and "pb_decode_varint (ds_stream s) = (Some v, st)"
  shows "\<exists>s'. pb_dec_uvarint field dest s =
      (if unat v < 256 ^ unat (f_data_size field) then Some () else None, s') \<and>
    load (unat (f_data_size field)) (ds_mem s') dest = unat v mod 256 ^ unat (f_data_size field)"
proof -
  let ?n = "unat (f_data_size field)"
  obtain c where c: "clamp_unsigned (f_data_size field) v = Some c" "unat c = unat v mod 256 ^ ?n"
    using clamp_unsigned_mod [OF assms(1)] by blast
  let ?t = "s\<lparr>ds_stream := st, ds_mem := mem_set dest (le_bytes ?n (unat v)) (ds_mem s)\<rparr>"
  have "c = v \<longleftrightarrow> unat v < 256 ^ ?n"
  proof
    show "c = v \<Longrightarrow> unat v < 256 ^ ?n" using c(2) by (metis mod_less_divisor zero_less_numeral zero_less_power)
    show "unat v < 256 ^ ?n \<Longrightarrow> c = v" using c(2) by (simp add: word_unat_eq_iff)
  qed
  then have run: "pb_dec_uvarint field dest s =
      (if unat v < 256 ^ ?n then op_ret () ?t else dec_error ''integer too large'' ?t)"
    using assms(2) c(1)
    by (simp add: pb_dec_uvarint_def store_clamped_def op_bind_def on_stream_def dec_write_def)
  have "load ?n (ds_mem ?t) dest = unat v mod 256 ^ ?n"
    using load_mem_set [of "le_bytes ?n (unat v)" dest "ds_mem s"] by (simp add: le_nat_le_bytes_mod)
  then show ?thesis
    using run by (auto simp: op_ret_def dec_error_def on_stream_def pb_return_error_def)
qed

theorem pb_dec_uvarint_fits_witness:
  "\<exists>s'. pb_dec_uvarint (hd oneof_fields\<lparr>f_data_size := 1\<rparr>) 50 (decode_state [0xAC, 0x02]) = (None, s') \<and>
     load 1 (ds_mem s') 50 = 44"
proof -
  have "fst (pb_decode_varint (ds_stream (decode_state [0xAC, 0x02]))) = Some 300" by code_simp
  then have "pb_decode_varint (ds_stream (decode_state [0xAC, 0x02])) =
      (Some 300, snd (pb_decode_varint (ds_stream (decode_state [0xAC, 0x02]))))"
    by (simp add: prod_eq_iff)
  from pb_dec_uvarint_fits [of "hd oneof_fields\<lparr>f_data_size := 1\<rparr>", OF _ this, of 50]
  show ?thesis by simp
qed

section \<open>Memory safety\<close>

theorem pb_decode_stays_inside_witness:
  "ds_mem (snd (pb_decode 2 (decode_env (\<lambda>a. if a = 100 then example_sub else [])) example_fields 16
      (decode_state [8, 1, 18, 2, 8, 7]))) 5 = 0"
  using pb_decode_stays_inside
      [of "decode_state [8, 1, 18, 2, 8, 7]" "decode_env (\<lambda>a. if a = 100 then example_sub else [])"
          example_fields 10 2 16 _ _ 5, OF _ example_struct_ok surjective_pairing]
  by (simp add: decode_state_def decode_env_def pb_istream_from_buffer_def buf_read_def)

text \<open>
  \<open>pb_release_union_field\<close> does not reset the pointer member it makes current: after a static
  member of the same union, a pointer member hands to \<open>realloc\<close> an address that the message holds.
\<close>

theorem pb_decode_reallocs_message_bytes:
  "ds_bad_ptr (snd (pb_decode 2 (decode_env (\<lambda>_. [])) oneof_fields 16
      (decode_state [0x08, 0xB4, 0x24, 0x12, 0x00]))) = Some 0x1234"
  by code_simp

definition fixed_count_fields :: "pb_field list" where
  "fixed_count_fields =
     [\<lparr>f_tag = 1, f_type = 0x22, f_data_offset = 0, f_size_offset = 0, f_data_size = 1, f_array_size = 2,
       f_ptr = 0\<rparr>]"

text \<open>
  The default of a fixed-count array writes a four-byte count into the array: two bytes behind
  a member of two bytes are cleared.
\<close>

theorem pb_set_to_default_overwrites:
  "ds_mem (snd (pb_message_set_to_defaults 2 (decode_env (\<lambda>_. [])) fixed_count_fields 16
      (decode_state []\<lparr>ds_mem := (\<lambda>_. 7)\<rparr>))) 19 = 0"
  by code_simp

text \<open>
  In a message type without fields the terminator of the field list is taken for a field: a
  tag 0 in the input writes to the structure.
\<close>

theorem pb_decode_empty_writes:
  "ds_mem (snd (pb_decode 2 (decode_env (\<lambda>_. [])) [] 16 (decode_state [2, 1]))) 16 = 1"
  by code_simp

end
