(* ===== verification/Sha2_Constants.thy ===== *)
theory Sha2_Constants
  imports Sha2 Complex_Main
begin

text \<open>
  The tables and initial values of \<open>sha256.c\<close> and \<open>sha512.c\<close> are the ones that FIPS 180-4 derives from the
  first primes.
\<close>

section \<open>The constants\<close>

text \<open>The primes below 412: no number below 441 is composite without a divisor of at most 20.\<close>

definition primes :: "int list" where
  "primes = filter (\<lambda>p. list_all (\<lambda>d. p \<le> d \<or> p mod d \<noteq> 0) [2 .. 20]) [2 .. 411]"

text \<open>The first bits of the fractional part of a root.\<close>

definition frac_root :: "nat \<Rightarrow> nat \<Rightarrow> int \<Rightarrow> int" where
  "frac_root w e p = \<lfloor>2 ^ w * frac (root e (real_of_int p))\<rfloor>"

lemma frac_root_eq:
  assumes e: "0 < e" and N: "0 \<le> N" "N ^ e \<le> p * 2 ^ (w * e)" "p * 2 ^ (w * e) < (N + 1) ^ e"
  shows "frac_root w e p = N mod 2 ^ w"
proof -
  have p: "0 \<le> p"
  proof (rule ccontr)
    assume "\<not> 0 \<le> p"
    then have "p * 2 ^ (w * e) < 0" by (simp add: mult_neg_pos)
    then show False using N zero_le_power [OF N(1), of e] by linarith
  qed
  define x where "x = root e (real_of_int p)"
  have x: "0 \<le> x" "x ^ e = real_of_int p" using e p by (simp_all add: x_def)
  define y where "y = 2 ^ w * x"
  have y: "0 \<le> y" "y ^ e = real_of_int (p * 2 ^ (w * e))"
    using x by (simp_all add: y_def power_mult_distrib power_mult [symmetric] mult.commute)
  have "real_of_int N ^ e \<le> y ^ e" "y ^ e < (real_of_int N + 1) ^ e"
    using N(2,3) unfolding y(2)
    by (metis of_int_le_iff of_int_power, metis of_int_less_iff of_int_power of_int_add of_int_1)
  then have ge: "real_of_int N \<le> y" and less: "y < real_of_int N + 1"
    using y(1) N(1) power_mono_iff [of "real_of_int N" y e] power_less_imp_less_base [of y e "real_of_int N + 1"] e by simp_all
  then have "\<lfloor>y\<rfloor> = N" by (simp add: floor_unique)
  moreover have "2 ^ w * frac x = y - real_of_int (2 ^ w * \<lfloor>x\<rfloor>)" by (simp add: frac_def y_def algebra_simps)
  ultimately have "frac_root w e p = N - 2 ^ w * \<lfloor>x\<rfloor>"
    unfolding frac_root_def x_def [symmetric] by (simp only: floor_diff_of_int)
  moreover have "\<lfloor>x\<rfloor> = N div 2 ^ w"
  proof -
    have "real_of_int (N div 2 ^ w) \<le> x" 
    proof -
      have "N div 2 ^ w * 2 ^ w \<le> N"
      proof -
        have "0 \<le> N mod 2 ^ w" by simp
        then show ?thesis using div_mult_mod_eq [of N "2 ^ w"] by linarith
      qed
      then have "real_of_int (N div 2 ^ w * 2 ^ w) \<le> real_of_int N" by (simp only: of_int_le_iff)
      then have "real_of_int (N div 2 ^ w) * 2 ^ w \<le> real_of_int N" by simp
      then have "real_of_int (N div 2 ^ w) * 2 ^ w \<le> x * 2 ^ w" using ge unfolding y_def mult.commute [of x] by (rule order_trans)
      then show ?thesis by (rule mult_right_le_imp_le) simp
    qed
    moreover have "x < real_of_int (N div 2 ^ w) + 1"
    proof -
      have "N + 1 \<le> (N div 2 ^ w + 1) * 2 ^ w"
      proof -
        have "N mod 2 ^ w < 2 ^ w" by simp
        then show ?thesis using div_mult_mod_eq [of N "2 ^ w"] unfolding distrib_right by linarith
      qed
      then have "real_of_int (N + 1) \<le> real_of_int ((N div 2 ^ w + 1) * 2 ^ w)" by (simp only: of_int_le_iff)
      then have "real_of_int N + 1 \<le> (real_of_int (N div 2 ^ w) + 1) * 2 ^ w" by simp
      then have "x * 2 ^ w < (real_of_int (N div 2 ^ w) + 1) * 2 ^ w" using less unfolding y_def mult.commute [of x] by linarith
      then show ?thesis by (rule mult_right_less_imp_less) simp
    qed
    ultimately show ?thesis by (simp add: floor_unique)
  qed
  ultimately show ?thesis by (simp add: minus_mult_div_eq_mod)
qed

text \<open>A test that computes, given the integral parts \<open>ns\<close> of the roots.\<close>

fun are_frac_roots :: "nat \<Rightarrow> nat \<Rightarrow> int list \<Rightarrow> int list \<Rightarrow> int list \<Rightarrow> bool" where
  "are_frac_roots w e (p # ps) (n # ns) (k # ks) \<longleftrightarrow> 0 \<le> n \<and> 0 \<le> k \<and> k < 2 ^ w \<and>
     (n * 2 ^ w + k) ^ e \<le> p * 2 ^ (w * e) \<and> p * 2 ^ (w * e) < (n * 2 ^ w + (k + 1)) ^ e \<and> are_frac_roots w e ps ns ks"
| "are_frac_roots w e [] [] [] \<longleftrightarrow> True"
| "are_frac_roots w e ps ns ks \<longleftrightarrow> False"

lemma frac_roots: "are_frac_roots w e ps ns ks \<Longrightarrow> 0 < e \<Longrightarrow> ks = map (frac_root w e) ps"
proof (induction w e ps ns ks rule: are_frac_roots.induct)
  case (1 w e p ps n ns k ks)
  then have "frac_root w e p = (n * 2 ^ w + k) mod 2 ^ w"
    by (intro frac_root_eq) (simp_all add: add.assoc)
  then show ?case using 1 by simp
qed simp_all

lemma primes: "primes = [2, 3, 5, 7, 11, 13, 17, 19, 23, 29, 31, 37, 41, 43, 47, 53, 59, 61, 67, 71, 73, 79, 83, 89, 97,
    101, 103, 107, 109, 113, 127, 131, 137, 139, 149, 151, 157, 163, 167, 173, 179, 181, 191, 193, 197, 199, 211, 223,
    227, 229, 233, 239, 241, 251, 257, 263, 269, 271, 277, 281, 283, 293, 307, 311, 313, 317, 331, 337, 347, 349, 353,
    359, 367, 373, 379, 383, 389, 397, 401, 409]"
  by code_simp

text \<open>
  C37: the tables and initial values in the code are those the standard derives: the first 32 or 64 bits
  of the fractional parts of the cube roots of the first 64 or 80 primes, and of the square roots of
  the first eight primes (SHA-256, SHA-512) and the next eight (SHA-384, whose lower halves are
  the values of SHA-224).
\<close>
theorem SHA2_constants:
  "map uint K256 = map (frac_root 32 3) (take 64 primes) \<and>
   map uint K512 = map (frac_root 64 3) (take 80 primes) \<and>
   map uint (hc_h SHA256_Init) = map (frac_root 32 2) (take 8 primes) \<and>
   map uint (hc_h (SHA512_Init c)) = map (frac_root 64 2) (take 8 primes) \<and>
   map uint (hc_h (SHA384_Init c)) = map (frac_root 64 2) (take 8 (drop 8 primes)) \<and>
   map uint (hc_h SHA224_Init) = map (\<lambda>p. frac_root 64 2 p mod 2 ^ 32) (take 8 (drop 8 primes))"
proof -
  have 384: "map uint (hc_h (SHA384_Init c)) = map (frac_root 64 2) (take 8 (drop 8 primes))"
    by (rule frac_roots [where ns = "[4, 5, 5, 6, 6, 6, 6, 7]"]) (simp_all add: SHA384_Init_def primes)
  moreover have "map uint (hc_h SHA224_Init) = map (\<lambda>k. k mod 2 ^ 32) (map uint (hc_h (SHA384_Init c)))"
    by (simp add: SHA224_Init_def SHA384_Init_def)
  then have "map uint (hc_h SHA224_Init) = map (\<lambda>p. frac_root 64 2 p mod 2 ^ 32) (take 8 (drop 8 primes))"
    by (simp add: 384 comp_def)
  moreover have "map uint (hc_h SHA256_Init) = map (frac_root 32 2) (take 8 primes)"
    by (rule frac_roots [where ns = "[1, 1, 2, 2, 3, 3, 4, 4]"]) (simp_all add: SHA256_Init_def primes)
  moreover have "map uint (hc_h (SHA512_Init c)) = map (frac_root 64 2) (take 8 primes)"
    by (rule frac_roots [where ns = "[1, 1, 2, 2, 3, 3, 4, 4]"]) (simp_all add: SHA512_Init_def primes)
  moreover have "map uint K256 = map (frac_root 32 3) (take 64 primes)"
    by (rule frac_roots [where ns = "[1, 1, 1, 1, 2, 2, 2, 2, 2, 3, 3, 3, 3, 3, 3, 3, 3, 3, 4, 4, 4, 4, 4, 4, 4, 4, 4, 4, 4, 4, 5, 5, 5, 5, 5, 5, 5, 5, 5, 5, 5, 5, 5, 5, 5, 5, 5, 6, 6, 6, 6, 6, 6, 6, 6, 6, 6, 6, 6, 6, 6, 6, 6, 6]"]) (simp_all add: K256_def primes)
  moreover have "map uint K512 = map (frac_root 64 3) (take 80 primes)"
    by (rule frac_roots [where ns = "[1, 1, 1, 1, 2, 2, 2, 2, 2, 3, 3, 3, 3, 3, 3, 3, 3, 3, 4, 4, 4, 4, 4, 4, 4, 4, 4, 4, 4, 4, 5, 5, 5, 5, 5, 5, 5, 5, 5, 5, 5, 5, 5, 5, 5, 5, 5, 6, 6, 6, 6, 6, 6, 6, 6, 6, 6, 6, 6, 6, 6, 6, 6, 6, 6, 6, 6, 6, 7, 7, 7, 7, 7, 7, 7, 7, 7, 7, 7, 7]"]) (simp_all add: K512_def primes)
  ultimately show ?thesis by blast
qed

end
