(* ===== verification/Time_Support.thy ===== *)
theory Time_Support
  imports Prelude "HOL-Library.Monad_Syntax" "HOL-Library.Signed_Division"
begin

text \<open>
  \<open>crypto/asn1/time_support.c\<close>: calendar arithmetic on broken-down times.  The reference is a clock:
  \<open>tick\<close> is the time one second later in the Gregorian calendar.  A result \<open>None\<close> is an overflow
  of the type \<open>int\<close>; the computations in \<open>long\<close> stay far below its bounds.
\<close>

section \<open>The code\<close>

record tm =
  tm_sec :: int
  tm_min :: int
  tm_hour :: int
  tm_mday :: int
  tm_mon :: int
  tm_year :: int

definition SECS_PER_DAY :: int where
  "SECS_PER_DAY = 24 * 60 * 60"

text \<open>A result of \<open>int\<close> arithmetic, and a conversion to \<open>int\<close>.\<close>

definition int32 :: "int \<Rightarrow> int option" where
  "int32 x = (if - (2 ^ 31) \<le> x \<and> x < 2 ^ 31 then Some x else None)"

definition to_int32 :: "int \<Rightarrow> int" where
  "to_int32 x = sint (of_int x :: u32)"

definition date_to_julian :: "int \<Rightarrow> int \<Rightarrow> int \<Rightarrow> int option" where
  "date_to_julian y m d = do {
     c \<leftarrow> int32 (m - 14);
     let c = c sdiv 12;
     y1 \<leftarrow> int32 (y + 4800);
     y1 \<leftarrow> int32 (y1 + c);
     days \<leftarrow> int32 (1461 * y1);
     m1 \<leftarrow> int32 (m - 2);
     m1 \<leftarrow> int32 (m1 - 12 * c);
     months \<leftarrow> int32 (367 * m1);
     y2 \<leftarrow> int32 (y + 4900);
     y2 \<leftarrow> int32 (y2 + c);
     centuries \<leftarrow> int32 (3 * (y2 sdiv 100));
     s \<leftarrow> int32 (days sdiv 4 + months sdiv 12);
     s \<leftarrow> int32 (s - centuries sdiv 4);
     s \<leftarrow> int32 (s + d);
     int32 (s - 32075) }"

definition julian_to_date :: "int \<Rightarrow> int \<times> int \<times> int" where
  "julian_to_date jd =
     (let L = jd + 68569;
          n = (4 * L) sdiv 146097;
          L = L - (146097 * n + 3) sdiv 4;
          i = (4000 * (L + 1)) sdiv 1461001;
          L = L - (1461 * i) sdiv 4 + 31;
          j = (80 * L) sdiv 2447;
          d = L - (2447 * j) sdiv 80;
          L = j sdiv 11;
          m = j + 2 - 12 * L;
          y = 100 * (n - 49) + i + L
      in (to_int32 y, to_int32 m, to_int32 d))"

text \<open>The inner result is \<open>None\<close> for a return of 0.\<close>

definition julian_adj :: "tm \<Rightarrow> int \<Rightarrow> int \<Rightarrow> (int \<times> int) option option" where
  "julian_adj tm off_day offset_sec = do {
     let offset_day = to_int32 (offset_sec sdiv SECS_PER_DAY);
     whole_days \<leftarrow> int32 (offset_day * SECS_PER_DAY);
     let offset_hms = to_int32 (offset_sec - whole_days);
     offset_day \<leftarrow> int32 (offset_day + off_day);
     h \<leftarrow> int32 (tm_hour tm * 3600);
     m \<leftarrow> int32 (tm_min tm * 60);
     s \<leftarrow> int32 (h + m);
     s \<leftarrow> int32 (s + tm_sec tm);
     offset_hms \<leftarrow> int32 (offset_hms + s);
     (offset_day, offset_hms) \<leftarrow>
       (if offset_hms \<ge> SECS_PER_DAY then do { d \<leftarrow> int32 (offset_day + 1); Some (d, offset_hms - SECS_PER_DAY) }
        else if offset_hms < 0 then do { d \<leftarrow> int32 (offset_day - 1); Some (d, offset_hms + SECS_PER_DAY) }
        else Some (offset_day, offset_hms));
     time_year \<leftarrow> int32 (tm_year tm + 1900);
     time_month \<leftarrow> int32 (tm_mon tm + 1);
     time_jd \<leftarrow> date_to_julian time_year time_month (tm_mday tm);
     let time_jd = time_jd + offset_day;
     Some (if time_jd < 0 then None else Some (time_jd, offset_hms)) }"

definition OPENSSL_gmtime_adj :: "tm \<Rightarrow> int \<Rightarrow> int \<Rightarrow> (bool \<times> tm) option" where
  "OPENSSL_gmtime_adj tm off_day offset_sec = do {
     r \<leftarrow> julian_adj tm off_day offset_sec;
     case r of
       None \<Rightarrow> Some (False, tm)
     | Some (time_jd, time_sec) \<Rightarrow>
         let (time_year, time_month, time_day) = julian_to_date time_jd in
         if time_year < 1900 \<or> time_year > 9999 then Some (False, tm)
         else Some (True, \<lparr>tm_sec = time_sec smod 60, tm_min = (time_sec sdiv 60) smod 60,
                tm_hour = time_sec sdiv 3600, tm_mday = time_day, tm_mon = time_month - 1,
                tm_year = time_year - 1900\<rparr>) }"

definition OPENSSL_gmtime_diff :: "tm \<Rightarrow> tm \<Rightarrow> (int \<times> int) option option" where
  "OPENSSL_gmtime_diff from to = do {
     r1 \<leftarrow> julian_adj from 0 0;
     case r1 of
       None \<Rightarrow> Some None
     | Some (from_jd, from_sec) \<Rightarrow> do {
         r2 \<leftarrow> julian_adj to 0 0;
         case r2 of
           None \<Rightarrow> Some None
         | Some (to_jd, to_sec) \<Rightarrow>
             let diff_day = to_jd - from_jd;
                 diff_sec = to_sec - from_sec;
                 (diff_day, diff_sec) =
                   (if diff_day > 0 \<and> diff_sec < 0 then (diff_day - 1, diff_sec + SECS_PER_DAY)
                    else (diff_day, diff_sec));
                 (diff_day, diff_sec) =
                   (if diff_day < 0 \<and> diff_sec > 0 then (diff_day + 1, diff_sec - SECS_PER_DAY)
                    else (diff_day, diff_sec))
             in Some (Some (to_int32 diff_day, diff_sec)) } }"

section \<open>The calendar\<close>

definition leap :: "int \<Rightarrow> bool" where
  "leap y \<longleftrightarrow> y mod 4 = 0 \<and> (y mod 100 \<noteq> 0 \<or> y mod 400 = 0)"

definition month_days :: "int \<Rightarrow> int \<Rightarrow> int" where
  "month_days y m =
     (if m = 2 then (if leap y then 29 else 28) else if m \<in> {4, 6, 9, 11} then 30 else 31)"

type_synonym date = "int \<times> int \<times> int"

text \<open>Year 0 is the year before year 1; the day numbers begin in the year - 4712.\<close>

fun valid_date :: "date \<Rightarrow> bool" where
  "valid_date (y, m, d) \<longleftrightarrow> - 4799 \<le> y \<and> 1 \<le> m \<and> m \<le> 12 \<and> 1 \<le> d \<and> d \<le> month_days y m"

fun next_date :: "date \<Rightarrow> date" where
  "next_date (y, m, d) =
     (if d < month_days y m then (y, m, d + 1)
      else if m < 12 then (y, m + 1, 1) else (y + 1, 1, 1))"

definition date_of :: "tm \<Rightarrow> date" where
  "date_of tm = (tm_year tm + 1900, tm_mon tm + 1, tm_mday tm)"

definition set_date :: "date \<Rightarrow> tm \<Rightarrow> tm" where
  "set_date dt tm = (case dt of (y, m, d) \<Rightarrow> tm\<lparr>tm_mday := d, tm_mon := m - 1, tm_year := y - 1900\<rparr>)"

definition valid_tm :: "tm \<Rightarrow> bool" where
  "valid_tm tm \<longleftrightarrow> valid_date (date_of tm) \<and> 0 \<le> tm_hour tm \<and> tm_hour tm < 24 \<and>
     0 \<le> tm_min tm \<and> tm_min tm < 60 \<and> 0 \<le> tm_sec tm \<and> tm_sec tm < 60"

text \<open>One second later.\<close>

definition tick :: "tm \<Rightarrow> tm" where
  "tick tm =
     (if tm_sec tm < 59 then tm\<lparr>tm_sec := tm_sec tm + 1\<rparr>
      else if tm_min tm < 59 then tm\<lparr>tm_sec := 0, tm_min := tm_min tm + 1\<rparr>
      else if tm_hour tm < 23 then tm\<lparr>tm_sec := 0, tm_min := 0, tm_hour := tm_hour tm + 1\<rparr>
      else set_date (next_date (date_of tm)) (tm\<lparr>tm_sec := 0, tm_min := 0, tm_hour := 0\<rparr>))"

section \<open>Day numbers\<close>

text \<open>
  The day number in terms of years that begin on the first of March, 4900 years earlier:
  \<open>march_year\<close> is this year and \<open>day_in_year\<close> counts from 0.
\<close>

definition march_year :: "date \<Rightarrow> int" where
  "march_year dt = (case dt of (y, m, d) \<Rightarrow> y + 4900 + (if m \<le> 2 then - 1 else 0))"

definition month_start :: "int \<Rightarrow> int" where
  "month_start m = (367 * (if m \<le> 2 then m + 10 else m - 2)) div 12 - 30"

definition day_in_year :: "date \<Rightarrow> int" where
  "day_in_year dt = (case dt of (y, m, d) \<Rightarrow> month_start m + d - 1)"

definition years_before :: "int \<Rightarrow> int" where
  "years_before k = (1461 * k) div 4 - (3 * (k div 100)) div 4"

definition day_number :: "date \<Rightarrow> int" where
  "day_number dt = years_before (march_year dt) + day_in_year dt"

lemma month_cases:
  assumes "1 \<le> (m :: int)" and "m \<le> 12"
  shows "m = 1 \<or> m = 2 \<or> m = 3 \<or> m = 4 \<or> m = 5 \<or> m = 6 \<or> m = 7 \<or> m = 8 \<or> m = 9 \<or> m = 10 \<or> m = 11 \<or> m = 12"
  using assms by arith

lemma month_start_eval:
  "month_start 1 = 306" "month_start 2 = 337" "month_start 3 = 0" "month_start 4 = 31"
  "month_start 5 = 61" "month_start 6 = 92" "month_start 7 = 122" "month_start 8 = 153"
  "month_start 9 = 184" "month_start 10 = 214" "month_start 11 = 245" "month_start 12 = 275"
  by (simp_all add: month_start_def)

lemma year_days: "(1461 * k) div 4 = 365 * k + k div (4 :: int)"
proof -
  have "1461 * k = k + (365 * k) * 4" by simp
  then show ?thesis by (metis div_mult_self1 add.commute zero_neq_numeral)
qed

lemma next_quarter: "(k + 1) div 4 - k div (4 :: int) = (if (k + 1) mod 4 = 0 then 1 else 0)"
  by presburger

lemma year_term: "(1461 * (k + 1)) div 4 - (1461 * k) div (4 :: int) = (if (k + 1) mod 4 = 0 then 366 else 365)"
  unfolding year_days using next_quarter [of k] by (simp split: if_splits)

lemma three_quarters: "(3 * (c + 1)) div 4 - (3 * c) div (4 :: int) = (if c mod 4 = 0 then 0 else 1)"
  by presburger

lemma century_term:
  "(3 * ((k + 1) div 100)) div 4 - (3 * (k div 100)) div (4 :: int) =
    (if (k + 1) mod 100 = 0 \<and> (k + 1) mod 400 \<noteq> 100 then 1 else 0)"
proof (cases "(k + 1) mod 100 = 0")
  case True
  then obtain e where e: "k + 1 = 100 * e" by blast
  have c: "k div 100 = e - 1" by (rule int_div_pos_eq [where r = 99]) (use e in simp_all)
  have "(k + 1) mod 400 = 100 * (e mod 4)" using mod_mult_mult1 [of 100 e 4] by (simp add: e)
  moreover have "(e - 1) mod 4 = 0 \<longleftrightarrow> e mod 4 = 1" by presburger
  ultimately show ?thesis using three_quarters [of "e - 1"] True by (simp add: c e)
next
  case False
  define r where "r = k mod 100"
  have r: "k = 100 * (k div 100) + r" "0 \<le> r" "r < 100" by (simp_all add: r_def)
  have "r \<noteq> 99"
  proof
    assume "r = 99"
    then have "k + 1 = 100 * (k div 100 + 1)" using r(1) by simp
    then show False using False by (metis mod_mult_self1_is_0)
  qed
  then have "(k + 1) div 100 = k div 100"
    using r by (intro int_div_pos_eq [where r = "r + 1"]) simp_all
  then show ?thesis using False by simp
qed

lemma leap_march: "leap y \<longleftrightarrow> (y + 4900) mod 4 = 0 \<and> \<not> ((y + 4900) mod 100 = 0 \<and> (y + 4900) mod 400 \<noteq> 100)"
proof -
  have "(y + 4900) mod 4 = y mod 4" "(y + 4900) mod 100 = y mod 100"
    using mod_mult_self1 [of y 1225 4] mod_mult_self1 [of y 49 100] by simp_all
  moreover have "(y + 4900) mod 400 = 100 \<longleftrightarrow> y mod 400 = 0"
    using mod_mult_self1 [of "y + 100" 12 400] mod_eq_dvd_iff [of "y + 100" 400 100]
    by (simp add: mod_eq_0_iff_dvd add.commute)
  ultimately show ?thesis unfolding leap_def by simp
qed

lemma years_before_next: "years_before (k + 1) = years_before k + (if leap (k - 4899) then 366 else 365)"
proof -
  have diff: "a - c = b - d + (p - q)" if "a - b = p" "c - d = q" for a b c d p q :: int
    using that by simp
  have l: "leap (k - 4899) \<longleftrightarrow> (k + 1) mod 4 = 0 \<and> \<not> ((k + 1) mod 100 = 0 \<and> (k + 1) mod 400 \<noteq> 100)"
    using leap_march [of "k - 4899"] by (simp add: algebra_simps)
  have "(k + 1) mod 100 = 0 \<Longrightarrow> (k + 1) mod 4 = 0" by presburger
  then show ?thesis unfolding years_before_def l
    by (subst diff [OF year_term [of k] century_term [of k]]) auto
qed

lemma day_number_next: "valid_date dt \<Longrightarrow> day_number (next_date dt) = day_number dt + 1"
proof (cases dt)
  case (fields y m d)
  assume "valid_date dt"
  with fields have v: "1 \<le> m" "m \<le> 12" "1 \<le> d" "d \<le> month_days y m" by simp_all
  show ?thesis
  proof (cases "d < month_days y m")
    case True
    then show ?thesis by (simp add: fields day_number_def march_year_def day_in_year_def)
  next
    case False
    with v have d: "d = month_days y m" by simp
    have "years_before (y + 4900) = years_before (y + 4899) + (if leap y then 366 else 365)"
      using years_before_next [of "y + 4899"] by (simp add: algebra_simps)
    with month_cases [OF v(1,2)] show ?thesis
      by (elim disjE) (simp_all add: fields d day_number_def march_year_def day_in_year_def month_start_eval month_days_def add.commute)
  qed
qed

lemma valid_next_date: "valid_date dt \<Longrightarrow> valid_date (next_date dt)"
  by (cases dt) (auto simp: month_days_def)

section \<open>The day number and back\<close>

lemma month_start_bounds: "1 \<le> m \<Longrightarrow> m \<le> 12 \<Longrightarrow> 0 \<le> month_start m \<and> month_start m \<le> 337"
  by (drule month_cases, assumption) (elim disjE; simp add: month_start_eval)

text \<open>The month and the day from the day of the year.\<close>

lemma month_and_day:
  assumes "1 \<le> m" and "m \<le> 12" and "1 \<le> d" and "d \<le> 31" and "m = 2 \<longrightarrow> d \<le> 29" and "m \<in> {4, 6, 9, 11} \<longrightarrow> d \<le> 30"
  defines "L \<equiv> month_start m + d + 30"
  shows "(80 * L) div 2447 = (if m \<le> 2 then m + 10 else m - 2)"
    and "(2447 * (if m \<le> 2 then m + 10 else m - 2)) div 80 = month_start m + 30"
proof -
  have "(80 * L) div 2447 = (if m \<le> 2 then m + 10 else m - 2) \<and>
      (2447 * (if m \<le> 2 then m + 10 else m - 2)) div 80 = month_start m + 30"
    using month_cases [OF assms(1,2)] assms(3-6) unfolding L_def
    by (elim disjE) (simp_all add: month_start_eval int_div_pos_eq)
  then show "(80 * L) div 2447 = (if m \<le> 2 then m + 10 else m - 2)"
    and "(2447 * (if m \<le> 2 then m + 10 else m - 2)) div 80 = month_start m + 30" by simp_all
qed

lemma nonneg_sdiv: "0 \<le> x \<Longrightarrow> 0 < k \<Longrightarrow> x sdiv k = x div (k :: int)"
  by (cases "x = 0") (simp_all add: signed_divide_int_def)

lemma nonneg_smod: "0 \<le> x \<Longrightarrow> 0 < k \<Longrightarrow> x smod k = x mod (k :: int)"
  by (cases "x = 0") (simp_all add: signed_modulo_int_def)

lemma to_int32_id: "- (2 ^ 31) \<le> x \<Longrightarrow> x < 2 ^ 31 \<Longrightarrow> to_int32 x = x"
  by (simp add: to_int32_def sint_sbintrunc' signed_take_bit_int_eq_self)

lemma day_in_year_bounds:
  assumes "valid_date (y, m, d)"
  shows "0 \<le> day_in_year (y, m, d)" and "day_in_year (y, m, d) \<le> 365"
    and "day_in_year (y, m, d) = 365 \<Longrightarrow> m = 2 \<and> leap y"
proof -
  have "1 \<le> m" "m \<le> 12" using assms by simp_all
  from month_cases [OF this] assms
  have "0 \<le> day_in_year (y, m, d) \<and> day_in_year (y, m, d) \<le> 365 \<and> (day_in_year (y, m, d) = 365 \<longrightarrow> m = 2 \<and> leap y)"
    by (elim disjE) (auto simp: day_in_year_def month_start_eval month_days_def split: if_splits)
  then show "0 \<le> day_in_year (y, m, d)" and "day_in_year (y, m, d) \<le> 365"
    and "day_in_year (y, m, d) = 365 \<Longrightarrow> m = 2 \<and> leap y" by auto
qed

text \<open>The century, the year in the century and the day of the year.\<close>

lemma century_split:
  fixes n i t :: int
  assumes "0 \<le> n" and "0 \<le> i" and "i < 100" and "0 \<le> t" and "t \<le> 365" and "t = 365 \<longrightarrow> i mod 4 = 3 \<and> (i = 99 \<longrightarrow> n mod 4 = 0)"
  defines "u \<equiv> (1461 * i) div 4 + t"
  defines "N \<equiv> years_before (100 * n + i) + t"
  shows "N = (146097 * n + 3) div 4 + u" and "(4 * N) div 146097 = n" and "(4000 * (u + 1)) div 1461001 = i"
    and "0 \<le> u" and "0 \<le> N"
proof -
  define q where "q = i div 4"
  define r where "r = i mod 4"
  have i: "i = 4 * q + r" "0 \<le> r" "r < 4" "0 \<le> q" using assms(2) by (simp_all add: q_def r_def)
  have u: "u = 365 * i + q + t" by (simp add: u_def year_days q_def)
  define c where "c = (146097 * n + 3) div 4"
  have c: "4 * c \<le> 146097 * n + 3" "146097 * n \<le> 4 * c" unfolding c_def by linarith+
  have c4: "4 * c = 146097 * n" if "n mod 4 = 0"
  proof -
    from that obtain k where "n = 4 * k" by blast
    then show ?thesis by (simp add: c_def)
  qed
  define e where "e = (n + 3) div 4"
  have A: "(100 * n + i) div 100 = n" using assms(2,3) by (intro int_div_pos_eq [where r = i]) simp_all
  have B: "(100 * n + i) div 4 = 25 * n + q" using i by (intro int_div_pos_eq [where r = r]) simp_all
  have C: "(3 * n) div 4 = n - e" unfolding e_def by presburger
  have D: "(146097 * n + 3) div 4 = 36524 * n + e"
    using div_mult_self1 [of 4 "n + 3" "36524 * n"] by (simp add: e_def)
  have "N = 365 * (100 * n + i) + (25 * n + q) - (n - e) + t"
    unfolding N_def years_before_def year_days A B C ..
  then show N: "N = (146097 * n + 3) div 4 + u" unfolding D u by simp
  have top: "u = 36524 \<Longrightarrow> i = 99 \<and> t = 365" and le: "u \<le> 36524" using i assms(3,5) by (simp_all add: u)
  have "146097 * n \<le> 4 * N" using c N i assms(4) by (simp add: u c_def [symmetric])
  moreover have "4 * N < 146097 * (n + 1)"
  proof (cases "u = 36524")
    case True
    then show ?thesis using top c4 assms(6) N by (simp add: c_def [symmetric])
  next
    case False
    then show ?thesis using le c N by (simp add: c_def [symmetric])
  qed
  ultimately show "(4 * N) div 146097 = n"
    by (intro int_div_pos_eq [where r = "4 * N - 146097 * n"]) simp_all
  have "1461001 * i \<le> 4000 * (u + 1)" using i assms(3,4) by (simp add: u)
  moreover have "4000 * (u + 1) < 1461001 * (i + 1)" using i assms(3,5,6) by (auto simp: u r_def [symmetric])
  ultimately show "(4000 * (u + 1)) div 1461001 = i"
    by (intro int_div_pos_eq [where r = "4000 * (u + 1) - 1461001 * i"]) simp_all
  show "0 \<le> u" using i assms(4) by (simp add: u)
  then show "0 \<le> N" using N c assms(1) by (simp add: c_def [symmetric])
qed

lemma int32_ok: "- (2 ^ 31) \<le> x \<Longrightarrow> x < 2 ^ 31 \<Longrightarrow> int32 x = Some x"
  by (simp add: int32_def)

lemma march_year_bounds:
  assumes "valid_date (y, m, d)"
  shows "y + 4899 \<le> march_year (y, m, d)" and "march_year (y, m, d) \<le> y + 4900"
  by (simp_all add: march_year_def)

text \<open>The number that the code uses.\<close>

definition julian :: "date \<Rightarrow> int" where
  "julian dt = day_number dt - 68569"

lemma date_to_julian_valid:
  assumes "valid_date (y, m, d)" and "y \<le> 1000000"
  shows "date_to_julian y m d = Some (julian (y, m, d))"
proof -
  define c :: int where "c = (if m \<le> 2 then - 1 else 0)"
  have m: "1 \<le> m" "m \<le> 12" and d: "1 \<le> d" "d \<le> 31" and y: "- 4799 \<le> y"
    using assms(1) by (auto simp: month_days_def split: if_splits)
  have c: "(m - 14) sdiv 12 = c"
    using month_cases [OF m] by (elim disjE) (simp_all add: c_def signed_divide_int_def)
  have cb: "- 1 \<le> c" "c \<le> 0" by (simp_all add: c_def)
  have m1: "1 \<le> m - 2 - 12 * c" "m - 2 - 12 * c \<le> 12" using m by (auto simp: c_def)
  have z: "march_year (y, m, d) = y + 4900 + c" by (simp add: march_year_def c_def)
  define cent where "cent = (y + 4900 + c) div 100"
  have cent: "0 \<le> cent" "cent \<le> 11000" using y assms(2) cb by (simp_all add: cent_def)
  define q where "q = (3 * cent) div 4"
  have q: "0 \<le> q" "q \<le> 8250" using cent by (simp_all add: q_def)
  define p where "p = (367 * (m - 2 - 12 * c)) div 12"
  have p: "0 \<le> p" "p \<le> 367" using m1 by (simp_all add: p_def)
  define a where "a = (1461 * (y + 4800 + c)) div 4"
  have a: "0 \<le> a" "a \<le> 400000000" using y assms(2) cb by (simp_all add: a_def)
  have base: "0 \<le> 1461 * y + 7012800 + 1461 * c" using y cb by linarith
  then have sd: "(1461 * y + 7012800 + 1461 * c) sdiv 4 = a" by (simp add: nonneg_sdiv a_def)
  have "date_to_julian y m d = Some (a + p - q + d - 32075)"
    using m d y base assms(2) cb m1 cent q p a
    by (simp add: date_to_julian_def sd int32_ok c nonneg_sdiv cent_def [symmetric] q_def [symmetric]
        p_def [symmetric, simplified] a_def [symmetric, simplified])
  moreover have "years_before (y + 4900 + c) = a + 36525 - q"
    using div_mult_self1 [of 4 "1461 * (y + 4800 + c)" 36525]
    by (simp add: years_before_def a_def q_def cent_def algebra_simps)
  moreover have "month_start m = p - 30" by (simp add: month_start_def p_def c_def algebra_simps)
  ultimately show ?thesis by (simp add: julian_def day_number_def day_in_year_def z)
qed

text \<open>The year and the day of the year as functions of the number.\<close>

lemma date_parts:
  fixes N :: int
  assumes v: "valid_date (y, m, d)"
  defines "N \<equiv> day_number (y, m, d)"
  defines "n \<equiv> (4 * N) div 146097"
  defines "u \<equiv> N - (146097 * n + 3) div 4"
  defines "i \<equiv> (4000 * (u + 1)) div 1461001"
  shows "march_year (y, m, d) = 100 * n + i" and "day_in_year (y, m, d) = u - (1461 * i) div 4"
    and "0 \<le> N" and "0 \<le> n" and "0 \<le> u" and "0 \<le> i"
proof -
  define z where "z = march_year (y, m, d)"
  define c where "c = z div 100"
  define k where "k = z mod 100"
  define t where "t = day_in_year (y, m, d)"
  have z: "z = 100 * c + k" "0 \<le> k" "k < 100" by (simp_all add: c_def k_def)
  have "0 \<le> z" using v march_year_bounds [OF v] by (simp add: z_def)
  then have c: "0 \<le> c" by (simp add: c_def)
  note t = day_in_year_bounds [OF v, folded t_def]
  have last: "t = 365 \<longrightarrow> k mod 4 = 3 \<and> (k = 99 \<longrightarrow> c mod 4 = 0)"
  proof (intro impI)
    assume "t = 365"
    then have "m = 2" "leap y" using t(3) by simp_all
    then have "z = y + 4899" by (simp add: z_def march_year_def)
    then have y': "y + 4900 = 100 * c + (k + 1)" using z by simp
    have "(100 * c + (k + 1)) mod 4 = 0" using \<open>leap y\<close> unfolding leap_march y' by simp
    moreover have "(100 * c + (k + 1)) mod 4 = (k + 1) mod 4"
      using mod_mult_self2 [of "k + 1" 4 "25 * c"] by (simp add: add.commute)
    ultimately have "(k + 1) mod 4 = 0" by simp
    then have "k mod 4 = 3" by presburger
    moreover have "c mod 4 = 0" if "k = 99"
    proof -
      have e: "y + 4900 = 100 * (c + 1)" using y' that by simp
      have "(y + 4900) mod 400 = 100" using \<open>leap y\<close> unfolding leap_march e by simp
      then have "100 * ((c + 1) mod 4) = 100" using mod_mult_mult1 [of 100 "c + 1" 4] by (simp add: e)
      then have "(c + 1) mod 4 = 1" by (simp only: mult_cancel_left1)
      then show "c mod 4 = 0" by presburger
    qed
    ultimately show "k mod 4 = 3 \<and> (k = 99 \<longrightarrow> c mod 4 = 0)" by simp
  qed
  have N: "N = years_before (100 * c + k) + t"
    by (simp add: N_def day_number_def z_def [symmetric] t_def [symmetric] z(1) [symmetric])
  note s = century_split [OF c z(2,3) t(1,2) last, folded N]
  have n: "n = c" using s(2) by (simp add: n_def)
  have u: "u = (1461 * k) div 4 + t" using s(1) by (simp add: u_def n)
  have i: "i = k" using s(3) by (simp add: i_def u)
  show "march_year (y, m, d) = 100 * n + i" "day_in_year (y, m, d) = u - (1461 * i) div 4"
    "0 \<le> N" "0 \<le> n" "0 \<le> u" "0 \<le> i"
    using z s(4,5) c by (simp_all add: n i u z_def [symmetric] t_def [symmetric])
qed

definition march_month :: "int \<Rightarrow> int" where
  "march_month m = (if m \<le> 2 then m + 10 else m - 2)"

lemma valid_dateD:
  assumes "valid_date (y, m, d)"
  shows "1 \<le> m" and "m \<le> 12" and "1 \<le> d" and "d \<le> 31" and "m = 2 \<longrightarrow> d \<le> 29"
    and "m \<in> {4, 6, 9, 11} \<longrightarrow> d \<le> 30" and "- 4799 \<le> y"
  using assms by (auto simp: month_days_def split: if_splits)

lemma month_of_day:
  assumes "valid_date (y, m, d)"
  shows "(80 * (day_in_year (y, m, d) + 31)) div 2447 = march_month m"
    and "(2447 * march_month m) div 80 = month_start m + 30"
    and "march_month m div 11 = (if m \<le> 2 then 1 else 0)" and "0 \<le> march_month m"
proof -
  note v = valid_dateD [OF assms]
  show "(80 * (day_in_year (y, m, d) + 31)) div 2447 = march_month m"
    and "(2447 * march_month m) div 80 = month_start m + 30"
    using month_and_day [OF v(1-6)] by (simp_all add: march_month_def day_in_year_def add.commute add.left_commute)
  show "march_month m div 11 = (if m \<le> 2 then 1 else 0)" "0 \<le> march_month m"
    using month_cases [OF v(1,2)] by (elim disjE; simp add: march_month_def)+
qed

lemma day_number_inject:
  assumes "valid_date a" and "valid_date b" and "day_number a = day_number b"
  shows "a = b"
proof -
  obtain y m d y' m' d' where ab: "a = (y, m, d)" "b = (y', m', d')" by (cases a, cases b) auto
  note v = assms(1,2) [unfolded ab]
  have z: "march_year (y, m, d) = march_year (y', m', d')" "day_in_year (y, m, d) = day_in_year (y', m', d')"
    using date_parts(1,2) [OF v(1)] date_parts(1,2) [OF v(2)] assms(3) unfolding ab by metis+
  then have "march_month m = march_month m'" using month_of_day(1) [OF v(1)] month_of_day(1) [OF v(2)] by metis
  then have "m = m'" using valid_dateD [OF v(1)] valid_dateD [OF v(2)] by (auto simp: march_month_def split: if_splits)
  then show ?thesis using z by (simp add: ab march_year_def day_in_year_def)
qed

lemma julian_to_date_julian:
  assumes v: "valid_date (y, m, d)" and small: "y < 2 ^ 31"
  shows "julian_to_date (julian (y, m, d)) = (y, m, d)"
proof -
  define N where "N = day_number (y, m, d)"
  define n where "n = (4 * N) div 146097"
  define u where "u = N - (146097 * n + 3) div 4"
  define i where "i = (4000 * (u + 1)) div 1461001"
  define t where "t = day_in_year (y, m, d)"
  note s = date_parts [OF v, folded N_def, folded n_def, folded u_def, folded i_def, folded t_def]
  note j = month_of_day [OF v, folded t_def]
  have t: "0 \<le> t" using day_in_year_bounds(1) [OF v] by (simp add: t_def)
  have L: "u - (1461 * i) div 4 + 31 = t + 31" using s(2) by simp
  have jd: "julian (y, m, d) + 68569 = N" by (simp add: julian_def N_def)
  have "100 * (n - 49) + i + march_month m div 11 = y"
    using s(1) j(3) by (simp add: march_year_def split: if_splits)
  moreover have "march_month m + 2 - 12 * (march_month m div 11) = m"
    using j(3) valid_dateD(1) [OF v] by (simp add: march_month_def)
  moreover have "t + 31 - (2447 * march_month m) div 80 = d" using j(2) by (simp add: t_def day_in_year_def)
  moreover have "(4 * N) sdiv 146097 = n" "(146097 * n + 3) sdiv 4 = (146097 * n + 3) div 4"
      "(4000 * (u + 1)) sdiv 1461001 = i" "(1461 * i) sdiv 4 = (1461 * i) div 4"
    using s(3-6) unfolding n_def i_def by (intro nonneg_sdiv; simp)+
  moreover have "(80 * (t + 31)) sdiv 2447 = march_month m"
      "(2447 * march_month m) sdiv 80 = (2447 * march_month m) div 80"
      "march_month m sdiv 11 = march_month m div 11"
    using t j(1,4) by (simp_all add: nonneg_sdiv)
  moreover have "to_int32 y = y" "to_int32 m = m" "to_int32 d = d"
    using valid_dateD [OF v] small by (simp_all add: to_int32_id)
  ultimately show ?thesis
    unfolding julian_to_date_def Let_def jd by (simp only: u_def [symmetric] L)
qed

section \<open>Ticks and seconds\<close>

definition day_seconds :: "tm \<Rightarrow> int" where
  "day_seconds tm = 3600 * tm_hour tm + 60 * tm_min tm + tm_sec tm"

definition stamp :: "tm \<Rightarrow> int" where
  "stamp tm = 86400 * julian (date_of tm) + day_seconds tm"

lemma day_seconds_bounds: "valid_tm tm \<Longrightarrow> 0 \<le> day_seconds tm \<and> day_seconds tm < 86400"
  by (simp add: valid_tm_def day_seconds_def)

lemma date_of_set_date [simp]: "date_of (set_date dt tm) = dt"
  by (cases dt) (simp add: set_date_def date_of_def)

lemma set_date_simps [simp]:
  "tm_sec (set_date dt tm) = tm_sec tm" "tm_min (set_date dt tm) = tm_min tm" "tm_hour (set_date dt tm) = tm_hour tm"
  by (simp_all add: set_date_def split: prod.splits)

lemma date_of_simps [simp]:
  "date_of (tm\<lparr>tm_sec := x\<rparr>) = date_of tm" "date_of (tm\<lparr>tm_min := x\<rparr>) = date_of tm"
  "date_of (tm\<lparr>tm_hour := x\<rparr>) = date_of tm"
  by (simp_all add: date_of_def)

lemma hms_parts:
  assumes "valid_tm tm"
  shows "day_seconds tm mod 60 = tm_sec tm" and "(day_seconds tm div 60) mod 60 = tm_min tm"
    and "day_seconds tm div 3600 = tm_hour tm"
proof -
  have v: "0 \<le> tm_min tm" "tm_min tm < 60" "0 \<le> tm_sec tm" "tm_sec tm < 60"
    using assms by (simp_all add: valid_tm_def)
  have s: "day_seconds tm = 60 * (60 * tm_hour tm + tm_min tm) + tm_sec tm" by (simp add: day_seconds_def)
  have m: "day_seconds tm div 60 = 60 * tm_hour tm + tm_min tm"
    using v s by (intro int_div_pos_eq [where r = "tm_sec tm"]) simp_all
  show "day_seconds tm mod 60 = tm_sec tm"
    using v s by (intro int_mod_pos_eq [where q = "60 * tm_hour tm + tm_min tm"]) simp_all
  show "(day_seconds tm div 60) mod 60 = tm_min tm" unfolding m using v by (intro int_mod_pos_eq [where q = "tm_hour tm"]) simp_all
  show "day_seconds tm div 3600 = tm_hour tm"
    using v by (intro int_div_pos_eq [where r = "60 * tm_min tm + tm_sec tm"]) (simp_all add: day_seconds_def)
qed

lemma tick_valid: "valid_tm tm \<Longrightarrow> valid_tm (tick tm)"
  by (auto simp: valid_tm_def tick_def intro: valid_next_date)

lemma tick_stamp: "valid_tm tm \<Longrightarrow> stamp (tick tm) = stamp tm + 1"
  using day_number_next [of "date_of tm"]
  by (auto simp: valid_tm_def tick_def stamp_def day_seconds_def julian_def)

lemma ticks:
  "valid_tm tm \<Longrightarrow> valid_tm ((tick ^^ k) tm) \<and> stamp ((tick ^^ k) tm) = stamp tm + int k"
  by (induction k) (simp_all add: tick_valid tick_stamp)

lemma stamp_inject:
  assumes "valid_tm a" and "valid_tm b" and "stamp a = stamp b"
  shows "a = b"
proof -
  have s: "stamp t div 86400 = julian (date_of t) \<and> stamp t mod 86400 = day_seconds t" if "valid_tm t" for t
    using day_seconds_bounds [OF that] by (simp add: stamp_def)
  have "date_of a = date_of b"
    using s [OF assms(1)] s [OF assms(2)] assms by (intro day_number_inject) (auto simp: valid_tm_def julian_def)
  moreover have "day_seconds a = day_seconds b" using s assms by metis
  then have "tm_sec a = tm_sec b \<and> tm_min a = tm_min b \<and> tm_hour a = tm_hour b"
    using hms_parts [OF assms(1)] hms_parts [OF assms(2)] by metis
  ultimately show ?thesis by (cases a, cases b) (auto simp: date_of_def)
qed

text \<open>The time \<open>k\<close> seconds later, or earlier.\<close>

definition later :: "int \<Rightarrow> tm \<Rightarrow> tm \<Rightarrow> bool" where
  "later k a b \<longleftrightarrow> (if 0 \<le> k then (tick ^^ nat k) a = b else (tick ^^ nat (- k)) b = a)"

lemma later_iff: "valid_tm a \<Longrightarrow> valid_tm b \<Longrightarrow> later k a b \<longleftrightarrow> stamp b = stamp a + k"
  using ticks [of a "nat k"] ticks [of b "nat (- k)"]
    stamp_inject [of "(tick ^^ nat k) a" b] stamp_inject [of "(tick ^^ nat (- k)) b" a]
  by (auto simp: later_def)

text \<open>Every number from 0 on is the one of a date.\<close>

lemma julian_onto:
  assumes "0 \<le> j"
  shows "\<exists>y m d. valid_date (y, m, d) \<and> julian (y, m, d) = j"
proof -
  let ?base = "(- 4799, 1, 1) :: date"
  have n: "valid_date ((next_date ^^ k) ?base) \<and> day_number ((next_date ^^ k) ?base) = day_number ?base + int k" for k
  proof (induction k)
    case 0
    show ?case by (simp add: month_days_def)
  qed (simp add: valid_next_date day_number_next del: valid_date.simps next_date.simps)
  have "day_number ?base \<le> 68569" by (simp add: day_number_def march_year_def day_in_year_def years_before_def month_start_def)
  then have "julian ((next_date ^^ nat (j + 68569 - day_number ?base)) ?base) = j"
    using n [of "nat (j + 68569 - day_number ?base)"] assms by (simp add: julian_def)
  then show ?thesis using n by (metis prod_cases3)
qed

section \<open>The functions\<close>

lemma valid_tmD:
  assumes "valid_tm tm"
  shows "valid_date (tm_year tm + 1900, tm_mon tm + 1, tm_mday tm)" and "0 \<le> tm_hour tm" and "tm_hour tm < 24"
    and "0 \<le> tm_min tm" and "tm_min tm < 60" and "0 \<le> tm_sec tm" and "tm_sec tm < 60"
  using assms by (simp_all add: valid_tm_def date_of_def)

text \<open>A quotient that is rounded towards zero, and the rest.\<close>

lemma sdiv_rest:
  fixes x :: int
  assumes "0 < k"
  shows "\<bar>x - (x sdiv k) * k\<bar> < k" and "\<bar>(x sdiv k) * k\<bar> \<le> \<bar>x\<bar>" and "\<bar>x sdiv k\<bar> \<le> \<bar>x\<bar>"
proof -
  have m: "\<bar>x\<bar> = \<bar>x\<bar> div k * k + \<bar>x\<bar> mod k" "0 \<le> \<bar>x\<bar> mod k" "\<bar>x\<bar> mod k < k" "0 \<le> \<bar>x\<bar> div k"
    using assms by (simp_all add: pos_imp_zdiv_nonneg_iff)
  have q: "x sdiv k = sgn x * (\<bar>x\<bar> div k)" using assms by (simp add: signed_divide_int_def)
  have r: "x - (x sdiv k) * k = sgn x * (\<bar>x\<bar> mod k)"
    by (metis m(1) q add_diff_cancel_left' mult.assoc right_diff_distrib' sgn_mult_abs)
  show "\<bar>x - (x sdiv k) * k\<bar> < k" unfolding r using m assms by (simp add: abs_mult sgn_if)
  have n: "0 \<le> \<bar>x\<bar> div k * k" using m(4) assms by simp
  define d where "d = \<bar>x\<bar> div k"
  have "d * k \<le> \<bar>x\<bar>" "0 \<le> d" using m unfolding d_def by linarith+
  then show "\<bar>(x sdiv k) * k\<bar> \<le> \<bar>x\<bar>" unfolding q d_def [symmetric] using assms
    by (cases "x < 0"; cases "x = 0") (simp_all add: abs_mult sgn_if)
  have "d * 1 \<le> d * k" using assms \<open>0 \<le> d\<close> by (intro mult_left_mono) simp_all
  then have "d \<le> \<bar>x\<bar>" using \<open>d * k \<le> \<bar>x\<bar>\<close> by simp
  then show "\<bar>x sdiv k\<bar> \<le> \<bar>x\<bar>" unfolding q d_def [symmetric] using \<open>0 \<le> d\<close>
    by (cases "x < 0"; cases "x = 0") (simp_all add: abs_mult sgn_if)
qed

lemma julian_adj_valid:
  assumes v: "valid_tm tm" and y: "tm_year tm \<le> 990000" and off: "\<bar>off_day\<bar> \<le> 2 ^ 30" and sec: "\<bar>offset_sec\<bar> < 2 ^ 30"
  defines "s \<equiv> stamp tm + 86400 * off_day + offset_sec"
  shows "julian_adj tm off_day offset_sec =
    Some (if s div 86400 < 0 then None else Some (s div 86400, s mod 86400))"
proof -
  note D = valid_tmD [OF v]
  define q where "q = offset_sec sdiv 86400"
  define r where "r = offset_sec - q * 86400"
  have q: "\<bar>q * 86400\<bar> < 2 ^ 30" "\<bar>q\<bar> < 2 ^ 30" and r: "\<bar>r\<bar> < 86400"
    using sdiv_rest [of 86400 offset_sec] sec by (simp_all add: q_def r_def)
  define h where "h = r + day_seconds tm"
  have ds: "0 \<le> day_seconds tm" "day_seconds tm < 86400" using day_seconds_bounds [OF v] by simp_all
  have h: "- 86400 < h" "h < 172800" using r ds by (simp_all add: h_def abs_less_iff)
  define j where "j = julian (date_of tm)"
  have s: "s = 86400 * (j + (q + off_day)) + h"
    by (simp add: s_def stamp_def j_def h_def r_def algebra_simps)
  have jd: "date_to_julian (tm_year tm + 1900) (tm_mon tm + 1) (tm_mday tm) = Some j"
    using date_to_julian_valid [OF D(1)] y by (simp add: j_def date_of_def)
  have yr: "- 4799 \<le> tm_year tm + 1900" "1 \<le> tm_mon tm + 1" "tm_mon tm + 1 \<le> 12"
    using valid_dateD [OF D(1)] by simp_all
  have base: "julian_adj tm off_day offset_sec = do {
      (offset_day, offset_hms) \<leftarrow>
        (if h \<ge> 86400 then do { d \<leftarrow> int32 (q + off_day + 1); Some (d, h - 86400) }
         else if h < 0 then do { d \<leftarrow> int32 (q + off_day - 1); Some (d, h + 86400) }
         else Some (q + off_day, h));
      Some (if j + offset_day < 0 then None else Some (j + offset_day, offset_hms)) }"
  proof -
    have b: "- (2 ^ 31) \<le> q" "q < 2 ^ 31" "- (2 ^ 31) \<le> q * 86400" "q * 86400 < 2 ^ 31" "- (2 ^ 31) \<le> r" "r < 2 ^ 31"
        "- (2 ^ 31) \<le> q + off_day" "q + off_day < 2 ^ 31" "- (2 ^ 31) \<le> h" "h < 2 ^ 31"
      using q r h off by (simp_all add: abs_less_iff abs_le_iff)
    have S: "SECS_PER_DAY = 86400" by (simp add: SECS_PER_DAY_def)
    have hh: "r + (tm_hour tm * 3600 + tm_min tm * 60 + tm_sec tm) = h" by (simp add: h_def day_seconds_def)
    have "julian_adj tm off_day offset_sec = do {
        whole_days \<leftarrow> int32 (q * 86400);
        let offset_hms = to_int32 (offset_sec - whole_days);
        offset_day \<leftarrow> int32 (q + off_day);
        offset_hms \<leftarrow> int32 (offset_hms + (tm_hour tm * 3600 + tm_min tm * 60 + tm_sec tm));
        (offset_day, offset_hms) \<leftarrow>
          (if offset_hms \<ge> 86400 then do { d \<leftarrow> int32 (offset_day + 1); Some (d, offset_hms - 86400) }
           else if offset_hms < 0 then do { d \<leftarrow> int32 (offset_day - 1); Some (d, offset_hms + 86400) }
           else Some (offset_day, offset_hms));
        Some (if j + offset_day < 0 then None else Some (j + offset_day, offset_hms)) }"
      unfolding julian_adj_def S
      using D yr y by (simp add: q_def [symmetric] to_int32_id [OF b(1,2)] int32_ok jd Let_def)
    then show ?thesis
      by (simp only: int32_ok [OF b(3,4)] int32_ok [OF b(7,8)] int32_ok [OF b(9,10)] r_def [symmetric]
          to_int32_id [OF b(5,6)] hh bind.bind_lunit Let_def)
  qed
  consider "86400 \<le> h" | "0 \<le> h" "h < 86400" | "h < 0" by linarith
  then show ?thesis
  proof cases
    case 1
    have "s div 86400 = j + (q + off_day + 1)" "s mod 86400 = h - 86400"
      using 1 h by (auto simp: s intro!: int_div_pos_eq [where r = "h - 86400"] int_mod_pos_eq [where q = "j + (q + off_day + 1)"])
    then show ?thesis using 1 q off by (simp add: base int32_ok abs_less_iff abs_le_iff)
  next
    case 2
    have "s div 86400 = j + (q + off_day)" "s mod 86400 = h"
      using 2 by (auto simp: s intro!: int_mod_pos_eq [where q = "j + (q + off_day)"])
    then show ?thesis using 2 by (simp add: base)
  next
    case 3
    have "s div 86400 = j + (q + off_day - 1)" "s mod 86400 = h + 86400"
      using 3 h by (auto simp: s intro!: int_div_pos_eq [where r = "h + 86400"] int_mod_pos_eq [where q = "j + (q + off_day - 1)"])
    then show ?thesis using 3 q off by (simp add: base int32_ok abs_less_iff abs_le_iff)
  qed
qed

lemma split_time:
  assumes "0 \<le> sec" and "sec < 86400"
  shows "3600 * (sec div 3600) + 60 * ((sec div 60) mod 60) + sec mod 60 = (sec :: int)"
    and "sec div 3600 < 24" and "0 \<le> sec div 3600"
proof -
  have "sec div 3600 = (sec div 60) div 60" using div_mult2_eq' [of sec 60 60] by (simp add: zdiv_zmult2_eq [of 60 sec 60])
  then have "60 * (sec div 3600) + (sec div 60) mod 60 = sec div 60" by simp
  then show "3600 * (sec div 3600) + 60 * ((sec div 60) mod 60) + sec mod 60 = sec"
    using mult_div_mod_eq [of 60 sec] by linarith
  show "sec div 3600 < 24" "0 \<le> sec div 3600" using assms by simp_all
qed

text \<open>The time with a given date and second of the day.\<close>

definition time_at :: "date \<Rightarrow> int \<Rightarrow> tm" where
  "time_at dt sec = (case dt of (y, m, d) \<Rightarrow>
     \<lparr>tm_sec = sec mod 60, tm_min = (sec div 60) mod 60, tm_hour = sec div 3600,
      tm_mday = d, tm_mon = m - 1, tm_year = y - 1900\<rparr>)"

lemma time_at:
  assumes "valid_date dt" and "0 \<le> sec" and "sec < 86400"
  shows "valid_tm (time_at dt sec)" and "stamp (time_at dt sec) = 86400 * julian dt + sec"
    and "date_of (time_at dt sec) = dt"
proof -
  obtain y m d where dt: "dt = (y, m, d)" by (cases dt) auto
  show "date_of (time_at dt sec) = dt" by (simp add: dt time_at_def date_of_def)
  then show "valid_tm (time_at dt sec)" "stamp (time_at dt sec) = 86400 * julian dt + sec"
    using assms split_time [OF assms(2,3)]
    by (simp_all add: valid_tm_def stamp_def day_seconds_def dt time_at_def del: valid_date.simps)
qed

definition adj_years :: "tm \<Rightarrow> bool" where
  "adj_years tm \<longleftrightarrow> 1900 \<le> tm_year tm + 1900 \<and> tm_year tm + 1900 \<le> 9999"

lemma years_before_bounds: "0 \<le> k \<Longrightarrow> 365 * k \<le> years_before k \<and> years_before k \<le> 366 * k"
proof -
  assume k: "0 \<le> k"
  define c where "c = k div 100"
  define q where "q = k div 4"
  have "0 \<le> c" "100 * c \<le> k" "0 \<le> q" "4 * q \<le> k" "k \<le> 4 * q + 3" using k by (simp_all add: c_def q_def)
  moreover have "0 \<le> (3 * c) div 4" "4 * ((3 * c) div 4) \<le> 3 * c" using \<open>0 \<le> c\<close> by simp_all
  ultimately show ?thesis unfolding years_before_def year_days c_def [symmetric] q_def [symmetric]
    by linarith
qed

lemma julian_bounds:
  assumes "valid_date (y, m, d)"
  shows "365 * y + 1719566 \<le> julian (y, m, d)" and "julian (y, m, d) \<le> 366 * y + 1725196"
proof -
  have "0 \<le> march_year (y, m, d)" using march_year_bounds(1) [OF assms] valid_dateD(7) [OF assms] by simp
  then show "365 * y + 1719566 \<le> julian (y, m, d)" "julian (y, m, d) \<le> 366 * y + 1725196"
    using years_before_bounds [of "march_year (y, m, d)"] march_year_bounds [OF assms] day_in_year_bounds(1,2) [OF assms]
    by (simp_all add: julian_def day_number_def)
qed

lemma gmtime_adj:
  assumes v: "valid_tm tm" and y: "tm_year tm \<le> 990000" and off: "\<bar>off_day\<bar> \<le> 2 ^ 30" and sec: "\<bar>offset_sec\<bar> < 2 ^ 30"
    and r: "OPENSSL_gmtime_adj tm off_day offset_sec = Some (ok, tm')"
  defines "s \<equiv> stamp tm + 86400 * off_day + offset_sec"
  shows "if ok then valid_tm tm' \<and> adj_years tm' \<and> stamp tm' = s
    else tm' = tm \<and> (\<nexists>t. valid_tm t \<and> adj_years t \<and> stamp t = s)"
proof (cases "s div 86400 < 0")
  case True
  then have neg: "s < 0" by simp
  have "0 \<le> stamp t" if "valid_tm t" "adj_years t" for t
    using julian_bounds(1) [OF valid_tmD(1) [OF that(1)]] that day_seconds_bounds [OF that(1)]
    by (simp add: adj_years_def stamp_def date_of_def)
  then have "stamp t \<noteq> s" if "valid_tm t" "adj_years t" for t using that neg by fastforce
  then show ?thesis using r True julian_adj_valid [OF v y off sec, folded s_def]
    by (auto simp: OPENSSL_gmtime_adj_def)
next
  case False
  define sec' where "sec' = s mod 86400"
  have sec': "0 \<le> sec'" "sec' < 86400" "s = 86400 * (s div 86400) + sec'" by (simp_all add: sec'_def)
  obtain y' m d where d: "valid_date (y', m, d)" "julian (y', m, d) = s div 86400"
    using julian_onto [of "s div 86400"] False by auto
  have "y' < 2147483648"
  proof -
    define j where "j = s div 86400"
    have "s \<le> 86400 * (366 * (tm_year tm + 1900) + 1725196) + 86400 + 86400 * 1073741824 + 1073741824"
      using julian_bounds(2) [OF valid_tmD(1) [OF v]] day_seconds_bounds [OF v] off sec
      by (simp add: s_def stamp_def date_of_def abs_less_iff abs_le_iff)
    moreover have "s = 86400 * j + sec'" using sec'(3) by (simp add: j_def)
    moreover have "365 * y' + 1719566 \<le> j" using julian_bounds(1) [OF d(1)] d(2) by (simp add: j_def)
    moreover from calculation have "j \<le> 1500000000" using sec'(1) y by simp
    ultimately show ?thesis by simp
  qed
  then have jd: "julian_to_date (s div 86400) = (y', m, d)" using julian_to_date_julian [OF d(1)] d(2) by simp
  note t = time_at [OF d(1) sec'(1,2)]
  have st: "stamp (time_at (y', m, d) sec') = s" using t(2) d(2) sec'(3) by simp
  have "OPENSSL_gmtime_adj tm off_day offset_sec =
      (if y' < 1900 \<or> y' > 9999 then Some (False, tm) else Some (True, time_at (y', m, d) sec'))"
  proof -
    have adj: "julian_adj tm off_day offset_sec = Some (Some (s div 86400, sec'))"
      using julian_adj_valid [OF v y off sec, folded s_def] False by (simp add: sec'_def)
    have "0 \<le> sec' div 60" using sec'(1) by simp
    with sec'(1) have q: "sec' smod 60 = sec' mod 60" "sec' sdiv 60 smod 60 = sec' div 60 mod 60"
        "sec' sdiv 3600 = sec' div 3600"
      by (simp_all add: nonneg_sdiv nonneg_smod)
    show ?thesis unfolding OPENSSL_gmtime_adj_def adj
      by (simp only: jd time_at_def q Let_def prod.case option.case bind.bind_lunit)
  qed
  then have run: "Some (ok, tm') = (if y' < 1900 \<or> y' > 9999 then Some (False, tm) else Some (True, time_at (y', m, d) sec'))"
    using r by simp
  have year: "tm_year (time_at (y', m, d) sec') = y' - 1900" by (simp add: time_at_def)
  show ?thesis
  proof (cases "y' < 1900 \<or> y' > 9999")
    case True
    have "\<not> (valid_tm u \<and> adj_years u \<and> stamp u = s)" for u
    proof
      assume u: "valid_tm u \<and> adj_years u \<and> stamp u = s"
      then have "u = time_at (y', m, d) sec'" using stamp_inject [of u, OF _ t(1)] st by simp
      then show False using u year True by (simp add: adj_years_def)
    qed
    then show ?thesis using run True by simp
  next
    case False
    then show ?thesis using run t(1) st year by (simp add: adj_years_def)
  qed
qed

section \<open>Properties\<close>

text \<open>
  C30: \<open>OPENSSL_gmtime_adj\<close> gives the time that is the given number of days and seconds away, as a
  clock that is advanced second by second through the Gregorian calendar shows it, with its
  months and leap years; it fails, and leaves the time as it is, only when no time of the years
  1900 to 9999 is that far away.  Offsets of \<open>2 ^ 30\<close> and more are outside.
\<close>
theorem OPENSSL_gmtime_adj_ticks:
  assumes "valid_tm tm" and "tm_year tm \<le> 990000" and "\<bar>off_day\<bar> \<le> 2 ^ 30" and "\<bar>offset_sec\<bar> < 2 ^ 30"
  shows "\<exists>ok tm'. OPENSSL_gmtime_adj tm off_day offset_sec = Some (ok, tm') \<and>
    (if ok then valid_tm tm' \<and> adj_years tm' \<and> later (86400 * off_day + offset_sec) tm tm'
     else tm' = tm \<and> (\<nexists>t. valid_tm t \<and> adj_years t \<and> later (86400 * off_day + offset_sec) tm t))"
proof -
  obtain ok tm' where r: "OPENSSL_gmtime_adj tm off_day offset_sec = Some (ok, tm')"
  proof -
    have "OPENSSL_gmtime_adj tm off_day offset_sec \<noteq> None"
      unfolding OPENSSL_gmtime_adj_def julian_adj_valid [OF assms]
      by (auto simp: Let_def split: option.splits prod.splits)
    then show ?thesis using that by (metis option.exhaust prod.exhaust)
  qed
  then show ?thesis using gmtime_adj [OF assms r] later_iff [OF assms(1)] by (auto simp: add.assoc split: if_splits)
qed

theorem OPENSSL_gmtime_adj_ticks_witness:
  "(tick ^^ 86461) \<lparr>tm_sec = 59, tm_min = 59, tm_hour = 23, tm_mday = 28, tm_mon = 1, tm_year = 100\<rparr> =
     \<lparr>tm_sec = 0, tm_min = 1, tm_hour = 0, tm_mday = 1, tm_mon = 2, tm_year = 100\<rparr>"
proof -
  let ?tm = "\<lparr>tm_sec = 59, tm_min = 59, tm_hour = 23, tm_mday = 28, tm_mon = 1, tm_year = 100\<rparr>"
  let ?tm' = "\<lparr>tm_sec = 0, tm_min = 1, tm_hour = 0, tm_mday = 1, tm_mon = 2, tm_year = 100\<rparr>"
  have "OPENSSL_gmtime_adj ?tm 1 61 = Some (True, ?tm')" by code_simp
  moreover have "valid_tm ?tm" by code_simp
  from OPENSSL_gmtime_adj_ticks [OF this, of 1 61] obtain ok tm' where
    "OPENSSL_gmtime_adj ?tm 1 61 = Some (ok, tm')" "ok \<longrightarrow> later 86461 ?tm tm'" by (auto split: if_splits)
  ultimately show ?thesis by (simp add: later_def)
qed

text \<open>
  \<open>OPENSSL_gmtime_diff\<close> gives the distance of two times in days and seconds, both with the
  sign of the distance and less than a day of seconds.
\<close>
theorem OPENSSL_gmtime_diff_ticks:
  assumes "valid_tm a" and "valid_tm b" and "0 \<le> tm_year a + 1900" and "0 \<le> tm_year b + 1900"
    and "tm_year a \<le> 990000" and "tm_year b \<le> 990000"
  shows "\<exists>days secs. OPENSSL_gmtime_diff a b = Some (Some (days, secs)) \<and> later (86400 * days + secs) a b \<and>
    \<bar>secs\<bar> < 86400 \<and> (0 \<le> days \<and> 0 \<le> secs \<or> days \<le> 0 \<and> secs \<le> 0)"
proof -
  have adj: "julian_adj t 0 0 = Some (Some (julian (date_of t), day_seconds t))"
    if "valid_tm t" "0 \<le> tm_year t + 1900" "tm_year t \<le> 990000" for t
    using julian_adj_valid [OF that(1,3), of 0 0] julian_bounds(1) [OF valid_tmD(1) [OF that(1)]] that(2)
      day_seconds_bounds [OF that(1)] by (simp add: stamp_def date_of_def)
  have small: "to_int32 x = x" if "\<bar>x - (julian (date_of b) - julian (date_of a))\<bar> \<le> 1" for x
    using that julian_bounds [OF valid_tmD(1) [OF assms(1)]] julian_bounds [OF valid_tmD(1) [OF assms(2)]] assms(3-6)
    by (intro to_int32_id) (simp_all add: date_of_def abs_le_iff)
  have s: "0 \<le> day_seconds a" "day_seconds a < 86400" "0 \<le> day_seconds b" "day_seconds b < 86400"
    using day_seconds_bounds assms(1,2) by auto
  define dd where "dd = julian (date_of b) - julian (date_of a)"
  define ds where "ds = day_seconds b - day_seconds a"
  have st: "stamp b = stamp a + (86400 * dd + ds)" by (simp add: stamp_def dd_def ds_def)
  have ds: "\<bar>ds\<bar> < 86400" using s by (simp add: ds_def abs_less_iff)
  have run: "OPENSSL_gmtime_diff a b =
      (let (d, s) = (if dd > 0 \<and> ds < 0 then (dd - 1, ds + 86400) else (dd, ds));
           (d, s) = (if d < 0 \<and> s > 0 then (d + 1, s - 86400) else (d, s))
       in Some (Some (to_int32 d, s)))"
    unfolding OPENSSL_gmtime_diff_def adj [OF assms(1,3,5)] adj [OF assms(2,4,6)]
    by (simp add: dd_def ds_def SECS_PER_DAY_def Let_def)
  consider "dd > 0" "ds < 0" | "dd < 0" "ds > 0" | "0 \<le> dd \<and> 0 \<le> ds \<or> dd \<le> 0 \<and> ds \<le> 0" by linarith
  then show ?thesis
  proof cases
    case 1
    then show ?thesis using ds by (simp add: run small [folded dd_def] later_iff [OF assms(1,2)] st abs_less_iff)
  next
    case 2
    then show ?thesis using ds by (simp add: run small [folded dd_def] later_iff [OF assms(1,2)] st abs_less_iff)
  next
    case 3
    then have "OPENSSL_gmtime_diff a b = Some (Some (dd, ds))" by (auto simp: run small [folded dd_def])
    then show ?thesis using 3 ds by (simp add: later_iff [OF assms(1,2)] st)
  qed
qed

theorem OPENSSL_gmtime_diff_ticks_witness:
  "later (86400 * (- 1) + (- 2)) \<lparr>tm_sec = 1, tm_min = 0, tm_hour = 0, tm_mday = 1, tm_mon = 2, tm_year = 100\<rparr>
     \<lparr>tm_sec = 59, tm_min = 59, tm_hour = 23, tm_mday = 28, tm_mon = 1, tm_year = 100\<rparr>"
proof -
  let ?a = "\<lparr>tm_sec = 1, tm_min = 0, tm_hour = 0, tm_mday = 1, tm_mon = 2, tm_year = 100\<rparr>"
  let ?b = "\<lparr>tm_sec = 59, tm_min = 59, tm_hour = 23, tm_mday = 28, tm_mon = 1, tm_year = 100\<rparr>"
  have "OPENSSL_gmtime_diff ?a ?b = Some (Some (- 1, - 2))" by code_simp
  moreover have "valid_tm ?a" "valid_tm ?b" by code_simp+
  ultimately show ?thesis using OPENSSL_gmtime_diff_ticks [of ?a ?b] by simp
qed

text \<open>
  From 68 years of seconds on, the number of days in the offset is multiplied by the seconds of a
  day in the type \<open>int\<close>, which overflows.
\<close>
lemma OPENSSL_gmtime_adj_overflows:
  assumes "24856 * 86400 \<le> offset_sec" and "offset_sec < 2 ^ 40"
  shows "OPENSSL_gmtime_adj tm off_day offset_sec = None"
proof -
  define q where "q = offset_sec div 86400"
  have q: "24856 \<le> q" "q < 2 ^ 31" using assms by (simp_all add: q_def)
  have "offset_sec sdiv SECS_PER_DAY = q" using assms by (simp add: nonneg_sdiv q_def SECS_PER_DAY_def)
  moreover have "to_int32 q = q" using q by (intro to_int32_id) simp_all
  moreover have "int32 (q * SECS_PER_DAY) = None" using q by (simp add: int32_def SECS_PER_DAY_def)
  ultimately show ?thesis by (simp add: OPENSSL_gmtime_adj_def julian_adj_def Let_def)
qed

end
