(* ===== verification/Spec2Isabelle.thy ===== *)
theory Spec2Isabelle
  imports Asn1_Header Asn1_Sets Base64_Stream Bio_Pair_Main Cbb_Build Hkdf Lhash Mbstring Md45 Modes_Cbc Modes_Cfbr Modes_Ctr32 Oid Pb_Decode_Props Sha2_Constants Sha2_Props Time_Support
begin

text \<open>
  Verification of C code that the chat application \<open>ChatAppTFS\<close> is built with.

  The application itself is written in Swift.  Its C and C++ code is in the pods under
  \<open>src/ChatAppTFS/Pods\<close>: Firestore talks to its server with gRPC, whose connections are secured
  by BoringSSL (\<open>BoringSSL-GRPC\<close>), and stores and transports messages in the protocol-buffer
  format with \<open>nanopb\<close>.  This development models the parts of BoringSSL that handle untrusted
  bytes and shared state, and all of nanopb.  The build is the one of the pods: 64-bit
  little-endian targets, \<open>size_t\<close> and \<open>long\<close> of 64 bits, \<open>int\<close> of 32 bits, assertions enabled, and
  for nanopb \<open>PB_FIELD_32BIT\<close>, \<open>PB_NO_PACKED_STRUCTS\<close> and \<open>PB_ENABLE_MALLOC\<close>.

  \<^bold>\<open>Conventions\<close>  (theory \<open>Prelude\<close>).  A machine integer is a word of its width where
  it may wrap around or is worked on bitwise; sizes are natural numbers, with \<open>wrap64\<close> written
  out where the code adds or subtracts without a check.  A function that fails returns an
  option or a pair with a flag, as the code does; what would be undefined in C, a failed
  assertion or a loop that does not end is \<open>None\<close> of an outer option.  Memory that the code
  allocates comes from an allocator that is a parameter of the model (\<open>allocator\<close> of \<open>Mem\<close>):
  it may fail at any call, and a block holds bytes of its choice; the hypothesis \<open>malloc_ok\<close> says
  that a block has the size asked for, \<open>malloc_total\<close> that no call fails.

  \<^bold>\<open>BoringSSL, byte strings and ASN.1\<close>  (files of \<open>crypto/bytestring\<close> and \<open>crypto/asn1\<close>)

  \<^item> \<open>Mem\<close>: \<open>mem.c\<close>, the allocation wrapper, comparisons, string helpers.
  \<^item> \<open>Cbs\<close>: \<open>cbs.c\<close>.  A \<open>CBS\<close> is the list of bytes left; a reader returns its result and what is
    left.  \<open>Der\<close>: the shortest encodings of X.690 as plain functions, and that the reader
    of elements accepts exactly these.  \<open>Asn1_Values\<close>: typed values, read and written.
  \<^item> \<open>Cbb\<close>: \<open>cbb.c\<close>.  A builder state has the shared buffer and the chain of open children with
    their offsets.  \<open>Cbb_Refine\<close>: it implements a stack of byte strings, whose closing
    puts the length before the contents; \<open>Cbb_Build\<close>: whole sessions.  \<open>Asn1_Sets\<close>:
    \<open>CBB_flush_asn1_set_of\<close> of \<open>cbb.c\<close>, which sorts the elements of a SET OF by their encodings with a
    sort that is a parameter.
  \<^item> \<open>Oid\<close>: \<open>CBS_asn1_oid_to_text\<close> and \<open>add_decimal\<close> of \<open>cbs.c\<close>, and that \<open>CBB_add_asn1_oid_from_text\<close>
    reads their text back.
  \<^item> \<open>Codec\<close>: the interface of a reader with the encodings it is meant for, as locales;
    \<open>Unicode\<close>: \<open>unicode.c\<close>, four interpretations of them; \<open>Mbstring\<close>: \<open>a_mbstr.c\<close> and the
    string objects of \<open>asn1_lib.c\<close>; \<open>Asn1_Header\<close>: the older reader and writer of headers
    of \<open>asn1_lib.c\<close>, their round trip, and that they agree with \<open>cbs.c\<close>.
  \<^item> \<open>Time_Support\<close>: \<open>time_support.c\<close>, calendar arithmetic against a clock of the Gregorian calendar
    that advances second by second.

  \<^bold>\<open>BoringSSL, containers and codecs\<close>

  \<^item> \<open>Stack\<close>: \<open>stack/stack.c\<close>, growing arrays with a comparison function and a flag for being sorted.
    \<open>Lhash\<close>: \<open>lhash/lhash.c\<close>, the table as a list of chains, refining a finite map; the
    interpretations use the comparisons and the hash of the code.
  \<^item> \<open>Constant_Time\<close>: the branch-free helpers of \<open>internal.h\<close>.  \<open>Base64\<close> and \<open>Base64_Stream\<close>:
    \<open>base64/base64.c\<close>, against sextets of RFC 4648, for any division of the input into chunks.

  \<^bold>\<open>BoringSSL, modes of operation\<close>  (files of \<open>crypto/fipsmodule/modes\<close>)

  \<^item> \<open>Modes\<close>: \<open>ctr.c\<close>, \<open>ofb.c\<close> and \<open>cfb.c\<close> over a block cipher that is a parameter; the locales
    \<open>byte_machine\<close>, \<open>key_stream\<close> and \<open>inverse_machines\<close> say that a mode is a machine that takes byte
    after byte, so that the pieces of a message do not matter.  \<open>Modes_Ctr32\<close>: the variant
    with a counter of 32 bits is the same.  \<open>Modes_Cfbr\<close>: feedback of bytes and of bits.
  \<^item> \<open>Modes_Cbc\<close>: \<open>cbc.c\<close> over one memory, with overlapping input and output.

  \<^bold>\<open>BoringSSL, digests\<close>  (files of \<open>crypto/fipsmodule\<close>)

  \<^item> \<open>Digest\<close>: \<open>digest/md32_common.h\<close> and the collector of \<open>sha512.c\<close>, over any function on
    blocks: what a context stands for (\<open>absorbed\<close>), padding, and the locale \<open>digest\<close> for the
    contract of update and final, from which pieces do not matter.
  \<^item> \<open>Sha2\<close>: \<open>sha/sha256.c\<close> and \<open>sha512.c\<close>; \<open>Sha2_Spec\<close>: the functions of FIPS 180-4, with the
    schedule as a recursion, and that the rotating registers and the window of sixteen words
    compute them; \<open>Sha2_Props\<close>: the interpretations; \<open>Sha2_Constants\<close>: where the
    constants come from.
  \<^item> \<open>Sha1\<close>: \<open>sha/sha1.c\<close>; \<open>Md45\<close>: \<open>md5/md5.c\<close> and \<open>md4/md4.c\<close>.  The unrolled macro calls are tables,
    which are the patterns of FIPS 180-4, RFC 1321 and RFC 1320.  \<open>Md5_Sines\<close>: the constants of MD5
    are bits of sines, by rotations with a bound of their error.
  \<^item> \<open>Evp_Digest\<close>: \<open>digest/digest.c\<close> and \<open>digests.c\<close>, the eight digests behind a table of methods
    (\<open>method_of\<close>) and the contexts that own a state; the locale \<open>evp_method\<close> is the contract of a
    method, interpreted on each digest.
  \<^item> \<open>Hmac\<close>: \<open>hmac/hmac.c\<close> computes RFC 2104 over any of them, from message to message with the
    same key.  \<open>Hkdf\<close>: \<open>hkdf/hkdf.c\<close> computes RFC 5869.

  \<^bold>\<open>BoringSSL, I/O objects\<close>

  \<^item> \<open>Refcount\<close>: \<open>refcount_c11.c\<close>; the concurrent calls are an inductive step relation, one step for
    each access to the shared count, and the runs are linearizable.
  \<^item> \<open>Bio\<close>: \<open>bio/bio.c\<close> over a heap of objects (a map from addresses) and an environment of method
    tables.  \<open>Bio_Source\<close>: the contract of a source of bytes as a locale, and what
    \<open>bio_read_full\<close> and \<open>BIO_read_asn1\<close> do on one.
  \<^item> \<open>Bio_Pair\<close>: \<open>bio/pair.c\<close>, the methods of connected pairs.  \<open>Bio_Pair_Safe\<close>: the ring buffers
    are queues; \<open>Bio_Pair_Run\<close> and \<open>Bio_Pair_Calls\<close>: the invariant \<open>pair_wf\<close> of the heap, the
    queues it stands for (\<open>chans\<close>), the calls of \<open>bio.c\<close> on pairs, and the interpretation of
    the source contract; \<open>Bio_Pair_Props\<close>, \<open>Bio_Pair_Runs\<close> and \<open>Bio_Pair_Main\<close>: creation, control and
    release, all sequences of calls, and the properties.

  \<^bold>\<open>nanopb\<close>

  \<^item> \<open>Pb_Fields\<close>: \<open>pb.h\<close> and \<open>pb_common.c\<close>, field descriptors and the iterator.
  \<^item> \<open>Pb_Istream\<close> and \<open>Pb_Ostream\<close>: the streams over any callback (locales \<open>read_callback\<close> and
    \<open>write_callback\<close>, interpreted on the buffers), varints, fixed-width values, tags,
    substreams, submessages.
  \<^item> \<open>Pb_Encode\<close>: \<open>pb_encode.c\<close> over a memory of bytes; \<open>Pb_Encode_Refine\<close>: the bytes are the wire
    format of the message in the structure, the size is exact.
  \<^item> \<open>Pb_Decode\<close>: \<open>pb_decode.c\<close>, with pointers, unions, extensions, callbacks and default
    values; \<open>Pb_Decode_Safe\<close>: without pointers and callbacks it writes only inside the
    structure, whatever the input; \<open>Pb_Decode_Props\<close>: required fields, integer ranges, and
    the defects found.

  \<^bold>\<open>Loops and fuel.\<close>  Most loops are structural or have a measure.  A loop over a linked structure or
  driven by a callback is a partial function with results in \<open>option\<close>, and the theorems say that
  it returns.  The recursion of nanopb over submessages has fuel; the theorems hold for
  every fuel, or state the nesting depth that is enough.

  \<^bold>\<open>Not modelled.\<close>  Of the components here: the release of memory (\<open>OPENSSL_free\<close> and its
  cleansing), except where a later use is the point; the error queue, of which only the returned
  codes are seen; the output of diagnostics; \<open>BIO_snprintf\<close>, which calls the C library (its format
  of numbers is \<open>decimal\<close> of \<open>Oid\<close>); in \<open>lhash.c\<close> a walk whose callback changes the table it walks
  over; in \<open>pb_decode.c\<close> what a callback wrote before it failed, and the build without 64-bit
  numbers; in \<open>sha512.c\<close> the block function for 32-bit processors; in \<open>digest.c\<close> the copy of a context to
  itself, and what a signature context is.  Of the pods: the public-key arithmetic and the block ciphers of
  BoringSSL, X.509 and TLS (too large to follow in full; their tables and
  assembly are generated), the C++ code of gRPC, Abseil, LevelDB and Firestore (templates, threads
  and system calls), and the Objective-C and Swift code.
\<close>

text \<open>
  C4: what a builder session writes with \<open>CBB_add_asn1_uint64\<close>, \<open>CBS_get_asn1_uint64\<close>
  reads back, and nothing is left; with an allocator that does not fail the session
  succeeds.
\<close>

theorem asn1_uint64_roundtrip:
  assumes "malloc_ok ml" and "malloc_total ml" and "n \<le> 2 ^ 60"
  shows "\<exists>out. cbb_session ml n (CBB_add_asn1_uint64 ml 0 v) = Some out \<and>
    CBS_get_asn1_uint64 out = (Some v, [])"
proof -
  let ?el = "der_element CBS_ASN1_INTEGER (der_int (uint v))"
  have "length ?el \<le> 2 ^ 60"
    using length_der_int_uint [of v] length_der_tag_bytes [of CBS_ASN1_INTEGER]
      length_der_len_bytes [of "length (der_int (uint v))"]
    by (simp add: der_element_def der_header_def)
  then have "cbb_session ml n (CBB_add_asn1_uint64 ml 0 v) = Some ?el"
    by (rule cbb_session_add [OF assms cbb_add_asn1_uint64_refines [OF assms(1)]])
  then show ?thesis by (simp add: CBS_get_asn1_uint64_iff)
qed

theorem asn1_uint64_roundtrip_witness:
  "\<exists>out. cbb_session zero_malloc 16 (CBB_add_asn1_uint64 zero_malloc 0 0x80) = Some out \<and>
     CBS_get_asn1_uint64 out = (Some 0x80, [])"
  by (rule asn1_uint64_roundtrip) (simp_all add: malloc_total_def zero_malloc_def)

text \<open>
  What a builder session writes with \<open>CBB_add_asn1_int64\<close>, \<open>CBS_get_asn1_int64\<close>
  reads back, and nothing is left.
\<close>

theorem asn1_int64_roundtrip:
  assumes "malloc_ok ml" and "malloc_total ml" and "n \<le> 2 ^ 60"
  shows "\<exists>out. cbb_session ml n (CBB_add_asn1_int64 ml 0 v) = Some out \<and>
    CBS_get_asn1_int64 out = (Some v, [])"
proof -
  let ?el = "der_element CBS_ASN1_INTEGER (der_int (sint v))"
  have "length ?el \<le> 2 ^ 60"
    using length_der_int_sint [of v] length_der_tag_bytes [of CBS_ASN1_INTEGER]
      length_der_len_bytes [of "length (der_int (sint v))"]
    by (simp add: der_element_def der_header_def)
  then have "cbb_session ml n (CBB_add_asn1_int64 ml 0 v) = Some ?el"
    by (rule cbb_session_add [OF assms cbb_add_asn1_int64_refines [OF assms(1)]])
  then show ?thesis by (simp add: CBS_get_asn1_int64_iff)
qed

theorem asn1_int64_roundtrip_witness:
  "\<exists>out. cbb_session zero_malloc 16 (CBB_add_asn1_int64 zero_malloc 0 (- 129)) = Some out \<and>
     CBS_get_asn1_int64 out = (Some (- 129), [])"
  by (rule asn1_int64_roundtrip) (simp_all add: malloc_total_def zero_malloc_def)

end
